(* ===== verification/Prelude.thy ===== *)
theory Prelude
  imports Main "HOL-Library.Word" "HOL-Library.Multiset"
begin

text \<open>
  Shared ground of the development: the machine types of \<^verbatim>\<open>src/espresso\<close>, the error
  values, the loop shapes that the set routines use over and over (a \<^verbatim>\<open>do ... while\<close>
  counting a word index down to 1), the sorting routine of the C library, and the generic lemmas
  on words, lists and sorting that the components share.
\<close>

unbundle bit_operations_syntax

section \<open>Types and errors\<close>

type_synonym u32 = "32 word"

text \<open>A \<^verbatim>\<open>pset\<close> points to an array of unsigned ints; the model holds the array.\<close>

type_synonym pset = "u32 list"

text \<open>
  \<^verbatim>\<open>fatal\<close> prints its message and exits. \<open>DivZero\<close> is an integer division by zero,
  \<open>Overflow\<close> a write behind the end of an array and \<open>Freed\<close> a use of freed memory, \<open>NullPtr\<close> an access through a null
  pointer, all undefined in C. \<open>Nofuel\<close> is not a behaviour of the program: it
  is the value of a recursion that was given too little fuel, and every such recursion has a lemma
  that says how much is enough.
\<close>

datatype error = Fatal string | DivZero | Overflow | Freed | NullPtr | Nofuel

type_synonym 'a res = "error + 'a"

fun rbind :: "'a res \<Rightarrow> ('a \<Rightarrow> 'b res) \<Rightarrow> 'b res" where
  "rbind (Inl e) f = Inl e"
| "rbind (Inr x) f = f x"

fun rmap :: "('a \<Rightarrow> 'b) \<Rightarrow> 'a res \<Rightarrow> 'b res" where
  "rmap f (Inl e) = Inl e"
| "rmap f (Inr x) = Inr (f x)"

lemma rbind_cong [fundef_cong]:
  "m = m' \<Longrightarrow> (\<And>x. m' = Inr x \<Longrightarrow> f x = f' x) \<Longrightarrow> rbind m f = rbind m' f'"
  by (cases m') auto

lemma rbind_Inr_iff: "rbind m f = Inr y \<longleftrightarrow> (\<exists>x. m = Inr x \<and> f x = Inr y)"
  by (cases m) auto

lemma rmap_Inr_iff: "rmap f m = Inr y \<longleftrightarrow> (\<exists>x. m = Inr x \<and> y = f x)"
  by (cases m) auto

section \<open>The word loops\<close>

text \<open>\<^verbatim>\<open>do r[i] = f(i); while (--i > 0);\<close>\<close>

fun upd_down :: "(nat \<Rightarrow> u32) \<Rightarrow> nat \<Rightarrow> pset \<Rightarrow> pset" where
  "upd_down f 0 r = r[0 := f 0]"
| "upd_down f (Suc 0) r = r[1 := f 1]"
| "upd_down f (Suc (Suc i)) r = upd_down f (Suc i) (r[Suc (Suc i) := f (Suc (Suc i))])"

text \<open>\<^verbatim>\<open>do if (! P(i)) return FALSE; while (--i > 0); return TRUE;\<close>\<close>

fun all_down :: "(nat \<Rightarrow> bool) \<Rightarrow> nat \<Rightarrow> bool" where
  "all_down P 0 = P 0"
| "all_down P (Suc 0) = P 1"
| "all_down P (Suc (Suc i)) = (P (Suc (Suc i)) \<and> all_down P (Suc i))"

text \<open>\<^verbatim>\<open>for (i = n; i > 0; i--) s = body(i, s);\<close>\<close>

fun for_down :: "(nat \<Rightarrow> 's \<Rightarrow> 's) \<Rightarrow> nat \<Rightarrow> 's \<Rightarrow> 's" where
  "for_down body 0 s = s"
| "for_down body (Suc i) s = for_down body i (body (Suc i) s)"

lemma length_upd_down [simp]: "length (upd_down f n r) = length r"
  by (induction f n r rule: upd_down.induct) auto

lemma nth_upd_down:
  "1 \<le> n \<Longrightarrow> n < length r \<Longrightarrow>
    upd_down f n r ! k = (if 1 \<le> k \<and> k \<le> n then f k else r ! k)"
proof (induction f n r rule: upd_down.induct)
  case (3 f i r)
  then show ?case by (auto simp: nth_list_update le_Suc_eq)
qed (auto simp: nth_list_update)

lemma nth_upd_down_0 [simp]: "1 \<le> n \<Longrightarrow> upd_down f n r ! 0 = r ! 0"
  by (induction f n r rule: upd_down.induct) auto

lemma all_down_iff: "1 \<le> n \<Longrightarrow> all_down P n \<longleftrightarrow> (\<forall>k. 1 \<le> k \<and> k \<le> n \<longrightarrow> P k)"
  by (induction P n rule: all_down.induct) (auto simp: le_Suc_eq)

lemma for_down_add:
  "for_down (\<lambda>i s. s + g i) n (s :: nat) = s + (\<Sum>i = 1..n. g i)"
  by (induction n arbitrary: s) (auto simp: algebra_simps)

section \<open>Sorting\<close>

text \<open>
  The library routine \<^verbatim>\<open>qsort(base, n, size, compare)\<close>: the result is a rearrangement of
  the array in which no element precedes a smaller one. The model is an insertion sort; the
  lemmas of the components use only the two facts \<open>mset_qsort\<close> and \<open>sorted_qsort\<close>, so
  they do not depend on how equal elements are arranged.
\<close>

fun qs_insert :: "('a \<Rightarrow> 'a \<Rightarrow> int) \<Rightarrow> 'a \<Rightarrow> 'a list \<Rightarrow> 'a list" where
  "qs_insert cmp x [] = [x]"
| "qs_insert cmp x (y # ys) = (if cmp x y \<le> 0 then x # y # ys else y # qs_insert cmp x ys)"

definition qsort :: "('a \<Rightarrow> 'a \<Rightarrow> int) \<Rightarrow> 'a list \<Rightarrow> 'a list" where
  "qsort cmp xs = foldr (qs_insert cmp) xs []"

lemma mset_qs_insert [simp]: "mset (qs_insert cmp x ys) = add_mset x (mset ys)"
  by (induction ys) auto

lemma mset_qsort [simp]: "mset (qsort cmp xs) = mset xs"
  unfolding qsort_def by (induction xs) auto

lemma set_qsort [simp]: "set (qsort cmp xs) = set xs"
  by (metis mset_qsort set_mset_mset)

lemma length_qsort [simp]: "length (qsort cmp xs) = length xs"
  by (metis mset_qsort size_mset)

lemma distinct_qsort [simp]: "distinct (qsort cmp xs) = distinct xs"
  by (metis mset_qsort mset_eq_imp_distinct_iff)

text \<open>
  What a comparison function owes to \<^verbatim>\<open>qsort\<close>: on the elements of the array it is a total
  preorder whose sign is consistent.
\<close>

locale comparison =
  fixes cmp :: "'a \<Rightarrow> 'a \<Rightarrow> int" and dom :: "'a \<Rightarrow> bool"
  assumes flip: "dom x \<Longrightarrow> dom y \<Longrightarrow> cmp y x = - cmp x y"
    and trans_le: "dom x \<Longrightarrow> dom y \<Longrightarrow> dom z \<Longrightarrow> cmp x y \<le> 0 \<Longrightarrow> cmp y z \<le> 0 \<Longrightarrow> cmp x z \<le> 0"
begin

lemma cmp_refl: "dom x \<Longrightarrow> cmp x x = 0"
  using flip [of x x] by simp

lemma cmp_total: "dom x \<Longrightarrow> dom y \<Longrightarrow> cmp x y \<le> 0 \<or> cmp y x \<le> 0"
  using flip [of x y] by linarith

lemma cmp_eq_sym: "dom x \<Longrightarrow> dom y \<Longrightarrow> cmp x y = 0 \<Longrightarrow> cmp y x = 0"
  using flip [of x y] by simp

lemma cmp_eq_trans:
  assumes "dom x" "dom y" "dom z" "cmp x y = 0" "cmp y z = 0"
  shows "cmp x z = 0"
proof -
  have "cmp x z \<le> 0" using assms trans_le [of x y z] by simp
  moreover have "cmp z x \<le> 0" using assms trans_le [of z y x] flip [of x y] flip [of y z] by simp
  ultimately show ?thesis using assms flip [of x z] by simp
qed

lemma sorted_qs_insert:
  assumes "\<forall>y\<in>set (x # ys). dom y" "sorted_wrt (\<lambda>a b. cmp a b \<le> 0) ys"
  shows "sorted_wrt (\<lambda>a b. cmp a b \<le> 0) (qs_insert cmp x ys)"
  using assms
proof (induction ys)
  case (Cons y ys)
  have set: "set (qs_insert cmp x ys) = insert x (set ys)"
    by (metis mset_qs_insert set_mset_add_mset_insert set_mset_mset)
  show ?case
  proof (cases "cmp x y \<le> 0")
    case True
    have "cmp x z \<le> 0" if "z \<in> set ys" for z
      using True that Cons.prems trans_le [of x y z] by auto
    with True Cons.prems show ?thesis by auto
  next
    case False
    then have "cmp y x \<le> 0" using Cons.prems cmp_total [of x y] by auto
    with False Cons show ?thesis by (auto simp: set)
  qed
qed simp

lemma sorted_qsort:
  "\<forall>x\<in>set xs. dom x \<Longrightarrow> sorted_wrt (\<lambda>a b. cmp a b \<le> 0) (qsort cmp xs)"
proof (induction xs)
  case Nil
  then show ?case by (simp add: qsort_def)
next
  case (Cons x xs)
  have eq: "qsort cmp (x # xs) = qs_insert cmp x (qsort cmp xs)" by (simp add: qsort_def)
  have "sorted_wrt (\<lambda>a b. cmp a b \<le> 0) (qsort cmp xs)" using Cons by simp
  moreover have "\<forall>y\<in>set (x # qsort cmp xs). dom y" using Cons.prems by simp
  ultimately show ?case unfolding eq by (intro sorted_qs_insert)
qed

end

section \<open>Lists and words\<close>

lemma drop_bit_nat_5: "drop_bit 5 (n :: nat) = n div 32"
  by (simp add: drop_bit_eq_div)

lemma and_31_nat: "(n :: nat) AND 31 = n mod 32"
  using take_bit_eq_mask [of 5 n] by (simp add: take_bit_eq_mod mask_eq_exp_minus_1)

lemma word_test_bit_and_exp: "(w AND push_bit n 1 \<noteq> 0) \<longleftrightarrow> bit w n" for w :: u32
proof -
  have "w AND push_bit n 1 = (if bit w n then push_bit n 1 else 0)"
    by (rule bit_word_eqI) (auto simp: bit_simps)
  moreover have "(push_bit n 1 :: u32) \<noteq> 0" if "bit w n"
    using that bit_imp_le_length [of w n] by simp
  ultimately show ?thesis by auto
qed

lemma word_eq_0_iff: "w = 0 \<longleftrightarrow> (\<forall>n<32. \<not> bit w n)" for w :: u32
proof
  assume "\<forall>n<32. \<not> bit w n"
  then show "w = 0" by (intro bit_word_eqI) simp
qed simp

lemma unat_shift1: "unat (drop_bit 1 w) = unat w div 2" for w :: u32
  by (simp add: drop_bit_eq_div unat_div)

lemma shift1_less: "w \<noteq> 0 \<Longrightarrow> unat (drop_bit 1 w) < unat w" for w :: u32
  unfolding unat_shift1 by (rule div_less_dividend) (simp_all add: unat_gt_0)

end
