(* ===== verification/Sets.thy ===== *)
theory Sets
  imports Prelude
begin

text \<open>
  Packed bit sets: the macros of \<^verbatim>\<open>espresso.h\<close> on the header word and on single elements,
  the bit counting table of \<^verbatim>\<open>globals.c\<close>, and the set routines of \<^verbatim>\<open>set.c\<close>.

  A set is the array of words itself.  Word 0 is the header: bits 0 to 9 hold the index of the last
  data word (\<open>LOOP\<close>), bits 10 to 15 the flags, bits 16 to 31 the \<open>SIZE\<close> field.  A
  destructive routine takes the array its result pointer addresses and returns the new array; all
  the routines work word by word, so a result array that is also an argument makes no difference.

  \<open>elems\<close> is the mathematical set an array stands for and \<open>wf_set n\<close> says that the
  array is a set over the universe \<open>{..<n}\<close>; the lemmas in \<open>elems_simps\<close> turn every
  routine into the set operation it implements.
\<close>

named_theorems elems_simps
named_theorems wf_intros

section \<open>The macros of espresso.h\<close>

definition WHICH_WORD :: "nat \<Rightarrow> nat" where
  "WHICH_WORD element = drop_bit 5 element + 1"

definition WHICH_BIT :: "nat \<Rightarrow> nat" where
  "WHICH_BIT element = (element AND (32 - 1))"

definition SET_SIZE :: "nat \<Rightarrow> nat" where
  "SET_SIZE sz = (if sz \<le> 32 then 2 else WHICH_WORD (sz - 1) + 1)"

definition LOOPINIT :: "nat \<Rightarrow> nat" where
  "LOOPINIT sz = (if sz \<le> 32 then 1 else WHICH_WORD (sz - 1))"

definition LOOP :: "pset \<Rightarrow> nat" where
  "LOOP s = unat (s ! 0 AND 0x03FF)"

definition PUTLOOP :: "pset \<Rightarrow> nat \<Rightarrow> pset" where
  "PUTLOOP s i = s[0 := (s ! 0 AND NOT 0x03FF) OR word_of_nat i]"

definition SIZE :: "pset \<Rightarrow> nat" where
  "SIZE s = unat (drop_bit 16 (s ! 0))"

definition PUTSIZE :: "pset \<Rightarrow> nat \<Rightarrow> pset" where
  "PUTSIZE s sz = s[0 := (s ! 0 AND 0xFFFF) OR push_bit 16 (word_of_nat sz)]"

definition NELEM :: "pset \<Rightarrow> nat" where
  "NELEM s = 32 * LOOP s"

definition SET :: "pset \<Rightarrow> u32 \<Rightarrow> pset" where
  "SET s flag = s[0 := s ! 0 OR flag]"

definition RESET :: "pset \<Rightarrow> u32 \<Rightarrow> pset" where
  "RESET s flag = s[0 := s ! 0 AND NOT flag]"

definition TESTP :: "pset \<Rightarrow> u32 \<Rightarrow> bool" where
  "TESTP s flag = (s ! 0 AND flag \<noteq> 0)"

definition PRIME :: u32 where "PRIME = 0x8000"
definition NONESSEN :: u32 where "NONESSEN = 0x4000"
definition ACTIVE :: u32 where "ACTIVE = 0x2000"
definition REDUND :: u32 where "REDUND = 0x1000"
definition COVERED :: u32 where "COVERED = 0x0800"
definition RELESSEN :: u32 where "RELESSEN = 0x0400"

definition is_in_set :: "pset \<Rightarrow> nat \<Rightarrow> bool" where
  "is_in_set s e = (s ! WHICH_WORD e AND push_bit (WHICH_BIT e) 1 \<noteq> 0)"

definition set_remove :: "pset \<Rightarrow> nat \<Rightarrow> pset" where
  "set_remove s e =
     s[WHICH_WORD e := s ! WHICH_WORD e AND NOT (push_bit (WHICH_BIT e) 1)]"

definition set_insert :: "pset \<Rightarrow> nat \<Rightarrow> pset" where
  "set_insert s e =
     s[WHICH_WORD e := s ! WHICH_WORD e OR push_bit (WHICH_BIT e) 1]"

section \<open>Counting bits\<close>

definition bit_count :: "nat list" where
  "bit_count = [
    0, 1, 1, 2, 1, 2, 2, 3, 1, 2, 2, 3, 2, 3, 3, 4, 1, 2, 2, 3, 2, 3, 3, 4,
    2, 3, 3, 4, 3, 4, 4, 5, 1, 2, 2, 3, 2, 3, 3, 4, 2, 3, 3, 4, 3, 4, 4, 5,
    2, 3, 3, 4, 3, 4, 4, 5, 3, 4, 4, 5, 4, 5, 5, 6, 1, 2, 2, 3, 2, 3, 3, 4,
    2, 3, 3, 4, 3, 4, 4, 5, 2, 3, 3, 4, 3, 4, 4, 5, 3, 4, 4, 5, 4, 5, 5, 6,
    2, 3, 3, 4, 3, 4, 4, 5, 3, 4, 4, 5, 4, 5, 5, 6, 3, 4, 4, 5, 4, 5, 5, 6,
    4, 5, 5, 6, 5, 6, 6, 7, 1, 2, 2, 3, 2, 3, 3, 4, 2, 3, 3, 4, 3, 4, 4, 5,
    2, 3, 3, 4, 3, 4, 4, 5, 3, 4, 4, 5, 4, 5, 5, 6, 2, 3, 3, 4, 3, 4, 4, 5,
    3, 4, 4, 5, 4, 5, 5, 6, 3, 4, 4, 5, 4, 5, 5, 6, 4, 5, 5, 6, 5, 6, 6, 7,
    2, 3, 3, 4, 3, 4, 4, 5, 3, 4, 4, 5, 4, 5, 5, 6, 3, 4, 4, 5, 4, 5, 5, 6,
    4, 5, 5, 6, 5, 6, 6, 7, 3, 4, 4, 5, 4, 5, 5, 6, 4, 5, 5, 6, 5, 6, 6, 7,
    4, 5, 5, 6, 5, 6, 6, 7, 5, 6, 6, 7, 6, 7, 7, 8]"

definition count_ones :: "u32 \<Rightarrow> nat" where
  "count_ones v =
     bit_count ! unat (v AND 255) + bit_count ! unat (drop_bit 8 v AND 255)
     + bit_count ! unat (drop_bit 16 v AND 255) + bit_count ! unat (drop_bit 24 v AND 255)"

text \<open>
  The loop of \<^verbatim>\<open>bit_index\<close>; it is entered with a non-zero word and shifts out zeros only,
  so the word stays non-zero and the second guard never decides.
\<close>

function bit_index_loop :: "u32 \<Rightarrow> int \<Rightarrow> int" where
  "bit_index_loop a i =
     (if a AND 1 = 0 \<and> a \<noteq> 0 then bit_index_loop (drop_bit 1 a) (i + 1) else i)"
  by pat_completeness auto
termination
proof (relation "measure (\<lambda>(a, i). unat a)")
  fix a :: u32 and i :: int
  assume "a AND 1 = 0 \<and> a \<noteq> 0"
  then show "((drop_bit 1 a, i + 1), (a, i)) \<in> measure (\<lambda>(a, i). unat a)"
    using shift1_less [of a] by simp
qed simp

declare bit_index_loop.simps [simp del]

definition bit_index :: "u32 \<Rightarrow> int" where
  "bit_index a = (if a = 0 then - 1 else bit_index_loop a 0)"

section \<open>The set routines of set.c\<close>

definition set_ord :: "pset \<Rightarrow> nat" where
  "set_ord a =
     for_down (\<lambda>i sum. let val = a ! i in if val \<noteq> 0 then sum + count_ones val else sum)
       (LOOP a) 0"

definition set_dist :: "pset \<Rightarrow> pset \<Rightarrow> nat" where
  "set_dist a b =
     for_down (\<lambda>i sum. let val = a ! i AND b ! i in
                       if val \<noteq> 0 then sum + count_ones val else sum)
       (LOOP a) 0"

definition set_clear :: "pset \<Rightarrow> nat \<Rightarrow> pset" where
  "set_clear r sz =
     (let i = LOOPINIT sz in upd_down (\<lambda>_. 0) i (r[0 := word_of_nat i]))"

definition set_fill :: "pset \<Rightarrow> nat \<Rightarrow> pset" where
  "set_fill r sz =
     (let i = LOOPINIT sz;
          r = r[0 := word_of_nat i];
          r = r[i := NOT 0];
          r = r[i := drop_bit (i * 32 - sz) (r ! i)]
      in if 1 < i then upd_down (\<lambda>_. NOT 0) (i - 1) r else r)"

text \<open>\<^verbatim>\<open>do r[i] = a[i]; while (--i >= 0);\<close>\<close>

fun copy_down :: "pset \<Rightarrow> nat \<Rightarrow> pset \<Rightarrow> pset" where
  "copy_down a 0 r = r[0 := a ! 0]"
| "copy_down a (Suc i) r = copy_down a i (r[Suc i := a ! Suc i])"

definition set_copy :: "pset \<Rightarrow> pset \<Rightarrow> pset" where
  "set_copy r a = copy_down a (LOOP a) r"

definition set_and :: "pset \<Rightarrow> pset \<Rightarrow> pset \<Rightarrow> pset" where
  "set_and r a b = (let i = LOOP a in upd_down (\<lambda>i. a ! i AND b ! i) i (PUTLOOP r i))"

definition set_or :: "pset \<Rightarrow> pset \<Rightarrow> pset \<Rightarrow> pset" where
  "set_or r a b = (let i = LOOP a in upd_down (\<lambda>i. a ! i OR b ! i) i (PUTLOOP r i))"

definition set_diff :: "pset \<Rightarrow> pset \<Rightarrow> pset \<Rightarrow> pset" where
  "set_diff r a b = (let i = LOOP a in upd_down (\<lambda>i. a ! i AND NOT (b ! i)) i (PUTLOOP r i))"

definition set_xor :: "pset \<Rightarrow> pset \<Rightarrow> pset \<Rightarrow> pset" where
  "set_xor r a b = (let i = LOOP a in upd_down (\<lambda>i. a ! i XOR b ! i) i (PUTLOOP r i))"

definition set_merge :: "pset \<Rightarrow> pset \<Rightarrow> pset \<Rightarrow> pset \<Rightarrow> pset" where
  "set_merge r a b msk =
     (let i = LOOP a in
      upd_down (\<lambda>i. (a ! i AND msk ! i) OR (b ! i AND NOT (msk ! i))) i (PUTLOOP r i))"

text \<open>\<^verbatim>\<open>do { r[i] = f(i); x |= r[i]; } while (--i > 0);\<close>\<close>

fun upd_or_down :: "(nat \<Rightarrow> u32) \<Rightarrow> nat \<Rightarrow> pset \<times> u32 \<Rightarrow> pset \<times> u32" where
  "upd_or_down f 0 (r, x) = (r[0 := f 0], x OR f 0)"
| "upd_or_down f (Suc 0) (r, x) = (r[1 := f 1], x OR f 1)"
| "upd_or_down f (Suc (Suc i)) (r, x) =
     upd_or_down f (Suc i) (r[Suc (Suc i) := f (Suc (Suc i))], x OR f (Suc (Suc i)))"

definition set_andp :: "pset \<Rightarrow> pset \<Rightarrow> pset \<Rightarrow> pset \<times> bool" where
  "set_andp r a b =
     (let i = LOOP a; (r, x) = upd_or_down (\<lambda>i. a ! i AND b ! i) i (PUTLOOP r i, 0)
      in (r, x \<noteq> 0))"

definition set_orp :: "pset \<Rightarrow> pset \<Rightarrow> pset \<Rightarrow> pset \<times> bool" where
  "set_orp r a b =
     (let i = LOOP a; (r, x) = upd_or_down (\<lambda>i. a ! i OR b ! i) i (PUTLOOP r i, 0)
      in (r, x \<noteq> 0))"

definition setp_empty :: "pset \<Rightarrow> bool" where
  "setp_empty a = all_down (\<lambda>i. a ! i = 0) (LOOP a)"

definition setp_full :: "pset \<Rightarrow> nat \<Rightarrow> bool" where
  "setp_full a sz =
     (let i = LOOP a; test = drop_bit (i * 32 - sz) (NOT 0)
      in if a ! i \<noteq> test then False
         else if 1 < i then all_down (\<lambda>i. a ! i = NOT 0) (i - 1) else True)"

definition setp_equal :: "pset \<Rightarrow> pset \<Rightarrow> bool" where
  "setp_equal a b = all_down (\<lambda>i. a ! i = b ! i) (LOOP a)"

definition setp_disjoint :: "pset \<Rightarrow> pset \<Rightarrow> bool" where
  "setp_disjoint a b = all_down (\<lambda>i. a ! i AND b ! i = 0) (LOOP a)"

definition setp_implies :: "pset \<Rightarrow> pset \<Rightarrow> bool" where
  "setp_implies a b = all_down (\<lambda>i. a ! i AND NOT (b ! i) = 0) (LOOP a)"

text \<open>
  \<^verbatim>\<open>set_new\<close>, \<^verbatim>\<open>set_full\<close>, \<^verbatim>\<open>set_save\<close>: the routine is run on freshly
  allocated words; every word is overwritten, so what the allocator returns does not matter.
\<close>

definition set_new :: "nat \<Rightarrow> pset" where
  "set_new sz = set_clear (replicate (SET_SIZE sz) 0) sz"

definition set_full :: "nat \<Rightarrow> pset" where
  "set_full sz = set_fill (replicate (SET_SIZE sz) 0) sz"

definition set_save :: "pset \<Rightarrow> pset" where
  "set_save r = set_copy (replicate (SET_SIZE (NELEM r)) 0) r"

text \<open>
  The inner loop of \<^verbatim>\<open>set_adjcnt\<close> and \<^verbatim>\<open>sf_count\<close>:
  \<^verbatim>\<open>for (; val != 0; base++, val >>= 1) if (val & 1) count[base] += weight;\<close>
\<close>

function count_word :: "u32 \<Rightarrow> nat \<Rightarrow> int \<Rightarrow> int list \<Rightarrow> int list" where
  "count_word val base weight cnt =
     (if val = 0 then cnt
      else count_word (drop_bit 1 val) (base + 1) weight
             (if val AND 1 \<noteq> 0 then cnt[base := cnt ! base + weight] else cnt))"
  by pat_completeness auto
termination
proof (relation "measure (\<lambda>(v, b, w, c). unat v)")
  fix v :: u32 and b :: nat and w :: int and c :: "int list"
  assume "v \<noteq> 0"
  then show "((drop_bit 1 v, b + 1, w, if v AND 1 \<noteq> 0 then c[b := c ! b + w] else c),
      (v, b, w, c)) \<in> measure (\<lambda>(v, b, w, c). unat v)"
    using shift1_less [of v] by simp
qed simp

declare count_word.simps [simp del]

definition set_adjcnt :: "pset \<Rightarrow> int list \<Rightarrow> int \<Rightarrow> int list" where
  "set_adjcnt a cnt weight =
     for_down (\<lambda>i cnt. count_word (a ! i) (push_bit 5 (i - 1)) weight cnt) (LOOP a) cnt"

section \<open>Indices, sizes and headers\<close>

lemma WHICH_WORD_eq: "WHICH_WORD e = e div 32 + 1"
  by (simp add: WHICH_WORD_def drop_bit_nat_5)

lemma WHICH_BIT_eq: "WHICH_BIT e = e mod 32"
  using and_31_nat [of e] by (simp add: WHICH_BIT_def)

lemma SET_SIZE_eq: "SET_SIZE n = LOOPINIT n + 1"
  by (simp add: SET_SIZE_def LOOPINIT_def)

lemma LOOPINIT_ge_1 [simp, intro]: "1 \<le> LOOPINIT n" "LOOPINIT n \<noteq> 0" "0 < LOOPINIT n"
  by (simp_all add: LOOPINIT_def WHICH_WORD_eq)

lemma LOOPINIT_ge_Suc [simp]: "Suc 0 \<le> LOOPINIT n"
  using LOOPINIT_ge_1 (1) [of n] by simp

lemma LOOPINIT_covers: "n \<le> 32 * LOOPINIT n"
  by (auto simp: LOOPINIT_def WHICH_WORD_eq)

lemma LOOPINIT_le: "n \<le> 32736 \<Longrightarrow> LOOPINIT n < 1024"
  by (auto simp: LOOPINIT_def WHICH_WORD_eq)

lemma LOOPINIT_mult: "1 \<le> k \<Longrightarrow> LOOPINIT (32 * k) = k"
  by (auto simp: LOOPINIT_def WHICH_WORD_eq)

lemma and_3FF: "w AND 0x3FF = take_bit 10 w" for w :: u32
  using take_bit_eq_mask [of 10 w] by (simp add: mask_eq_exp_minus_1)

lemma LOOP_eq: "LOOP s = unat (take_bit 10 (s ! 0))"
  by (simp add: LOOP_def and_3FF)

lemma LOOP_less: "LOOP s < 1024"
  unfolding LOOP_eq unsigned_take_bit_eq
  using take_bit_nat_less_exp [of 10 "unat (s ! 0)"] by simp

lemma bit_3FF: "bit (0x3FF :: u32) n \<longleftrightarrow> n < 10"
proof -
  have "(0x3FF :: u32) = mask 10" by (simp add: mask_eq_exp_minus_1)
  then have "bit (0x3FF :: u32) n = bit (mask 10 :: u32) n" by (simp only:)
  then show ?thesis by (auto simp: bit_mask_iff)
qed

lemma bit_FFFF: "bit (0xFFFF :: u32) n \<longleftrightarrow> n < 16"
proof -
  have "(0xFFFF :: u32) = mask 16" by (simp add: mask_eq_exp_minus_1)
  then have "bit (0xFFFF :: u32) n = bit (mask 16 :: u32) n" by (simp only:)
  then show ?thesis by (auto simp: bit_mask_iff)
qed

lemma unat_word_of_nat:
  assumes "i < 2 ^ k" "k \<le> 32"
  shows "unat (word_of_nat i :: u32) = i"
proof -
  have "i < 2 ^ 32" using assms by (meson less_le_trans one_le_numeral power_increasing)
  then show ?thesis by (simp add: unat_of_nat)
qed

lemma take_bit_word_of_nat:
  assumes "i < 2 ^ k" "k \<le> 32"
  shows "take_bit k (word_of_nat i :: u32) = word_of_nat i"
proof -
  have "unat (take_bit k (word_of_nat i :: u32)) = unat (word_of_nat i :: u32)"
    unfolding unsigned_take_bit_eq unat_word_of_nat [OF assms] using assms
    by (simp add: take_bit_nat_eq_self)
  then show ?thesis by (rule unsigned_word_eqI)
qed

lemma length_PUTLOOP [simp]: "length (PUTLOOP s i) = length s"
  by (simp add: PUTLOOP_def)

lemma nth_PUTLOOP [simp]: "1 \<le> k \<Longrightarrow> PUTLOOP s i ! k = s ! k"
  by (simp add: PUTLOOP_def)

lemma LOOP_header_update:
  "take_bit 10 w = take_bit 10 (s ! 0) \<Longrightarrow> LOOP (s[0 := w]) = LOOP s"
  by (cases s) (simp_all add: LOOP_eq)

lemma LOOP_PUTLOOP:
  assumes "s \<noteq> []" "i < 1024"
  shows "LOOP (PUTLOOP s i) = i"
proof -
  have "take_bit 10 ((s ! 0 AND NOT 0x3FF) OR word_of_nat i) = take_bit 10 (word_of_nat i :: u32)"
    by (rule bit_word_eqI) (auto simp: bit_simps bit_3FF)
  then show ?thesis
    using assms take_bit_word_of_nat [of i 10] unat_word_of_nat [of i 10]
    by (cases s) (simp_all add: LOOP_eq PUTLOOP_def)
qed

section \<open>The set an array stands for\<close>

definition elems :: "pset \<Rightarrow> nat set" where
  "elems a = {e. e < NELEM a \<and> is_in_set a e}"

definition wf_set :: "nat \<Rightarrow> pset \<Rightarrow> bool" where
  "wf_set n a \<longleftrightarrow> length a = SET_SIZE n \<and> LOOP a = LOOPINIT n \<and> elems a \<subseteq> {..<n}"

lemma is_in_set_bit: "is_in_set a e \<longleftrightarrow> bit (a ! (e div 32 + 1)) (e mod 32)"
  unfolding is_in_set_def WHICH_WORD_eq WHICH_BIT_eq by (rule word_test_bit_and_exp)

lemma elems_iff: "e \<in> elems a \<longleftrightarrow> e < 32 * LOOP a \<and> bit (a ! (e div 32 + 1)) (e mod 32)"
  by (simp add: elems_def NELEM_def is_in_set_bit)

lemma finite_elems [simp, intro]: "finite (elems a)"
  by (simp add: elems_def)

lemma wf_length: "wf_set n a \<Longrightarrow> length a = SET_SIZE n"
  and wf_LOOP: "wf_set n a \<Longrightarrow> LOOP a = LOOPINIT n"
  and wf_elems: "wf_set n a \<Longrightarrow> elems a \<subseteq> {..<n}"
  by (simp_all add: wf_set_def)

lemma wf_LOOPINIT_less: "wf_set n a \<Longrightarrow> LOOPINIT n < 1024"
  using LOOP_less [of a] by (simp add: wf_set_def)

lemma wf_nonempty: "wf_set n a \<Longrightarrow> a \<noteq> []"
  by (auto simp: wf_set_def SET_SIZE_eq)

lemma wf_in_elems: "wf_set n a \<Longrightarrow> e < n \<Longrightarrow> e \<in> elems a \<longleftrightarrow> is_in_set a e"
  using LOOPINIT_covers [of n] by (auto simp: wf_set_def elems_def NELEM_def)

lemma wf_is_in_set: "wf_set n a \<Longrightarrow> e < 32 * LOOPINIT n \<Longrightarrow> is_in_set a e \<longleftrightarrow> e \<in> elems a"
  by (auto simp: wf_set_def elems_def NELEM_def)

text \<open>A word-by-word routine writes the set whose words it computes.\<close>

lemma word_index_bounds: "e < 32 * k \<Longrightarrow> 1 \<le> e div 32 + 1 \<and> e div 32 + 1 \<le> k" for e k :: nat
  by (auto simp: less_mult_imp_div_less Suc_le_eq mult.commute)

lemma elems_upd_down:
  fixes f :: "nat \<Rightarrow> u32"
  assumes "length r = SET_SIZE n" "LOOPINIT n < 1024"
  defines "r' \<equiv> upd_down f (LOOPINIT n) (PUTLOOP r (LOOPINIT n))"
  shows "LOOP r' = LOOPINIT n" (is ?L)
    and "elems r' = {e. e < 32 * LOOPINIT n \<and> bit (f (e div 32 + 1)) (e mod 32)}" (is ?E)
    and "length r' = SET_SIZE n"
proof -
  let ?k = "LOOPINIT n" and ?r = "PUTLOOP r (LOOPINIT n)"
  have len: "?k < length ?r" and ne: "r \<noteq> []" using assms by (auto simp: SET_SIZE_eq)
  have "r' ! 0 = ?r ! 0" unfolding r'_def by simp
  then show L: ?L using LOOP_PUTLOOP [OF ne assms(2)] by (simp add: LOOP_eq)
  show ?E
  proof (rule set_eqI)
    fix e
    show "e \<in> elems r' \<longleftrightarrow> e \<in> {e. e < 32 * ?k \<and> bit (f (e div 32 + 1)) (e mod 32)}"
    proof (cases "e < 32 * ?k")
      case True
      then show ?thesis
        using nth_upd_down [OF _ len, of f "e div 32 + 1"] word_index_bounds [OF True] L
        unfolding elems_iff r'_def by simp
    next
      case False
      then show ?thesis using L unfolding elems_iff by simp
    qed
  qed
  show "length r' = SET_SIZE n" using assms by (simp add: r'_def)
qed

text \<open>
  Two of the binary routines written as one fact: with well-formed operands and any result array of
  the right length, the result has the loop count of the operands and the combined elements.
\<close>

lemma set_binop:
  assumes "wf_set n a" "length r = SET_SIZE n"
  shows "elems (let i = LOOP a in upd_down f i (PUTLOOP r i))
         = {e. e < 32 * LOOPINIT n \<and> bit (f (e div 32 + 1)) (e mod 32)}"
    and "(\<And>e. e < 32 * LOOPINIT n \<Longrightarrow> n \<le> e \<Longrightarrow> \<not> bit (f (e div 32 + 1)) (e mod 32)) \<Longrightarrow>
         wf_set n (let i = LOOP a in upd_down f i (PUTLOOP r i))"
  using elems_upd_down [of r n f] assms wf_LOOPINIT_less [OF assms(1)]
  by (auto simp: wf_LOOP [OF assms(1)] wf_set_def not_less [symmetric] Let_def)

lemma wf_no_bit: "wf_set n a \<Longrightarrow> n \<le> e \<Longrightarrow> e < 32 * LOOPINIT n \<Longrightarrow>
    \<not> bit (a ! Suc (e div 32)) (e mod 32)"
  by (auto simp: wf_set_def elems_iff subset_iff not_less [symmetric])

lemma wf_beyond: "wf_set n a \<Longrightarrow> n \<le> e \<Longrightarrow> e \<notin> elems a"
  by (auto simp: wf_set_def)

lemma wf_elem_less: "wf_set n a \<Longrightarrow> e \<in> elems a \<Longrightarrow> e < n"
  by (auto simp: wf_set_def)

lemma wf_elem_words: "wf_set n a \<Longrightarrow> e \<in> elems a \<Longrightarrow> e < 32 * LOOPINIT n"
  using LOOPINIT_covers [of n] wf_elem_less [of n a e] by simp

lemma binops_elems:
  assumes a: "wf_set n a" and b: "wf_set n b" and r: "length r = SET_SIZE n"
  shows "elems (set_and r a b) = elems a \<inter> elems b"
    and "elems (set_or r a b) = elems a \<union> elems b"
    and "elems (set_diff r a b) = elems a - elems b"
    and "elems (set_xor r a b) = (elems a - elems b) \<union> (elems b - elems a)"
    and "wf_set n m \<Longrightarrow> elems (set_merge r a b m) = (elems a \<inter> elems m) \<union> (elems b - elems m)"
  unfolding set_and_def set_or_def set_diff_def set_xor_def set_merge_def
    set_binop(1) [OF a r]
  by (auto simp: bit_simps elems_iff wf_LOOP [OF a] wf_LOOP [OF b] wf_LOOP [of n m])

lemma binops_wf:
  assumes a: "wf_set n a" and b: "wf_set n b" and r: "length r = SET_SIZE n"
  shows "wf_set n (set_and r a b)"
    and "wf_set n (set_or r a b)"
    and "wf_set n (set_diff r a b)"
    and "wf_set n (set_xor r a b)"
    and "wf_set n m \<Longrightarrow> wf_set n (set_merge r a b m)"
  unfolding set_and_def set_or_def set_diff_def set_xor_def set_merge_def
  by ((rule set_binop(2) [OF a r], simp add: bit_simps wf_no_bit [OF a] wf_no_bit [OF b])+)

lemma wf_set_eqI:
  assumes "wf_set n a" "wf_set n b" "elems a = elems b" "1 \<le> i" "i \<le> LOOPINIT n"
  shows "a ! i = b ! i"
proof (rule bit_word_eqI)
  fix k :: nat
  assume "k < LENGTH(32)"
  then have k: "k < 32" by simp
  let ?e = "32 * (i - 1) + k"
  have e: "?e div 32 + 1 = i" "?e mod 32 = k" "?e < 32 * LOOPINIT n" using k assms by auto
  have "?e \<in> elems a \<longleftrightarrow> ?e \<in> elems b" using assms by simp
  then show "bit (a ! i) k = bit (b ! i) k"
    using e assms unfolding elems_iff by (simp add: wf_LOOP)
qed

lemma word_zero_iff_elems:
  fixes f :: "u32 \<Rightarrow> nat \<Rightarrow> u32"
  assumes "wf_set n a"
  shows "(\<forall>i. 1 \<le> i \<and> i \<le> LOOPINIT n \<longrightarrow> f (a ! i) i = 0) \<longleftrightarrow>
    (\<forall>e < 32 * LOOPINIT n. \<not> bit (f (a ! (e div 32 + 1)) (e div 32 + 1)) (e mod 32))"
    (is "?L = ?R")
proof
  assume ?L
  then show ?R using word_index_bounds by (metis bit_0_eq bot_apply bot_bool_def)
next
  assume R: ?R
  show ?L
  proof (intro allI impI, elim conjE)
    fix i assume i: "1 \<le> i" "i \<le> LOOPINIT n"
    show "f (a ! i) i = 0" unfolding word_eq_0_iff
    proof (intro allI impI)
      fix k :: nat assume k: "k < 32"
      have "32 * (i - 1) + k < 32 * LOOPINIT n" using i k by linarith
      with R have "\<not> bit (f (a ! ((32 * (i - 1) + k) div 32 + 1)) ((32 * (i - 1) + k) div 32 + 1))
          ((32 * (i - 1) + k) mod 32)" by blast
      then show "\<not> bit (f (a ! i) i) k" using i k by simp
    qed
  qed
qed

subsection \<open>Predicates\<close>

lemma setp_empty_iff [elems_simps]: "wf_set n a \<Longrightarrow> setp_empty a \<longleftrightarrow> elems a = {}"
  using word_zero_iff_elems [of n a "\<lambda>w i. w"]
  by (simp add: setp_empty_def all_down_iff wf_LOOP set_eq_iff elems_iff)

lemma setp_implies_iff [elems_simps]:
  "wf_set n a \<Longrightarrow> wf_set n b \<Longrightarrow> setp_implies a b \<longleftrightarrow> elems a \<subseteq> elems b"
  using word_zero_iff_elems [of n a "\<lambda>w i. w AND NOT (b ! i)"]
  by (auto simp: setp_implies_def all_down_iff wf_LOOP subset_iff elems_iff bit_simps)

lemma setp_disjoint_iff [elems_simps]:
  "wf_set n a \<Longrightarrow> wf_set n b \<Longrightarrow> setp_disjoint a b \<longleftrightarrow> elems a \<inter> elems b = {}"
  using word_zero_iff_elems [of n a "\<lambda>w i. w AND b ! i"]
  by (auto simp: setp_disjoint_def all_down_iff wf_LOOP set_eq_iff elems_iff bit_simps)

lemma setp_equal_iff [elems_simps]:
  assumes "wf_set n a" "wf_set n b"
  shows "setp_equal a b \<longleftrightarrow> elems a = elems b"
proof
  assume "setp_equal a b"
  then have "a ! i = b ! i" if "1 \<le> i" "i \<le> LOOPINIT n" for i
    using that assms by (simp add: setp_equal_def all_down_iff wf_LOOP)
  then show "elems a = elems b"
    using word_index_bounds assms by (auto simp: set_eq_iff elems_iff wf_LOOP)
next
  assume "elems a = elems b"
  then show "setp_equal a b"
    using assms by (simp add: setp_equal_def all_down_iff wf_LOOP wf_set_eqI [OF assms])
qed

subsection \<open>Clearing, filling and copying\<close>

lemma take_bit_LOOPINIT: "LOOPINIT n < 1024 \<Longrightarrow> unat (take_bit 10 (word_of_nat (LOOPINIT n) :: u32)) = LOOPINIT n"
  using take_bit_word_of_nat [of "LOOPINIT n" 10] unat_word_of_nat [of "LOOPINIT n" 10] by simp

lemma set_clear_spec:
  assumes "length r = SET_SIZE n" "n \<le> 32736"
  shows "wf_set n (set_clear r n)" "elems (set_clear r n) = {}" "set_clear r n ! 0 = word_of_nat (LOOPINIT n)"
proof -
  let ?k = "LOOPINIT n" and ?r = "r[0 := word_of_nat (LOOPINIT n)]"
  have k: "?k < length ?r" and ne: "0 < length r" using assms by (auto simp: SET_SIZE_eq)
  have lt: "?k < 1024" using assms LOOPINIT_le by simp
  show hd: "set_clear r n ! 0 = word_of_nat ?k" using ne by (simp add: set_clear_def Let_def)
  then have L: "LOOP (set_clear r n) = ?k" using take_bit_LOOPINIT [OF lt] by (simp add: LOOP_eq)
  show E: "elems (set_clear r n) = {}"
    using nth_upd_down [OF _ k, of "\<lambda>_. 0"] word_index_bounds L
    by (auto simp: elems_iff set_clear_def Let_def)
  show "wf_set n (set_clear r n)"
    using assms L E by (simp add: wf_set_def set_clear_def Let_def)
qed

lemma set_new_spec [simp]:
  assumes "n \<le> 32736"
  shows "wf_set n (set_new n)" "elems (set_new n) = {}" "set_new n ! 0 = word_of_nat (LOOPINIT n)"
  using set_clear_spec [of "replicate (SET_SIZE n) 0" n] assms by (simp_all add: set_new_def)

lemma length_set_new [simp]: "length (set_new n) = SET_SIZE n"
  by (simp add: set_new_def set_clear_def Let_def)

lemma length_copy_down [simp]: "length (copy_down a i r) = length r"
  by (induction a i r rule: copy_down.induct) auto

lemma nth_copy_down:
  "i < length r \<Longrightarrow> copy_down a i r ! k = (if k \<le> i then a ! k else r ! k)"
  by (induction a i r rule: copy_down.induct) (auto simp: nth_list_update le_Suc_eq)

lemma set_copy_eq [simp]:
  assumes "wf_set n a" "length r = SET_SIZE n"
  shows "set_copy r a = a"
proof (rule nth_equalityI)
  show "length (set_copy r a) = length a" using assms by (simp add: set_copy_def wf_length)
  fix i assume "i < length (set_copy r a)"
  then show "set_copy r a ! i = a ! i"
    using assms by (simp add: set_copy_def nth_copy_down wf_LOOP SET_SIZE_eq)
qed

lemma set_save_eq [simp]: "wf_set n a \<Longrightarrow> set_save a = a"
  by (simp add: set_save_def NELEM_def wf_LOOP SET_SIZE_eq LOOPINIT_mult)

lemma bit_drop_ones:
  "i < 32 \<Longrightarrow> k \<le> 32 \<Longrightarrow> bit (drop_bit k (NOT 0 :: u32)) i \<longleftrightarrow> i < 32 - k"
  by (auto simp: bit_drop_bit_eq bit_not_iff bit_mask_iff)

lemma length_set_fill [simp]: "length (set_fill r n) = length r"
  by (simp add: set_fill_def Let_def)

lemma nth_set_fill:
  assumes "LOOPINIT n < length r" "i \<le> LOOPINIT n"
  shows "set_fill r n ! i = (if i = 0 then word_of_nat (LOOPINIT n)
    else if i = LOOPINIT n then drop_bit (32 * LOOPINIT n - n) (NOT 0) else NOT 0)"
proof -
  have "0 < length r" using assms by linarith
  then show ?thesis
    using assms
    by (auto simp: set_fill_def Let_def nth_upd_down nth_list_update mult.commute simp del: bit.compl_zero)
qed

lemma set_fill_spec:
  assumes "length r = SET_SIZE n" "0 < n" "n \<le> 32736"
  shows "wf_set n (set_fill r n)" "elems (set_fill r n) = {..<n}"
    "set_fill r n ! 0 = word_of_nat (LOOPINIT n)"
proof -
  let ?k = "LOOPINIT n"
  have k: "?k < length r" "0 < length r" using assms by (auto simp: SET_SIZE_eq)
  have lt: "?k < 1024" using assms LOOPINIT_le by simp
  have n: "32 * (?k - 1) < n" "n \<le> 32 * ?k"
    using assms LOOPINIT_covers [of n] by (auto simp: LOOPINIT_def WHICH_WORD_eq)
  have w: "set_fill r n ! i = (if i = 0 then word_of_nat ?k
      else if i = ?k then drop_bit (32 * ?k - n) (NOT 0) else NOT 0)" if "i \<le> ?k" for i
    using nth_set_fill [OF k(1) that] .
  show hd: "set_fill r n ! 0 = word_of_nat ?k" using w [of 0] by simp
  then have L: "LOOP (set_fill r n) = ?k" using take_bit_LOOPINIT [OF lt] by (simp add: LOOP_eq)
  have "e \<in> elems (set_fill r n) \<longleftrightarrow> e < n" for e
  proof (cases "e < 32 * ?k")
    case True
    then have i: "e div 32 + 1 \<le> ?k" using word_index_bounds by blast
    show ?thesis
    proof (cases "e div 32 + 1 = ?k")
      case e: True
      then have "e = 32 * (?k - 1) + e mod 32" by (metis add_diff_cancel_right' mult_div_mod_eq)
      moreover have "bit (drop_bit (32 * ?k - n) (NOT 0 :: u32)) (e mod 32) \<longleftrightarrow> e mod 32 < 32 - (32 * ?k - n)"
        by (rule bit_drop_ones) (use n in auto)
      ultimately show ?thesis using w [OF i] e True L n by (auto simp: elems_iff)
    next
      case False
      then have "e < 32 * (?k - 1)" using i by linarith
      then show ?thesis using w [OF i] False True L n by (auto simp: elems_iff bit_not_iff)
    qed
  next
    case False
    then show ?thesis using L n by (simp add: elems_iff)
  qed
  then show E: "elems (set_fill r n) = {..<n}" by auto
  show "wf_set n (set_fill r n)"
    using assms L E by (simp add: wf_set_def)
qed

lemma setp_full_iff [elems_simps]:
  assumes "wf_set n a" "0 < n"
  shows "setp_full a n \<longleftrightarrow> elems a = {..<n}"
proof -
  have n: "n \<le> 32736" using wf_LOOPINIT_less [OF assms(1)] LOOPINIT_covers [of n] by linarith
  let ?f = "set_fill (replicate (SET_SIZE n) 0) n"
  have f: "wf_set n ?f" "elems ?f = {..<n}" using set_fill_spec [of _ n] assms n by simp_all
  have "?f ! i = (if i = LOOPINIT n then drop_bit (32 * LOOPINIT n - n) (NOT 0) else NOT 0)"
    if "1 \<le> i" "i \<le> LOOPINIT n" for i
    using nth_set_fill [of n "replicate (SET_SIZE n) 0" i] that by (simp add: SET_SIZE_eq)
  then have w: "?f ! LOOPINIT n = drop_bit (LOOPINIT n * 32 - n) (NOT 0)"
    "\<And>i. 1 \<le> i \<Longrightarrow> i < LOOPINIT n \<Longrightarrow> ?f ! i = NOT 0"
    by (simp_all add: mult.commute)
  have "setp_full a n \<longleftrightarrow> a ! LOOPINIT n = ?f ! LOOPINIT n \<and>
      (1 < LOOPINIT n \<longrightarrow> (\<forall>i. 1 \<le> i \<and> i \<le> LOOPINIT n - 1 \<longrightarrow> a ! i = NOT 0))"
    unfolding setp_full_def Let_def w(1) wf_LOOP [OF assms(1)] by (simp add: all_down_iff)
  also have "\<dots> \<longleftrightarrow> (\<forall>i. 1 \<le> i \<and> i \<le> LOOPINIT n \<longrightarrow> a ! i = ?f ! i)"
    (is "?L \<longleftrightarrow> ?R")
  proof
    assume L: ?L
    have "a ! i = ?f ! i" if i: "1 \<le> i" "i \<le> LOOPINIT n" for i
    proof (cases "i = LOOPINIT n")
      case False
      then have "i < LOOPINIT n" "1 < LOOPINIT n" "i \<le> LOOPINIT n - 1" using i by linarith+
      then show ?thesis using L w(2) [of i] i by simp
    qed (use L in simp)
    then show ?R by blast
  next
    assume R: ?R
    have "a ! i = NOT 0" if "1 \<le> i" "i \<le> LOOPINIT n - 1" "1 < LOOPINIT n" for i
    proof -
      have "i < LOOPINIT n" using that by linarith
      then show ?thesis using R w(2) [of i] that by simp
    qed
    then show ?L using R LOOPINIT_ge_1 (1) by blast
  qed
  finally have "setp_full a n \<longleftrightarrow> setp_equal a ?f"
    by (simp add: setp_equal_def all_down_iff wf_LOOP [OF assms(1)])
  then show ?thesis using setp_equal_iff [OF assms(1) f(1)] f(2) by simp
qed

subsection \<open>Single elements\<close>

lemma set_insert_spec:
  assumes "wf_set n a" "e < n"
  shows "elems (set_insert a e) = insert e (elems a)" "wf_set n (set_insert a e)"
    "set_insert a e ! 0 = a ! 0"
proof -
  have e: "e < 32 * LOOPINIT n" using LOOPINIT_covers [of n] assms(2) by simp
  then have w: "e div 32 + 1 < length a"
    using assms by (auto simp: wf_length SET_SIZE_eq dest: word_index_bounds)
  show hd: "set_insert a e ! 0 = a ! 0" by (simp add: set_insert_def WHICH_WORD_eq)
  then have L: "LOOP (set_insert a e) = LOOP a" by (simp add: LOOP_eq)
  have "x \<in> elems (set_insert a e) \<longleftrightarrow> x = e \<or> x \<in> elems a" for x
  proof (cases "x div 32 = e div 32")
    case True
    then have x: "x mod 32 = e mod 32 \<longleftrightarrow> x = e" by (metis mult_div_mod_eq)
    have "set_insert a e ! (x div 32 + 1) = (a ! (x div 32 + 1) OR push_bit (e mod 32) 1)"
      using w True by (simp add: set_insert_def WHICH_WORD_eq WHICH_BIT_eq)
    then show ?thesis
      using x e L assms(1) by (auto simp: elems_iff wf_LOOP bit_simps)
  next
    case False
    then have "set_insert a e ! (x div 32 + 1) = a ! (x div 32 + 1)"
      by (simp add: set_insert_def WHICH_WORD_eq)
    with False L show ?thesis by (auto simp: elems_iff)
  qed
  then show E: "elems (set_insert a e) = insert e (elems a)" by auto
  show "wf_set n (set_insert a e)"
    using assms L E by (auto simp: wf_set_def) (simp add: set_insert_def)
qed

lemma set_remove_spec:
  assumes "wf_set n a" "e < n"
  shows "elems (set_remove a e) = elems a - {e}" "wf_set n (set_remove a e)"
    "set_remove a e ! 0 = a ! 0"
proof -
  have e: "e < 32 * LOOPINIT n" using LOOPINIT_covers [of n] assms(2) by simp
  then have w: "e div 32 + 1 < length a"
    using assms by (auto simp: wf_length SET_SIZE_eq dest: word_index_bounds)
  show hd: "set_remove a e ! 0 = a ! 0" by (simp add: set_remove_def WHICH_WORD_eq)
  then have L: "LOOP (set_remove a e) = LOOP a" by (simp add: LOOP_eq)
  have "x \<in> elems (set_remove a e) \<longleftrightarrow> x \<noteq> e \<and> x \<in> elems a" for x
  proof (cases "x div 32 = e div 32")
    case True
    then have x: "x mod 32 = e mod 32 \<longleftrightarrow> x = e" by (metis mult_div_mod_eq)
    have "set_remove a e ! (x div 32 + 1) = (a ! (x div 32 + 1) AND NOT (push_bit (e mod 32) 1))"
      using w True by (simp add: set_remove_def WHICH_WORD_eq WHICH_BIT_eq)
    then show ?thesis
      using x e L assms(1) by (auto simp: elems_iff wf_LOOP bit_simps)
  next
    case False
    then have "set_remove a e ! (x div 32 + 1) = a ! (x div 32 + 1)"
      by (simp add: set_remove_def WHICH_WORD_eq)
    with False L show ?thesis by (auto simp: elems_iff)
  qed
  then show E: "elems (set_remove a e) = elems a - {e}" by auto
  show "wf_set n (set_remove a e)"
    using assms L E by (auto simp: wf_set_def) (simp add: set_remove_def)
qed

subsection \<open>The header word\<close>

lemma header_update:
  assumes "take_bit 10 w = take_bit 10 (a ! 0)"
  shows "elems (a[0 := w]) = elems a" "wf_set n (a[0 := w]) = wf_set n a" "LOOP (a[0 := w]) = LOOP a"
proof -
  show L: "LOOP (a[0 := w]) = LOOP a" using LOOP_header_update [OF assms] .
  then show "elems (a[0 := w]) = elems a" by (auto simp: elems_iff)
  with L show "wf_set n (a[0 := w]) = wf_set n a" by (simp add: wf_set_def)
qed

lemma PUTSIZE_spec [simp]:
  "elems (PUTSIZE a k) = elems a" "wf_set n (PUTSIZE a k) = wf_set n a"
  "length (PUTSIZE a k) = length a" "LOOP (PUTSIZE a k) = LOOP a"
proof -
  have "take_bit 10 ((a ! 0 AND 0xFFFF) OR push_bit 16 (word_of_nat k)) = take_bit 10 (a ! 0)"
    by (rule bit_word_eqI)
      (auto simp only: bit_take_bit_iff bit_or_iff bit_and_iff bit_push_bit_iff bit_FFFF)
  from header_update [OF this] show "elems (PUTSIZE a k) = elems a"
    "wf_set n (PUTSIZE a k) = wf_set n a" "LOOP (PUTSIZE a k) = LOOP a"
    by (simp_all add: PUTSIZE_def)
qed (simp add: PUTSIZE_def)

lemma SIZE_PUTSIZE: "a \<noteq> [] \<Longrightarrow> SIZE (PUTSIZE a k) = k mod 2 ^ 16"
proof -
  have "drop_bit 16 ((w AND 0xFFFF) OR push_bit 16 (word_of_nat k)) = take_bit 16 (word_of_nat k :: u32)"
    for w :: u32
    by (rule bit_word_eqI) (auto simp: bit_simps bit_FFFF)
  moreover have "unat (take_bit 16 (word_of_nat k :: u32)) = k mod 2 ^ 16"
    by (simp only: unsigned_take_bit_eq unat_of_nat) (simp add: take_bit_eq_mod mod_mod_cancel)
  ultimately show "a \<noteq> [] \<Longrightarrow> SIZE (PUTSIZE a k) = k mod 2 ^ 16"
    by (simp only: SIZE_def PUTSIZE_def nth_list_update_eq length_greater_0_conv simp_thms)
qed

lemma nth_PUTSIZE [simp]: "1 \<le> i \<Longrightarrow> PUTSIZE a k ! i = a ! i"
  by (simp add: PUTSIZE_def)

text \<open>The six flags live in bits 10 to 15, clear of the loop count and of the size.\<close>

definition flag_ok :: "u32 \<Rightarrow> bool" where
  "flag_ok f \<longleftrightarrow> (\<exists>k. 10 \<le> k \<and> k < 16 \<and> f = push_bit k 1)"

lemma flag_ok [simp]:
  "flag_ok PRIME" "flag_ok NONESSEN" "flag_ok ACTIVE" "flag_ok REDUND" "flag_ok COVERED" "flag_ok RELESSEN"
proof -
  show "flag_ok PRIME" unfolding flag_ok_def PRIME_def by (intro exI [of _ 15]) simp
  show "flag_ok NONESSEN" unfolding flag_ok_def NONESSEN_def by (intro exI [of _ 14]) simp
  show "flag_ok ACTIVE" unfolding flag_ok_def ACTIVE_def by (intro exI [of _ 13]) simp
  show "flag_ok REDUND" unfolding flag_ok_def REDUND_def by (intro exI [of _ 12]) simp
  show "flag_ok COVERED" unfolding flag_ok_def COVERED_def by (intro exI [of _ 11]) simp
  show "flag_ok RELESSEN" unfolding flag_ok_def RELESSEN_def by (intro exI [of _ 10]) simp
qed

lemma SET_spec [simp]:
  assumes "flag_ok f"
  shows "elems (SET a f) = elems a" "wf_set n (SET a f) = wf_set n a" "LOOP (SET a f) = LOOP a"
    "a \<noteq> [] \<Longrightarrow> SIZE (SET a f) = SIZE a" "a \<noteq> [] \<Longrightarrow> TESTP (SET a f) f"
proof -
  obtain k where k: "10 \<le> k" "k < 16" and f: "f = push_bit k 1" using assms by (auto simp: flag_ok_def)
  have "take_bit 10 (a ! 0 OR f) = take_bit 10 (a ! 0)"
    unfolding f by (rule bit_word_eqI) (use k in \<open>auto simp: bit_simps\<close>)
  from header_update [OF this] show "elems (SET a f) = elems a" "wf_set n (SET a f) = wf_set n a"
    "LOOP (SET a f) = LOOP a" by (simp_all add: SET_def)
  have "drop_bit 16 (a ! 0 OR f) = drop_bit 16 (a ! 0)"
    unfolding f by (rule bit_word_eqI) (use k in \<open>auto simp: bit_simps\<close>)
  then show "a \<noteq> [] \<Longrightarrow> SIZE (SET a f) = SIZE a" by (simp add: SIZE_def SET_def)
  have "bit (a ! 0 OR f) k" unfolding f using k by (simp add: bit_simps)
  then show "a \<noteq> [] \<Longrightarrow> TESTP (SET a f) f"
    unfolding f TESTP_def word_test_bit_and_exp by (simp add: SET_def f)
qed

lemma RESET_spec [simp]:
  assumes "flag_ok f"
  shows "elems (RESET a f) = elems a" "wf_set n (RESET a f) = wf_set n a" "LOOP (RESET a f) = LOOP a"
    "a \<noteq> [] \<Longrightarrow> SIZE (RESET a f) = SIZE a" "a \<noteq> [] \<Longrightarrow> \<not> TESTP (RESET a f) f"
proof -
  obtain k where k: "10 \<le> k" "k < 16" and f: "f = push_bit k 1" using assms by (auto simp: flag_ok_def)
  have "take_bit 10 (a ! 0 AND NOT f) = take_bit 10 (a ! 0)"
    unfolding f by (rule bit_word_eqI) (use k in \<open>auto simp: bit_simps\<close>)
  from header_update [OF this] show "elems (RESET a f) = elems a" "wf_set n (RESET a f) = wf_set n a"
    "LOOP (RESET a f) = LOOP a" by (simp_all add: RESET_def)
  have "drop_bit 16 (a ! 0 AND NOT f) = drop_bit 16 (a ! 0)"
    unfolding f by (rule bit_word_eqI) (use k in \<open>auto simp: bit_simps dest: bit_imp_le_length\<close>)
  then show "a \<noteq> [] \<Longrightarrow> SIZE (RESET a f) = SIZE a" by (simp add: SIZE_def RESET_def)
  have "\<not> bit (a ! 0 AND NOT f) k" unfolding f using k by (simp add: bit_simps)
  then show "a \<noteq> [] \<Longrightarrow> \<not> TESTP (RESET a f) f"
    unfolding f TESTP_def word_test_bit_and_exp by (simp add: RESET_def f)
qed

lemma length_SET [simp]: "length (SET a f) = length a" and length_RESET [simp]: "length (RESET a f) = length a"
  by (simp_all add: SET_def RESET_def)

section \<open>Counting elements\<close>

text \<open>
  The table is the one that doubling builds: the second half of the table for \<open>n + 1\<close> bits is the
  first half with one more bit set.
\<close>

fun ones_table :: "nat \<Rightarrow> nat list" where
  "ones_table 0 = [0]"
| "ones_table (Suc n) = ones_table n @ map Suc (ones_table n)"

lemma length_ones_table: "length (ones_table n) = 2 ^ n"
  by (induction n) auto

lemma bit_nat_below: "k < 2 ^ n \<Longrightarrow> n \<le> i \<Longrightarrow> \<not> bit k i" for k :: nat
  by (metis bit_take_bit_iff not_less take_bit_nat_eq_self)

lemma bit_add_exp:
  assumes "j < 2 ^ n"
  shows "bit (2 ^ n + j :: nat) i \<longleftrightarrow> i = n \<or> bit j i"
proof -
  have "2 ^ n AND j = 0"
    using bit_nat_below [OF assms] by (intro bit_eqI) (auto simp: bit_simps)
  then have "2 ^ n + j = (2 ^ n OR j)" by (rule disjunctive_add_eq_or)
  then show ?thesis by (simp add: bit_simps)
qed

lemma nth_ones_table: "k < 2 ^ n \<Longrightarrow> ones_table n ! k = (\<Sum>i<n. of_bool (bit k i))"
proof (induction n arbitrary: k)
  case (Suc n)
  show ?case
  proof (cases "k < 2 ^ n")
    case True
    then show ?thesis using Suc bit_nat_below [OF True] by (simp add: nth_append length_ones_table)
  next
    case False
    then obtain j where k: "k = 2 ^ n + j" by (metis le_Suc_ex not_less)
    then have j: "j < 2 ^ n" using Suc.prems by simp
    then show ?thesis using Suc.IH [OF j] bit_nat_below [OF j, of n]
      by (simp add: k nth_append length_ones_table bit_add_exp)
  qed
qed simp

lemma bit_count_table: "bit_count = ones_table 8"
proof -
  have "ones_table (numeral n) = ones_table (pred_numeral n) @ map Suc (ones_table (pred_numeral n))" for n
    by (simp add: numeral_eq_Suc)
  then show ?thesis by (simp add: bit_count_def)
qed

lemma bit_count_nth: "k < 256 \<Longrightarrow> bit_count ! k = (\<Sum>i<8. of_bool (bit k i))"
  using nth_ones_table [of k 8] by (simp add: bit_count_table)

lemma bit_count_byte:
  "bit_count ! unat (drop_bit j v AND 255) = (\<Sum>i<8. of_bool (bit v (j + i)))" for v :: u32
proof -
  have m: "(255 :: u32) = mask 8" by (simp add: mask_eq_exp_minus_1)
  have eq: "unat (drop_bit j v AND 255) = take_bit 8 (unat (drop_bit j v))"
    unfolding m by (metis take_bit_eq_mask unsigned_take_bit_eq)
  have lt: "take_bit 8 (unat (drop_bit j v)) < 256"
    using take_bit_nat_less_exp [of 8 "unat (drop_bit j v)"] by simp
  show ?thesis unfolding eq bit_count_nth [OF lt]
    by (rule sum.cong) (auto simp: bit_simps bit_unsigned_iff dest: bit_imp_le_length)
qed

lemma sum_of_bool_card: "finite A \<Longrightarrow> (\<Sum>i\<in>A. of_bool (P i)) = card {i \<in> A. P i}"
  by (simp add: sum.If_cases of_bool_def Int_def)

lemma sum_lessThan_add: "(\<Sum>i<a + b. f i) = (\<Sum>i<a. f i) + (\<Sum>i<b. f (a + i))" for f :: "nat \<Rightarrow> nat"
  by (induction b) (simp_all add: add.assoc)

lemma count_ones_card: "count_ones v = card {i. i < 32 \<and> bit v i}"
proof -
  have "drop_bit 0 v = v" by simp
  then have "count_ones v = (\<Sum>i<8. of_bool (bit v (0 + i))) + (\<Sum>i<8. of_bool (bit v (8 + i)))
      + (\<Sum>i<8. of_bool (bit v (16 + i))) + (\<Sum>i<8. of_bool (bit v (24 + i)))"
    unfolding count_ones_def using bit_count_byte [of 0 v] bit_count_byte [of _ v] by simp
  also have "\<dots> = (\<Sum>i<8 + (8 + (8 + 8)). of_bool (bit v i))"
    unfolding sum_lessThan_add by (simp add: add.assoc)
  also have "\<dots> = (\<Sum>i<32. of_bool (bit v i))" by simp
  also have "\<dots> = card {i \<in> {..<32}. bit v i}" by (rule sum_of_bool_card) simp
  finally show ?thesis by (simp add: Collect_conj_eq lessThan_def)
qed

lemma card_word_blocks:
  fixes f :: "nat \<Rightarrow> u32"
  shows "card {e. e < 32 * k \<and> bit (f (e div 32 + 1)) (e mod 32)} = (\<Sum>i = 1..k. count_ones (f i))"
proof (induction k)
  case (Suc k)
  let ?S = "\<lambda>k. {e. e < 32 * k \<and> bit (f (e div 32 + 1)) (e mod 32)}"
  let ?B = "(\<lambda>b. 32 * k + b) ` {b. b < 32 \<and> bit (f (Suc k)) b}"
  have "?S (Suc k) = ?S k \<union> ?B"
  proof (rule set_eqI)
    fix e
    show "e \<in> ?S (Suc k) \<longleftrightarrow> e \<in> ?S k \<union> ?B"
    proof (cases "e < 32 * k")
      case False
      then obtain b where e: "e = 32 * k + b" by (metis le_Suc_ex not_less)
      then show ?thesis using False by (cases "b < 32") auto
    qed auto
  qed
  moreover have "?S k \<inter> ?B = {}" by auto
  moreover have "card ?B = count_ones (f (Suc k))"
    by (simp add: card_image inj_on_def count_ones_card)
  ultimately show ?case using Suc by (simp add: card_Un_disjoint)
qed simp

lemma count_ones_0 [simp]: "count_ones 0 = 0"
  by (simp add: count_ones_card)

lemma set_ord_card [elems_simps]: "set_ord a = card (elems a)"
proof -
  have "set_ord a = for_down (\<lambda>i s. s + count_ones (a ! i)) (LOOP a) 0"
    unfolding set_ord_def by (rule arg_cong [where f = "\<lambda>b. for_down b _ _"]) (auto simp: fun_eq_iff Let_def)
  also have "\<dots> = card {e. e < 32 * LOOP a \<and> bit (a ! (e div 32 + 1)) (e mod 32)}"
    unfolding card_word_blocks [where f = "\<lambda>i. a ! i"] for_down_add by simp
  finally show ?thesis by (simp add: elems_iff [abs_def, symmetric] elems_def NELEM_def is_in_set_bit)
qed

lemma set_dist_card [elems_simps]:
  assumes "LOOP a = LOOP b"
  shows "set_dist a b = card (elems a \<inter> elems b)"
proof -
  have "set_dist a b = for_down (\<lambda>i s. s + count_ones (a ! i AND b ! i)) (LOOP a) 0"
    unfolding set_dist_def by (rule arg_cong [where f = "\<lambda>b. for_down b _ _"]) (auto simp: fun_eq_iff Let_def)
  also have "\<dots> = card {e. e < 32 * LOOP a \<and> bit (a ! (e div 32 + 1) AND b ! (e div 32 + 1)) (e mod 32)}"
    unfolding card_word_blocks [where f = "\<lambda>i. a ! i AND b ! i"] for_down_add by simp
  also have "{e. e < 32 * LOOP a \<and> bit (a ! (e div 32 + 1) AND b ! (e div 32 + 1)) (e mod 32)}
      = elems a \<inter> elems b" using assms by (auto simp: elems_iff bit_simps)
  finally show ?thesis .
qed

lemma bit_index_loop_spec:
  "a \<noteq> 0 \<Longrightarrow> \<exists>k. bit a k \<and> (\<forall>j<k. \<not> bit a j) \<and> bit_index_loop a i = i + int k"
proof (induction a i rule: bit_index_loop.induct)
  case (1 a i)
  show ?case
  proof (cases "bit a 0")
    case True
    then have "a AND 1 \<noteq> 0" using word_test_bit_and_exp [of a 0] by simp
    with True show ?thesis by (intro exI [of _ 0]) (simp add: bit_index_loop.simps [of a i])
  next
    case False
    then have g: "a AND 1 = 0 \<and> a \<noteq> 0" using "1.prems" word_test_bit_and_exp [of a 0] by simp
    have sh: "bit (drop_bit 1 a) j = bit a (Suc j)" for j by (simp add: bit_drop_bit_eq)
    have "drop_bit 1 a \<noteq> 0"
    proof
      assume z: "drop_bit 1 a = 0"
      have "\<not> bit a j" for j using sh [of "j - 1"] z False by (cases j) auto
      then have "a = 0" unfolding word_eq_0_iff by blast
      then show False using g by simp
    qed
    with "1.IH" [OF g] obtain k where k: "bit (drop_bit 1 a) k" "\<forall>j<k. \<not> bit (drop_bit 1 a) j"
      "bit_index_loop (drop_bit 1 a) (i + 1) = i + 1 + int k" by auto
    have "\<not> bit a j" if "j < Suc k" for j using that k(2) sh False by (cases j) auto
    then show ?thesis
      using k g sh by (intro exI [of _ "Suc k"]) (auto simp: bit_index_loop.simps [of a i])
  qed
qed

lemma bit_index_spec:
  "a \<noteq> 0 \<Longrightarrow> \<exists>k. bit_index a = int k \<and> bit a k \<and> (\<forall>j<k. \<not> bit a j)"
  using bit_index_loop_spec [of a 0] by (auto simp: bit_index_def)

lemma length_count_word [simp]: "length (count_word v b w cnt) = length cnt"
proof (induction v b w cnt rule: count_word.induct)
  case (1 v b w cnt)
  then show ?case by (auto simp: count_word.simps [of v b w cnt])
qed

lemma nth_count_word:
  "\<forall>k. bit v k \<longrightarrow> b + k < length cnt \<Longrightarrow> e < length cnt \<Longrightarrow>
    count_word v b w cnt ! e = cnt ! e + (if b \<le> e \<and> bit v (e - b) then w else 0)"
proof (induction v b w cnt rule: count_word.induct)
  case (1 v b w cnt)
  show ?case
  proof (cases "v = 0")
    case True
    then show ?thesis by (subst count_word.simps) simp
  next
    case False
    let ?cnt = "if v AND 1 \<noteq> 0 then cnt[b := cnt ! b + w] else cnt"
    have b0: "v AND 1 \<noteq> 0 \<longleftrightarrow> bit v 0" using word_test_bit_and_exp [of v 0] by simp
    have sh: "bit (drop_bit 1 v) j = bit v (Suc j)" for j by (simp add: bit_drop_bit_eq)
    have pre: "\<forall>k. bit (drop_bit 1 v) k \<longrightarrow> b + 1 + k < length ?cnt"
    proof (intro allI impI)
      fix k assume "bit (drop_bit 1 v) k"
      then have "bit v (Suc k)" by (simp only: sh)
      then have "b + Suc k < length cnt" using "1.prems" (1) by blast
      then show "b + 1 + k < length ?cnt" by simp
    qed
    have bl: "bit v 0 \<Longrightarrow> b < length cnt" using "1.prems" (1) by (metis add.right_neutral)
    have "count_word v b w cnt ! e = count_word (drop_bit 1 v) (b + 1) w ?cnt ! e"
      using False by (subst count_word.simps) simp
    also have "\<dots> = ?cnt ! e + (if b + 1 \<le> e \<and> bit (drop_bit 1 v) (e - (b + 1)) then w else 0)"
      using "1.IH" [OF False pre] "1.prems" (2) by simp
    also have "\<dots> = cnt ! e + (if b \<le> e \<and> bit v (e - b) then w else 0)"
    proof (cases "e = b")
      case True
      then show ?thesis using b0 bl by auto
    next
      case ne: False
      then have c: "?cnt ! e = cnt ! e" by simp
      show ?thesis
      proof (cases "b + 1 \<le> e")
        case True
        then have "e - b = Suc (e - (b + 1))" by linarith
        then have "bit (drop_bit 1 v) (e - (b + 1)) = bit v (e - b)" by (simp only: sh)
        then show ?thesis unfolding c using True by (simp only:) simp
      next
        case False
        then show ?thesis using ne unfolding c by simp
      qed
    qed
    finally show ?thesis .
  qed
qed

lemma push_bit_5_nat: "push_bit 5 (n :: nat) = 32 * n"
  by (simp add: push_bit_eq_mult mult.commute)

lemma length_for_down_count [simp]:
  "length (for_down (\<lambda>i c. count_word (f i) (g i) w c) n c) = length c"
  by (induction n arbitrary: c) simp_all

lemma length_set_adjcnt [simp]: "length (set_adjcnt a c w) = length c"
  by (simp add: set_adjcnt_def)

lemma set_adjcnt_spec:
  assumes "elems a \<subseteq> {..<length cnt}" "e < length cnt"
  shows "set_adjcnt a cnt w ! e = cnt ! e + (if e \<in> elems a then w else 0)"
proof -
  let ?body = "\<lambda>i cnt. count_word (a ! i) (push_bit 5 (i - 1)) w cnt"
  have "for_down ?body n c ! e = c ! e + (if e < 32 * n \<and> e \<in> elems a then w else 0)"
    if "n \<le> LOOP a" "length c = length cnt" for n c
    using that
  proof (induction n arbitrary: c)
    case (Suc n)
    have bits: "32 * n + k \<in> elems a" if "bit (a ! Suc n) k" for k
      using that bit_imp_le_length [OF that] Suc.prems by (auto simp: elems_iff)
    have "e \<in> elems a \<longleftrightarrow> bit (a ! Suc n) (e - 32 * n)" if le: "32 * n \<le> e" and less: "e < 32 * Suc n"
    proof -
      obtain k where k: "e = 32 * n + k" using le_Suc_ex [OF le] by blast
      moreover from k have k32: "k < 32" using less by simp
      moreover have "32 * Suc n \<le> 32 * LOOP a" using Suc.prems(1) by (intro mult_le_mono2)
      ultimately have lt: "e < 32 * LOOP a" using less by linarith
      have "e div 32 = n" "e mod 32 = k" using k k32 by simp_all
      with lt show ?thesis unfolding elems_iff by (simp add: k)
    qed
    moreover have "\<not> bit (a ! Suc n) (e - 32 * n)" if "32 * Suc n \<le> e"
      using that bit_imp_le_length [of "a ! Suc n" "e - 32 * n"] by auto
    moreover have "?body (Suc n) c ! e = c ! e + (if 32 * n \<le> e \<and> bit (a ! Suc n) (e - 32 * n) then w else 0)"
    proof -
      have "\<forall>k. bit (a ! Suc n) k \<longrightarrow> 32 * n + k < length c"
        using bits assms(1) Suc.prems(2) by auto
      from nth_count_word [OF this, of e w] show ?thesis
        using assms(2) Suc.prems(2) by (simp add: push_bit_5_nat)
    qed
    ultimately show ?case using Suc.IH [of "?body (Suc n) c"] Suc.prems by auto
  qed simp
  from this [of "LOOP a" cnt] show "set_adjcnt a cnt w ! e = cnt ! e + (if e \<in> elems a then w else 0)"
    by (auto simp: set_adjcnt_def elems_iff)
qed

lemma fst_upd_or_down: "fst (upd_or_down f n (r, x)) = upd_down f n r"
  by (induction f n "(r, x)" arbitrary: r x rule: upd_or_down.induct) simp_all

lemma word_or_zero: "v OR w = 0 \<longleftrightarrow> v = 0 \<and> w = 0" for v w :: u32
  by (auto simp: word_eq_0_iff bit_simps)

lemma snd_upd_or_down:
  "1 \<le> n \<Longrightarrow> snd (upd_or_down f n (r, x)) = 0 \<longleftrightarrow> x = 0 \<and> (\<forall>i. 1 \<le> i \<and> i \<le> n \<longrightarrow> f i = 0)"
  by (induction f n "(r, x)" arbitrary: r x rule: upd_or_down.induct)
    (auto simp: word_or_zero le_Suc_eq)

lemma set_andp_spec:
  assumes "wf_set n a" "wf_set n b" "length r = SET_SIZE n"
  shows "fst (set_andp r a b) = set_and r a b" "snd (set_andp r a b) \<longleftrightarrow> elems a \<inter> elems b \<noteq> {}"
proof -
  show "fst (set_andp r a b) = set_and r a b"
    by (simp add: set_andp_def set_and_def Let_def split_beta fst_upd_or_down)
  show "snd (set_andp r a b) \<longleftrightarrow> elems a \<inter> elems b \<noteq> {}"
    using snd_upd_or_down [of "LOOP a"] setp_disjoint_iff [OF assms(1,2)]
    by (simp add: set_andp_def Let_def split_beta setp_disjoint_def all_down_iff wf_LOOP [OF assms(1)])
qed

lemma set_orp_spec:
  assumes "wf_set n a" "wf_set n b" "length r = SET_SIZE n"
  shows "fst (set_orp r a b) = set_or r a b" "snd (set_orp r a b) \<longleftrightarrow> elems a \<union> elems b \<noteq> {}"
proof -
  show "fst (set_orp r a b) = set_or r a b"
    by (simp add: set_orp_def set_or_def Let_def split_beta fst_upd_or_down)
  show "snd (set_orp r a b) \<longleftrightarrow> elems a \<union> elems b \<noteq> {}"
    using snd_upd_or_down [of "LOOP a"] setp_empty_iff [OF assms(1)] setp_empty_iff [OF assms(2)]
    by (auto simp: set_orp_def Let_def split_beta setp_empty_def all_down_iff wf_LOOP [OF assms(1)]
        wf_LOOP [OF assms(2)] word_or_zero)
qed

lemma wf_set_full [simp]: "0 < n \<Longrightarrow> n \<le> 32736 \<Longrightarrow> wf_set n (set_full n)"
  and elems_set_full [simp]: "0 < n \<Longrightarrow> n \<le> 32736 \<Longrightarrow> elems (set_full n) = {..<n}"
  using set_fill_spec [of "replicate (SET_SIZE n) 0" n] by (simp_all add: set_full_def)

lemma wf_single [simp]: "e < n \<Longrightarrow> n \<le> 32736 \<Longrightarrow> wf_set n (set_insert (set_new n) e)"
  and elems_single [simp]: "e < n \<Longrightarrow> n \<le> 32736 \<Longrightarrow> elems (set_insert (set_new n) e) = {e}"
  by (simp_all add: set_insert_spec [of n])

section \<open>The fields of the header\<close>

text \<open>A flag only answers to itself, and not to the other fields.\<close>

lemma flag_test:
  assumes "flag_ok f" "flag_ok g" "a \<noteq> []"
  shows "TESTP (SET a g) f \<longleftrightarrow> f = g \<or> TESTP a f" "TESTP (RESET a g) f \<longleftrightarrow> f \<noteq> g \<and> TESTP a f"
proof -
  obtain k where k: "k < 16" "f = push_bit k 1" using assms(1) by (auto simp: flag_ok_def)
  obtain l where l: "l < 16" "g = push_bit l 1" using assms(2) by (auto simp: flag_ok_def)
  have t: "TESTP b f \<longleftrightarrow> bit (b ! 0) k" for b
    by (simp add: TESTP_def k(2) bit_iff_and_push_bit_not_eq_0)
  have e: "f = g \<longleftrightarrow> k = l"
  proof
    assume "f = g"
    have "bit f k" unfolding k(2) using k(1) by (simp only: bit_push_bit_iff) simp
    then have "bit (push_bit l (1 :: u32)) k" using \<open>f = g\<close> l(2) by (simp only:)
    then show "k = l" by (simp only: bit_push_bit_iff bit_1_iff) simp
  qed (simp add: k l)
  show "TESTP (SET a g) f \<longleftrightarrow> f = g \<or> TESTP a f"
    unfolding t e using assms(3) k l by (auto simp: SET_def bit_simps)
  show "TESTP (RESET a g) f \<longleftrightarrow> f \<noteq> g \<and> TESTP a f"
    unfolding t e using assms(3) k l by (auto simp: RESET_def bit_simps)
qed

lemma field_flags:
  assumes "flag_ok f" "a \<noteq> []"
  shows "TESTP (PUTSIZE a k) f \<longleftrightarrow> TESTP a f" "i < 1024 \<Longrightarrow> TESTP (PUTLOOP a i) f \<longleftrightarrow> TESTP a f"
proof -
  obtain l where l: "10 \<le> l" "l < 16" "f = push_bit l 1" using assms(1) by (auto simp: flag_ok_def)
  have t: "TESTP b f \<longleftrightarrow> bit (b ! 0) l" for b
    by (simp add: TESTP_def l(3) bit_iff_and_push_bit_not_eq_0)
  show "TESTP (PUTSIZE a k) f \<longleftrightarrow> TESTP a f"
  proof -
    have "bit ((a ! 0 AND 0xFFFF) OR push_bit 16 (word_of_nat k)) l = bit (a ! 0) l"
      using l(1,2) by (auto simp only: bit_or_iff bit_and_iff bit_push_bit_iff bit_FFFF)
    then show ?thesis unfolding t using assms(2) by (simp add: PUTSIZE_def)
  qed
  show "TESTP (PUTLOOP a i) f \<longleftrightarrow> TESTP a f" if "i < 1024"
  proof -
    have "\<not> bit (word_of_nat i :: u32) l" using bit_nat_below [of i 10 l] that l by (simp add: bit_simps)
    moreover have "bit (NOT 0x3FF :: u32) l" using l(1,2) by (simp only: bit_not_iff bit_3FF) simp
    ultimately have "bit ((a ! 0 AND NOT 0x3FF) OR word_of_nat i) l = bit (a ! 0) l" by (simp only: bit_or_iff bit_and_iff simp_thms)
    then show ?thesis unfolding t using assms(2) by (simp add: PUTLOOP_def)
  qed
qed

lemma SIZE_PUTLOOP:
  assumes "a \<noteq> []" "i < 1024"
  shows "SIZE (PUTLOOP a i) = SIZE a"
proof -
  have n: "\<not> bit (word_of_nat i :: u32) m" if "16 \<le> m" "m < 32" for m
    using bit_nat_below [of i 10 m] that assms(2) by (simp add: bit_simps)
  have "drop_bit 16 ((a ! 0 AND NOT 0x3FF) OR word_of_nat i) = drop_bit 16 (a ! 0)"
  proof (rule bit_word_eqI)
    fix m assume m: "m < LENGTH(32)"
    have "bit (NOT 0x3FF :: u32) (16 + m)" if "16 + m < 32" using that by (simp only: bit_not_iff bit_3FF) simp
    then have "bit ((a ! 0 AND NOT 0x3FF) OR word_of_nat i) (16 + m) = bit (a ! 0) (16 + m)" if "16 + m < 32"
      using n [of "16 + m"] that by (simp only: bit_or_iff bit_and_iff) simp
    moreover have "\<not> bit w (16 + m)" if "\<not> 16 + m < 32" for w :: u32 using bit_imp_le_length [of w "16 + m"] that by auto
    ultimately show "bit (drop_bit 16 ((a ! 0 AND NOT 0x3FF) OR word_of_nat i)) m = bit (drop_bit 16 (a ! 0)) m"
      unfolding bit_drop_bit_eq comp_def by (cases "16 + m < 32") simp_all
  qed
  then show ?thesis using assms(1) by (simp add: SIZE_def PUTLOOP_def)
qed

section \<open>Properties\<close>

text \<open>
  C28. The binary set routines implement intersection, union, difference, symmetric difference
  and merge under a mask, for every length of set and whatever the result array held before (it may be
  an operand), and keep the set well formed: no stray bits behind the last element.
\<close>

theorem set_routines_refine:
  assumes "wf_set n a" "wf_set n b" "wf_set n m" "length r = SET_SIZE n"
  shows "(wf_set n (set_and r a b) \<and> elems (set_and r a b) = elems a \<inter> elems b)
    \<and> (wf_set n (set_or r a b) \<and> elems (set_or r a b) = elems a \<union> elems b)
    \<and> (wf_set n (set_diff r a b) \<and> elems (set_diff r a b) = elems a - elems b)
    \<and> (wf_set n (set_xor r a b) \<and>
       elems (set_xor r a b) = (elems a - elems b) \<union> (elems b - elems a))
    \<and> (wf_set n (set_merge r a b m) \<and>
       elems (set_merge r a b m) = (elems a \<inter> elems m) \<union> (elems b - elems m))
    \<and> (snd (set_andp r a b) \<longleftrightarrow> elems a \<inter> elems b \<noteq> {})
    \<and> (snd (set_orp r a b) \<longleftrightarrow> elems a \<union> elems b \<noteq> {})"
  using assms by (simp_all add: binops_wf binops_elems set_andp_spec set_orp_spec)

theorem set_routines_refine_witness:
  "elems (set_diff (set_full 40) (set_full 40) (set_insert (set_new 40) 33)) = {..<40} - {33}"
proof -
  have "wf_set 40 (set_insert (set_new 40) 33)" "elems (set_insert (set_new 40) 33) = {33}"
    by simp_all
  then show ?thesis
    using set_routines_refine [of 40 "set_full 40" "set_insert (set_new 40) 33" "set_full 40" "set_full 40"]
    by (simp add: wf_length)
qed

text \<open>
  Lemma. Each set predicate, which compares whole words and leaves its loop
  at the first difference, decides the relation it is named after.
\<close>

theorem set_predicates_decide:
  assumes "wf_set n a" "wf_set n b" "0 < n"
  shows "(setp_empty a \<longleftrightarrow> elems a = {}) \<and> (setp_full a n \<longleftrightarrow> elems a = {..<n})
    \<and> (setp_equal a b \<longleftrightarrow> elems a = elems b) \<and> (setp_disjoint a b \<longleftrightarrow> elems a \<inter> elems b = {})
    \<and> (setp_implies a b \<longleftrightarrow> elems a \<subseteq> elems b)"
  using assms by (simp add: elems_simps)

theorem set_predicates_decide_witness:
  "setp_implies (set_insert (set_new 65) 64) (set_full 65) \<and> \<not> setp_full (set_insert (set_new 65) 64) 65"
proof -
  have "wf_set 65 (set_insert (set_new 65) 64)" "elems (set_insert (set_new 65) 64) = {64}"
    by simp_all
  moreover have "0 \<in> {..<65 :: nat} - {64}" by simp
  then have "{64} \<noteq> {..<65 :: nat}" by blast
  ultimately show ?thesis
    using set_predicates_decide [of 65 "set_insert (set_new 65) 64" "set_full 65"] by simp
qed

text \<open>
  C29. The counting routines: a table look-up per byte, a loop per word, and what
  comes out is the number of elements, the number of common elements, and a histogram that grows
  by the weight in exactly the columns of the set; \<open>bit_index\<close> finds the lowest bit.
\<close>

theorem set_counts:
  assumes "wf_set n a" "wf_set n b" "length cnt = n" "w \<noteq> 0"
  shows "(set_ord a = card (elems a))
    \<and> (set_dist a b = card (elems a \<inter> elems b))
    \<and> (set_adjcnt a cnt k = map (\<lambda>e. cnt ! e + (if e \<in> elems a then k else 0)) [0..<n])
    \<and> (\<exists>i. bit_index w = int i \<and> bit w i \<and> (\<forall>j<i. \<not> bit w j))"
proof (intro conjI)
  show "set_adjcnt a cnt k = map (\<lambda>e. cnt ! e + (if e \<in> elems a then k else 0)) [0..<n]"
    using assms wf_elems [OF assms(1)] by (intro nth_equalityI) (simp_all add: set_adjcnt_spec)
qed (use assms in \<open>simp_all add: set_ord_card set_dist_card wf_LOOP bit_index_spec\<close>)

theorem set_counts_witness:
  "set_ord (set_full 70) = 70 \<and> set_adjcnt (set_insert (set_new 3) 1) [5, 6, 7] (- 2) = [5, 4, 7]"
proof -
  have 1: "wf_set 70 (set_full 70)" "elems (set_full 70) = {..<70}" by simp_all
  have 3: "wf_set 3 (set_insert (set_new 3) 1)" "elems (set_insert (set_new 3) 1) = {1}"
    using wf_single [of 1 3] elems_single [of 1 3] by simp_all
  show ?thesis
    using set_counts [OF 1(1) 1(1), of "replicate 70 0" 1 "- 2"] 1
      set_counts [OF 3(1) 3(1), of "[5, 6, 7]" 1 "- 2"] 3 by (simp add: upt_rec)
qed

text \<open>
  C30. The three fields of the header word, the loop count, the six flags and the size, do not disturb
  each other, and none of them disturbs the elements: setting or resetting a flag changes that flag only, neither another flag nor
  the loop count nor the size; \<open>PUTSIZE\<close> changes the size only, which has 16 bits and so holds the number written modulo 65536;
  \<open>PUTLOOP\<close> changes the loop count only, for every count that fits into its ten bits.
\<close>

theorem header_fields_independent:
  assumes "wf_set n a" "f \<in> set [PRIME, NONESSEN, ACTIVE, REDUND, COVERED, RELESSEN]"
    "g \<in> set [PRIME, NONESSEN, ACTIVE, REDUND, COVERED, RELESSEN]" "i < 1024"
  shows "distinct [PRIME, NONESSEN, ACTIVE, REDUND, COVERED, RELESSEN]
    \<and> (wf_set n (SET a f) \<and> elems (SET a f) = elems a \<and> LOOP (SET a f) = LOOP a \<and> SIZE (SET a f) = SIZE a
       \<and> (TESTP (SET a f) g \<longleftrightarrow> g = f \<or> TESTP a g))
    \<and> (wf_set n (RESET a f) \<and> elems (RESET a f) = elems a \<and> LOOP (RESET a f) = LOOP a \<and> SIZE (RESET a f) = SIZE a
       \<and> (TESTP (RESET a f) g \<longleftrightarrow> g \<noteq> f \<and> TESTP a g))
    \<and> (wf_set n (PUTSIZE a k) \<and> elems (PUTSIZE a k) = elems a \<and> LOOP (PUTSIZE a k) = LOOP a \<and> SIZE (PUTSIZE a k) = k mod 65536
       \<and> (TESTP (PUTSIZE a k) f \<longleftrightarrow> TESTP a f))
    \<and> (length (PUTLOOP a i) = length a \<and> (\<forall>w\<ge>1. PUTLOOP a i ! w = a ! w) \<and> LOOP (PUTLOOP a i) = i
       \<and> SIZE (PUTLOOP a i) = SIZE a \<and> (TESTP (PUTLOOP a i) f \<longleftrightarrow> TESTP a f))"
proof -
  note ne = wf_nonempty [OF assms(1)]
  have f: "flag_ok f" "flag_ok g" using assms(2,3) by auto
  have "distinct [PRIME, NONESSEN, ACTIVE, REDUND, COVERED, RELESSEN]"
    by (simp add: PRIME_def NONESSEN_def ACTIVE_def REDUND_def COVERED_def RELESSEN_def)
  then show ?thesis
    using assms(1,4) ne f flag_test [OF f(2,1) ne] field_flags [OF f(1) ne] LOOP_PUTLOOP [OF ne assms(4)] SIZE_PUTLOOP [OF ne assms(4)]
    by (simp add: SIZE_PUTSIZE del: distinct.simps)
qed

theorem header_fields_independent_witness:
  "SIZE (PUTSIZE (set_full 5) 65537) = 1 \<and> elems (RESET (set_full 5) ACTIVE) = {..<5}
    \<and> (TESTP (SET (set_full 5) ACTIVE) PRIME \<longleftrightarrow> TESTP (set_full 5) PRIME)"
  using header_fields_independent [of 5 "set_full 5" ACTIVE PRIME 1 65537] by (simp add: PRIME_def ACTIVE_def)

end
