(* ===== verification/SetFamily.thy ===== *)
theory SetFamily
  imports Sets
begin

text \<open>
  Families of sets: the \<^verbatim>\<open>sf_...\<close> routines of \<^verbatim>\<open>set.c\<close>.

  The C structure holds one block of words in which set \<open>i\<close> starts at word
  \<open>i * wsize\<close>; the model keeps the block as the list of its sets, so \<open>count\<close> is the
  length of the list and \<open>capacity\<close> the number of sets the block has room for.  Memory that has
  been allocated but not written has unknown contents: \<open>mem i j\<close> is the value found in word
  \<open>j\<close> of set \<open>i\<close> of such a block, a parameter of every routine that lets it show (in C
  terms: the header bits that \<open>PUTLOOP\<close> keeps).  Every theorem holds for all \<open>mem\<close>.

  The free list of family descriptors (\<^verbatim>\<open>set_family_garbage\<close>) only recycles memory and is
  not modelled; \<^verbatim>\<open>sf_free\<close> has no effect on the values of the model.
\<close>

type_synonym memory = "nat \<Rightarrow> nat \<Rightarrow> u32"

record set_family =
  wsize :: nat
  sf_size :: nat
  capacity :: nat
  active_count :: int
  data :: "pset list"

abbreviation cnt :: "set_family \<Rightarrow> nat" where
  "cnt A \<equiv> length (data A)"

section \<open>Operations\<close>

definition sf_new :: "nat \<Rightarrow> nat \<Rightarrow> set_family" where
  "sf_new num sz =
     \<lparr>wsize = SET_SIZE sz, sf_size = sz, capacity = num, active_count = 0, data = []\<rparr>"

text \<open>
  \<^verbatim>\<open>GETSET(A, A->count++)\<close>: the array found in the next free slot, and the family after
  that slot has been taken and written.
\<close>

definition sf_fresh :: "memory \<Rightarrow> set_family \<Rightarrow> pset" where
  "sf_fresh mem A = map (mem (cnt A)) [0..<wsize A]"

definition sf_push :: "set_family \<Rightarrow> pset \<Rightarrow> set_family" where
  "sf_push A p = A\<lparr>data := data A @ [p]\<rparr>"

definition sf_or :: "set_family \<Rightarrow> pset" where
  "sf_or A = fold (\<lambda>p r. set_or r r p) (data A) (set_new (sf_size A))"

definition sf_and :: "set_family \<Rightarrow> pset" where
  "sf_and A =
     fold (\<lambda>p r. set_and r r p) (data A) (set_fill (set_new (sf_size A)) (sf_size A))"

definition sf_active :: "set_family \<Rightarrow> set_family" where
  "sf_active A = A\<lparr>data := map (\<lambda>p. SET p ACTIVE) (data A), active_count := int (cnt A)\<rparr>"

text \<open>
  The loop of \<^verbatim>\<open>sf_inactive\<close>: \<open>i\<close> is the set under \<^verbatim>\<open>p\<close>, \<open>dest\<close> the one
  under \<^verbatim>\<open>pdest\<close>; at the end the first \<open>dest\<close> sets remain.
\<close>

function sf_inactive_loop :: "nat \<Rightarrow> nat \<Rightarrow> pset list \<Rightarrow> pset list" where
  "sf_inactive_loop i dest D =
     (if i < length D then
        (let p = D ! i in
         if TESTP p ACTIVE
         then sf_inactive_loop (i + 1) (dest + 1)
                (if dest \<noteq> i then D[dest := set_copy (D ! dest) p] else D)
         else sf_inactive_loop (i + 1) dest D)
      else take dest D)"
  by pat_completeness auto
termination
  by (relation "measure (\<lambda>(i, dest, D). length D - i)") (auto simp: Let_def)

declare sf_inactive_loop.simps [simp del]

definition sf_inactive :: "set_family \<Rightarrow> set_family" where
  "sf_inactive A = A\<lparr>data := sf_inactive_loop 0 0 (data A)\<rparr>"

definition sf_copy :: "set_family \<Rightarrow> set_family \<Rightarrow> set_family" where
  "sf_copy R A =
     R\<lparr>sf_size := sf_size A, wsize := wsize A, active_count := active_count A, data := data A\<rparr>"

definition sf_join :: "set_family \<Rightarrow> set_family \<Rightarrow> set_family res" where
  "sf_join A B =
     (if sf_size A \<noteq> sf_size B then Inl (Fatal ''sf_join: sf_size mismatch'')
      else Inr ((sf_new (cnt A + cnt B) (sf_size A))
                  \<lparr>active_count := active_count A + active_count B, data := data A @ data B\<rparr>))"

definition sf_append :: "set_family \<Rightarrow> set_family \<Rightarrow> set_family res" where
  "sf_append A B =
     (if sf_size A \<noteq> sf_size B then Inl (Fatal ''sf_append: sf_size mismatch'')
      else Inr (A\<lparr>capacity := cnt A + cnt B, data := data A @ data B,
                  active_count := active_count A + active_count B\<rparr>))"

definition sf_save :: "set_family \<Rightarrow> set_family" where
  "sf_save A = sf_copy (sf_new (cnt A) (sf_size A)) A"

definition sf_addset :: "memory \<Rightarrow> set_family \<Rightarrow> pset \<Rightarrow> set_family" where
  "sf_addset mem A s =
     (let A = (if capacity A \<le> cnt A then A\<lparr>capacity := capacity A + capacity A div 2 + 1\<rparr> else A)
      in sf_push A (set_copy (sf_fresh mem A) s))"

definition sf_delset :: "set_family \<Rightarrow> nat \<Rightarrow> set_family" where
  "sf_delset A i =
     A\<lparr>data := butlast ((data A)[i := set_copy (data A ! i) (data A ! (cnt A - 1))])\<rparr>"

section \<open>Counting columns\<close>

definition sf_count :: "set_family \<Rightarrow> int list" where
  "sf_count A = fold (\<lambda>p cs. set_adjcnt p cs 1) (data A) (replicate (sf_size A) 0)"

text \<open>
  The inner loop of \<^verbatim>\<open>sf_count_restricted\<close> walks the words of \<^verbatim>\<open>p & r\<close>;
  \<^verbatim>\<open>weight = 1024 / (set_ord(p) - 1)\<close> divides by zero for a set of one element.
\<close>

definition adjcnt_restricted :: "pset \<Rightarrow> pset \<Rightarrow> int \<Rightarrow> int list \<Rightarrow> int list" where
  "adjcnt_restricted p r weight cs =
     for_down (\<lambda>i cs. count_word (p ! i AND r ! i) (push_bit 5 (i - 1)) weight cs)
       (LOOP p) cs"

fun count_restricted_loop :: "pset \<Rightarrow> pset list \<Rightarrow> int list \<Rightarrow> int list res" where
  "count_restricted_loop r [] cs = Inr cs"
| "count_restricted_loop r (p # ps) cs =
     (if set_ord p = 1 then Inl DivZero
      else count_restricted_loop r ps
             (adjcnt_restricted p r (1024 div (int (set_ord p) - 1)) cs))"

definition sf_count_restricted :: "set_family \<Rightarrow> pset \<Rightarrow> int list res" where
  "sf_count_restricted A r = count_restricted_loop r (data A) (replicate (sf_size A) 0)"

section \<open>Editing columns\<close>

text \<open>\<^verbatim>\<open>for (i = lo; i < hi; i++) if (is_in_set(p, i)) set_insert(pdest, i - n);\<close>\<close>

definition copy_cols :: "pset \<Rightarrow> nat \<Rightarrow> nat \<Rightarrow> int \<Rightarrow> pset \<Rightarrow> pset" where
  "copy_cols p lo hi n pdest =
     fold (\<lambda>i d. if is_in_set p i then set_insert d (nat (int i - n)) else d) [lo..<hi] pdest"

definition sf_delcol :: "set_family \<Rightarrow> nat \<Rightarrow> int \<Rightarrow> set_family" where
  "sf_delcol A firstcol n =
     (let B = sf_new (cnt A) (nat (int (sf_size A) - n)) in
      B\<lparr>data := map (\<lambda>p.
          let pdest = set_clear (replicate (wsize B) 0) (sf_size B);
              pdest = copy_cols p 0 firstcol 0 pdest
          in copy_cols p (if n > 0 then firstcol + nat n else firstcol) (sf_size A) n pdest)
        (data A)\<rparr>)"

definition sf_delc :: "set_family \<Rightarrow> nat \<Rightarrow> nat \<Rightarrow> set_family" where
  "sf_delc A firstcol lastcol = sf_delcol A firstcol (int lastcol - int firstcol + 1)"

definition sf_addcol :: "set_family \<Rightarrow> nat \<Rightarrow> nat \<Rightarrow> set_family" where
  "sf_addcol A firstcol n =
     (let maxsize = 32 * LOOPINIT (sf_size A) in
      if firstcol = sf_size A \<and> sf_size A + n \<le> maxsize then A\<lparr>sf_size := sf_size A + n\<rparr>
      else sf_delcol A firstcol (- int n))"

fun copy_col_rows :: "nat \<Rightarrow> nat \<Rightarrow> pset list \<Rightarrow> pset list \<Rightarrow> pset list" where
  "copy_col_rows dstcol srccol ds [] = ds"
| "copy_col_rows dstcol srccol [] ss = []"
| "copy_col_rows dstcol srccol (d # ds) (p # ss) =
     (let word_test = WHICH_WORD srccol;
          bit_test = push_bit (WHICH_BIT srccol) 1;
          word_set = WHICH_WORD dstcol;
          bit_set = push_bit (WHICH_BIT dstcol) 1
      in (if p ! word_test AND bit_test \<noteq> 0 then d[word_set := d ! word_set OR bit_set] else d)
         # copy_col_rows dstcol srccol ds ss)"

definition sf_copy_col :: "set_family \<Rightarrow> nat \<Rightarrow> set_family \<Rightarrow> nat \<Rightarrow> set_family" where
  "sf_copy_col dst dstcol src srccol =
     dst\<lparr>data := copy_col_rows dstcol srccol (data dst) (data src)\<rparr>"

definition sf_compress :: "set_family \<Rightarrow> pset \<Rightarrow> set_family" where
  "sf_compress A c =
     (let B = sf_new (cnt A) (set_ord c);
          B = B\<lparr>data := replicate (cnt A) (set_clear (replicate (wsize B) 0) (sf_size B))\<rparr>
      in fst (fold (\<lambda>i (B, bcol). if is_in_set c i then (sf_copy_col B bcol A i, bcol + 1)
                                  else (B, bcol))
                [0..<sf_size A] (B, 0)))"

definition sf_transpose :: "set_family \<Rightarrow> set_family" where
  "sf_transpose A =
     (let B = sf_new (sf_size A) (cnt A);
          B = B\<lparr>data := replicate (sf_size A) (set_clear (replicate (wsize B) 0) (sf_size B))\<rparr>
      in fold (\<lambda>i B. fold (\<lambda>j B. if is_in_set (data A ! i) j
                                 then B\<lparr>data := (data B)[j := set_insert (data B ! j) i]\<rparr> else B)
                       [0..<sf_size A] B)
           [0..<cnt A] B)"

definition sf_permute :: "set_family \<Rightarrow> nat list \<Rightarrow> set_family" where
  "sf_permute A permute =
     (let npermute = length permute;
          B = sf_new (cnt A) npermute
      in B\<lparr>data := map (\<lambda>p. fold (\<lambda>j d. if is_in_set p (permute ! j) then set_insert d j else d)
                               [0..<npermute] (set_clear (replicate (wsize B) 0) npermute))
                    (data A)\<rparr>)"

section \<open>Printing\<close>

text \<open>The digits of a number, as \<^verbatim>\<open>ps1\<close> produces them.\<close>

fun decimal :: "nat \<Rightarrow> string" where
  "decimal num =
     (if num < 10 then [char_of (num mod 10 + 48)]
      else decimal (num div 10) @ [char_of (num mod 10 + 48)])"

declare decimal.simps [simp del]

text \<open>The loop of \<^verbatim>\<open>ps1\<close>: the text so far, whose length is \<^verbatim>\<open>len\<close>.\<close>

fun ps1_loop :: "pset \<Rightarrow> nat list \<Rightarrow> bool \<Rightarrow> string \<Rightarrow> string" where
  "ps1_loop a [] first s = s"
| "ps1_loop a (i # is) first s =
     (if is_in_set a i then
        (let s = (if first then s else s @ '','') @ decimal i in
         if length s > 120 - 15 then s @ ''...'' else ps1_loop a is False s)
      else ps1_loop a is first s)"

definition ps1 :: "pset \<Rightarrow> string" where
  "ps1 a = ps1_loop a [0..<NELEM a] True ''['' @ '']'' @ [char_of (0 :: nat)]"

definition pbv1 :: "pset \<Rightarrow> nat \<Rightarrow> string res" where
  "pbv1 s n =
     (if 120 \<le> n then Inl Overflow
      else Inr (map (\<lambda>i. if is_in_set s i then CHR ''1'' else CHR ''0'') [0..<n]
                @ [char_of (0 :: nat)]))"

section \<open>Well-formed families\<close>

text \<open>
  \<open>wf_family n A\<close>: a family over \<open>{..<n}\<close> whose sets are well formed and fit in the
  memory allocated for it.  \<open>count \<le> capacity\<close> is what makes \<^verbatim>\<open>GETSET\<close> stay inside
  the block.
\<close>

definition wf_family :: "nat \<Rightarrow> set_family \<Rightarrow> bool" where
  "wf_family n A \<longleftrightarrow> sf_size A = n \<and> wsize A = SET_SIZE n \<and> (\<forall>p\<in>set (data A). wf_set n p)
     \<and> cnt A \<le> capacity A"

lemma wf_familyD:
  assumes "wf_family n A"
  shows "sf_size A = n" "wsize A = SET_SIZE n" "p \<in> set (data A) \<Longrightarrow> wf_set n p" "cnt A \<le> capacity A"
    "i < cnt A \<Longrightarrow> wf_set n (data A ! i)"
  using assms by (auto simp: wf_family_def)

lemma wf_family_bound: "wf_family n A \<Longrightarrow> data A \<noteq> [] \<Longrightarrow> n \<le> 32736"
  using wf_LOOPINIT_less [of n "hd (data A)"] LOOPINIT_covers [of n] by (auto simp: wf_family_def)

lemma sf_new_simps [simp]:
  "wsize (sf_new k n) = SET_SIZE n" "sf_size (sf_new k n) = n" "capacity (sf_new k n) = k"
  "data (sf_new k n) = []" "active_count (sf_new k n) = 0"
  by (simp_all add: sf_new_def)

lemma wf_sf_new [simp]: "wf_family n (sf_new k n)"
  by (simp add: wf_family_def)

lemma length_sf_fresh [simp]: "length (sf_fresh mem A) = wsize A"
  by (simp add: sf_fresh_def)

lemma sf_push_simps [simp]:
  "wsize (sf_push A p) = wsize A" "sf_size (sf_push A p) = sf_size A"
  "capacity (sf_push A p) = capacity A" "data (sf_push A p) = data A @ [p]"
  by (simp_all add: sf_push_def)

lemma wf_sf_push: "wf_family n A \<Longrightarrow> wf_set n p \<Longrightarrow> cnt A < capacity A \<Longrightarrow> wf_family n (sf_push A p)"
  by (auto simp: wf_family_def)

lemma sf_addset_spec:
  assumes "wf_family n A" "wf_set n p"
  shows "data (sf_addset mem A p) = data A @ [p]" "wf_family n (sf_addset mem A p)"
    "sf_size (sf_addset mem A p) = sf_size A"
  using assms by (auto simp: sf_addset_def Let_def wf_family_def)

lemma sf_join_spec:
  assumes "wf_family n A" "wf_family n B"
  obtains R where "sf_join A B = Inr R" "data R = data A @ data B" "wf_family n R"
  using assms by (auto simp: sf_join_def wf_family_def)

lemma sf_append_spec:
  assumes "wf_family n A" "wf_family n B"
  obtains R where "sf_append A B = Inr R" "data R = data A @ data B" "wf_family n R"
  using assms by (auto simp: sf_append_def wf_family_def)

lemma sf_save_eq: "wf_family n A \<Longrightarrow> data (sf_save A) = data A" "wf_family n A \<Longrightarrow> wf_family n (sf_save A)"
  by (auto simp: sf_save_def sf_copy_def wf_family_def)

lemma sf_active_spec:
  assumes "wf_family n A"
  shows "map elems (data (sf_active A)) = map elems (data A)" "wf_family n (sf_active A)"
    "\<forall>p\<in>set (data (sf_active A)). TESTP p ACTIVE"
  using assms by (auto simp: sf_active_def wf_family_def wf_nonempty)

lemma sf_inactive_loop_eq:
  assumes "\<forall>p\<in>set D. wf_set n p" "dest \<le> i" "i \<le> length D"
  shows "sf_inactive_loop i dest D = take dest D @ filter (\<lambda>p. TESTP p ACTIVE) (drop i D)"
  using assms
proof (induction i dest D rule: sf_inactive_loop.induct)
  case (1 i dest D)
  show ?case
  proof (cases "i < length D")
    case True
    let ?p = "D ! i" and ?D = "if dest \<noteq> i then D[dest := set_copy (D ! dest) (D ! i)] else D"
    have drop: "drop i D = ?p # drop (Suc i) D" using True by (rule Cons_nth_drop_Suc [symmetric])
    have "wf_set n ?p" "length (D ! dest) = SET_SIZE n"
      using "1.prems" True by (auto intro!: wf_length)
    then have D: "?D = D[dest := ?p]" by simp
    have wfD: "\<forall>p\<in>set (D[dest := ?p]). wf_set n p"
      using "1.prems" (1) \<open>wf_set n ?p\<close> by (auto dest!: set_update_subset_insert [THEN subsetD])
    show ?thesis
    proof (cases "TESTP ?p ACTIVE")
      case act: True
      have "sf_inactive_loop i dest D = sf_inactive_loop (i + 1) (dest + 1) (D[dest := ?p])"
        using True act D by (subst sf_inactive_loop.simps) (simp add: Let_def)
      also have "\<dots> = take (dest + 1) (D[dest := ?p]) @ filter (\<lambda>p. TESTP p ACTIVE) (drop (i + 1) (D[dest := ?p]))"
        using "1.IH" (1) [OF True refl act] wfD "1.prems" True unfolding D by simp
      finally show ?thesis
        using True act "1.prems" (2) unfolding drop by (simp add: take_Suc_conv_app_nth)
    next
      case False
      then show ?thesis
        using "1.IH" (2) [OF True refl False] "1.prems" True unfolding drop
        by (subst sf_inactive_loop.simps) (simp add: Let_def)
    qed
  next
    case False
    then show ?thesis using "1.prems" by (subst sf_inactive_loop.simps) simp
  qed
qed

lemma sf_inactive_spec:
  assumes "wf_family n A"
  shows "data (sf_inactive A) = filter (\<lambda>p. TESTP p ACTIVE) (data A)" "wf_family n (sf_inactive A)"
proof -
  show "data (sf_inactive A) = filter (\<lambda>p. TESTP p ACTIVE) (data A)"
    using sf_inactive_loop_eq [of "data A" n 0 0] assms by (simp add: sf_inactive_def wf_family_def)
  then show "wf_family n (sf_inactive A)"
    using assms le_trans [OF length_filter_le [of "\<lambda>p. TESTP p ACTIVE" "data A"]]
    by (auto simp: wf_family_def) (auto simp: sf_inactive_def)
qed

lemma fold_set_or:
  assumes "\<forall>p\<in>set ps. wf_set n p" "wf_set n r"
  shows "wf_set n (fold (\<lambda>p r. set_or r r p) ps r)"
    "elems (fold (\<lambda>p r. set_or r r p) ps r) = elems r \<union> (\<Union>p\<in>set ps. elems p)"
proof -
  have "wf_set n (fold (\<lambda>p r. set_or r r p) ps r) \<and>
    elems (fold (\<lambda>p r. set_or r r p) ps r) = elems r \<union> (\<Union>p\<in>set ps. elems p)"
    using assms
  proof (induction ps arbitrary: r)
    case (Cons p ps)
    then have "wf_set n (set_or r r p)" "elems (set_or r r p) = elems r \<union> elems p"
      by (simp_all add: binops_wf binops_elems wf_length)
    then show ?case using Cons by auto
  qed simp
  then show "wf_set n (fold (\<lambda>p r. set_or r r p) ps r)"
    "elems (fold (\<lambda>p r. set_or r r p) ps r) = elems r \<union> (\<Union>p\<in>set ps. elems p)" by auto
qed

lemma fold_set_and:
  assumes "\<forall>p\<in>set ps. wf_set n p" "wf_set n r"
  shows "wf_set n (fold (\<lambda>p r. set_and r r p) ps r) \<and>
    elems (fold (\<lambda>p r. set_and r r p) ps r) = elems r \<inter> (\<Inter>p\<in>set ps. elems p)"
  using assms
proof (induction ps arbitrary: r)
  case (Cons p ps)
  then have "wf_set n (set_and r r p)" "elems (set_and r r p) = elems r \<inter> elems p"
    by (simp_all add: binops_wf binops_elems wf_length)
  then show ?case using Cons by auto
qed simp

subsection \<open>Column counts\<close>

lemma sf_count_spec:
  assumes "wf_family n A" "e < n"
  shows "sf_count A ! e = int (length (filter (\<lambda>p. e \<in> elems p) (data A)))"
proof -
  have "length (fold (\<lambda>p c. set_adjcnt p c 1) ps c) = n \<and>
      fold (\<lambda>p c. set_adjcnt p c 1) ps c ! e = c ! e + int (length (filter (\<lambda>p. e \<in> elems p) ps))"
    if "\<forall>p\<in>set ps. wf_set n p" "length c = n" for ps c
    using that
  proof (induction ps arbitrary: c)
    case (Cons p ps)
    then have "elems p \<subseteq> {..<length c}" by (simp add: wf_elems)
    from set_adjcnt_spec [OF this, of e 1] show ?case
      using Cons.IH [of "set_adjcnt p c 1"] Cons.prems assms(2) by auto
  qed simp
  from this [of "data A" "replicate n 0"] show ?thesis
    using assms by (simp add: sf_count_def wf_family_def)
qed

text \<open>
  A restricted count is the plain count of the intersection, so it follows from \<open>set_adjcnt_spec\<close>.
\<close>

lemma length_adjcnt_restricted [simp]: "length (adjcnt_restricted p r w c) = length c"
  by (simp add: adjcnt_restricted_def)

lemma adjcnt_restricted_spec:
  assumes "wf_set n p" "wf_set n r" "length c = n" "e < n"
  shows "adjcnt_restricted p r w c ! e = c ! e + (if e \<in> elems p \<inter> elems r then w else 0)"
proof -
  let ?q = "set_and p p r"
  have q: "wf_set n ?q" "elems ?q = elems p \<inter> elems r"
    using assms by (simp_all add: binops_wf binops_elems wf_length)
  have k: "LOOPINIT n < length p" "1 \<le> LOOPINIT n" using assms by (simp_all add: wf_length SET_SIZE_eq)
  have nth: "?q ! i = (p ! i AND r ! i)" if "1 \<le> i" "i \<le> LOOPINIT n" for i
    using that k assms
    by (simp add: set_and_def Let_def wf_LOOP [OF assms(1)] nth_upd_down PUTLOOP_def)
  have "for_down (\<lambda>i cs. count_word (p ! i AND r ! i) (push_bit 5 (i - 1)) w cs) k c
      = for_down (\<lambda>i cs. count_word (?q ! i) (push_bit 5 (i - 1)) w cs) k c"
    if "k \<le> LOOPINIT n" for k
    using that by (induction k arbitrary: c) (simp_all add: nth)
  then have eq: "adjcnt_restricted p r w c = set_adjcnt ?q c w"
    by (simp add: adjcnt_restricted_def set_adjcnt_def wf_LOOP [OF assms(1)] wf_LOOP [OF q(1)])
  have "elems ?q \<subseteq> {..<length c}" using wf_elems [OF q(1)] assms(3) by simp
  from set_adjcnt_spec [OF this, of e w] show ?thesis
    using assms(3,4) unfolding eq q(2) by simp
qed

definition col_weight :: "nat \<Rightarrow> pset \<Rightarrow> int" where
  "col_weight e p = (if e \<in> elems p then 1024 div (int (set_ord p) - 1) else 0)"

lemma count_restricted_loop_spec:
  assumes "\<forall>p\<in>set ps. wf_set n p \<and> set_ord p \<noteq> 1" "wf_set n r" "length c = n"
  shows "\<exists>cs. count_restricted_loop r ps c = Inr cs \<and> length cs = n \<and>
    (\<forall>e<n. cs ! e = c ! e + (if e \<in> elems r then sum_list (map (col_weight e) ps) else 0))"
  using assms
proof (induction ps arbitrary: c)
  case (Cons p ps)
  let ?c = "adjcnt_restricted p r (1024 div (int (set_ord p) - 1)) c"
  have p: "wf_set n p" "set_ord p \<noteq> 1" using Cons.prems by simp_all
  have nth: "?c ! e = c ! e + (if e \<in> elems r then col_weight e p else 0)" if "e < n" for e
    using adjcnt_restricted_spec [OF p(1) Cons.prems(2,3) that] by (simp add: col_weight_def)
  have "length ?c = n" using Cons.prems(3) by simp
  from Cons.IH [OF _ Cons.prems(2) this] Cons.prems(1) obtain cs where
    "count_restricted_loop r ps ?c = Inr cs" "length cs = n"
    "\<forall>e<n. cs ! e = ?c ! e + (if e \<in> elems r then sum_list (map (col_weight e) ps) else 0)"
    by auto
  then show ?case using p(2) nth by (intro exI [of _ cs]) simp
qed simp

lemma sf_count_restricted_spec:
  assumes "wf_family n A" "wf_set n r" "\<forall>p\<in>set (data A). set_ord p \<noteq> 1"
  obtains cs where "sf_count_restricted A r = Inr cs" "length cs = n"
    "\<And>e. e < n \<Longrightarrow> cs ! e = (if e \<in> elems r then sum_list (map (col_weight e) (data A)) else 0)"
proof -
  have "\<forall>p\<in>set (data A). wf_set n p \<and> set_ord p \<noteq> 1" using assms by (simp add: wf_family_def)
  from count_restricted_loop_spec [OF this assms(2), of "replicate n 0"]
  obtain cs where "count_restricted_loop r (data A) (replicate n 0) = Inr cs" "length cs = n"
    "\<forall>e<n. cs ! e = replicate n 0 ! e + (if e \<in> elems r then sum_list (map (col_weight e) (data A)) else 0)"
    by auto
  then show ?thesis using assms(1) by (intro that [of cs]) (simp_all add: sf_count_restricted_def wf_family_def)
qed

subsection \<open>Editing columns\<close>

lemma fold_insert_spec:
  assumes "wf_set m d" "\<forall>i\<in>set is. P i \<longrightarrow> f i < m"
  shows "wf_set m (fold (\<lambda>i d. if P i then set_insert d (f i) else d) is d)"
    "elems (fold (\<lambda>i d. if P i then set_insert d (f i) else d) is d) = elems d \<union> f ` {i \<in> set is. P i}"
proof -
  have "wf_set m (fold (\<lambda>i d. if P i then set_insert d (f i) else d) is d) \<and>
    elems (fold (\<lambda>i d. if P i then set_insert d (f i) else d) is d) = elems d \<union> f ` {i \<in> set is. P i}"
    using assms
  proof (induction "is" arbitrary: d)
    case (Cons i "is")
    let ?d = "if P i then set_insert d (f i) else d"
    have "wf_set m ?d" "elems ?d = elems d \<union> (if P i then {f i} else {})"
      using Cons.prems by (simp_all add: set_insert_spec)
    then show ?case using Cons.IH [of ?d] Cons.prems by auto
  qed simp
  then show "wf_set m (fold (\<lambda>i d. if P i then set_insert d (f i) else d) is d)"
    "elems (fold (\<lambda>i d. if P i then set_insert d (f i) else d) is d) = elems d \<union> f ` {i \<in> set is. P i}"
    by auto
qed

lemma clear_row [simp]:
  assumes "m \<le> 32736"
  shows "wf_set m (set_clear (replicate (SET_SIZE m) 0) m)" "elems (set_clear (replicate (SET_SIZE m) 0) m) = {}"
  using set_clear_spec [of "replicate (SET_SIZE m) 0" m] assms by simp_all

lemma wf_is_in_set_less: "wf_set n p \<Longrightarrow> i < n \<Longrightarrow> is_in_set p i \<longleftrightarrow> i \<in> elems p"
  by (simp add: wf_in_elems)

text \<open>The column that column \<open>i\<close> becomes when \<open>n\<close> columns from \<open>c\<close> on go (come, for negative \<open>n\<close>).\<close>

definition del_cols :: "nat \<Rightarrow> int \<Rightarrow> nat set \<Rightarrow> nat set" where
  "del_cols c n S = {i \<in> S. i < c} \<union>
     (\<lambda>i. nat (int i - n)) ` {i \<in> S. (if n > 0 then c + nat n else c) \<le> i}"

lemma sf_delcol_spec:
  assumes "wf_family s A" "c \<le> s" "n > 0 \<longrightarrow> c + nat n \<le> s" "nat (int s - n) \<le> 32736"
  shows "wf_family (nat (int s - n)) (sf_delcol A c n)"
    "map elems (data (sf_delcol A c n)) = map (del_cols c n \<circ> elems) (data A)"
proof -
  let ?m = "nat (int s - n)" and ?lo = "if n > 0 then c + nat n else c"
  let ?row = "\<lambda>p. copy_cols p ?lo s n (copy_cols p 0 c 0 (set_clear (replicate (SET_SIZE ?m) 0) ?m))"
  have row: "wf_set ?m (?row p) \<and> elems (?row p) = del_cols c n (elems p)" if p: "wf_set s p" for p
  proof -
    let ?d = "copy_cols p 0 c 0 (set_clear (replicate (SET_SIZE ?m) 0) ?m)"
    have le: "?lo \<le> s" using assms(2,3) by simp
    have 1: "\<forall>i\<in>set [0..<c]. is_in_set p i \<longrightarrow> nat (int i - 0) < ?m" using assms(2,3) by auto
    have 2: "\<forall>i\<in>set [?lo..<s]. is_in_set p i \<longrightarrow> nat (int i - n) < ?m" by auto
    have d: "wf_set ?m ?d" "elems ?d = {i \<in> elems p. i < c}"
      using fold_insert_spec [OF clear_row(1) 1] assms(2,4) wf_is_in_set_less [OF p]
      by (auto simp: copy_cols_def image_iff)
    show ?thesis
      using fold_insert_spec [OF d(1) 2] le wf_is_in_set_less [OF p] wf_elem_less [OF p] d(2)
      unfolding copy_cols_def del_cols_def by (auto simp: image_iff)
  qed
  have data: "data (sf_delcol A c n) = map ?row (data A)"
    using assms(1) by (simp add: sf_delcol_def Let_def wf_family_def)
  show "map elems (data (sf_delcol A c n)) = map (del_cols c n \<circ> elems) (data A)"
    using assms(1) row unfolding data by (simp add: wf_family_def)
  show "wf_family ?m (sf_delcol A c n)"
    using assms(1) row unfolding wf_family_def data by (auto simp: sf_delcol_def Let_def)
qed

lemma sf_addcol_spec:
  assumes "wf_family s A" "c \<le> s" "s + n \<le> 32736"
  shows "wf_family (s + n) (sf_addcol A c n)"
    "map elems (data (sf_addcol A c n)) = map (del_cols c (- int n) \<circ> elems) (data A)"
proof -
  have room: "LOOPINIT (s + n) = LOOPINIT s" if "s + n \<le> 32 * LOOPINIT s"
    using that by (auto simp: LOOPINIT_def WHICH_WORD_eq split: if_splits)
  have id: "del_cols s (- int n) (elems p) = elems p" if "wf_set s p" for p
    by (auto simp: del_cols_def dest: wf_elem_less [OF that])
  note del = sf_delcol_spec [OF assms(1,2), of "- int n"]
  have wide: "wf_set (s + n) p" if "wf_set s p" "s + n \<le> 32 * LOOPINIT s" for p
    using that room by (force simp: wf_set_def SET_SIZE_eq)
  show "wf_family (s + n) (sf_addcol A c n)"
  proof (cases "c = s \<and> s + n \<le> 32 * LOOPINIT s")
    case True
    then show ?thesis
      using assms(1) room wide by (simp add: sf_addcol_def Let_def wf_family_def SET_SIZE_eq)
  next
    case False
    then have "sf_addcol A c n = sf_delcol A c (- int n)"
      using assms(1) by (auto simp: sf_addcol_def Let_def wf_family_def)
    then show ?thesis using del(1) assms(3) by (simp add: nat_int_add)
  qed
  show "map elems (data (sf_addcol A c n)) = map (del_cols c (- int n) \<circ> elems) (data A)"
    using del(2) assms id by (auto simp: sf_addcol_def Let_def wf_family_def nat_int_add)
qed

lemma del_cols_neg: "x \<in> del_cols c (- int n) S \<longleftrightarrow> x < c \<and> x \<in> S \<or> c + n \<le> x \<and> x - n \<in> S"
proof -
  have "(\<exists>i. i \<in> S \<and> c \<le> i \<and> x = nat (int i + int n)) \<longleftrightarrow> c + n \<le> x \<and> x - n \<in> S"
    by (auto simp: nat_add_distrib intro!: exI [of _ "x - n"])
  then show ?thesis by (auto simp: del_cols_def image_iff)
qed

lemma del_cols_pos: "x \<in> del_cols c (int n) S \<longleftrightarrow> x < c \<and> x \<in> S \<or> c \<le> x \<and> x + n \<in> S"
proof -
  have "(\<exists>i. i \<in> S \<and> c + n \<le> i \<and> x = nat (int i - int n)) \<longleftrightarrow> c \<le> x \<and> x + n \<in> S"
  proof -
    have "nat (int i - int n) = i - n" for i by simp
    then show ?thesis by (auto intro!: exI [of _ "x + n"])
  qed
  then show ?thesis by (auto simp: del_cols_def image_iff)
qed

lemma del_cols_inverse: "del_cols c (int n) (del_cols c (- int n) S) = S"
  by (auto simp: del_cols_neg del_cols_pos)

lemma sf_transpose_spec:
  assumes "wf_family s A" "cnt A \<le> 32736"
  shows "wf_family (cnt A) (sf_transpose A)" "cnt (sf_transpose A) = s"
    "j < s \<Longrightarrow> elems (data (sf_transpose A) ! j) = {i. i < cnt A \<and> j \<in> elems (data A ! i)}"
proof -
  let ?c = "cnt A"
  let ?inner = "\<lambda>i B. fold (\<lambda>j B. if is_in_set (data A ! i) j
                     then B\<lparr>data := (data B)[j := set_insert (data B ! j) i]\<rparr> else B) [0..<s] B"
  have step: "wf_family ?c (?inner i B) \<and> cnt (?inner i B) = s \<and>
      (\<forall>j < s. elems (data (?inner i B) ! j) = elems (data B ! j) \<union> {i'. i' = i \<and> j \<in> elems (data A ! i)})"
    if i: "i < ?c" and B: "wf_family ?c B" "cnt B = s" for i B
  proof -
    let ?f = "\<lambda>j B. if is_in_set (data A ! i) j
                     then B\<lparr>data := (data B)[j := set_insert (data B ! j) i]\<rparr> else B"
    have "wf_family ?c (fold ?f [0..<k] B) \<and> cnt (fold ?f [0..<k] B) = s \<and>
      (\<forall>j < s. elems (data (fold ?f [0..<k] B) ! j) =
         elems (data B ! j) \<union> {i'. i' = i \<and> j < k \<and> j \<in> elems (data A ! i)})"
      if "k \<le> s" for k
      using that
    proof (induction k)
      case (Suc k)
      let ?B = "fold ?f [0..<k] B"
      have IH: "wf_family ?c ?B" "cnt ?B = s" "\<forall>j < s. elems (data ?B ! j) =
         elems (data B ! j) \<union> {i'. i' = i \<and> j < k \<and> j \<in> elems (data A ! i)}" using Suc by simp_all
      have m: "is_in_set (data A ! i) k \<longleftrightarrow> k \<in> elems (data A ! i)"
        using wf_in_elems [of s "data A ! i" k] wf_familyD(5) [OF assms(1) i] Suc.prems by simp
      have k: "k < cnt ?B" using IH Suc.prems by simp
      note ins = set_insert_spec [OF wf_familyD(5) [OF IH(1) k] i]
      have "wf_family ?c (?f k ?B)"
        using IH(1) ins(2) by (auto simp: wf_family_def dest!: set_update_subset_insert [THEN subsetD])
      moreover have "\<forall>j < s. elems (data (?f k ?B) ! j) =
         elems (data B ! j) \<union> {i'. i' = i \<and> j < Suc k \<and> j \<in> elems (data A ! i)}"
        using IH ins(1) m Suc.prems by (auto simp: nth_list_update less_Suc_eq)
      ultimately show ?case using IH(2) by simp
    qed (use B in simp)
    from this [of s] show ?thesis by simp
  qed
  let ?B0 = "(sf_new s ?c)\<lparr>data := replicate s (set_clear (replicate (SET_SIZE ?c) 0) ?c)\<rparr>"
  have B0: "wf_family ?c ?B0" "cnt ?B0 = s" using assms(2) by (auto simp: wf_family_def)
  have "wf_family ?c (fold ?inner [0..<k] ?B0) \<and> cnt (fold ?inner [0..<k] ?B0) = s \<and>
      (\<forall>j < s. elems (data (fold ?inner [0..<k] ?B0) ! j) = {i. i < k \<and> j \<in> elems (data A ! i)})"
    if "k \<le> ?c" for k
    using that
  proof (induction k)
    case (Suc k)
    then show ?case using step [of k "fold ?inner [0..<k] ?B0"] by (auto simp: less_Suc_eq)
  qed (use B0 assms(2) in simp)
  from this [of ?c] show "wf_family ?c (sf_transpose A)" "cnt (sf_transpose A) = s"
    "j < s \<Longrightarrow> elems (data (sf_transpose A) ! j) = {i. i < ?c \<and> j \<in> elems (data A ! i)}"
    using assms(1) by (simp_all add: sf_transpose_def Let_def wf_family_def)
qed

lemma sf_permute_spec:
  assumes "wf_family s A" "length perm \<le> 32736" "\<forall>i\<in>set perm. i < s"
  shows "wf_family (length perm) (sf_permute A perm)"
    "map elems (data (sf_permute A perm)) = map (\<lambda>p. {j. j < length perm \<and> perm ! j \<in> elems p}) (data A)"
proof -
  let ?m = "length perm"
  let ?row = "\<lambda>p. fold (\<lambda>j d. if is_in_set p (perm ! j) then set_insert d j else d) [0..<?m]
                 (set_clear (replicate (SET_SIZE ?m) 0) ?m)"
  have row: "wf_set ?m (?row p) \<and> elems (?row p) = {j. j < ?m \<and> perm ! j \<in> elems p}" if "wf_set s p" for p
    using fold_insert_spec [OF clear_row(1) [OF assms(2)], of "[0..<?m]" "\<lambda>j. is_in_set p (perm ! j)" "\<lambda>j. j"]
      wf_in_elems [OF that] assms(2,3) by auto
  have data: "data (sf_permute A perm) = map ?row (data A)" by (simp add: sf_permute_def Let_def)
  show "map elems (data (sf_permute A perm)) = map (\<lambda>p. {j. j < length perm \<and> perm ! j \<in> elems p}) (data A)"
    using assms(1) row unfolding data by (simp add: wf_family_def)
  show "wf_family ?m (sf_permute A perm)"
    using assms(1) row unfolding wf_family_def data by (auto simp: sf_permute_def Let_def)
qed

subsection \<open>Compressing\<close>

text \<open>Keeping the columns of a set is permuting by the list of its elements.\<close>

lemma length_copy_col_rows [simp]: "length ds = length ss \<Longrightarrow> length (copy_col_rows k i ds ss) = length ds"
  by (induction k i ds ss rule: copy_col_rows.induct) (auto simp: Let_def)

lemma copy_col_row:
  "(if p ! WHICH_WORD i AND push_bit (WHICH_BIT i) 1 \<noteq> 0
    then d[WHICH_WORD k := d ! WHICH_WORD k OR push_bit (WHICH_BIT k) 1] else d)
   = (if is_in_set p i then set_insert d k else d)"
  by (simp add: is_in_set_def set_insert_def)

lemma copy_col_rows_eq:
  "length ds = length ss \<Longrightarrow>
    copy_col_rows k i ds ss = map2 (\<lambda>d p. if is_in_set p i then set_insert d k else d) ds ss"
  by (induction k i ds ss rule: copy_col_rows.induct) (simp_all add: copy_col_row Let_def del: push_bit_of_1)

lemma sf_copy_col_spec:
  assumes "wf_family m B" "wf_family s A" "cnt B = cnt A" "k < m" "i < s"
  shows "wf_family m (sf_copy_col B k A i)" "cnt (sf_copy_col B k A i) = cnt A"
    "j < cnt A \<Longrightarrow> elems (data (sf_copy_col B k A i) ! j)
       = elems (data B ! j) \<union> {x. x = k \<and> i \<in> elems (data A ! j)}"
proof -
  have d: "data (sf_copy_col B k A i) = map2 (\<lambda>d p. if is_in_set p i then set_insert d k else d) (data B) (data A)"
    using assms(3) by (simp add: sf_copy_col_def copy_col_rows_eq)
  have row: "wf_set m (data (sf_copy_col B k A i) ! j) \<and> elems (data (sf_copy_col B k A i) ! j)
       = elems (data B ! j) \<union> {x. x = k \<and> i \<in> elems (data A ! j)}" if "j < cnt A" for j
  proof -
    have wf: "wf_set m (data B ! j)" "wf_set s (data A ! j)"
      using that assms(3) wf_familyD(5) [OF assms(1)] wf_familyD(5) [OF assms(2)] by simp_all
    show ?thesis
      using that assms(3) set_insert_spec [OF wf(1) assms(4)] wf_in_elems [OF wf(2) assms(5)] wf(1)
      by (auto simp: d)
  qed
  show c: "cnt (sf_copy_col B k A i) = cnt A" using assms(3) by (simp add: d)
  show "j < cnt A \<Longrightarrow> elems (data (sf_copy_col B k A i) ! j)
       = elems (data B ! j) \<union> {x. x = k \<and> i \<in> elems (data A ! j)}" using row by blast
  have "wf_set m p" if "p \<in> set (data (sf_copy_col B k A i))" for p
    using that row c unfolding in_set_conv_nth by auto
  then show "wf_family m (sf_copy_col B k A i)"
    using assms(1,3) unfolding wf_family_def c by (auto simp: sf_copy_col_def)
qed

lemma sf_compress_spec:
  assumes "wf_family s A" "wf_set s c"
  defines "perm \<equiv> filter (\<lambda>i. i \<in> elems c) [0..<s]"
  shows "wf_family (set_ord c) (sf_compress A c)"
    "map elems (data (sf_compress A c)) = map (\<lambda>p. {j. j < length perm \<and> perm ! j \<in> elems p}) (data A)"
proof -
  let ?pk = "\<lambda>k. filter (\<lambda>i. i \<in> elems c) [0..<k]" and ?m = "set_ord c"
  let ?step = "\<lambda>i (B, bcol). if is_in_set c i then (sf_copy_col B bcol A i, bcol + 1) else (B, bcol)"
  have s: "s \<le> 32736" using wf_LOOPINIT_less [OF assms(2)] LOOPINIT_covers [of s] by linarith
  have "elems c = {i. i < s \<and> i \<in> elems c}" using wf_elem_less [OF assms(2)] by auto
  then have m: "?m = length (?pk s)"
    by (simp add: set_ord_card distinct_length_filter Int_def atLeast0LessThan [symmetric])
      (metis (no_types, lifting) Collect_cong atLeastLessThan_iff le0)
  let ?B0 = "(sf_new (cnt A) ?m)\<lparr>data := replicate (cnt A) (set_clear (replicate (SET_SIZE ?m) 0) ?m)\<rparr>"
  have "length (?pk s) \<le> length [0..<s]" by (rule length_filter_le)
  then have "?m \<le> 32736" using m s by simp
  then have B0: "wf_family ?m ?B0" "\<forall>j<cnt A. elems (data ?B0 ! j) = {}" by (auto simp: wf_family_def)
  have "\<exists>B. fold ?step [0..<k] (?B0, 0) = (B, length (?pk k)) \<and> wf_family ?m B \<and> cnt B = cnt A \<and>
    (\<forall>j<cnt A. elems (data B ! j) = {x. x < length (?pk k) \<and> ?pk k ! x \<in> elems (data A ! j)})"
    if "k \<le> s" for k
    using that
  proof (induction k)
    case (Suc k)
    from Suc.IH [OF Suc_leD [OF Suc.prems]]
    obtain B where B: "fold ?step [0..<k] (?B0, 0) = (B, length (?pk k))" "wf_family ?m B" "cnt B = cnt A"
      "\<forall>j<cnt A. elems (data B ! j) = {x. x < length (?pk k) \<and> ?pk k ! x \<in> elems (data A ! j)}" by blast
    show ?case
    proof (cases "k \<in> elems c")
      case True
      have "k < s" using Suc.prems by simp
      then have "[0..<s] = [0..<k] @ k # [Suc k..<s]"
        using upt_add_eq_append [of 0 k "s - k"] by (simp add: upt_conv_Cons)
      then have "length (?pk k) < ?m" unfolding m using True by simp
      note step = sf_copy_col_spec [OF B(2) assms(1) B(3) this, of k]
      have k: "k < s" using Suc.prems by simp
      let ?N = "sf_copy_col B (length (?pk k)) A k"
      have "is_in_set c k" using True k wf_in_elems [OF assms(2)] by simp
      then have "fold ?step [0..<Suc k] (?B0, 0) = (?N, length (?pk (Suc k)))"
        using True B(1) by simp
      moreover have "elems (data ?N ! j) = {x. x < length (?pk (Suc k)) \<and> ?pk (Suc k) ! x \<in> elems (data A ! j)}"
        if "j < cnt A" for j
        unfolding step(3) [OF k that] using B(4) that True by (auto simp: nth_append less_Suc_eq)
      ultimately show ?thesis using step(1,2) [OF k] by blast
    next
      case False
      then have "\<not> is_in_set c k" using Suc.prems wf_in_elems [OF assms(2)] by simp
      then have "fold ?step [0..<Suc k] (?B0, 0) = (B, length (?pk (Suc k)))"
        using False B(1) by simp
      moreover have "?pk (Suc k) = ?pk k" using False by simp
      ultimately show ?thesis using B(2-4) by (intro exI [of _ B]) (simp only: simp_thms)
    qed
  qed (use B0 in simp)
  from this [OF le_refl] obtain B where B: "fold ?step [0..<s] (?B0, 0) = (B, length (?pk s))" "wf_family ?m B"
    "cnt B = cnt A" "\<forall>j<cnt A. elems (data B ! j) = {x. x < length (?pk s) \<and> ?pk s ! x \<in> elems (data A ! j)}"
    by blast
  have eq: "sf_compress A c = B" using B(1) assms(1) by (simp add: sf_compress_def Let_def wf_family_def)
  show "wf_family ?m (sf_compress A c)" using B(2) eq by simp
  show "map elems (data (sf_compress A c)) = map (\<lambda>p. {j. j < length perm \<and> perm ! j \<in> elems p}) (data A)"
    using B(3,4) unfolding eq perm_def by (intro nth_equalityI) simp_all
qed

subsection \<open>Printing\<close>

lemma length_decimal: "n < 10 ^ Suc k \<Longrightarrow> length (decimal n) \<le> Suc k"
proof (induction k arbitrary: n)
  case 0
  then show ?case by (simp add: decimal.simps [of n])
next
  case (Suc k)
  have "length (decimal (n div 10)) \<le> Suc k" by (rule Suc.IH) (use Suc.prems in auto)
  then show ?case by (subst decimal.simps) simp
qed

lemma length_ps1_loop:
  assumes "length s \<le> 105" "\<forall>i\<in>set is. i < 100000"
  shows "length (ps1_loop a is first s) \<le> 114"
  using assms
proof (induction "is" arbitrary: first s)
  case (Cons i "is")
  have "length (decimal i) \<le> 5" using length_decimal [of i 4] Cons.prems by simp
  then show ?case
    using Cons.prems Cons.IH by (auto simp: Let_def)
qed simp

section \<open>Properties\<close>

text \<open>
  Lemma. Adding sets one by one: the family grows before it is full, so no
  set is ever written behind the block of memory the family owns, and the sets come out in the
  order they were added, whatever the fresh memory held.
\<close>

theorem sf_addset_keeps_capacity:
  assumes "wf_family n A" "\<forall>p\<in>set ps. wf_set n p"
  shows "(wf_family n (fold (\<lambda>p A. sf_addset mem A p) ps A))
    \<and> (cnt (fold (\<lambda>p A. sf_addset mem A p) ps A) \<le> capacity (fold (\<lambda>p A. sf_addset mem A p) ps A))
    \<and> (data (fold (\<lambda>p A. sf_addset mem A p) ps A) = data A @ ps)"
proof -
  have "wf_family n (fold (\<lambda>p A. sf_addset mem A p) ps A) \<and>
      data (fold (\<lambda>p A. sf_addset mem A p) ps A) = data A @ ps"
    using assms(1,2)
  proof (induction ps arbitrary: A)
    case (Cons p ps)
    then show ?case using sf_addset_spec [of n A p mem] by simp
  qed simp
  then show ?thesis by (auto dest: wf_familyD(4))
qed

theorem sf_addset_keeps_capacity_witness:
  "data (fold (\<lambda>p A. sf_addset (\<lambda>i j. 77) A p) [set_full 4, set_new 4] (sf_new 0 4)) = [set_full 4, set_new 4]"
  using sf_addset_keeps_capacity [of 4 "sf_new 0 4" "[set_full 4, set_new 4]" "\<lambda>i j. 77"] by simp

text \<open>
  C35. Marking all sets active keeps all of them; after any marking, \<open>sf_inactive\<close>,
  which shifts sets down inside the one array, leaves exactly the active ones in their order.
\<close>

theorem sf_inactive_filters:
  assumes "wf_family n A"
  shows "(wf_family n (sf_inactive A) \<and> data (sf_inactive A) = filter (\<lambda>p. TESTP p ACTIVE) (data A))
    \<and> (data (sf_inactive (sf_active A)) = data (sf_active A))
    \<and> (map elems (data (sf_active A)) = map elems (data A))"
proof -
  have "data (sf_inactive (sf_active A)) = data (sf_active A)"
    using sf_inactive_spec(1) [OF sf_active_spec(2) [OF assms]] sf_active_spec(3) [OF assms]
    by (simp add: filter_id_conv)
  then show ?thesis using assms by (simp add: sf_inactive_spec sf_active_spec)
qed

theorem sf_inactive_filters_witness:
  "data (sf_inactive (sf_addset (\<lambda>i j. 0) (sf_new 1 3) (set_full 3))) = []"
proof -
  have wf: "wf_family 3 (sf_addset (\<lambda>i j. 0) (sf_new 1 3) (set_full 3))"
    and d: "data (sf_addset (\<lambda>i j. 0) (sf_new 1 3) (set_full 3)) = [set_full 3]"
    by (simp_all add: sf_addset_spec [of 3])
  have "\<not> TESTP (set_full 3) ACTIVE"
    using set_fill_spec(3) [of "replicate (SET_SIZE 3) 0" 3]
    by (simp add: TESTP_def set_full_def ACTIVE_def LOOPINIT_def)
  then show ?thesis using sf_inactive_filters [OF wf] d by simp
qed

lemma col_weight_card:
  "col_weight e = (\<lambda>p. if e \<in> elems p then 1024 div (int (card (elems p)) - 1) else 0)"
  by (simp only: fun_eq_iff col_weight_def set_ord_card simp_thms)

lemma length_sf_count: "length (sf_count A) = sf_size A"
proof -
  have "length (fold (\<lambda>p cs. set_adjcnt p cs 1) ps cs) = length cs" for ps and cs :: "int list"
    by (induction ps arbitrary: cs) simp_all
  then show ?thesis by (simp add: sf_count_def)
qed

lemma count_restricted_loop_div0:
  "p \<in> set ps \<Longrightarrow> set_ord p = 1 \<Longrightarrow> count_restricted_loop r ps c = Inl DivZero"
  by (induction ps arbitrary: c) auto

text \<open>
  C36. The column counts: column \<open>e\<close> of \<open>sf_count\<close> is the number of sets
  with element \<open>e\<close>; the restricted count adds 1024 / (size - 1) for every such set, in the
  columns of \<open>r\<close> only, and divides by zero exactly when some set is a singleton.
\<close>

theorem sf_column_counts:
  assumes "wf_family n A" "wf_set n r"
  shows "(sf_count A = map (\<lambda>e. int (length (filter (\<lambda>p. e \<in> elems p) (data A)))) [0..<n])
    \<and> ((\<exists>p\<in>set (data A). card (elems p) = 1) \<longrightarrow> sf_count_restricted A r = Inl DivZero)
    \<and> ((\<forall>p\<in>set (data A). card (elems p) \<noteq> 1) \<longrightarrow> sf_count_restricted A r =
       Inr (map (\<lambda>e. if e \<in> elems r
          then \<Sum>p\<leftarrow>data A. if e \<in> elems p then 1024 div (int (card (elems p)) - 1) else 0 else 0) [0..<n]))"
proof (intro conjI impI)
  show "sf_count A = map (\<lambda>e. int (length (filter (\<lambda>p. e \<in> elems p) (data A)))) [0..<n]"
    using sf_count_spec [OF assms(1)] length_sf_count [of A] wf_familyD(1) [OF assms(1)]
    by (intro nth_equalityI) simp_all
next
  assume "\<exists>p\<in>set (data A). card (elems p) = 1"
  then show "sf_count_restricted A r = Inl DivZero"
    by (auto simp: sf_count_restricted_def set_ord_card intro: count_restricted_loop_div0)
next
  assume "\<forall>p\<in>set (data A). card (elems p) \<noteq> 1"
  then have "\<forall>p\<in>set (data A). set_ord p \<noteq> 1" by (simp add: set_ord_card)
  from sf_count_restricted_spec [OF assms this] obtain cs where
    "sf_count_restricted A r = Inr cs" "length cs = n"
    "\<And>e. e < n \<Longrightarrow> cs ! e = (if e \<in> elems r then sum_list (map (col_weight e) (data A)) else 0)" by blast
  then show "sf_count_restricted A r =
       Inr (map (\<lambda>e. if e \<in> elems r
          then \<Sum>p\<leftarrow>data A. if e \<in> elems p then 1024 div (int (card (elems p)) - 1) else 0 else 0) [0..<n])"
    by (auto intro!: nth_equalityI simp: col_weight_card)
qed

theorem sf_column_counts_witness:
  "sf_count (sf_push (sf_new 1 3) (set_full 3)) = [1, 1, 1] \<and>
   sf_count_restricted (sf_push (sf_new 1 3) (set_full 3)) (set_insert (set_new 3) 2) = Inr [0, 0, 512]"
proof -
  have wf: "wf_family 3 (sf_push (sf_new 1 3) (set_full 3))" by (simp add: wf_sf_push)
  have r: "wf_set 3 (set_insert (set_new 3) 2)" "elems (set_insert (set_new 3) 2) = {2}" by simp_all
  show ?thesis using sf_column_counts [OF wf r(1)] r by (simp add: upt_rec)
qed

text \<open>
  C37. Opening a gap of \<open>n\<close> columns at column \<open>c\<close> and deleting the same
  columns again gives the sets back, whichever of the two ways \<open>sf_addcol\<close> takes; the gap itself is
  empty and the columns behind it have moved by \<open>n\<close>. The wider sets may have up to 32736 elements, as many as the header can describe.
\<close>

theorem sf_columns_roundtrip:
  assumes "wf_family s A" "c \<le> s" "s + n \<le> 32736" "0 < n"
  shows "(wf_family (s + n) (sf_addcol A c n))
    \<and> (map elems (data (sf_addcol A c n)) =
       map (\<lambda>p. {x. x < c \<and> x \<in> elems p \<or> c + n \<le> x \<and> x - n \<in> elems p}) (data A))
    \<and> (wf_family s (sf_delc (sf_addcol A c n) c (c + n - 1)))
    \<and> (map elems (data (sf_delc (sf_addcol A c n) c (c + n - 1))) = map elems (data A))"
proof (intro conjI)
  show wf: "wf_family (s + n) (sf_addcol A c n)" using sf_addcol_spec(1) [OF assms(1-3)] .
  have d: "map elems (data (sf_addcol A c n)) = map (del_cols c (- int n) \<circ> elems) (data A)"
    using sf_addcol_spec(2) [OF assms(1-3)] .
  then show "map elems (data (sf_addcol A c n)) =
       map (\<lambda>p. {x. x < c \<and> x \<in> elems p \<or> c + n \<le> x \<and> x - n \<in> elems p}) (data A)"
    by (simp add: del_cols_neg [symmetric] comp_def)
  have n: "int (c + n - 1) - int c + 1 = int n" "nat (int (s + n) - int n) = s" using assms(4) by auto
  note del = sf_delcol_spec [OF wf, of c "int n", unfolded n(2)]
  show "wf_family s (sf_delc (sf_addcol A c n) c (c + n - 1))"
    unfolding sf_delc_def n(1) using assms by (intro del(1)) auto
  have "map elems (data (sf_delcol (sf_addcol A c n) c (int n)))
      = map (del_cols c (int n) \<circ> elems) (data (sf_addcol A c n))"
    using assms by (intro del(2)) auto
  also have "\<dots> = map (del_cols c (int n)) (map elems (data (sf_addcol A c n)))" by simp
  also have "\<dots> = map elems (data A)" unfolding d by (simp add: del_cols_inverse comp_def)
  finally show "map elems (data (sf_delc (sf_addcol A c n) c (c + n - 1))) = map elems (data A)"
    unfolding sf_delc_def n(1) .
qed

theorem sf_columns_roundtrip_witness:
  "map elems (data (sf_delc (sf_addcol (sf_push (sf_new 1 4) (set_full 4)) 1 31) 1 31)) = [{..<4}]"
proof -
  have "wf_family 4 (sf_push (sf_new 1 4) (set_full 4))" by (simp add: wf_sf_push)
  from sf_columns_roundtrip [OF this, of 1 31] show ?thesis by simp
qed

text \<open>
  C38. Transposition turns rows into columns, so doing it twice gives the
  family back; selecting columns by a permutation list and compressing to the columns of a set agree. The family has at most 32736 sets, as many columns as the header can describe.
\<close>

theorem sf_transpose_involution:
  assumes "wf_family s A" "cnt A \<le> 32736" "wf_set s c"
  shows "(cnt (sf_transpose A) = s)
    \<and> (\<forall>i<cnt A. \<forall>j < s. i \<in> elems (data (sf_transpose A) ! j) \<longleftrightarrow> j \<in> elems (data A ! i))
    \<and> (map elems (data (sf_transpose (sf_transpose A))) = map elems (data A))
    \<and> (map elems (data (sf_compress A c)) = map elems (data (sf_permute A (filter (\<lambda>i. i \<in> elems c) [0..<s]))))"
proof (intro conjI)
  have s: "s \<le> 32736" using wf_LOOPINIT_less [OF assms(3)] LOOPINIT_covers [of s] by linarith
  note T = sf_transpose_spec [OF assms(1,2)]
  show "cnt (sf_transpose A) = s" using T by simp
  show "\<forall>i<cnt A. \<forall>j < s. i \<in> elems (data (sf_transpose A) ! j) \<longleftrightarrow> j \<in> elems (data A ! i)"
    using T by simp
  have le: "cnt (sf_transpose A) \<le> 32736" using T(2) s by simp
  note TT = sf_transpose_spec [OF T(1) le]
  show "map elems (data (sf_transpose (sf_transpose A))) = map elems (data A)"
  proof (rule nth_equalityI)
    show "length (map elems (data (sf_transpose (sf_transpose A)))) = length (map elems (data A))"
      using TT(2) by simp
    fix i assume "i < length (map elems (data (sf_transpose (sf_transpose A))))"
    then have i: "i < cnt A" "i < cnt (sf_transpose (sf_transpose A))" using TT(2) by simp_all
    have e: "elems (data (sf_transpose (sf_transpose A)) ! i) = {j. j < s \<and> i \<in> elems (data (sf_transpose A) ! j)}"
      using TT(3) [OF i(1)] unfolding T(2) .
    have "i \<in> elems (data (sf_transpose A) ! j) \<longleftrightarrow> j \<in> elems (data A ! i)" if "j < s" for j
      using T(3) [OF that] i(1) by blast
    with e have "elems (data (sf_transpose (sf_transpose A)) ! i) = {j. j < s \<and> j \<in> elems (data A ! i)}"
      by blast
    also have "\<dots> = elems (data A ! i)"
      using wf_elem_less [OF wf_familyD(5) [OF assms(1) i(1)]] by auto
    finally show "map elems (data (sf_transpose (sf_transpose A))) ! i = map elems (data A) ! i"
      using i by simp
  qed
  have le: "length (filter (\<lambda>i. i \<in> elems c) [0..<s]) \<le> 32736"
    using length_filter_le [of "\<lambda>i. i \<in> elems c" "[0..<s]"] s by simp
  have "\<forall>i\<in>set (filter (\<lambda>i. i \<in> elems c) [0..<s]). i < s" by simp
  from sf_compress_spec(2) [OF assms(1,3)] sf_permute_spec(2) [OF assms(1) le this]
  show "map elems (data (sf_compress A c)) = map elems (data (sf_permute A (filter (\<lambda>i. i \<in> elems c) [0..<s])))"
    by (simp only:)
qed

theorem sf_transpose_involution_witness:
  "map elems (data (sf_transpose (sf_transpose (sf_push (sf_new 1 40) (set_full 40))))) = [{..<40}]"
proof -
  have "wf_family 40 (sf_push (sf_new 1 40) (set_full 40))" by (simp add: wf_sf_push)
  from sf_transpose_involution [OF this, of "set_full 40"] show ?thesis by simp
qed

text \<open>
  Lemma. The two routines that print a set into a static buffer of 120 characters:
  \<open>ps1\<close> stops in time for every set the header word can describe, \<open>pbv1\<close> writes one
  character per element and runs over the end of its buffer as soon as there are 120.
\<close>

theorem print_buffers:
  shows "(length (ps1 a) \<le> 120)
    \<and> (pbv1 a n = Inl Overflow \<longleftrightarrow> 120 \<le> n)
    \<and> (pbv1 a n = Inr s \<longrightarrow> length s = n + 1 \<and> length s \<le> 120 \<and> (\<forall>i<n. s ! i = (if is_in_set a i then CHR ''1'' else CHR ''0'')))"
proof -
  have "length (ps1_loop a [0..<NELEM a] True ''['') \<le> 114"
    by (rule length_ps1_loop) (use LOOP_less [of a] in \<open>auto simp: NELEM_def\<close>)
  then have "length (ps1 a) \<le> 120" by (simp add: ps1_def)
  then show ?thesis by (auto simp: pbv1_def nth_append)
qed

theorem print_buffers_witness:
  "length (ps1 (set_full 130)) \<le> 120 \<and> pbv1 (set_full 130) 130 = Inl Overflow
   \<and> pbv1 (set_full 2) 2 = Inr [CHR ''1'', CHR ''1'', char_of (0 :: nat)]
   \<and> length [CHR ''1'', CHR ''1'', char_of (0 :: nat)] \<le> 120"
proof -
  have "pbv1 (set_full 2) 2 = Inr [CHR ''1'', CHR ''1'', char_of (0 :: nat)]" by code_simp
  then show ?thesis
    using print_buffers [of "set_full 130" 130 "[]"]
      print_buffers [of "set_full 2" 2 "[CHR ''1'', CHR ''1'', char_of (0 :: nat)]"] by simp
qed

end
