(* ===== verification/CubeStr.thy ===== *)
theory CubeStr
  imports SetFamily
begin

text \<open>
  The global cube structure (\<^verbatim>\<open>cubestr.c\<close>): how the parts of the variables lie in a cube,
  the masks, and what a cube and a cover mean.

  The C program keeps one global record \<^verbatim>\<open>cube\<close>; the model passes it as the argument \<open>C\<close>.
  Its scratch cubes \<^verbatim>\<open>cube.temp[]\<close> are written before they are read in every routine, so
  they are local values of the model.  The record \<^verbatim>\<open>cdata\<close> is a result of
  \<^verbatim>\<open>massive_count\<close> and appears with the cofactors.

  \<open>wf_cube\<close> is the invariant the set-up routine establishes; a point is a choice of one part
  for each variable, and a cube covers the points whose parts it contains.
\<close>

section \<open>The structure\<close>

record cube_struct =
  cube_size :: nat
  num_vars :: nat
  num_binary_vars :: nat
  first_part :: "nat list"
  last_part :: "int list"
  part_size :: "int list"
  first_word :: "nat list"
  last_word :: "nat list"
  binary_mask :: pset
  mv_mask :: pset
  var_mask :: "pset list"
  fullset :: pset
  emptyset :: pset
  inmask :: u32
  inword :: int
  sparse :: "bool list"
  num_mv_vars :: nat
  output_var :: int

definition DISJOINT :: u32 where
  "DISJOINT = 0x55555555"

definition new_cube :: "cube_struct \<Rightarrow> pset" where
  "new_cube C = set_new (cube_size C)"

definition new_cover :: "cube_struct \<Rightarrow> nat \<Rightarrow> set_family" where
  "new_cover C i = sf_new i (cube_size C)"

text \<open>\<^verbatim>\<open>for (i = cube.first_part[var]; i <= cube.last_part[var]; i++)\<close>\<close>

definition part_range :: "cube_struct \<Rightarrow> nat \<Rightarrow> nat list" where
  "part_range C var = [first_part C ! var ..< nat (last_part C ! var + 1)]"

text \<open>One round of the first loop of \<^verbatim>\<open>cube_setup\<close>, for the variable \<open>var\<close>.\<close>

definition layout_step :: "nat \<Rightarrow> cube_struct \<Rightarrow> cube_struct" where
  "layout_step var C =
     (let C = (if var < num_binary_vars C then C\<lparr>part_size := (part_size C)[var := 2]\<rparr> else C);
          start = cube_size C;
          sz = start + nat \<bar>part_size C ! var\<bar>
      in C\<lparr>first_part := (first_part C)[var := start],
           first_word := (first_word C)[var := WHICH_WORD start],
           cube_size := sz,
           last_part := (last_part C)[var := int sz - 1],
           last_word := (last_word C)[var := nat (drop_bit 5 (int sz - 1) + 1)]\<rparr>)"

text \<open>One round of the second loop.\<close>

definition mask_step :: "nat \<Rightarrow> cube_struct \<Rightarrow> cube_struct" where
  "mask_step var C =
     (let p = fold (\<lambda>i p. set_insert p i) (part_range C var) (new_cube C);
          C = C\<lparr>var_mask := (var_mask C)[var := p]\<rparr>
      in if var < num_binary_vars C
         then C\<lparr>binary_mask := set_or (binary_mask C) (binary_mask C) p,
                sparse := (sparse C)[var := False]\<rparr>
         else C\<lparr>mv_mask := set_or (mv_mask C) (mv_mask C) p,
                sparse := (sparse C)[var := True]\<rparr>)"

text \<open>
  \<^verbatim>\<open>cube_setup\<close> on the fields that are set before it is called: the two counts, which come
  from the input as ints, and the part sizes. \<open>inmask0\<close> is what the field \<^verbatim>\<open>inmask\<close> held
  before, which stays if there is no binary variable.
\<close>

definition cube_setup :: "u32 \<Rightarrow> int \<Rightarrow> int \<Rightarrow> int list \<Rightarrow> cube_struct res" where
  "cube_setup inmask0 nvars nbin psizes =
     (if nbin < 0 \<or> nvars < nbin then Inl (Fatal ''cube size is silly, error in .i/.o or .mv'')
      else
        (let nv = nat nvars;
             C = \<lparr>cube_size = 0, num_vars = nv, num_binary_vars = nat nbin,
                  first_part = replicate nv 0, last_part = replicate nv 0, part_size = psizes,
                  first_word = replicate nv 0, last_word = replicate nv 0,
                  binary_mask = [], mv_mask = [], var_mask = replicate nv [],
                  fullset = [], emptyset = [], inmask = inmask0, inword = -1,
                  sparse = replicate nv False, num_mv_vars = nat (nvars - nbin),
                  output_var = (if nvars - nbin > 0 then nvars - 1 else - 1)\<rparr>;
             C = fold layout_step [0..<nv] C;
             C = C\<lparr>binary_mask := new_cube C, mv_mask := new_cube C\<rparr>;
             C = fold mask_step [0..<nv] C;
             C = (if num_binary_vars C = 0 then C\<lparr>inword := -1\<rparr>
                  else let w = last_word C ! (num_binary_vars C - 1)
                       in C\<lparr>inword := int w, inmask := binary_mask C ! w AND DISJOINT\<rparr>)
         in Inr (C\<lparr>fullset := set_fill (new_cube C) (cube_size C), emptyset := new_cube C\<rparr>)))"

section \<open>The layout invariant\<close>

definition psz :: "cube_struct \<Rightarrow> nat \<Rightarrow> nat" where
  "psz C v = nat \<bar>part_size C ! v\<bar>"

definition vparts :: "cube_struct \<Rightarrow> nat \<Rightarrow> nat set" where
  "vparts C v = {first_part C ! v ..< first_part C ! v + psz C v}"

definition wf_layout :: "cube_struct \<Rightarrow> bool" where
  "wf_layout C \<longleftrightarrow> 0 < num_vars C \<and> num_binary_vars C \<le> num_vars C
     \<and> num_mv_vars C = num_vars C - num_binary_vars C
     \<and> output_var C = (if num_binary_vars C < num_vars C then int (num_vars C) - 1 else - 1)
     \<and> (\<forall>v<num_vars C. 0 < psz C v
         \<and> first_part C ! v = (\<Sum>u<v. psz C u)
         \<and> last_part C ! v = int (first_part C ! v + psz C v) - 1
         \<and> first_word C ! v = WHICH_WORD (first_part C ! v)
         \<and> last_word C ! v = WHICH_WORD (first_part C ! v + psz C v - 1))
     \<and> (\<forall>v<num_binary_vars C. part_size C ! v = 2)
     \<and> cube_size C = (\<Sum>u<num_vars C. psz C u) \<and> cube_size C \<le> 32736"

definition wf_masks :: "cube_struct \<Rightarrow> bool" where
  "wf_masks C \<longleftrightarrow>
     (\<forall>v<num_vars C. wf_set (cube_size C) (var_mask C ! v) \<and> elems (var_mask C ! v) = vparts C v)
     \<and> wf_set (cube_size C) (binary_mask C)
     \<and> elems (binary_mask C) = (\<Union>v<num_binary_vars C. vparts C v)
     \<and> wf_set (cube_size C) (mv_mask C)
     \<and> elems (mv_mask C) = (\<Union>v\<in>{num_binary_vars C..<num_vars C}. vparts C v)
     \<and> wf_set (cube_size C) (fullset C) \<and> elems (fullset C) = {..<cube_size C}
     \<and> wf_set (cube_size C) (emptyset C) \<and> elems (emptyset C) = {}
     \<and> (if num_binary_vars C = 0 then inword C = - 1
        else inword C = int (WHICH_WORD (2 * num_binary_vars C - 1))
          \<and> inmask C = (binary_mask C ! nat (inword C) AND DISJOINT))
     \<and> (\<forall>v<num_vars C. sparse C ! v = (num_binary_vars C \<le> v))"

definition wf_cube :: "cube_struct \<Rightarrow> bool" where
  "wf_cube C \<longleftrightarrow> wf_layout C \<and> wf_masks C"

text \<open>A cube and a cover over the structure, and the points they cover.\<close>

abbreviation is_cube :: "cube_struct \<Rightarrow> pset \<Rightarrow> bool" where
  "is_cube C c \<equiv> wf_set (cube_size C) c"

abbreviation is_cover :: "cube_struct \<Rightarrow> set_family \<Rightarrow> bool" where
  "is_cover C F \<equiv> wf_family (cube_size C) F"

definition point :: "cube_struct \<Rightarrow> (nat \<Rightarrow> nat) \<Rightarrow> bool" where
  "point C x \<longleftrightarrow> (\<forall>v<num_vars C. x v \<in> vparts C v)"

definition covers :: "cube_struct \<Rightarrow> nat set \<Rightarrow> (nat \<Rightarrow> nat) \<Rightarrow> bool" where
  "covers C c x \<longleftrightarrow> (\<forall>v<num_vars C. x v \<in> c)"

definition cov :: "cube_struct \<Rightarrow> nat set set \<Rightarrow> (nat \<Rightarrow> nat) set" where
  "cov C S = {x. point C x \<and> (\<exists>c\<in>S. covers C c x)}"

abbreviation onset :: "cube_struct \<Rightarrow> set_family \<Rightarrow> (nat \<Rightarrow> nat) set" where
  "onset C F \<equiv> cov C (elems ` set (data F))"

text \<open>A cube that covers no point has a variable without parts.\<close>

definition null_var :: "cube_struct \<Rightarrow> nat set \<Rightarrow> nat \<Rightarrow> bool" where
  "null_var C c v \<longleftrightarrow> c \<inter> vparts C v = {}"

definition null_cube :: "cube_struct \<Rightarrow> nat set \<Rightarrow> bool" where
  "null_cube C c \<longleftrightarrow> (\<exists>v<num_vars C. null_var C c v)"

lemma wf_cubeD:
  assumes "wf_cube C"
  shows "wf_layout C" "wf_masks C" "is_cube C (fullset C)" "elems (fullset C) = {..<cube_size C}"
    "is_cube C (emptyset C)" "elems (emptyset C) = {}" "is_cube C (binary_mask C)" "is_cube C (mv_mask C)"
    "v < num_vars C \<Longrightarrow> is_cube C (var_mask C ! v)"
    "v < num_vars C \<Longrightarrow> elems (var_mask C ! v) = vparts C v"
    "elems (binary_mask C) = (\<Union>v<num_binary_vars C. vparts C v)"
    "elems (mv_mask C) = (\<Union>v\<in>{num_binary_vars C..<num_vars C}. vparts C v)"
  using assms by (auto simp: wf_cube_def wf_masks_def)

lemma wf_layoutD:
  assumes "wf_layout C"
  shows "0 < num_vars C" "num_binary_vars C \<le> num_vars C" "cube_size C \<le> 32736"
    "cube_size C = (\<Sum>u<num_vars C. psz C u)"
    "v < num_vars C \<Longrightarrow> 0 < psz C v" "v < num_vars C \<Longrightarrow> first_part C ! v = (\<Sum>u<v. psz C u)"
    "v < num_binary_vars C \<Longrightarrow> psz C v = 2" "0 < cube_size C"
proof -
  show "0 < num_vars C" "num_binary_vars C \<le> num_vars C" "cube_size C \<le> 32736"
    "cube_size C = (\<Sum>u<num_vars C. psz C u)"
    "v < num_vars C \<Longrightarrow> 0 < psz C v" "v < num_vars C \<Longrightarrow> first_part C ! v = (\<Sum>u<v. psz C u)"
    "v < num_binary_vars C \<Longrightarrow> psz C v = 2"
    using assms by (simp_all add: wf_layout_def) (simp add: psz_def)
  have "psz C 0 \<le> (\<Sum>u<num_vars C. psz C u)"
    using assms by (intro member_le_sum) (simp_all add: wf_layout_def)
  then show "0 < cube_size C" using assms by (auto simp: wf_layout_def)
qed

lemma first_part_mono:
  assumes "wf_layout C" "u < v" "v < num_vars C"
  shows "first_part C ! u + psz C u \<le> first_part C ! v"
proof -
  have "(\<Sum>k<Suc u. psz C k) \<le> (\<Sum>k<v. psz C k)" using assms(2) by (intro sum_mono2) auto
  then show ?thesis using assms by (simp add: wf_layoutD(6))
qed

lemma last_part_le:
  assumes "wf_layout C" "v < num_vars C"
  shows "first_part C ! v + psz C v \<le> cube_size C"
proof -
  have "(\<Sum>k<Suc v. psz C k) \<le> (\<Sum>k<num_vars C. psz C k)" using assms(2) by (intro sum_mono2) auto
  then show ?thesis using assms by (simp add: wf_layoutD(4,6))
qed

lemma set_part_range:
  assumes "wf_layout C" "v < num_vars C"
  shows "set (part_range C v) = vparts C v"
proof -
  have "last_part C ! v = int (first_part C ! v + psz C v) - 1" using assms by (simp add: wf_layout_def)
  then have "nat (last_part C ! v + 1) = first_part C ! v + psz C v" by linarith
  then show ?thesis by (simp add: part_range_def vparts_def)
qed

lemma vparts_nonempty: "wf_layout C \<Longrightarrow> v < num_vars C \<Longrightarrow> vparts C v \<noteq> {}"
  by (simp add: vparts_def wf_layoutD(5))

lemma finite_vparts [simp, intro]: "finite (vparts C v)"
  by (simp add: vparts_def)

lemma card_vparts: "card (vparts C v) = psz C v"
  by (simp add: vparts_def)

lemma vparts_less: "wf_layout C \<Longrightarrow> v < num_vars C \<Longrightarrow> e \<in> vparts C v \<Longrightarrow> e < cube_size C"
  using last_part_le [of C v] by (auto simp: vparts_def)

lemma vparts_disjoint:
  assumes "wf_layout C" "u < num_vars C" "v < num_vars C" "e \<in> vparts C u" "e \<in> vparts C v"
  shows "u = v"
proof (rule ccontr)
  assume "u \<noteq> v"
  then consider "u < v" | "v < u" by linarith
  then show False
    by cases (use assms first_part_mono [of C u v] first_part_mono [of C v u] in \<open>auto simp: vparts_def\<close>)
qed

lemma vparts_cover:
  assumes "wf_layout C" "e < cube_size C"
  obtains v where "v < num_vars C" "e \<in> vparts C v"
proof -
  have "\<exists>v<n. (\<Sum>u<v. psz C u) \<le> e \<and> e < (\<Sum>u<Suc v. psz C u)" if "e < (\<Sum>u<n. psz C u)" for n
    using that
  proof (induction n)
    case (Suc n)
    then show ?case by (cases "e < (\<Sum>u<n. psz C u)") (auto intro: less_SucI)
  qed simp
  from this [of "num_vars C"] obtain v where "v < num_vars C" "(\<Sum>u<v. psz C u) \<le> e" "e < (\<Sum>u<Suc v. psz C u)"
    using assms by (auto simp: wf_layoutD(4))
  then show ?thesis using assms(1) by (intro that [of v]) (simp_all add: vparts_def wf_layoutD(6))
qed

lemma binary_first_part: "wf_layout C \<Longrightarrow> v < num_binary_vars C \<Longrightarrow> first_part C ! v = 2 * v"
proof -
  assume C: "wf_layout C" and v: "v < num_binary_vars C"
  then have "(\<Sum>u<v. psz C u) = (\<Sum>u<v. 2)" by (intro sum.cong) (simp_all add: wf_layoutD(7))
  then show ?thesis using C v wf_layoutD(2,6) [OF C] by simp
qed

lemma binary_vparts: "wf_layout C \<Longrightarrow> v < num_binary_vars C \<Longrightarrow> vparts C v = {2 * v, 2 * v + 1}"
  using binary_first_part [of C v] wf_layoutD(7) [of C v] by (auto simp: vparts_def)

lemma binary_parts: "wf_layout C \<Longrightarrow> (\<Union>v<num_binary_vars C. vparts C v) = {..<2 * num_binary_vars C}"
proof -
  assume C: "wf_layout C"
  have "(\<Union>v<n. {2 * v, 2 * v + 1}) = {..<2 * n}" for n :: nat
    by (induction n) (auto simp: lessThan_Suc)
  then show ?thesis using binary_vparts [OF C] by simp
qed

lemma mv_parts:
  assumes C: "wf_layout C"
  shows "(\<Union>v\<in>{num_binary_vars C..<num_vars C}. vparts C v) = {2 * num_binary_vars C..<cube_size C}"
proof (intro set_eqI iffI)
  fix e assume "e \<in> (\<Union>v\<in>{num_binary_vars C..<num_vars C}. vparts C v)"
  then obtain v where v: "num_binary_vars C \<le> v" "v < num_vars C" "e \<in> vparts C v" by auto
  have "\<not> e < 2 * num_binary_vars C"
  proof
    assume "e < 2 * num_binary_vars C"
    then have "e \<in> (\<Union>v<num_binary_vars C. vparts C v)" unfolding binary_parts [OF C] by simp
    then obtain u where "u < num_binary_vars C" "e \<in> vparts C u" by auto
    then show False using v vparts_disjoint [OF C, of u v e] by simp
  qed
  then show "e \<in> {2 * num_binary_vars C..<cube_size C}" using vparts_less [OF C v(2,3)] by simp
next
  fix e assume e: "e \<in> {2 * num_binary_vars C..<cube_size C}"
  then obtain v where v: "v < num_vars C" "e \<in> vparts C v" using vparts_cover [OF C, of e] by auto
  moreover have "e \<notin> (\<Union>v<num_binary_vars C. vparts C v)" unfolding binary_parts [OF C] using e by simp
  then have "num_binary_vars C \<le> v" using v(2) not_less by auto
  ultimately show "e \<in> (\<Union>v\<in>{num_binary_vars C..<num_vars C}. vparts C v)" by auto
qed

section \<open>The set-up routine\<close>

lemma layout_step_frame [simp]:
  "num_vars (layout_step v C) = num_vars C" "num_binary_vars (layout_step v C) = num_binary_vars C"
  "num_mv_vars (layout_step v C) = num_mv_vars C" "output_var (layout_step v C) = output_var C"
  "var_mask (layout_step v C) = var_mask C" "sparse (layout_step v C) = sparse C"
  "length (first_part (layout_step v C)) = length (first_part C)"
  "length (last_part (layout_step v C)) = length (last_part C)"
  "length (first_word (layout_step v C)) = length (first_word C)"
  "length (last_word (layout_step v C)) = length (last_word C)"
  "length (part_size (layout_step v C)) = length (part_size C)"
  by (simp_all add: layout_step_def Let_def)

text \<open>The size of the parts of a variable after the first loop.\<close>

definition psize_of :: "nat \<Rightarrow> int list \<Rightarrow> nat \<Rightarrow> nat" where
  "psize_of nbin ps v = (if v < nbin then 2 else nat \<bar>ps ! v\<bar>)"

lemma WHICH_WORD_int: "0 < s \<Longrightarrow> nat (drop_bit 5 (int s - 1) + 1) = WHICH_WORD (s - 1)"
proof -
  assume "0 < s"
  then have "int s - 1 = int (s - 1)" by simp
  moreover have "drop_bit 5 (int k) = int (k div 32)" for k
    by (simp add: drop_bit_eq_div zdiv_int)
  ultimately show ?thesis by (simp only: WHICH_WORD_eq)
qed

lemma layout_step_eqs:
  assumes "\<bar>(if k < num_binary_vars E then (part_size E)[k := 2] else part_size E) ! k\<bar> = int m" "0 < m"
  shows "cube_size (layout_step k E) = cube_size E + m"
    "first_part (layout_step k E) = (first_part E)[k := cube_size E]"
    "first_word (layout_step k E) = (first_word E)[k := WHICH_WORD (cube_size E)]"
    "last_part (layout_step k E) = (last_part E)[k := int (cube_size E + m) - 1]"
    "last_word (layout_step k E) = (last_word E)[k := WHICH_WORD (cube_size E + m - 1)]"
    "part_size (layout_step k E) = (if k < num_binary_vars E then (part_size E)[k := 2] else part_size E)"
  using assms WHICH_WORD_int [of "cube_size E + m"]
  by (cases "k < num_binary_vars E"; simp add: layout_step_def Let_def)+

text \<open>The state of the loop after \<open>k\<close> rounds.\<close>

definition layout_upto :: "nat \<Rightarrow> nat \<Rightarrow> int list \<Rightarrow> nat \<Rightarrow> cube_struct \<Rightarrow> bool" where
  "layout_upto n nbin ps k D \<longleftrightarrow> cube_size D = (\<Sum>u<k. psize_of nbin ps u)
    \<and> (\<forall>v<k. \<bar>part_size D ! v\<bar> = int (psize_of nbin ps v) \<and> (v < nbin \<longrightarrow> part_size D ! v = 2)
        \<and> first_part D ! v = (\<Sum>u<v. psize_of nbin ps u)
        \<and> last_part D ! v = int (first_part D ! v + psize_of nbin ps v) - 1
        \<and> first_word D ! v = WHICH_WORD (first_part D ! v)
        \<and> last_word D ! v = WHICH_WORD (first_part D ! v + psize_of nbin ps v - 1))
    \<and> (\<forall>v<n. k \<le> v \<longrightarrow> part_size D ! v = ps ! v) \<and> num_vars D = n \<and> num_binary_vars D = nbin
    \<and> length (first_part D) = n \<and> length (last_part D) = n \<and> length (first_word D) = n
    \<and> length (last_word D) = n \<and> length (part_size D) = n"

lemma layout_step_upto:
  assumes D: "layout_upto n nbin ps k D" and k: "k < n" and p: "0 < psize_of nbin ps k"
  shows "layout_upto n nbin ps (Suc k) (layout_step k D)"
proof -
  have "\<bar>(if k < num_binary_vars D then (part_size D)[k := 2] else part_size D) ! k\<bar> = int (psize_of nbin ps k)"
    using D k by (simp add: layout_upto_def psize_of_def)
  note eqs = layout_step_eqs [OF this p]
  have "part_size (layout_step k D) ! v = (if v = k \<and> k < nbin then 2 else part_size D ! v)" for v
    using D k eqs(6) by (auto simp: layout_upto_def)
  moreover have "(if k < nbin then 2 else \<bar>ps ! k\<bar>) = int (psize_of nbin ps k)" by (simp add: psize_of_def)
  ultimately show ?thesis
    using D k unfolding layout_upto_def eqs(1-5)
    by (auto simp: less_Suc_eq psize_of_def)
qed

lemma layout_loop:
  assumes "layout_upto n nbin ps 0 C" "\<forall>v<n. 0 < psize_of nbin ps v" "k \<le> n"
  shows "layout_upto n nbin ps k (fold layout_step [0..<k] C)"
  using assms(3) by (induction k) (use assms(1,2) layout_step_upto in simp_all)

lemma layout_loop_frame:
  "num_mv_vars (fold layout_step ks C) = num_mv_vars C" "output_var (fold layout_step ks C) = output_var C"
  "var_mask (fold layout_step ks C) = var_mask C" "sparse (fold layout_step ks C) = sparse C"
  by (induction ks arbitrary: C) simp_all

lemma layout_done:
  assumes D: "layout_upto n nbin ps n D" and b: "0 < n" "nbin \<le> n" "(\<Sum>u<n. psize_of nbin ps u) \<le> 32736"
    and pos: "\<forall>v<n. 0 < psize_of nbin ps v"
    and o: "num_mv_vars D = n - nbin" "output_var D = (if nbin < n then int n - 1 else - 1)"
  shows "wf_layout D"
proof -
  have p: "psz D v = psize_of nbin ps v" if "v < n" for v
    using D that by (simp add: layout_upto_def psz_def)
  have s: "(\<Sum>u<v. psz D u) = (\<Sum>u<v. psize_of nbin ps u)" if "v \<le> n" for v
    by (rule sum.cong) (use that p in auto)
  show ?thesis
    using D b o pos unfolding wf_layout_def layout_upto_def
    by (simp add: p s)
qed

lemma mask_step_fields:
  "num_vars (mask_step v C) = num_vars C" "num_binary_vars (mask_step v C) = num_binary_vars C"
  "cube_size (mask_step v C) = cube_size C" "first_part (mask_step v C) = first_part C"
  "last_part (mask_step v C) = last_part C" "first_word (mask_step v C) = first_word C"
  "last_word (mask_step v C) = last_word C" "part_size (mask_step v C) = part_size C"
  "num_mv_vars (mask_step v C) = num_mv_vars C" "output_var (mask_step v C) = output_var C"
  by (simp_all add: mask_step_def Let_def)

lemma mask_step_frame [simp]:
  "num_vars (mask_step v C) = num_vars C" "num_binary_vars (mask_step v C) = num_binary_vars C"
  "cube_size (mask_step v C) = cube_size C" "part_range (mask_step v C) = part_range C"
  "vparts (mask_step v C) = vparts C" "wf_layout (mask_step v C) = wf_layout C"
  "last_word (mask_step v C) = last_word C"
  by (simp_all only: mask_step_fields fun_eq_iff part_range_def vparts_def psz_def wf_layout_def simp_thms)

definition masks_upto :: "nat \<Rightarrow> cube_struct \<Rightarrow> bool" where
  "masks_upto k D \<longleftrightarrow> length (var_mask D) = num_vars D \<and> length (sparse D) = num_vars D
    \<and> (\<forall>v<k. is_cube D (var_mask D ! v) \<and> elems (var_mask D ! v) = vparts D v \<and> sparse D ! v = (num_binary_vars D \<le> v))
    \<and> is_cube D (binary_mask D) \<and> elems (binary_mask D) = (\<Union>v\<in>{..<k} \<inter> {..<num_binary_vars D}. vparts D v)
    \<and> is_cube D (mv_mask D) \<and> elems (mv_mask D) = (\<Union>v\<in>{..<k} \<inter> {num_binary_vars D..}. vparts D v)"

lemma mask_step_upto:
  assumes D: "masks_upto k D" and k: "k < num_vars D" and L: "wf_layout D"
  shows "masks_upto (Suc k) (mask_step k D)"
proof -
  let ?p = "fold (\<lambda>i p. set_insert p i) (part_range D k) (new_cube D)"
  have p: "is_cube D ?p" "elems ?p = vparts D k"
    using fold_insert_spec [of "cube_size D" "new_cube D" "part_range D k" "\<lambda>_. True" "\<lambda>i. i"]
      set_part_range [OF L k] vparts_less [OF L k] wf_layoutD(3) [OF L]
    by (auto simp: new_cube_def)
  obtain P where P: "P = ?p" by blast
  have or: "is_cube D (set_or q q P)" "elems (set_or q q P) = elems q \<union> vparts D k" if "is_cube D q" for q
    using that p unfolding P by (simp_all add: binops_wf binops_elems wf_length)
  let ?b = "k < num_binary_vars D" and ?E = "mask_step k D"
  have E: "var_mask ?E = (var_mask D)[k := P]" "sparse ?E = (sparse D)[k := \<not> ?b]"
    "binary_mask ?E = (if ?b then set_or (binary_mask D) (binary_mask D) P else binary_mask D)"
    "mv_mask ?E = (if ?b then mv_mask D else set_or (mv_mask D) (mv_mask D) P)"
    by (simp_all add: mask_step_def Let_def P)
  have set: "{..<Suc k} \<inter> {..<num_binary_vars D} = (if ?b then insert k ({..<k} \<inter> {..<num_binary_vars D}) else {..<k} \<inter> {..<num_binary_vars D})"
    "{..<Suc k} \<inter> {num_binary_vars D..} = (if ?b then {..<k} \<inter> {num_binary_vars D..} else insert k ({..<k} \<inter> {num_binary_vars D..}))"
    by auto
  have "is_cube D ((var_mask D)[k := P] ! v) \<and> elems ((var_mask D)[k := P] ! v) = vparts D v
      \<and> (sparse D)[k := \<not> ?b] ! v = (num_binary_vars D \<le> v)" if "v < Suc k" for v
    using that D k p unfolding P [symmetric] masks_upto_def by (cases "v = k") auto
  moreover have "is_cube D (binary_mask ?E) \<and> elems (binary_mask ?E) = (\<Union>v\<in>{..<Suc k} \<inter> {..<num_binary_vars D}. vparts D v)"
    using D or unfolding E set masks_upto_def by auto
  moreover have "is_cube D (mv_mask ?E) \<and> elems (mv_mask ?E) = (\<Union>v\<in>{..<Suc k} \<inter> {num_binary_vars D..}. vparts D v)"
    using D or unfolding E set masks_upto_def by auto
  moreover have "length (var_mask ?E) = num_vars D \<and> length (sparse ?E) = num_vars D"
    using D unfolding E masks_upto_def by simp
  ultimately show ?thesis unfolding masks_upto_def mask_step_frame E(1,2) by blast
qed

lemma mask_loop_frame:
  "num_vars (fold mask_step ks C) = num_vars C" "num_binary_vars (fold mask_step ks C) = num_binary_vars C"
  "cube_size (fold mask_step ks C) = cube_size C" "wf_layout (fold mask_step ks C) = wf_layout C"
  "last_word (fold mask_step ks C) = last_word C" "vparts (fold mask_step ks C) = vparts C"
  by (induction ks arbitrary: C) simp_all

lemma mask_loop:
  assumes "masks_upto 0 C" "wf_layout C" "k \<le> num_vars C"
  shows "masks_upto k (fold mask_step [0..<k] C)"
  using assms(3) by (induction k) (use assms(1,2) mask_step_upto in \<open>simp_all add: mask_loop_frame\<close>)

text \<open>The fields that the rest of \<^verbatim>\<open>cube_setup\<close> writes last do not belong to the layout.\<close>

lemma set_up_wf:
  assumes L: "wf_layout D" and M: "masks_upto (num_vars D) D"
    and E: "E = D\<lparr>inword := w, inmask := m, fullset := set_fill (new_cube D) (cube_size D), emptyset := new_cube D\<rparr>"
    and w: "if num_binary_vars D = 0 then w = - 1
            else w = int (last_word D ! (num_binary_vars D - 1)) \<and> m = (binary_mask D ! nat w AND DISJOINT)"
  shows "wf_cube E"
proof -
  have f: "cube_size E = cube_size D" "num_vars E = num_vars D" "num_binary_vars E = num_binary_vars D"
    "vparts E = vparts D" "var_mask E = var_mask D" "binary_mask E = binary_mask D" "mv_mask E = mv_mask D"
    "sparse E = sparse D" "inword E = w" "inmask E = m"
    "fullset E = set_fill (new_cube D) (cube_size D)" "emptyset E = new_cube D"
    by (simp_all add: E vparts_def psz_def fun_eq_iff)
  have "wf_layout E" using L by (simp add: E wf_layout_def psz_def)
  moreover have "wf_masks E"
  proof -
    have "last_word D ! (num_binary_vars D - 1) = WHICH_WORD (2 * num_binary_vars D - 1)" if "num_binary_vars D \<noteq> 0"
    proof -
      have "num_binary_vars D - 1 < num_vars D" using that wf_layoutD(2) [OF L] by simp
      moreover have "first_part D ! (num_binary_vars D - 1) = 2 * (num_binary_vars D - 1)"
        "psz D (num_binary_vars D - 1) = 2"
        using binary_first_part [OF L] wf_layoutD(7) [OF L] that by simp_all
      moreover have "2 * (num_binary_vars D - 1) + 2 - 1 = 2 * num_binary_vars D - 1" using that by simp
      ultimately show ?thesis using L by (simp add: wf_layout_def)
    qed
    then have inw: "if num_binary_vars D = 0 then w = - 1
        else w = int (WHICH_WORD (2 * num_binary_vars D - 1)) \<and> m = (binary_mask D ! nat w AND DISJOINT)"
      using w by (simp split: if_splits)
    have b: "{..<num_vars D} \<inter> {..<num_binary_vars D} = {..<num_binary_vars D}"
      "{..<num_vars D} \<inter> {num_binary_vars D..} = {num_binary_vars D..<num_vars D}"
      using wf_layoutD(2) [OF L] by auto
    have full: "is_cube D (set_fill (new_cube D) (cube_size D))" "elems (set_fill (new_cube D) (cube_size D)) = {..<cube_size D}"
      "is_cube D (new_cube D)" "elems (new_cube D) = {}"
      using set_fill_spec [of "new_cube D" "cube_size D"] wf_layoutD(3,8) [OF L] by (simp_all add: new_cube_def)
    from M have m: "is_cube D (binary_mask D)" "elems (binary_mask D) = (\<Union>v<num_binary_vars D. vparts D v)"
      "is_cube D (mv_mask D)" "elems (mv_mask D) = (\<Union>v\<in>{num_binary_vars D..<num_vars D}. vparts D v)"
      "\<forall>v<num_vars D. is_cube D (var_mask D ! v) \<and> elems (var_mask D ! v) = vparts D v"
      "\<forall>v<num_vars D. sparse D ! v = (num_binary_vars D \<le> v)"
      unfolding masks_upto_def b by blast+
    show ?thesis unfolding wf_masks_def f
      using m(1-4) full inw m(5,6) by (simp only: simp_thms)
  qed
  ultimately show ?thesis unfolding wf_cube_def ..
qed

lemma cube_setup_spec:
  assumes "0 \<le> nbin" "nbin \<le> nvars" "0 < nvars" "length ps = nat nvars"
    "\<forall>v<nat nvars. 0 < psize_of (nat nbin) ps v" "(\<Sum>v<nat nvars. psize_of (nat nbin) ps v) \<le> 32736"
  shows "\<exists>C. cube_setup inmask0 nvars nbin ps = Inr C \<and> wf_cube C \<and> num_vars C = nat nvars
    \<and> num_binary_vars C = nat nbin \<and> (\<forall>v<nat nvars. psz C v = psize_of (nat nbin) ps v)"
proof -
  let ?n = "nat nvars" and ?b = "nat nbin"
  define C1 :: cube_struct where "C1 = \<lparr>cube_size = 0, num_vars = ?n, num_binary_vars = ?b,
                  first_part = replicate ?n 0, last_part = replicate ?n 0, part_size = ps,
                  first_word = replicate ?n 0, last_word = replicate ?n 0,
                  binary_mask = [], mv_mask = [], var_mask = replicate ?n [],
                  fullset = [], emptyset = [], inmask = inmask0, inword = -1,
                  sparse = replicate ?n False, num_mv_vars = nat (nvars - nbin),
                  output_var = (if nvars - nbin > 0 then nvars - 1 else - 1)\<rparr>"
  define C2 where "C2 = fold layout_step [0..<?n] C1"
  define C3 where "C3 = C2\<lparr>binary_mask := new_cube C2, mv_mask := new_cube C2\<rparr>"
  define C4 where "C4 = fold mask_step [0..<?n] C3"
  define C5 where "C5 = (if num_binary_vars C4 = 0 then C4\<lparr>inword := -1\<rparr>
                  else let w = last_word C4 ! (num_binary_vars C4 - 1)
                       in C4\<lparr>inword := int w, inmask := binary_mask C4 ! w AND DISJOINT\<rparr>)"
  define C6 where "C6 = C5\<lparr>fullset := set_fill (new_cube C5) (cube_size C5), emptyset := new_cube C5\<rparr>"
  have run: "cube_setup inmask0 nvars nbin ps = Inr C6"
    using assms(1,2) unfolding cube_setup_def Let_def C6_def C5_def C4_def C3_def C2_def C1_def by simp
  have "layout_upto ?n ?b ps 0 C1" using assms(4) by (simp add: layout_upto_def C1_def)
  then have up: "layout_upto ?n ?b ps ?n C2" unfolding C2_def by (rule layout_loop) (use assms(5) in simp_all)
  have n: "num_vars C2 = ?n" "num_binary_vars C2 = ?b" using up by (simp_all add: layout_upto_def)
  have L2: "wf_layout C2"
    by (rule layout_done [OF up]) (use assms in \<open>auto simp: C2_def layout_loop_frame C1_def\<close>)
  have L3: "wf_layout C3" "num_vars C3 = ?n" "num_binary_vars C3 = ?b"
    using L2 n by (simp_all add: C3_def wf_layout_def psz_def)
  have "masks_upto 0 C3"
    using n wf_layoutD(3) [OF L2] by (simp add: masks_upto_def C3_def new_cube_def C2_def layout_loop_frame C1_def)
  then have M4: "masks_upto ?n C4" unfolding C4_def using mask_loop L3 by simp
  have L4: "wf_layout C4" "num_vars C4 = ?n" "num_binary_vars C4 = ?b" "vparts C4 = vparts C3"
    using L3 by (simp_all add: C4_def mask_loop_frame)
  have "wf_cube C6"
  proof (rule set_up_wf [OF L4(1)])
    show "masks_upto (num_vars C4) C4" using M4 L4 by simp
    show "C6 = C4\<lparr>inword := inword C5, inmask := inmask C5, fullset := set_fill (new_cube C4) (cube_size C4), emptyset := new_cube C4\<rparr>"
      by (simp add: C6_def C5_def Let_def new_cube_def)
  qed (auto simp: C5_def Let_def)
  moreover have "num_vars C6 = ?n" "num_binary_vars C6 = ?b"
    using L4 by (simp_all add: C6_def C5_def Let_def)
  moreover have "psz C6 v = psize_of ?b ps v" if "v < ?n" for v
  proof -
    have "part_size (fold mask_step ks D) = part_size D" for ks D
      by (induction ks arbitrary: D) (simp_all add: mask_step_fields)
    then have "part_size C6 = part_size C2" by (simp add: C6_def C5_def Let_def C4_def C3_def)
    then show ?thesis using up that by (simp add: psz_def layout_upto_def)
  qed
  ultimately show ?thesis using run by blast
qed

lemma wf_cube_inword:
  assumes "wf_cube C"
  shows "inword C = - 1 \<longleftrightarrow> num_binary_vars C = 0"
    "num_binary_vars C \<noteq> 0 \<Longrightarrow> nat (inword C) = WHICH_WORD (2 * num_binary_vars C - 1)"
    "num_binary_vars C \<noteq> 0 \<Longrightarrow> inmask C = (binary_mask C ! nat (inword C) AND DISJOINT)"
  using assms unfolding wf_cube_def wf_masks_def by (auto split: if_splits)

lemma wf_cube_words:
  assumes "wf_cube C" "v < num_vars C"
  shows "first_word C ! v = WHICH_WORD (first_part C ! v)"
    "last_word C ! v = WHICH_WORD (first_part C ! v + psz C v - 1)"
    "sparse C ! v = (num_binary_vars C \<le> v)"
  using assms unfolding wf_cube_def wf_masks_def wf_layout_def by auto

text \<open>From here on the simplifier knows the masks; \<open>wf_cube_def\<close> is not unfolded any more.\<close>

lemmas wf_cube_simps [simp] = wf_cubeD(3-12)

section \<open>Points\<close>

lemma common_point:
  assumes "wf_cube C" "\<not> null_cube C c"
  obtains x where "point C x" "covers C c x"
proof -
  have "\<forall>v. \<exists>e. v < num_vars C \<longrightarrow> e \<in> c \<inter> vparts C v"
    using assms(2) unfolding null_cube_def null_var_def by blast
  then obtain x where "\<forall>v. v < num_vars C \<longrightarrow> x v \<in> c \<inter> vparts C v" by metis
  then show ?thesis using that [of x] by (simp add: point_def covers_def)
qed

lemma covers_not_null: "covers C c x \<Longrightarrow> point C x \<Longrightarrow> \<not> null_cube C c"
  unfolding covers_def point_def null_cube_def null_var_def by blast

lemma covers_Int: "covers C (a \<inter> b) x \<longleftrightarrow> covers C a x \<and> covers C b x"
  by (auto simp: covers_def)

lemma covers_mono: "a \<subseteq> b \<Longrightarrow> covers C a x \<Longrightarrow> covers C b x"
  by (auto simp: covers_def)

lemma cov_simps [simp]:
  "cov C {} = {}" "cov C (S \<union> T) = cov C S \<union> cov C T"
  by (auto simp: cov_def)

lemma cov_insert: "cov C (insert c S) = cov C {c} \<union> cov C S"
  by (auto simp: cov_def)

lemma cov_mono: "S \<subseteq> T \<Longrightarrow> cov C S \<subseteq> cov C T"
  by (auto simp: cov_def)

lemma cov_dominated:
  assumes dom: "\<forall>c\<in>S. \<exists>d\<in>T. c \<subseteq> d"
  shows "cov C S \<subseteq> cov C T"
proof
  fix x assume "x \<in> cov C S"
  then obtain c where c: "point C x" "c \<in> S" "covers C c x" by (auto simp: cov_def)
  then obtain d where "d \<in> T" "c \<subseteq> d" using dom by blast
  then show "x \<in> cov C T" using c covers_mono [of c d C x] by (auto simp: cov_def)
qed

lemma cov_null: "null_cube C c \<Longrightarrow> cov C {c} = {}"
  using covers_not_null by (auto simp: cov_def)

lemma cov_single_mono: "a \<subseteq> b \<Longrightarrow> cov C {a} \<subseteq> cov C {b}"
  by (auto simp: cov_def covers_def)

text \<open>
  For cubes without null variables, inclusion of the points is inclusion of the cubes.
\<close>

lemma cov_single_subset:
  assumes "wf_cube C" "\<not> null_cube C a" "a \<subseteq> {..<cube_size C}" "cov C {a} \<subseteq> cov C {b}"
  shows "a \<subseteq> b"
proof
  fix e assume e: "e \<in> a"
  then have "e < cube_size C" using assms(3) by auto
  then obtain v where v: "v < num_vars C" "e \<in> vparts C v" by (rule vparts_cover [OF wf_cubeD(1) [OF assms(1)]])
  obtain x where x: "point C x" "covers C a x" using common_point [OF assms(1,2)] .
  have "point C (x(v := e))" "covers C a (x(v := e))" using x v e by (auto simp: point_def covers_def)
  then have "covers C b (x(v := e))" using assms(4) by (auto simp: cov_def)
  then show "e \<in> b" using v(1) by (auto simp: covers_def)
qed

section \<open>An example\<close>

text \<open>
  A structure with two binary variables and one of three values, for the concrete instances of the
  theorems, and a cube given by the list of its parts.
\<close>

definition cube_of :: "nat \<Rightarrow> nat list \<Rightarrow> pset" where
  "cube_of n es = fold (\<lambda>e s. set_insert s e) es (set_new n)"

lemma cube_of [simp]:
  assumes "n \<le> 32736" "\<forall>e\<in>set es. e < n"
  shows "wf_set n (cube_of n es)" "elems (cube_of n es) = set es"
  using fold_insert_spec [of n "set_new n" es "\<lambda>_. True" "\<lambda>e. e"] assms by (auto simp: cube_of_def)

definition cover_of :: "nat \<Rightarrow> nat list list \<Rightarrow> set_family" where
  "cover_of n css = (sf_new (length css) n)\<lparr>data := map (cube_of n) css\<rparr>"

lemma cover_of [simp]:
  assumes "n \<le> 32736" "\<forall>es\<in>set css. \<forall>e\<in>set es. e < n"
  shows "wf_family n (cover_of n css)" "elems ` set (data (cover_of n css)) = set ` set css"
    "data (cover_of n css) = map (cube_of n) css" "cnt (cover_of n css) = length css"
  using assms by (auto simp: cover_of_def wf_family_def image_image)

definition demo_cube :: cube_struct where
  "demo_cube = projr (cube_setup 0 3 2 [2, 2, 3])"

lemma demo_cube [simp]:
  "wf_cube demo_cube" "num_vars demo_cube = 3" "num_binary_vars demo_cube = 2" "cube_size demo_cube = 7"
  "vparts demo_cube 0 = {0, 1}" "vparts demo_cube (Suc 0) = {2, 3}" "vparts demo_cube 2 = {4, 5, 6}"
proof -
  have "v < 3 \<Longrightarrow> 2 \<le> v \<Longrightarrow> v = 2" for v :: nat by simp
  then have "\<forall>v<nat 3. 0 < psize_of (nat 2) [2, 2, 3] v" by (auto simp: psize_of_def)
  moreover have "(\<Sum>v<nat 3. psize_of (nat 2) [2, 2, 3] v) \<le> 32736"
    by (simp add: lessThan_nat_numeral psize_of_def)
  ultimately have "\<exists>C. cube_setup 0 3 2 [2, 2, 3] = Inr C \<and> wf_cube C \<and> num_vars C = nat 3
    \<and> num_binary_vars C = nat 2 \<and> (\<forall>v<nat 3. psz C v = psize_of (nat 2) [2, 2, 3] v)"
    by (intro cube_setup_spec) simp_all
  then have C: "wf_cube demo_cube" "num_vars demo_cube = 3" "num_binary_vars demo_cube = 2"
    "\<forall>v<3. psz demo_cube v = psize_of 2 [2, 2, 3] v" unfolding demo_cube_def by fastforce+
  note L = wf_cubeD(1) [OF C(1)]
  have p: "psz demo_cube 0 = 2" "psz demo_cube (Suc 0) = 2" "psz demo_cube 2 = 3"
    using C(4) by (simp_all add: psize_of_def)
  show "wf_cube demo_cube" "num_vars demo_cube = 3" "num_binary_vars demo_cube = 2" by (rule C)+
  show "cube_size demo_cube = 7" using p by (simp add: wf_layoutD(4) [OF L] C(2) lessThan_nat_numeral)
  have "first_part demo_cube ! 0 = 0" "first_part demo_cube ! Suc 0 = 2" "first_part demo_cube ! 2 = 4"
    using p by (simp_all add: wf_layoutD(6) [OF L] C(2) lessThan_nat_numeral)
  then show "vparts demo_cube 0 = {0, 1}" "vparts demo_cube (Suc 0) = {2, 3}" "vparts demo_cube 2 = {4, 5, 6}"
    using p by (auto simp: vparts_def)
qed

lemma less_3_cases: "v < 3 \<longleftrightarrow> v = 0 \<or> v = Suc 0 \<or> v = 2" for v :: nat
  by auto

section \<open>Properties\<close>

text \<open>
  C6. The set-up routine rejects an impossible number of variables; for every
  other description with non-empty variables and at most 32736 parts it lays the parts of the variables out
  one behind the other and builds masks and loop words that fit: the invariant \<open>wf_cube\<close>, on which every other component relies.
  A negative part size counts with its absolute value and the sizes given for binary variables do not matter.
\<close>

theorem cube_setup_establishes:
  "((nbin < 0 \<or> nvars < nbin) \<longrightarrow>
      cube_setup inmask0 nvars nbin ps = Inl (Fatal ''cube size is silly, error in .i/.o or .mv''))
   \<and> (0 \<le> nbin \<and> nbin \<le> nvars \<and> 0 < nvars \<and> length ps = nat nvars
        \<and> (\<forall>v<nat nvars. nat nbin \<le> v \<longrightarrow> ps ! v \<noteq> 0)
        \<and> (\<Sum>v<nat nvars. if v < nat nbin then 2 else nat \<bar>ps ! v\<bar>) \<le> 32736 \<longrightarrow>
      (\<exists>C. cube_setup inmask0 nvars nbin ps = Inr C \<and> wf_cube C \<and> num_vars C = nat nvars
        \<and> num_binary_vars C = nat nbin
        \<and> (\<forall>v<nat nvars. card (vparts C v) = (if v < nat nbin then 2 else nat \<bar>ps ! v\<bar>))))"
proof (intro conjI impI)
  assume "nbin < 0 \<or> nvars < nbin"
  then show "cube_setup inmask0 nvars nbin ps = Inl (Fatal ''cube size is silly, error in .i/.o or .mv'')"
    by (simp add: cube_setup_def)
next
  assume *: "0 \<le> nbin \<and> nbin \<le> nvars \<and> 0 < nvars \<and> length ps = nat nvars
        \<and> (\<forall>v<nat nvars. nat nbin \<le> v \<longrightarrow> ps ! v \<noteq> 0)
        \<and> (\<Sum>v<nat nvars. if v < nat nbin then 2 else nat \<bar>ps ! v\<bar>) \<le> 32736"
  then have "\<forall>v<nat nvars. 0 < psize_of (nat nbin) ps v" by (simp add: psize_of_def)
  then show "\<exists>C. cube_setup inmask0 nvars nbin ps = Inr C \<and> wf_cube C \<and> num_vars C = nat nvars
        \<and> num_binary_vars C = nat nbin
        \<and> (\<forall>v<nat nvars. card (vparts C v) = (if v < nat nbin then 2 else nat \<bar>ps ! v\<bar>))"
    using * cube_setup_spec [of nbin nvars ps inmask0] by (simp add: card_vparts psize_of_def cong: if_cong)
qed

theorem cube_setup_establishes_witness:
  "\<exists>C. cube_setup 0 3 2 [0, 7, - 4] = Inr C \<and> wf_cube C \<and> card (vparts C 2) = 4"
proof -
  have "v < 3 \<Longrightarrow> 2 \<le> v \<Longrightarrow> v = 2" for v :: nat by simp
  then have "\<forall>v<nat 3. nat 2 \<le> v \<longrightarrow> [0, 7, - 4 :: int] ! v \<noteq> 0" by fastforce
  moreover have "(\<Sum>v<nat 3. if v < nat 2 then 2 else nat \<bar>[0, 7, - 4 :: int] ! v\<bar>) \<le> 32736"
    by (simp add: lessThan_nat_numeral)
  ultimately have "\<exists>C. cube_setup 0 3 2 [0, 7, - 4] = Inr C \<and> wf_cube C \<and> num_vars C = nat 3
        \<and> num_binary_vars C = nat 2
        \<and> (\<forall>v<nat 3. card (vparts C v) = (if v < nat 2 then 2 else nat \<bar>[0, 7, - 4] ! v\<bar>))"
    by (intro cube_setup_establishes [THEN conjunct2, THEN mp]) simp
  then show ?thesis by (auto dest: spec [of _ 2])
qed

end
