(* ===== verification/SetC.thy ===== *)
theory SetC
  imports CubeStr
begin

text \<open>
  The cube operations of \<^verbatim>\<open>setc.c\<close>: distances, consensus, forced lowering, active
  variables, and the comparison functions for \<^verbatim>\<open>qsort\<close>.

  The binary variables are handled a word at a time, 16 variables per word; the last such word
  (\<^verbatim>\<open>cube.inword\<close>) may also hold parts of multiple-valued variables, which
  \<^verbatim>\<open>cube.inmask\<close> cuts away.  The lemmas about \<open>var_bits\<close> say once and for all what a
  word means that has one bit per binary variable; the specification of every routine is in terms of
  variables and parts only.
\<close>

section \<open>Definitions\<close>

text \<open>\<^verbatim>\<open>for (w = cube.first_word[var]; w <= cube.last_word[var]; w++)\<close>\<close>

definition word_range :: "cube_struct \<Rightarrow> nat \<Rightarrow> nat list" where
  "word_range C var = [first_word C ! var ..< last_word C ! var + 1]"

text \<open>\<^verbatim>\<open>for (var = cube.num_binary_vars; var < cube.num_vars; var++)\<close>\<close>

definition mv_vars :: "cube_struct \<Rightarrow> nat list" where
  "mv_vars C = [num_binary_vars C ..< num_vars C]"

text \<open>\<^verbatim>\<open>~(x | x >> 1) & mask\<close>, one bit for each binary variable without parts in \<open>x\<close>, and
  \<^verbatim>\<open>~(x & x >> 1) & mask\<close>, one for each without all its parts.\<close>

definition null_bits :: "u32 \<Rightarrow> u32 \<Rightarrow> u32" where
  "null_bits x m = (NOT (x OR drop_bit 1 x) AND m)"

definition active_bits :: "u32 \<Rightarrow> u32 \<Rightarrow> u32" where
  "active_bits x m = (NOT (x AND drop_bit 1 x) AND m)"

definition full_row :: "cube_struct \<Rightarrow> pset \<Rightarrow> pset \<Rightarrow> bool" where
  "full_row C p cof = all_down (\<lambda>i. (p ! i OR cof ! i) = fullset C ! i) (LOOP p)"

definition cdist0 :: "cube_struct \<Rightarrow> pset \<Rightarrow> pset \<Rightarrow> bool" where
  "cdist0 C a b =
     ((if inword C \<noteq> -1 then
         let last = nat (inword C) in
         null_bits (a ! last AND b ! last) (inmask C) = 0
         \<and> list_all (\<lambda>w. null_bits (a ! w AND b ! w) DISJOINT = 0) [1..<last]
       else True)
      \<and> list_all (\<lambda>var. list_ex (\<lambda>w. a ! w AND b ! w AND var_mask C ! var ! w \<noteq> 0) (word_range C var))
          (mv_vars C))"

text \<open>The two loops of \<^verbatim>\<open>cdist01\<close>; \<open>None\<close> is the early \<^verbatim>\<open>return 2\<close>.\<close>

fun cdist01_words :: "pset \<Rightarrow> pset \<Rightarrow> nat list \<Rightarrow> nat \<Rightarrow> nat option" where
  "cdist01_words a b [] dist = Some dist"
| "cdist01_words a b (w # ws) dist =
     (let x = null_bits (a ! w AND b ! w) DISJOINT in
      if x \<noteq> 0 then
        (if dist = 1 then None
         else if dist + count_ones x > 1 then None
         else cdist01_words a b ws (dist + count_ones x))
      else cdist01_words a b ws dist)"

fun cdist01_vars :: "cube_struct \<Rightarrow> pset \<Rightarrow> pset \<Rightarrow> nat list \<Rightarrow> nat \<Rightarrow> nat option" where
  "cdist01_vars C a b [] dist = Some dist"
| "cdist01_vars C a b (var # vs) dist =
     (if list_ex (\<lambda>w. a ! w AND b ! w AND var_mask C ! var ! w \<noteq> 0) (word_range C var)
      then cdist01_vars C a b vs dist
      else if dist + 1 > 1 then None
      else cdist01_vars C a b vs (dist + 1))"

definition cdist01 :: "cube_struct \<Rightarrow> pset \<Rightarrow> pset \<Rightarrow> nat" where
  "cdist01 C a b =
     (let bin = (if inword C \<noteq> -1 then
                   let last = nat (inword C);
                       x = null_bits (a ! last AND b ! last) (inmask C)
                   in if x \<noteq> 0
                      then (if count_ones x > 1 then None
                            else cdist01_words a b [1..<last] (count_ones x))
                      else cdist01_words a b [1..<last] 0
                 else Some 0)
      in case bin of None \<Rightarrow> 2
         | Some dist \<Rightarrow> (case cdist01_vars C a b (mv_vars C) dist of None \<Rightarrow> 2 | Some dist \<Rightarrow> dist))"

definition cdist :: "cube_struct \<Rightarrow> pset \<Rightarrow> pset \<Rightarrow> nat" where
  "cdist C a b =
     (let dist = (if inword C \<noteq> -1 then
                    let last = nat (inword C);
                        x = null_bits (a ! last AND b ! last) (inmask C);
                        dist = (if x \<noteq> 0 then count_ones x else 0)
                    in fold (\<lambda>w dist. let x = null_bits (a ! w AND b ! w) DISJOINT
                                      in if x \<noteq> 0 then dist + count_ones x else dist) [1..<last] dist
                  else 0)
      in fold (\<lambda>var dist.
             if list_ex (\<lambda>w. a ! w AND b ! w AND var_mask C ! var ! w \<noteq> 0) (word_range C var)
             then dist else dist + 1)
           (mv_vars C) dist)"

text \<open>\<^verbatim>\<open>xlower[w] |= (x | (x << 1)) & a[w]\<close> for the word \<open>w\<close> with the mask \<open>m\<close>.\<close>

definition lower_word :: "pset \<Rightarrow> pset \<Rightarrow> u32 \<Rightarrow> nat \<Rightarrow> pset \<Rightarrow> pset" where
  "lower_word a b m w xlower =
     (let x = null_bits (a ! w AND b ! w) m
      in if x \<noteq> 0 then xlower[w := xlower ! w OR ((x OR push_bit 1 x) AND a ! w)] else xlower)"

definition force_lower :: "cube_struct \<Rightarrow> pset \<Rightarrow> pset \<Rightarrow> pset \<Rightarrow> pset" where
  "force_lower C xlower a b =
     (let xlower = (if inword C \<noteq> -1 then
                      let last = nat (inword C);
                          xlower = lower_word a b (inmask C) last xlower
                      in fold (lower_word a b DISJOINT) [1..<last] xlower
                    else xlower)
      in fold (\<lambda>var xlower.
             if list_ex (\<lambda>w. a ! w AND b ! w AND var_mask C ! var ! w \<noteq> 0) (word_range C var)
             then xlower
             else fold (\<lambda>w xlower. xlower[w := xlower ! w OR (a ! w AND var_mask C ! var ! w)])
                    (word_range C var) xlower)
           (mv_vars C) xlower)"

definition consensus_word :: "pset \<Rightarrow> pset \<Rightarrow> u32 \<Rightarrow> nat \<Rightarrow> pset \<Rightarrow> pset" where
  "consensus_word a b m w r =
     (let x = a ! w AND b ! w;
          r = r[w := x];
          x = null_bits x m
      in if x \<noteq> 0 then r[w := r ! w OR ((x OR push_bit 1 x) AND (a ! w OR b ! w))] else r)"

definition consensus :: "cube_struct \<Rightarrow> pset \<Rightarrow> pset \<Rightarrow> pset \<Rightarrow> pset" where
  "consensus C r a b =
     (let r = set_clear r (cube_size C);
          r = (if inword C \<noteq> -1 then
                 let last = nat (inword C);
                     r = consensus_word a b (inmask C) last r
                 in fold (consensus_word a b DISJOINT) [1..<last] r
               else r)
      in fold (\<lambda>var r.
             let mask = var_mask C ! var;
                 (r, empty) = fold (\<lambda>w (r, empty).
                     let x = a ! w AND b ! w AND mask ! w
                     in if x \<noteq> 0 then (r[w := r ! w OR x], False) else (r, empty))
                   (word_range C var) (r, True)
             in if empty
                then fold (\<lambda>w r. r[w := r ! w OR (mask ! w AND (a ! w OR b ! w))]) (word_range C var) r
                else r)
           (mv_vars C) r)"

text \<open>The loops of \<^verbatim>\<open>cactive\<close>; \<open>None\<close> is the early \<^verbatim>\<open>return -1\<close>.\<close>

fun cactive_words :: "pset \<Rightarrow> nat list \<Rightarrow> int \<times> nat \<Rightarrow> (int \<times> nat) option" where
  "cactive_words a [] (active, dist) = Some (active, dist)"
| "cactive_words a (w # ws) (active, dist) =
     (let x = active_bits (a ! w) DISJOINT in
      if x \<noteq> 0 then
        (if dist + count_ones x > 1 then None
         else cactive_words a ws (int (w - 1) * 16 + bit_index x div 2, dist + count_ones x))
      else cactive_words a ws (active, dist))"

fun cactive_vars :: "cube_struct \<Rightarrow> pset \<Rightarrow> nat list \<Rightarrow> int \<times> nat \<Rightarrow> (int \<times> nat) option" where
  "cactive_vars C a [] (active, dist) = Some (active, dist)"
| "cactive_vars C a (var # vs) (active, dist) =
     (if list_ex (\<lambda>w. var_mask C ! var ! w AND NOT (a ! w) \<noteq> 0) (word_range C var)
      then (if dist + 1 > 1 then None else cactive_vars C a vs (int var, dist + 1))
      else cactive_vars C a vs (active, dist))"

definition cactive :: "cube_struct \<Rightarrow> pset \<Rightarrow> int" where
  "cactive C a =
     (let bin = (if inword C \<noteq> -1 then
                   let last = nat (inword C);
                       x = active_bits (a ! last) (inmask C)
                   in if x \<noteq> 0
                      then (if count_ones x > 1 then None
                            else cactive_words a [1..<last]
                                   (int (last - 1) * 16 + bit_index x div 2, count_ones x))
                      else cactive_words a [1..<last] (-1, 0)
                 else Some (-1, 0))
      in case bin of None \<Rightarrow> - 1
         | Some s \<Rightarrow> (case cactive_vars C a (mv_vars C) s of None \<Rightarrow> - 1 | Some (active, dist) \<Rightarrow> active))"

definition ccommon :: "cube_struct \<Rightarrow> pset \<Rightarrow> pset \<Rightarrow> pset \<Rightarrow> bool" where
  "ccommon C a b cof =
     ((inword C \<noteq> -1 \<and>
        (let last = nat (inword C) in
         active_bits (a ! last OR cof ! last) (active_bits (b ! last OR cof ! last) (inmask C)) \<noteq> 0
         \<or> list_ex (\<lambda>w. active_bits (a ! w OR cof ! w) (active_bits (b ! w OR cof ! w) DISJOINT) \<noteq> 0)
             [1..<last]))
      \<or> list_ex (\<lambda>var.
            list_ex (\<lambda>w. var_mask C ! var ! w AND NOT (a ! w) AND NOT (cof ! w) \<noteq> 0) (word_range C var)
            \<and> list_ex (\<lambda>w. var_mask C ! var ! w AND NOT (b ! w) AND NOT (cof ! w) \<noteq> 0) (word_range C var))
          (mv_vars C))"

text \<open>
  \<^verbatim>\<open>do if (f(i) > g(i)) return -1; else if (f(i) < g(i)) return 1; while (--i > 0); return 0;\<close>
\<close>

fun cmp_down :: "(nat \<Rightarrow> u32) \<Rightarrow> (nat \<Rightarrow> u32) \<Rightarrow> nat \<Rightarrow> int" where
  "cmp_down f g 0 = (if f 0 > g 0 then - 1 else if f 0 < g 0 then 1 else 0)"
| "cmp_down f g (Suc 0) = (if f 1 > g 1 then - 1 else if f 1 < g 1 then 1 else 0)"
| "cmp_down f g (Suc (Suc i)) =
     (if f (Suc (Suc i)) > g (Suc (Suc i)) then - 1
      else if f (Suc (Suc i)) < g (Suc (Suc i)) then 1
      else cmp_down f g (Suc i))"

definition descend :: "pset \<Rightarrow> pset \<Rightarrow> int" where
  "descend a1 b1 =
     (if SIZE a1 > SIZE b1 then - 1 else if SIZE a1 < SIZE b1 then 1
      else cmp_down (\<lambda>i. a1 ! i) (\<lambda>i. b1 ! i) (LOOP a1))"

definition ascend :: "pset \<Rightarrow> pset \<Rightarrow> int" where
  "ascend a1 b1 =
     (if SIZE a1 > SIZE b1 then 1 else if SIZE a1 < SIZE b1 then - 1
      else cmp_down (\<lambda>i. b1 ! i) (\<lambda>i. a1 ! i) (LOOP a1))"

definition lex_order :: "pset \<Rightarrow> pset \<Rightarrow> int" where
  "lex_order a1 b1 = cmp_down (\<lambda>i. a1 ! i) (\<lambda>i. b1 ! i) (LOOP a1)"

text \<open>The mask \<^verbatim>\<open>cube.temp[0]\<close> is the argument \<open>c1\<close>.\<close>

definition d1_order :: "pset \<Rightarrow> pset \<Rightarrow> pset \<Rightarrow> int" where
  "d1_order c1 a1 b1 = cmp_down (\<lambda>i. a1 ! i OR c1 ! i) (\<lambda>i. b1 ! i OR c1 ! i) (LOOP a1)"

fun desc1 :: "pset option \<Rightarrow> pset option \<Rightarrow> int" where
  "desc1 None b = (if b = None then 0 else 1)"
| "desc1 (Some a) None = - 1"
| "desc1 (Some a) (Some b) =
     (if SIZE a > SIZE b then - 1 else if SIZE a < SIZE b then 1
      else cmp_down (\<lambda>i. a ! i) (\<lambda>i. b ! i) (LOOP a))"

section \<open>Words of binary variables\<close>

definition wbit :: "(nat \<Rightarrow> u32) \<Rightarrow> nat \<Rightarrow> bool" where
  "wbit f e \<longleftrightarrow> bit (f (e div 32 + 1)) (e mod 32)"

lemma wbit_elems: "e < 32 * LOOP a \<Longrightarrow> wbit (\<lambda>w. a ! w) e \<longleftrightarrow> e \<in> elems a"
  by (simp add: wbit_def elems_iff)

lemma wbit_simps [simp]:
  "wbit (\<lambda>w. f w AND g w) e \<longleftrightarrow> wbit f e \<and> wbit g e"
  "wbit (\<lambda>w. f w OR g w) e \<longleftrightarrow> wbit f e \<or> wbit g e"
  "wbit (\<lambda>w. NOT (f w)) e \<longleftrightarrow> \<not> wbit f e"
  by (simp_all add: wbit_def bit_simps)

lemma wbit_cube [simp]:
  "is_cube C a \<Longrightarrow> e < 32 * LOOPINIT (cube_size C) \<Longrightarrow> wbit (\<lambda>w. a ! w) e \<longleftrightarrow> e \<in> elems a"
  "is_cube C a \<Longrightarrow> e < 32 * LOOPINIT (cube_size C) \<Longrightarrow> wbit ((!) a) e \<longleftrightarrow> e \<in> elems a"
  using wbit_elems [of e a] by (simp_all add: wf_LOOP)

lemma cube_size_words: "e < cube_size C \<Longrightarrow> e < 32 * LOOPINIT (cube_size C)"
  using LOOPINIT_covers [of "cube_size C"] by simp

text \<open>
  The variables of word \<open>Suc u\<close>, and a word with one bit for each of them that satisfies \<open>Q\<close>.
\<close>

definition vword :: "nat \<Rightarrow> nat set" where
  "vword u = {16 * u ..< 16 * u + 16}"

definition var_bits :: "nat \<Rightarrow> u32 \<Rightarrow> (nat \<Rightarrow> bool) \<Rightarrow> bool" where
  "var_bits u z Q \<longleftrightarrow> (\<forall>j<16. (bit z (2 * j) \<longleftrightarrow> Q (16 * u + j)) \<and> \<not> bit z (Suc (2 * j)))"

lemma vword_cases: "v \<in> vword u \<longleftrightarrow> (\<exists>j<16. v = 16 * u + j)"
proof
  assume "v \<in> vword u"
  then have "v - 16 * u < 16 \<and> v = 16 * u + (v - 16 * u)" unfolding vword_def by auto
  then show "\<exists>j<16. v = 16 * u + j" by blast
qed (auto simp: vword_def)

lemma bit_pairs: "(\<forall>k<32. P k) \<longleftrightarrow> (\<forall>j<16. P (2 * j) \<and> P (Suc (2 * j)))"
proof
  assume *: "\<forall>j<16. P (2 * j) \<and> P (Suc (2 * j))"
  show "\<forall>k<32. P k"
  proof (intro allI impI)
    fix k :: nat assume k: "k < 32"
    show "P k"
    proof (cases "even k")
      case True
      then obtain j where "k = 2 * j" by (rule evenE)
      then show ?thesis using * k by simp
    next
      case False
      then obtain j where "k = 2 * j + 1" by (rule oddE)
      then show ?thesis using * k by simp
    qed
  qed
qed simp

lemma var_bits_zero:
  assumes "var_bits u z Q"
  shows "z = 0 \<longleftrightarrow> (\<forall>v\<in>vword u. \<not> Q v)"
proof -
  have "z = 0 \<longleftrightarrow> (\<forall>j<16. \<not> bit z (2 * j) \<and> \<not> bit z (Suc (2 * j)))"
    unfolding word_eq_0_iff by (rule bit_pairs)
  also have "\<dots> \<longleftrightarrow> (\<forall>v\<in>vword u. \<not> Q v)"
    using assms unfolding var_bits_def vword_cases Ball_def by metis
  finally show ?thesis .
qed

lemma var_bits_count:
  assumes "var_bits u z Q"
  shows "count_ones z = card {v \<in> vword u. Q v}"
proof -
  have z: "{k. k < 32 \<and> bit z k} = (\<lambda>j. 2 * j) ` {j. j < 16 \<and> Q (16 * u + j)}" (is "?A = ?B")
  proof -
    have "\<forall>k<32. k \<in> ?A \<longleftrightarrow> k \<in> ?B"
      unfolding bit_pairs using assms Suc_double_not_eq_double by (auto simp: var_bits_def image_iff)
    then show ?thesis by auto
  qed
  have v: "{v \<in> vword u. Q v} = (\<lambda>j. 16 * u + j) ` {j. j < 16 \<and> Q (16 * u + j)}"
    unfolding vword_cases by auto
  show ?thesis unfolding count_ones_card z v by (simp add: card_image inj_on_def)
qed

text \<open>\<^verbatim>\<open>(x | x << 1)\<close> selects all the parts of the variables in \<open>x\<close>.\<close>

lemma bit_shl1: "k < 32 \<Longrightarrow> bit (push_bit 1 z) k \<longleftrightarrow> 0 < k \<and> bit z (k - 1)" for z :: u32
  by (auto simp only: bit_push_bit_iff possible_bit_word) simp_all

lemma var_bits_spread:
  assumes "var_bits u z Q" "j < 16"
  shows "bit (z OR push_bit 1 z) (2 * j) \<longleftrightarrow> Q (16 * u + j)"
    "bit (z OR push_bit 1 z) (Suc (2 * j)) \<longleftrightarrow> Q (16 * u + j)"
proof -
  have "\<not> (0 < 2 * j \<and> bit z (2 * j - 1))"
  proof (cases j)
    case (Suc i)
    then have "2 * j - 1 = Suc (2 * i)" "i < 16" using assms(2) by simp_all
    then show ?thesis using assms(1) unfolding var_bits_def by simp
  qed simp
  then show "bit (z OR push_bit 1 z) (2 * j) \<longleftrightarrow> Q (16 * u + j)"
    using assms unfolding var_bits_def by (simp only: bit_or_iff bit_shl1) simp
  show "bit (z OR push_bit 1 z) (Suc (2 * j)) \<longleftrightarrow> Q (16 * u + j)"
    using assms unfolding var_bits_def by (simp only: bit_or_iff bit_shl1) simp
qed

lemma var_bits_index:
  assumes "var_bits u z Q" "{v \<in> vword u. Q v} = {v}"
  shows "int u * 16 + bit_index z div 2 = int v"
proof -
  have "v \<in> vword u" "Q v" using assms(2) by auto
  then have "z \<noteq> 0" using var_bits_zero [OF assms(1)] by blast
  then obtain k where k: "bit_index z = int k" "bit z k" using bit_index_spec by blast
  then have "k < 32" using bit_imp_le_length [OF k(2)] by simp
  moreover have "\<forall>k<32. bit z k \<longrightarrow> k = 2 * (v - 16 * u) \<and> 16 * u \<le> v"
    unfolding bit_pairs
  proof (intro allI impI conjI)
    fix j :: nat assume j: "j < 16" and b: "bit z (2 * j)"
    then have "16 * u + j \<in> {v \<in> vword u. Q v}" using assms(1) by (auto simp: var_bits_def vword_def)
    then show "2 * j = 2 * (v - 16 * u)" "16 * u \<le> v" unfolding assms(2) by auto
  qed (use assms(1) in \<open>auto simp: var_bits_def\<close>)
  ultimately show ?thesis using k by auto
qed

subsection \<open>The words of a cube structure\<close>

definition dmask :: "cube_struct \<Rightarrow> nat \<Rightarrow> u32" where
  "dmask C w = (if w = nat (inword C) then inmask C else DISJOINT)"

lemma bit_DISJOINT: "j < 16 \<Longrightarrow> bit DISJOINT (2 * j)" "j < 16 \<Longrightarrow> \<not> bit DISJOINT (Suc (2 * j))"
proof -
  have "\<forall>j<16. bit DISJOINT (2 * j) \<and> \<not> bit DISJOINT (Suc (2 * j))"
    
    by code_simp
  then show "j < 16 \<Longrightarrow> bit DISJOINT (2 * j)" "j < 16 \<Longrightarrow> \<not> bit DISJOINT (Suc (2 * j))" by blast+
qed

lemma inword_cases:
  assumes "wf_cube C"
  shows "inword C = - 1 \<longleftrightarrow> num_binary_vars C = 0"
    "num_binary_vars C \<noteq> 0 \<Longrightarrow> nat (inword C) = (2 * num_binary_vars C - 1) div 32 + 1"
  using wf_cube_inword [OF assms] by (simp_all add: WHICH_WORD_eq)

lemma inword_words:
  assumes "wf_cube C" "num_binary_vars C \<noteq> 0"
  obtains l where "nat (inword C) = Suc l" "16 * l < num_binary_vars C" "num_binary_vars C \<le> 16 * l + 16"
    "Suc l \<le> LOOPINIT (cube_size C)"
proof -
  let ?n = "num_binary_vars C"
  note L = wf_cubeD(1) [OF assms(1)] and iw = inword_cases(2) [OF assms]
  let ?l = "(2 * ?n - 1) div 32"
  have l: "32 * ?l \<le> 2 * ?n - 1" "2 * ?n - 1 < 32 * ?l + 32"
    using mult_div_mod_eq [of 32 "2 * ?n - 1"] mod_less_divisor [of 32 "2 * ?n - 1"] by linarith+
  have "2 * ?n - 1 = 2 * (?n - 1) + 1" using assms(2) by simp
  then have "2 * ?n - 1 \<in> vparts C (?n - 1)"
    using binary_vparts [OF L, of "?n - 1"] assms(2) by simp
  then have "2 * ?n - 1 < cube_size C"
    by (rule vparts_less [OF L, rotated]) (use wf_layoutD(2) [OF L] assms(2) in simp)
  then have "Suc ?l \<le> LOOPINIT (cube_size C)"
    using cube_size_words [of "2 * ?n - 1" C] word_index_bounds by simp
  then show ?thesis using that [of ?l] iw l assms(2) by linarith
qed

lemma bit_dmask:
  assumes C: "wf_cube C" "num_binary_vars C \<noteq> 0" and u: "Suc u \<le> nat (inword C)" and j: "j < 16"
  shows "bit (dmask C (Suc u)) (2 * j) \<longleftrightarrow> 16 * u + j < num_binary_vars C"
    "\<not> bit (dmask C (Suc u)) (Suc (2 * j))"
proof -
  obtain l where l: "nat (inword C) = Suc l" "16 * l < num_binary_vars C" "num_binary_vars C \<le> 16 * l + 16"
    "Suc l \<le> LOOPINIT (cube_size C)" by (rule inword_words [OF C])
  have "bit (dmask C (Suc u)) (2 * j) = (16 * u + j < num_binary_vars C) \<and> \<not> bit (dmask C (Suc u)) (Suc (2 * j))"
  proof (cases "u = l")
    case True
    let ?e = "32 * u + 2 * j"
    have e: "?e div 32 = u" "?e mod 32 = 2 * j" using j by auto
    have "?e < 32 * LOOPINIT (cube_size C)" using l(4) j True by linarith
    then have "bit (binary_mask C ! Suc u) (2 * j) \<longleftrightarrow> ?e \<in> elems (binary_mask C)"
      using e wf_LOOP [OF wf_cubeD(7) [OF C(1)]] by (simp add: elems_iff)
    also have "\<dots> \<longleftrightarrow> ?e < 2 * num_binary_vars C"
      using C(1) binary_parts [OF wf_cubeD(1) [OF C(1)]] by simp
    also have "\<dots> \<longleftrightarrow> 16 * u + j < num_binary_vars C" by linarith
    finally have "bit (binary_mask C ! Suc u) (2 * j) \<longleftrightarrow> 16 * u + j < num_binary_vars C" .
    moreover have "inmask C = (binary_mask C ! Suc u AND DISJOINT)"
      using wf_cube_inword(3) [OF C] l(1) True by simp
    ultimately show ?thesis using True bit_DISJOINT j by (simp add: dmask_def l(1) bit_simps)
  next
    case False
    then have "Suc u \<le> l" using u l(1) by simp
    then have "16 * u + j < num_binary_vars C" using l(2) j by linarith
    then show ?thesis using False bit_DISJOINT j by (simp add: dmask_def l(1))
  qed
  then show "bit (dmask C (Suc u)) (2 * j) \<longleftrightarrow> 16 * u + j < num_binary_vars C"
    "\<not> bit (dmask C (Suc u)) (Suc (2 * j))" by blast+
qed

lemma wbit_pos:
  assumes "j < 16"
  shows "wbit f (2 * (16 * u + j)) = bit (f (Suc u)) (2 * j)"
    "wbit f (Suc (2 * (16 * u + j))) = bit (f (Suc u)) (Suc (2 * j))"
proof -
  have "(2 * (16 * u + j)) div 32 = u" "(2 * (16 * u + j)) mod 32 = 2 * j"
    "Suc (2 * (16 * u + j)) div 32 = u" "Suc (2 * (16 * u + j)) mod 32 = Suc (2 * j)"
    using assms by (simp_all add: div_nat_eqI algebra_simps)
  then show "wbit f (2 * (16 * u + j)) = bit (f (Suc u)) (2 * j)"
    "wbit f (Suc (2 * (16 * u + j))) = bit (f (Suc u)) (Suc (2 * j))"
    by (simp_all add: wbit_def)
qed

text \<open>The binary variables a mask word selects: those without parts in \<open>f\<close>, or without all of them.\<close>

definition bin_null :: "cube_struct \<Rightarrow> (nat \<Rightarrow> u32) \<Rightarrow> nat \<Rightarrow> bool" where
  "bin_null C f v \<longleftrightarrow> v < num_binary_vars C \<and> \<not> wbit f (2 * v) \<and> \<not> wbit f (Suc (2 * v))"

definition bin_active :: "cube_struct \<Rightarrow> (nat \<Rightarrow> u32) \<Rightarrow> nat \<Rightarrow> bool" where
  "bin_active C f v \<longleftrightarrow> v < num_binary_vars C \<and> \<not> (wbit f (2 * v) \<and> wbit f (Suc (2 * v)))"

lemma bit_shr1: "bit (drop_bit 1 x) k = bit x (Suc k)" for x :: u32
  by (simp add: bit_drop_bit_eq)

lemma null_var_bits:
  assumes C: "wf_cube C" "num_binary_vars C \<noteq> 0" and u: "Suc u \<le> nat (inword C)"
  shows "var_bits u (null_bits (f (Suc u)) (dmask C (Suc u))) (bin_null C f)"
  unfolding var_bits_def bin_null_def null_bits_def
proof (intro allI impI conjI)
  fix j :: nat assume j: "j < 16"
  then have "2 * j < 32" by simp
  then show "bit (NOT (f (Suc u) OR drop_bit 1 (f (Suc u))) AND dmask C (Suc u)) (2 * j) \<longleftrightarrow>
      16 * u + j < num_binary_vars C \<and> \<not> wbit f (2 * (16 * u + j)) \<and> \<not> wbit f (Suc (2 * (16 * u + j)))"
    unfolding wbit_pos [OF j]
    by (simp only: bit_and_iff bit_or_iff bit_not_iff bit_shr1 bit_dmask(1) [OF C u j]) auto
  show "\<not> bit (NOT (f (Suc u) OR drop_bit 1 (f (Suc u))) AND dmask C (Suc u)) (Suc (2 * j))"
    by (simp only: bit_and_iff bit_dmask(2) [OF C u j] simp_thms)
qed

lemma active_var_bits:
  assumes C: "wf_cube C" "num_binary_vars C \<noteq> 0" and u: "Suc u \<le> nat (inword C)"
  shows "var_bits u (active_bits (f (Suc u)) (dmask C (Suc u))) (bin_active C f)"
    "var_bits u (active_bits (f (Suc u)) (active_bits (g (Suc u)) (dmask C (Suc u))))
       (\<lambda>v. bin_active C f v \<and> bin_active C g v)"
proof -
  have pos: "bit (active_bits (f (Suc u)) (dmask C (Suc u))) (2 * j) \<longleftrightarrow> bin_active C f (16 * u + j)"
    "\<not> bit (active_bits (f (Suc u)) (dmask C (Suc u))) (Suc (2 * j))"
    "bit (active_bits (f (Suc u)) (active_bits (g (Suc u)) (dmask C (Suc u)))) (2 * j) \<longleftrightarrow>
      bin_active C f (16 * u + j) \<and> bin_active C g (16 * u + j)"
    "\<not> bit (active_bits (f (Suc u)) (active_bits (g (Suc u)) (dmask C (Suc u)))) (Suc (2 * j))"
    if j: "j < 16" for j
  proof -
    have "2 * j < 32" using j by simp
    then have nb: "bit (NOT z) (2 * j) \<longleftrightarrow> \<not> bit z (2 * j)" for z :: u32
      by (simp add: bit_not_iff)
    show "bit (active_bits (f (Suc u)) (dmask C (Suc u))) (2 * j) \<longleftrightarrow> bin_active C f (16 * u + j)"
      unfolding bin_active_def wbit_pos [OF j] active_bits_def
      by (simp only: bit_and_iff nb bit_shr1 bit_dmask(1) [OF C u j]) auto
    show "bit (active_bits (f (Suc u)) (active_bits (g (Suc u)) (dmask C (Suc u)))) (2 * j) \<longleftrightarrow>
        bin_active C f (16 * u + j) \<and> bin_active C g (16 * u + j)"
      unfolding bin_active_def wbit_pos [OF j] active_bits_def
      by (simp only: bit_and_iff nb bit_shr1 bit_dmask(1) [OF C u j]) auto
    show "\<not> bit (active_bits (f (Suc u)) (dmask C (Suc u))) (Suc (2 * j))"
      "\<not> bit (active_bits (f (Suc u)) (active_bits (g (Suc u)) (dmask C (Suc u)))) (Suc (2 * j))"
      unfolding active_bits_def by (simp_all only: bit_and_iff bit_dmask(2) [OF C u j] simp_thms)
  qed
  show "var_bits u (active_bits (f (Suc u)) (dmask C (Suc u))) (bin_active C f)"
    "var_bits u (active_bits (f (Suc u)) (active_bits (g (Suc u)) (dmask C (Suc u))))
       (\<lambda>v. bin_active C f v \<and> bin_active C g v)"
    unfolding var_bits_def using pos by blast+
qed

text \<open>Every binary variable lies in exactly one of the words up to \<^verbatim>\<open>inword\<close>.\<close>

lemma vword_word: "v \<in> vword u \<longleftrightarrow> v div 16 = u"
  unfolding vword_def by auto

lemma binary_word_of:
  assumes "wf_cube C" "v < num_binary_vars C"
  shows "Suc (v div 16) \<le> nat (inword C)"
proof -
  have "num_binary_vars C \<noteq> 0" using assms(2) by simp
  from inword_words [OF assms(1) this] obtain l where "nat (inword C) = Suc l" "num_binary_vars C \<le> 16 * l + 16"
    by metis
  moreover from this have "v div 16 < Suc l" using assms(2) by (intro less_mult_imp_div_less) simp
  ultimately show ?thesis by simp
qed

text \<open>
  The common shape of the binary part: one test in the word \<^verbatim>\<open>inword\<close> with \<^verbatim>\<open>inmask\<close>
  and one in each of the words below with \<^verbatim>\<open>DISJOINT\<close>.
\<close>

lemma binary_test:
  assumes C: "wf_cube C" "num_binary_vars C \<noteq> 0"
    and z: "\<And>u. Suc u \<le> nat (inword C) \<Longrightarrow> var_bits u (z (Suc u) (dmask C (Suc u))) Q"
    and Q: "\<And>v. Q v \<Longrightarrow> v < num_binary_vars C"
  shows "(z (nat (inword C)) (inmask C) = 0 \<and> list_all (\<lambda>w. z w DISJOINT = 0) [1..<nat (inword C)])
     \<longleftrightarrow> (\<forall>v. \<not> Q v)" (is ?T)
    and "count_ones (z (nat (inword C)) (inmask C)) + (\<Sum>w = 1..<nat (inword C). count_ones (z w DISJOINT))
     = card {v. Q v}" (is ?S)
proof -
  let ?L = "nat (inword C)"
  obtain l where l: "?L = Suc l" using inword_words [OF C] by metis
  let ?z = "\<lambda>w. z w (dmask C w)"
  have mk: "z ?L (inmask C) = ?z ?L" "\<And>w. w < ?L \<Longrightarrow> z w DISJOINT = ?z w" by (simp_all add: dmask_def)
  have "(z ?L (inmask C) = 0 \<and> list_all (\<lambda>w. z w DISJOINT = 0) [1..<?L]) \<longleftrightarrow> (\<forall>u\<le>l. ?z (Suc u) = 0)"
  proof -
    have "list_all (\<lambda>w. z w DISJOINT = 0) [1..<?L] \<longleftrightarrow> (\<forall>u<l. ?z (Suc u) = 0)"
    proof -
      have "set [1..<?L] = Suc ` {..<l}" by (simp only: l set_upt lessThan_atLeast0 image_Suc_atLeastLessThan) simp
      then show ?thesis unfolding list_all_iff using mk(2) by (auto simp: l)
    qed
    moreover have "z ?L (inmask C) = ?z (Suc l)" using mk(1) l by simp
    ultimately show ?thesis by (auto simp: le_less)
  qed
  also have "\<dots> \<longleftrightarrow> (\<forall>u\<le>l. \<forall>v\<in>vword u. \<not> Q v)" using var_bits_zero [OF z] l by (simp add: less_Suc_eq_le)
  also have "\<dots> \<longleftrightarrow> (\<forall>v. \<not> Q v)"
  proof -
    have "\<exists>u\<le>l. v \<in> vword u" if "Q v" for v
      using binary_word_of [OF C(1) Q [OF that]] l by (auto simp: vword_word)
    then show ?thesis by blast
  qed
  finally show ?T .
  have "count_ones (z ?L (inmask C)) + (\<Sum>w = 1..<?L. count_ones (z w DISJOINT)) = (\<Sum>u\<le>l. count_ones (?z (Suc u)))"
  proof -
    have "(\<Sum>w = 1..<Suc l. count_ones (z w DISJOINT)) = (\<Sum>w = 1..<Suc l. count_ones (?z w))"
      by (rule sum.cong) (use mk(2) l in auto)
    also have "\<dots> = (\<Sum>u<l. count_ones (?z (Suc u)))"
      using sum.shift_bounds_Suc_ivl [of "\<lambda>w. count_ones (?z w)" 0 l] by (simp add: atLeast0LessThan)
    finally have *: "(\<Sum>w = 1..<Suc l. count_ones (z w DISJOINT)) = (\<Sum>u<l. count_ones (?z (Suc u)))" .
    have "{..l} = insert l {..<l}" by auto
    then show ?thesis using mk(1) unfolding l * by simp
  qed
  also have "\<dots> = (\<Sum>u\<le>l. card {v \<in> vword u. Q v})" using var_bits_count [OF z] l by (intro sum.cong) auto
  also have "\<dots> = card (\<Union>u\<le>l. {v \<in> vword u. Q v})"
    by (rule card_UN_disjoint [symmetric]) (auto simp: vword_def)
  also have "(\<Union>u\<le>l. {v \<in> vword u. Q v}) = {v. Q v}"
    using binary_word_of [OF C(1) Q] l by (auto simp: vword_word)
  finally show ?S .
qed

text \<open>The common shape of a test on a multiple-valued variable.\<close>

lemma mv_test:
  assumes C: "wf_cube C" and v: "v < num_vars C"
  shows "list_ex (\<lambda>w. f w AND var_mask C ! v ! w \<noteq> 0) (word_range C v) \<longleftrightarrow> (\<exists>e\<in>vparts C v. wbit f e)"
proof -
  note L = wf_cubeD(1) [OF C]
  let ?m = "var_mask C ! v" and ?lo = "first_part C ! v" and ?hi = "first_part C ! v + psz C v - 1"
  have p: "0 < psz C v" "?hi < cube_size C" using wf_layoutD(5) [OF L v] last_part_le [OF L v] by simp_all
  have r: "set (word_range C v) = {?lo div 32 + 1 .. ?hi div 32 + 1}"
    using wf_cube_words [OF C v] by (auto simp: word_range_def WHICH_WORD_eq)
  have mb: "wbit ((!) ?m) e \<longleftrightarrow> e \<in> vparts C v" if "e < 32 * LOOPINIT (cube_size C)" for e
    using wbit_cube(2) [of C ?m e] C v that by simp
  show ?thesis
  proof
    assume "list_ex (\<lambda>w. f w AND ?m ! w \<noteq> 0) (word_range C v)"
    then obtain w k where w: "w \<in> set (word_range C v)" "bit (f w) k" "bit (?m ! w) k" "k < 32"
      by (auto simp: list_ex_iff word_eq_0_iff bit_simps)
    have "1 \<le> w" "w \<le> LOOPINIT (cube_size C)"
      using w(1) word_index_bounds [OF cube_size_words [OF p(2)]] unfolding r by auto
    then have "32 * (w - 1) + k < 32 * LOOPINIT (cube_size C)" using w(4) by linarith
    moreover have "(32 * (w - 1) + k) div 32 + 1 = w" "(32 * (w - 1) + k) mod 32 = k"
      using w(4) \<open>1 \<le> w\<close> by auto
    ultimately show "\<exists>e\<in>vparts C v. wbit f e"
      using mb [of "32 * (w - 1) + k"] w(2,3) by (intro bexI [of _ "32 * (w - 1) + k"]) (simp_all add: wbit_def)
  next
    assume "\<exists>e\<in>vparts C v. wbit f e"
    then obtain e where e: "e \<in> vparts C v" "wbit f e" by blast
    have "?lo \<le> e" "e \<le> ?hi" using e(1) p(1) by (auto simp: vparts_def)
    then have "e div 32 + 1 \<in> set (word_range C v)" unfolding r by (simp add: div_le_mono)
    moreover have "wbit ((!) ?m) e" using mb [OF cube_size_words [OF vparts_less [OF L v e(1)]]] e(1) by simp
    then have "bit (f (e div 32 + 1) AND ?m ! (e div 32 + 1)) (e mod 32)"
      using e(2) by (simp add: wbit_def bit_simps)
    then have "f (e div 32 + 1) AND ?m ! (e div 32 + 1) \<noteq> 0" by auto
    ultimately show "list_ex (\<lambda>w. f w AND ?m ! w \<noteq> 0) (word_range C v)"
      unfolding list_ex_iff by blast
  qed
qed

section \<open>Distances\<close>

definition nulls :: "cube_struct \<Rightarrow> nat set \<Rightarrow> nat set" where
  "nulls C c = {v. v < num_vars C \<and> null_var C c v}"

definition actives :: "cube_struct \<Rightarrow> nat set \<Rightarrow> nat set" where
  "actives C c = {v. v < num_vars C \<and> \<not> vparts C v \<subseteq> c}"

lemma finite_nulls [simp, intro]: "finite (nulls C c)" and finite_actives [simp, intro]: "finite (actives C c)"
  by (simp_all add: nulls_def actives_def)

lemma null_cube_nulls: "null_cube C c \<longleftrightarrow> nulls C c \<noteq> {}"
  by (auto simp: null_cube_def nulls_def)

lemma binary_part_words:
  assumes "wf_cube C" "v < num_binary_vars C"
  shows "2 * v < 32 * LOOPINIT (cube_size C)" "Suc (2 * v) < 32 * LOOPINIT (cube_size C)"
    "vparts C v = {2 * v, Suc (2 * v)}" "v < num_vars C"
proof -
  note L = wf_cubeD(1) [OF assms(1)]
  show v: "v < num_vars C" using assms(2) wf_layoutD(2) [OF L] by simp
  show p: "vparts C v = {2 * v, Suc (2 * v)}" using binary_vparts [OF L assms(2)] by simp
  show "2 * v < 32 * LOOPINIT (cube_size C)" "Suc (2 * v) < 32 * LOOPINIT (cube_size C)"
    by (rule cube_size_words, rule vparts_less [OF L v], simp add: p)+
qed

lemma bin_null_cube:
  assumes "wf_cube C" "is_cube C a" "is_cube C b"
  shows "bin_null C (\<lambda>w. a ! w AND b ! w) v \<longleftrightarrow> v < num_binary_vars C \<and> null_var C (elems a \<inter> elems b) v"
  using binary_part_words [OF assms(1), of v] assms(2,3)
  by (cases "v < num_binary_vars C") (auto simp: bin_null_def null_var_def)

lemma bin_active_cube:
  assumes "wf_cube C" "is_cube C a"
  shows "bin_active C ((!) a) v \<longleftrightarrow> v < num_binary_vars C \<and> \<not> vparts C v \<subseteq> elems a"
    "is_cube C b \<Longrightarrow> bin_active C (\<lambda>w. a ! w OR b ! w) v \<longleftrightarrow> v < num_binary_vars C \<and> \<not> vparts C v \<subseteq> elems a \<union> elems b"
  using binary_part_words [OF assms(1), of v] assms(2)
  by (cases "v < num_binary_vars C"; auto simp: bin_active_def)+

lemma part_words:
  "wf_cube C \<Longrightarrow> v < num_vars C \<Longrightarrow> e \<in> vparts C v \<Longrightarrow> e < 32 * LOOPINIT (cube_size C)"
  by (rule cube_size_words, rule vparts_less [OF wf_cubeD(1)])

lemma mv_null_test:
  assumes C: "wf_cube C" "is_cube C a" "is_cube C b" and v: "v < num_vars C"
  shows "list_ex (\<lambda>w. a ! w AND b ! w AND var_mask C ! v ! w \<noteq> 0) (word_range C v)
    \<longleftrightarrow> \<not> null_var C (elems a \<inter> elems b) v"
proof -
  have "list_ex (\<lambda>w. (a ! w AND b ! w) AND var_mask C ! v ! w \<noteq> 0) (word_range C v)
      \<longleftrightarrow> (\<exists>e\<in>vparts C v. e \<in> elems a \<and> e \<in> elems b)"
    unfolding mv_test [OF C(1) v] using C(2,3) part_words [OF C(1) v] by auto
  then show ?thesis by (auto simp: null_var_def and.assoc)
qed

lemma mv_vars_less: "v \<in> set (mv_vars C) \<longleftrightarrow> num_binary_vars C \<le> v \<and> v < num_vars C"
  by (auto simp: mv_vars_def)

lemma set_mv_vars: "set (mv_vars C) = {num_binary_vars C..<num_vars C}"
  by (simp add: mv_vars_def)

text \<open>The binary and the multiple-valued part together.\<close>

lemma split_vars:
  assumes "wf_cube C"
  shows "card {v. v < num_vars C \<and> P v} =
      card {v. v < num_binary_vars C \<and> P v} + length (filter P (mv_vars C))"
proof -
  have "num_binary_vars C \<le> num_vars C" using wf_layoutD(2) [OF wf_cubeD(1) [OF assms]] .
  then have "{v. v < num_vars C \<and> P v} = {v. v < num_binary_vars C \<and> P v} \<union> set (filter P (mv_vars C))"
    by (auto simp: mv_vars_def)
  moreover have "card (set (filter P (mv_vars C))) = length (filter P (mv_vars C))"
    by (rule distinct_card) (simp add: mv_vars_def)
  moreover have "card ({v. v < num_binary_vars C \<and> P v} \<union> set (filter P (mv_vars C)))
      = card {v. v < num_binary_vars C \<and> P v} + card (set (filter P (mv_vars C)))"
    by (rule card_Un_disjoint) (auto simp: mv_vars_def)
  ultimately show ?thesis by simp
qed

lemma fold_count_ones:
  "fold (\<lambda>w d. let x = g w in if x \<noteq> 0 then d + count_ones x else d) ws d = d + sum_list (map (\<lambda>w. count_ones (g w)) ws)"
  by (induction ws arbitrary: d) (auto simp: Let_def)

lemma sum_list_upt: "sum_list (map f [i..<j]) = (\<Sum>w = i..<j. f w)" for f :: "nat \<Rightarrow> nat"
  by (simp add: interv_sum_list_conv_sum_set_nat)

lemma fold_count_miss:
  "fold (\<lambda>v d. if hit v then d else d + 1) vs d = d + length (filter (\<lambda>v. \<not> hit v) vs)"
  by (induction vs arbitrary: d) auto

text \<open>What the binary part of a distance comes to.\<close>

lemma binary_null_count:
  assumes C: "wf_cube C" "is_cube C a" "is_cube C b"
  shows "inword C \<noteq> - 1 \<Longrightarrow>
      count_ones (null_bits (a ! nat (inword C) AND b ! nat (inword C)) (inmask C))
      + (\<Sum>w = 1..<nat (inword C). count_ones (null_bits (a ! w AND b ! w) DISJOINT))
    = card {v. v < num_binary_vars C \<and> null_var C (elems a \<inter> elems b) v}"
    "inword C \<noteq> - 1 \<Longrightarrow>
      (null_bits (a ! nat (inword C) AND b ! nat (inword C)) (inmask C) = 0
       \<and> list_all (\<lambda>w. null_bits (a ! w AND b ! w) DISJOINT = 0) [1..<nat (inword C)])
    \<longleftrightarrow> (\<forall>v<num_binary_vars C. \<not> null_var C (elems a \<inter> elems b) v)"
    "inword C = - 1 \<Longrightarrow> {v. v < num_binary_vars C \<and> null_var C (elems a \<inter> elems b) v} = {}"
proof -
  have Q: "bin_null C (\<lambda>w. a ! w AND b ! w) v \<Longrightarrow> v < num_binary_vars C" for v by (simp add: bin_null_def)
  have n: "inword C \<noteq> - 1 \<Longrightarrow> num_binary_vars C \<noteq> 0" using inword_cases(1) [OF C(1)] by simp
  note test = binary_test [of C "\<lambda>w m. null_bits (a ! w AND b ! w) m", OF C(1) _ null_var_bits [OF C(1), where f = "\<lambda>w. a ! w AND b ! w"] Q]
  show "inword C \<noteq> - 1 \<Longrightarrow>
      count_ones (null_bits (a ! nat (inword C) AND b ! nat (inword C)) (inmask C))
      + (\<Sum>w = 1..<nat (inword C). count_ones (null_bits (a ! w AND b ! w) DISJOINT))
    = card {v. v < num_binary_vars C \<and> null_var C (elems a \<inter> elems b) v}"
    using test(2) n unfolding bin_null_cube [OF C] by blast
  show "inword C \<noteq> - 1 \<Longrightarrow>
      (null_bits (a ! nat (inword C) AND b ! nat (inword C)) (inmask C) = 0
       \<and> list_all (\<lambda>w. null_bits (a ! w AND b ! w) DISJOINT = 0) [1..<nat (inword C)])
    \<longleftrightarrow> (\<forall>v<num_binary_vars C. \<not> null_var C (elems a \<inter> elems b) v)"
    using test(1) n unfolding bin_null_cube [OF C] by blast
  show "inword C = - 1 \<Longrightarrow> {v. v < num_binary_vars C \<and> null_var C (elems a \<inter> elems b) v} = {}"
    using inword_cases(1) [OF C(1)] by simp
qed

lemma mv_miss_count:
  assumes "wf_cube C" "is_cube C a" "is_cube C b"
  shows "filter (\<lambda>v. \<not> list_ex (\<lambda>w. a ! w AND b ! w AND var_mask C ! v ! w \<noteq> 0) (word_range C v)) (mv_vars C)
    = filter (null_var C (elems a \<inter> elems b)) (mv_vars C)"
  by (rule filter_cong) (use mv_null_test [OF assms] mv_vars_less in auto)

lemma cdist_spec:
  assumes C: "wf_cube C" "is_cube C a" "is_cube C b"
  shows "cdist C a b = card (nulls C (elems a \<inter> elems b))"
proof -
  let ?n = "card {v. v < num_binary_vars C \<and> null_var C (elems a \<inter> elems b) v}"
  have if0: "(if x \<noteq> 0 then count_ones x else 0) = count_ones x" for x :: u32 by simp
  have "cdist C a b = ?n + length (filter (null_var C (elems a \<inter> elems b)) (mv_vars C))"
    using binary_null_count(1,3) [OF C]
    unfolding cdist_def Let_def fold_count_miss mv_miss_count [OF C] if0
      fold_count_ones [unfolded Let_def, where g = "\<lambda>w. null_bits (a ! w AND b ! w) DISJOINT"] sum_list_upt
    by auto
  then show ?thesis unfolding nulls_def split_vars [OF C(1)] by simp
qed

lemma cdist0_spec:
  assumes C: "wf_cube C" "is_cube C a" "is_cube C b"
  shows "cdist0 C a b \<longleftrightarrow> nulls C (elems a \<inter> elems b) = {}"
proof -
  have "list_all (\<lambda>v. list_ex (\<lambda>w. a ! w AND b ! w AND var_mask C ! v ! w \<noteq> 0) (word_range C v)) (mv_vars C)
      \<longleftrightarrow> (\<forall>v. num_binary_vars C \<le> v \<and> v < num_vars C \<longrightarrow> \<not> null_var C (elems a \<inter> elems b) v)"
    using mv_null_test [OF C] by (auto simp: list_all_iff mv_vars_less)
  moreover have "(if inword C \<noteq> - 1 then
         let last = nat (inword C) in
         null_bits (a ! last AND b ! last) (inmask C) = 0
         \<and> list_all (\<lambda>w. null_bits (a ! w AND b ! w) DISJOINT = 0) [1..<last]
       else True) \<longleftrightarrow> (\<forall>v<num_binary_vars C. \<not> null_var C (elems a \<inter> elems b) v)"
    using binary_null_count(2,3) [OF C] unfolding Let_def by auto
  moreover have "nulls C (elems a \<inter> elems b) = {} \<longleftrightarrow> (\<forall>v<num_binary_vars C. \<not> null_var C (elems a \<inter> elems b) v)
      \<and> (\<forall>v. num_binary_vars C \<le> v \<and> v < num_vars C \<longrightarrow> \<not> null_var C (elems a \<inter> elems b) v)"
    using wf_layoutD(2) [OF wf_cubeD(1) [OF C(1)]] unfolding nulls_def
    by (auto; meson leI less_le_trans)
  ultimately show ?thesis unfolding cdist0_def by (simp only:)
qed

lemma cdist01_words_eq:
  "d \<le> 1 \<Longrightarrow> cdist01_words a b ws d =
    (let s = d + sum_list (map (\<lambda>w. count_ones (null_bits (a ! w AND b ! w) DISJOINT)) ws)
     in if s > 1 then None else Some s)"
proof (induction ws arbitrary: d)
  case (Cons w ws)
  let ?x = "null_bits (a ! w AND b ! w) DISJOINT"
  have "?x \<noteq> 0 \<Longrightarrow> count_ones ?x \<noteq> 0"
    by (auto simp: count_ones_card word_eq_0_iff)
  then show ?case using Cons by (auto simp: Let_def)
qed simp

lemma cdist01_vars_eq:
  "d \<le> 1 \<Longrightarrow> cdist01_vars C a b vs d =
    (let s = d + length (filter (\<lambda>v. \<not> list_ex (\<lambda>w. a ! w AND b ! w AND var_mask C ! v ! w \<noteq> 0) (word_range C v)) vs)
     in if s > 1 then None else Some s)"
  by (induction vs arbitrary: d) (auto simp: Let_def)

lemma cdist01_spec:
  assumes C: "wf_cube C" "is_cube C a" "is_cube C b"
  shows "cdist01 C a b = min 2 (card (nulls C (elems a \<inter> elems b)))"
proof -
  let ?n = "card {v. v < num_binary_vars C \<and> null_var C (elems a \<inter> elems b) v}"
  let ?m = "length (filter (null_var C (elems a \<inter> elems b)) (mv_vars C))"
  let ?x = "null_bits (a ! nat (inword C) AND b ! nat (inword C)) (inmask C)"
  have "(if inword C \<noteq> -1 then
                   let last = nat (inword C);
                       x = null_bits (a ! last AND b ! last) (inmask C)
                   in if x \<noteq> 0
                      then (if count_ones x > 1 then None
                            else cdist01_words a b [1..<last] (count_ones x))
                      else cdist01_words a b [1..<last] 0
                 else Some 0) = (if ?n > 1 then None else Some ?n)"
  proof (cases "inword C = - 1")
    case False
    have "(if ?x \<noteq> 0 then (if count_ones ?x > 1 then None
              else cdist01_words a b [1..<nat (inword C)] (count_ones ?x))
            else cdist01_words a b [1..<nat (inword C)] 0)
        = (if count_ones ?x > 1 then None else cdist01_words a b [1..<nat (inword C)] (count_ones ?x))"
      by (cases "?x = 0") simp_all
    then show ?thesis
      using False binary_null_count(1) [OF C False]
      by (simp add: Let_def cdist01_words_eq sum_list_upt)
  qed (simp add: binary_null_count(3) [OF C])
  then have "cdist01 C a b = (if ?n + ?m > 1 then 2 else ?n + ?m)"
    unfolding cdist01_def by (simp add: Let_def cdist01_vars_eq mv_miss_count [OF C])
  then show ?thesis unfolding nulls_def split_vars [OF C(1)] by simp
qed

section \<open>Forced lowering and consensus\<close>

lemma fold_or_words:
  fixes g :: "nat \<Rightarrow> u32"
  assumes "\<forall>w\<in>set ws. 1 \<le> w \<and> w < length r"
  defines "r' \<equiv> fold (\<lambda>w r. r[w := r ! w OR g w]) ws r"
  shows "length r' = length r" "r' ! 0 = r ! 0" "LOOP r' = LOOP r"
    "elems r' = elems r \<union> {e. e < 32 * LOOP r \<and> e div 32 + 1 \<in> set ws \<and> wbit g e}"
proof -
  have "length r' = length r \<and> r' ! 0 = r ! 0 \<and> LOOP r' = LOOP r \<and>
      elems r' = elems r \<union> {e. e < 32 * LOOP r \<and> e div 32 + 1 \<in> set ws \<and> wbit g e}"
    using assms(1) unfolding r'_def
  proof (induction ws arbitrary: r)
    case (Cons w ws)
    let ?r = "r[w := r ! w OR g w]"
    have w: "1 \<le> w" "w < length r" using Cons.prems by simp_all
    have hd: "?r ! 0 = r ! 0" "LOOP ?r = LOOP r" using w by (simp_all add: LOOP_eq)
    have "elems ?r = elems r \<union> {e. e < 32 * LOOP r \<and> e div 32 + 1 = w \<and> wbit g e}"
      using w hd(2) by (auto simp: elems_iff wbit_def nth_list_update bit_simps split: if_splits)
    then show ?case using Cons.IH [of ?r] Cons.prems hd by auto
  qed simp
  then show "length r' = length r" "r' ! 0 = r ! 0" "LOOP r' = LOOP r"
    "elems r' = elems r \<union> {e. e < 32 * LOOP r \<and> e div 32 + 1 \<in> set ws \<and> wbit g e}" by blast+
qed

lemma fold_set_words:
  fixes g :: "nat \<Rightarrow> u32"
  assumes "\<forall>w\<in>set ws. 1 \<le> w \<and> w < length r"
  defines "r' \<equiv> fold (\<lambda>w r. r[w := g w]) ws r"
  shows "length r' = length r" "r' ! 0 = r ! 0" "LOOP r' = LOOP r"
    "elems r' = {e. e < 32 * LOOP r \<and> (if e div 32 + 1 \<in> set ws then wbit g e else e \<in> elems r)}"
proof -
  have "length r' = length r \<and> r' ! 0 = r ! 0 \<and> LOOP r' = LOOP r \<and>
      elems r' = {e. e < 32 * LOOP r \<and> (if e div 32 + 1 \<in> set ws then wbit g e else e \<in> elems r)}"
    using assms(1) unfolding r'_def
  proof (induction ws arbitrary: r)
    case Nil
    then show ?case by (auto simp: elems_iff)
  next
    case (Cons w ws)
    let ?r = "r[w := g w]"
    have w: "1 \<le> w" "w < length r" using Cons.prems by simp_all
    have hd: "?r ! 0 = r ! 0" "LOOP ?r = LOOP r" using w by (simp_all add: LOOP_eq)
    have "elems ?r = {e. e < 32 * LOOP r \<and> (if e div 32 + 1 = w then wbit g e else e \<in> elems r)}"
      using w hd(2) by (auto simp: elems_iff wbit_def nth_list_update bit_simps)
    then show ?case using Cons.IH [of ?r] Cons.prems hd by auto
  qed
  then show "length r' = length r" "r' ! 0 = r ! 0" "LOOP r' = LOOP r"
    "elems r' = {e. e < 32 * LOOP r \<and> (if e div 32 + 1 \<in> set ws then wbit g e else e \<in> elems r)}" by blast+
qed

text \<open>The spread mask words, read as a set of parts.\<close>

lemma spread_wbit:
  assumes "\<And>u. Suc u \<le> L \<Longrightarrow> var_bits u (z (Suc u)) Q" "e div 32 + 1 \<le> L"
  shows "wbit (\<lambda>w. z w OR push_bit 1 (z w)) e \<longleftrightarrow> Q (e div 2)"
proof -
  let ?u = "e div 32" and ?j = "e mod 32 div 2"
  have j: "?j < 16" by (simp add: less_mult_imp_div_less)
  have u: "var_bits ?u (z (Suc ?u)) Q" using assms by simp
  have q: "16 * ?u + ?j = e div 2"
    using mult_div_mod_eq [of 32 e] by linarith
  have "e mod 32 = 2 * ?j \<or> e mod 32 = Suc (2 * ?j)" by linarith
  then show ?thesis
    using var_bits_spread [OF u j] unfolding wbit_def q by (simp del: push_bit_Suc) metis
qed

lemma lower_word_eq: "lower_word a b m w r =
    r[w := r ! w OR ((null_bits (a ! w AND b ! w) m OR push_bit 1 (null_bits (a ! w AND b ! w) m)) AND a ! w)]"
  unfolding lower_word_def Let_def by (simp del: push_bit_Suc)

lemma consensus_word_eq: "w < length r \<Longrightarrow> consensus_word a b m w r =
    r[w := (a ! w AND b ! w) OR
      ((null_bits (a ! w AND b ! w) m OR push_bit 1 (null_bits (a ! w AND b ! w) m)) AND (a ! w OR b ! w))]"
  unfolding consensus_word_def Let_def by (simp del: push_bit_Suc)

text \<open>The words of the binary part, in the order of the code, and their elements.\<close>

lemma inword_range:
  assumes C: "wf_cube C" "inword C \<noteq> - 1"
  defines "ws \<equiv> nat (inword C) # [1..<nat (inword C)]"
  shows "set ws = {1..nat (inword C)}" "num_binary_vars C \<noteq> 0" "nat (inword C) \<le> LOOPINIT (cube_size C)"
    "v < num_binary_vars C \<Longrightarrow> e \<in> vparts C v \<Longrightarrow> e div 32 + 1 \<in> set ws \<and> e div 2 = v"
proof -
  show n: "num_binary_vars C \<noteq> 0" using inword_cases(1) [OF C(1)] C(2) by simp
  obtain l where l: "nat (inword C) = Suc l" "Suc l \<le> LOOPINIT (cube_size C)" using inword_words [OF C(1) n] by metis
  show s: "set ws = {1..nat (inword C)}" unfolding ws_def l by auto
  show "nat (inword C) \<le> LOOPINIT (cube_size C)" using l by simp
  assume v: "v < num_binary_vars C" "e \<in> vparts C v"
  then have "e = 2 * v \<or> e = Suc (2 * v)" using binary_part_words(3) [OF C(1) v(1)] by simp
  then have e: "e div 2 = v" by auto
  then have "e div 32 = v div 16" by (metis div_mult2_eq mult_2 numeral_Bit0 mult_numeral_1_right semiring_norm(12,13))
  then show "e div 32 + 1 \<in> set ws \<and> e div 2 = v" using binary_word_of [OF C(1) v(1)] e unfolding s by simp
qed

lemma dmask_words:
  assumes "w \<in> set [1..<nat (inword C)]"
  shows "dmask C w = DISJOINT"
  using assms by (auto simp: dmask_def)

lemma fold_dmask:
  assumes "\<And>w r. w \<in> set (L # ws) \<Longrightarrow> length r = n \<Longrightarrow> step (dmask C w) w r = r[w := G w (r ! w)]"
    and "dmask C L = m" "\<And>w. w \<in> set ws \<Longrightarrow> dmask C w = d" "length r = n"
  shows "fold (step d) ws (step m L r) = fold (\<lambda>w r. r[w := G w (r ! w)]) (L # ws) r"
proof -
  have "fold (step d) vs r = fold (\<lambda>w r. r[w := G w (r ! w)]) vs r"
    if "length r = n" "set vs \<subseteq> set ws" for vs r
    using that
  proof (induction vs arbitrary: r)
    case (Cons w vs)
    have "w \<in> set ws" using Cons.prems(2) by simp
    then have "step d w r = r[w := G w (r ! w)]"
      using assms(1) [of w r] assms(3) [of w] Cons.prems(1) by simp
    then show ?case using Cons.IH [of "r[w := G w (r ! w)]"] Cons.prems by simp
  qed simp
  from this [of "step m L r" ws] show ?thesis using assms(1) [of L r] assms(2,4) by simp
qed

text \<open>What the binary part adds for the variables that are null in the intersection.\<close>

definition null_parts :: "cube_struct \<Rightarrow> nat set \<Rightarrow> nat set" where
  "null_parts C c = (\<Union>v\<in>nulls C c. vparts C v)"

lemma spread_null:
  assumes C: "wf_cube C" "is_cube C a" "is_cube C b" and iw: "inword C \<noteq> - 1"
    and e: "e div 32 + 1 \<le> nat (inword C)"
  defines "z \<equiv> \<lambda>w. null_bits (a ! w AND b ! w) (dmask C w)"
  shows "wbit (\<lambda>w. z w OR push_bit 1 (z w)) e \<longleftrightarrow>
    (\<exists>v<num_binary_vars C. e \<in> vparts C v \<and> null_var C (elems a \<inter> elems b) v)"
proof -
  note n = inword_range(2) [OF C(1) iw]
  have "wbit (\<lambda>w. z w OR push_bit 1 (z w)) e \<longleftrightarrow> bin_null C (\<lambda>w. a ! w AND b ! w) (e div 2)"
    unfolding z_def by (rule spread_wbit [OF null_var_bits [OF C(1) n] e])
  also have "\<dots> \<longleftrightarrow> (\<exists>v<num_binary_vars C. e \<in> vparts C v \<and> null_var C (elems a \<inter> elems b) v)"
  proof -
    have "e \<in> vparts C v \<longleftrightarrow> e div 2 = v" if "v < num_binary_vars C" for v
      unfolding binary_part_words(3) [OF C(1) that] by auto
    then show ?thesis unfolding bin_null_cube [OF C] by blast
  qed
  finally show ?thesis .
qed

lemma force_lower_bin:
  assumes C: "wf_cube C" "is_cube C a" "is_cube C b" "is_cube C x"
  defines "r \<equiv> (if inword C \<noteq> -1 then
                      let last = nat (inword C);
                          xlower = lower_word a b (inmask C) last x
                      in fold (lower_word a b DISJOINT) [1..<last] xlower
                    else x)"
  shows "is_cube C r" "r ! 0 = x ! 0"
    "elems r = elems x \<union> {e \<in> elems a. \<exists>v<num_binary_vars C. e \<in> vparts C v \<and> null_var C (elems a \<inter> elems b) v}"
proof -
  let ?A = "{e \<in> elems a. \<exists>v<num_binary_vars C. e \<in> vparts C v \<and> null_var C (elems a \<inter> elems b) v}"
  have "is_cube C r \<and> r ! 0 = x ! 0 \<and> elems r = elems x \<union> ?A"
  proof (cases "inword C = - 1")
    case True
    then have "num_binary_vars C = 0" using inword_cases(1) [OF C(1)] by simp
    with True C show ?thesis by (simp add: r_def)
  next
    case False
    let ?L = "nat (inword C)" and ?ws = "nat (inword C) # [1..<nat (inword C)]"
    let ?z = "\<lambda>w. null_bits (a ! w AND b ! w) (dmask C w)"
    let ?g = "\<lambda>w. (?z w OR push_bit 1 (?z w)) AND a ! w"
    note W = inword_range [OF C(1) False]
    have r: "r = fold (\<lambda>w r. r[w := r ! w OR ?g w]) ?ws x"
      unfolding r_def Let_def using False
      by (simp only: if_True simp_thms)
        (rule fold_dmask [where n = "length x"], auto simp: lower_word_eq dmask_def simp del: push_bit_Suc)
    have len: "\<forall>w\<in>set ?ws. 1 \<le> w \<and> w < length x"
      using W(1,3) wf_length [OF C(4)] by (auto simp: SET_SIZE_eq)
    note F = fold_or_words [OF len, where g = ?g, folded r]
    have "{e. e < 32 * LOOP x \<and> e div 32 + 1 \<in> set ?ws \<and> wbit ?g e} = ?A"
    proof (intro set_eqI iffI)
      fix e assume e: "e \<in> {e. e < 32 * LOOP x \<and> e div 32 + 1 \<in> set ?ws \<and> wbit ?g e}"
      then have "e div 32 + 1 \<le> ?L" unfolding W(1) by simp
      from spread_null [OF C(1-3) False this] e wbit_cube(2) [OF C(2), of e] show "e \<in> ?A"
        by (simp only: wbit_simps mem_Collect_eq wf_LOOP [OF C(4)])
    next
      fix e assume e: "e \<in> ?A"
      then obtain v where v: "v < num_binary_vars C" "e \<in> vparts C v" by blast
      then have w: "e div 32 + 1 \<in> set ?ws" using W(4) by blast
      then have "e div 32 + 1 \<le> ?L" unfolding W(1) by simp
      from spread_null [OF C(1-3) False this] e w wbit_cube(2) [OF C(2), of e] wf_elem_words [OF C(2), of e]
      show "e \<in> {e. e < 32 * LOOP x \<and> e div 32 + 1 \<in> set ?ws \<and> wbit ?g e}"
        by (simp only: wbit_simps mem_Collect_eq wf_LOOP [OF C(4)])
    qed
    then have E: "elems r = elems x \<union> ?A" using F(4) by simp
    moreover have "is_cube C r"
      using F(1,3) E C(2,4) wf_elems [OF C(2)] wf_elems [OF C(4)] unfolding wf_set_def by auto
    ultimately show ?thesis using F(2) by blast
  qed
  then show "is_cube C r" "r ! 0 = x ! 0" "elems r = elems x \<union> ?A" by blast+
qed

lemma word_range_words:
  assumes "wf_cube C" "v < num_vars C"
  shows "w \<in> set (word_range C v) \<Longrightarrow> 1 \<le> w \<and> w \<le> LOOPINIT (cube_size C)"
    "e \<in> vparts C v \<Longrightarrow> e div 32 + 1 \<in> set (word_range C v)"
proof -
  note L = wf_cubeD(1) [OF assms(1)]
  let ?lo = "first_part C ! v" and ?hi = "first_part C ! v + psz C v - 1"
  have p: "0 < psz C v" "?hi < cube_size C" using wf_layoutD(5) [OF L assms(2)] last_part_le [OF L assms(2)] by simp_all
  have r: "set (word_range C v) = {?lo div 32 + 1 .. ?hi div 32 + 1}"
    using wf_cube_words [OF assms] by (auto simp: word_range_def WHICH_WORD_eq)
  show "w \<in> set (word_range C v) \<Longrightarrow> 1 \<le> w \<and> w \<le> LOOPINIT (cube_size C)"
    using word_index_bounds [OF cube_size_words [OF p(2)]] unfolding r by auto
  assume "e \<in> vparts C v"
  then have "?lo \<le> e" "e \<le> ?hi" using p(1) by (auto simp: vparts_def)
  then show "e div 32 + 1 \<in> set (word_range C v)" unfolding r by (simp add: div_le_mono)
qed

text \<open>OR-ing words under a variable mask adds parts of that variable only.\<close>

lemma or_masked_words:
  assumes C: "wf_cube C" and v: "v < num_vars C" and r: "is_cube C r"
    and g: "\<And>w. g w = (f w AND var_mask C ! v ! w)"
  defines "r' \<equiv> fold (\<lambda>w r. r[w := r ! w OR g w]) (word_range C v) r"
  shows "is_cube C r'" "r' ! 0 = r ! 0" "elems r' = elems r \<union> {e \<in> vparts C v. wbit f e}"
proof -
  have len: "\<forall>w\<in>set (word_range C v). 1 \<le> w \<and> w < length r"
    using word_range_words(1) [OF C v] wf_length [OF r] by (simp add: SET_SIZE_eq less_Suc_eq_le)
  note F = fold_or_words [OF len, where g = g, folded r'_def]
  have m: "wbit ((!) (var_mask C ! v)) e \<longleftrightarrow> e \<in> vparts C v" if "e < 32 * LOOPINIT (cube_size C)" for e
    using wbit_cube(2) [of C "var_mask C ! v" e] C v that by simp
  have "{e. e < 32 * LOOP r \<and> e div 32 + 1 \<in> set (word_range C v) \<and> wbit g e} = {e \<in> vparts C v. wbit f e}"
    unfolding wf_LOOP [OF r]
  proof (intro set_eqI iffI)
    fix e assume e: "e \<in> {e. e < 32 * LOOPINIT (cube_size C) \<and> e div 32 + 1 \<in> set (word_range C v) \<and> wbit g e}"
    then show "e \<in> {e \<in> vparts C v. wbit f e}" using m [of e] by (simp add: wbit_def g bit_simps)
  next
    fix e assume e: "e \<in> {e \<in> vparts C v. wbit f e}"
    then show "e \<in> {e. e < 32 * LOOPINIT (cube_size C) \<and> e div 32 + 1 \<in> set (word_range C v) \<and> wbit g e}"
      using part_words [OF C v, of e] word_range_words(2) [OF C v, of e] m [of e] by (simp add: wbit_def g bit_simps)
  qed
  then show E: "elems r' = elems r \<union> {e \<in> vparts C v. wbit f e}" using F(4) by simp
  show "r' ! 0 = r ! 0" using F(2) .
  show "is_cube C r'"
    using F(1,3) E r vparts_less [OF wf_cubeD(1) [OF C] v] unfolding wf_set_def by auto
qed

lemma force_lower_spec:
  assumes C: "wf_cube C" "is_cube C a" "is_cube C b" "is_cube C x"
  shows "is_cube C (force_lower C x a b)" "force_lower C x a b ! 0 = x ! 0"
    "elems (force_lower C x a b) = elems x \<union> (elems a \<inter> null_parts C (elems a \<inter> elems b))"
proof -
  let ?I = "elems a \<inter> elems b"
  let ?step = "\<lambda>var xlower.
             if list_ex (\<lambda>w. a ! w AND b ! w AND var_mask C ! var ! w \<noteq> 0) (word_range C var)
             then xlower
             else fold (\<lambda>w xlower. xlower[w := xlower ! w OR (a ! w AND var_mask C ! var ! w)])
                    (word_range C var) xlower"
  have step: "is_cube C (fold ?step vs r) \<and> fold ?step vs r ! 0 = r ! 0 \<and>
      elems (fold ?step vs r) = elems r \<union> {e \<in> elems a. \<exists>v\<in>set vs. e \<in> vparts C v \<and> null_var C ?I v}"
    if "is_cube C r" "\<forall>v\<in>set vs. v < num_vars C" for vs r
    using that
  proof (induction vs arbitrary: r)
    case (Cons v vs)
    have v: "v < num_vars C" using Cons.prems by simp
    have "is_cube C (?step v r) \<and> ?step v r ! 0 = r ! 0 \<and>
        elems (?step v r) = elems r \<union> {e \<in> elems a. e \<in> vparts C v \<and> null_var C ?I v}"
    proof (cases "null_var C ?I v")
      case True
      have "{e \<in> vparts C v. wbit ((!) a) e} = {e \<in> elems a. e \<in> vparts C v}"
        using wbit_cube(2) [OF C(2)] part_words [OF C(1) v] by auto
      then show ?thesis
        using True mv_null_test [OF C(1-3) v] or_masked_words [OF C(1) v Cons.prems(1), of _ "(!) a"] by auto
    next
      case False
      then show ?thesis using mv_null_test [OF C(1-3) v] Cons.prems(1) by auto
    qed
    then show ?case using Cons.IH [of "?step v r"] Cons.prems(2) by auto
  qed auto
  note B = force_lower_bin [OF C]
  have "force_lower C x a b = fold ?step (mv_vars C) (if inword C \<noteq> -1 then
                      let last = nat (inword C);
                          xlower = lower_word a b (inmask C) last x
                      in fold (lower_word a b DISJOINT) [1..<last] xlower
                    else x)"
    by (simp add: force_lower_def Let_def)
  moreover have "\<forall>v\<in>set (mv_vars C). v < num_vars C" by (simp add: mv_vars_less)
  note S = step [OF B(1) this]
  moreover have "{e \<in> elems a. \<exists>v<num_binary_vars C. e \<in> vparts C v \<and> null_var C ?I v}
      \<union> {e \<in> elems a. \<exists>v\<in>set (mv_vars C). e \<in> vparts C v \<and> null_var C ?I v} = elems a \<inter> null_parts C ?I"
    using wf_layoutD(2) [OF wf_cubeD(1) [OF C(1)]] unfolding null_parts_def nulls_def set_mv_vars
    by (auto; meson not_less less_le_trans atLeastLessThan_iff)
  ultimately show "is_cube C (force_lower C x a b)" "force_lower C x a b ! 0 = x ! 0"
    "elems (force_lower C x a b) = elems x \<union> (elems a \<inter> null_parts C ?I)"
    using B by (simp_all add: Un_assoc)
qed

lemma consensus_bin:
  assumes C: "wf_cube C" "is_cube C a" "is_cube C b" and x: "is_cube C x" "elems x = {}"
  defines "r \<equiv> (if inword C \<noteq> -1 then
                 let last = nat (inword C);
                     r = consensus_word a b (inmask C) last x
                 in fold (consensus_word a b DISJOINT) [1..<last] r
               else x)"
  defines "low \<equiv> (\<Union>v<num_binary_vars C. vparts C v)"
  shows "is_cube C r" "r ! 0 = x ! 0" "elems r \<subseteq> (elems a \<inter> elems b) \<union> (elems a \<union> elems b) \<inter> null_parts C (elems a \<inter> elems b)"
    "elems r \<inter> low = (elems a \<inter> elems b \<inter> low) \<union> ((elems a \<union> elems b) \<inter> (null_parts C (elems a \<inter> elems b) \<inter> low))"
proof -
  let ?I = "elems a \<inter> elems b" and ?U = "elems a \<union> elems b"
  let ?B = "{e. \<exists>v<num_binary_vars C. e \<in> vparts C v \<and> null_var C ?I v}"
  note L = wf_cubeD(1) [OF C(1)]
  have B: "null_parts C ?I \<inter> low = ?B"
  proof (intro set_eqI iffI)
    fix e assume "e \<in> null_parts C ?I \<inter> low"
    then obtain u v where "u < num_vars C" "null_var C ?I u" "e \<in> vparts C u" "v < num_binary_vars C" "e \<in> vparts C v"
      unfolding null_parts_def nulls_def low_def by auto
    moreover from this have "u = v" using vparts_disjoint [OF L] wf_layoutD(2) [OF L] by (meson less_le_trans)
    ultimately show "e \<in> ?B" by blast
  next
    fix e assume "e \<in> ?B"
    then show "e \<in> null_parts C ?I \<inter> low"
      unfolding null_parts_def nulls_def low_def using wf_layoutD(2) [OF L] by auto (meson less_le_trans)
  qed
  have "is_cube C r \<and> r ! 0 = x ! 0 \<and> elems r \<subseteq> ?I \<union> ?U \<inter> null_parts C ?I \<and> elems r \<inter> low = (?I \<inter> low) \<union> (?U \<inter> ?B)"
  proof (cases "inword C = - 1")
    case True
    then have "num_binary_vars C = 0" using inword_cases(1) [OF C(1)] by simp
    with True x show ?thesis by (simp add: r_def low_def)
  next
    case False
    let ?L = "nat (inword C)" and ?ws = "nat (inword C) # [1..<nat (inword C)]"
    let ?z = "\<lambda>w. null_bits (a ! w AND b ! w) (dmask C w)"
    let ?g = "\<lambda>w. (a ! w AND b ! w) OR ((?z w OR push_bit 1 (?z w)) AND (a ! w OR b ! w))"
    note W = inword_range [OF C(1) False]
    have len: "\<forall>w\<in>set ?ws. 1 \<le> w \<and> w < length x"
      using W(1,3) wf_length [OF x(1)] by (auto simp: SET_SIZE_eq)
    have r: "r = fold (\<lambda>w r. r[w := ?g w]) ?ws x"
      unfolding r_def Let_def using False len
      by (simp only: if_True simp_thms)
        (rule fold_dmask [where n = "length x" and G = "\<lambda>w _. ?g w"],
          auto simp: consensus_word_eq dmask_def simp del: push_bit_Suc)
    note F = fold_set_words [OF len, where g = ?g, folded r]
    have g: "wbit ?g e \<longleftrightarrow> e \<in> ?I \<or> e \<in> ?U \<and> e \<in> ?B"
      if "e < 32 * LOOPINIT (cube_size C)" "e div 32 + 1 \<in> set ?ws" for e
    proof -
      have "e div 32 + 1 \<le> ?L" using that(2) unfolding W(1) by simp
      from spread_null [OF C(1-3) False this] show ?thesis
        using wbit_cube(2) [OF C(2) that(1)] wbit_cube(2) [OF C(3) that(1)]
        by (simp only: wbit_simps mem_Collect_eq) blast
    qed
    have E: "elems r = {e. e < 32 * LOOPINIT (cube_size C) \<and> e div 32 + 1 \<in> set ?ws \<and> (e \<in> ?I \<or> e \<in> ?U \<and> e \<in> ?B)}"
      using F(4) g x(2) unfolding wf_LOOP [OF x(1)] by auto
    have sub: "elems r \<subseteq> ?I \<union> ?U \<inter> null_parts C ?I" unfolding E using B by auto
    have "e < 32 * LOOPINIT (cube_size C) \<and> e div 32 + 1 \<in> set ?ws" if "e \<in> low" for e
    proof -
      obtain v where v: "v < num_binary_vars C" "e \<in> vparts C v" using \<open>e \<in> low\<close> unfolding low_def by blast
      then have "v < num_vars C" using wf_layoutD(2) [OF L] by simp
      then show ?thesis using W(4) [OF v] part_words [OF C(1) _ v(2)] by blast
    qed
    moreover have "?B \<subseteq> low" unfolding low_def by blast
    ultimately have "elems r \<inter> low = (?I \<inter> low) \<union> (?U \<inter> ?B)" unfolding E by blast
    moreover have "is_cube C r"
      using F(1,3) sub x(1) wf_elem_less [OF C(2)] wf_elem_less [OF C(3)] unfolding wf_set_def by auto
    ultimately show ?thesis using F(2) sub by blast
  qed
  then show "is_cube C r" "r ! 0 = x ! 0" "elems r \<subseteq> ?I \<union> ?U \<inter> null_parts C ?I"
    "elems r \<inter> low = (?I \<inter> low) \<union> (?U \<inter> (null_parts C ?I \<inter> low))" unfolding B by blast+
qed

lemma consensus_inner:
  "fold (\<lambda>w (r, empty). let x = f w in if x \<noteq> 0 then (r[w := r ! w OR x], False) else (r, empty)) ws (r, e0)
   = (fold (\<lambda>w r. r[w := r ! w OR f w]) ws r, e0 \<and> \<not> list_ex (\<lambda>w. f w \<noteq> 0) ws)" for f :: "nat \<Rightarrow> u32"
  by (induction ws arbitrary: r e0) (auto simp: Let_def)

lemma consensus_spec:
  assumes C: "wf_cube C" "is_cube C a" "is_cube C b" and len: "length r = SET_SIZE (cube_size C)"
  shows "is_cube C (consensus C r a b)"
    "elems (consensus C r a b) =
       (elems a \<inter> elems b) \<union> ((elems a \<union> elems b) \<inter> null_parts C (elems a \<inter> elems b))"
    "consensus C r a b ! 0 = word_of_nat (LOOPINIT (cube_size C))"
proof -
  let ?I = "elems a \<inter> elems b" and ?U = "elems a \<union> elems b"
  note L = wf_cubeD(1) [OF C(1)]
  let ?x = "set_clear r (cube_size C)"
  have x: "is_cube C ?x" "elems ?x = {}" "?x ! 0 = word_of_nat (LOOPINIT (cube_size C))"
    using set_clear_spec [OF len] wf_layoutD(3) [OF L] by simp_all
  let ?r = "(if inword C \<noteq> -1 then
                 let last = nat (inword C);
                     r = consensus_word a b (inmask C) last ?x
                 in fold (consensus_word a b DISJOINT) [1..<last] r
               else ?x)"
  let ?step = "\<lambda>var r.
             let msk = var_mask C ! var;
                 (r, empty) = fold (\<lambda>w (r, empty).
                     let x = a ! w AND b ! w AND msk ! w
                     in if x \<noteq> 0 then (r[w := r ! w OR x], False) else (r, empty))
                   (word_range C var) (r, True)
             in if empty
                then fold (\<lambda>w r. r[w := r ! w OR (msk ! w AND (a ! w OR b ! w))]) (word_range C var) r
                else r"
  have run: "consensus C r a b = fold ?step (mv_vars C) ?r" by (simp add: consensus_def Let_def)
  have step: "is_cube C (?step v q) \<and> ?step v q ! 0 = q ! 0 \<and>
      elems (?step v q) = elems q \<union> ((if null_var C ?I v then ?U else ?I) \<inter> vparts C v)"
    if q: "is_cube C q" and v: "v < num_vars C" for q v
  proof -
    let ?q1 = "fold (\<lambda>w r. r[w := r ! w OR (a ! w AND b ! w AND var_mask C ! v ! w)]) (word_range C v) q"
    let ?q2 = "fold (\<lambda>w r. r[w := r ! w OR (var_mask C ! v ! w AND (a ! w OR b ! w))]) (word_range C v) ?q1"
    have eq: "?step v q = (if null_var C ?I v then ?q2 else ?q1)"
      using mv_null_test [OF C v] by (simp add: consensus_inner [unfolded Let_def] Let_def)
    have wI: "{e \<in> vparts C v. wbit (\<lambda>w. a ! w AND b ! w) e} = ?I \<inter> vparts C v"
      and wU: "{e \<in> vparts C v. wbit (\<lambda>w. a ! w OR b ! w) e} = ?U \<inter> vparts C v"
      using wbit_cube(2) [OF C(2)] wbit_cube(2) [OF C(3)] part_words [OF C(1) v] by auto
    note q1 = or_masked_words [OF C(1) v q, of "\<lambda>w. a ! w AND b ! w AND var_mask C ! v ! w" "\<lambda>w. a ! w AND b ! w", unfolded wI]
    have q1: "is_cube C ?q1" "?q1 ! 0 = q ! 0" "elems ?q1 = elems q \<union> ?I \<inter> vparts C v"
      using q1 by (simp_all add: and.assoc)
    have q2: "is_cube C ?q2" "?q2 ! 0 = ?q1 ! 0" "elems ?q2 = elems ?q1 \<union> ?U \<inter> vparts C v"
      using or_masked_words [OF C(1) v q1(1), of "\<lambda>w. var_mask C ! v ! w AND (a ! w OR b ! w)" "\<lambda>w. a ! w OR b ! w", unfolded wU]
      by (simp_all add: and.commute)
    show ?thesis unfolding eq using q1 q2 by auto
  qed
  have loop: "is_cube C (fold ?step vs q) \<and> fold ?step vs q ! 0 = q ! 0 \<and>
      elems (fold ?step vs q) = elems q \<union> (\<Union>v\<in>set vs. (if null_var C ?I v then ?U else ?I) \<inter> vparts C v)"
    if "is_cube C q" "\<forall>v\<in>set vs. v < num_vars C" for vs q
    using that
  proof (induction vs arbitrary: q)
    case (Cons v vs)
    then have "v < num_vars C" by simp
    from step [OF Cons.prems(1) this] Cons.IH [of "?step v q"] Cons.prems(2) show ?case
      by (simp only: fold_Cons comp_apply list.set UN_insert Un_assoc) simp
  qed simp
  note B = consensus_bin [OF C x(1,2)]
  have "\<forall>v\<in>set (mv_vars C). v < num_vars C" by (simp add: set_mv_vars)
  note R = loop [OF B(1) this, folded run]
  show "is_cube C (consensus C r a b)" "consensus C r a b ! 0 = word_of_nat (LOOPINIT (cube_size C))"
    using R B(2) x(3) by simp_all
  let ?low = "\<Union>v<num_binary_vars C. vparts C v" and ?N = "null_parts C ?I"
  have mv: "(\<Union>v\<in>set (mv_vars C). (if null_var C ?I v then ?U else ?I) \<inter> vparts C v) \<subseteq> ?I \<union> ?U \<inter> ?N"
    unfolding null_parts_def nulls_def set_mv_vars by (auto split: if_splits)
  have "e \<in> elems (consensus C r a b)" if e: "e \<in> ?I \<union> ?U \<inter> ?N" for e
  proof (cases "e \<in> ?low")
    case True
    then have "e \<in> elems ?r \<inter> ?low" using B(4) e by blast
    then show ?thesis using R by blast
  next
    case False
    have "e < cube_size C" using e wf_elem_less [OF C(2)] wf_elem_less [OF C(3)] by auto
    then obtain v where v: "v < num_vars C" "e \<in> vparts C v" by (rule vparts_cover [OF L])
    then have m: "v \<in> set (mv_vars C)" using False unfolding set_mv_vars by auto
    have "e \<in> ?I \<or> null_var C ?I v"
    proof (cases "e \<in> ?I")
      case False
      then obtain u where "u < num_vars C" "null_var C ?I u" "e \<in> vparts C u"
        using e unfolding null_parts_def nulls_def by auto
      then show ?thesis using vparts_disjoint [OF L _ v(1) _ v(2)] by metis
    qed simp
    then have "e \<in> (if null_var C ?I v then ?U else ?I) \<inter> vparts C v" using e v by auto
    then show ?thesis using R m by blast
  qed
  moreover have "elems (consensus C r a b) \<subseteq> ?I \<union> ?U \<inter> ?N" using R B(3) mv by blast
  ultimately show "elems (consensus C r a b) = ?I \<union> ?U \<inter> ?N" by blast
qed

section \<open>Active variables\<close>

text \<open>What the loops of \<open>cactive\<close> know after the variables \<open>S\<close> have been found active.\<close>

definition act_state :: "nat set \<Rightarrow> int \<times> nat \<Rightarrow> bool" where
  "act_state S s \<longleftrightarrow> finite S \<and> snd s = card S \<and> card S \<le> 1 \<and> (S = {} \<longrightarrow> fst s = - 1) \<and> (\<forall>v. S = {v} \<longrightarrow> fst s = int v)"

lemma act_state_add:
  assumes "act_state S s" "finite T" "S \<inter> T = {}"
  shows "card (S \<union> T) = snd s + card T"
  using assms by (simp add: act_state_def card_Un_disjoint)

lemma act_state_new:
  assumes "act_state S s" "S \<inter> T = {}" "card (S \<union> T) \<le> 1" "T \<noteq> {}" "finite T" "\<And>v. T = {v} \<Longrightarrow> act = int v"
  shows "act_state (S \<union> T) (act, snd s + card T)"
proof -
  have c: "card (S \<union> T) = card S + card T" using assms by (simp add: act_state_def card_Un_disjoint)
  have "card T \<noteq> 0" using assms(4,5) by simp
  then have "card S = 0" "card T = 1" using c assms(3) by linarith+
  then obtain v where "S = {}" "T = {v}" using assms(1) card_1_singletonE by (auto simp: act_state_def)
  then show ?thesis using assms(1) assms(6) [of v] by (auto simp: act_state_def)
qed

lemma cactive_words_spec:
  fixes a :: pset
  assumes C: "wf_cube C" "num_binary_vars C \<noteq> 0" and s: "act_state S s"
    and us: "distinct us" "\<forall>u\<in>set us. Suc u < nat (inword C)"
    and S: "\<forall>u\<in>set us. vword u \<inter> S = {}"
  defines "T \<equiv> {v. bin_active C ((!) a) v \<and> v div 16 \<in> set us}"
  shows "if card (S \<union> T) > 1 then cactive_words a (map Suc us) s = None
    else \<exists>s'. cactive_words a (map Suc us) s = Some s' \<and> act_state (S \<union> T) s'"
  using s us S unfolding T_def
proof (induction us arbitrary: S s)
  case Nil
  then show ?case by (cases s) (auto simp: act_state_def)
next
  case (Cons u us)
  let ?x = "active_bits (a ! Suc u) DISJOINT"
  let ?T = "\<lambda>us. {v. bin_active C ((!) a) v \<and> v div 16 \<in> set us}"
  let ?Q = "{v \<in> vword u. bin_active C ((!) a) v}"
  obtain act d where sd: "s = (act, d)" by (cases s)
  have Lu: "Suc u < nat (inword C)" using Cons.prems(3) by simp
  have dm: "dmask C (Suc u) = DISJOINT" using Lu by (simp add: dmask_def)
  have vb: "var_bits u ?x (bin_active C ((!) a))"
    using active_var_bits(1) [OF C, of u "(!) a"] Lu dm by simp
  note cnt = var_bits_count [OF vb] and zero = var_bits_zero [OF vb] and idx = var_bits_index [OF vb]
  have fQ: "finite ?Q" by (simp add: vword_def)
  have disj: "S \<inter> ?Q = {}" using Cons.prems(4) by auto
  have TT: "?T (u # us) = ?Q \<union> ?T us" by (auto simp: vword_word)
  have d: "d + count_ones ?x = card (S \<union> ?Q)"
    using act_state_add [OF Cons.prems(1) fQ disj] cnt sd by simp
  show ?case
  proof (cases "?x = 0")
    case True
    then have "?Q = {}" using zero by auto
    then have T: "?T (u # us) = ?T us" unfolding TT by (simp only: Un_empty_left)
    have run: "cactive_words a (map Suc (u # us)) s = cactive_words a (map Suc us) s"
      using True by (simp add: sd)
    show ?thesis unfolding T run
      by (rule Cons.IH) (use Cons.prems in simp_all)
  next
    case False
    then have Qne: "?Q \<noteq> {}" using zero by auto
    show ?thesis
    proof (cases "card (S \<union> ?Q) > 1")
      case True
      have "finite (S \<union> ?T (u # us))"
        using Cons.prems(1) by (auto simp: act_state_def bin_active_def)
      then have "card (S \<union> ?Q) \<le> card (S \<union> ?T (u # us))"
        unfolding TT by (rule card_mono) auto
      then show ?thesis using True False d by (simp add: sd Let_def)
    next
      case le: False
      let ?s = "(int u * 16 + bit_index ?x div 2, d + count_ones ?x)"
      have st: "act_state (S \<union> ?Q) ?s"
        using act_state_new [OF Cons.prems(1) disj _ Qne fQ, of "int u * 16 + bit_index ?x div 2"] le idx cnt sd by simp
      have run: "cactive_words a (map Suc (u # us)) s = cactive_words a (map Suc us) ?s"
        using False le d by (simp add: sd Let_def)
      have dj: "\<forall>u'\<in>set us. vword u' \<inter> (S \<union> ?Q) = {}"
        using Cons.prems(2,4) by (auto simp: vword_word)
      have T: "S \<union> ?T (u # us) = (S \<union> ?Q) \<union> ?T us" unfolding TT by (simp only: Un_assoc)
      show ?thesis unfolding T run
        by (rule Cons.IH [OF st _ _ dj]) (use Cons.prems(2,3) in simp_all)
    qed
  qed
qed

lemma mv_active_test:
  assumes C: "wf_cube C" "is_cube C a" and v: "v < num_vars C"
  shows "list_ex (\<lambda>w. var_mask C ! v ! w AND NOT (a ! w) \<noteq> 0) (word_range C v) \<longleftrightarrow> \<not> vparts C v \<subseteq> elems a"
    "is_cube C b \<Longrightarrow> list_ex (\<lambda>w. var_mask C ! v ! w AND NOT (a ! w) AND NOT (b ! w) \<noteq> 0) (word_range C v)
      \<longleftrightarrow> \<not> vparts C v \<subseteq> elems a \<union> elems b"
proof -
  have a: "wbit ((!) a) e \<longleftrightarrow> e \<in> elems a" if "e \<in> vparts C v" for e
    using wbit_cube(2) [OF C(2) part_words [OF C(1) v that]] .
  have "list_ex (\<lambda>w. NOT (a ! w) AND var_mask C ! v ! w \<noteq> 0) (word_range C v) \<longleftrightarrow> \<not> vparts C v \<subseteq> elems a"
    unfolding mv_test [OF C(1) v] using a by auto
  then show "list_ex (\<lambda>w. var_mask C ! v ! w AND NOT (a ! w) \<noteq> 0) (word_range C v) \<longleftrightarrow> \<not> vparts C v \<subseteq> elems a"
    by (simp add: and.commute)
  assume b: "is_cube C b"
  have b: "wbit ((!) b) e \<longleftrightarrow> e \<in> elems b" if "e \<in> vparts C v" for e
    using wbit_cube(2) [OF b part_words [OF C(1) v that]] .
  have "list_ex (\<lambda>w. (NOT (a ! w) AND NOT (b ! w)) AND var_mask C ! v ! w \<noteq> 0) (word_range C v) \<longleftrightarrow> \<not> vparts C v \<subseteq> elems a \<union> elems b"
    unfolding mv_test [OF C(1) v] using a b by auto
  then show "list_ex (\<lambda>w. var_mask C ! v ! w AND NOT (a ! w) AND NOT (b ! w) \<noteq> 0) (word_range C v)
      \<longleftrightarrow> \<not> vparts C v \<subseteq> elems a \<union> elems b"
    by (simp add: and.commute)
qed

lemma cactive_vars_spec:
  assumes C: "wf_cube C" "is_cube C a" and s: "act_state S s" and vs: "distinct vs" "\<forall>v\<in>set vs. v < num_vars C \<and> v \<notin> S"
  defines "T \<equiv> {v \<in> set vs. \<not> vparts C v \<subseteq> elems a}"
  shows "if card (S \<union> T) > 1 then cactive_vars C a vs s = None
    else \<exists>s'. cactive_vars C a vs s = Some s' \<and> act_state (S \<union> T) s'"
  using s vs unfolding T_def
proof (induction vs arbitrary: S s)
  case Nil
  then show ?case by (cases s) (auto simp: act_state_def)
next
  case (Cons v vs)
  let ?T = "\<lambda>vs. {v \<in> set vs. \<not> vparts C v \<subseteq> elems a}"
  obtain act d where sd: "s = (act, d)" by (cases s)
  have v: "v < num_vars C" "v \<notin> S" using Cons.prems by simp_all
  note test = mv_active_test(1) [OF C v(1)]
  show ?case
  proof (cases "vparts C v \<subseteq> elems a")
    case True
    then have T: "?T (v # vs) = ?T vs" by auto
    have run: "cactive_vars C a (v # vs) s = cactive_vars C a vs s" using True test by (simp add: sd)
    show ?thesis unfolding T run by (rule Cons.IH) (use Cons.prems in simp_all)
  next
    case False
    have TT: "S \<union> ?T (v # vs) = insert v S \<union> ?T vs" using False by auto
    have ins: "card (insert v S) = d + 1"
      using Cons.prems(1) v(2) by (simp add: act_state_def sd)
    show ?thesis
    proof (cases "d = 0")
      case True
      have st: "act_state (insert v S) (int v, d + 1)"
        using Cons.prems(1) True v(2) by (auto simp: act_state_def sd)
      have run: "cactive_vars C a (v # vs) s = cactive_vars C a vs (int v, d + 1)"
        using False test True by (simp add: sd)
      show ?thesis unfolding TT run
        by (rule Cons.IH [OF st]) (use Cons.prems in auto)
    next
      case d: False
      have "finite (insert v S \<union> ?T vs)" using Cons.prems(1) by (simp add: act_state_def)
      then have "card (insert v S) \<le> card (insert v S \<union> ?T vs)" by (rule card_mono) auto
      then have "card (S \<union> ?T (v # vs)) > 1" unfolding TT using ins d by simp
      then show ?thesis using False test d by (simp add: sd)
    qed
  qed
qed

lemma cactive_spec:
  assumes C: "wf_cube C" "is_cube C a"
  shows "cactive C a = (if card (actives C (elems a)) = 1 then int (the_elem (actives C (elems a))) else - 1)"
proof -
  note L = wf_cubeD(1) [OF C(1)]
  let ?A = "actives C (elems a)" and ?Bin = "{v. v < num_binary_vars C \<and> \<not> vparts C v \<subseteq> elems a}"
  let ?Mv = "{v \<in> set (mv_vars C). \<not> vparts C v \<subseteq> elems a}"
  have A: "?A = ?Bin \<union> ?Mv"
    using wf_layoutD(2) [OF L] unfolding actives_def set_mv_vars by auto
  let ?bin = "(if inword C \<noteq> -1 then
                   let last = nat (inword C);
                       x = active_bits (a ! last) (inmask C)
                   in if x \<noteq> 0
                      then (if count_ones x > 1 then None
                            else cactive_words a [1..<last]
                                   (int (last - 1) * 16 + bit_index x div 2, count_ones x))
                      else cactive_words a [1..<last] (-1, 0)
                 else Some (-1, 0))"
  have bin: "if card ?Bin > 1 then ?bin = None else \<exists>s. ?bin = Some s \<and> act_state ?Bin s"
  proof (cases "inword C = - 1")
    case True
    then have B: "?Bin = {}" using inword_cases(1) [OF C(1)] by simp
    show ?thesis unfolding B using True by (simp add: act_state_def)
  next
    case False
    then have n: "num_binary_vars C \<noteq> 0" using inword_cases(1) [OF C(1)] by simp
    obtain l where l: "nat (inword C) = Suc l" using inword_words [OF C(1) n] by metis
    let ?x = "active_bits (a ! Suc l) (inmask C)"
    let ?Q = "{v \<in> vword l. bin_active C ((!) a) v}"
    have vb: "var_bits l ?x (bin_active C ((!) a))"
      using active_var_bits(1) [OF C(1) n, of l "(!) a"] l by (simp add: dmask_def)
    note cnt = var_bits_count [OF vb] and zero = var_bits_zero [OF vb] and idx = var_bits_index [OF vb]
    have fQ: "finite ?Q" by (simp add: vword_def)
    have BinT: "?Bin = ?Q \<union> {v. bin_active C ((!) a) v \<and> v div 16 \<in> set [0..<l]}"
      using binary_word_of [OF C(1)] unfolding l
      by (auto simp: bin_active_cube(1) [OF C] vword_word) (metis Suc_le_mono le_neq_implies_less)
    have ws: "[1..<nat (inword C)] = map Suc [0..<l]" by (simp add: l map_Suc_upt del: upt_Suc)
    have run: "?bin = (if ?x \<noteq> 0 then (if count_ones ?x > 1 then None
          else cactive_words a (map Suc [0..<l]) (int l * 16 + bit_index ?x div 2, count_ones ?x))
        else cactive_words a (map Suc [0..<l]) (-1, 0))"
      using False ws by (simp add: Let_def l del: upt_Suc)
    have us: "distinct [0..<l]" "\<forall>u\<in>set [0..<l]. Suc u < nat (inword C)" "\<forall>u\<in>set [0..<l]. vword u \<inter> ?Q = {}"
      by (auto simp: l vword_word)
    show ?thesis
    proof (cases "card ?Q > 1")
      case True
      have "card ?Q \<le> card ?Bin" 
      proof (rule card_mono)
        show "?Q \<subseteq> ?Bin" by (subst BinT) (rule Un_upper1)
      qed simp
      moreover have "?bin = None" unfolding run using True cnt by (cases "?x = 0") simp_all
      ultimately show ?thesis using True by simp
    next
      case le: False
      obtain s where s: "act_state ?Q s" "?bin = cactive_words a (map Suc [0..<l]) s"
      proof (cases "?x = 0")
        case True
        then have Q: "?Q = {}" using zero by auto
        have "act_state ?Q (- 1, 0)" unfolding Q by (simp add: act_state_def)
        then show ?thesis using that True unfolding run by simp
      next
        case False
        then have "?Q \<noteq> {}" using zero by auto
        moreover have "act_state {} (- 1, 0)" by (simp add: act_state_def)
        ultimately have "act_state ?Q (int l * 16 + bit_index ?x div 2, count_ones ?x)"
          using act_state_new [of "{}" "(- 1, 0)" ?Q "int l * 16 + bit_index ?x div 2"] fQ le idx cnt by simp
        then show ?thesis using that False le cnt unfolding run by simp
      qed
      show ?thesis
        using cactive_words_spec [OF C(1) n s(1) us, of a] unfolding BinT [symmetric] s(2) .
    qed
  qed
  have final: "act = (if card S = 1 then int (the_elem S) else - 1)" if "act_state S (act, d)" for S act d
    using that by (cases "S = {}") (auto simp: act_state_def card_1_singleton_iff le_Suc_eq)
  show ?thesis
  proof (cases "card ?Bin > 1")
    case True
    then have "card ?A > 1" using card_mono [of ?A ?Bin] A by (auto intro: less_le_trans)
    then show ?thesis using bin True by (simp add: cactive_def)
  next
    case False
    then obtain s where s: "?bin = Some s" "act_state ?Bin s" using bin by auto
    have "\<forall>v\<in>set (mv_vars C). v < num_vars C \<and> v \<notin> ?Bin" "distinct (mv_vars C)"
      by (auto simp: set_mv_vars mv_vars_def)
    from cactive_vars_spec [OF C s(2) this(2,1)] show ?thesis
      unfolding cactive_def s(1) A [symmetric]
      by (auto split: if_splits prod.splits dest: final)
  qed
qed

lemma ex_less_split: "b \<le> n \<Longrightarrow> ((\<exists>v<b. P v) \<or> (\<exists>v\<in>{b..<n}. P v)) \<longleftrightarrow> (\<exists>v<n. P v)" for b n :: nat
  by (meson atLeastLessThan_iff less_le_trans not_less)

lemma ccommon_spec:
  assumes C: "wf_cube C" "is_cube C a" "is_cube C b" "is_cube C cof"
  shows "ccommon C a b cof \<longleftrightarrow>
    (\<exists>v<num_vars C. \<not> vparts C v \<subseteq> elems a \<union> elems cof \<and> \<not> vparts C v \<subseteq> elems b \<union> elems cof)"
proof -
  note L = wf_cubeD(1) [OF C(1)]
  let ?P = "\<lambda>v. \<not> vparts C v \<subseteq> elems a \<union> elems cof \<and> \<not> vparts C v \<subseteq> elems b \<union> elems cof"
  let ?f = "\<lambda>w. a ! w OR cof ! w" and ?g = "\<lambda>w. b ! w OR cof ! w"
  have bin: "(inword C \<noteq> -1 \<and>
        (let last = nat (inword C) in
         active_bits (a ! last OR cof ! last) (active_bits (b ! last OR cof ! last) (inmask C)) \<noteq> 0
         \<or> list_ex (\<lambda>w. active_bits (a ! w OR cof ! w) (active_bits (b ! w OR cof ! w) DISJOINT) \<noteq> 0)
             [1..<last])) \<longleftrightarrow> (\<exists>v<num_binary_vars C. ?P v)"
  proof (cases "inword C = - 1")
    case True
    then show ?thesis using inword_cases(1) [OF C(1)] by simp
  next
    case False
    then have n: "num_binary_vars C \<noteq> 0" using inword_cases(1) [OF C(1)] by simp
    have Q: "bin_active C ?f v \<and> bin_active C ?g v \<longleftrightarrow> v < num_binary_vars C \<and> ?P v" for v
      using bin_active_cube(2) [OF C(1,2,4)] bin_active_cube(2) [OF C(1,3,4)] by blast
    have "(active_bits (?f (nat (inword C))) (active_bits (?g (nat (inword C))) (inmask C)) = 0
        \<and> list_all (\<lambda>w. active_bits (?f w) (active_bits (?g w) DISJOINT) = 0) [1..<nat (inword C)])
      \<longleftrightarrow> (\<forall>v. \<not> (bin_active C ?f v \<and> bin_active C ?g v))"
      by (rule binary_test(1) [OF C(1) n, where z = "\<lambda>w m. active_bits (?f w) (active_bits (?g w) m)",
            OF active_var_bits(2) [OF C(1) n]]) (simp_all add: bin_active_def)
    then show ?thesis unfolding Q using False by (auto simp: Let_def list_ex_iff list_all_iff)
  qed
  have mv: "list_ex (\<lambda>var.
            list_ex (\<lambda>w. var_mask C ! var ! w AND NOT (a ! w) AND NOT (cof ! w) \<noteq> 0) (word_range C var)
            \<and> list_ex (\<lambda>w. var_mask C ! var ! w AND NOT (b ! w) AND NOT (cof ! w) \<noteq> 0) (word_range C var))
          (mv_vars C) \<longleftrightarrow> (\<exists>v\<in>set (mv_vars C). ?P v)"
    using mv_active_test(2) [OF C(1,2) _ C(4)] mv_active_test(2) [OF C(1,3) _ C(4)]
    by (auto simp: list_ex_iff set_mv_vars)
  show ?thesis unfolding ccommon_def bin mv set_mv_vars
    using wf_layoutD(2) [OF L] by (rule ex_less_split)
qed

lemma full_row_spec:
  assumes C: "wf_cube C" "is_cube C p" "is_cube C cof"
  shows "full_row C p cof \<longleftrightarrow> elems p \<union> elems cof = {..<cube_size C}"
proof -
  let ?o = "set_or p p cof"
  have o: "is_cube C ?o" "elems ?o = elems p \<union> elems cof"
    using C by (simp_all add: binops_wf binops_elems wf_length)
  have "?o ! i = (p ! i OR cof ! i)" if "1 \<le> i" "i \<le> LOOPINIT (cube_size C)" for i
    using that wf_length [OF C(2)]
    by (simp add: set_or_def Let_def wf_LOOP [OF C(2)] nth_upd_down SET_SIZE_eq)
  then have "full_row C p cof \<longleftrightarrow> setp_equal ?o (fullset C)"
    by (simp add: full_row_def setp_equal_def all_down_iff wf_LOOP [OF C(2)] wf_LOOP [OF o(1)])
  then show ?thesis using setp_equal_iff [OF o(1), of "fullset C"] C(1) o(2) by simp
qed

section \<open>Comparisons\<close>

lemma cmp_down_flip: "cmp_down g f n = - cmp_down f g n"
  by (induction f g n rule: cmp_down.induct) auto

lemma cmp_down_trans:
  "cmp_down f g n \<le> 0 \<Longrightarrow> cmp_down g h n \<le> 0 \<Longrightarrow> cmp_down f h n \<le> 0"
proof (induction f g n arbitrary: h rule: cmp_down.induct)
  case (3 f g i)
  then show ?case by (auto split: if_splits)
qed (auto split: if_splits)

lemma cmp_down_0: "1 \<le> n \<Longrightarrow> cmp_down f g n = 0 \<longleftrightarrow> (\<forall>i. 1 \<le> i \<and> i \<le> n \<longrightarrow> f i = g i)"
  by (induction f g n rule: cmp_down.induct) (auto simp: le_Suc_eq)

interpretation descend: comparison descend "wf_set n"
proof
  show "descend y x = - descend x y" if "wf_set n x" "wf_set n y" for x y
    using that cmp_down_flip [of "(!) y" "(!) x"] by (auto simp: descend_def wf_LOOP)
  show "descend x z \<le> 0" if "wf_set n x" "wf_set n y" "wf_set n z" "descend x y \<le> 0" "descend y z \<le> 0" for x y z
    using that cmp_down_trans [of "(!) x" "(!) y" _ "(!) z"] by (auto simp: descend_def wf_LOOP split: if_splits)
qed

interpretation ascend: comparison ascend "wf_set n"
proof
  show "ascend y x = - ascend x y" if "wf_set n x" "wf_set n y" for x y
    using that cmp_down_flip [of "(!) x" "(!) y"] by (auto simp: ascend_def wf_LOOP)
  show "ascend x z \<le> 0" if "wf_set n x" "wf_set n y" "wf_set n z" "ascend x y \<le> 0" "ascend y z \<le> 0" for x y z
  proof -
    have "cmp_down ((!) z) ((!) x) k \<le> 0" if "cmp_down ((!) y) ((!) x) k \<le> 0" "cmp_down ((!) z) ((!) y) k \<le> 0" for k
      using cmp_down_trans that by blast
    then show ?thesis using that by (auto simp: ascend_def wf_LOOP split: if_splits)
  qed
qed

interpretation lex_order: comparison lex_order "wf_set n"
proof
  show "lex_order y x = - lex_order x y" if "wf_set n x" "wf_set n y" for x y
    using that cmp_down_flip [of "(!) y" "(!) x"] by (simp add: lex_order_def wf_LOOP)
  show "lex_order x z \<le> 0" if "wf_set n x" "wf_set n y" "wf_set n z" "lex_order x y \<le> 0" "lex_order y z \<le> 0" for x y z
    using that cmp_down_trans [of "(!) x" "(!) y" _ "(!) z"] by (simp add: lex_order_def wf_LOOP)
qed

interpretation d1_order: comparison "d1_order c" "wf_set n"
proof
  show "d1_order c y x = - d1_order c x y" if "wf_set n x" "wf_set n y" for x y
    using that cmp_down_flip [of "\<lambda>i. y ! i OR c ! i" "\<lambda>i. x ! i OR c ! i"] by (simp add: d1_order_def wf_LOOP)
  show "d1_order c x z \<le> 0" if "wf_set n x" "wf_set n y" "wf_set n z" "d1_order c x y \<le> 0" "d1_order c y z \<le> 0" for x y z
    using that cmp_down_trans [of "\<lambda>i. x ! i OR c ! i" "\<lambda>i. y ! i OR c ! i" _ "\<lambda>i. z ! i OR c ! i"]
    by (simp add: d1_order_def wf_LOOP)
qed

definition opt_set :: "nat \<Rightarrow> pset option \<Rightarrow> bool" where
  "opt_set n a \<longleftrightarrow> (case a of None \<Rightarrow> True | Some p \<Rightarrow> wf_set n p)"

lemma desc1_Some: "desc1 (Some a) (Some b) = descend a b"
  by (simp add: descend_def)

interpretation desc1: comparison desc1 "opt_set n"
proof
  show "desc1 y x = - desc1 x y" if "opt_set n x" "opt_set n y" for x y
  proof (cases x)
    case (Some a)
    then show ?thesis
      using that descend.flip [of n a] by (cases y) (simp_all add: opt_set_def desc1_Some del: desc1.simps(3))
  qed (cases y; simp)
  show "desc1 x z \<le> 0" if "opt_set n x" "opt_set n y" "opt_set n z" "desc1 x y \<le> 0" "desc1 y z \<le> 0" for x y z
  proof -
    note H = that
    show ?thesis
  proof (cases y)
    case None
    then have "z = None" using H(5) by (cases z) simp_all
    then show ?thesis using H(4) None by simp
  next
    case (Some b)
    then obtain a where a: "x = Some a" using H(4) by (cases x) simp_all
    show ?thesis
    proof (cases z)
      case (Some c)
      then show ?thesis using H descend.trans_le [of n a b c] a \<open>y = Some b\<close>
        by (simp add: opt_set_def desc1_Some del: desc1.simps(3))
    qed (simp add: a)
  qed
  qed
qed

lemma cmp_down_elems:
  assumes "wf_set n a" "wf_set n b"
  shows "cmp_down ((!) a) ((!) b) (LOOP a) = 0 \<longleftrightarrow> elems a = elems b"
  using setp_equal_iff [OF assms] by (simp add: cmp_down_0 wf_LOOP [OF assms(1)] setp_equal_def all_down_iff)

lemma descend_0: "wf_set n a \<Longrightarrow> wf_set n b \<Longrightarrow> descend a b = 0 \<longleftrightarrow> SIZE a = SIZE b \<and> elems a = elems b"
  using cmp_down_elems [of n a b] by (auto simp: descend_def)

lemma ascend_0: "wf_set n a \<Longrightarrow> wf_set n b \<Longrightarrow> ascend a b = 0 \<longleftrightarrow> SIZE a = SIZE b \<and> elems a = elems b"
  using cmp_down_elems [of n b a] by (auto simp: ascend_def wf_LOOP)

lemma lex_order_0: "wf_set n a \<Longrightarrow> wf_set n b \<Longrightarrow> lex_order a b = 0 \<longleftrightarrow> elems a = elems b"
  using cmp_down_elems [of n a b] by (simp add: lex_order_def)

lemma d1_order_0:
  assumes "wf_set n a" "wf_set n b" "wf_set n c"
  shows "d1_order c a b = 0 \<longleftrightarrow> elems a \<union> elems c = elems b \<union> elems c"
proof -
  let ?a = "set_or a a c" and ?b = "set_or b b c"
  have w: "wf_set n ?a" "wf_set n ?b" "elems ?a = elems a \<union> elems c" "elems ?b = elems b \<union> elems c"
    using assms by (simp_all add: binops_wf binops_elems wf_length)
  have n: "?a ! i = (a ! i OR c ! i)" "?b ! i = (b ! i OR c ! i)" if "1 \<le> i" "i \<le> LOOPINIT n" for i
    using that wf_length [OF assms(1)] wf_length [OF assms(2)]
    by (simp_all add: set_or_def Let_def wf_LOOP [OF assms(1)] wf_LOOP [OF assms(2)] nth_upd_down SET_SIZE_eq)
  have "d1_order c a b = 0 \<longleftrightarrow> (\<forall>i. 1 \<le> i \<and> i \<le> LOOPINIT n \<longrightarrow> ?a ! i = ?b ! i)"
    using n by (auto simp: d1_order_def cmp_down_0 wf_LOOP [OF assms(1)])
  also have "\<dots> \<longleftrightarrow> setp_equal ?a ?b" by (simp add: setp_equal_def all_down_iff wf_LOOP [OF w(1)])
  also have "\<dots> \<longleftrightarrow> elems a \<union> elems c = elems b \<union> elems c" using setp_equal_iff [OF w(1,2)] w(3,4) by simp
  finally show ?thesis .
qed

section \<open>Properties\<close>

lemma nulls_point:
  assumes "wf_cube C"
  shows "nulls C c = {} \<longleftrightarrow> (\<exists>x. point C x \<and> covers C c x)"
  using common_point [OF assms] covers_not_null unfolding null_cube_nulls by metis

text \<open>
  C22. The three distance routines, which look at 16 binary variables at a time,
  count the variables in which the intersection of two cubes is empty: \<open>cdist\<close> exactly, \<open>cdist01\<close>
  up to 2, \<open>cdist0\<close> whether there is none, which is the case exactly if some point is in both cubes.
\<close>

theorem distances_count_null_variables:
  assumes "wf_cube C" "is_cube C a" "is_cube C b"
  shows "cdist C a b = card {v. v < num_vars C \<and> elems a \<inter> elems b \<inter> vparts C v = {}}
    \<and> cdist01 C a b = min 2 (cdist C a b) \<and> (cdist0 C a b \<longleftrightarrow> cdist C a b = 0)
    \<and> (cdist0 C a b \<longleftrightarrow> (\<exists>x. point C x \<and> covers C (elems a) x \<and> covers C (elems b) x))"
  using cdist_spec [OF assms] cdist0_spec [OF assms] cdist01_spec [OF assms] nulls_point [OF assms(1)]
  by (simp add: nulls_def null_var_def covers_Int)

theorem distances_count_null_variables_witness:
  "cdist0 demo_cube (cube_of 7 [0, 2, 3, 4, 5]) (cube_of 7 [0, 1, 3, 5, 6])
   \<and> cdist demo_cube (cube_of 7 [0, 2, 4]) (cube_of 7 [1, 3, 5]) = 3"
proof -
  have "{v. v < 3 \<and> {0, 2, 4} \<inter> {1, 3, 5} \<inter> vparts demo_cube v = {}} = {0, 1, 2}"
    unfolding less_3_cases by auto
  then have 1: "cdist demo_cube (cube_of 7 [0, 2, 4]) (cube_of 7 [1, 3, 5]) = card {0, 1, 2 :: nat}"
    using distances_count_null_variables [of demo_cube "cube_of 7 [0, 2, 4]" "cube_of 7 [1, 3, 5]", THEN conjunct1]
    by simp
  have 2: "\<exists>x. point demo_cube x \<and> covers demo_cube {0, 2, 3, 4, 5} x \<and> covers demo_cube {0, 1, 3, 5, 6} x"
    by (rule exI [of _ "(\<lambda>_. 0)(Suc 0 := 3, 2 := 5)"]) (simp add: point_def covers_def less_3_cases)
  have "cdist0 demo_cube (cube_of 7 [0, 2, 3, 4, 5]) (cube_of 7 [0, 1, 3, 5, 6]) \<longleftrightarrow>
      (\<exists>x. point demo_cube x \<and> covers demo_cube (elems (cube_of 7 [0, 2, 3, 4, 5])) x
         \<and> covers demo_cube (elems (cube_of 7 [0, 1, 3, 5, 6])) x)"
    by (intro distances_count_null_variables [THEN conjunct2, THEN conjunct2, THEN conjunct2]) simp_all
  then show ?thesis using 1 2 by simp
qed

text \<open>
  C23. For each variable the consensus takes the intersection of the two cubes if it
  is not empty and the union otherwise; for cubes at distance 0 or 1 every point of the result is in
  one of the two cubes, at distance 0 in both.  The result array may hold anything before.
\<close>

theorem consensus_is_implied:
  assumes "wf_cube C" "is_cube C a" "is_cube C b" "length r = SET_SIZE (cube_size C)"
  shows "is_cube C (consensus C r a b)
    \<and> (\<forall>v<num_vars C. elems (consensus C r a b) \<inter> vparts C v =
         (if elems a \<inter> elems b \<inter> vparts C v = {} then elems a \<union> elems b else elems a \<inter> elems b) \<inter> vparts C v)
    \<and> (cdist C a b = 0 \<longrightarrow> elems (consensus C r a b) = elems a \<inter> elems b)
    \<and> (cdist C a b \<le> 1 \<longrightarrow> cov C {elems (consensus C r a b)} \<subseteq> cov C {elems a, elems b})"
proof -
  let ?I = "elems a \<inter> elems b" and ?U = "elems a \<union> elems b" and ?c = "elems (consensus C r a b)"
  note S = consensus_spec [OF assms]
  have N: "e \<in> null_parts C ?I \<longleftrightarrow> null_var C ?I v" if "v < num_vars C" "e \<in> vparts C v" for e v
    using that vparts_disjoint [OF wf_cubeD(1) [OF assms(1)]] unfolding null_parts_def nulls_def by blast
  have V: "?c \<inter> vparts C v = (if ?I \<inter> vparts C v = {} then ?U else ?I) \<inter> vparts C v" if v: "v < num_vars C" for v
    using N [OF v] unfolding S(2) null_var_def by auto
  have D: "cdist C a b = 0 \<longrightarrow> ?c = ?I"
    using cdist_spec [OF assms(1-3)] unfolding S(2) by (simp add: null_parts_def)
  have "cov C {?c} \<subseteq> cov C {elems a, elems b}" if d: "cdist C a b \<le> 1"
  proof
    fix x assume "x \<in> cov C {?c}"
    then have x: "point C x" "\<forall>v<num_vars C. x v \<in> ?c" by (auto simp: cov_def covers_def)
    have mem: "x v \<in> ?I \<or> v \<in> nulls C ?I \<and> x v \<in> ?U" if v: "v < num_vars C" for v
      using x v N [of v "x v"] unfolding S(2) point_def nulls_def by auto
    obtain u where u: "nulls C ?I \<subseteq> {u}"
    proof (cases "nulls C ?I = {}")
      case False
      then have "card (nulls C ?I) = 1" using d cdist_spec [OF assms(1-3)] by (simp add: le_Suc_eq)
      then show ?thesis using that by (auto simp: card_1_singleton_iff)
    qed (use that in simp)
    show "x \<in> cov C {elems a, elems b}"
    proof (cases "x u \<in> elems a")
      case True
      then have "\<forall>v<num_vars C. x v \<in> elems a" using mem u by blast
      then show ?thesis using x(1) by (auto simp: cov_def covers_def)
    next
      case False
      then have "\<forall>v<num_vars C. x v \<in> elems b" using mem u by blast
      then show ?thesis using x(1) by (auto simp: cov_def covers_def)
    qed
  qed
  then show ?thesis using S(1) V D by blast
qed

theorem consensus_is_implied_witness:
  "elems (consensus demo_cube (cube_of 7 [6]) (cube_of 7 [0, 2, 3, 4]) (cube_of 7 [1, 3, 4, 5])) \<inter> {0, 1} = {0, 1}"
proof -
  let ?a = "cube_of 7 [0, 2, 3, 4]" and ?b = "cube_of 7 [1, 3, 4, 5]" and ?r = "cube_of 7 [6]"
  have "\<forall>v<num_vars demo_cube. elems (consensus demo_cube ?r ?a ?b) \<inter> vparts demo_cube v =
         (if elems ?a \<inter> elems ?b \<inter> vparts demo_cube v = {} then elems ?a \<union> elems ?b else elems ?a \<inter> elems ?b)
           \<inter> vparts demo_cube v"
    by (intro consensus_is_implied [THEN conjunct2, THEN conjunct1]) (simp_all add: wf_length [of 7])
  from this [rule_format, of 0] show ?thesis by simp
qed

text \<open>
  C32. \<open>force_lower\<close> adds to the lowered parts all the parts of \<open>a\<close> in variables
  where \<open>a\<close> and \<open>b\<close> are disjoint, and those only; \<open>cactive\<close> returns the one variable
  of a cube that lacks a part, and -1 if there is none or more than one; \<open>ccommon\<close> decides whether two
  cubes have a variable in common in which each lacks a part of the cofactor space; \<open>full_row\<close>
  whether the cube together with the cofactored-out parts is the whole space.
\<close>

theorem active_variables:
  assumes "wf_cube C" "is_cube C a" "is_cube C b" "is_cube C cof"
  shows "(is_cube C (force_lower C cof a b) \<and> elems (force_lower C cof a b) =
      elems cof \<union> {e \<in> elems a. \<exists>v<num_vars C. e \<in> vparts C v \<and> elems a \<inter> elems b \<inter> vparts C v = {}})
    \<and> (\<forall>v<num_vars C. cactive C a = int v \<longleftrightarrow>
         \<not> vparts C v \<subseteq> elems a \<and> (\<forall>u<num_vars C. u \<noteq> v \<longrightarrow> vparts C u \<subseteq> elems a))
    \<and> (cactive C a = - 1 \<or> (\<exists>v<num_vars C. cactive C a = int v))
    \<and> (ccommon C a b cof \<longleftrightarrow>
         (\<exists>v<num_vars C. \<not> vparts C v \<subseteq> elems a \<union> elems cof \<and> \<not> vparts C v \<subseteq> elems b \<union> elems cof))
    \<and> (full_row C a cof \<longleftrightarrow> elems a \<union> elems cof = {..<cube_size C})"
proof -
  let ?A = "actives C (elems a)"
  have lower: "elems a \<inter> null_parts C (elems a \<inter> elems b) =
      {e \<in> elems a. \<exists>v<num_vars C. e \<in> vparts C v \<and> elems a \<inter> elems b \<inter> vparts C v = {}}"
    by (auto simp: null_parts_def nulls_def null_var_def)
  have act: "cactive C a = int v \<longleftrightarrow> ?A = {v}" for v
  proof -
    have "?A = {the_elem ?A}" if "card ?A = 1" using that by (metis card_1_singletonE the_elem_eq)
    moreover have "card ?A = 1 \<and> the_elem ?A = v" if "?A = {v}" using that by simp
    ultimately show ?thesis unfolding cactive_spec [OF assms(1,2)] by (metis int_int_eq negative_eq_positive of_nat_eq_0_iff one_neq_zero int_ops(2))
  qed
  have "?A = {v} \<longleftrightarrow> \<not> vparts C v \<subseteq> elems a \<and> (\<forall>u<num_vars C. u \<noteq> v \<longrightarrow> vparts C u \<subseteq> elems a)"
    if "v < num_vars C" for v
    using that unfolding actives_def by blast
  moreover have "cactive C a = - 1 \<or> (\<exists>v<num_vars C. cactive C a = int v)"
  proof (cases "card ?A = 1")
    case True
    then obtain v where "?A = {v}" by (rule card_1_singletonE)
    moreover from this have "v < num_vars C" unfolding actives_def by blast
    ultimately show ?thesis using act by blast
  qed (simp add: cactive_spec [OF assms(1,2)])
  ultimately show ?thesis
    using force_lower_spec [OF assms] ccommon_spec [OF assms] full_row_spec [OF assms(1,2,4)] act
    unfolding lower by simp
qed

theorem active_variables_witness:
  "cactive demo_cube (cube_of 7 [0, 1, 3, 4, 5, 6]) = 1
   \<and> full_row demo_cube (cube_of 7 [0, 1, 3, 4, 5, 6]) (cube_of 7 [2])"
proof -
  let ?a = "cube_of 7 [0, 1, 3, 4, 5, 6]"
  have "set [0, 1, 3, 4, 5, 6] \<union> set [2] = {..<7 :: nat}" by (auto simp: lessThan_nat_numeral)
  then have "full_row demo_cube ?a (cube_of 7 [2])"
    using active_variables [of demo_cube ?a "cube_of 7 [2]" "cube_of 7 [2]"] by simp
  moreover have "cactive demo_cube ?a = int (Suc 0)"
    using active_variables [of demo_cube ?a "cube_of 7 [2]" "cube_of 7 [2]"] by (simp add: less_3_cases)
  ultimately show ?thesis by simp
qed

section \<open>The order of the comparisons\<close>

text \<open>\<open>A\<close> is above \<open>B\<close> when the greatest element in only one of the two is in \<open>A\<close>.\<close>

definition set_above :: "nat set \<Rightarrow> nat set \<Rightarrow> bool" where
  "set_above A B \<longleftrightarrow> (\<exists>e\<in>A - B. \<forall>x>e. x \<in> A \<longleftrightarrow> x \<in> B)"

lemma nat_less_bits:
  fixes a b :: nat
  assumes "bit b k" "\<not> bit a k" "\<forall>j>k. bit a j = bit b j"
  shows "a < b"
proof -
  have d: "drop_bit k n = 2 * drop_bit (Suc k) n + of_bool (bit n k)" for n :: nat
  proof -
    have "drop_bit (Suc k) n = drop_bit k n div 2" by (simp add: drop_bit_Suc drop_bit_half)
    then show ?thesis using mult_div_mod_eq [of 2 "drop_bit k n"] by (simp only: mod_2_eq_odd bit_iff_odd_drop_bit)
  qed
  have "drop_bit (Suc k) a = drop_bit (Suc k) b" by (rule bit_eqI) (use assms(3) in \<open>simp add: bit_simps\<close>)
  then have "drop_bit k a < drop_bit k b" using d [of a] d [of b] assms(1,2) by simp
  then show ?thesis using div_le_mono [of b a "2 ^ k"] unfolding drop_bit_eq_div by (meson not_le)
qed

lemma word_less_bits:
  fixes u v :: u32
  shows "u < v \<longleftrightarrow> (\<exists>k<32. bit v k \<and> \<not> bit u k \<and> (\<forall>j>k. bit u j = bit v j))"
proof -
  have up: "a < b" if "bit b k" "\<not> bit a k" "\<forall>j>k. bit a j = bit b j" for a b :: u32 and k
    unfolding word_less_nat_alt by (rule nat_less_bits [of _ k]) (use that in \<open>simp_all add: bit_simps\<close>)
  show ?thesis
  proof
    assume lt: "u < v"
    define D where "D = {k. bit u k \<noteq> bit v k}"
    have lim: "k < 32" if "k \<in> D" for k using that bit_imp_le_length [of u k] bit_imp_le_length [of v k] by (auto simp: D_def)
    then have fin: "finite D" by (intro finite_subset [of D "{..<32}"]) auto
    have "D \<noteq> {}" using lt bit_word_eqI [of u v] by (auto simp: D_def)
    then have M: "Max D \<in> D" by (rule Max_in [OF fin])
    have above: "\<forall>j>Max D. bit u j = bit v j"
    proof (intro allI impI)
      fix j assume "j > Max D"
      then have "j \<notin> D" using Max_ge [OF fin, of j] by auto
      then show "bit u j = bit v j" by (simp add: D_def)
    qed
    obtain k where k: "k < 32" "bit u k \<noteq> bit v k" "\<forall>j>k. bit u j = bit v j"
      using lim [OF M] M above unfolding D_def by blast
    have "\<not> bit u k"
    proof
      assume "bit u k"
      then have "v < u" using up [of u k v] k(2,3) by simp
      then show False using lt by simp
    qed
    then show "\<exists>k<32. bit v k \<and> \<not> bit u k \<and> (\<forall>j>k. bit u j = bit v j)" using k by blast
  qed (use up in blast)
qed

text \<open>The words from \<open>n\<close> down, as a set of elements.\<close>

definition word_elems :: "(nat \<Rightarrow> u32) \<Rightarrow> nat \<Rightarrow> nat set" where
  "word_elems f n = {e. e < 32 * n \<and> bit (f (e div 32 + 1)) (e mod 32)}"

lemma word_elems_Suc:
  "word_elems f (Suc n) = word_elems f n \<union> (\<lambda>k. 32 * n + k) ` {k. k < 32 \<and> bit (f (Suc n)) k}"
proof (intro set_eqI iffI)
  fix e assume "e \<in> word_elems f (Suc n)"
  then have e: "e < 32 * n + 32" "bit (f (e div 32 + 1)) (e mod 32)" by (simp_all add: word_elems_def)
  show "e \<in> word_elems f n \<union> (\<lambda>k. 32 * n + k) ` {k. k < 32 \<and> bit (f (Suc n)) k}"
  proof (cases "e < 32 * n")
    case False
    then have d: "e div 32 = n" using e(1) by (intro div_nat_eqI) simp_all
    then have "e = 32 * n + e mod 32" using mult_div_mod_eq [of 32 e] by simp
    moreover have "e mod 32 \<in> {k. k < 32 \<and> bit (f (Suc n)) k}" using e(2) d by simp
    ultimately show ?thesis by blast
  qed (use e in \<open>simp add: word_elems_def\<close>)
qed (auto simp: word_elems_def)

lemma set_above_top:
  assumes "A \<subseteq> {..<m}" "B \<subseteq> {..<m}" "X \<subseteq> {m..}" "Y \<subseteq> {m..}"
  shows "set_above (A \<union> X) (B \<union> Y) \<longleftrightarrow> set_above X Y \<or> X = Y \<and> set_above A B"
proof -
  have low: "x \<notin> X" "x \<notin> Y" if "x < m" for x using assms(3,4) that by auto
  have high: "x \<notin> A" "x \<notin> B" if "m \<le> x" for x using assms(1,2) that by auto
  show ?thesis
proof
  assume "set_above (A \<union> X) (B \<union> Y)"
  then obtain e where e: "e \<in> A \<union> X" "e \<notin> B \<union> Y" "\<forall>x>e. x \<in> A \<union> X \<longleftrightarrow> x \<in> B \<union> Y" by (auto simp: set_above_def)
  show "set_above X Y \<or> X = Y \<and> set_above A B"
  proof (cases "e < m")
    case True
    have "x \<in> X \<longleftrightarrow> x \<in> Y" for x
    proof (cases "m \<le> x")
      case True
      then show ?thesis using e(3) [rule_format, of x] high [OF True] \<open>e < m\<close> by simp
    qed (use low in simp)
    then have "X = Y" by blast
    moreover have "e \<in> A" using e(1) low(1) [OF True] by blast
    moreover have "x \<in> A \<longleftrightarrow> x \<in> B" if "x > e" for x
    proof (cases "x < m")
      case True
      then show ?thesis using e(3) that low [OF True] by blast
    qed (use high in simp)
    ultimately show ?thesis using e(2) by (auto simp: set_above_def)
  next
    case False
    then have "e \<in> X" using e(1) high(1) [of e] by simp
    moreover have "x \<in> X \<longleftrightarrow> x \<in> Y" if "x > e" for x using e(3) [rule_format, OF that] high [of x] that False by simp
    ultimately show ?thesis using e(2) by (auto simp: set_above_def)
  qed
next
  assume "set_above X Y \<or> X = Y \<and> set_above A B"
  then show "set_above (A \<union> X) (B \<union> Y)"
  proof
    assume "set_above X Y"
    then obtain e where e: "e \<in> X" "e \<notin> Y" "\<forall>x>e. x \<in> X \<longleftrightarrow> x \<in> Y" by (auto simp: set_above_def)
    have m: "m \<le> e" using e(1) assms(3) by auto
    then have "e \<notin> B" using assms(2) by auto
    moreover have "x \<in> A \<union> X \<longleftrightarrow> x \<in> B \<union> Y" if "x > e" for x using e(3) [rule_format, OF that] high [of x] that m by simp
    ultimately show ?thesis using e(1,2) by (auto simp: set_above_def)
  next
    assume "X = Y \<and> set_above A B"
    then obtain e where e: "X = Y" "e \<in> A" "e \<notin> B" "\<forall>x>e. x \<in> A \<longleftrightarrow> x \<in> B" by (auto simp: set_above_def)
    have "e < m" using high(1) [of e] e(2) by (cases "e < m") simp_all
    then have "e \<notin> Y" by (rule low(2))
    then show ?thesis using e by (auto simp: set_above_def)
  qed
qed
qed

lemma set_above_word:
  fixes u v :: u32
  shows "set_above ((\<lambda>k. m + k) ` {k. k < 32 \<and> bit v k}) ((\<lambda>k. m + k) ` {k. k < 32 \<and> bit u k}) \<longleftrightarrow> u < v"
    "(\<lambda>k. m + k) ` {k. k < 32 \<and> bit v k} = (\<lambda>k. m + k) ` {k. k < 32 \<and> bit u k} \<longleftrightarrow> u = v"
proof -
  let ?S = "\<lambda>w :: u32. (\<lambda>k. m + k) ` {k. k < 32 \<and> bit w k}"
  have mem: "x \<in> ?S w \<longleftrightarrow> m \<le> x \<and> bit w (x - m)" for x w
    using bit_imp_le_length [of w "x - m"] by (auto simp: image_iff intro!: exI [of _ "x - m"])
  show "set_above (?S v) (?S u) \<longleftrightarrow> u < v"
  proof
    assume "set_above (?S v) (?S u)"
    then obtain e where "e \<in> ?S v - ?S u" "\<forall>x>e. x \<in> ?S v \<longleftrightarrow> x \<in> ?S u" unfolding set_above_def by blast
    then have e: "m \<le> e" "bit v (e - m)" "\<not> bit u (e - m)" "\<forall>x>e. m \<le> x \<and> bit v (x - m) \<longleftrightarrow> m \<le> x \<and> bit u (x - m)"
      unfolding mem Diff_iff by auto
    have "bit u j = bit v j" if "j > e - m" for j using e(4) [rule_format, of "m + j"] that e(1) by auto
    then show "u < v" unfolding word_less_bits using e(2,3) bit_imp_le_length [OF e(2)] by auto
  next
    assume "u < v"
    then obtain k where k: "bit v k" "\<not> bit u k" "\<forall>j>k. bit u j = bit v j" unfolding word_less_bits by blast
    have "x \<in> ?S v \<longleftrightarrow> x \<in> ?S u" if "x > m + k" for x unfolding mem using k(3) that by auto
    moreover have "m + k \<in> ?S v - ?S u" unfolding mem Diff_iff using k by simp
    ultimately show "set_above (?S v) (?S u)" unfolding set_above_def by blast
  qed
  show "?S v = ?S u \<longleftrightarrow> u = v"
  proof
    assume e: "?S v = ?S u"
    show "u = v"
    proof (rule bit_word_eqI)
      fix k assume "k < LENGTH(32)"
      have "m + k \<in> ?S v \<longleftrightarrow> m + k \<in> ?S u" using e by simp
      then show "bit u k = bit v k" unfolding mem by simp
    qed
  qed simp
qed

lemma cmp_down_above:
  assumes "1 \<le> n"
  shows "cmp_down f g n < 0 \<longleftrightarrow> set_above (word_elems f n) (word_elems g n)"
  using assms
proof (induction f g n rule: cmp_down.induct)
  case (2 f g)
  have "word_elems h 1 = (\<lambda>k. 0 + k) ` {k. k < 32 \<and> bit (h 1) k}" for h using word_elems_Suc [of h 0] by (simp add: word_elems_def)
  then show ?case using set_above_word(1) [of 0 "f 1" "g 1"] by auto
next
  case (3 f g i)
  let ?X = "\<lambda>h :: nat \<Rightarrow> u32. (\<lambda>k. 32 * Suc i + k) ` {k. k < 32 \<and> bit (h (Suc (Suc i))) k}"
  have sub: "word_elems h (Suc i) \<subseteq> {..<32 * Suc i}" "?X h \<subseteq> {32 * Suc i..}" for h by (auto simp: word_elems_def)
  have "set_above (word_elems f (Suc (Suc i))) (word_elems g (Suc (Suc i)))
    \<longleftrightarrow> g (Suc (Suc i)) < f (Suc (Suc i)) \<or> f (Suc (Suc i)) = g (Suc (Suc i)) \<and> set_above (word_elems f (Suc i)) (word_elems g (Suc i))"
    unfolding word_elems_Suc [of f "Suc i"] word_elems_Suc [of g "Suc i"] set_above_top [OF sub(1) sub(1) sub(2) sub(2)] set_above_word by auto
  then show ?case using 3 by auto
qed simp

lemma word_elems_set:
  assumes "LOOP a = n"
  shows "word_elems (\<lambda>i. a ! i) n = elems a"
  using assms by (auto simp: word_elems_def elems_iff)

lemma comparisons_above:
  assumes a: "wf_set n a" and b: "wf_set n b" and c: "wf_set n c"
  shows "descend a b < 0 \<longleftrightarrow> SIZE b < SIZE a \<or> SIZE a = SIZE b \<and> set_above (elems a) (elems b)"
    "ascend a b < 0 \<longleftrightarrow> SIZE a < SIZE b \<or> SIZE a = SIZE b \<and> set_above (elems b) (elems a)"
    "lex_order a b < 0 \<longleftrightarrow> set_above (elems a) (elems b)"
    "d1_order c a b < 0 \<longleftrightarrow> set_above (elems a \<union> elems c) (elems b \<union> elems c)"
    "desc1 (Some a) (Some b) = descend a b"
proof -
  have L: "LOOP a = LOOPINIT n" "LOOP b = LOOPINIT n" "LOOP c = LOOPINIT n" using a b c by (simp_all add: wf_LOOP)
  note E = word_elems_set [OF L(1)] word_elems_set [OF L(2)]
  have ab: "cmp_down (\<lambda>i. a ! i) (\<lambda>i. b ! i) (LOOP a) < 0 \<longleftrightarrow> set_above (elems a) (elems b)"
    using cmp_down_above [of "LOOPINIT n"] E L by simp
  have ba: "cmp_down (\<lambda>i. b ! i) (\<lambda>i. a ! i) (LOOP a) < 0 \<longleftrightarrow> set_above (elems b) (elems a)"
    using cmp_down_above [of "LOOPINIT n"] E L by simp
  show "descend a b < 0 \<longleftrightarrow> SIZE b < SIZE a \<or> SIZE a = SIZE b \<and> set_above (elems a) (elems b)"
    "ascend a b < 0 \<longleftrightarrow> SIZE a < SIZE b \<or> SIZE a = SIZE b \<and> set_above (elems b) (elems a)"
    "lex_order a b < 0 \<longleftrightarrow> set_above (elems a) (elems b)" "desc1 (Some a) (Some b) = descend a b"
    using ab ba by (auto simp: descend_def ascend_def lex_order_def)
  have u: "word_elems (\<lambda>i. s ! i OR c ! i) (LOOPINIT n) = elems s \<union> elems c" if "LOOP s = LOOPINIT n" for s
    using that L(3) by (auto simp: word_elems_def elems_iff bit_simps)
  show "d1_order c a b < 0 \<longleftrightarrow> set_above (elems a \<union> elems c) (elems b \<union> elems c)"
    using cmp_down_above [of "LOOPINIT n"] L u [OF L(1)] u [OF L(2)] by (simp add: d1_order_def)
qed

text \<open>
  C33. What the comparison functions order by, and that sorting by them sorts. One set comes before another: for
  \<^verbatim>\<open>descend\<close> and \<^verbatim>\<open>desc1\<close> exactly if its size field is greater, for \<^verbatim>\<open>ascend\<close> exactly if its size field is smaller,
  and with equal size fields (for \<^verbatim>\<open>lex_order\<close> always, for \<^verbatim>\<open>d1_order\<close> with the elements of the mask added to both) exactly
  if the greatest element in only one of the two is in the first (for \<^verbatim>\<open>ascend\<close>: in the second); \<^verbatim>\<open>desc1\<close> puts a null
  pointer after every set. Two sets compare equal exactly if they have the same elements (and the same size field, or the same elements
  outside the mask). Sorting with each of them gives a permutation in which no set precedes one that compares smaller.
\<close>

theorem comparisons_sort:
  assumes "\<forall>p\<in>set ps. wf_set n p" "wf_set n c"
  shows "sorted_wrt (\<lambda>a b. descend a b \<le> 0) (qsort descend ps) \<and> mset (qsort descend ps) = mset ps
    \<and> sorted_wrt (\<lambda>a b. ascend a b \<le> 0) (qsort ascend ps) \<and> mset (qsort ascend ps) = mset ps
    \<and> sorted_wrt (\<lambda>a b. lex_order a b \<le> 0) (qsort lex_order ps) \<and> mset (qsort lex_order ps) = mset ps
    \<and> sorted_wrt (\<lambda>a b. d1_order c a b \<le> 0) (qsort (d1_order c) ps) \<and> mset (qsort (d1_order c) ps) = mset ps
    \<and> sorted_wrt (\<lambda>a b. desc1 a b \<le> 0) (qsort desc1 (map Some ps @ [None]))
    \<and> mset (qsort desc1 (map Some ps @ [None])) = mset (map Some ps @ [None])
    \<and> (\<forall>a\<in>set ps. \<forall>b\<in>set ps.
         (descend a b < 0 \<longleftrightarrow> SIZE b < SIZE a \<or> SIZE a = SIZE b \<and> set_above (elems a) (elems b))
       \<and> (ascend a b < 0 \<longleftrightarrow> SIZE a < SIZE b \<or> SIZE a = SIZE b \<and> set_above (elems b) (elems a))
       \<and> (lex_order a b < 0 \<longleftrightarrow> set_above (elems a) (elems b))
       \<and> (d1_order c a b < 0 \<longleftrightarrow> set_above (elems a \<union> elems c) (elems b \<union> elems c))
       \<and> (desc1 (Some a) (Some b) < 0 \<longleftrightarrow> SIZE b < SIZE a \<or> SIZE a = SIZE b \<and> set_above (elems a) (elems b))
       \<and> desc1 (Some a) None < 0 \<and> desc1 None (Some a) > 0
       \<and> (descend a b = 0 \<longleftrightarrow> SIZE a = SIZE b \<and> elems a = elems b)
       \<and> (ascend a b = 0 \<longleftrightarrow> SIZE a = SIZE b \<and> elems a = elems b)
       \<and> (lex_order a b = 0 \<longleftrightarrow> elems a = elems b)
       \<and> (d1_order c a b = 0 \<longleftrightarrow> elems a \<union> elems c = elems b \<union> elems c)
       \<and> (desc1 (Some a) (Some b) = 0 \<longleftrightarrow> SIZE a = SIZE b \<and> elems a = elems b))"
proof -
  have o: "\<forall>a\<in>set (map Some ps @ [None]). opt_set n a" using assms(1) by (auto simp: opt_set_def)
  note S = descend.sorted_qsort [OF assms(1)] ascend.sorted_qsort [OF assms(1)] lex_order.sorted_qsort [OF assms(1)]
      d1_order.sorted_qsort [OF assms(1)] desc1.sorted_qsort [OF o] mset_qsort
  have "(descend a b < 0 \<longleftrightarrow> SIZE b < SIZE a \<or> SIZE a = SIZE b \<and> set_above (elems a) (elems b))
       \<and> (ascend a b < 0 \<longleftrightarrow> SIZE a < SIZE b \<or> SIZE a = SIZE b \<and> set_above (elems b) (elems a))
       \<and> (lex_order a b < 0 \<longleftrightarrow> set_above (elems a) (elems b))
       \<and> (d1_order c a b < 0 \<longleftrightarrow> set_above (elems a \<union> elems c) (elems b \<union> elems c))
       \<and> (desc1 (Some a) (Some b) < 0 \<longleftrightarrow> SIZE b < SIZE a \<or> SIZE a = SIZE b \<and> set_above (elems a) (elems b))
       \<and> desc1 (Some a) None < 0 \<and> desc1 None (Some a) > 0
       \<and> (descend a b = 0 \<longleftrightarrow> SIZE a = SIZE b \<and> elems a = elems b)
       \<and> (ascend a b = 0 \<longleftrightarrow> SIZE a = SIZE b \<and> elems a = elems b)
       \<and> (lex_order a b = 0 \<longleftrightarrow> elems a = elems b)
       \<and> (d1_order c a b = 0 \<longleftrightarrow> elems a \<union> elems c = elems b \<union> elems c)
       \<and> (desc1 (Some a) (Some b) = 0 \<longleftrightarrow> SIZE a = SIZE b \<and> elems a = elems b)" if ab: "a \<in> set ps" "b \<in> set ps" for a b
  proof -
    have w: "wf_set n a" "wf_set n b" using assms(1) ab by blast+
    note Z = descend_0 [OF w] ascend_0 [OF w] lex_order_0 [OF w] d1_order_0 [OF w assms(2)]
    note A = comparisons_above [OF w assms(2)]
    have N: "desc1 (Some a) None < 0" "desc1 None (Some a) > 0" by simp_all
    show ?thesis
    proof (intro conjI)
      show "descend a b < 0 \<longleftrightarrow> SIZE b < SIZE a \<or> SIZE a = SIZE b \<and> set_above (elems a) (elems b)" by (fact A(1))
      show "ascend a b < 0 \<longleftrightarrow> SIZE a < SIZE b \<or> SIZE a = SIZE b \<and> set_above (elems b) (elems a)" by (fact A(2))
      show "lex_order a b < 0 \<longleftrightarrow> set_above (elems a) (elems b)" by (fact A(3))
      show "d1_order c a b < 0 \<longleftrightarrow> set_above (elems a \<union> elems c) (elems b \<union> elems c)" by (fact A(4))
      show "desc1 (Some a) (Some b) < 0 \<longleftrightarrow> SIZE b < SIZE a \<or> SIZE a = SIZE b \<and> set_above (elems a) (elems b)"
        unfolding A(5) by (fact A(1))
      show "desc1 (Some a) (Some b) = 0 \<longleftrightarrow> SIZE a = SIZE b \<and> elems a = elems b" unfolding A(5) by (fact Z(1))
    qed (fact Z N)+
  qed
  note P = this
  show ?thesis by (intro conjI) (rule S | (intro ballI, rule P))+
qed

theorem comparisons_sort_witness:
  "sorted_wrt (\<lambda>a b. lex_order a b \<le> 0) (qsort lex_order [set_full 40, set_new 40]) \<and> desc1 (Some (set_new 40)) None < 0"
proof -
  have w: "\<forall>p\<in>set [set_full 40, set_new 40]. wf_set 40 p" "wf_set 40 (set_new 40)" by simp_all
  from comparisons_sort [OF this] have "sorted_wrt (\<lambda>a b. lex_order a b \<le> 0) (qsort lex_order [set_full 40, set_new 40])" by (elim conjE)
  then show ?thesis by simp
qed

end
