(* ===== verification/Contain.thy ===== *)
theory Contain
  imports SetC
begin

text \<open>
  Containment over families of sets (\<^verbatim>\<open>contain.c\<close>): sort the sets, remove duplicates
  by comparing neighbours, and look for a containing set only among the larger ones.

  The C routines pass around null-terminated arrays of pointers to the sets of a family; a pointer is here
  the pair of the row it points to and the set found there, and an array is a list of such
  pairs.  The counts that the routines return are the lengths of the lists.
\<close>

section \<open>Definitions\<close>

type_synonym sptr = "nat \<times> pset"

text \<open>A comparison function is called with the addresses of two pointers.\<close>

definition ptr_cmp :: "(pset \<Rightarrow> pset \<Rightarrow> int) \<Rightarrow> sptr \<Rightarrow> sptr \<Rightarrow> int" where
  "ptr_cmp cmp p q = cmp (snd p) (snd q)"

definition sf_list :: "set_family \<Rightarrow> sptr list" where
  "sf_list A = enumerate 0 (data A)"

text \<open>\<^verbatim>\<open>sf_sort\<close> also leaves the sizes in the sets of the family it is given.\<close>

definition put_sizes :: "set_family \<Rightarrow> set_family" where
  "put_sizes A = A\<lparr>data := map (\<lambda>p. PUTSIZE p (set_ord p)) (data A)\<rparr>"

definition sf_sort :: "set_family \<Rightarrow> (pset \<Rightarrow> pset \<Rightarrow> int) \<Rightarrow> sptr list" where
  "sf_sort A cmp = qsort (ptr_cmp cmp) (sf_list (put_sizes A))"

definition sf_unlist :: "sptr list \<Rightarrow> nat \<Rightarrow> set_family" where
  "sf_unlist A1 sz =
     (sf_new (length A1) sz)\<lparr>data := map (\<lambda>p. set_copy (replicate (SET_SIZE sz) 0) (snd p)) A1\<rparr>"

definition sf_ind_unlist :: "sptr list \<Rightarrow> nat \<Rightarrow> int list \<Rightarrow> set_family \<times> int list" where
  "sf_ind_unlist A1 sz row_indices =
     (let new_row_indices = map (\<lambda>p. row_indices ! fst p) A1
      in (sf_unlist A1 sz, new_row_indices @ drop (length A1) row_indices))"

text \<open>Of each run of equal sets, the last one stays.\<close>

fun rm_equal :: "('a \<Rightarrow> 'a \<Rightarrow> int) \<Rightarrow> 'a list \<Rightarrow> 'a list" where
  "rm_equal cmp [] = []"
| "rm_equal cmp [p] = [p]"
| "rm_equal cmp (p # q # ps) =
     (if cmp q p \<noteq> 0 then p # rm_equal cmp (q # ps) else rm_equal cmp (q # ps))"

fun d1_rm_equal :: "(sptr \<Rightarrow> sptr \<Rightarrow> int) \<Rightarrow> sptr list \<Rightarrow> sptr list" where
  "d1_rm_equal cmp [] = []"
| "d1_rm_equal cmp [p] = [p]"
| "d1_rm_equal cmp (p # q # ps) =
     (if cmp p q = 0 then d1_rm_equal cmp ((fst p, set_or (snd p) (snd p) (snd q)) # ps)
      else p # d1_rm_equal cmp (q # ps))"

text \<open>
  The loop that \<open>rm_contain\<close> and \<open>rm_rev_contain\<close> share: \<open>out\<close> is the part of the array
  below \<^verbatim>\<open>pdest\<close>, \<open>pcheck\<close> an index into it, and \<open>last\<close> the
  size seen last.  The first size read always differs from the initial -1.
\<close>

fun rm_loop :: "(pset \<Rightarrow> pset \<Rightarrow> bool) \<Rightarrow> sptr list \<Rightarrow> sptr list \<Rightarrow> nat \<Rightarrow> int \<Rightarrow> sptr list" where
  "rm_loop test [] out pcheck size0 = out"
| "rm_loop test (a # as) out pcheck size0 =
     (let (size0, pcheck) = (if int (SIZE (snd a)) \<noteq> size0 then (int (SIZE (snd a)), length out)
                            else (size0, pcheck))
      in if list_ex (\<lambda>b. test (snd a) (snd b)) (take pcheck out)
         then rm_loop test as out pcheck size0
         else rm_loop test as (out @ [a]) pcheck size0)"

definition rm_contain :: "sptr list \<Rightarrow> sptr list" where
  "rm_contain A1 = rm_loop (\<lambda>a b. setp_implies a b) A1 [] 0 (- 1)"

definition rm_rev_contain :: "sptr list \<Rightarrow> sptr list" where
  "rm_rev_contain A1 = rm_loop (\<lambda>a b. setp_implies b a) A1 [] 0 (- 1)"

definition sf_contain :: "set_family \<Rightarrow> set_family" where
  "sf_contain A =
     (let A1 = sf_sort A descend; A1 = rm_equal (ptr_cmp descend) A1; A1 = rm_contain A1
      in sf_unlist A1 (sf_size A))"

definition sf_rev_contain :: "set_family \<Rightarrow> set_family" where
  "sf_rev_contain A =
     (let A1 = sf_sort A ascend; A1 = rm_equal (ptr_cmp ascend) A1; A1 = rm_rev_contain A1
      in sf_unlist A1 (sf_size A))"

definition sf_ind_contain :: "set_family \<Rightarrow> int list \<Rightarrow> set_family \<times> int list" where
  "sf_ind_contain A row_indices =
     (let A1 = sf_sort A descend; A1 = rm_equal (ptr_cmp descend) A1; A1 = rm_contain A1
      in sf_ind_unlist A1 (sf_size A) row_indices)"

definition sf_dupl :: "set_family \<Rightarrow> set_family" where
  "sf_dupl A =
     (let A1 = sf_sort A descend; A1 = rm_equal (ptr_cmp descend) A1
      in sf_unlist A1 (sf_size A))"

text \<open>
  \<^verbatim>\<open>rm2_equal\<close> leaves the sets that are in one array only in these arrays and moves the
  common ones to the third.
\<close>

fun rm2_equal :: "('a \<Rightarrow> 'a \<Rightarrow> int) \<Rightarrow> 'a list \<Rightarrow> 'a list \<Rightarrow> 'a list \<times> 'a list \<times> 'a list" where
  "rm2_equal cmp (a # as) (b # bs) =
     (let c = cmp a b in
      if c < 0 then (let (A, B, E) = rm2_equal cmp as (b # bs) in (a # A, B, E))
      else if c = 0 then (let (A, B, E) = rm2_equal cmp as bs in (A, B, a # E))
      else (let (A, B, E) = rm2_equal cmp (a # as) bs in (A, b # B, E)))"
| "rm2_equal cmp as bs = (as, bs, [])"

text \<open>The inner loop of \<^verbatim>\<open>rm2_contain\<close> stops at the first set that is not larger.\<close>

fun contained_in :: "pset \<Rightarrow> sptr list \<Rightarrow> bool" where
  "contained_in a [] = False"
| "contained_in a (b # bs) =
     (if SIZE (snd b) > SIZE a then setp_implies a (snd b) \<or> contained_in a bs else False)"

definition rm2_contain :: "sptr list \<Rightarrow> sptr list \<Rightarrow> sptr list" where
  "rm2_contain A1 B1 = filter (\<lambda>a. \<not> contained_in (snd a) B1) A1"

definition top :: "sptr list \<Rightarrow> pset option" where
  "top xs = (case xs of [] \<Rightarrow> None | p # ps \<Rightarrow> Some (snd p))"

text \<open>
  The exchange step of the sort by which \<^verbatim>\<open>sf_merge\<close> orders the three arrays, and its main loop.
\<close>

definition order_step :: "nat \<times> nat \<Rightarrow> sptr list list \<Rightarrow> sptr list list" where
  "order_step ij temp =
     (let (i, j) = ij in
      if desc1 (top (temp ! i)) (top (temp ! j)) > 0 then temp[i := temp ! j, j := temp ! i] else temp)"

function merge_loop :: "sptr list \<Rightarrow> sptr list \<Rightarrow> sptr list \<Rightarrow> sptr list" where
  "merge_loop pmin pmid pmax =
     (case pmin of [] \<Rightarrow> []
      | ps # pmin \<Rightarrow>
          ps # (if desc1 (top pmin) (top pmax) > 0 then merge_loop pmid pmax pmin
                else if desc1 (top pmin) (top pmid) > 0 then merge_loop pmid pmin pmax
                else merge_loop pmin pmid pmax))"
  by pat_completeness auto
termination
  by (relation "measure (\<lambda>(a, b, c). length a + length b + length c)") auto

declare merge_loop.simps [simp del]

definition sf_merge :: "sptr list \<Rightarrow> sptr list \<Rightarrow> sptr list \<Rightarrow> nat \<Rightarrow> set_family" where
  "sf_merge A1 B1 E1 sz =
     (let temp = fold order_step [(0, 1), (0, 2), (1, 2)] [A1, B1, E1]
      in sf_unlist (merge_loop (temp ! 0) (temp ! 1) (temp ! 2)) sz)"

text \<open>
  The two calls of \<open>rm2_contain\<close> in \<^verbatim>\<open>cnt += rm2_contain(A1, B1) + rm2_contain(B1, A1)\<close>
  change the arrays; C does not fix their order, the model takes the left one first.
\<close>

definition sf_union :: "set_family \<Rightarrow> set_family \<Rightarrow> set_family" where
  "sf_union A B =
     (let (A1, B1, E1) = rm2_equal (ptr_cmp descend) (sf_list A) (sf_list B);
          A1 = rm2_contain A1 B1;
          B1 = rm2_contain B1 A1
      in sf_merge A1 B1 E1 (sf_size A))"

definition dist_merge :: "set_family \<Rightarrow> pset \<Rightarrow> set_family" where
  "dist_merge A msk =
     (let A1 = sf_sort A (d1_order msk); A1 = d1_rm_equal (ptr_cmp (d1_order msk)) A1
      in sf_unlist A1 (sf_size A))"

definition d1merge :: "cube_struct \<Rightarrow> set_family \<Rightarrow> nat \<Rightarrow> set_family" where
  "d1merge C A var = dist_merge A (var_mask C ! var)"

section \<open>Pointers and sorting\<close>

definition wf_ptrs :: "nat \<Rightarrow> sptr list \<Rightarrow> bool" where
  "wf_ptrs n xs \<longleftrightarrow> (\<forall>p\<in>set xs. wf_set n (snd p))"

lemma wf_ptrs_simps [simp]:
  "wf_ptrs n []" "wf_ptrs n (p # xs) \<longleftrightarrow> wf_set n (snd p) \<and> wf_ptrs n xs"
  "wf_ptrs n (xs @ ys) \<longleftrightarrow> wf_ptrs n xs \<and> wf_ptrs n ys"
  by (auto simp: wf_ptrs_def)

lemma wf_ptrs_subset: "wf_ptrs n xs \<Longrightarrow> set ys \<subseteq> set xs \<Longrightarrow> wf_ptrs n ys"
  by (auto simp: wf_ptrs_def)

lemma comparison_ptr: "comparison cmp D \<Longrightarrow> comparison (ptr_cmp cmp) (\<lambda>p. D (snd p))"
  unfolding comparison_def ptr_cmp_def by blast

interpretation pdescend: comparison "ptr_cmp descend" "\<lambda>p. wf_set n (snd p)"
  by (rule comparison_ptr) (rule descend.comparison_axioms)

interpretation pascend: comparison "ptr_cmp ascend" "\<lambda>p. wf_set n (snd p)"
  by (rule comparison_ptr) (rule ascend.comparison_axioms)

interpretation pd1_order: comparison "ptr_cmp (d1_order c)" "\<lambda>p. wf_set n (snd p)"
  by (rule comparison_ptr) (rule d1_order.comparison_axioms)

lemma map_snd_sf_list [simp]: "map snd (sf_list A) = data A"
  by (simp add: sf_list_def)

lemma snd_set_sf_list: "snd ` set (sf_list A) = set (data A)"
  by (metis map_snd_sf_list set_map)

lemma put_sizes_simps [simp]:
  "wf_family n A \<Longrightarrow> wf_family n (put_sizes A)" "sf_size (put_sizes A) = sf_size A"
  "map elems (data (put_sizes A)) = map elems (data A)" "cnt (put_sizes A) = cnt A"
  by (auto simp: put_sizes_def wf_family_def)

lemma wf_sf_list: "wf_family n A \<Longrightarrow> wf_ptrs n (sf_list A)"
  unfolding wf_ptrs_def using snd_set_sf_list [of A] wf_familyD(3) [of n A] by blast

text \<open>The size field is right: 16 bits are enough for any set the header can describe.\<close>

lemma card_elems_less: "card (elems a) < 2 ^ 16"
proof -
  have "card (elems a) \<le> card {..<NELEM a}" by (rule card_mono) (auto simp: elems_def)
  also have "\<dots> < 2 ^ 16" using LOOP_less [of a] by (simp add: NELEM_def)
  finally show ?thesis .
qed

lemma SIZE_put: "wf_set n p \<Longrightarrow> SIZE (PUTSIZE p (set_ord p)) = card (elems p)"
  using card_elems_less [of p] wf_nonempty [of n p] by (simp add: SIZE_PUTSIZE set_ord_card)

definition sized :: "sptr list \<Rightarrow> bool" where
  "sized xs \<longleftrightarrow> (\<forall>p\<in>set xs. SIZE (snd p) = card (elems (snd p)))"

lemma sized_subset: "sized xs \<Longrightarrow> set ys \<subseteq> set xs \<Longrightarrow> sized ys"
  by (auto simp: sized_def)

lemma sf_sort_set: "set (sf_sort A cmp) = set (sf_list (put_sizes A))"
  by (simp add: sf_sort_def)

lemma sf_sort_wf:
  assumes "wf_family n A"
  shows "wf_ptrs n (sf_sort A cmp)" "sized (sf_sort A cmp)" "length (sf_sort A cmp) = cnt A"
    "(\<lambda>p. elems (snd p)) ` set (sf_sort A cmp) = elems ` set (data A)"
proof -
  let ?P = "sf_list (put_sizes A)"
  show "wf_ptrs n (sf_sort A cmp)"
    using wf_sf_list [of n "put_sizes A"] assms sf_sort_set by (simp add: wf_ptrs_def)
  have s: "snd ` set ?P = (\<lambda>p. PUTSIZE p (set_ord p)) ` set (data A)"
    unfolding snd_set_sf_list by (simp add: put_sizes_def)
  show "sized (sf_sort A cmp)" unfolding sized_def sf_sort_set
  proof
    fix p assume "p \<in> set ?P"
    then obtain q where q: "q \<in> set (data A)" "snd p = PUTSIZE q (set_ord q)" using s by blast
    then show "SIZE (snd p) = card (elems (snd p))" using SIZE_put [OF wf_familyD(3) [OF assms q(1)]] by simp
  qed
  show "length (sf_sort A cmp) = cnt A" by (simp add: sf_sort_def sf_list_def put_sizes_def)
  have "(\<lambda>p. elems (snd p)) ` set ?P = elems ` (snd ` set ?P)" by (simp add: image_image)
  then show "(\<lambda>p. elems (snd p)) ` set (sf_sort A cmp) = elems ` set (data A)"
    unfolding sf_sort_set s by (simp add: image_image)
qed

lemma sf_unlist_spec:
  assumes "wf_ptrs n xs"
  shows "data (sf_unlist xs n) = map snd xs" "wf_family n (sf_unlist xs n)"
proof -
  show "data (sf_unlist xs n) = map snd xs"
    using assms unfolding sf_unlist_def wf_ptrs_def by (auto intro!: set_copy_eq)
  then show "wf_family n (sf_unlist xs n)"
    using assms by (auto simp: wf_family_def wf_ptrs_def) (simp_all add: sf_unlist_def)
qed


section \<open>Removing duplicates\<close>

context comparison
begin

lemma less_le_trans:
  assumes "dom x" "dom y" "dom z" "cmp x y < 0" "cmp y z \<le> 0"
  shows "cmp x z < 0"
proof -
  have "cmp x z \<le> 0" using trans_le [of x y z] assms by simp
  moreover have "cmp x z \<noteq> 0"
  proof
    assume "cmp x z = 0"
    then have "cmp z x \<le> 0" using flip [of x z] assms by simp
    then have "cmp y x \<le> 0" using trans_le [of y z x] assms by simp
    then show False using flip [of x y] assms by simp
  qed
  ultimately show ?thesis by simp
qed

lemma rm_equal_subset: "set (rm_equal cmp xs) \<subseteq> set xs"
  by (induction cmp xs rule: rm_equal.induct) auto

lemma rm_equal_spec:
  assumes "\<forall>x\<in>set xs. dom x" "sorted_wrt (\<lambda>a b. cmp a b \<le> 0) xs"
  shows "\<forall>x\<in>set xs. \<exists>y\<in>set (rm_equal cmp xs). cmp x y = 0"
    "sorted_wrt (\<lambda>a b. cmp a b < 0) (rm_equal cmp xs)"
proof -
  have "(\<forall>x\<in>set xs. \<exists>y\<in>set (rm_equal cmp xs). cmp x y = 0) \<and> sorted_wrt (\<lambda>a b. cmp a b < 0) (rm_equal cmp xs)"
    using assms
  proof (induction xs rule: induct_list012)
    case (3 p q ps)
    have D: "dom p" "dom q" "\<forall>x\<in>set (q # ps). dom x" using "3.prems"(1) by simp_all
    have S: "cmp p q \<le> 0" "sorted_wrt (\<lambda>a b. cmp a b \<le> 0) (q # ps)" using "3.prems"(2) by simp_all
    note IH = "3.IH"(2) [OF D(3) S(2)]
    show ?case
    proof (cases "cmp q p = 0")
      case True
      then have pq: "cmp p q = 0" using cmp_eq_sym D by blast
      obtain y where y: "y \<in> set (rm_equal cmp (q # ps))" "cmp q y = 0" using IH by auto
      then have "dom y" using rm_equal_subset [of "q # ps"] D(3) by blast
      then have "cmp p y = 0" using cmp_eq_trans [of p q y] D pq y by simp
      then show ?thesis using IH y True by auto
    next
      case False
      then have lt: "cmp p q < 0" using flip [of q p] D S(1) by simp
      have "cmp p y < 0" if "y \<in> set (rm_equal cmp (q # ps))" for y
      proof -
        have y: "y \<in> set (q # ps)" "dom y" using that rm_equal_subset [of "q # ps"] D(3) by blast+
        then have "cmp q y \<le> 0" using S(2) cmp_refl [OF D(2)] by auto
        then show ?thesis using less_le_trans [of p q y] D y lt by simp
      qed
      then show ?thesis using IH False cmp_refl [OF D(1)] by auto
    qed
  qed (auto simp: cmp_refl)
  then show "\<forall>x\<in>set xs. \<exists>y\<in>set (rm_equal cmp xs). cmp x y = 0"
    "sorted_wrt (\<lambda>a b. cmp a b < 0) (rm_equal cmp xs)" by blast+
qed

lemma strictly_sorted_distinct:
  assumes "\<forall>x\<in>set xs. dom x" "sorted_wrt (\<lambda>a b. cmp a b < 0) xs" "x \<in> set xs" "y \<in> set xs" "cmp x y = 0"
  shows "x = y"
proof (rule ccontr)
  assume "x \<noteq> y"
  then obtain i j where ij: "i < length xs" "j < length xs" "i \<noteq> j" "x = xs ! i" "y = xs ! j"
    using assms(3,4) by (auto simp: in_set_conv_nth)
  then consider "i < j" | "j < i" by linarith
  then show False
  proof cases
    case 1
    then show ?thesis using sorted_wrt_nth_less [OF assms(2) 1 ij(2)] ij assms(5) by simp
  next
    case 2
    then have "cmp y x < 0" using sorted_wrt_nth_less [OF assms(2) 2 ij(1)] ij by simp
    moreover have "dom x" "dom y" using assms(1,3,4) by blast+
    ultimately show ?thesis using cmp_eq_sym [of x y] assms(5) by simp
  qed
qed

lemma strictly_sorted_dist: "\<forall>x\<in>set xs. dom x \<Longrightarrow> sorted_wrt (\<lambda>a b. cmp a b < 0) xs \<Longrightarrow> distinct xs"
proof (induction xs)
  case (Cons x xs)
  have "x \<notin> set xs"
  proof
    assume "x \<in> set xs"
    then have "cmp x x < 0" using Cons.prems(2) by simp
    then show False using cmp_refl [of x] Cons.prems(1) by simp
  qed
  then show ?case using Cons by simp
qed simp

end

section \<open>Containment within one array\<close>

text \<open>
  Abstractly: elements come in decreasing order of \<open>f\<close>, a covering element has a larger \<open>f\<close>,
  and the loop keeps exactly the elements that no other element covers.
\<close>

lemma max_elem:
  fixes f :: "'a \<Rightarrow> int"
  assumes "finite S" "S \<noteq> {}"
  obtains m where "m \<in> S" "\<forall>x\<in>S. f x \<le> f m"
proof -
  have "Max (f ` S) \<in> f ` S" using assms by simp
  then obtain m where "m \<in> S" "f m = Max (f ` S)" by auto
  then show ?thesis using that [of m] assms(1) by simp
qed

lemma rm_loop_eq:
  fixes f :: "sptr \<Rightarrow> int"
  assumes trans: "\<And>a b c. a \<in> set xs \<Longrightarrow> b \<in> set xs \<Longrightarrow> c \<in> set xs \<Longrightarrow>
        test (snd a) (snd b) \<Longrightarrow> test (snd b) (snd c) \<Longrightarrow> test (snd a) (snd c)"
    and f: "\<And>a b. a \<in> set xs \<Longrightarrow> b \<in> set xs \<Longrightarrow> a \<noteq> b \<Longrightarrow> test (snd a) (snd b) \<Longrightarrow> f a < f b"
    and sz: "\<And>a b. a \<in> set xs \<Longrightarrow> b \<in> set xs \<Longrightarrow> SIZE (snd a) = SIZE (snd b) \<longleftrightarrow> f a = f b"
    and sorted: "sorted_wrt (\<lambda>a b. f a \<ge> f b) xs" and dist: "distinct xs"
  shows "rm_loop test xs [] 0 (- 1) = filter (\<lambda>a. \<not> (\<exists>b\<in>set xs. b \<noteq> a \<and> test (snd a) (snd b))) xs"
proof -
  let ?M = "\<lambda>a. \<not> (\<exists>b\<in>set xs. b \<noteq> a \<and> test (snd a) (snd b))"
  have "rm_loop test todo (filter ?M (Q @ R)) (length (filter ?M Q)) s = filter ?M xs"
    if "xs = Q @ R @ todo" "R = [] \<longrightarrow> Q = [] \<and> s = - 1" "\<forall>r\<in>set R. int (SIZE (snd r)) = s"
      "\<forall>q\<in>set Q. \<forall>r\<in>set R. f r < f q" for Q R todo s
    using that
  proof (induction todo arbitrary: Q R s)
    case (Cons a as)
    have X: "set Q \<subseteq> set xs" "set R \<subseteq> set xs" "a \<in> set xs" "set as \<subseteq> set xs" using Cons.prems(1) by auto
    have srt: "\<forall>p\<in>set (Q @ R). f a \<le> f p" "\<forall>p\<in>set as. f p \<le> f a"
      using sorted unfolding Cons.prems(1) by (auto simp: sorted_wrt_append)
    define Q' R' where "Q' = (if int (SIZE (snd a)) \<noteq> s then Q @ R else Q)"
      and "R' = (if int (SIZE (snd a)) \<noteq> s then [a] else R @ [a])"
    have QR: "Q' @ R' = (Q @ R) @ [a]" by (simp add: Q'_def R'_def)
    have hi: "f a < f q" if q: "q \<in> set Q'" for q
    proof (cases "int (SIZE (snd a)) = s")
      case True
      then have "R \<noteq> []" using Cons.prems(2) by auto
      then obtain r where r: "r \<in> set R" using hd_in_set [of R] by blast
      then have "f a = f r" using sz [of a r] X Cons.prems(3) True by auto
      then show ?thesis using q r Cons.prems(4) True by (simp add: Q'_def)
    next
      case False
      have "f q \<noteq> f a"
      proof (cases "q \<in> set R")
        case True
        then have "q \<in> set xs" using X(2) by blast
        then show ?thesis using sz [of q a] X(3) Cons.prems(3) False True by auto
      next
        case qR: False
        then have "q \<in> set Q" "R \<noteq> []" using q False Cons.prems(2) by (auto simp: Q'_def)
        then obtain r where "r \<in> set R" "f r < f q" using Cons.prems(4) hd_in_set [of R] by blast
        moreover have "f a \<le> f r" using srt(1) calculation(1) by simp
        ultimately show ?thesis by simp
      qed
      moreover have "f a \<le> f q" using srt(1) q False by (simp add: Q'_def)
      ultimately show ?thesis by simp
    qed
    have eqR: "f r = f a \<and> int (SIZE (snd r)) = int (SIZE (snd a))" if r: "r \<in> set R'" for r
      using r sz [of r a] X Cons.prems(3) by (auto simp: R'_def split: if_splits)
    have test: "(\<exists>b\<in>set Q'. ?M b \<and> test (snd a) (snd b)) \<longleftrightarrow> \<not> ?M a"
    proof
      assume "\<exists>b\<in>set Q'. ?M b \<and> test (snd a) (snd b)"
      then obtain b where "b \<in> set Q'" "test (snd a) (snd b)" by blast
      moreover from this have "b \<in> set xs" "f a < f b"
        using X hi by (auto simp: Q'_def split: if_splits)
      then have "b \<in> set xs" "b \<noteq> a" by auto
      ultimately show "\<not> ?M a" by blast
    next
      let ?S = "{b \<in> set xs. b \<noteq> a \<and> test (snd a) (snd b)}"
      assume "\<not> ?M a"
      then have "?S \<noteq> {}" by blast
      then obtain b where b: "b \<in> ?S" "\<forall>c\<in>?S. f c \<le> f b" using max_elem [of ?S f] by auto
      have fb: "f a < f b" using b f [of a b] X(3) by auto
      have "?M b"
      proof
        assume "\<exists>c\<in>set xs. c \<noteq> b \<and> test (snd b) (snd c)"
        then obtain c where c: "c \<in> set xs" "c \<noteq> b" "test (snd b) (snd c)" by blast
        then have "f b < f c" "test (snd a) (snd c)" using f [of b c] trans [of a b c] b X(3) by auto
        then have "c \<in> ?S" using c(1) fb by auto
        then have "f c \<le> f b" using b(2) by blast
        then show False using \<open>f b < f c\<close> by simp
      qed
      moreover have "b \<in> set Q'"
      proof -
        have "b \<in> set ((Q @ R) @ [a]) \<or> b \<in> set as" using b(1) unfolding Cons.prems(1) by auto
        moreover have "b \<notin> set as" using srt(2) fb by auto
        ultimately have "b \<in> set (Q' @ R')" unfolding QR by simp
        moreover have "b \<notin> set R'" using eqR [of b] fb by (metis less_irrefl)
        ultimately show ?thesis by simp
      qed
      ultimately show "\<exists>b\<in>set Q'. ?M b \<and> test (snd a) (snd b)" using b(1) by blast
    qed
    let ?s = "if int (SIZE (snd a)) \<noteq> s then int (SIZE (snd a)) else s"
    have upd: "(if int (SIZE (snd a)) \<noteq> s then (int (SIZE (snd a)), length (filter ?M (Q @ R)))
        else (s, length (filter ?M Q))) = (?s, length (filter ?M Q'))"
      by (simp add: Q'_def)
    have tk: "take (length (filter ?M Q')) (filter ?M (Q @ R)) = filter ?M Q'"
      by (simp add: Q'_def)
    have test': "list_ex (\<lambda>b. test (snd a) (snd b)) (filter ?M Q') \<longleftrightarrow> \<not> ?M a"
      using test by (simp only: list_ex_iff set_filter) blast
    have snoc: "filter ?M ((Q @ R) @ [a]) = (if ?M a then filter ?M (Q @ R) @ [a] else filter ?M (Q @ R))"
      by simp
    have run: "rm_loop test (a # as) (filter ?M (Q @ R)) (length (filter ?M Q)) s =
        rm_loop test as (filter ?M (Q' @ R')) (length (filter ?M Q')) ?s"
      unfolding rm_loop.simps upd Let_def split_conv tk QR snoc test' by (simp only: not_not if_cancel split: if_split) blast
    show ?case unfolding run
    proof (rule Cons.IH)
      show "xs = Q' @ R' @ as" using QR Cons.prems(1) by (metis append.assoc append_Cons append_Nil)
      show "R' = [] \<longrightarrow> Q' = [] \<and> ?s = - 1" by (simp add: R'_def)
      show "\<forall>r\<in>set R'. int (SIZE (snd r)) = ?s" using eqR by auto
      show "\<forall>q\<in>set Q'. \<forall>r\<in>set R'. f r < f q" using hi eqR by auto
    qed
  qed simp
  from this [of "[]" "[]" xs "- 1"] show ?thesis by simp
qed

lemma subset_ptr: "wf_set n (snd a) \<Longrightarrow> wf_set n (snd b) \<Longrightarrow> setp_implies (snd a) (snd b) \<longleftrightarrow> elems (snd a) \<subseteq> elems (snd b)"
  by (rule setp_implies_iff)

text \<open>
  What the routines below need from an order for the sort: it compares the size fields first, so
  that with the sizes filled in, sets compare equal only if they have the same elements.
\<close>

locale size_order = ptr: comparison "ptr_cmp cmp" "\<lambda>p. wf_set n (snd p)"
  for cmp :: "pset \<Rightarrow> pset \<Rightarrow> int" and n :: nat +
  assumes zero: "wf_set n a \<Longrightarrow> wf_set n b \<Longrightarrow> cmp a b = 0 \<longleftrightarrow> SIZE a = SIZE b \<and> elems a = elems b"
begin

lemma same_elems:
  assumes "wf_ptrs n xs" "sized xs" "sorted_wrt (\<lambda>a b. ptr_cmp cmp a b < 0) xs"
    and "a \<in> set xs" "b \<in> set xs" "elems (snd a) = elems (snd b)"
  shows "a = b"
proof -
  have D: "\<forall>p\<in>set xs. wf_set n (snd p)" using assms(1) by (simp add: wf_ptrs_def)
  have "SIZE (snd a) = SIZE (snd b)" using assms(2,4-6) by (simp add: sized_def)
  then have "ptr_cmp cmp a b = 0"
    using zero [of "snd a" "snd b"] D assms(4-6) by (simp add: ptr_cmp_def)
  then show ?thesis by (rule ptr.strictly_sorted_distinct [OF D assms(3-5)])
qed

lemma strict_distinct:
  assumes "wf_ptrs n xs" "sorted_wrt (\<lambda>a b. ptr_cmp cmp a b < 0) xs"
  shows "distinct xs"
  by (rule ptr.strictly_sorted_dist [OF _ assms(2)]) (use assms(1) in \<open>simp add: wf_ptrs_def\<close>)

text \<open>What sorting and removing equal sets leaves.\<close>

lemma sort_equal:
  assumes A: "wf_family n A"
  defines "xs \<equiv> rm_equal (ptr_cmp cmp) (sf_sort A cmp)"
  shows "wf_ptrs n xs" "sized xs" "sorted_wrt (\<lambda>a b. ptr_cmp cmp a b < 0) xs"
    "(\<lambda>p. elems (snd p)) ` set xs = elems ` set (data A)" "set xs \<subseteq> set (sf_sort A cmp)"
    "distinct (map (\<lambda>p. elems (snd p)) xs)"
proof -
  note S = sf_sort_wf [OF A, of cmp]
  have D: "\<forall>p\<in>set (sf_sort A cmp). wf_set n (snd p)" using S(1) by (simp add: wf_ptrs_def)
  have srt: "sorted_wrt (\<lambda>a b. ptr_cmp cmp a b \<le> 0) (sf_sort A cmp)"
    unfolding sf_sort_def by (rule ptr.sorted_qsort) (use D in \<open>simp add: sf_sort_set\<close>)
  note E = ptr.rm_equal_spec [OF D srt, folded xs_def]
  show sub: "set xs \<subseteq> set (sf_sort A cmp)" unfolding xs_def by (rule ptr.rm_equal_subset)
  show w: "wf_ptrs n xs" by (rule wf_ptrs_subset [OF S(1) sub])
  show sz: "sized xs" by (rule sized_subset [OF S(2) sub])
  show "sorted_wrt (\<lambda>a b. ptr_cmp cmp a b < 0) xs" by (rule E(2))
  have same: "\<exists>y\<in>set xs. elems (snd x) = elems (snd y)" if x: "x \<in> set (sf_sort A cmp)" for x
  proof -
    obtain y where y: "y \<in> set xs" "ptr_cmp cmp x y = 0" using E(1) x by blast
    then have "wf_set n (snd x)" "wf_set n (snd y)" using D x sub by blast+
    then have "elems (snd x) = elems (snd y)" using zero y(2) unfolding ptr_cmp_def by blast
    with y(1) show ?thesis by blast
  qed
  have "(\<lambda>p. elems (snd p)) ` set xs = (\<lambda>p. elems (snd p)) ` set (sf_sort A cmp)"
    using sub same by (auto simp: image_iff)
  then show "(\<lambda>p. elems (snd p)) ` set xs = elems ` set (data A)" unfolding S(4) .
  have "inj_on (\<lambda>p. elems (snd p)) (set xs)"
    by (rule inj_onI) (rule same_elems [OF w sz E(2)])
  then show "distinct (map (\<lambda>p. elems (snd p)) xs)"
    using strict_distinct [OF w E(2)] by (simp add: distinct_map)
qed

end

interpretation big_first: size_order descend n
  unfolding size_order_def size_order_axioms_def
  using pdescend.comparison_axioms [of n] descend_0 [of n] by blast

interpretation small_first: size_order ascend n
  unfolding size_order_def size_order_axioms_def
  using pascend.comparison_axioms [of n] ascend_0 [of n] by blast

lemma rm_contain_spec:
  assumes wf: "wf_ptrs n xs" and sz: "sized xs" and srt: "sorted_wrt (\<lambda>a b. ptr_cmp descend a b < 0) xs"
  shows "rm_contain xs = filter (\<lambda>a. \<not> (\<exists>b\<in>set xs. elems (snd a) \<subset> elems (snd b))) xs"
proof -
  have w: "wf_set n (snd a)" if "a \<in> set xs" for a using wf that by (simp add: wf_ptrs_def)
  have size: "SIZE (snd a) = card (elems (snd a))" if "a \<in> set xs" for a using sz that by (simp add: sized_def)
  note same = big_first.same_elems [OF wf sz srt]
  have cov: "b \<noteq> a \<and> setp_implies (snd a) (snd b) \<longleftrightarrow> elems (snd a) \<subset> elems (snd b)" if "a \<in> set xs" "b \<in> set xs" for a b
    using subset_ptr [OF w w] same [of a b] that by auto
  have "rm_contain xs = filter (\<lambda>a. \<not> (\<exists>b\<in>set xs. b \<noteq> a \<and> setp_implies (snd a) (snd b))) xs"
    unfolding rm_contain_def
  proof (rule rm_loop_eq [where f = "\<lambda>a. int (SIZE (snd a))"])
    show "setp_implies (snd a) (snd b) \<Longrightarrow> setp_implies (snd b) (snd c) \<Longrightarrow> setp_implies (snd a) (snd c)"
      if "a \<in> set xs" "b \<in> set xs" "c \<in> set xs" for a b c
      using subset_ptr [OF w w] that by blast
    show "int (SIZE (snd a)) < int (SIZE (snd b))"
      if "a \<in> set xs" "b \<in> set xs" "a \<noteq> b" "setp_implies (snd a) (snd b)" for a b
      using cov [OF that(1,2)] that psubset_card_mono [of "elems (snd b)" "elems (snd a)"] size by simp
    show "sorted_wrt (\<lambda>a b. int (SIZE (snd a)) \<ge> int (SIZE (snd b))) xs"
      using srt by (rule sorted_wrt_mono_rel [rotated]) (auto simp: ptr_cmp_def descend_def split: if_splits)
    show "distinct xs" by (rule big_first.strict_distinct [OF wf srt])
  qed simp
  also have "\<dots> = filter (\<lambda>a. \<not> (\<exists>b\<in>set xs. elems (snd a) \<subset> elems (snd b))) xs"
    by (rule filter_cong) (use cov in auto)
  finally show ?thesis .
qed

lemma rm_rev_contain_spec:
  assumes wf: "wf_ptrs n xs" and sz: "sized xs" and srt: "sorted_wrt (\<lambda>a b. ptr_cmp ascend a b < 0) xs"
  shows "rm_rev_contain xs = filter (\<lambda>a. \<not> (\<exists>b\<in>set xs. elems (snd b) \<subset> elems (snd a))) xs"
proof -
  have w: "wf_set n (snd a)" if "a \<in> set xs" for a using wf that by (simp add: wf_ptrs_def)
  have size: "SIZE (snd a) = card (elems (snd a))" if "a \<in> set xs" for a using sz that by (simp add: sized_def)
  note same = small_first.same_elems [OF wf sz srt]
  have cov: "b \<noteq> a \<and> setp_implies (snd b) (snd a) \<longleftrightarrow> elems (snd b) \<subset> elems (snd a)" if "a \<in> set xs" "b \<in> set xs" for a b
    using subset_ptr [OF w w] same [of a b] that by auto
  have "rm_rev_contain xs = filter (\<lambda>a. \<not> (\<exists>b\<in>set xs. b \<noteq> a \<and> setp_implies (snd b) (snd a))) xs"
    unfolding rm_rev_contain_def
  proof (rule rm_loop_eq [where f = "\<lambda>a. - int (SIZE (snd a))" and test = "\<lambda>a b. setp_implies b a"])
    show "setp_implies (snd b) (snd a) \<Longrightarrow> setp_implies (snd c) (snd b) \<Longrightarrow> setp_implies (snd c) (snd a)"
      if "a \<in> set xs" "b \<in> set xs" "c \<in> set xs" for a b c
      using subset_ptr [OF w w] that by blast
    show "- int (SIZE (snd a)) < - int (SIZE (snd b))"
      if "a \<in> set xs" "b \<in> set xs" "a \<noteq> b" "setp_implies (snd b) (snd a)" for a b
      using cov [OF that(1,2)] that psubset_card_mono [of "elems (snd a)" "elems (snd b)"] size by simp
    show "sorted_wrt (\<lambda>a b. - int (SIZE (snd a)) \<ge> - int (SIZE (snd b))) xs"
      using srt by (rule sorted_wrt_mono_rel [rotated]) (auto simp: ptr_cmp_def ascend_def split: if_splits)
    show "distinct xs" by (rule small_first.strict_distinct [OF wf srt])
  qed simp
  also have "\<dots> = filter (\<lambda>a. \<not> (\<exists>b\<in>set xs. elems (snd b) \<subset> elems (snd a))) xs"
    by (rule filter_cong) (use cov in auto)
  finally show ?thesis .
qed

text \<open>The largest and the smallest sets of a collection.\<close>

definition maximal_sets :: "'a set set \<Rightarrow> 'a set set" where
  "maximal_sets S = {X \<in> S. \<not> (\<exists>Y\<in>S. X \<subset> Y)}"

definition minimal_sets :: "'a set set \<Rightarrow> 'a set set" where
  "minimal_sets S = {X \<in> S. \<not> (\<exists>Y\<in>S. Y \<subset> X)}"

lemma maximal_above:
  assumes "finite S" "X \<in> S"
  shows "\<exists>Y\<in>maximal_sets S. X \<subseteq> Y"
proof -
  obtain Y where "Y \<in> S" "X \<subseteq> Y" "\<forall>Z\<in>S. Y \<subseteq> Z \<longrightarrow> Z = Y"
    using finite_has_maximal2 [OF assms] by metis
  then show ?thesis unfolding maximal_sets_def by blast
qed

lemma minimal_below:
  assumes "finite S" "X \<in> S"
  shows "\<exists>Y\<in>minimal_sets S. Y \<subseteq> X"
proof -
  obtain Y where "Y \<in> S" "Y \<subseteq> X" "\<forall>Z\<in>S. Z \<subseteq> Y \<longrightarrow> Z = Y"
    using finite_has_minimal2 [OF assms] by metis
  then show ?thesis unfolding minimal_sets_def by blast
qed

lemma maximal_subset: "maximal_sets S \<subseteq> S" and minimal_subset: "minimal_sets S \<subseteq> S"
  by (auto simp: maximal_sets_def minimal_sets_def)

lemma cov_maximal: "finite S \<Longrightarrow> cov C (maximal_sets S) = cov C S"
  using cov_dominated [of S "maximal_sets S" C] maximal_above [of S] cov_mono [OF maximal_subset, of C S] by blast

lemma filter_maximal:
  "(\<lambda>p. elems (snd p)) ` set (filter (\<lambda>a. \<not> (\<exists>b\<in>set xs. elems (snd a) \<subset> elems (snd b))) xs)
   = maximal_sets ((\<lambda>p. elems (snd p)) ` set xs)"
  "(\<lambda>p. elems (snd p)) ` set (filter (\<lambda>a. \<not> (\<exists>b\<in>set xs. elems (snd b) \<subset> elems (snd a))) xs)
   = minimal_sets ((\<lambda>p. elems (snd p)) ` set xs)"
  by (auto simp: maximal_sets_def minimal_sets_def)


section \<open>The routines on families\<close>

lemma sf_contain_spec:
  assumes A: "wf_family n A"
  shows "wf_family n (sf_contain A)" "elems ` set (data (sf_contain A)) = maximal_sets (elems ` set (data A))"
    "distinct (map elems (data (sf_contain A)))" "cnt (sf_contain A) \<le> cnt A"
    "sorted_wrt (\<lambda>p q. descend p q < 0) (data (sf_contain A))"
    "\<forall>p\<in>set (data (sf_contain A)). SIZE p = card (elems p)"
proof -
  let ?xs = "rm_equal (ptr_cmp descend) (sf_sort A descend)"
  note E = big_first.sort_equal [OF A]
  note R = rm_contain_spec [OF E(1-3)]
  have sub: "set (rm_contain ?xs) \<subseteq> set ?xs" unfolding R by auto
  have eq: "sf_contain A = sf_unlist (rm_contain ?xs) n"
    using A by (simp add: sf_contain_def Let_def wf_family_def)
  have w: "wf_ptrs n (rm_contain ?xs)" by (rule wf_ptrs_subset [OF E(1) sub])
  note U = sf_unlist_spec [OF w]
  show "wf_family n (sf_contain A)" unfolding eq by (rule U(2))
  have "elems ` set (data (sf_contain A)) = (\<lambda>p. elems (snd p)) ` set (rm_contain ?xs)"
    unfolding eq U(1) by (simp add: image_image)
  then show "elems ` set (data (sf_contain A)) = maximal_sets (elems ` set (data A))"
    unfolding R filter_maximal E(4) .
  have "map elems (data (sf_contain A)) = map (\<lambda>p. elems (snd p)) (rm_contain ?xs)"
    unfolding eq U(1) by simp
  then show "distinct (map elems (data (sf_contain A)))"
    using E(6) unfolding R by (simp add: distinct_map_filter)
  have "length (rm_contain ?xs) \<le> length ?xs" unfolding R by (rule length_filter_le)
  also have "\<dots> = card (set ?xs)" using big_first.strict_distinct [OF E(1,3)] by (rule distinct_card [symmetric])
  also have "\<dots> \<le> card (set (sf_sort A descend))" by (rule card_mono) (use E(5) in auto)
  also have "\<dots> \<le> cnt A" using card_length [of "sf_sort A descend"] sf_sort_wf(3) [OF A] by simp
  finally show "cnt (sf_contain A) \<le> cnt A" unfolding eq U(1) by simp
  have "sorted_wrt (\<lambda>a b. ptr_cmp descend a b < 0) (rm_contain ?xs)"
    unfolding R using E(3) by (rule sorted_wrt_filter)
  then show "sorted_wrt (\<lambda>p q. descend p q < 0) (data (sf_contain A))"
    unfolding eq U(1) by (simp add: sorted_wrt_map ptr_cmp_def)
  show "\<forall>p\<in>set (data (sf_contain A)). SIZE p = card (elems p)"
    using sized_subset [OF E(2) sub] unfolding eq U(1) sized_def by simp
qed

lemma sf_rev_contain_spec:
  assumes A: "wf_family n A"
  shows "wf_family n (sf_rev_contain A)"
    "elems ` set (data (sf_rev_contain A)) = minimal_sets (elems ` set (data A))"
    "distinct (map elems (data (sf_rev_contain A)))"
proof -
  let ?xs = "rm_equal (ptr_cmp ascend) (sf_sort A ascend)"
  note E = small_first.sort_equal [OF A]
  note R = rm_rev_contain_spec [OF E(1-3)]
  have sub: "set (rm_rev_contain ?xs) \<subseteq> set ?xs" unfolding R by auto
  have eq: "sf_rev_contain A = sf_unlist (rm_rev_contain ?xs) n"
    using A by (simp add: sf_rev_contain_def Let_def wf_family_def)
  note U = sf_unlist_spec [OF wf_ptrs_subset [OF E(1) sub]]
  show "wf_family n (sf_rev_contain A)" unfolding eq by (rule U(2))
  have "elems ` set (data (sf_rev_contain A)) = (\<lambda>p. elems (snd p)) ` set (rm_rev_contain ?xs)"
    unfolding eq U(1) by (simp add: image_image)
  then show "elems ` set (data (sf_rev_contain A)) = minimal_sets (elems ` set (data A))"
    unfolding R filter_maximal E(4) .
  have "map elems (data (sf_rev_contain A)) = map (\<lambda>p. elems (snd p)) (rm_rev_contain ?xs)"
    unfolding eq U(1) by simp
  then show "distinct (map elems (data (sf_rev_contain A)))"
    using E(6) unfolding R by (simp add: distinct_map_filter)
qed

lemma sf_dupl_spec:
  assumes A: "wf_family n A"
  shows "wf_family n (sf_dupl A)" "elems ` set (data (sf_dupl A)) = elems ` set (data A)"
    "distinct (map elems (data (sf_dupl A)))"
proof -
  let ?xs = "rm_equal (ptr_cmp descend) (sf_sort A descend)"
  note E = big_first.sort_equal [OF A]
  have eq: "sf_dupl A = sf_unlist ?xs n" using A by (simp add: sf_dupl_def Let_def wf_family_def)
  note U = sf_unlist_spec [OF E(1)]
  show "wf_family n (sf_dupl A)" unfolding eq by (rule U(2))
  show "elems ` set (data (sf_dupl A)) = elems ` set (data A)"
    unfolding eq U(1) using E(4) by (simp add: image_image)
  show "distinct (map elems (data (sf_dupl A)))" unfolding eq U(1) using E(6) by (simp add: comp_def)
qed

text \<open>The row numbers that \<open>sf_ind_contain\<close> keeps belong to rows with the sets it keeps.\<close>

lemma sf_list_nth: "p \<in> set (sf_list A) \<Longrightarrow> fst p < cnt A \<and> data A ! fst p = snd p"
  by (auto simp: sf_list_def in_set_enumerate_eq)

lemma sf_ind_contain_spec:
  assumes A: "wf_family n A" and len: "length rows = cnt A"
  shows "fst (sf_ind_contain A rows) = sf_contain A"
    "i < cnt (sf_contain A) \<Longrightarrow> \<exists>j<cnt A. snd (sf_ind_contain A rows) ! i = rows ! j
       \<and> elems (data (sf_contain A) ! i) = elems (data A ! j)"
proof -
  let ?xs = "rm_equal (ptr_cmp descend) (sf_sort A descend)"
  note E = big_first.sort_equal [OF A]
  note R = rm_contain_spec [OF E(1-3)]
  have sub: "set (rm_contain ?xs) \<subseteq> set (sf_list (put_sizes A))"
    using E(5) unfolding R sf_sort_set by auto
  have eq: "sf_contain A = sf_unlist (rm_contain ?xs) n" "sf_ind_contain A rows = sf_ind_unlist (rm_contain ?xs) n rows"
    using A by (simp_all add: sf_contain_def sf_ind_contain_def Let_def wf_family_def)
  show "fst (sf_ind_contain A rows) = sf_contain A" unfolding eq by (simp add: sf_ind_unlist_def)
  have "wf_ptrs n (rm_contain ?xs)"
    using wf_ptrs_subset [OF wf_sf_list sub] A by simp
  note U = sf_unlist_spec [OF this]
  assume "i < cnt (sf_contain A)"
  then have i: "i < length (rm_contain ?xs)" unfolding eq(1) U(1) by simp
  then have "rm_contain ?xs ! i \<in> set (sf_list (put_sizes A))" using sub nth_mem by blast
  from sf_list_nth [OF this] have j: "fst (rm_contain ?xs ! i) < cnt A"
    "data (put_sizes A) ! fst (rm_contain ?xs ! i) = snd (rm_contain ?xs ! i)" by simp_all
  moreover have "elems (data (put_sizes A) ! k) = elems (data A ! k)" if "k < cnt A" for k
    using that by (simp add: put_sizes_def)
  moreover have "snd (sf_ind_contain A rows) ! i = rows ! fst (rm_contain ?xs ! i)"
    using i unfolding eq(2) by (simp add: sf_ind_unlist_def nth_append)
  moreover have "data (sf_contain A) ! i = snd (rm_contain ?xs ! i)" using i unfolding eq(1) U(1) by simp
  ultimately show "\<exists>j<cnt A. snd (sf_ind_contain A rows) ! i = rows ! j
       \<and> elems (data (sf_contain A) ! i) = elems (data A ! j)" by metis
qed

section \<open>The union of two families\<close>

text \<open>First for any two families; the size fields need not even be filled in.\<close>

lemma rm2_equal_sets:
  assumes "rm2_equal cmp xs ys = (A, B, E)" "comparison cmp D" "\<forall>x\<in>set xs \<union> set ys. D x"
  shows "set A \<subseteq> set xs" "set B \<subseteq> set ys" "set E \<subseteq> set xs"
    "\<forall>x\<in>set xs. x \<in> set A \<union> set E" "\<forall>y\<in>set ys. y \<in> set B \<or> (\<exists>e\<in>set E. cmp e y = 0)"
    "\<forall>e\<in>set E. \<exists>y\<in>set ys. cmp e y = 0"
proof -
  have "set A \<subseteq> set xs \<and> set B \<subseteq> set ys \<and> set E \<subseteq> set xs \<and> (\<forall>x\<in>set xs. x \<in> set A \<union> set E) \<and>
      (\<forall>y\<in>set ys. y \<in> set B \<or> (\<exists>e\<in>set E. cmp e y = 0)) \<and> (\<forall>e\<in>set E. \<exists>y\<in>set ys. cmp e y = 0)"
    using assms(1,3)
  proof (induction cmp xs ys arbitrary: A B E rule: rm2_equal.induct)
    case (1 cmp a as b bs)
    consider "cmp a b < 0" | "cmp a b = 0" | "cmp a b > 0" by linarith
    then show ?case
    proof cases
      case c: 1
      obtain A' B' E' where r: "rm2_equal cmp as (b # bs) = (A', B', E')" by (cases "rm2_equal cmp as (b # bs)")
      then have "A = a # A'" "B = B'" "E = E'" using "1.prems"(1) c by auto
      moreover note "1.IH"(1) [OF refl c r]
      ultimately show ?thesis using "1.prems"(2) by auto
    next
      case c: 2
      obtain A' B' E' where r: "rm2_equal cmp as bs = (A', B', E')" by (cases "rm2_equal cmp as bs")
      then have "A = A'" "B = B'" "E = a # E'" using "1.prems"(1) c by auto
      moreover have "\<not> cmp a b < 0" using c by simp
      note "1.IH"(2) [OF refl this c r]
      ultimately show ?thesis using "1.prems"(2) c by auto
    next
      case c: 3
      obtain A' B' E' where r: "rm2_equal cmp (a # as) bs = (A', B', E')" by (cases "rm2_equal cmp (a # as) bs")
      then have "A = A'" "B = b # B'" "E = E'" using "1.prems"(1) c by auto
      moreover have "\<not> cmp a b < 0" "cmp a b \<noteq> 0" using c by simp_all
      note "1.IH"(3) [OF refl this r]
      ultimately show ?thesis using "1.prems"(2) by auto
    qed
  qed auto
  then show "set A \<subseteq> set xs" "set B \<subseteq> set ys" "set E \<subseteq> set xs"
    "\<forall>x\<in>set xs. x \<in> set A \<union> set E" "\<forall>y\<in>set ys. y \<in> set B \<or> (\<exists>e\<in>set E. cmp e y = 0)"
    "\<forall>e\<in>set E. \<exists>y\<in>set ys. cmp e y = 0" by blast+
qed

lemma contained_inD: "contained_in a bs \<Longrightarrow> \<exists>b\<in>set bs. setp_implies a (snd b)"
  by (induction bs) (auto split: if_splits)

lemma contained_in_sorted:
  assumes "sorted_wrt (\<lambda>a b. SIZE (snd a) \<ge> SIZE (snd b)) bs"
  shows "contained_in a bs \<longleftrightarrow> (\<exists>b\<in>set bs. SIZE (snd b) > SIZE a \<and> setp_implies a (snd b))"
  using assms by (induction bs) auto

lemma top_simps [simp]: "top [] = None" "top (p # ps) = Some (snd p)"
  by (simp_all add: top_def)

lemma top_opt_set: "wf_ptrs n xs \<Longrightarrow> opt_set n (top xs)"
  by (cases xs) (auto simp: opt_set_def)

text \<open>The three arrays of the merge, in the order of their first sets.\<close>

definition tops_ordered :: "sptr list \<Rightarrow> sptr list \<Rightarrow> sptr list \<Rightarrow> bool" where
  "tops_ordered a b c \<longleftrightarrow> desc1 (top a) (top b) \<le> 0 \<and> desc1 (top b) (top c) \<le> 0"

lemma desc1_None: "desc1 None x \<le> 0 \<longleftrightarrow> x = None" "desc1 x None \<le> 0"
  by (cases x; simp)+

lemma tops_trans:
  assumes "tops_ordered a b c" "wf_ptrs n a" "wf_ptrs n b" "wf_ptrs n c"
  shows "desc1 (top a) (top c) \<le> 0"
  using assms desc1.trans_le [of n "top a" "top b" "top c"] top_opt_set unfolding tops_ordered_def by blast

lemma merge_loop_mset:
  assumes "tops_ordered a b c" "wf_ptrs n a" "wf_ptrs n b" "wf_ptrs n c"
  shows "mset (merge_loop a b c) = mset a + mset b + mset c"
  using assms
proof (induction a b c rule: merge_loop.induct)
  case (1 a b c)
  show ?case
  proof (cases a)
    case Nil
    then have n: "top a = None" by simp
    then have "top b = None" using "1.prems"(1) unfolding tops_ordered_def n desc1_None(1) by blast
    moreover have "top c = None" using tops_trans [OF "1.prems"] unfolding n desc1_None(1) .
    ultimately have "top b = None" "top c = None" by blast+
    then have "b = []" "c = []" by (simp_all add: top_def split: list.splits)
    with Nil show ?thesis by (simp add: merge_loop.simps [of "[]" "[]" "[]"])
  next
    case (Cons p ps)
    have w: "wf_ptrs n ps" using "1.prems"(2) Cons by simp
    have o: "opt_set n (top ps)" "opt_set n (top b)" "opt_set n (top c)"
      using top_opt_set w "1.prems"(3,4) by blast+
    have bc: "desc1 (top b) (top c) \<le> 0" using "1.prems"(1) by (simp add: tops_ordered_def)
    have flip: "desc1 x y > 0 \<Longrightarrow> desc1 y x \<le> 0" if "opt_set n x" "opt_set n y" for x y
      using desc1.flip [OF that] by linarith
    consider "desc1 (top ps) (top c) > 0" | "desc1 (top ps) (top c) \<le> 0" "desc1 (top ps) (top b) > 0"
      | "desc1 (top ps) (top c) \<le> 0" "desc1 (top ps) (top b) \<le> 0" by linarith
    then show ?thesis
    proof cases
      case c1: 1
      then have "tops_ordered b c ps" using bc flip [OF o(1,3)] by (simp add: tops_ordered_def)
      then show ?thesis using "1.IH"(1) [OF Cons c1] "1.prems" w c1
        by (simp add: merge_loop.simps [of "p # ps" b c] Cons)
    next
      case c2: 2
      then have "tops_ordered b ps c" using flip [OF o(1,2)] by (simp add: tops_ordered_def)
      then show ?thesis using "1.IH"(2) [OF Cons _ c2(2)] "1.prems" w c2
        by (simp add: merge_loop.simps [of "p # ps" b c] Cons)
    next
      case c3: 3
      then have "tops_ordered ps b c" using bc by (simp add: tops_ordered_def)
      then show ?thesis using "1.IH"(3) [OF Cons] "1.prems" w c3
        by (simp add: merge_loop.simps [of "p # ps" b c] Cons)
    qed
  qed
qed

text \<open>
  The three exchange steps establish the order, and the merged family has the sets of all three
  arrays.
\<close>

lemma order_steps:
  assumes w: "wf_ptrs n a" "wf_ptrs n b" "wf_ptrs n c"
    and r: "fold order_step [(0, 1), (0, 2), (1, 2)] [a, b, c] = [x, y, z]"
  shows "tops_ordered x y z" "mset x + mset y + mset z = mset a + mset b + mset c"
    "wf_ptrs n x" "wf_ptrs n y" "wf_ptrs n z"
proof -
  define G where "G p q \<longleftrightarrow> desc1 (top p) (top q) > 0" for p q
  define W where "W p \<longleftrightarrow> p \<in> {a, b, c}" for p
  have o: "opt_set n (top p)" if "W p" for p using that top_opt_set w by (auto simp: W_def)
  have flip: "\<not> G q p" if "W p" "W q" "G p q" for p q
    using desc1.flip [OF o o, OF that(1,2)] that(3) by (simp add: G_def)
  have trans: "\<not> G p s" if "W p" "W q" "W s" "\<not> G p q" "\<not> G q s" for p q s
    using desc1.trans_le [OF o o o, OF that(1-3)] that(4,5) by (simp add: G_def)
  have step: "order_step (i, j) ts = (if G (ts ! i) (ts ! j) then ts[i := ts ! j, j := ts ! i] else ts)" for i j ts
    by (simp add: order_step_def G_def)
  have abc: "W a" "W b" "W c" by (simp_all add: W_def)
  have perm: "(x, y, z) \<in> {(a, b, c), (a, c, b), (b, a, c), (b, c, a), (c, a, b), (c, b, a)}"
    using r by (simp add: step split: if_splits)
  then show "mset x + mset y + mset z = mset a + mset b + mset c" "wf_ptrs n x" "wf_ptrs n y" "wf_ptrs n z"
    using w by auto
  have "\<not> G x y \<and> \<not> G y z"
  proof (cases "G a b")
    case True
    then have "\<not> G b a" using flip abc by blast
    then show ?thesis using r True flip [of b c] flip [of a c] trans [of b a c] abc
      by (simp add: step split: if_splits)
  next
    case False
    then show ?thesis using r flip [of a c] flip [of b c] trans [of c a b] abc
      by (simp add: step split: if_splits)
  qed
  then show "tops_ordered x y z" by (simp add: tops_ordered_def G_def not_less)
qed

lemma sf_merge_spec:
  assumes w: "wf_ptrs n a" "wf_ptrs n b" "wf_ptrs n c"
  shows "wf_family n (sf_merge a b c n)"
    "mset (data (sf_merge a b c n)) = image_mset snd (mset a + mset b + mset c)"
    "set (data (sf_merge a b c n)) = snd ` (set a \<union> set b \<union> set c)"
proof -
  define t where "t = fold order_step [(0, 1), (0, 2), (1, 2)] [a, b, c]"
  have "length t = 3" by (simp add: t_def order_step_def Let_def)
  then obtain x y z where t: "t = [x, y, z]" by (auto simp: length_Suc_conv numeral_3_eq_3)
  note O = order_steps [OF w, of x y z, folded t_def, OF t]
  note M = merge_loop_mset [OF O(1,3-5)]
  have eq: "sf_merge a b c n = sf_unlist (merge_loop x y z) n"
    unfolding sf_merge_def Let_def t_def [symmetric] t by simp
  have m: "mset (merge_loop x y z) = mset a + mset b + mset c" using M O(2) by simp
  then have "set (merge_loop x y z) = set a \<union> set b \<union> set c"
    by (metis set_mset_mset set_mset_union)
  then have "wf_ptrs n (merge_loop x y z)" using w by (auto simp: wf_ptrs_def)
  note U = sf_unlist_spec [OF this]
  show "wf_family n (sf_merge a b c n)" unfolding eq by (rule U(2))
  show ms: "mset (data (sf_merge a b c n)) = image_mset snd (mset a + mset b + mset c)"
    unfolding eq U(1) using m by simp
  show "set (data (sf_merge a b c n)) = snd ` (set a \<union> set b \<union> set c)"
    unfolding eq U(1) using \<open>set (merge_loop x y z) = _\<close> by simp
qed

text \<open>
  Whatever the order of the two families: the union keeps only sets of the two, and for each set one
  that contains it.
\<close>

lemma sf_union_general:
  assumes A: "wf_family n A" and B: "wf_family n B"
  shows "wf_family n (sf_union A B)"
    "elems ` set (data (sf_union A B)) \<subseteq> elems ` set (data A) \<union> elems ` set (data B)"
    "X \<in> elems ` set (data A) \<union> elems ` set (data B) \<Longrightarrow> \<exists>Y\<in>elems ` set (data (sf_union A B)). X \<subseteq> Y"
proof -
  let ?e = "\<lambda>p :: sptr. elems (snd p)"
  obtain A1 B1 E1 where r: "rm2_equal (ptr_cmp descend) (sf_list A) (sf_list B) = (A1, B1, E1)"
    by (cases "rm2_equal (ptr_cmp descend) (sf_list A) (sf_list B)")
  have wA: "wf_ptrs n (sf_list A)" and wB: "wf_ptrs n (sf_list B)" using wf_sf_list A B by blast+
  have W: "wf_set n (snd p)" if "p \<in> set (sf_list A) \<union> set (sf_list B)" for p
    using that wA wB by (auto simp: wf_ptrs_def)
  then have D: "\<forall>p\<in>set (sf_list A) \<union> set (sf_list B). wf_set n (snd p)" by blast
  note R = rm2_equal_sets [OF r pdescend.comparison_axioms D]
  define A2 where "A2 = rm2_contain A1 B1"
  define B2 where "B2 = rm2_contain B1 A2"
  have w: "wf_ptrs n A2" "wf_ptrs n B2" "wf_ptrs n E1"
    using wf_ptrs_subset [OF wA, of A2] wf_ptrs_subset [OF wB, of B2] wf_ptrs_subset [OF wA R(3)] R(1,2)
    by (auto simp: A2_def B2_def rm2_contain_def)
  have eq: "sf_union A B = sf_merge A2 B2 E1 n"
    using A r by (simp add: sf_union_def A2_def B2_def wf_family_def Let_def)
  note M = sf_merge_spec [OF w]
  show "wf_family n (sf_union A B)" unfolding eq by (rule M(1))
  have S: "elems ` set (data (sf_union A B)) = ?e ` (set A2 \<union> set B2 \<union> set E1)"
    unfolding eq M(3) by (simp add: image_image)
  have dA: "elems ` set (data A) = ?e ` set (sf_list A)" and dB: "elems ` set (data B) = ?e ` set (sf_list B)"
    using snd_set_sf_list [of A] snd_set_sf_list [of B] by (metis image_image)+
  have sub: "set A2 \<subseteq> set A1" "set B2 \<subseteq> set B1" by (auto simp: A2_def B2_def rm2_contain_def)
  show "elems ` set (data (sf_union A B)) \<subseteq> elems ` set (data A) \<union> elems ` set (data B)"
    unfolding S dA dB using R(1-3) sub by blast
  have imp: "?e p \<subseteq> ?e q" if "setp_implies (snd p) (snd q)" "wf_set n (snd p)" "wf_set n (snd q)" for p q
    using setp_implies_iff [OF that(2,3)] that(1) by simp
  have inB: "\<exists>q\<in>set A2 \<union> set B2. ?e p \<subseteq> ?e q" if p: "p \<in> set B1" for p
  proof (cases "contained_in (snd p) A2")
    case True
    then obtain q where q: "q \<in> set A2" "setp_implies (snd p) (snd q)" using contained_inD by blast
    then have "?e p \<subseteq> ?e q" using imp W p R(1,2) sub by blast
    with q show ?thesis by blast
  next
    case False
    then have "p \<in> set B2" using p by (simp add: B2_def rm2_contain_def)
    then show ?thesis by blast
  qed
  have inA: "\<exists>q\<in>set A2 \<union> set B2. ?e p \<subseteq> ?e q" if p: "p \<in> set A1" for p
  proof (cases "contained_in (snd p) B1")
    case True
    then obtain q where q: "q \<in> set B1" "setp_implies (snd p) (snd q)" using contained_inD by blast
    then have "?e p \<subseteq> ?e q" using imp W p R(1,2) by blast
    with inB [OF q(1)] show ?thesis by blast
  next
    case False
    then have "p \<in> set A2" using p by (simp add: A2_def rm2_contain_def)
    then show ?thesis by blast
  qed
  assume X: "X \<in> elems ` set (data A) \<union> elems ` set (data B)"
  note R' = R(4,5)
  consider p where "p \<in> set (sf_list A)" "X = ?e p" | p where "p \<in> set (sf_list B)" "X = ?e p"
    using X unfolding dA dB by blast
  then have "\<exists>q\<in>set A2 \<union> set B2 \<union> set E1. X \<subseteq> ?e q"
  proof cases
    case (1 p)
    then have "p \<in> set A1 \<union> set E1" using R'(1) by blast
    then show ?thesis using inA [of p] 1(2) by blast
  next
    case (2 p)
    show ?thesis
    proof (cases "p \<in> set B1")
      case True
      then show ?thesis using inB [OF True] 2(2) by blast
    next
      case False
      then obtain e where e: "e \<in> set E1" "ptr_cmp descend e p = 0" using R'(2) 2(1) by blast
      then have "?e e = ?e p"
        using descend_0 [of n "snd e" "snd p"] W [of e] W [of p] R(3) 2(1) by (auto simp: ptr_cmp_def)
      with e 2(2) show ?thesis by blast
    qed
  qed
  then show "\<exists>Y\<in>elems ` set (data (sf_union A B)). X \<subseteq> Y" unfolding S by blast
qed

lemma sf_union_cov:
  assumes "wf_family n A" "wf_family n B"
  shows "onset C (sf_union A B) = onset C A \<union> onset C B"
proof -
  note U = sf_union_general [OF assms]
  let ?S = "elems ` set (data A) \<union> elems ` set (data B)" and ?T = "elems ` set (data (sf_union A B))"
  have "cov C ?T \<subseteq> cov C ?S" by (rule cov_mono [OF U(2)])
  moreover have "cov C ?S \<subseteq> cov C ?T" by (intro cov_dominated ballI) (rule U(3))
  ultimately have "cov C ?T = cov C ?S" by (rule equalityI)
  also have "\<dots> = onset C A \<union> onset C B" by (simp only: cov_simps)
  finally show ?thesis .
qed

text \<open>
  The families that \<^verbatim>\<open>sf_contain\<close> returns are sorted, with their sizes, and no set in
  them contains another.  For such families the union is the collection of the largest sets of both.
\<close>

definition contain_form :: "set_family \<Rightarrow> bool" where
  "contain_form A \<longleftrightarrow> sorted_wrt (\<lambda>p q. descend p q < 0) (data A) \<and> (\<forall>p\<in>set (data A). SIZE p = card (elems p))
     \<and> maximal_sets (elems ` set (data A)) = elems ` set (data A)"

lemma maximal_idem: "maximal_sets (maximal_sets S) = maximal_sets S"
  by (auto simp: maximal_sets_def)

lemma sf_contain_form: "wf_family n A \<Longrightarrow> contain_form (sf_contain A)"
proof -
  assume A: "wf_family n A"
  note S = sf_contain_spec [OF A]
  show ?thesis using S(2,5,6) maximal_idem unfolding contain_form_def by metis
qed

lemma rm2_equal_sorted:
  assumes "rm2_equal cmp xs ys = (A, B, E)" "sorted_wrt P xs" "sorted_wrt P ys"
  shows "sorted_wrt P A" "sorted_wrt P B" "sorted_wrt P E"
proof -
  have "set A \<subseteq> set xs \<and> set B \<subseteq> set ys \<and> set E \<subseteq> set xs \<and> sorted_wrt P A \<and> sorted_wrt P B \<and> sorted_wrt P E" using assms
  proof (induction cmp xs ys arbitrary: A B E rule: rm2_equal.induct)
    case (1 cmp a as b bs)
    consider "cmp a b < 0" | "cmp a b = 0" | "cmp a b > 0" by linarith
    then show ?case
    proof cases
      case c: 1
      obtain A' B' E' where r: "rm2_equal cmp as (b # bs) = (A', B', E')" by (cases "rm2_equal cmp as (b # bs)")
      then have "A = a # A'" "B = B'" "E = E'" using "1.prems"(1) c by auto
      moreover note "1.IH"(1) [OF refl c r]
      ultimately show ?thesis using "1.prems"(2,3) by auto
    next
      case c: 2
      then have n: "\<not> cmp a b < 0" by simp
      obtain A' B' E' where r: "rm2_equal cmp as bs = (A', B', E')" by (cases "rm2_equal cmp as bs")
      then have "A = A'" "B = B'" "E = a # E'" using "1.prems"(1) c by auto
      moreover note "1.IH"(2) [OF refl n c r]
      ultimately show ?thesis using "1.prems"(2,3) by auto
    next
      case c: 3
      then have n: "\<not> cmp a b < 0" "cmp a b \<noteq> 0" by simp_all
      obtain A' B' E' where r: "rm2_equal cmp (a # as) bs = (A', B', E')" by (cases "rm2_equal cmp (a # as) bs")
      then have "A = A'" "B = b # B'" "E = E'" using "1.prems"(1) c by auto
      moreover note "1.IH"(3) [OF refl n r]
      ultimately show ?thesis using "1.prems"(2,3) by auto
    qed
  qed auto
  then show "sorted_wrt P A" "sorted_wrt P B" "sorted_wrt P E" by blast+
qed

lemma antichain_maximal:
  assumes "T \<subseteq> S" "\<forall>X\<in>S. \<exists>Y\<in>T. X \<subseteq> Y" "\<forall>X\<in>T. \<forall>Y\<in>T. \<not> X \<subset> Y"
  shows "T = maximal_sets S"
proof
  show "T \<subseteq> maximal_sets S"
  proof
    fix X assume X: "X \<in> T"
    have "\<not> X \<subset> Z" if "Z \<in> S" for Z
    proof
      assume "X \<subset> Z"
      moreover obtain Y where "Y \<in> T" "Z \<subseteq> Y" using assms(2) \<open>Z \<in> S\<close> by blast
      ultimately have "X \<subset> Y" "Y \<in> T" by (simp_all add: psubset_subset_trans)
      then show False using assms(3) X by simp
    qed
    then show "X \<in> maximal_sets S" using X assms(1) by (auto simp: maximal_sets_def)
  qed
  show "maximal_sets S \<subseteq> T"
  proof
    fix X assume X: "X \<in> maximal_sets S"
    then obtain Y where "Y \<in> T" "X \<subseteq> Y" using assms(2) by (auto simp: maximal_sets_def)
    then show "X \<in> T" using X assms(1) by (auto simp: maximal_sets_def)
  qed
qed

lemma contain_formD:
  assumes "contain_form A"
  shows "sorted_wrt (\<lambda>p q. SIZE (snd p) \<ge> SIZE (snd q)) (sf_list A)"
    "p \<in> set (sf_list A) \<Longrightarrow> SIZE (snd p) = card (elems (snd p))"
    "p \<in> set (sf_list A) \<Longrightarrow> q \<in> set (sf_list A) \<Longrightarrow> \<not> elems (snd p) \<subset> elems (snd q)"
    "sorted_wrt (\<lambda>p q. ptr_cmp descend p q < 0) (sf_list A)"
proof -
  have "sorted_wrt (\<lambda>p q. descend p q < 0) (map snd (sf_list A))" using assms by (simp add: contain_form_def)
  then show s: "sorted_wrt (\<lambda>p q. ptr_cmp descend p q < 0) (sf_list A)" unfolding sorted_wrt_map ptr_cmp_def .
  show "sorted_wrt (\<lambda>p q. SIZE (snd p) \<ge> SIZE (snd q)) (sf_list A)"
    by (rule sorted_wrt_mono_rel [OF _ s]) (simp add: ptr_cmp_def descend_def split: if_splits)
  have d: "snd p \<in> set (data A)" if "p \<in> set (sf_list A)" for p using that snd_set_sf_list [of A] by blast
  show "p \<in> set (sf_list A) \<Longrightarrow> SIZE (snd p) = card (elems (snd p))"
    using assms d by (simp add: contain_form_def)
  have "\<not> X \<subset> Y" if "X \<in> elems ` set (data A)" "Y \<in> elems ` set (data A)" for X Y
    using assms that unfolding contain_form_def maximal_sets_def by blast
  then show "p \<in> set (sf_list A) \<Longrightarrow> q \<in> set (sf_list A) \<Longrightarrow> \<not> elems (snd p) \<subset> elems (snd q)"
    using d by blast
qed

lemma sf_union_maximal:
  assumes A: "wf_family n A" and B: "wf_family n B" and cA: "contain_form A" and cB: "contain_form B"
  shows "elems ` set (data (sf_union A B)) = maximal_sets (elems ` set (data A) \<union> elems ` set (data B))"
proof (rule antichain_maximal)
  note U = sf_union_general [OF A B]
  show "elems ` set (data (sf_union A B)) \<subseteq> elems ` set (data A) \<union> elems ` set (data B)" by (rule U(2))
  show "\<forall>X\<in>elems ` set (data A) \<union> elems ` set (data B). \<exists>Y\<in>elems ` set (data (sf_union A B)). X \<subseteq> Y"
    by (intro ballI) (rule U(3))
  let ?e = "\<lambda>p :: sptr. elems (snd p)"
  obtain A1 B1 E1 where r: "rm2_equal (ptr_cmp descend) (sf_list A) (sf_list B) = (A1, B1, E1)"
    by (cases "rm2_equal (ptr_cmp descend) (sf_list A) (sf_list B)")
  have wA: "wf_ptrs n (sf_list A)" and wB: "wf_ptrs n (sf_list B)" using wf_sf_list A B by blast+
  have W: "wf_set n (snd p)" if "p \<in> set (sf_list A) \<union> set (sf_list B)" for p
    using that wA wB by (auto simp: wf_ptrs_def)
  then have D: "\<forall>p\<in>set (sf_list A) \<union> set (sf_list B). wf_set n (snd p)" by blast
  note R = rm2_equal_sets [OF r pdescend.comparison_axioms D]
  note srt = rm2_equal_sorted [OF r contain_formD(1) [OF cA] contain_formD(1) [OF cB]]
  define A2 where "A2 = rm2_contain A1 B1"
  define B2 where "B2 = rm2_contain B1 A2"
  have sub: "set A2 \<subseteq> set A1" "set B2 \<subseteq> set B1" by (auto simp: A2_def B2_def rm2_contain_def)
  have w: "wf_ptrs n A2" "wf_ptrs n B2" "wf_ptrs n E1"
    using wf_ptrs_subset [OF wA, of A2] wf_ptrs_subset [OF wB, of B2] wf_ptrs_subset [OF wA R(3)] R(1,2) sub by blast+
  have eq: "sf_union A B = sf_merge A2 B2 E1 n"
    using A r by (simp add: sf_union_def A2_def B2_def wf_family_def Let_def)
  have S: "elems ` set (data (sf_union A B)) = ?e ` (set A2 \<union> set B2 \<union> set E1)"
    unfolding eq sf_merge_spec(3) [OF w] by (simp add: image_image)
  have less: "SIZE (snd p) < SIZE (snd q) \<and> setp_implies (snd p) (snd q)"
    if "?e p \<subset> ?e q" "p \<in> set (sf_list A) \<union> set (sf_list B)" "q \<in> set (sf_list A) \<union> set (sf_list B)" for p q
  proof -
    have "SIZE (snd r) = card (?e r)" if "r \<in> set (sf_list A) \<union> set (sf_list B)" for r
      using that contain_formD(2) [OF cA, of r] contain_formD(2) [OF cB, of r] by blast
    then have "SIZE (snd p) < SIZE (snd q)" using psubset_card_mono [OF _ that(1)] that(2,3) by simp
    moreover have "setp_implies (snd p) (snd q)" using setp_implies_iff [OF W W, OF that(2,3)] that(1) by simp
    ultimately show ?thesis by simp
  qed
  have A2: "sorted_wrt (\<lambda>p q. SIZE (snd p) \<ge> SIZE (snd q)) A2"
    unfolding A2_def rm2_contain_def using srt(1) by (rule sorted_wrt_filter)
  have ab: "\<not> ?e p \<subset> ?e q" "\<not> ?e q \<subset> ?e p" if "p \<in> set A2" "q \<in> set B2" for p q
  proof -
    have pq: "p \<in> set (sf_list A)" "q \<in> set (sf_list B)" "q \<in> set B1" using that R(1,2) sub by blast+
    have n: "\<not> contained_in (snd p) B1" "\<not> contained_in (snd q) A2"
      using that by (simp_all add: A2_def B2_def rm2_contain_def)
    show "\<not> ?e p \<subset> ?e q" using n(1) less [of p q] pq unfolding contained_in_sorted [OF srt(2)] by blast
    show "\<not> ?e q \<subset> ?e p" using n(2) less [of q p] pq that unfolding contained_in_sorted [OF A2] by blast
  qed
  have E: "\<exists>b\<in>set (sf_list B). ?e e = ?e b" if e: "e \<in> set E1" for e
  proof -
    obtain b where b: "b \<in> set (sf_list B)" "ptr_cmp descend e b = 0" using R(6) e by blast
    then have "?e e = ?e b" using descend_0 [of n "snd e" "snd b"] W [of e] W [of b] R(3) e by (auto simp: ptr_cmp_def)
    with b(1) show ?thesis by blast
  qed
  have AA: "\<not> ?e p \<subset> ?e q" if "p \<in> set A2 \<union> set E1" "q \<in> set A2 \<union> set E1" for p q
  proof -
    have "p \<in> set (sf_list A)" "q \<in> set (sf_list A)" using that R(1,3) sub by blast+
    then show ?thesis by (rule contain_formD(3) [OF cA])
  qed
  have BB: "\<not> ?e p \<subset> ?e q" if "p \<in> set B2 \<union> set E1" "q \<in> set B2 \<union> set E1" for p q
  proof -
    have "\<exists>b\<in>set (sf_list B). ?e r = ?e b" if "r \<in> set B2 \<union> set E1" for r using that R(2) sub E by blast
    from this [OF that(1)] this [OF that(2)]
    obtain b c where "b \<in> set (sf_list B)" "?e p = ?e b" "c \<in> set (sf_list B)" "?e q = ?e c" by blast
    then show ?thesis using contain_formD(3) [OF cB, of b c] by simp
  qed
  have "\<not> ?e p \<subset> ?e q" if "p \<in> set A2 \<union> set B2 \<union> set E1" "q \<in> set A2 \<union> set B2 \<union> set E1" for p q
    using that AA [of p q] BB [of p q] ab [of p q] ab [of q p] by blast
  then show "\<forall>X\<in>elems ` set (data (sf_union A B)). \<forall>Y\<in>elems ` set (data (sf_union A B)). \<not> X \<subset> Y"
    unfolding S by blast
qed

text \<open>On strictly sorted arrays the three arrays that \<^verbatim>\<open>rm2_equal\<close> leaves have no sets in common.\<close>

lemma rm2_equal_disjoint:
  assumes r: "rm2_equal cmp xs ys = (A, B, E)" and cmp: "comparison cmp D" and D: "\<forall>x\<in>set xs \<union> set ys. D x"
    and s: "sorted_wrt (\<lambda>a b. cmp a b < 0) xs" "sorted_wrt (\<lambda>a b. cmp a b < 0) ys"
  shows "(\<forall>a\<in>set A. \<forall>b\<in>set B. cmp a b \<noteq> 0) \<and> (\<forall>a\<in>set A \<union> set B. \<forall>e\<in>set E. cmp a e \<noteq> 0)"
  using assms
proof (induction cmp xs ys arbitrary: A B E rule: rm2_equal.induct)
  case (1 cmp a as b bs)
  note lt = comparison.less_le_trans [OF "1.prems"(2)] and flip = comparison.flip [OF "1.prems"(2)]
  have D: "D a" "D b" "\<forall>x\<in>set as \<union> set bs. D x" using "1.prems"(3) by auto
  have as: "\<forall>x\<in>set as. cmp a x < 0" "sorted_wrt (\<lambda>a b. cmp a b < 0) as" using "1.prems"(4) by simp_all
  have bs: "\<forall>x\<in>set bs. cmp b x < 0" "sorted_wrt (\<lambda>a b. cmp a b < 0) bs" using "1.prems"(5) by simp_all
  consider "cmp a b < 0" | "cmp a b = 0" | "cmp a b > 0" by linarith
  then show ?case
  proof cases
    case c: 1
    obtain A' B' E' where r: "rm2_equal cmp as (b # bs) = (A', B', E')" by (cases "rm2_equal cmp as (b # bs)")
    then have e: "A = a # A'" "B = B'" "E = E'" using "1.prems"(1) c by auto
    have D': "\<forall>x\<in>set as \<union> set (b # bs). D x" using D by auto
    note IH = "1.IH"(1) [OF refl c r "1.prems"(2) D' as(2) "1.prems"(5)]
    note R = rm2_equal_sets(2,3) [OF r "1.prems"(2) D']
    have "cmp a x < 0" if "x \<in> set (b # bs)" for x
      using that c lt [of a b x] bs(1) D by (cases "x = b") auto
    then have "\<forall>x\<in>set B' \<union> set E'. cmp a x < 0" using R as(1) by blast
    then show ?thesis using IH by (auto simp: e dest: bspec)
  next
    case c: 2
    then have n: "\<not> cmp a b < 0" by simp
    obtain A' B' E' where r: "rm2_equal cmp as bs = (A', B', E')" by (cases "rm2_equal cmp as bs")
    then have e: "A = A'" "B = B'" "E = a # E'" using "1.prems"(1) c by auto
    note IH = "1.IH"(2) [OF refl n c r "1.prems"(2) D(3) as(2) bs(2)]
    note R = rm2_equal_sets(1,2) [OF r "1.prems"(2) D(3)]
    have "cmp b a = 0" using flip [OF D(1,2)] c by simp
    have "cmp x a > 0" if "x \<in> set as \<union> set bs" for x
    proof -
      have "cmp a x < 0"
      proof (cases "x \<in> set as")
        case False
        then have x: "cmp b x < 0" "D x" using that bs(1) D(3) by auto
        have "cmp a x \<le> 0" using comparison.trans_le [OF "1.prems"(2) D(1,2) x(2)] c x(1) by simp
        moreover have "cmp a x \<noteq> 0"
        proof
          assume "cmp a x = 0"
          then have "cmp b x = 0" using comparison.cmp_eq_trans [OF "1.prems"(2) D(2,1) x(2) \<open>cmp b a = 0\<close>] by simp
          then show False using x(1) by simp
        qed
        ultimately show ?thesis by simp
      qed (use as(1) in blast)
      then show ?thesis using flip [OF D(1), of x] D(3) that by auto
    qed
    then have "\<forall>x\<in>set A' \<union> set B'. cmp x a > 0" using R by blast
    then show ?thesis using IH by (auto simp: e dest: bspec)
  next
    case c: 3
    then have n: "\<not> cmp a b < 0" "cmp a b \<noteq> 0" by simp_all
    obtain A' B' E' where r: "rm2_equal cmp (a # as) bs = (A', B', E')" by (cases "rm2_equal cmp (a # as) bs")
    then have e: "A = A'" "B = b # B'" "E = E'" using "1.prems"(1) c by auto
    have D': "\<forall>x\<in>set (a # as) \<union> set bs. D x" using D by auto
    note IH = "1.IH"(3) [OF refl n r "1.prems"(2) D' "1.prems"(4) bs(2)]
    note R = rm2_equal_sets(1,3) [OF r "1.prems"(2) D']
    have ba: "cmp b a < 0" using flip [OF D(1,2)] c by simp
    have b: "cmp b x < 0" if "x \<in> set (a # as)" for x
      using that ba lt [OF D(2,1) _ ba, of x] as(1) D by (cases "x = a") auto
    then have "cmp b x < 0 \<and> cmp x b > 0" if "x \<in> set (a # as)" for x
      using that flip [OF D(2), of x] D b [OF that] by auto
    then have "\<forall>x\<in>set A' \<union> set E'. cmp b x < 0 \<and> cmp x b > 0" using R by blast
    then show ?thesis using IH by (auto simp: e dest: bspec)
  qed
qed auto

abbreviation descending :: "sptr list \<Rightarrow> bool" where
  "descending \<equiv> sorted_wrt (\<lambda>p q. ptr_cmp descend p q \<le> 0)"

lemma top_least:
  assumes "desc1 (Some (snd p)) (top xs) \<le> 0" "descending xs" "wf_ptrs n (p # xs)" "q \<in> set xs"
  shows "ptr_cmp descend p q \<le> 0"
proof -
  obtain t ts where xs: "xs = t # ts" using assms(4) by (cases xs) auto
  have t: "ptr_cmp descend p t \<le> 0" using assms(1) unfolding xs top_simps desc1_Some ptr_cmp_def .
  show ?thesis
  proof (cases "q = t")
    case False
    then have "ptr_cmp descend t q \<le> 0" "wf_set n (snd q)" using assms(2-4) xs by (auto simp: wf_ptrs_def)
    then show ?thesis using pdescend.trans_le [of n p t q] t assms(3) xs by simp
  qed (simp add: t)
qed

lemma merge_loop_sorted:
  assumes "tops_ordered a b c" "wf_ptrs n a" "wf_ptrs n b" "wf_ptrs n c"
    "descending a" "descending b"
    "descending c"
  shows "descending (merge_loop a b c)"
  using assms
proof (induction a b c rule: merge_loop.induct)
  case (1 a b c)
  show ?case
  proof (cases a)
    case Nil
    then show ?thesis by (simp add: merge_loop.simps [of "[]" b c])
  next
    case (Cons p ps)
    have wb: "wf_ptrs n (p # b)" "wf_ptrs n (p # c)" "wf_ptrs n (p # ps)" using "1.prems"(2-4) Cons by simp_all
    have t: "desc1 (Some (snd p)) (top b) \<le> 0" "desc1 (Some (snd p)) (top c) \<le> 0"
      using "1.prems"(1) tops_trans [OF "1.prems"(1-4)] Cons by (simp_all add: tops_ordered_def)
    have le: "ptr_cmp descend p q \<le> 0" if q: "q \<in> set ps \<union> set b \<union> set c" for q
    proof -
      consider "q \<in> set ps" | "q \<in> set b" | "q \<in> set c" using q by blast
      then show ?thesis
      proof cases
        case 1
        then show ?thesis using "1.prems"(5) Cons by simp
      next
        case 2
        show ?thesis by (rule top_least [OF t(1) "1.prems"(6) wb(1) 2])
      next
        case 3
        show ?thesis by (rule top_least [OF t(2) "1.prems"(7) wb(2) 3])
      qed
    qed
    have w: "wf_ptrs n ps" using "1.prems"(2) Cons by simp
    have s: "descending ps" using "1.prems"(5) Cons by simp
    have o: "opt_set n (top ps)" "opt_set n (top b)" "opt_set n (top c)"
      using top_opt_set w "1.prems"(3,4) by blast+
    have bc: "desc1 (top b) (top c) \<le> 0" using "1.prems"(1) by (simp add: tops_ordered_def)
    have flip: "desc1 x y > 0 \<Longrightarrow> desc1 y x \<le> 0" if "opt_set n x" "opt_set n y" for x y
      using desc1.flip [OF that] by linarith
    have step: "descending (p # merge_loop x y z)" if "tops_ordered x y z" "mset x + mset y + mset z = mset ps + mset b + mset c"
      "wf_ptrs n x" "wf_ptrs n y" "wf_ptrs n z" "descending (merge_loop x y z)" for x y z
    proof -
      have "set (merge_loop x y z) = set ps \<union> set b \<union> set c"
        using arg_cong [OF merge_loop_mset [OF that(1,3-5)], of set_mset] arg_cong [OF that(2), of set_mset] by simp
      then show ?thesis using that(6) le by simp
    qed
    consider "desc1 (top ps) (top c) > 0" | "desc1 (top ps) (top c) \<le> 0" "desc1 (top ps) (top b) > 0"
      | "desc1 (top ps) (top c) \<le> 0" "desc1 (top ps) (top b) \<le> 0" by linarith
    then show ?thesis
    proof cases
      case c1: 1
      then have "tops_ordered b c ps" using bc flip [OF o(1,3)] by (simp add: tops_ordered_def)
      moreover from this have "descending (merge_loop b c ps)" using "1.IH"(1) [OF Cons c1] "1.prems" w s by simp
      ultimately have "descending (p # merge_loop b c ps)" using step "1.prems"(3,4) w by simp
      then show ?thesis using c1 by (simp add: merge_loop.simps [of "p # ps" b c] Cons)
    next
      case c2: 2
      then have "tops_ordered b ps c" using flip [OF o(1,2)] by (simp add: tops_ordered_def)
      moreover from this have "descending (merge_loop b ps c)" using "1.IH"(2) [OF Cons _ c2(2)] c2(1) "1.prems" w s by simp
      ultimately have "descending (p # merge_loop b ps c)" using step "1.prems"(3,4) w by simp
      then show ?thesis using c2 by (simp add: merge_loop.simps [of "p # ps" b c] Cons)
    next
      case c3: 3
      then have "tops_ordered ps b c" using bc by (simp add: tops_ordered_def)
      moreover from this have "descending (merge_loop ps b c)" using "1.IH"(3) [OF Cons] c3 "1.prems" w s by simp
      ultimately have "descending (p # merge_loop ps b c)" using step "1.prems"(3,4) w by simp
      then show ?thesis using c3 by (simp add: merge_loop.simps [of "p # ps" b c] Cons)
    qed
  qed
qed

lemma sf_merge_sorted:
  assumes w: "wf_ptrs n a" "wf_ptrs n b" "wf_ptrs n c"
    and s: "descending a" "descending b"
      "descending c"
  shows "sorted_wrt (\<lambda>p q. descend p q \<le> 0) (data (sf_merge a b c n))"
proof -
  define t where "t = fold order_step [(0, 1), (0, 2), (1, 2)] [a, b, c]"
  have "length t = 3" by (simp add: t_def order_step_def Let_def)
  then obtain x y z where t: "t = [x, y, z]" by (auto simp: length_Suc_conv numeral_3_eq_3)
  note O = order_steps [OF w, of x y z, folded t_def, OF t]
  have perm: "x \<in> {a, b, c} \<and> y \<in> {a, b, c} \<and> z \<in> {a, b, c}"
    using t unfolding t_def by (simp add: order_step_def split: if_splits)
  then have "descending (merge_loop x y z)"
    using merge_loop_sorted [OF O(1,3-5)] s by blast
  moreover have "wf_ptrs n (merge_loop x y z)"
    using arg_cong [OF merge_loop_mset [OF O(1,3-5)], of set_mset] O(3-5) by (auto simp: wf_ptrs_def)
  ultimately show ?thesis
    unfolding sf_merge_def Let_def t_def [symmetric] t using sf_unlist_spec(1) [of n "merge_loop x y z"] by (simp add: sorted_wrt_map ptr_cmp_def)
qed

lemma strict_distinct_elems:
  assumes "wf_ptrs n xs" "sized xs" "sorted_wrt (\<lambda>p q. ptr_cmp descend p q < 0) xs"
  shows "distinct (map (\<lambda>p. elems (snd p)) xs)"
  using assms
proof (induction xs)
  case (Cons p ps)
  have "elems (snd p) \<noteq> elems (snd q)" if q: "q \<in> set ps" for q
  proof
    assume e: "elems (snd p) = elems (snd q)"
    have "ptr_cmp descend p q < 0" "SIZE (snd p) = SIZE (snd q)" using Cons.prems q e by (auto simp: sized_def)
    then show False using descend_0 [of n "snd p" "snd q"] Cons.prems(1) q e by (simp add: ptr_cmp_def wf_ptrs_def)
  qed
  then show ?case using Cons by (auto simp: sized_def)
qed simp

lemma sorted_strict:
  assumes "\<forall>p\<in>set ps. wf_set n p" "sorted_wrt (\<lambda>p q. descend p q \<le> 0) ps" "distinct (map elems ps)"
  shows "sorted_wrt (\<lambda>p q. descend p q < 0) ps"
  using assms
proof (induction ps)
  case (Cons p ps)
  have "descend p q < 0" if q: "q \<in> set ps" for q
  proof -
    have "descend p q \<le> 0" "elems p \<noteq> elems q" using Cons.prems q by auto
    then show ?thesis using descend_0 [of n p q] Cons.prems(1) q by auto
  qed
  then show ?case using Cons by simp
qed simp

text \<open>The union of two families in this form has it again.\<close>

lemma sf_union_form:
  assumes A: "wf_family n A" and B: "wf_family n B" and cA: "contain_form A" and cB: "contain_form B"
  shows "contain_form (sf_union A B)"
proof -
  let ?e = "\<lambda>p :: sptr. elems (snd p)"
  obtain A1 B1 E1 where r: "rm2_equal (ptr_cmp descend) (sf_list A) (sf_list B) = (A1, B1, E1)"
    by (cases "rm2_equal (ptr_cmp descend) (sf_list A) (sf_list B)")
  have wA: "wf_ptrs n (sf_list A)" and wB: "wf_ptrs n (sf_list B)" using wf_sf_list A B by blast+
  have D: "\<forall>p\<in>set (sf_list A) \<union> set (sf_list B). wf_set n (snd p)" using wA wB by (auto simp: wf_ptrs_def)
  note R = rm2_equal_sets [OF r pdescend.comparison_axioms D]
  note strict = rm2_equal_sorted [OF r contain_formD(4) [OF cA] contain_formD(4) [OF cB]]
  define A2 where "A2 = rm2_contain A1 B1"
  define B2 where "B2 = rm2_contain B1 A2"
  have sub: "set A2 \<subseteq> set A1" "set B2 \<subseteq> set B1" by (auto simp: A2_def B2_def rm2_contain_def)
  have w: "wf_ptrs n A2" "wf_ptrs n B2" "wf_ptrs n E1"
    using wf_ptrs_subset [OF wA, of A2] wf_ptrs_subset [OF wB, of B2] wf_ptrs_subset [OF wA R(3)] R(1,2) sub by blast+
  have size: "SIZE (snd p) = card (?e p)" if "p \<in> set (sf_list A) \<union> set (sf_list B)" for p
    using that contain_formD(2) [OF cA, of p] contain_formD(2) [OF cB, of p] by blast
  have st: "sorted_wrt (\<lambda>p q. ptr_cmp descend p q < 0) A2" "sorted_wrt (\<lambda>p q. ptr_cmp descend p q < 0) B2"
    using strict unfolding A2_def B2_def rm2_contain_def by (blast intro: sorted_wrt_filter)+
  have desc: "descending A2" "descending B2" "descending E1"
    by (rule sorted_wrt_mono_rel [OF _ st(1)] sorted_wrt_mono_rel [OF _ st(2)] sorted_wrt_mono_rel [OF _ strict(3)]; simp)+
  have eq: "sf_union A B = sf_merge A2 B2 E1 n"
    using A r by (simp add: sf_union_def A2_def B2_def wf_family_def Let_def)
  note M = sf_merge_spec [OF w]
  have sz: "sized A2" "sized B2" "sized E1" using size sub R(1-3) unfolding sized_def by blast+
  note DJ = rm2_equal_disjoint [OF r pdescend.comparison_axioms D contain_formD(4) [OF cA] contain_formD(4) [OF cB]]
  have ne: "?e p \<noteq> ?e q" if "ptr_cmp descend p q \<noteq> 0" "p \<in> set (sf_list A) \<union> set (sf_list B)" "q \<in> set (sf_list A) \<union> set (sf_list B)" for p q
    using that size [OF that(2)] size [OF that(3)] D descend_0 [of n "snd p" "snd q"] by (auto simp: ptr_cmp_def)
  have "distinct (map ?e (A2 @ B2 @ E1))"
  proof -
    have "?e p \<noteq> ?e q" if "p \<in> set A2" "q \<in> set B2 \<union> set E1" for p q
      using that DJ sub R(1-3) by (intro ne) blast+
    moreover have "?e p \<noteq> ?e q" if "p \<in> set B2" "q \<in> set E1" for p q
      using that DJ sub R(1-3) by (intro ne) blast+
    ultimately show ?thesis
      using strict_distinct_elems [OF w(1) sz(1) st(1)] strict_distinct_elems [OF w(2) sz(2) st(2)] strict_distinct_elems [OF w(3) sz(3) strict(3)]
      by (auto simp: image_iff)
  qed
  moreover have "mset (map elems (data (sf_union A B))) = mset (map ?e (A2 @ B2 @ E1))"
    using arg_cong [OF M(2), of "image_mset elems"] unfolding eq by (simp add: image_mset.compositionality comp_def)
  ultimately have "distinct (map elems (data (sf_union A B)))" using mset_eq_imp_distinct_iff by blast
  moreover have "sorted_wrt (\<lambda>p q. descend p q \<le> 0) (data (sf_union A B))" unfolding eq by (rule sf_merge_sorted [OF w desc])
  ultimately have "sorted_wrt (\<lambda>p q. descend p q < 0) (data (sf_union A B))"
    using wf_familyD(3) [OF sf_union_general(1) [OF A B]] by (intro sorted_strict [of _ n]) blast+
  moreover have "SIZE p = card (elems p)" if "p \<in> set (data (sf_union A B))" for p
  proof -
    have "p \<in> snd ` (set (sf_list A) \<union> set (sf_list B))" using that sub R(1-3) unfolding eq M(3) by blast
    then show ?thesis using size by blast
  qed
  moreover have "maximal_sets (elems ` set (data (sf_union A B))) = elems ` set (data (sf_union A B))"
    unfolding sf_union_maximal [OF A B cA cB] by (rule maximal_idem)
  ultimately show ?thesis by (simp add: contain_form_def)
qed

lemma contain_form_distinct:
  assumes "wf_family n A" "contain_form A"
  shows "distinct (map elems (data A))"
proof -
  have "sized (sf_list A)" using contain_formD(2) [OF assms(2)] by (simp add: sized_def)
  then have "distinct (map (\<lambda>p. elems (snd p)) (sf_list A))"
    by (rule strict_distinct_elems [OF wf_sf_list [OF assms(1)] _ contain_formD(4) [OF assms(2)]])
  moreover have "map (\<lambda>p. elems (snd p)) (sf_list A) = map elems (map snd (sf_list A))" unfolding map_map comp_def ..
  ultimately show ?thesis unfolding map_snd_sf_list by simp
qed

section \<open>Distance-1 merging\<close>

text \<open>
  Cubes that agree outside one variable are replaced by their union, which covers the same points.
\<close>

lemma cov_merge_var:
  assumes C: "wf_cube C" and v: "v < num_vars C" and ab: "a \<union> vparts C v = b \<union> vparts C v"
  shows "cov C {a \<union> b} = cov C {a} \<union> cov C {b}"
proof -
  have "covers C a x \<or> covers C b x" if x: "point C x" and ab': "covers C (a \<union> b) x" for x
  proof -
    have other: "x u \<in> a \<and> x u \<in> b" if u: "u < num_vars C" "u \<noteq> v" for u
    proof -
      have "x u \<notin> vparts C v" using vparts_disjoint [OF wf_cubeD(1) [OF C] u(1) v] u x by (auto simp: point_def)
      moreover have "x u \<in> a \<union> b" using ab' u(1) by (auto simp: covers_def)
      ultimately show ?thesis using ab by blast
    qed
    have "x v \<in> a \<union> b" using ab' v by (auto simp: covers_def)
    then show ?thesis using other unfolding covers_def by blast
  qed
  then show ?thesis by (auto simp: cov_def intro: covers_mono)
qed

lemma d1_rm_equal_spec:
  assumes C: "wf_cube C" and v: "v < num_vars C"
    and wf: "wf_ptrs (cube_size C) xs"
    and srt: "sorted_wrt (\<lambda>a b. ptr_cmp (d1_order (var_mask C ! v)) a b \<le> 0) xs"
  defines "ys \<equiv> d1_rm_equal (ptr_cmp (d1_order (var_mask C ! v))) xs"
  shows "wf_ptrs (cube_size C) ys"
    "cov C ((\<lambda>p. elems (snd p)) ` set ys) = cov C ((\<lambda>p. elems (snd p)) ` set xs)"
    "sorted_wrt (\<lambda>a b. ptr_cmp (d1_order (var_mask C ! v)) a b < 0) ys"
    "length ys \<le> length xs"
    "xs \<noteq> [] \<Longrightarrow> ys \<noteq> [] \<and> ptr_cmp (d1_order (var_mask C ! v)) (hd ys) (hd xs) = 0"
proof -
  let ?m = "var_mask C ! v"
  let ?c = "ptr_cmp (d1_order ?m)"
  let ?e = "\<lambda>p :: sptr. elems (snd p)"
  let ?w = "\<lambda>p :: sptr. wf_set (cube_size C) (snd p)"
  have m: "wf_set (cube_size C) ?m" "elems ?m = vparts C v" using C v by simp_all
  have zero: "?c p q = 0 \<longleftrightarrow> ?e p \<union> vparts C v = ?e q \<union> vparts C v" if "?w p" "?w q" for p q
    using d1_order_0 [OF that m(1)] m(2) by (simp add: ptr_cmp_def)
  have "wf_ptrs (cube_size C) ys \<and> cov C (?e ` set ys) = cov C (?e ` set xs) \<and>
      sorted_wrt (\<lambda>a b. ?c a b < 0) ys \<and> length ys \<le> length xs \<and> (xs \<noteq> [] \<longrightarrow> ys \<noteq> [] \<and> ?c (hd ys) (hd xs) = 0)"
    using wf srt unfolding ys_def
  proof (induction "ptr_cmp (d1_order ?m)" xs rule: d1_rm_equal.induct)
    case (3 p q ps)
    have w: "?w p" "?w q" "wf_ptrs (cube_size C) ps" using "3.prems"(1) by simp_all
    show ?case
    proof (cases "?c p q = 0")
      case True
      let ?r = "(fst p, set_or (snd p) (snd p) (snd q))"
      have r: "?w ?r" "?e ?r = ?e p \<union> ?e q" using w by (simp_all add: binops_wf binops_elems wf_length)
      have key: "?e p \<union> vparts C v = ?e q \<union> vparts C v" using zero [OF w(1,2)] True by simp
      then have "?e ?r \<union> vparts C v = ?e p \<union> vparts C v" unfolding r(2) by blast
      then have rp: "?c ?r p = 0" using zero [OF r(1) w(1)] by blast
      have "?c ?r s \<le> 0" if s: "s \<in> set ps" for s
      proof -
        have "?w s" using w(3) s by (simp add: wf_ptrs_def)
        then show ?thesis
          using pd1_order.trans_le [of "cube_size C" ?r p s ?m] r(1) w(1) rp "3.prems"(2) s by simp
      qed
      then have "sorted_wrt (\<lambda>a b. ?c a b \<le> 0) (?r # ps)" using "3.prems"(2) by simp
      moreover have "wf_ptrs (cube_size C) (?r # ps)" using r(1) w(3) by simp
      moreover note IH = "3.hyps"(1) [OF True]
      ultimately have I: "wf_ptrs (cube_size C) (d1_rm_equal ?c (?r # ps))"
        "cov C (?e ` set (d1_rm_equal ?c (?r # ps))) = cov C (?e ` set (?r # ps))"
        "sorted_wrt (\<lambda>a b. ?c a b < 0) (d1_rm_equal ?c (?r # ps))"
        "length (d1_rm_equal ?c (?r # ps)) \<le> length (?r # ps)"
        "d1_rm_equal ?c (?r # ps) \<noteq> []" "?c (hd (d1_rm_equal ?c (?r # ps))) ?r = 0" by simp_all
      have eq: "d1_rm_equal ?c (p # q # ps) = d1_rm_equal ?c (?r # ps)" using True by simp
      have "cov C (?e ` set (?r # ps)) = cov C {?e p \<union> ?e q} \<union> cov C (?e ` set ps)"
        unfolding list.set image_insert r(2) by (rule cov_insert)
      also have "\<dots> = cov C (?e ` set (p # q # ps))"
        using cov_insert [of C "?e p" "insert (?e q) (?e ` set ps)"] cov_insert [of C "?e q" "?e ` set ps"]
        unfolding cov_merge_var [OF C v key] list.set image_insert by (simp only: Un_assoc)
      finally have c: "cov C (?e ` set (?r # ps)) = cov C (?e ` set (p # q # ps))" .
      have h: "hd (d1_rm_equal ?c (?r # ps)) \<in> set (d1_rm_equal ?c (?r # ps))" using I(5) by (rule hd_in_set)
      then have "?w (hd (d1_rm_equal ?c (?r # ps)))" using I(1) by (simp add: wf_ptrs_def)
      from pd1_order.cmp_eq_trans [OF this r(1) w(1) I(6) rp]
      show ?thesis unfolding eq using I(1-5) c by simp
    next
      case False
      have D: "\<forall>s\<in>set (q # ps). ?w s" using w by (simp add: wf_ptrs_def)
      have I: "wf_ptrs (cube_size C) (d1_rm_equal ?c (q # ps))"
        "cov C (?e ` set (d1_rm_equal ?c (q # ps))) = cov C (?e ` set (q # ps))"
        "sorted_wrt (\<lambda>a b. ?c a b < 0) (d1_rm_equal ?c (q # ps))"
        "length (d1_rm_equal ?c (q # ps)) \<le> length (q # ps)"
        "d1_rm_equal ?c (q # ps) \<noteq> []" "?c (hd (d1_rm_equal ?c (q # ps))) q = 0"
        using "3.hyps"(2) [OF False] "3.prems" by simp_all
      let ?ys = "d1_rm_equal ?c (q # ps)"
      have pq: "?c p q < 0" using False "3.prems"(2) by simp
      have "?c p s < 0" if s: "s \<in> set ?ys" for s
      proof -
        obtain y ys where ys: "?ys = y # ys" using I(5) by (cases ?ys) auto
        have "?w s" "?w y" using I(1) s ys by (auto simp: wf_ptrs_def)
        have yq: "?c y q = 0" using I(6) ys by simp
        have "?c q y = 0" by (rule pd1_order.cmp_eq_sym [OF \<open>?w y\<close> w(2) yq])
        moreover have "s = y \<or> ?c y s < 0" using s I(3) ys by auto
        ultimately have "?c q s \<le> 0"
          using pd1_order.trans_le [OF w(2) \<open>?w y\<close> \<open>?w s\<close>, of ?m] by auto
        then show ?thesis by (rule pd1_order.less_le_trans [OF w(1,2) \<open>?w s\<close> pq])
      qed
      moreover have "cov C (?e ` set (p # ?ys)) = cov C (?e ` set (p # q # ps))"
        using cov_insert [of C "?e p" "?e ` set ?ys"] cov_insert [of C "?e p" "?e ` set (q # ps)"]
        unfolding list.set(2) [of p] image_insert I(2) by (simp only:)
      ultimately show ?thesis using False I(1,3,4) w(1) pd1_order.cmp_refl [OF w(1)] by simp
    qed
  qed (auto simp: pd1_order.cmp_refl)
  then show "wf_ptrs (cube_size C) ys" "cov C (?e ` set ys) = cov C (?e ` set xs)"
    "sorted_wrt (\<lambda>a b. ?c a b < 0) ys" "length ys \<le> length xs"
    "xs \<noteq> [] \<Longrightarrow> ys \<noteq> [] \<and> ?c (hd ys) (hd xs) = 0" by blast+
qed

lemma d1merge_spec:
  assumes C: "wf_cube C" and v: "v < num_vars C" and A: "is_cover C A"
  shows "is_cover C (d1merge C A v)" "onset C (d1merge C A v) = onset C A" "cnt (d1merge C A v) \<le> cnt A"
    "distinct (map (\<lambda>p. elems p \<union> vparts C v) (data (d1merge C A v)))"
proof -
  let ?m = "var_mask C ! v"
  let ?c = "ptr_cmp (d1_order ?m)"
  let ?xs = "sf_sort A (d1_order ?m)"
  let ?ys = "d1_rm_equal ?c ?xs"
  let ?e = "\<lambda>p :: sptr. elems (snd p)"
  note S = sf_sort_wf [OF A, of "d1_order ?m"]
  have srt: "sorted_wrt (\<lambda>a b. ?c a b \<le> 0) ?xs"
    unfolding sf_sort_def by (rule pd1_order.sorted_qsort) (use S(1) in \<open>simp add: wf_ptrs_def sf_sort_set\<close>)
  note D = d1_rm_equal_spec [OF C v S(1) srt]
  note U = sf_unlist_spec [OF D(1)]
  have eq: "d1merge C A v = sf_unlist ?ys (cube_size C)"
    using A by (simp add: d1merge_def dist_merge_def Let_def wf_family_def)
  show "is_cover C (d1merge C A v)" unfolding eq by (rule U(2))
  have "elems ` set (data (d1merge C A v)) = ?e ` set ?ys" unfolding eq U(1) by (simp add: image_image)
  then show "onset C (d1merge C A v) = onset C A" using D(2) S(4) by (simp only:)
  show "cnt (d1merge C A v) \<le> cnt A" using D(4) S(3) unfolding eq U(1) by simp
  have W: "\<forall>p\<in>set ?ys. wf_set (cube_size C) (snd p)" using D(1) by (simp add: wf_ptrs_def)
  have m: "wf_set (cube_size C) ?m" "elems ?m = vparts C v" using C v by simp_all
  have "inj_on (\<lambda>p. ?e p \<union> vparts C v) (set ?ys)"
  proof (rule inj_onI)
    fix p q assume pq: "p \<in> set ?ys" "q \<in> set ?ys" "?e p \<union> vparts C v = ?e q \<union> vparts C v"
    then have "?c p q = 0" using d1_order_0 [OF _ _ m(1), of "snd p" "snd q"] W m(2) by (simp add: ptr_cmp_def)
    then show "p = q" by (rule pd1_order.strictly_sorted_distinct [OF W D(3) pq(1,2)])
  qed
  moreover have "distinct ?ys" by (rule pd1_order.strictly_sorted_dist [OF W D(3)])
  ultimately show "distinct (map (\<lambda>p. elems p \<union> vparts C v) (data (d1merge C A v)))"
    unfolding eq U(1) by (simp add: distinct_map comp_def)
qed

section \<open>Properties\<close>

text \<open>
  C24. Single-cube containment: \<open>sf_contain\<close> leaves exactly the
  sets that no other set of the family properly contains, each once, strictly sorted by decreasing size, with the
  sizes filled in; \<open>sf_rev_contain\<close> leaves exactly those that properly contain no
  other; \<open>sf_dupl\<close> only removes repetitions; and \<open>sf_ind_contain\<close> moves
  the row numbers along with the sets.
\<close>

theorem containment_keeps_extremes:
  assumes "wf_family n A" "length rows = cnt A"
  shows "(wf_family n (sf_contain A) \<and> elems ` set (data (sf_contain A)) = maximal_sets (elems ` set (data A))
      \<and> distinct (map elems (data (sf_contain A)))
      \<and> sorted_wrt (\<lambda>p q. descend p q < 0) (data (sf_contain A))
      \<and> (\<forall>p\<in>set (data (sf_contain A)). SIZE p = card (elems p)))
    \<and> (wf_family n (sf_rev_contain A) \<and> elems ` set (data (sf_rev_contain A)) = minimal_sets (elems ` set (data A))
      \<and> distinct (map elems (data (sf_rev_contain A))))
    \<and> (wf_family n (sf_dupl A) \<and> elems ` set (data (sf_dupl A)) = elems ` set (data A)
      \<and> distinct (map elems (data (sf_dupl A))))
    \<and> fst (sf_ind_contain A rows) = sf_contain A
    \<and> (\<forall>i<cnt (sf_contain A). \<exists>j<cnt A. snd (sf_ind_contain A rows) ! i = rows ! j
         \<and> elems (data (sf_contain A) ! i) = elems (data A ! j))"
  using sf_contain_spec [OF assms(1)] sf_rev_contain_spec [OF assms(1)] sf_dupl_spec [OF assms(1)]
    sf_ind_contain_spec [OF assms] by (intro conjI allI impI) (assumption | simp only:)+

theorem containment_keeps_extremes_witness:
  "elems ` set (data (sf_contain (cover_of 40 [[1, 35], [1, 35], [1]]))) = maximal_sets {{1, 35}, {1}}"
  using containment_keeps_extremes [of 40 "cover_of 40 [[1, 35], [1, 35], [1]]" "[0, 1, 2]"] by simp

text \<open>
  C25. \<open>sf_union\<close> of any two families keeps only sets of the two and for
  every set one that contains it, so the points covered are those of both; for two families as
  \<open>sf_contain\<close> returns them the result is exactly the collection of the largest sets, each once, and again as
  \<open>sf_contain\<close> returns it.
\<close>

theorem union_is_maximal:
  assumes "wf_family n A" "wf_family n B"
  shows "wf_family n (sf_union A B) \<and> onset C (sf_union A B) = onset C A \<union> onset C B
    \<and> elems ` set (data (sf_union A B)) \<subseteq> elems ` set (data A) \<union> elems ` set (data B)
    \<and> elems ` set (data (sf_union (sf_contain A) (sf_contain B)))
      = maximal_sets (elems ` set (data A) \<union> elems ` set (data B))
    \<and> distinct (map elems (data (sf_union (sf_contain A) (sf_contain B)))) \<and> contain_form (sf_union (sf_contain A) (sf_contain B))"
proof (intro conjI)
  note c = sf_contain_spec(1) [OF assms(1)] sf_contain_spec(1) [OF assms(2)] sf_contain_form [OF assms(1)] sf_contain_form [OF assms(2)]
  show f: "contain_form (sf_union (sf_contain A) (sf_contain B))" by (rule sf_union_form [OF c])
  show "distinct (map elems (data (sf_union (sf_contain A) (sf_contain B))))"
    by (rule contain_form_distinct [OF sf_union_general(1) [OF c(1,2)] f])
  show "wf_family n (sf_union A B)" "elems ` set (data (sf_union A B)) \<subseteq> elems ` set (data A) \<union> elems ` set (data B)"
    by (rule sf_union_general [OF assms])+
  show "onset C (sf_union A B) = onset C A \<union> onset C B" by (rule sf_union_cov [OF assms])
  have "maximal_sets (maximal_sets S \<union> maximal_sets T) = maximal_sets (S \<union> T)"
    if H: "finite S" "finite T" for S T :: "nat set set"
  proof (rule antichain_maximal)
    show "maximal_sets (maximal_sets S \<union> maximal_sets T) \<subseteq> S \<union> T" by (auto simp: maximal_sets_def)
    show "\<forall>X\<in>maximal_sets (maximal_sets S \<union> maximal_sets T). \<forall>Y\<in>maximal_sets (maximal_sets S \<union> maximal_sets T). \<not> X \<subset> Y"
      by (auto simp: maximal_sets_def)
    have fin: "finite (maximal_sets S \<union> maximal_sets T)"
      by (rule finite_subset [of _ "S \<union> T"]) (use H in \<open>auto simp: maximal_sets_def\<close>)
    show "\<forall>X\<in>S \<union> T. \<exists>Y\<in>maximal_sets (maximal_sets S \<union> maximal_sets T). X \<subseteq> Y"
    proof
      fix X assume "X \<in> S \<union> T"
      then obtain Z where Z: "Z \<in> maximal_sets S \<union> maximal_sets T" and "X \<subseteq> Z"
        using maximal_above [OF H(1), of X] maximal_above [OF H(2), of X] by blast
      moreover obtain Y where "Y \<in> maximal_sets (maximal_sets S \<union> maximal_sets T)" "Z \<subseteq> Y"
        using maximal_above [OF fin Z] by blast
      ultimately show "\<exists>Y\<in>maximal_sets (maximal_sets S \<union> maximal_sets T). X \<subseteq> Y" by (meson subset_trans)
    qed
  qed
  then show "elems ` set (data (sf_union (sf_contain A) (sf_contain B)))
      = maximal_sets (elems ` set (data A) \<union> elems ` set (data B))"
    unfolding sf_union_maximal [OF sf_contain_spec(1) sf_contain_spec(1) sf_contain_form sf_contain_form,
        OF assms assms] sf_contain_spec(2) [OF assms(1)] sf_contain_spec(2) [OF assms(2)] by simp
qed

theorem union_is_maximal_witness:
  "onset demo_cube (sf_union (cover_of 7 [[0, 2, 4]]) (cover_of 7 [[0, 1, 2, 4, 5], [3]]))
     = onset demo_cube (cover_of 7 [[0, 2, 4]]) \<union> onset demo_cube (cover_of 7 [[0, 1, 2, 4, 5], [3]])"
  by (rule union_is_maximal [THEN conjunct2, THEN conjunct1, of 7]) (rule cover_of; simp)+

text \<open>
  C31. Merging by distance 1 in a variable replaces cubes that agree in all the others by
  their union: the points covered stay, the number of cubes does not grow, and no two cubes left
  could be merged again.
\<close>

theorem d1merge_preserves:
  assumes "wf_cube C" "v < num_vars C" "is_cover C A"
  shows "is_cover C (d1merge C A v) \<and> onset C (d1merge C A v) = onset C A \<and> cnt (d1merge C A v) \<le> cnt A
    \<and> distinct (map (\<lambda>p. elems p \<union> vparts C v) (data (d1merge C A v)))"
  using d1merge_spec [OF assms] by (intro conjI)

theorem d1merge_preserves_witness:
  "onset demo_cube (d1merge demo_cube (cover_of 7 [[0, 2, 4], [0, 1, 3, 5], [0, 3, 4]]) 1)
     = onset demo_cube (cover_of 7 [[0, 2, 4], [0, 1, 3, 5], [0, 3, 4]])"
  by (rule d1merge_preserves [THEN conjunct2, THEN conjunct1]) simp_all

end
