(* ===== verification/Cofactor.thy ===== *)
theory Cofactor
  imports Contain
begin

text \<open>
  Cubelists and cofactors (\<^verbatim>\<open>cofactor.c\<close>), the counts behind the choice of the
  splitting variable, and the split itself.

  A cubelist is an array of pointers: entry 0 points to a cube with the parts that have been cofactored against, entry 1
  behind the sentinel, and the cubes follow from entry 2 on.  The model keeps that cube and the list of
  the cubes.  Two routines compare a cube of the list with the cofactoring cube as pointers
  (\<^verbatim>\<open>p != c\<close>); the argument \<open>self\<close> says which entry of the list, if any, the
  cofactoring cube is.

  A cubelist stands for the cubes of the list with the cofactored parts added.  The points whose parts
  avoid the cofactored parts are the points of the subspace in which the recursive algorithms work.
\<close>

section \<open>Definitions\<close>

record cubelist =
  cof :: pset
  cubes :: "pset list"

definition CUBELISTSIZE :: "cubelist \<Rightarrow> nat" where
  "CUBELISTSIZE T = length (cubes T)"

text \<open>The cubes of the list that are not the cube \<open>self\<close> itself.\<close>

definition others :: "nat option \<Rightarrow> 'a list \<Rightarrow> 'a list" where
  "others self ps = map snd (filter (\<lambda>(i, p). self \<noteq> Some i) (enumerate 0 ps))"

definition cofactor :: "cube_struct \<Rightarrow> cubelist \<Rightarrow> pset \<Rightarrow> nat option \<Rightarrow> cubelist" where
  "cofactor C T c self =
     (let temp = set_diff (new_cube C) (fullset C) c
      in \<lparr>cof = set_or (new_cube C) (cof T) temp,
          cubes = filter (\<lambda>p. cdist0 C p c) (others self (cubes T))\<rparr>)"

definition scofactor :: "cube_struct \<Rightarrow> cubelist \<Rightarrow> pset \<Rightarrow> nat \<Rightarrow> nat option \<Rightarrow> cubelist" where
  "scofactor C T c var self =
     (let mask = set_diff (new_cube C) (fullset C) c;
          cof' = set_or (new_cube C) (cof T) mask;
          mask = set_and mask (var_mask C ! var) c
      in \<lparr>cof = cof',
          cubes = filter (\<lambda>p. list_ex (\<lambda>i. p ! i AND mask ! i \<noteq> 0) (word_range C var))
                    (others self (cubes T))\<rparr>)"

record cdata_struct =
  part_zeros :: "nat list"
  var_zeros :: "nat list"
  parts_active :: "nat list"
  is_unate :: "bool list"
  vars_active :: nat
  vars_unate :: nat
  best_var :: int

text \<open>\<^verbatim>\<open>if (val & 0x80000000) cnt[31]++; if (val & 0x40000000) cnt[30]++; ...\<close>, for the bits
  \<open>ks\<close>, and the four bytes of a word.\<close>

definition bump_bits :: "u32 \<Rightarrow> nat \<Rightarrow> nat list \<Rightarrow> nat list \<Rightarrow> nat list" where
  "bump_bits val base ks cnts =
     fold (\<lambda>k cnts. if val AND push_bit k 1 \<noteq> 0
                     then cnts[base + k := cnts ! (base + k) + 1] else cnts) ks cnts"

definition bump_word :: "u32 \<Rightarrow> nat \<Rightarrow> nat list \<Rightarrow> nat list" where
  "bump_word val base cnts =
     (let cnts = (if val AND 0xFF000000 \<noteq> 0 then bump_bits val base [31,30,29,28,27,26,25,24] cnts else cnts);
          cnts = (if val AND 0x00FF0000 \<noteq> 0 then bump_bits val base [23,22,21,20,19,18,17,16] cnts else cnts);
          cnts = (if val AND 0xFF00 \<noteq> 0 then bump_bits val base [15,14,13,12,11,10,9,8] cnts else cnts)
      in if val AND 0x00FF \<noteq> 0 then bump_bits val base [7,6,5,4,3,2,1,0] cnts else cnts)"

definition count_zeros :: "cube_struct \<Rightarrow> cubelist \<Rightarrow> nat list" where
  "count_zeros C T =
     fold (\<lambda>p cnts.
         for_down (\<lambda>i cnts.
             let val = fullset C ! i AND NOT (p ! i OR cof T ! i)
             in if val \<noteq> 0 then bump_word val (push_bit 5 (i - 1)) cnts else cnts)
           (LOOP p) cnts)
       (cubes T) (replicate (cube_size C) 0)"

text \<open>The counts of one variable: its active parts, its zeros, and the largest number of zeros of a part.
  (For a multiple-valued variable the code takes the number of active parts for the latter.)\<close>

definition var_counts :: "cube_struct \<Rightarrow> nat list \<Rightarrow> nat \<Rightarrow> nat \<times> nat \<times> nat" where
  "var_counts C cnts var =
     (if var < num_binary_vars C then
        (let i = cnts ! (var * 2); lastbit = cnts ! (var * 2 + 1)
         in (of_bool (i > 0) + of_bool (lastbit > 0), i + lastbit, max i lastbit))
      else fold (\<lambda>i (active, zeros, maxactive).
             let active' = active + of_bool (cnts ! i > 0)
             in (active', zeros + cnts ! i, if active' > maxactive then active' else maxactive))
           (part_range C var) (0, 0, 0))"

definition var_step ::
  "cube_struct \<Rightarrow> nat \<Rightarrow> cdata_struct \<times> nat \<times> nat \<times> nat \<Rightarrow> cdata_struct \<times> nat \<times> nat \<times> nat" where
  "var_step C var st =
     (let (cd, mostactive, mostzero, mostbalanced) = st;
          (active, zeros, maxactive) = var_counts C (part_zeros cd) var;
          (b, mostactive, mostzero, mostbalanced) =
            (if active > mostactive then (int var, active, zeros, maxactive)
             else if active = mostactive then
               (if zeros > mostzero then (int var, mostactive, zeros, maxactive)
                else if zeros = mostzero then
                  (if maxactive < mostbalanced then (int var, mostactive, mostzero, maxactive)
                   else (best_var cd, mostactive, mostzero, mostbalanced))
                else (best_var cd, mostactive, mostzero, mostbalanced))
             else (best_var cd, mostactive, mostzero, mostbalanced))
      in (cd\<lparr>var_zeros := var_zeros cd @ [zeros], parts_active := parts_active cd @ [active],
             is_unate := is_unate cd @ [active = 1],
             vars_active := vars_active cd + of_bool (active > 0),
             vars_unate := vars_unate cd + of_bool (active = 1), best_var := b\<rparr>,
          mostactive, mostzero, mostbalanced))"

definition massive_count :: "cube_struct \<Rightarrow> cubelist \<Rightarrow> cdata_struct" where
  "massive_count C T =
     fst (fold (var_step C) [0..<num_vars C]
       (\<lparr>part_zeros = count_zeros C T, var_zeros = [], parts_active = [], is_unate = [],
          vars_active = 0, vars_unate = 0, best_var = - 1\<rparr>, 0, 0, 32000))"

text \<open>
  The loop that fills \<^verbatim>\<open>cleft\<close> stops when \<open>halfbit\<close> parts have been taken, the next one
  goes on with the parts that are left.
\<close>

fun split_left :: "pset \<Rightarrow> nat list \<Rightarrow> nat \<Rightarrow> pset \<Rightarrow> nat list \<times> pset" where
  "split_left cf is 0 cleft = (is, cleft)"
| "split_left cf [] (Suc h) cleft = ([], cleft)"
| "split_left cf (i # is) (Suc h) cleft =
     (if \<not> is_in_set cf i then split_left cf is h (set_insert cleft i)
      else split_left cf is (Suc h) cleft)"

definition binate_split_select ::
  "cube_struct \<Rightarrow> cubelist \<Rightarrow> cdata_struct \<Rightarrow> pset \<Rightarrow> pset \<Rightarrow> pset \<times> pset \<times> nat" where
  "binate_split_select C T cd cleft cright =
     (let best = nat (best_var cd);
          cleft = set_diff cleft (fullset C) (var_mask C ! best);
          cright = set_diff cright (fullset C) (var_mask C ! best);
          halfbit = length (filter (\<lambda>i. \<not> is_in_set (cof T) i) (part_range C best));
          (is, cleft) = split_left (cof T) (part_range C best) (halfbit div 2) cleft;
          cright = fold (\<lambda>i cright. if \<not> is_in_set (cof T) i then set_insert cright i else cright) is cright
      in (cleft, cright, best))"

definition cube1list :: "cube_struct \<Rightarrow> set_family \<Rightarrow> cubelist" where
  "cube1list C A = \<lparr>cof = new_cube C, cubes = data A\<rparr>"

definition cube2list :: "cube_struct \<Rightarrow> set_family \<Rightarrow> set_family \<Rightarrow> cubelist" where
  "cube2list C A B = \<lparr>cof = new_cube C, cubes = data A @ data B\<rparr>"

definition cube3list :: "cube_struct \<Rightarrow> set_family \<Rightarrow> set_family \<Rightarrow> set_family \<Rightarrow> cubelist" where
  "cube3list C A B D = \<lparr>cof = new_cube C, cubes = data A @ data B @ data D\<rparr>"

definition cubeunlist :: "cube_struct \<Rightarrow> memory \<Rightarrow> cubelist \<Rightarrow> set_family" where
  "cubeunlist C mem A1 =
     fold (\<lambda>p A. sf_push A (set_or (sf_fresh mem A) p (cof A1))) (cubes A1) (new_cover C (CUBELISTSIZE A1))"

text \<open>
  \<^verbatim>\<open>simplify_cubelist\<close> as it is written: sort by \<open>d1_order\<close> with the mask \<open>cof\<close>, then
  for \<open>i\<close> from 3 up to below \<open>ncubes\<close> (which is the index of the last cube but one)
  keep entry \<open>i\<close> if it differs from the one before.  Entries 2, and the last two, are never copied.
  The list that remains is what precedes the new sentinel.  The pointer to its end is written to \<^verbatim>\<open>Tdest[1]\<close> instead of
  \<^verbatim>\<open>T[1]\<close>, so the C macro \<^verbatim>\<open>CUBELISTSIZE\<close> would go on to give the old number of cubes.
\<close>

definition simplify_cubelist :: "cubelist \<Rightarrow> cubelist" where
  "simplify_cubelist T =
     (let ncubes = CUBELISTSIZE T;
          ps = qsort (d1_order (cof T)) (cubes T)
      in T\<lparr>cubes := map (\<lambda>i. ps ! (i - 2))
             (filter (\<lambda>i. d1_order (cof T) (ps ! (i - 3)) (ps ! (i - 2)) \<noteq> 0) [3..<ncubes])\<rparr>)"

section \<open>What a cubelist stands for\<close>

definition wf_list :: "cube_struct \<Rightarrow> cubelist \<Rightarrow> bool" where
  "wf_list C T \<longleftrightarrow> is_cube C (cof T) \<and> (\<forall>p\<in>set (cubes T). is_cube C p)"

definition lcov :: "cube_struct \<Rightarrow> cubelist \<Rightarrow> (nat \<Rightarrow> nat) set" where
  "lcov C T = cov C ((\<lambda>p. elems p \<union> elems (cof T)) ` set (cubes T))"

definition free :: "cube_struct \<Rightarrow> cubelist \<Rightarrow> (nat \<Rightarrow> nat) \<Rightarrow> bool" where
  "free C T x \<longleftrightarrow> point C x \<and> (\<forall>v<num_vars C. x v \<notin> elems (cof T))"

lemma wf_listD: "wf_list C T \<Longrightarrow> is_cube C (cof T)" "wf_list C T \<Longrightarrow> p \<in> set (cubes T) \<Longrightarrow> is_cube C p"
  by (simp_all add: wf_list_def)

lemma lcov_iff:
  "x \<in> lcov C T \<longleftrightarrow> point C x \<and> (\<exists>p\<in>set (cubes T). covers C (elems p \<union> elems (cof T)) x)"
  by (auto simp: lcov_def cov_def)

lemma free_covers: "free C T x \<Longrightarrow> covers C (a \<union> elems (cof T)) x \<longleftrightarrow> covers C a x"
  by (auto simp: free_def covers_def)

lemma free_point: "free C T x \<Longrightarrow> point C x"
  by (simp add: free_def)

lemma set_others: "set (others None ps) = set ps" "set (others self ps) \<subseteq> set ps"
    "set (others (Some i) ps) = {ps ! j |j. j < length ps \<and> j \<noteq> i}"
proof -
  have e: "set (enumerate 0 ps) = (\<lambda>i. (i, ps ! i)) ` {..<length ps}"
    by (auto simp: in_set_enumerate_eq)
  show "set (others None ps) = set ps" "set (others self ps) \<subseteq> set ps"
    "set (others (Some i) ps) = {ps ! j |j. j < length ps \<and> j \<noteq> i}"
    unfolding others_def set_map set_filter e by (auto simp: image_iff in_set_conv_nth)
qed

lemma others_None [simp]: "others None ps = ps"
  by (simp add: others_def)

text \<open>The cofactoring cube together with the parts it leaves out: a point inside is decided by the cofactor.\<close>

lemma cofactor_wf:
  assumes "wf_cube C" "wf_list C T" "is_cube C c"
  shows "wf_list C (cofactor C T c self)" "wf_list C (scofactor C T c v self)"
    "elems (cof (cofactor C T c self)) = elems (cof T) \<union> ({..<cube_size C} - elems c)"
    "elems (cof (scofactor C T c v self)) = elems (cof T) \<union> ({..<cube_size C} - elems c)"
proof -
  have f: "is_cube C (fullset C)" "length (new_cube C) = SET_SIZE (cube_size C)"
    using assms(1) by (simp_all add: new_cube_def)
  have d: "is_cube C (set_diff (new_cube C) (fullset C) c)"
    "elems (set_diff (new_cube C) (fullset C) c) = {..<cube_size C} - elems c"
    using binops_wf(3) [OF f(1) assms(3) f(2)] binops_elems(3) [OF f(1) assms(3) f(2)] assms(1) by simp_all
  have o: "is_cube C (set_or (new_cube C) (cof T) (set_diff (new_cube C) (fullset C) c))"
    "elems (set_or (new_cube C) (cof T) (set_diff (new_cube C) (fullset C) c)) = elems (cof T) \<union> ({..<cube_size C} - elems c)"
    using binops_wf(2) [OF wf_listD(1) [OF assms(2)] d(1) f(2)] binops_elems(2) [OF wf_listD(1) [OF assms(2)] d(1) f(2)] d(2)
    by simp_all
  show "elems (cof (cofactor C T c self)) = elems (cof T) \<union> ({..<cube_size C} - elems c)"
    "elems (cof (scofactor C T c v self)) = elems (cof T) \<union> ({..<cube_size C} - elems c)"
    by (simp_all add: cofactor_def scofactor_def Let_def o)
  have "\<forall>p\<in>set (others self (cubes T)). is_cube C p" using set_others(2) [of self "cubes T"] assms(2) by (auto simp: wf_list_def)
  then show "wf_list C (cofactor C T c self)" "wf_list C (scofactor C T c v self)"
    using o(1) by (simp_all add: cofactor_def scofactor_def Let_def wf_list_def)
qed

lemma scofactor_test:
  assumes C: "wf_cube C" "is_cube C p" "is_cube C c" "v < num_vars C"
  shows "list_ex (\<lambda>i. p ! i AND set_and (set_diff (new_cube C) (fullset C) c) (var_mask C ! v) c ! i \<noteq> 0) (word_range C v)
     \<longleftrightarrow> elems p \<inter> elems c \<inter> vparts C v \<noteq> {}"
proof -
  let ?m = "set_and (set_diff (new_cube C) (fullset C) c) (var_mask C ! v) c"
  note L = wf_cubeD(1) [OF C(1)]
  have len: "length (set_diff (new_cube C) (fullset C) c) = SET_SIZE (cube_size C)"
    by (rule wf_length [OF binops_wf(3)]) (use C in \<open>simp_all add: new_cube_def\<close>)
  have "?m ! w = (var_mask C ! v ! w AND c ! w)" if "w \<in> set (word_range C v)" for w
  proof -
    have "first_part C ! v + psz C v - 1 < cube_size C"
      using wf_layoutD(5) [OF L C(4)] last_part_le [OF L C(4)] by simp
    from word_index_bounds [OF cube_size_words [OF this]]
    have "1 \<le> w" "w \<le> LOOPINIT (cube_size C)"
      using that wf_cube_words [OF C(1,4)] by (auto simp: word_range_def WHICH_WORD_eq)
    moreover have "LOOP (var_mask C ! v) = LOOPINIT (cube_size C)" using C(1,4) by (intro wf_LOOP) simp
    ultimately show ?thesis using len by (simp add: set_and_def Let_def nth_upd_down SET_SIZE_eq)
  qed
  then have "list_ex (\<lambda>i. p ! i AND ?m ! i \<noteq> 0) (word_range C v)
      \<longleftrightarrow> list_ex (\<lambda>i. (p ! i AND c ! i) AND var_mask C ! v ! i \<noteq> 0) (word_range C v)"
    unfolding list_ex_iff by (auto simp: ac_simps)
  also have "\<dots> \<longleftrightarrow> (\<exists>e\<in>vparts C v. wbit (\<lambda>w. p ! w AND c ! w) e)" by (rule mv_test [OF C(1,4)])
  also have "\<dots> \<longleftrightarrow> elems p \<inter> elems c \<inter> vparts C v \<noteq> {}"
  proof -
    have "wbit ((!) p) e \<longleftrightarrow> e \<in> elems p" "wbit ((!) c) e \<longleftrightarrow> e \<in> elems c" if "e \<in> vparts C v" for e
      using wbit_cube(2) [OF C(2)] wbit_cube(2) [OF C(3)] cube_size_words [OF vparts_less [OF L C(4) that]] by simp_all
    then show ?thesis by auto
  qed
  finally show ?thesis .
qed

lemma cofactor_cov:
  assumes C: "wf_cube C" "wf_list C T" "is_cube C c" and x: "covers C (elems c) x"
  shows "x \<in> lcov C (cofactor C T c self) \<Longrightarrow> x \<in> lcov C (T\<lparr>cubes := others self (cubes T)\<rparr>)"
    "free C T x \<Longrightarrow> x \<in> lcov C (T\<lparr>cubes := others self (cubes T)\<rparr>) \<Longrightarrow> x \<in> lcov C (cofactor C T c self)"
    "free C T x \<Longrightarrow> free C (cofactor C T c self) x"
proof -
  note W = cofactor_wf [OF C]
  have W2: "is_cube C p" if "p \<in> set (others self (cubes T))" for p
    using that set_others(2) [of self "cubes T"] C(2) by (auto simp: wf_list_def)
  have xc: "x v \<notin> {..<cube_size C} - elems c" if "v < num_vars C" for v using x that by (auto simp: covers_def)
  have e: "covers C (elems p \<union> elems (cof (cofactor C T c self))) x \<longleftrightarrow> covers C (elems p \<union> elems (cof T)) x" for p
    unfolding W(3) using xc by (auto simp: covers_def)
  have sub: "set (cubes (cofactor C T c self)) \<subseteq> set (others self (cubes T))" by (auto simp: cofactor_def Let_def)
  show "x \<in> lcov C (cofactor C T c self) \<Longrightarrow> x \<in> lcov C (T\<lparr>cubes := others self (cubes T)\<rparr>)"
    using sub unfolding lcov_iff e by auto
  show "free C T x \<Longrightarrow> free C (cofactor C T c self) x" using xc unfolding free_def W(3) by auto
  assume f: "free C T x" and "x \<in> lcov C (T\<lparr>cubes := others self (cubes T)\<rparr>)"
  then obtain p where p: "p \<in> set (others self (cubes T))" "covers C (elems p \<union> elems (cof T)) x" by (auto simp: lcov_iff)
  then have "covers C (elems p \<inter> elems c) x" using x free_covers [OF f] covers_Int by blast
  then have "nulls C (elems p \<inter> elems c) = {}"
    using covers_not_null [OF _ free_point [OF f]] null_cube_nulls by blast
  then have "p \<in> set (cubes (cofactor C T c self))"
    using p(1) cdist0_spec [OF C(1) W2 [OF p(1)] C(3)] by (simp add: cofactor_def Let_def)
  then show "x \<in> lcov C (cofactor C T c self)" using p(2) free_point [OF f] unfolding lcov_iff e by blast
qed

lemma scofactor_cov:
  assumes C: "wf_cube C" "wf_list C T" "is_cube C c" "v < num_vars C" and x: "covers C (elems c) x"
  shows "x \<in> lcov C (scofactor C T c v self) \<Longrightarrow> x \<in> lcov C (T\<lparr>cubes := others self (cubes T)\<rparr>)"
    "x v \<notin> elems (cof T) \<Longrightarrow> x \<in> lcov C (T\<lparr>cubes := others self (cubes T)\<rparr>) \<Longrightarrow> x \<in> lcov C (scofactor C T c v self)"
    "free C T x \<Longrightarrow> free C (scofactor C T c v self) x"
proof -
  note W = cofactor_wf [OF C(1-3)]
  have W2: "is_cube C p" if "p \<in> set (others self (cubes T))" for p
    using that set_others(2) [of self "cubes T"] C(2) by (auto simp: wf_list_def)
  have xc: "x u \<notin> {..<cube_size C} - elems c" if "u < num_vars C" for u using x that by (auto simp: covers_def)
  have e: "covers C (elems p \<union> elems (cof (scofactor C T c v self))) x \<longleftrightarrow> covers C (elems p \<union> elems (cof T)) x" for p
    unfolding W(4) using xc by (auto simp: covers_def)
  have sub: "set (cubes (scofactor C T c v self)) \<subseteq> set (others self (cubes T))" by (auto simp: scofactor_def Let_def)
  show "x \<in> lcov C (scofactor C T c v self) \<Longrightarrow> x \<in> lcov C (T\<lparr>cubes := others self (cubes T)\<rparr>)"
    using sub unfolding lcov_iff e by auto
  show "free C T x \<Longrightarrow> free C (scofactor C T c v self) x" using xc unfolding free_def W(4) by auto
  assume f: "x v \<notin> elems (cof T)" and "x \<in> lcov C (T\<lparr>cubes := others self (cubes T)\<rparr>)"
  then obtain p where p: "point C x" "p \<in> set (others self (cubes T))" "covers C (elems p \<union> elems (cof T)) x"
    by (auto simp: lcov_iff)
  then have "x v \<in> elems p \<inter> elems c \<inter> vparts C v"
    using f x C(4) by (auto simp: covers_def point_def)
  then have "p \<in> set (cubes (scofactor C T c v self))"
    using p(2) scofactor_test [OF C(1) W2 [OF p(2)] C(3,4)] by (auto simp: scofactor_def Let_def)
  then show "x \<in> lcov C (scofactor C T c v self)" using p(1,3) unfolding lcov_iff e by blast
qed

section \<open>The counts\<close>

definition zeros_at :: "cubelist \<Rightarrow> nat \<Rightarrow> nat" where
  "zeros_at T e = length (filter (\<lambda>p. e \<notin> elems p \<union> elems (cof T)) (cubes T))"

lemma bump_bits_spec:
  assumes "\<forall>k\<in>set ks. bit val k \<longrightarrow> base + k < length cs" "distinct ks" "\<forall>k\<in>set ks. k < 32"
  shows "length (bump_bits val base ks cs) = length cs"
    "e < length cs \<Longrightarrow> bump_bits val base ks cs ! e = cs ! e + of_bool (\<exists>k\<in>set ks. bit val k \<and> e = base + k)"
proof -
  have "length (bump_bits val base ks cs) = length cs \<and>
     (e < length cs \<longrightarrow> bump_bits val base ks cs ! e = cs ! e + of_bool (\<exists>k\<in>set ks. bit val k \<and> e = base + k))"
    using assms
  proof (induction ks arbitrary: cs)
    case (Cons k ks)
    let ?cs = "if bit val k then cs[base + k := cs ! (base + k) + 1] else cs"
    have "bump_bits val base (k # ks) cs = bump_bits val base ks ?cs"
      using word_test_bit_and_exp [of val k] by (simp add: bump_bits_def)
    moreover have "length (bump_bits val base ks ?cs) = length ?cs \<and>
        (e < length ?cs \<longrightarrow> bump_bits val base ks ?cs ! e = ?cs ! e + of_bool (\<exists>j\<in>set ks. bit val j \<and> e = base + j))"
      using Cons.prems by (intro Cons.IH) auto
    moreover have "?cs ! e + of_bool (\<exists>j\<in>set ks. bit val j \<and> e = base + j) =
        cs ! e + of_bool (\<exists>j\<in>set (k # ks). bit val j \<and> e = base + j)" if "e < length cs"
      using Cons.prems that by (cases "e = base + k") auto
    ultimately show ?case by simp
  qed (simp add: bump_bits_def)
  then show "length (bump_bits val base ks cs) = length cs"
    "e < length cs \<Longrightarrow> bump_bits val base ks cs ! e = cs ! e + of_bool (\<exists>k\<in>set ks. bit val k \<and> e = base + k)" by blast+
qed

lemma bump_guard:
  assumes "\<forall>k\<in>set ks. bit m k" "distinct ks" "\<forall>k\<in>set ks. k < 32" "\<forall>k. bit val k \<longrightarrow> base + k < length cs"
  defines "cs' \<equiv> if val AND m \<noteq> 0 then bump_bits val base ks cs else cs"
  shows "length cs' = length cs"
    "e < length cs \<Longrightarrow> cs' ! e = cs ! e + of_bool (\<exists>k\<in>set ks. bit val k \<and> e = base + k)"
proof -
  have "\<not> bit val k" if "val AND m = 0" "k \<in> set ks" for k
  proof
    assume "bit val k"
    then have "bit (val AND m) k" using assms(1) that(2) by (simp add: bit_simps)
    then show False using that(1) by simp
  qed
  then show "length cs' = length cs"
    "e < length cs \<Longrightarrow> cs' ! e = cs ! e + of_bool (\<exists>k\<in>set ks. bit val k \<and> e = base + k)"
    using bump_bits_spec(1) [of ks val base cs] bump_bits_spec(2) [of ks val base cs e] assms(2-4) by (auto simp: cs'_def)
qed

lemma bump_word_spec:
  assumes "\<forall>k. bit val k \<longrightarrow> base + k < length cs"
  shows "length (bump_word val base cs) = length cs"
    "e < length cs \<Longrightarrow> bump_word val base cs ! e = cs ! e + of_bool (base \<le> e \<and> bit val (e - base))"
proof -
  let ?k = "[31,30,29,28,27,26,25,24]" and ?l = "[23,22,21,20,19,18,17,16]"
    and ?m = "[15,14,13,12,11,10,9,8]" and ?n = "[7,6,5,4,3,2,1,0] :: nat list"
  define c1 where "c1 = (if val AND 0xFF000000 \<noteq> 0 then bump_bits val base ?k cs else cs)"
  define c2 where "c2 = (if val AND 0x00FF0000 \<noteq> 0 then bump_bits val base ?l c1 else c1)"
  define c3 where "c3 = (if val AND 0xFF00 \<noteq> 0 then bump_bits val base ?m c2 else c2)"
  define c4 where "c4 = (if val AND 0x00FF \<noteq> 0 then bump_bits val base ?n c3 else c3)"
  have eq: "bump_word val base cs = c4"
    unfolding c4_def c3_def c2_def c1_def by (simp add: bump_word_def Let_def)
  have b: "\<forall>k\<in>set ?k. bit (0xFF000000 :: u32) k" "\<forall>k\<in>set ?l. bit (0x00FF0000 :: u32) k"
    "\<forall>k\<in>set ?m. bit (0xFF00 :: u32) k" "\<forall>k\<in>set ?n. bit (0x00FF :: u32) k"
    by simp_all
  note g1 = bump_guard [OF b(1) _ _ assms, folded c1_def]
  have l1: "length c1 = length cs" by (rule g1) simp_all
  have a1: "\<forall>k. bit val k \<longrightarrow> base + k < length c1" using assms l1 by simp
  note g2 = bump_guard [OF b(2) _ _ a1, folded c2_def]
  have l2: "length c2 = length cs" using g2(1) l1 by simp
  have a2: "\<forall>k. bit val k \<longrightarrow> base + k < length c2" using assms l2 by simp
  note g3 = bump_guard [OF b(3) _ _ a2, folded c3_def]
  have l3: "length c3 = length cs" using g3(1) l2 by simp
  have a3: "\<forall>k. bit val k \<longrightarrow> base + k < length c3" using assms l3 by simp
  note g4 = bump_guard [OF b(4) _ _ a3, folded c4_def]
  show "length (bump_word val base cs) = length cs" unfolding eq using g4(1) l3 by simp
  assume e: "e < length cs"
  let ?P = "\<lambda>ks. \<exists>k\<in>set ks. bit val k \<and> e = base + k"
  have P: "?P ks \<longleftrightarrow> base \<le> e \<and> bit val (e - base) \<and> e - base \<in> set ks" for ks by auto
  have "c4 ! e = cs ! e + of_bool (?P ?k) + of_bool (?P ?l) + of_bool (?P ?m) + of_bool (?P ?n)"
  proof -
    have "c1 ! e = cs ! e + of_bool (?P ?k)" by (rule g1) (use e in simp_all)
    moreover have "c2 ! e = c1 ! e + of_bool (?P ?l)" by (rule g2) (use e l1 in simp_all)
    moreover have "c3 ! e = c2 ! e + of_bool (?P ?m)" by (rule g3) (use e l2 in simp_all)
    moreover have "c4 ! e = c3 ! e + of_bool (?P ?n)" by (rule g4) (use e l3 in simp_all)
    ultimately show ?thesis by (simp only:)
  qed
  also have "\<dots> = cs ! e + of_bool (base \<le> e \<and> bit val (e - base))"
  proof (cases "base \<le> e \<and> bit val (e - base)")
    case True
    then have d: "e - base < 32" using bit_imp_le_length [of val "e - base"] by simp
    have one: "of_bool (j \<in> set ?k) + of_bool (j \<in> set ?l) + of_bool (j \<in> set ?m) + of_bool (j \<in> set ?n) = (1 :: nat)"
      if "j < 32" for j :: nat
    proof -
      have s: "set ?n = {..<8}" "set ?m = {8..<16 :: nat}" "set ?l = {16..<24 :: nat}" "set ?k = {24..<32 :: nat}" by auto
      consider "j < 8" | "8 \<le> j" "j < 16" | "16 \<le> j" "j < 24" | "24 \<le> j" by linarith
      then show ?thesis unfolding s lessThan_iff atLeastLessThan_iff using that by cases simp_all
    qed
    have Q: "?P ks \<longleftrightarrow> e - base \<in> set ks" for ks unfolding P using True by blast
    have "cs ! e + of_bool (?P ?k) + of_bool (?P ?l) + of_bool (?P ?m) + of_bool (?P ?n) = cs ! e + 1"
      using one [OF d] unfolding Q add.assoc by (rule arg_cong)
    then show ?thesis using True by (simp only: simp_thms of_bool_eq)
  next
    case False
    have Q: "(\<exists>k\<in>set ks. bit val k \<and> e = base + k) = False" for ks unfolding P using False by blast
    show ?thesis unfolding Q using False by (simp only: simp_thms of_bool_eq add_0_right)
  qed
  finally show "bump_word val base cs ! e = cs ! e + of_bool (base \<le> e \<and> bit val (e - base))" unfolding eq .
qed

lemma for_down_words:
  fixes body :: "nat \<Rightarrow> nat list \<Rightarrow> nat list"
  assumes body: "\<And>i c. 1 \<le> i \<Longrightarrow> i \<le> n \<Longrightarrow> length c = m \<Longrightarrow> length (body i c) = m \<and>
      (\<forall>e<m. body i c ! e = c ! e + of_bool (32 * (i - 1) \<le> e \<and> bit (f i :: u32) (e - 32 * (i - 1))))"
    and j: "j \<le> n" "length c = m" "e < m"
  shows "length (for_down body j c) = m \<and>
    for_down body j c ! e = c ! e + of_bool (e < 32 * j \<and> bit (f (e div 32 + 1)) (e mod 32))"
  using j(1,2)
proof (induction j arbitrary: c)
  case (Suc j)
  have b: "length (body (Suc j) c) = m"
    "body (Suc j) c ! e = c ! e + of_bool (32 * j \<le> e \<and> bit (f (Suc j)) (e - 32 * j))"
    using body [of "Suc j" c] Suc.prems j(3) by simp_all
  have "of_bool (32 * j \<le> e \<and> bit (f (Suc j)) (e - 32 * j)) + of_bool (e < 32 * j \<and> bit (f (e div 32 + 1)) (e mod 32))
      = (of_bool (e < 32 * Suc j \<and> bit (f (e div 32 + 1)) (e mod 32)) :: nat)"
  proof (cases "32 * j \<le> e \<and> e < 32 * Suc j")
    case True
    then have "e div 32 = j" "e mod 32 = e - 32 * j" by (auto simp: div_nat_eqI modulo_nat_def)
    then show ?thesis using True by simp
  next
    case False
    moreover have "\<not> bit (f (Suc j)) (e - 32 * j)" if "32 * Suc j \<le> e"
      using that bit_imp_le_length [of "f (Suc j)" "e - 32 * j"] by auto
    ultimately show ?thesis by auto
  qed
  then show ?case using Suc.IH [of "body (Suc j) c"] Suc.prems b by simp
qed (use j in simp)

lemma count_zeros_spec:
  assumes C: "wf_cube C" and T: "wf_list C T"
  shows "length (count_zeros C T) = cube_size C"
    "e < cube_size C \<Longrightarrow> count_zeros C T ! e = zeros_at T e"
proof -
  let ?val = "\<lambda>p i. fullset C ! i AND NOT (p ! i OR cof T ! i)"
  let ?body = "\<lambda>p i cs. let val = ?val p i in if val \<noteq> 0 then bump_word val (push_bit 5 (i - 1)) cs else cs"
  have row: "length (for_down (?body p) (LOOP p) cs) = cube_size C \<and>
      (e < cube_size C \<longrightarrow> for_down (?body p) (LOOP p) cs ! e = cs ! e + of_bool (e \<notin> elems p \<union> elems (cof T)))"
    if p: "is_cube C p" and cs: "length cs = cube_size C" for p cs e
  proof -
    have bits: "bit (?val p (e div 32 + 1)) (e mod 32) \<longleftrightarrow> e < cube_size C \<and> e \<notin> elems p \<union> elems (cof T)"
      if "e < 32 * LOOP p" for e
    proof -
      have "e < 32 * LOOPINIT (cube_size C)" using that wf_LOOP [OF p] by simp
      then have w: "wbit ((!) (fullset C)) e \<longleftrightarrow> e < cube_size C" "wbit ((!) p) e \<longleftrightarrow> e \<in> elems p"
        "wbit ((!) (cof T)) e \<longleftrightarrow> e \<in> elems (cof T)"
        using wbit_cube(2) [OF wf_cubeD(3) [OF C]] wbit_cube(2) [OF p] wbit_cube(2) [OF wf_listD(1) [OF T]]
          wf_cubeD(4) [OF C] by simp_all
      have "bit (?val p (e div 32 + 1)) (e mod 32) \<longleftrightarrow> wbit (\<lambda>i. fullset C ! i AND NOT (p ! i OR cof T ! i)) e"
        by (simp only: wbit_def)
      then show ?thesis using w by simp
    qed
    have b: "length (?body p i c) = cube_size C \<and>
       (\<forall>e<cube_size C. ?body p i c ! e = c ! e + of_bool (32 * (i - 1) \<le> e \<and> bit (?val p i) (e - 32 * (i - 1))))"
      if i: "1 \<le> i" "i \<le> LOOP p" and c: "length c = cube_size C" for i c
    proof -
      obtain v where v: "?val p i = v" by blast
      have "32 * (i - 1) + k < length c" if k': "bit v k" for k
      proof -
        have k: "bit (?val p i) k" using k' v by simp
        have "k < 32" using bit_imp_le_length [OF k] by simp
        then have "(32 * (i - 1) + k) div 32 + 1 = i" "(32 * (i - 1) + k) mod 32 = k" "32 * (i - 1) + k < 32 * LOOP p"
          using i by auto
        then show ?thesis using bits [of "32 * (i - 1) + k"] k c by simp
      qed
      then have "\<forall>k. bit v k \<longrightarrow> 32 * (i - 1) + k < length c" by simp
      from bump_word_spec [OF this] show ?thesis unfolding Let_def push_bit_5_nat v c
        by (cases "v = 0") (simp_all add: c)
    qed
    have "e < cube_size C \<Longrightarrow> length (for_down (?body p) (LOOP p) cs) = cube_size C \<and>
        for_down (?body p) (LOOP p) cs ! e = cs ! e + of_bool (e < 32 * LOOP p \<and> bit (?val p (e div 32 + 1)) (e mod 32))" for e
      by (rule for_down_words [OF b order.refl cs])
    moreover have "0 < cube_size C" by (rule wf_layoutD(8) [OF wf_cubeD(1) [OF C]])
    moreover have "e < cube_size C \<Longrightarrow> e < 32 * LOOP p" using cube_size_words wf_LOOP [OF p] by simp
    ultimately show ?thesis using bits [of e] by auto
  qed
  have "length (fold (\<lambda>p. for_down (?body p) (LOOP p)) ps cs) = cube_size C \<and>
      (e < cube_size C \<longrightarrow> fold (\<lambda>p. for_down (?body p) (LOOP p)) ps cs ! e
         = cs ! e + length (filter (\<lambda>p. e \<notin> elems p \<union> elems (cof T)) ps))"
    if "\<forall>p\<in>set ps. is_cube C p" "length cs = cube_size C" for ps cs
    using that
  proof (induction ps arbitrary: cs)
    case (Cons p ps)
    have p: "is_cube C p" using Cons.prems(1) by simp
    have l: "length (for_down (?body p) (LOOP p) cs) = cube_size C" using row [OF p Cons.prems(2)] by simp
    show ?case
      using Cons.IH [OF _ l] row [OF p Cons.prems(2), of e] Cons.prems(1) by simp
  qed simp
  from this [of "cubes T" "replicate (cube_size C) 0"]
  show "length (count_zeros C T) = cube_size C" "e < cube_size C \<Longrightarrow> count_zeros C T ! e = zeros_at T e"
    using T unfolding count_zeros_def zeros_at_def wf_list_def by simp_all
qed

text \<open>The parts of a variable in which some cube has a zero.\<close>

definition active_parts :: "cube_struct \<Rightarrow> cubelist \<Rightarrow> nat \<Rightarrow> nat set" where
  "active_parts C T v = {e \<in> vparts C v. \<exists>p\<in>set (cubes T). e \<notin> elems p \<union> elems (cof T)}"

lemma zeros_at_pos: "0 < zeros_at T e \<longleftrightarrow> (\<exists>p\<in>set (cubes T). e \<notin> elems p \<union> elems (cof T))"
  by (auto simp: zeros_at_def filter_empty_conv)

lemma finite_active_parts [simp, intro]: "finite (active_parts C T v)"
  by (simp add: active_parts_def)

lemma active_parts_count: "(\<Sum>e\<in>vparts C v. of_bool (zeros_at T e > 0)) = card (active_parts C T v)"
  unfolding sum_of_bool_card [OF finite_vparts] active_parts_def zeros_at_pos ..

lemma distinct_part_range [simp]: "distinct (part_range C v)"
  by (simp add: part_range_def)

lemma var_counts_spec:
  assumes C: "wf_cube C" and v: "v < num_vars C" and z: "\<forall>e<cube_size C. cs ! e = zeros_at T e"
  shows "fst (var_counts C cs v) = card (active_parts C T v)"
    "fst (snd (var_counts C cs v)) = (\<Sum>e\<in>vparts C v. zeros_at T e)"
    "card (active_parts C T v) = 0 \<Longrightarrow> snd (snd (var_counts C cs v)) = 0"
proof -
  note L = wf_cubeD(1) [OF C]
  have zv: "cs ! e = zeros_at T e" if "e \<in> vparts C v" for e using z vparts_less [OF L v that] by simp
  have "fst (var_counts C cs v) = card (active_parts C T v) \<and>
    fst (snd (var_counts C cs v)) = (\<Sum>e\<in>vparts C v. zeros_at T e) \<and>
    (card (active_parts C T v) = 0 \<longrightarrow> snd (snd (var_counts C cs v)) = 0)"
  proof (cases "v < num_binary_vars C")
    case True
    have p: "vparts C v = {2 * v, Suc (2 * v)}" using binary_vparts [OF L True] by simp
    have c: "cs ! (v * 2) = zeros_at T (2 * v)" "cs ! (v * 2 + 1) = zeros_at T (Suc (2 * v))"
      using zv [of "2 * v"] zv [of "Suc (2 * v)"] p by (simp_all add: mult.commute)
    have "of_bool (zeros_at T (2 * v) > 0) + of_bool (zeros_at T (Suc (2 * v)) > 0) = card (active_parts C T v)"
    proof -
      have two: "(\<Sum>e\<in>{2 * v, Suc (2 * v)}. f e) = f (2 * v) + f (Suc (2 * v))" for f :: "nat \<Rightarrow> nat" by simp
      show ?thesis using active_parts_count [of T C v] unfolding p two .
    qed
    moreover have "var_counts C cs v =
      (of_bool (zeros_at T (2 * v) > 0) + of_bool (zeros_at T (Suc (2 * v)) > 0),
       zeros_at T (2 * v) + zeros_at T (Suc (2 * v)), max (zeros_at T (2 * v)) (zeros_at T (Suc (2 * v))))"
      unfolding var_counts_def Let_def c using True by simp
    ultimately show ?thesis unfolding p by (auto split: if_splits)
  next
    case False
    let ?step = "\<lambda>i (active, zeros, maxactive).
             let active' = active + of_bool (cs ! i > 0)
             in (active', zeros + cs ! i, if active' > maxactive then active' else maxactive :: nat)"
    have "fold ?step is (a, s, a) = (let a' = a + (\<Sum>e\<leftarrow>is. of_bool (cs ! e > 0)) in (a', s + (\<Sum>e\<leftarrow>is. cs ! e), a'))" for "is" a s
      by (induction "is" arbitrary: a s) (auto simp: Let_def algebra_simps)
    from this [of "part_range C v" 0 0]
    have "var_counts C cs v = (let a' = (\<Sum>e\<leftarrow>part_range C v. of_bool (cs ! e > 0)) in (a', (\<Sum>e\<leftarrow>part_range C v. cs ! e), a'))"
      using False by (simp add: var_counts_def)
    moreover have "(\<Sum>e\<leftarrow>part_range C v. of_bool (cs ! e > 0)) = card (active_parts C T v)"
      unfolding active_parts_count [symmetric] using zv
      by (simp add: sum_list_distinct_conv_sum_set set_part_range [OF L v])
    moreover have "(\<Sum>e\<leftarrow>part_range C v. cs ! e) = (\<Sum>e\<in>vparts C v. zeros_at T e)"
      using zv by (simp add: sum_list_distinct_conv_sum_set set_part_range [OF L v])
    ultimately show ?thesis by (simp add: Let_def)
  qed
  then show "fst (var_counts C cs v) = card (active_parts C T v)"
    "fst (snd (var_counts C cs v)) = (\<Sum>e\<in>vparts C v. zeros_at T e)"
    "card (active_parts C T v) = 0 \<Longrightarrow> snd (snd (var_counts C cs v)) = 0" by blast+
qed

text \<open>
  \<open>best_var\<close> is a variable with the most active parts; the other criteria only break ties.
\<close>

definition var_inv ::
  "cube_struct \<Rightarrow> cubelist \<Rightarrow> nat \<Rightarrow> cdata_struct \<times> nat \<times> nat \<times> nat \<Rightarrow> bool" where
  "var_inv C T n st \<longleftrightarrow> (case st of (cd, mostactive, mostzero, mostbalanced) \<Rightarrow>
     part_zeros cd = count_zeros C T
     \<and> parts_active cd = map (\<lambda>v. card (active_parts C T v)) [0..<n]
     \<and> var_zeros cd = map (\<lambda>v. \<Sum>e\<in>vparts C v. zeros_at T e) [0..<n]
     \<and> is_unate cd = map (\<lambda>v. card (active_parts C T v) = 1) [0..<n]
     \<and> vars_active cd = card {v. v < n \<and> active_parts C T v \<noteq> {}}
     \<and> vars_unate cd = card {v. v < n \<and> card (active_parts C T v) = 1}
     \<and> (\<forall>v<n. card (active_parts C T v) \<le> mostactive)
     \<and> (if n = 0 then mostactive = 0 \<and> mostzero = 0 \<and> mostbalanced = 32000
        else \<exists>b<n. best_var cd = int b \<and> card (active_parts C T b) = mostactive))"

lemma card_less_Suc:
  "card {v. v < Suc n \<and> P v} = card {v. v < n \<and> P v} + of_bool (P n)"
proof -
  have "{v. v < Suc n \<and> P v} = {v. v < n \<and> P v} \<union> (if P n then {n} else {})" by (auto simp: less_Suc_eq)
  then show ?thesis by (simp add: card_Un_disjoint)
qed

lemma var_step_inv:
  assumes C: "wf_cube C" and T: "wf_list C T" and n: "n < num_vars C" and inv: "var_inv C T n st"
  shows "var_inv C T (Suc n) (var_step C n st)"
proof -
  obtain cd ma mz mb where st: "st = (cd, ma, mz, mb)" by (cases st) auto
  let ?a = "card (active_parts C T n)"
  have pz: "part_zeros cd = count_zeros C T" using inv by (simp add: var_inv_def st)
  obtain a z x where vc: "var_counts C (count_zeros C T) n = (a, z, x)"
    by (cases "var_counts C (count_zeros C T) n") auto
  have "\<forall>e<cube_size C. count_zeros C T ! e = zeros_at T e" using count_zeros_spec(2) [OF C T] by blast
  from var_counts_spec [OF C n this]
  have V: "a = ?a" "z = (\<Sum>e\<in>vparts C n. zeros_at T e)" "?a = 0 \<longrightarrow> x = 0" unfolding vc by auto
  have z0: "z = 0" if "?a = 0"
  proof -
    have "active_parts C T n = {}" using that by simp
    then have "zeros_at T e = 0" if "e \<in> vparts C n" for e
      using that zeros_at_pos [of T e] by (auto simp: active_parts_def)
    then show ?thesis unfolding V(2) by simp
  qed
  define r where "r = (if a > ma then (int n, a, z, x)
             else if a = ma then
               (if z > mz then (int n, ma, z, x)
                else if z = mz then
                  (if x < mb then (int n, ma, mz, x)
                   else (best_var cd, ma, mz, mb))
                else (best_var cd, ma, mz, mb))
             else (best_var cd, ma, mz, mb))"
  obtain b ma' mz' mb' where r: "r = (b, ma', mz', mb')" by (cases r) auto
  have step: "var_step C n st = (cd\<lparr>var_zeros := var_zeros cd @ [z], parts_active := parts_active cd @ [a],
             is_unate := is_unate cd @ [a = 1],
             vars_active := vars_active cd + of_bool (a > 0),
             vars_unate := vars_unate cd + of_bool (a = 1), best_var := b\<rparr>, ma', mz', mb')"
    using r unfolding r_def by (simp add: var_step_def st pz vc)
  have le: "\<forall>v<n. card (active_parts C T v) \<le> ma" using inv by (simp add: var_inv_def st)
  have ma': "ma' = max ma a" using r unfolding r_def by (auto split: if_splits)
  have best: "\<exists>c<Suc n. b = int c \<and> card (active_parts C T c) = ma'"
  proof (cases "n = 0")
    case True
    then have "ma = 0" "mz = 0" "mb = 32000" using inv by (simp_all add: var_inv_def st)
    then have "b = int n \<and> ?a = ma'"
      using r V z0 unfolding r_def by (auto split: if_splits)
    then show ?thesis by auto
  next
    case False
    then obtain c where "c < n" "best_var cd = int c" "card (active_parts C T c) = ma"
      using inv by (auto simp: var_inv_def st)
    moreover have "b = int n \<and> ma' = a \<or> b = best_var cd \<and> ma' = ma"
      using r unfolding r_def by (auto split: if_splits)
    ultimately show ?thesis using V(1) by (auto intro: less_SucI)
  qed
  have "\<forall>v<Suc n. card (active_parts C T v) \<le> ma'" using le V(1) unfolding ma' by (auto simp: less_Suc_eq)
  moreover have "a > 0 \<longleftrightarrow> active_parts C T n \<noteq> {}" unfolding V(1) by (simp add: card_gt_0_iff)
  ultimately show ?thesis
    using inv best unfolding step by (simp add: var_inv_def st V(1) V(2) [symmetric] card_less_Suc)
qed

lemma massive_count_spec:
  assumes C: "wf_cube C" and T: "wf_list C T"
  defines "cd \<equiv> massive_count C T"
  shows "e < cube_size C \<Longrightarrow> part_zeros cd ! e = zeros_at T e"
    "length (part_zeros cd) = cube_size C"
    "v < num_vars C \<Longrightarrow> parts_active cd ! v = card (active_parts C T v)"
    "v < num_vars C \<Longrightarrow> var_zeros cd ! v = (\<Sum>e\<in>vparts C v. zeros_at T e)"
    "v < num_vars C \<Longrightarrow> is_unate cd ! v \<longleftrightarrow> card (active_parts C T v) = 1"
    "vars_active cd = card {v. v < num_vars C \<and> active_parts C T v \<noteq> {}}"
    "vars_unate cd = card {v. v < num_vars C \<and> card (active_parts C T v) = 1}"
    "\<exists>b<num_vars C. best_var cd = int b \<and> (\<forall>v<num_vars C. card (active_parts C T v) \<le> card (active_parts C T b))"
    "length (is_unate cd) = num_vars C"
proof -
  let ?init = "(\<lparr>part_zeros = count_zeros C T, var_zeros = [], parts_active = [], is_unate = [],
          vars_active = 0, vars_unate = 0, best_var = - 1\<rparr>, 0, 0, 32000)"
  have "var_inv C T n (fold (var_step C) [0..<n] ?init)" if "n \<le> num_vars C" for n
    using that
  proof (induction n)
    case (Suc n)
    then show ?case using var_step_inv [OF C T, of n] by simp
  qed (simp add: var_inv_def)
  from this [of "num_vars C"] obtain ma mz mb where
    I: "var_inv C T (num_vars C) (cd, ma, mz, mb)"
    unfolding cd_def massive_count_def by (metis order.refl prod.collapse)
  have pos: "num_vars C \<noteq> 0" using wf_layoutD(1) [OF wf_cubeD(1) [OF C]] by simp
  show "e < cube_size C \<Longrightarrow> part_zeros cd ! e = zeros_at T e" "length (part_zeros cd) = cube_size C"
    using I count_zeros_spec [OF C T] by (simp_all add: var_inv_def)
  show "v < num_vars C \<Longrightarrow> parts_active cd ! v = card (active_parts C T v)"
    "v < num_vars C \<Longrightarrow> var_zeros cd ! v = (\<Sum>e\<in>vparts C v. zeros_at T e)"
    "v < num_vars C \<Longrightarrow> is_unate cd ! v \<longleftrightarrow> card (active_parts C T v) = 1"
    "vars_active cd = card {v. v < num_vars C \<and> active_parts C T v \<noteq> {}}"
    "vars_unate cd = card {v. v < num_vars C \<and> card (active_parts C T v) = 1}"
    "length (is_unate cd) = num_vars C"
    using I by (simp_all add: var_inv_def)
  show "\<exists>b<num_vars C. best_var cd = int b \<and> (\<forall>v<num_vars C. card (active_parts C T v) \<le> card (active_parts C T b))"
    using I pos by (auto simp: var_inv_def)
qed

section \<open>The split\<close>

lemma split_left_spec:
  assumes "wf_set n cf" "wf_set n cl" "\<forall>i\<in>set is. i < n" "h \<le> length (filter (\<lambda>i. i \<notin> elems cf) is)" "distinct is"
  obtains ls rs where "is = ls @ rs" "fst (split_left cf is h cl) = rs" "wf_set n (snd (split_left cf is h cl))"
    "elems (snd (split_left cf is h cl)) = elems cl \<union> (set ls - elems cf)"
    "length (filter (\<lambda>i. i \<notin> elems cf) ls) = h"
proof -
  have "\<exists>ls rs. is = ls @ rs \<and> fst (split_left cf is h cl) = rs \<and> wf_set n (snd (split_left cf is h cl)) \<and>
    elems (snd (split_left cf is h cl)) = elems cl \<union> (set ls - elems cf) \<and>
    length (filter (\<lambda>i. i \<notin> elems cf) ls) = h"
    using assms
  proof (induction cf "is" h cl rule: split_left.induct)
    case (3 cf i "is" h cl)
    have i: "is_in_set cf i \<longleftrightarrow> i \<in> elems cf" using wf_in_elems [OF "3.prems"(1)] "3.prems"(3) by simp
    show ?case
    proof (cases "i \<in> elems cf")
      case True
      have "\<exists>ls rs. is = ls @ rs \<and> fst (split_left cf is (Suc h) cl) = rs \<and> wf_set n (snd (split_left cf is (Suc h) cl)) \<and>
        elems (snd (split_left cf is (Suc h) cl)) = elems cl \<union> (set ls - elems cf) \<and>
        length (filter (\<lambda>i. i \<notin> elems cf) ls) = Suc h"
        using "3.IH"(2) "3.prems" True i by simp
      then obtain ls rs where *: "is = ls @ rs" "fst (split_left cf is (Suc h) cl) = rs"
        "wf_set n (snd (split_left cf is (Suc h) cl))"
        "elems (snd (split_left cf is (Suc h) cl)) = elems cl \<union> (set ls - elems cf)"
        "length (filter (\<lambda>i. i \<notin> elems cf) ls) = Suc h" by blast
      then show ?thesis using True i by (intro exI [of _ "i # ls"] exI [of _ rs]) simp
    next
      case False
      note ins = set_insert_spec [OF "3.prems"(2), of i]
      have "\<exists>ls rs. is = ls @ rs \<and> fst (split_left cf is h (set_insert cl i)) = rs \<and>
        wf_set n (snd (split_left cf is h (set_insert cl i))) \<and>
        elems (snd (split_left cf is h (set_insert cl i))) = elems (set_insert cl i) \<union> (set ls - elems cf) \<and>
        length (filter (\<lambda>i. i \<notin> elems cf) ls) = h"
        using "3.IH"(1) "3.prems" False i ins by simp
      then obtain ls rs where *: "is = ls @ rs" "fst (split_left cf is h (set_insert cl i)) = rs"
        "wf_set n (snd (split_left cf is h (set_insert cl i)))"
        "elems (snd (split_left cf is h (set_insert cl i))) = elems (set_insert cl i) \<union> (set ls - elems cf)"
        "length (filter (\<lambda>i. i \<notin> elems cf) ls) = h" by blast
      then show ?thesis using False i ins "3.prems"(3) by (intro exI [of _ "i # ls"] exI [of _ rs]) auto
    qed
  qed (auto intro: exI [of _ "[]"])
  then show ?thesis using that by blast
qed

lemma fold_insert_if:
  assumes "wf_set n p" "\<forall>i\<in>set is. i < n"
  shows "wf_set n (fold (\<lambda>i p. if P i then set_insert p i else p) is p)"
    "elems (fold (\<lambda>i p. if P i then set_insert p i else p) is p) = elems p \<union> {i \<in> set is. P i}"
  using fold_insert_spec [of n p "is" P "\<lambda>i. i"] assms by auto

text \<open>
  The two halves leave the other variables full, share out the parts of the variable that have not been
  cofactored yet, and both get some of them if there are two or more.
\<close>

lemma binate_split_spec:
  assumes C: "wf_cube C" and T: "wf_list C T" and b: "best_var cd = int v" "v < num_vars C"
    and l: "length l = SET_SIZE (cube_size C)" "length r = SET_SIZE (cube_size C)"
    and s: "binate_split_select C T cd l r = (cl, cr, best)"
  shows "best = v" "is_cube C cl" "is_cube C cr"
    "{..<cube_size C} - vparts C v \<subseteq> elems cl" "{..<cube_size C} - vparts C v \<subseteq> elems cr"
    "elems cl \<inter> elems cr \<inter> vparts C v = {}"
    "(elems cl \<union> elems cr) \<inter> vparts C v = vparts C v - elems (cof T)"
    "2 \<le> card (vparts C v - elems (cof T)) \<Longrightarrow> elems cl \<inter> vparts C v \<noteq> {} \<and> elems cr \<inter> vparts C v \<noteq> {}"
proof -
  note L = wf_cubeD(1) [OF C]
  note cf = wf_listD(1) [OF T]
  let ?ps = "part_range C v" and ?F = "\<lambda>i. i \<notin> elems (cof T)"
  have m: "is_cube C (var_mask C ! v)" "elems (var_mask C ! v) = vparts C v" using C b(2) by simp_all
  have f: "is_cube C (fullset C)" "elems (fullset C) = {..<cube_size C}" using C by simp_all
  let ?l = "set_diff l (fullset C) (var_mask C ! v)" and ?r = "set_diff r (fullset C) (var_mask C ! v)"
  have dl: "is_cube C ?l" "elems ?l = {..<cube_size C} - vparts C v"
    using binops_wf(3) [OF f(1) m(1) l(1)] binops_elems(3) [OF f(1) m(1) l(1)] f(2) m(2) by simp_all
  have dr: "is_cube C ?r" "elems ?r = {..<cube_size C} - vparts C v"
    using binops_wf(3) [OF f(1) m(1) l(2)] binops_elems(3) [OF f(1) m(1) l(2)] f(2) m(2) by simp_all
  have ps: "\<forall>i\<in>set ?ps. i < cube_size C" "set ?ps = vparts C v"
    using set_part_range [OF L b(2)] vparts_less [OF L b(2)] by simp_all
  have isin: "is_in_set (cof T) i \<longleftrightarrow> i \<in> elems (cof T)" if "i \<in> set ?ps" for i
    using wf_in_elems [OF cf] ps(1) that by simp
  define h where "h = length (filter ?F ?ps)"
  have h: "length (filter (\<lambda>i. \<not> is_in_set (cof T) i) ?ps) = h"
    unfolding h_def by (rule arg_cong [where f = length], rule filter_cong) (use isin in auto)
  have hc: "h = card (vparts C v - elems (cof T))"
  proof -
    have "h = card (set (filter ?F ?ps))" unfolding h_def by (rule distinct_card [symmetric]) simp
    then show ?thesis using ps(2) by (simp add: set_diff_eq)
  qed
  have hle: "h div 2 \<le> length (filter ?F ?ps)" by (simp add: h_def)
  obtain ls rs where S: "?ps = ls @ rs" "fst (split_left (cof T) ?ps (h div 2) ?l) = rs"
    "is_cube C (snd (split_left (cof T) ?ps (h div 2) ?l))"
    "elems (snd (split_left (cof T) ?ps (h div 2) ?l)) = elems ?l \<union> (set ls - elems (cof T))"
    "length (filter ?F ls) = h div 2"
    by (rule split_left_spec [OF cf dl(1) ps(1) hle distinct_part_range])
  have cl: "cl = snd (split_left (cof T) ?ps (h div 2) ?l)"
    and cr: "cr = fold (\<lambda>i cr. if \<not> is_in_set (cof T) i then set_insert cr i else cr) rs ?r" and "best = v"
    using s S(2) unfolding binate_split_select_def Let_def b(1) nat_int h by (auto split: prod.splits)
  show "best = v" by fact
  have rs: "\<forall>i\<in>set rs. i < cube_size C" "set rs \<subseteq> vparts C v" "set ls \<subseteq> vparts C v"
    using ps unfolding S(1) by auto
  note R = fold_insert_if [OF dr(1) rs(1), of "\<lambda>i. \<not> is_in_set (cof T) i", folded cr]
  have ecr: "elems cr = elems ?r \<union> (set rs - elems (cof T))" unfolding R(2) using isin S(1) by auto
  have ecl: "elems cl = elems ?l \<union> (set ls - elems (cof T))" unfolding cl by (rule S(4))
  show "is_cube C cl" "is_cube C cr" using S(3) R(1) by (simp_all add: cl)
  show "{..<cube_size C} - vparts C v \<subseteq> elems cl" "{..<cube_size C} - vparts C v \<subseteq> elems cr"
    unfolding ecl ecr dl dr by auto
  have dis: "set ls \<inter> set rs = {}" using distinct_part_range [of C v] unfolding S(1) by simp
  show "elems cl \<inter> elems cr \<inter> vparts C v = {}" unfolding ecl ecr dl dr using dis by auto
  have un: "set ls \<union> set rs = vparts C v" using ps(2) unfolding S(1) by simp
  show "(elems cl \<union> elems cr) \<inter> vparts C v = vparts C v - elems (cof T)"
    unfolding ecl ecr dl dr using un by auto
  assume "2 \<le> card (vparts C v - elems (cof T))"
  then have 2: "1 \<le> h div 2" "h div 2 < h" unfolding hc [symmetric] by simp_all
  have "length (filter ?F ls) + length (filter ?F rs) = h" unfolding h_def S(1) by simp
  then have "filter ?F ls \<noteq> []" "filter ?F rs \<noteq> []" using 2 S(5) by auto
  then obtain i j where "i \<in> set ls" "i \<notin> elems (cof T)" "j \<in> set rs" "j \<notin> elems (cof T)"
    by (auto simp: filter_empty_conv)
  then show "elems cl \<inter> vparts C v \<noteq> {} \<and> elems cr \<inter> vparts C v \<noteq> {}"
    unfolding ecl ecr using rs(2,3) by auto
qed

section \<open>Cubelists from covers and back\<close>

lemma cubelists_wf:
  assumes "wf_cube C" "is_cover C A" "is_cover C B" "is_cover C D"
  shows "wf_list C (cube1list C A)" "wf_list C (cube2list C A B)" "wf_list C (cube3list C A B D)"
    "lcov C (cube1list C A) = onset C A" "lcov C (cube2list C A B) = onset C A \<union> onset C B"
    "lcov C (cube3list C A B D) = onset C A \<union> onset C B \<union> onset C D"
proof -
  have z: "is_cube C (new_cube C)" "elems (new_cube C) = {}"
    using wf_layoutD(3) [OF wf_cubeD(1) [OF assms(1)]] by (simp_all add: new_cube_def)
  show "wf_list C (cube1list C A)" "wf_list C (cube2list C A B)" "wf_list C (cube3list C A B D)"
    using z(1) assms(2-4) by (auto simp: wf_list_def cube1list_def cube2list_def cube3list_def wf_family_def)
  show "lcov C (cube1list C A) = onset C A" "lcov C (cube2list C A B) = onset C A \<union> onset C B"
    "lcov C (cube3list C A B D) = onset C A \<union> onset C B \<union> onset C D"
    by (simp_all add: lcov_def cube1list_def cube2list_def cube3list_def z(2) image_Un Un_assoc)
qed

lemma cube1list_wf:
  assumes "wf_cube C" "is_cover C A"
  shows "wf_list C (cube1list C A)" "lcov C (cube1list C A) = onset C A"
  using cubelists_wf(1,4) [OF assms assms(2,2)] by simp_all

lemma cubeunlist_spec:
  assumes C: "wf_cube C" and T: "wf_list C T"
  shows "is_cover C (cubeunlist C mem T)"
    "map elems (data (cubeunlist C mem T)) = map (\<lambda>p. elems p \<union> elems (cof T)) (cubes T)"
    "onset C (cubeunlist C mem T) = lcov C T" "cnt (cubeunlist C mem T) = CUBELISTSIZE T"
proof -
  let ?n = "cube_size C"
  let ?step = "\<lambda>p A. sf_push A (set_or (sf_fresh mem A) p (cof T))"
  have "is_cover C (fold ?step ps A) \<and> map elems (data (fold ?step ps A)) =
      map elems (data A) @ map (\<lambda>p. elems p \<union> elems (cof T)) ps"
    if "is_cover C A" "cnt A + length ps \<le> capacity A" "\<forall>p\<in>set ps. is_cube C p" for ps A
    using that
  proof (induction ps arbitrary: A)
    case (Cons p ps)
    have l: "length (sf_fresh mem A) = SET_SIZE ?n" using Cons.prems(1) by (simp add: wf_family_def)
    have p: "is_cube C p" using Cons.prems(3) by simp
    note o = binops_wf(2) [OF p wf_listD(1) [OF T] l] binops_elems(2) [OF p wf_listD(1) [OF T] l]
    have "is_cover C (?step p A)" using wf_sf_push [OF Cons.prems(1) o(1)] Cons.prems(2) by simp
    from Cons.IH [OF this] show ?case using Cons.prems(2,3) o(2) by simp
  qed simp
  from this [of "new_cover C (CUBELISTSIZE T)" "cubes T"]
  have R: "is_cover C (cubeunlist C mem T) \<and>
    map elems (data (cubeunlist C mem T)) = map (\<lambda>p. elems p \<union> elems (cof T)) (cubes T)"
    using T by (simp add: cubeunlist_def new_cover_def CUBELISTSIZE_def wf_list_def)
  then show "is_cover C (cubeunlist C mem T)"
    "map elems (data (cubeunlist C mem T)) = map (\<lambda>p. elems p \<union> elems (cof T)) (cubes T)" by blast+
  from R show "cnt (cubeunlist C mem T) = CUBELISTSIZE T"
    unfolding CUBELISTSIZE_def by (metis length_map)
  have "elems ` set (data (cubeunlist C mem T)) = (\<lambda>p. elems p \<union> elems (cof T)) ` set (cubes T)"
    using R by (metis list.set_map)
  then show "onset C (cubeunlist C mem T) = lcov C T" by (simp only: lcov_def)
qed

lemma cofactor_cubes:
  assumes C: "wf_cube C" and T: "wf_list C T" and c: "is_cube C c" and v: "v < num_vars C"
  shows "cubes (cofactor C T c self) = filter (\<lambda>p. cdist C p c = 0) (others self (cubes T))"
    "cubes (scofactor C T c v self) = filter (\<lambda>p. elems p \<inter> elems c \<inter> vparts C v \<noteq> {}) (others self (cubes T))"
proof -
  have p: "is_cube C p" if "p \<in> set (others self (cubes T))" for p using T set_others(2) [of self "cubes T"] that by (auto simp: wf_list_def)
  have "cdist0 C p c \<longleftrightarrow> cdist C p c = 0" if "p \<in> set (others self (cubes T))" for p
    using cdist0_spec [OF C p [OF that] c] cdist_spec [OF C p [OF that] c] by simp
  then show "cubes (cofactor C T c self) = filter (\<lambda>p. cdist C p c = 0) (others self (cubes T))"
    by (auto simp: cofactor_def Let_def intro: filter_cong)
  show "cubes (scofactor C T c v self) = filter (\<lambda>p. elems p \<inter> elems c \<inter> vparts C v \<noteq> {}) (others self (cubes T))"
    unfolding scofactor_def Let_def cubelist.select_convs by (rule filter_cong [OF refl]) (rule scofactor_test [OF C p c v])
qed

section \<open>Properties\<close>

text \<open>
  C26. The general cofactor keeps, in their order, exactly the cubes of the list at distance 0 from the
  cofactoring cube; the one specialised to a variable keeps exactly those that meet the cofactoring cube in that variable; both leave
  out the cofactoring cube itself, when it is one of the list, and both mark exactly the parts outside the cofactoring cube as
  cofactored, on top of those marked before. Hence inside the cofactoring cube and away from the parts cofactored before, each
  covers the same points as the list, and such a point stays away from the parts cofactored then.
\<close>

theorem cofactors_restrict:
  assumes "wf_cube C" "wf_list C T" "is_cube C c" "v < num_vars C"
  shows "cubes (cofactor C T c self) = filter (\<lambda>p. cdist C p c = 0) (others self (cubes T))
    \<and> cubes (scofactor C T c v self) = filter (\<lambda>p. elems p \<inter> elems c \<inter> vparts C v \<noteq> {}) (others self (cubes T))
    \<and> elems (cof (cofactor C T c self)) = elems (cof T) \<union> ({..<cube_size C} - elems c)
    \<and> elems (cof (scofactor C T c v self)) = elems (cof T) \<union> ({..<cube_size C} - elems c)
    \<and> (\<forall>x. covers C (elems c) x \<and> free C T x \<longrightarrow>
         (x \<in> lcov C (cofactor C T c self) \<longleftrightarrow> x \<in> lcov C (T\<lparr>cubes := others self (cubes T)\<rparr>))
       \<and> (x \<in> lcov C (scofactor C T c v self) \<longleftrightarrow> x \<in> lcov C (T\<lparr>cubes := others self (cubes T)\<rparr>))
       \<and> free C (cofactor C T c self) x \<and> free C (scofactor C T c v self) x)
    \<and> wf_list C (cofactor C T c self) \<and> wf_list C (scofactor C T c v self)"
proof -
  have v: "x v \<notin> elems (cof T)" if "free C T x" for x using assms(4) that by (simp add: free_def)
  have x: "(x \<in> lcov C (cofactor C T c self) \<longleftrightarrow> x \<in> lcov C (T\<lparr>cubes := others self (cubes T)\<rparr>))
       \<and> (x \<in> lcov C (scofactor C T c v self) \<longleftrightarrow> x \<in> lcov C (T\<lparr>cubes := others self (cubes T)\<rparr>))
       \<and> free C (cofactor C T c self) x \<and> free C (scofactor C T c v self) x" if "covers C (elems c) x" "free C T x" for x
    using cofactor_cov [OF assms(1-3) that(1), of self] scofactor_cov [OF assms that(1), of self] v that(2) by blast
  show ?thesis
    using cofactor_cubes [OF assms, of self] cofactor_wf(1,3) [OF assms(1-3), of self] cofactor_wf(2,4) [OF assms(1-3), of v self] x
    by blast
qed

theorem cofactors_restrict_witness:
  "(\<lambda>_. 0)(0 := 1, 1 := 2, 2 := 5) \<in>
     lcov demo_cube (cofactor demo_cube (cube1list demo_cube (cover_of 7 [[0, 2, 4], [1, 2, 3, 5]])) (cube_of 7 [1, 2, 5, 6]) None)"
proof -
  let ?T = "cube1list demo_cube (cover_of 7 [[0, 2, 4], [1, 2, 3, 5]])"
  let ?x = "(\<lambda>_. 0)(0 := 1, 1 := 2, 2 := 5 :: nat)"
  have p: "point demo_cube ?x" by (simp add: point_def less_3_cases)
  have w: "wf_list demo_cube ?T" by (rule cube1list_wf) simp_all
  have x: "?x \<in> lcov demo_cube ?T"
    using p by (simp add: cube1list_wf(2) cov_def) (simp add: covers_def less_3_cases)
  have f: "free demo_cube ?T ?x" using p by (simp add: free_def cube1list_def new_cube_def)
  have c: "is_cube demo_cube (cube_of 7 [1, 2, 5, 6])" "covers demo_cube (elems (cube_of 7 [1, 2, 5, 6])) ?x" by (simp_all add: covers_def less_3_cases)
  show ?thesis using cofactors_restrict [of demo_cube ?T "cube_of 7 [1, 2, 5, 6]" 0 None, OF demo_cube(1) w c(1)] x f c(2) by simp
qed

text \<open>
  C27. \<open>massive_count\<close> counts, for every part, the cubes in which the
  part is neither present nor cofactored, and picks a variable with the most active parts; splitting
  on it shares out exactly the parts not yet cofactored between two cubes that are full in the other
  variables, and both get a share if there are at least two.
\<close>

theorem splitting_variable:
  assumes "wf_cube C" "wf_list C T"
  defines "cd \<equiv> massive_count C T"
  shows "(\<forall>e<cube_size C. part_zeros cd ! e = length (filter (\<lambda>p. e \<notin> elems p \<union> elems (cof T)) (cubes T)))
    \<and> (\<forall>v<num_vars C. is_unate cd ! v = (card {e \<in> vparts C v. part_zeros cd ! e > 0} = 1))
    \<and> vars_active cd = card {v. v < num_vars C \<and> (\<exists>e\<in>vparts C v. part_zeros cd ! e > 0)}
    \<and> vars_unate cd = card {v. v < num_vars C \<and> is_unate cd ! v}
    \<and> (case binate_split_select C T cd (new_cube C) (new_cube C) of (cl, cr, b) \<Rightarrow>
         b < num_vars C
         \<and> (\<forall>v<num_vars C. card {e \<in> vparts C v. part_zeros cd ! e > 0}
              \<le> card {e \<in> vparts C b. part_zeros cd ! e > 0})
         \<and> is_cube C cl \<and> is_cube C cr
         \<and> {..<cube_size C} - vparts C b \<subseteq> elems cl \<inter> elems cr
         \<and> elems cl \<inter> elems cr \<inter> vparts C b = {}
         \<and> (elems cl \<union> elems cr) \<inter> vparts C b = vparts C b - elems (cof T)
         \<and> (2 \<le> card (vparts C b - elems (cof T)) \<longrightarrow>
              elems cl \<inter> vparts C b \<noteq> {} \<and> elems cr \<inter> vparts C b \<noteq> {}))"
proof -
  note L = wf_cubeD(1) [OF assms(1)]
  note M = massive_count_spec [OF assms(1,2), folded cd_def]
  have pz: "\<forall>e<cube_size C. part_zeros cd ! e = zeros_at T e" using M(1) by blast
  have ap: "{e \<in> vparts C v. part_zeros cd ! e > 0} = active_parts C T v" if "v < num_vars C" for v
    using pz vparts_less [OF L that] unfolding active_parts_def zeros_at_pos [symmetric] by auto
  have un: "{v. v < num_vars C \<and> is_unate cd ! v} = {v. v < num_vars C \<and> card (active_parts C T v) = 1}"
    using M(5) by blast
  have ac: "{v. v < num_vars C \<and> (\<exists>e\<in>vparts C v. part_zeros cd ! e > 0)} = {v. v < num_vars C \<and> active_parts C T v \<noteq> {}}"
    using ap by blast
  obtain b where b: "b < num_vars C" "best_var cd = int b"
    "\<forall>v<num_vars C. card (active_parts C T v) \<le> card (active_parts C T b)" using M(8) by blast
  obtain cl cr b' where s: "binate_split_select C T cd (new_cube C) (new_cube C) = (cl, cr, b')"
    by (cases "binate_split_select C T cd (new_cube C) (new_cube C)")
  have len: "length (new_cube C) = SET_SIZE (cube_size C)" by (simp add: new_cube_def)
  note S = binate_split_spec [OF assms(1,2) b(2,1) len len s]
  show ?thesis
    unfolding s prod.case S(1) un ac using pz M(5-7) S(2-8) b ap
    by (intro conjI allI impI) (simp_all add: zeros_at_def)
qed

theorem splitting_variable_witness:
  "vars_unate (massive_count demo_cube (cube1list demo_cube (cover_of 7 [[0, 2, 4], [1, 2, 3, 5]])))
    = card {v. v < num_vars demo_cube
        \<and> is_unate (massive_count demo_cube (cube1list demo_cube (cover_of 7 [[0, 2, 4], [1, 2, 3, 5]]))) ! v}"
  by (rule splitting_variable [THEN conjunct2, THEN conjunct2, THEN conjunct2, THEN conjunct1])
    (simp, rule cube1list_wf(1), simp_all)

text \<open>
  C34. Turning a cover into a cubelist and back gives the same sets in the
  same order; after cofactoring, every cube comes back with the cofactored parts raised.
\<close>

theorem cubelist_roundtrip:
  assumes "wf_cube C" "is_cover C A" "is_cube C c"
  shows "map elems (data (cubeunlist C mem (cube1list C A))) = map elems (data A)
    \<and> map elems (data (cubeunlist C mem (cofactor C (cube1list C A) c None)))
      = map (\<lambda>p. elems p \<union> ({..<cube_size C} - elems c)) (filter (\<lambda>p. cdist C p c = 0) (data A))
    \<and> is_cover C (cubeunlist C mem (cofactor C (cube1list C A) c None))"
proof -
  note W = cubelists_wf(1) [OF assms(1,2,2,2)]
  note Wc = cofactor_wf(1,3) [OF assms(1) W assms(3), of None]
  have z: "elems (cof (cube1list C A)) = {}"
    using wf_layoutD(3) [OF wf_cubeD(1) [OF assms(1)]] by (simp add: cube1list_def new_cube_def)
  have d: "cdist0 C p c = (cdist C p c = 0)" if "p \<in> set (data A)" for p
    using cdist0_spec [OF assms(1) wf_familyD(3) [OF assms(2) that] assms(3)]
      cdist_spec [OF assms(1) wf_familyD(3) [OF assms(2) that] assms(3)] by simp
  have cs: "cubes (cofactor C (cube1list C A) c None) = filter (\<lambda>p. cdist C p c = 0) (data A)"
    using d by (auto simp: cofactor_def cube1list_def Let_def intro: filter_cong)
  show ?thesis
    using cubeunlist_spec(2) [OF assms(1) W] cubeunlist_spec(1,2) [OF assms(1) Wc(1)] z Wc(2)
    by (simp add: cs) (simp add: cube1list_def)
qed

theorem cubelist_roundtrip_witness:
  "map elems (data (cubeunlist demo_cube (\<lambda>_ _. 0) (cube1list demo_cube (cover_of 7 [[0, 2, 4], [1, 2, 3, 5]]))))
     = map elems (data (cover_of 7 [[0, 2, 4], [1, 2, 3, 5]]))"
  using cubelist_roundtrip [of demo_cube "cover_of 7 [[0, 2, 4], [1, 2, 3, 5]]" "cube_of 7 []" "\<lambda>_ _. 0"] by simp

text \<open>
  Lemma. \<open>simplify_cubelist\<close> as it is written does not only remove duplicates:
  it never copies the first cube, and of a list of up to three cubes nothing is left.
\<close>

theorem simplify_cubelist_drops:
  "(CUBELISTSIZE T \<le> 3 \<longrightarrow> cubes (simplify_cubelist T) = [])
   \<and> (CUBELISTSIZE T > 0 \<longrightarrow> length (cubes (simplify_cubelist T)) < CUBELISTSIZE T)"
proof -
  have "length (cubes (simplify_cubelist T)) \<le> length [3..<CUBELISTSIZE T]"
    unfolding simplify_cubelist_def Let_def CUBELISTSIZE_def by (simp del: length_upt)
  then show ?thesis by (auto simp: simplify_cubelist_def Let_def)
qed

theorem simplify_cubelist_drops_witness:
  "cubes (simplify_cubelist \<lparr>cof = set_new 7, cubes = [cube_of 7 [0], cube_of 7 [1]]\<rparr>) = []"
  using simplify_cubelist_drops [of "\<lparr>cof = set_new 7, cubes = [cube_of 7 [0], cube_of 7 [1]]\<rparr>"]
  by (simp add: CUBELISTSIZE_def)

end
