(* ===== verification/Unate.thy ===== *)
theory Unate
  imports Cofactor
begin

text \<open>
  Unate covers (\<^verbatim>\<open>unate.c\<close>): a cover in which every active variable has one active part
  becomes a family of sets of columns, whose complement is the family of its minimal hitting sets.
\<close>

section \<open>Definitions\<close>

text \<open>
  The columns of the matrix are the parts with zeros, from left to right; the first loop clears the rows in
  fresh memory, the second copies one column after the other.
\<close>

definition unate_column :: "cubelist \<Rightarrow> cdata_struct \<Rightarrow> nat \<Rightarrow> pset list \<times> nat \<Rightarrow> pset list \<times> nat" where
  "unate_column T cd i st =
     (let (rows, ncol) = st in
      if part_zeros cd ! i > 0
      then (map2 (\<lambda>p pA. if \<not> is_in_set p i then set_insert pA ncol else pA) (cubes T) rows, ncol + 1)
      else (rows, ncol))"

definition map_cover_to_unate :: "cube_struct \<Rightarrow> memory \<Rightarrow> cubelist \<Rightarrow> cdata_struct \<Rightarrow> set_family" where
  "map_cover_to_unate C mem T cd =
     (let A = sf_new (CUBELISTSIZE T) (vars_unate cd);
          rows = map (\<lambda>i. set_clear (map (mem i) [0..<wsize A]) (sf_size A)) [0..<CUBELISTSIZE T];
          (rows, ncol) = fold (unate_column T cd) [0..<cube_size C] (rows, 0)
      in A\<lparr>data := rows\<rparr>)"

definition unate_row :: "cube_struct \<Rightarrow> cdata_struct \<Rightarrow> nat list \<Rightarrow> pset \<Rightarrow> pset \<Rightarrow> pset" where
  "unate_row C cd unate p pB =
     fold (\<lambda>ncol pB.
        if is_in_set p ncol
        then fold (\<lambda>i pB. if part_zeros cd ! i = 0 then set_remove pB i else pB)
               (part_range C (unate ! ncol)) pB
        else pB)
       [0..<length unate] (set_fill pB (cube_size C))"

definition map_unate_to_cover :: "cube_struct \<Rightarrow> memory \<Rightarrow> set_family \<Rightarrow> cdata_struct \<Rightarrow> set_family" where
  "map_unate_to_cover C mem A cd =
     (let B = sf_new (cnt A) (cube_size C);
          unate = filter (\<lambda>var. is_unate cd ! var) [0..<num_vars C]
      in fold (\<lambda>p B. sf_push B (unate_row C cd unate p (sf_fresh mem B))) (data A) B)"

text \<open>The rows that the chosen columns do not cover.\<close>

definition abs_covered :: "set_family \<Rightarrow> nat \<Rightarrow> set_family" where
  "abs_covered A pick =
     (sf_new (cnt A) (sf_size A))
       \<lparr>data := map (set_copy (replicate (SET_SIZE (sf_size A)) 0)) (filter (\<lambda>p. \<not> is_in_set p pick) (data A))\<rparr>"

definition abs_covered_many :: "set_family \<Rightarrow> pset \<Rightarrow> set_family" where
  "abs_covered_many A pick_set =
     (sf_new (cnt A) (sf_size A))
       \<lparr>data := map (set_copy (replicate (SET_SIZE (sf_size A)) 0)) (filter (\<lambda>p. setp_disjoint p pick_set) (data A))\<rparr>"

definition best_column :: "int list \<Rightarrow> nat \<Rightarrow> int \<times> int \<Rightarrow> int \<times> int" where
  "best_column count' i st =
     (let (best_var, best_count) = st
      in if count' ! i > best_count then (int i, count' ! i) else (best_var, best_count))"

definition abs_select_restricted :: "set_family \<Rightarrow> pset \<Rightarrow> nat res" where
  "abs_select_restricted A restricted =
     rbind (sf_count_restricted A restricted) (\<lambda>cs.
       let (best_var, best_count) = fold (best_column cs) [0..<sf_size A] (- 1, 0)
       in if best_var = - 1
          then Inl (Fatal ''abs_select_restricted: should not have best_var == -1'')
          else Inr (nat best_var))"

definition restrict_step :: "pset \<Rightarrow> pset \<times> nat \<Rightarrow> pset \<times> nat" where
  "restrict_step p st =
     (let (restricted, min_set_ord) = st in
      if SIZE p < min_set_ord then (set_copy restricted p, SIZE p)
      else if SIZE p = min_set_ord then (set_or restricted restricted p, min_set_ord)
      else (restricted, min_set_ord))"

fun unate_complement :: "nat \<Rightarrow> memory \<Rightarrow> set_family \<Rightarrow> set_family res" where
  "unate_complement 0 mem A = Inl Nofuel"
| "unate_complement (Suc k) mem A =
     (if cnt A = 0 then
        (let Abar = sf_new 1 (sf_size A)
         in Inr (sf_push Abar (set_clear (sf_fresh mem Abar) (sf_size A))))
      else if cnt A = 1 then
        (let p = data A ! 0
         in Inr (fold (\<lambda>i Abar. if is_in_set p i
                   then sf_push Abar (set_insert (set_clear (sf_fresh mem Abar) (sf_size A)) i) else Abar)
                 [0..<sf_size A] (sf_new (sf_size A) (sf_size A))))
      else
        (let (restricted, min_set_ord) =
               fold restrict_step (data A) (set_new (sf_size A), sf_size A + 1)
         in if min_set_ord = 0 then Inr (A\<lparr>data := []\<rparr>)
            else if min_set_ord = 1 then
              rmap (\<lambda>Abar. Abar\<lparr>data := map (\<lambda>p. set_or p p restricted) (data Abar)\<rparr>)
                (unate_complement k mem (abs_covered_many A restricted))
            else
              rbind (abs_select_restricted A restricted) (\<lambda>max_i.
              rbind (unate_complement k mem (abs_covered A max_i)) (\<lambda>Abar.
                let Abar = Abar\<lparr>data := map (\<lambda>p. set_insert p max_i) (data Abar)\<rparr>;
                    A = A\<lparr>data := map (\<lambda>p. if is_in_set p max_i
                          then PUTSIZE (set_remove p max_i) (SIZE (set_remove p max_i) - 1) else p) (data A)\<rparr>
                in rbind (unate_complement k mem A) (\<lambda>B. sf_append Abar B)))))"

definition unate_compl :: "nat \<Rightarrow> memory \<Rightarrow> set_family \<Rightarrow> set_family res" where
  "unate_compl k mem A =
     rmap sf_rev_contain
       (unate_complement k mem (A\<lparr>data := map (\<lambda>p. PUTSIZE p (set_ord p)) (data A)\<rparr>))"

section \<open>Hitting sets\<close>

definition hit_by :: "nat set set \<Rightarrow> nat set \<Rightarrow> bool" where
  "hit_by As S \<longleftrightarrow> (\<forall>R\<in>As. R \<inter> S \<noteq> {})"

definition rows :: "set_family \<Rightarrow> nat set set" where
  "rows A = elems ` set (data A)"

text \<open>\<open>Abar\<close> is the complement of \<open>A\<close>: what contains a set of it is what hits all of \<open>A\<close>.\<close>

definition transversal :: "nat set set \<Rightarrow> nat set set \<Rightarrow> bool" where
  "transversal As Bs \<longleftrightarrow> (\<forall>S. hit_by As S \<longleftrightarrow> (\<exists>X\<in>Bs. X \<subseteq> S))"

definition sized_rows :: "set_family \<Rightarrow> bool" where
  "sized_rows A \<longleftrightarrow> (\<forall>p\<in>set (data A). SIZE p = card (elems p))"

definition total_size :: "set_family \<Rightarrow> nat" where
  "total_size A = (\<Sum>p\<leftarrow>data A. card (elems p) + 1)"

lemma restrict_fold:
  assumes "\<forall>p\<in>set ps. wf_set n p" "wf_set n r0" "fold restrict_step ps (r0, m0) = (r, m)"
  shows "wf_set n r" "m \<le> m0" "\<forall>p\<in>set ps. m \<le> SIZE p"
    "elems r = (if m = m0 then elems r0 else {}) \<union> (\<Union>p\<in>{p \<in> set ps. SIZE p = m}. elems p)"
    "m = m0 \<or> (\<exists>p\<in>set ps. SIZE p = m)"
proof -
  have "wf_set n r \<and> m \<le> m0 \<and> (\<forall>p\<in>set ps. m \<le> SIZE p) \<and>
    elems r = (if m = m0 then elems r0 else {}) \<union> (\<Union>p\<in>{p \<in> set ps. SIZE p = m}. elems p) \<and>
    (m = m0 \<or> (\<exists>p\<in>set ps. SIZE p = m))"
    using assms
  proof (induction ps arbitrary: r0 m0)
    case (Cons p ps)
    have p: "wf_set n p" and ps: "\<forall>p\<in>set ps. wf_set n p" using Cons.prems(1) by simp_all
    consider "SIZE p < m0" | "SIZE p = m0" | "SIZE p > m0" by linarith
    then show ?case
    proof cases
      case 1
      have "set_copy r0 p = p" using p Cons.prems(2) by (intro set_copy_eq) (simp_all add: wf_length)
      then have "restrict_step p (r0, m0) = (p, SIZE p)" using 1 by (simp add: restrict_step_def)
      then have "fold restrict_step ps (p, SIZE p) = (r, m)" using Cons.prems(3) by simp
      from Cons.IH [OF ps p this] show ?thesis using 1 by auto
    next
      case 2
      have o: "wf_set n (set_or r0 r0 p)" "elems (set_or r0 r0 p) = elems r0 \<union> elems p"
        using binops_wf(2) [OF Cons.prems(2) p] binops_elems(2) [OF Cons.prems(2) p] wf_length [OF Cons.prems(2)]
        by simp_all
      have "restrict_step p (r0, m0) = (set_or r0 r0 p, m0)" using 2 by (simp add: restrict_step_def)
      then have "fold restrict_step ps (set_or r0 r0 p, m0) = (r, m)" using Cons.prems(3) by simp
      from Cons.IH [OF ps o(1) this] show ?thesis using 2 o(2) by auto
    next
      case 3
      then have "restrict_step p (r0, m0) = (r0, m0)" by (simp add: restrict_step_def)
      then have "fold restrict_step ps (r0, m0) = (r, m)" using Cons.prems(3) by simp
      from Cons.IH [OF ps Cons.prems(2) this] show ?thesis using 3 by auto
    qed
  qed simp
  then show "wf_set n r" "m \<le> m0" "\<forall>p\<in>set ps. m \<le> SIZE p"
    "elems r = (if m = m0 then elems r0 else {}) \<union> (\<Union>p\<in>{p \<in> set ps. SIZE p = m}. elems p)"
    "m = m0 \<or> (\<exists>p\<in>set ps. SIZE p = m)" by blast+
qed

lemma best_column_fold:
  assumes "fold (best_column cs) [0..<n] (- 1, 0) = (b, c)"
  shows "if \<exists>i<n. cs ! i > 0 then \<exists>i<n. b = int i \<and> cs ! i > 0 else b = - 1"
proof -
  have "case fold (best_column cs) [0..<m] (- 1, 0) of (b, c) \<Rightarrow>
      (if \<exists>i<m. cs ! i > 0 then \<exists>i<m. b = int i \<and> cs ! i > 0 \<and> cs ! i = c else b = - 1 \<and> c = 0)" for m
  proof (induction m)
    case (Suc m)
    obtain b c where bc: "fold (best_column cs) [0..<m] (- 1, 0) = (b, c)"
      by (cases "fold (best_column cs) [0..<m] (- 1, 0)") auto
    have step: "fold (best_column cs) [0..<Suc m] (- 1, 0) = (if cs ! m > c then (int m, cs ! m) else (b, c))"
      using bc by (simp add: best_column_def)
    show ?case
    proof (cases "\<exists>i<m. cs ! i > 0")
      case True
      then obtain i where "i < m" "b = int i" "cs ! i > 0" "cs ! i = c" using Suc bc by auto
      then show ?thesis unfolding step by (auto simp: less_Suc_eq)
    next
      case False
      then have "b = - 1" "c = 0" using Suc bc by (simp_all split: if_splits)
      then show ?thesis unfolding step using False by (auto simp: less_Suc_eq)
    qed
  qed simp
  from this [of n] show ?thesis using assms by (auto split: if_splits)
qed

lemma abs_select_restricted_spec:
  assumes A: "wf_family n A" and r: "wf_set n r" and two: "\<forall>p\<in>set (data A). 2 \<le> card (elems p)"
  shows "n \<le> 1025 \<Longrightarrow> \<exists>p\<in>set (data A). elems p \<inter> elems r \<noteq> {} \<Longrightarrow>
      \<exists>i<n. abs_select_restricted A r = Inr i \<and> (\<exists>p\<in>set (data A). i \<in> elems p)"
    "\<forall>p\<in>set (data A). 1026 \<le> card (elems p) \<Longrightarrow>
      abs_select_restricted A r = Inl (Fatal ''abs_select_restricted: should not have best_var == -1'')"
proof -
  have "\<forall>p\<in>set (data A). set_ord p \<noteq> 1" using two by (auto simp: set_ord_card)
  from sf_count_restricted_spec [OF A r this] obtain cs where cs: "sf_count_restricted A r = Inr cs"
    "\<And>e. e < n \<Longrightarrow> cs ! e = (if e \<in> elems r then sum_list (map (col_weight e) (data A)) else 0)" by metis
  obtain b c where bc: "fold (best_column cs) [0..<n] (- 1, 0) = (b, c)"
    by (cases "fold (best_column cs) [0..<n] (- 1, 0)") auto
  note F = best_column_fold [OF bc]
  have eq: "abs_select_restricted A r = (if b = - 1
      then Inl (Fatal ''abs_select_restricted: should not have best_var == -1'') else Inr (nat b))"
    using A bc by (simp add: abs_select_restricted_def cs(1) wf_family_def)
  have nn: "0 \<le> col_weight e p" if "p \<in> set (data A)" for e p
    using two that by (auto simp: col_weight_def set_ord_card intro!: div_int_pos_iff [THEN iffD2])
  show "\<exists>i<n. abs_select_restricted A r = Inr i \<and> (\<exists>p\<in>set (data A). i \<in> elems p)"
    if H: "n \<le> 1025" "\<exists>p\<in>set (data A). elems p \<inter> elems r \<noteq> {}"
  proof -
    obtain p e where p: "p \<in> set (data A)" "e \<in> elems p" "e \<in> elems r" using H(2) by blast
    have en: "e < n" by (rule wf_elem_less [OF wf_familyD(3) [OF A p(1)] p(2)])
    have "card (elems p) \<le> card {..<n}"
      by (rule card_mono) (use wf_elem_less [OF wf_familyD(3) [OF A p(1)]] in auto)
    then have "2 \<le> int (card (elems p))" "int (card (elems p)) \<le> 1025" using two p(1) H(1) by auto
    then have "1 \<le> (1024 :: int) div (int (card (elems p)) - 1)"
      using zdiv_mono2 [of 1024 "int (card (elems p)) - 1" 1024] by simp
    then have "1 \<le> col_weight e p" using p(2) by (simp add: col_weight_def set_ord_card)
    also have "\<dots> \<le> sum_list (map (col_weight e) (data A))"
      by (rule member_le_sum_list) (use p(1) nn in auto)
    finally have "cs ! e > 0" using cs(2) [OF en] p(3) by simp
    then obtain i where i: "i < n" "b = int i" "cs ! i > 0" using F en by (auto split: if_splits)
    then have "sum_list (map (col_weight i) (data A)) \<noteq> 0" using cs(2) [OF i(1)] by (auto split: if_splits)
    then obtain q where "q \<in> set (data A)" "col_weight i q \<noteq> 0" by (metis (no_types, lifting) map_eq_conv sum_list_0)
    then show ?thesis using i eq by (auto simp: col_weight_def split: if_splits)
  qed
  show "abs_select_restricted A r = Inl (Fatal ''abs_select_restricted: should not have best_var == -1'')"
    if "\<forall>p\<in>set (data A). 1026 \<le> card (elems p)"
  proof -
    have "col_weight e p = 0" if "p \<in> set (data A)" for e p
    proof -
      have "1025 \<le> int (card (elems p)) - 1" using \<open>\<forall>p\<in>set (data A). 1026 \<le> card (elems p)\<close> that by auto
      then show ?thesis by (simp add: col_weight_def set_ord_card div_pos_pos_trivial)
    qed
    then have "map (col_weight e) (data A) = map (\<lambda>_. 0) (data A)" for e by (rule map_cong [OF refl])
    then have "sum_list (map (col_weight e) (data A)) = 0" for e by (simp only: sum_list_0)
    then have "cs ! e = 0" if "e < n" for e using cs(2) [OF that] by simp
    then show ?thesis using F eq by auto
  qed
qed

lemma transversalD: "transversal As Bs \<Longrightarrow> hit_by As S \<longleftrightarrow> (\<exists>X\<in>Bs. X \<subseteq> S)"
  by (simp add: transversal_def)

lemma copy_rows:
  assumes "wf_family n A"
  shows "map (set_copy (replicate (SET_SIZE n) 0)) (filter P (data A)) = filter P (data A)"
  using assms by (intro map_idI set_copy_eq) (auto simp: wf_family_def)

lemma abs_covered_spec:
  assumes A: "wf_family n A" and s: "sized_rows A"
  shows "i < n \<Longrightarrow> data (abs_covered A i) = filter (\<lambda>p. i \<notin> elems p) (data A)"
    "wf_family n (abs_covered A i)" "sized_rows (abs_covered A i)"
    "wf_set n r \<Longrightarrow> data (abs_covered_many A r) = filter (\<lambda>p. elems p \<inter> elems r = {}) (data A)"
    "wf_family n (abs_covered_many A r)" "sized_rows (abs_covered_many A r)"
proof -
  have n: "sf_size A = n" using A by (simp add: wf_family_def)
  have d: "data (abs_covered A i) = filter (\<lambda>p. \<not> is_in_set p i) (data A)"
    "data (abs_covered_many A r) = filter (\<lambda>p. setp_disjoint p r) (data A)"
    using copy_rows [OF A] n by (simp_all add: abs_covered_def abs_covered_many_def)
  then show "wf_family n (abs_covered A i)" "wf_family n (abs_covered_many A r)"
    using A unfolding wf_family_def by (auto simp: abs_covered_def abs_covered_many_def)
  show "sized_rows (abs_covered A i)" "sized_rows (abs_covered_many A r)"
    using s unfolding sized_rows_def d by simp_all
  show "i < n \<Longrightarrow> data (abs_covered A i) = filter (\<lambda>p. i \<notin> elems p) (data A)"
    unfolding d using wf_in_elems [OF wf_familyD(3) [OF A]] by (auto intro: filter_cong)
  show "wf_set n r \<Longrightarrow> data (abs_covered_many A r) = filter (\<lambda>p. elems p \<inter> elems r = {}) (data A)"
    unfolding d by (rule filter_cong [OF refl], rule setp_disjoint_iff [OF wf_familyD(3) [OF A]])
qed

lemma sum_filter_less:
  fixes f :: "'a \<Rightarrow> nat"
  assumes "p \<in> set ps" "\<not> P p" "\<forall>p. 0 < f p"
  shows "(\<Sum>p\<leftarrow>filter P ps. f p) < (\<Sum>p\<leftarrow>ps. f p)"
  using assms(1)
proof (induction ps)
  case (Cons q ps)
  have "(\<Sum>p\<leftarrow>filter P ps. f p) \<le> (\<Sum>p\<leftarrow>ps. f p)" for ps by (induction ps) auto
  then show ?case using Cons assms(2,3) by (auto simp: add_strict_increasing less_imp_le_nat le_less_trans)
qed simp

lemma sum_map_less:
  fixes f g :: "'a \<Rightarrow> nat"
  assumes "\<forall>p\<in>set ps. f p \<le> g p" "p \<in> set ps" "f p < g p"
  shows "(\<Sum>p\<leftarrow>ps. f p) < (\<Sum>p\<leftarrow>ps. g p)"
  using assms
proof (induction ps)
  case (Cons q ps)
  have le: "\<forall>p\<in>set ps. f p \<le> g p \<Longrightarrow> (\<Sum>p\<leftarrow>ps. f p) \<le> (\<Sum>p\<leftarrow>ps. g p)" for ps by (induction ps) auto
  show ?case
  proof (cases "q = p")
    case True
    then show ?thesis using Cons.prems le [of ps] by (simp add: add_less_le_mono)
  next
    case False
    then show ?thesis using Cons by (simp add: add_le_less_mono)
  qed
qed simp

text \<open>The row of a column removed, with its size brought up to date.\<close>

lemma remove_column:
  assumes A: "wf_family n A" and s: "sized_rows A" and i: "i < n"
  defines "B \<equiv> A\<lparr>data := map (\<lambda>p. if is_in_set p i
                          then PUTSIZE (set_remove p i) (SIZE (set_remove p i) - 1) else p) (data A)\<rparr>"
  shows "wf_family n B" "sized_rows B" "rows B = (\<lambda>R. R - {i}) ` rows A" "cnt B = cnt A"
    "\<exists>p\<in>set (data A). i \<in> elems p \<Longrightarrow> total_size B < total_size A"
proof -
  define g where "g = (\<lambda>p. if is_in_set p i then PUTSIZE (set_remove p i) (SIZE (set_remove p i) - 1) else p)"
  have f: "wf_set n (g p) \<and> elems (g p) = elems p - {i} \<and> SIZE (g p) = card (elems p - {i})"
    if p: "p \<in> set (data A)" for p
  proof -
    have w: "wf_set n p" by (rule wf_familyD(3) [OF A p])
    have isin: "is_in_set p i \<longleftrightarrow> i \<in> elems p" by (rule wf_in_elems [OF w i, symmetric])
    have sz: "SIZE p = card (elems p)" using s p by (simp add: sized_rows_def)
    note r = set_remove_spec [OF w i]
    have "SIZE (set_remove p i) = SIZE p" using r(3) by (simp add: SIZE_def)
    moreover have "card (elems p) - 1 < 2 ^ 16" using card_elems_less [of p] by simp
    moreover have "set_remove p i \<noteq> []" by (rule wf_nonempty [OF r(2)])
    ultimately have "SIZE (PUTSIZE (set_remove p i) (SIZE (set_remove p i) - 1)) = card (elems p) - 1"
      using sz by (simp add: SIZE_PUTSIZE)
    then show ?thesis using isin r w sz by (auto simp: card_Diff_singleton_if g_def)
  qed
  have d: "data B = map g (data A)" by (simp add: B_def g_def)
  have "\<forall>p\<in>set (data B). wf_set n p" using f unfolding d set_map by blast
  moreover have "cnt B = cnt A" unfolding d by simp
  ultimately show "wf_family n B" using A by (simp add: wf_family_def) (simp add: B_def)
  have "SIZE (g p) = card (elems (g p))" if "p \<in> set (data A)" for p using f [OF that] by (simp only:)
  then show "sized_rows B" unfolding sized_rows_def d set_map by blast
  show "rows B = (\<lambda>R. R - {i}) ` rows A" using f unfolding rows_def d by (auto simp: image_image)
  show "cnt B = cnt A" unfolding d by simp
  assume "\<exists>p\<in>set (data A). i \<in> elems p"
  then obtain p where p: "p \<in> set (data A)" "i \<in> elems p" by blast
  have "(\<Sum>p\<leftarrow>data A. card (elems (g p)) + 1) < (\<Sum>p\<leftarrow>data A. card (elems p) + 1)"
  proof (rule sum_map_less [OF _ p(1)])
    show "\<forall>p\<in>set (data A). card (elems (g p)) + 1 \<le> card (elems p) + 1"
      using f by (simp add: card_Diff1_le)
    show "card (elems (g p)) + 1 < card (elems p) + 1"
      using f [OF p(1)] card_Diff1_less [OF finite_elems p(2)] by (simp only: add_less_cancel_right simp_thms)
  qed
  then show "total_size B < total_size A" unfolding total_size_def d by (simp add: comp_def)
qed

lemma single_sets:
  fixes P :: "nat \<Rightarrow> bool" and mem :: memory
  assumes "n \<le> 32736" "sf_size B = n" "wf_family n B" "cnt B + length is \<le> capacity B" "\<forall>i\<in>set is. i < n"
  defines "R \<equiv> fold (\<lambda>i Abar. if P i
        then sf_push Abar (set_insert (set_clear (sf_fresh mem Abar) n) i) else Abar) is B"
  shows "wf_family n R" "rows R = rows B \<union> (\<lambda>i. {i}) ` {i \<in> set is. P i}"
proof -
  have "wf_family n R \<and> rows R = rows B \<union> (\<lambda>i. {i}) ` {i \<in> set is. P i}"
    using assms(2-5) unfolding R_def
  proof (induction "is" arbitrary: B)
    case (Cons i "is")
    have l: "length (sf_fresh mem B) = SET_SIZE n" using Cons.prems(2) by (simp add: wf_family_def)
    note c = set_clear_spec [OF l assms(1)]
    have i: "i < n" using Cons.prems(4) by simp
    note s = set_insert_spec [OF c(1) i]
    let ?B = "if P i then sf_push B (set_insert (set_clear (sf_fresh mem B) n) i) else B"
    have "wf_family n ?B" using wf_sf_push [OF Cons.prems(2) s(2)] Cons.prems(2,3) by simp
    moreover have "rows ?B = rows B \<union> (if P i then {{i}} else {})" using s(1) c(2) by (auto simp: rows_def)
    moreover have "sf_size ?B = n" "cnt ?B + length is \<le> capacity ?B" using Cons.prems(1,3) by simp_all
    moreover note Cons.IH [of ?B]
    ultimately show ?case using Cons.prems(4) by auto
  qed simp
  then show "wf_family n R" "rows R = rows B \<union> (\<lambda>i. {i}) ` {i \<in> set is. P i}" by blast+
qed

lemma map_rows:
  assumes "wf_family n A" "\<forall>p\<in>set (data A). wf_set n (f p) \<and> elems (f p) = g (elems p)"
  shows "wf_family n (A\<lparr>data := map f (data A)\<rparr>)" "rows (A\<lparr>data := map f (data A)\<rparr>) = g ` rows A"
  using assms by (auto simp: wf_family_def rows_def image_image)

text \<open>The recursion computes a complement, and the fuel it needs is the number of rows and elements.\<close>

theorem unate_complement_spec:
  assumes "wf_family n A" "sized_rows A" "n \<le> 1025" "total_size A < k"
  shows "\<exists>B. unate_complement k mem A = Inr B \<and> wf_family n B \<and> transversal (rows A) (rows B)"
  using assms
proof (induction k arbitrary: A)
  case (Suc k)
  note A = Suc.prems(1) and s = Suc.prems(2)
  have n: "sf_size A = n" "n \<le> 32736" using A Suc.prems(3) by (simp_all add: wf_family_def)
  consider "cnt A = 0" | "cnt A = 1" | "2 \<le> cnt A" by linarith
  then show ?case
  proof cases
    case 1
    let ?B = "sf_new 1 n"
    have "length (sf_fresh mem ?B) = SET_SIZE n" by simp
    note c = set_clear_spec [OF this n(2)]
    have "unate_complement (Suc k) mem A = Inr (sf_push ?B (set_clear (sf_fresh mem ?B) n))"
      using 1 n by (simp add: Let_def)
    moreover have "wf_family n (sf_push ?B (set_clear (sf_fresh mem ?B) n))"
      using wf_sf_push [of n ?B] c(1) by simp
    moreover have "rows (sf_push ?B (set_clear (sf_fresh mem ?B) n)) = {{}}" "rows A = {}"
      using c(2) 1 by (simp_all add: rows_def)
    ultimately show ?thesis by (auto simp: transversal_def hit_by_def)
  next
    case 2
    then obtain p where p: "data A = [p]" by (auto simp: length_Suc_conv)
    have w: "wf_set n p" using wf_familyD(3) [OF A, of p] p by simp
    let ?R = "fold (\<lambda>i Abar. if is_in_set p i
        then sf_push Abar (set_insert (set_clear (sf_fresh mem Abar) n) i) else Abar) [0..<n] (sf_new n n)"
    have "unate_complement (Suc k) mem A = Inr ?R" using p unfolding n(1) [symmetric] by (simp add: Let_def)
    moreover have R: "wf_family n ?R" "rows ?R = rows (sf_new n n) \<union> (\<lambda>i. {i}) ` {i \<in> set [0..<n]. is_in_set p i}"
      by (rule single_sets [OF n(2)]; simp)+
    have "rows ?R = (\<lambda>i. {i}) ` elems p"
      unfolding R(2) using wf_in_elems [OF w] wf_elem_less [OF w] by (auto simp: rows_def)
    moreover have "rows A = {elems p}" using p by (simp add: rows_def)
    ultimately show ?thesis using R(1) by (auto simp: transversal_def hit_by_def)
  next
    case 3
    obtain r m where rm: "fold restrict_step (data A) (set_new n, n + 1) = (r, m)"
      by (cases "fold restrict_step (data A) (set_new n, n + 1)") auto
    have wA: "\<forall>p\<in>set (data A). wf_set n p" using A by (simp add: wf_family_def)
    have wn: "wf_set n (set_new n)" using n(2) by simp
    note R = restrict_fold [OF wA wn rm]
    have sz: "SIZE p = card (elems p)" if "p \<in> set (data A)" for p using s that by (simp add: sized_rows_def)
    have le: "card (elems p) \<le> n" if "p \<in> set (data A)" for p
    proof -
      have "card (elems p) \<le> card {..<n}"
        by (rule card_mono) (use wA that wf_elem_less in auto)
      then show ?thesis by simp
    qed
    obtain q where "q \<in> set (data A)" using 3 by (cases "data A") auto
    then have "m \<le> n" using R(3) sz le by fastforce
    then have er: "elems r = (\<Union>p\<in>{p \<in> set (data A). card (elems p) = m}. elems p)" "\<exists>p\<in>set (data A). card (elems p) = m"
      using R(4,5) sz by auto
    have ge: "m \<le> card (elems p)" if "p \<in> set (data A)" for p using R(3) sz that by auto
    have cnt: "cnt A \<noteq> 0" "cnt A \<noteq> 1" using 3 by auto
    note step = unate_complement.simps(2) [of k mem A, unfolded if_not_P [OF cnt(1)] if_not_P [OF cnt(2)] n(1) rm Let_def prod.case]
    consider "m = 0" | "m = 1" | "2 \<le> m" by linarith
    then show ?thesis
    proof cases
      case m: 1
      then obtain p where p: "p \<in> set (data A)" "elems p = {}" using er(2) by auto
      have "unate_complement (Suc k) mem A = Inr (A\<lparr>data := []\<rparr>)" unfolding step using m by simp
      moreover have "wf_family n (A\<lparr>data := []\<rparr>)" using A by (simp add: wf_family_def)
      moreover have "transversal (rows A) (rows (A\<lparr>data := []\<rparr>))"
        using p by (auto simp: transversal_def hit_by_def rows_def)
      ultimately show ?thesis by blast
    next
      case m: 2
      let ?A' = "abs_covered_many A r"
      note C = abs_covered_spec(4-6) [OF A s, of r]
      obtain p where p: "p \<in> set (data A)" "card (elems p) = 1" using er(2) m by auto
      then obtain e where e: "elems p = {e}" by (auto simp: card_1_singleton_iff)
      have pr: "elems p \<subseteq> elems r" unfolding er(1) using p m by auto
      have "total_size ?A' < total_size A"
        unfolding total_size_def C(1) [OF R(1)] by (rule sum_filter_less [OF p(1)]) (use pr e in auto)
      with Suc.IH [OF C(2,3) Suc.prems(3)] Suc.prems(4)
      obtain B where B: "unate_complement k mem ?A' = Inr B" "wf_family n B" "transversal (rows ?A') (rows B)"
        by auto
      have f: "\<forall>p\<in>set (data B). wf_set n (set_or p p r) \<and> elems (set_or p p r) = elems p \<union> elems r"
        using wf_familyD(3) [OF B(2)] R(1) binops_wf(2) [of n _ r] binops_elems(2) [of n _ r] by (simp add: wf_length)
      note M = map_rows [where g = "\<lambda>X. X \<union> elems r", OF B(2) f]
      have one: "\<exists>p\<in>set (data A). elems p = {i}" if i: "i \<in> elems r" for i
      proof -
        obtain q where q: "q \<in> set (data A)" "card (elems q) = m" "i \<in> elems q" using i unfolding er(1) by blast
        then have "elems q = {i}" using m by (auto simp: card_1_singleton_iff)
        with q(1) show ?thesis by blast
      qed
      have ra: "rows ?A' = {R \<in> rows A. R \<inter> elems r = {}}" unfolding rows_def C(1) [OF R(1)] by auto
      have iff: "hit_by (rows A) S \<longleftrightarrow> elems r \<subseteq> S \<and> hit_by (rows ?A') S" for S
      proof
        assume h: "hit_by (rows A) S"
        have "i \<in> S" if i: "i \<in> elems r" for i
          using one [OF i] h unfolding hit_by_def rows_def by fastforce
        then show "elems r \<subseteq> S \<and> hit_by (rows ?A') S" using h unfolding ra hit_by_def by blast
      next
        assume "elems r \<subseteq> S \<and> hit_by (rows ?A') S"
        then show "hit_by (rows A) S" unfolding ra hit_by_def by blast
      qed
      have "hit_by (rows A) S \<longleftrightarrow> (\<exists>X\<in>(\<lambda>X. X \<union> elems r) ` rows B. X \<subseteq> S)" for S
        unfolding iff transversalD [OF B(3)] by (simp only: bex_simps Un_subset_iff) blast
      then have "transversal (rows A) ((\<lambda>X. X \<union> elems r) ` rows B)" unfolding transversal_def by blast
      moreover have "unate_complement (Suc k) mem A = Inr (B\<lparr>data := map (\<lambda>p. set_or p p r) (data B)\<rparr>)"
        unfolding step using m B(1) by simp
      ultimately show ?thesis using M by (intro exI [of _ "B\<lparr>data := map (\<lambda>p. set_or p p r) (data B)\<rparr>"]) simp
    next
      case m: 3
      have two: "\<forall>p\<in>set (data A). 2 \<le> card (elems p)" using ge m by fastforce
      obtain p where p: "p \<in> set (data A)" "card (elems p) = m" using er(2) by blast
      then have "elems p \<subseteq> elems r" unfolding er(1) by blast
      moreover have "elems p \<noteq> {}" using p m by auto
      ultimately have "\<exists>p\<in>set (data A). elems p \<inter> elems r \<noteq> {}" using p(1) by blast
      from abs_select_restricted_spec(1) [OF A R(1) two Suc.prems(3) this]
      obtain i where i: "i < n" "abs_select_restricted A r = Inr i" "\<exists>p\<in>set (data A). i \<in> elems p" by blast
      let ?A1 = "abs_covered A i"
      note C = abs_covered_spec(1-3) [OF A s, of i]
      have "total_size ?A1 < total_size A"
      proof -
        obtain q where "q \<in> set (data A)" "i \<in> elems q" using i(3) by blast
        then show ?thesis unfolding total_size_def C(1) [OF i(1)] by (intro sum_filter_less) auto
      qed
      with Suc.IH [OF C(2,3) Suc.prems(3)] Suc.prems(4)
      obtain B where B: "unate_complement k mem ?A1 = Inr B" "wf_family n B" "transversal (rows ?A1) (rows B)"
        by auto
      have f: "\<forall>p\<in>set (data B). wf_set n (set_insert p i) \<and> elems (set_insert p i) = insert i (elems p)"
        using wf_familyD(3) [OF B(2)] i(1) set_insert_spec by blast
      note M = map_rows [where g = "insert i", OF B(2) f]
      define A2 where "A2 = A\<lparr>data := map (\<lambda>p. if is_in_set p i
                          then PUTSIZE (set_remove p i) (SIZE (set_remove p i) - 1) else p) (data A)\<rparr>"
      note D = remove_column [OF A s i(1), folded A2_def]
      from Suc.IH [OF D(1,2) Suc.prems(3)] Suc.prems(4) D(5) [OF i(3)]
      obtain B' where B': "unate_complement k mem A2 = Inr B'" "wf_family n B'" "transversal (rows A2) (rows B')"
        by auto
      obtain U where U: "sf_append (B\<lparr>data := map (\<lambda>p. set_insert p i) (data B)\<rparr>) B' = Inr U"
        "data U = map (\<lambda>p. set_insert p i) (data B) @ data B'" "wf_family n U"
        using sf_append_spec [OF M(1) B'(2)] by auto
      have "unate_complement (Suc k) mem A = Inr U"
        unfolding step using m i(2) B(1) B'(1) U(1) by (simp add: A2_def)
      moreover have "rows U = insert i ` rows B \<union> rows B'"
        using M(2) unfolding rows_def U(2) by (simp add: image_Un)
      moreover have iff: "hit_by (rows A) S \<longleftrightarrow> (i \<in> S \<and> hit_by (rows ?A1) S) \<or> hit_by (rows A2) S" for S
      proof -
        have ra: "rows ?A1 = {R \<in> rows A. i \<notin> R}" unfolding rows_def C(1) [OF i(1)] by auto
        have sub: "(R - {i}) \<inter> S \<noteq> {} \<Longrightarrow> R \<inter> S \<noteq> {}" for R by blast
        have no: "i \<notin> S \<Longrightarrow> (R - {i}) \<inter> S = R \<inter> S" for R by blast
        have yes: "i \<in> S \<Longrightarrow> i \<in> R \<Longrightarrow> R \<inter> S \<noteq> {}" for R by blast
        show ?thesis
        proof (cases "i \<in> S")
          case True
          have "hit_by (rows A2) S \<Longrightarrow> hit_by (rows A) S" unfolding hit_by_def D(3) using sub by blast
          moreover have "hit_by (rows A) S \<longleftrightarrow> hit_by (rows ?A1) S" unfolding hit_by_def ra using yes [OF True] by blast
          ultimately show ?thesis using True by blast
        next
          case False
          then show ?thesis unfolding hit_by_def D(3) by (simp add: no)
        qed
      qed
      have "hit_by (rows A) S \<longleftrightarrow> (\<exists>X\<in>insert i ` rows B \<union> rows B'. X \<subseteq> S)" for S
        unfolding iff transversalD [OF B(3)] transversalD [OF B'(3)]
        by (simp only: bex_Un bex_simps insert_subset)
      then have "transversal (rows A) (insert i ` rows B \<union> rows B')" unfolding transversal_def by blast
      ultimately show ?thesis using U(3) by auto
    qed
  qed
qed simp

section \<open>Unate covers as families\<close>

definition all_unate :: "cube_struct \<Rightarrow> cubelist \<Rightarrow> bool" where
  "all_unate C T \<longleftrightarrow> (\<forall>v<num_vars C. card (active_parts C T v) \<le> 1)"

text \<open>The active variables, and their active parts: the columns of the matrix.\<close>

definition uvars :: "cube_struct \<Rightarrow> cubelist \<Rightarrow> nat list" where
  "uvars C T = filter (\<lambda>v. card (active_parts C T v) = 1) [0..<num_vars C]"

definition ucols :: "cube_struct \<Rightarrow> cubelist \<Rightarrow> nat list" where
  "ucols C T = filter (\<lambda>i. zeros_at T i > 0) [0..<cube_size C]"

lemma unate_counts:
  assumes C: "wf_cube C" and T: "wf_list C T"
  shows "vars_unate (massive_count C T) = vars_active (massive_count C T) \<Longrightarrow> all_unate C T"
    "length (uvars C T) = vars_unate (massive_count C T)" "length (uvars C T) \<le> num_vars C"
proof -
  note M = massive_count_spec(6,7) [OF C T]
  let ?U = "{v. v < num_vars C \<and> card (active_parts C T v) = 1}" and ?A = "{v. v < num_vars C \<and> active_parts C T v \<noteq> {}}"
  have sub: "?U \<subseteq> ?A" by auto
  show "all_unate C T" if "vars_unate (massive_count C T) = vars_active (massive_count C T)"
  proof -
    have "?U = ?A" using card_subset_eq [OF _ sub] that M by simp
    then show ?thesis unfolding all_unate_def by (metis (mono_tags, lifting) card.empty mem_Collect_eq le_numeral_extra(4) zero_le)
  qed
  have "distinct (uvars C T)" by (simp add: uvars_def)
  then have "length (uvars C T) = card (set (uvars C T))" by (rule distinct_card [symmetric])
  also have "set (uvars C T) = ?U" by (auto simp: uvars_def)
  finally show "length (uvars C T) = vars_unate (massive_count C T)" using M by simp
  show "length (uvars C T) \<le> num_vars C"
    using length_filter_le [of "\<lambda>v. card (active_parts C T v) = 1" "[0..<num_vars C]"] by (simp add: uvars_def)
qed

lemma ucols_uvars:
  assumes C: "wf_cube C" and T: "wf_list C T" and u: "all_unate C T"
  shows "length (ucols C T) = length (uvars C T)"
    "k < length (uvars C T) \<Longrightarrow> active_parts C T (uvars C T ! k) = {ucols C T ! k}"
proof -
  note L = wf_cubeD(1) [OF C]
  let ?act = "\<lambda>v. the_elem (active_parts C T v)"
  have act: "active_parts C T v = {?act v}" "?act v \<in> vparts C v" if "v \<in> set (uvars C T)" for v
  proof -
    have "card (active_parts C T v) = 1" using that by (simp add: uvars_def)
    then show "active_parts C T v = {?act v}" by (metis card_1_singletonE the_elem_eq)
    then show "?act v \<in> vparts C v" unfolding active_parts_def by blast
  qed
  have v: "v < num_vars C" if "v \<in> set (uvars C T)" for v using that by (simp add: uvars_def)
  have "set (map ?act (uvars C T)) = set (ucols C T)"
  proof (intro set_eqI iffI)
    fix e assume "e \<in> set (map ?act (uvars C T))"
    then obtain w where w: "w \<in> set (uvars C T)" "e = ?act w" by auto
    then have "e \<in> active_parts C T w" using act(1) [OF w(1)] by (metis singletonI)
    then show "e \<in> set (ucols C T)"
      using vparts_less [OF L v [OF w(1)]] by (auto simp: ucols_def active_parts_def zeros_at_pos)
  next
    fix e assume "e \<in> set (ucols C T)"
    then have e: "e < cube_size C" "zeros_at T e > 0" by (simp_all add: ucols_def)
    from vparts_cover [OF L e(1)] obtain w where w: "w < num_vars C" "e \<in> vparts C w" .
    then have "e \<in> active_parts C T w" using e(2) by (simp add: active_parts_def zeros_at_pos)
    moreover from this have "card (active_parts C T w) \<noteq> 0" by auto
    then have "w \<in> set (uvars C T)" using u w(1) by (auto simp: uvars_def all_unate_def le_Suc_eq)
    ultimately show "e \<in> set (map ?act (uvars C T))" using act(1) by auto
  qed
  moreover have "sorted_wrt (<) (map ?act (uvars C T))"
  proof -
    have "sorted_wrt (<) (uvars C T)"
      unfolding uvars_def by (rule sorted_wrt_filter) (rule sorted_wrt_upt)
    then have "sorted_wrt (\<lambda>u w. ?act u < ?act w) (uvars C T)"
    proof (rule sorted_wrt_mono_rel [rotated])
      fix u w assume uw: "u \<in> set (uvars C T)" "w \<in> set (uvars C T)" "u < w"
      then show "?act u < ?act w"
        using act(2) [OF uw(1)] act(2) [OF uw(2)] first_part_mono [OF L uw(3) v [OF uw(2)]] by (auto simp: vparts_def)
    qed
    then show ?thesis by (simp add: sorted_wrt_map)
  qed
  moreover have "sorted_wrt (<) (ucols C T)"
    unfolding ucols_def by (rule sorted_wrt_filter) (rule sorted_wrt_upt)
  ultimately have eq: "map ?act (uvars C T) = ucols C T"
    by (intro strict_sorted_equal) (simp_all add: strict_sorted_iff)
  then show "length (ucols C T) = length (uvars C T)" by (metis length_map)
  assume k: "k < length (uvars C T)"
  then have "ucols C T ! k = ?act (uvars C T ! k)" using eq by (metis nth_map)
  then show "active_parts C T (uvars C T ! k) = {ucols C T ! k}" using act(1) [OF nth_mem [OF k]] by simp
qed

lemma unate_column_fold:
  assumes pz: "\<forall>e<cube_size C. part_zeros cd ! e = zeros_at T e"
    and T: "wf_list C T" and n: "length (ucols C T) \<le> n" and m: "m \<le> cube_size C"
    and R: "length R = length (cubes T)" "\<forall>r\<in>set R. wf_set n r \<and> elems r = {}"
  defines "cs \<equiv> filter (\<lambda>i. zeros_at T i > 0) [0..<m]"
  shows "snd (fold (unate_column T cd) [0..<m] (R, 0)) = length cs"
    "length (fst (fold (unate_column T cd) [0..<m] (R, 0))) = length (cubes T)"
    "\<forall>j<length (cubes T). wf_set n (fst (fold (unate_column T cd) [0..<m] (R, 0)) ! j) \<and>
      elems (fst (fold (unate_column T cd) [0..<m] (R, 0)) ! j) = {k. k < length cs \<and> cs ! k \<notin> elems (cubes T ! j)}"
proof -
  have "snd (fold (unate_column T cd) [0..<m] (R, 0)) = length (filter (\<lambda>i. zeros_at T i > 0) [0..<m]) \<and>
    length (fst (fold (unate_column T cd) [0..<m] (R, 0))) = length (cubes T) \<and>
    (\<forall>j<length (cubes T). wf_set n (fst (fold (unate_column T cd) [0..<m] (R, 0)) ! j) \<and>
      elems (fst (fold (unate_column T cd) [0..<m] (R, 0)) ! j) =
        {k. k < length (filter (\<lambda>i. zeros_at T i > 0) [0..<m]) \<and> filter (\<lambda>i. zeros_at T i > 0) [0..<m] ! k \<notin> elems (cubes T ! j)})"
    using m
  proof (induction m)
    case 0
    then show ?case using R by simp
  next
    case (Suc m)
    obtain S c where Sc: "fold (unate_column T cd) [0..<m] (R, 0) = (S, c)"
      by (cases "fold (unate_column T cd) [0..<m] (R, 0)")
    define cs where "cs = filter (\<lambda>i. zeros_at T i > 0) [0..<m]"
    have IH: "c = length cs" "length S = length (cubes T)"
      "\<And>j. j < length (cubes T) \<Longrightarrow> wf_set n (S ! j) \<and> elems (S ! j) = {k. k < length cs \<and> cs ! k \<notin> elems (cubes T ! j)}"
      using Suc unfolding Sc cs_def by simp_all
    have mc: "m < cube_size C" using Suc.prems by simp
    then have pzm: "part_zeros cd ! m = zeros_at T m" using pz by simp
    show ?case
    proof (cases "zeros_at T m > 0")
      case False
      then have "fold (unate_column T cd) [0..<Suc m] (R, 0) = (S, c)"
        using Sc pzm by (simp add: unate_column_def)
      moreover have "filter (\<lambda>i. zeros_at T i > 0) [0..<Suc m] = cs" using False by (simp add: cs_def)
      ultimately show ?thesis using IH by simp
    next
      case True
      let ?S = "map2 (\<lambda>p pA. if \<not> is_in_set p m then set_insert pA c else pA) (cubes T) S"
      have fs: "fold (unate_column T cd) [0..<Suc m] (R, 0) = (?S, c + 1)"
        using Sc pzm True by (simp add: unate_column_def)
      have cs': "filter (\<lambda>i. zeros_at T i > 0) [0..<Suc m] = cs @ [m]" using True by (simp add: cs_def)
      have "length (cs @ [m]) \<le> length (ucols C T)"
      proof -
        have "[0..<cube_size C] = [0..<Suc m] @ [Suc m..<cube_size C]"
          using Suc.prems by (metis le_add_diff_inverse upt_add_eq_append zero_le)
        then show ?thesis unfolding ucols_def cs' [symmetric] by simp
      qed
      then have c: "c < n" using n IH(1) by simp
      have "wf_set n (?S ! j) \<and> elems (?S ! j) = {k. k < length (cs @ [m]) \<and> (cs @ [m]) ! k \<notin> elems (cubes T ! j)}"
        if j: "j < length (cubes T)" for j
      proof -
        have w: "is_cube C (cubes T ! j)" using wf_listD(2) [OF T] j by simp
        have isin: "is_in_set (cubes T ! j) m \<longleftrightarrow> m \<in> elems (cubes T ! j)" by (rule wf_in_elems [OF w mc, symmetric])
        have Sj: "?S ! j = (if m \<notin> elems (cubes T ! j) then set_insert (S ! j) c else S ! j)"
          using j IH(2) isin by simp
        have W: "wf_set n (S ! j)" "elems (S ! j) = {k. k < length cs \<and> cs ! k \<notin> elems (cubes T ! j)}"
          using IH(3) [OF j] by simp_all
        note ins = set_insert_spec [OF W(1) c]
        have "{k. k < length (cs @ [m]) \<and> (cs @ [m]) ! k \<notin> elems (cubes T ! j)} =
            {k. k < length cs \<and> cs ! k \<notin> elems (cubes T ! j)} \<union> (if m \<notin> elems (cubes T ! j) then {c} else {})"
          unfolding IH(1) by (auto simp: nth_append less_Suc_eq)
        then show ?thesis unfolding Sj using ins W by simp
      qed
      then show ?thesis unfolding fs cs' using IH(1,2) by simp
    qed
  qed
  then show "snd (fold (unate_column T cd) [0..<m] (R, 0)) = length cs"
    "length (fst (fold (unate_column T cd) [0..<m] (R, 0))) = length (cubes T)"
    "\<forall>j<length (cubes T). wf_set n (fst (fold (unate_column T cd) [0..<m] (R, 0)) ! j) \<and>
      elems (fst (fold (unate_column T cd) [0..<m] (R, 0)) ! j) = {k. k < length cs \<and> cs ! k \<notin> elems (cubes T ! j)}"
    unfolding cs_def by blast+
qed

lemma map_cover_to_unate_spec:
  fixes mem :: memory
  assumes C: "wf_cube C" and T: "wf_list C T" and u: "all_unate C T"
  defines "A \<equiv> map_cover_to_unate C mem T (massive_count C T)"
  shows "wf_family (length (uvars C T)) A" "cnt A = length (cubes T)"
    "rows A = (\<lambda>p. {k. k < length (uvars C T) \<and> ucols C T ! k \<notin> elems p}) ` set (cubes T)"
proof -
  let ?n = "vars_unate (massive_count C T)"
  note M = massive_count_spec(1) [OF C T]
  have pz: "\<forall>e<cube_size C. part_zeros (massive_count C T) ! e = zeros_at T e" using M by blast
  have n: "?n = length (uvars C T)" "length (ucols C T) = length (uvars C T)"
    using unate_counts(2) [OF C T] ucols_uvars(1) [OF C T u] by simp_all
  have "length (ucols C T) \<le> length [0..<cube_size C]" unfolding ucols_def by (rule length_filter_le)
  then have n': "?n \<le> 32736" using n wf_layoutD(3) [OF wf_cubeD(1) [OF C]] by simp
  let ?A = "sf_new (CUBELISTSIZE T) ?n"
  let ?R = "map (\<lambda>i. set_clear (map (mem i) [0..<wsize ?A]) (sf_size ?A)) [0..<CUBELISTSIZE T]"
  have R: "length ?R = length (cubes T)" "\<forall>r\<in>set ?R. wf_set ?n r \<and> elems r = {}"
    using set_clear_spec(1,2) [of _ ?n] n' by (auto simp: CUBELISTSIZE_def)
  note F = unate_column_fold [OF pz T _ order.refl R, folded ucols_def]
  obtain S c where Sc: "fold (unate_column T (massive_count C T)) [0..<cube_size C] (?R, 0) = (S, c)"
    by (cases "fold (unate_column T (massive_count C T)) [0..<cube_size C] (?R, 0)")
  have le: "length (ucols C T) \<le> ?n" using n by simp
  have S: "length S = length (cubes T)"
    "\<And>j. j < length (cubes T) \<Longrightarrow> wf_set ?n (S ! j) \<and> elems (S ! j) = {k. k < length (uvars C T) \<and> ucols C T ! k \<notin> elems (cubes T ! j)}"
    using F(2,3) [OF le] unfolding Sc n(2) by simp_all
  have A: "A = ?A\<lparr>data := S\<rparr>" unfolding A_def map_cover_to_unate_def Let_def Sc by simp
  have "\<forall>p\<in>set S. wf_set ?n p" using S by (auto simp: in_set_conv_nth)
  then show "wf_family (length (uvars C T)) A" using S(1) n(1) by (simp add: wf_family_def A CUBELISTSIZE_def)
  show "cnt A = length (cubes T)" using S(1) by (simp add: A)
  have "map elems S = map (\<lambda>p. {k. k < length (uvars C T) \<and> ucols C T ! k \<notin> elems p}) (cubes T)"
    using S by (intro nth_equalityI) simp_all
  then show "rows A = (\<lambda>p. {k. k < length (uvars C T) \<and> ucols C T ! k \<notin> elems p}) ` set (cubes T)"
  proof -
    have "data A = S" by (simp add: A)
    then show ?thesis using \<open>map elems S = _\<close> unfolding rows_def by (metis set_map)
  qed
qed

lemma unate_row_spec:
  assumes C: "wf_cube C" and l: "length pB = SET_SIZE (cube_size C)" and p: "wf_set (length us) p" and us: "\<forall>v\<in>set us. v < num_vars C"
  shows "is_cube C (unate_row C cd us p pB)"
    "elems (unate_row C cd us p pB) =
       {e. e < cube_size C \<and> (\<forall>k\<in>elems p. e \<in> vparts C (us ! k) \<longrightarrow> part_zeros cd ! e \<noteq> 0)}"
proof -
  note L = wf_cubeD(1) [OF C]
  let ?n = "cube_size C"
  have n: "0 < ?n" "?n \<le> 32736" using wf_layoutD(3,8) [OF L] by simp_all
  have rm: "is_cube C (fold (\<lambda>i pB. if part_zeros cd ! i = 0 then set_remove pB i else pB) is q) \<and>
      elems (fold (\<lambda>i pB. if part_zeros cd ! i = 0 then set_remove pB i else pB) is q) = elems q - {i \<in> set is. part_zeros cd ! i = 0}"
    if "is_cube C q" "\<forall>i\<in>set is. i < ?n" for q "is"
    using that
  proof (induction "is" arbitrary: q)
    case (Cons i "is")
    then show ?case using set_remove_spec [OF Cons.prems(1), of i] by auto
  qed simp
  let ?step = "\<lambda>ncol pB. if is_in_set p ncol
        then fold (\<lambda>i pB. if part_zeros cd ! i = 0 then set_remove pB i else pB) (part_range C (us ! ncol)) pB else pB"
  have "is_cube C (fold ?step ks q) \<and>
      elems (fold ?step ks q) = {e \<in> elems q. \<forall>k\<in>set ks \<inter> elems p. e \<in> vparts C (us ! k) \<longrightarrow> part_zeros cd ! e \<noteq> 0}"
    if "is_cube C q" "\<forall>k\<in>set ks. k < length us" for q ks
    using that
  proof (induction ks arbitrary: q)
    case (Cons k ks)
    have k: "us ! k < num_vars C" using Cons.prems(2) us by simp
    have isin: "is_in_set p k \<longleftrightarrow> k \<in> elems p" using wf_in_elems [OF p] Cons.prems(2) by simp
    have r: "\<forall>i\<in>set (part_range C (us ! k)). i < ?n" "set (part_range C (us ! k)) = vparts C (us ! k)"
      using set_part_range [OF L k] vparts_less [OF L k] by auto
    have s: "is_cube C (?step k q)" "elems (?step k q) =
        (if k \<in> elems p then elems q - {i \<in> vparts C (us ! k). part_zeros cd ! i = 0} else elems q)"
      using rm [OF Cons.prems(1) r(1)] Cons.prems(1) unfolding isin r(2) by simp_all
    have "elems (?step k q) = {e \<in> elems q. k \<in> elems p \<longrightarrow> e \<in> vparts C (us ! k) \<longrightarrow> part_zeros cd ! e \<noteq> 0}"
      unfolding s(2) by auto
    with s(1) show ?case using Cons.IH [of "?step k q"] Cons.prems(2) by auto
  qed simp
  from this [OF set_fill_spec(1) [OF l n], of "[0..<length us]"]
  show "is_cube C (unate_row C cd us p pB)" "elems (unate_row C cd us p pB) =
       {e. e < cube_size C \<and> (\<forall>k\<in>elems p. e \<in> vparts C (us ! k) \<longrightarrow> part_zeros cd ! e \<noteq> 0)}"
    using set_fill_spec(2) [OF l n] wf_elem_less [OF p] unfolding unate_row_def by auto
qed

lemma map_unate_to_cover_spec:
  fixes mem :: memory
  assumes C: "wf_cube C" and T: "wf_list C T" and u: "all_unate C T" and A: "wf_family (length (uvars C T)) A"
  defines "B \<equiv> map_unate_to_cover C mem A (massive_count C T)"
  shows "is_cover C B" "onset C B = {x. point C x \<and> (\<exists>X\<in>rows A. \<forall>k\<in>X. x (uvars C T ! k) = ucols C T ! k)}" "cnt B = cnt A"
proof -
  note L = wf_cubeD(1) [OF C]
  note M = massive_count_spec(1,5) [OF C T]
  let ?cd = "massive_count C T"
  have us: "filter (\<lambda>v. is_unate ?cd ! v) [0..<num_vars C] = uvars C T"
    unfolding uvars_def by (rule filter_cong) (simp_all add: M(2))
  have v: "\<forall>v\<in>set (uvars C T). v < num_vars C" by (simp add: uvars_def)
  let ?row = "\<lambda>p. {e. e < cube_size C \<and> (\<forall>k\<in>elems p. e \<in> vparts C (uvars C T ! k) \<longrightarrow> part_zeros ?cd ! e \<noteq> 0)}"
  let ?step = "\<lambda>p B. sf_push B (unate_row C ?cd (uvars C T) p (sf_fresh mem B))"
  have "is_cover C (fold ?step ps D) \<and> map elems (data (fold ?step ps D)) = map elems (data D) @ map ?row ps"
    if "is_cover C D" "cnt D + length ps \<le> capacity D" "\<forall>p\<in>set ps. wf_set (length (uvars C T)) p" for ps D
    using that
  proof (induction ps arbitrary: D)
    case (Cons p ps)
    have l: "length (sf_fresh mem D) = SET_SIZE (cube_size C)" using Cons.prems(1) by (simp add: wf_family_def)
    have p: "wf_set (length (uvars C T)) p" using Cons.prems(3) by simp
    note r = unate_row_spec [OF C l p v, of ?cd]
    have "is_cover C (?step p D)" using wf_sf_push [OF Cons.prems(1) r(1)] Cons.prems(2) by simp
    from Cons.IH [OF this] show ?case using Cons.prems(2,3) r(2) by simp
  qed simp
  note F = this [of "sf_new (cnt A) (cube_size C)" "data A"]
  have Bf: "B = fold ?step (data A) (sf_new (cnt A) (cube_size C))"
    unfolding B_def map_unate_to_cover_def Let_def us ..
  have "cnt (sf_new (cnt A) (cube_size C)) + length (data A) \<le> capacity (sf_new (cnt A) (cube_size C))" by simp
  moreover have "\<forall>p\<in>set (data A). wf_set (length (uvars C T)) p" using A by (simp add: wf_family_def)
  ultimately have F: "is_cover C B \<and> map elems (data B) = map elems (data (sf_new (cnt A) (cube_size C))) @ map ?row (data A)"
    unfolding Bf by (rule F [OF wf_sf_new])
  have "map elems (data (sf_new (cnt A) (cube_size C))) = []" by simp
  with F have B: "is_cover C B" "map elems (data B) = map ?row (data A)" by (simp_all only: append_Nil)
  show "is_cover C B" by (rule B(1))
  show "cnt B = cnt A" using arg_cong [OF B(2), of length] by (simp only: length_map)
  have img: "elems ` set (data B) = ?row ` set (data A)" using arg_cong [OF B(2), of set] by (simp only: set_map)
  have cov: "covers C (?row p) x \<longleftrightarrow> (\<forall>k\<in>elems p. x (uvars C T ! k) = ucols C T ! k)"
    if x: "point C x" and p: "p \<in> set (data A)" for p x
  proof -
    have k: "k < length (uvars C T)" if "k \<in> elems p" for k by (rule wf_elem_less [OF wf_familyD(3) [OF A p] that])
    have xv: "x v \<in> vparts C v" "x v < cube_size C" if "v < num_vars C" for v
      using x that vparts_less [OF L that] by (auto simp: point_def)
    have "part_zeros ?cd ! (x (uvars C T ! k)) \<noteq> 0 \<longleftrightarrow> x (uvars C T ! k) = ucols C T ! k" if kp: "k \<in> elems p" for k
    proof -
      have w: "uvars C T ! k < num_vars C" using v k [OF kp] by simp
      have "part_zeros ?cd ! (x (uvars C T ! k)) \<noteq> 0 \<longleftrightarrow> x (uvars C T ! k) \<in> active_parts C T (uvars C T ! k)"
        using xv [OF w] M(1) by (simp add: active_parts_def zeros_at_pos)
      then show ?thesis using ucols_uvars(2) [OF C T u k [OF kp]] by simp
    qed
    moreover have "covers C (?row p) x \<longleftrightarrow> (\<forall>k\<in>elems p. part_zeros ?cd ! (x (uvars C T ! k)) \<noteq> 0)"
    proof
      assume cv: "covers C (?row p) x"
      show "\<forall>k\<in>elems p. part_zeros ?cd ! (x (uvars C T ! k)) \<noteq> 0"
      proof
        fix k assume kp: "k \<in> elems p"
        then have w: "uvars C T ! k < num_vars C" using v k by simp
        then have "x (uvars C T ! k) \<in> ?row p" using cv by (simp add: covers_def)
        then show "part_zeros ?cd ! (x (uvars C T ! k)) \<noteq> 0" using kp xv(1) [OF w] by blast
      qed
    next
      assume *: "\<forall>k\<in>elems p. part_zeros ?cd ! (x (uvars C T ! k)) \<noteq> 0"
      show "covers C (?row p) x" unfolding covers_def
      proof (intro allI impI CollectI conjI ballI)
        fix w k assume w: "w < num_vars C" and k': "k \<in> elems p" "x w \<in> vparts C (uvars C T ! k)"
        have "uvars C T ! k < num_vars C" using v k [OF k'(1)] by simp
        then have "uvars C T ! k = w" using vparts_disjoint [OF L _ w k'(2) xv(1) [OF w]] by simp
        then show "part_zeros ?cd ! x w \<noteq> 0" using * k'(1) by blast
      qed (rule xv(2))
    qed
    ultimately show ?thesis by simp
  qed
  show "onset C B = {x. point C x \<and> (\<exists>X\<in>rows A. \<forall>k\<in>X. x (uvars C T ! k) = ucols C T ! k)}"
    unfolding img rows_def cov_def using cov by auto
qed

text \<open>Complementing a unate cubelist through its matrix.\<close>

theorem unate_leaf:
  assumes C: "wf_cube C" and T: "wf_list C T"
    and u: "vars_unate (massive_count C T) = vars_active (massive_count C T)"
    and bound: "num_vars C \<le> 1025" and k: "length (cubes T) * (num_vars C + 1) < k"
  shows "\<exists>A. unate_compl k mem (map_cover_to_unate C mem T (massive_count C T)) = Inr A
    \<and> is_cover C (map_unate_to_cover C mem A (massive_count C T))
    \<and> onset C (map_unate_to_cover C mem A (massive_count C T)) = {x. point C x} - lcov C T"
proof -
  note un = unate_counts(1) [OF C T u]
  let ?A = "map_cover_to_unate C mem T (massive_count C T)" and ?n = "length (uvars C T)"
  note A = map_cover_to_unate_spec [OF C T un, of mem]
  let ?A' = "?A\<lparr>data := map (\<lambda>p. PUTSIZE p (set_ord p)) (data ?A)\<rparr>"
  have f: "\<forall>p\<in>set (data ?A). wf_set ?n (PUTSIZE p (set_ord p)) \<and> elems (PUTSIZE p (set_ord p)) = elems p"
    using wf_familyD(3) [OF A(1)] by simp
  note A' = map_rows [where g = "\<lambda>X. X", OF A(1) f]
  have s: "sized_rows ?A'" using SIZE_put [OF wf_familyD(3) [OF A(1)]] by (simp add: sized_rows_def)
  have n: "?n \<le> num_vars C" by (rule unate_counts(3) [OF C T])
  have "total_size ?A' \<le> length (cubes T) * (num_vars C + 1)"
  proof -
    have "card (elems p) + 1 \<le> num_vars C + 1" if "p \<in> set (data ?A')" for p
    proof -
      have "card (elems p) \<le> card {..<?n}"
        by (rule card_mono) (use wf_elem_less [OF wf_familyD(3) [OF A'(1) that]] in auto)
      then show ?thesis using n by simp
    qed
    then have "total_size ?A' \<le> (\<Sum>p\<leftarrow>data ?A'. num_vars C + 1)" unfolding total_size_def by (rule sum_list_mono)
    also have "\<dots> = length (cubes T) * (num_vars C + 1)" using A(2) by (simp only: sum_list_triv set_family.simps length_map) simp
    finally show ?thesis .
  qed
  then have "total_size ?A' < k" using k by simp
  from unate_complement_spec [OF A'(1) s _ this] n bound obtain B where B:
    "unate_complement k mem ?A' = Inr B" "wf_family ?n B" "transversal (rows ?A') (rows B)" by auto
  let ?B = "sf_rev_contain B"
  note R = sf_rev_contain_spec [OF B(2)]
  have rr: "(\<exists>X\<in>rows ?B. X \<subseteq> S) \<longleftrightarrow> (\<exists>X\<in>rows B. X \<subseteq> S)" for S
    using R(2) minimal_below [of "rows B"] minimal_subset [of "rows B"]
    unfolding rows_def by (metis (no_types, lifting) List.finite_set finite_imageI order.trans subsetD)
  have uc: "unate_compl k mem ?A = Inr ?B" using B(1) by (simp add: unate_compl_def)
  note D = map_unate_to_cover_spec [OF C T un R(1), of mem]
  have v: "\<forall>v\<in>set (uvars C T). v < num_vars C" by (simp add: uvars_def)
  have "(\<exists>X\<in>rows ?B. \<forall>k\<in>X. x (uvars C T ! k) = ucols C T ! k) \<longleftrightarrow> x \<notin> lcov C T" if x: "point C x" for x
  proof -
    let ?K = "{k. k < ?n \<and> x (uvars C T ! k) = ucols C T ! k}"
    have XK: "(\<forall>k\<in>X. x (uvars C T ! k) = ucols C T ! k) \<longleftrightarrow> X \<subseteq> ?K" if "X \<in> rows ?B" for X
    proof -
      have "X \<subseteq> {..<?n}" using that wf_elem_less [OF wf_familyD(3) [OF R(1)]] by (auto simp: rows_def)
      then show ?thesis by auto
    qed
    have "(\<exists>X\<in>rows ?B. \<forall>k\<in>X. x (uvars C T ! k) = ucols C T ! k) \<longleftrightarrow> (\<exists>X\<in>rows ?B. X \<subseteq> ?K)" using XK by blast
    also have "\<dots> \<longleftrightarrow> hit_by (rows ?A) ?K" unfolding rr using transversalD [OF B(3)] A'(2) by simp
    also have "\<dots> \<longleftrightarrow> (\<forall>p\<in>set (cubes T). \<exists>k<?n. ucols C T ! k \<notin> elems p \<and> x (uvars C T ! k) = ucols C T ! k)"
      unfolding hit_by_def A(3) by auto
    also have "\<dots> \<longleftrightarrow> (\<forall>p\<in>set (cubes T). \<not> covers C (elems p \<union> elems (cof T)) x)"
    proof (rule ball_cong [OF refl])
      fix p assume p: "p \<in> set (cubes T)"
      show "(\<exists>k<?n. ucols C T ! k \<notin> elems p \<and> x (uvars C T ! k) = ucols C T ! k) \<longleftrightarrow> \<not> covers C (elems p \<union> elems (cof T)) x"
      proof
        assume "\<exists>k<?n. ucols C T ! k \<notin> elems p \<and> x (uvars C T ! k) = ucols C T ! k"
        then obtain k where k: "k < ?n" "x (uvars C T ! k) \<notin> elems p" "x (uvars C T ! k) = ucols C T ! k" by auto
        have "ucols C T ! k \<in> active_parts C T (uvars C T ! k)" using ucols_uvars(2) [OF C T un k(1)] by simp
        then have "x (uvars C T ! k) \<notin> elems (cof T)" unfolding k(3) by (auto simp: active_parts_def)
        then show "\<not> covers C (elems p \<union> elems (cof T)) x" using k(1,2) v by (auto simp: covers_def)
      next
        assume "\<not> covers C (elems p \<union> elems (cof T)) x"
        then obtain w where w: "w < num_vars C" "x w \<notin> elems p \<union> elems (cof T)" by (auto simp: covers_def)
        then have ap: "x w \<in> active_parts C T w" using p x by (auto simp: active_parts_def point_def)
        then have "card (active_parts C T w) \<noteq> 0" by auto
        then have "w \<in> set (uvars C T)" using un w(1) by (auto simp: uvars_def all_unate_def le_Suc_eq)
        then obtain k where k: "k < ?n" "uvars C T ! k = w" by (auto simp: in_set_conv_nth)
        then have "x w = ucols C T ! k" using ap ucols_uvars(2) [OF C T un k(1)] by simp
        then show "\<exists>k<?n. ucols C T ! k \<notin> elems p \<and> x (uvars C T ! k) = ucols C T ! k" using k w(2) by auto
      qed
    qed
    also have "\<dots> \<longleftrightarrow> x \<notin> lcov C T" using x by (auto simp: lcov_iff)
    finally show ?thesis .
  qed
  then have "onset C (map_unate_to_cover C mem ?B (massive_count C T)) = {x. point C x} - lcov C T"
    unfolding D(2) by auto
  then show ?thesis using uc D(1) by blast
qed

section \<open>Properties\<close>

definition minimal_hitting :: "nat set set \<Rightarrow> nat set set" where
  "minimal_hitting As = {S. hit_by As S \<and> (\<forall>S'. S' \<subset> S \<longrightarrow> \<not> hit_by As S')}"

lemma transversal_minimal:
  assumes "transversal As Bs" "finite Bs"
  shows "minimal_sets Bs = minimal_hitting As"
proof
  show "minimal_sets Bs \<subseteq> minimal_hitting As"
  proof
    fix S assume S: "S \<in> minimal_sets Bs"
    then have B: "S \<in> Bs" "\<forall>Y\<in>Bs. \<not> Y \<subset> S" by (auto simp: minimal_sets_def)
    have "hit_by As S" using transversalD [OF assms(1)] B(1) by blast
    moreover have "\<not> hit_by As S'" if "S' \<subset> S" for S'
    proof
      assume "hit_by As S'"
      then obtain X where "X \<in> Bs" "X \<subseteq> S'" using transversalD [OF assms(1)] by blast
      then show False using B(2) that by blast
    qed
    ultimately show "S \<in> minimal_hitting As" by (simp add: minimal_hitting_def)
  qed
  show "minimal_hitting As \<subseteq> minimal_sets Bs"
  proof
    fix S assume "S \<in> minimal_hitting As"
    then have S: "hit_by As S" "\<And>S'. S' \<subset> S \<Longrightarrow> \<not> hit_by As S'" by (auto simp: minimal_hitting_def)
    then obtain X where X: "X \<in> Bs" "X \<subseteq> S" using transversalD [OF assms(1)] by blast
    then have "hit_by As X" using transversalD [OF assms(1)] by blast
    then have "X = S" using S(2) X(2) by blast
    moreover have "\<not> Y \<subset> S" if "Y \<in> Bs" for Y using S(2) [of Y] transversalD [OF assms(1), of Y] that by blast
    ultimately show "S \<in> minimal_sets Bs" using X(1) by (auto simp: minimal_sets_def)
  qed
qed

text \<open>
  C4. Given fuel for every row and element, \<open>unate_compl\<close> returns exactly the
  minimal hitting sets of the family, as long as it has at most 1025 columns.
\<close>

theorem unate_compl_minimal:
  assumes "wf_family n A" "n \<le> 1025" "total_size A < k"
  shows "\<exists>B. unate_compl k mem A = Inr B \<and> wf_family n B \<and> elems ` set (data B) = minimal_hitting (elems ` set (data A))"
proof -
  let ?A' = "A\<lparr>data := map (\<lambda>p. PUTSIZE p (set_ord p)) (data A)\<rparr>"
  have f: "\<forall>p\<in>set (data A). wf_set n (PUTSIZE p (set_ord p)) \<and> elems (PUTSIZE p (set_ord p)) = elems p"
    using wf_familyD(3) [OF assms(1)] by simp
  note A' = map_rows [where g = "\<lambda>X. X", OF assms(1) f]
  have s: "sized_rows ?A'" using SIZE_put [OF wf_familyD(3) [OF assms(1)]] by (simp add: sized_rows_def)
  have "total_size ?A' = total_size A" by (simp add: total_size_def comp_def)
  then have "total_size ?A' < k" using assms(3) by simp
  from unate_complement_spec [OF A'(1) s assms(2) this] obtain B where B:
    "unate_complement k mem ?A' = Inr B" "wf_family n B" "transversal (rows ?A') (rows B)" by auto
  note R = sf_rev_contain_spec [OF B(2)]
  have t: "transversal (elems ` set (data A)) (elems ` set (data B))"
    using B(3) A'(2) unfolding rows_def by simp
  have "elems ` set (data (sf_rev_contain B)) = minimal_hitting (elems ` set (data A))"
    unfolding R(2) by (rule transversal_minimal [OF t]) simp
  moreover have "unate_compl k mem A = Inr (sf_rev_contain B)" using B(1) by (simp add: unate_compl_def)
  ultimately show ?thesis using R(1) by blast
qed

theorem unate_compl_minimal_witness:
  "\<exists>B. unate_compl 10 (\<lambda>_ _. 7) (cover_of 3 [[0, 1], [1, 2]]) = Inr B \<and> elems ` set (data B) = minimal_hitting {{0, 1}, {1, 2}}"
proof -
  have "total_size (cover_of 3 [[0, 1], [1, 2]]) < 10" by (simp add: total_size_def)
  then show ?thesis
    using unate_compl_minimal [of 3 "cover_of 3 [[0, 1], [1, 2]]" 10 "\<lambda>_ _. 7"] by auto
qed

text \<open>
  C39. The integer weights 1024 / (size - 1) are zero for every set of more than 1025
  elements: on a family of at least two sets that all are that large, no column is selected and the
  program exits with an error although the complement exists.
\<close>

theorem unate_compl_gives_up:
  assumes "wf_family n A" "2 \<le> cnt A" "\<forall>p\<in>set (data A). 1026 \<le> card (elems p)"
  shows "unate_compl (Suc k) mem A = Inl (Fatal ''abs_select_restricted: should not have best_var == -1'')"
proof -
  let ?A' = "A\<lparr>data := map (\<lambda>p. PUTSIZE p (set_ord p)) (data A)\<rparr>"
  have f: "\<forall>p\<in>set (data A). wf_set n (PUTSIZE p (set_ord p)) \<and> elems (PUTSIZE p (set_ord p)) = elems p"
    using wf_familyD(3) [OF assms(1)] by simp
  note A' = map_rows [where g = "\<lambda>X. X", OF assms(1) f]
  obtain r m where rm: "fold restrict_step (data ?A') (set_new (sf_size ?A'), sf_size ?A' + 1) = (r, m)"
    by (cases "fold restrict_step (data ?A') (set_new (sf_size ?A'), sf_size ?A' + 1)") auto
  have n: "sf_size ?A' = n" using assms(1) by (simp add: wf_family_def)
  have ne: "data A \<noteq> []" using assms(2) by auto
  have wn: "wf_set n (set_new n)" using wf_family_bound [OF assms(1) ne] by simp
  note R = restrict_fold [of _ n, OF _ wn rm [unfolded n]]
  have wA: "\<forall>p\<in>set (data ?A'). wf_set n p" using A'(1) by (simp add: wf_family_def)
  have sz: "SIZE p = card (elems p) \<and> 1026 \<le> card (elems p)" if "p \<in> set (data ?A')" for p
    using that assms(3) SIZE_put [OF wf_familyD(3) [OF assms(1)]] by auto
  have "1026 \<le> m"
  proof (cases "\<exists>p\<in>set (data ?A'). SIZE p = m")
    case True
    then obtain p where "p \<in> set (data ?A')" "SIZE p = m" by blast
    then show ?thesis using sz [of p] by simp
  next
    case False
    then have "m = n + 1" using R(5) [OF wA] by blast
    moreover obtain q where q: "q \<in> set (data A)" using ne by (cases "data A") auto
    have "card (elems q) \<le> card {..<n}"
      by (rule card_mono) (use wf_elem_less [OF wf_familyD(3) [OF assms(1) q]] in auto)
    then have "1026 \<le> n" using assms(3) q by fastforce
    ultimately show ?thesis by simp
  qed
  moreover have "abs_select_restricted ?A' r = Inl (Fatal ''abs_select_restricted: should not have best_var == -1'')"
    by (rule abs_select_restricted_spec(2) [OF A'(1) R(1) [OF wA]]) (use sz in fastforce)+
  moreover have "cnt ?A' \<noteq> 0" "cnt ?A' \<noteq> 1" using assms(2) by auto
  ultimately have "unate_complement (Suc k) mem ?A' = Inl (Fatal ''abs_select_restricted: should not have best_var == -1'')"
    unfolding unate_complement.simps(2) rm Let_def prod.case by (simp del: set_family.simps)
  then show ?thesis by (simp add: unate_compl_def)
qed

theorem unate_compl_gives_up_witness:
  "unate_compl 5 (\<lambda>_ _. 0) ((sf_new 2 2000)\<lparr>data := [set_full 2000, set_full 2000]\<rparr>)
    = Inl (Fatal ''abs_select_restricted: should not have best_var == -1'')"
  using unate_compl_gives_up [of 2000 "(sf_new 2 2000)\<lparr>data := [set_full 2000, set_full 2000]\<rparr>" 4 "\<lambda>_ _. 0"]
  by (simp add: wf_family_def)

text \<open>
  C5. For a cube structure of at most 1025 variables: when every active variable of a cubelist has a
  single active part, mapping the cubelist to its matrix, complementing the matrix (with enough fuel) and mapping back gives a cover
  of exactly the points that the cubelist does not cover. (Beyond 1025 variables the complement of the matrix may give up.)
\<close>

theorem unate_cover_complement:
  assumes "wf_cube C" "wf_list C T" "num_vars C \<le> 1025" "length (cubes T) * (num_vars C + 1) < k"
    and "vars_unate (massive_count C T) = vars_active (massive_count C T)"
  shows "\<exists>A. unate_compl k mem (map_cover_to_unate C mem T (massive_count C T)) = Inr A
    \<and> is_cover C (map_unate_to_cover C mem A (massive_count C T))
    \<and> onset C (map_unate_to_cover C mem A (massive_count C T)) = {x. point C x} - lcov C T"
  by (rule unate_leaf [OF assms(1,2,5,3,4)])

theorem unate_cover_complement_witness:
  "\<exists>A. unate_compl 9 (\<lambda>_ _. 0) (map_cover_to_unate demo_cube (\<lambda>_ _. 0)
       (cube1list demo_cube (cover_of 7 [[1, 2, 3, 4, 5, 6], [0, 1, 3, 4, 5, 6]]))
       (massive_count demo_cube (cube1list demo_cube (cover_of 7 [[1, 2, 3, 4, 5, 6], [0, 1, 3, 4, 5, 6]])))) = Inr A"
proof -
  define T where "T = cube1list demo_cube (cover_of 7 [[1, 2, 3, 4, 5, 6], [0, 1, 3, 4, 5, 6]])"
  have w: "wf_list demo_cube T" unfolding T_def by (rule cube1list_wf) simp_all
  have ap: "active_parts demo_cube T 0 = {0}" "active_parts demo_cube T (Suc 0) = {2}" "active_parts demo_cube T 2 = {}"
    unfolding T_def by (auto simp: active_parts_def cube1list_def new_cube_def)
  have "{v. v < num_vars demo_cube \<and> card (active_parts demo_cube T v) = 1} = {v. v < num_vars demo_cube \<and> active_parts demo_cube T v \<noteq> {}}"
    by (auto simp: less_3_cases ap)
  then have "vars_unate (massive_count demo_cube T) = vars_active (massive_count demo_cube T)"
    using massive_count_spec(6,7) [OF demo_cube(1) w] by simp
  moreover have "length (cubes T) = 2" unfolding T_def by (simp add: cube1list_def)
  ultimately show ?thesis using unate_cover_complement [of demo_cube T 9 "\<lambda>_ _. 0"] w unfolding T_def [symmetric] by auto
qed

end
