(* ===== verification/Compl.thy ===== *)
theory Compl
  imports Unate
begin

text \<open>
  Complement and simplification by the unate recursive paradigm (\<^verbatim>\<open>compl.c\<close>): special cases,
  split on the most active variable, recursion on both cofactors, and a merge of the two
  results around the splitting variable.

  Recursions take fuel \<open>k\<close>; the fuel \<open>u\<close> is for the unate leaves.  Both bounds are in the theorems:
  one step for every part not yet cofactored, and the size of the largest matrix.
\<close>

section \<open>Definitions\<close>

definition compl_cube :: "cube_struct \<Rightarrow> memory \<Rightarrow> pset \<Rightarrow> set_family" where
  "compl_cube C mem p =
     (let diff = set_diff (new_cube C) (fullset C) p
      in fold (\<lambda>var R.
           if \<not> setp_disjoint diff (var_mask C ! var)
           then sf_push R (set_merge (sf_fresh mem R) diff (fullset C) (var_mask C ! var)) else R)
         [0..<num_vars C] (new_cover C (num_vars C)))"

text \<open>Both arrays are sorted by \<open>d1_order\<close>; a cube of the right one equal to the current left one is absorbed.\<close>

function compl_d1merge :: "pset \<Rightarrow> sptr list \<Rightarrow> sptr list \<Rightarrow> sptr list \<times> sptr list" where
  "compl_d1merge msk [] rs = ([], rs)"
| "compl_d1merge msk (l # ls) [] = (l # ls, [])"
| "compl_d1merge msk (l # ls) (r # rs) =
     (let c = ptr_cmp (d1_order msk) l r in
      if c = 1 then (let (A, B) = compl_d1merge msk (l # ls) rs in (A, r # B))
      else if c = - 1 then (let (A, B) = compl_d1merge msk ls (r # rs) in (l # A, B))
      else (let (A, B) = compl_d1merge msk ((fst l, set_or (snd l) (snd l) (snd r)) # ls) rs
            in (A, (fst r, RESET (snd r) ACTIVE) # B)))"
  by pat_completeness auto
termination
  by (relation "measure (\<lambda>(m, a, b). length a + length b)") auto

definition compl_lift :: "cube_struct \<Rightarrow> sptr list \<Rightarrow> sptr list \<Rightarrow> pset \<Rightarrow> nat \<Rightarrow> sptr list" where
  "compl_lift C A1 B1 bcube var =
     (let liftor = set_and (new_cube C) bcube (var_mask C ! var)
      in map (\<lambda>a.
           if TESTP (snd a) ACTIVE then
             (let lift = set_merge (new_cube C) bcube (snd a) (var_mask C ! var)
              in if list_ex (\<lambda>b. setp_implies lift (snd b)) B1
                 then (fst a, set_or (snd a) (snd a) liftor) else a)
           else a) A1)"

definition compl_lift_onset :: "cube_struct \<Rightarrow> sptr list \<Rightarrow> set_family \<Rightarrow> pset \<Rightarrow> nat \<Rightarrow> sptr list" where
  "compl_lift_onset C A1 T bcube var =
     map (\<lambda>a.
       if TESTP (snd a) ACTIVE then
         (let lift = set_and (new_cube C) bcube (var_mask C ! var);
              lift = set_or lift (snd a) lift
          in if list_ex (\<lambda>p. cdist0 C p lift) (data T) then a
             else (fst a, SET (set_copy (snd a) lift) ACTIVE))
       else a) A1"

text \<open>
  \<^verbatim>\<open>compl_lift_onset_complex\<close> frees its work cube inside the loop; \<open>xlower\<close> is
  \<open>None\<close> from then on.
\<close>

fun force_lowers :: "cube_struct \<Rightarrow> pset \<Rightarrow> pset \<Rightarrow> pset list \<Rightarrow> pset res" where
  "force_lowers C a xlower [] = Inr xlower"
| "force_lowers C a xlower (p # ps) =
     (let dist = cdist01 C p a in
      if dist < 2 then
        (if dist = 0 then Inl (Fatal ''compl: ON-set and OFF-set are not orthogonal'')
         else force_lowers C a (force_lower C xlower p a) ps)
      else force_lowers C a xlower ps)"

fun compl_lift_onset_complex ::
  "cube_struct \<Rightarrow> pset option \<Rightarrow> sptr list \<Rightarrow> set_family \<Rightarrow> nat \<Rightarrow> sptr list res" where
  "compl_lift_onset_complex C xlower [] T var = Inr []"
| "compl_lift_onset_complex C xlower (a # A1) T var =
     (if TESTP (snd a) ACTIVE then
        (case xlower of
           None \<Rightarrow> Inl Freed
         | Some xlower \<Rightarrow>
             rbind (force_lowers C (snd a) (set_clear xlower (cube_size C)) (data T)) (\<lambda>xlower.
               let xlower = set_diff xlower (var_mask C ! var) xlower
               in rmap ((#) (fst a, set_or (snd a) (snd a) xlower))
                    (compl_lift_onset_complex C None A1 T var)))
      else rmap ((#) a) (compl_lift_onset_complex C xlower A1 T var))"

text \<open>The changes made through the pointers of an array, seen in the family it points into.\<close>

definition write_back :: "sptr list \<Rightarrow> set_family \<Rightarrow> set_family" where
  "write_back A1 A = A\<lparr>data := fold (\<lambda>p D. D[fst p := snd p]) A1 (data A)\<rparr>"

datatype lifting = USE_COMPL_LIFT | USE_COMPL_LIFT_ONSET | USE_COMPL_LIFT_ONSET_COMPLEX | NO_LIFTING

definition compl_merge ::
  "cube_struct \<Rightarrow> memory \<Rightarrow> cubelist \<Rightarrow> set_family \<Rightarrow> set_family \<Rightarrow> pset \<Rightarrow> pset \<Rightarrow> nat \<Rightarrow> lifting \<Rightarrow> set_family res" where
  "compl_merge C mem T1 L R cl cr var lift =
     (let L = L\<lparr>data := map (\<lambda>p. SET (set_and p p cl) ACTIVE) (data L)\<rparr>;
          R = R\<lparr>data := map (\<lambda>p. SET (set_and p p cr) ACTIVE) (data R)\<rparr>;
          msk = var_mask C ! var;
          L1 = qsort (ptr_cmp (d1_order msk)) (sf_list L);
          R1 = qsort (ptr_cmp (d1_order msk)) (sf_list R);
          (L1, R1) = compl_d1merge msk L1 R1
      in rbind
          (case lift of
             USE_COMPL_LIFT_ONSET \<Rightarrow>
               (let T = cubeunlist C mem T1;
                    L1 = compl_lift_onset C L1 T cr var
                in Inr (L1, compl_lift_onset C R1 T cl var))
           | USE_COMPL_LIFT_ONSET_COMPLEX \<Rightarrow>
               (let T = cubeunlist C mem T1
                in rbind (compl_lift_onset_complex C (Some (new_cube C)) L1 T var) (\<lambda>L1.
                   rmap (Pair L1) (compl_lift_onset_complex C (Some (new_cube C)) R1 T var)))
           | USE_COMPL_LIFT \<Rightarrow>
               (let L1 = compl_lift C L1 R1 cr var
                in Inr (L1, compl_lift C R1 L1 cl var))
           | NO_LIFTING \<Rightarrow> Inr (L1, R1))
          (\<lambda>(L1, R1).
             let L = write_back L1 L; R = write_back R1 R;
                 Tbar = new_cover C (cnt L + cnt R);
                 copy = set_copy (replicate (SET_SIZE (cube_size C)) 0)
             in Inr (Tbar\<lparr>data := map copy (data L) @ map copy (filter (\<lambda>p. TESTP p ACTIVE) (data R))\<rparr>)))"

text \<open>
  What the special cases return: \<^verbatim>\<open>TRUE\<close> with the answer, or \<^verbatim>\<open>MAYBE\<close>, which leaves the
  counts in \<^verbatim>\<open>cdata\<close>.
\<close>

datatype 'a special = Done 'a | Maybe cdata_struct

definition compl_special_cases ::
  "(cubelist \<Rightarrow> set_family res) \<Rightarrow> nat \<Rightarrow> cube_struct \<Rightarrow> memory \<Rightarrow> cubelist \<Rightarrow> set_family special res" where
  "compl_special_cases rec u C mem T =
     (case cubes T of
        [] \<Rightarrow> Inr (Done (sf_addset mem (new_cover C 1) (fullset C)))
      | [p] \<Rightarrow> Inr (Done (compl_cube C mem (set_or (cof T) (cof T) p)))
      | _ \<Rightarrow>
        (if list_ex (\<lambda>p. full_row C p (cof T)) (cubes T) then Inr (Done (new_cover C 0))
         else
           (let ceil = fold (\<lambda>p ceil. set_or ceil ceil p) (cubes T) (set_save (cof T)) in
            if \<not> setp_equal ceil (fullset C) then
              (let ceil_compl = compl_cube C mem ceil;
                   ceil = set_diff ceil (fullset C) ceil
               in rbind (rec (T\<lparr>cof := set_or (cof T) (cof T) ceil\<rparr>)) (\<lambda>A. rmap Done (sf_append A ceil_compl)))
            else
              (let cd = massive_count C T in
               if vars_active cd = 1 then Inr (Done (new_cover C 0))
               else if vars_unate cd = vars_active cd then
                 rmap (\<lambda>A. Done (map_unate_to_cover C mem A cd))
                   (unate_compl u mem (map_cover_to_unate C mem T cd))
               else Inr (Maybe cd)))))"

fun complement :: "nat \<Rightarrow> nat \<Rightarrow> cube_struct \<Rightarrow> memory \<Rightarrow> cubelist \<Rightarrow> set_family res" where
  "complement 0 u C mem T = Inl Nofuel"
| "complement (Suc k) u C mem T =
     rbind (compl_special_cases (complement k u C mem) u C mem T) (\<lambda>s.
       case s of
         Done Tbar \<Rightarrow> Inr Tbar
       | Maybe cd \<Rightarrow>
           (let (cl, cr, best) = binate_split_select C T cd (new_cube C) (new_cube C)
            in rbind (complement k u C mem (scofactor C T cl best None)) (\<lambda>Tl.
               rbind (complement k u C mem (scofactor C T cr best None)) (\<lambda>Tr.
                 let lift = (if cnt Tr * cnt Tl > (cnt Tr + cnt Tl) * CUBELISTSIZE T
                             then USE_COMPL_LIFT_ONSET else USE_COMPL_LIFT)
                 in compl_merge C mem T Tl Tr cl cr best lift))))"

definition simplify_special_cases ::
  "(cubelist \<Rightarrow> set_family res) \<Rightarrow> cube_struct \<Rightarrow> memory \<Rightarrow> cubelist \<Rightarrow> set_family special res" where
  "simplify_special_cases rec C mem T =
     (case cubes T of
        [] \<Rightarrow> Inr (Done (new_cover C 0))
      | [p] \<Rightarrow> Inr (Done (sf_addset mem (new_cover C 1) (set_or (cof T) (cof T) p)))
      | _ \<Rightarrow>
        (if list_ex (\<lambda>p. full_row C p (cof T)) (cubes T)
         then Inr (Done (sf_addset mem (new_cover C 1) (fullset C)))
         else
           (let ceil = fold (\<lambda>p ceil. set_or ceil ceil p) (cubes T) (set_save (cof T)) in
            if \<not> setp_equal ceil (fullset C) then
              (let p = set_diff (new_cube C) (fullset C) ceil
               in rmap (\<lambda>A. Done (A\<lparr>data := map (\<lambda>p. set_and p p ceil) (data A)\<rparr>))
                    (rec (T\<lparr>cof := set_or (cof T) (cof T) p\<rparr>)))
            else
              (let cd = massive_count C T in
               if vars_active cd = 1 then Inr (Done (sf_addset mem (new_cover C 1) (fullset C)))
               else if vars_unate cd = vars_active cd then Inr (Done (sf_contain (cubeunlist C mem T)))
               else Inr (Maybe cd)))))"

fun simplify :: "nat \<Rightarrow> cube_struct \<Rightarrow> memory \<Rightarrow> cubelist \<Rightarrow> set_family res" where
  "simplify 0 C mem T = Inl Nofuel"
| "simplify (Suc k) C mem T =
     rbind (simplify_special_cases (simplify k C mem) C mem T) (\<lambda>s.
       case s of
         Done Tbar \<Rightarrow> Inr Tbar
       | Maybe cd \<Rightarrow>
           (let (cl, cr, best) = binate_split_select C T cd (new_cube C) (new_cube C)
            in rbind (simplify k C mem (scofactor C T cl best None)) (\<lambda>Tl.
               rbind (simplify k C mem (scofactor C T cr best None)) (\<lambda>Tr.
               rbind (compl_merge C mem T Tl Tr cl cr best USE_COMPL_LIFT) (\<lambda>Tbar.
                 Inr (if cnt Tbar > CUBELISTSIZE T then cubeunlist C mem T else Tbar))))))"

definition simp_comp_special_cases ::
  "(cubelist \<Rightarrow> (set_family \<times> set_family) res) \<Rightarrow> nat \<Rightarrow> cube_struct \<Rightarrow> memory \<Rightarrow> cubelist \<Rightarrow>
   (set_family \<times> set_family) special res" where
  "simp_comp_special_cases rec u C mem T =
     (case cubes T of
        [] \<Rightarrow> Inr (Done (new_cover C 1, sf_addset mem (new_cover C 1) (fullset C)))
      | [p] \<Rightarrow>
        (let cf = set_or (cof T) (cof T) p
         in Inr (Done (sf_addset mem (new_cover C 1) cf, compl_cube C mem cf)))
      | _ \<Rightarrow>
        (if list_ex (\<lambda>p. full_row C p (cof T)) (cubes T)
         then Inr (Done (sf_addset mem (new_cover C 1) (fullset C), new_cover C 1))
         else
           (let ceil = fold (\<lambda>p ceil. set_or ceil ceil p) (cubes T) (set_save (cof T)) in
            if \<not> setp_equal ceil (fullset C) then
              (let p = set_diff (new_cube C) (fullset C) ceil
               in rbind (rec (T\<lparr>cof := set_or (cof T) (cof T) p\<rparr>)) (\<lambda>(A, B).
                    rmap (\<lambda>B. Done (A\<lparr>data := map (\<lambda>p. set_and p p ceil) (data A)\<rparr>, B))
                      (sf_append B (compl_cube C mem ceil))))
            else
              (let cd = massive_count C T in
               if vars_active cd = 1
               then Inr (Done (sf_addset mem (new_cover C 1) (fullset C), new_cover C 1))
               else if vars_unate cd = vars_active cd then
                 rmap (\<lambda>A. Done (sf_contain (cubeunlist C mem T), map_unate_to_cover C mem A cd))
                   (unate_compl u mem (map_cover_to_unate C mem T cd))
               else Inr (Maybe cd)))))"

fun simp_comp :: "nat \<Rightarrow> nat \<Rightarrow> cube_struct \<Rightarrow> memory \<Rightarrow> cubelist \<Rightarrow> (set_family \<times> set_family) res" where
  "simp_comp 0 u C mem T = Inl Nofuel"
| "simp_comp (Suc k) u C mem T =
     rbind (simp_comp_special_cases (simp_comp k u C mem) u C mem T) (\<lambda>s.
       case s of
         Done r \<Rightarrow> Inr r
       | Maybe cd \<Rightarrow>
           (let (cl, cr, best) = binate_split_select C T cd (new_cube C) (new_cube C)
            in rbind (simp_comp k u C mem (scofactor C T cl best None)) (\<lambda>(Tl, Tlbar).
               rbind (simp_comp k u C mem (scofactor C T cr best None)) (\<lambda>(Tr, Trbar).
               rbind (compl_merge C mem T Tl Tr cl cr best USE_COMPL_LIFT) (\<lambda>Tnew.
               rbind (compl_merge C mem T Tlbar Trbar cl cr best USE_COMPL_LIFT) (\<lambda>Tbar.
                 Inr (if cnt Tnew > CUBELISTSIZE T then cubeunlist C mem T else Tnew, Tbar)))))))"

section \<open>Single cubes and flags\<close>

lemma new_cube_length [simp]: "length (new_cube C) = SET_SIZE (cube_size C)"
  by (simp add: new_cube_def)

lemma new_cover_simps [simp]:
  "is_cover C (new_cover C k)" "data (new_cover C k) = []" "capacity (new_cover C k) = k"
  "sf_size (new_cover C k) = cube_size C" "wsize (new_cover C k) = SET_SIZE (cube_size C)"
  by (simp_all add: new_cover_def)

lemma PUTLOOP_same: "a \<noteq> [] \<Longrightarrow> PUTLOOP a (LOOP a) = a"
proof -
  have u: "word_of_nat (unat y) = y" for y :: u32 by simp
  have "(w AND NOT 0x3FF) OR word_of_nat (unat (take_bit 10 w)) = w" for w :: u32
    unfolding u by (rule bit_word_eqI)
      (auto simp only: bit_and_iff bit_or_iff bit_not_iff bit_take_bit_iff possible_bit_word bit_3FF)
  then show "a \<noteq> [] \<Longrightarrow> PUTLOOP a (LOOP a) = a" by (cases a) (simp_all add: PUTLOOP_def LOOP_eq)
qed

lemma TESTP_or_self: "wf_set n a \<Longrightarrow> TESTP (set_or a a b) f = TESTP a f"
proof -
  assume a: "wf_set n a"
  then have "1 \<le> LOOP a" using wf_LOOP [OF a] by simp
  then have "set_or a a b ! 0 = a ! 0"
    unfolding set_or_def Let_def PUTLOOP_same [OF wf_nonempty [OF a]] by (rule nth_upd_down_0)
  then show ?thesis by (simp add: TESTP_def)
qed

lemma cmp_down_range: "cmp_down f g n \<in> {- 1, 0, 1}"
  by (induction f g n rule: cmp_down.induct) auto

lemma setp_full_cube: "wf_cube C \<Longrightarrow> is_cube C p \<Longrightarrow> setp_equal p (fullset C) \<longleftrightarrow> elems p = {..<cube_size C}"
  using setp_equal_iff [OF _ wf_cubeD(3)] wf_cubeD(4) by blast

lemma compl_cube_spec:
  assumes C: "wf_cube C" and p: "is_cube C p"
  shows "is_cover C (compl_cube C mem p)"
    "onset C (compl_cube C mem p) = {x. point C x \<and> \<not> covers C (elems p) x}"
proof -
  note L = wf_cubeD(1) [OF C]
  let ?d = "set_diff (new_cube C) (fullset C) p"
  have d: "is_cube C ?d" "elems ?d = {..<cube_size C} - elems p"
    using binops_wf(3) [OF wf_cubeD(3) [OF C] p new_cube_length] binops_elems(3) [OF wf_cubeD(3) [OF C] p new_cube_length]
      wf_cubeD(4) [OF C] by simp_all
  let ?row = "\<lambda>v. (elems ?d \<inter> vparts C v) \<union> ({..<cube_size C} - vparts C v)"
  let ?step = "\<lambda>var R. if \<not> setp_disjoint ?d (var_mask C ! var)
           then sf_push R (set_merge (sf_fresh mem R) ?d (fullset C) (var_mask C ! var)) else R"
  have "is_cover C (fold ?step vs R) \<and>
      elems ` set (data (fold ?step vs R)) = elems ` set (data R) \<union> ?row ` {v \<in> set vs. elems ?d \<inter> vparts C v \<noteq> {}}"
    if "is_cover C R" "cnt R + length vs \<le> capacity R" "\<forall>v\<in>set vs. v < num_vars C" for vs R
    using that
  proof (induction vs arbitrary: R)
    case (Cons v vs)
    have v: "v < num_vars C" using Cons.prems(3) by simp
    have m: "is_cube C (var_mask C ! v)" "elems (var_mask C ! v) = vparts C v" using C v by simp_all
    have dis: "setp_disjoint ?d (var_mask C ! v) \<longleftrightarrow> elems ?d \<inter> vparts C v = {}"
      using setp_disjoint_iff [OF d(1) m(1)] m(2) by simp
    have l: "length (sf_fresh mem R) = SET_SIZE (cube_size C)" using Cons.prems(1) by (simp add: wf_family_def)
    have w: "is_cube C (set_merge (sf_fresh mem R) ?d (fullset C) (var_mask C ! v))"
      "elems (set_merge (sf_fresh mem R) ?d (fullset C) (var_mask C ! v)) = ?row v"
      using binops_wf(5) [OF d(1) wf_cubeD(3) [OF C] l m(1)] binops_elems(5) [OF d(1) wf_cubeD(3) [OF C] l m(1)]
        wf_cubeD(4) [OF C] m(2) by simp_all
    have "is_cover C (?step v R)" using wf_sf_push [OF Cons.prems(1) w(1)] Cons.prems(1,2) by simp
    moreover have "elems ` set (data (?step v R)) = elems ` set (data R) \<union> (if elems ?d \<inter> vparts C v \<noteq> {} then {?row v} else {})"
      using dis w(2) by simp
    moreover have "cnt (?step v R) + length vs \<le> capacity (?step v R)" using Cons.prems(2) by simp
    moreover have "\<forall>v\<in>set vs. v < num_vars C" using Cons.prems(3) by simp
    moreover note Cons.IH [of "?step v R"]
    ultimately have "is_cover C (fold ?step vs (?step v R)) \<and>
      elems ` set (data (fold ?step vs (?step v R))) = (elems ` set (data R) \<union> (if elems ?d \<inter> vparts C v \<noteq> {} then {?row v} else {}))
        \<union> ?row ` {v \<in> set vs. elems ?d \<inter> vparts C v \<noteq> {}}" by simp
    moreover have "?row ` {u \<in> set (v # vs). elems ?d \<inter> vparts C u \<noteq> {}} =
        (if elems ?d \<inter> vparts C v \<noteq> {} then {?row v} else {}) \<union> ?row ` {u \<in> set vs. elems ?d \<inter> vparts C u \<noteq> {}}" by auto
    ultimately show ?case by (simp only: fold.simps comp_def Un_assoc)
  qed simp
  note F = this [of "new_cover C (num_vars C)" "[0..<num_vars C]"]
  have R: "is_cover C (compl_cube C mem p)"
    "elems ` set (data (compl_cube C mem p)) = ?row ` {v. v < num_vars C \<and> elems ?d \<inter> vparts C v \<noteq> {}}"
    using F unfolding compl_cube_def Let_def by simp_all
  show "is_cover C (compl_cube C mem p)" by (rule R(1))
  have "(\<exists>v<num_vars C. elems ?d \<inter> vparts C v \<noteq> {} \<and> covers C (?row v) x) \<longleftrightarrow> \<not> covers C (elems p) x" if x: "point C x" for x
  proof -
    have xv: "x v \<in> vparts C v" "x v < cube_size C" if "v < num_vars C" for v
      using x that vparts_less [OF L that] by (auto simp: point_def)
    have row: "covers C (?row v) x \<longleftrightarrow> x v \<notin> elems p" if v: "v < num_vars C" for v
    proof -
      have "x u \<in> ?row v \<longleftrightarrow> (u = v \<longrightarrow> x v \<notin> elems p)" if u: "u < num_vars C" for u
        using xv [OF u] xv [OF v] vparts_disjoint [OF L u v xv(1) [OF u]] d(2) by (cases "u = v") auto
      then show ?thesis using v by (auto simp: covers_def)
    qed
    have "elems ?d \<inter> vparts C v \<noteq> {}" if "v < num_vars C" "x v \<notin> elems p" for v
      using xv [OF that(1)] that(2) d(2) by blast
    moreover have "\<not> covers C (elems p) x \<longleftrightarrow> (\<exists>v<num_vars C. x v \<notin> elems p)" by (auto simp: covers_def)
    ultimately show ?thesis using row by blast
  qed
  then show "onset C (compl_cube C mem p) = {x. point C x \<and> \<not> covers C (elems p) x}"
    unfolding cov_def R(2) by auto
qed

section \<open>Merging around the splitting variable\<close>

text \<open>The points of an array of pointers, and its active entries.\<close>

definition pcov :: "cube_struct \<Rightarrow> sptr list \<Rightarrow> (nat \<Rightarrow> nat) set" where
  "pcov C xs = cov C ((\<lambda>p. elems (snd p)) ` set xs)"

definition act :: "sptr list \<Rightarrow> sptr list" where
  "act xs = filter (\<lambda>p. TESTP (snd p) ACTIVE) xs"

lemma pcov_simps [simp]:
  "pcov C [] = {}" "pcov C (xs @ ys) = pcov C xs \<union> pcov C ys"
  "act [] = []" "act (p # xs) = (if TESTP (snd p) ACTIVE then p # act xs else act xs)"
  by (simp_all add: pcov_def act_def image_Un)

lemma pcov_Cons: "pcov C (p # xs) = cov C {elems (snd p)} \<union> pcov C xs"
  unfolding pcov_def list.set image_insert by (rule cov_insert)

lemma compl_d1merge_spec:
  assumes C: "wf_cube C" and v: "v < num_vars C"
    and w: "wf_ptrs (cube_size C) ls" "wf_ptrs (cube_size C) rs" "\<forall>r\<in>set rs. TESTP (snd r) ACTIVE"
    and AB: "compl_d1merge (var_mask C ! v) ls rs = (A, B)"
  shows "wf_ptrs (cube_size C) A" "wf_ptrs (cube_size C) B" "map fst A = map fst ls" "map fst B = map fst rs"
    "map (\<lambda>p. elems (snd p)) B = map (\<lambda>p. elems (snd p)) rs"
    "pcov C A \<union> pcov C (act B) = pcov C ls \<union> pcov C rs" "pcov C ls \<subseteq> pcov C A"
proof -
  let ?m = "var_mask C ! v" and ?n = "cube_size C"
  have m: "wf_set ?n ?m" "elems ?m = vparts C v" using C v by simp_all
  have "wf_ptrs ?n A \<and> wf_ptrs ?n B \<and> map fst A = map fst ls \<and> map fst B = map fst rs \<and>
    map (\<lambda>p. elems (snd p)) B = map (\<lambda>p. elems (snd p)) rs \<and>
    pcov C A \<union> pcov C (act B) = pcov C ls \<union> pcov C rs \<and> pcov C ls \<subseteq> pcov C A"
    using w AB
  proof (induction "var_mask C ! v" ls rs arbitrary: A B rule: compl_d1merge.induct)
    case (1 rs)
    moreover have "act rs = rs" using "1.prems"(3) by (simp add: act_def)
    ultimately show ?case by auto
  next
    case (2 l ls)
    then show ?case by auto
  next
    case (3 l ls r rs)
    let ?c = "ptr_cmp (d1_order ?m) l r"
    have lr: "wf_set ?n (snd l)" "wf_set ?n (snd r)" "TESTP (snd r) ACTIVE" using "3.prems" by simp_all
    have "?c \<in> {- 1, 0, 1}" unfolding ptr_cmp_def d1_order_def by (rule cmp_down_range)
    then consider "?c = 1" | "?c = - 1" | "?c = 0" by blast
    then show ?case
    proof cases
      case c: 1
      obtain A' B' where r: "compl_d1merge ?m (l # ls) rs = (A', B')" by (cases "compl_d1merge ?m (l # ls) rs")
      have AB: "A = A'" "B = r # B'" using "3.prems"(4) c r by auto
      have "wf_ptrs ?n A' \<and> wf_ptrs ?n B' \<and> map fst A' = map fst (l # ls) \<and> map fst B' = map fst rs \<and>
        map (\<lambda>p. elems (snd p)) B' = map (\<lambda>p. elems (snd p)) rs \<and>
        pcov C A' \<union> pcov C (act B') = pcov C (l # ls) \<union> pcov C rs \<and> pcov C (l # ls) \<subseteq> pcov C A'"
        using "3.hyps"(1) [OF refl c _ _ _ r] "3.prems"(1-3) by simp
      then show ?thesis unfolding AB using lr by (auto simp: pcov_Cons [of C r])
    next
      case c: 2
      then have n: "?c \<noteq> 1" by simp
      obtain A' B' where r: "compl_d1merge ?m ls (r # rs) = (A', B')" by (cases "compl_d1merge ?m ls (r # rs)")
      have AB: "A = l # A'" "B = B'" using "3.prems"(4) c r by auto
      have "wf_ptrs ?n A' \<and> wf_ptrs ?n B' \<and> map fst A' = map fst ls \<and> map fst B' = map fst (r # rs) \<and>
        map (\<lambda>p. elems (snd p)) B' = map (\<lambda>p. elems (snd p)) (r # rs) \<and>
        pcov C A' \<union> pcov C (act B') = pcov C ls \<union> pcov C (r # rs) \<and> pcov C ls \<subseteq> pcov C A'"
        using "3.hyps"(2) [OF refl n c _ _ _ r] "3.prems"(1-3) by simp
      then show ?thesis unfolding AB using lr by (auto simp: pcov_Cons [of C l])
    next
      case c: 3
      then have n: "?c \<noteq> 1" "?c \<noteq> - 1" by simp_all
      let ?l = "(fst l, set_or (snd l) (snd l) (snd r))"
      have o: "wf_set ?n (snd ?l)" "elems (snd ?l) = elems (snd l) \<union> elems (snd r)"
        using lr by (simp_all add: binops_wf binops_elems wf_length)
      have key: "elems (snd l) \<union> vparts C v = elems (snd r) \<union> vparts C v"
        using d1_order_0 [OF lr(1,2) m(1)] c m(2) by (simp add: ptr_cmp_def)
      have cv: "cov C {elems (snd ?l)} = cov C {elems (snd l)} \<union> cov C {elems (snd r)}"
        unfolding o(2) by (rule cov_merge_var [OF C v key])
      obtain A' B' where r: "compl_d1merge ?m (?l # ls) rs = (A', B')" by (cases "compl_d1merge ?m (?l # ls) rs")
      have AB: "A = A'" "B = (fst r, RESET (snd r) ACTIVE) # B'" using "3.prems"(4) c r by auto
      have I: "wf_ptrs ?n A' \<and> wf_ptrs ?n B' \<and> map fst A' = map fst (?l # ls) \<and> map fst B' = map fst rs \<and>
        map (\<lambda>p. elems (snd p)) B' = map (\<lambda>p. elems (snd p)) rs \<and>
        pcov C A' \<union> pcov C (act B') = pcov C (?l # ls) \<union> pcov C rs \<and> pcov C (?l # ls) \<subseteq> pcov C A'"
        using "3.hyps"(3) [OF refl n _ _ _ r] "3.prems"(1-3) o(1) by simp
      have pl: "pcov C (?l # ls) = pcov C (l # ls) \<union> cov C {elems (snd r)}"
        unfolding pcov_Cons cv by blast
      have ne: "snd r \<noteq> []" by (rule wf_nonempty [OF lr(2)])
      then have "act B = act B'" unfolding AB by simp
      moreover have "pcov C A' \<union> pcov C (act B') = pcov C (l # ls) \<union> pcov C (r # rs)"
        using I unfolding pl pcov_Cons [of C r] by blast
      ultimately show ?thesis unfolding AB using I lr(2) unfolding pl by simp
    qed
  qed
  then show "wf_ptrs (cube_size C) A" "wf_ptrs (cube_size C) B" "map fst A = map fst ls" "map fst B = map fst rs"
    "map (\<lambda>p. elems (snd p)) B = map (\<lambda>p. elems (snd p)) rs"
    "pcov C A \<union> pcov C (act B) = pcov C ls \<union> pcov C rs" "pcov C ls \<subseteq> pcov C A" by blast+
qed

text \<open>A lift raises parts of some cubes without covering points outside \<open>X\<close>.\<close>

definition lifts :: "cube_struct \<Rightarrow> (nat \<Rightarrow> nat) set \<Rightarrow> (sptr \<Rightarrow> sptr) \<Rightarrow> sptr list \<Rightarrow> bool" where
  "lifts C X f xs \<longleftrightarrow> (\<forall>a\<in>set xs. fst (f a) = fst a \<and> is_cube C (snd (f a)) \<and> TESTP (snd (f a)) ACTIVE = TESTP (snd a) ACTIVE
     \<and> elems (snd a) \<subseteq> elems (snd (f a)) \<and> cov C {elems (snd (f a))} \<subseteq> cov C {elems (snd a)} \<union> X)"

lemma lifts_map:
  assumes "lifts C X f xs"
  shows "wf_ptrs (cube_size C) (map f xs)" "map fst (map f xs) = map fst xs"
    "pcov C xs \<subseteq> pcov C (map f xs)" "pcov C (map f xs) \<subseteq> pcov C xs \<union> X"
    "pcov C (act xs) \<subseteq> pcov C (act (map f xs))" "pcov C (act (map f xs)) \<subseteq> pcov C (act xs) \<union> X"
proof -
  have "wf_ptrs (cube_size C) (map f xs) \<and> map fst (map f xs) = map fst xs \<and>
    pcov C xs \<subseteq> pcov C (map f xs) \<and> pcov C (map f xs) \<subseteq> pcov C xs \<union> X \<and>
    pcov C (act xs) \<subseteq> pcov C (act (map f xs)) \<and> pcov C (act (map f xs)) \<subseteq> pcov C (act xs) \<union> X"
    using assms
  proof (induction xs)
    case (Cons a xs)
    have "lifts C X f xs" using Cons.prems by (simp add: lifts_def)
    note IH = Cons.IH [OF this]
    have a: "fst (f a) = fst a" "is_cube C (snd (f a))" "TESTP (snd (f a)) ACTIVE = TESTP (snd a) ACTIVE"
      "cov C {elems (snd a)} \<subseteq> cov C {elems (snd (f a))}" "cov C {elems (snd (f a))} \<subseteq> cov C {elems (snd a)} \<union> X"
      using Cons.prems cov_single_mono by (simp_all add: lifts_def)
    show ?case using IH a by (auto simp: pcov_Cons)
  qed simp
  then show "wf_ptrs (cube_size C) (map f xs)" "map fst (map f xs) = map fst xs"
    "pcov C xs \<subseteq> pcov C (map f xs)" "pcov C (map f xs) \<subseteq> pcov C xs \<union> X"
    "pcov C (act xs) \<subseteq> pcov C (act (map f xs))" "pcov C (act (map f xs)) \<subseteq> pcov C (act xs) \<union> X" by blast+
qed

text \<open>Raising in one variable only changes the points in that variable.\<close>

lemma raise_cov:
  assumes C: "wf_cube C" and v: "v < num_vars C"
  shows "cov C {a \<union> (b \<inter> vparts C v)} \<subseteq> cov C {a} \<union> cov C {(b \<inter> vparts C v) \<union> (a - vparts C v)}"
proof
  fix x assume x: "x \<in> cov C {a \<union> (b \<inter> vparts C v)}"
  then have p: "point C x" and c: "\<And>u. u < num_vars C \<Longrightarrow> x u \<in> a \<union> (b \<inter> vparts C v)"
    by (auto simp: cov_def covers_def)
  have other: "x u \<in> a \<and> x u \<notin> vparts C v" if "u < num_vars C" "u \<noteq> v" for u
  proof -
    have "x u \<notin> vparts C v"
      using vparts_disjoint [OF wf_cubeD(1) [OF C] that(1) v] p that by (auto simp: point_def)
    then show ?thesis using c [OF that(1)] by blast
  qed
  show "x \<in> cov C {a} \<union> cov C {(b \<inter> vparts C v) \<union> (a - vparts C v)}"
  proof (cases "x v \<in> a")
    case True
    then have "covers C a x" using other by (auto simp: covers_def)
    then show ?thesis using p by (auto simp: cov_def)
  next
    case False
    then have "x v \<in> b \<inter> vparts C v" using c [OF v] by blast
    then have "covers C ((b \<inter> vparts C v) \<union> (a - vparts C v)) x" using other unfolding covers_def by (metis DiffI UnI1 UnI2)
    then show ?thesis using p by (auto simp: cov_def)
  qed
qed

lemma compl_lift_lifts:
  assumes C: "wf_cube C" and v: "v < num_vars C" and w: "wf_ptrs (cube_size C) A1" "wf_ptrs (cube_size C) B1" "is_cube C b"
  obtains f where "compl_lift C A1 B1 b v = map f A1" "lifts C (pcov C B1) f A1"
proof -
  let ?m = "var_mask C ! v" and ?n = "cube_size C"
  have m: "is_cube C ?m" "elems ?m = vparts C v" using C v by simp_all
  let ?or = "set_and (new_cube C) b ?m"
  have o: "is_cube C ?or" "elems ?or = elems b \<inter> vparts C v"
    using binops_wf(1) [OF w(3) m(1) new_cube_length] binops_elems(1) [OF w(3) m(1) new_cube_length] m(2) by simp_all
  let ?lift = "\<lambda>a. set_merge (new_cube C) b (snd a) ?m"
  let ?f = "\<lambda>a. if TESTP (snd a) ACTIVE then
             (let lift = ?lift a
              in if list_ex (\<lambda>b. setp_implies lift (snd b)) B1 then (fst a, set_or (snd a) (snd a) ?or) else a) else a"
  have "lifts C (pcov C B1) ?f A1"
    unfolding lifts_def
  proof
    fix a assume "a \<in> set A1"
    then have a: "is_cube C (snd a)" using w(1) by (simp add: wf_ptrs_def)
    have l: "is_cube C (?lift a)" "elems (?lift a) = (elems b \<inter> vparts C v) \<union> (elems (snd a) - vparts C v)"
      using binops_wf(5) [OF w(3) a new_cube_length m(1)] binops_elems(5) [OF w(3) a new_cube_length m(1)] m(2) by simp_all
    have r: "is_cube C (set_or (snd a) (snd a) ?or)"
      "elems (set_or (snd a) (snd a) ?or) = elems (snd a) \<union> (elems b \<inter> vparts C v)"
      using binops_wf(2) [OF a o(1) wf_length [OF a]] binops_elems(2) [OF a o(1) wf_length [OF a]] o(2) by simp_all
    show "fst (?f a) = fst a \<and> is_cube C (snd (?f a)) \<and> TESTP (snd (?f a)) ACTIVE = TESTP (snd a) ACTIVE
       \<and> elems (snd a) \<subseteq> elems (snd (?f a)) \<and> cov C {elems (snd (?f a))} \<subseteq> cov C {elems (snd a)} \<union> pcov C B1"
    proof (cases "TESTP (snd a) ACTIVE \<and> list_ex (\<lambda>b. setp_implies (?lift a) (snd b)) B1")
      case True
      then obtain q where q: "q \<in> set B1" "setp_implies (?lift a) (snd q)" by (auto simp: list_ex_iff)
      have "is_cube C (snd q)" using w(2) q(1) by (simp add: wf_ptrs_def)
      then have "elems (?lift a) \<subseteq> elems (snd q)" using setp_implies_iff [OF l(1)] q(2) by blast
      then have "cov C {elems (?lift a)} \<subseteq> cov C {elems (snd q)}" by (rule cov_single_mono)
      also have "\<dots> \<subseteq> pcov C B1" unfolding pcov_def by (rule cov_mono) (use q(1) in auto)
      finally have "cov C {elems (snd a) \<union> (elems b \<inter> vparts C v)} \<subseteq> cov C {elems (snd a)} \<union> pcov C B1"
        using raise_cov [OF C v, of "elems (snd a)" "elems b"] unfolding l(2) by blast
      then show ?thesis using True r TESTP_or_self [OF a] by (simp add: Let_def)
    next
      case False
      then have "?f a = a" by (auto simp: Let_def)
      then show ?thesis using a by simp
    qed
  qed
  moreover have "compl_lift C A1 B1 b v = map ?f A1" by (simp add: compl_lift_def Let_def)
  ultimately show ?thesis by (rule that [rotated])
qed

lemma compl_lift_onset_lifts:
  assumes C: "wf_cube C" and v: "v < num_vars C" and w: "wf_ptrs (cube_size C) A1" "is_cover C T" "is_cube C b"
  obtains f where "compl_lift_onset C A1 T b v = map f A1" "lifts C ({x. point C x} - onset C T) f A1"
proof -
  let ?m = "var_mask C ! v" and ?n = "cube_size C"
  have m: "is_cube C ?m" "elems ?m = vparts C v" using C v by simp_all
  let ?l = "set_and (new_cube C) b ?m"
  have o: "is_cube C ?l" "elems ?l = elems b \<inter> vparts C v"
    using binops_wf(1) [OF w(3) m(1) new_cube_length] binops_elems(1) [OF w(3) m(1) new_cube_length] m(2) by simp_all
  let ?lift = "\<lambda>a. set_or ?l (snd a) ?l"
  let ?f = "\<lambda>a. if TESTP (snd a) ACTIVE then
         (if list_ex (\<lambda>p. cdist0 C p (?lift a)) (data T) then a
             else (fst a, SET (set_copy (snd a) (?lift a)) ACTIVE)) else a"
  have "lifts C ({x. point C x} - onset C T) ?f A1"
    unfolding lifts_def
  proof
    fix a assume "a \<in> set A1"
    then have a: "is_cube C (snd a)" using w(1) by (simp add: wf_ptrs_def)
    have l: "is_cube C (?lift a)" "elems (?lift a) = elems (snd a) \<union> (elems b \<inter> vparts C v)"
      using binops_wf(2) [OF a o(1) wf_length [OF o(1)]] binops_elems(2) [OF a o(1) wf_length [OF o(1)]] o(2) by simp_all
    have c: "set_copy (snd a) (?lift a) = ?lift a" using wf_length [OF a] l(1) by (intro set_copy_eq) simp_all
    show "fst (?f a) = fst a \<and> is_cube C (snd (?f a)) \<and> TESTP (snd (?f a)) ACTIVE = TESTP (snd a) ACTIVE
       \<and> elems (snd a) \<subseteq> elems (snd (?f a)) \<and> cov C {elems (snd (?f a))} \<subseteq> cov C {elems (snd a)} \<union> ({x. point C x} - onset C T)"
    proof (cases "TESTP (snd a) ACTIVE \<and> \<not> list_ex (\<lambda>p. cdist0 C p (?lift a)) (data T)")
      case True
      have "x \<notin> onset C T" if x: "x \<in> cov C {elems (?lift a)}" for x
      proof
        assume "x \<in> onset C T"
        then obtain p where p: "p \<in> set (data T)" "covers C (elems p) x" "point C x" by (auto simp: cov_def)
        then have "covers C (elems p \<inter> elems (?lift a)) x" using x by (simp add: covers_Int cov_def)
        then have "nulls C (elems p \<inter> elems (?lift a)) = {}" using covers_not_null [OF _ p(3)] null_cube_nulls by blast
        then have "cdist0 C p (?lift a)" using cdist0_spec [OF C wf_familyD(3) [OF w(2) p(1)] l(1)] by blast
        then show False using True p(1) by (auto simp: list_ex_iff)
      qed
      then have "cov C {elems (?lift a)} \<subseteq> {x. point C x} - onset C T" by (auto simp: cov_def)
      moreover have "?lift a \<noteq> []" by (rule wf_nonempty [OF l(1)])
      ultimately show ?thesis using True l c by auto
    next
      case False
      then have "?f a = a" by auto
      then show ?thesis using a by simp
    qed
  qed
  moreover have "compl_lift_onset C A1 T b v = map ?f A1" by (simp add: compl_lift_onset_def Let_def)
  ultimately show ?thesis by (rule that [rotated])
qed

lemma write_back_set:
  assumes "distinct (map fst xs)" "set (map fst xs) = {..<length D}"
  shows "length (fold (\<lambda>p D. D[fst p := snd p]) xs D) = length D"
    "set (fold (\<lambda>p D. D[fst p := snd p]) xs D) = snd ` set xs"
proof -
  have len: "length (fold (\<lambda>p D. D[fst p := snd p]) ys E) = length E" for ys and E :: "'a list"
    by (induction ys arbitrary: E) simp_all
  show "length (fold (\<lambda>p D. D[fst p := snd p]) xs D) = length D" by (rule len)
  have nth: "fold (\<lambda>p D. D[fst p := snd p]) ys E ! i = (case map_of ys i of None \<Rightarrow> E ! i | Some p \<Rightarrow> p)"
    if "distinct (map fst ys)" "i < length E" for ys i and E :: "'a list"
    using that
  proof (induction ys arbitrary: E)
    case (Cons q ys)
    have "map_of ys (fst q) = None" using Cons.prems(1) by (simp add: map_of_eq_None_iff)
    then show ?case using Cons by (auto split: option.splits)
  qed simp
  have "set (fold (\<lambda>p D. D[fst p := snd p]) xs D) = (\<lambda>i. the (map_of xs i)) ` {..<length D}"
  proof -
    have "fold (\<lambda>p D. D[fst p := snd p]) xs D ! i = the (map_of xs i)" if i: "i < length D" for i
    proof -
      have "i \<in> fst ` set xs" using assms(2) i by simp
      then have "map_of xs i \<noteq> None" by (simp add: map_of_eq_None_iff)
      then show ?thesis using nth [OF assms(1) i] by auto
    qed
    then show ?thesis using len [of xs D] by (auto simp: set_conv_nth image_iff) metis+
  qed
  also have "\<dots> = snd ` set xs"
  proof -
    have "the (map_of xs (fst p)) = snd p" if "p \<in> set xs" for p
      using map_of_is_SomeI [OF assms(1), of "fst p" "snd p"] that by simp
    then have "(\<lambda>i. the (map_of xs i)) ` fst ` set xs = snd ` set xs" by (auto simp: image_image)
    then show ?thesis using assms(2) by simp
  qed
  finally show "set (fold (\<lambda>p D. D[fst p := snd p]) xs D) = snd ` set xs" .
qed

text \<open>The pieces of the merge: the intersected halves as sorted arrays, and the cover made of the arrays.\<close>

lemma half_spec:
  assumes L: "is_cover C L" and c: "is_cube C c" and m: "is_cube C m"
  defines "L' \<equiv> L\<lparr>data := map (\<lambda>p. SET (set_and p p c) ACTIVE) (data L)\<rparr>"
  defines "xs \<equiv> qsort (ptr_cmp (d1_order m)) (sf_list L')"
  shows "wf_ptrs (cube_size C) xs" "\<forall>r\<in>set xs. TESTP (snd r) ACTIVE" "distinct (map fst xs)"
    "set (map fst xs) = {..<cnt L}" "pcov C xs = {x \<in> onset C L. covers C (elems c) x}"
proof -
  have f: "is_cube C (SET (set_and p p c) ACTIVE) \<and> elems (SET (set_and p p c) ACTIVE) = elems p \<inter> elems c
      \<and> TESTP (SET (set_and p p c) ACTIVE) ACTIVE" if "p \<in> set (data L)" for p
  proof -
    have p: "is_cube C p" by (rule wf_familyD(3) [OF L that])
    note a = binops_wf(1) [OF p c wf_length [OF p]] binops_elems(1) [OF p c wf_length [OF p]]
    then show ?thesis using wf_nonempty [OF a(1)] by simp
  qed
  have s: "set xs = set (sf_list L')" by (simp add: xs_def)
  have d: "snd ` set xs = (\<lambda>p. SET (set_and p p c) ACTIVE) ` set (data L)"
    unfolding s snd_set_sf_list by (simp add: L'_def)
  then show "wf_ptrs (cube_size C) xs" "\<forall>r\<in>set xs. TESTP (snd r) ACTIVE"
    using f unfolding wf_ptrs_def by (metis (no_types, lifting) image_iff)+
  have "mset (map fst xs) = mset (map fst (sf_list L'))" unfolding xs_def mset_map mset_qsort ..
  also have "map fst (sf_list L') = [0..<cnt L]" by (simp add: sf_list_def L'_def)
  finally have ms: "mset (map fst xs) = mset [0..<cnt L]" .
  then show "distinct (map fst xs)" by (metis distinct_upt mset_eq_imp_distinct_iff)
  have "set (map fst xs) = set [0..<cnt L]" using ms by (rule mset_eq_setD)
  then show "set (map fst xs) = {..<cnt L}" by auto
  have "(\<lambda>p. elems (snd p)) ` set xs = elems ` (snd ` set xs)" by (simp only: image_image)
  also have "\<dots> = (\<lambda>X. X \<inter> elems c) ` elems ` set (data L)"
    unfolding d image_image by (rule image_cong [OF refl]) (use f in blast)
  finally show "pcov C xs = {x \<in> onset C L. covers C (elems c) x}"
    unfolding pcov_def cov_def by (auto simp: covers_Int)
qed

lemma merged_cover:
  assumes w: "wf_ptrs (cube_size C) L1" "wf_ptrs (cube_size C) R1"
    and L: "distinct (map fst L1)" "set (map fst L1) = {..<cnt L}"
    and R: "distinct (map fst R1)" "set (map fst R1) = {..<cnt R}"
  defines "copy \<equiv> set_copy (replicate (SET_SIZE (cube_size C)) 0)"
  defines "M \<equiv> (new_cover C (cnt (write_back L1 L) + cnt (write_back R1 R)))
     \<lparr>data := map copy (data (write_back L1 L)) @ map copy (filter (\<lambda>p. TESTP p ACTIVE) (data (write_back R1 R)))\<rparr>"
  shows "is_cover C M" "onset C M = pcov C L1 \<union> pcov C (act R1)"
proof -
  note WL = write_back_set [OF L] and WR = write_back_set [OF R]
  have dl: "set (data (write_back L1 L)) = snd ` set L1" "cnt (write_back L1 L) = cnt L"
    and dr: "set (data (write_back R1 R)) = snd ` set R1" "cnt (write_back R1 R) = cnt R"
    using WL WR by (simp_all add: write_back_def)
  have copy: "copy p = p" if "p \<in> snd ` set L1 \<union> snd ` set R1" for p
  proof -
    have "is_cube C p" using that w by (auto simp: wf_ptrs_def)
    then show ?thesis unfolding copy_def by (intro set_copy_eq) simp_all
  qed
  have cl: "map copy (data (write_back L1 L)) = data (write_back L1 L)"
    by (rule map_idI) (use copy dl(1) in blast)
  have cr: "map copy (filter (\<lambda>p. TESTP p ACTIVE) (data (write_back R1 R))) = filter (\<lambda>p. TESTP p ACTIVE) (data (write_back R1 R))"
    by (rule map_idI) (use copy dr(1) in auto)
  have D: "data M = data (write_back L1 L) @ filter (\<lambda>p. TESTP p ACTIVE) (data (write_back R1 R))"
    unfolding M_def cl cr by simp
  have sD: "set (data M) = snd ` set L1 \<union> {p \<in> snd ` set R1. TESTP p ACTIVE}"
    unfolding D set_append set_filter dl dr ..
  have "cnt M \<le> cnt (write_back L1 L) + cnt (write_back R1 R)" unfolding D by simp
  then show "is_cover C M" using w sD by (auto simp: wf_family_def M_def wf_ptrs_def)
  have "elems ` set (data M) = (\<lambda>p. elems (snd p)) ` set L1 \<union> (\<lambda>p. elems (snd p)) ` set (act R1)"
    unfolding sD act_def by auto
  then show "onset C M = pcov C L1 \<union> pcov C (act R1)" unfolding pcov_def by simp
qed

theorem compl_merge_spec:
  assumes C: "wf_cube C" and v: "v < num_vars C" and T: "wf_list C T" and L: "is_cover C L" and R: "is_cover C R"
    and c: "is_cube C cl" "is_cube C cr"
  defines "P \<equiv> {x \<in> onset C L. covers C (elems cl) x} \<union> {x \<in> onset C R. covers C (elems cr) x}"
  shows "\<exists>M. compl_merge C mem T L R cl cr v USE_COMPL_LIFT = Inr M \<and> is_cover C M \<and> onset C M = P"
    "\<exists>M. compl_merge C mem T L R cl cr v USE_COMPL_LIFT_ONSET = Inr M \<and> is_cover C M
       \<and> P \<subseteq> onset C M \<and> onset C M \<subseteq> P \<union> ({x. point C x} - lcov C T)"
    "\<exists>M. compl_merge C mem T L R cl cr v NO_LIFTING = Inr M \<and> is_cover C M \<and> onset C M = P"
proof -
  let ?m = "var_mask C ! v" and ?n = "cube_size C"
  have m: "is_cube C ?m" using C v by simp
  define L' where "L' = L\<lparr>data := map (\<lambda>p. SET (set_and p p cl) ACTIVE) (data L)\<rparr>"
  define R' where "R' = R\<lparr>data := map (\<lambda>p. SET (set_and p p cr) ACTIVE) (data R)\<rparr>"
  define xs where "xs = qsort (ptr_cmp (d1_order ?m)) (sf_list L')"
  define ys where "ys = qsort (ptr_cmp (d1_order ?m)) (sf_list R')"
  note X = half_spec [OF L c(1) m, folded L'_def, folded xs_def]
  note Y = half_spec [OF R c(2) m, folded R'_def, folded ys_def]
  have cL: "cnt L' = cnt L" and cR: "cnt R' = cnt R" by (simp_all add: L'_def R'_def)
  obtain A B where AB: "compl_d1merge ?m xs ys = (A, B)" by (cases "compl_d1merge ?m xs ys")
  note D = compl_d1merge_spec [OF C v X(1) Y(1,2) AB]
  have PB: "pcov C B = pcov C ys"
    unfolding pcov_def using arg_cong [OF D(5), of set] by (simp add: image_image)
  have P: "P = pcov C A \<union> pcov C (act B)" "pcov C B \<subseteq> P"
    using D(6) X(5) Y(5) PB by (simp_all add: P_def)
  define fin where "fin L1 R1 = (new_cover C (cnt (write_back L1 L') + cnt (write_back R1 R')))
     \<lparr>data := map (set_copy (replicate (SET_SIZE (cube_size C)) 0)) (data (write_back L1 L'))
        @ map (set_copy (replicate (SET_SIZE (cube_size C)) 0)) (filter (\<lambda>p. TESTP p ACTIVE) (data (write_back R1 R')))\<rparr>" for L1 R1
  have fin: "is_cover C (fin L1 R1)" "onset C (fin L1 R1) = pcov C L1 \<union> pcov C (act R1)"
    if "wf_ptrs ?n L1" "wf_ptrs ?n R1" "map fst L1 = map fst A" "map fst R1 = map fst B" for L1 R1
    using merged_cover [OF that(1,2), of L' R', folded fin_def] X(3,4) Y(3,4) D(3,4) that(3,4) cL cR by simp_all
  note eq = compl_merge_def [of C mem T L R cl cr v, folded L'_def R'_def, unfolded Let_def,
      folded xs_def ys_def, unfolded AB prod.case, folded fin_def]
  have "compl_merge C mem T L R cl cr v NO_LIFTING = Inr (fin A B)" unfolding eq by simp
  then show "\<exists>M. compl_merge C mem T L R cl cr v NO_LIFTING = Inr M \<and> is_cover C M \<and> onset C M = P"
    using fin [OF D(1,2) refl refl] P(1) by blast
  obtain f where f: "compl_lift C A B cr v = map f A" "lifts C (pcov C B) f A"
    using compl_lift_lifts [OF C v D(1,2) c(2)] by blast
  note F = lifts_map [OF f(2)]
  obtain g where g: "compl_lift C B (map f A) cl v = map g B" "lifts C (pcov C (map f A)) g B"
    using compl_lift_lifts [OF C v D(2) F(1) c(1)] by blast
  note G = lifts_map [OF g(2)]
  have "compl_merge C mem T L R cl cr v USE_COMPL_LIFT = Inr (fin (map f A) (map g B))"
    unfolding eq by (simp add: f(1) g(1))
  moreover have "pcov C (map f A) \<union> pcov C (act (map g B)) = P"
    using F(3,4) G(5,6) P by blast
  ultimately show "\<exists>M. compl_merge C mem T L R cl cr v USE_COMPL_LIFT = Inr M \<and> is_cover C M \<and> onset C M = P"
    using fin [OF F(1) G(1) F(2) G(2)] by blast
  let ?T = "cubeunlist C mem T"
  note U = cubeunlist_spec(1,3) [OF C T, of mem]
  obtain f' where f': "compl_lift_onset C A ?T cr v = map f' A" "lifts C ({x. point C x} - onset C ?T) f' A"
    using compl_lift_onset_lifts [OF C v D(1) U(1) c(2)] by blast
  note F' = lifts_map [OF f'(2)]
  obtain g' where g': "compl_lift_onset C B ?T cl v = map g' B" "lifts C ({x. point C x} - onset C ?T) g' B"
    using compl_lift_onset_lifts [OF C v D(2) U(1) c(1)] by blast
  note G' = lifts_map [OF g'(2)]
  have "compl_merge C mem T L R cl cr v USE_COMPL_LIFT_ONSET = Inr (fin (map f' A) (map g' B))"
    unfolding eq by (simp add: f'(1) g'(1))
  moreover have "P \<subseteq> pcov C (map f' A) \<union> pcov C (act (map g' B))"
    "pcov C (map f' A) \<union> pcov C (act (map g' B)) \<subseteq> P \<union> ({x. point C x} - lcov C T)"
    using F'(3,4) G'(5,6) P(1) U(2) by blast+
  ultimately show "\<exists>M. compl_merge C mem T L R cl cr v USE_COMPL_LIFT_ONSET = Inr M \<and> is_cover C M
       \<and> P \<subseteq> onset C M \<and> onset C M \<subseteq> P \<union> ({x. point C x} - lcov C T)"
    using fin [OF F'(1) G'(1) F'(2) G'(2)] by blast
qed

section \<open>The recursions\<close>

text \<open>
  \<open>ok C T S R\<close>: the cover \<open>R\<close> covers only points of \<open>S\<close>, and all those that avoid the
  cofactored parts.
\<close>

definition ok :: "cube_struct \<Rightarrow> cubelist \<Rightarrow> (nat \<Rightarrow> nat) set \<Rightarrow> set_family \<Rightarrow> bool" where
  "ok C T S R \<longleftrightarrow> is_cover C R \<and> onset C R \<subseteq> S \<and> (\<forall>x\<in>S. free C T x \<longrightarrow> x \<in> onset C R)"

definition off :: "cube_struct \<Rightarrow> cubelist \<Rightarrow> (nat \<Rightarrow> nat) set" where
  "off C T = {x. point C x} - lcov C T"

text \<open>The parts not yet cofactored: each recursive call has fewer.\<close>

definition remaining :: "cube_struct \<Rightarrow> cubelist \<Rightarrow> nat" where
  "remaining C T = card ({..<cube_size C} - elems (cof T))"

lemma remaining_less:
  assumes "elems (cof T) \<subseteq> elems (cof T')" "e < cube_size C" "e \<in> elems (cof T')" "e \<notin> elems (cof T)"
  shows "remaining C T' < remaining C T"
  unfolding remaining_def by (rule psubset_card_mono) (use assms in auto)

lemma okD: "ok C T S R \<Longrightarrow> is_cover C R" "ok C T S R \<Longrightarrow> onset C R \<subseteq> S"
    "ok C T S R \<Longrightarrow> x \<in> S \<Longrightarrow> free C T x \<Longrightarrow> x \<in> onset C R"
  by (simp_all add: ok_def)

text \<open>What the split of a list that is neither unate nor a special case gives.\<close>

definition split_ok :: "cube_struct \<Rightarrow> cubelist \<Rightarrow> pset \<Rightarrow> pset \<Rightarrow> nat \<Rightarrow> bool" where
  "split_ok C T cl cr v \<longleftrightarrow> v < num_vars C \<and> is_cube C cl \<and> is_cube C cr
     \<and> {..<cube_size C} - vparts C v \<subseteq> elems cl \<and> {..<cube_size C} - vparts C v \<subseteq> elems cr
     \<and> (elems cl \<union> elems cr) \<inter> vparts C v = vparts C v - elems (cof T)
     \<and> remaining C (scofactor C T cl v None) < remaining C T
     \<and> remaining C (scofactor C T cr v None) < remaining C T"

lemma split_okI:
  assumes C: "wf_cube C" and T: "wf_list C T" and u: "\<not> all_unate C T"
    and s: "binate_split_select C T (massive_count C T) (new_cube C) (new_cube C) = (cl, cr, v)"
  shows "split_ok C T cl cr v"
proof -
  note L = wf_cubeD(1) [OF C]
  obtain b where b: "b < num_vars C" "best_var (massive_count C T) = int b"
    "\<forall>w<num_vars C. card (active_parts C T w) \<le> card (active_parts C T b)"
    using massive_count_spec(8) [OF C T] by blast
  note S = binate_split_spec [OF C T b(2,1) new_cube_length new_cube_length s]
  have v: "v = b" by (rule S(1))
  obtain w where "w < num_vars C" "2 \<le> card (active_parts C T w)" using u by (auto simp: all_unate_def not_le)
  then have "2 \<le> card (active_parts C T b)" using b(3) by fastforce
  moreover have "card (active_parts C T b) \<le> card (vparts C b - elems (cof T))"
    by (rule card_mono) (auto simp: active_parts_def)
  ultimately have ne: "elems cl \<inter> vparts C b \<noteq> {}" "elems cr \<inter> vparts C b \<noteq> {}" using S(8) by simp_all
  have less: "remaining C (scofactor C T c v None) < remaining C T"
    if c: "is_cube C c" and d: "d \<in> elems c'" "d \<in> vparts C b" and c': "c' = cl \<or> c' = cr" and dis: "d \<notin> elems c" for c c' d
  proof (rule remaining_less)
    show "elems (cof T) \<subseteq> elems (cof (scofactor C T c v None))" unfolding cofactor_wf(4) [OF C T c] by blast
    show dn: "d < cube_size C" using vparts_less [OF L b(1) d(2)] .
    show "d \<in> elems (cof (scofactor C T c v None))" unfolding cofactor_wf(4) [OF C T c] using dn dis by blast
    show "d \<notin> elems (cof T)" using S(7) d c' by blast
  qed
  obtain d where "d \<in> elems cr" "d \<in> vparts C b" using ne(2) by blast
  moreover from this have "d \<notin> elems cl" using S(6) by blast
  ultimately have l: "remaining C (scofactor C T cl v None) < remaining C T" using less [OF S(2)] by blast
  obtain d where "d \<in> elems cl" "d \<in> vparts C b" using ne(1) by blast
  moreover from this have "d \<notin> elems cr" using S(6) by blast
  ultimately have r: "remaining C (scofactor C T cr v None) < remaining C T" using less [OF S(3)] by blast
  show ?thesis unfolding split_ok_def v using b(1) S(2-5,7) l r [unfolded v] l [unfolded v] by (simp add: v)
qed

lemma split_cases:
  assumes C: "wf_cube C" and s: "split_ok C T cl cr v" and x: "free C T x"
  shows "covers C (elems cl) x \<or> covers C (elems cr) x"
proof -
  have v: "v < num_vars C" using s by (simp add: split_ok_def)
  have p: "point C x" by (rule free_point [OF x])
  have "x v \<in> elems cl \<union> elems cr" using s x p v by (auto simp: split_ok_def free_def point_def)
  moreover have "covers C c x" if "x v \<in> c" "{..<cube_size C} - vparts C v \<subseteq> c" for c
    unfolding covers_def
  proof (intro allI impI)
    fix u assume u: "u < num_vars C"
    have "x u \<in> vparts C u" using p u by (simp add: point_def)
    then have "u = v \<or> x u \<in> {..<cube_size C} - vparts C v"
      using vparts_disjoint [OF wf_cubeD(1) [OF C] u v, of "x u"] vparts_less [OF wf_cubeD(1) [OF C] u] by blast
    then show "x u \<in> c" using that by blast
  qed
  ultimately show ?thesis using s by (auto simp: split_ok_def)
qed

lemma split_cov:
  assumes C: "wf_cube C" and T: "wf_list C T" and s: "split_ok C T cl cr v" and c: "c = cl \<or> c = cr"
    and x: "point C x" "covers C (elems c) x"
  shows "x \<in> lcov C (scofactor C T c v None) \<longleftrightarrow> x \<in> lcov C T"
proof -
  have v: "v < num_vars C" "is_cube C c" using s c by (auto simp: split_ok_def)
  have "x v \<in> elems c \<inter> vparts C v" using x v by (simp add: covers_def point_def)
  then have "x v \<notin> elems (cof T)" using s c by (auto simp: split_ok_def)
  then show ?thesis using scofactor_cov(1,2) [OF C T v(2,1) x(2), of None] by auto
qed

lemma split_free:
  assumes C: "wf_cube C" and T: "wf_list C T" and s: "split_ok C T cl cr v" and c: "c = cl \<or> c = cr"
    and x: "free C T x" "covers C (elems c) x"
  shows "free C (scofactor C T c v None) x"
  using scofactor_cov(3) [OF C T _ _ x(2) x(1), of v None] s c by (auto simp: split_ok_def)

text \<open>The merge of two correct halves is correct.\<close>

lemma merge_ok:
  assumes C: "wf_cube C" and T: "wf_list C T" and s: "split_ok C T cl cr v"
    and L: "ok C (scofactor C T cl v None) SL L" and R: "ok C (scofactor C T cr v None) SR R"
    and SL: "\<And>x. point C x \<Longrightarrow> covers C (elems cl) x \<Longrightarrow> x \<in> SL \<longleftrightarrow> x \<in> S"
    and SR: "\<And>x. point C x \<Longrightarrow> covers C (elems cr) x \<Longrightarrow> x \<in> SR \<longleftrightarrow> x \<in> S"
    and l: "l = USE_COMPL_LIFT \<or> l = USE_COMPL_LIFT_ONSET \<and> S = off C T"
  shows "\<exists>M. compl_merge C mem T L R cl cr v l = Inr M \<and> ok C T S M"
proof -
  have v: "v < num_vars C" "is_cube C cl" "is_cube C cr" using s by (simp_all add: split_ok_def)
  let ?P = "{x \<in> onset C L. covers C (elems cl) x} \<union> {x \<in> onset C R. covers C (elems cr) x}"
  have pt: "x \<in> onset C F \<Longrightarrow> point C x" for x F by (simp add: cov_def)
  have PS: "?P \<subseteq> S" using SL SR okD(2) [OF L] okD(2) [OF R] pt by blast
  have SP: "x \<in> ?P" if x: "x \<in> S" "free C T x" for x
    using split_cases [OF C s x(2)]
  proof
    assume c: "covers C (elems cl) x"
    then have "x \<in> SL" using SL free_point [OF x(2)] x(1) by blast
    then have "x \<in> onset C L" using okD(3) [OF L] split_free [OF C T s _ x(2) c] by blast
    then show ?thesis using c by blast
  next
    assume c: "covers C (elems cr) x"
    then have "x \<in> SR" using SR free_point [OF x(2)] x(1) by blast
    then have "x \<in> onset C R" using okD(3) [OF R] split_free [OF C T s _ x(2) c] by blast
    then show ?thesis using c by blast
  qed
  note M = compl_merge_spec [OF C v(1) T okD(1) [OF L] okD(1) [OF R] v(2,3), of mem]
  from l show ?thesis
  proof
    assume "l = USE_COMPL_LIFT"
    then show ?thesis using M(1) PS SP unfolding ok_def by metis
  next
    assume l: "l = USE_COMPL_LIFT_ONSET \<and> S = off C T"
    obtain M where "compl_merge C mem T L R cl cr v USE_COMPL_LIFT_ONSET = Inr M" "is_cover C M"
       "?P \<subseteq> onset C M" "onset C M \<subseteq> ?P \<union> ({x. point C x} - lcov C T)" using M(2) by blast
    moreover from this have "onset C M \<subseteq> S" using l PS unfolding off_def by blast
    ultimately have "ok C T S M" using SP unfolding ok_def by blast
    then show ?thesis using l \<open>compl_merge C mem T L R cl cr v USE_COMPL_LIFT_ONSET = Inr M\<close> by blast
  qed
qed

text \<open>The tests that the three special-case routines share.\<close>

lemma ceil_fold:
  assumes "is_cube C c" "\<forall>p\<in>set ps. is_cube C p"
  shows "is_cube C (fold (\<lambda>p ceil. set_or ceil ceil p) ps c)"
    "elems (fold (\<lambda>p ceil. set_or ceil ceil p) ps c) = elems c \<union> (\<Union>p\<in>set ps. elems p)"
proof -
  have "is_cube C (fold (\<lambda>p ceil. set_or ceil ceil p) ps c) \<and>
    elems (fold (\<lambda>p ceil. set_or ceil ceil p) ps c) = elems c \<union> (\<Union>p\<in>set ps. elems p)"
    using assms
  proof (induction ps arbitrary: c)
    case (Cons p ps)
    have p: "is_cube C p" using Cons.prems(2) by simp
    note o = binops_wf(2) [OF Cons.prems(1) p wf_length [OF Cons.prems(1)]]
      binops_elems(2) [OF Cons.prems(1) p wf_length [OF Cons.prems(1)]]
    show ?case using Cons.IH [OF o(1)] Cons.prems(2) o(2) by auto
  qed simp
  then show "is_cube C (fold (\<lambda>p ceil. set_or ceil ceil p) ps c)"
    "elems (fold (\<lambda>p ceil. set_or ceil ceil p) ps c) = elems c \<union> (\<Union>p\<in>set ps. elems p)" by blast+
qed

definition ceiling :: "cubelist \<Rightarrow> pset" where
  "ceiling T = fold (\<lambda>p ceil. set_or ceil ceil p) (cubes T) (set_save (cof T))"

definition raised :: "cube_struct \<Rightarrow> cubelist \<Rightarrow> pset \<Rightarrow> cubelist" where
  "raised C T r = T\<lparr>cof := set_or (cof T) (cof T) (set_diff r (fullset C) (ceiling T))\<rparr>"

lemma ceiling_spec:
  assumes "wf_list C T"
  shows "is_cube C (ceiling T)" "elems (ceiling T) = elems (cof T) \<union> (\<Union>p\<in>set (cubes T). elems p)"
  using ceil_fold [OF wf_listD(1) [OF assms], of "cubes T"] wf_listD [OF assms] by (simp_all add: ceiling_def)

lemma lcov_ceiling:
  assumes "wf_list C T" "x \<in> lcov C T"
  shows "covers C (elems (ceiling T)) x"
  using assms(2) ceiling_spec(2) [OF assms(1)] by (auto simp: lcov_iff covers_def)

lemma raised_spec:
  assumes C: "wf_cube C" and T: "wf_list C T" and r: "length r = SET_SIZE (cube_size C)"
  shows "wf_list C (raised C T r)" "cubes (raised C T r) = cubes T"
    "elems (cof (raised C T r)) = elems (cof T) \<union> ({..<cube_size C} - elems (ceiling T))"
    "elems (ceiling T) \<noteq> {..<cube_size C} \<Longrightarrow> remaining C (raised C T r) < remaining C T"
    "free C T x \<Longrightarrow> covers C (elems (ceiling T)) x \<Longrightarrow> free C (raised C T r) x"
    "lcov C T \<subseteq> lcov C (raised C T r)"
    "covers C (elems (ceiling T)) x \<Longrightarrow> x \<in> lcov C (raised C T r) \<Longrightarrow> x \<in> lcov C T"
proof -
  note c = ceiling_spec [OF T]
  have d: "is_cube C (set_diff r (fullset C) (ceiling T))"
    "elems (set_diff r (fullset C) (ceiling T)) = {..<cube_size C} - elems (ceiling T)"
    using binops_wf(3) [OF wf_cubeD(3) [OF C] c(1) r] binops_elems(3) [OF wf_cubeD(3) [OF C] c(1) r]
      wf_cubeD(4) [OF C] by simp_all
  note k = wf_listD(1) [OF T]
  have o: "is_cube C (cof (raised C T r))" "elems (cof (raised C T r)) = elems (cof T) \<union> ({..<cube_size C} - elems (ceiling T))"
    using binops_wf(2) [OF k d(1) wf_length [OF k]] binops_elems(2) [OF k d(1) wf_length [OF k]] d(2)
    by (simp_all add: raised_def)
  show cb: "cubes (raised C T r) = cubes T" by (simp add: raised_def)
  show "wf_list C (raised C T r)" using T o(1) by (simp add: wf_list_def cb)
  show "elems (cof (raised C T r)) = elems (cof T) \<union> ({..<cube_size C} - elems (ceiling T))" by (rule o(2))
  show "remaining C (raised C T r) < remaining C T" if ne: "elems (ceiling T) \<noteq> {..<cube_size C}"
  proof -
    have "elems (ceiling T) \<subseteq> {..<cube_size C}" using wf_elem_less [OF c(1)] by auto
    then obtain e where e: "e < cube_size C" "e \<notin> elems (ceiling T)" using ne by blast
    show ?thesis
      by (rule remaining_less [of _ _ e]) (use e o(2) c(2) in auto)
  qed
  show "free C T x \<Longrightarrow> covers C (elems (ceiling T)) x \<Longrightarrow> free C (raised C T r) x"
    unfolding free_def o(2) by (auto simp: covers_def)
  show "lcov C T \<subseteq> lcov C (raised C T r)"
  proof
    fix x assume "x \<in> lcov C T"
    then obtain p where p: "point C x" "p \<in> set (cubes T)" "covers C (elems p \<union> elems (cof T)) x" by (auto simp: lcov_iff)
    then have "covers C (elems p \<union> elems (cof (raised C T r))) x" unfolding o(2) by (auto simp: covers_def)
    then show "x \<in> lcov C (raised C T r)" using p(1,2) unfolding lcov_iff cb by blast
  qed
  show "x \<in> lcov C T" if x: "covers C (elems (ceiling T)) x" "x \<in> lcov C (raised C T r)"
  proof -
    obtain p where p: "point C x" "p \<in> set (cubes T)" "covers C (elems p \<union> elems (cof (raised C T r))) x"
      using x(2) unfolding lcov_iff cb by blast
    then have "covers C (elems p \<union> elems (cof T)) x" using x(1) unfolding o(2) by (auto simp: covers_def)
    then show ?thesis using p(1,2) by (auto simp: lcov_iff)
  qed
qed

lemma single_active_tautology:
  assumes C: "wf_cube C" and T: "wf_list C T" and full: "elems (ceiling T) = {..<cube_size C}"
    and one: "vars_active (massive_count C T) = 1"
  shows "lcov C T = {x. point C x}"
proof -
  note L = wf_cubeD(1) [OF C]
  have "card {v. v < num_vars C \<and> active_parts C T v \<noteq> {}} = 1"
    using massive_count_spec(6) [OF C T] one by simp
  then obtain v where v: "{v. v < num_vars C \<and> active_parts C T v \<noteq> {}} = {v}" by (auto simp: card_1_singleton_iff)
  have vn: "v < num_vars C" "active_parts C T v \<noteq> {}" using v by auto
  have other: "vparts C u \<subseteq> elems p \<union> elems (cof T)" if "u < num_vars C" "u \<noteq> v" "p \<in> set (cubes T)" for u p
  proof -
    have "active_parts C T u = {}" using v that by blast
    then show ?thesis using that(3) unfolding active_parts_def by blast
  qed
  have "x \<in> lcov C T" if x: "point C x" for x
  proof -
    have xv: "x v \<in> vparts C v" "x v < cube_size C" using x vn(1) vparts_less [OF L vn(1)] by (auto simp: point_def)
    then have "x v \<in> elems (cof T) \<or> (\<exists>p\<in>set (cubes T). x v \<in> elems p)"
      using full ceiling_spec(2) [OF T] by blast
    moreover obtain q where "q \<in> set (cubes T)" using vn(2) by (auto simp: active_parts_def)
    ultimately obtain p where p: "p \<in> set (cubes T)" "x v \<in> elems p \<union> elems (cof T)" by blast
    have "x u \<in> elems p \<union> elems (cof T)" if u: "u < num_vars C" for u
      using other [OF u _ p(1)] p(2) x u by (cases "u = v") (auto simp: point_def)
    then have "covers C (elems p \<union> elems (cof T)) x" by (simp add: covers_def)
    then show ?thesis using p(1) x by (auto simp: lcov_iff)
  qed
  then show ?thesis by (auto simp: lcov_iff)
qed

lemma full_row_tautology:
  assumes C: "wf_cube C" and T: "wf_list C T" and f: "list_ex (\<lambda>p. full_row C p (cof T)) (cubes T)"
  shows "lcov C T = {x. point C x}"
proof -
  obtain p where p: "p \<in> set (cubes T)" "full_row C p (cof T)" using f by (auto simp: list_ex_iff)
  then have "elems p \<union> elems (cof T) = {..<cube_size C}"
    using full_row_spec [OF C wf_listD(2) [OF T p(1)] wf_listD(1) [OF T]] by simp
  then have "covers C (elems p \<union> elems (cof T)) x" if "point C x" for x
    using that vparts_less [OF wf_cubeD(1) [OF C]] by (auto simp: covers_def point_def)
  then show ?thesis using p(1) unfolding lcov_iff set_eq_iff mem_Collect_eq by blast
qed

lemma not_unate:
  assumes "wf_cube C" "wf_list C T" "vars_unate (massive_count C T) \<noteq> vars_active (massive_count C T)"
  shows "\<not> all_unate C T"
proof
  assume u: "all_unate C T"
  have "card (active_parts C T v) = 1 \<longleftrightarrow> active_parts C T v \<noteq> {}" if "v < num_vars C" for v
    using u that card_gt_0_iff [of "active_parts C T v"] by (auto simp: all_unate_def le_Suc_eq)
  then have "{v. v < num_vars C \<and> card (active_parts C T v) = 1} = {v. v < num_vars C \<and> active_parts C T v \<noteq> {}}" by blast
  then show False using assms(3) massive_count_spec(6,7) [OF assms(1,2)] by simp
qed

text \<open>The cubes of a one-element list, and covers of a single cube.\<close>

lemma single_cube:
  assumes C: "wf_cube C" and T: "wf_list C T" and p: "cubes T = [p]"
  shows "is_cube C (set_or (cof T) (cof T) p)" "lcov C T = {x. point C x \<and> covers C (elems (set_or (cof T) (cof T) p)) x}"
proof -
  note k = wf_listD(1) [OF T]
  have "is_cube C p" using wf_listD(2) [OF T] p by simp
  note o = binops_wf(2) [OF k this wf_length [OF k]] binops_elems(2) [OF k this wf_length [OF k]]
  show "is_cube C (set_or (cof T) (cof T) p)" by (rule o(1))
  show "lcov C T = {x. point C x \<and> covers C (elems (set_or (cof T) (cof T) p)) x}"
    unfolding o(2) by (auto simp: lcov_iff p Un_commute)
qed

lemma addset_single:
  assumes "is_cube C p"
  shows "is_cover C (sf_addset mem (new_cover C k) p)"
    "onset C (sf_addset mem (new_cover C k) p) = {x. point C x \<and> covers C (elems p) x}"
  using sf_addset_spec [OF new_cover_simps(1) assms] by (simp_all add: cov_def)

lemma full_cover:
  assumes C: "wf_cube C"
  shows "onset C (sf_addset mem (new_cover C k) (fullset C)) = {x. point C x}"
    "is_cover C (sf_addset mem (new_cover C k) (fullset C))"
  using addset_single [OF wf_cubeD(3) [OF C]] vparts_less [OF wf_cubeD(1) [OF C]] wf_cubeD(4) [OF C]
  by (auto simp: covers_def point_def)

lemma empty_cover: "onset C (new_cover C k) = {}"
  by simp

section \<open>Complementation is correct\<close>

lemma append_ceiling:
  assumes C: "wf_cube C" and T: "wf_list C T" and r: "length r = SET_SIZE (cube_size C)"
    and A: "ok C (raised C T r) (off C (raised C T r)) A"
  shows "\<exists>U. sf_append A (compl_cube C mem (ceiling T)) = Inr U \<and> ok C T (off C T) U"
proof -
  note c = ceiling_spec [OF T] and R = raised_spec [OF C T r]
  note K = compl_cube_spec [OF C c(1), of mem]
  obtain U where U: "sf_append A (compl_cube C mem (ceiling T)) = Inr U"
    "data U = data A @ data (compl_cube C mem (ceiling T))" "is_cover C U"
    using sf_append_spec [OF okD(1) [OF A] K(1)] by blast
  have oU: "onset C U = onset C A \<union> {x. point C x \<and> \<not> covers C (elems (ceiling T)) x}"
    unfolding U(2) set_append image_Un cov_simps K(2) ..
  have "ok C T (off C T) U" unfolding ok_def oU
  proof (intro conjI ballI impI)
    show "is_cover C U" by (rule U(3))
    show "onset C A \<union> {x. point C x \<and> \<not> covers C (elems (ceiling T)) x} \<subseteq> off C T"
      using okD(2) [OF A] R(6) lcov_ceiling [OF T] unfolding off_def by blast
    fix x assume x: "x \<in> off C T" "free C T x"
    show "x \<in> onset C A \<union> {x. point C x \<and> \<not> covers C (elems (ceiling T)) x}"
    proof (cases "covers C (elems (ceiling T)) x")
      case True
      then have "x \<in> off C (raised C T r)" using x(1) R(7) by (auto simp: off_def)
      then have "x \<in> onset C A" using okD(3) [OF A] R(5) [OF x(2) True] by blast
      then show ?thesis by blast
    qed (use free_point [OF x(2)] in blast)
  qed
  then show ?thesis using U(1) by blast
qed

lemma compl_special_ok:
  assumes C: "wf_cube C" and T: "wf_list C T"
    and bound: "num_vars C \<le> 1025" "length (cubes T) * (num_vars C + 1) < u"
    and rec: "\<And>T'. wf_list C T' \<Longrightarrow> cubes T' = cubes T \<Longrightarrow> remaining C T' < remaining C T \<Longrightarrow>
       \<exists>R. rec T' = Inr R \<and> ok C T' (off C T') R"
  shows "(\<exists>R. compl_special_cases rec u C mem T = Inr (Done R) \<and> ok C T (off C T) R)
    \<or> compl_special_cases rec u C mem T = Inr (Maybe (massive_count C T)) \<and> \<not> all_unate C T"
proof -
  consider (none) "cubes T = []" | (one) p where "cubes T = [p]" | (more) p q ps where "cubes T = p # q # ps"
    by (metis list.exhaust)
  then show ?thesis
  proof cases
    case none
    then have "compl_special_cases rec u C mem T = Inr (Done (sf_addset mem (new_cover C 1) (fullset C)))"
      by (simp add: compl_special_cases_def)
    moreover have "off C T = {x. point C x}" using none by (auto simp: off_def lcov_iff)
    ultimately show ?thesis using full_cover [OF C] by (auto simp: ok_def)
  next
    case one
    note s = single_cube [OF C T one]
    have "compl_special_cases rec u C mem T = Inr (Done (compl_cube C mem (set_or (cof T) (cof T) p)))"
      using one by (simp add: compl_special_cases_def)
    moreover have "off C T = {x. point C x \<and> \<not> covers C (elems (set_or (cof T) (cof T) p)) x}"
      unfolding off_def s(2) by blast
    ultimately show ?thesis using compl_cube_spec [OF C s(1)] by (auto simp: ok_def)
  next
    case more
    note eq = compl_special_cases_def [of rec u C mem T, folded ceiling_def, unfolded more list.case, folded more]
    show ?thesis
    proof (cases "list_ex (\<lambda>p. full_row C p (cof T)) (cubes T)")
      case True
      then have "off C T = {}" using full_row_tautology [OF C T] by (simp add: off_def)
      moreover have "compl_special_cases rec u C mem T = Inr (Done (new_cover C 0))" unfolding eq using True by simp
      ultimately show ?thesis by (auto simp: ok_def)
    next
      case nf: False
      show ?thesis
      proof (cases "elems (ceiling T) = {..<cube_size C}")
        case False
        note c = ceiling_spec [OF T]
        note R = raised_spec [OF C T wf_length [OF c(1)]]
        obtain A where A: "rec (raised C T (ceiling T)) = Inr A" "ok C (raised C T (ceiling T)) (off C (raised C T (ceiling T))) A"
          using rec [OF R(1,2) R(4) [OF False]] by blast
        obtain U where U: "sf_append A (compl_cube C mem (ceiling T)) = Inr U" "ok C T (off C T) U"
          using append_ceiling [OF C T wf_length [OF c(1)] A(2)] by blast
        have "\<not> setp_equal (ceiling T) (fullset C)" using setp_full_cube [OF C c(1)] False by simp
        then have "compl_special_cases rec u C mem T = Inr (Done U)"
          unfolding eq using nf A(1) U(1) by (simp add: Let_def raised_def)
        then show ?thesis using U(2) by blast
      next
        case full: True
        then have e: "setp_equal (ceiling T) (fullset C)" using setp_full_cube [OF C ceiling_spec(1) [OF T]] by simp
        let ?cd = "massive_count C T"
        consider "vars_active ?cd = 1" | "vars_active ?cd \<noteq> 1" "vars_unate ?cd = vars_active ?cd"
          | "vars_active ?cd \<noteq> 1" "vars_unate ?cd \<noteq> vars_active ?cd" by blast
        then show ?thesis
        proof cases
          case 1
          then have "off C T = {}" using single_active_tautology [OF C T full] by (simp add: off_def)
          moreover have "compl_special_cases rec u C mem T = Inr (Done (new_cover C 0))"
            unfolding eq using nf e 1 by (simp add: Let_def)
          ultimately show ?thesis by (auto simp: ok_def)
        next
          case 2
          obtain A where A: "unate_compl u mem (map_cover_to_unate C mem T ?cd) = Inr A"
            "is_cover C (map_unate_to_cover C mem A ?cd)" "onset C (map_unate_to_cover C mem A ?cd) = off C T"
            using unate_leaf [OF C T 2(2) bound, of mem] unfolding off_def by blast
          have "compl_special_cases rec u C mem T = Inr (Done (map_unate_to_cover C mem A ?cd))"
            unfolding eq using nf e 2 A(1) by (simp add: Let_def)
          moreover have "ok C T (off C T) (map_unate_to_cover C mem A ?cd)" using A(2,3) by (simp add: ok_def)
          ultimately show ?thesis by blast
        next
          case 3
          then have "compl_special_cases rec u C mem T = Inr (Maybe ?cd)"
            unfolding eq using nf e by (simp add: Let_def)
          then show ?thesis using not_unate [OF C T 3(2)] by blast
        qed
      qed
    qed
  qed
qed

lemma scofactor_length: "length (cubes (scofactor C T c v None)) \<le> length (cubes T)"
  by (simp add: scofactor_def Let_def)

theorem complement_ok:
  assumes C: "wf_cube C" and n: "num_vars C \<le> 1025"
    and "wf_list C T" "length (cubes T) * (num_vars C + 1) < u" "remaining C T < k"
  shows "\<exists>R. complement k u C mem T = Inr R \<and> ok C T (off C T) R"
  using assms(3-)
proof (induction k arbitrary: T)
  case (Suc k)
  note T = Suc.prems(1)
  have rec: "\<exists>R. complement k u C mem T' = Inr R \<and> ok C T' (off C T') R"
    if "wf_list C T'" "cubes T' = cubes T" "remaining C T' < remaining C T" for T'
    using Suc.IH [OF that(1)] Suc.prems(2,3) that(2,3) by simp
  from compl_special_ok [OF C T n Suc.prems(2) rec, of mem]
  show ?case
  proof
    assume "\<exists>R. compl_special_cases (complement k u C mem) u C mem T = Inr (Done R) \<and> ok C T (off C T) R"
    then show ?thesis by auto
  next
    assume M: "compl_special_cases (complement k u C mem) u C mem T = Inr (Maybe (massive_count C T)) \<and> \<not> all_unate C T"
    obtain cl cr v where s: "binate_split_select C T (massive_count C T) (new_cube C) (new_cube C) = (cl, cr, v)"
      by (cases "binate_split_select C T (massive_count C T) (new_cube C) (new_cube C)")
    have S: "split_ok C T cl cr v" using split_okI [OF C T _ s] M by blast
    have c: "is_cube C cl" "is_cube C cr" using S by (simp_all add: split_ok_def)
    have sub: "\<exists>R. complement k u C mem (scofactor C T c v None) = Inr R
        \<and> ok C (scofactor C T c v None) (off C (scofactor C T c v None)) R"
      if "c = cl \<or> c = cr" for c
    proof (rule Suc.IH)
      show "wf_list C (scofactor C T c v None)" using cofactor_wf(2) [OF C T] that c by blast
      have "length (cubes (scofactor C T c v None)) * (num_vars C + 1) \<le> length (cubes T) * (num_vars C + 1)"
        by (rule mult_le_mono1) (rule scofactor_length)
      then show "length (cubes (scofactor C T c v None)) * (num_vars C + 1) < u" using Suc.prems(2) by simp
      show "remaining C (scofactor C T c v None) < k" using S that Suc.prems(3) by (auto simp: split_ok_def)
    qed
    obtain Tl where Tl: "complement k u C mem (scofactor C T cl v None) = Inr Tl"
      "ok C (scofactor C T cl v None) (off C (scofactor C T cl v None)) Tl" using sub by blast
    obtain Tr where Tr: "complement k u C mem (scofactor C T cr v None) = Inr Tr"
      "ok C (scofactor C T cr v None) (off C (scofactor C T cr v None)) Tr" using sub by blast
    define l where "l = (if cnt Tr * cnt Tl > (cnt Tr + cnt Tl) * CUBELISTSIZE T then USE_COMPL_LIFT_ONSET else USE_COMPL_LIFT)"
    have "\<exists>M. compl_merge C mem T Tl Tr cl cr v l = Inr M \<and> ok C T (off C T) M"
    proof (rule merge_ok [OF C T S Tl(2) Tr(2)])
      show "x \<in> off C (scofactor C T cl v None) \<longleftrightarrow> x \<in> off C T" if "point C x" "covers C (elems cl) x" for x
        using split_cov [OF C T S _ that] that(1) by (simp add: off_def)
      show "x \<in> off C (scofactor C T cr v None) \<longleftrightarrow> x \<in> off C T" if "point C x" "covers C (elems cr) x" for x
        using split_cov [OF C T S _ that] that(1) by (simp add: off_def)
      show "l = USE_COMPL_LIFT \<or> l = USE_COMPL_LIFT_ONSET \<and> off C T = off C T" by (simp add: l_def)
    qed
    then show ?thesis using M s Tl(1) Tr(1) by (simp add: Let_def l_def)
  qed
qed simp

section \<open>Simplification is correct\<close>

text \<open>Cutting a cover of the raised list back to the ceiling.\<close>

lemma cut_to_ceiling:
  assumes C: "wf_cube C" and T: "wf_list C T" and r: "length r = SET_SIZE (cube_size C)"
    and A: "ok C (raised C T r) (lcov C (raised C T r)) A"
  shows "ok C T (lcov C T) (A\<lparr>data := map (\<lambda>p. set_and p p (ceiling T)) (data A)\<rparr>)"
proof -
  note c = ceiling_spec [OF T] and R = raised_spec [OF C T r]
  let ?B = "A\<lparr>data := map (\<lambda>p. set_and p p (ceiling T)) (data A)\<rparr>"
  have f: "is_cube C (set_and p p (ceiling T)) \<and> elems (set_and p p (ceiling T)) = elems p \<inter> elems (ceiling T)"
    if "p \<in> set (data A)" for p
    using binops_wf(1) [OF wf_familyD(3) [OF okD(1) [OF A] that] c(1)]
      binops_elems(1) [OF wf_familyD(3) [OF okD(1) [OF A] that] c(1)] wf_length [OF wf_familyD(3) [OF okD(1) [OF A] that]]
    by simp
  have w: "is_cover C ?B" using okD(1) [OF A] f by (auto simp: wf_family_def)
  have "elems ` set (data ?B) = (\<lambda>X. X \<inter> elems (ceiling T)) ` elems ` set (data A)"
    using f by (simp add: image_image)
  then have o: "onset C ?B = {x \<in> onset C A. covers C (elems (ceiling T)) x}"
    by (auto simp: cov_def covers_Int)
  show ?thesis unfolding ok_def o
  proof (intro conjI ballI impI)
    show "{x \<in> onset C A. covers C (elems (ceiling T)) x} \<subseteq> lcov C T" using okD(2) [OF A] R(7) by blast
    fix x assume x: "x \<in> lcov C T" "free C T x"
    have "covers C (elems (ceiling T)) x" by (rule lcov_ceiling [OF T x(1)])
    moreover from this have "x \<in> onset C A" using okD(3) [OF A] R(5) [OF x(2)] R(6) x(1) by blast
    ultimately show "x \<in> {x \<in> onset C A. covers C (elems (ceiling T)) x}" by simp
  qed (rule w)
qed

lemma contain_list:
  assumes "wf_cube C" "wf_list C T"
  shows "is_cover C (sf_contain (cubeunlist C mem T))" "onset C (sf_contain (cubeunlist C mem T)) = lcov C T"
  using sf_contain_spec(1,2) [OF cubeunlist_spec(1) [OF assms]] cubeunlist_spec(3) [OF assms]
    cov_maximal [of "elems ` set (data (cubeunlist C mem T))" C] by simp_all

lemma simplify_special_ok:
  assumes C: "wf_cube C" and T: "wf_list C T"
    and rec: "\<And>T'. wf_list C T' \<Longrightarrow> cubes T' = cubes T \<Longrightarrow> remaining C T' < remaining C T \<Longrightarrow>
       \<exists>R. rec T' = Inr R \<and> ok C T' (lcov C T') R"
  shows "(\<exists>R. simplify_special_cases rec C mem T = Inr (Done R) \<and> ok C T (lcov C T) R)
    \<or> simplify_special_cases rec C mem T = Inr (Maybe (massive_count C T)) \<and> \<not> all_unate C T"
proof -
  consider (none) "cubes T = []" | (one) p where "cubes T = [p]" | (more) p q ps where "cubes T = p # q # ps"
    by (metis list.exhaust)
  then show ?thesis
  proof cases
    case none
    then have "simplify_special_cases rec C mem T = Inr (Done (new_cover C 0))"
      by (simp add: simplify_special_cases_def)
    moreover have "lcov C T = {}" using none by (auto simp: lcov_iff)
    ultimately show ?thesis by (auto simp: ok_def)
  next
    case one
    note s = single_cube [OF C T one]
    have "simplify_special_cases rec C mem T = Inr (Done (sf_addset mem (new_cover C 1) (set_or (cof T) (cof T) p)))"
      using one by (simp add: simplify_special_cases_def)
    then show ?thesis using addset_single [OF s(1)] s(2) by (auto simp: ok_def)
  next
    case more
    note eq = simplify_special_cases_def [of rec C mem T, folded ceiling_def, unfolded more list.case, folded more]
    have full: "ok C T (lcov C T) (sf_addset mem (new_cover C 1) (fullset C))" if "lcov C T = {x. point C x}"
      using full_cover [OF C] that by (auto simp: ok_def)
    show ?thesis
    proof (cases "list_ex (\<lambda>p. full_row C p (cof T)) (cubes T)")
      case True
      then have "simplify_special_cases rec C mem T = Inr (Done (sf_addset mem (new_cover C 1) (fullset C)))"
        unfolding eq by simp
      then show ?thesis using full [OF full_row_tautology [OF C T True]] by blast
    next
      case nf: False
      show ?thesis
      proof (cases "elems (ceiling T) = {..<cube_size C}")
        case False
        note R = raised_spec [OF C T new_cube_length]
        obtain A where A: "rec (raised C T (new_cube C)) = Inr A"
          "ok C (raised C T (new_cube C)) (lcov C (raised C T (new_cube C))) A"
          using rec [OF R(1,2) R(4) [OF False]] by blast
        have "\<not> setp_equal (ceiling T) (fullset C)" using setp_full_cube [OF C ceiling_spec(1) [OF T]] False by simp
        then have "simplify_special_cases rec C mem T = Inr (Done (A\<lparr>data := map (\<lambda>p. set_and p p (ceiling T)) (data A)\<rparr>))"
          unfolding eq using nf A(1) by (simp add: Let_def raised_def)
        then show ?thesis using cut_to_ceiling [OF C T new_cube_length A(2)] by blast
      next
        case True
        then have e: "setp_equal (ceiling T) (fullset C)" using setp_full_cube [OF C ceiling_spec(1) [OF T]] by simp
        let ?cd = "massive_count C T"
        consider "vars_active ?cd = 1" | "vars_active ?cd \<noteq> 1" "vars_unate ?cd = vars_active ?cd"
          | "vars_active ?cd \<noteq> 1" "vars_unate ?cd \<noteq> vars_active ?cd" by blast
        then show ?thesis
        proof cases
          case 1
          then have "simplify_special_cases rec C mem T = Inr (Done (sf_addset mem (new_cover C 1) (fullset C)))"
            unfolding eq using nf e by (simp add: Let_def)
          then show ?thesis using full [OF single_active_tautology [OF C T True 1]] by blast
        next
          case 2
          then have "simplify_special_cases rec C mem T = Inr (Done (sf_contain (cubeunlist C mem T)))"
            unfolding eq using nf e by (simp add: Let_def)
          then show ?thesis using contain_list [OF C T, of mem] by (auto simp: ok_def)
        next
          case 3
          then have "simplify_special_cases rec C mem T = Inr (Maybe ?cd)"
            unfolding eq using nf e by (simp add: Let_def)
          then show ?thesis using not_unate [OF C T 3(2)] by blast
        qed
      qed
    qed
  qed
qed

lemma keep_smaller:
  assumes "wf_cube C" "wf_list C T" "ok C T (lcov C T) M"
  shows "ok C T (lcov C T) (if cnt M > CUBELISTSIZE T then cubeunlist C mem T else M)"
  using cubeunlist_spec(1,3) [OF assms(1,2)] assms(3) by (simp add: ok_def)

theorem simplify_ok:
  assumes C: "wf_cube C" and "wf_list C T" "remaining C T < k"
  shows "\<exists>R. simplify k C mem T = Inr R \<and> ok C T (lcov C T) R"
  using assms(2-)
proof (induction k arbitrary: T)
  case (Suc k)
  note T = Suc.prems(1)
  have rec: "\<exists>R. simplify k C mem T' = Inr R \<and> ok C T' (lcov C T') R"
    if "wf_list C T'" "cubes T' = cubes T" "remaining C T' < remaining C T" for T'
    using Suc.IH [OF that(1)] Suc.prems(2) that(3) by simp
  from simplify_special_ok [OF C T rec, of mem]
  show ?case
  proof
    assume "\<exists>R. simplify_special_cases (simplify k C mem) C mem T = Inr (Done R) \<and> ok C T (lcov C T) R"
    then show ?thesis by auto
  next
    assume M: "simplify_special_cases (simplify k C mem) C mem T = Inr (Maybe (massive_count C T)) \<and> \<not> all_unate C T"
    obtain cl cr v where s: "binate_split_select C T (massive_count C T) (new_cube C) (new_cube C) = (cl, cr, v)"
      by (cases "binate_split_select C T (massive_count C T) (new_cube C) (new_cube C)")
    have S: "split_ok C T cl cr v" using split_okI [OF C T _ s] M by blast
    have c: "is_cube C cl" "is_cube C cr" using S by (simp_all add: split_ok_def)
    have sub: "\<exists>R. simplify k C mem (scofactor C T c v None) = Inr R
        \<and> ok C (scofactor C T c v None) (lcov C (scofactor C T c v None)) R"
      if "c = cl \<or> c = cr" for c
    proof (rule Suc.IH)
      show "wf_list C (scofactor C T c v None)" using cofactor_wf(2) [OF C T] that c by blast
      show "remaining C (scofactor C T c v None) < k" using S that Suc.prems(2) by (auto simp: split_ok_def)
    qed
    obtain Tl where Tl: "simplify k C mem (scofactor C T cl v None) = Inr Tl"
      "ok C (scofactor C T cl v None) (lcov C (scofactor C T cl v None)) Tl" using sub by blast
    obtain Tr where Tr: "simplify k C mem (scofactor C T cr v None) = Inr Tr"
      "ok C (scofactor C T cr v None) (lcov C (scofactor C T cr v None)) Tr" using sub by blast
    have "\<exists>M. compl_merge C mem T Tl Tr cl cr v USE_COMPL_LIFT = Inr M \<and> ok C T (lcov C T) M"
      by (rule merge_ok [OF C T S Tl(2) Tr(2)]) (use split_cov [OF C T S] in blast)+
    then obtain U where U: "compl_merge C mem T Tl Tr cl cr v USE_COMPL_LIFT = Inr U" "ok C T (lcov C T) U" by blast
    have "simplify (Suc k) C mem T = Inr (if cnt U > CUBELISTSIZE T then cubeunlist C mem T else U)"
      using M s Tl(1) Tr(1) U(1) by (simp add: Let_def)
    then show ?thesis using keep_smaller [OF C T U(2)] by blast
  qed
qed simp

lemma simp_comp_special_ok:
  assumes C: "wf_cube C" and T: "wf_list C T"
    and bound: "num_vars C \<le> 1025" "length (cubes T) * (num_vars C + 1) < u"
    and rec: "\<And>T'. wf_list C T' \<Longrightarrow> cubes T' = cubes T \<Longrightarrow> remaining C T' < remaining C T \<Longrightarrow>
       \<exists>A B. rec T' = Inr (A, B) \<and> ok C T' (lcov C T') A \<and> ok C T' (off C T') B"
  shows "(\<exists>A B. simp_comp_special_cases rec u C mem T = Inr (Done (A, B)) \<and> ok C T (lcov C T) A \<and> ok C T (off C T) B)
    \<or> simp_comp_special_cases rec u C mem T = Inr (Maybe (massive_count C T)) \<and> \<not> all_unate C T"
proof -
  consider (none) "cubes T = []" | (one) p where "cubes T = [p]" | (more) p q ps where "cubes T = p # q # ps"
    by (metis list.exhaust)
  then show ?thesis
  proof cases
    case none
    then have "simp_comp_special_cases rec u C mem T =
        Inr (Done (new_cover C 1, sf_addset mem (new_cover C 1) (fullset C)))"
      by (simp add: simp_comp_special_cases_def)
    moreover have "lcov C T = {}" "off C T = {x. point C x}" using none by (auto simp: off_def lcov_iff)
    ultimately show ?thesis using full_cover [OF C] by (auto simp: ok_def)
  next
    case one
    note s = single_cube [OF C T one]
    let ?c = "set_or (cof T) (cof T) p"
    have "simp_comp_special_cases rec u C mem T = Inr (Done (sf_addset mem (new_cover C 1) ?c, compl_cube C mem ?c))"
      using one by (simp add: simp_comp_special_cases_def Let_def)
    moreover have "off C T = {x. point C x \<and> \<not> covers C (elems ?c) x}" unfolding off_def s(2) by blast
    ultimately show ?thesis using compl_cube_spec [OF C s(1)] addset_single [OF s(1)] s(2) by (auto simp: ok_def)
  next
    case more
    note eq = simp_comp_special_cases_def [of rec u C mem T, folded ceiling_def, unfolded more list.case, folded more]
    have full: "ok C T (lcov C T) (sf_addset mem (new_cover C 1) (fullset C)) \<and> ok C T (off C T) (new_cover C 1)"
      if "lcov C T = {x. point C x}"
      using full_cover [OF C] that by (auto simp: ok_def off_def)
    show ?thesis
    proof (cases "list_ex (\<lambda>p. full_row C p (cof T)) (cubes T)")
      case True
      then have "simp_comp_special_cases rec u C mem T =
          Inr (Done (sf_addset mem (new_cover C 1) (fullset C), new_cover C 1))"
        unfolding eq by simp
      then show ?thesis using full [OF full_row_tautology [OF C T True]] by blast
    next
      case nf: False
      show ?thesis
      proof (cases "elems (ceiling T) = {..<cube_size C}")
        case False
        note R = raised_spec [OF C T new_cube_length]
        let ?T = "raised C T (new_cube C)"
        obtain A B where A: "rec ?T = Inr (A, B)" "ok C ?T (lcov C ?T) A" "ok C ?T (off C ?T) B"
          using rec [OF R(1,2) R(4) [OF False]] by blast
        obtain U where U: "sf_append B (compl_cube C mem (ceiling T)) = Inr U" "ok C T (off C T) U"
          using append_ceiling [OF C T new_cube_length A(3)] by blast
        have "\<not> setp_equal (ceiling T) (fullset C)" using setp_full_cube [OF C ceiling_spec(1) [OF T]] False by simp
        then have "simp_comp_special_cases rec u C mem T =
            Inr (Done (A\<lparr>data := map (\<lambda>p. set_and p p (ceiling T)) (data A)\<rparr>, U))"
          unfolding eq using nf A(1) U(1) by (simp add: Let_def raised_def)
        then show ?thesis using cut_to_ceiling [OF C T new_cube_length A(2)] U(2) by blast
      next
        case True
        then have e: "setp_equal (ceiling T) (fullset C)" using setp_full_cube [OF C ceiling_spec(1) [OF T]] by simp
        let ?cd = "massive_count C T"
        consider "vars_active ?cd = 1" | "vars_active ?cd \<noteq> 1" "vars_unate ?cd = vars_active ?cd"
          | "vars_active ?cd \<noteq> 1" "vars_unate ?cd \<noteq> vars_active ?cd" by blast
        then show ?thesis
        proof cases
          case 1
          then have "simp_comp_special_cases rec u C mem T =
              Inr (Done (sf_addset mem (new_cover C 1) (fullset C), new_cover C 1))"
            unfolding eq using nf e by (simp add: Let_def)
          then show ?thesis using full [OF single_active_tautology [OF C T True 1]] by blast
        next
          case 2
          obtain A where A: "unate_compl u mem (map_cover_to_unate C mem T ?cd) = Inr A"
            "is_cover C (map_unate_to_cover C mem A ?cd)" "onset C (map_unate_to_cover C mem A ?cd) = off C T"
            using unate_leaf [OF C T 2(2) bound, of mem] unfolding off_def by blast
          have "simp_comp_special_cases rec u C mem T =
              Inr (Done (sf_contain (cubeunlist C mem T), map_unate_to_cover C mem A ?cd))"
            unfolding eq using nf e 2 A(1) by (simp add: Let_def)
          moreover have "ok C T (off C T) (map_unate_to_cover C mem A ?cd)" using A(2,3) by (simp add: ok_def)
          moreover have "ok C T (lcov C T) (sf_contain (cubeunlist C mem T))"
            using contain_list [OF C T, of mem] by (simp add: ok_def)
          ultimately show ?thesis by blast
        next
          case 3
          then have "simp_comp_special_cases rec u C mem T = Inr (Maybe ?cd)"
            unfolding eq using nf e by (simp add: Let_def)
          then show ?thesis using not_unate [OF C T 3(2)] by blast
        qed
      qed
    qed
  qed
qed

theorem simp_comp_ok:
  assumes C: "wf_cube C" and n: "num_vars C \<le> 1025"
    and "wf_list C T" "length (cubes T) * (num_vars C + 1) < u" "remaining C T < k"
  shows "\<exists>A B. simp_comp k u C mem T = Inr (A, B) \<and> ok C T (lcov C T) A \<and> ok C T (off C T) B"
  using assms(3-)
proof (induction k arbitrary: T)
  case (Suc k)
  note T = Suc.prems(1)
  have rec: "\<exists>A B. simp_comp k u C mem T' = Inr (A, B) \<and> ok C T' (lcov C T') A \<and> ok C T' (off C T') B"
    if "wf_list C T'" "cubes T' = cubes T" "remaining C T' < remaining C T" for T'
    using Suc.IH [OF that(1)] Suc.prems(2,3) that(2,3) by simp
  from simp_comp_special_ok [OF C T n Suc.prems(2) rec, of mem]
  show ?case
  proof
    assume "\<exists>A B. simp_comp_special_cases (simp_comp k u C mem) u C mem T = Inr (Done (A, B))
      \<and> ok C T (lcov C T) A \<and> ok C T (off C T) B"
    then show ?thesis by auto
  next
    assume M: "simp_comp_special_cases (simp_comp k u C mem) u C mem T = Inr (Maybe (massive_count C T)) \<and> \<not> all_unate C T"
    obtain cl cr v where s: "binate_split_select C T (massive_count C T) (new_cube C) (new_cube C) = (cl, cr, v)"
      by (cases "binate_split_select C T (massive_count C T) (new_cube C) (new_cube C)")
    have S: "split_ok C T cl cr v" using split_okI [OF C T _ s] M by blast
    have c: "is_cube C cl" "is_cube C cr" using S by (simp_all add: split_ok_def)
    have sub: "\<exists>A B. simp_comp k u C mem (scofactor C T c v None) = Inr (A, B)
        \<and> ok C (scofactor C T c v None) (lcov C (scofactor C T c v None)) A
        \<and> ok C (scofactor C T c v None) (off C (scofactor C T c v None)) B"
      if "c = cl \<or> c = cr" for c
    proof (rule Suc.IH)
      show "wf_list C (scofactor C T c v None)" using cofactor_wf(2) [OF C T] that c by blast
      have "length (cubes (scofactor C T c v None)) * (num_vars C + 1) \<le> length (cubes T) * (num_vars C + 1)"
        by (rule mult_le_mono1) (rule scofactor_length)
      then show "length (cubes (scofactor C T c v None)) * (num_vars C + 1) < u" using Suc.prems(2) by simp
      show "remaining C (scofactor C T c v None) < k" using S that Suc.prems(3) by (auto simp: split_ok_def)
    qed
    obtain Al Bl where l: "simp_comp k u C mem (scofactor C T cl v None) = Inr (Al, Bl)"
      "ok C (scofactor C T cl v None) (lcov C (scofactor C T cl v None)) Al"
      "ok C (scofactor C T cl v None) (off C (scofactor C T cl v None)) Bl" using sub by blast
    obtain Ar Br where r: "simp_comp k u C mem (scofactor C T cr v None) = Inr (Ar, Br)"
      "ok C (scofactor C T cr v None) (lcov C (scofactor C T cr v None)) Ar"
      "ok C (scofactor C T cr v None) (off C (scofactor C T cr v None)) Br" using sub by blast
    have "\<exists>M. compl_merge C mem T Al Ar cl cr v USE_COMPL_LIFT = Inr M \<and> ok C T (lcov C T) M"
      by (rule merge_ok [OF C T S l(2) r(2)]) (use split_cov [OF C T S] in blast)+
    then obtain U where U: "compl_merge C mem T Al Ar cl cr v USE_COMPL_LIFT = Inr U" "ok C T (lcov C T) U" by blast
    have "\<exists>M. compl_merge C mem T Bl Br cl cr v USE_COMPL_LIFT = Inr M \<and> ok C T (off C T) M"
      by (rule merge_ok [OF C T S l(3) r(3)]) (use split_cov [OF C T S] in \<open>auto simp: off_def\<close>)
    then obtain V where V: "compl_merge C mem T Bl Br cl cr v USE_COMPL_LIFT = Inr V" "ok C T (off C T) V" by blast
    have "simp_comp (Suc k) u C mem T = Inr (if cnt U > CUBELISTSIZE T then cubeunlist C mem T else U, V)"
      using M s l(1) r(1) U(1) V(1) by (simp add: Let_def)
    then show ?thesis using keep_smaller [OF C T U(2)] V(2) by blast
  qed
qed simp

section \<open>Properties\<close>

text \<open>Nothing is cofactored in a list made from covers, so the whole space is free.\<close>

lemma free_cube1list: "wf_cube C \<Longrightarrow> free C (cube1list C F) x \<longleftrightarrow> point C x"
  using wf_layoutD(3) [OF wf_cubeD(1), of C] by (simp add: free_def cube1list_def new_cube_def)

lemma remaining_cube1list: "wf_cube C \<Longrightarrow> remaining C (cube1list C F) = cube_size C"
  using wf_layoutD(3) [OF wf_cubeD(1), of C] by (simp add: remaining_def cube1list_def new_cube_def)

lemma cubes_cube1list: "cubes (cube1list C F) = data F"
  by (simp add: cube1list_def)

text \<open>
  C1. With fuel for every part, the complement of a cover returns, and covers exactly
  the points that the cover does not; no cube of it meets a cube of the cover. The fuel \<open>u\<close> is for the unate leaves; up to 1025 variables no
  leaf gives up.
\<close>

theorem complement_exact:
  assumes "wf_cube C" "num_vars C \<le> 1025" "is_cover C F" "cube_size C < k" "cnt F * (num_vars C + 1) < u"
  shows "\<exists>R. complement k u C mem (cube1list C F) = Inr R \<and> is_cover C R
    \<and> onset C R = {x. point C x} - onset C F
    \<and> (\<forall>p\<in>set (data F). \<forall>r\<in>set (data R). null_cube C (elems p \<inter> elems r))"
proof -
  let ?T = "cube1list C F"
  note W = cube1list_wf [OF assms(1,3)]
  from complement_ok [OF assms(1,2) W(1), of u k mem] assms(4,5)
  obtain R where R: "complement k u C mem ?T = Inr R" "ok C ?T (off C ?T) R"
    by (auto simp: remaining_cube1list [OF assms(1)] cubes_cube1list)
  have o: "onset C R = {x. point C x} - onset C F"
    using okD(2,3) [OF R(2)] free_cube1list [OF assms(1)] W(2) unfolding off_def by blast
  have "null_cube C (elems p \<inter> elems r)" if p: "p \<in> set (data F)" "r \<in> set (data R)" for p r
  proof (rule ccontr)
    assume "\<not> null_cube C (elems p \<inter> elems r)"
    from common_point [OF assms(1) this] obtain x where "point C x" "covers C (elems p \<inter> elems r) x" .
    then have "x \<in> onset C F \<inter> onset C R" using p by (auto simp: cov_def covers_Int)
    then show False using o by blast
  qed
  then show ?thesis using R(1) okD(1) [OF R(2)] o by blast
qed

theorem complement_exact_witness:
  "\<exists>R. complement 8 20 demo_cube (\<lambda>_ _. 0) (cube1list demo_cube (cover_of 7 [[0, 2, 4], [0, 1, 3, 5], [1, 2, 3, 6]])) = Inr R
    \<and> onset demo_cube R = {x. point demo_cube x} - onset demo_cube (cover_of 7 [[0, 2, 4], [0, 1, 3, 5], [1, 2, 3, 6]])"
  using complement_exact [of demo_cube "cover_of 7 [[0, 2, 4], [0, 1, 3, 5], [1, 2, 3, 6]]" 8 20 "\<lambda>_ _. 0"]
  by (simp add: cover_of) blast

text \<open>
  C2. With fuel for every part, simplification of a cover returns a cover of the same points.
\<close>

theorem simplify_preserves:
  assumes "wf_cube C" "is_cover C F" "cube_size C < k"
  shows "\<exists>R. simplify k C mem (cube1list C F) = Inr R \<and> is_cover C R \<and> onset C R = onset C F"
proof -
  let ?T = "cube1list C F"
  note W = cube1list_wf [OF assms(1,2)]
  from simplify_ok [OF assms(1) W(1), of k mem] assms(3)
  obtain R where R: "simplify k C mem ?T = Inr R" "ok C ?T (lcov C ?T) R"
    by (auto simp: remaining_cube1list [OF assms(1)])
  have pt: "point C x" if "x \<in> onset C F" for x
    using that by (simp add: cov_def)
  have "onset C R = onset C F"
    using okD(2,3) [OF R(2)] free_cube1list [OF assms(1)] W(2) pt by blast
  then show ?thesis using R(1) okD(1) [OF R(2)] by blast
qed

theorem simplify_preserves_witness:
  "\<exists>R. simplify 8 demo_cube (\<lambda>_ _. 0) (cube1list demo_cube (cover_of 7 [[0, 2, 4], [0, 1, 3, 5], [1, 2, 3, 6]])) = Inr R
    \<and> onset demo_cube R = onset demo_cube (cover_of 7 [[0, 2, 4], [0, 1, 3, 5], [1, 2, 3, 6]])"
  using simplify_preserves [of demo_cube "cover_of 7 [[0, 2, 4], [0, 1, 3, 5], [1, 2, 3, 6]]" 8 "\<lambda>_ _. 0"]
  by (simp add: cover_of) blast

text \<open>
  C3. For a cube structure of at most 1025 variables, with fuel k for every part and fuel u for the unate
  leaves, the combined routine returns a cover of the same points and a cover of all the others: the two partition the space.
  (Beyond 1025 variables a unate leaf may give up.)
\<close>

theorem simp_comp_partitions:
  assumes "wf_cube C" "num_vars C \<le> 1025" "is_cover C F" "cube_size C < k" "cnt F * (num_vars C + 1) < u"
  shows "\<exists>A B. simp_comp k u C mem (cube1list C F) = Inr (A, B) \<and> is_cover C A \<and> is_cover C B
    \<and> onset C A = onset C F \<and> onset C A \<union> onset C B = {x. point C x} \<and> onset C A \<inter> onset C B = {}"
proof -
  let ?T = "cube1list C F"
  note W = cube1list_wf [OF assms(1,3)]
  from simp_comp_ok [OF assms(1,2) W(1), of u k mem] assms(4,5)
  obtain A B where R: "simp_comp k u C mem ?T = Inr (A, B)" "ok C ?T (lcov C ?T) A" "ok C ?T (off C ?T) B"
    by (auto simp: remaining_cube1list [OF assms(1)] cubes_cube1list)
  have pt: "point C x" if "x \<in> onset C F" for x
    using that by (simp add: cov_def)
  have "onset C A = onset C F"
    using okD(2,3) [OF R(2)] free_cube1list [OF assms(1)] W(2) pt by blast
  moreover have "onset C B = {x. point C x} - onset C F"
    using okD(2,3) [OF R(3)] free_cube1list [OF assms(1)] W(2) unfolding off_def by blast
  moreover have "onset C F \<subseteq> {x. point C x}" by (auto simp: cov_def)
  ultimately show ?thesis using R(1) okD(1) [OF R(2)] okD(1) [OF R(3)] by blast
qed

theorem simp_comp_partitions_witness:
  "\<exists>A B. simp_comp 8 20 demo_cube (\<lambda>_ _. 0) (cube1list demo_cube (cover_of 7 [[0, 2, 4], [0, 1, 3, 5], [1, 2, 3, 6]])) = Inr (A, B)
    \<and> onset demo_cube A \<inter> onset demo_cube B = {}"
  using simp_comp_partitions [of demo_cube "cover_of 7 [[0, 2, 4], [0, 1, 3, 5], [1, 2, 3, 6]]" 8 20 "\<lambda>_ _. 0"]
  by (simp add: cover_of) blast

end
