(* ===== verification/Taut.thy ===== *)
theory Taut
  imports Compl
begin

text \<open>
  The tautology test of \<^verbatim>\<open>irred.c\<close> with the component reduction of \<^verbatim>\<open>cvrm.c\<close>: does a cubelist cover
  every point?  Cofactored against a cube it answers whether a cover contains the cube.

  The unate reduction replaces the cubelist in place, so the split that follows works on
  the reduced list: it is part of the verdict \<open>Split\<close>.  The marks
  \<^verbatim>\<open>COVERED\<close> that the component search puts into the cubes are cleared on entry and nothing else reads
  them before the next search; they stand beside the cubes in the model.
\<close>

section \<open>The routines\<close>

datatype 'a verdict = Answer 'a | Split cubelist cdata_struct

text \<open>One round over the cubes, with the number of cubes newly marked; and the rounds until none is.\<close>

fun partition_pass ::
  "cube_struct \<Rightarrow> pset \<Rightarrow> pset \<Rightarrow> (bool \<times> pset) list \<Rightarrow> (bool \<times> pset) list \<times> pset \<times> nat" where
  "partition_pass C cf seed [] = ([], seed, 0)"
| "partition_pass C cf seed ((m, p) # ps) =
     (if \<not> m \<and> ccommon C p seed cf
      then (let (qs, seed, n) = partition_pass C cf (set_and seed seed p) ps in ((True, p) # qs, seed, n + 1))
      else (let (qs, seed, n) = partition_pass C cf seed ps in ((m, p) # qs, seed, n)))"

definition unmarked :: "(bool \<times> pset) list \<Rightarrow> nat" where
  "unmarked ps = length (filter (\<lambda>p. \<not> fst p) ps)"

lemma partition_pass_unmarked:
  "partition_pass C cf seed ps = (qs, seed', n) \<Longrightarrow> unmarked qs + n = unmarked ps"
  by (induction ps arbitrary: seed qs seed' n)
     (auto simp: unmarked_def split: if_splits prod.splits)

function partition_loop ::
  "cube_struct \<Rightarrow> pset \<Rightarrow> pset \<Rightarrow> nat \<Rightarrow> (bool \<times> pset) list \<Rightarrow> (bool \<times> pset) list \<times> nat" where
  "partition_loop C cf seed cnum ps =
     (let (qs, seed, n) = partition_pass C cf seed ps
      in if n \<noteq> 0 then partition_loop C cf seed (cnum + n) qs else (qs, cnum))"
  by pat_completeness auto
termination
proof (relation "measure (\<lambda>(C, cf, seed, cnum, ps). unmarked ps)")
  fix C :: cube_struct and cf seed cnum ps x qs y seed' n
  assume "x = partition_pass C cf seed ps" "(qs, y) = x" "(seed', n) = y" "n \<noteq> 0"
  then show "((C, cf, seed', cnum + n, qs), (C, cf, seed, cnum, ps)) \<in> measure (\<lambda>(C, cf, seed, cnum, ps). unmarked ps)"
    using partition_pass_unmarked [of C cf seed ps qs seed' n] by simp
qed simp

declare partition_loop.simps [simp del]

text \<open>
  The size of the remainder, and the two lists unless it is 0.  The seed is the first cube:
  both callers have one, since the union of their cubes is full.
\<close>

definition cubelist_partition :: "cube_struct \<Rightarrow> cubelist \<Rightarrow> nat \<times> (cubelist \<times> cubelist) option" where
  "cubelist_partition C T =
     (let numcube = CUBELISTSIZE T;
          ps = (True, cubes T ! 0) # map (Pair False) (tl (cubes T));
          seed = set_save (cubes T ! 0);
          (qs, cnum) = partition_loop C (cof T) seed 1 ps
      in (numcube - cnum,
          if cnum \<noteq> numcube
          then Some (T\<lparr>cubes := map snd (filter fst qs)\<rparr>, T\<lparr>cubes := map snd (filter (\<lambda>q. \<not> fst q) qs)\<rparr>)
          else None))"

text \<open>The cube that is full in the unate variables, and the cubes that are.\<close>

definition unate_ceil :: "cube_struct \<Rightarrow> cdata_struct \<Rightarrow> pset \<Rightarrow> pset" where
  "unate_ceil C cd ceil =
     fold (\<lambda>var ceil. if is_unate cd ! var then set_or ceil ceil (var_mask C ! var) else ceil)
       [0..<num_vars C] (set_copy ceil (emptyset C))"

definition unate_reduce :: "cube_struct \<Rightarrow> cubelist \<Rightarrow> pset \<Rightarrow> cubelist" where
  "unate_reduce C T ceil =
     T\<lparr>cubes := filter (\<lambda>p. setp_implies ceil (set_or (new_cube C) p (cof T))) (cubes T)\<rparr>"

text \<open>
  From the label \<^verbatim>\<open>start\<close> on.  Every jump back removes a cube; \<open>n\<close> bounds their number.
\<close>

fun taut_start :: "nat \<Rightarrow> (cubelist \<Rightarrow> bool res) \<Rightarrow> cube_struct \<Rightarrow> cubelist \<Rightarrow> bool verdict res" where
  "taut_start 0 rec C T = Inl Nofuel"
| "taut_start (Suc n) rec C T =
     (let ceil = fold (\<lambda>p ceil. set_or ceil ceil p) (cubes T) (set_copy (new_cube C) (cof T)) in
      if \<not> setp_equal ceil (fullset C) then Inr (Answer False)
      else
        (let cd = massive_count C T in
         if vars_unate cd = vars_active cd then Inr (Answer False)
         else if vars_active cd = 1 then Inr (Answer True)
         else if vars_unate cd \<noteq> 0 then taut_start n rec C (unate_reduce C T (unate_ceil C cd ceil))
         else if var_zeros cd ! nat (best_var cd) < CUBELISTSIZE T div 2 then
           (case snd (cubelist_partition C T) of
              None \<Rightarrow> Inr (Split T cd)
            | Some (A, B) \<Rightarrow> rbind (rec A) (\<lambda>a. if a then Inr (Answer True) else rmap Answer (rec B)))
         else Inr (Split T cd)))"

definition taut_special_cases :: "(cubelist \<Rightarrow> bool res) \<Rightarrow> cube_struct \<Rightarrow> cubelist \<Rightarrow> bool verdict res" where
  "taut_special_cases rec C T =
     (if list_ex (\<lambda>p. full_row C p (cof T)) (cubes T) then Inr (Answer True)
      else taut_start (Suc (CUBELISTSIZE T)) rec C T)"

fun tautology :: "nat \<Rightarrow> cube_struct \<Rightarrow> cubelist \<Rightarrow> bool res" where
  "tautology 0 C T = Inl Nofuel"
| "tautology (Suc k) C T =
     rbind (taut_special_cases (tautology k C) C T) (\<lambda>s.
       case s of
         Answer b \<Rightarrow> Inr b
       | Split T cd \<Rightarrow>
           (let (cl, cr, best) = binate_split_select C T cd (new_cube C) (new_cube C)
            in rbind (tautology k C (scofactor C T cl best None)) (\<lambda>l.
               if l then tautology k C (scofactor C T cr best None) else Inr False)))"

text \<open>\<open>self\<close> is the position of the cube in the list when it is one of its cubes.\<close>

definition cube_is_covered :: "nat \<Rightarrow> cube_struct \<Rightarrow> cubelist \<Rightarrow> pset \<Rightarrow> nat option \<Rightarrow> bool res" where
  "cube_is_covered k C T c self = tautology k C (cofactor C T c self)"

section \<open>Components\<close>

text \<open>The variables in which some cube of the list is not full.\<close>

definition act_vars :: "cube_struct \<Rightarrow> pset \<Rightarrow> pset list \<Rightarrow> nat set" where
  "act_vars C cf ps = {v. v < num_vars C \<and> (\<exists>p\<in>set ps. \<not> vparts C v \<subseteq> elems p \<union> elems cf)}"

lemma act_vars_simps [simp]:
  "act_vars C cf [] = {}"
  "act_vars C cf (p # ps) = actives C (elems p \<union> elems cf) \<union> act_vars C cf ps"
  "act_vars C cf (ps @ qs) = act_vars C cf ps \<union> act_vars C cf qs"
  by (auto simp: act_vars_def actives_def)

definition marked :: "(bool \<times> pset) list \<Rightarrow> pset list" where
  "marked ps = map snd (filter fst ps)"

definition rest :: "(bool \<times> pset) list \<Rightarrow> pset list" where
  "rest ps = map snd (filter (\<lambda>p. \<not> fst p) ps)"

lemma marked_simps [simp]:
  "marked [] = []" "marked ((m, p) # ps) = (if m then p # marked ps else marked ps)"
  "rest [] = []" "rest ((m, p) # ps) = (if m then rest ps else p # rest ps)"
  by (simp_all add: marked_def rest_def)

text \<open>The seed lacks a part exactly in the variables active in a marked cube.\<close>

definition seed_ok :: "cube_struct \<Rightarrow> pset \<Rightarrow> pset \<Rightarrow> nat set \<Rightarrow> bool" where
  "seed_ok C cf seed V \<longleftrightarrow> is_cube C seed \<and> actives C (elems seed \<union> elems cf) = V"

lemma seed_step:
  assumes "seed_ok C cf seed V" "is_cube C p"
  shows "seed_ok C cf (set_and seed seed p) (V \<union> actives C (elems p \<union> elems cf))"
proof -
  have s: "is_cube C seed" using assms(1) by (simp add: seed_ok_def)
  note b = binops_elems(1) [OF s assms(2) wf_length [OF s]] binops_wf(1) [OF s assms(2) wf_length [OF s]]
  have "actives C (elems seed \<inter> elems p \<union> elems cf) = actives C (elems seed \<union> elems cf) \<union> actives C (elems p \<union> elems cf)"
    unfolding actives_def by blast
  then show ?thesis using assms(1) b by (simp add: seed_ok_def)
qed

lemma ccommon_actives:
  assumes "wf_cube C" "is_cube C a" "is_cube C b" "is_cube C cf"
  shows "ccommon C a b cf \<longleftrightarrow> actives C (elems a \<union> elems cf) \<inter> actives C (elems b \<union> elems cf) \<noteq> {}"
  unfolding ccommon_spec [OF assms] actives_def by blast

lemma partition_pass_spec:
  assumes C: "wf_cube C" and cf: "is_cube C cf" and ps: "\<forall>p\<in>set ps. is_cube C (snd p)"
    and s: "seed_ok C cf seed V" and r: "partition_pass C cf seed ps = (qs, seed', n)"
  shows "map snd qs = map snd ps"
    "\<exists>W. seed_ok C cf seed' W \<and> V \<subseteq> W \<and> W \<union> act_vars C cf (marked ps) = V \<union> act_vars C cf (marked qs)"
    "n = 0 \<Longrightarrow> qs = ps \<and> V \<inter> act_vars C cf (rest ps) = {}"
    "length (marked qs) = length (marked ps) + n"
proof -
  have "map snd qs = map snd ps
    \<and> (\<exists>W. seed_ok C cf seed' W \<and> V \<subseteq> W \<and> W \<union> act_vars C cf (marked ps) = V \<union> act_vars C cf (marked qs))
    \<and> (n = 0 \<longrightarrow> qs = ps \<and> V \<inter> act_vars C cf (rest ps) = {})
    \<and> length (marked qs) = length (marked ps) + n"
    using ps s r
  proof (induction ps arbitrary: seed V qs seed' n)
    case (Cons mp ps)
    obtain m p where mp: "mp = (m, p)" by (cases mp)
    have p: "is_cube C p" "\<forall>p\<in>set ps. is_cube C (snd p)" using Cons.prems(1) mp by simp_all
    have sd: "is_cube C seed" "actives C (elems seed \<union> elems cf) = V" using Cons.prems(2) by (simp_all add: seed_ok_def)
    note cc = ccommon_actives [OF C p(1) sd(1) cf]
    show ?case
    proof (cases "\<not> m \<and> ccommon C p seed cf")
      case True
      obtain rs n' where r: "partition_pass C cf (set_and seed seed p) ps = (rs, seed', n')" "qs = (True, p) # rs" "n = n' + 1"
        using Cons.prems(3) True mp by (auto split: prod.splits)
      from Cons.IH [OF p(2) seed_step [OF Cons.prems(2) p(1)] r(1)]
      show ?thesis using r(2,3) mp True by auto
    next
      case False
      obtain rs n' where r: "partition_pass C cf seed ps = (rs, seed', n')" "qs = (m, p) # rs" "n = n'"
        using Cons.prems(3) False mp by (auto split: prod.splits)
      from Cons.IH [OF p(2) Cons.prems(2) r(1)]
      show ?thesis using r(2,3) mp False cc sd(2) by auto
    qed
  qed auto
  then show "map snd qs = map snd ps"
    "\<exists>W. seed_ok C cf seed' W \<and> V \<subseteq> W \<and> W \<union> act_vars C cf (marked ps) = V \<union> act_vars C cf (marked qs)"
    "n = 0 \<Longrightarrow> qs = ps \<and> V \<inter> act_vars C cf (rest ps) = {}"
    "length (marked qs) = length (marked ps) + n"
    by auto
qed

lemma partition_pass_marked:
  "partition_pass C cf seed ps = (qs, seed', n) \<Longrightarrow> set (marked ps) \<subseteq> set (marked qs)"
proof (induction ps arbitrary: seed qs seed' n)
  case (Cons mp ps)
  obtain m p where mp: "mp = (m, p)" by (cases mp)
  show ?case
  proof (cases "\<not> m \<and> ccommon C p seed cf")
    case True
    obtain rs n' where r: "partition_pass C cf (set_and seed seed p) ps = (rs, seed', n')" "qs = (True, p) # rs"
      using Cons.prems True mp by (auto split: prod.splits)
    show ?thesis using Cons.IH [OF r(1)] r(2) mp True by auto
  next
    case False
    obtain rs n' where r: "partition_pass C cf seed ps = (rs, seed', n')" "qs = (m, p) # rs"
      using Cons.prems False mp by (auto split: prod.splits)
    show ?thesis using Cons.IH [OF r(1)] r(2) mp by auto
  qed
qed simp

lemma partition_loop_spec:
  assumes C: "wf_cube C" and cf: "is_cube C cf"
    and "\<forall>p\<in>set ps. is_cube C (snd p)" "seed_ok C cf seed (act_vars C cf (marked ps))"
    and "cnum = length (marked ps)" "partition_loop C cf seed cnum ps = (qs, c)"
  shows "map snd qs = map snd ps \<and> c = length (marked qs) \<and> length (marked ps) \<le> length (marked qs)
      \<and> act_vars C cf (marked qs) \<inter> act_vars C cf (rest qs) = {}"
  using assms(3-)
proof (induction ps arbitrary: seed cnum rule: measure_induct_rule [where f = unmarked])
  case (less ps)
  obtain rs seed' n where p: "partition_pass C cf seed ps = (rs, seed', n)"
    by (cases "partition_pass C cf seed ps")
  note P = partition_pass_spec [OF C cf less.prems(1,2) p]
  obtain W where W: "seed_ok C cf seed' W" "act_vars C cf (marked ps) \<subseteq> W"
    "W \<union> act_vars C cf (marked ps) = act_vars C cf (marked ps) \<union> act_vars C cf (marked rs)" using P(2) by blast
  show ?case
  proof (cases "n = 0")
    case True
    then show ?thesis using P(3) p less.prems(3,4) by (auto simp: partition_loop.simps [of C])
  next
    case False
    have sub: "set (marked ps) \<subseteq> set (marked rs)" using partition_pass_marked [OF p] .
    have "act_vars C cf (marked ps) \<subseteq> act_vars C cf (marked rs)" using sub unfolding act_vars_def by blast
    then have W': "seed_ok C cf seed' (act_vars C cf (marked rs))" using W by (metis sup.absorb2 sup.absorb_iff1)
    have eq: "snd ` set rs = snd ` set ps" using arg_cong [OF P(1), of set] by (simp only: set_map)
    have "\<forall>q\<in>snd ` set rs. is_cube C q" unfolding eq using less.prems(1) by blast
    then have cs: "\<forall>p\<in>set rs. is_cube C (snd p)" by blast
    have l: "partition_loop C cf seed' (cnum + n) rs = (qs, c)"
      using less.prems(4) p False by (simp add: partition_loop.simps [of C cf seed])
    have "unmarked rs < unmarked ps" using partition_pass_unmarked [OF p] False by simp
    from less.IH [OF this cs W' _ l] P(1,4) less.prems(3) show ?thesis by simp
  qed
qed

lemma cubelist_partition_spec:
  assumes C: "wf_cube C" and T: "wf_list C T" and ne: "cubes T \<noteq> []"
    and r: "snd (cubelist_partition C T) = Some (A, B)"
  obtains as bs where "A = T\<lparr>cubes := as\<rparr>" "B = T\<lparr>cubes := bs\<rparr>" "as \<noteq> []" "bs \<noteq> []"
    "set as \<union> set bs = set (cubes T)" "length as + length bs = length (cubes T)"
    "act_vars C (cof T) as \<inter> act_vars C (cof T) bs = {}"
proof -
  obtain p ps where ps: "cubes T = p # ps" using ne unfolding neq_Nil_conv by blast
  define ms where "ms = (True, p) # map (Pair False) ps"
  have p: "is_cube C p" "\<forall>p\<in>set ps. is_cube C p" using wf_listD(2) [OF T] ps by simp_all
  have m: "marked ms = [p]" by (simp add: ms_def marked_def filter_map o_def)
  obtain qs c where q: "partition_loop C (cof T) p 1 ms = (qs, c)" by (cases "partition_loop C (cof T) p 1 ms")
  have Q: "map snd qs = map snd ms \<and> c = length (marked qs) \<and> length (marked ms) \<le> length (marked qs)
      \<and> act_vars C (cof T) (marked qs) \<inter> act_vars C (cof T) (rest qs) = {}"
  proof (rule partition_loop_spec [OF C wf_listD(1) [OF T] _ _ _ q])
    show "\<forall>p\<in>set ms. is_cube C (snd p)" using p by (auto simp: ms_def)
    show "seed_ok C (cof T) p (act_vars C (cof T) (marked ms))" using p by (simp add: m seed_ok_def)
    show "1 = length (marked ms)" by (simp add: m)
  qed
  have r': "c \<noteq> length (cubes T)" "A = T\<lparr>cubes := marked qs\<rparr>" "B = T\<lparr>cubes := rest qs\<rparr>"
    using r ps p q by (auto simp: cubelist_partition_def ms_def [symmetric] CUBELISTSIZE_def marked_def rest_def
        split: prod.splits if_splits)
  have len: "length (marked qs) + length (rest qs) = length (cubes T)"
  proof -
    have "length (marked qs) + length (rest qs) = length (map snd qs)"
      using sum_length_filter_compl [of fst qs] by (simp add: marked_def rest_def)
    then show ?thesis using Q by (simp add: ps ms_def)
  qed
  show ?thesis
  proof (rule that [OF r'(2,3)])
    have "set (marked qs) \<union> set (rest qs) = snd ` set qs" by (auto simp: marked_def rest_def)
    also have "\<dots> = set (map snd ms)" using Q by (metis list.set_map)
    finally show "set (marked qs) \<union> set (rest qs) = set (cubes T)" by (auto simp: ms_def ps)
    show "marked qs \<noteq> []" using Q m by auto
    show "rest qs \<noteq> []" using len r'(1) Q by auto
    show "act_vars C (cof T) (marked qs) \<inter> act_vars C (cof T) (rest qs) = {}" using Q by blast
  qed (rule len)
qed

text \<open>
  Lists without a common active variable: a point outside the one and a point outside the other
  combine to a point outside both.
\<close>

definition mix :: "nat set \<Rightarrow> (nat \<Rightarrow> nat) \<Rightarrow> (nat \<Rightarrow> nat) \<Rightarrow> nat \<Rightarrow> nat" where
  "mix V x y = (\<lambda>v. if v \<in> V then x v else y v)"

lemma mix_free: "free C T x \<Longrightarrow> free C T y \<Longrightarrow> free C T (mix V x y)"
  by (simp add: free_def point_def mix_def)

lemma lcov_act:
  assumes "x \<in> lcov C T" "\<forall>v\<in>act_vars C (cof T) (cubes T). x v = y v" "point C y"
  shows "y \<in> lcov C T"
proof -
  obtain p where p: "p \<in> set (cubes T)" "covers C (elems p \<union> elems (cof T)) x" using assms(1) by (auto simp: lcov_iff)
  have "y v \<in> elems p \<union> elems (cof T)" if v: "v < num_vars C" for v
  proof (cases "v \<in> act_vars C (cof T) (cubes T)")
    case True
    then show ?thesis using assms(2) p(2) v unfolding covers_def by fastforce
  next
    case False
    then have "vparts C v \<subseteq> elems p \<union> elems (cof T)" using p(1) v unfolding act_vars_def by blast
    then show ?thesis using assms(3) v by (auto simp: point_def)
  qed
  then show ?thesis using p(1) assms(3) by (auto simp: lcov_iff covers_def)
qed

lemma components:
  assumes A: "A = T\<lparr>cubes := as\<rparr>" and B: "B = T\<lparr>cubes := bs\<rparr>" and s: "set as \<union> set bs = set (cubes T)"
    and d: "act_vars C (cof T) as \<inter> act_vars C (cof T) bs = {}"
    and x: "free C T x" "x \<notin> lcov C A" and y: "free C T y" "y \<notin> lcov C B"
  shows "mix (act_vars C (cof T) as) x y \<notin> lcov C T"
proof
  let ?z = "mix (act_vars C (cof T) as) x y"
  assume "?z \<in> lcov C T"
  then have "?z \<in> lcov C A \<or> ?z \<in> lcov C B" using s unfolding lcov_iff A B by auto
  then show False
  proof
    assume "?z \<in> lcov C A"
    from lcov_act [OF this, of x] show False using x free_point by (auto simp: A mix_def)
  next
    assume "?z \<in> lcov C B"
    moreover have "\<forall>v\<in>act_vars C (cof B) (cubes B). ?z v = y v" using d by (auto simp: B mix_def)
    ultimately have "y \<in> lcov C B" using free_point [OF y(1)] by (rule lcov_act)
    then show False using y(2) by simp
  qed
qed

section \<open>The special cases\<close>

text \<open>The list covers every point away from the cofactored parts.\<close>

definition tauto :: "cube_struct \<Rightarrow> cubelist \<Rightarrow> bool" where
  "tauto C T \<longleftrightarrow> (\<forall>x. free C T x \<longrightarrow> x \<in> lcov C T)"

lemma full_row_tauto:
  assumes "wf_cube C" "wf_list C T" "list_ex (\<lambda>p. full_row C p (cof T)) (cubes T)"
  shows "tauto C T"
  using full_row_tautology [OF assms] free_point by (auto simp: tauto_def)

lemma free_upd:
  assumes C: "wf_cube C" and x: "free C T x" and v: "v < num_vars C" and e: "e \<in> vparts C v" "e \<notin> elems (cof T)"
  shows "free C T (x(v := e))"
  using assms by (auto simp: free_def point_def)

lemma zero_column:
  assumes C: "wf_cube C" and T: "wf_list C T" and x: "free C T x" and n: "elems (ceiling T) \<noteq> {..<cube_size C}"
  shows "\<not> tauto C T"
proof -
  note L = wf_cubeD(1) [OF C]
  obtain e where e: "e < cube_size C" "e \<notin> elems (ceiling T)"
    using n wf_elems [OF ceiling_spec(1) [OF T]] by blast
  obtain v where v: "v < num_vars C" "e \<in> vparts C v" using vparts_cover [OF L e(1)] .
  have ec: "e \<notin> elems (cof T)" "\<forall>p\<in>set (cubes T). e \<notin> elems p" using e(2) ceiling_spec(2) [OF T] by auto
  have "x(v := e) \<notin> lcov C T" using ec v(1) by (auto simp: lcov_iff covers_def)
  then show ?thesis using free_upd [OF C x v ec(1)] by (auto simp: tauto_def)
qed

text \<open>
  With one active part in each active variable, the point of the active parts is outside, and apart
  from every cube in every active variable of the cube.
\<close>

lemma apart_leaf:
  assumes C: "wf_cube C" and T: "wf_list C T" and u: "all_unate C T" and x: "free C T x"
  obtains y where "free C T y" "\<forall>p\<in>set (cubes T). \<forall>v\<in>actives C (elems p \<union> elems (cof T)). y v \<notin> elems p \<union> elems (cof T)"
proof -
  define y where "y v = (if active_parts C T v = {} then x v else the_elem (active_parts C T v))" for v
  have y: "active_parts C T v = {y v}" if v: "v < num_vars C" "active_parts C T v \<noteq> {}" for v
  proof -
    have "card (active_parts C T v) = 1"
      using u v card_gt_0_iff [of "active_parts C T v"] by (auto simp: all_unate_def le_Suc_eq)
    then obtain a where "active_parts C T v = {a}" by (rule card_1_singletonE)
    then show ?thesis by (simp add: y_def)
  qed
  have yv: "y v \<in> vparts C v \<and> y v \<notin> elems (cof T)" if v: "v < num_vars C" for v
  proof (cases "active_parts C T v = {}")
    case True
    then show ?thesis using x v by (simp add: y_def free_def point_def)
  next
    case False
    then have "y v \<in> active_parts C T v" using y [OF v] by simp
    then show ?thesis by (auto simp: active_parts_def)
  qed
  show ?thesis
  proof (rule that)
    show "free C T y" using yv by (auto simp: free_def point_def)
    show "\<forall>p\<in>set (cubes T). \<forall>v\<in>actives C (elems p \<union> elems (cof T)). y v \<notin> elems p \<union> elems (cof T)"
    proof (intro ballI)
      fix p v assume p: "p \<in> set (cubes T)" and v: "v \<in> actives C (elems p \<union> elems (cof T))"
      obtain e where e: "e \<in> vparts C v" "e \<notin> elems p \<union> elems (cof T)" "v < num_vars C" using v by (auto simp: actives_def)
      then have "e \<in> active_parts C T v" using p by (auto simp: active_parts_def)
      then have "e = y v" using y e(3) by blast
      then show "y v \<notin> elems p \<union> elems (cof T)" using e(2) by simp
    qed
  qed
qed

lemma not_full_active:
  assumes C: "wf_cube C" and T: "wf_list C T" and p: "p \<in> set (cubes T)" "\<not> full_row C p (cof T)"
  shows "actives C (elems p \<union> elems (cof T)) \<noteq> {}"
proof -
  have w: "is_cube C p" "is_cube C (cof T)" using T p(1) wf_listD by auto
  have "elems p \<union> elems (cof T) \<noteq> {..<cube_size C}" using p full_row_spec [OF C w] by blast
  then obtain e where e: "e < cube_size C" "e \<notin> elems p \<union> elems (cof T)"
    using wf_elems [OF w(1)] wf_elems [OF w(2)] by blast
  obtain v where "v < num_vars C" "e \<in> vparts C v" using vparts_cover [OF wf_cubeD(1) [OF C] e(1)] .
  then show ?thesis using e(2) by (auto simp: actives_def)
qed

lemma unate_leaf_point:
  assumes C: "wf_cube C" and T: "wf_list C T" and u: "all_unate C T" and x: "free C T x"
    and nf: "\<forall>p\<in>set (cubes T). \<not> full_row C p (cof T)"
  shows "\<not> tauto C T"
proof -
  obtain y where y: "free C T y" "\<forall>p\<in>set (cubes T). \<forall>v\<in>actives C (elems p \<union> elems (cof T)). y v \<notin> elems p \<union> elems (cof T)"
    by (rule apart_leaf [OF C T u x])
  have "y \<notin> lcov C T"
  proof
    assume "y \<in> lcov C T"
    then obtain p where p: "p \<in> set (cubes T)" "covers C (elems p \<union> elems (cof T)) y" by (auto simp: lcov_iff)
    then have "actives C (elems p \<union> elems (cof T)) \<noteq> {}" using not_full_active [OF C T] nf by blast
    then obtain v where "v \<in> actives C (elems p \<union> elems (cof T))" by blast
    then show False using y(2) p by (auto simp: covers_def actives_def)
  qed
  then show ?thesis using y(1) by (auto simp: tauto_def)
qed

lemma unate_counts_iff:
  assumes "wf_cube C" "wf_list C T"
  shows "vars_unate (massive_count C T) = vars_active (massive_count C T) \<longleftrightarrow> all_unate C T"
  using unate_counts(1) [OF assms] not_unate [OF assms] by blast

section \<open>Unate reduction\<close>

lemma unate_ceil_spec:
  assumes C: "wf_cube C" and T: "wf_list C T" and l: "length c = SET_SIZE (cube_size C)"
  defines "m \<equiv> unate_ceil C (massive_count C T) c"
  shows "is_cube C m" "elems m = (\<Union>v\<in>{v. v < num_vars C \<and> card (active_parts C T v) = 1}. vparts C v)"
proof -
  note M = massive_count_spec(5) [OF C T]
  define step where "step var ceil = (if is_unate (massive_count C T) ! var then set_or ceil ceil (var_mask C ! var) else ceil)"
    for var ceil
  have "is_cube C (fold step [0..<n] (emptyset C)) \<and> elems (fold step [0..<n] (emptyset C)) =
      (\<Union>v\<in>{v. v < n \<and> card (active_parts C T v) = 1}. vparts C v)" if "n \<le> num_vars C" for n
    using that
  proof (induction n)
    case 0
    then show ?case using C by simp
  next
    case (Suc n)
    then have IH: "is_cube C (fold step [0..<n] (emptyset C))"
      "elems (fold step [0..<n] (emptyset C)) = (\<Union>v\<in>{v. v < n \<and> card (active_parts C T v) = 1}. vparts C v)" by auto
    have n: "n < num_vars C" using Suc.prems by simp
    note m = wf_cubeD(9,10) [OF C n]
    let ?F = "fold step [0..<n] (emptyset C)"
    note w = binops_wf(2) [OF IH(1) m(1) wf_length [OF IH(1)]] binops_elems(2) [OF IH(1) m(1) wf_length [OF IH(1)]]
    have f: "fold step [0..<Suc n] (emptyset C) = step n ?F" by simp
    have set: "{v. v < Suc n \<and> card (active_parts C T v) = 1} =
        {v. v < n \<and> card (active_parts C T v) = 1} \<union> (if card (active_parts C T n) = 1 then {n} else {})"
      by (auto simp: less_Suc_eq)
    show ?case unfolding f set using w IH m(2) M [OF n] by (cases "is_unate (massive_count C T) ! n") (auto simp: step_def)
  qed
  note all = this [OF order_refl]
  have "m = fold step [0..<num_vars C] (emptyset C)"
    unfolding m_def unate_ceil_def set_copy_eq [OF wf_cubeD(5) [OF C] l] step_def [abs_def] ..
  then show "is_cube C m" "elems m = (\<Union>v\<in>{v. v < num_vars C \<and> card (active_parts C T v) = 1}. vparts C v)"
    using all by simp_all
qed

lemma unate_reduce_cubes:
  assumes C: "wf_cube C" and T: "wf_list C T" and l: "length c = SET_SIZE (cube_size C)"
  defines "R \<equiv> unate_reduce C T (unate_ceil C (massive_count C T) c)"
  shows "wf_list C R" "cof R = cof T"
    "set (cubes R) = {p \<in> set (cubes T). \<forall>v<num_vars C. card (active_parts C T v) = 1 \<longrightarrow> vparts C v \<subseteq> elems p \<union> elems (cof T)}"
    "length (cubes R) \<le> length (cubes T)"
    "v < num_vars C \<Longrightarrow> card (active_parts C T v) = 1 \<Longrightarrow> length (cubes R) < length (cubes T)"
proof -
  note m = unate_ceil_spec [OF C T l]
  define m where "m = unate_ceil C (massive_count C T) c"
  have R: "cubes R = filter (\<lambda>p. setp_implies m (set_or (new_cube C) p (cof T))) (cubes T)" "cof R = cof T"
    by (simp_all add: R_def unate_reduce_def m_def)
  have test: "setp_implies m (set_or (new_cube C) p (cof T)) \<longleftrightarrow>
      (\<forall>v<num_vars C. card (active_parts C T v) = 1 \<longrightarrow> vparts C v \<subseteq> elems p \<union> elems (cof T))"
    if p: "p \<in> set (cubes T)" for p
  proof -
    note w = wf_listD(2) [OF T p] wf_listD(1) [OF T] new_cube_length
    show ?thesis
      using setp_implies_iff [OF m(1) binops_wf(2) [OF w]] binops_elems(2) [OF w] m(2) unfolding m_def by auto
  qed
  show "set (cubes R) = {p \<in> set (cubes T). \<forall>v<num_vars C. card (active_parts C T v) = 1 \<longrightarrow> vparts C v \<subseteq> elems p \<union> elems (cof T)}"
    using test R(1) by auto
  show "wf_list C R" "cof R = cof T" "length (cubes R) \<le> length (cubes T)" using T R by (auto simp: wf_list_def)
  show "length (cubes R) < length (cubes T)" if v: "v < num_vars C" "card (active_parts C T v) = 1"
  proof -
    obtain e where "e \<in> active_parts C T v" using v(2) by (metis card.empty ex_in_conv zero_neq_one)
    then obtain p where "e \<in> vparts C v" "p \<in> set (cubes T)" "e \<notin> elems p \<union> elems (cof T)" by (auto simp: active_parts_def)
    then have "p \<in> set (cubes T)" "\<not> setp_implies m (set_or (new_cube C) p (cof T))" using test v by blast+
    then show ?thesis unfolding R(1) by (rule length_filter_less)
  qed
qed

lemma unate_reduce_filter:
  assumes C: "wf_cube C" and T: "wf_list C T" and l: "length c = SET_SIZE (cube_size C)"
  defines "R \<equiv> unate_reduce C T (unate_ceil C (massive_count C T) c)"
  shows "tauto C (R\<lparr>cubes := filter P (cubes R)\<rparr>) \<longleftrightarrow> tauto C (T\<lparr>cubes := filter P (cubes T)\<rparr>)"
    (is "tauto C ?R \<longleftrightarrow> tauto C ?T")
proof -
  note R = unate_reduce_cubes [OF C T l, folded R_def]
  define U where "U = {v. v < num_vars C \<and> card (active_parts C T v) = 1}"
  have free: "free C ?R x \<longleftrightarrow> free C ?T x" for x by (simp add: free_def R(2))
  have sub: "lcov C ?R \<subseteq> lcov C ?T" using R(2,3) by (auto simp: lcov_iff)
  have "x \<in> lcov C ?R" if t: "tauto C ?T" and x: "free C ?T x" for x
  proof -
    define y where "y v = (if v \<in> U then the_elem (active_parts C T v) else x v)" for v
    have yU: "active_parts C T v = {y v}" if "v \<in> U" for v
    proof -
      have "card (active_parts C T v) = 1" using that by (simp add: U_def)
      then obtain a where "active_parts C T v = {a}" by (rule card_1_singletonE)
      then show ?thesis using that by (simp add: y_def)
    qed
    have "y v \<in> vparts C v \<and> y v \<notin> elems (cof T)" if v: "v < num_vars C" for v
    proof (cases "v \<in> U")
      case True
      then have "y v \<in> active_parts C T v" using yU by blast
      then show ?thesis by (auto simp: active_parts_def)
    next
      case False
      then show ?thesis using x v by (simp add: y_def free_def point_def)
    qed
    then have "free C ?T y" by (simp add: free_def point_def)
    then have "y \<in> lcov C ?T" using t by (simp add: tauto_def)
    then obtain p where p: "p \<in> set (cubes T)" "P p" "covers C (elems p \<union> elems (cof T)) y" by (auto simp: lcov_iff)
    have full: "vparts C v \<subseteq> elems p \<union> elems (cof T)" if v: "v \<in> U" for v
    proof
      fix e assume e: "e \<in> vparts C v"
      show "e \<in> elems p \<union> elems (cof T)"
      proof (rule ccontr)
        assume n: "e \<notin> elems p \<union> elems (cof T)"
        then have "e \<in> active_parts C T v" using e p(1) by (auto simp: active_parts_def)
        then have "e = y v" using yU [OF v] by simp
        then show False using n p(3) v by (auto simp: covers_def U_def)
      qed
    qed
    have "p \<in> set (cubes R)" using p(1) full unfolding R(3) U_def by blast
    moreover have "x v \<in> elems p \<union> elems (cof T)" if v: "v < num_vars C" for v
    proof (cases "v \<in> U")
      case True
      then show ?thesis using full x v by (auto simp: free_def point_def)
    next
      case False
      then show ?thesis using p(3) v by (auto simp: covers_def y_def)
    qed
    ultimately show ?thesis using free_point [OF x] p(2) by (auto simp: lcov_iff R(2) covers_def)
  qed
  then show ?thesis using sub free unfolding tauto_def by blast
qed

lemma unate_reduce_tauto:
  assumes "wf_cube C" "wf_list C T" "length c = SET_SIZE (cube_size C)"
  shows "tauto C (unate_reduce C T (unate_ceil C (massive_count C T) c)) \<longleftrightarrow> tauto C T"
  using unate_reduce_filter [OF assms, of "\<lambda>_. True"] by simp

section \<open>Correctness of the test\<close>

lemma start_ceil:
  assumes "wf_list C T"
  shows "fold (\<lambda>p ceil. set_or ceil ceil p) (cubes T) (set_copy (new_cube C) (cof T)) = ceiling T"
  using wf_listD(1) [OF assms] by (simp add: ceiling_def)

lemma lcov_subset: "set ps \<subseteq> set (cubes T) \<Longrightarrow> lcov C (T\<lparr>cubes := ps\<rparr>) \<subseteq> lcov C T"
  by (simp add: lcov_def cov_mono image_mono)

lemma partition_tauto:
  assumes A: "A = T\<lparr>cubes := as\<rparr>" and B: "B = T\<lparr>cubes := bs\<rparr>" and s: "set as \<union> set bs = set (cubes T)"
    and d: "act_vars C (cof T) as \<inter> act_vars C (cof T) bs = {}"
  shows "tauto C T \<longleftrightarrow> tauto C A \<or> tauto C B"
proof -
  have free: "free C A x \<longleftrightarrow> free C T x" "free C B x \<longleftrightarrow> free C T x" for x by (simp_all add: A B free_def)
  have sub: "lcov C A \<subseteq> lcov C T" "lcov C B \<subseteq> lcov C T" unfolding A B by (rule lcov_subset, use s in blast)+
  have "\<not> tauto C T" if n: "\<not> tauto C A" "\<not> tauto C B"
  proof -
    obtain x where x: "free C T x" "x \<notin> lcov C A" using n(1) free by (auto simp: tauto_def)
    obtain y where y: "free C T y" "y \<notin> lcov C B" using n(2) free by (auto simp: tauto_def)
    show ?thesis using components [OF A B s d x y] mix_free [OF x(1) y(1)] unfolding tauto_def by blast
  qed
  then show ?thesis using sub free unfolding tauto_def by blast
qed

lemma taut_start_ok:
  assumes C: "wf_cube C" and x: "free C T x"
    and "wf_list C T" "\<forall>p\<in>set (cubes T). \<not> full_row C p (cof T)" "length (cubes T) < n"
    and "\<And>T'. wf_list C T' \<Longrightarrow> cof T' = cof T \<Longrightarrow> length (cubes T') < length (cubes T) \<Longrightarrow> rec T' = Inr (tauto C T')"
  shows "taut_start n rec C T = Inr (Answer (tauto C T)) \<or>
    (\<exists>T'. taut_start n rec C T = Inr (Split T' (massive_count C T')) \<and> wf_list C T' \<and> cof T' = cof T
       \<and> length (cubes T') \<le> length (cubes T) \<and> (tauto C T' \<longleftrightarrow> tauto C T) \<and> \<not> all_unate C T')"
  using assms(2-)
proof (induction n arbitrary: T)
  case (Suc n)
  note x = Suc.prems(1) and T = Suc.prems(2) and nf = Suc.prems(3) and len = Suc.prems(4) and rec = Suc.prems(5)
  let ?cd = "massive_count C T"
  have full: "setp_equal (ceiling T) (fullset C) \<longleftrightarrow> elems (ceiling T) = {..<cube_size C}"
    using setp_full_cube [OF C ceiling_spec(1) [OF T]] .
  have l: "length (ceiling T) = SET_SIZE (cube_size C)" using wf_length [OF ceiling_spec(1) [OF T]] .
  note eq = taut_start.simps(2) [of n rec C T, unfolded start_ceil [OF T] Let_def full]
  consider "elems (ceiling T) \<noteq> {..<cube_size C}"
    | "elems (ceiling T) = {..<cube_size C}" "all_unate C T"
    | "elems (ceiling T) = {..<cube_size C}" "\<not> all_unate C T" "vars_active ?cd = 1"
    | "elems (ceiling T) = {..<cube_size C}" "\<not> all_unate C T" "vars_active ?cd \<noteq> 1" "vars_unate ?cd \<noteq> 0"
    | "elems (ceiling T) = {..<cube_size C}" "\<not> all_unate C T" "vars_active ?cd \<noteq> 1" "vars_unate ?cd = 0"
    by blast
  then show ?case
  proof cases
    case 1
    then show ?thesis using zero_column [OF C T x] unfolding eq by simp
  next
    case 2
    then show ?thesis using unate_leaf_point [OF C T _ x nf] unate_counts_iff [OF C T] unfolding eq by simp
  next
    case 3
    then have "tauto C T" using single_active_tautology [OF C T] free_point by (auto simp: tauto_def)
    then show ?thesis using 3 unate_counts_iff [OF C T] unfolding eq by simp
  next
    case 4
    let ?R = "unate_reduce C T (unate_ceil C ?cd (ceiling T))"
    note R = unate_reduce_cubes [OF C T l]
    have e: "taut_start (Suc n) rec C T = taut_start n rec C ?R"
      using 4 unate_counts_iff [OF C T] unfolding eq by simp
    have "{v. v < num_vars C \<and> card (active_parts C T v) = 1} \<noteq> {}"
      using 4(4) massive_count_spec(7) [OF C T] by (metis card.empty)
    then obtain v where "v < num_vars C" "card (active_parts C T v) = 1" by blast
    then have less: "length (cubes ?R) < length (cubes T)" by (rule R(5))
    have "taut_start n rec C ?R = Inr (Answer (tauto C ?R)) \<or>
      (\<exists>T'. taut_start n rec C ?R = Inr (Split T' (massive_count C T')) \<and> wf_list C T' \<and> cof T' = cof ?R
       \<and> length (cubes T') \<le> length (cubes ?R) \<and> (tauto C T' \<longleftrightarrow> tauto C ?R) \<and> \<not> all_unate C T')"
    proof (rule Suc.IH)
      show "free C ?R x" using x by (simp add: free_def R(2))
      show "\<forall>p\<in>set (cubes ?R). \<not> full_row C p (cof ?R)" using nf R(2,3) by auto
      show "length (cubes ?R) < n" using less len by simp
      show "rec T' = Inr (tauto C T')" if "wf_list C T'" "cof T' = cof ?R" "length (cubes T') < length (cubes ?R)" for T'
        using rec that R(2) less by simp
    qed (rule R(1))
    then show ?thesis unfolding e using unate_reduce_tauto [OF C T l] R(2) less by fastforce
  next
    case 5
    have ne: "cubes T \<noteq> []"
    proof
      assume "cubes T = []"
      then have "elems (cof T) = {..<cube_size C}" using 5(1) ceiling_spec(2) [OF T] by simp
      then show False using x wf_layoutD(1) [OF wf_cubeD(1) [OF C]] vparts_less [OF wf_cubeD(1) [OF C]]
        by (auto simp: free_def point_def)
    qed
    let ?split = "taut_start (Suc n) rec C T = Inr (Split T ?cd)"
    show ?thesis
    proof (cases "var_zeros ?cd ! nat (best_var ?cd) < CUBELISTSIZE T div 2 \<and> snd (cubelist_partition C T) \<noteq> None")
      case True
      then obtain A B where AB: "snd (cubelist_partition C T) = Some (A, B)" by auto
      obtain as bs where P: "A = T\<lparr>cubes := as\<rparr>" "B = T\<lparr>cubes := bs\<rparr>" "as \<noteq> []" "bs \<noteq> []"
        "set as \<union> set bs = set (cubes T)" "length as + length bs = length (cubes T)"
        "act_vars C (cof T) as \<inter> act_vars C (cof T) bs = {}" by (rule cubelist_partition_spec [OF C T ne AB])
      have "length as < length (cubes T)" "length bs < length (cubes T)" using P(3,4,6) by (simp_all flip: length_greater_0_conv)
      moreover have "wf_list C A" "wf_list C B" using T P(1,2,5) by (auto simp: wf_list_def)
      ultimately have "rec A = Inr (tauto C A)" "rec B = Inr (tauto C B)" using rec P(1,2) by simp_all
      then have "taut_start (Suc n) rec C T = Inr (Answer (tauto C A \<or> tauto C B))"
        using 5 True AB unate_counts_iff [OF C T] unfolding eq by simp
      then show ?thesis using partition_tauto [OF P(1,2,5,7)] by simp
    next
      case False
      then have ?split using 5 unate_counts_iff [OF C T] unfolding eq by (cases "snd (cubelist_partition C T)") auto
      then show ?thesis using T 5(2) by blast
    qed
  qed
qed simp

text \<open>A point of one half of a split.\<close>

lemma split_free_iff:
  assumes C: "wf_cube C" and T: "wf_list C T" and s: "split_ok C T cl cr v" and c: "c = cl \<or> c = cr"
  shows "free C (scofactor C T c v None) x \<longleftrightarrow> free C T x \<and> covers C (elems c) x"
proof
  have ic: "is_cube C c" using s c by (auto simp: split_ok_def)
  assume "free C (scofactor C T c v None) x"
  then have f: "point C x" "\<forall>v<num_vars C. x v \<notin> elems (cof T) \<union> ({..<cube_size C} - elems c)"
    by (simp_all add: free_def cofactor_wf(4) [OF C T ic])
  then show "free C T x \<and> covers C (elems c) x"
    using vparts_less [OF wf_cubeD(1) [OF C]] by (auto simp: free_def covers_def point_def)
qed (use split_free [OF C T s c] in blast)

lemma split_tauto:
  assumes C: "wf_cube C" and T: "wf_list C T" and s: "split_ok C T cl cr v"
  shows "tauto C T \<longleftrightarrow> tauto C (scofactor C T cl v None) \<and> tauto C (scofactor C T cr v None)"
proof -
  have h: "tauto C (scofactor C T c v None) \<longleftrightarrow> (\<forall>x. free C T x \<and> covers C (elems c) x \<longrightarrow> x \<in> lcov C T)"
    if c: "c = cl \<or> c = cr" for c
    unfolding tauto_def split_free_iff [OF C T s c] using split_cov [OF C T s c] free_point by blast
  have h: "tauto C (scofactor C T cl v None) \<longleftrightarrow> (\<forall>x. free C T x \<and> covers C (elems cl) x \<longrightarrow> x \<in> lcov C T)"
    "tauto C (scofactor C T cr v None) \<longleftrightarrow> (\<forall>x. free C T x \<and> covers C (elems cr) x \<longrightarrow> x \<in> lcov C T)"
    using h by simp_all
  show ?thesis unfolding h unfolding tauto_def using split_cases [OF C s] by blast
qed

lemma split_point:
  assumes C: "wf_cube C" and T: "wf_list C T" and s: "split_ok C T cl cr v" and x: "free C T x"
    and c: "c = cl \<and> d = cr \<or> c = cr \<and> d = cl"
  shows "\<exists>y. free C (scofactor C T c v None) y"
proof -
  have S: "v < num_vars C" "is_cube C c" "is_cube C d" "(elems c \<union> elems d) \<inter> vparts C v = vparts C v - elems (cof T)"
    "{..<cube_size C} - vparts C v \<subseteq> elems c" "{..<cube_size C} - vparts C v \<subseteq> elems d"
    "remaining C (scofactor C T d v None) < remaining C T"
    using s c by (auto simp: split_ok_def)
  have "\<not> {..<cube_size C} - elems (cof T) \<subseteq> {..<cube_size C} - elems (cof (scofactor C T d v None))"
    using S(7) card_mono [of "{..<cube_size C} - elems (cof (scofactor C T d v None))" "{..<cube_size C} - elems (cof T)"]
    by (auto simp: remaining_def)
  then obtain e where e: "e < cube_size C" "e \<notin> elems (cof T)" "e \<notin> elems d"
    unfolding cofactor_wf(4) [OF C T S(3)] by blast
  then have ev: "e \<in> vparts C v" using S(6) by blast
  then have "e \<in> elems c" using S(4) e by blast
  moreover have "x u \<in> elems c" if "u < num_vars C" "u \<noteq> v" for u
  proof -
    have "x u \<in> vparts C u" using x that(1) by (simp add: free_def point_def)
    then show ?thesis using vparts_less [OF wf_cubeD(1) [OF C] that(1)] vparts_disjoint [OF wf_cubeD(1) [OF C] that(1) S(1)] that(2) S(5) by blast
  qed
  ultimately have "covers C (elems c) (x(v := e))" by (simp add: covers_def)
  then show ?thesis using free_upd [OF C x S(1) ev e(2)] split_free_iff [OF C T s] c by blast
qed

theorem tautology_ok:
  assumes C: "wf_cube C" and "wf_list C T" "free C T x" "remaining C T + length (cubes T) < k"
  shows "tautology k C T = Inr (tauto C T)"
  using assms(2-)
proof (induction k arbitrary: T x)
  case (Suc k)
  note T = Suc.prems(1) and x = Suc.prems(2) and k = Suc.prems(3)
  show ?case
  proof (cases "list_ex (\<lambda>p. full_row C p (cof T)) (cubes T)")
    case True
    then show ?thesis using full_row_tauto [OF C T] by (simp add: taut_special_cases_def)
  next
    case False
    then have nf: "\<forall>p\<in>set (cubes T). \<not> full_row C p (cof T)" by (simp add: list_ex_iff)
    have sp: "taut_special_cases (tautology k C) C T = taut_start (Suc (length (cubes T))) (tautology k C) C T"
      using False by (simp add: taut_special_cases_def CUBELISTSIZE_def)
    have "taut_start (Suc (length (cubes T))) (tautology k C) C T = Inr (Answer (tauto C T)) \<or>
    (\<exists>T'. taut_start (Suc (length (cubes T))) (tautology k C) C T = Inr (Split T' (massive_count C T')) \<and> wf_list C T' \<and> cof T' = cof T
       \<and> length (cubes T') \<le> length (cubes T) \<and> (tauto C T' \<longleftrightarrow> tauto C T) \<and> \<not> all_unate C T')"
    proof (rule taut_start_ok [OF C x T nf])
      show "tautology k C T' = Inr (tauto C T')"
        if "wf_list C T'" "cof T' = cof T" "length (cubes T') < length (cubes T)" for T'
        using Suc.IH [OF that(1), of x] x k that(2,3) by (simp add: free_def remaining_def)
    qed simp
    then show ?thesis
    proof
      assume "taut_start (Suc (length (cubes T))) (tautology k C) C T = Inr (Answer (tauto C T))"
      then show ?thesis by (simp add: sp)
    next
      assume "\<exists>T'. taut_start (Suc (length (cubes T))) (tautology k C) C T = Inr (Split T' (massive_count C T')) \<and> wf_list C T'
        \<and> cof T' = cof T \<and> length (cubes T') \<le> length (cubes T) \<and> (tauto C T' \<longleftrightarrow> tauto C T) \<and> \<not> all_unate C T'"
      then obtain T' where T': "taut_start (Suc (length (cubes T))) (tautology k C) C T = Inr (Split T' (massive_count C T'))"
        "wf_list C T'" "cof T' = cof T" "length (cubes T') \<le> length (cubes T)" "tauto C T' \<longleftrightarrow> tauto C T" "\<not> all_unate C T'" by blast
      obtain cl cr v where s: "binate_split_select C T' (massive_count C T') (new_cube C) (new_cube C) = (cl, cr, v)"
        by (cases "binate_split_select C T' (massive_count C T') (new_cube C) (new_cube C)")
      have S: "split_ok C T' cl cr v" by (rule split_okI [OF C T'(2,6) s])
      have x': "free C T' x" using x T'(3) by (simp add: free_def)
      have r: "remaining C T' = remaining C T" using T'(3) by (simp add: remaining_def)
      have sub: "tautology k C (scofactor C T' c v None) = Inr (tauto C (scofactor C T' c v None))"
        if c: "c = cl \<and> d = cr \<or> c = cr \<and> d = cl" for c d
      proof -
        obtain y where y: "free C (scofactor C T' c v None) y" using split_point [OF C T'(2) S x' c] by blast
        have w: "wf_list C (scofactor C T' c v None)" using cofactor_wf(2) [OF C T'(2)] S c by (auto simp: split_ok_def)
        have "remaining C (scofactor C T' c v None) < remaining C T'" using S c by (auto simp: split_ok_def)
        then show ?thesis using Suc.IH [OF w y] k r T'(4) scofactor_length [of C T' c v] by simp
      qed
      show ?thesis using sp T'(1) s sub [of cl cr] sub [of cr cl] T'(5) split_tauto [OF C T'(2) S] by simp blast
    qed
  qed
qed simp

lemma cube_is_covered_ok:
  assumes C: "wf_cube C" and T: "wf_list C T" and c: "is_cube C c" and n: "\<not> null_cube C (elems c)"
    and cof: "elems (cof T) = {}" and k: "cube_size C + length (cubes T) < k"
  shows "cube_is_covered k C T c self =
    Inr (\<forall>x. point C x \<and> covers C (elems c) x \<longrightarrow> x \<in> lcov C (T\<lparr>cubes := others self (cubes T)\<rparr>))"
proof -
  note W = cofactor_wf(1,3) [OF C T c]
  obtain x where x: "point C x" "covers C (elems c) x" by (rule common_point [OF C n])
  have free: "free C (cofactor C T c self) y \<longleftrightarrow> point C y \<and> covers C (elems c) y" for y
    unfolding free_def W(2) cof using vparts_less [OF wf_cubeD(1) [OF C]] by (auto simp: covers_def point_def)
  have "remaining C (cofactor C T c self) \<le> card {..<cube_size C}" unfolding remaining_def by (rule card_mono) auto
  moreover have "length (cubes (cofactor C T c self)) \<le> length (cubes T)"
    unfolding cofactor_def others_def Let_def
    by (auto intro!: order_trans [OF length_filter_le])
  ultimately have "tautology k C (cofactor C T c self) = Inr (tauto C (cofactor C T c self))"
    using tautology_ok [OF C W(1), where x = x and k = k] free x k by auto
  moreover have "y \<in> lcov C (cofactor C T c self) \<longleftrightarrow> y \<in> lcov C (T\<lparr>cubes := others self (cubes T)\<rparr>)"
    if "point C y" "covers C (elems c) y" for y
    using cofactor_cov(1,2) [OF C T c that(2)] that(1) cof by (auto simp: free_def)
  ultimately show ?thesis using free unfolding cube_is_covered_def tauto_def by (auto intro!: arg_cong [of _ _ Inr])
qed

section \<open>Verification of a minimised cover\<close>

text \<open>
  \<^verbatim>\<open>verify\<close> of \<^verbatim>\<open>verify.c\<close>: the first loop stops at the first cube that is not covered (with
  \<^verbatim>\<open>verbose_debug\<close> it goes on, but only to print); the result is \<^verbatim>\<open>verify_error\<close>.
\<close>

fun some_uncovered :: "nat \<Rightarrow> cube_struct \<Rightarrow> cubelist \<Rightarrow> pset list \<Rightarrow> bool res" where
  "some_uncovered k C FD [] = Inr False"
| "some_uncovered k C FD (p # ps) =
     rbind (cube_is_covered k C FD p None) (\<lambda>b. if \<not> b then Inr True else some_uncovered k C FD ps)"

definition verify :: "nat \<Rightarrow> cube_struct \<Rightarrow> set_family \<Rightarrow> set_family \<Rightarrow> set_family \<Rightarrow> bool res" where
  "verify k C F Fold Dold =
     rbind (some_uncovered k C (cube2list C Fold Dold) (data F)) (\<lambda>e1.
     rbind (some_uncovered k C (cube2list C F Dold) (data Fold)) (\<lambda>e2. Inr (e1 \<or> e2)))"

lemma cof_cube2list: "wf_cube C \<Longrightarrow> elems (cof (cube2list C A B)) = {}"
  using wf_layoutD(3) [OF wf_cubeD(1), of C] by (simp add: cube2list_def new_cube_def)

lemma cubes_cube2list [simp]: "cubes (cube2list C A B) = data A @ data B"
  by (simp add: cube2list_def)

lemma covered_by:
  assumes C: "wf_cube C" and A: "is_cover C A" and B: "is_cover C B" and c: "is_cube C c" "\<not> null_cube C (elems c)"
    and k: "cube_size C + cnt A + cnt B < k"
  shows "cube_is_covered k C (cube2list C A B) c None = Inr (cov C {elems c} \<subseteq> onset C A \<union> onset C B)"
proof -
  note W = cubelists_wf(2,5) [OF C A B B]
  have "cov C {elems c} \<subseteq> S \<longleftrightarrow> (\<forall>x. point C x \<and> covers C (elems c) x \<longrightarrow> x \<in> S)" for S
    by (auto simp: cov_def)
  moreover have "lcov C (cube2list C A B\<lparr>cubes := data A @ data B\<rparr>) = onset C A \<union> onset C B"
    using W(2) by (simp add: cube2list_def)
  ultimately show ?thesis
    using cube_is_covered_ok [OF C W(1) c cof_cube2list [OF C], of k None] k by simp
qed

lemma null_demo [simp]:
  "null_cube demo_cube c \<longleftrightarrow> c \<inter> {0, 1} = {} \<or> c \<inter> {2, 3} = {} \<or> c \<inter> {4, 5, 6} = {}"
proof -
  have "null_cube demo_cube c \<longleftrightarrow> null_var demo_cube c 0 \<or> null_var demo_cube c (Suc 0) \<or> null_var demo_cube c 2"
    unfolding null_cube_def demo_cube(2) less_3_cases by blast
  then show ?thesis by (simp add: null_var_def)
qed

lemma some_uncovered_ok:
  assumes C: "wf_cube C" and A: "is_cover C A" and B: "is_cover C B"
    and k: "cube_size C + cnt A + cnt B < k" and ps: "\<forall>p\<in>set ps. is_cube C p \<and> \<not> null_cube C (elems p)"
  shows "some_uncovered k C (cube2list C A B) ps = Inr (\<not> cov C (elems ` set ps) \<subseteq> onset C A \<union> onset C B)"
  using ps
proof (induction ps)
  case (Cons p ps)
  have "cov C (elems ` set (p # ps)) = cov C {elems p} \<union> cov C (elems ` set ps)"
    unfolding list.set image_insert by (rule cov_insert)
  then show ?case using Cons covered_by [OF C A B _ _ k, of p] by simp
qed simp

text \<open>
  C7. With fuel for every part and every cube, the tautology test returns, and tells whether the cover
  contains every point; cofactored against a non-empty cube it tells whether the cover contains the cube.
\<close>

theorem tautology_decides:
  assumes "wf_cube C" "is_cover C F" "is_cover C D" "is_cube C c" "\<not> null_cube C (elems c)" "cube_size C + cnt F + cnt D < k"
  shows "tautology k C (cube1list C F) = Inr (onset C F = {x. point C x})
    \<and> cube_is_covered k C (cube2list C F D) c None = Inr (cov C {elems c} \<subseteq> onset C F \<union> onset C D)"
proof -
  note W = cube1list_wf [OF assms(1,2)]
  obtain x where x: "point C x" by (rule common_point [OF assms(1,5)])
  have "tautology k C (cube1list C F) = Inr (tauto C (cube1list C F))"
    using tautology_ok [OF assms(1) W(1), where x = x and k = k] x assms(6)
    by (simp add: free_cube1list [OF assms(1)] remaining_cube1list [OF assms(1)] cubes_cube1list)
  moreover have "tauto C (cube1list C F) \<longleftrightarrow> onset C F = {x. point C x}"
    using W(2) by (auto simp: tauto_def free_cube1list [OF assms(1)] cov_def)
  ultimately show ?thesis using covered_by [OF assms(1-5)] assms(6) by simp
qed

theorem tautology_decides_witness:
  "tautology 12 demo_cube (cube1list demo_cube (cover_of 7 [[0, 2, 3, 4], [0, 1, 3, 5]]))
     = Inr (onset demo_cube (cover_of 7 [[0, 2, 3, 4], [0, 1, 3, 5]]) = {x. point demo_cube x})"
  using tautology_decides [of demo_cube "cover_of 7 [[0, 2, 3, 4], [0, 1, 3, 5]]" "cover_of 7 []" "cube_of 7 [0, 2, 4]" 12]
  by simp

text \<open>
  C8. For two covers without null cubes (cubes with an empty variable), and any don't-care set, the verification
  of the result against the original returns with enough fuel, and reports no error exactly if both cover the same points up to the
  don't-care set. (A null cube counts as not covered, so the routine may report an error for one that adds no point.)
\<close>

theorem verify_decides:
  assumes "wf_cube C" "is_cover C F" "is_cover C Fold" "is_cover C D"
    "\<forall>p\<in>set (data F) \<union> set (data Fold). \<not> null_cube C (elems p)"
    "cube_size C + cnt F + cnt Fold + cnt D < k"
  shows "verify k C F Fold D = Inr (\<not> (onset C F \<subseteq> onset C Fold \<union> onset C D \<and> onset C Fold \<subseteq> onset C F \<union> onset C D))"
proof -
  have "some_uncovered k C (cube2list C Fold D) (data F) = Inr (\<not> onset C F \<subseteq> onset C Fold \<union> onset C D)"
    by (rule some_uncovered_ok [OF assms(1,3,4)]) (use assms wf_familyD(3) [OF assms(2)] in auto)
  moreover have "some_uncovered k C (cube2list C F D) (data Fold) = Inr (\<not> onset C Fold \<subseteq> onset C F \<union> onset C D)"
    by (rule some_uncovered_ok [OF assms(1,2,4)]) (use assms wf_familyD(3) [OF assms(3)] in auto)
  ultimately show ?thesis by (simp add: verify_def)
qed

theorem verify_decides_witness:
  "\<exists>b. verify 20 demo_cube (cover_of 7 [[0, 2, 4]]) (cover_of 7 [[0, 1, 2, 4]]) (cover_of 7 [[1, 2, 4]]) = Inr b"
  using verify_decides [of demo_cube "cover_of 7 [[0, 2, 4]]" "cover_of 7 [[0, 1, 2, 4]]" "cover_of 7 [[1, 2, 4]]" 20]
  by simp

end
