(* ===== verification/Sharp.thy ===== *)
theory Sharp
  imports Taut
begin

text \<open>
  Sharp, disjoint sharp and intersection of covers (\<^verbatim>\<open>sharp.c\<close>), and the consistency check of
  \<^verbatim>\<open>verify.c\<close> that is built on the intersection.

  The covers are handed to \<open>sf_union\<close> unsorted and with whatever sizes are in their headers, so
  the result may keep contained cubes; which points are covered does not depend on it.
\<close>

section \<open>The routines\<close>

definition sharp :: "cube_struct \<Rightarrow> memory \<Rightarrow> pset \<Rightarrow> pset \<Rightarrow> set_family" where
  "sharp C mem a b =
     (let r = new_cover C (num_vars C) in
      if cdist0 C a b then
        (let d = set_diff (new_cube C) a b
         in fold (\<lambda>var r.
              let temp = set_and (new_cube C) d (var_mask C ! var) in
              if \<not> setp_empty temp
              then (let temp1 = set_diff (new_cube C) a (var_mask C ! var)
                    in sf_push r (set_or (sf_fresh mem r) temp temp1))
              else r) [0..<num_vars C] r)
      else sf_addset mem r a)"

definition MAGIC :: nat where
  "MAGIC = 500"

text \<open>
  The pairwise products; whenever the buffer of \<open>MAGIC\<close> cubes is full it is merged into
  \<^verbatim>\<open>Tsave\<close>, which is \<^verbatim>\<open>NULL\<close> before.
\<close>

definition save_products :: "set_family \<Rightarrow> set_family option \<Rightarrow> set_family" where
  "save_products T Tsave =
     (case Tsave of None \<Rightarrow> sf_contain T | Some S \<Rightarrow> sf_union S (sf_contain T))"

definition product_step ::
  "cube_struct \<Rightarrow> memory \<Rightarrow> pset \<times> pset \<Rightarrow> set_family \<times> set_family option \<Rightarrow> set_family \<times> set_family option" where
  "product_step C mem pq st =
     (let (pi, pj) = pq; (T, Tsave) = st in
      if cdist0 C pi pj then
        (let T = sf_push T (set_and (sf_fresh mem T) pi pj)
         in if cnt T \<ge> capacity T then (new_cover C MAGIC, Some (save_products T Tsave)) else (T, Tsave))
      else (T, Tsave))"

definition cv_intersect :: "cube_struct \<Rightarrow> memory \<Rightarrow> set_family \<Rightarrow> set_family \<Rightarrow> set_family" where
  "cv_intersect C mem A B =
     (let (T, Tsave) = fold (product_step C mem) (List.product (data A) (data B)) (new_cover C MAGIC, None)
      in save_products T Tsave)"

text \<open>
  The recursion halves the range from \<open>lo\<close> to \<open>hi\<close> (\<^verbatim>\<open>first\<close> and \<^verbatim>\<open>last\<close>); the number of
  cubes is fuel enough for it.
\<close>

fun cb_recur_sharp :: "nat \<Rightarrow> cube_struct \<Rightarrow> memory \<Rightarrow> pset \<Rightarrow> set_family \<Rightarrow> nat \<Rightarrow> nat \<Rightarrow> set_family res" where
  "cb_recur_sharp 0 C mem c T lo hi = Inl Nofuel"
| "cb_recur_sharp (Suc k) C mem c T lo hi =
     (if lo = hi then Inr (sharp C mem c (data T ! lo))
      else
        (let middle = (lo + hi) div 2
         in rbind (cb_recur_sharp k C mem c T lo middle) (\<lambda>left.
            rbind (cb_recur_sharp k C mem c T (middle + 1) hi) (\<lambda>right.
              Inr (cv_intersect C mem left right)))))"

definition cb_sharp :: "cube_struct \<Rightarrow> memory \<Rightarrow> pset \<Rightarrow> set_family \<Rightarrow> set_family res" where
  "cb_sharp C mem c T =
     (if cnt T = 0 then Inr (sf_addset mem (new_cover C 1) c)
      else cb_recur_sharp (cnt T) C mem c T 0 (cnt T - 1))"

fun union_all :: "set_family \<Rightarrow> set_family res list \<Rightarrow> set_family res" where
  "union_all T [] = Inr T"
| "union_all T (m # ms) = rbind m (\<lambda>A. union_all (sf_union T A) ms)"

definition cv_sharp :: "cube_struct \<Rightarrow> memory \<Rightarrow> set_family \<Rightarrow> set_family \<Rightarrow> set_family res" where
  "cv_sharp C mem A B = union_all (new_cover C 0) (map (\<lambda>p. cb_sharp C mem p B) (data A))"

definition dsharp_step ::
  "cube_struct \<Rightarrow> memory \<Rightarrow> pset \<Rightarrow> pset \<Rightarrow> pset \<Rightarrow> nat \<Rightarrow> set_family \<times> pset \<Rightarrow> set_family \<times> pset" where
  "dsharp_step C mem a diff common var st =
     (let (r, mask) = st in
      if \<not> setp_disjoint diff (var_mask C ! var) then
        (let temp = set_and (sf_fresh mem r) diff (var_mask C ! var);
             temp1 = set_and (new_cube C) common mask;
             temp = set_or temp temp temp1;
             mask = set_or mask mask (var_mask C ! var);
             temp1 = set_diff temp1 a mask;
             temp = set_or temp temp temp1
         in (sf_push r temp, mask))
      else (r, mask))"

definition dsharp :: "cube_struct \<Rightarrow> memory \<Rightarrow> pset \<Rightarrow> pset \<Rightarrow> set_family" where
  "dsharp C mem a b =
     (let r = new_cover C (num_vars C) in
      if cdist0 C a b then
        (let diff = set_diff (new_cube C) a b;
             common = set_and (new_cube C) a b
         in fst (fold (dsharp_step C mem a diff common) [0..<num_vars C] (r, new_cube C)))
      else sf_addset mem r a)"

definition cb1_dsharp :: "cube_struct \<Rightarrow> memory \<Rightarrow> set_family \<Rightarrow> pset \<Rightarrow> set_family" where
  "cb1_dsharp C mem T c = fold (\<lambda>p R. sf_union R (dsharp C mem p c)) (data T) (new_cover C (cnt T))"

definition cb_dsharp :: "cube_struct \<Rightarrow> memory \<Rightarrow> pset \<Rightarrow> set_family \<Rightarrow> set_family" where
  "cb_dsharp C mem c T =
     (if cnt T = 0 then sf_addset mem (new_cover C 1) c
      else
        (let Y = new_cover C (cnt T);
             Y = sf_push Y (set_copy (sf_fresh mem Y) c)
         in fold (\<lambda>p Y. cb1_dsharp C mem Y p) (data T) Y))"

definition cv_dsharp :: "cube_struct \<Rightarrow> memory \<Rightarrow> set_family \<Rightarrow> set_family \<Rightarrow> set_family" where
  "cv_dsharp C mem A B = fold (\<lambda>p T. sf_union T (cb_dsharp C mem p B)) (data A) (new_cover C 0)"

fun append_all :: "(set_family \<Rightarrow> pset \<Rightarrow> set_family) \<Rightarrow> pset list \<Rightarrow> set_family \<Rightarrow> set_family res" where
  "append_all f [] R = Inr R"
| "append_all f (p # ps) R = rbind (sf_append R (f R p)) (append_all f ps)"

definition make_disjoint :: "cube_struct \<Rightarrow> memory \<Rightarrow> set_family \<Rightarrow> set_family res" where
  "make_disjoint C mem A = append_all (\<lambda>R p. cb_dsharp C mem p R) (data A) (new_cover C 0)"

section \<open>Covers built row by row\<close>

lemma push_rows:
  assumes "is_cover C R" "cnt R + length vs \<le> capacity R"
    and "\<And>v R. v \<in> set vs \<Longrightarrow> is_cover C R \<Longrightarrow> Q v \<Longrightarrow> is_cube C (f v R) \<and> elems (f v R) = row v"
  shows "is_cover C (fold (\<lambda>v R. if Q v then sf_push R (f v R) else R) vs R)"
    "map elems (data (fold (\<lambda>v R. if Q v then sf_push R (f v R) else R) vs R))
      = map elems (data R) @ map row (filter Q vs)"
proof -
  define step where "step = (\<lambda>v R. if Q v then sf_push R (f v R) else R)"
  have "is_cover C (fold step vs R) \<and> map elems (data (fold step vs R)) = map elems (data R) @ map row (filter Q vs)"
    using assms
  proof (induction vs arbitrary: R)
    case (Cons v vs)
    have "is_cover C (step v R)" "cnt (step v R) + length vs \<le> capacity (step v R)"
      using Cons.prems(1,2) Cons.prems(3) [of v R] wf_sf_push [of "cube_size C" R "f v R"] by (auto simp: step_def)
    then have "is_cover C (fold step vs (step v R)) \<and>
        map elems (data (fold step vs (step v R))) = map elems (data (step v R)) @ map row (filter Q vs)"
      using Cons.IH Cons.prems(3) by simp
    then show ?case using Cons.prems(1) Cons.prems(3) [of v R] by (auto simp: step_def)
  qed simp
  then show "is_cover C (fold (\<lambda>v R. if Q v then sf_push R (f v R) else R) vs R)"
    "map elems (data (fold (\<lambda>v R. if Q v then sf_push R (f v R) else R) vs R))
      = map elems (data R) @ map row (filter Q vs)"
    by (simp_all add: step_def)
qed

lemma onset_map: "onset C F = cov C (set (map elems (data F)))"
  by simp

lemma cov_iff: "x \<in> cov C S \<longleftrightarrow> point C x \<and> (\<exists>c\<in>S. covers C c x)"
  by (simp add: cov_def)

lemma cov_UN: "cov C (f ` A) = (\<Union>p\<in>A. cov C {f p})"
  by (auto simp: cov_iff)

lemma sharp_spec:
  assumes C: "wf_cube C" and a: "is_cube C a" and b: "is_cube C b"
  shows "is_cover C (sharp C mem a b)" "onset C (sharp C mem a b) = cov C {elems a} - cov C {elems b}"
proof -
  note L = wf_cubeD(1) [OF C]
  have "is_cover C (sharp C mem a b) \<and> onset C (sharp C mem a b) = cov C {elems a} - cov C {elems b}"
  proof (cases "cdist0 C a b")
    case False
    then have "nulls C (elems a \<inter> elems b) \<noteq> {}" using cdist0_spec [OF C a b] by simp
    then have "cov C {elems a} \<inter> cov C {elems b} = {}" using nulls_point [OF C, of "elems a \<inter> elems b"]
      by (auto simp: cov_iff covers_Int)
    moreover have "sharp C mem a b = sf_addset mem (new_cover C (num_vars C)) a" using False by (simp add: sharp_def)
    ultimately show ?thesis using addset_single(1) [OF a] sf_addset_spec(1) [OF new_cover_simps(1) a] by auto
  next
    case True
    define d where "d = set_diff (new_cube C) a b"
    have d: "is_cube C d" "elems d = elems a - elems b"
      using binops_wf(3) [OF a b new_cube_length] binops_elems(3) [OF a b new_cube_length] by (simp_all add: d_def)
    define Q where "Q v \<longleftrightarrow> \<not> setp_empty (set_and (new_cube C) d (var_mask C ! v))" for v
    define f where "f v r = set_or (sf_fresh mem r) (set_and (new_cube C) d (var_mask C ! v)) (set_diff (new_cube C) a (var_mask C ! v))"
      for v and r :: set_family
    define row where "row v = (elems d \<inter> vparts C v) \<union> (elems a - vparts C v)" for v
    have eq: "sharp C mem a b = fold (\<lambda>v R. if Q v then sf_push R (f v R) else R) [0..<num_vars C] (new_cover C (num_vars C))"
      unfolding sharp_def Q_def f_def d_def Let_def using True by simp
    have q: "Q v \<longleftrightarrow> elems d \<inter> vparts C v \<noteq> {}" if v: "v < num_vars C" for v
    proof -
      note m = wf_cubeD(9,10) [OF C v]
      show ?thesis unfolding Q_def
        using setp_empty_iff [OF binops_wf(1) [OF d(1) m(1) new_cube_length]] binops_elems(1) [OF d(1) m(1) new_cube_length] m(2)
        by simp
    qed
    have fr: "is_cube C (f v R) \<and> elems (f v R) = row v" if v: "v \<in> set [0..<num_vars C]" and R: "is_cover C R" for v R
    proof -
      have v: "v < num_vars C" using v by simp
      note m = wf_cubeD(9,10) [OF C v]
      have l: "length (sf_fresh mem R) = SET_SIZE (cube_size C)" using wf_familyD(2) [OF R] by simp
      note w = binops_wf(1) [OF d(1) m(1) new_cube_length] binops_wf(3) [OF a m(1) new_cube_length]
      show ?thesis unfolding f_def
        using binops_wf(2) [OF w l] binops_elems(2) [OF w l] binops_elems(1) [OF d(1) m(1) new_cube_length]
          binops_elems(3) [OF a m(1) new_cube_length] m(2) by (simp add: row_def)
    qed
    have R: "is_cover C (sharp C mem a b)" "map elems (data (sharp C mem a b)) = map row (filter Q [0..<num_vars C])"
      using push_rows [of C "new_cover C (num_vars C)" "[0..<num_vars C]" Q f row, OF _ _ fr] unfolding eq by simp_all
    have S: "set (map elems (data (sharp C mem a b))) = row ` {v. v < num_vars C \<and> elems d \<inter> vparts C v \<noteq> {}}"
      unfolding R(2) using q by auto
    have K: "(\<exists>v. v < num_vars C \<and> elems d \<inter> vparts C v \<noteq> {} \<and> covers C (row v) x) \<longleftrightarrow>
        covers C (elems a) x \<and> \<not> covers C (elems b) x" if x: "point C x" for x
    proof -
      have row: "covers C (row v) x \<longleftrightarrow> covers C (elems a) x \<and> x v \<notin> elems b" if v: "v < num_vars C" for v
      proof -
        have "x u \<in> row v \<longleftrightarrow> x u \<in> elems a \<and> (u = v \<longrightarrow> x v \<notin> elems b)" if u: "u < num_vars C" for u
          using x u v vparts_disjoint [OF L u v] d(2) unfolding point_def row_def by (cases "u = v") auto
        then show ?thesis using v by (auto simp: covers_def)
      qed
      have "elems d \<inter> vparts C v \<noteq> {}" if "v < num_vars C" "x v \<notin> elems b" "covers C (elems a) x" for v
        using x that d(2) by (auto simp: point_def covers_def)
      moreover have "\<not> covers C (elems b) x \<longleftrightarrow> (\<exists>v<num_vars C. x v \<notin> elems b)" by (auto simp: covers_def)
      ultimately show ?thesis using row by blast
    qed
    have "x \<in> onset C (sharp C mem a b) \<longleftrightarrow> x \<in> cov C {elems a} - cov C {elems b}" for x
      unfolding Diff_iff onset_map S cov_iff using K [of x] by blast
    then have "onset C (sharp C mem a b) = cov C {elems a} - cov C {elems b}" by blast
    then show ?thesis using R(1) by blast
  qed
  then show "is_cover C (sharp C mem a b)" "onset C (sharp C mem a b) = cov C {elems a} - cov C {elems b}" by blast+
qed

section \<open>Intersection\<close>

lemma save_products_spec:
  assumes T: "is_cover C T" and S: "\<forall>S. Tsave = Some S \<longrightarrow> is_cover C S"
  defines "old \<equiv> (case Tsave of None \<Rightarrow> {} | Some S \<Rightarrow> elems ` set (data S))"
  shows "is_cover C (save_products T Tsave)"
    "onset C (save_products T Tsave) = cov C (old \<union> elems ` set (data T))"
    "elems ` set (data (save_products T Tsave)) \<subseteq> old \<union> elems ` set (data T)"
proof -
  note c = sf_contain_spec(1,2) [OF T]
  have cc: "onset C (sf_contain T) = onset C T" unfolding c(2) by (rule cov_maximal) simp
  have sub: "elems ` set (data (sf_contain T)) \<subseteq> elems ` set (data T)" unfolding c(2) by (rule maximal_subset)
  have "is_cover C (save_products T Tsave) \<and> onset C (save_products T Tsave) = cov C (old \<union> elems ` set (data T))
    \<and> elems ` set (data (save_products T Tsave)) \<subseteq> old \<union> elems ` set (data T)"
  proof (cases Tsave)
    case None
    then show ?thesis using c(1) cc sub by (simp add: save_products_def old_def)
  next
    case (Some S)
    then have S: "is_cover C S" using assms(2) by simp
    have e: "save_products T Tsave = sf_union S (sf_contain T)" "old = elems ` set (data S)"
      using Some by (simp_all add: save_products_def old_def)
    show ?thesis unfolding e cov_simps(2) sf_union_cov [OF S c(1)] cc
      using sf_union_general(1) [OF S c(1)] order_trans [OF sf_union_general(2) [OF S c(1)] Un_mono [OF order_refl sub]]
      by (intro conjI refl)
  qed
  then show "is_cover C (save_products T Tsave)"
    "onset C (save_products T Tsave) = cov C (old \<union> elems ` set (data T))"
    "elems ` set (data (save_products T Tsave)) \<subseteq> old \<union> elems ` set (data T)" by blast+
qed

text \<open>The products found so far: those in the buffer and those saved.\<close>

definition found :: "set_family \<times> set_family option \<Rightarrow> nat set set" where
  "found st = (case snd st of None \<Rightarrow> {} | Some S \<Rightarrow> elems ` set (data S)) \<union> elems ` set (data (fst st))"

definition product_inv :: "cube_struct \<Rightarrow> nat set set \<Rightarrow> set_family \<times> set_family option \<Rightarrow> bool" where
  "product_inv C P st \<longleftrightarrow> is_cover C (fst st) \<and> (\<forall>S. snd st = Some S \<longrightarrow> is_cover C S)
     \<and> capacity (fst st) = MAGIC \<and> cnt (fst st) < MAGIC \<and> found st \<subseteq> P \<and> cov C (found st) = cov C P"

lemma product_step_inv:
  assumes C: "wf_cube C" and p: "is_cube C pi" "is_cube C pj" and inv: "product_inv C P st"
  shows "product_inv C (if cdist0 C pi pj then insert (elems pi \<inter> elems pj) P else P) (product_step C mem (pi, pj) st)"
proof (cases "cdist0 C pi pj")
  case True
  obtain T S where st: "st = (T, S)" by (cases st)
  have I: "is_cover C T" "\<forall>S'. S = Some S' \<longrightarrow> is_cover C S'" "capacity T = MAGIC" "cnt T < MAGIC"
    "found (T, S) \<subseteq> P" "cov C (found (T, S)) = cov C P" using inv by (simp_all add: product_inv_def st)
  have l: "length (sf_fresh mem T) = SET_SIZE (cube_size C)" using wf_familyD(2) [OF I(1)] by simp
  define q where "q = set_and (sf_fresh mem T) pi pj"
  have q: "is_cube C q" "elems q = elems pi \<inter> elems pj"
    using binops_wf(1) [OF p l] binops_elems(1) [OF p l] by (simp_all add: q_def)
  define T' where "T' = sf_push T q"
  have T': "is_cover C T'" "cnt T' = cnt T + 1" "capacity T' = MAGIC"
    "elems ` set (data T') = insert (elems q) (elems ` set (data T))"
    using wf_sf_push [OF I(1) q(1)] I(3,4) by (simp_all add: T'_def)
  have f: "found (T', S) = insert (elems q) (found (T, S))" using T'(4) by (simp add: found_def)
  have cf: "cov C (found (T', S)) = cov C (insert (elems q) P)"
    unfolding f using cov_insert [of C "elems q" P] cov_insert [of C "elems q" "found (T, S)"] I(6) by simp
  show ?thesis
  proof (cases "cnt T' \<ge> MAGIC")
    case full: True
    let ?N = "(new_cover C MAGIC, Some (save_products T' S))"
    have e: "product_step C mem (pi, pj) st = ?N"
      using True full T'(3) by (simp add: product_step_def st q_def T'_def)
    note W = save_products_spec [OF T'(1) I(2)]
    have "found ?N \<subseteq> found (T', S)" using W(3) by (simp add: found_def)
    then have "found ?N \<subseteq> insert (elems q) P" using I(5) f by blast
    moreover have "cov C (found ?N) = cov C (insert (elems q) P)"
      using W(2) cf by (simp add: found_def)
    ultimately show ?thesis using W(1) True q(2) unfolding e product_inv_def by (simp add: MAGIC_def)
  next
    case False
    then have e: "product_step C mem (pi, pj) st = (T', S)"
      using True T'(3) by (simp add: product_step_def st q_def T'_def)
    show ?thesis using T' I(2,5) cf f False True q(2) unfolding e product_inv_def by auto
  qed
next
  case False
  then show ?thesis using inv by (cases st) (simp add: product_step_def)
qed

lemma cv_intersect_spec:
  assumes C: "wf_cube C" and A: "is_cover C A" and B: "is_cover C B"
  shows "is_cover C (cv_intersect C mem A B)" "onset C (cv_intersect C mem A B) = onset C A \<inter> onset C B"
    "\<forall>p\<in>set (data (cv_intersect C mem A B)). \<not> null_cube C (elems p)"
proof -
  define prods where "prods qs = {elems p \<inter> elems q |p q. (p, q) \<in> set qs \<and> cdist0 C p q}" for qs
  have fold: "product_inv C (prods qs \<union> P) (fold (product_step C mem) qs st)"
    if "\<forall>(p, q)\<in>set qs. is_cube C p \<and> is_cube C q" "product_inv C P st" for qs st P
    using that
  proof (induction qs arbitrary: st P)
    case (Cons pq qs)
    obtain p q where pq: "pq = (p, q)" by (cases pq)
    define P' where "P' = (if cdist0 C p q then insert (elems p \<inter> elems q) P else P)"
    have "product_inv C P' (product_step C mem (p, q) st)"
      unfolding P'_def using product_step_inv [OF C _ _ Cons.prems(2)] Cons.prems(1) pq by simp
    then have "product_inv C (prods qs \<union> P') (fold (product_step C mem) qs (product_step C mem (p, q) st))"
      using Cons.IH Cons.prems(1) by simp
    moreover have "prods qs \<union> P' = prods (pq # qs) \<union> P" unfolding prods_def P'_def pq by auto
    ultimately show ?case using pq by simp
  qed (simp add: prods_def)
  let ?qs = "List.product (data A) (data B)"
  have init: "product_inv C {} (new_cover C MAGIC, None)" by (simp add: product_inv_def found_def MAGIC_def)
  have cs: "\<forall>(p, q)\<in>set ?qs. is_cube C p \<and> is_cube C q" using wf_familyD(3) [OF A] wf_familyD(3) [OF B] by auto
  obtain T S where r: "fold (product_step C mem) ?qs (new_cover C MAGIC, None) = (T, S)"
    by (cases "fold (product_step C mem) ?qs (new_cover C MAGIC, None)")
  have I: "is_cover C T" "\<forall>S'. S = Some S' \<longrightarrow> is_cover C S'" "found (T, S) \<subseteq> prods ?qs" "cov C (found (T, S)) = cov C (prods ?qs)"
    using fold [OF cs init] r by (simp_all add: product_inv_def)
  have e: "cv_intersect C mem A B = save_products T S" using r by (simp add: cv_intersect_def)
  note W = save_products_spec [OF I(1,2)]
  show "is_cover C (cv_intersect C mem A B)" unfolding e by (rule W(1))
  have nn: "cdist0 C p q \<longleftrightarrow> (\<exists>x. point C x \<and> covers C (elems p \<inter> elems q) x)" if "p \<in> set (data A)" "q \<in> set (data B)" for p q
    using cdist0_spec [OF C] nulls_point [OF C, of "elems p \<inter> elems q"] wf_familyD(3) [OF A that(1)] wf_familyD(3) [OF B that(2)] by simp
  have "cov C (prods ?qs) = onset C A \<inter> onset C B"
  proof (intro equalityI subsetI)
    fix x assume "x \<in> cov C (prods ?qs)"
    then show "x \<in> onset C A \<inter> onset C B" by (auto simp: cov_iff prods_def covers_Int)
  next
    fix x assume "x \<in> onset C A \<inter> onset C B"
    then obtain p q where "point C x" "p \<in> set (data A)" "q \<in> set (data B)" "covers C (elems p \<inter> elems q) x"
      by (auto simp: cov_iff covers_Int)
    moreover then have "cdist0 C p q" using nn by blast
    with calculation have "elems p \<inter> elems q \<in> prods ?qs" unfolding prods_def by auto
    ultimately show "x \<in> cov C (prods ?qs)" unfolding cov_iff by blast
  qed
  then show "onset C (cv_intersect C mem A B) = onset C A \<inter> onset C B"
    unfolding e W(2) using I(4) by (simp add: found_def)
  have "X \<in> prods ?qs \<Longrightarrow> \<not> null_cube C X" for X
    using nn covers_not_null unfolding prods_def by fastforce
  then show "\<forall>p\<in>set (data (cv_intersect C mem A B)). \<not> null_cube C (elems p)"
  proof -
    assume n: "\<And>X. X \<in> prods ?qs \<Longrightarrow> \<not> null_cube C X"
    have "elems ` set (data (save_products T S)) \<subseteq> found (T, S)" using W(3) by (simp add: found_def)
    then show ?thesis unfolding e using n I(3) by blast
  qed
qed

section \<open>Sharp\<close>

lemma cb_recur_sharp_spec:
  assumes C: "wf_cube C" and c: "is_cube C c" and T: "is_cover C T"
  shows "lo \<le> hi \<Longrightarrow> hi < cnt T \<Longrightarrow> hi - lo < k \<Longrightarrow>
    \<exists>R. cb_recur_sharp k C mem c T lo hi = Inr R \<and> is_cover C R
      \<and> onset C R = cov C {elems c} - cov C ((\<lambda>i. elems (data T ! i)) ` {lo..hi})"
proof (induction k arbitrary: lo hi)
  case (Suc k)
  show ?case
  proof (cases "lo = hi")
    case True
    then show ?thesis using sharp_spec [OF C c wf_familyD(5) [OF T Suc.prems(2)]] by simp
  next
    case False
    define m where "m = (lo + hi) div 2"
    have m: "lo \<le> m" "m < hi" using Suc.prems(1) False by (auto simp: m_def)
    have k: "m - lo < k" "hi - (m + 1) < k" using m Suc.prems(3) by arith+
    obtain L where L: "cb_recur_sharp k C mem c T lo m = Inr L" "is_cover C L"
      "onset C L = cov C {elems c} - cov C ((\<lambda>i. elems (data T ! i)) ` {lo..m})"
      using Suc.IH [OF m(1) less_trans [OF m(2) Suc.prems(2)] k(1)] by blast
    obtain R where R: "cb_recur_sharp k C mem c T (m + 1) hi = Inr R" "is_cover C R"
      "onset C R = cov C {elems c} - cov C ((\<lambda>i. elems (data T ! i)) ` {m + 1..hi})"
      using Suc.IH [OF _ Suc.prems(2) k(2)] m(2) by auto
    have "{lo..hi} = {lo..m} \<union> {m + 1..hi}" using m by auto
    then have "onset C L \<inter> onset C R = cov C {elems c} - cov C ((\<lambda>i. elems (data T ! i)) ` {lo..hi})"
      unfolding L(3) R(3) by (simp add: image_Un) blast
    then show ?thesis
      using L(1) R(1) False cv_intersect_spec(1,2) [OF C L(2) R(2), of mem] by (simp add: m_def Let_def)
  qed
qed simp

lemma nth_image: "(\<lambda>i. f (xs ! i)) ` {..<length xs} = f ` set xs"
  by (auto simp: set_conv_nth)

lemma cb_sharp_spec:
  assumes C: "wf_cube C" and c: "is_cube C c" and T: "is_cover C T"
  obtains R where "cb_sharp C mem c T = Inr R" "is_cover C R" "onset C R = cov C {elems c} - onset C T"
proof (cases "cnt T = 0")
  case True
  then have "cb_sharp C mem c T = Inr (sf_addset mem (new_cover C 1) c)" "onset C T = {}" by (simp_all add: cb_sharp_def)
  then show ?thesis using that addset_single(1) [OF c] sf_addset_spec(1) [OF new_cover_simps(1) c] by simp
next
  case False
  then obtain j where "cnt T = Suc j" by (cases "cnt T") auto
  then have "{0..cnt T - 1} = {..<cnt T}" by auto
  then show ?thesis
    using cb_recur_sharp_spec [OF C c T, of 0 "cnt T - 1" "cnt T" mem] False that nth_image [of elems "data T"]
    by (auto simp: cb_sharp_def)
qed

lemma union_all_spec:
  assumes "is_cover C T" "\<forall>m\<in>set ms. \<exists>R. m = Inr R \<and> is_cover C R"
  shows "\<exists>R. union_all T ms = Inr R \<and> is_cover C R \<and> onset C R = onset C T \<union> (\<Union>A\<in>{A. Inr A \<in> set ms}. onset C A)"
  using assms
proof (induction ms arbitrary: T)
  case (Cons m ms)
  obtain A where A: "m = Inr A" "is_cover C A" using Cons.prems(2) by auto
  obtain R where R: "union_all (sf_union T A) ms = Inr R" "is_cover C R"
    "onset C R = onset C (sf_union T A) \<union> (\<Union>A\<in>{A. Inr A \<in> set ms}. onset C A)"
    using Cons.IH [OF sf_union_general(1) [OF Cons.prems(1) A(2)]] Cons.prems(2) by auto
  have "{B. Inr B \<in> set (m # ms)} = insert A {B. Inr B \<in> set ms}" using A(1) by auto
  then show ?case using R A(1) sf_union_cov [OF Cons.prems(1) A(2)] by (simp add: Un_assoc)
qed simp

lemma cv_sharp_spec:
  assumes C: "wf_cube C" and A: "is_cover C A" and B: "is_cover C B"
  obtains R where "cv_sharp C mem A B = Inr R" "is_cover C R" "onset C R = onset C A - onset C B"
proof -
  let ?ms = "map (\<lambda>p. cb_sharp C mem p B) (data A)"
  define g where "g p = (SOME R. cb_sharp C mem p B = Inr R)" for p
  have g: "cb_sharp C mem p B = Inr (g p)" "is_cover C (g p)" "onset C (g p) = cov C {elems p} - onset C B"
    if p: "p \<in> set (data A)" for p
  proof -
    obtain R where R: "cb_sharp C mem p B = Inr R" "is_cover C R" "onset C R = cov C {elems p} - onset C B"
      by (rule cb_sharp_spec [OF C wf_familyD(3) [OF A p] B])
    then have "g p = R" by (simp add: g_def)
    then show "cb_sharp C mem p B = Inr (g p)" "is_cover C (g p)" "onset C (g p) = cov C {elems p} - onset C B"
      using R by simp_all
  qed
  have "\<forall>m\<in>set ?ms. \<exists>R. m = Inr R \<and> is_cover C R" using g by auto
  from union_all_spec [OF new_cover_simps(1) this, of 0] obtain R where R: "cv_sharp C mem A B = Inr R" "is_cover C R"
    "onset C R = (\<Union>S\<in>{S. Inr S \<in> set ?ms}. onset C S)"
    by (auto simp: cv_sharp_def)
  have "{S. Inr S \<in> set ?ms} = g ` set (data A)" using g(1) by force
  then have "onset C R = (\<Union>p\<in>set (data A). cov C {elems p} - onset C B)" using R(3) g(3) by simp
  also have "\<dots> = onset C A - onset C B" by (auto simp: cov_iff)
  finally show ?thesis using that R(1,2) by blast
qed

section \<open>Disjoint sharp\<close>

text \<open>Lists of cubes that are pairwise disjoint; a sublist in any order stays so.\<close>

definition apart :: "cube_struct \<Rightarrow> pset list \<Rightarrow> bool" where
  "apart C ps \<longleftrightarrow> sorted_wrt (\<lambda>p q. null_cube C (elems p \<inter> elems q)) ps"

lemma apart_submset:
  "apart C ps \<Longrightarrow> mset qs \<subseteq># mset ps \<Longrightarrow> apart C qs"
proof (induction qs arbitrary: ps)
  case (Cons q qs)
  have "q \<in> set ps" using Cons.prems(2) by (meson insert_subset_eq_iff mset_subset_eqD set_mset_mset list.set_intros(1) in_multiset_in_set)
  then obtain us vs where ps: "ps = us @ q # vs" by (meson split_list)
  have a: "apart C (us @ vs)" "\<forall>p\<in>set (us @ vs). null_cube C (elems q \<inter> elems p)"
    using Cons.prems(1) ps by (auto simp: apart_def sorted_wrt_append Int_commute)
  have s: "mset qs \<subseteq># mset (us @ vs)" using Cons.prems(2) ps by simp
  have "set qs \<subseteq> set (us @ vs)" using set_mset_mono [OF s] by simp
  then show ?case using Cons.IH [OF a(1) s] a(2) unfolding apart_def by auto
qed (simp add: apart_def)

lemma apart_append: "apart C (ps @ qs) \<longleftrightarrow> apart C ps \<and> apart C qs \<and> (\<forall>p\<in>set ps. \<forall>q\<in>set qs. null_cube C (elems p \<inter> elems q))"
  by (simp add: apart_def sorted_wrt_append)

lemma null_cube_mono: "null_cube C b \<Longrightarrow> a \<subseteq> b \<Longrightarrow> null_cube C a"
  unfolding null_cube_def null_var_def by blast

lemma apart_concat:
  assumes "apart C ps" "\<forall>p\<in>set ps. apart C (g p) \<and> (\<forall>q\<in>set (g p). elems q \<subseteq> elems p)"
  shows "apart C (concat (map g ps))"
  using assms
proof (induction ps)
  case (Cons p ps)
  have "null_cube C (elems q \<inter> elems r)" if "q \<in> set (g p)" "r \<in> set (g s)" "s \<in> set ps" for q r s
  proof -
    have "null_cube C (elems p \<inter> elems s)" using Cons.prems(1) that(3) by (simp add: apart_def)
    moreover have "elems q \<subseteq> elems p" "elems r \<subseteq> elems s" using Cons.prems(2) that by auto
    ultimately show ?thesis by (meson Int_mono null_cube_mono)
  qed
  then show ?case using Cons by (auto simp: apart_append) (auto simp: apart_def)
qed (simp add: apart_def)

text \<open>The union of two families consists of sets of the two, each at most as often.\<close>

lemma rm2_equal_mset:
  "rm2_equal cmp xs ys = (A, B, E) \<Longrightarrow> mset xs = mset A + mset E \<and> mset B \<subseteq># mset ys"
proof (induction cmp xs ys arbitrary: A B E rule: rm2_equal.induct)
  case (1 cmp a as b bs)
  consider "cmp a b < 0" | "cmp a b = 0" | "cmp a b > 0" by linarith
  then show ?case
  proof cases
    case c: 1
    obtain A' B' E' where r: "rm2_equal cmp as (b # bs) = (A', B', E')" by (cases "rm2_equal cmp as (b # bs)")
    from "1.IH"(1) [OF refl c r] show ?thesis using "1.prems" c r by auto
  next
    case c: 2
    obtain A' B' E' where r: "rm2_equal cmp as bs = (A', B', E')" by (cases "rm2_equal cmp as bs")
    have n: "\<not> cmp a b < 0" using c by simp
    from "1.IH"(2) [OF refl n c r] show ?thesis using "1.prems" c r by (auto intro: subset_mset.order_trans)
  next
    case c: 3
    obtain A' B' E' where r: "rm2_equal cmp (a # as) bs = (A', B', E')" by (cases "rm2_equal cmp (a # as) bs")
    have n: "\<not> cmp a b < 0" "cmp a b \<noteq> 0" using c by simp_all
    from "1.IH"(3) [OF refl n r] show ?thesis using "1.prems" c r by auto
  qed
qed auto

lemma mset_sf_list: "image_mset snd (mset (sf_list A)) = mset (data A)"
  by (simp add: sf_list_def flip: mset_map)

lemma sf_union_mset:
  assumes A: "wf_family n A" and B: "wf_family n B"
  shows "mset (data (sf_union A B)) \<subseteq># mset (data A) + mset (data B)"
proof -
  obtain A1 B1 E1 where r: "rm2_equal (ptr_cmp descend) (sf_list A) (sf_list B) = (A1, B1, E1)"
    by (cases "rm2_equal (ptr_cmp descend) (sf_list A) (sf_list B)")
  note R = rm2_equal_mset [OF r]
  define A2 where "A2 = rm2_contain A1 B1"
  define B2 where "B2 = rm2_contain B1 A2"
  have sub: "mset A2 \<subseteq># mset A1" "mset B2 \<subseteq># mset B1" by (simp_all add: A2_def B2_def rm2_contain_def)
  have sets: "set A1 \<subseteq> set (sf_list A)" "set E1 \<subseteq> set (sf_list A)" "set B1 \<subseteq> set (sf_list B)"
    using R set_mset_mono [of "mset B1" "mset (sf_list B)"] by (auto dest: arg_cong [of _ _ set_mset])
  have w: "wf_ptrs n A2" "wf_ptrs n B2" "wf_ptrs n E1"
    using wf_ptrs_subset [OF wf_sf_list [OF A], of A2] wf_ptrs_subset [OF wf_sf_list [OF B], of B2]
      wf_ptrs_subset [OF wf_sf_list [OF A], of E1] sets
    by (auto simp: A2_def B2_def rm2_contain_def)
  have eq: "sf_union A B = sf_merge A2 B2 E1 n"
    using A r by (simp add: sf_union_def A2_def B2_def wf_family_def Let_def)
  have "mset A2 + mset B2 + mset E1 = (mset A2 + mset E1) + mset B2" by (simp add: ac_simps)
  also have "\<dots> \<subseteq># (mset A1 + mset E1) + mset (sf_list B)"
    by (rule subset_mset.add_mono [OF subset_mset.add_mono [OF sub(1) subset_mset.order_refl]
          subset_mset.order_trans [OF sub(2)]]) (use R in blast)
  finally have "mset A2 + mset B2 + mset E1 \<subseteq># mset (sf_list A) + mset (sf_list B)" using R by simp
  then have "image_mset snd (mset A2 + mset B2 + mset E1) \<subseteq># image_mset snd (mset (sf_list A) + mset (sf_list B))"
    by (rule image_mset_subseteq_mono)
  then show ?thesis unfolding eq sf_merge_spec(2) [OF w] by (simp add: mset_sf_list)
qed

lemma dsharp_spec:
  assumes C: "wf_cube C" and a: "is_cube C a" and b: "is_cube C b"
  shows "is_cover C (dsharp C mem a b)" "onset C (dsharp C mem a b) = cov C {elems a} - cov C {elems b}"
    "apart C (data (dsharp C mem a b))" "\<forall>p\<in>set (data (dsharp C mem a b)). elems p \<subseteq> elems a"
proof -
  note L = wf_cubeD(1) [OF C]
  have "is_cover C (dsharp C mem a b) \<and> onset C (dsharp C mem a b) = cov C {elems a} - cov C {elems b}
    \<and> apart C (data (dsharp C mem a b)) \<and> (\<forall>p\<in>set (data (dsharp C mem a b)). elems p \<subseteq> elems a)"
  proof (cases "cdist0 C a b")
    case False
    then have "nulls C (elems a \<inter> elems b) \<noteq> {}" using cdist0_spec [OF C a b] by simp
    then have "cov C {elems a} \<inter> cov C {elems b} = {}" using nulls_point [OF C, of "elems a \<inter> elems b"]
      by (auto simp: cov_iff covers_Int)
    moreover have "dsharp C mem a b = sf_addset mem (new_cover C (num_vars C)) a" using False by (simp add: dsharp_def)
    ultimately show ?thesis using addset_single(1) [OF a] sf_addset_spec(1) [OF new_cover_simps(1) a]
      by (auto simp: apart_def)
  next
    case True
    define d where "d = set_diff (new_cube C) a b"
    define m where "m = set_and (new_cube C) a b"
    have d: "is_cube C d" "elems d = elems a - elems b" and m: "is_cube C m" "elems m = elems a \<inter> elems b"
      using binops_wf(1,3) [OF a b new_cube_length] binops_elems(1,3) [OF a b new_cube_length] by (simp_all add: d_def m_def)
    define Q where "Q v \<longleftrightarrow> elems d \<inter> vparts C v \<noteq> {}" for v
    define M where "M n = (\<Union>v\<in>{v. v < n \<and> Q v}. vparts C v)" for n
    define row where "row v = (elems d \<inter> vparts C v) \<union> (elems m \<inter> M v) \<union> (elems a - (M v \<union> vparts C v))" for v
    define st where "st n = fold (dsharp_step C mem a d m) [0..<n] (new_cover C (num_vars C), new_cube C)" for n
    have eq: "dsharp C mem a b = fst (st (num_vars C))" using True by (simp add: dsharp_def st_def d_def m_def Let_def)
    have inv: "is_cover C (fst (st n)) \<and> capacity (fst (st n)) = num_vars C \<and> is_cube C (snd (st n))
        \<and> elems (snd (st n)) = M n \<and> map elems (data (fst (st n))) = map row (filter Q [0..<n])" if "n \<le> num_vars C" for n
      using that
    proof (induction n)
      case 0
      then show ?case using wf_layoutD(3) [OF L] by (simp add: st_def M_def new_cube_def)
    next
      case (Suc n)
      obtain r k where rk: "st n = (r, k)" by (cases "st n")
      have I: "is_cover C r" "capacity r = num_vars C" "is_cube C k" "elems k = M n"
        "map elems (data r) = map row (filter Q [0..<n])" using Suc rk by simp_all
      have n: "n < num_vars C" using Suc.prems by simp
      note v = wf_cubeD(9,10) [OF C n]
      have s: "st (Suc n) = dsharp_step C mem a d m n (r, k)" using rk by (simp add: st_def)
      have dis: "setp_disjoint d (var_mask C ! n) \<longleftrightarrow> \<not> Q n" using setp_disjoint_iff [OF d(1) v(1)] v(2) by (simp add: Q_def)
      show ?case
      proof (cases "Q n")
        case True
        have lr: "length (sf_fresh mem r) = SET_SIZE (cube_size C)" using wf_familyD(2) [OF I(1)] by simp
        define t1 where "t1 = set_and (sf_fresh mem r) d (var_mask C ! n)"
        have t1: "is_cube C t1" "elems t1 = elems d \<inter> vparts C n"
          using binops_wf(1) [OF d(1) v(1) lr] binops_elems(1) [OF d(1) v(1) lr] v(2) by (simp_all add: t1_def)
        define t2 where "t2 = set_and (new_cube C) m k"
        have t2: "is_cube C t2" "elems t2 = elems m \<inter> M n"
          using binops_wf(1) [OF m(1) I(3) new_cube_length] binops_elems(1) [OF m(1) I(3) new_cube_length] I(4) by (simp_all add: t2_def)
        define k' where "k' = set_or k k (var_mask C ! n)"
        have k': "is_cube C k'" "elems k' = M n \<union> vparts C n"
          using binops_wf(2) [OF I(3) v(1) wf_length [OF I(3)]] binops_elems(2) [OF I(3) v(1) wf_length [OF I(3)]] I(4) v(2)
          by (simp_all add: k'_def)
        define t3 where "t3 = set_or t1 t1 t2"
        have t3: "is_cube C t3" "elems t3 = (elems d \<inter> vparts C n) \<union> (elems m \<inter> M n)"
          using binops_wf(2) [OF t1(1) t2(1) wf_length [OF t1(1)]] binops_elems(2) [OF t1(1) t2(1) wf_length [OF t1(1)]] t1(2) t2(2)
          by (simp_all add: t3_def)
        define t4 where "t4 = set_diff t2 a k'"
        have t4: "is_cube C t4" "elems t4 = elems a - (M n \<union> vparts C n)"
          using binops_wf(3) [OF a k'(1) wf_length [OF t2(1)]] binops_elems(3) [OF a k'(1) wf_length [OF t2(1)]] k'(2)
          by (simp_all add: t4_def)
        define t where "t = set_or t3 t3 t4"
        have t: "is_cube C t" "elems t = row n"
          using binops_wf(2) [OF t3(1) t4(1) wf_length [OF t3(1)]] binops_elems(2) [OF t3(1) t4(1) wf_length [OF t3(1)]] t3(2) t4(2)
          by (simp_all add: t_def row_def)
        have e: "st (Suc n) = (sf_push r t, k')"
          unfolding s using True dis by (simp add: dsharp_step_def Let_def t_def t3_def t4_def t1_def t2_def k'_def)
        have "length (filter Q [0..<n]) \<le> n" using length_filter_le [of Q "[0..<n]"] by simp
        moreover have "cnt r = length (filter Q [0..<n])" using arg_cong [OF I(5), of length] by (simp only: length_map)
        ultimately have "is_cover C (sf_push r t)" using wf_sf_push [OF I(1) t(1)] I(2) n by simp
        moreover have "M (Suc n) = M n \<union> vparts C n" using True by (auto simp: M_def less_Suc_eq)
        ultimately show ?thesis unfolding e using k' I(2,5) t(2) True by simp
      next
        case False
        have e: "st (Suc n) = (r, k)" unfolding s using False dis by (simp add: dsharp_step_def)
        have "M (Suc n) = M n" using False by (auto simp: M_def less_Suc_eq)
        then show ?thesis unfolding e using I False by simp
      qed
    qed
    have R: "is_cover C (dsharp C mem a b)" "map elems (data (dsharp C mem a b)) = map row (filter Q [0..<num_vars C])"
      using inv [of "num_vars C"] unfolding eq by simp_all
    have S: "set (map elems (data (dsharp C mem a b))) = row ` {v. v < num_vars C \<and> Q v}" unfolding R(2) by auto
    have below: "row v \<subseteq> elems a" for v using d(2) m(2) by (auto simp: row_def)
    have MI: "e \<in> M v \<longleftrightarrow> u < v \<and> Q u" if "u < num_vars C" "e \<in> vparts C u" "v \<le> num_vars C" for e u v
    proof -
      have "w = u" if "w < v" "e \<in> vparts C w" for w
        using vparts_disjoint [OF L _ \<open>u < num_vars C\<close> that(2) \<open>e \<in> vparts C u\<close>] that(1) \<open>v \<le> num_vars C\<close> by simp
      moreover have "e \<in> M v \<longleftrightarrow> (\<exists>w. w < v \<and> Q w \<and> e \<in> vparts C w)" unfolding M_def by blast
      ultimately show ?thesis using that(2) by blast
    qed
    have K: "(\<exists>v. v < num_vars C \<and> Q v \<and> covers C (row v) x) \<longleftrightarrow>
        covers C (elems a) x \<and> \<not> covers C (elems b) x" if x: "point C x" for x
    proof
      have xv: "x v \<in> vparts C v" if "v < num_vars C" for v using x that by (simp add: point_def)
      assume "\<exists>v. v < num_vars C \<and> Q v \<and> covers C (row v) x"
      then obtain v where v: "v < num_vars C" "covers C (row v) x" by blast
      have "x v \<notin> M v" using MI [OF v(1) xv [OF v(1)], of v] v(1) by simp
      then have "x v \<notin> elems b" using v xv [OF v(1)] d(2) by (auto simp: row_def covers_def)
      then show "covers C (elems a) x \<and> \<not> covers C (elems b) x" using v covers_mono [OF below v(2)] by (auto simp: covers_def)
    next
      have xv: "x v \<in> vparts C v" if "v < num_vars C" for v using x that by (simp add: point_def)
      assume x': "covers C (elems a) x \<and> \<not> covers C (elems b) x"
      define v where "v = (LEAST v. v < num_vars C \<and> x v \<notin> elems b)"
      have ex: "\<exists>v. v < num_vars C \<and> x v \<notin> elems b" using x' by (auto simp: covers_def)
      have v: "v < num_vars C" "x v \<notin> elems b" unfolding v_def using LeastI_ex [OF ex] by blast+
      have low: "x u \<in> elems b" if "u < v" for u
        using not_less_Least [of u "\<lambda>v. v < num_vars C \<and> x v \<notin> elems b"] that v(1) unfolding v_def [symmetric] by simp
      have "Q v" using v xv [OF v(1)] x' d(2) by (auto simp: Q_def covers_def)
      moreover have "x u \<in> row v" if u: "u < num_vars C" for u
      proof -
        have ua: "x u \<in> elems a" using x' u by (simp add: covers_def)
        show ?thesis
        proof (cases "u = v")
          case True
          then show ?thesis using v xv ua d(2) by (simp add: row_def)
        next
          case False
          then have "x u \<notin> vparts C v" using vparts_disjoint [OF L u v(1) xv [OF u]] by blast
          then show ?thesis using low MI [OF u xv [OF u], of v] v(1) ua m(2) by (auto simp: row_def)
        qed
      qed
      ultimately show "\<exists>v. v < num_vars C \<and> Q v \<and> covers C (row v) x" using v(1) by (auto simp: covers_def)
    qed
    have "x \<in> onset C (dsharp C mem a b) \<longleftrightarrow> x \<in> cov C {elems a} - cov C {elems b}" for x
      unfolding Diff_iff onset_map S cov_iff using K [of x] by blast
    moreover have "null_cube C (row u \<inter> row v)" if uv: "u < v" "v < num_vars C" "Q u" for u v
    proof -
      have un: "u < num_vars C" using uv by simp
      have "row u \<inter> row v \<inter> vparts C u = {}"
        using MI [OF un, of _ v] MI [OF un, of _ u] uv un d(2) m(2) vparts_disjoint [OF L un uv(2)] by (auto simp: row_def)
      then show ?thesis using un by (auto simp: null_cube_def null_var_def)
    qed
    then have "sorted_wrt (\<lambda>X Y. null_cube C (X \<inter> Y)) (map row (filter Q [0..<num_vars C]))"
      by (auto simp: sorted_wrt_map intro!: sorted_wrt_mono_rel [OF _ sorted_wrt_filter [OF sorted_wrt_upt]])
    then have "apart C (data (dsharp C mem a b))" unfolding apart_def R(2) [symmetric] sorted_wrt_map .
    moreover have "\<forall>p\<in>set (data (dsharp C mem a b)). elems p \<subseteq> elems a"
    proof
      fix p assume "p \<in> set (data (dsharp C mem a b))"
      then have "elems p \<in> set (map elems (data (dsharp C mem a b)))" by simp
      then show "elems p \<subseteq> elems a" unfolding S using below by blast
    qed
    ultimately show ?thesis using R(1) by blast
  qed
  then show "is_cover C (dsharp C mem a b)" "onset C (dsharp C mem a b) = cov C {elems a} - cov C {elems b}"
    "apart C (data (dsharp C mem a b))" "\<forall>p\<in>set (data (dsharp C mem a b)). elems p \<subseteq> elems a" by blast+
qed

lemma fold_union_spec:
  assumes "is_cover C R" "\<forall>p\<in>set ps. is_cover C (g p)"
  shows "is_cover C (fold (\<lambda>p R. sf_union R (g p)) ps R)"
    "onset C (fold (\<lambda>p R. sf_union R (g p)) ps R) = onset C R \<union> (\<Union>p\<in>set ps. onset C (g p))"
    "mset (data (fold (\<lambda>p R. sf_union R (g p)) ps R)) \<subseteq># mset (data R @ concat (map (\<lambda>p. data (g p)) ps))"
proof -
  have "is_cover C (fold (\<lambda>p R. sf_union R (g p)) ps R) \<and>
    onset C (fold (\<lambda>p R. sf_union R (g p)) ps R) = onset C R \<union> (\<Union>p\<in>set ps. onset C (g p)) \<and>
    mset (data (fold (\<lambda>p R. sf_union R (g p)) ps R)) \<subseteq># mset (data R @ concat (map (\<lambda>p. data (g p)) ps))"
    using assms
  proof (induction ps arbitrary: R)
    case (Cons p ps)
    have g: "is_cover C (g p)" "\<forall>q\<in>set ps. is_cover C (g q)" using Cons.prems(2) by simp_all
    let ?U = "sf_union R (g p)"
    note U = sf_union_general(1) [OF Cons.prems(1) g(1)] sf_union_cov [OF Cons.prems(1) g(1), of C] sf_union_mset [OF Cons.prems(1) g(1)]
    note IH = Cons.IH [OF U(1) g(2)]
    have "mset (data (fold (\<lambda>p R. sf_union R (g p)) ps ?U)) \<subseteq># mset (data ?U) + mset (concat (map (\<lambda>p. data (g p)) ps))"
      using IH by simp
    also have "\<dots> \<subseteq># (mset (data R) + mset (data (g p))) + mset (concat (map (\<lambda>p. data (g p)) ps))"
      by (rule subset_mset.add_mono [OF U(3) subset_mset.order_refl])
    finally show ?case using IH U(2) by (simp add: Un_assoc add.assoc)
  qed simp
  then show "is_cover C (fold (\<lambda>p R. sf_union R (g p)) ps R)"
    "onset C (fold (\<lambda>p R. sf_union R (g p)) ps R) = onset C R \<union> (\<Union>p\<in>set ps. onset C (g p))"
    "mset (data (fold (\<lambda>p R. sf_union R (g p)) ps R)) \<subseteq># mset (data R @ concat (map (\<lambda>p. data (g p)) ps))"
    by blast+
qed

lemma cb1_dsharp_spec:
  assumes C: "wf_cube C" and T: "is_cover C T" and c: "is_cube C c"
  shows "is_cover C (cb1_dsharp C mem T c)" "onset C (cb1_dsharp C mem T c) = onset C T - cov C {elems c}"
    "apart C (data T) \<Longrightarrow> apart C (data (cb1_dsharp C mem T c))"
    "\<forall>p\<in>set (data (cb1_dsharp C mem T c)). \<exists>q\<in>set (data T). elems p \<subseteq> elems q"
proof -
  let ?g = "\<lambda>p. dsharp C mem p c"
  note D = dsharp_spec [OF C _ c, of _ mem]
  have w: "is_cube C p" if "p \<in> set (data T)" for p using wf_familyD(3) [OF T that] .
  have "\<forall>p\<in>set (data T). is_cover C (?g p)" using D(1) w by blast
  note F = fold_union_spec [OF new_cover_simps(1) this, of "cnt T", folded cb1_dsharp_def]
  show "is_cover C (cb1_dsharp C mem T c)" by (rule F(1))
  have "(\<Union>p\<in>set (data T). onset C (?g p)) = (\<Union>p\<in>set (data T). cov C {elems p} - cov C {elems c})"
    using D(2) w by simp
  also have "\<dots> = onset C T - cov C {elems c}" unfolding cov_UN [of C elems "set (data T)"] by blast
  finally show "onset C (cb1_dsharp C mem T c) = onset C T - cov C {elems c}"
    unfolding F(2) by simp
  have ms: "mset (data (cb1_dsharp C mem T c)) \<subseteq># mset (concat (map (\<lambda>p. data (?g p)) (data T)))" using F(3) by simp
  show "apart C (data (cb1_dsharp C mem T c))" if "apart C (data T)"
  proof (rule apart_submset [OF apart_concat [OF that] ms], rule ballI)
    show "apart C (data (?g p)) \<and> (\<forall>q\<in>set (data (?g p)). elems q \<subseteq> elems p)" if "p \<in> set (data T)" for p
      using D(3,4) [OF w [OF that]] by blast
  qed
  show "\<forall>p\<in>set (data (cb1_dsharp C mem T c)). \<exists>q\<in>set (data T). elems p \<subseteq> elems q"
  proof
    fix p assume "p \<in> set (data (cb1_dsharp C mem T c))"
    then have "p \<in> set (concat (map (\<lambda>p. data (?g p)) (data T)))" using mset_subset_eqD [OF ms] by simp
    then obtain q where "q \<in> set (data T)" "p \<in> set (data (?g q))" by auto
    then show "\<exists>q\<in>set (data T). elems p \<subseteq> elems q" using D(4) w by blast
  qed
qed

lemma cb_dsharp_spec:
  assumes C: "wf_cube C" and T: "is_cover C T" and c: "is_cube C c"
  shows "is_cover C (cb_dsharp C mem c T)" "onset C (cb_dsharp C mem c T) = cov C {elems c} - onset C T"
    "apart C (data (cb_dsharp C mem c T))" "\<forall>p\<in>set (data (cb_dsharp C mem c T)). elems p \<subseteq> elems c"
proof -
  define spec where "spec Y S \<longleftrightarrow> is_cover C Y \<and> onset C Y = cov C {elems c} - cov C S \<and> apart C (data Y)
      \<and> (\<forall>p\<in>set (data Y). elems p \<subseteq> elems c)" for Y S
  have single: "spec Y {}" if "data Y = [c]" "is_cover C Y" for Y using that by (simp add: spec_def apart_def)
  have fold: "spec (fold (\<lambda>p Y. cb1_dsharp C mem Y p) ps Y) (S \<union> elems ` set ps)"
    if "spec Y S" "\<forall>p\<in>set ps. is_cube C p" for ps Y S
    using that
  proof (induction ps arbitrary: Y S)
    case (Cons p ps)
    have Y: "is_cover C Y" "onset C Y = cov C {elems c} - cov C S" "apart C (data Y)" "\<forall>q\<in>set (data Y). elems q \<subseteq> elems c"
      using Cons.prems(1) by (simp_all add: spec_def)
    have p: "is_cube C p" "\<forall>q\<in>set ps. is_cube C q" using Cons.prems(2) by simp_all
    note D = cb1_dsharp_spec [OF C Y(1) p(1), of mem]
    have "onset C (cb1_dsharp C mem Y p) = cov C {elems c} - cov C (insert (elems p) S)"
      unfolding D(2) Y(2) cov_insert [of C "elems p" S] by blast
    moreover have "\<forall>q\<in>set (data (cb1_dsharp C mem Y p)). elems q \<subseteq> elems c" using D(4) Y(4) by blast
    ultimately have "spec (cb1_dsharp C mem Y p) (insert (elems p) S)" using D(1,3) Y(3) by (simp add: spec_def)
    from Cons.IH [OF this p(2)] show ?case by simp
  qed simp
  have "spec (cb_dsharp C mem c T) (elems ` set (data T))"
  proof (cases "cnt T = 0")
    case True
    then show ?thesis
      using single [OF _ addset_single(1) [OF c]] sf_addset_spec(1) [OF new_cover_simps(1) c] by (simp add: cb_dsharp_def)
  next
    case False
    define Y where "Y = sf_push (new_cover C (cnt T)) (set_copy (sf_fresh mem (new_cover C (cnt T))) c)"
    have "set_copy (sf_fresh mem (new_cover C (cnt T))) c = c" by (rule set_copy_eq [OF c]) simp
    then have Y: "data Y = [c]" "is_cover C Y"
      using wf_sf_push [OF new_cover_simps(1) c, of "cnt T"] False by (simp_all add: Y_def)
    have "cb_dsharp C mem c T = fold (\<lambda>p Y. cb1_dsharp C mem Y p) (data T) Y"
      using False by (simp add: cb_dsharp_def Y_def Let_def)
    then show ?thesis using fold [OF single [OF Y], of "data T"] wf_familyD(3) [OF T] by simp
  qed
  then show "is_cover C (cb_dsharp C mem c T)" "onset C (cb_dsharp C mem c T) = cov C {elems c} - onset C T"
    "apart C (data (cb_dsharp C mem c T))" "\<forall>p\<in>set (data (cb_dsharp C mem c T)). elems p \<subseteq> elems c"
    by (simp_all add: spec_def)
qed

lemma cv_dsharp_spec:
  assumes C: "wf_cube C" and A: "is_cover C A" and B: "is_cover C B"
  shows "is_cover C (cv_dsharp C mem A B)" "onset C (cv_dsharp C mem A B) = onset C A - onset C B"
proof -
  note D = cb_dsharp_spec [OF C B wf_familyD(3) [OF A], of _ mem]
  have "\<forall>p\<in>set (data A). is_cover C (cb_dsharp C mem p B)" using D(1) by blast
  note F = fold_union_spec [OF new_cover_simps(1) this, of 0, folded cv_dsharp_def]
  show "is_cover C (cv_dsharp C mem A B)" by (rule F(1))
  show "onset C (cv_dsharp C mem A B) = onset C A - onset C B" unfolding F(2) using D(2) cov_UN [of C elems "set (data A)"] by simp
qed

lemma disjoint_null:
  assumes "wf_cube C" "cov C {a} \<inter> cov C {b} = {}"
  shows "null_cube C (a \<inter> b)"
proof (rule ccontr)
  assume "\<not> null_cube C (a \<inter> b)"
  then obtain x where "point C x" "covers C (a \<inter> b) x" by (rule common_point [OF assms(1)])
  then show False using assms(2) by (auto simp: cov_iff covers_Int)
qed

lemma make_disjoint_spec:
  assumes C: "wf_cube C" and A: "is_cover C A"
  obtains R where "make_disjoint C mem A = Inr R" "is_cover C R" "onset C R = onset C A" "apart C (data R)"
proof -
  have "\<exists>R'. append_all (\<lambda>R p. cb_dsharp C mem p R) ps R = Inr R' \<and> is_cover C R' \<and> apart C (data R')
      \<and> onset C R' = onset C R \<union> cov C (elems ` set ps)"
    if "\<forall>p\<in>set ps. is_cube C p" "is_cover C R" "apart C (data R)" for ps R
    using that
  proof (induction ps arbitrary: R)
    case (Cons p ps)
    have p: "is_cube C p" "\<forall>q\<in>set ps. is_cube C q" using Cons.prems(1) by simp_all
    note D = cb_dsharp_spec [OF C Cons.prems(2) p(1), of mem]
    obtain U where U: "sf_append R (cb_dsharp C mem p R) = Inr U" "data U = data R @ data (cb_dsharp C mem p R)" "is_cover C U"
      by (rule sf_append_spec [OF Cons.prems(2) D(1)])
    have "null_cube C (elems q \<inter> elems r)" if q: "q \<in> set (data R)" "r \<in> set (data (cb_dsharp C mem p R))" for q r
    proof (rule disjoint_null [OF C])
      have "cov C {elems q} \<subseteq> onset C R" "cov C {elems r} \<subseteq> onset C (cb_dsharp C mem p R)" using q by (auto intro!: cov_mono)
      then show "cov C {elems q} \<inter> cov C {elems r} = {}" unfolding D(2) by blast
    qed
    then have "apart C (data U)" using Cons.prems(3) D(3) U(2) by (simp add: apart_append)
    from Cons.IH [OF p(2) U(3) this] obtain R' where R': "append_all (\<lambda>R p. cb_dsharp C mem p R) ps U = Inr R'" "is_cover C R'"
      "apart C (data R')" "onset C R' = onset C U \<union> cov C (elems ` set ps)" by blast
    have "onset C U = onset C R \<union> cov C {elems p}" unfolding U(2) set_append image_Un cov_simps D(2) by blast
    moreover have "cov C (elems ` set (p # ps)) = cov C {elems p} \<union> cov C (elems ` set ps)"
      unfolding list.set image_insert by (rule cov_insert)
    ultimately show ?case using R' U(1) by (simp add: Un_assoc)
  qed simp
  from this [of "data A" "new_cover C 0"] wf_familyD(3) [OF A] that show ?thesis
    by (auto simp: make_disjoint_def apart_def)
qed

section \<open>Consistency of on-set, don't-care set and off-set\<close>

text \<open>
  \<^verbatim>\<open>check_consistency\<close> returns \<^verbatim>\<open>verify_error\<close>; the complement it computes when the union
  is not the universe is only printed.
\<close>

definition check_consistency ::
  "nat \<Rightarrow> nat \<Rightarrow> cube_struct \<Rightarrow> memory \<Rightarrow> set_family \<Rightarrow> set_family \<Rightarrow> set_family \<Rightarrow> bool res" where
  "check_consistency k u C mem F D R =
     (let e1 = cnt (cv_intersect C mem F D) \<noteq> 0;
          e2 = cnt (cv_intersect C mem F R) \<noteq> 0;
          e3 = cnt (cv_intersect C mem D R) \<noteq> 0
      in rbind (tautology k C (cube3list C F D R)) (\<lambda>t.
           if t then Inr (e1 \<or> e2 \<or> e3)
           else rmap (\<lambda>T. True) (complement k u C mem (cube3list C F D R))))"

lemma intersect_empty:
  assumes "wf_cube C" "is_cover C A" "is_cover C B"
  shows "cnt (cv_intersect C mem A B) = 0 \<longleftrightarrow> onset C A \<inter> onset C B = {}"
proof -
  note S = cv_intersect_spec [OF assms, of mem]
  have "onset C (cv_intersect C mem A B) \<noteq> {}" if p: "p \<in> set (data (cv_intersect C mem A B))" for p
  proof -
    obtain x where "point C x" "covers C (elems p) x" using common_point [OF assms(1)] S(3) p by blast
    then have "x \<in> onset C (cv_intersect C mem A B)" using p unfolding cov_iff by blast
    then show ?thesis by blast
  qed
  then show ?thesis using S(2) by (cases "data (cv_intersect C mem A B)") auto
qed

lemma point_exists:
  assumes "wf_cube C"
  shows "\<exists>x. point C x"
proof -
  have "\<forall>v<num_vars C. \<exists>e. e \<in> vparts C v" using vparts_nonempty [OF wf_cubeD(1) [OF assms]] by blast
  then show ?thesis unfolding point_def by metis
qed

lemma cube3list_fields:
  assumes "wf_cube C"
  shows "free C (cube3list C A B D) x \<longleftrightarrow> point C x" "remaining C (cube3list C A B D) = cube_size C"
    "cubes (cube3list C A B D) = data A @ data B @ data D"
  using wf_layoutD(3) [OF wf_cubeD(1) [OF assms]] by (simp_all add: free_def remaining_def cube3list_def new_cube_def)

lemma check_consistency_spec:
  assumes C: "wf_cube C" and n: "num_vars C \<le> 1025" and F: "is_cover C F" and D: "is_cover C D" and R: "is_cover C R"
    and k: "cube_size C + cnt F + cnt D + cnt R < k" and u: "(cnt F + cnt D + cnt R) * (num_vars C + 1) < u"
  shows "check_consistency k u C mem F D R =
    Inr (\<not> (onset C F \<inter> onset C D = {} \<and> onset C F \<inter> onset C R = {} \<and> onset C D \<inter> onset C R = {}
      \<and> onset C F \<union> onset C D \<union> onset C R = {x. point C x}))"
proof -
  let ?T = "cube3list C F D R"
  note W = cubelists_wf(3,6) [OF C F D R]
  note T = cube3list_fields [OF C, of F D R]
  obtain x where "point C x" using point_exists [OF C] ..
  then have t: "tautology k C ?T = Inr (tauto C ?T)"
    using tautology_ok [OF C W(1), where x = x and k = k] T k by simp
  have tt: "tauto C ?T \<longleftrightarrow> onset C F \<union> onset C D \<union> onset C R = {x. point C x}"
  proof -
    have "onset C F \<union> onset C D \<union> onset C R \<subseteq> {x. point C x}" by (auto simp: cov_iff)
    then show ?thesis unfolding tauto_def T(1) W(2) by blast
  qed
  have "\<exists>S. complement k u C mem ?T = Inr S"
    using complement_ok [OF C n W(1), where u = u and k = k] T k u by (simp add: add.assoc) blast
  then show ?thesis
    using t tt intersect_empty [OF C F D] intersect_empty [OF C F R] intersect_empty [OF C D R]
    by (auto simp: check_consistency_def Let_def)
qed

text \<open>
  C9. The sharp and the disjoint sharp of two covers cover exactly the points of the first that are
  not in the second, and the intersection exactly the common points, with no empty cube in it.
\<close>

theorem sharp_subtracts:
  assumes "wf_cube C" "is_cover C A" "is_cover C B"
  shows "(\<exists>R. cv_sharp C mem A B = Inr R \<and> is_cover C R \<and> onset C R = onset C A - onset C B)
    \<and> (is_cover C (cv_dsharp C mem A B) \<and> onset C (cv_dsharp C mem A B) = onset C A - onset C B)
    \<and> (is_cover C (cv_intersect C mem A B) \<and> onset C (cv_intersect C mem A B) = onset C A \<inter> onset C B
       \<and> (\<forall>p\<in>set (data (cv_intersect C mem A B)). \<not> null_cube C (elems p)))"
proof -
  obtain R where "cv_sharp C mem A B = Inr R" "is_cover C R" "onset C R = onset C A - onset C B"
    by (rule cv_sharp_spec [OF assms])
  then show ?thesis using cv_dsharp_spec [OF assms] cv_intersect_spec [OF assms] by simp
qed

theorem sharp_subtracts_witness:
  "\<exists>R. cv_sharp demo_cube (\<lambda>_ _. 0) (cover_of 7 [[0, 1, 2, 3, 4]]) (cover_of 7 [[0, 2, 4, 5]]) = Inr R
    \<and> onset demo_cube R = onset demo_cube (cover_of 7 [[0, 1, 2, 3, 4]]) - onset demo_cube (cover_of 7 [[0, 2, 4, 5]])"
  using sharp_subtracts [of demo_cube "cover_of 7 [[0, 1, 2, 3, 4]]" "cover_of 7 [[0, 2, 4, 5]]" "\<lambda>_ _. 0"]
  by (auto simp: cover_of)

text \<open>
  C10. \<open>make_disjoint\<close> replaces a cover by one of the same points in which
  no two cubes intersect.
\<close>

theorem make_disjoint_partitions:
  assumes "wf_cube C" "is_cover C A"
  shows "\<exists>R. make_disjoint C mem A = Inr R \<and> is_cover C R \<and> onset C R = onset C A
    \<and> (\<forall>i j. i < j \<and> j < cnt R \<longrightarrow> cov C {elems (data R ! i)} \<inter> cov C {elems (data R ! j)} = {})"
proof -
  obtain R where R: "make_disjoint C mem A = Inr R" "is_cover C R" "onset C R = onset C A" "apart C (data R)"
    by (rule make_disjoint_spec [OF assms])
  have "cov C {elems (data R ! i)} \<inter> cov C {elems (data R ! j)} = {}" if "i < j" "j < cnt R" for i j
  proof -
    have "null_cube C (elems (data R ! i) \<inter> elems (data R ! j))"
      using R(4) that by (auto simp: apart_def sorted_wrt_iff_nth_less)
    then have "cov C {elems (data R ! i) \<inter> elems (data R ! j)} = {}" by (rule cov_null)
    then show ?thesis by (auto simp: cov_iff covers_Int)
  qed
  then show ?thesis using R by blast
qed

theorem make_disjoint_partitions_witness:
  "\<exists>R. make_disjoint demo_cube (\<lambda>_ _. 0) (cover_of 7 [[0, 1, 2, 3, 4], [0, 2, 4, 5]]) = Inr R
    \<and> onset demo_cube R = onset demo_cube (cover_of 7 [[0, 1, 2, 3, 4], [0, 2, 4, 5]])"
  using make_disjoint_partitions [of demo_cube "cover_of 7 [[0, 1, 2, 3, 4], [0, 2, 4, 5]]" "\<lambda>_ _. 0"]
  by (auto simp: cover_of)

text \<open>
  C11. For a cube structure of at most 1025 variables, with fuel k for every part and every cube and fuel u
  for the unate leaves, the consistency check reports no error exactly if on-set, don't-care set and off-set partition the space.
\<close>

theorem consistency_decides:
  assumes "wf_cube C" "num_vars C \<le> 1025" "is_cover C F" "is_cover C D" "is_cover C R"
    "cube_size C + cnt F + cnt D + cnt R < k" "(cnt F + cnt D + cnt R) * (num_vars C + 1) < u"
  shows "check_consistency k u C mem F D R =
    Inr (\<not> (onset C F \<inter> onset C D = {} \<and> onset C F \<inter> onset C R = {} \<and> onset C D \<inter> onset C R = {}
      \<and> onset C F \<union> onset C D \<union> onset C R = {x. point C x}))"
  by (rule check_consistency_spec [OF assms])

theorem consistency_decides_witness:
  "\<exists>e. check_consistency 11 13 demo_cube (\<lambda>_ _. 0) (cover_of 7 [[0, 2, 3, 4, 5, 6]]) (cover_of 7 [[1, 2, 4, 5, 6]])
     (cover_of 7 [[1, 3, 4, 5, 6]]) = Inr e"
  using consistency_decides [of demo_cube "cover_of 7 [[0, 2, 3, 4, 5, 6]]" "cover_of 7 [[1, 2, 4, 5, 6]]"
      "cover_of 7 [[1, 3, 4, 5, 6]]" 11 13 "\<lambda>_ _. 0"]
  by simp

end
