(* ===== verification/Cvrm.thy ===== *)
theory Cvrm
  imports Contain
begin

text \<open>
  The orders in which expansion and reduction take the cubes of a cover, and the cofactor by an
  output (\<^verbatim>\<open>cvrm.c\<close>).  The keys go into the 16-bit size field of the cubes, so they are
  taken modulo 65536: a cover keeps its cubes whatever the keys are.
\<close>

section \<open>The routines\<close>

definition lex_sort :: "set_family \<Rightarrow> set_family" where
  "lex_sort T = sf_unlist (sf_sort T lex_order) (sf_size T)"

definition size_sort :: "set_family \<Rightarrow> set_family" where
  "size_sort T = sf_unlist (sf_sort T descend) (sf_size T)"

text \<open>The weight of a cube is the inner product with the column sums.\<close>

definition column_weight :: "cube_struct \<Rightarrow> int list \<Rightarrow> pset \<Rightarrow> int" where
  "column_weight C cs p = fold (\<lambda>i cnum. if is_in_set p i then cnum + cs ! i else cnum) [0..<cube_size C] 0"

definition mini_sort :: "cube_struct \<Rightarrow> set_family \<Rightarrow> (pset \<Rightarrow> pset \<Rightarrow> int) \<Rightarrow> set_family" where
  "mini_sort C F compare =
     (let cs = sf_count F;
          F = F\<lparr>data := map (\<lambda>p. PUTSIZE p (nat (column_weight C cs p))) (data F)\<rparr>
      in sf_unlist (qsort (ptr_cmp compare) (sf_list F)) (sf_size F))"

text \<open>The first cube of the greatest size; \<^verbatim>\<open>bestsize\<close> starts with -1.\<close>

fun find_largest :: "pset list \<Rightarrow> pset option \<times> int \<Rightarrow> pset option \<times> int" where
  "find_largest [] st = st"
| "find_largest (p # ps) (largest, bestsize) =
     (let sz = int (set_ord p)
      in find_largest ps (if sz > bestsize then (Some p, sz) else (largest, bestsize)))"

definition sort_reduce :: "cube_struct \<Rightarrow> set_family \<Rightarrow> set_family" where
  "sort_reduce C T =
     (if cnt T = 0 then T
      else
        (let largest = the (fst (find_largest (data T) (None, - 1)));
             key = (\<lambda>p. push_bit 7 (num_vars C - cdist C largest p) + min (set_ord p) 127);
             T = T\<lparr>data := map (\<lambda>p. PUTSIZE p (key p)) (data T)\<rparr>
         in sf_unlist (qsort (ptr_cmp descend) (sf_list T)) (sf_size T)))"

text \<open>Without the macro \<^verbatim>\<open>RANDOM\<close> the order is a fixed one.\<close>

definition random_order :: "set_family \<Rightarrow> set_family" where
  "random_order F =
     F\<lparr>data := fold (\<lambda>i D. let k = (i * 23 + 997) mod i
                           in D[k := set_copy (D ! k) (D ! i), i := set_copy (D ! i) (D ! k)])
         (rev [1..<cnt F]) (data F)\<rparr>"

definition cof_output :: "cube_struct \<Rightarrow> memory \<Rightarrow> set_family \<Rightarrow> nat \<Rightarrow> set_family" where
  "cof_output C mem T i =
     (let mask = var_mask C ! nat (output_var C)
      in fold (\<lambda>p T1.
           if is_in_set p i
           then sf_push T1 (RESET (set_or (sf_fresh mem T1) p mask) PRIME) else T1)
         (data T) (new_cover C (cnt T)))"

definition uncof_output :: "cube_struct \<Rightarrow> set_family \<Rightarrow> nat \<Rightarrow> set_family" where
  "uncof_output C T i =
     (let mask = var_mask C ! nat (output_var C)
      in T\<lparr>data := map (\<lambda>p. set_insert (set_diff p p mask) i) (data T)\<rparr>)"

section \<open>The cubes stay the same\<close>

definition same_cubes :: "nat \<Rightarrow> set_family \<Rightarrow> set_family \<Rightarrow> bool" where
  "same_cubes n A B \<longleftrightarrow> wf_family n B \<and> mset (map elems (data B)) = mset (map elems (data A))"

lemma same_cubesD:
  assumes "same_cubes n A B"
  shows "wf_family n B" "elems ` set (data B) = elems ` set (data A)" "cnt B = cnt A" "onset C B = onset C A"
proof -
  have m: "mset (map elems (data B)) = mset (map elems (data A))" using assms by (simp add: same_cubes_def)
  show "wf_family n B" using assms by (simp add: same_cubes_def)
  show e: "elems ` set (data B) = elems ` set (data A)" using arg_cong [OF m, of set_mset] by simp
  show "cnt B = cnt A" using arg_cong [OF m, of size] by simp
  show "onset C B = onset C A" unfolding e ..
qed

lemma unlist_sorted:
  assumes A: "wf_family n A"
  shows "same_cubes n A (sf_unlist (qsort cmp (sf_list A)) n)"
proof -
  let ?xs = "qsort cmp (sf_list A)"
  have w: "wf_ptrs n ?xs" by (rule wf_ptrs_subset [OF wf_sf_list [OF A]]) simp
  have d: "data (sf_unlist ?xs n) = map snd ?xs"
    using w by (auto simp: sf_unlist_def wf_ptrs_def intro!: set_copy_eq)
  have "wf_family n (sf_unlist ?xs n)"
    using w by (auto simp: wf_family_def sf_unlist_def wf_ptrs_def)
  moreover have "mset (map elems (data (sf_unlist ?xs n))) = mset (map elems (data A))"
  proof -
    have "map elems (map snd (sf_list A)) = map elems (data A)" by (simp add: sf_list_def del: map_map)
    then show ?thesis unfolding d mset_map mset_qsort by (metis mset_map)
  qed
  ultimately show ?thesis by (simp add: same_cubes_def)
qed

lemma with_keys:
  assumes "wf_family n A"
  shows "wf_family n (A\<lparr>data := map (\<lambda>p. PUTSIZE p (key p)) (data A)\<rparr>)"
    "map elems (data (A\<lparr>data := map (\<lambda>p. PUTSIZE p (key p)) (data A)\<rparr>)) = map elems (data A)"
  using assms by (auto simp: wf_family_def)

lemma sorts_same:
  assumes A: "is_cover C A"
  shows "same_cubes (cube_size C) A (lex_sort A)" "same_cubes (cube_size C) A (size_sort A)"
    "same_cubes (cube_size C) A (mini_sort C A cmp)" "same_cubes (cube_size C) A (sort_reduce C A)"
proof -
  have s: "sf_size A = cube_size C" using wf_familyD(1) [OF A] .
  have keyed: "same_cubes (cube_size C) A
      (sf_unlist (qsort cmp (sf_list (A\<lparr>data := map (\<lambda>p. PUTSIZE p (key p)) (data A)\<rparr>))) (cube_size C))" for cmp key
    using unlist_sorted [OF with_keys(1) [OF A, of key], of cmp] unfolding same_cubes_def with_keys(2) [OF A, of key] .
  show "same_cubes (cube_size C) A (lex_sort A)" "same_cubes (cube_size C) A (size_sort A)"
    unfolding lex_sort_def size_sort_def sf_sort_def put_sizes_def s by (rule keyed)+
  show "same_cubes (cube_size C) A (mini_sort C A cmp)"
    using keyed [of "ptr_cmp cmp"] s by (simp add: mini_sort_def Let_def)
  show "same_cubes (cube_size C) A (sort_reduce C A)"
    using keyed [of "ptr_cmp descend"] s A by (simp add: sort_reduce_def Let_def same_cubes_def)
qed

lemma random_order_mset:
  assumes A: "is_cover C A"
  shows "mset (data (random_order A)) = mset (data A)"
proof -
  define step where "step i D = (let k = (i * 23 + 997) mod i in D[k := set_copy (D ! k) (D ! i), i := set_copy (D ! i) (D ! k)])"
    for i and D :: "pset list"
  have m: "mset (step i D) = mset D" if i: "0 < i" "i < length D" and D: "\<forall>p\<in>set D. is_cube C p" for i D
  proof -
    define k where "k = (i * 23 + 997) mod i"
    have k: "k < length D" using i mod_less_divisor [OF i(1), of "i * 23 + 997"] unfolding k_def by linarith
    have c: "is_cube C (D ! k)" "is_cube C (D ! i)" using D i k by simp_all
    have "step i D = D[k := D ! i, i := D ! k]"
      unfolding step_def Let_def k_def [symmetric] set_copy_eq [OF c(1) wf_length [OF c(2)]]
        set_copy_eq [OF c(2) wf_length [OF c(1)]] ..
    then show ?thesis using mset_swap [OF i(2) k] by simp
  qed
  have "mset (fold step is D) = mset D" if "\<forall>i\<in>set is. 0 < i \<and> i < length D" "\<forall>p\<in>set D. is_cube C p" for "is" D
    using that
  proof (induction "is" arbitrary: D)
    case (Cons i "is")
    have s: "mset (step i D) = mset D" using m [of i D] Cons.prems by simp
    have "length (step i D) = length D" "set (step i D) = set D"
      using arg_cong [OF s, of size] arg_cong [OF s, of set_mset] by simp_all
    then show ?case using Cons.IH [of "step i D"] Cons.prems s by simp
  qed simp
  note this [of "rev [1..<cnt A]" "data A"]
  then show ?thesis using wf_familyD(3) [OF A] by (simp add: random_order_def step_def [abs_def])
qed

lemma random_order_same:
  assumes A: "is_cover C A"
  shows "same_cubes (cube_size C) A (random_order A)"
proof -
  note m = random_order_mset [OF A]
  have "set (data (random_order A)) = set (data A)" "cnt (random_order A) = cnt A"
    using arg_cong [OF m, of set_mset] arg_cong [OF m, of size] by simp_all
  then have "is_cover C (random_order A)" using A by (simp add: wf_family_def random_order_def)
  then show ?thesis using m by (simp add: same_cubes_def)
qed

end
