(* ===== verification/Reduce.thy ===== *)
theory Reduce
  imports Sharp Cvrm
begin

text \<open>
  The reduction step of the minimiser (\<^verbatim>\<open>reduce.c\<close>): every cube of a cover is replaced by the smallest
  cube that may stand for it, found as the smallest cube containing the complement (SCCC) of the rest
  of the cover, by unate recursion.  The messages printed in debug mode are left out.
\<close>

section \<open>The smallest cube containing the complement\<close>

definition sccc_merge :: "pset \<Rightarrow> pset \<Rightarrow> pset \<Rightarrow> pset \<Rightarrow> pset" where
  "sccc_merge left right cl cr =
     (let left = set_and left left cl;
          right = set_and right right cr
      in set_or left left right)"

text \<open>The work cube \<^verbatim>\<open>temp[0]\<close> is written before it is read.\<close>

definition sccc_cube :: "cube_struct \<Rightarrow> pset \<Rightarrow> pset \<Rightarrow> pset" where
  "sccc_cube C result p =
     (let var = cactive C p
      in if 0 \<le> var then set_and result result (set_xor (new_cube C) p (var_mask C ! nat var)) else result)"

text \<open>
  The answer, or the list with its column counts for the split.  The tests of the code, in its
  order: no cube, a full row, a unate list or a single cube, a column of zeros, a single active
  variable, components.
\<close>

definition sccc_special_cases :: "(cubelist \<Rightarrow> pset res) \<Rightarrow> cube_struct \<Rightarrow> cubelist \<Rightarrow> pset verdict res" where
  "sccc_special_cases rec C T =
     (if cubes T = [] then Inr (Answer (set_save (fullset C)))
      else if list_ex (\<lambda>p. full_row C p (cof T)) (cubes T) then Inr (Answer (new_cube C))
      else
        (let cd = massive_count C T in
         if vars_unate cd = vars_active cd \<or> length (cubes T) = 1 then
           Inr (Answer (fold (\<lambda>p result. sccc_cube C result (set_or (new_cube C) p (cof T)))
             (cubes T) (set_save (fullset C))))
         else
           (let ceil = fold (\<lambda>p ceil. set_or ceil ceil p) (cubes T) (set_save (cof T)) in
            if \<not> setp_equal ceil (fullset C) then
              (let result = sccc_cube C (set_save (fullset C)) ceil
               in if setp_equal result (fullset C) then Inr (Answer result)
                  else rbind (rec (cofactor C T ceil None)) (\<lambda>left.
                    Inr (Answer (sccc_merge left (set_save (fullset C)) ceil result))))
            else if vars_active cd = 1 then Inr (Answer (new_cube C))
            else if var_zeros cd ! nat (best_var cd) < CUBELISTSIZE T div 2 then
              (case snd (cubelist_partition C T) of
                 None \<Rightarrow> Inr (Split T cd)
               | Some (A, B) \<Rightarrow>
                   rbind (rec A) (\<lambda>result. rbind (rec B) (\<lambda>ceil. Inr (Answer (set_and result result ceil)))))
            else Inr (Split T cd))))"

fun sccc :: "nat \<Rightarrow> cube_struct \<Rightarrow> cubelist \<Rightarrow> pset res" where
  "sccc 0 C T = Inl Nofuel"
| "sccc (Suc k) C T =
     rbind (sccc_special_cases (sccc k C) C T) (\<lambda>s.
       case s of
         Answer r \<Rightarrow> Inr r
       | Split T cd \<Rightarrow>
           (let (cl, cr, best) = binate_split_select C T cd (new_cube C) (new_cube C)
            in rbind (sccc k C (scofactor C T cl best None)) (\<lambda>left.
               rbind (sccc k C (scofactor C T cr best None)) (\<lambda>right.
               Inr (sccc_merge left right cl cr)))))"

section \<open>The reduction of a cover\<close>

text \<open>\<open>self\<close> is the position of the cube in the list, which the cofactor passes over.\<close>

definition reduce_cube :: "nat \<Rightarrow> cube_struct \<Rightarrow> cubelist \<Rightarrow> pset \<Rightarrow> nat option \<Rightarrow> pset res" where
  "reduce_cube k C FD p self =
     rmap (\<lambda>cunder. set_and cunder cunder p) (sccc k C (cofactor C FD p self))"

definition reduce_mark :: "pset \<Rightarrow> pset \<Rightarrow> pset" where
  "reduce_mark p cunder =
     (if setp_equal cunder p then SET (SET p ACTIVE) PRIME
      else
        (let p = RESET (set_copy p cunder) PRIME
         in if setp_empty cunder then RESET p ACTIVE else SET p ACTIVE))"

text \<open>
  The cube list holds pointers to the cubes of both covers, so the cubes reduced before are seen in
  their reduced form.
\<close>

fun reduce_loop :: "nat \<Rightarrow> cube_struct \<Rightarrow> set_family \<Rightarrow> nat list \<Rightarrow> set_family \<Rightarrow> set_family res" where
  "reduce_loop k C D [] F = Inr F"
| "reduce_loop k C D (i # is) F =
     rbind (reduce_cube k C (cube2list C F D) (data F ! i) (Some i)) (\<lambda>cunder.
       reduce_loop k C D is (F\<lparr>data := (data F)[i := reduce_mark (data F ! i) cunder]\<rparr>))"

text \<open>The static variable \<open>toggle\<close> goes in and out.\<close>

definition reduce ::
  "nat \<Rightarrow> cube_struct \<Rightarrow> bool \<Rightarrow> bool \<Rightarrow> set_family \<Rightarrow> set_family \<Rightarrow> (set_family \<times> bool) res" where
  "reduce k C use_random_order toggle F D =
     (let (F, toggle) =
        (if use_random_order then (random_order F, toggle)
         else (if toggle then sort_reduce C F else mini_sort C F descend, \<not> toggle))
      in rmap (\<lambda>F. (sf_inactive F, toggle)) (reduce_loop k C D [0..<cnt F] F))"

section \<open>The uncovered points\<close>

definition uncov :: "cube_struct \<Rightarrow> cubelist \<Rightarrow> (nat \<Rightarrow> nat) set" where
  "uncov C T = {x. free C T x \<and> x \<notin> lcov C T}"

text \<open>
  The cube has, among the parts not cofactored away, those of the uncovered points.  Without a free
  point nothing is asked: the callers mask what they get.
\<close>

definition sccc_ok :: "cube_struct \<Rightarrow> cubelist \<Rightarrow> pset \<Rightarrow> bool" where
  "sccc_ok C T r \<longleftrightarrow> is_cube C r \<and> (\<forall>x. free C T x \<longrightarrow>
     (\<forall>v<num_vars C. \<forall>e\<in>vparts C v - elems (cof T). e \<in> elems r \<longleftrightarrow> (\<exists>y\<in>uncov C T. y v = e)))"

lemma sccc_okI:
  assumes "is_cube C r"
    and "\<And>x v e. free C T x \<Longrightarrow> v < num_vars C \<Longrightarrow> e \<in> vparts C v \<Longrightarrow> e \<notin> elems (cof T) \<Longrightarrow>
      e \<in> elems r \<longleftrightarrow> (\<exists>y\<in>uncov C T. y v = e)"
  shows "sccc_ok C T r"
  using assms by (auto simp: sccc_ok_def)

lemma sccc_okD:
  assumes "sccc_ok C T r"
  shows "is_cube C r"
    "free C T x \<Longrightarrow> v < num_vars C \<Longrightarrow> e \<in> vparts C v \<Longrightarrow> e \<notin> elems (cof T) \<Longrightarrow>
      e \<in> elems r \<longleftrightarrow> (\<exists>y\<in>uncov C T. y v = e)"
  using assms by (auto simp: sccc_ok_def)

lemma uncov_upd:
  assumes "wf_cube C" "y \<in> uncov C T" "v < num_vars C" "e \<in> vparts C v" "e \<notin> elems (cof T)" "y(v := e) \<notin> lcov C T"
  shows "\<exists>z\<in>uncov C T. z v = e"
  using assms free_upd [of C T y v e] by (intro bexI [of _ "y(v := e)"]) (auto simp: uncov_def)

lemma sccc_merge_spec:
  assumes "is_cube C l" "is_cube C r" "is_cube C cl" "is_cube C cr"
  shows "is_cube C (sccc_merge l r cl cr)"
    "elems (sccc_merge l r cl cr) = elems l \<inter> elems cl \<union> elems r \<inter> elems cr"
proof -
  note a = binops_wf(1) [OF assms(1,3) wf_length [OF assms(1)]] binops_elems(1) [OF assms(1,3) wf_length [OF assms(1)]]
  note b = binops_wf(1) [OF assms(2,4) wf_length [OF assms(2)]] binops_elems(1) [OF assms(2,4) wf_length [OF assms(2)]]
  note c = binops_wf(2) [OF a(1) b(1) wf_length [OF a(1)]] binops_elems(2) [OF a(1) b(1) wf_length [OF a(1)]]
  show "is_cube C (sccc_merge l r cl cr)"
    "elems (sccc_merge l r cl cr) = elems l \<inter> elems cl \<union> elems r \<inter> elems cr"
    using c a b by (simp_all add: sccc_merge_def Let_def)
qed

text \<open>A cube with a single active variable takes its parts of that variable away.\<close>

lemma sccc_cube_spec:
  assumes C: "wf_cube C" and r: "is_cube C r" and p: "is_cube C p"
  shows "is_cube C (sccc_cube C r p)"
    "elems (sccc_cube C r p) = {e \<in> elems r. \<forall>v. actives C (elems p) = {v} \<longrightarrow> e \<in> vparts C v \<longrightarrow> e \<notin> elems p}"
proof -
  note a = cactive_spec [OF C p]
  have "is_cube C (sccc_cube C r p) \<and>
    elems (sccc_cube C r p) = {e \<in> elems r. \<forall>v. actives C (elems p) = {v} \<longrightarrow> e \<in> vparts C v \<longrightarrow> e \<notin> elems p}"
  proof (cases "card (actives C (elems p)) = 1")
    case True
    then obtain v where v: "actives C (elems p) = {v}" by (rule card_1_singletonE)
    then have v': "v < num_vars C" "\<And>u. u < num_vars C \<Longrightarrow> u \<noteq> v \<Longrightarrow> vparts C u \<subseteq> elems p" by (auto simp: actives_def)
    note m = wf_cubeD(9,10) [OF C v'(1)]
    note x = binops_wf(4) [OF p m(1) new_cube_length] binops_elems(4) [OF p m(1) new_cube_length]
    note w = binops_wf(1) [OF r x(1) wf_length [OF r]] binops_elems(1) [OF r x(1) wf_length [OF r]]
    have q: "sccc_cube C r p = set_and r r (set_xor (new_cube C) p (var_mask C ! v))"
      using a v by (simp add: sccc_cube_def Let_def)
    have "e \<in> elems p - vparts C v \<union> (vparts C v - elems p) \<longleftrightarrow> (e \<in> vparts C v \<longrightarrow> e \<notin> elems p)" if e: "e \<in> elems r" for e
    proof -
      obtain u where "u < num_vars C" "e \<in> vparts C u"
        using vparts_cover [OF wf_cubeD(1) [OF C] wf_elem_less [OF r e]] .
      then show ?thesis using v'(2) by (cases "u = v") auto
    qed
    then have s: "elems r \<inter> (elems p - vparts C v \<union> (vparts C v - elems p)) = {e \<in> elems r. e \<in> vparts C v \<longrightarrow> e \<notin> elems p}" by blast
    show ?thesis unfolding q w(2) x(2) m(2) s using w(1) v by auto
  next
    case False
    then show ?thesis using a r by (auto simp: sccc_cube_def Let_def)
  qed
  then show "is_cube C (sccc_cube C r p)"
    "elems (sccc_cube C r p) = {e \<in> elems r. \<forall>v. actives C (elems p) = {v} \<longrightarrow> e \<in> vparts C v \<longrightarrow> e \<notin> elems p}" by blast+
qed

lemma sccc_cubes_spec:
  assumes C: "wf_cube C" and cf: "is_cube C cf" and ps: "\<forall>p\<in>set ps. is_cube C p" and r: "is_cube C r"
  defines "R \<equiv> fold (\<lambda>p result. sccc_cube C result (set_or (new_cube C) p cf)) ps r"
  shows "is_cube C R"
    "elems R = {e \<in> elems r. \<forall>p\<in>set ps. \<forall>v. actives C (elems p \<union> elems cf) = {v} \<longrightarrow> e \<in> vparts C v \<longrightarrow> e \<notin> elems p \<union> elems cf}"
proof -
  have "is_cube C R \<and> elems R = {e \<in> elems r. \<forall>p\<in>set ps. \<forall>v.
      actives C (elems p \<union> elems cf) = {v} \<longrightarrow> e \<in> vparts C v \<longrightarrow> e \<notin> elems p \<union> elems cf}"
    using ps r unfolding R_def
  proof (induction ps arbitrary: r)
    case (Cons p ps)
    have p: "is_cube C p" using Cons.prems(1) by simp
    note q = binops_wf(2) [OF p cf new_cube_length] binops_elems(2) [OF p cf new_cube_length]
    note s = sccc_cube_spec [OF C Cons.prems(2) q(1)]
    show ?case using Cons.IH [OF _ s(1)] Cons.prems(1) unfolding s(2) q(2) by auto
  qed simp
  then show "is_cube C R"
    "elems R = {e \<in> elems r. \<forall>p\<in>set ps. \<forall>v. actives C (elems p \<union> elems cf) = {v} \<longrightarrow> e \<in> vparts C v \<longrightarrow> e \<notin> elems p \<union> elems cf}"
    by blast+
qed

section \<open>The cases\<close>

lemma sccc_leaf:
  assumes C: "wf_cube C" and T: "wf_list C T" and nf: "\<forall>p\<in>set (cubes T). \<not> full_row C p (cof T)"
    and leaf: "\<And>x. free C T x \<Longrightarrow> \<exists>y. free C T y \<and>
      (\<forall>p\<in>set (cubes T). \<forall>v\<in>actives C (elems p \<union> elems (cof T)). y v \<notin> elems p \<union> elems (cof T))"
  shows "sccc_ok C T (fold (\<lambda>p result. sccc_cube C result (set_or (new_cube C) p (cof T))) (cubes T) (set_save (fullset C)))"
    (is "sccc_ok C T ?R")
proof (rule sccc_okI)
  note L = wf_cubeD(1) [OF C]
  have f: "set_save (fullset C) = fullset C" by (rule set_save_eq [OF wf_cubeD(3) [OF C]])
  have ps: "\<forall>p\<in>set (cubes T). is_cube C p" using wf_listD(2) [OF T] by blast
  note R = sccc_cubes_spec [OF C wf_listD(1) [OF T] ps wf_cubeD(3) [OF C]]
  show "is_cube C ?R" unfolding f by (rule R(1))
  fix x v e assume x: "free C T x" and v: "v < num_vars C" and e: "e \<in> vparts C v" "e \<notin> elems (cof T)"
  obtain y where y: "free C T y" "\<forall>p\<in>set (cubes T). \<forall>v\<in>actives C (elems p \<union> elems (cof T)). y v \<notin> elems p \<union> elems (cof T)"
    using leaf [OF x] by blast
  have iff: "e \<in> elems ?R \<longleftrightarrow> (\<forall>p\<in>set (cubes T). actives C (elems p \<union> elems (cof T)) = {v} \<longrightarrow> e \<notin> elems p \<union> elems (cof T))"
    unfolding f R(2) wf_cubeD(4) [OF C]
    using vparts_less [OF L v e(1)] vparts_disjoint [OF L v _ e(1)] e(1) by (auto simp: actives_def)
  show "e \<in> elems ?R \<longleftrightarrow> (\<exists>z\<in>uncov C T. z v = e)"
  proof
    assume r: "e \<in> elems ?R"
    have "y(v := e) \<notin> lcov C T"
    proof
      assume "y(v := e) \<in> lcov C T"
      then obtain p where p: "p \<in> set (cubes T)" "covers C (elems p \<union> elems (cof T)) (y(v := e))" by (auto simp: lcov_iff)
      have "u = v" if u: "u \<in> actives C (elems p \<union> elems (cof T))" for u
      proof (rule ccontr)
        assume n: "u \<noteq> v"
        have "(y(v := e)) u \<in> elems p \<union> elems (cof T)" using p(2) u unfolding covers_def actives_def by blast
        then show False using y(2) p(1) u n by simp
      qed
      moreover have "actives C (elems p \<union> elems (cof T)) \<noteq> {}" using not_full_active [OF C T p(1)] nf p(1) by blast
      ultimately have "actives C (elems p \<union> elems (cof T)) = {v}" by blast
      then have "e \<notin> elems p \<union> elems (cof T)" using r iff p(1) by blast
      then show False using p(2) v by (auto simp: covers_def)
    qed
    then show "\<exists>z\<in>uncov C T. z v = e" using free_upd [OF C y(1) v e] by (intro bexI [of _ "y(v := e)"]) (auto simp: uncov_def)
  next
    assume "\<exists>z\<in>uncov C T. z v = e"
    then obtain z where z: "free C T z" "z \<notin> lcov C T" "z v = e" by (auto simp: uncov_def)
    have "e \<notin> elems p \<union> elems (cof T)" if p: "p \<in> set (cubes T)" "actives C (elems p \<union> elems (cof T)) = {v}" for p
    proof
      assume "e \<in> elems p \<union> elems (cof T)"
      then have "z u \<in> elems p \<union> elems (cof T)" if "u < num_vars C" for u
        using p(2) z(1,3) that by (cases "u = v") (auto simp: actives_def free_def point_def)
      then have "z \<in> lcov C T" using p(1) free_point [OF z(1)] by (auto simp: lcov_iff covers_def)
      then show False using z(2) by simp
    qed
    then show "e \<in> elems ?R" using iff by blast
  qed
qed

lemma single_leaf:
  assumes T: "cubes T = [p]" and x: "free C T x" and cf: "wf_list C T"
  shows "\<exists>y. free C T y \<and> (\<forall>p\<in>set (cubes T). \<forall>v\<in>actives C (elems p \<union> elems (cof T)). y v \<notin> elems p \<union> elems (cof T))"
proof -
  let ?c = "elems p \<union> elems (cof T)"
  have "\<exists>e. v \<in> actives C ?c \<longrightarrow> e \<in> vparts C v \<and> e \<notin> ?c" for v by (auto simp: actives_def)
  then obtain f where f: "\<And>v. v \<in> actives C ?c \<Longrightarrow> f v \<in> vparts C v \<and> f v \<notin> ?c" by metis
  show ?thesis
    using x f T by (intro exI [of _ "\<lambda>v. if v \<in> actives C ?c then f v else x v"]) (auto simp: free_def point_def)
qed

lemma uncov_cofactor:
  assumes C: "wf_cube C" and T: "wf_list C T" and c: "is_cube C c"
  shows "free C (cofactor C T c None) y \<longleftrightarrow> free C T y \<and> covers C (elems c) y"
    "uncov C (cofactor C T c None) = {y \<in> uncov C T. covers C (elems c) y}"
proof -
  note W = cofactor_wf(3) [OF C T c, of None]
  show f: "free C (cofactor C T c None) y \<longleftrightarrow> free C T y \<and> covers C (elems c) y" for y
    unfolding free_def W using vparts_less [OF wf_cubeD(1) [OF C]] by (auto simp: covers_def point_def)
  have o: "T\<lparr>cubes := others None (cubes T)\<rparr> = T" by simp
  show "uncov C (cofactor C T c None) = {y \<in> uncov C T. covers C (elems c) y}"
    using cofactor_cov(1,2) [OF C T c, of _ None, unfolded o] f by (auto simp: uncov_def)
qed

lemma sccc_column:
  assumes C: "wf_cube C" and T: "wf_list C T" and n: "elems (ceiling T) \<noteq> {..<cube_size C}"
  defines "r \<equiv> sccc_cube C (set_save (fullset C)) (ceiling T)"
  shows "elems r = {..<cube_size C} \<Longrightarrow> sccc_ok C T r"
    "elems r \<noteq> {..<cube_size C} \<Longrightarrow> sccc_ok C (cofactor C T (ceiling T) None) l \<Longrightarrow>
       sccc_ok C T (sccc_merge l (set_save (fullset C)) (ceiling T) r)"
proof -
  note L = wf_cubeD(1) [OF C] and F = wf_cubeD(3) [OF C] and c = ceiling_spec [OF T]
  let ?c = "elems (ceiling T)"
  have f: "set_save (fullset C) = fullset C" by (rule set_save_eq [OF F])
  note R = sccc_cube_spec [OF C F c(1), folded r_def [unfolded f], unfolded wf_cubeD(4) [OF C]]
  have cof: "e \<notin> elems (cof T)" if "e \<notin> ?c" for e using that c(2) by blast
  have out: "\<exists>z\<in>uncov C T. z v = e"
    if x: "free C T x" and v: "v < num_vars C" "e \<in> vparts C v" "e \<notin> elems (cof T)"
      and u: "u < num_vars C" "a \<in> vparts C u" "a \<notin> ?c" "u = v \<Longrightarrow> e = a" for x u v e a
  proof (rule uncov_upd [OF C _ v])
    let ?x = "x(u := a)"
    have out: "z \<notin> lcov C T" if "z u = a" for z
      using lcov_ceiling [OF T, of z] that u(1,3) unfolding covers_def by blast
    have fx: "free C T ?x" using free_upd [OF C x u(1,2) cof [OF u(3)]] .
    show "?x \<in> uncov C T" using fx out [of ?x] by (simp add: uncov_def)
    show "?x(v := e) \<notin> lcov C T" using out [of "?x(v := e)"] u(4) by simp
  qed
  obtain a where a: "a < cube_size C" "a \<notin> ?c" using n wf_elems [OF c(1)] by blast
  obtain u where u: "u < num_vars C" "a \<in> vparts C u" using vparts_cover [OF L a(1)] .
  show "sccc_ok C T r" if full: "elems r = {..<cube_size C}"
  proof (rule sccc_okI [OF R(1)])
    fix x v e assume x: "free C T x" and v: "v < num_vars C" "e \<in> vparts C v" "e \<notin> elems (cof T)"
    have e: "e \<in> elems r" using full vparts_less [OF L v(1,2)] by simp
    have "\<exists>w b. w < num_vars C \<and> b \<in> vparts C w \<and> b \<notin> ?c \<and> (w = v \<longrightarrow> e = b)"
    proof (cases "e \<in> ?c")
      case True
      then have "actives C ?c \<noteq> {v}" using e R(2) v(2) by auto
      moreover have "u \<in> actives C ?c" using u a(2) by (auto simp: actives_def)
      ultimately obtain w where "w \<in> actives C ?c" "w \<noteq> v" by blast
      then show ?thesis by (auto simp: actives_def)
    next
      case False
      then show ?thesis using v by blast
    qed
    then show "e \<in> elems r \<longleftrightarrow> (\<exists>y\<in>uncov C T. y v = e)" using out [OF x v] e by blast
  qed
  show "sccc_ok C T (sccc_merge l (set_save (fullset C)) (ceiling T) r)"
    if nf: "elems r \<noteq> {..<cube_size C}" and l: "sccc_ok C (cofactor C T (ceiling T) None) l"
  proof (rule sccc_okI)
    note M = sccc_merge_spec [OF sccc_okD(1) [OF l] F c(1) R(1)]
    show "is_cube C (sccc_merge l (set_save (fullset C)) (ceiling T) r)" unfolding f by (rule M(1))
    obtain w where w: "actives C ?c = {w}" using nf R(2) by auto
    have "u \<in> actives C ?c" using u a(2) by (auto simp: actives_def)
    then have wu: "w = u" using w by simp
    have r: "elems r = {e. e < cube_size C \<and> (e \<in> vparts C u \<longrightarrow> e \<notin> ?c)}"
      unfolding R(2) w wu by auto
    fix x v e assume x: "free C T x" and v: "v < num_vars C" "e \<in> vparts C v" "e \<notin> elems (cof T)"
    show "e \<in> elems (sccc_merge l (set_save (fullset C)) (ceiling T) r) \<longleftrightarrow> (\<exists>y\<in>uncov C T. y v = e)"
    proof (cases "e \<in> elems r")
      case True
      have "\<exists>y\<in>uncov C T. y v = e"
      proof (cases "v = u")
        case True
        then have "e \<notin> ?c" using \<open>e \<in> elems r\<close> r v(2) by simp
        then show ?thesis using out [OF x v v(1,2)] by blast
      qed (use out [OF x v u a(2)] in blast)
      then show ?thesis using True M(2) wf_cubeD(4) [OF C] vparts_less [OF L v(1,2)] unfolding f by simp
    next
      case False
      have lt: "e < cube_size C" by (rule vparts_less [OF L v(1,2)])
      have eu: "e \<in> vparts C u" "e \<in> ?c" using False r lt by auto
      have vu: "v = u" by (rule vparts_disjoint [OF L v(1) u(1) v(2) eu(1)])
      note U = uncov_cofactor [OF C T c(1)]
      have cc: "covers C ?c z" if "point C z" "z u = e" for z
      proof -
        have "z t \<in> ?c" if t: "t < num_vars C" for t
        proof (cases "t = u")
          case False
          then have "vparts C t \<subseteq> ?c" using w wu t by (auto simp: actives_def)
          then show ?thesis using \<open>point C z\<close> t by (auto simp: point_def)
        qed (use \<open>z u = e\<close> eu(2) in simp)
        then show ?thesis by (simp add: covers_def)
      qed
      have "free C T (x(u := e))" using free_upd [OF C x u(1) eu(1) v(3)] .
      then have "free C (cofactor C T (ceiling T) None) (x(u := e))" using U(1) cc free_point by simp
      then have "e \<in> elems l \<longleftrightarrow> (\<exists>y\<in>uncov C (cofactor C T (ceiling T) None). y u = e)"
        using sccc_okD(2) [OF l _ u(1) eu(1)] v(3) eu(2) cofactor_wf(3) [OF C T c(1)] by simp
      also have "\<dots> \<longleftrightarrow> (\<exists>y\<in>uncov C T. y u = e)" unfolding U(2) using cc free_point by (auto simp: uncov_def)
      finally show ?thesis using False eu(2) M(2) vu unfolding f by simp
    qed
  qed
qed

lemma sccc_partition:
  assumes A: "A = T\<lparr>cubes := as\<rparr>" and B: "B = T\<lparr>cubes := bs\<rparr>" and s: "set as \<union> set bs = set (cubes T)"
    and d: "act_vars C (cof T) as \<inter> act_vars C (cof T) bs = {}"
    and a: "sccc_ok C A a" and b: "sccc_ok C B b"
  shows "sccc_ok C T (set_and a a b)"
proof (rule sccc_okI)
  note w = sccc_okD(1) [OF a] sccc_okD(1) [OF b] wf_length [OF sccc_okD(1) [OF a]]
  show "is_cube C (set_and a a b)" by (rule binops_wf(1) [OF w])
  have fr: "free C A x \<longleftrightarrow> free C T x" "free C B x \<longleftrightarrow> free C T x" for x by (simp_all add: A B free_def)
  have cf: "cof A = cof T" "cof B = cof T" by (simp_all add: A B)
  have sub: "lcov C A \<subseteq> lcov C T" "lcov C B \<subseteq> lcov C T" unfolding A B by (rule lcov_subset, use s in blast)+
  fix x v e assume x: "free C T x" and v: "v < num_vars C" "e \<in> vparts C v" "e \<notin> elems (cof T)"
  have "e \<in> elems (set_and a a b) \<longleftrightarrow> (\<exists>y\<in>uncov C A. y v = e) \<and> (\<exists>y\<in>uncov C B. y v = e)"
    unfolding binops_elems(1) [OF w] using sccc_okD(2) [OF a _ v(1,2)] sccc_okD(2) [OF b _ v(1,2)] x v(3) fr cf by simp
  also have "\<dots> \<longleftrightarrow> (\<exists>y\<in>uncov C T. y v = e)"
  proof (intro iffI)
    assume "(\<exists>y\<in>uncov C A. y v = e) \<and> (\<exists>y\<in>uncov C B. y v = e)"
    then obtain y z where y: "free C T y" "y \<notin> lcov C A" "y v = e" and z: "free C T z" "z \<notin> lcov C B" "z v = e"
      by (auto simp: uncov_def fr)
    have "mix (act_vars C (cof T) as) y z v = e" using y(3) z(3) by (simp add: mix_def)
    then show "\<exists>y\<in>uncov C T. y v = e"
      using components [OF A B s d y(1,2) z(1,2)] mix_free [OF y(1) z(1)] by (auto simp: uncov_def)
  qed (use sub fr in \<open>auto simp: uncov_def\<close>)
  finally show "e \<in> elems (set_and a a b) \<longleftrightarrow> (\<exists>y\<in>uncov C T. y v = e)" .
qed

lemma sccc_split:
  assumes C: "wf_cube C" and T: "wf_list C T" and s: "split_ok C T cl cr u"
    and l: "sccc_ok C (scofactor C T cl u None) l" and r: "sccc_ok C (scofactor C T cr u None) r"
  shows "sccc_ok C T (sccc_merge l r cl cr)"
proof (rule sccc_okI)
  have w: "is_cube C cl" "is_cube C cr" using s by (auto simp: split_ok_def)
  note M = sccc_merge_spec [OF sccc_okD(1) [OF l] sccc_okD(1) [OF r] w]
  show "is_cube C (sccc_merge l r cl cr)" by (rule M(1))
  fix x v e assume x: "free C T x" and v: "v < num_vars C" "e \<in> vparts C v" "e \<notin> elems (cof T)"
  have half: "e \<in> elems h \<inter> elems c \<longleftrightarrow> (\<exists>y\<in>uncov C T. covers C (elems c) y \<and> y v = e)"
    if h: "sccc_ok C (scofactor C T c u None) h" and c: "c = cl \<and> d = cr \<or> c = cr \<and> d = cl" for h c d
  proof -
    have c': "c = cl \<or> c = cr" and ic: "is_cube C c" using c w by auto
    have U: "uncov C (scofactor C T c u None) = {y \<in> uncov C T. covers C (elems c) y}"
      using split_free_iff [OF C T s c'] split_cov [OF C T s c'] free_point by (auto simp: uncov_def)
    show ?thesis
    proof (cases "e \<in> elems c")
      case True
      obtain y where "free C (scofactor C T c u None) y" using split_point [OF C T s x c] by blast
      then show ?thesis using sccc_okD(2) [OF h _ v(1,2)] True v(3) cofactor_wf(4) [OF C T ic] unfolding U by auto
    next
      case False
      then show ?thesis using v(1) by (auto simp: covers_def)
    qed
  qed
  show "e \<in> elems (sccc_merge l r cl cr) \<longleftrightarrow> (\<exists>y\<in>uncov C T. y v = e)"
    using half [OF l, of cr] half [OF r, of cl] split_cases [OF C s] unfolding M(2) by (auto simp: uncov_def)
qed

theorem sccc_spec:
  assumes C: "wf_cube C" and "wf_list C T" "remaining C T + length (cubes T) < k"
  shows "\<exists>r. sccc k C T = Inr r \<and> sccc_ok C T r"
  using assms(2-)
proof (induction k arbitrary: T)
  case (Suc k)
  note T = Suc.prems(1) and k = Suc.prems(2) and IH = Suc.IH
  let ?cd = "massive_count C T" and ?rec = "sccc k C"
  have F: "set_save (fullset C) = fullset C" by (rule set_save_eq [OF wf_cubeD(3) [OF C]])
  have leq: "fold (\<lambda>p ceil. set_or ceil ceil p) (cubes T) (set_save (cof T)) = ceiling T" by (simp add: ceiling_def)
  note eq = sccc_special_cases_def [of ?rec C T, unfolded leq Let_def]
  have answer: ?case if "sccc_special_cases ?rec C T = Inr (Answer r)" "sccc_ok C T r" for r using that by simp
  have empty: "sccc_ok C T (new_cube C)" if "lcov C T = {x. point C x}"
    using that free_point wf_layoutD(3) [OF wf_cubeD(1) [OF C]]
    by (intro sccc_okI) (auto simp: uncov_def new_cube_def)
  have split: ?case if sp: "sccc_special_cases ?rec C T = Inr (Split T ?cd)" and u: "\<not> all_unate C T"
  proof -
    obtain cl cr v where s: "binate_split_select C T ?cd (new_cube C) (new_cube C) = (cl, cr, v)"
      by (cases "binate_split_select C T ?cd (new_cube C) (new_cube C)")
    have S: "split_ok C T cl cr v" by (rule split_okI [OF C T u s])
    have sub: "\<exists>r. ?rec (scofactor C T c v None) = Inr r \<and> sccc_ok C (scofactor C T c v None) r" if c: "c = cl \<or> c = cr" for c
    proof (rule IH)
      show "wf_list C (scofactor C T c v None)" using cofactor_wf(2) [OF C T] S c by (auto simp: split_ok_def)
      have "remaining C (scofactor C T c v None) < remaining C T" using S c by (auto simp: split_ok_def)
      then show "remaining C (scofactor C T c v None) + length (cubes (scofactor C T c v None)) < k"
        using k scofactor_length [of C T c v] by simp
    qed
    obtain l r where "?rec (scofactor C T cl v None) = Inr l" "sccc_ok C (scofactor C T cl v None) l"
      "?rec (scofactor C T cr v None) = Inr r" "sccc_ok C (scofactor C T cr v None) r" using sub [of cl] sub [of cr] by blast
    then show ?case using sccc_split [OF C T S] sp s by simp
  qed
  consider (none) "cubes T = []"
    | (row) "cubes T \<noteq> []" "list_ex (\<lambda>p. full_row C p (cof T)) (cubes T)"
    | (leaf) "cubes T \<noteq> []" "\<not> list_ex (\<lambda>p. full_row C p (cof T)) (cubes T)" "all_unate C T \<or> length (cubes T) = 1"
    | (column) "cubes T \<noteq> []" "\<not> list_ex (\<lambda>p. full_row C p (cof T)) (cubes T)" "\<not> (all_unate C T \<or> length (cubes T) = 1)"
        "\<not> setp_equal (ceiling T) (fullset C)"
    | (single) "cubes T \<noteq> []" "\<not> list_ex (\<lambda>p. full_row C p (cof T)) (cubes T)" "\<not> (all_unate C T \<or> length (cubes T) = 1)"
        "setp_equal (ceiling T) (fullset C)" "vars_active ?cd = 1"
    | (more) "cubes T \<noteq> []" "\<not> list_ex (\<lambda>p. full_row C p (cof T)) (cubes T)" "\<not> (all_unate C T \<or> length (cubes T) = 1)"
        "setp_equal (ceiling T) (fullset C)" "vars_active ?cd \<noteq> 1" by blast
  then show ?case
  proof cases
    case none
    have "sccc_ok C T (fullset C)"
    proof (rule sccc_okI [OF wf_cubeD(3) [OF C]])
      fix x v e assume x: "free C T x" "v < num_vars C" "e \<in> vparts C v" "e \<notin> elems (cof T)"
      have "x \<in> uncov C T" "x(v := e) \<notin> lcov C T" using none x(1) by (auto simp: uncov_def lcov_iff)
      then show "e \<in> elems (fullset C) \<longleftrightarrow> (\<exists>y\<in>uncov C T. y v = e)"
        using uncov_upd [OF C _ x(2-4)] wf_cubeD(4) [OF C] vparts_less [OF wf_cubeD(1) [OF C] x(2,3)] by blast
    qed
    then show ?thesis using none F by (intro answer) (auto simp: sccc_special_cases_def)
  next
    case row
    then show ?thesis using full_row_tautology [OF C T] by (intro answer [OF _ empty]) (auto simp: sccc_special_cases_def)
  next
    case leaf
    let ?r = "fold (\<lambda>p result. sccc_cube C result (set_or (new_cube C) p (cof T))) (cubes T) (set_save (fullset C))"
    have "\<exists>y. free C T y \<and> (\<forall>p\<in>set (cubes T). \<forall>v\<in>actives C (elems p \<union> elems (cof T)). y v \<notin> elems p \<union> elems (cof T))"
      if x: "free C T x" for x
    proof (cases "all_unate C T")
      case True
      then show ?thesis by (rule apart_leaf [OF C T _ x]) blast
    next
      case False
      then have "length (cubes T) = 1" using leaf(3) by blast
      then obtain p where "cubes T = [p]" unfolding One_nat_def length_Suc_conv by blast
      then show ?thesis using single_leaf [OF _ x T] by blast
    qed
    then have "sccc_ok C T ?r" using leaf(2) by (intro sccc_leaf [OF C T]) (auto simp: list_ex_iff)
    then show ?thesis using leaf unate_counts_iff [OF C T] by (intro answer [of ?r]) (simp_all add: eq)
  next
    case column
    have n: "elems (ceiling T) \<noteq> {..<cube_size C}" using column(4) setp_full_cube [OF C ceiling_spec(1) [OF T]] by blast
    let ?r = "sccc_cube C (set_save (fullset C)) (ceiling T)"
    note col = sccc_column [OF C T n]
    have full: "setp_equal ?r (fullset C) \<longleftrightarrow> elems ?r = {..<cube_size C}"
      using setp_full_cube [OF C] sccc_cube_spec(1) [OF C wf_cubeD(3) [OF C] ceiling_spec(1) [OF T]] F by simp
    note b = eq [unfolded full]
    show ?thesis
    proof (cases "elems ?r = {..<cube_size C}")
      case True
      then show ?thesis using column unate_counts_iff [OF C T] by (intro answer [OF _ col(1)]) (simp_all add: b)
    next
      case False
      let ?T = "cofactor C T (ceiling T) None"
      have "\<exists>r. ?rec ?T = Inr r \<and> sccc_ok C ?T r"
      proof (rule IH)
        note W = cofactor_wf(1,3) [OF C T ceiling_spec(1) [OF T], of None]
        show "wf_list C ?T" by (rule W(1))
        obtain e where e: "e < cube_size C" "e \<notin> elems (ceiling T)" using n wf_elems [OF ceiling_spec(1) [OF T]] by blast
        have "remaining C ?T < remaining C T"
          by (rule remaining_less [where e = e]) (use e W(2) ceiling_spec(2) [OF T] in auto)
        moreover have "length (cubes ?T) \<le> length (cubes T)" by (simp add: cofactor_def Let_def)
        ultimately show "remaining C ?T + length (cubes ?T) < k" using k by simp
      qed
      then obtain l where l: "?rec ?T = Inr l" "sccc_ok C ?T l" by blast
      show ?thesis using column False l unate_counts_iff [OF C T] by (intro answer [OF _ col(2) [OF False l(2)]]) (simp add: b)
    qed
  next
    case single
    have n: "elems (ceiling T) = {..<cube_size C}" using single(4) setp_full_cube [OF C ceiling_spec(1) [OF T]] by blast
    show ?thesis using single unate_counts_iff [OF C T]
      by (intro answer [OF _ empty [OF single_active_tautology [OF C T n]]]) (simp_all add: eq)
  next
    case more
    note m = more unate_counts_iff [OF C T]
    show ?thesis
    proof (cases "var_zeros ?cd ! nat (best_var ?cd) < CUBELISTSIZE T div 2 \<and> snd (cubelist_partition C T) \<noteq> None")
      case True
      then obtain A B where AB: "snd (cubelist_partition C T) = Some (A, B)" by auto
      obtain as bs where P: "A = T\<lparr>cubes := as\<rparr>" "B = T\<lparr>cubes := bs\<rparr>" "as \<noteq> []" "bs \<noteq> []"
        "set as \<union> set bs = set (cubes T)" "length as + length bs = length (cubes T)"
        "act_vars C (cof T) as \<inter> act_vars C (cof T) bs = {}" by (rule cubelist_partition_spec [OF C T more(1) AB])
      have len: "length as < length (cubes T)" "length bs < length (cubes T)" using P(3,4,6) by (simp_all flip: length_greater_0_conv)
      have "\<exists>a. ?rec A = Inr a \<and> sccc_ok C A a" "\<exists>b. ?rec B = Inr b \<and> sccc_ok C B b"
        by (rule IH; use T P(1,2,5) len k in \<open>auto simp: wf_list_def remaining_def\<close>)+
      then obtain a b where ab: "?rec A = Inr a" "sccc_ok C A a" "?rec B = Inr b" "sccc_ok C B b" by blast
      show ?thesis using m True AB ab by (intro answer [OF _ sccc_partition [OF P(1,2,5,7) ab(2,4)]]) (simp add: eq)
    next
      case False
      show ?thesis
      proof (rule split)
        show "sccc_special_cases ?rec C T = Inr (Split T ?cd)"
          using m False by (cases "snd (cubelist_partition C T)") (auto simp: eq)
      qed (use more in blast)
    qed
  qed
qed simp

section \<open>Reducing a cover\<close>

text \<open>The points of a cube that the other cubes of the list leave uncovered.\<close>

definition essentials :: "cube_struct \<Rightarrow> pset \<Rightarrow> pset list \<Rightarrow> (nat \<Rightarrow> nat) set" where
  "essentials C p qs = cov C {elems p} - cov C (elems ` set qs)"

lemma smallest_cubeD:
  assumes "elems r = (\<Union>x\<in>E. x ` {..<num_vars C})" "x \<in> E"
  shows "covers C (elems r) x"
  using assms by (auto simp: covers_def)

lemma lcov_plain:
  assumes "elems (cof T) = {}"
  shows "lcov C (T\<lparr>cubes := qs\<rparr>) = cov C (elems ` set qs)"
  using assms by (simp add: lcov_def)

lemma reduce_cube_spec:
  fixes self :: "nat option"
  assumes C: "wf_cube C" and T: "wf_list C T" and p: "is_cube C p" and cof: "elems (cof T) = {}"
    and k: "cube_size C + length (cubes T) < k"
  defines "E \<equiv> essentials C p (others self (cubes T))"
  shows "\<exists>r. reduce_cube k C T p self = Inr r \<and> is_cube C r \<and> elems r \<subseteq> elems p \<and> (\<forall>x\<in>E. covers C (elems r) x)
    \<and> (\<not> null_cube C (elems p) \<longrightarrow> elems r = (\<Union>x\<in>E. x ` {..<num_vars C}))"
proof -
  note L = wf_cubeD(1) [OF C] and W = cofactor_wf(1,3) [OF C T p]
  let ?T = "cofactor C T p self"
  have free: "free C ?T y \<longleftrightarrow> point C y \<and> covers C (elems p) y" for y
    unfolding free_def W(2) cof using vparts_less [OF L] by (auto simp: covers_def point_def)
  have "remaining C ?T \<le> card {..<cube_size C}" unfolding remaining_def by (rule card_mono) auto
  moreover have "length (cubes ?T) \<le> length (cubes T)"
    unfolding cofactor_def others_def Let_def by (auto intro!: order_trans [OF length_filter_le])
  ultimately obtain s where s: "sccc k C ?T = Inr s" "sccc_ok C ?T s"
    using sccc_spec [OF C W(1) [of self], of k] k by auto
  note b = binops_wf(1) [OF sccc_okD(1) [OF s(2)] p wf_length [OF sccc_okD(1) [OF s(2)]]]
    binops_elems(1) [OF sccc_okD(1) [OF s(2)] p wf_length [OF sccc_okD(1) [OF s(2)]]]
  have E: "uncov C ?T = E"
    using cofactor_cov(1,2) [OF C T p, of _ self] free cof unfolding E_def essentials_def
    by (auto simp: uncov_def lcov_plain cov_def free_def)
  have EP: "point C x \<and> covers C (elems p) x" if "x \<in> E" for x using that by (simp add: E_def essentials_def cov_def)
  have r: "elems s \<inter> elems p = (\<Union>x\<in>E. x ` {..<num_vars C})" if nn: "\<not> null_cube C (elems p)"
  proof -
    obtain x where x: "point C x" "covers C (elems p) x" by (rule common_point [OF C nn])
    have in_s: "e \<in> elems s \<longleftrightarrow> (\<exists>y\<in>E. y v = e)" if "v < num_vars C" "e \<in> vparts C v" "e \<in> elems p" for v e
      using sccc_okD(2) [OF s(2) _ that(1,2), of x] free x that(3) cof W(2) unfolding E by auto
    show ?thesis
    proof (intro set_eqI iffI)
      fix e assume e: "e \<in> elems s \<inter> elems p"
      then obtain v where "v < num_vars C" "e \<in> vparts C v" using vparts_cover [OF L wf_elem_less [OF p]] by blast
      then show "e \<in> (\<Union>x\<in>E. x ` {..<num_vars C})" using in_s e by blast
    next
      fix e assume "e \<in> (\<Union>x\<in>E. x ` {..<num_vars C})"
      then obtain y v where y: "y \<in> E" "v < num_vars C" "e = y v" by blast
      then have "e \<in> vparts C v" "e \<in> elems p" using EP by (auto simp: point_def covers_def)
      then show "e \<in> elems s \<inter> elems p" using in_s y by blast
    qed
  qed
  have "covers C (elems s \<inter> elems p) x" if x: "x \<in> E" for x
  proof -
    have "\<not> null_cube C (elems p)" using EP [OF x] by (auto simp: null_cube_def null_var_def covers_def point_def)
    from r [OF this] x show ?thesis by (auto simp: covers_def)
  qed
  then show ?thesis using b r s(1) by (auto simp: reduce_cube_def)
qed

lemma TESTP_SET_mono:
  assumes "a \<noteq> []" "TESTP a f"
  shows "TESTP (SET a g) f"
proof -
  have "(a ! 0 OR g) AND f = (a ! 0 AND f) OR (g AND f)" by (rule bit.conj_disj_distrib2)
  then show ?thesis using assms word_or_zero by (simp add: TESTP_def SET_def)
qed

lemma reduce_mark_spec:
  assumes "wf_set n p" "wf_set n c"
  shows "wf_set n (reduce_mark p c)" "elems (reduce_mark p c) = elems c"
    "elems c \<noteq> {} \<Longrightarrow> TESTP (reduce_mark p c) ACTIVE"
proof -
  let ?r = "RESET c PRIME"
  have w: "wf_set n ?r" "elems ?r = elems c" using assms(2) by simp_all
  have ne: "p \<noteq> []" "?r \<noteq> []" "SET p ACTIVE \<noteq> []"
    using wf_nonempty [OF assms(1)] wf_nonempty [OF w(1)] wf_nonempty [of n "SET p ACTIVE"] assms(1) by simp_all
  have cases: "reduce_mark p c = SET (SET p ACTIVE) PRIME \<and> elems c = elems p
    \<or> reduce_mark p c = SET ?r ACTIVE \<or> reduce_mark p c = RESET ?r ACTIVE \<and> elems c = {}"
    unfolding reduce_mark_def Let_def setp_equal_iff [OF assms(2,1)] setp_empty_iff [OF assms(2)]
      set_copy_eq [OF assms(2) wf_length [OF assms(1)]] by simp
  show "wf_set n (reduce_mark p c)" "elems (reduce_mark p c) = elems c"
    using cases by (elim disjE conjE; simp add: assms)+
  show "TESTP (reduce_mark p c) ACTIVE" if "elems c \<noteq> {}"
  proof -
    have "TESTP (SET (SET p ACTIVE) PRIME) ACTIVE" using TESTP_SET_mono [OF ne(3)] SET_spec(5) [OF _ ne(1)] by simp
    moreover have "TESTP (SET ?r ACTIVE) ACTIVE" using SET_spec(5) [OF _ ne(2)] by simp
    ultimately show ?thesis using cases that by metis
  qed
qed

lemma set_update_others:
  assumes "i < length ps"
  shows "set (ps[i := c]) = insert c {ps ! j |j. j < length ps \<and> j \<noteq> i}"
proof -
  have "set (ps[i := c]) = (\<lambda>j. if j = i then c else ps ! j) ` {..<length ps}"
    using assms by (auto simp: set_conv_nth nth_list_update)
  then show ?thesis using assms by auto
qed

lemma onset_set_nth:
  assumes "i < length ps"
  shows "cov C (elems ` set (ps[i := c])) = cov C {elems c} \<union> cov C (elems ` {ps ! j |j. j < length ps \<and> j \<noteq> i})"
  unfolding set_update_others [OF assms] image_insert by (rule cov_insert)

lemma others_onset:
  assumes i: "i < cnt F"
  shows "cov C (elems ` set (others (Some i) (data F @ data D)))
    = cov C (elems ` {data F ! j |j. j < cnt F \<and> j \<noteq> i}) \<union> onset C D"
proof -
  have "set (others (Some i) (data F @ data D)) = {data F ! j |j. j < cnt F \<and> j \<noteq> i} \<union> set (data D)"
  proof (intro set_eqI iffI)
    fix q assume "q \<in> set (others (Some i) (data F @ data D))"
    then obtain j where j: "q = (data F @ data D) ! j" "j < cnt F + cnt D" "j \<noteq> i" unfolding set_others(3) by auto
    show "q \<in> {data F ! j |j. j < cnt F \<and> j \<noteq> i} \<union> set (data D)"
      using j by (cases "j < cnt F") (auto simp: nth_append)
  next
    fix q assume "q \<in> {data F ! j |j. j < cnt F \<and> j \<noteq> i} \<union> set (data D)"
    then consider (F) j where "q = data F ! j" "j < cnt F" "j \<noteq> i" | (D) j where "q = data D ! j" "j < cnt D"
      by (auto simp: in_set_conv_nth)
    then show "q \<in> set (others (Some i) (data F @ data D))"
    proof cases
      case F
      then have "(data F @ data D) ! j = q" by (simp add: nth_append)
      then show ?thesis unfolding set_others(3) using F by (auto intro!: exI [of _ j])
    next
      case D
      then have "(data F @ data D) ! (cnt F + j) = q" by simp
      then show ?thesis unfolding set_others(3) using D i by (auto intro!: exI [of _ "cnt F + j"])
    qed
  qed
  then show ?thesis by (simp add: image_Un)
qed

lemma reduce_loop_spec:
  assumes C: "wf_cube C" and D: "is_cover C D" and "is_cover C F" "set is \<subseteq> {..<cnt F}" "distinct is"
    and "cube_size C + cnt F + cnt D < k"
  shows "\<exists>R. reduce_loop k C D is F = Inr R \<and> is_cover C R \<and> cnt R = cnt F
    \<and> onset C R \<union> onset C D = onset C F \<union> onset C D \<and> (\<forall>i<cnt F. elems (data R ! i) \<subseteq> elems (data F ! i))
    \<and> (\<forall>i<cnt F. i \<notin> set is \<longrightarrow> data R ! i = data F ! i)
    \<and> (\<forall>i\<in>set is. elems (data R ! i) \<noteq> {} \<longrightarrow> TESTP (data R ! i) ACTIVE)"
  using assms(3-)
proof (induction "is" arbitrary: F)
  case (Cons i "is")
  note F = Cons.prems(1)
  have i: "i < cnt F" "i \<notin> set is" using Cons.prems by simp_all
  have p: "is_cube C (data F ! i)" using wf_familyD(3) [OF F] i(1) by simp
  let ?qs = "others (Some i) (data F @ data D)"
  have wl: "wf_list C (cube2list C F D)" using cubelists_wf(2) [OF C F D D] .
  obtain c where c: "reduce_cube k C (cube2list C F D) (data F ! i) (Some i) = Inr c" "is_cube C c" "elems c \<subseteq> elems (data F ! i)"
    "\<forall>x\<in>essentials C (data F ! i) ?qs. covers C (elems c) x"
    using reduce_cube_spec [OF C wl p cof_cube2list [OF C], of k "Some i"] Cons.prems(4) by auto
  note m = reduce_mark_spec [OF p c(2)]
  define G where "G = F\<lparr>data := (data F)[i := reduce_mark (data F ! i) c]\<rparr>"
  have G: "is_cover C G" "cnt G = cnt F" using F m(1) by (auto simp: G_def wf_family_def dest: set_update_subset_insert [THEN subsetD])
  define X where "X = cov C (elems ` {data F ! j |j. j < cnt F \<and> j \<noteq> i})"
  have oF: "onset C F = cov C {elems (data F ! i)} \<union> X"
    using onset_set_nth [OF i(1), of C "data F ! i"] by (simp add: X_def)
  have oG: "onset C G = cov C {elems c} \<union> X" unfolding X_def G_def by (simp add: onset_set_nth [OF i(1)] m(2))
  have qs: "cov C (elems ` set ?qs) = X \<union> onset C D" unfolding X_def by (rule others_onset [OF i(1)])
  have "cov C {elems c} \<subseteq> cov C {elems (data F ! i)}" using c(3) by (auto simp: cov_def covers_def)
  moreover have "x \<in> cov C {elems c} \<union> X \<union> onset C D" if "x \<in> cov C {elems (data F ! i)}" for x
    using that c(4) qs unfolding essentials_def by (auto simp: cov_def)
  ultimately have on: "onset C G \<union> onset C D = onset C F \<union> onset C D" unfolding oF oG by blast
  have "set is \<subseteq> {..<cnt G}" "distinct is" "cube_size C + cnt G + cnt D < k" using Cons.prems G(2) by simp_all
  from Cons.IH [OF G(1) this] obtain R where R: "reduce_loop k C D is G = Inr R" "is_cover C R" "cnt R = cnt F"
    "onset C R \<union> onset C D = onset C G \<union> onset C D" "\<forall>j<cnt F. elems (data R ! j) \<subseteq> elems (data G ! j)"
    "\<forall>j<cnt F. j \<notin> set is \<longrightarrow> data R ! j = data G ! j"
    "\<forall>j\<in>set is. elems (data R ! j) \<noteq> {} \<longrightarrow> TESTP (data R ! j) ACTIVE" unfolding G(2) by blast
  have gi: "data G ! i = reduce_mark (data F ! i) c" and gj: "\<And>j. j \<noteq> i \<Longrightarrow> data G ! j = data F ! j" using i by (simp_all add: G_def)
  have "elems (data R ! j) \<subseteq> elems (data F ! j)" if "j < cnt F" for j
    using R(5) gi gj [of j] m(2) c(3) that by (cases "j = i") force+
  moreover have "data R ! j = data F ! j" if "j < cnt F" "j \<notin> set (i # is)" for j using R(6) gj that by simp
  moreover have "elems (data R ! j) \<noteq> {} \<longrightarrow> TESTP (data R ! j) ACTIVE" if "j \<in> set (i # is)" for j
  proof (cases "j = i")
    case True
    then show ?thesis using R(6) gi m(2,3) i by simp
  qed (use R(7) that in simp)
  ultimately show ?case using R(1-4) on c(1) by (simp add: G_def [symmetric])
qed simp

lemma empty_cubes_cover:
  assumes "wf_cube C" "\<forall>p\<in>set ps. \<not> P p \<longrightarrow> elems p = {}"
  shows "cov C (elems ` set (filter P ps)) = cov C (elems ` set ps)"
  using assms wf_layoutD(1) [OF wf_cubeD(1) [OF assms(1)]] by (force simp: cov_def covers_def)

lemma ordered_same:
  assumes "is_cover C F"
  shows "same_cubes (cube_size C) F
    (if use_random_order then random_order F else if toggle then sort_reduce C F else mini_sort C F cmp)"
  using random_order_same [OF assms] sorts_same [OF assms] by auto

text \<open>
  C13. With enough fuel, the reduction of a cover returns, with any of the orders; the result covers the
  same points up to the don't-care set, it has no more cubes, and each of its cubes lies inside a cube of
  the cover.
\<close>

theorem reduce_preserves:
  assumes "wf_cube C" "is_cover C F" "is_cover C D" "cube_size C + cnt F + cnt D < k"
  shows "\<exists>R. reduce k C use_random_order toggle F D = Inr (R, use_random_order = toggle) \<and> is_cover C R
    \<and> onset C R \<union> onset C D = onset C F \<union> onset C D \<and> cnt R \<le> cnt F
    \<and> (\<forall>r\<in>set (data R). \<exists>p\<in>set (data F). elems r \<subseteq> elems p)"
proof -
  define S where "S = (if use_random_order then random_order F else if toggle then sort_reduce C F else mini_sort C F descend)"
  note S = same_cubesD [OF ordered_same [OF assms(2), of use_random_order toggle descend, folded S_def]]
  have idx: "set [0..<cnt S] \<subseteq> {..<cnt S}" and k: "cube_size C + cnt S + cnt D < k" using assms(4) S(3) by auto
  obtain R where R: "reduce_loop k C D [0..<cnt S] S = Inr R" "is_cover C R" "cnt R = cnt S"
    "onset C R \<union> onset C D = onset C S \<union> onset C D" "\<forall>i<cnt S. elems (data R ! i) \<subseteq> elems (data S ! i)"
    "\<forall>i\<in>set [0..<cnt S]. elems (data R ! i) \<noteq> {} \<longrightarrow> TESTP (data R ! i) ACTIVE"
    using reduce_loop_spec [OF assms(1,3) S(1) idx distinct_upt k] by blast
  note I = sf_inactive_spec [OF R(2)]
  have t: "reduce k C use_random_order toggle F D = Inr (sf_inactive R, use_random_order = toggle)"
    using R(1) by (cases use_random_order; cases toggle) (simp_all add: reduce_def S_def)
  have "\<forall>p\<in>set (data R). \<not> TESTP p ACTIVE \<longrightarrow> elems p = {}" using R(3,6) unfolding set_conv_nth by auto
  then have "onset C (sf_inactive R) = onset C R" unfolding I(1) by (rule empty_cubes_cover [OF assms(1)])
  then have on: "onset C (sf_inactive R) \<union> onset C D = onset C F \<union> onset C D" using R(4) S(4) by simp
  have cn: "cnt (sf_inactive R) \<le> cnt F" using I(1) R(3) S(3) by (metis length_filter_le)
  have "\<exists>p\<in>set (data F). elems r \<subseteq> elems p" if r: "r \<in> set (data (sf_inactive R))" for r
  proof -
    obtain i where i: "i < cnt S" "r = data R ! i" using r R(3) unfolding I(1) by (auto simp: in_set_conv_nth)
    have "elems (data S ! i) \<in> elems ` set (data F)" using i(1) S(2) by (metis image_eqI nth_mem)
    then show ?thesis using R(5) i by auto
  qed
  then show ?thesis using t I(2) on cn by blast
qed

theorem reduce_preserves_witness:
  "\<exists>R t. reduce 12 demo_cube False True (cover_of 7 [[0, 1, 2, 4], [0, 2, 3, 4]]) (cover_of 7 [[1, 2, 4]]) = Inr (R, t) \<and> cnt R \<le> 2"
  using reduce_preserves [of demo_cube "cover_of 7 [[0, 1, 2, 4], [0, 2, 3, 4]]" "cover_of 7 [[1, 2, 4]]" 12 False True]
  by auto

text \<open>
  C12. With enough fuel, the reduction of a non-empty cube of the cover is the smallest cube that may replace it: it
  keeps the points of the cover up to the don't-cares, and lies in every cube inside the given one that does.
\<close>

theorem reduction_is_smallest:
  assumes "wf_cube C" "is_cover C F" "is_cover C D" "i < cnt F" "\<not> null_cube C (elems (data F ! i))"
    "cube_size C + cnt F + cnt D < k"
  defines "keeps c \<equiv> is_cube C c \<and> elems c \<subseteq> elems (data F ! i)
      \<and> onset C (F\<lparr>data := (data F)[i := c]\<rparr>) \<union> onset C D = onset C F \<union> onset C D"
  shows "\<exists>r. reduce_cube k C (cube2list C F D) (data F ! i) (Some i) = Inr r \<and> keeps r
    \<and> (\<forall>c. keeps c \<longrightarrow> elems r \<subseteq> elems c)"
proof -
  have p: "is_cube C (data F ! i)" using wf_familyD(3) [OF assms(2)] assms(4) by simp
  define E where "E = essentials C (data F ! i) (others (Some i) (data F @ data D))"
  obtain r where r: "reduce_cube k C (cube2list C F D) (data F ! i) (Some i) = Inr r" "is_cube C r"
    "elems r \<subseteq> elems (data F ! i)" "\<forall>x\<in>E. covers C (elems r) x" "elems r = (\<Union>x\<in>E. x ` {..<num_vars C})"
    using reduce_cube_spec [OF assms(1) cubelists_wf(2) [OF assms(1,2,3,3)] p cof_cube2list [OF assms(1)], of k "Some i"]
      assms(5,6) unfolding E_def by auto
  define X where "X = cov C (elems ` {data F ! j |j. j < cnt F \<and> j \<noteq> i})"
  have on: "onset C (F\<lparr>data := (data F)[i := c]\<rparr>) = cov C {elems c} \<union> X" for c
    unfolding X_def by (simp add: onset_set_nth [OF assms(4)])
  have oF: "onset C F = cov C {elems (data F ! i)} \<union> X" using on [of "data F ! i"] by simp
  have E: "E = cov C {elems (data F ! i)} - (X \<union> onset C D)"
    unfolding E_def essentials_def others_onset [OF assms(4)] X_def ..
  have keeps: "keeps c \<longleftrightarrow> is_cube C c \<and> elems c \<subseteq> elems (data F ! i) \<and> (\<forall>x\<in>E. covers C (elems c) x)" for c
  proof -
    have "cov C {elems c} \<subseteq> cov C {elems (data F ! i)}" if "elems c \<subseteq> elems (data F ! i)" using that by (rule cov_single_mono)
    moreover have "(\<forall>x\<in>E. covers C (elems c) x) \<longleftrightarrow> E \<subseteq> cov C {elems c}" using E by (auto simp: cov_def)
    ultimately show ?thesis unfolding keeps_def on unfolding oF E by blast
  qed
  show ?thesis using r unfolding keeps by (auto simp: covers_def)
qed

theorem reduction_is_smallest_witness:
  "\<exists>r. reduce_cube 12 demo_cube (cube2list demo_cube (cover_of 7 [[0, 1, 2, 4], [0, 2, 3, 4]]) (cover_of 7 [[1, 2, 4]]))
     (cube_of 7 [0, 1, 2, 4]) (Some 0) = Inr r"
  using reduction_is_smallest [of demo_cube "cover_of 7 [[0, 1, 2, 4], [0, 2, 3, 4]]" "cover_of 7 [[1, 2, 4]]" 0 12]
  by auto

end
