(* ===== verification/Essen.thy ===== *)
theory Essen
  imports Sharp
begin

text \<open>
  Essential primes (\<^verbatim>\<open>essen.c\<close>).  A cube is tested through its consensus with the rest of the
  cover: the points of the cube that have a neighbour outside the cube in the cover or the
  don't-care set.
\<close>

section \<open>The routines\<close>

definition cb_consensus_dist0 :: "cube_struct \<Rightarrow> memory \<Rightarrow> set_family \<Rightarrow> pset \<Rightarrow> pset \<Rightarrow> set_family" where
  "cb_consensus_dist0 C mem R p c =
     (if setp_implies p c then R
      else
        (let p_diff_c = set_diff (new_cube C) p c;
             p_and_c = set_and (new_cube C) p c;
             (R, got_one) = fold (\<lambda>var (R, got_one).
                let mask = var_mask C ! var
                in if \<not> setp_disjoint p_diff_c mask
                   then (sf_addset mem R (set_merge (new_cube C) c p_and_c mask), True)
                   else (R, got_one)) (mv_vars C) (R, False)
         in if \<not> got_one \<and> 0 < num_binary_vars C then sf_addset mem R (set_and (new_cube C) p c) else R))"

text \<open>\<open>self\<close> is the position of \<open>c\<close> in \<open>T\<close> when it is one of its cubes, and is passed over.\<close>

definition cb_consensus :: "cube_struct \<Rightarrow> memory \<Rightarrow> set_family \<Rightarrow> pset \<Rightarrow> nat option \<Rightarrow> set_family" where
  "cb_consensus C mem T c self =
     fold (\<lambda>p R.
        case cdist01 C p c of
          0 \<Rightarrow> cb_consensus_dist0 C mem R p c
        | Suc 0 \<Rightarrow> sf_addset mem R (consensus C (new_cube C) p c)
        | _ \<Rightarrow> R) (others self (data T)) (new_cover C (cnt T * 2))"

text \<open>The joined family holds copies, so the cube is not recognised in it by its address.\<close>

definition essen_cube :: "nat \<Rightarrow> cube_struct \<Rightarrow> memory \<Rightarrow> set_family \<Rightarrow> set_family \<Rightarrow> pset \<Rightarrow> bool res" where
  "essen_cube k C mem F D c =
     rbind (sf_join F D) (\<lambda>FD.
       rmap Not (cube_is_covered k C (cube2list C (cb_consensus C mem FD c None) D) c None))"

fun essential_loop ::
  "nat \<Rightarrow> cube_struct \<Rightarrow> memory \<Rightarrow> set_family \<Rightarrow> nat list \<Rightarrow> set_family \<Rightarrow> set_family \<Rightarrow> (set_family \<times> set_family) res" where
  "essential_loop k C mem D [] F E = Inr (F, E)"
| "essential_loop k C mem D (i # is) F E =
     (let p = data F ! i in
      if \<not> TESTP p NONESSEN \<and> TESTP p RELESSEN then
        rbind (essen_cube k C mem F D p) (\<lambda>essen.
          if essen then
            essential_loop k C mem D is
              (F\<lparr>data := (data F)[i := RESET p ACTIVE], active_count := active_count F - 1\<rparr>) (sf_addset mem E p)
          else essential_loop k C mem D is F E)
      else essential_loop k C mem D is F E)"

text \<open>The new \<open>F\<close>, the new \<open>D\<close> and the essential cubes.\<close>

definition essential ::
  "nat \<Rightarrow> cube_struct \<Rightarrow> memory \<Rightarrow> set_family \<Rightarrow> set_family \<Rightarrow> (set_family \<times> set_family \<times> set_family) res" where
  "essential k C mem F D =
     (let F = sf_active F; E = new_cover C 10
      in rbind (essential_loop k C mem D [0..<cnt F] F E) (\<lambda>(F, E).
           rmap (\<lambda>D. (sf_inactive F, D, E)) (sf_join D E)))"

section \<open>Neighbours\<close>

text \<open>The points of \<open>c\<close> with a neighbour outside \<open>c\<close> that is in a cube of the set.\<close>

definition beside :: "cube_struct \<Rightarrow> nat set set \<Rightarrow> nat set \<Rightarrow> (nat \<Rightarrow> nat) set" where
  "beside C S c = {x \<in> cov C {c}. \<exists>v<num_vars C. \<exists>e\<in>vparts C v - c. x(v := e) \<in> cov C S}"

lemma beside_simps [simp]:
  "beside C {} c = {}" "beside C (S \<union> T) c = beside C S c \<union> beside C T c"
  by (auto simp: beside_def)

lemma beside_insert: "beside C (insert p S) c = beside C {p} c \<union> beside C S c"
  using beside_simps(2) [of C "{p}" S c] by simp

lemma addset_fold:
  assumes "wf_family n A" "\<forall>p\<in>set ps. wf_set n p"
  shows "wf_family n (fold (\<lambda>p A. sf_addset mem A p) ps A)" "data (fold (\<lambda>p A. sf_addset mem A p) ps A) = data A @ ps"
proof -
  have "wf_family n (fold (\<lambda>p A. sf_addset mem A p) ps A) \<and> data (fold (\<lambda>p A. sf_addset mem A p) ps A) = data A @ ps"
    using assms
  proof (induction ps arbitrary: A)
    case (Cons p ps)
    then show ?case using sf_addset_spec [of n A p mem] Cons.IH [of "sf_addset mem A p"] by simp
  qed simp
  then show "wf_family n (fold (\<lambda>p A. sf_addset mem A p) ps A)" "data (fold (\<lambda>p A. sf_addset mem A p) ps A) = data A @ ps"
    by blast+
qed

lemma dist0_fold:
  "fold (\<lambda>var (R, g). if Q var then (sf_addset mem R (f var), True) else (R, g)) vs (R, g)
   = (fold (\<lambda>p R. sf_addset mem R p) (map f (filter Q vs)) R, g \<or> (\<exists>v\<in>set vs. Q v))"
  by (induction vs arbitrary: R g) auto

lemma meets_iff: "nulls C c = {} \<longleftrightarrow> (\<forall>v<num_vars C. c \<inter> vparts C v \<noteq> {})"
  by (auto simp: nulls_def null_var_def)

text \<open>The cubes that \<^verbatim>\<open>cb_consensus_dist0\<close> appends.\<close>

definition dist0_cubes :: "cube_struct \<Rightarrow> pset \<Rightarrow> pset \<Rightarrow> pset list" where
  "dist0_cubes C p c =
     (if elems p \<subseteq> elems c then []
      else
        (let ms = filter (\<lambda>v. (elems p - elems c) \<inter> vparts C v \<noteq> {}) (mv_vars C)
         in map (\<lambda>v. set_merge (new_cube C) c (set_and (new_cube C) p c) (var_mask C ! v)) ms
            @ (if ms = [] \<and> 0 < num_binary_vars C then [set_and (new_cube C) p c] else [])))"

lemma dist0_cubes_wf:
  assumes C: "wf_cube C" and p: "is_cube C p" and c: "is_cube C c"
  shows "\<forall>q\<in>set (dist0_cubes C p c). is_cube C q" "length (dist0_cubes C p c) \<le> num_vars C"
    "v < num_vars C \<Longrightarrow> elems (set_merge (new_cube C) c (set_and (new_cube C) p c) (var_mask C ! v))
       = elems c \<inter> vparts C v \<union> (elems p \<inter> elems c - vparts C v)"
proof -
  note a = binops_wf(1) [OF p c new_cube_length] binops_elems(1) [OF p c new_cube_length]
  note m = binops_wf(5) [OF c a(1) new_cube_length wf_cubeD(9) [OF C]]
    binops_elems(5) [OF c a(1) new_cube_length wf_cubeD(9) [OF C]]
  show "\<forall>q\<in>set (dist0_cubes C p c). is_cube C q" using a(1) m(1) by (auto simp: dist0_cubes_def Let_def mv_vars_def)
  show "elems (set_merge (new_cube C) c (set_and (new_cube C) p c) (var_mask C ! v))
       = elems c \<inter> vparts C v \<union> (elems p \<inter> elems c - vparts C v)" if "v < num_vars C"
    using m(2) [OF that] wf_cubeD(10) [OF C that] a(2) by simp
  have "length (filter Q (mv_vars C)) \<le> num_vars C" for Q
    by (rule order_trans [OF length_filter_le]) (simp add: mv_vars_def)
  then show "length (dist0_cubes C p c) \<le> num_vars C"
    using wf_layoutD(1) [OF wf_cubeD(1) [OF C]] by (simp add: dist0_cubes_def Let_def)
qed

lemma dist0_data:
  assumes C: "wf_cube C" and p: "is_cube C p" and c: "is_cube C c"
  shows "cb_consensus_dist0 C mem R p c = fold (\<lambda>p R. sf_addset mem R p) (dist0_cubes C p c) R"
proof -
  note d = binops_wf(3) [OF p c new_cube_length] binops_elems(3) [OF p c new_cube_length]
  have Q: "(\<not> setp_disjoint (set_diff (new_cube C) p c) (var_mask C ! v)) \<longleftrightarrow> (elems p - elems c) \<inter> vparts C v \<noteq> {}"
    if "v \<in> set (mv_vars C)" for v
    using that setp_disjoint_iff [OF d(1) wf_cubeD(9) [OF C]] wf_cubeD(10) [OF C] d(2) by (simp add: mv_vars_def)
  define Q where "Q v = (\<not> setp_disjoint (set_diff (new_cube C) p c) (var_mask C ! v))" for v
  define f where "f v = set_merge (new_cube C) c (set_and (new_cube C) p c) (var_mask C ! v)" for v
  have ms: "filter (\<lambda>v. (elems p - elems c) \<inter> vparts C v \<noteq> {}) (mv_vars C) = filter Q (mv_vars C)"
    by (rule filter_cong) (use Q in \<open>auto simp: Q_def\<close>)
  have e: "(\<exists>v\<in>set (mv_vars C). Q v) \<longleftrightarrow> filter Q (mv_vars C) \<noteq> []" by (simp add: filter_empty_conv)
  show ?thesis
    unfolding cb_consensus_dist0_def dist0_cubes_def ms Let_def f_def [symmetric] Q_def [symmetric] dist0_fold
      setp_implies_iff [OF p c]
    by (simp add: e)
qed

lemma besideI:
  assumes "x \<in> cov C {c}" "v < num_vars C" "e \<in> vparts C v" "e \<notin> c" "e \<in> p" "\<forall>u<num_vars C. u \<noteq> v \<longrightarrow> x u \<in> p" "p \<in> S"
  shows "x \<in> beside C S c"
proof -
  have "point C (x(v := e))" "covers C p (x(v := e))" using assms by (auto simp: cov_iff point_def covers_def)
  then have "x(v := e) \<in> cov C S" using assms(7) by (auto simp: cov_iff)
  then show ?thesis using assms(1-4) unfolding beside_def by blast
qed

lemma besideE:
  assumes "x \<in> beside C {p} c"
  obtains v e where "x \<in> cov C {c}" "v < num_vars C" "e \<in> vparts C v" "e \<notin> c" "e \<in> p" "\<forall>u<num_vars C. u \<noteq> v \<longrightarrow> x u \<in> p"
proof -
  obtain v e where v: "x \<in> cov C {c}" "v < num_vars C" "e \<in> vparts C v" "e \<notin> c" "covers C p (x(v := e))"
    using assms by (auto simp: beside_def cov_iff)
  have "(x(v := e)) u \<in> p" if "u < num_vars C" for u using v(5) that by (simp add: covers_def)
  then have "e \<in> p" "\<forall>u<num_vars C. u \<noteq> v \<longrightarrow> x u \<in> p" using v(2) by (metis fun_upd_same, metis fun_upd_other)
  then show ?thesis using that v(1-4) by blast
qed

lemma dist0_cubes_cov:
  assumes C: "wf_cube C" and p: "is_cube C p" and c: "is_cube C c" and m: "nulls C (elems p \<inter> elems c) = {}"
  shows "cov C (elems ` set (dist0_cubes C p c)) \<inter> cov C {elems c} = beside C {elems p} (elems c)"
proof (cases "elems p \<subseteq> elems c")
  case True
  have "beside C {elems p} (elems c) = {}" using True by (auto elim!: besideE)
  then show ?thesis using True by (simp add: dist0_cubes_def)
next
  case False
  note L = wf_cubeD(1) [OF C]
  define ms where "ms = filter (\<lambda>v. (elems p - elems c) \<inter> vparts C v \<noteq> {}) (mv_vars C)"
  define f where "f v = set_merge (new_cube C) c (set_and (new_cube C) p c) (var_mask C ! v)" for v
  have pc: "elems (set_and (new_cube C) p c) = elems p \<inter> elems c" by (rule binops_elems(1) [OF p c new_cube_length])
  have f: "elems (f v) = elems c \<inter> vparts C v \<union> (elems p \<inter> elems c - vparts C v)" if "v < num_vars C" for v
    unfolding f_def by (rule dist0_cubes_wf(3) [OF C p c that])
  have ds: "dist0_cubes C p c = map f ms @ (if ms = [] \<and> 0 < num_binary_vars C then [set_and (new_cube C) p c] else [])"
    using False by (simp add: dist0_cubes_def ms_def f_def [abs_def] Let_def)
  have msD: "v < num_vars C \<and> (\<exists>e. e \<in> vparts C v \<and> e \<in> elems p \<and> e \<notin> elems c)" if "v \<in> set ms" for v
    using that by (auto simp: ms_def mv_vars_def)
  have bin: "v \<notin> set ms \<Longrightarrow> v < num_binary_vars C" if "v < num_vars C" "e \<in> vparts C v" "e \<in> elems p" "e \<notin> elems c" for v e
    using that by (auto simp: ms_def mv_vars_def)
  have full: "vparts C v \<subseteq> elems p" if v: "v < num_binary_vars C" "e \<in> vparts C v" "e \<in> elems p" "e \<notin> elems c" for v e
  proof -
    have "v < num_vars C" using v(1) wf_layoutD(2) [OF L] by simp
    then obtain a where a: "a \<in> elems p" "a \<in> elems c" "a \<in> vparts C v" using m unfolding meets_iff by blast
    then show ?thesis using v(2-4) binary_vparts [OF L v(1)] by auto
  qed
  have "x \<in> cov C (elems ` set (dist0_cubes C p c)) \<inter> cov C {elems c} \<longleftrightarrow> x \<in> beside C {elems p} (elems c)" for x
  proof
    assume x: "x \<in> cov C (elems ` set (dist0_cubes C p c)) \<inter> cov C {elems c}"
    then have xc: "x \<in> cov C {elems c}" by simp
    obtain q where q: "q \<in> set (dist0_cubes C p c)" "covers C (elems q) x" using x by (auto simp: cov_iff)
    consider (mv) v where "v \<in> set ms" "q = f v" | (all) "ms = []" "q = set_and (new_cube C) p c"
      using q(1) unfolding ds by (auto split: if_splits)
    then show "x \<in> beside C {elems p} (elems c)"
    proof cases
      case mv
      obtain e where e: "v < num_vars C" "e \<in> vparts C v" "e \<in> elems p" "e \<notin> elems c" using msD [OF mv(1)] by blast
      have "x u \<in> elems p" if u: "u < num_vars C" "u \<noteq> v" for u
      proof -
        have "x u \<in> elems (f v)" "x u \<in> vparts C u" using q(2) mv(2) u(1) xc by (auto simp: covers_def cov_iff point_def)
        then show ?thesis using vparts_disjoint [OF L u(1) e(1)] u(2) unfolding f [OF e(1)] by blast
      qed
      then show ?thesis using besideI [OF xc e(1,2,4,3)] by blast
    next
      case all
      obtain e where e: "e \<in> elems p" "e \<notin> elems c" using False by blast
      obtain v where v: "v < num_vars C" "e \<in> vparts C v" using vparts_cover [OF L wf_elem_less [OF p e(1)]] .
      have "\<forall>u<num_vars C. u \<noteq> v \<longrightarrow> x u \<in> elems p" using q(2) unfolding all(2) pc covers_def by blast
      then show ?thesis using besideI [OF xc v e(2,1)] by blast
    qed
  next
    assume "x \<in> beside C {elems p} (elems c)"
    then obtain v e where xc: "x \<in> cov C {elems c}" and e: "v < num_vars C" "e \<in> vparts C v" "e \<notin> elems c" "e \<in> elems p"
      and u: "\<forall>u<num_vars C. u \<noteq> v \<longrightarrow> x u \<in> elems p" by (rule besideE)
    have x: "point C x" "covers C (elems c) x" using xc by (auto simp: cov_iff)
    have "\<exists>q\<in>set (dist0_cubes C p c). covers C (elems q) x"
    proof (cases "v \<in> set ms")
      case True
      have "covers C (elems (f v)) x" using x u unfolding f [OF e(1)] covers_def point_def by blast
      then show ?thesis using True unfolding ds by auto
    next
      case False
      have b: "v < num_binary_vars C" by (rule bin [OF e(1,2,4,3) False])
      have "x v \<in> elems p" using full [OF b e(2,4,3)] x(1) e(1) unfolding point_def by blast
      then have xp: "covers C (elems p) x" using u unfolding covers_def by blast
      show ?thesis
      proof (cases ms)
        case Nil
        then show ?thesis using b xp x(2) unfolding ds by (auto simp: pc covers_def)
      next
        case (Cons w ws)
        then have w: "w \<in> set ms" by simp
        then have "covers C (elems (f w)) x" using xp x f [of w] msD unfolding covers_def by blast
        then show ?thesis using w unfolding ds by auto
      qed
    qed
    then show "x \<in> cov C (elems ` set (dist0_cubes C p c)) \<inter> cov C {elems c}" using xc x(1) by (auto simp: cov_iff)
  qed
  then show ?thesis by blast
qed

lemma dist1_cov:
  assumes C: "wf_cube C" and p: "is_cube C p" and c: "is_cube C c" and n: "\<not> null_cube C (elems p)"
    and m: "nulls C (elems p \<inter> elems c) = {v}"
  shows "cov C {elems (consensus C (new_cube C) p c)} \<inter> cov C {elems c} = beside C {elems p} (elems c)"
proof -
  note L = wf_cubeD(1) [OF C]
  have v: "v < num_vars C" "elems p \<inter> elems c \<inter> vparts C v = {}" using m by (auto simp: nulls_def null_var_def)
  have q: "elems (consensus C (new_cube C) p c) = elems p \<inter> elems c \<union> (elems p \<union> elems c) \<inter> vparts C v"
    using consensus_spec(2) [OF C p c new_cube_length] m by (simp add: null_parts_def)
  obtain a where a: "a \<in> elems p" "a \<in> vparts C v" using n v(1) by (auto simp: null_cube_def null_var_def)
  have "x \<in> cov C {elems (consensus C (new_cube C) p c)} \<longleftrightarrow> x \<in> beside C {elems p} (elems c)" if xc: "x \<in> cov C {elems c}" for x
  proof
    assume x: "x \<in> cov C {elems (consensus C (new_cube C) p c)}"
    have "x u \<in> elems p" if u: "u < num_vars C" "u \<noteq> v" for u
    proof -
      have "x u \<in> elems p \<inter> elems c \<union> (elems p \<union> elems c) \<inter> vparts C v" "x u \<in> vparts C u"
        using x u(1) unfolding q by (auto simp: cov_iff covers_def point_def)
      then show ?thesis using vparts_disjoint [OF L u(1) v(1)] u(2) by blast
    qed
    then show "x \<in> beside C {elems p} (elems c)" using besideI [OF xc v(1) a(2) _ a(1)] v(2) a by blast
  next
    assume "x \<in> beside C {elems p} (elems c)"
    then obtain w where w: "w < num_vars C" "\<forall>u<num_vars C. u \<noteq> w \<longrightarrow> x u \<in> elems p" by (rule besideE) blast
    have x: "point C x" "covers C (elems c) x" using xc by (auto simp: cov_iff)
    have "w = v"
    proof (rule ccontr)
      assume "w \<noteq> v"
      then have "x v \<in> elems p \<inter> elems c \<inter> vparts C v" using w x v(1) unfolding covers_def point_def by blast
      then show False using v(2) by simp
    qed
    then have "covers C (elems (consensus C (new_cube C) p c)) x" using w x unfolding q covers_def point_def by blast
    then show "x \<in> cov C {elems (consensus C (new_cube C) p c)}" using x(1) by (simp add: cov_iff)
  qed
  moreover have "beside C {elems p} (elems c) \<subseteq> cov C {elems c}" by (auto simp: beside_def)
  ultimately show ?thesis by blast
qed

lemma dist2_beside:
  assumes "2 \<le> card (nulls C (p \<inter> c))"
  shows "beside C {p} c = {}"
proof -
  have False if x: "x \<in> beside C {p} c" for x
  proof -
    obtain w where w: "x \<in> cov C {c}" "\<forall>u<num_vars C. u \<noteq> w \<longrightarrow> x u \<in> p" using x by (rule besideE) blast
    have "nulls C (p \<inter> c) \<subseteq> {w}"
    proof
      fix u assume "u \<in> nulls C (p \<inter> c)"
      then have u: "u < num_vars C" "p \<inter> c \<inter> vparts C u = {}" by (auto simp: nulls_def null_var_def)
      have "x u \<in> c" "x u \<in> vparts C u" using w(1) u(1) by (auto simp: cov_iff covers_def point_def)
      then have "x u \<notin> p" using u(2) by blast
      then show "u \<in> {w}" using w(2) u(1) by blast
    qed
    then have "card (nulls C (p \<inter> c)) \<le> 1" using card_mono [of "{w}"] by force
    then show False using assms by simp
  qed
  then show ?thesis by blast
qed

text \<open>The consensus covers, inside the cube, the points beside the other cubes.\<close>

lemma cb_consensus_spec:
  assumes C: "wf_cube C" and T: "is_cover C T" and c: "is_cube C c" and n: "\<forall>p\<in>set (data T). \<not> null_cube C (elems p)"
  shows "is_cover C (cb_consensus C mem T c self)"
    "onset C (cb_consensus C mem T c self) \<inter> cov C {elems c} = beside C (elems ` set (others self (data T))) (elems c)"
    "cnt (cb_consensus C mem T c self) \<le> cnt T * num_vars C"
proof -
  note L = wf_cubeD(1) [OF C]
  define step where "step p R = (case cdist01 C p c of
          0 \<Rightarrow> cb_consensus_dist0 C mem R p c
        | Suc 0 \<Rightarrow> sf_addset mem R (consensus C (new_cube C) p c)
        | _ \<Rightarrow> R)" for p R
  define new where "new p = (case cdist01 C p c of
          0 \<Rightarrow> dist0_cubes C p c | Suc 0 \<Rightarrow> [consensus C (new_cube C) p c] | _ \<Rightarrow> [])" for p
  have new: "step p R = fold (\<lambda>p R. sf_addset mem R p) (new p) R \<and> (\<forall>q\<in>set (new p). is_cube C q) \<and> length (new p) \<le> num_vars C
      \<and> cov C (elems ` set (new p)) \<inter> cov C {elems c} = beside C {elems p} (elems c)"
    if p: "is_cube C p" "\<not> null_cube C (elems p)" for p R
  proof -
    note d = cdist01_spec [OF C p(1) c]
    have fin: "finite (nulls C (elems p \<inter> elems c))" by simp
    consider (0) "nulls C (elems p \<inter> elems c) = {}" | (1) v where "nulls C (elems p \<inter> elems c) = {v}"
      | (2) "2 \<le> card (nulls C (elems p \<inter> elems c))"
    proof -
      consider "card (nulls C (elems p \<inter> elems c)) = 0" | "card (nulls C (elems p \<inter> elems c)) = 1"
        | "2 \<le> card (nulls C (elems p \<inter> elems c))" by linarith
      then show ?thesis
      proof cases
        case 1 then show ?thesis using that(1) fin by simp
      next
        case 2 then show ?thesis using that(2) by (metis card_1_singletonE)
      qed (rule that(3))
    qed
    then show ?thesis
    proof cases
      case 0
      then have "cdist01 C p c = 0" using d by simp
      then show ?thesis
        using dist0_data [OF C p(1) c, of mem R] dist0_cubes_wf(1,2) [OF C p(1) c] dist0_cubes_cov [OF C p(1) c 0]
        by (simp add: step_def new_def)
    next
      case 1
      then have "cdist01 C p c = Suc 0" using d by simp
      then show ?thesis
        using dist1_cov [OF C p(1) c p(2) 1] consensus_spec(1) [OF C p(1) c new_cube_length] wf_layoutD(1) [OF L]
        by (simp add: step_def new_def)
    next
      case 2
      then have "cdist01 C p c = Suc (Suc 0)" using d by simp
      then show ?thesis using dist2_beside [OF 2] by (simp add: step_def new_def)
    qed
  qed
  have "is_cover C (fold step ps R) \<and> cnt (fold step ps R) \<le> cnt R + length ps * num_vars C
      \<and> onset C (fold step ps R) \<inter> cov C {elems c} = onset C R \<inter> cov C {elems c} \<union> beside C (elems ` set ps) (elems c)"
    if "is_cover C R" "\<forall>p\<in>set ps. is_cube C p \<and> \<not> null_cube C (elems p)" for ps R
    using that
  proof (induction ps arbitrary: R)
    case (Cons p ps)
    have p: "is_cube C p" "\<not> null_cube C (elems p)" using Cons.prems(2) by simp_all
    note N = new [OF p, of R]
    have "is_cover C (step p R)" "data (step p R) = data R @ new p"
      using N addset_fold [OF Cons.prems(1), of "new p" mem] by simp_all
    moreover have "onset C (step p R) \<inter> cov C {elems c} = onset C R \<inter> cov C {elems c} \<union> beside C {elems p} (elems c)"
      unfolding calculation(2) using N by (simp add: image_Un Int_Un_distrib2)
    ultimately show ?case using Cons.IH [of "step p R"] Cons.prems(2) N beside_insert [of C "elems p" "elems ` set ps"]
      by (simp add: Un_assoc)
  qed simp
  note all = this [of "new_cover C (cnt T * 2)" "others self (data T)"]
  have o: "\<forall>p\<in>set (others self (data T)). is_cube C p \<and> \<not> null_cube C (elems p)"
    using set_others(2) [of self "data T"] n wf_familyD(3) [OF T] by blast
  have e: "cb_consensus C mem T c self = fold step (others self (data T)) (new_cover C (cnt T * 2))"
    by (simp add: cb_consensus_def step_def [abs_def])
  have len: "length (others self (data T)) \<le> cnt T"
    unfolding others_def by (auto intro!: order_trans [OF length_filter_le])
  show "is_cover C (cb_consensus C mem T c self)"
    "onset C (cb_consensus C mem T c self) \<inter> cov C {elems c} = beside C (elems ` set (others self (data T))) (elems c)"
    using all o unfolding e by simp_all
  show "cnt (cb_consensus C mem T c self) \<le> cnt T * num_vars C"
    using all o order_trans [OF _ mult_le_mono1 [OF len, of "num_vars C"]] unfolding e by (simp del: mult_le_cancel2)
qed

section \<open>Essential cubes\<close>

text \<open>
  A point of the cube, not a don't-care, that no implicant of the cover and the don't-cares covers
  unless it lies inside the cube: every prime cover must use the cube.
\<close>

definition essential_for :: "cube_struct \<Rightarrow> (nat \<Rightarrow> nat) set \<Rightarrow> (nat \<Rightarrow> nat) set \<Rightarrow> nat set \<Rightarrow> bool" where
  "essential_for C S Dc c \<longleftrightarrow>
     (\<exists>x \<in> cov C {c} - Dc. \<forall>q \<subseteq> {..<cube_size C}. cov C {q} \<subseteq> S \<and> covers C q x \<longrightarrow> q \<subseteq> c)"

lemma essential_beside:
  assumes C: "wf_cube C" and S: "cov C {c} \<subseteq> cov C S"
  shows "essential_for C (cov C S) Dc c \<longleftrightarrow> \<not> cov C {c} \<subseteq> beside C S c \<union> Dc"
proof -
  note L = wf_cubeD(1) [OF C]
  have "(\<forall>q \<subseteq> {..<cube_size C}. cov C {q} \<subseteq> cov C S \<and> covers C q x \<longrightarrow> q \<subseteq> c) \<longleftrightarrow> x \<notin> beside C S c"
    if x: "x \<in> cov C {c}" for x
  proof
    have px: "point C x" using x by (simp add: cov_iff)
    assume q: "\<forall>q \<subseteq> {..<cube_size C}. cov C {q} \<subseteq> cov C S \<and> covers C q x \<longrightarrow> q \<subseteq> c"
    show "x \<notin> beside C S c"
    proof
      assume "x \<in> beside C S c"
      then obtain v e where e: "v < num_vars C" "e \<in> vparts C v" "e \<notin> c" "x(v := e) \<in> cov C S" by (auto simp: beside_def)
      define r where "r = insert e (x ` {..<num_vars C})"
      have sub: "r \<subseteq> {..<cube_size C}"
        using vparts_less [OF L e(1,2)] vparts_less [OF L] px by (auto simp: r_def point_def)
      have "y \<in> cov C S" if y: "y \<in> cov C {r}" for y
      proof -
        have "y u = x u" if u: "u < num_vars C" "u \<noteq> v" for u
        proof -
          have yu: "y u \<in> vparts C u" "y u \<in> r" using y u(1) by (auto simp: cov_iff point_def covers_def)
          then consider "y u = e" | w where "w < num_vars C" "y u = x w" by (auto simp: r_def)
          then show ?thesis
          proof cases
            case 1
            then show ?thesis using vparts_disjoint [OF L u(1) e(1)] yu(1) e(2) u(2) by auto
          next
            case 2
            then have "u = w" using vparts_disjoint [OF L u(1) 2(1) yu(1)] px by (simp add: point_def)
            then show ?thesis using 2 by simp
          qed
        qed note yx = this
        have yv: "y v = x v \<or> y v = e"
        proof -
          have yv: "y v \<in> vparts C v" "y v \<in> r" using y e(1) by (auto simp: cov_iff point_def covers_def)
          then consider "y v = e" | w where "w < num_vars C" "y v = x w" by (auto simp: r_def)
          then show ?thesis
          proof cases
            case 2
            then have "v = w" using vparts_disjoint [OF L e(1) 2(1) yv(1)] px by (simp add: point_def)
            then show ?thesis using 2 by simp
          qed simp
        qed
        have mem: "y \<in> cov C S \<longleftrightarrow> z \<in> cov C S" if "\<forall>u<num_vars C. y u = z u" for z
          using that by (simp add: cov_iff point_def covers_def)
        show ?thesis
        proof (cases "y v = e")
          case True
          then show ?thesis using mem [of "x(v := e)"] yx e(4) by simp
        next
          case False
          then have "\<forall>u<num_vars C. y u = x u" using yv yx by metis
          then show ?thesis using mem [of x] x S by blast
        qed
      qed
      moreover have "covers C r x" by (simp add: r_def covers_def)
      ultimately have "r \<subseteq> c" using q sub by blast
      then show False using e(3) by (simp add: r_def)
    qed
  next
    assume nb: "x \<notin> beside C S c"
    show "\<forall>q \<subseteq> {..<cube_size C}. cov C {q} \<subseteq> cov C S \<and> covers C q x \<longrightarrow> q \<subseteq> c"
    proof (intro allI impI, rule subsetI, rule ccontr)
      fix q e assume q: "q \<subseteq> {..<cube_size C}" "cov C {q} \<subseteq> cov C S \<and> covers C q x" and e: "e \<in> q" "e \<notin> c"
      obtain v where v: "v < num_vars C" "e \<in> vparts C v" using vparts_cover [OF L] q(1) e(1) by blast
      have "x(v := e) \<in> cov C {q}" using q(2) e(1) v x by (auto simp: cov_iff point_def covers_def)
      then have "x \<in> beside C S c" using q(2) v e(2) x unfolding beside_def by blast
      then show False using nb by simp
    qed
  qed
  then show ?thesis unfolding essential_for_def by blast
qed

lemma essen_cube_spec:
  assumes C: "wf_cube C" and F: "is_cover C F" and D: "is_cover C D" and c: "is_cube C c" "\<not> null_cube C (elems c)"
    and n: "\<forall>p\<in>set (data F) \<union> set (data D). \<not> null_cube C (elems p)" and sub: "cov C {elems c} \<subseteq> onset C F \<union> onset C D"
    and k: "cube_size C + (cnt F + cnt D) * num_vars C + cnt D < k"
  shows "essen_cube k C mem F D c = Inr (essential_for C (onset C F \<union> onset C D) (onset C D) (elems c))"
proof -
  obtain FD where FD: "sf_join F D = Inr FD" "data FD = data F @ data D" "is_cover C FD" by (rule sf_join_spec [OF F D])
  have n': "\<forall>p\<in>set (data FD). \<not> null_cube C (elems p)" using n FD(2) by auto
  note H = cb_consensus_spec [OF C FD(3) c(1) n', of mem None]
  have k': "cube_size C + cnt (cb_consensus C mem FD c None) + cnt D < k" using H(3) k FD(2) by simp
  have S: "onset C F \<union> onset C D = cov C (elems ` set (data FD))" using FD(2) by (simp add: image_Un)
  have "cube_is_covered k C (cube2list C (cb_consensus C mem FD c None) D) c None
      = Inr (cov C {elems c} \<subseteq> beside C (elems ` set (data FD)) (elems c) \<union> onset C D)"
    unfolding covered_by [OF C H(1) D c k'] using H(2) by auto
  then show ?thesis using essential_beside [OF C sub [unfolded S], of "onset C D"] FD(1) unfolding S by (simp add: essen_cube_def)
qed

text \<open>The cubes that the loop takes out: the flags ask for the test, and it succeeds.\<close>

definition taken :: "cube_struct \<Rightarrow> (nat \<Rightarrow> nat) set \<Rightarrow> (nat \<Rightarrow> nat) set \<Rightarrow> pset \<Rightarrow> bool" where
  "taken C S Dc p \<longleftrightarrow> \<not> TESTP p NONESSEN \<and> TESTP p RELESSEN \<and> essential_for C S Dc (elems p)"

lemma onset_nth_same:
  assumes "i < length ps" "elems q = elems (ps ! i)"
  shows "map elems (ps[i := q]) = map elems ps"
  using assms by (simp add: map_update) (metis list_update_id length_map nth_map)

lemma essential_loop_spec:
  assumes C: "wf_cube C" and D: "is_cover C D" and "is_cover C F" "is_cover C E"
    "\<forall>p\<in>set (data F) \<union> set (data D). \<not> null_cube C (elems p)" "set is \<subseteq> {..<cnt F}" "distinct is"
    "onset C F \<union> onset C D = S" "cube_size C + (cnt F + cnt D) * num_vars C + cnt D < k"
  shows "\<exists>F' E'. essential_loop k C mem D is F E = Inr (F', E') \<and> is_cover C F' \<and> is_cover C E'
    \<and> map elems (data F') = map elems (data F)
    \<and> data E' = data E @ map ((!) (data F)) (filter (\<lambda>i. taken C S (onset C D) (data F ! i)) is)
    \<and> (\<forall>i<cnt F. TESTP (data F' ! i) ACTIVE \<longleftrightarrow> TESTP (data F ! i) ACTIVE \<and> \<not> (i \<in> set is \<and> taken C S (onset C D) (data F ! i)))"
  using assms(3-)
proof (induction "is" arbitrary: F E)
  case (Cons i "is")
  note F = Cons.prems(1) and E = Cons.prems(2) and n = Cons.prems(3) and k = Cons.prems(7)
  have i: "i < cnt F" "i \<notin> set is" "set is \<subseteq> {..<cnt F}" "distinct is" using Cons.prems(4,5) by simp_all
  let ?p = "data F ! i"
  have p: "is_cube C ?p" "\<not> null_cube C (elems ?p)" using wf_familyD(3) [OF F] n i(1) by simp_all
  have "cov C {elems ?p} \<subseteq> onset C F" by (rule cov_mono) (use i(1) in auto)
  then have sub: "cov C {elems ?p} \<subseteq> onset C F \<union> onset C D" by blast
  note ec = essen_cube_spec [OF C F D p n sub k, of mem, unfolded Cons.prems(6)]
  show ?case
  proof (cases "taken C S (onset C D) ?p")
    case False
    then have e: "essential_loop k C mem D (i # is) F E = essential_loop k C mem D is F E"
      using ec by (auto simp: taken_def Let_def)
    show ?thesis unfolding e using Cons.IH [OF F E n i(3,4) Cons.prems(6,7)] False by auto
  next
    case True
    define G where "G = F\<lparr>data := (data F)[i := RESET ?p ACTIVE], active_count := active_count F - 1\<rparr>"
    have e: "essential_loop k C mem D (i # is) F E = essential_loop k C mem D is G (sf_addset mem E ?p)"
      using ec True by (simp add: taken_def G_def Let_def)
    have m: "map elems (data G) = map elems (data F)" unfolding G_def using onset_nth_same [OF i(1)] by simp
    have el: "elems ` set (data G) = elems ` set (data F)" using arg_cong [OF m, of set] by simp
    have G: "is_cover C G" "cnt G = cnt F"
      using F p(1) by (auto simp: G_def wf_family_def dest: set_update_subset_insert [THEN subsetD])
    have gj: "data G ! j = data F ! j" if "j \<noteq> i" for j using that by (simp add: G_def)
    have gi: "\<not> TESTP (data G ! i) ACTIVE" using i(1) wf_nonempty [OF p(1)] by (simp add: G_def)
    have nG: "\<forall>q\<in>set (data G) \<union> set (data D). \<not> null_cube C (elems q)"
    proof -
      have "\<forall>e\<in>elems ` set (data G). \<not> null_cube C e" unfolding el using n by blast
      then show ?thesis using n by blast
    qed
    note A = sf_addset_spec [OF E p(1), of mem]
    have "set is \<subseteq> {..<cnt G}" "onset C G \<union> onset C D = S" "cube_size C + (cnt G + cnt D) * num_vars C + cnt D < k"
      using i(3) Cons.prems(6) k unfolding G(2) el by simp_all
    from Cons.IH [OF G(1) A(2) nG this(1) i(4) this(2,3)] obtain F' E' where R:
      "essential_loop k C mem D is G (sf_addset mem E ?p) = Inr (F', E')" "is_cover C F'" "is_cover C E'"
      "map elems (data F') = map elems (data G)"
      "data E' = data (sf_addset mem E ?p) @ map ((!) (data G)) (filter (\<lambda>i. taken C S (onset C D) (data G ! i)) is)"
      "\<forall>j<cnt G. TESTP (data F' ! j) ACTIVE \<longleftrightarrow> TESTP (data G ! j) ACTIVE \<and> \<not> (j \<in> set is \<and> taken C S (onset C D) (data G ! j))"
      by blast
    have f: "map ((!) (data G)) (filter (\<lambda>i. taken C S (onset C D) (data G ! i)) is)
        = map ((!) (data F)) (filter (\<lambda>i. taken C S (onset C D) (data F ! i)) is)"
    proof -
      have s: "data G ! j = data F ! j" if "j \<in> set is" for j using gj i(2) that by metis
      have "filter (\<lambda>i. taken C S (onset C D) (data G ! i)) is = filter (\<lambda>i. taken C S (onset C D) (data F ! i)) is"
        by (rule filter_cong) (use s in auto)
      then show ?thesis using s by simp
    qed
    have "data E' = data E @ map ((!) (data F)) (filter (\<lambda>i. taken C S (onset C D) (data F ! i)) (i # is))"
      using R(5) True unfolding f A(1) by simp
    moreover have "TESTP (data F' ! j) ACTIVE \<longleftrightarrow>
        TESTP (data F ! j) ACTIVE \<and> \<not> (j \<in> set (i # is) \<and> taken C S (onset C D) (data F ! j))" if "j < cnt F" for j
    proof (cases "j = i")
      case True
      then show ?thesis using R(6) G(2) gi i(1) \<open>taken C S (onset C D) ?p\<close> by simp
    next
      case False
      then show ?thesis using R(6) G(2) gj [OF False] that by simp
    qed
    ultimately show ?thesis unfolding e using R(1-4) m by (intro exI [of _ F'] exI [of _ E']) simp
  qed
qed simp

lemma TESTP_SET_other:
  assumes "a \<noteq> []" "g AND f = 0"
  shows "TESTP (SET a g) f = TESTP a f"
proof -
  have "(a ! 0 OR g) AND f = (a ! 0 AND f) OR (g AND f)" by (rule bit.conj_disj_distrib2)
  then show ?thesis using assms by (simp add: TESTP_def SET_def)
qed

lemma filter_by_index:
  assumes "length ys = length xs" "map f ys = map f xs" "\<forall>i<length xs. Q (ys ! i) \<longleftrightarrow> P (xs ! i)"
  shows "map f (filter Q ys) = map f (filter P xs)"
  using assms
proof (induction ys xs rule: list_induct2)
  case (Cons y ys x xs)
  have "Q y \<longleftrightarrow> P x" using Cons.prems(2) by force
  moreover have "\<forall>i<length xs. Q (ys ! i) \<longleftrightarrow> P (xs ! i)" using Cons.prems(2) by (metis Suc_less_eq length_Cons nth_Cons_Suc)
  ultimately show ?case using Cons by auto
qed simp

lemma taken_active:
  assumes F: "is_cover C F" and i: "i < cnt F"
  shows "taken C S Dc (data (sf_active F) ! i) = taken C S Dc (data F ! i)"
proof -
  have "data F ! i \<noteq> []" using wf_nonempty [of "cube_size C"] wf_familyD(3) [OF F] i by simp
  then have f: "TESTP (SET (data F ! i) ACTIVE) f = TESTP (data F ! i) f" if "ACTIVE AND f = 0" for f
    using TESTP_SET_other that by blast
  have "ACTIVE AND NONESSEN = 0" "ACTIVE AND RELESSEN = 0" by (simp_all add: ACTIVE_def NONESSEN_def RELESSEN_def)
  note f = f [OF this(1)] f [OF this(2)]
  have "data (sf_active F) ! i = SET (data F ! i) ACTIVE" "elems (SET (data F ! i) ACTIVE) = elems (data F ! i)"
    using i by (simp_all add: sf_active_def)
  then show ?thesis using f by (simp add: taken_def essential_for_def)
qed

text \<open>
  C14. For a cover and a don't-care set without null cubes, and enough fuel: the cubes that are moved from the cover to the don't-cares are exactly the tested ones
  that are essential: some point of the cube, no don't-care, is covered by no implicant of the function
  that reaches outside the cube.  The rest stays, and nothing is lost.
\<close>

theorem essential_splits:
  assumes "wf_cube C" "is_cover C F" "is_cover C D" "\<forall>p\<in>set (data F) \<union> set (data D). \<not> null_cube C (elems p)"
    "cube_size C + (cnt F + cnt D) * num_vars C + cnt D < k"
  defines "ess p \<equiv> \<not> TESTP p NONESSEN \<and> TESTP p RELESSEN
      \<and> (\<exists>x \<in> cov C {elems p} - onset C D. \<forall>q \<subseteq> {..<cube_size C}.
           cov C {q} \<subseteq> onset C F \<union> onset C D \<and> covers C q x \<longrightarrow> q \<subseteq> elems p)"
  shows "\<exists>F' D' E. essential k C mem F D = Inr (F', D', E) \<and> is_cover C F' \<and> is_cover C D' \<and> is_cover C E
    \<and> map elems (data E) = map elems (filter ess (data F)) \<and> map elems (data F') = map elems (filter (\<lambda>p. \<not> ess p) (data F))
    \<and> data D' = data D @ data E \<and> onset C F' \<union> onset C D' = onset C F \<union> onset C D"
proof -
  let ?A = "sf_active F" and ?S = "onset C F \<union> onset C D"
  note A = sf_active_spec [OF assms(2)]
  have el: "elems ` set (data ?A) = elems ` set (data F)" using arg_cong [OF A(1), of set] by simp
  have len: "cnt ?A = cnt F" using arg_cong [OF A(1), of length] by simp
  have n: "\<forall>p\<in>set (data ?A) \<union> set (data D). \<not> null_cube C (elems p)"
  proof -
    have "\<forall>e\<in>elems ` set (data ?A). \<not> null_cube C e" unfolding el using assms(4) by blast
    then show ?thesis using assms(4) by blast
  qed
  have ess: "taken C ?S (onset C D) (data ?A ! i) = ess (data F ! i)" if i: "i < cnt F" for i
    unfolding taken_active [OF assms(2) i] by (simp add: taken_def ess_def essential_for_def)
  have idx: "set [0..<cnt ?A] \<subseteq> {..<cnt ?A}" by auto
  have S: "onset C ?A \<union> onset C D = ?S" unfolding el ..
  obtain F' E where R: "essential_loop k C mem D [0..<cnt ?A] ?A (new_cover C 10) = Inr (F', E)" "is_cover C F'" "is_cover C E"
    "map elems (data F') = map elems (data ?A)"
    "data E = data (new_cover C 10) @ map ((!) (data ?A)) (filter (\<lambda>i. taken C ?S (onset C D) (data ?A ! i)) [0..<cnt ?A])"
    "\<forall>i<cnt ?A. TESTP (data F' ! i) ACTIVE \<longleftrightarrow>
      TESTP (data ?A ! i) ACTIVE \<and> \<not> (i \<in> set [0..<cnt ?A] \<and> taken C ?S (onset C D) (data ?A ! i))"
    using essential_loop_spec [OF assms(1,3) A(2) new_cover_simps(1) n idx distinct_upt S assms(5) [folded len], of mem] by blast
  have lF: "cnt F' = cnt F" using arg_cong [OF R(4), of length] len by simp
  obtain D' where D': "sf_join D E = Inr D'" "data D' = data D @ data E" "is_cover C D'" by (rule sf_join_spec [OF assms(3) R(3)])
  note I = sf_inactive_spec [OF R(2)]
  have e1: "map elems (data (sf_inactive F')) = map elems (filter (\<lambda>p. \<not> ess p) (data F))"
    unfolding I(1)
  proof (rule filter_by_index [OF lF])
    show "map elems (data F') = map elems (data F)" using R(4) A(1) by simp
    show "\<forall>i<cnt F. TESTP (data F' ! i) ACTIVE \<longleftrightarrow> \<not> ess (data F ! i)" using R(6) ess A(3) len by simp
  qed
  have "data E = filter (taken C ?S (onset C D)) (map ((!) (data ?A)) [0..<cnt ?A])"
    using R(5) by (simp add: filter_map o_def)
  then have "data E = filter (taken C ?S (onset C D)) (data ?A)" by (simp add: map_nth)
  then have e2: "map elems (data E) = map elems (filter ess (data F))"
    using filter_by_index [OF len A(1)] ess by simp
  have "elems ` set (data (sf_inactive F')) \<union> elems ` set (data E) = elems ` set (data F)"
    using arg_cong [OF e1, of set] arg_cong [OF e2, of set] by auto
  then have "onset C (sf_inactive F') \<union> onset C E = onset C F" by (metis cov_simps(2))
  then have "onset C (sf_inactive F') \<union> onset C D' = onset C F \<union> onset C D" using D'(2) by (auto simp: image_Un)
  moreover have "essential k C mem F D = Inr (sf_inactive F', D', E)" using R(1) D'(1) by (simp add: essential_def Let_def)
  ultimately show ?thesis using I(2) D' R(3) e1 e2 by blast
qed

theorem essential_splits_witness:
  "\<exists>F' D' E. essential 20 demo_cube (\<lambda>_ _. 0) (cover_of 7 [[0, 2, 4], [0, 1, 3, 4]]) (cover_of 7 [[1, 2, 4, 5]]) = Inr (F', D', E)"
  using essential_splits [of demo_cube "cover_of 7 [[0, 2, 4], [0, 1, 3, 4]]" "cover_of 7 [[1, 2, 4, 5]]" 20 "\<lambda>_ _. 0"]
  by auto

end
