(* ===== verification/Sparse.thy ===== *)
theory Sparse
  imports Prelude
begin

text \<open>
  The sparse matrix package (\<^verbatim>\<open>matrix.c\<close>, \<^verbatim>\<open>rows.c\<close>, \<^verbatim>\<open>cols.c\<close>, \<^verbatim>\<open>sparse_int.h\<close>): 0/1 matrices kept twice, as the
  linked list of their rows and the linked list of their columns, both in ascending order.

  A row or column vector is the list of the numbers of its elements; a matrix has two lists of headers,
  a header being the number of a row (column) and its vector.  The arrays of pointers to the headers only
  speed up the search, and their size (\<^verbatim>\<open>sm_resize\<close>) has no effect on the values; numbers are not negative.
\<close>

section \<open>Vectors\<close>

text \<open>The macro \<^verbatim>\<open>sorted_insert\<close>: at the end, at the front, or on the way from the front; nothing changes if the value is there.\<close>

fun insert_walk :: "('a \<Rightarrow> nat) \<Rightarrow> 'a \<Rightarrow> 'a list \<Rightarrow> 'a list" where
  "insert_walk key e [] = [e]"
| "insert_walk key e (x # xs) =
     (if key x < key e then x # insert_walk key e xs
      else if key x > key e then e # x # xs else x # xs)"

definition sorted_insert :: "('a \<Rightarrow> nat) \<Rightarrow> 'a \<Rightarrow> 'a list \<Rightarrow> 'a list" where
  "sorted_insert key e xs =
     (if xs = [] then [e]
      else if key (last xs) < key e then xs @ [e]
      else if key (hd xs) > key e then e # xs
      else insert_walk key e xs)"

definition sm_row_insert :: "nat list \<Rightarrow> nat \<Rightarrow> nat list" where
  "sm_row_insert prow col = sorted_insert (\<lambda>e. e) col prow"

definition sm_row_dup :: "nat list \<Rightarrow> nat list" where
  "sm_row_dup prow = fold (\<lambda>col pnew. sm_row_insert pnew col) prow []"

fun sm_row_find :: "nat list \<Rightarrow> nat \<Rightarrow> bool" where
  "sm_row_find [] col = False"
| "sm_row_find (p # ps) col = (if p < col then sm_row_find ps col else p = col)"

fun sm_row_remove :: "nat list \<Rightarrow> nat \<Rightarrow> nat list" where
  "sm_row_remove [] col = []"
| "sm_row_remove (p # ps) col = (if p < col then p # sm_row_remove ps col else if p = col then ps else p # ps)"

fun sm_row_contains :: "nat list \<Rightarrow> nat list \<Rightarrow> bool" where
  "sm_row_contains [] qs = True"
| "sm_row_contains (p # ps) [] = False"
| "sm_row_contains (p # ps) (q # qs) =
     (if p < q then False else if p = q then sm_row_contains ps qs else sm_row_contains (p # ps) qs)"

fun sm_row_intersects :: "nat list \<Rightarrow> nat list \<Rightarrow> bool" where
  "sm_row_intersects [] qs = False"
| "sm_row_intersects (p # ps) [] = False"
| "sm_row_intersects (p # ps) (q # qs) =
     (if p < q then sm_row_intersects ps (q # qs)
      else if p > q then sm_row_intersects (p # ps) qs else True)"

fun sm_row_compare :: "nat list \<Rightarrow> nat list \<Rightarrow> int" where
  "sm_row_compare (p # ps) (q # qs) = (if p \<noteq> q then int p - int q else sm_row_compare ps qs)"
| "sm_row_compare (p # ps) [] = 1"
| "sm_row_compare [] (q # qs) = - 1"
| "sm_row_compare [] [] = 0"

fun row_and_loop :: "nat list \<Rightarrow> nat list \<Rightarrow> nat list \<Rightarrow> nat list" where
  "row_and_loop [] qs result = result"
| "row_and_loop (p # ps) [] result = result"
| "row_and_loop (p # ps) (q # qs) result =
     (if p < q then row_and_loop ps (q # qs) result
      else if p > q then row_and_loop (p # ps) qs result
      else row_and_loop ps qs (sm_row_insert result p))"

definition sm_row_and :: "nat list \<Rightarrow> nat list \<Rightarrow> nat list" where
  "sm_row_and p1 p2 = row_and_loop p1 p2 []"

definition sm_row_hash :: "nat list \<Rightarrow> nat \<Rightarrow> nat" where
  "sm_row_hash prow modulus = fold (\<lambda>col sum. (sum * 17 + col) mod modulus) prow 0"

text \<open>\<^verbatim>\<open>cols.c\<close> is the same code over the other links.\<close>

definition sm_col_insert :: "nat list \<Rightarrow> nat \<Rightarrow> nat list" where
  "sm_col_insert pcol row = sorted_insert (\<lambda>e. e) row pcol"

definition sm_col_dup :: "nat list \<Rightarrow> nat list" where
  "sm_col_dup pcol = fold (\<lambda>row pnew. sm_col_insert pnew row) pcol []"

definition sm_col_remove :: "nat list \<Rightarrow> nat \<Rightarrow> nat list" where
  "sm_col_remove pcol row = sm_row_remove pcol row"

definition sm_col_intersects :: "nat list \<Rightarrow> nat list \<Rightarrow> bool" where
  "sm_col_intersects p1 p2 = sm_row_intersects p1 p2"

definition sm_col_compare :: "nat list \<Rightarrow> nat list \<Rightarrow> int" where
  "sm_col_compare p1 p2 = sm_row_compare p1 p2"

definition sm_col_and :: "nat list \<Rightarrow> nat list \<Rightarrow> nat list" where
  "sm_col_and p1 p2 = row_and_loop p1 p2 []"

definition sm_col_contains :: "nat list \<Rightarrow> nat list \<Rightarrow> bool" where
  "sm_col_contains p1 p2 = sm_row_contains p1 p2"

definition sm_col_find :: "nat list \<Rightarrow> nat \<Rightarrow> bool" where
  "sm_col_find pcol row = sm_row_find pcol row"

section \<open>Matrices\<close>

type_synonym headers = "(nat \<times> nat list) list"

record sm_matrix =
  sm_rows :: headers
  sm_cols :: headers

definition sm_alloc :: sm_matrix where
  "sm_alloc = \<lparr>sm_rows = [], sm_cols = []\<rparr>"

abbreviation nrows :: "sm_matrix \<Rightarrow> nat" where "nrows A \<equiv> length (sm_rows A)"
abbreviation ncols :: "sm_matrix \<Rightarrow> nat" where "ncols A \<equiv> length (sm_cols A)"

definition sm_get_row :: "sm_matrix \<Rightarrow> nat \<Rightarrow> nat list option" where
  "sm_get_row A i = map_of (sm_rows A) i"

definition sm_get_col :: "sm_matrix \<Rightarrow> nat \<Rightarrow> nat list option" where
  "sm_get_col A j = map_of (sm_cols A) j"

definition at_header :: "nat \<Rightarrow> (nat list \<Rightarrow> nat list) \<Rightarrow> headers \<Rightarrow> headers" where
  "at_header i f hs = map (\<lambda>(k, l). if k = i then (k, f l) else (k, l)) hs"

definition unlink :: "nat \<Rightarrow> headers \<Rightarrow> headers" where
  "unlink i hs = filter (\<lambda>h. fst h \<noteq> i) hs"

definition sm_insert :: "sm_matrix \<Rightarrow> nat \<Rightarrow> nat \<Rightarrow> sm_matrix" where
  "sm_insert A row col =
     (let A = (if sm_get_row A row = None then A\<lparr>sm_rows := sorted_insert fst (row, []) (sm_rows A)\<rparr> else A);
          A = (if sm_get_col A col = None then A\<lparr>sm_cols := sorted_insert fst (col, []) (sm_cols A)\<rparr> else A);
          prow = the (sm_get_row A row);
          prow' = sm_row_insert prow col;
          A = A\<lparr>sm_rows := at_header row (\<lambda>_. prow') (sm_rows A)\<rparr>
      in if length prow' \<noteq> length prow
         then A\<lparr>sm_cols := at_header col (\<lambda>pcol. sorted_insert (\<lambda>e. e) row pcol) (sm_cols A)\<rparr> else A)"

text \<open>Element \<open>i\<close> leaves line \<open>j\<close>; a line without elements is discarded.\<close>

definition drop_from :: "nat \<Rightarrow> nat \<Rightarrow> headers \<Rightarrow> headers" where
  "drop_from i j hs =
     (let hs = at_header j (remove1 i) hs in if map_of hs j = Some [] then unlink j hs else hs)"

text \<open>
  Deleting a row unlinks its elements from their columns and discards the columns that become empty;
  the recursive call finds no more elements there.
\<close>

definition sm_delrow :: "sm_matrix \<Rightarrow> nat \<Rightarrow> sm_matrix" where
  "sm_delrow A i =
     (case sm_get_row A i of None \<Rightarrow> A
      | Some prow \<Rightarrow> (let A = A\<lparr>sm_cols := fold (drop_from i) prow (sm_cols A)\<rparr> in A\<lparr>sm_rows := unlink i (sm_rows A)\<rparr>))"

definition sm_delcol :: "sm_matrix \<Rightarrow> nat \<Rightarrow> sm_matrix" where
  "sm_delcol A j =
     (case sm_get_col A j of None \<Rightarrow> A
      | Some pcol \<Rightarrow> (let A = A\<lparr>sm_rows := fold (drop_from j) pcol (sm_rows A)\<rparr> in A\<lparr>sm_cols := unlink j (sm_cols A)\<rparr>))"

definition sm_find :: "sm_matrix \<Rightarrow> nat \<Rightarrow> nat \<Rightarrow> bool" where
  "sm_find A rownum colnum =
     (case sm_get_row A rownum of None \<Rightarrow> False
      | Some prow \<Rightarrow>
          (case sm_get_col A colnum of None \<Rightarrow> False
           | Some pcol \<Rightarrow> if length prow < length pcol then sm_row_find prow colnum else sm_col_find pcol rownum))"

definition sm_remove_element :: "sm_matrix \<Rightarrow> nat \<Rightarrow> nat \<Rightarrow> sm_matrix" where
  "sm_remove_element A rownum colnum =
     (let A = A\<lparr>sm_rows := drop_from colnum rownum (sm_rows A)\<rparr>
      in A\<lparr>sm_cols := drop_from rownum colnum (sm_cols A)\<rparr>)"

definition sm_remove :: "sm_matrix \<Rightarrow> nat \<Rightarrow> nat \<Rightarrow> sm_matrix" where
  "sm_remove A rownum colnum = (if sm_find A rownum colnum then sm_remove_element A rownum colnum else A)"

definition sm_copy_row :: "sm_matrix \<Rightarrow> nat \<Rightarrow> nat list \<Rightarrow> sm_matrix" where
  "sm_copy_row dest dest_row prow = fold (\<lambda>col A. sm_insert A dest_row col) prow dest"

definition sm_copy_col :: "sm_matrix \<Rightarrow> nat \<Rightarrow> nat list \<Rightarrow> sm_matrix" where
  "sm_copy_col dest dest_col pcol = fold (\<lambda>row A. sm_insert A dest_col row) pcol dest"

definition sm_dup :: "sm_matrix \<Rightarrow> sm_matrix" where
  "sm_dup A = fold (\<lambda>(i, prow) B. fold (\<lambda>j B. sm_insert B i j) prow B) (sm_rows A) sm_alloc"

definition longest :: "headers \<Rightarrow> (nat \<times> nat list) option" where
  "longest hs = fst (fold (\<lambda>h (large, max_length).
     if length (snd h) > max_length then (Some h, length (snd h)) else (large, max_length)) hs (None, 0))"

definition sm_longest_row :: "sm_matrix \<Rightarrow> (nat \<times> nat list) option" where
  "sm_longest_row A = longest (sm_rows A)"

definition sm_longest_col :: "sm_matrix \<Rightarrow> (nat \<times> nat list) option" where
  "sm_longest_col A = longest (sm_cols A)"

definition sm_num_elements :: "sm_matrix \<Rightarrow> nat" where
  "sm_num_elements A = fold (\<lambda>prow num. num + length (snd prow)) (sm_rows A) 0"

section \<open>Ascending lists\<close>

abbreviation asc :: "nat list \<Rightarrow> bool" where "asc \<equiv> sorted_wrt (<)"

lemma asc_distinct: "asc xs \<Longrightarrow> distinct xs"
  by (induction xs) auto

lemma asc_unique: "asc xs \<Longrightarrow> asc ys \<Longrightarrow> set xs = set ys \<Longrightarrow> xs = ys"
  using sorted_distinct_set_unique [of xs ys] asc_distinct by (simp add: strict_sorted_iff)

lemma insert_walk_set:
  "asc (map key xs) \<Longrightarrow> asc (map key (insert_walk key e xs)) \<and>
    set (insert_walk key e xs) = (if key e \<in> key ` set xs then set xs else insert e (set xs))"
  by (induction xs) (auto simp: image_iff)

lemma asc_last: "asc (map key xs) \<Longrightarrow> xs \<noteq> [] \<Longrightarrow> x \<in> set xs \<Longrightarrow> key x \<le> key (last xs)"
  by (induction xs) (auto simp: order.strict_implies_order)

lemma sorted_insert_walk: "asc (map key xs) \<Longrightarrow> sorted_insert key e xs = insert_walk key e xs"
proof (cases "xs = []")
  case False
  assume a: "asc (map key xs)"
  have "insert_walk key e xs = xs @ [e]" if "key (last xs) < key e"
  proof -
    have "\<forall>x\<in>set xs. key x < key e" using asc_last [OF a False] that by fastforce
    then show ?thesis by (induction xs) auto
  qed
  moreover have "insert_walk key e xs = e # xs" if "key (hd xs) > key e" using False that by (cases xs) auto
  ultimately show ?thesis using False by (simp add: sorted_insert_def)
qed (simp add: sorted_insert_def)

lemma sorted_insert_set:
  assumes "asc (map key xs)"
  shows "asc (map key (sorted_insert key e xs))"
    "set (sorted_insert key e xs) = (if key e \<in> key ` set xs then set xs else insert e (set xs))"
  using insert_walk_set [OF assms, of e] by (simp_all add: sorted_insert_walk [OF assms])

lemma row_insert_set:
  assumes "asc xs"
  shows "asc (sm_row_insert xs j)" "set (sm_row_insert xs j) = insert j (set xs)"
  using sorted_insert_set [of "\<lambda>e. e" xs j] assms by (auto simp: sm_row_insert_def insert_absorb)

lemma row_insert_length: "asc xs \<Longrightarrow> length (sm_row_insert xs j) = (if j \<in> set xs then length xs else Suc (length xs))"
  using row_insert_set [of xs j] asc_distinct distinct_card [of xs] distinct_card [of "sm_row_insert xs j"]
  by (auto simp: insert_absorb card_insert_if)

lemma row_dup_eq: "asc xs \<Longrightarrow> sm_row_dup xs = xs"
proof -
  have "asc (fold (\<lambda>col pnew. sm_row_insert pnew col) ys zs) \<and> set (fold (\<lambda>col pnew. sm_row_insert pnew col) ys zs) = set zs \<union> set ys"
    if "asc zs" for ys zs
    using that by (induction ys arbitrary: zs) (simp_all add: row_insert_set)
  then show "asc xs \<Longrightarrow> sm_row_dup xs = xs" using asc_unique by (simp add: sm_row_dup_def)
qed

lemma row_find_iff: "asc xs \<Longrightarrow> sm_row_find xs j \<longleftrightarrow> j \<in> set xs"
  by (induction xs) auto

lemma row_remove_set: "asc xs \<Longrightarrow> asc (sm_row_remove xs j) \<and> set (sm_row_remove xs j) = set xs - {j}"
  by (induction xs) auto

lemma row_contains_iff: "asc ps \<Longrightarrow> asc qs \<Longrightarrow> sm_row_contains ps qs \<longleftrightarrow> set ps \<subseteq> set qs"
  by (induction ps qs rule: sm_row_contains.induct) auto

lemma row_intersects_iff: "asc ps \<Longrightarrow> asc qs \<Longrightarrow> sm_row_intersects ps qs \<longleftrightarrow> set ps \<inter> set qs \<noteq> {}"
  by (induction ps qs rule: sm_row_intersects.induct) auto

lemma row_compare_0: "sm_row_compare ps qs = 0 \<longleftrightarrow> ps = qs"
  by (induction ps qs rule: sm_row_compare.induct) auto

lemma row_and_set:
  assumes "asc ps" "asc qs"
  shows "asc (sm_row_and ps qs) \<and> set (sm_row_and ps qs) = set ps \<inter> set qs"
proof -
  have "asc (row_and_loop ps qs rs) \<and> set (row_and_loop ps qs rs) = set rs \<union> (set ps \<inter> set qs)" if "asc rs" for rs
    using assms that by (induction ps qs rs rule: row_and_loop.induct) (auto simp: row_insert_set)
  then show ?thesis by (simp add: sm_row_and_def)
qed

section \<open>Header lists\<close>

text \<open>The vector of a line, empty when the line is not there.\<close>

definition line :: "headers \<Rightarrow> nat \<Rightarrow> nat list" where
  "line hs i = (case map_of hs i of None \<Rightarrow> [] | Some l \<Rightarrow> l)"

definition wf_headers :: "headers \<Rightarrow> bool" where
  "wf_headers hs \<longleftrightarrow> asc (map fst hs) \<and> (\<forall>i\<in>fst ` set hs. line hs i \<noteq> []) \<and> (\<forall>i. asc (line hs i))"

lemma line_absent:
  assumes "i \<notin> fst ` set hs"
  shows "line hs i = []" "map_of hs i = None"
proof -
  show n: "map_of hs i = None" using assms by (simp add: map_of_eq_None_iff)
  show "line hs i = []" by (simp add: line_def n)
qed

lemma asc_remove1: "asc xs \<Longrightarrow> asc (remove1 i xs)"
  by (induction xs) (auto dest: notin_set_remove1 set_remove1_subset [THEN subsetD])

lemma wf_headersD:
  assumes "wf_headers hs"
  shows "asc (map fst hs)" "distinct (map fst hs)" "asc (line hs i)" "i \<in> fst ` set hs \<longleftrightarrow> line hs i \<noteq> []"
proof -
  show "asc (map fst hs)" "asc (line hs i)" using assms by (simp_all add: wf_headers_def)
  then show "distinct (map fst hs)" using asc_distinct by blast
  show "i \<in> fst ` set hs \<longleftrightarrow> line hs i \<noteq> []" using assms line_absent(1) [of i hs] by (auto simp: wf_headers_def)
qed

lemma map_of_line:
  assumes "wf_headers hs"
  shows "map_of hs i = (if line hs i = [] then None else Some (line hs i))"
proof (cases "map_of hs i")
  case (Some l)
  then have "i \<in> fst ` set hs" by (metis map_of_eq_None_iff option.distinct(1))
  then show ?thesis using wf_headersD(4) [OF assms] Some by (simp add: line_def)
qed (simp add: line_def)

lemma header_in: "wf_headers hs \<Longrightarrow> (i, l) \<in> set hs \<longleftrightarrow> l = line hs i \<and> l \<noteq> []"
  using map_of_line [of hs i] map_of_eq_Some_iff [OF wf_headersD(2), of hs i l] by (auto split: if_splits)

lemma headers_eqI:
  assumes a: "wf_headers a" and b: "wf_headers b" and e: "\<And>i. set (line a i) = set (line b i)"
  shows "a = b"
proof -
  have l: "line a i = line b i" for i using asc_unique wf_headersD(3) [OF a] wf_headersD(3) [OF b] e by blast
  have "set a = set b" using header_in [OF a] header_in [OF b] l by auto
  then have "set (map fst a) = set (map fst b)" by simp
  then have k: "map fst a = map fst b" using asc_unique wf_headersD(1) [OF a] wf_headersD(1) [OF b] by blast
  have "map snd a = map (line a) (map fst a)" using header_in [OF a] by auto
  moreover have "map snd b = map (line b) (map fst b)" using header_in [OF b] by auto
  ultimately have "map snd a = map snd b" using k l by (metis map_eq_conv)
  then show ?thesis using k by (metis zip_map_fst_snd)
qed

lemma map_of_at_header: "map_of (at_header i f hs) k = (if k = i then map_option f (map_of hs k) else map_of hs k)"
  by (induction hs) (auto simp: at_header_def)

lemma map_of_unlink: "map_of (unlink i hs) k = (if k = i then None else map_of hs k)"
  by (induction hs) (auto simp: unlink_def)

lemma keys_at_header: "map fst (at_header i f hs) = map fst hs"
  by (induction hs) (auto simp: at_header_def)

lemma keys_unlink: "fst ` set (unlink i hs) = fst ` set hs - {i}" "asc (map fst hs) \<Longrightarrow> asc (map fst (unlink i hs))"
proof -
  show "fst ` set (unlink i hs) = fst ` set hs - {i}" by (auto simp: unlink_def)
  show "asc (map fst hs) \<Longrightarrow> asc (map fst (unlink i hs))"
    unfolding unlink_def by (induction hs) auto
qed

lemma line_at_header: "line (at_header i f hs) k = (if k = i \<and> i \<in> fst ` set hs then f (line hs i) else line hs k)"
proof (cases "map_of hs i")
  case None
  then have "i \<notin> fst ` set hs" by (simp add: map_of_eq_None_iff)
  then show ?thesis using None by (auto simp: line_def map_of_at_header)
next
  case (Some l)
  then have "i \<in> fst ` set hs" by (metis map_of_eq_None_iff option.distinct(1))
  then show ?thesis using Some by (auto simp: line_def map_of_at_header)
qed

lemma line_unlink: "line (unlink i hs) k = (if k = i then [] else line hs k)"
  by (simp add: line_def map_of_unlink)

lemma wf_unlink: "wf_headers hs \<Longrightarrow> wf_headers (unlink i hs)"
  by (auto simp: wf_headers_def line_unlink keys_unlink)

lemma new_header:
  assumes "asc (map fst hs)" "i \<notin> fst ` set hs"
  defines "hs' \<equiv> sorted_insert fst (i, []) hs"
  shows "asc (map fst hs')" "fst ` set hs' = insert i (fst ` set hs)" "line hs' k = line hs k"
proof -
  note s = sorted_insert_set [OF assms(1), of "(i, [])"]
  have set: "set hs' = insert (i, []) (set hs)" using s(2) assms(2) by (simp add: hs'_def)
  show a: "asc (map fst hs')" using s(1) by (simp add: hs'_def)
  show "fst ` set hs' = insert i (fst ` set hs)" using set by simp
  have d: "distinct (map fst hs')" "distinct (map fst hs)" using a assms(1) asc_distinct by blast+
  have "map_of hs' k = (if k = i then Some [] else map_of hs k)"
  proof (cases "k = i")
    case True
    then show ?thesis using d(1) set by (simp add: map_of_eq_Some_iff)
  next
    case False
    then show ?thesis using set d by (metis (no_types, lifting) insertE insertI2 map_of_eq_Some_iff not_None_eq old.prod.inject)
  qed
  moreover have "map_of hs i = None" using assms(2) by (simp add: map_of_eq_None_iff)
  ultimately show "line hs' k = line hs k" by (simp add: line_def)
qed

text \<open>A line gets an element, made first when it is not there.\<close>

lemma put_line:
  fixes i :: nat
  assumes w: "wf_headers hs" and l: "asc l" "l \<noteq> []"
  defines "hs' \<equiv> at_header i (\<lambda>_. l) (if map_of hs i = None then sorted_insert fst (i, []) hs else hs)"
  shows "wf_headers hs'" "line hs' k = (if k = i then l else line hs k)"
proof -
  define h where "h = (if map_of hs i = None then sorted_insert fst (i, []) hs else hs)"
  have h: "asc (map fst h)" "fst ` set h = insert i (fst ` set hs)" "\<And>k. line h k = line hs k"
  proof -
    have "asc (map fst h) \<and> fst ` set h = insert i (fst ` set hs) \<and> (\<forall>k. line h k = line hs k)"
    proof (cases "map_of hs i = None")
      case True
      then have "i \<notin> fst ` set hs" by (simp add: map_of_eq_None_iff)
      then show ?thesis using new_header [OF wf_headersD(1) [OF w]] True by (simp add: h_def)
    next
      case False
      then have "i \<in> fst ` set hs" by (simp add: map_of_eq_None_iff)
      then show ?thesis using wf_headersD(1) [OF w] False by (auto simp: h_def)
    qed
    then show "asc (map fst h)" "fst ` set h = insert i (fst ` set hs)" "\<And>k. line h k = line hs k" by blast+
  qed
  have e: "hs' = at_header i (\<lambda>_. l) h" by (simp add: hs'_def h_def)
  show L: "line hs' k = (if k = i then l else line hs k)" for k
    unfolding e line_at_header h(3) using h(2) by simp
  have "fst ` set hs' = insert i (fst ` set hs)" using arg_cong [OF keys_at_header [of i "\<lambda>_. l" h], of set] h(2) unfolding e by simp
  then show "wf_headers hs'"
    using w h(1) l keys_at_header [of i "\<lambda>_. l" h] wf_headersD(3,4) [OF w] unfolding wf_headers_def L by (auto simp: e)
qed

lemma drop_from_wf:
  assumes w: "wf_headers hs" and j: "j \<in> fst ` set hs"
  shows "wf_headers (drop_from i j hs)" "line (drop_from i j hs) k = (if k = j then remove1 i (line hs j) else line hs k)"
proof -
  define h where "h = at_header j (remove1 i) hs"
  have ln: "line h k = (if k = j then remove1 i (line hs j) else line hs k)" for k
    using j by (auto simp: h_def line_at_header)
  have keys: "map fst h = map fst hs" by (simp add: h_def keys_at_header)
  have "map_of h j \<noteq> None" using j keys by (metis image_set map_of_eq_None_iff)
  then have e: "map_of h j = Some [] \<longleftrightarrow> line h j = []" by (auto simp: line_def split: option.splits)
  have asc: "asc (remove1 i (line hs j))" using wf_headersD(3) [OF w] by (rule asc_remove1)
  have d: "drop_from i j hs = (if line h j = [] then unlink j h else h)" by (simp add: drop_from_def h_def [symmetric] e Let_def)
  show L: "line (drop_from i j hs) k = (if k = j then remove1 i (line hs j) else line hs k)" for k
    unfolding d using ln by (auto simp: line_unlink)
  have k: "fst ` set (drop_from i j hs) = (if line h j = [] then fst ` set hs - {j} else fst ` set hs)"
    unfolding d using keys_unlink(1) [of j h] arg_cong [OF keys, of set] by auto
  have a: "asc (map fst (drop_from i j hs))"
    unfolding d using keys_unlink(2) [of h j] keys wf_headersD(1) [OF w] by simp
  show "wf_headers (drop_from i j hs)"
    using a asc w ln [of j] wf_headersD(3,4) [OF w] unfolding wf_headers_def k L by (auto split: if_splits)
qed

lemma drop_from_fold:
  assumes "wf_headers hs" "set js \<subseteq> fst ` set hs" "distinct js"
  shows "wf_headers (fold (drop_from i) js hs)"
    "line (fold (drop_from i) js hs) k = (if k \<in> set js then remove1 i (line hs k) else line hs k)"
proof -
  have "wf_headers (fold (drop_from i) js hs) \<and>
    (\<forall>k. line (fold (drop_from i) js hs) k = (if k \<in> set js then remove1 i (line hs k) else line hs k))"
    using assms
  proof (induction js arbitrary: hs)
    case (Cons j js)
    have j: "j \<in> fst ` set hs" "j \<notin> set js" using Cons.prems by auto
    note d = drop_from_wf [OF Cons.prems(1) j(1), of i]
    have "set js \<subseteq> fst ` set (drop_from i j hs)"
    proof
      fix k assume k: "k \<in> set js"
      then have "k \<in> fst ` set hs" using Cons.prems(2) by auto
      then have "line hs k \<noteq> []" using wf_headersD(4) [OF Cons.prems(1)] by blast
      moreover have "k \<noteq> j" using k j(2) by blast
      ultimately have "line (drop_from i j hs) k \<noteq> []" using d(2) [of k] by simp
      then show "k \<in> fst ` set (drop_from i j hs)" using wf_headersD(4) [OF d(1)] by blast
    qed
    then show ?case using Cons.IH [OF d(1)] Cons.prems(3) d(2) by (auto split: if_splits)
  qed simp
  then show "wf_headers (fold (drop_from i) js hs)"
    "line (fold (drop_from i) js hs) k = (if k \<in> set js then remove1 i (line hs k) else line hs k)" by blast+
qed

section \<open>Matrices as sets of entries\<close>

definition wf_sm :: "sm_matrix \<Rightarrow> bool" where
  "wf_sm A \<longleftrightarrow> wf_headers (sm_rows A) \<and> wf_headers (sm_cols A)
     \<and> (\<forall>i j. j \<in> set (line (sm_rows A) i) \<longleftrightarrow> i \<in> set (line (sm_cols A) j))"

definition entries :: "sm_matrix \<Rightarrow> (nat \<times> nat) set" where
  "entries A = {(i, j). j \<in> set (line (sm_rows A) i)}"

lemma wf_smD:
  assumes "wf_sm A"
  shows "wf_headers (sm_rows A)" "wf_headers (sm_cols A)"
    "j \<in> set (line (sm_rows A) i) \<longleftrightarrow> (i, j) \<in> entries A" "i \<in> set (line (sm_cols A) j) \<longleftrightarrow> (i, j) \<in> entries A"
  using assms by (auto simp: wf_sm_def entries_def)

lemma wf_smI:
  assumes "wf_headers (sm_rows A)" "wf_headers (sm_cols A)"
    "\<And>i j. j \<in> set (line (sm_rows A) i) \<longleftrightarrow> (i, j) \<in> E" "\<And>i j. i \<in> set (line (sm_cols A) j) \<longleftrightarrow> (i, j) \<in> E"
  shows "wf_sm A" "entries A = E"
  using assms by (auto simp: wf_sm_def entries_def)

lemma sm_eqI:
  assumes "wf_sm A" "wf_sm B" "entries A = entries B"
  shows "A = B"
proof -
  have "sm_rows A = sm_rows B" by (rule headers_eqI) (use assms wf_smD in auto)
  moreover have "sm_cols A = sm_cols B" by (rule headers_eqI) (use assms wf_smD in auto)
  ultimately show ?thesis by simp
qed

definition flip :: "sm_matrix \<Rightarrow> sm_matrix" where
  "flip A = \<lparr>sm_rows = sm_cols A, sm_cols = sm_rows A\<rparr>"

lemma flip_wf: "wf_sm A \<Longrightarrow> wf_sm (flip A)" "wf_sm A \<Longrightarrow> entries (flip A) = (entries A)\<inverse>" "flip (flip A) = A"
  by (auto simp: flip_def wf_sm_def entries_def)

lemma sm_get_iff:
  assumes "wf_sm A"
  shows "sm_get_row A i = (if line (sm_rows A) i = [] then None else Some (line (sm_rows A) i))"
    "sm_get_col A j = (if line (sm_cols A) j = [] then None else Some (line (sm_cols A) j))"
  using map_of_line [OF wf_smD(1) [OF assms]] map_of_line [OF wf_smD(2) [OF assms]]
  by (simp_all add: sm_get_row_def sm_get_col_def)

lemma sm_alloc_wf [simp]: "wf_sm sm_alloc" "entries sm_alloc = {}"
  by (auto simp: sm_alloc_def wf_sm_def entries_def wf_headers_def line_def)

lemma sm_insert_spec:
  assumes A: "wf_sm A"
  shows "wf_sm (sm_insert A i j)" "entries (sm_insert A i j) = insert (i, j) (entries A)"
proof -
  note R = wf_smD(1) [OF A] and K = wf_smD(2) [OF A]
  define row where "row = sm_row_insert (line (sm_rows A) i) j"
  define col where "col = sorted_insert (\<lambda>e. e) i (line (sm_cols A) j)"
  have row: "asc row" "set row = insert j (set (line (sm_rows A) i))"
    using row_insert_set [OF wf_headersD(3) [OF R]] by (auto simp: row_def)
  have col: "asc col" "set col = insert i (set (line (sm_cols A) j))"
    using row_insert_set [OF wf_headersD(3) [OF K]] by (auto simp: col_def sm_row_insert_def)
  define rs where "rs = at_header i (\<lambda>_. row) (if map_of (sm_rows A) i = None then sorted_insert fst (i, []) (sm_rows A) else sm_rows A)"
  define cs where "cs = at_header j (\<lambda>_. col) (if map_of (sm_cols A) j = None then sorted_insert fst (j, []) (sm_cols A) else sm_cols A)"
  have ne: "row \<noteq> []" "col \<noteq> []" using row(2) col(2) by auto
  note P = put_line [OF R row(1) ne(1), of i, folded rs_def] and Q = put_line [OF K col(1) ne(2), of j, folded cs_def]
  have new: "line (sorted_insert fst (k, []) hs) k = []" if "wf_headers hs" "map_of hs k = None" for hs k
  proof -
    have "k \<notin> fst ` set hs" "line hs k = []" using that(2) by (simp add: map_of_eq_None_iff) (simp add: line_def that(2))
    then show ?thesis using new_header(3) [OF wf_headersD(1) [OF that(1)]] by simp
  qed
  have get: "the (map_of (if map_of hs k = None then sorted_insert fst (k, []) hs else hs) k) = line hs k"
    if w: "wf_headers hs" for hs k
  proof (cases "map_of hs k = None")
    case True
    then have k: "k \<notin> fst ` set hs" by (simp add: map_of_eq_None_iff)
    note n = new_header(1,2) [OF wf_headersD(1) [OF w] k]
    have "k \<in> fst ` set (sorted_insert fst (k, []) hs)" using n(2) by simp
    then obtain l where "map_of (sorted_insert fst (k, []) hs) k = Some l" by (metis map_of_eq_None_iff not_None_eq)
    then show ?thesis using True new [OF w True] by (simp add: line_def)
  qed (use w in \<open>auto simp: line_def\<close>)
  have same: "at_header k f hs = at_header k (\<lambda>_. f l) hs" if "the (map_of hs k) = l" "distinct (map fst hs)" for k f l and hs :: headers
    unfolding at_header_def by (rule map_cong) (use that map_of_is_SomeI [OF that(2)] in auto)
  show "wf_sm (sm_insert A i j)" "entries (sm_insert A i j) = insert (i, j) (entries A)"
  proof -
    have len: "length row \<noteq> length (line (sm_rows A) i) \<longleftrightarrow> (i, j) \<notin> entries A"
      using row_insert_length [OF wf_headersD(3) [OF R], of i j] wf_smD(3) [OF A] by (simp add: row_def)
    have old: "cs = sm_cols A" if "(i, j) \<in> entries A"
    proof (rule headers_eqI [OF Q(1) K])
      show "set (line cs k) = set (line (sm_cols A) k)" for k
        using that wf_smD(4) [OF A] unfolding Q(2) by (auto simp: col(2))
    qed
    have cs: "at_header j (sorted_insert (\<lambda>e. e) i) (if map_of (sm_cols A) j = None then sorted_insert fst (j, []) (sm_cols A) else sm_cols A) = cs"
      unfolding cs_def col_def
    proof (rule same)
      show "the (map_of (if map_of (sm_cols A) j = None then sorted_insert fst (j, []) (sm_cols A) else sm_cols A) j) = line (sm_cols A) j"
        by (rule get [OF K])
      show "distinct (map fst (if map_of (sm_cols A) j = None then sorted_insert fst (j, []) (sm_cols A) else sm_cols A))"
        using new_header(1) [OF wf_headersD(1) [OF K], of j] wf_headersD(2) [OF K] asc_distinct by (auto simp: map_of_eq_None_iff)
    qed
    have col_there: "map_of (sm_cols A) j \<noteq> None" if "(i, j) \<in> entries A"
    proof
      assume "map_of (sm_cols A) j = None"
      then have "line (sm_cols A) j = []" by (simp add: line_def)
      then show False using that wf_smD(4) [OF A, of i j] by simp
    qed
    have e: "sm_insert A i j = \<lparr>sm_rows = rs, sm_cols = cs\<rparr>"
      using get [OF R, of i] cs old col_there len unfolding sm_insert_def Let_def rs_def
      by (auto simp: sm_get_row_def sm_get_col_def row_def)
    have m: "y \<in> set (line rs x) \<longleftrightarrow> (x, y) \<in> insert (i, j) (entries A)"
      "x \<in> set (line cs y) \<longleftrightarrow> (x, y) \<in> insert (i, j) (entries A)" for x y
      unfolding P(2) Q(2) using row(2) col(2) wf_smD(3,4) [OF A] by auto
    show "wf_sm (sm_insert A i j)" "entries (sm_insert A i j) = insert (i, j) (entries A)"
      using wf_smI [of "\<lparr>sm_rows = rs, sm_cols = cs\<rparr>" "insert (i, j) (entries A)"] P(1) Q(1) m unfolding e by simp_all
  qed
qed

lemma insert_fold:
  assumes "wf_sm A"
  shows "wf_sm (fold (\<lambda>j A. sm_insert A (f j) (g j)) js A)"
    "entries (fold (\<lambda>j A. sm_insert A (f j) (g j)) js A) = entries A \<union> (\<lambda>j. (f j, g j)) ` set js"
  using assms by (induction js arbitrary: A) (simp_all add: sm_insert_spec)

lemma sm_delrow_spec:
  assumes A: "wf_sm A"
  shows "wf_sm (sm_delrow A i)" "entries (sm_delrow A i) = {e \<in> entries A. fst e \<noteq> i}"
proof -
  note R = wf_smD(1) [OF A] and K = wf_smD(2) [OF A]
  let ?row = "line (sm_rows A) i"
  have "set ?row \<subseteq> fst ` set (sm_cols A)"
    using wf_smD(3,4) [OF A] wf_headersD(4) [OF K] by (metis empty_iff list.set(1) subsetI)
  note F = drop_from_fold [OF K this asc_distinct [OF wf_headersD(3) [OF R]], of i]
  have e: "sm_delrow A i = (if ?row = [] then A else \<lparr>sm_rows = unlink i (sm_rows A), sm_cols = fold (drop_from i) ?row (sm_cols A)\<rparr>)"
    by (simp add: sm_delrow_def sm_get_iff(1) [OF A])
  have rm: "k \<in> set (remove1 i (line (sm_cols A) j)) \<longleftrightarrow> k \<noteq> i \<and> k \<in> set (line (sm_cols A) j)" for k j
    using asc_distinct [OF wf_headersD(3) [OF K]] by auto
  have "wf_sm (sm_delrow A i) \<and> entries (sm_delrow A i) = {e \<in> entries A. fst e \<noteq> i}"
  proof (cases "?row = []")
    case True
    then have "(i, j) \<notin> entries A" for j using wf_smD(3) [OF A, of j i] by simp
    then show ?thesis using A True unfolding e by auto
  next
    case False
    have "k \<in> set (if j \<in> set ?row then remove1 i (line (sm_cols A) j) else line (sm_cols A) j) \<longleftrightarrow> (k, j) \<in> entries A \<and> k \<noteq> i" for k j
      using wf_smD(3,4) [OF A] by (auto simp: rm)
    then show ?thesis
      using wf_smI [of "\<lparr>sm_rows = unlink i (sm_rows A), sm_cols = fold (drop_from i) ?row (sm_cols A)\<rparr>" "{e \<in> entries A. fst e \<noteq> i}"]
        F wf_unlink [OF R] wf_smD(3) [OF A] False unfolding e by (auto simp: line_unlink split: if_splits)
  qed
  then show "wf_sm (sm_delrow A i)" "entries (sm_delrow A i) = {e \<in> entries A. fst e \<noteq> i}" by blast+
qed

lemma sm_delcol_flip: "sm_delcol A j = flip (sm_delrow (flip A) j)"
  by (simp add: sm_delcol_def sm_delrow_def flip_def sm_get_row_def sm_get_col_def split: option.split)

lemma sm_delcol_spec:
  assumes A: "wf_sm A"
  shows "wf_sm (sm_delcol A j)" "entries (sm_delcol A j) = {e \<in> entries A. snd e \<noteq> j}"
  using flip_wf(1) [OF sm_delrow_spec(1) [OF flip_wf(1) [OF A]]] flip_wf(2) [OF sm_delrow_spec(1) [OF flip_wf(1) [OF A]]]
    sm_delrow_spec(2) [OF flip_wf(1) [OF A], of j] flip_wf(2) [OF A]
  by (auto simp: sm_delcol_flip)

lemma entry_header:
  assumes "wf_sm A"
  shows "(i, j) \<in> entries A \<longleftrightarrow> (\<exists>l. (i, l) \<in> set (sm_rows A) \<and> j \<in> set l)"
  unfolding header_in [OF wf_smD(1) [OF assms]] wf_smD(3) [OF assms, symmetric] by auto

lemma sm_find_iff:
  assumes A: "wf_sm A"
  shows "sm_find A i j \<longleftrightarrow> (i, j) \<in> entries A"
proof -
  let ?p = "line (sm_rows A) i" and ?q = "line (sm_cols A) j"
  have f: "sm_row_find ?p j \<longleftrightarrow> (i, j) \<in> entries A" "sm_col_find ?q i \<longleftrightarrow> (i, j) \<in> entries A"
    using row_find_iff [OF wf_headersD(3) [OF wf_smD(1) [OF A]]] row_find_iff [OF wf_headersD(3) [OF wf_smD(2) [OF A]]]
      wf_smD(3,4) [OF A] by (simp_all add: sm_col_find_def)
  have "?p \<noteq> [] \<and> ?q \<noteq> []" if "(i, j) \<in> entries A" using that wf_smD(3,4) [OF A] by (metis empty_iff list.set(1))
  then show ?thesis by (auto simp: sm_find_def sm_get_iff [OF A] f)
qed

lemma sm_remove_spec:
  assumes A: "wf_sm A"
  shows "wf_sm (sm_remove A i j)" "entries (sm_remove A i j) = entries A - {(i, j)}"
proof -
  have "wf_sm (sm_remove A i j) \<and> entries (sm_remove A i j) = entries A - {(i, j)}"
  proof (cases "(i, j) \<in> entries A")
    case True
    note R = wf_smD(1) [OF A] and K = wf_smD(2) [OF A]
    have k: "i \<in> fst ` set (sm_rows A)" "j \<in> fst ` set (sm_cols A)"
      using True wf_smD(3,4) [OF A] wf_headersD(4) [OF R] wf_headersD(4) [OF K] by (metis empty_iff list.set(1))+
    note D = drop_from_wf [OF R k(1), of j] drop_from_wf [OF K k(2), of i]
    have rm: "x \<in> set (remove1 y (line hs z)) \<longleftrightarrow> x \<noteq> y \<and> x \<in> set (line hs z)" if "wf_headers hs" for x y z hs
      using asc_distinct [OF wf_headersD(3) [OF that]] by auto
    have e: "sm_remove A i j = \<lparr>sm_rows = drop_from j i (sm_rows A), sm_cols = drop_from i j (sm_cols A)\<rparr>"
      using True by (simp add: sm_remove_def sm_find_iff [OF A] sm_remove_element_def Let_def)
    have m: "y \<in> set (line (drop_from j i (sm_rows A)) x) \<longleftrightarrow> (x, y) \<in> entries A - {(i, j)}"
      "x \<in> set (line (drop_from i j (sm_cols A)) y) \<longleftrightarrow> (x, y) \<in> entries A - {(i, j)}" for x y
      unfolding D(2,4) using rm [OF R] rm [OF K] wf_smD(3,4) [OF A] by auto
    then show ?thesis
      using wf_smI [of "\<lparr>sm_rows = drop_from j i (sm_rows A), sm_cols = drop_from i j (sm_cols A)\<rparr>" "entries A - {(i, j)}"]
        D(1,3) unfolding e by simp
  qed (use A in \<open>simp add: sm_remove_def sm_find_iff\<close>)
  then show "wf_sm (sm_remove A i j)" "entries (sm_remove A i j) = entries A - {(i, j)}" by blast+
qed

lemma sm_copy_row_spec:
  assumes "wf_sm A"
  shows "wf_sm (sm_copy_row A r prow)" "entries (sm_copy_row A r prow) = entries A \<union> {r} \<times> set prow"
  using insert_fold [OF assms, of "\<lambda>_. r" "\<lambda>j. j" prow] by (auto simp: sm_copy_row_def)

lemma sm_copy_col_spec:
  assumes "wf_sm A"
  shows "wf_sm (sm_copy_col A c pcol)" "entries (sm_copy_col A c pcol) = entries A \<union> {c} \<times> set pcol"
  using insert_fold [OF assms, of "\<lambda>_. c" "\<lambda>j. j" pcol] by (auto simp: sm_copy_col_def)

lemma sm_dup_eq:
  assumes A: "wf_sm A"
  shows "sm_dup A = A"
proof -
  have "wf_sm (fold (\<lambda>(i, prow) B. fold (\<lambda>j B. sm_insert B i j) prow B) hs B) \<and>
    entries (fold (\<lambda>(i, prow) B. fold (\<lambda>j B. sm_insert B i j) prow B) hs B) = entries B \<union> {(i, j). \<exists>l. (i, l) \<in> set hs \<and> j \<in> set l}"
    if "wf_sm B" for hs B
    using that
  proof (induction hs arbitrary: B)
    case (Cons h hs)
    obtain i l where h: "h = (i, l)" by (cases h)
    note f = insert_fold [OF Cons.prems, of "\<lambda>_. i" "\<lambda>j. j" l]
    show ?case using Cons.IH [OF f(1)] f(2) by (auto simp: h)
  qed simp
  from this [OF sm_alloc_wf(1), of "sm_rows A"]
  have d: "wf_sm (sm_dup A)" "entries (sm_dup A) = {(i, j). \<exists>l. (i, l) \<in> set (sm_rows A) \<and> j \<in> set l}"
    by (simp_all add: sm_dup_def)
  have "entries (sm_dup A) = entries A"
    unfolding d(2) using entry_header [OF A] by auto
  then show ?thesis by (rule sm_eqI [OF d(1) A])
qed

lemma finite_entries: "wf_sm A \<Longrightarrow> finite (entries A)"
proof -
  assume A: "wf_sm A"
  have "entries A \<subseteq> (\<Union>h\<in>set (sm_rows A). {fst h} \<times> set (snd h))" using entry_header [OF A] by force
  then show ?thesis by (rule finite_subset) auto
qed

lemma sm_num_elements_card:
  assumes A: "wf_sm A"
  shows "sm_num_elements A = card (entries A)"
proof -
  note R = wf_smD(1) [OF A]
  have f: "fold (\<lambda>prow num. num + length (snd prow)) hs n = n + sum_list (map (length \<circ> snd) hs)" for hs :: headers and n
    by (induction hs arbitrary: n) auto
  have d: "distinct (sm_rows A)" using wf_headersD(2) [OF R] by (simp add: distinct_map)
  have "entries A = (\<Union>h\<in>set (sm_rows A). {fst h} \<times> set (snd h))"
    using entry_header [OF A] by force
  also have "card \<dots> = (\<Sum>h\<in>set (sm_rows A). card ({fst h} \<times> set (snd h)))"
    using wf_headersD(2) [OF R] by (intro card_UN_disjoint) (auto simp: distinct_map inj_on_def)
  also have "\<dots> = (\<Sum>h\<in>set (sm_rows A). length (snd h))"
  proof (rule sum.cong)
    fix h assume "h \<in> set (sm_rows A)"
    then have "distinct (snd h)" using header_in [OF R, of "fst h" "snd h"] asc_distinct wf_headersD(3) [OF R] by simp
    then show "card ({fst h} \<times> set (snd h)) = length (snd h)" by (simp add: card_cartesian_product distinct_card)
  qed simp
  finally show ?thesis using d by (simp add: sm_num_elements_def f sum_list_distinct_conv_sum_set o_def)
qed

text \<open>Rows and columns of a matrix, seen from its entries.\<close>

lemma keys_entries:
  assumes "wf_sm A"
  shows "fst ` set (sm_rows A) = fst ` entries A" "fst ` set (sm_cols A) = snd ` entries A"
proof -
  have ne: "l \<noteq> [] \<longleftrightarrow> (\<exists>x. x \<in> set l)" for l :: "nat list" by (cases l) auto
  show "fst ` set (sm_rows A) = fst ` entries A"
    using wf_headersD(4) [OF wf_smD(1) [OF assms]] wf_smD(3) [OF assms] unfolding ne by force
  show "fst ` set (sm_cols A) = snd ` entries A"
    using wf_headersD(4) [OF wf_smD(2) [OF assms]] wf_smD(4) [OF assms] unfolding ne by force
qed

lemma dimensions:
  assumes "wf_sm A"
  shows "nrows A = card (fst ` entries A)" "ncols A = card (snd ` entries A)"
  using keys_entries [OF assms] wf_headersD(2) [OF wf_smD(1) [OF assms]] wf_headersD(2) [OF wf_smD(2) [OF assms]]
  by (metis distinct_card length_map list.set_map)+

text \<open>
  C21. The matrix routines keep the two lists of headers in step and in order, and act on
  the set of the entries as they should: insertion, removal, deletion of a row or a column, and a copy is
  equal to the original.
\<close>

theorem sparse_refines:
  assumes "wf_sm A"
  shows "(wf_sm (sm_insert A i j) \<and> entries (sm_insert A i j) = insert (i, j) (entries A))
    \<and> (wf_sm (sm_remove A i j) \<and> entries (sm_remove A i j) = entries A - {(i, j)})
    \<and> (wf_sm (sm_delrow A i) \<and> entries (sm_delrow A i) = {e \<in> entries A. fst e \<noteq> i})
    \<and> (wf_sm (sm_delcol A j) \<and> entries (sm_delcol A j) = {e \<in> entries A. snd e \<noteq> j})
    \<and> (sm_find A i j \<longleftrightarrow> (i, j) \<in> entries A) \<and> sm_dup A = A
    \<and> sm_num_elements A = card (entries A)
    \<and> nrows A = card (fst ` entries A) \<and> ncols A = card (snd ` entries A)"
  using sm_insert_spec [OF assms] sm_remove_spec [OF assms] sm_delrow_spec [OF assms] sm_delcol_spec [OF assms]
    sm_find_iff [OF assms] sm_dup_eq [OF assms] sm_num_elements_card [OF assms] dimensions [OF assms] by simp

theorem sparse_refines_witness:
  "sm_dup (sm_insert (sm_insert sm_alloc 3 1) 2 5) = sm_insert (sm_insert sm_alloc 3 1) 2 5"
  using sparse_refines [of "sm_insert (sm_insert sm_alloc 3 1) 2 5" 0 0] sm_insert_spec(1) [OF sm_insert_spec(1) [OF sm_alloc_wf(1)]]
  by simp

end
