(* ===== verification/Mincov.thy ===== *)
theory Mincov
  imports Sparse
begin

text \<open>
  The minimum covering package (\<^verbatim>\<open>mincov.c\<close>, \<^verbatim>\<open>solution.c\<close>, \<^verbatim>\<open>dominate.c\<close>, \<^verbatim>\<open>indep.c\<close>, \<^verbatim>\<open>part.c\<close>,
  \<^verbatim>\<open>gimpel.c\<close>): a set of columns that meets every row of a 0/1 matrix, at least cost, by branch and bound.

  Loops over headers that delete headers on the way run over the numbers of the headers at the start
  and pass over those that are gone, which is where the links lead in C.
\<close>

section \<open>Solutions (solution.c)\<close>

text \<open>A null pointer for the weights means weight 1.\<close>

type_synonym weights = "(nat \<Rightarrow> int) option"

definition WEIGHT :: "weights \<Rightarrow> nat \<Rightarrow> int" where
  "WEIGHT weight col = (case weight of None \<Rightarrow> 1 | Some w \<Rightarrow> w col)"

record solution =
  sol_row :: "nat list"
  sol_cost :: int

definition solution_alloc :: solution where
  "solution_alloc = \<lparr>sol_row = [], sol_cost = 0\<rparr>"

definition solution_dup :: "solution \<Rightarrow> solution" where
  "solution_dup sol = \<lparr>sol_row = sm_row_dup (sol_row sol), sol_cost = sol_cost sol\<rparr>"

definition solution_add :: "solution \<Rightarrow> weights \<Rightarrow> nat \<Rightarrow> solution" where
  "solution_add sol weight col =
     \<lparr>sol_row = sm_row_insert (sol_row sol) col, sol_cost = sol_cost sol + WEIGHT weight col\<rparr>"

definition solution_accept :: "solution \<Rightarrow> sm_matrix \<Rightarrow> weights \<Rightarrow> nat \<Rightarrow> solution \<times> sm_matrix" where
  "solution_accept sol A weight col =
     (solution_add sol weight col, fold (\<lambda>i A. sm_delrow A i) (the (sm_get_col A col)) A)"

definition solution_reject :: "sm_matrix \<Rightarrow> nat \<Rightarrow> sm_matrix" where
  "solution_reject A col = sm_delcol A col"

definition solution_choose_best :: "solution option \<Rightarrow> solution option \<Rightarrow> solution option" where
  "solution_choose_best best1 best2 =
     (case best1 of
        Some b1 \<Rightarrow> (case best2 of Some b2 \<Rightarrow> if sol_cost b1 \<le> sol_cost b2 then best1 else best2 | None \<Rightarrow> best1)
      | None \<Rightarrow> best2)"

section \<open>Dominance (dominate.c)\<close>

text \<open>The shortest of the given lines, the first one among equals.\<close>

definition least_line :: "headers \<Rightarrow> nat list \<Rightarrow> nat list" where
  "least_line hs ks =
     fold (\<lambda>k least. let l = the (map_of hs k) in if length l < length least then l else least)
       (tl ks) (the (map_of hs (hd ks)))"

definition row_dominance_step :: "nat \<Rightarrow> sm_matrix \<Rightarrow> sm_matrix" where
  "row_dominance_step i A =
     (case sm_get_row A i of None \<Rightarrow> A
      | Some prow \<Rightarrow>
          fold (\<lambda>r A.
            let prow1 = the (sm_get_row A r)
            in if (length prow1 > length prow \<or> length prow1 = length prow \<and> r > i) \<and> sm_row_contains prow prow1
               then sm_delrow A r else A) (least_line (sm_cols A) prow) A)"

definition sm_row_dominance :: "sm_matrix \<Rightarrow> nat \<times> sm_matrix" where
  "sm_row_dominance A =
     (let A' = fold row_dominance_step (map fst (sm_rows A)) A in (nrows A - nrows A', A'))"

definition col_dominance_step :: "weights \<Rightarrow> nat \<Rightarrow> sm_matrix \<Rightarrow> sm_matrix" where
  "col_dominance_step weight j A =
     (let pcol = the (sm_get_col A j)
      in if list_ex (\<lambda>j1.
              let pcol1 = the (sm_get_col A j1)
              in \<not> (weight \<noteq> None \<and> the weight j1 > the weight j)
                 \<and> (length pcol1 > length pcol \<or> length pcol1 = length pcol \<and> j1 > j)
                 \<and> sm_col_contains pcol pcol1) (least_line (sm_rows A) pcol)
         then sm_delcol A j else A)"

definition sm_col_dominance :: "sm_matrix \<Rightarrow> weights \<Rightarrow> nat \<times> sm_matrix" where
  "sm_col_dominance A weight =
     (let A' = fold (col_dominance_step weight) (map fst (sm_cols A)) A in (ncols A - ncols A', A'))"

section \<open>Independent rows (indep.c)\<close>

text \<open>The flags of the rows are cleared for every row anew: \<open>seen\<close> are the rows flagged.\<close>

definition build_intersection_matrix :: "sm_matrix \<Rightarrow> sm_matrix" where
  "build_intersection_matrix A =
     fold (\<lambda>(i, prow) B.
       fst (fold (\<lambda>j st.
         fold (\<lambda>r (B, seen). if r \<notin> set seen then (sm_insert B i r, r # seen) else (B, seen))
           (the (sm_get_col A j)) st) prow (B, []))) (sm_rows A) sm_alloc"

definition shortest :: "headers \<Rightarrow> nat \<times> nat list" where
  "shortest hs = fold (\<lambda>h best. if length (snd h) < length (snd best) then h else best) (tl hs) (hd hs)"

definition least_weight :: "sm_matrix \<Rightarrow> weights \<Rightarrow> nat \<Rightarrow> int" where
  "least_weight A weight i =
     (case weight of None \<Rightarrow> 1
      | Some w \<Rightarrow> (let prow = the (sm_get_row A i)
                  in fold (\<lambda>j least. if w j < least then w j else least) (tl prow) (w (hd prow))))"

fun indep_loop :: "nat \<Rightarrow> sm_matrix \<Rightarrow> weights \<Rightarrow> sm_matrix \<Rightarrow> solution \<Rightarrow> solution res" where
  "indep_loop n A weight B indep =
     (if nrows B = 0 then Inr indep
      else case n of 0 \<Rightarrow> Inl Nofuel
        | Suc n \<Rightarrow>
            (let (best, row) = shortest (sm_rows B);
                 indep = \<lparr>sol_row = sm_row_insert (sol_row indep) best, sol_cost = sol_cost indep + least_weight A weight best\<rparr>;
                 save = sm_row_dup row
             in indep_loop n A weight (fold (\<lambda>p B. sm_delcol (sm_delrow B p) p) save B) indep))"

declare indep_loop.simps [simp del]

definition sm_maximal_independent_set :: "sm_matrix \<Rightarrow> weights \<Rightarrow> solution res" where
  "sm_maximal_independent_set A weight =
     (let B = build_intersection_matrix A in indep_loop (nrows B) A weight B solution_alloc)"

section \<open>Components (part.c)\<close>

text \<open>
  The flags of rows and columns, as lists; the counters of visited rows and columns are their
  lengths.  The result tells whether the search stopped early.
\<close>

type_synonym visit = "nat list \<times> nat list"

fun visit_all :: "(visit \<Rightarrow> nat list) \<Rightarrow> (nat \<Rightarrow> visit \<Rightarrow> (bool \<times> visit) res) \<Rightarrow> nat list \<Rightarrow> visit \<Rightarrow> (bool \<times> visit) res" where
  "visit_all flags visit [] s = Inr (False, s)"
| "visit_all flags visit (k # ks) s =
     (if k \<in> set (flags s) then visit_all flags visit ks s
      else rbind (visit k s) (\<lambda>(stop, s). if stop then Inr (True, s) else visit_all flags visit ks s))"

fun visit_row :: "nat \<Rightarrow> sm_matrix \<Rightarrow> nat \<Rightarrow> visit \<Rightarrow> (bool \<times> visit) res"
  and visit_col :: "nat \<Rightarrow> sm_matrix \<Rightarrow> nat \<Rightarrow> visit \<Rightarrow> (bool \<times> visit) res" where
  "visit_row 0 A i s = Inl Nofuel"
| "visit_row (Suc n) A i s =
     (if i \<in> set (fst s) then Inr (False, s)
      else
        (let s = (i # fst s, snd s)
         in if length (fst s) = nrows A then Inr (True, s)
            else visit_all snd (visit_col n A) (the (sm_get_row A i)) s))"
| "visit_col 0 A j s = Inl Nofuel"
| "visit_col (Suc n) A j s =
     (if j \<in> set (snd s) then Inr (False, s)
      else
        (let s = (fst s, j # snd s)
         in if length (snd s) = ncols A then Inr (True, s)
            else visit_all fst (visit_row n A) (the (sm_get_col A j)) s))"

definition copy_row :: "sm_matrix \<Rightarrow> nat \<times> nat list \<Rightarrow> sm_matrix" where
  "copy_row A prow = fold (\<lambda>j A. sm_insert A (fst prow) j) (snd prow) A"

definition sm_block_partition :: "sm_matrix \<Rightarrow> (sm_matrix \<times> sm_matrix) option res" where
  "sm_block_partition A =
     (if nrows A = 0 then Inr None
      else rmap (\<lambda>(stop, s).
        if stop then None
        else Some (fold (\<lambda>prow (L, R). if fst prow \<in> set (fst s) then (copy_row L prow, R) else (L, copy_row R prow))
               (sm_rows A) (sm_alloc, sm_alloc)))
        (visit_row (Suc (nrows A + ncols A)) A (fst (hd (sm_rows A))) ([], [])))"

section \<open>Gimpel's reduction (gimpel.c)\<close>

text \<open>The primary row, the secondary row and the two columns, for the first row that fits.\<close>

definition gimpel_row :: "sm_matrix \<Rightarrow> nat \<times> nat list \<Rightarrow> (nat \<times> nat \<times> nat \<times> nat) option" where
  "gimpel_row A prow =
     (if length (snd prow) = 2 then
        (let k1 = hd (snd prow); k2 = last (snd prow);
             c1 = the (sm_get_col A k1); c2 = the (sm_get_col A k2);
             other = (\<lambda>c. if hd c = fst prow then last c else hd c)
         in if length c1 = 2 then Some (fst prow, other c1, k1, k2)
            else if length c2 = 2 then Some (fst prow, other c2, k2, k1)
            else None)
      else None)"

fun gimpel_find :: "sm_matrix \<Rightarrow> headers \<Rightarrow> (nat \<times> nat \<times> nat \<times> nat) option" where
  "gimpel_find A [] = None"
| "gimpel_find A (prow # prows) = (case gimpel_row A prow of None \<Rightarrow> gimpel_find A prows | Some r \<Rightarrow> Some r)"

text \<open>The reduced matrix, the secondary row without the first column, and the columns.\<close>

definition gimpel_reduce :: "sm_matrix \<Rightarrow> (sm_matrix \<times> nat list \<times> nat \<times> nat) option" where
  "gimpel_reduce A =
     (case gimpel_find A (sm_rows A) of None \<Rightarrow> None
      | Some (primary, secondary, c1, c2) \<Rightarrow>
          (let save_sec = sm_row_remove (sm_row_dup (the (sm_get_row A secondary))) c1;
               A = fold (\<lambda>i A. if i \<noteq> primary then fold (\<lambda>j A. sm_insert A i j) save_sec A else A)
                     (the (sm_get_col A c2)) A;
               A = sm_delcol A c1;
               A = sm_delcol A c2;
               A = sm_delrow A primary;
               A = sm_delrow A secondary
           in Some (A, save_sec, c1, c2)))"

section \<open>Branch and bound (mincov.c)\<close>

text \<open>The arithmetic of \<^verbatim>\<open>double\<close> is a parameter; it only serves the choice of a column.\<close>

record 'f float_ops =
  f_of_int :: "int \<Rightarrow> 'f"
  f_add :: "'f \<Rightarrow> 'f \<Rightarrow> 'f"
  f_sub :: "'f \<Rightarrow> 'f \<Rightarrow> 'f"
  f_div :: "'f \<Rightarrow> 'f \<Rightarrow> 'f"
  f_greater :: "'f \<Rightarrow> 'f \<Rightarrow> bool"

definition column_value :: "'f float_ops \<Rightarrow> sm_matrix \<Rightarrow> weights \<Rightarrow> nat \<Rightarrow> 'f" where
  "column_value fo A weight j =
     (let w = fold (\<lambda>i w.
           let len = int (length (the (sm_get_row A i)))
           in f_add fo w (f_div fo (f_of_int fo 1) (f_sub fo (f_of_int fo len) (f_of_int fo 1))))
           (the (sm_get_col A j)) (f_of_int fo 0)
      in f_div fo w (f_of_int fo (WEIGHT weight j)))"

text \<open>\<open>None\<close> stands for the column number -1.\<close>

definition select_column :: "'f float_ops \<Rightarrow> sm_matrix \<Rightarrow> weights \<Rightarrow> solution option \<Rightarrow> nat option" where
  "select_column fo A weight indep =
     (let indep_cols =
        (case indep of
           Some s \<Rightarrow> fold (\<lambda>i cs. fold (\<lambda>j cs. sm_row_insert cs j) (the (sm_get_row A i)) cs) (sol_row s) []
         | None \<Rightarrow> fold (\<lambda>pcol cs. sm_row_insert cs (fst pcol)) (sm_cols A) [])
      in fst (fold (\<lambda>j (best_col, best).
           let w = column_value fo A weight j
           in if f_greater fo w best then (Some j, w) else (best_col, best))
           indep_cols (None, f_of_int fo (- 1))))"

text \<open>The essentials in turn; the flag tells that the bound was reached.\<close>

fun accept_all :: "weights \<Rightarrow> int \<Rightarrow> nat list \<Rightarrow> sm_matrix \<Rightarrow> solution \<Rightarrow> bool \<times> sm_matrix \<times> solution" where
  "accept_all weight bound [] A select = (False, A, select)"
| "accept_all weight bound (j # js) A select =
     (let (select, A) = solution_accept select A weight j
      in if sol_cost select \<ge> bound then (True, A, select) else accept_all weight bound js A select)"

definition essentials_of :: "sm_matrix \<Rightarrow> nat list" where
  "essentials_of A = fold (\<lambda>prow essen. if length (snd prow) = 1 then sm_row_insert essen (hd (snd prow)) else essen) (sm_rows A) []"

fun select_essential :: "nat \<Rightarrow> sm_matrix \<Rightarrow> solution \<Rightarrow> weights \<Rightarrow> int \<Rightarrow> (sm_matrix \<times> solution) res" where
  "select_essential 0 A select weight bound = Inl Nofuel"
| "select_essential (Suc n) A select weight bound =
     (let (delcols, A) = sm_col_dominance A weight;
          essen = essentials_of A;
          (stop, A, select) = accept_all weight bound essen A select
      in if stop then Inr (A, select)
         else
           (let (delrows, A) = sm_row_dominance A
            in if delcols > 0 \<or> delrows > 0 \<or> length essen > 0 then select_essential n A select weight bound
               else Inr (A, select)))"

text \<open>
  Of the statistics only \<^verbatim>\<open>no_branching\<close> has an effect.  A null solution is \<open>None\<close>.
\<close>

fun sm_mincov :: "nat \<Rightarrow> 'f float_ops \<Rightarrow> bool \<Rightarrow> sm_matrix \<Rightarrow> solution \<Rightarrow> weights \<Rightarrow> int \<Rightarrow> int \<Rightarrow> solution option res" where
  "sm_mincov 0 fo no_branching A select weight lb bound = Inl Nofuel"
| "sm_mincov (Suc n) fo no_branching A select weight lb bound =
     rbind (select_essential (Suc (nrows A + ncols A)) A select weight bound) (\<lambda>(A, select).
     if sol_cost select \<ge> bound then Inr None
     else
       (case (if weight = None then gimpel_reduce A else None) of
          Some (A, save_sec, c1, c2) \<Rightarrow>
            rmap (map_option (\<lambda>best.
              if sm_row_intersects save_sec (sol_row best) then solution_add best weight c2
              else solution_add best weight c1))
              (sm_mincov n fo no_branching A select weight (lb - 1) (bound - 1))
        | None \<Rightarrow>
            rbind (sm_maximal_independent_set A weight) (\<lambda>indep.
            let lb_new = max (sol_cost select + sol_cost indep) lb;
                pick = select_column fo A weight (Some indep)
            in if lb_new \<ge> bound then Inr None
               else if nrows A = 0 then Inr (Some (solution_dup select))
               else rbind (sm_block_partition A) (\<lambda>part.
                 case part of
                   Some (L, R) \<Rightarrow>
                     (let (L, R) = (if ncols L > ncols R then (R, L) else (L, R))
                      in rbind (sm_mincov n fo no_branching L solution_alloc weight 0 (bound - sol_cost select)) (\<lambda>best1.
                         case best1 of None \<Rightarrow> Inr None
                         | Some b1 \<Rightarrow>
                             sm_mincov n fo no_branching R
                               (fold (\<lambda>j select. solution_add select weight j) (sol_row b1) select) weight lb_new bound))
                 | None \<Rightarrow>
                     (case pick of None \<Rightarrow> Inl NullPtr
                      | Some pick \<Rightarrow>
                          (let (select1, A1) = solution_accept (solution_dup select) (sm_dup A) weight pick
                           in rbind (sm_mincov n fo no_branching A1 select1 weight lb_new bound) (\<lambda>best1.
                              let bound = (case best1 of Some b1 \<Rightarrow> if bound > sol_cost b1 then sol_cost b1 else bound | None \<Rightarrow> bound)
                              in if no_branching then Inr best1
                                 else if (case best1 of Some b1 \<Rightarrow> sol_cost b1 = lb_new | None \<Rightarrow> False) then Inr best1
                                 else rbind (sm_mincov n fo no_branching (solution_reject (sm_dup A) pick) (solution_dup select) weight lb_new bound)
                                   (\<lambda>best2. Inr (solution_choose_best best1 best2)))))))))"

definition verify_cover :: "sm_matrix \<Rightarrow> nat list \<Rightarrow> bool" where
  "verify_cover A cover = list_all (\<lambda>prow. sm_row_intersects (snd prow) cover) (sm_rows A)"

definition sm_minimum_cover :: "'f float_ops \<Rightarrow> sm_matrix \<Rightarrow> weights \<Rightarrow> bool \<Rightarrow> nat list res" where
  "sm_minimum_cover fo A weight heuristic =
     (if nrows A = 0 then Inr []
      else
        (let bound = fold (\<lambda>pcol bound. bound + WEIGHT weight (fst pcol)) (sm_cols A) 1
         in rbind (sm_mincov (Suc (nrows A + ncols A)) fo heuristic (sm_dup A) solution_alloc weight 0 bound) (\<lambda>best.
            case best of None \<Rightarrow> Inl NullPtr
            | Some b \<Rightarrow>
                (let sol = sm_row_dup (sol_row b)
                 in if verify_cover A sol then Inr sol
                    else Inl (Fatal ''mincov: internal error -- cover verification failed'')))))"

section \<open>Covers of a relation\<close>

text \<open>A set of columns meets every row; its cost; the least cost of a cover by columns of the relation.\<close>

definition hits :: "(nat \<times> nat) set \<Rightarrow> nat set \<Rightarrow> bool" where
  "hits E X \<longleftrightarrow> (\<forall>i\<in>fst ` E. \<exists>j\<in>X. (i, j) \<in> E)"

definition cost :: "weights \<Rightarrow> nat set \<Rightarrow> int" where
  "cost w X = (\<Sum>j\<in>X. WEIGHT w j)"

definition opt :: "weights \<Rightarrow> (nat \<times> nat) set \<Rightarrow> int" where
  "opt w E = Min (cost w ` {X. X \<subseteq> snd ` E \<and> hits E X})"

definition pos_weights :: "weights \<Rightarrow> bool" where
  "pos_weights w \<longleftrightarrow> (\<forall>j. 0 < WEIGHT w j)"

lemma positive_None [simp]: "pos_weights None"
  by (simp add: pos_weights_def WEIGHT_def)

lemma hits_mono: "hits E X \<Longrightarrow> X \<subseteq> Y \<Longrightarrow> hits E Y"
  by (fastforce simp: hits_def)

lemma hits_all: "hits E (snd ` E)"
  by (force simp: hits_def)

lemma hits_Int: "hits E X \<Longrightarrow> hits E (X \<inter> snd ` E)"
  by (force simp: hits_def)

lemma hitsD: "hits E X \<Longrightarrow> (i, j) \<in> E \<Longrightarrow> \<exists>k\<in>X. (i, k) \<in> E"
  by (force simp: hits_def)

lemma hitsI: "(\<And>i j. (i, j) \<in> E \<Longrightarrow> \<exists>k\<in>X. (i, k) \<in> E) \<Longrightarrow> hits E X"
  by (force simp: hits_def)

lemma cost_simps [simp]: "cost w {} = 0"
  by (simp add: cost_def)

lemma cost_insert: "finite X \<Longrightarrow> j \<notin> X \<Longrightarrow> cost w (insert j X) = WEIGHT w j + cost w X"
  by (simp add: cost_def)

lemma cost_Un: "finite X \<Longrightarrow> finite Y \<Longrightarrow> X \<inter> Y = {} \<Longrightarrow> cost w (X \<union> Y) = cost w X + cost w Y"
  by (simp add: cost_def sum.union_disjoint)

lemma cost_mono: "pos_weights w \<Longrightarrow> finite Y \<Longrightarrow> X \<subseteq> Y \<Longrightarrow> cost w X \<le> cost w Y"
  unfolding cost_def by (rule sum_mono2) (auto simp: pos_weights_def order.strict_implies_order)

lemma cost_nonneg: "pos_weights w \<Longrightarrow> 0 \<le> cost w X"
  unfolding cost_def by (rule sum_nonneg) (auto simp: pos_weights_def order.strict_implies_order)

lemma opt_ex:
  assumes "finite E"
  obtains X where "X \<subseteq> snd ` E" "hits E X" "cost w X = opt w E"
proof -
  have "finite {X. X \<subseteq> snd ` E \<and> hits E X}" using assms by simp
  moreover have "{X. X \<subseteq> snd ` E \<and> hits E X} \<noteq> {}" using hits_all [of E] by blast
  ultimately have "opt w E \<in> cost w ` {X. X \<subseteq> snd ` E \<and> hits E X}" unfolding opt_def by (intro Min_in) auto
  then show ?thesis using that by auto
qed

lemma opt_le:
  assumes E: "finite E" and w: "pos_weights w" and X: "finite X" "hits E X"
  shows "opt w E \<le> cost w X"
proof -
  have f: "finite {X. X \<subseteq> snd ` E \<and> hits E X}" using E by simp
  have "opt w E \<le> cost w (X \<inter> snd ` E)"
    unfolding opt_def by (rule Min_le) (use f hits_Int [OF X(2)] in auto)
  also have "\<dots> \<le> cost w X" by (rule cost_mono [OF w X(1)]) blast
  finally show ?thesis .
qed

lemma opt_le_all: "finite E \<Longrightarrow> pos_weights w \<Longrightarrow> opt w E \<le> cost w (snd ` E)"
  using opt_le [of E w "snd ` E"] hits_all by simp

lemma opt_nonneg: "finite E \<Longrightarrow> pos_weights w \<Longrightarrow> 0 \<le> opt w E"
  using opt_ex [of E w] cost_nonneg by metis

text \<open>
  What a reduction does: the columns \<open>Y\<close> are chosen, and with them every cover of what is left covers
  the whole, without loss of optimality.
\<close>

definition reduces :: "weights \<Rightarrow> (nat \<times> nat) set \<Rightarrow> nat set \<Rightarrow> (nat \<times> nat) set \<Rightarrow> bool" where
  "reduces w E Y E' \<longleftrightarrow> fst ` E' \<subseteq> fst ` E \<and> snd ` E' \<subseteq> snd ` E \<and> Y \<subseteq> snd ` E \<and> Y \<inter> snd ` E' = {}
     \<and> (\<forall>X. hits E' X \<longrightarrow> hits E (X \<union> Y)) \<and> opt w E' + cost w Y \<le> opt w E"

lemma reducesD:
  assumes "reduces w E Y E'"
  shows "fst ` E' \<subseteq> fst ` E" "snd ` E' \<subseteq> snd ` E" "Y \<subseteq> snd ` E" "Y \<inter> snd ` E' = {}"
    "hits E' X \<Longrightarrow> hits E (X \<union> Y)" "opt w E' + cost w Y \<le> opt w E" "finite E \<Longrightarrow> finite Y"
proof -
  show y: "Y \<subseteq> snd ` E" using assms by (simp add: reduces_def)
  show "finite E \<Longrightarrow> finite Y" using finite_subset [OF y] by simp
qed (use assms in \<open>simp_all add: reduces_def\<close>)

lemma reduces_refl [simp]: "reduces w E {} E"
  by (simp add: reduces_def)

lemma reduces_trans:
  assumes "reduces w E Y E'" "reduces w E' Y' E''" "finite E"
  shows "reduces w E (Y \<union> Y') E''"
proof -
  note a = reducesD [OF assms(1)] and b = reducesD [OF assms(2)]
  have s: "Y' \<subseteq> snd ` E" by (rule order_trans [OF b(3) a(2)])
  have f: "finite Y" "finite Y'" using a(7) [OF assms(3)] finite_subset [OF s] assms(3) by simp_all
  have "Y \<inter> Y' = {}" using a(4) b(3) by fast
  then have "cost w (Y \<union> Y') = cost w Y + cost w Y'" by (rule cost_Un [OF f])
  moreover have "hits E (X \<union> (Y \<union> Y'))" if "hits E'' X" for X
  proof -
    have "hits E ((X \<union> Y') \<union> Y)" by (rule a(5) [OF b(5) [OF that]])
    then show ?thesis by (simp add: Un_ac)
  qed
  moreover have "(Y \<union> Y') \<inter> snd ` E'' = {}" using a(4) b(2,4) by fast
  ultimately show ?thesis unfolding reduces_def using a(1,2,3,6) b(1,2,6) s by (simp add: order_trans [of "fst ` E''" "fst ` E'"] order_trans [of "snd ` E''" "snd ` E'"])
qed

lemma reduces_opt:
  assumes "reduces w E Y E'" "finite E" "finite E'" "pos_weights w"
  shows "opt w E = opt w E' + cost w Y"
proof -
  obtain X where X: "X \<subseteq> snd ` E'" "hits E' X" "cost w X = opt w E'" by (rule opt_ex [OF assms(3)])
  note d = reducesD [OF assms(1)]
  have f: "finite X" "finite Y" using finite_subset [OF X(1)] assms(3) d(7) [OF assms(2)] by simp_all
  have "hits E (X \<union> Y)" by (rule d(5) [OF X(2)])
  with f have "opt w E \<le> cost w (X \<union> Y)" by (intro opt_le [OF assms(2,4)]) auto
  also have "\<dots> = cost w X + cost w Y"
  proof (rule cost_Un [OF f])
    have "X \<inter> Y \<subseteq> Y \<inter> snd ` E'" using X(1) by auto
    then show "X \<inter> Y = {}" using d(4) by simp
  qed
  finally show ?thesis using X(3) d(6) by simp
qed

lemma reduces_columns:
  assumes "reduces w E Y E'" "finite E" "pos_weights w"
  shows "cost w Y + cost w (snd ` E') \<le> cost w (snd ` E)"
proof -
  have s: "Y \<subseteq> snd ` E" "snd ` E' \<subseteq> snd ` E" "Y \<inter> snd ` E' = {}" using assms(1) by (auto simp: reduces_def)
  then have f: "finite Y" "finite (snd ` E')" using assms(2) by (auto intro: finite_subset [of _ "snd ` E"])
  have "cost w Y + cost w (snd ` E') = cost w (Y \<union> snd ` E')" using cost_Un [OF f s(3)] by simp
  also have "\<dots> \<le> cost w (snd ` E)" by (rule cost_mono [OF assms(3)]) (use s assms(2) in auto)
  finally show ?thesis .
qed

text \<open>A row that contains another row can be left out.\<close>

lemma row_dominated:
  assumes w: "pos_weights w" and E: "finite E" and i: "i \<noteq> r" "i \<in> fst ` E" "\<And>j. (i, j) \<in> E \<Longrightarrow> (r, j) \<in> E"
  shows "reduces w E {} {e \<in> E. fst e \<noteq> r}"
proof -
  let ?E = "{e \<in> E. fst e \<noteq> r}"
  have h: "hits E X" if X: "hits ?E X" for X
  proof (rule hitsI)
    fix a j assume a: "(a, j) \<in> E"
    show "\<exists>k\<in>X. (a, k) \<in> E"
    proof (cases "a = r")
      case True
      obtain c where "(i, c) \<in> ?E" using i(1,2) by force
      then obtain k where "k \<in> X" "(i, k) \<in> E" using hitsD [OF X] by blast
      then show ?thesis using i(3) True by blast
    qed (use hitsD [OF X, of a j] a in auto)
  qed
  obtain X where X: "X \<subseteq> snd ` E" "hits E X" "cost w X = opt w E" by (rule opt_ex [OF E])
  have "hits ?E X"
  proof (rule hitsI)
    fix a j assume "(a, j) \<in> ?E"
    then show "\<exists>k\<in>X. (a, k) \<in> ?E" using hitsD [OF X(2), of a j] by auto
  qed
  then have "opt w ?E \<le> opt w E" using opt_le [of ?E w X] E w X finite_subset [OF X(1)] by simp
  then show ?thesis using h by (auto simp: reduces_def)
qed

text \<open>A column whose rows all have another column of no greater weight can be left out.\<close>

lemma column_dominated:
  assumes w: "pos_weights w" and E: "finite E" and j: "j \<noteq> k" "WEIGHT w k \<le> WEIGHT w j" "\<And>i. (i, j) \<in> E \<Longrightarrow> (i, k) \<in> E"
  shows "reduces w E {} {e \<in> E. snd e \<noteq> j}" "fst ` {e \<in> E. snd e \<noteq> j} = fst ` E"
proof -
  let ?E = "{e \<in> E. snd e \<noteq> j}"
  show rows: "fst ` ?E = fst ` E" using j(1,3) by (force simp: image_iff)
  have h: "hits E X" if "hits ?E X" for X
    using that rows unfolding hits_def by blast
  obtain X where X: "X \<subseteq> snd ` E" "hits E X" "cost w X = opt w E" by (rule opt_ex [OF E])
  have fX: "finite X" using X(1) E finite_subset by blast
  define Y where "Y = (if j \<in> X then insert k (X - {j}) else X)"
  have "hits ?E Y"
  proof (rule hitsI)
    fix a c assume "(a, c) \<in> ?E"
    then obtain b where b: "b \<in> X" "(a, b) \<in> E" using hitsD [OF X(2)] by auto
    show "\<exists>b\<in>Y. (a, b) \<in> ?E"
    proof (cases "b = j")
      case True
      then show ?thesis using b j(1) j(3) by (auto simp: Y_def)
    next
      case False
      then show ?thesis using b by (auto simp: Y_def)
    qed
  qed
  then have "opt w ?E \<le> cost w Y" using opt_le [of ?E w Y] E w fX by (simp add: Y_def)
  also have "cost w Y \<le> cost w X"
  proof (cases "j \<in> X")
    case True
    have "cost w Y \<le> WEIGHT w k + cost w (X - {j})"
    proof (cases "k \<in> X - {j}")
      case True
      then show ?thesis using w \<open>j \<in> X\<close> by (simp add: Y_def insert_absorb pos_weights_def order.strict_implies_order)
    next
      case False
      then show ?thesis using cost_insert [of "X - {j}" k w] fX \<open>j \<in> X\<close> by (simp add: Y_def)
    qed
    also have "\<dots> \<le> WEIGHT w j + cost w (X - {j})" using j(2) by simp
    also have "\<dots> = cost w X" using cost_insert [of "X - {j}" j w] fX True by (simp add: insert_absorb)
    finally show ?thesis .
  qed (simp add: Y_def)
  finally show "reduces w E {} ?E" using h X(3) rows by (auto simp: reduces_def)
qed

text \<open>The only column of a row must be chosen.\<close>

lemma essential_column:
  assumes w: "pos_weights w" and E: "finite E" and i: "(i, j) \<in> E" "\<And>k. (i, k) \<in> E \<Longrightarrow> k = j"
  shows "reduces w E {j} {e \<in> E. (fst e, j) \<notin> E}"
proof -
  let ?E = "{e \<in> E. (fst e, j) \<notin> E}"
  have h: "hits E (insert j X)" if X: "hits ?E X" for X
  proof (rule hitsI)
    fix a c assume a: "(a, c) \<in> E"
    then show "\<exists>k\<in>insert j X. (a, k) \<in> E" using hitsD [OF X, of a c] by (cases "(a, j) \<in> E") auto
  qed
  obtain X where X: "X \<subseteq> snd ` E" "hits E X" "cost w X = opt w E" by (rule opt_ex [OF E])
  have j: "j \<in> X" using hitsD [OF X(2) i(1)] i(2) by blast
  have "hits ?E (X - {j})"
  proof (rule hitsI)
    fix a c assume a: "(a, c) \<in> ?E"
    then obtain k where "k \<in> X" "(a, k) \<in> E" using hitsD [OF X(2)] by auto
    then show "\<exists>k\<in>X - {j}. (a, k) \<in> ?E" using a by (intro bexI [of _ k]) auto
  qed
  then have "opt w ?E \<le> cost w (X - {j})" using opt_le [of ?E w] E w finite_subset [OF X(1)] by simp
  then have "opt w ?E + cost w {j} \<le> opt w E"
    using X(3) cost_insert [of "X - {j}" j w] j finite_subset [OF X(1)] E by (simp add: insert_absorb cost_def)
  then show ?thesis using h i(1) by (force simp: reduces_def)
qed

section \<open>The matrix operations\<close>

abbreviation row :: "sm_matrix \<Rightarrow> nat \<Rightarrow> nat list" where "row A i \<equiv> line (sm_rows A) i"
abbreviation col :: "sm_matrix \<Rightarrow> nat \<Rightarrow> nat list" where "col A j \<equiv> line (sm_cols A) j"

lemma row_facts:
  assumes "wf_sm A"
  shows "asc (row A i)" "distinct (row A i)" "set (row A i) = {j. (i, j) \<in> entries A}" "row A i \<noteq> [] \<longleftrightarrow> i \<in> fst ` entries A"
    "i \<in> fst ` entries A \<Longrightarrow> sm_get_row A i = Some (row A i)" "i \<notin> fst ` entries A \<Longrightarrow> sm_get_row A i = None"
proof -
  note R = wf_smD(1) [OF assms]
  show "asc (row A i)" using wf_headersD(3) [OF R] .
  then show "distinct (row A i)" by (rule asc_distinct)
  show "set (row A i) = {j. (i, j) \<in> entries A}" using wf_smD(3) [OF assms] by auto
  show n: "row A i \<noteq> [] \<longleftrightarrow> i \<in> fst ` entries A" using wf_headersD(4) [OF R] keys_entries(1) [OF assms] by simp
  show "i \<in> fst ` entries A \<Longrightarrow> sm_get_row A i = Some (row A i)" "i \<notin> fst ` entries A \<Longrightarrow> sm_get_row A i = None"
    using n by (simp_all add: sm_get_iff(1) [OF assms])
qed

lemma col_facts:
  assumes "wf_sm A"
  shows "asc (col A j)" "distinct (col A j)" "set (col A j) = {i. (i, j) \<in> entries A}" "col A j \<noteq> [] \<longleftrightarrow> j \<in> snd ` entries A"
    "j \<in> snd ` entries A \<Longrightarrow> sm_get_col A j = Some (col A j)"
proof -
  note R = wf_smD(2) [OF assms]
  show "asc (col A j)" using wf_headersD(3) [OF R] .
  then show "distinct (col A j)" by (rule asc_distinct)
  show "set (col A j) = {i. (i, j) \<in> entries A}" using wf_smD(4) [OF assms] by auto
  show n: "col A j \<noteq> [] \<longleftrightarrow> j \<in> snd ` entries A" using wf_headersD(4) [OF R] keys_entries(2) [OF assms] by simp
  show "j \<in> snd ` entries A \<Longrightarrow> sm_get_col A j = Some (col A j)" using n by (simp add: sm_get_iff(2) [OF assms])
qed

lemma row_nonempty: "wf_sm A \<Longrightarrow> (i, j) \<in> entries A \<Longrightarrow> row A i \<noteq> []"
  using row_facts(3) [of A i] by auto

lemma header_row: "wf_sm A \<Longrightarrow> h \<in> set (sm_rows A) \<Longrightarrow> snd h = row A (fst h) \<and> fst h \<in> fst ` entries A"
  using header_in [OF wf_smD(1), of A "fst h" "snd h"] row_facts(4) [of A "fst h"] by (metis prod.collapse)

lemma delrows:
  assumes "wf_sm A"
  shows "wf_sm (fold (\<lambda>i A. sm_delrow A i) is A)"
    "entries (fold (\<lambda>i A. sm_delrow A i) is A) = {e \<in> entries A. fst e \<notin> set is}"
proof -
  have "wf_sm (fold (\<lambda>i A. sm_delrow A i) is A) \<and>
    entries (fold (\<lambda>i A. sm_delrow A i) is A) = {e \<in> entries A. fst e \<notin> set is}"
    using assms by (induction "is" arbitrary: A) (auto simp: sm_delrow_spec)
  then show "wf_sm (fold (\<lambda>i A. sm_delrow A i) is A)"
    "entries (fold (\<lambda>i A. sm_delrow A i) is A) = {e \<in> entries A. fst e \<notin> set is}" by blast+
qed

text \<open>A solution grows by the columns \<open>Y\<close>.\<close>

definition grows :: "weights \<Rightarrow> solution \<Rightarrow> nat set \<Rightarrow> solution \<Rightarrow> bool" where
  "grows w s Y s' \<longleftrightarrow> asc (sol_row s') \<and> set (sol_row s') = set (sol_row s) \<union> Y \<and> sol_cost s' = sol_cost s + cost w Y"

lemma grows_trans:
  assumes "grows w s Y s'" "grows w s' Y' s''" "finite Y" "finite Y'" "Y \<inter> Y' = {}"
  shows "grows w s (Y \<union> Y') s''"
  using assms by (auto simp: grows_def cost_Un)

lemma grows_refl: "asc (sol_row s) \<Longrightarrow> grows w s {} s"
  by (simp add: grows_def)

lemma grows_add: "asc (sol_row s) \<Longrightarrow> grows w s {j} (solution_add s w j)"
  by (simp add: grows_def solution_add_def row_insert_set cost_def)

lemma accept_spec:
  assumes A: "wf_sm A" and s: "asc (sol_row s)" and j: "j \<in> snd ` entries A"
    and r: "solution_accept s A w j = (s', A')"
  shows "wf_sm A'" "entries A' = {e \<in> entries A. (fst e, j) \<notin> entries A}" "grows w s {j} s'"
proof -
  have e: "s' = solution_add s w j" "A' = fold (\<lambda>i A. sm_delrow A i) (col A j) A"
    using r col_facts(5) [OF A j] by (simp_all add: solution_accept_def)
  show "wf_sm A'" "entries A' = {e \<in> entries A. (fst e, j) \<notin> entries A}"
    using delrows [OF A, of "col A j"] col_facts(3) [OF A, of j] by (simp_all add: e)
  show "grows w s {j} s'" using grows_add [OF s] by (simp add: e)
qed

lemma least_line_in:
  assumes "ks \<noteq> []"
  shows "\<exists>k\<in>set ks. least_line hs ks = the (map_of hs k)"
proof -
  define f where "f = (\<lambda>k least. let l = the (map_of hs k) in if length l < length least then l else least)"
  have "fold f js l = l \<or> (\<exists>k\<in>set js. fold f js l = the (map_of hs k))" for js l
    by (induction js arbitrary: l) (auto simp: f_def Let_def)
  from this [of "tl ks" "the (map_of hs (hd ks))"] show ?thesis
    using assms by (cases ks) (auto simp: least_line_def f_def)
qed

text \<open>What the two kinds of dominance do to a matrix.\<close>

definition shrunk :: "weights \<Rightarrow> sm_matrix \<Rightarrow> sm_matrix \<Rightarrow> bool" where
  "shrunk w A B \<longleftrightarrow> wf_sm B \<and> entries B \<subseteq> entries A \<and> reduces w (entries A) {} (entries B)"

lemma shrunk_refl: "wf_sm A \<Longrightarrow> shrunk w A A"
  by (simp add: shrunk_def)

lemma shrunk_trans: "wf_sm A \<Longrightarrow> shrunk w A B \<Longrightarrow> shrunk w B D \<Longrightarrow> shrunk w A D"
  using reduces_trans [of w "entries A" "{}" "entries B" "{}" "entries D"] finite_entries by (auto simp: shrunk_def)

lemma shrunk_dims:
  assumes "wf_sm A" "shrunk w A B"
  shows "nrows B \<le> nrows A" "ncols B \<le> ncols A"
  using dimensions [OF assms(1)] dimensions [of B] assms(2) finite_entries [OF assms(1)]
  by (auto simp: shrunk_def intro!: card_mono image_mono)

lemma delrow_dims:
  assumes A: "wf_sm A" and i: "i \<in> fst ` entries A"
  shows "nrows (sm_delrow A i) < nrows A"
proof -
  have "fst ` entries (sm_delrow A i) \<subset> fst ` entries A" using i unfolding sm_delrow_spec(2) [OF A] by force
  then show ?thesis using dimensions(1) [OF A] dimensions(1) [OF sm_delrow_spec(1) [OF A]] finite_entries [OF A]
    by (simp add: psubset_card_mono)
qed

lemma delcol_dims:
  assumes A: "wf_sm A" and j: "j \<in> snd ` entries A"
  shows "ncols (sm_delcol A j) < ncols A" "nrows (sm_delcol A j) \<le> nrows A"
proof -
  have "snd ` entries (sm_delcol A j) \<subset> snd ` entries A" using j unfolding sm_delcol_spec(2) [OF A] by force
  then show "ncols (sm_delcol A j) < ncols A" using dimensions(2) [OF A] dimensions(2) [OF sm_delcol_spec(1) [OF A]] finite_entries [OF A]
    by (simp add: psubset_card_mono)
  have "fst ` entries (sm_delcol A j) \<subseteq> fst ` entries A" unfolding sm_delcol_spec(2) [OF A] by auto
  then show "nrows (sm_delcol A j) \<le> nrows A" using dimensions(1) [OF A] dimensions(1) [OF sm_delcol_spec(1) [OF A]] finite_entries [OF A]
    by (simp add: card_mono)
qed

text \<open>Steps that shrink a matrix or do nothing, one after the other.\<close>

lemma shrinking_fold:
  assumes A: "wf_sm A" and inv: "\<And>x B. x \<in> set xs \<Longrightarrow> shrunk w A B \<Longrightarrow> P B \<Longrightarrow> shrunk w B (f x B) \<and> P (f x B) \<and> (f x B = B \<or> m (f x B) < m B)"
    and m: "\<And>B B'. shrunk w A B \<Longrightarrow> shrunk w B B' \<Longrightarrow> m B' \<le> (m B :: nat)" and P: "P A"
  shows "shrunk w A (fold f xs A) \<and> P (fold f xs A) \<and>
    (m (fold f xs A) < m A \<or> fold f xs A = A \<and> (\<forall>x\<in>set xs. f x A = A))"
  using A P inv m
proof (induction xs arbitrary: A)
  case (Cons x xs)
  let ?B = "f x A"
  have s: "shrunk w A ?B" "P ?B" "?B = A \<or> m ?B < m A"
    using Cons.prems(3) [of x A] Cons.prems(1,2) shrunk_refl by auto
  have B: "wf_sm ?B" using s(1) by (simp add: shrunk_def)
  note tr = shrunk_trans [OF Cons.prems(1) s(1)]
  have "shrunk w ?B (fold f xs ?B) \<and> P (fold f xs ?B) \<and> (m (fold f xs ?B) < m ?B \<or> fold f xs ?B = ?B \<and> (\<forall>x\<in>set xs. f x ?B = ?B))"
    by (rule Cons.IH [OF B s(2)]) (use Cons.prems(3,4) tr in auto)
  then show ?case using s(3) tr by auto
qed (simp add: shrunk_refl)

section \<open>Dominance and essentials\<close>

lemma delrow_shrunk:
  assumes w: "pos_weights w" and A: "wf_sm A" and d: "i \<noteq> r" "i \<in> fst ` entries A" "set (row A i) \<subseteq> set (row A r)"
  shows "shrunk w A (sm_delrow A r)" "row (sm_delrow A r) i = row A i"
proof -
  have "reduces w (entries A) {} {e \<in> entries A. fst e \<noteq> r}"
    using d(3) row_facts(3) [OF A] by (intro row_dominated [OF w finite_entries [OF A] d(1,2)]) auto
  then show "shrunk w A (sm_delrow A r)" by (auto simp: shrunk_def sm_delrow_spec [OF A])
  show "row (sm_delrow A r) i = row A i"
    using d(1) by (auto simp: sm_delrow_def line_unlink split: option.splits)
qed

definition row_covered :: "sm_matrix \<Rightarrow> nat \<Rightarrow> nat \<Rightarrow> bool" where
  "row_covered A i r \<longleftrightarrow> (length (row A r) > length (row A i) \<or> length (row A r) = length (row A i) \<and> r > i)
     \<and> sm_row_contains (row A i) (row A r)"

lemma row_step_spec:
  assumes w: "pos_weights w" and A: "wf_sm A"
  shows "shrunk w A (row_dominance_step i A)"
    "nrows (row_dominance_step i A) < nrows A \<or>
     row_dominance_step i A = A \<and> (i \<in> fst ` entries A \<longrightarrow> (\<exists>k\<in>set (row A i). \<forall>r\<in>set (col A k). \<not> row_covered A i r))"
proof -
  have "shrunk w A (row_dominance_step i A) \<and> (nrows (row_dominance_step i A) < nrows A \<or>
     row_dominance_step i A = A \<and> (i \<in> fst ` entries A \<longrightarrow> (\<exists>k\<in>set (row A i). \<forall>r\<in>set (col A k). \<not> row_covered A i r)))"
  proof (cases "i \<in> fst ` entries A")
    case True
    note get = row_facts(5) [OF A True]
    have ne: "row A i \<noteq> []" using True row_facts(4) [OF A] by blast
    obtain k where k: "k \<in> set (row A i)" "least_line (sm_cols A) (row A i) = the (map_of (sm_cols A) k)"
      using least_line_in [OF ne] by blast
    have "k \<in> snd ` entries A" using k(1) row_facts(3) [OF A] by force
    then have lk: "least_line (sm_cols A) (row A i) = col A k" using k(2) col_facts(5) [OF A] by (simp add: sm_get_col_def)
    define f where "f r B = (let prow1 = the (sm_get_row B r)
            in if (length prow1 > length (row A i) \<or> length prow1 = length (row A i) \<and> r > i) \<and> sm_row_contains (row A i) prow1
               then sm_delrow B r else B)" for r B
    have step: "row_dominance_step i A = fold f (col A k) A"
      by (simp add: row_dominance_step_def get lk f_def [abs_def])
    have all: "shrunk w B (fold f rs B) \<and> (nrows (fold f rs B) < nrows B \<or> fold f rs B = B \<and> (\<forall>r\<in>set rs. \<not> row_covered B i r))"
      if "wf_sm B" "row B i = row A i" "distinct rs" "set rs \<subseteq> fst ` entries B" for B rs
      using that
    proof (induction rs arbitrary: B)
      case (Cons r rs)
      note B = Cons.prems(1)
      have ri: "row B i = row A i" and r: "r \<in> fst ` entries B" using Cons.prems(2,4) by simp_all
      have f: "f r B = (if row_covered B i r then sm_delrow B r else B)"
        using row_facts(5) [OF B r] ri by (simp add: f_def row_covered_def Let_def)
      show ?case
      proof (cases "row_covered B i r")
        case True
        have "i \<noteq> r" "set (row B i) \<subseteq> set (row B r)"
          using True row_contains_iff [OF row_facts(1) [OF B] row_facts(1) [OF B]] by (auto simp: row_covered_def)
        moreover have "i \<in> fst ` entries B" using ne row_facts(4) [OF B] ri by metis
        ultimately have d: "shrunk w B (sm_delrow B r)" "row (sm_delrow B r) i = row A i"
          using delrow_shrunk [OF w B] ri by auto
        have wD: "wf_sm (sm_delrow B r)" using d(1) by (simp add: shrunk_def)
        have sub: "set rs \<subseteq> fst ` entries (sm_delrow B r)"
          using Cons.prems(3,4) unfolding sm_delrow_spec(2) [OF B] by (force simp: image_iff)
        from Cons.IH [OF wD d(2) _ sub] Cons.prems(3)
        have "shrunk w (sm_delrow B r) (fold f rs (sm_delrow B r))" by simp
        then show ?thesis
          using shrunk_trans [OF B d(1)] shrunk_dims(1) [OF wD] delrow_dims [OF B r] True f by fastforce
      next
        case False
        then show ?thesis using Cons.IH [OF B ri] Cons.prems(3,4) f by auto
      qed
    qed (simp add: shrunk_refl)
    have "set (col A k) \<subseteq> fst ` entries A" using col_facts(3) [OF A] by force
    from all [OF A refl col_facts(2) [OF A] this] show ?thesis unfolding step using k(1) by blast
  next
    case False
    then show ?thesis using row_facts(6) [OF A] A by (simp add: row_dominance_step_def shrunk_refl)
  qed
  then show "shrunk w A (row_dominance_step i A)"
    "nrows (row_dominance_step i A) < nrows A \<or>
     row_dominance_step i A = A \<and> (i \<in> fst ` entries A \<longrightarrow> (\<exists>k\<in>set (row A i). \<forall>r\<in>set (col A k). \<not> row_covered A i r))"
    by blast+
qed

text \<open>No row contains another one.\<close>

definition row_minimal :: "(nat \<times> nat) set \<Rightarrow> bool" where
  "row_minimal E \<longleftrightarrow> (\<forall>i\<in>fst ` E. \<forall>r\<in>fst ` E. i \<noteq> r \<longrightarrow> (\<exists>j. (i, j) \<in> E \<and> (r, j) \<notin> E))"

lemma row_dominance_spec:
  assumes w: "pos_weights w" and A: "wf_sm A" and r: "sm_row_dominance A = (n, A')"
  shows "shrunk w A A'" "n = 0 \<Longrightarrow> A' = A \<and> row_minimal (entries A)" "n > 0 \<Longrightarrow> nrows A' < nrows A"
proof -
  let ?ks = "map fst (sm_rows A)"
  have r': "A' = fold row_dominance_step ?ks A" "n = nrows A - nrows A'" using r by (auto simp: sm_row_dominance_def Let_def)
  have "shrunk w A A' \<and> True \<and> (nrows A' < nrows A \<or> A' = A \<and> (\<forall>i\<in>set ?ks. row_dominance_step i A = A))"
    unfolding r'(1)
  proof (rule shrinking_fold [OF A])
    fix i B assume "shrunk w A B"
    then have B: "wf_sm B" by (simp add: shrunk_def)
    show "shrunk w B (row_dominance_step i B) \<and> True \<and> (row_dominance_step i B = B \<or> nrows (row_dominance_step i B) < nrows B)"
      using row_step_spec [OF w B, of i] by blast
  next
    fix B B' assume "shrunk w A B" "shrunk w B B'"
    then show "nrows B' \<le> nrows B" using shrunk_dims(1) [of B w B'] by (simp add: shrunk_def)
  qed simp
  then have s: "shrunk w A A'" "nrows A' < nrows A \<or> A' = A \<and> (\<forall>i\<in>set ?ks. row_dominance_step i A = A)" by blast+
  show "shrunk w A A'" by (rule s(1))
  show "n > 0 \<Longrightarrow> nrows A' < nrows A" using r'(2) by simp
  show "A' = A \<and> row_minimal (entries A)" if "n = 0"
  proof -
    have e: "A' = A" "\<forall>i\<in>set ?ks. row_dominance_step i A = A" using s(2) r'(2) that by auto
    have "\<exists>j. (i, j) \<in> entries A \<and> (r, j) \<notin> entries A" if i: "i \<in> fst ` entries A" "r \<in> fst ` entries A" "i \<noteq> r" for i r
    proof (rule ccontr)
      assume n: "\<nexists>j. (i, j) \<in> entries A \<and> (r, j) \<notin> entries A"
      then have sub: "set (row A i) \<subseteq> set (row A r)" "set (row A i) \<subseteq> set (row A r)" using row_facts(3) [OF A] by auto
      have step: "\<exists>k\<in>set (row A a). \<forall>b\<in>set (col A k). \<not> row_covered A a b" if "a \<in> fst ` entries A" for a
      proof -
        have "a \<in> set ?ks" using that keys_entries(1) [OF A] by simp
        then have "row_dominance_step a A = A" using e(2) by blast
        then show ?thesis using row_step_spec(2) [OF w A, of a] that by simp
      qed
      have cover: "\<not> row_covered A a b" if a: "a \<in> fst ` entries A" "set (row A a) \<subseteq> set (row A b)" for a b
      proof -
        obtain k where k: "k \<in> set (row A a)" "\<forall>b\<in>set (col A k). \<not> row_covered A a b" using step [OF a(1)] by blast
        have "b \<in> set (col A k)" using k(1) a(2) row_facts(3) [OF A] col_facts(3) [OF A] by auto
        then show ?thesis using k(2) by blast
      qed
      have len: "length (row A a) = card (set (row A a))" for a using row_facts(2) [OF A] distinct_card by metis
      have cont: "sm_row_contains (row A a) (row A b) \<longleftrightarrow> set (row A a) \<subseteq> set (row A b)" for a b
        by (rule row_contains_iff [OF row_facts(1) [OF A] row_facts(1) [OF A]])
      have le: "length (row A i) \<le> length (row A r)" unfolding len by (rule card_mono) (use sub in auto)
      show False
      proof (cases "length (row A i) = length (row A r) \<and> r < i")
        case True
        then have "set (row A i) = set (row A r)" using sub(1) unfolding len by (intro card_subset_eq) auto
        then show False using cover [OF i(2), of i] True by (simp add: row_covered_def cont)
      next
        case False
        then show False using cover [OF i(1) sub(1)] le sub(1) i(3) by (auto simp: row_covered_def cont)
      qed
    qed
    then show ?thesis using e(1) by (auto simp: row_minimal_def)
  qed
qed

lemma col_step_spec:
  assumes w: "pos_weights w" and A: "wf_sm A" and j: "j \<in> snd ` entries A"
  shows "shrunk w A (col_dominance_step w j A)"
    "col_dominance_step w j A = A \<or> col_dominance_step w j A = sm_delcol A j \<and> ncols (sm_delcol A j) < ncols A"
proof -
  have get: "the (sm_get_col A j) = col A j" using col_facts(5) [OF A j] by simp
  have ne: "col A j \<noteq> []" using j col_facts(4) [OF A] by blast
  obtain i where i: "i \<in> set (col A j)" "least_line (sm_rows A) (col A j) = the (map_of (sm_rows A) i)"
    using least_line_in [OF ne] by blast
  have "i \<in> fst ` entries A" using i(1) col_facts(3) [OF A] by force
  then have li: "least_line (sm_rows A) (col A j) = row A i" using i(2) row_facts(5) [OF A] by (simp add: sm_get_row_def)
  have "shrunk w A (col_dominance_step w j A) \<and>
    (col_dominance_step w j A = A \<or> col_dominance_step w j A = sm_delcol A j \<and> ncols (sm_delcol A j) < ncols A)"
  proof (cases "col_dominance_step w j A = A")
    case True
    then show ?thesis using shrunk_refl [OF A] by simp
  next
    case False
    then obtain k where k: "k \<in> set (row A i)" "\<not> (w \<noteq> None \<and> the w k > the w j)"
      "length (the (sm_get_col A k)) > length (col A j) \<or> length (the (sm_get_col A k)) = length (col A j) \<and> k > j"
      "sm_col_contains (col A j) (the (sm_get_col A k))" and e: "col_dominance_step w j A = sm_delcol A j"
      unfolding col_dominance_step_def Let_def get li list_ex_iff by (auto split: if_splits)
    have ks: "k \<in> snd ` entries A" using k(1) row_facts(3) [OF A] by force
    have sub: "set (col A j) \<subseteq> set (col A k)"
      using k(4) col_facts(5) [OF A ks] row_contains_iff [OF col_facts(1) [OF A] col_facts(1) [OF A]] by (simp add: sm_col_contains_def)
    have "reduces w (entries A) {} {e \<in> entries A. snd e \<noteq> j}"
    proof (rule column_dominated(1) [OF w finite_entries [OF A]])
      show "j \<noteq> k" using k(3) col_facts(5) [OF A ks] by auto
      show "WEIGHT w k \<le> WEIGHT w j" using k(2) by (auto simp: WEIGHT_def split: option.splits)
      show "(i, j) \<in> entries A \<Longrightarrow> (i, k) \<in> entries A" for i using sub col_facts(3) [OF A] by auto
    qed
    then have "shrunk w A (sm_delcol A j)" by (auto simp: shrunk_def sm_delcol_spec [OF A])
    then show ?thesis using e delcol_dims(1) [OF A j] by simp
  qed
  then show "shrunk w A (col_dominance_step w j A)"
    "col_dominance_step w j A = A \<or> col_dominance_step w j A = sm_delcol A j \<and> ncols (sm_delcol A j) < ncols A" by blast+
qed

lemma col_dominance_spec:
  assumes w: "pos_weights w" and A: "wf_sm A" and r: "sm_col_dominance A w = (n, A')"
  shows "shrunk w A A'" "n = 0 \<Longrightarrow> A' = A" "n > 0 \<Longrightarrow> ncols A' < ncols A"
proof -
  let ?ks = "map fst (sm_cols A)"
  have r': "A' = fold (col_dominance_step w) ?ks A" "n = ncols A - ncols A'" using r by (auto simp: sm_col_dominance_def Let_def)
  have "shrunk w B (fold (col_dominance_step w) ks B) \<and> (ncols (fold (col_dominance_step w) ks B) < ncols B \<or> fold (col_dominance_step w) ks B = B)"
    if "wf_sm B" "distinct ks" "set ks \<subseteq> snd ` entries B" for ks B
    using that
  proof (induction ks arbitrary: B)
    case (Cons j js)
    note B = Cons.prems(1)
    have j: "j \<in> snd ` entries B" "j \<notin> set js" "distinct js" "set js \<subseteq> snd ` entries B" using Cons.prems(2,3) by simp_all
    note s = col_step_spec [OF w B j(1)]
    let ?B = "col_dominance_step w j B"
    have B': "wf_sm ?B" using s(1) by (simp add: shrunk_def)
    have sub: "set js \<subseteq> snd ` entries ?B"
    proof (cases "?B = B")
      case False
      then have "?B = sm_delcol B j" using s(2) by blast
      then show ?thesis using j(2,4) sm_delcol_spec(2) [OF B] by (force simp: image_iff)
    qed (use j in simp)
    have m: "?B = B \<or> ncols ?B < ncols B" using s(2) by auto
    show ?case using Cons.IH [OF B' j(3) sub] shrunk_trans [OF B s(1)] m shrunk_dims(2) [OF B'] by force
  qed (simp add: shrunk_refl)
  from this [OF A] have s: "shrunk w A A' \<and> (ncols A' < ncols A \<or> A' = A)"
    using wf_headersD(2) [OF wf_smD(2) [OF A]] keys_entries(2) [OF A] unfolding r'(1) by simp
  show "shrunk w A A'" "n = 0 \<Longrightarrow> A' = A" "n > 0 \<Longrightarrow> ncols A' < ncols A" using s r'(2) by auto
qed

lemma essentials_of_spec:
  assumes A: "wf_sm A"
  shows "asc (essentials_of A)" "set (essentials_of A) = {j. \<exists>i. row A i = [j]}"
proof -
  define f where "f prow essen = (if length (snd prow) = 1 then sm_row_insert essen (hd (snd prow)) else essen)"
    for prow :: "nat \<times> nat list" and essen
  have "asc (fold f hs es) \<and> set (fold f hs es) = set es \<union> {j. \<exists>i. (i, [j]) \<in> set hs}" if "asc es" for hs :: headers and es
    using that
  proof (induction hs arbitrary: es)
    case (Cons h hs)
    obtain i l where h: "h = (i, l)" by (cases h)
    show ?case
    proof (cases "length l = 1")
      case True
      then obtain j where l: "l = [j]" unfolding One_nat_def length_Suc_conv by blast
      show ?thesis using Cons.IH [of "sm_row_insert es j"] row_insert_set [OF Cons.prems, of j] by (auto simp: h l f_def)
    next
      case False
      then show ?thesis using Cons by (auto simp: h f_def)
    qed
  qed simp
  from this [of "[]" "sm_rows A"]
  have e: "asc (essentials_of A)" "set (essentials_of A) = {j. \<exists>i. (i, [j]) \<in> set (sm_rows A)}"
    by (simp_all add: essentials_of_def f_def [abs_def])
  show "asc (essentials_of A)" by (rule e(1))
  show "set (essentials_of A) = {j. \<exists>i. row A i = [j]}"
    unfolding e(2) header_in [OF wf_smD(1) [OF A]] by (auto simp: eq_commute)
qed

lemma accept_shrinks:
  assumes w: "pos_weights w" and A: "wf_sm A" and s: "asc (sol_row s)" and i: "row A i = [j]"
    and r: "solution_accept s A w j = (s', A')"
  shows "wf_sm A'" "entries A' \<subseteq> entries A" "reduces w (entries A) {j} (entries A')" "grows w s {j} s'"
    "nrows A' < nrows A" "ncols A' \<le> ncols A" "row A k = [m] \<Longrightarrow> m \<noteq> j \<Longrightarrow> row A' k = [m]"
proof -
  have ij: "(i, j) \<in> entries A" and only: "\<And>k. (i, k) \<in> entries A \<Longrightarrow> k = j" using i row_facts(3) [OF A, of i] by auto
  have j: "j \<in> snd ` entries A" using ij by force
  note a = accept_spec [OF A s j r]
  show "wf_sm A'" "grows w s {j} s'" by (rule a)+
  show sub: "entries A' \<subseteq> entries A" using a(2) by auto
  show "reduces w (entries A) {j} (entries A')"
    unfolding a(2) by (rule essential_column [OF w finite_entries [OF A] ij only])
  have "i \<notin> fst ` entries A'" unfolding a(2) using ij by auto
  then have "fst ` entries A' \<subset> fst ` entries A" using sub ij by force
  then show "nrows A' < nrows A"
    unfolding dimensions(1) [OF A] dimensions(1) [OF a(1)] using finite_entries [OF A] by (simp add: psubset_card_mono)
  show "ncols A' \<le> ncols A"
    unfolding dimensions(2) [OF A] dimensions(2) [OF a(1)] using finite_entries [OF A] sub by (simp add: card_mono image_mono)
  show "row A' k = [m]" if k: "row A k = [m]" "m \<noteq> j"
  proof (rule asc_unique [OF row_facts(1) [OF a(1)]])
    show "set (row A' k) = set [m]"
      using k row_facts(3) [OF A, of k] unfolding row_facts(3) [OF a(1)] a(2) by auto
  qed simp
qed

lemma accept_all_spec:
  assumes w: "pos_weights w" and "wf_sm A" "asc (sol_row s)" "distinct js" "\<forall>j\<in>set js. \<exists>i. row A i = [j]"
    and "accept_all w bound js A s = (stop, A', s')"
  shows "\<exists>Y. wf_sm A' \<and> entries A' \<subseteq> entries A \<and> reduces w (entries A) Y (entries A') \<and> grows w s Y s'
    \<and> nrows A' \<le> nrows A \<and> ncols A' \<le> ncols A \<and> (stop \<longrightarrow> bound \<le> sol_cost s')
    \<and> (js \<noteq> [] \<longrightarrow> nrows A' < nrows A) \<and> (js = [] \<longrightarrow> A' = A \<and> s' = s \<and> \<not> stop)"
  using assms(2-)
proof (induction js arbitrary: A s)
  case Nil
  then show ?case using grows_refl by (intro exI [of _ "{}"]) auto
next
  case (Cons j js)
  note A = Cons.prems(1)
  obtain i where i: "row A i = [j]" using Cons.prems(4) by auto
  obtain t B where t: "solution_accept s A w j = (t, B)" by (cases "solution_accept s A w j")
  note a = accept_shrinks [OF w A Cons.prems(2) i t]
  have g: "asc (sol_row t)" using a(4) by (simp add: grows_def)
  show ?case
  proof (cases "bound \<le> sol_cost t")
    case True
    then have "A' = B" "s' = t" "stop" using Cons.prems(5) t by simp_all
    then show ?thesis using a True by (intro exI [of _ "{j}"]) auto
  next
    case False
    then have r: "accept_all w bound js B t = (stop, A', s')" using Cons.prems(5) t by simp
    have ess: "\<forall>m\<in>set js. \<exists>i. row B i = [m]" using a(7) Cons.prems(3,4) by (metis distinct.simps(2) list.set_intros(2))
    obtain Y where Y: "wf_sm A'" "entries A' \<subseteq> entries B" "reduces w (entries B) Y (entries A')" "grows w t Y s'"
      "nrows A' \<le> nrows B" "ncols A' \<le> ncols B" "stop \<longrightarrow> bound \<le> sol_cost s'"
      using Cons.IH [OF a(1) g _ ess r] Cons.prems(3) by auto
    have fin: "finite (entries A)" "finite (entries B)" using finite_entries A a(1) by blast+
    have "reduces w (entries A) ({j} \<union> Y) (entries A')" by (rule reduces_trans [OF a(3) Y(3) fin(1)])
    moreover have "grows w s ({j} \<union> Y) s'"
    proof (rule grows_trans [OF a(4) Y(4)])
      show "finite Y" using reducesD(7) [OF Y(3) fin(2)] .
      show "{j} \<inter> Y = {}" using reducesD(4) [OF a(3)] reducesD(3) [OF Y(3)] by auto
    qed simp
    ultimately show ?thesis using Y a by (intro exI [of _ "{j} \<union> Y"]) auto
  qed
qed

definition tidy :: "sm_matrix \<Rightarrow> bool" where
  "tidy A \<longleftrightarrow> row_minimal (entries A) \<and> (\<forall>i\<in>fst ` entries A. 2 \<le> length (row A i))"

lemma select_essential_spec:
  assumes w: "pos_weights w" and "wf_sm A" "asc (sol_row s)" "nrows A + ncols A < n"
  shows "\<exists>A' s' Y. select_essential n A s w bound = Inr (A', s') \<and> wf_sm A' \<and> entries A' \<subseteq> entries A
    \<and> reduces w (entries A) Y (entries A') \<and> grows w s Y s' \<and> nrows A' \<le> nrows A \<and> ncols A' \<le> ncols A
    \<and> (sol_cost s' < bound \<longrightarrow> tidy A')"
  using assms(2-)
proof (induction n arbitrary: A s)
  case (Suc n)
  note A = Suc.prems(1) and s = Suc.prems(2)
  obtain dc B where dc: "sm_col_dominance A w = (dc, B)" by (cases "sm_col_dominance A w")
  note c = col_dominance_spec [OF w A dc]
  have B: "wf_sm B" "entries B \<subseteq> entries A" "reduces w (entries A) {} (entries B)" using c(1) by (simp_all add: shrunk_def)
  note E = essentials_of_spec [OF B(1)]
  obtain stop D t where acc: "accept_all w bound (essentials_of B) B s = (stop, D, t)"
    by (cases "accept_all w bound (essentials_of B) B s")
  obtain Y where Y: "wf_sm D" "entries D \<subseteq> entries B" "reduces w (entries B) Y (entries D)" "grows w s Y t"
    "nrows D \<le> nrows B" "ncols D \<le> ncols B" "stop \<longrightarrow> bound \<le> sol_cost t"
    "essentials_of B \<noteq> [] \<longrightarrow> nrows D < nrows B" "essentials_of B = [] \<longrightarrow> D = B \<and> t = s \<and> \<not> stop"
    using accept_all_spec [OF w B(1) s asc_distinct [OF E(1)] _ acc] E(2) by blast
  note dB = shrunk_dims [OF A c(1)]
  have red: "reduces w (entries A) Y (entries D)" using reduces_trans [OF B(3) Y(3) finite_entries [OF A]] by simp
  obtain dr F where dr: "sm_row_dominance D = (dr, F)" by (cases "sm_row_dominance D")
  note r = row_dominance_spec [OF w Y(1) dr]
  have F: "wf_sm F" "entries F \<subseteq> entries D" "reduces w (entries D) {} (entries F)" using r(1) by (simp_all add: shrunk_def)
  note dF = shrunk_dims [OF Y(1) r(1)]
  have redF: "reduces w (entries A) Y (entries F)" using reduces_trans [OF red F(3) finite_entries [OF A]] by simp
  have t: "asc (sol_row t)" using Y(4) by (simp add: grows_def)
  consider (stop) "stop" | (again) "\<not> stop" "0 < dc \<or> 0 < dr \<or> essentials_of B \<noteq> []"
    | (fixed) "\<not> stop" "dc = 0" "dr = 0" "essentials_of B = []" by auto
  then show ?case
  proof cases
    case stop
    then have "select_essential (Suc n) A s w bound = Inr (D, t)" using dc acc by simp
    then show ?thesis using Y red B dB stop by (intro exI [of _ D] exI [of _ t] exI [of _ Y]) auto
  next
    case again
    have less: "nrows F + ncols F < nrows A + ncols A"
    proof -
      consider "0 < dc" | "0 < dr" | "essentials_of B \<noteq> []" using again(2) by blast
      then show ?thesis using c(3) r(3) Y(5,6,8) dB dF by cases auto
    qed
    then have n: "nrows F + ncols F < n" using Suc.prems(3) by simp
    obtain A' s' Z where Z: "select_essential n F t w bound = Inr (A', s')" "wf_sm A'" "entries A' \<subseteq> entries F"
      "reduces w (entries F) Z (entries A')" "grows w t Z s'" "nrows A' \<le> nrows F" "ncols A' \<le> ncols F"
      "sol_cost s' < bound \<longrightarrow> tidy A'" using Suc.IH [OF F(1) t n] by blast
    have e: "select_essential (Suc n) A s w bound = Inr (A', s')" using dc acc dr again Z(1) by auto
    have fin: "finite Y" "finite Z" using reducesD(7) [OF red finite_entries [OF A]] reducesD(7) [OF Z(4) finite_entries [OF F(1)]] .
    have "Y \<inter> Z = {}" using reducesD(4) [OF redF] reducesD(3) [OF Z(4)] by fast
    from grows_trans [OF Y(4) Z(5) fin this] reduces_trans [OF redF Z(4) finite_entries [OF A]]
    show ?thesis using e Z B(2) Y(2) F(2) dB dF Y(5,6) by (intro exI [of _ A'] exI [of _ s'] exI [of _ "Y \<union> Z"]) auto
  next
    case fixed
    have "F = D" "D = B" "B = A" "t = s" using fixed c(2) r(2) Y(9) by simp_all
    then have same: "F = A" by simp
    have e: "select_essential (Suc n) A s w bound = Inr (F, t)" using dc acc dr fixed by simp
    have "2 \<le> length (row A i)" if i: "i \<in> fst ` entries A" for i
    proof (rule ccontr)
      assume "\<not> 2 \<le> length (row A i)"
      moreover have "row A i \<noteq> []" using i row_facts(4) [OF A] by blast
      ultimately have "length (row A i) = Suc 0" by (simp add: not_le less_2_cases_iff)
      then obtain j where "row A i = [j]" unfolding length_Suc_conv by auto
      then have "j \<in> set (essentials_of B)" using E(2) \<open>B = A\<close> by blast
      then show False using fixed(4) by simp
    qed
    moreover have "row_minimal (entries A)" using r(2) fixed(3) same \<open>D = B\<close> \<open>B = A\<close> by simp
    ultimately have "tidy F" unfolding tidy_def same by blast
    then show ?thesis using e redF F B(2) Y(2,4) dB dF Y(5,6) by (intro exI [of _ F] exI [of _ t] exI [of _ Y]) auto
  qed
qed simp

section \<open>Independent rows\<close>

definition meets :: "(nat \<times> nat) set \<Rightarrow> nat \<Rightarrow> nat \<Rightarrow> bool" where
  "meets E i r \<longleftrightarrow> (\<exists>j. (i, j) \<in> E \<and> (r, j) \<in> E)"

lemma intersection_inner:
  assumes "wf_sm B" "\<forall>r\<in>set seen. (i, r) \<in> entries B"
    and "fold (\<lambda>r (B, seen). if r \<notin> set seen then (sm_insert B i r, r # seen) else (B, seen)) rs (B, seen) = (B', seen')"
  shows "wf_sm B' \<and> entries B' = entries B \<union> {i} \<times> set rs \<and> (\<forall>r\<in>set seen'. (i, r) \<in> entries B')"
  using assms
proof (induction rs arbitrary: B seen)
  case (Cons r rs)
  show ?case
  proof (cases "r \<in> set seen")
    case True
    then show ?thesis using Cons.IH [OF Cons.prems(1,2)] Cons.prems(2,3) by auto
  next
    case False
    note s = sm_insert_spec [OF Cons.prems(1), of i r]
    have "\<forall>q\<in>set (r # seen). (i, q) \<in> entries (sm_insert B i r)" using Cons.prems(2) s(2) by auto
    from Cons.IH [OF s(1) this] show ?thesis using Cons.prems(3) False s(2) by auto
  qed
qed simp

lemma intersection_row:
  assumes A: "wf_sm A" and "wf_sm B" "\<forall>r\<in>set seen. (i, r) \<in> entries B" "set js \<subseteq> snd ` entries A"
    and "fold (\<lambda>j st. fold (\<lambda>r (B, seen). if r \<notin> set seen then (sm_insert B i r, r # seen) else (B, seen))
           (the (sm_get_col A j)) st) js (B, seen) = (B', seen')"
  shows "wf_sm B' \<and> entries B' = entries B \<union> {i} \<times> {r. \<exists>j\<in>set js. (r, j) \<in> entries A}"
  using assms(2-)
proof (induction js arbitrary: B seen)
  case (Cons j js)
  have get: "the (sm_get_col A j) = col A j" using col_facts(5) [OF A] Cons.prems(3) by simp
  obtain D sn where D: "fold (\<lambda>r (B, seen). if r \<notin> set seen then (sm_insert B i r, r # seen) else (B, seen)) (col A j) (B, seen) = (D, sn)"
    by (cases "fold (\<lambda>r (B, seen). if r \<notin> set seen then (sm_insert B i r, r # seen) else (B, seen)) (col A j) (B, seen)")
  note d = intersection_inner [OF Cons.prems(1,2) D]
  have "wf_sm B' \<and> entries B' = entries D \<union> {i} \<times> {r. \<exists>j\<in>set js. (r, j) \<in> entries A}"
    by (rule Cons.IH [of D sn]) (use d Cons.prems D get in auto)
  then show ?case using d col_facts(3) [OF A, of j] by auto
qed auto

lemma intersection_spec:
  assumes A: "wf_sm A"
  shows "wf_sm (build_intersection_matrix A)" "entries (build_intersection_matrix A) = {(i, r). meets (entries A) i r}"
proof -
  define step where "step = (\<lambda>(i :: nat, prow) B. fst (fold (\<lambda>j st.
         fold (\<lambda>r (B, seen). if r \<notin> set seen then (sm_insert B i r, r # seen) else (B, seen))
           (the (sm_get_col A j)) st) prow (B, [])))"
  have e: "build_intersection_matrix A = fold step (sm_rows A) sm_alloc"
    by (simp add: build_intersection_matrix_def step_def)
  have "wf_sm (fold step hs B) \<and> entries (fold step hs B) = entries B \<union> {(i, r). i \<in> fst ` set hs \<and> meets (entries A) i r}"
    if "wf_sm B" "set hs \<subseteq> set (sm_rows A)" for hs B
    using that
  proof (induction hs arbitrary: B)
    case (Cons h hs)
    obtain i l where h: "h = (i, l)" by (cases h)
    have l: "l = row A i" using header_row [OF A, of h] Cons.prems(2) h by simp
    have "set l \<subseteq> snd ` entries A" using row_facts(3) [OF A] unfolding l by force
    note r = intersection_row [OF A Cons.prems(1) _ this, of "[]" i]
    obtain B' sn where f: "fold (\<lambda>j st. fold (\<lambda>r (B, seen). if r \<notin> set seen then (sm_insert B i r, r # seen) else (B, seen))
           (the (sm_get_col A j)) st) l (B, []) = (B', sn)" by fastforce
    have B': "step h B = B'" using f by (simp add: step_def h)
    have "wf_sm (step h B) \<and> entries (step h B) = entries B \<union> {i} \<times> {r. \<exists>j\<in>set l. (r, j) \<in> entries A}"
      unfolding B' using r [OF _ f] by simp
    moreover have "{r. \<exists>j\<in>set l. (r, j) \<in> entries A} = {r. meets (entries A) i r}"
      using row_facts(3) [OF A] unfolding l meets_def by auto
    ultimately have s: "wf_sm (step h B)" "entries (step h B) = entries B \<union> {i} \<times> {r. meets (entries A) i r}" by simp_all
    show ?case using Cons.IH [OF s(1)] Cons.prems(2) s(2) h by auto
  qed auto
  from this [OF sm_alloc_wf(1) order_refl]
  have f: "wf_sm (build_intersection_matrix A)"
    "entries (build_intersection_matrix A) = {(i, r). i \<in> fst ` set (sm_rows A) \<and> meets (entries A) i r}" by (simp_all add: e)
  show "wf_sm (build_intersection_matrix A)" by (rule f(1))
  show "entries (build_intersection_matrix A) = {(i, r). meets (entries A) i r}"
    unfolding f(2) keys_entries(1) [OF A] by (force simp: meets_def)
qed

lemma least_weight_le:
  assumes A: "wf_sm A" and j: "(i, j) \<in> entries A"
  shows "least_weight A w i \<le> WEIGHT w j"
proof (cases w)
  case (Some f)
  have g: "the (sm_get_row A i) = row A i" using row_facts(5) [OF A] j by force
  have "fold (\<lambda>j least. if f j < least then f j else least) js l \<le> l
      \<and> (\<forall>j\<in>set js. fold (\<lambda>j least. if f j < least then f j else least) js l \<le> f j)" for js l
  proof (induction js arbitrary: l)
    case (Cons a js)
    show ?case using Cons [of l] Cons [of "f a"] by auto
  qed simp
  from this [of "tl (row A i)" "f (hd (row A i))"]
  moreover have "j \<in> set (row A i)" using j row_facts(3) [OF A, of i] by simp
  ultimately show ?thesis using Some g by (cases "row A i") (auto simp: least_weight_def WEIGHT_def)
qed (simp add: least_weight_def WEIGHT_def)

lemma shortest_in: "hs \<noteq> [] \<Longrightarrow> shortest hs \<in> set hs"
proof -
  have "fold (\<lambda>h best. if length (snd h) < length (snd best) then h else best) hs b \<in> insert b (set hs)" for hs :: headers and b
  proof (induction hs arbitrary: b)
    case (Cons h hs)
    show ?case using Cons [of h] Cons [of b] by auto
  qed simp
  from this [of "tl hs" "hd hs"] show "hs \<noteq> [] \<Longrightarrow> shortest hs \<in> set hs" by (cases hs) (auto simp: shortest_def)
qed

lemma drop_rows_cols:
  assumes "wf_sm B"
  shows "wf_sm (fold (\<lambda>p B. sm_delcol (sm_delrow B p) p) ps B)"
    "entries (fold (\<lambda>p B. sm_delcol (sm_delrow B p) p) ps B) = {e \<in> entries B. fst e \<notin> set ps \<and> snd e \<notin> set ps}"
proof -
  have "wf_sm (fold (\<lambda>p B. sm_delcol (sm_delrow B p) p) ps B) \<and>
    entries (fold (\<lambda>p B. sm_delcol (sm_delrow B p) p) ps B) = {e \<in> entries B. fst e \<notin> set ps \<and> snd e \<notin> set ps}"
    using assms
  proof (induction ps arbitrary: B)
    case (Cons p ps)
    note r = sm_delrow_spec [OF Cons.prems, of p]
    note c = sm_delcol_spec [OF r(1), of p]
    show ?case using Cons.IH [OF c(1)] c(2) r(2) by auto
  qed simp
  then show "wf_sm (fold (\<lambda>p B. sm_delcol (sm_delrow B p) p) ps B)"
    "entries (fold (\<lambda>p B. sm_delcol (sm_delrow B p) p) ps B) = {e \<in> entries B. fst e \<notin> set ps \<and> snd e \<notin> set ps}" by blast+
qed

text \<open>Rows chosen so far have no column in common, with one another and with the rows that are left.\<close>

definition independent :: "sm_matrix \<Rightarrow> weights \<Rightarrow> nat set \<Rightarrow> solution \<Rightarrow> bool" where
  "independent A w S s \<longleftrightarrow> asc (sol_row s) \<and> set (sol_row s) \<subseteq> fst ` entries A
     \<and> (\<forall>i\<in>set (sol_row s). \<forall>r\<in>set (sol_row s) \<union> S. meets (entries A) i r \<longrightarrow> r = i)
     \<and> sol_cost s = (\<Sum>i\<in>set (sol_row s). least_weight A w i)"

lemma indep_loop_spec:
  assumes A: "wf_sm A" and "wf_sm B" "entries B = {(i, r). i \<in> S \<and> r \<in> S \<and> meets (entries A) i r}" "S \<subseteq> fst ` entries A"
    "independent A w S s" "set (sol_row s) \<inter> S = {}" "nrows B \<le> n"
  shows "\<exists>s'. indep_loop n A w B s = Inr s' \<and> independent A w {} s' \<and> (S \<noteq> {} \<or> sol_row s \<noteq> [] \<longrightarrow> sol_row s' \<noteq> [])"
  using assms(2-)
proof (induction n arbitrary: B S s)
  case 0
  have self: "i \<in> S \<Longrightarrow> (i, i) \<in> entries B" for i using 0(2,3) by (force simp: meets_def)
  have "nrows B = 0" using 0(6) by simp
  then have "fst ` entries B = {}" using dimensions(1) [OF 0(1)] finite_entries [OF 0(1)] by simp
  then have "S = {}" using self by force
  then show ?case using \<open>nrows B = 0\<close> 0(4) by (simp add: indep_loop.simps)
next
  case (Suc n)
  note B = Suc.prems(1) and eB = Suc.prems(2) and S = Suc.prems(3) and ind = Suc.prems(4)
  have self: "i \<in> S \<Longrightarrow> (i, i) \<in> entries B" for i using eB S by (force simp: meets_def)
  have keys: "fst ` entries B = S" using self eB by force
  show ?case
  proof (cases "nrows B = 0")
    case True
    moreover have "finite S" unfolding keys [symmetric] using finite_entries [OF B] by simp
    ultimately have "S = {}" using keys dimensions(1) [OF B] by simp
    then show ?thesis using True ind by (simp add: indep_loop.simps)
  next
    case False
    obtain b l where bl: "shortest (sm_rows B) = (b, l)" by (cases "shortest (sm_rows B)")
    have "(b, l) \<in> set (sm_rows B)" using shortest_in [of "sm_rows B"] False bl by auto
    then have b: "l = row B b" "b \<in> S" using header_row [OF B] keys by auto
    have save: "sm_row_dup l = l" "set l = {r \<in> S. meets (entries A) b r}"
      using row_dup_eq row_facts(1,3) [OF B] b eB by auto
    define t where "t = \<lparr>sol_row = sm_row_insert (sol_row s) b, sol_cost = sol_cost s + least_weight A w b\<rparr>"
    define D where "D = fold (\<lambda>p B. sm_delcol (sm_delrow B p) p) l B"
    note d = drop_rows_cols [OF B, of l, folded D_def]
    let ?S = "S - set l"
    have bS: "b \<in> set l" using b(2) self eB save(2) by auto
    have bn: "b \<notin> set (sol_row s)" using b(2) Suc.prems(5) by blast
    have srt: "asc (sol_row s)" using ind by (simp add: independent_def)
    have st: "set (sol_row t) = insert b (set (sol_row s))" "asc (sol_row t)" using row_insert_set [OF srt] by (simp_all add: t_def)
    have eD: "entries D = {(i, r). i \<in> ?S \<and> r \<in> ?S \<and> meets (entries A) i r}" unfolding d(2) eB by auto
    have ind': "independent A w ?S t"
      unfolding independent_def
    proof (intro conjI)
      show "asc (sol_row t)" by (rule st(2))
      show "set (sol_row t) \<subseteq> fst ` entries A" using st(1) ind b(2) S by (auto simp: independent_def)
      show "sol_cost t = (\<Sum>i\<in>set (sol_row t). least_weight A w i)"
        using ind bn unfolding st(1) by (simp add: independent_def t_def)
      show "\<forall>i\<in>set (sol_row t). \<forall>r\<in>set (sol_row t) \<union> ?S. meets (entries A) i r \<longrightarrow> r = i"
      proof (intro ballI impI)
        fix i r assume i: "i \<in> set (sol_row t)" and r: "r \<in> set (sol_row t) \<union> ?S" and m: "meets (entries A) i r"
        have sym: "meets (entries A) r i" using m by (auto simp: meets_def)
        have old: "\<And>i r. i \<in> set (sol_row s) \<Longrightarrow> r \<in> set (sol_row s) \<union> S \<Longrightarrow> meets (entries A) i r \<Longrightarrow> r = i"
          using ind by (simp add: independent_def)
        consider "i \<in> set (sol_row s)" "r \<in> set (sol_row s) \<union> S" | "i = b" "r \<in> set (sol_row s)" | "i = b" "r = b" | "i = b" "r \<in> ?S"
          | "i \<in> set (sol_row s)" "r = b" using i r st(1) by blast
        then show "r = i"
        proof cases
          case 1 then show ?thesis using old m by blast
        next
          case 2 then show ?thesis using old [of r b] sym b(2) by blast
        next
          case 4 then show ?thesis using m save(2) by blast
        next
          case 5 then show ?thesis using old m b(2) by blast
        qed simp
      qed
    qed
    have dis: "set (sol_row t) \<inter> ?S = {}" unfolding st(1) disjoint_iff using Suc.prems(5) [unfolded disjoint_iff] bS by simp
    have kD: "fst ` entries D \<subset> fst ` entries B"
    proof
      show "fst ` entries D \<subseteq> fst ` entries B" unfolding d(2) by auto
      have "b \<in> fst ` entries B" "b \<notin> fst ` entries D" using keys b(2) bS unfolding d(2) by auto
      then show "fst ` entries D \<noteq> fst ` entries B" by blast
    qed
    have "nrows D < nrows B" unfolding dimensions(1) [OF B] dimensions(1) [OF d(1)]
      by (rule psubset_card_mono [OF _ kD]) (use finite_entries [OF B] in simp)
    then have n: "nrows D \<le> n" using Suc.prems(6) by simp
    have sub: "?S \<subseteq> fst ` entries A" using S by blast
    obtain s' where s': "indep_loop n A w D t = Inr s'" "independent A w {} s'" "?S \<noteq> {} \<or> sol_row t \<noteq> [] \<longrightarrow> sol_row s' \<noteq> []"
      using Suc.IH [OF d(1) eD sub ind' dis n] by blast
    have "indep_loop (Suc n) A w B s = Inr s'"
      using s'(1) False bl save(1) by (simp add: indep_loop.simps [of "Suc n"] t_def D_def Let_def)
    moreover have "sol_row t \<noteq> []" using st(1) by auto
    ultimately show ?thesis using s' by simp
  qed
qed

lemma independent_bound:
  assumes A: "wf_sm A" and w: "pos_weights w" and s: "independent A w {} s"
  shows "sol_cost s \<le> opt w (entries A)"
proof -
  let ?I = "set (sol_row s)"
  obtain X where X: "X \<subseteq> snd ` entries A" "hits (entries A) X" "cost w X = opt w (entries A)" by (rule opt_ex [OF finite_entries [OF A]])
  have "\<forall>i\<in>?I. \<exists>j. j \<in> X \<and> (i, j) \<in> entries A" using s X(2) unfolding independent_def hits_def by blast
  then obtain f where f: "\<And>i. i \<in> ?I \<Longrightarrow> f i \<in> X \<and> (i, f i) \<in> entries A" by metis
  have inj: "inj_on f ?I"
  proof (rule inj_onI)
    fix i r assume i: "i \<in> ?I" "r \<in> ?I" "f i = f r"
    then have "meets (entries A) i r" using f [of i] f [of r] unfolding meets_def by metis
    then show "i = r" using s i unfolding independent_def by blast
  qed
  have "sol_cost s = (\<Sum>i\<in>?I. least_weight A w i)" using s by (simp add: independent_def)
  also have "\<dots> \<le> (\<Sum>i\<in>?I. WEIGHT w (f i))" by (rule sum_mono) (use f least_weight_le [OF A] in blast)
  also have "\<dots> = cost w (f ` ?I)" unfolding cost_def by (simp add: sum.reindex [OF inj] o_def)
  also have "\<dots> \<le> cost w X"
  proof (rule cost_mono [OF w])
    show "finite X" using finite_subset [OF X(1)] finite_entries [OF A] by simp
    show "f ` ?I \<subseteq> X" using f by blast
  qed
  finally show ?thesis using X(3) by simp
qed

lemma independent_set_spec:
  assumes A: "wf_sm A" and w: "pos_weights w"
  shows "\<exists>s. sm_maximal_independent_set A w = Inr s \<and> sol_cost s \<le> opt w (entries A)
    \<and> set (sol_row s) \<subseteq> fst ` entries A \<and> (entries A \<noteq> {} \<longrightarrow> sol_row s \<noteq> [])"
proof -
  let ?B = "build_intersection_matrix A"
  note B = intersection_spec [OF A]
  have e: "entries ?B = {(i, r). i \<in> fst ` entries A \<and> r \<in> fst ` entries A \<and> meets (entries A) i r}"
    unfolding B(2) by (force simp: meets_def)
  have "independent A w (fst ` entries A) solution_alloc" by (simp add: independent_def solution_alloc_def)
  from indep_loop_spec [OF A B(1) e order_refl this, of "nrows ?B"]
  obtain s where s: "indep_loop (nrows ?B) A w ?B solution_alloc = Inr s" "independent A w {} s"
    "fst ` entries A \<noteq> {} \<longrightarrow> sol_row s \<noteq> []" by (auto simp: solution_alloc_def)
  show ?thesis
    using s independent_bound [OF A w s(2)] by (auto simp: sm_maximal_independent_set_def Let_def independent_def)
qed

end
