(* ===== verification/Branch.thy ===== *)
theory Branch
  imports Mincov Complex_Main
begin

text \<open>
  The correctness of the branch and bound (\<^verbatim>\<open>sm_mincov\<close>): the search for components, Gimpel's reduction, the choice of
  a column, and how the answer for the whole follows from the answers of the recursive calls.
\<close>


section \<open>Components\<close>

definition visit_ok :: "sm_matrix \<Rightarrow> visit \<Rightarrow> bool" where
  "visit_ok A s \<longleftrightarrow> distinct (fst s) \<and> distinct (snd s) \<and> set (fst s) \<subseteq> fst ` entries A \<and> set (snd s) \<subseteq> snd ` entries A
     \<and> length (fst s) < nrows A \<and> length (snd s) < ncols A"

text \<open>What was flagged in between has all its neighbours flagged.\<close>

definition explored :: "sm_matrix \<Rightarrow> visit \<Rightarrow> visit \<Rightarrow> bool" where
  "explored A s s' \<longleftrightarrow> visit_ok A s' \<and> set (fst s) \<subseteq> set (fst s') \<and> set (snd s) \<subseteq> set (snd s')
     \<and> (\<forall>(i, j)\<in>entries A. (i \<in> set (fst s') - set (fst s) \<longrightarrow> j \<in> set (snd s')) \<and> (j \<in> set (snd s') - set (snd s) \<longrightarrow> i \<in> set (fst s')))"

lemma explored_refl: "visit_ok A s \<Longrightarrow> explored A s s"
  by (simp add: explored_def)

lemma explored_trans:
  assumes "explored A s t" "explored A t u"
  shows "explored A s u"
  using assms unfolding explored_def by (fastforce split: prod.splits)

lemma exploredD:
  assumes "explored A s t"
  shows "visit_ok A t" "set (fst s) \<subseteq> set (fst t)" "set (snd s) \<subseteq> set (snd t)"
    "(i, j) \<in> entries A \<Longrightarrow> i \<in> set (fst t) \<Longrightarrow> i \<notin> set (fst s) \<Longrightarrow> j \<in> set (snd t)"
    "(i, j) \<in> entries A \<Longrightarrow> j \<in> set (snd t) \<Longrightarrow> j \<notin> set (snd s) \<Longrightarrow> i \<in> set (fst t)"
  using assms unfolding explored_def by fast+

lemma explored_row:
  assumes e: "explored A (i # fst s, snd s) t" and j: "\<And>j. (i, j) \<in> entries A \<Longrightarrow> j \<in> set (snd t)"
  shows "explored A s t" "i \<in> set (fst t)"
proof -
  note d = exploredD [OF e, simplified]
  show "i \<in> set (fst t)" using d(2) by simp
  have "k \<in> set (snd t)" if "(r, k) \<in> entries A" "r \<in> set (fst t)" "r \<notin> set (fst s)" for r k
    by (cases "r = i") (use j d(4) that in auto)
  then show "explored A s t" using d(1,2,3,5) unfolding explored_def by blast
qed

lemma explored_col:
  assumes e: "explored A (fst s, j # snd s) t" and i: "\<And>i. (i, j) \<in> entries A \<Longrightarrow> i \<in> set (fst t)"
  shows "explored A s t" "j \<in> set (snd t)"
proof -
  note d = exploredD [OF e, simplified]
  show "j \<in> set (snd t)" using d(3) by simp
  have "r \<in> set (fst t)" if "(r, k) \<in> entries A" "k \<in> set (snd t)" "k \<notin> set (snd s)" for r k
    by (cases "k = j") (use i d(5) that in auto)
  then show "explored A s t" using d(1,2,3,4) unfolding explored_def by blast
qed

definition unvisited :: "sm_matrix \<Rightarrow> visit \<Rightarrow> nat" where
  "unvisited A s = nrows A + ncols A - (length (fst s) + length (snd s))"

lemma unvisited_mono:
  assumes "explored A s t" "visit_ok A s"
  shows "unvisited A t \<le> unvisited A s"
proof -
  have "length (fst s) \<le> length (fst t)" "length (snd s) \<le> length (snd t)"
    using assms card_mono [of "set (fst t)" "set (fst s)"] card_mono [of "set (snd t)" "set (snd s)"]
    by (auto simp: explored_def visit_ok_def distinct_card)
  then show ?thesis by (simp add: unvisited_def diff_le_mono2)
qed

lemma visit_all_spec:
  assumes flags: "flags = fst \<or> flags = snd"
    and visit: "\<And>k s. k \<in> set ks \<Longrightarrow> visit_ok A s \<Longrightarrow> unvisited A s < n \<Longrightarrow>
      \<exists>stop s'. visit k s = Inr (stop, s') \<and> (\<not> stop \<longrightarrow> explored A s s' \<and> k \<in> set (flags s'))"
    and s: "visit_ok A s" "unvisited A s < n"
  shows "\<exists>stop s'. visit_all flags visit ks s = Inr (stop, s') \<and> (\<not> stop \<longrightarrow> explored A s s' \<and> set ks \<subseteq> set (flags s'))"
  using visit s
proof (induction ks arbitrary: s)
  case (Cons k ks)
  have mono: "set (flags t) \<subseteq> set (flags u)" if "explored A t u" for t u using flags that by (auto simp: explored_def)
  show ?case
  proof (cases "k \<in> set (flags s)")
    case True
    obtain stop s' where "visit_all flags visit ks s = Inr (stop, s')" "\<not> stop \<longrightarrow> explored A s s' \<and> set ks \<subseteq> set (flags s')"
      using Cons.IH [OF Cons.prems(1) Cons.prems(2,3)] by auto
    then show ?thesis using True mono [of s s'] by auto
  next
    case False
    obtain stop t where t: "visit k s = Inr (stop, t)" "\<not> stop \<longrightarrow> explored A s t \<and> k \<in> set (flags t)"
      using Cons.prems(1) [of k s] Cons.prems(2,3) by auto
    show ?thesis
    proof (cases stop)
      case True
      then show ?thesis using t False by auto
    next
      case stop: False
      then have e: "explored A s t" "k \<in> set (flags t)" using t(2) by blast+
      have "visit_ok A t" "unvisited A t < n"
        using e(1) unvisited_mono [OF e(1) Cons.prems(2)] Cons.prems(3) by (auto simp: explored_def)
      then obtain stop' u where u: "visit_all flags visit ks t = Inr (stop', u)" "\<not> stop' \<longrightarrow> explored A t u \<and> set ks \<subseteq> set (flags u)"
        using Cons.IH [of t] Cons.prems(1) by auto
      then show ?thesis using t(1) stop False explored_trans [OF e(1)] e(2) mono [of t u] by auto
    qed
  qed
qed (auto intro: explored_refl)

lemma visit_spec:
  assumes A: "wf_sm A"
  shows "i \<in> fst ` entries A \<Longrightarrow> visit_ok A s \<Longrightarrow> unvisited A s < n \<Longrightarrow>
      \<exists>stop s'. visit_row n A i s = Inr (stop, s') \<and> (\<not> stop \<longrightarrow> explored A s s' \<and> i \<in> set (fst s'))"
    "j \<in> snd ` entries A \<Longrightarrow> visit_ok A s \<Longrightarrow> unvisited A s < n \<Longrightarrow>
      \<exists>stop s'. visit_col n A j s = Inr (stop, s') \<and> (\<not> stop \<longrightarrow> explored A s s' \<and> j \<in> set (snd s'))"
proof (induction n arbitrary: i j s)
  case (Suc n)
  {
    case (1 i s)
    show ?case
    proof (cases "i \<in> set (fst s)")
      case True
      then show ?thesis using explored_refl [OF 1(2)] by (intro exI [of _ False] exI [of _ s]) simp
    next
      case False
      let ?t = "(i # fst s, snd s)"
      show ?thesis
      proof (cases "length (fst ?t) = nrows A")
        case True
        then show ?thesis using False by (intro exI [of _ True] exI [of _ ?t]) (simp add: Let_def)
      next
        case len: False
        have ok: "visit_ok A ?t" using 1(1,2) False len by (auto simp: visit_ok_def)
        have un: "unvisited A ?t < n" using 1(2,3) len by (auto simp: unvisited_def visit_ok_def)
        have get: "the (sm_get_row A i) = row A i" using row_facts(5) [OF A 1(1)] by simp
        have "\<exists>stop s'. visit_all snd (visit_col n A) (row A i) ?t = Inr (stop, s') \<and> (\<not> stop \<longrightarrow> explored A ?t s' \<and> set (row A i) \<subseteq> set (snd s'))"
        proof (rule visit_all_spec [OF _ _ ok un])
          fix k u assume "k \<in> set (row A i)" "visit_ok A u" "unvisited A u < n"
          moreover from this have "k \<in> snd ` entries A" using row_facts(3) [OF A] by force
          ultimately show "\<exists>stop s'. visit_col n A k u = Inr (stop, s') \<and> (\<not> stop \<longrightarrow> explored A u s' \<and> k \<in> set (snd s'))"
            using Suc.IH(2) by blast
        qed simp
        then obtain stop s' where s': "visit_all snd (visit_col n A) (row A i) ?t = Inr (stop, s')"
          "\<not> stop \<longrightarrow> explored A ?t s' \<and> set (row A i) \<subseteq> set (snd s')" by blast
        have imp: "explored A s s' \<and> i \<in> set (fst s')" if "\<not> stop"
        proof -
          have e: "explored A ?t s'" "set (row A i) \<subseteq> set (snd s')" using s'(2) that by blast+
          then have "(i, c) \<in> entries A \<Longrightarrow> c \<in> set (snd s')" for c using row_facts(3) [OF A] by auto
          then show ?thesis using explored_row [OF e(1)] by blast
        qed
        have "visit_row (Suc n) A i s = visit_all snd (visit_col n A) (row A i) ?t"
          unfolding visit_row.simps(2) get Let_def using False len by simp
        from trans [OF this s'(1)] show ?thesis using imp by blast
      qed
    qed
  next
    case (2 j s)
    show ?case
    proof (cases "j \<in> set (snd s)")
      case True
      then show ?thesis using explored_refl [OF 2(2)] by (intro exI [of _ False] exI [of _ s]) simp
    next
      case False
      let ?t = "(fst s, j # snd s)"
      show ?thesis
      proof (cases "length (snd ?t) = ncols A")
        case True
        then show ?thesis using False by (intro exI [of _ True] exI [of _ ?t]) (simp add: Let_def)
      next
        case len: False
        have ok: "visit_ok A ?t" using 2(1,2) False len by (auto simp: visit_ok_def)
        have un: "unvisited A ?t < n" using 2(2,3) len by (auto simp: unvisited_def visit_ok_def)
        have get: "the (sm_get_col A j) = col A j" using col_facts(5) [OF A 2(1)] by simp
        have "\<exists>stop s'. visit_all fst (visit_row n A) (col A j) ?t = Inr (stop, s') \<and> (\<not> stop \<longrightarrow> explored A ?t s' \<and> set (col A j) \<subseteq> set (fst s'))"
        proof (rule visit_all_spec [OF _ _ ok un])
          fix k u assume "k \<in> set (col A j)" "visit_ok A u" "unvisited A u < n"
          moreover from this have "k \<in> fst ` entries A" using col_facts(3) [OF A] by force
          ultimately show "\<exists>stop s'. visit_row n A k u = Inr (stop, s') \<and> (\<not> stop \<longrightarrow> explored A u s' \<and> k \<in> set (fst s'))"
            using Suc.IH(1) by blast
        qed simp
        then obtain stop s' where s': "visit_all fst (visit_row n A) (col A j) ?t = Inr (stop, s')"
          "\<not> stop \<longrightarrow> explored A ?t s' \<and> set (col A j) \<subseteq> set (fst s')" by blast
        have imp: "explored A s s' \<and> j \<in> set (snd s')" if "\<not> stop"
        proof -
          have e: "explored A ?t s'" "set (col A j) \<subseteq> set (fst s')" using s'(2) that by blast+
          then have "(r, j) \<in> entries A \<Longrightarrow> r \<in> set (fst s')" for r using col_facts(3) [OF A] by auto
          then show ?thesis using explored_col [OF e(1)] by blast
        qed
        have "visit_col (Suc n) A j s = visit_all fst (visit_row n A) (col A j) ?t"
          unfolding visit_col.simps(2) get Let_def using False len by simp
        from trans [OF this s'(1)] show ?thesis using imp by blast
      qed
    qed
  }
qed simp_all

lemma copy_row_spec:
  assumes "wf_sm B"
  shows "wf_sm (copy_row B h)" "entries (copy_row B h) = entries B \<union> {fst h} \<times> set (snd h)"
  using insert_fold [OF assms, of "\<lambda>_. fst h" "\<lambda>j. j" "snd h"] by (auto simp: copy_row_def)

lemma block_partition_spec:
  assumes A: "wf_sm A"
  shows "\<exists>p. sm_block_partition A = Inr p \<and> (\<forall>L R. p = Some (L, R) \<longrightarrow> wf_sm L \<and> wf_sm R \<and> entries L \<union> entries R = entries A
    \<and> fst ` entries L \<inter> fst ` entries R = {} \<and> snd ` entries L \<inter> snd ` entries R = {} \<and> entries L \<noteq> {} \<and> entries R \<noteq> {})"
proof (cases "nrows A = 0")
  case False
  then obtain h hs where h: "sm_rows A = h # hs" by (cases "sm_rows A") auto
  let ?i = "fst (hd (sm_rows A))"
  have i: "?i \<in> fst ` entries A" using header_row [OF A, of h] h by simp
  then have "entries A \<noteq> {}" by auto
  then have "0 < ncols A" using dimensions(2) [OF A] finite_entries [OF A] by (simp add: card_gt_0_iff)
  then have ok: "visit_ok A ([], [])" using False by (simp add: visit_ok_def)
  have "unvisited A ([], []) < Suc (nrows A + ncols A)" by (simp add: unvisited_def)
  from visit_spec(1) [OF A i ok this] obtain stop s where
    s: "visit_row (Suc (nrows A + ncols A)) A ?i ([], []) = Inr (stop, s)" "\<not> stop \<longrightarrow> explored A ([], []) s \<and> ?i \<in> set (fst s)" by blast
  show ?thesis
  proof (cases stop)
    case True
    then show ?thesis using s(1) False by (simp add: sm_block_partition_def)
  next
    case stop: False
    then have e: "explored A ([], []) s" "?i \<in> set (fst s)" using s(2) by blast+
    let ?F = "set (fst s)"
    define step where "step = (\<lambda>prow (L, R). if fst prow \<in> ?F then (copy_row L prow, R) else (L, copy_row R prow))"
    have all: "wf_sm (fst (fold step hs LR)) \<and> wf_sm (snd (fold step hs LR))
      \<and> entries (fst (fold step hs LR)) = entries (fst LR) \<union> {(i, j). \<exists>l. (i, l) \<in> set hs \<and> j \<in> set l \<and> i \<in> ?F}
      \<and> entries (snd (fold step hs LR)) = entries (snd LR) \<union> {(i, j). \<exists>l. (i, l) \<in> set hs \<and> j \<in> set l \<and> i \<notin> ?F}"
      if "wf_sm (fst LR)" "wf_sm (snd LR)" for hs LR
      using that
    proof (induction hs arbitrary: LR)
      case (Cons h hs)
      obtain i l where h: "h = (i, l)" by (cases h)
      have w: "wf_sm (fst (step h LR))" "wf_sm (snd (step h LR))"
        "entries (fst (step h LR)) = entries (fst LR) \<union> (if i \<in> ?F then {i} \<times> set l else {})"
        "entries (snd (step h LR)) = entries (snd LR) \<union> (if i \<notin> ?F then {i} \<times> set l else {})"
        using copy_row_spec [OF Cons.prems(1), of h] copy_row_spec [OF Cons.prems(2), of h] Cons.prems
        by (auto simp: step_def h split: prod.split)
      show ?case using Cons.IH [OF w(1,2)] w(3,4) h by auto
    qed auto
    obtain L R where LR: "fold step (sm_rows A) (sm_alloc, sm_alloc) = (L, R)" by fastforce
    have L: "wf_sm L" "entries L = {(i, j). (i, j) \<in> entries A \<and> i \<in> ?F}" and R: "wf_sm R" "entries R = {(i, j). (i, j) \<in> entries A \<and> i \<notin> ?F}"
      using all [of "(sm_alloc, sm_alloc)" "sm_rows A"] unfolding LR entry_header [OF A] by auto
    have cols: "snd ` entries L \<inter> snd ` entries R = {}"
    proof -
      have False if "(i, j) \<in> entries L" "(r, j) \<in> entries R" for i j r
        using that exploredD(4) [OF e(1), of i j] exploredD(5) [OF e(1), of r j] unfolding L R by simp
      then show ?thesis by force
    qed
    have "entries L \<noteq> {}" using i e(2) L(2) by force
    moreover have "entries R \<noteq> {}"
    proof
      assume "entries R = {}"
      then have "fst ` entries A \<subseteq> ?F" using R(2) by auto
      then have "card (fst ` entries A) \<le> card ?F" by (intro card_mono) simp
      also have "\<dots> \<le> length (fst s)" by (rule card_length)
      finally have "nrows A \<le> length (fst s)" unfolding dimensions(1) [OF A] .
      then show False using e(1) by (simp add: explored_def visit_ok_def)
    qed
    ultimately have "wf_sm L \<and> wf_sm R \<and> entries L \<union> entries R = entries A
      \<and> fst ` entries L \<inter> fst ` entries R = {} \<and> snd ` entries L \<inter> snd ` entries R = {} \<and> entries L \<noteq> {} \<and> entries R \<noteq> {}"
      using L R cols by auto
    moreover have "sm_block_partition A = Inr (Some (L, R))"
      using s(1) stop False LR by (simp add: sm_block_partition_def step_def)
    ultimately show ?thesis by auto
  qed
qed (simp add: sm_block_partition_def)

section \<open>Gimpel's reduction\<close>

text \<open>The relation after the reduction; unit weights.\<close>

definition gimpel_rel :: "(nat \<times> nat) set \<Rightarrow> nat \<Rightarrow> nat \<Rightarrow> nat \<Rightarrow> nat \<Rightarrow> (nat \<times> nat) set" where
  "gimpel_rel E p s c1 c2 =
     {(i, j). i \<noteq> p \<and> i \<noteq> s \<and> j \<noteq> c1 \<and> j \<noteq> c2 \<and> ((i, j) \<in> E \<or> (i, c2) \<in> E \<and> (s, j) \<in> E)}"

definition gimpel_fits :: "(nat \<times> nat) set \<Rightarrow> nat \<Rightarrow> nat \<Rightarrow> nat \<Rightarrow> nat \<Rightarrow> bool" where
  "gimpel_fits E p s c1 c2 \<longleftrightarrow> p \<noteq> s \<and> c1 \<noteq> c2 \<and> (\<forall>j. (p, j) \<in> E \<longleftrightarrow> j = c1 \<or> j = c2) \<and> (\<forall>i. (i, c1) \<in> E \<longleftrightarrow> i = p \<or> i = s)"

lemma gimpel_fitsD:
  assumes "gimpel_fits E p s c1 c2"
  shows "p \<noteq> s" "c1 \<noteq> c2" "(p, c1) \<in> E" "(p, c2) \<in> E" "(s, c1) \<in> E"
    "(p, j) \<in> E \<Longrightarrow> j = c1 \<or> j = c2" "(i, c1) \<in> E \<Longrightarrow> i = p \<or> i = s"
  using assms unfolding gimpel_fits_def by blast+

lemma row_minimalD: "row_minimal E \<Longrightarrow> i \<in> fst ` E \<Longrightarrow> r \<in> fst ` E \<Longrightarrow> i \<noteq> r \<Longrightarrow> \<exists>j. (i, j) \<in> E \<and> (r, j) \<notin> E"
  unfolding row_minimal_def by blast

lemma gimpel_minimal:
  assumes f: "gimpel_fits E p s c1 c2" and m: "row_minimal E"
  shows "(s, c2) \<notin> E" "\<exists>j. (s, j) \<in> E \<and> j \<noteq> c1 \<and> j \<noteq> c2"
proof -
  note d = gimpel_fitsD [OF f]
  have r: "p \<in> fst ` E" "s \<in> fst ` E" using d(3,5) by (auto intro: rev_image_eqI)
  obtain j where j: "(p, j) \<in> E" "(s, j) \<notin> E" using row_minimalD [OF m r d(1)] by blast
  show "(s, c2) \<notin> E" using d(6) [OF j(1)] j(2) d(5) by auto
  obtain k where k: "(s, k) \<in> E" "(p, k) \<notin> E" using row_minimalD [OF m r(2,1) d(1) [symmetric]] by blast
  then show "\<exists>j. (s, j) \<in> E \<and> j \<noteq> c1 \<and> j \<noteq> c2" using d(3,4) by metis
qed

lemma gimpel_lift:
  assumes f: "gimpel_fits E p s c1 c2" and m: "row_minimal E" and X: "hits (gimpel_rel E p s c1 c2) X"
  shows "hits E (insert (if \<exists>j\<in>X. (s, j) \<in> E \<and> j \<noteq> c1 then c2 else c1) X)"
proof (rule hitsI)
  let ?c = "if \<exists>j\<in>X. (s, j) \<in> E \<and> j \<noteq> c1 then c2 else c1"
  fix i j assume e: "(i, j) \<in> E"
  note f' = f [unfolded gimpel_fits_def]
  obtain j' where j': "(s, j') \<in> E" "j' \<noteq> c1" "j' \<noteq> c2" using gimpel_minimal(2) [OF f m] by blast
  consider "i = p" | "i = s" | "i \<noteq> p" "i \<noteq> s" "(i, c2) \<in> E" | "i \<noteq> p" "i \<noteq> s" "(i, c2) \<notin> E" by blast
  then show "\<exists>k\<in>insert ?c X. (i, k) \<in> E"
  proof cases
    case 1
    then show ?thesis using f' by auto
  next
    case 2
    then show ?thesis using f' by auto
  next
    case 3
    then have "(i, j') \<in> gimpel_rel E p s c1 c2" using j' by (simp add: gimpel_rel_def)
    then obtain k where k: "k \<in> X" "(i, k) \<in> gimpel_rel E p s c1 c2" using hitsD [OF X] by blast
    then show ?thesis using 3 by (auto simp: gimpel_rel_def)
  next
    case 4
    then have "j \<noteq> c1" "j \<noteq> c2" using e f' by auto
    then have "(i, j) \<in> gimpel_rel E p s c1 c2" using 4 e by (simp add: gimpel_rel_def)
    then obtain k where k: "k \<in> X" "(i, k) \<in> gimpel_rel E p s c1 c2" using hitsD [OF X] by blast
    then show ?thesis using 4 by (auto simp: gimpel_rel_def)
  qed
qed

lemma cost_None [simp]: "cost None X = int (card X)"
  by (simp add: cost_def WEIGHT_def)

lemma gimpel_descend:
  assumes f: "gimpel_fits E p s c1 c2" and m: "row_minimal E" and X: "hits E X" "finite X"
  shows "\<exists>X'. finite X' \<and> hits (gimpel_rel E p s c1 c2) X' \<and> card X' < card X"
proof -
  note f' = f [unfolded gimpel_fits_def]
  let ?G = "gimpel_rel E p s c1 c2"
  obtain j' where j': "(s, j') \<in> E" "j' \<noteq> c1" "j' \<noteq> c2" using gimpel_minimal(2) [OF f m] by blast
  have other: "\<exists>k\<in>X. k \<noteq> c1 \<and> (i, k) \<in> E" if "(i, j) \<in> ?G" for i j
    using that hitsD [OF X(1), of i] f' by (fastforce simp: gimpel_rel_def)
  have pos: "0 < card X" if "c \<in> X" for c using that X(2) by (auto simp: card_gt_0_iff)
  obtain k where k: "k \<in> X" "(s, k) \<in> E" using hitsD [OF X(1) j'(1)] by blast
  have p: "c1 \<in> X \<or> c2 \<in> X" using hitsD [OF X(1), of p c1] f' by auto
  consider "c1 \<in> X" "c2 \<in> X" | "c1 \<in> X" "c2 \<notin> X" | "c1 \<notin> X" "c2 \<in> X" using p by blast
  then show ?thesis
  proof cases
    case 1
    have "hits ?G (insert j' (X - {c1, c2}))"
    proof (rule hitsI)
      fix i j assume g: "(i, j) \<in> ?G"
      show "\<exists>k\<in>insert j' (X - {c1, c2}). (i, k) \<in> ?G"
      proof (cases "(i, c2) \<in> E")
        case True
        then show ?thesis using g j' by (auto simp: gimpel_rel_def)
      next
        case False
        then show ?thesis using other [OF g] g by (fastforce simp: gimpel_rel_def)
      qed
    qed
    moreover have "card (insert j' (X - {c1, c2})) < card X"
    proof -
      have "card (X - {c1, c2}) = card X - 2" using 1 f' X(2) by (simp add: card_Diff_subset)
      moreover have "card {c1, c2} \<le> card X" using 1 X(2) by (intro card_mono) auto
      moreover have "card {c1, c2} = 2" using gimpel_fitsD(2) [OF f] by simp
      moreover have "card (insert j' (X - {c1, c2})) \<le> Suc (card (X - {c1, c2}))" using X(2) by (simp add: card_insert_if)
      ultimately show ?thesis by linarith
    qed
    ultimately show ?thesis using X(2) by (intro exI [of _ "insert j' (X - {c1, c2})"]) simp
  next
    case 2
    have "hits ?G (X - {c1})"
      by (rule hitsI) (use other 2 in \<open>fastforce simp: gimpel_rel_def\<close>)
    then show ?thesis using X(2) 2(1) by (intro exI [of _ "X - {c1}"]) (simp add: card_Diff1_less del: card_Diff_insert)
  next
    case 3
    have kk: "k \<noteq> c1" "k \<noteq> c2" using k 3 gimpel_minimal(1) [OF f m] by auto
    have "hits ?G (X - {c2})"
    proof (rule hitsI)
      fix i j assume g: "(i, j) \<in> ?G"
      show "\<exists>k\<in>X - {c2}. (i, k) \<in> ?G"
      proof (cases "(i, c2) \<in> E")
        case True
        then show ?thesis using g k kk by (auto simp: gimpel_rel_def)
      next
        case False
        then show ?thesis using other [OF g] g by (fastforce simp: gimpel_rel_def)
      qed
    qed
    then show ?thesis using X(2) 3(2) by (intro exI [of _ "X - {c2}"]) (simp add: card_Diff1_less del: card_Diff_insert)
  qed
qed

lemma gimpel_opt:
  assumes f: "gimpel_fits E p s c1 c2" and m: "row_minimal E" and E: "finite E"
  shows "finite (gimpel_rel E p s c1 c2)" "opt None (gimpel_rel E p s c1 c2) + 1 \<le> opt None E"
    "fst ` gimpel_rel E p s c1 c2 \<subseteq> fst ` E - {p, s}" "snd ` gimpel_rel E p s c1 c2 \<subseteq> snd ` E - {c1, c2}"
proof -
  let ?G = "gimpel_rel E p s c1 c2"
  show sub: "fst ` ?G \<subseteq> fst ` E - {p, s}" "snd ` ?G \<subseteq> snd ` E - {c1, c2}"
    by (force simp: gimpel_rel_def)+
  have "?G \<subseteq> fst ` E \<times> snd ` E" by (force simp: gimpel_rel_def)
  then show fin: "finite ?G" by (rule finite_subset) (use E in simp)
  obtain X where X: "X \<subseteq> snd ` E" "hits E X" "cost None X = opt None E" by (rule opt_ex [OF E])
  have "finite X" by (rule finite_subset [OF X(1)]) (use E in simp)
  then obtain X' where X': "finite X'" "hits ?G X'" "card X' < card X" using gimpel_descend [OF f m X(2)] by blast
  have "opt None ?G \<le> cost None X'" by (rule opt_le [OF fin positive_None X'(1,2)])
  then show "opt None ?G + 1 \<le> opt None E" using X(3) X'(3) by simp
qed

lemma pair_list:
  assumes "length l = 2" "asc l"
  shows "set l = {hd l, last l}" "hd l \<noteq> last l"
  using assms by (auto simp: numeral_2_eq_2 length_Suc_conv)

lemma gimpel_row_fits:
  assumes A: "wf_sm A" and h: "h \<in> set (sm_rows A)" and r: "gimpel_row A h = Some (p, s, c1, c2)"
  shows "gimpel_fits (entries A) p s c1 c2"
proof -
  have row: "snd h = row A (fst h)" "fst h \<in> fst ` entries A" using header_row [OF A h] by auto
  let ?l = "row A (fst h)"
  have len: "length ?l = 2" using r row(1) by (auto simp: gimpel_row_def Let_def split: if_splits)
  note l = pair_list [OF len row_facts(1) [OF A]]
  have mem: "(fst h, j) \<in> entries A \<longleftrightarrow> j = hd ?l \<or> j = last ?l" for j using row_facts(3) [OF A, of "fst h"] l(1) by auto
  have get: "the (sm_get_col A (hd ?l)) = col A (hd ?l)" "the (sm_get_col A (last ?l)) = col A (last ?l)"
    using col_facts(5) [OF A] mem by (force intro: rev_image_eqI)+
  have fit: "gimpel_fits (entries A) (fst h) (if hd (col A k) = fst h then last (col A k) else hd (col A k)) k k'"
    if k: "length (col A k) = 2" "{hd ?l, last ?l} = {k, k'}" "k \<noteq> k'" for k k'
  proof -
    note c = pair_list [OF k(1) col_facts(1) [OF A]]
    have "(fst h, k) \<in> entries A" using mem k(2) by auto
    then have "fst h = hd (col A k) \<or> fst h = last (col A k)" using col_facts(3) [OF A, of k] c(1) by auto
    moreover have "(i, k) \<in> entries A \<longleftrightarrow> i = hd (col A k) \<or> i = last (col A k)" for i using col_facts(3) [OF A, of k] c(1) by auto
    moreover have "(fst h, j) \<in> entries A \<longleftrightarrow> j = k \<or> j = k'" for j using mem k(2) by auto
    ultimately show ?thesis using c(2) k(3) by (auto simp: gimpel_fits_def)
  qed
  note r' = r [unfolded gimpel_row_def row(1) Let_def get]
  show ?thesis
  proof (cases "length (col A (hd ?l)) = 2")
    case True
    then show ?thesis using fit [of "hd ?l" "last ?l"] l(2) r' len by auto
  next
    case False
    then have "length (col A (last ?l)) = 2" using r' len by (simp split: if_splits)
    then show ?thesis using fit [of "last ?l" "hd ?l"] l(2) r' len False by auto
  qed
qed

lemma gimpel_find_fits:
  assumes A: "wf_sm A"
  shows "set hs \<subseteq> set (sm_rows A) \<Longrightarrow> gimpel_find A hs = Some (p, s, c1, c2) \<Longrightarrow> gimpel_fits (entries A) p s c1 c2"
proof (induction hs)
  case (Cons h hs)
  then show ?case using gimpel_row_fits [OF A, of h] by (auto split: option.splits)
qed simp

lemma merge_rows:
  assumes "wf_sm B"
  shows "wf_sm (fold (\<lambda>i A. if i \<noteq> p then fold (\<lambda>j A. sm_insert A i j) js A else A) is B)"
    "entries (fold (\<lambda>i A. if i \<noteq> p then fold (\<lambda>j A. sm_insert A i j) js A else A) is B) =
      entries B \<union> {(i, j). i \<in> set is \<and> i \<noteq> p \<and> j \<in> set js}"
proof -
  define step where "step = (\<lambda>i A. if i \<noteq> p then fold (\<lambda>j A. sm_insert A i j) js A else A)"
  have "wf_sm (fold step is B) \<and> entries (fold step is B) = entries B \<union> {(i, j). i \<in> set is \<and> i \<noteq> p \<and> j \<in> set js}"
    using assms
  proof (induction "is" arbitrary: B)
    case (Cons i "is")
    have "wf_sm (step i B)" "entries (step i B) = entries B \<union> {(r, j). r = i \<and> i \<noteq> p \<and> j \<in> set js}"
      using insert_fold [OF Cons.prems, of "\<lambda>_. i" "\<lambda>j. j" js] Cons.prems by (auto simp: step_def)
    then show ?case using Cons.IH [of "step i B"] by auto
  qed simp
  then show "wf_sm (fold (\<lambda>i A. if i \<noteq> p then fold (\<lambda>j A. sm_insert A i j) js A else A) is B)"
    "entries (fold (\<lambda>i A. if i \<noteq> p then fold (\<lambda>j A. sm_insert A i j) js A else A) is B) =
      entries B \<union> {(i, j). i \<in> set is \<and> i \<noteq> p \<and> j \<in> set js}" by (simp_all add: step_def)
qed

lemma gimpel_reduce_spec:
  assumes A: "wf_sm A" and r: "gimpel_reduce A = Some (A', js, c1, c2)"
  shows "\<exists>p s. gimpel_fits (entries A) p s c1 c2 \<and> wf_sm A' \<and> entries A' = gimpel_rel (entries A) p s c1 c2
    \<and> asc js \<and> set js = {j. (s, j) \<in> entries A \<and> j \<noteq> c1}"
proof -
  obtain p s where f: "gimpel_find A (sm_rows A) = Some (p, s, c1, c2)"
    using r by (auto simp: gimpel_reduce_def Let_def split: option.splits)
  have fit: "gimpel_fits (entries A) p s c1 c2" by (rule gimpel_find_fits [OF A _ f]) simp
  note d = gimpel_fitsD [OF fit]
  have s: "the (sm_get_row A s) = row A s" using row_facts(5) [OF A, of s] d(5) by force
  have c: "the (sm_get_col A c2) = col A c2" using col_facts(5) [OF A, of c2] d(4) by force
  let ?js = "sm_row_remove (sm_row_dup (row A s)) c1"
  have js: "asc ?js" "set ?js = {j. (s, j) \<in> entries A \<and> j \<noteq> c1}"
    using row_remove_set [OF row_facts(1) [OF A, of s]] row_facts(3) [OF A, of s] by (auto simp: row_dup_eq [OF row_facts(1) [OF A, of s]])
  let ?M = "fold (\<lambda>i A. if i \<noteq> p then fold (\<lambda>j A. sm_insert A i j) ?js A else A) (col A c2) A"
  have M: "wf_sm ?M" "entries ?M = entries A \<union> {(i, j). i \<in> set (col A c2) \<and> i \<noteq> p \<and> j \<in> set ?js}"
    using merge_rows [OF A] by blast+
  have A': "A' = sm_delrow (sm_delrow (sm_delcol (sm_delcol ?M c1) c2) p) s" "js = ?js"
    using r unfolding gimpel_reduce_def f option.case prod.case Let_def s c by simp_all
  have "wf_sm A' \<and> entries A' = {e \<in> entries ?M. snd e \<noteq> c1 \<and> snd e \<noteq> c2 \<and> fst e \<noteq> p \<and> fst e \<noteq> s}"
    unfolding A' using M(1) by (auto simp: sm_delrow_spec sm_delcol_spec)
  moreover have "{e \<in> entries ?M. snd e \<noteq> c1 \<and> snd e \<noteq> c2 \<and> fst e \<noteq> p \<and> fst e \<noteq> s} = gimpel_rel (entries A) p s c1 c2"
    unfolding M(2) js(2) col_facts(3) [OF A] gimpel_rel_def by auto
  ultimately show ?thesis using fit js A'(2) by auto
qed

section \<open>The choice of a column\<close>

text \<open>
  The value of a column is a sum of positive numbers over a positive one; the code relies on its being greater than -1.
\<close>

definition positive_values :: "'f float_ops \<Rightarrow> bool" where
  "positive_values fo \<longleftrightarrow> (\<forall>ls v. (\<forall>l\<in>set ls. 2 \<le> l) \<longrightarrow> 0 < v \<longrightarrow>
     f_greater fo (f_div fo (fold (\<lambda>l w. f_add fo w (f_div fo (f_of_int fo 1) (f_sub fo (f_of_int fo l) (f_of_int fo 1)))) ls (f_of_int fo 0))
        (f_of_int fo v)) (f_of_int fo (- 1)))"

lemma column_value_greater:
  assumes fo: "positive_values fo" and w: "pos_weights w" and A: "wf_sm A" "tidy A" and j: "j \<in> snd ` entries A"
  shows "f_greater fo (column_value fo A w j) (f_of_int fo (- 1))"
proof -
  have c: "the (sm_get_col A j) = col A j" using col_facts(5) [OF A(1) j] by simp
  let ?ls = "map (\<lambda>i. int (length (the (sm_get_row A i)))) (col A j)"
  have "\<forall>l\<in>set ?ls. 2 \<le> l"
  proof
    fix l assume "l \<in> set ?ls"
    then obtain i where i: "l = int (length (the (sm_get_row A i)))" "(i, j) \<in> entries A" using col_facts(3) [OF A(1)] by auto
    then have m: "i \<in> fst ` entries A" by force
    then have "2 \<le> length (row A i)" using A(2) unfolding tidy_def by blast
    then show "2 \<le> l" using i(1) row_facts(5) [OF A(1) m] by simp
  qed
  moreover have "0 < WEIGHT w j" using w by (simp add: pos_weights_def)
  ultimately have "f_greater fo (f_div fo (fold (\<lambda>l w. f_add fo w (f_div fo (f_of_int fo 1) (f_sub fo (f_of_int fo l) (f_of_int fo 1)))) ?ls (f_of_int fo 0))
        (f_of_int fo (WEIGHT w j))) (f_of_int fo (- 1))"
    using fo unfolding positive_values_def by blast
  then show ?thesis unfolding column_value_def c fold_map Let_def comp_def .
qed

lemma pick_best:
  fixes val :: "nat \<Rightarrow> 'f" and gt :: "'f \<Rightarrow> 'f \<Rightarrow> bool"
  defines "step \<equiv> \<lambda>j (c, best). if gt (val j) best then (Some j, val j) else (c, best)"
  shows "fst (fold step js (Some k, b)) \<in> Some ` insert k (set js)"
proof (induction js arbitrary: k b)
  case (Cons j js)
  then show ?case using Cons.IH [of j "val j"] Cons.IH [of k b] by (auto simp: step_def)
qed simp

lemma row_insert_fold: "asc cs \<Longrightarrow> asc (fold (\<lambda>j cs. sm_row_insert cs j) js cs) \<and> set (fold (\<lambda>j cs. sm_row_insert cs j) js cs) = set cs \<union> set js"
proof (induction js arbitrary: cs)
  case (Cons j js)
  then show ?case using row_insert_set [OF Cons.prems, of j] by auto
qed simp

lemma select_column_spec:
  assumes fo: "positive_values fo" and w: "pos_weights w" and A: "wf_sm A" "tidy A"
    and s: "set (sol_row s) \<subseteq> fst ` entries A" "sol_row s \<noteq> []"
  shows "\<exists>j. select_column fo A w (Some s) = Some j \<and> j \<in> snd ` entries A"
proof -
  let ?cs = "fold (\<lambda>i cs. fold (\<lambda>j cs. sm_row_insert cs j) (the (sm_get_row A i)) cs) (sol_row s) []"
  have "asc (fold (\<lambda>i cs. fold (\<lambda>j cs. sm_row_insert cs j) (the (sm_get_row A i)) cs) is cs) \<and>
      set (fold (\<lambda>i cs. fold (\<lambda>j cs. sm_row_insert cs j) (the (sm_get_row A i)) cs) is cs) = set cs \<union> {j. \<exists>i\<in>set is. (i, j) \<in> entries A}"
    if "asc cs" "set is \<subseteq> fst ` entries A" for "is" cs
    using that
  proof (induction "is" arbitrary: cs)
    case (Cons i "is")
    have g: "the (sm_get_row A i) = row A i" using row_facts(5) [OF A(1)] Cons.prems(2) by simp
    note r = row_insert_fold [OF Cons.prems(1), of "row A i"]
    show ?case using Cons.IH [of "fold (\<lambda>j cs. sm_row_insert cs j) (row A i) cs"] Cons.prems(2) r row_facts(3) [OF A(1), of i]
      by (auto simp: g)
  qed simp
  from this [of "[]" "sol_row s"] have cs: "set ?cs = {j. \<exists>i\<in>set (sol_row s). (i, j) \<in> entries A}" using s(1) by simp
  obtain i where i: "i \<in> set (sol_row s)" using s(2) by (cases "sol_row s") auto
  then obtain j where "(i, j) \<in> entries A" using s(1) by auto
  then have "j \<in> set ?cs" using cs i by blast
  then obtain k ks where ks: "?cs = k # ks" by (cases ?cs) auto
  have sub: "set ?cs \<subseteq> snd ` entries A" unfolding cs by force
  have "f_greater fo (column_value fo A w k) (f_of_int fo (- 1))"
    by (rule column_value_greater [OF fo w A]) (use sub ks in auto)
  then have "select_column fo A w (Some s) \<in> Some ` set (k # ks)"
    using pick_best [of "f_greater fo" "column_value fo A w" ks k "column_value fo A w k"]
    by (simp add: select_column_def Let_def ks)
  then show ?thesis using sub ks by auto
qed

section \<open>What a call of the branch and bound returns\<close>

text \<open>
  A solution that is found adds a cover to what is selected and is cheaper than the bound; there is one if all
  columns together are cheaper than the bound; and without the heuristic it is a least one, if there is one below the bound.
\<close>

definition found :: "weights \<Rightarrow> sm_matrix \<Rightarrow> solution \<Rightarrow> int \<Rightarrow> solution \<Rightarrow> bool" where
  "found w A s bound b \<longleftrightarrow> (\<exists>X. X \<subseteq> snd ` entries A \<and> hits (entries A) X \<and> grows w s X b \<and> sol_cost b < bound)"

lemma foundE:
  assumes "found w A s bound b"
  obtains X where "X \<subseteq> snd ` entries A" "hits (entries A) X" "grows w s X b" "sol_cost b < bound"
  using assms unfolding found_def by (elim exE conjE)

lemma foundI: "X \<subseteq> snd ` entries A \<Longrightarrow> hits (entries A) X \<Longrightarrow> grows w s X b \<Longrightarrow> sol_cost b < bound \<Longrightarrow> found w A s bound b"
  unfolding found_def by (intro exI [of _ X] conjI)

definition answers :: "bool \<Rightarrow> weights \<Rightarrow> sm_matrix \<Rightarrow> solution \<Rightarrow> int \<Rightarrow> int \<Rightarrow> solution option \<Rightarrow> bool" where
  "answers heur w A s lb bound r \<longleftrightarrow> (\<forall>b. r = Some b \<longrightarrow> found w A s bound b)
     \<and> (sol_cost s + cost w (snd ` entries A) < bound \<and> lb < bound \<longrightarrow> r \<noteq> None)
     \<and> (\<not> heur \<and> lb \<le> sol_cost s + opt w (entries A) \<and> sol_cost s + opt w (entries A) < bound \<longrightarrow>
          (\<exists>b. r = Some b \<and> sol_cost b \<le> sol_cost s + opt w (entries A)))"

lemma growsD:
  assumes "grows w s Y s'"
  shows "asc (sol_row s')" "set (sol_row s') = set (sol_row s) \<union> Y" "sol_cost s' = sol_cost s + cost w Y"
  using assms by (simp_all add: grows_def)

lemma answers_reduce:
  assumes w: "pos_weights w" and A: "wf_sm A" "wf_sm A'" and red: "reduces w (entries A) Y (entries A')"
    and g: "grows w s Y s'" and r: "answers heur w A' s' lb bound r"
  shows "answers heur w A s lb bound r"
proof -
  note d = reducesD [OF red]
  have fY: "finite Y" by (rule d(7)) (rule finite_entries [OF A(1)])
  have o: "opt w (entries A) = opt w (entries A') + cost w Y" using reduces_opt [OF red _ _ w] A by (simp add: finite_entries)
  have c: "cost w Y + cost w (snd ` entries A') \<le> cost w (snd ` entries A)" using reduces_columns [OF red _ w] A by (simp add: finite_entries)
  have "found w A s bound b" if F: "found w A' s' bound b" for b
  proof -
    obtain X where X: "X \<subseteq> snd ` entries A'" "hits (entries A') X" "grows w s' X b" "sol_cost b < bound"
      by (rule foundE [OF F])
    have "finite X" by (rule finite_subset [OF X(1)]) (simp add: finite_entries A)
    then have "grows w s (Y \<union> X) b" by (rule grows_trans [OF g X(3) fY]) (use d(4) X(1) in blast)
    moreover have "hits (entries A) (Y \<union> X)" using d(5) [OF X(2)] by (simp add: Un_commute)
    moreover have "Y \<union> X \<subseteq> snd ` entries A" by (rule Un_least [OF d(3) order_trans [OF X(1) d(2)]])
    ultimately show ?thesis using X(4) by (intro foundI [of "Y \<union> X"])
  qed
  then show ?thesis using r growsD(3) [OF g] o c unfolding answers_def by auto
qed

lemma answers_bounded:
  assumes w: "pos_weights w" and A: "wf_sm A" and b: "bound \<le> max (sol_cost s + k) lb" "k \<le> opt w (entries A)"
  shows "answers heur w A s lb bound None"
proof -
  have "opt w (entries A) \<le> cost w (snd ` entries A)" by (rule opt_le_all [OF finite_entries [OF A] w])
  then show ?thesis using b by (auto simp: answers_def)
qed

lemma answers_empty:
  assumes "asc (sol_row s)" "sol_cost s < bound" "entries A = {}"
  shows "answers heur w A s lb bound (Some s)"
proof -
  have "opt w {} = 0" by (simp add: opt_def hits_def)
  then show ?thesis using assms grows_refl [of s w] by (auto simp: answers_def found_def hits_def)
qed

lemma answers_gimpel:
  assumes A: "wf_sm A" "row_minimal (entries A)" and s: "asc (sol_row s)" "set (sol_row s) \<inter> snd ` entries A = {}"
    and g: "gimpel_reduce A = Some (A', js, c1, c2)"
  shows "answers heur None A' s (lb - 1) (bound - 1) r \<Longrightarrow> answers heur None A s lb bound (map_option (\<lambda>best.
      if sm_row_intersects js (sol_row best) then solution_add best None c2 else solution_add best None c1) r)"
    "wf_sm A'" "snd ` entries A' \<subseteq> snd ` entries A" "nrows A' < nrows A" "ncols A' \<le> ncols A"
proof -
  obtain p q where fit: "gimpel_fits (entries A) p q c1 c2" and A': "wf_sm A'" "entries A' = gimpel_rel (entries A) p q c1 c2"
    and js: "asc js" "set js = {j. (q, j) \<in> entries A \<and> j \<noteq> c1}" using gimpel_reduce_spec [OF A(1) g] by blast
  note d = gimpel_fitsD [OF fit] and G = gimpel_opt [OF fit A(2) finite_entries [OF A(1)], folded A'(2)]
  show "wf_sm A'" by (rule A'(1))
  show sub: "snd ` entries A' \<subseteq> snd ` entries A" using G(4) by blast
  have c: "c1 \<in> snd ` entries A" "c2 \<in> snd ` entries A" "p \<in> fst ` entries A" using d(3,4) by (auto intro: rev_image_eqI)
  have fin: "finite (fst ` entries A)" "finite (snd ` entries A)" using finite_entries [OF A(1)] by simp_all
  have "fst ` entries A' \<subset> fst ` entries A" using G(3) c(3) by blast
  then show "nrows A' < nrows A" unfolding dimensions [OF A(1)] dimensions [OF A'(1)] by (rule psubset_card_mono [OF fin(1)])
  show "ncols A' \<le> ncols A" unfolding dimensions [OF A(1)] dimensions [OF A'(1)] by (rule card_mono [OF fin(2) sub])
  have less: "card (snd ` entries A') < card (snd ` entries A)"
    by (rule psubset_card_mono [OF fin(2)]) (use G(4) c in blast)
  let ?f = "\<lambda>best. if sm_row_intersects js (sol_row best) then solution_add best None c2 else solution_add best None c1"
  have step: "found None A s bound (?f b) \<and> sol_cost (?f b) = sol_cost b + 1" if F: "found None A' s (bound - 1) b" for b
  proof -
    obtain X where X: "X \<subseteq> snd ` entries A'" "hits (entries A') X" "grows None s X b" "sol_cost b < bound - 1"
      by (rule foundE [OF F])
    note gr = growsD [OF X(3)]
    have fX: "finite X" by (rule finite_subset [OF X(1)]) (simp add: finite_entries [OF A'(1)])
    have "set js \<subseteq> snd ` entries A" unfolding js(2) by (auto intro: rev_image_eqI)
    then have "set js \<inter> sol_row_set = {}" if "sol_row_set = set (sol_row s)" for sol_row_set using s(2) that by blast
    then have "sm_row_intersects js (sol_row b) \<longleftrightarrow> set js \<inter> X \<noteq> {}"
      unfolding row_intersects_iff [OF js(1) gr(1)] gr(2) by (simp add: Int_Un_distrib)
    also have "\<dots> \<longleftrightarrow> (\<exists>j\<in>X. (q, j) \<in> entries A \<and> j \<noteq> c1)" unfolding js(2) by blast
    finally have i: "sm_row_intersects js (sol_row b) \<longleftrightarrow> (\<exists>j\<in>X. (q, j) \<in> entries A \<and> j \<noteq> c1)" .
    let ?c = "if \<exists>j\<in>X. (q, j) \<in> entries A \<and> j \<noteq> c1 then c2 else c1"
    have f: "?f b = solution_add b None ?c" unfolding i by (simp only: if_distrib [of "solution_add b None"])
    have "?c \<notin> X" using X(1) G(4) by auto
    then have "grows None s (X \<union> {?c}) (solution_add b None ?c)"
      using grows_trans [OF X(3) grows_add [OF gr(1)] fX, of ?c] by auto
    moreover have "hits (entries A) (X \<union> {?c})" using gimpel_lift [OF fit A(2) X(2) [unfolded A'(2)]] by simp
    moreover have "X \<union> {?c} \<subseteq> snd ` entries A" using X(1) sub c by auto
    moreover have "sol_cost (solution_add b None ?c) = sol_cost b + 1" by (simp add: solution_add_def WEIGHT_def)
    ultimately show ?thesis unfolding f using X(4) by (intro conjI foundI [of "X \<union> {?c}"]) simp_all
  qed
  show "answers heur None A s lb bound (map_option ?f r)" if r: "answers heur None A' s (lb - 1) (bound - 1) r"
    unfolding answers_def
  proof (intro conjI allI impI)
    fix b assume "map_option ?f r = Some b"
    then obtain b' where "r = Some b'" "b = ?f b'" by auto
    then show "found None A s bound b" using step r by (simp add: answers_def)
  next
    assume "sol_cost s + cost None (snd ` entries A) < bound \<and> lb < bound"
    then have "r \<noteq> None" using r less unfolding answers_def by auto
    then show "map_option ?f r \<noteq> None" by simp
  next
    assume a: "\<not> heur \<and> lb \<le> sol_cost s + opt None (entries A) \<and> sol_cost s + opt None (entries A) < bound"
    have "opt None (entries A) \<le> opt None (entries A') + 1"
    proof -
      obtain X where X: "X \<subseteq> snd ` entries A'" "hits (entries A') X" "cost None X = opt None (entries A')" by (rule opt_ex [OF G(1)])
      have fX: "finite X" by (rule finite_subset [OF X(1)]) (simp add: finite_entries [OF A'(1)])
      have "opt None (entries A) \<le> cost None (insert (if \<exists>j\<in>X. (q, j) \<in> entries A \<and> j \<noteq> c1 then c2 else c1) X)"
        by (rule opt_le [OF finite_entries [OF A(1)] positive_None _ gimpel_lift [OF fit A(2) X(2) [unfolded A'(2)]]]) (simp add: fX)
      also have "\<dots> \<le> cost None X + 1" using fX by (simp add: card_insert_if)
      finally show ?thesis using X(3) by simp
    qed
    then obtain b where b: "r = Some b" "sol_cost b \<le> sol_cost s + opt None (entries A')"
      using r a G(2) unfolding answers_def by auto
    then have "sol_cost (?f b) = sol_cost b + 1" using step r by (simp add: answers_def)
    then show "\<exists>b. map_option ?f r = Some b \<and> sol_cost b \<le> sol_cost s + opt None (entries A)"
      using b G(2) by simp
  qed
qed

lemma add_fold:
  assumes "asc (sol_row s)" "distinct js" "set js \<inter> set (sol_row s) = {}"
  shows "grows w s (set js) (fold (\<lambda>j s. solution_add s w j) js s)"
  using assms
proof (induction js arbitrary: s)
  case (Cons j js)
  note g = grows_add [OF Cons.prems(1), of w j]
  have "grows w (solution_add s w j) (set js) (fold (\<lambda>j s. solution_add s w j) js (solution_add s w j))"
    by (rule Cons.IH) (use Cons.prems growsD [OF g] in auto)
  from grows_trans [OF g this] show ?case using Cons.prems by simp
qed (simp add: grows_refl)

lemma split_hits:
  assumes r: "fst ` E1 \<inter> fst ` E2 = {}" and X: "hits (E1 \<union> E2) X"
  shows "hits E1 (X \<inter> snd ` E1)" "hits E2 (X \<inter> snd ` E2)"
proof -
  have no: "(i, k) \<in> E1 \<Longrightarrow> (i, j) \<in> E2 \<Longrightarrow> False" for i j k using r by (metis disjoint_iff fst_conv imageI)
  show "hits E1 (X \<inter> snd ` E1)"
  proof (rule hitsI)
    fix i j assume e: "(i, j) \<in> E1"
    then obtain k where "k \<in> X" "(i, k) \<in> E1 \<union> E2" using hitsD [OF X, of i j] by blast
    then show "\<exists>k\<in>X \<inter> snd ` E1. (i, k) \<in> E1" using no [OF e] by force
  qed
  show "hits E2 (X \<inter> snd ` E2)"
  proof (rule hitsI)
    fix i j assume e: "(i, j) \<in> E2"
    then obtain k where "k \<in> X" "(i, k) \<in> E1 \<union> E2" using hitsD [OF X, of i j] by blast
    then show "\<exists>k\<in>X \<inter> snd ` E2. (i, k) \<in> E2" using no [OF _ e] by force
  qed
qed

lemma split_opt:
  assumes w: "pos_weights w" and f: "finite E1" "finite E2" and r: "fst ` E1 \<inter> fst ` E2 = {}" "snd ` E1 \<inter> snd ` E2 = {}"
  shows "opt w E1 + opt w E2 \<le> opt w (E1 \<union> E2)"
    "finite X \<Longrightarrow> hits E1 X \<Longrightarrow> X \<subseteq> snd ` E1 \<Longrightarrow> opt w (E1 \<union> E2) \<le> cost w X + opt w E2"
    "cost w (snd ` (E1 \<union> E2)) = cost w (snd ` E1) + cost w (snd ` E2)"
proof -
  have fE: "finite (E1 \<union> E2)" using f by simp
  obtain X where X: "X \<subseteq> snd ` (E1 \<union> E2)" "hits (E1 \<union> E2) X" "cost w X = opt w (E1 \<union> E2)" by (rule opt_ex [OF fE])
  have fX: "finite X" by (rule finite_subset [OF X(1)]) (use f in simp)
  have "opt w E1 + opt w E2 \<le> cost w (X \<inter> snd ` E1) + cost w (X \<inter> snd ` E2)"
    by (intro add_mono opt_le f w split_hits [OF r(1) X(2)]) (simp_all add: fX)
  also have "\<dots> = cost w (X \<inter> snd ` E1 \<union> X \<inter> snd ` E2)" by (rule cost_Un [symmetric]) (use fX r(2) in auto)
  also have "X \<inter> snd ` E1 \<union> X \<inter> snd ` E2 = X" using X(1) by (auto simp: image_Un)
  finally show "opt w E1 + opt w E2 \<le> opt w (E1 \<union> E2)" using X(3) by simp
  show "cost w (snd ` (E1 \<union> E2)) = cost w (snd ` E1) + cost w (snd ` E2)"
    unfolding image_Un by (rule cost_Un) (use f r(2) in auto)
  show "opt w (E1 \<union> E2) \<le> cost w X + opt w E2" if X: "finite X" "hits E1 X" "X \<subseteq> snd ` E1" for X
  proof -
    obtain Z where Z: "Z \<subseteq> snd ` E2" "hits E2 Z" "cost w Z = opt w E2" by (rule opt_ex [OF f(2)])
    have fZ: "finite Z" by (rule finite_subset [OF Z(1)]) (use f in simp)
    have "hits (E1 \<union> E2) (X \<union> Z)" using X(2) Z(2) by (force simp: hits_def)
    then have "opt w (E1 \<union> E2) \<le> cost w (X \<union> Z)" by (intro opt_le fE w) (simp_all add: X(1) fZ)
    also have "\<dots> = cost w X + cost w Z" by (rule cost_Un) (use X Z fZ r(2) in auto)
    finally show ?thesis using Z(3) by simp
  qed
qed

lemma apart_Un: "a \<inter> cA = {} \<Longrightarrow> cR \<subseteq> cA \<Longrightarrow> x \<subseteq> cL \<Longrightarrow> cL \<inter> cR = {} \<Longrightarrow> (a \<union> x) \<inter> cR = {}"
  by blast

lemma answers_partition:
  assumes w: "pos_weights w" and s: "asc (sol_row s)" "set (sol_row s) \<inter> snd ` entries A = {}"
    and L: "wf_sm L" "wf_sm R" "entries A = entries L \<union> entries R"
      "fst ` entries L \<inter> fst ` entries R = {}" "snd ` entries L \<inter> snd ` entries R = {}"
    and lb: "lb' = max (sol_cost s + k) lb" "k \<le> opt w (entries A)" "lb' < bound" "sol_cost s < bound"
    and r1: "answers heur w L solution_alloc 0 (bound - sol_cost s) r1"
  shows "r1 = None \<Longrightarrow> answers heur w A s lb bound None"
    "r1 = Some b1 \<Longrightarrow> s' = fold (\<lambda>j s. solution_add s w j) (sol_row b1) s \<Longrightarrow>
       asc (sol_row s') \<and> set (sol_row s') \<inter> snd ` entries R = {} \<and> (answers heur w R s' lb' bound r \<longrightarrow> answers heur w A s lb bound r)"
proof -
  note fL = finite_entries [OF L(1)] and fR = finite_entries [OF L(2)]
  note sp = split_opt [OF w fL fR L(4,5), folded L(3)]
  have z: "sol_cost solution_alloc = 0" "sol_row solution_alloc = []" by (simp_all add: solution_alloc_def)
  have nn: "0 \<le> opt w (entries R)" "0 \<le> opt w (entries L)" "0 \<le> cost w (snd ` entries R)" "0 \<le> cost w (snd ` entries L)"
    using opt_nonneg [OF fR w] opt_nonneg [OF fL w] cost_nonneg [OF w] by auto
  show "answers heur w A s lb bound None" if "r1 = None"
    using r1 that sp(1,3) z lb nn by (auto simp: answers_def)
  assume r: "r1 = Some b1" and s': "s' = fold (\<lambda>j s. solution_add s w j) (sol_row b1) s"
  have F: "found w L solution_alloc (bound - sol_cost s) b1" using r1 r by (simp add: answers_def)
  obtain X1 where X1: "X1 \<subseteq> snd ` entries L" "hits (entries L) X1" "grows w solution_alloc X1 b1" "sol_cost b1 < bound - sol_cost s"
    by (rule foundE [OF F])
  note g1 = growsD [OF X1(3), unfolded z, simplified]
  have LA: "snd ` entries L \<subseteq> snd ` entries A" "snd ` entries R \<subseteq> snd ` entries A" unfolding L(3) by auto
  have fX1: "finite X1" by (rule finite_subset [OF X1(1)]) (use fL in simp)
  have "X1 \<inter> set (sol_row s) = {}" using s(2) X1(1) LA(1) by blast
  then have "grows w s X1 s'" using add_fold [OF s(1) asc_distinct [OF g1(1)], of w] unfolding s' g1(2) by simp
  note g = growsD [OF this]
  have "set (sol_row s') \<inter> snd ` entries R = {}" unfolding g(2) by (rule apart_Un [OF s(2) LA(2) X1(1) L(5)])
  moreover have "answers heur w A s lb bound r" if a: "answers heur w R s' lb' bound r"
    unfolding answers_def
  proof (intro conjI allI impI)
    fix b assume "r = Some b"
    then have F: "found w R s' bound b" using a by (simp add: answers_def)
    obtain X where X: "X \<subseteq> snd ` entries R" "hits (entries R) X" "grows w s' X b" "sol_cost b < bound" by (rule foundE [OF F])
    have fX: "finite X" by (rule finite_subset [OF X(1)]) (use fR in simp)
    have "grows w s (X1 \<union> X) b" by (rule grows_trans [OF \<open>grows w s X1 s'\<close> X(3) fX1 fX]) (use X1(1) X(1) L(5) in blast)
    moreover have "hits (entries A) (X1 \<union> X)" unfolding L(3) using X1(2) X(2) by (force simp: hits_def)
    ultimately show "found w A s bound b" by (intro foundI [of "X1 \<union> X"]) (use X1(1) X(1) LA X(4) in \<open>auto\<close>)
  next
    assume c: "sol_cost s + cost w (snd ` entries A) < bound \<and> lb < bound"
    have "cost w X1 \<le> cost w (snd ` entries L)" by (rule cost_mono [OF w _ X1(1)]) (use fL in simp)
    then have "sol_cost s' + cost w (snd ` entries R) < bound" using c g(3) sp(3) by simp
    then show "r \<noteq> None" using a lb(3) by (simp add: answers_def)
  next
    assume c: "\<not> heur \<and> lb \<le> sol_cost s + opt w (entries A) \<and> sol_cost s + opt w (entries A) < bound"
    then have "\<exists>b. r1 = Some b \<and> sol_cost b \<le> opt w (entries L)"
      using r1 z sp(1) nn by (auto simp: answers_def)
    then have b1: "cost w X1 \<le> opt w (entries L)" using r g1(3) by simp
    have "opt w (entries A) \<le> cost w X1 + opt w (entries R)" by (rule sp(2) [OF fX1 X1(2,1)])
    then have "\<exists>b. r = Some b \<and> sol_cost b \<le> sol_cost s' + opt w (entries R)"
      using a c lb(1,2) g(3) b1 sp(1) by (auto simp: answers_def)
    then show "\<exists>b. r = Some b \<and> sol_cost b \<le> sol_cost s + opt w (entries A)" using g(3) b1 sp(1) by auto
  qed
  ultimately show "asc (sol_row s') \<and> set (sol_row s') \<inter> snd ` entries R = {} \<and> (answers heur w R s' lb' bound r \<longrightarrow> answers heur w A s lb bound r)"
    using g(1) by blast
qed

lemma branch_hits:
  assumes c: "\<And>i. i \<in> fst ` E \<Longrightarrow> \<exists>j. j \<noteq> p \<and> (i, j) \<in> E"
  shows "hits {e \<in> E. (fst e, p) \<notin> E} X \<Longrightarrow> hits E (insert p X)" "hits E X \<Longrightarrow> hits {e \<in> E. (fst e, p) \<notin> E} (X - {p})"
    "hits {e \<in> E. snd e \<noteq> p} X \<Longrightarrow> hits E X" "hits E X \<Longrightarrow> p \<notin> X \<Longrightarrow> hits {e \<in> E. snd e \<noteq> p} X"
proof -
  show "hits E (insert p X)" if h: "hits {e \<in> E. (fst e, p) \<notin> E} X"
  proof (rule hitsI)
    fix i j assume e: "(i, j) \<in> E"
    show "\<exists>k\<in>insert p X. (i, k) \<in> E"
    proof (cases "(i, p) \<in> E")
      case False
      then show ?thesis using hitsD [OF h, of i j] e by auto
    qed simp
  qed
  show "hits {e \<in> E. (fst e, p) \<notin> E} (X - {p})" if h: "hits E X"
    by (rule hitsI) (use hitsD [OF h] in fastforce)
  show "hits E X" if h: "hits {e \<in> E. snd e \<noteq> p} X"
  proof (rule hitsI)
    fix i j assume "(i, j) \<in> E"
    then obtain k where "k \<noteq> p" "(i, k) \<in> E" using c [of i] by force
    then show "\<exists>k\<in>X. (i, k) \<in> E" using hitsD [OF h, of i k] by auto
  qed
  show "hits {e \<in> E. snd e \<noteq> p} X" if h: "hits E X" "p \<notin> X"
    by (rule hitsI) (use hitsD [OF h(1)] h(2) in fastforce)
qed

lemma branch_opt:
  assumes w: "pos_weights w" and E: "finite E" and c: "\<And>i. i \<in> fst ` E \<Longrightarrow> \<exists>j. j \<noteq> p \<and> (i, j) \<in> E"
  defines "E1 \<equiv> {e \<in> E. (fst e, p) \<notin> E}" and "E2 \<equiv> {e \<in> E. snd e \<noteq> p}"
  shows "opt w E \<le> opt w E1 + WEIGHT w p" "opt w E \<le> opt w E2" "opt w E1 + WEIGHT w p \<le> opt w E \<or> opt w E2 \<le> opt w E"
proof -
  have f: "finite E1" "finite E2" using E by (simp_all add: E1_def E2_def)
  note b = branch_hits [OF c, folded E1_def E2_def]
  obtain X where X: "X \<subseteq> snd ` E1" "hits E1 X" "cost w X = opt w E1" by (rule opt_ex [OF f(1)])
  have fX: "finite X" by (rule finite_subset [OF X(1)]) (use f in simp)
  have "opt w E \<le> cost w (insert p X)" by (rule opt_le [OF E w _ b(1) [OF _ X(2)]]) (simp_all add: fX)
  also have "cost w (insert p X) = cost w X + WEIGHT w p" using X(1) fX by (subst cost_insert) (force simp: E1_def)+
  finally show "opt w E \<le> opt w E1 + WEIGHT w p" using X(3) by simp
  obtain Z where Z: "Z \<subseteq> snd ` E2" "hits E2 Z" "cost w Z = opt w E2" by (rule opt_ex [OF f(2)])
  have fZ: "finite Z" by (rule finite_subset [OF Z(1)]) (use f in simp)
  show "opt w E \<le> opt w E2" unfolding Z(3) [symmetric] by (rule opt_le [OF E w fZ b(3) [OF _ Z(2)]])
  obtain Y where Y: "Y \<subseteq> snd ` E" "hits E Y" "cost w Y = opt w E" by (rule opt_ex [OF E])
  have fY: "finite Y" by (rule finite_subset [OF Y(1)]) (use E in simp)
  show "opt w E1 + WEIGHT w p \<le> opt w E \<or> opt w E2 \<le> opt w E"
  proof (cases "p \<in> Y")
    case True
    have "opt w E1 \<le> cost w (Y - {p})" by (rule opt_le [OF f(1) w _ b(2) [OF _ Y(2)]]) (simp_all add: fY)
    moreover have "cost w Y = WEIGHT w p + cost w (Y - {p})"
      using cost_insert [of "Y - {p}" p w] True fY by (simp add: insert_absorb)
    ultimately show ?thesis using Y(3) by simp
  next
    case False
    have "opt w E2 \<le> cost w Y" by (rule opt_le [OF f(2) w fY b(4) [OF _ Y(2) False]])
    then show ?thesis using Y(3) by simp
  qed
qed

lemma tidy_other:
  assumes A: "wf_sm A" "tidy A" and i: "i \<in> fst ` entries A"
  shows "\<exists>j. j \<noteq> p \<and> (i, j) \<in> entries A"
proof (rule ccontr)
  assume "\<not> ?thesis"
  then have "set (row A i) \<subseteq> {p}" using row_facts(3) [OF A(1), of i] by auto
  then have "card (set (row A i)) \<le> 1" using card_mono [of "{p}" "set (row A i)"] by simp
  moreover have "2 \<le> length (row A i)" using A(2) i unfolding tidy_def by blast
  ultimately show False using distinct_card [OF row_facts(2) [OF A(1), of i]] by simp
qed

lemma answers_branch:
  assumes w: "pos_weights w" and A: "wf_sm A" "tidy A" and s: "asc (sol_row s)" "set (sol_row s) \<inter> snd ` entries A = {}"
    and p: "p \<in> snd ` entries A" and acc: "solution_accept s A w p = (s1, A1)"
    and lb: "lb' = max (sol_cost s + k) lb" "k \<le> opt w (entries A)" "lb' < bound"
  shows "wf_sm A1 \<and> asc (sol_row s1) \<and> set (sol_row s1) \<inter> snd ` entries A1 = {} \<and> nrows A1 < nrows A \<and> ncols A1 \<le> ncols A"
    "answers heur w A1 s1 lb' bound r1 \<Longrightarrow> heur \<Longrightarrow> answers heur w A s lb bound r1"
    "answers heur w A1 s1 lb' bound (Some b1) \<Longrightarrow> sol_cost b1 = lb' \<Longrightarrow> answers heur w A s lb bound (Some b1)"
    "answers heur w A1 s1 lb' bound r1 \<Longrightarrow>
       bound' = (case r1 of Some b1 \<Rightarrow> if bound > sol_cost b1 then sol_cost b1 else bound | None \<Rightarrow> bound) \<Longrightarrow>
       answers heur w (sm_delcol A p) s lb' bound' r2 \<Longrightarrow> answers heur w A s lb bound (solution_choose_best r1 r2)"
proof -
  note a = accept_spec [OF A(1) s(1) p acc]
  note g = growsD [OF a(3)]
  note fin = finite_entries [OF A(1)]
  have other: "\<exists>j. j \<noteq> p \<and> (i, j) \<in> entries A" if "i \<in> fst ` entries A" for i by (rule tidy_other [OF A that])
  note bh = branch_hits [OF other, folded a(2) sm_delcol_spec(2) [OF A(1)]]
    and bo = branch_opt [OF w fin other, folded a(2) sm_delcol_spec(2) [OF A(1)]]
  have sub: "fst ` entries A1 \<subseteq> fst ` entries A" "snd ` entries A1 \<subseteq> snd ` entries A" "p \<notin> snd ` entries A1"
    unfolding a(2) by (auto simp: image_iff)
  have sub2: "snd ` entries (sm_delcol A p) \<subseteq> snd ` entries A" unfolding sm_delcol_spec(2) [OF A(1)] by blast
  obtain i where i: "(i, p) \<in> entries A" using p by auto
  have "i \<in> fst ` entries A" "i \<notin> fst ` entries A1" using i unfolding a(2) by (auto intro: rev_image_eqI)
  then have "fst ` entries A1 \<subset> fst ` entries A" using sub(1) by blast
  then have "nrows A1 < nrows A" unfolding dimensions [OF A(1)] dimensions [OF a(1)] by (rule psubset_card_mono [rotated]) (simp add: fin)
  moreover have "ncols A1 \<le> ncols A" unfolding dimensions [OF A(1)] dimensions [OF a(1)] by (rule card_mono [OF _ sub(2)]) (simp add: fin)
  moreover have "set (sol_row s1) \<inter> snd ` entries A1 = {}" unfolding g(2) using s(2) sub(2,3) by blast
  ultimately show "wf_sm A1 \<and> asc (sol_row s1) \<and> set (sol_row s1) \<inter> snd ` entries A1 = {} \<and> nrows A1 < nrows A \<and> ncols A1 \<le> ncols A"
    using a(1) g(1) by blast
  have cp: "cost w {p} = WEIGHT w p" by (simp add: cost_def)
  have nn: "0 \<le> opt w (entries A1)" by (rule opt_nonneg [OF finite_entries [OF a(1)] w])
  have all: "sol_cost s1 + cost w (snd ` entries A1) \<le> sol_cost s + cost w (snd ` entries A)"
  proof -
    have "cost w (insert p (snd ` entries A1)) \<le> cost w (snd ` entries A)" by (rule cost_mono [OF w]) (use fin sub(2) p in auto)
    moreover have "cost w (insert p (snd ` entries A1)) = WEIGHT w p + cost w (snd ` entries A1)"
      by (rule cost_insert) (use sub(3) finite_entries [OF a(1)] in auto)
    ultimately show ?thesis using g(3) cp by simp
  qed
  have f1: "found w A s bound b" if F: "found w A1 s1 bound b" for b
  proof -
    obtain X where X: "X \<subseteq> snd ` entries A1" "hits (entries A1) X" "grows w s1 X b" "sol_cost b < bound" by (rule foundE [OF F])
    have fX: "finite X" by (rule finite_subset [OF X(1)]) (use finite_entries [OF a(1)] in simp)
    have "grows w s ({p} \<union> X) b" by (rule grows_trans [OF a(3) X(3) _ fX]) (use X(1) sub(3) in auto)
    then show ?thesis using bh(1) [OF _ X(2)] X(1,4) sub(2) p by (intro foundI [of "insert p X"]) auto
  qed
  have f2: "found w A s bound b" if F: "found w (sm_delcol A p) s bound'' b" "bound'' \<le> bound" for b bound''
  proof -
    obtain X where X: "X \<subseteq> snd ` entries (sm_delcol A p)" "hits (entries (sm_delcol A p)) X" "grows w s X b" "sol_cost b < bound''"
      by (rule foundE [OF F(1)])
    show ?thesis using bh(3) [OF _ X(2)] X sub2 F(2) by (intro foundI [of X]) auto
  qed
  show "answers heur w A s lb bound r1" if r: "answers heur w A1 s1 lb' bound r1" heur
    using r f1 all lb(3) by (auto simp: answers_def)
  show "answers heur w A s lb bound (Some b1)" if r: "answers heur w A1 s1 lb' bound (Some b1)" "sol_cost b1 = lb'"
    using r f1 lb by (auto simp: answers_def)
  assume r1: "answers heur w A1 s1 lb' bound r1" and b': "bound' = (case r1 of Some b1 \<Rightarrow> if bound > sol_cost b1 then sol_cost b1 else bound | None \<Rightarrow> bound)"
    and r2: "answers heur w (sm_delcol A p) s lb' bound' r2"
  have le: "bound' \<le> bound" unfolding b' by (auto split: option.split)
  show "answers heur w A s lb bound (solution_choose_best r1 r2)"
    unfolding answers_def
  proof (intro conjI allI impI)
    fix b assume "solution_choose_best r1 r2 = Some b"
    then have "r1 = Some b \<or> r2 = Some b" by (auto simp: solution_choose_best_def split: option.splits if_splits)
    then show "found w A s bound b" using f1 f2 [OF _ le] r1 r2 by (auto simp: answers_def)
  next
    assume "sol_cost s + cost w (snd ` entries A) < bound \<and> lb < bound"
    then have "r1 \<noteq> None" using r1 all lb(3) by (auto simp: answers_def)
    then show "solution_choose_best r1 r2 \<noteq> None" by (auto simp: solution_choose_best_def split: option.splits)
  next
    assume c: "\<not> heur \<and> lb \<le> sol_cost s + opt w (entries A) \<and> sol_cost s + opt w (entries A) < bound"
    let ?m = "sol_cost s + opt w (entries A)"
    have "(\<exists>b. r1 = Some b \<and> sol_cost b \<le> ?m) \<or> (\<exists>b. r2 = Some b \<and> sol_cost b \<le> ?m)"
    proof (cases "opt w (entries A1) + WEIGHT w p \<le> opt w (entries A)")
      case True
      then show ?thesis using r1 c bo(1) lb(1,2) g(3) cp by (auto simp: answers_def)
    next
      case False
      then have o: "opt w (entries (sm_delcol A p)) = opt w (entries A)" using bo(2,3) by simp
      show ?thesis
      proof (cases "?m < bound'")
        case True
        then show ?thesis using r2 c lb(1,2) o by (auto simp: answers_def)
      next
        case False
        then show ?thesis using c b' by (auto split: option.splits if_splits)
      qed
    qed
    then show "\<exists>b. solution_choose_best r1 r2 = Some b \<and> sol_cost b \<le> ?m"
      by (auto simp: solution_choose_best_def split: option.split)
  qed
qed

declare sm_mincov.simps [simp del]

lemma part_dims:
  assumes A: "wf_sm A" and L: "wf_sm L" "wf_sm R" "entries A = entries L \<union> entries R"
    "fst ` entries L \<inter> fst ` entries R = {}" "entries R \<noteq> {}"
  shows "nrows L < nrows A" "ncols L \<le> ncols A"
proof -
  have f: "finite (fst ` entries A)" "finite (snd ` entries A)" using finite_entries [OF A] by simp_all
  obtain e where "e \<in> entries R" using L(5) by blast
  then have "fst e \<in> fst ` entries A" "fst e \<notin> fst ` entries L" using L(3,4) by auto
  moreover have "fst ` entries L \<subseteq> fst ` entries A" unfolding L(3) by blast
  ultimately have "fst ` entries L \<subset> fst ` entries A" by blast
  then show "nrows L < nrows A" unfolding dimensions [OF A] dimensions [OF L(1)] by (rule psubset_card_mono [OF f(1)])
  show "ncols L \<le> ncols A" unfolding dimensions [OF A] dimensions [OF L(1)] by (rule card_mono [OF f(2)]) (unfold L(3), blast)
qed

lemma sm_mincov_spec:
  assumes fo: "positive_values fo" and w: "pos_weights w"
  shows "wf_sm A \<Longrightarrow> asc (sol_row s) \<Longrightarrow> set (sol_row s) \<inter> snd ` entries A = {} \<Longrightarrow> nrows A + ncols A < n \<Longrightarrow>
    \<exists>r. sm_mincov n fo heur A s w lb bound = Inr r \<and> answers heur w A s lb bound r"
proof (induction n arbitrary: A s lb bound)
  case (Suc n A0 s0 lb0 bound0)
  obtain A s Y where se: "select_essential (Suc (nrows A0 + ncols A0)) A0 s0 w bound0 = Inr (A, s)" and A: "wf_sm A" "entries A \<subseteq> entries A0"
    and red: "reduces w (entries A0) Y (entries A)" and g: "grows w s0 Y s" and dims: "nrows A \<le> nrows A0" "ncols A \<le> ncols A0"
    and tidy: "sol_cost s < bound0 \<longrightarrow> tidy A"
    using select_essential_spec [OF w Suc.prems(1,2), of "Suc (nrows A0 + ncols A0)" bound0] by blast
  note red' = answers_reduce [OF w Suc.prems(1) A(1) red g]
  note gd = growsD [OF g]
  have dis: "set (sol_row s) \<inter> snd ` entries A = {}"
    unfolding gd(2) using Suc.prems(3) reducesD(2,4) [OF red] by blast
  note step = sm_mincov.simps(2) [of n fo heur A0 s0 w lb0 bound0, unfolded se rbind.simps prod.case]
  show ?case
  proof (cases "sol_cost s \<ge> bound0")
    case True
    have "answers heur w A s lb0 bound0 None"
      using True opt_nonneg [OF finite_entries [OF A(1)] w] cost_nonneg [OF w, of "snd ` entries A"] by (auto simp: answers_def)
    then show ?thesis using red' True by (auto simp: step)
  next
    case below: False
    then have tidy: "tidy A" using tidy by simp
    then have rm: "row_minimal (entries A)" by (simp add: tidy_def)
    show ?thesis
    proof (cases "if w = None then gimpel_reduce A else None")
      case (Some q)
      then obtain A' js c1 c2 where q: "q = (A', js, c1, c2)" by (cases q) auto
      have wN: "w = None" and gim: "gimpel_reduce A = Some (A', js, c1, c2)" using Some q by (auto split: if_splits)
      note ag = answers_gimpel [OF A(1) rm gd(1) dis gim]
      have "set (sol_row s) \<inter> snd ` entries A' = {}" using dis ag(3) by blast
      then obtain r where r: "sm_mincov n fo heur A' s w (lb0 - 1) (bound0 - 1) = Inr r" "answers heur w A' s (lb0 - 1) (bound0 - 1) r"
        using Suc.IH [OF ag(2) gd(1), of "lb0 - 1" "bound0 - 1"] ag(4,5) dims Suc.prems(4) by auto
      show ?thesis using below red' [OF ag(1) [OF r(2) [unfolded wN], folded wN]] by (simp add: step Some q r(1))
    next
      case None
      note step' = step [unfolded None option.case if_not_P [OF below]]
      obtain k where k: "sm_maximal_independent_set A w = Inr k" "sol_cost k \<le> opt w (entries A)"
        "set (sol_row k) \<subseteq> fst ` entries A" "entries A \<noteq> {} \<longrightarrow> sol_row k \<noteq> []" using independent_set_spec [OF A(1) w] by blast
      define lb where "lb = max (sol_cost s + sol_cost k) lb0"
      note step2 = step' [unfolded k(1) rbind.simps Let_def, folded lb_def]
      show ?thesis
      proof (cases "lb \<ge> bound0")
        case True
        then show ?thesis using red' [OF answers_bounded [OF w A(1) _ k(2)]] by (simp add: step2 lb_def)
      next
        case lt: False
        show ?thesis
        proof (cases "nrows A = 0")
          case True
          then have "entries A = {}" using dimensions(1) [OF A(1)] finite_entries [OF A(1)] by simp
          moreover have "solution_dup s = s" by (simp add: solution_dup_def row_dup_eq gd(1))
          ultimately show ?thesis using red' [OF answers_empty [OF gd(1)]] lt below True by (simp add: step2)
        next
          case rows: False
          then have "entries A \<noteq> {}" using dimensions(1) [OF A(1)] by auto
          obtain part where part: "sm_block_partition A = Inr part" "\<forall>L R. part = Some (L, R) \<longrightarrow> wf_sm L \<and> wf_sm R \<and> entries L \<union> entries R = entries A
            \<and> fst ` entries L \<inter> fst ` entries R = {} \<and> snd ` entries L \<inter> snd ` entries R = {} \<and> entries L \<noteq> {} \<and> entries R \<noteq> {}"
            using block_partition_spec [OF A(1)] by blast
          note step3 = step2 [unfolded if_not_P [OF lt] if_not_P [OF rows] part(1) rbind.simps]
          show ?thesis
          proof (cases part)
            case (Some LR0)
            obtain L0 R0 where LR0: "LR0 = (L0, R0)" by (cases LR0)
            define L where "L = (if ncols L0 > ncols R0 then R0 else L0)"
            define R where "R = (if ncols L0 > ncols R0 then L0 else R0)"
            have swap: "(if ncols L0 > ncols R0 then (R0, L0) else (L0, R0)) = (L, R)" by (simp add: L_def R_def)
            have "wf_sm L0 \<and> wf_sm R0 \<and> entries L0 \<union> entries R0 = entries A
              \<and> fst ` entries L0 \<inter> fst ` entries R0 = {} \<and> snd ` entries L0 \<inter> snd ` entries R0 = {} \<and> entries L0 \<noteq> {} \<and> entries R0 \<noteq> {}"
              using part(2) Some LR0 by blast
            then have LR: "wf_sm L" "wf_sm R" "entries A = entries L \<union> entries R" "fst ` entries L \<inter> fst ` entries R = {}"
              "snd ` entries L \<inter> snd ` entries R = {}" "entries L \<noteq> {}" "entries R \<noteq> {}" by (simp_all add: L_def R_def Un_commute Int_commute)
            have dL: "nrows L < nrows A" "ncols L \<le> ncols A" and dR: "nrows R < nrows A" "ncols R \<le> ncols A"
              using part_dims [OF A(1) LR(1,2)] LR part_dims [OF A(1) LR(2,1)] by (simp_all add: Un_commute Int_commute)
            note eq = step3 [unfolded Some option.case LR0 prod.case swap]
            have z: "asc (sol_row solution_alloc)" "set (sol_row solution_alloc) = {}" by (simp_all add: solution_alloc_def)
            obtain r1 where r1: "sm_mincov n fo heur L solution_alloc w 0 (bound0 - sol_cost s) = Inr r1"
              "answers heur w L solution_alloc 0 (bound0 - sol_cost s) r1"
              using Suc.IH [OF LR(1) z(1), of 0 "bound0 - sol_cost s"] z(2) dL dims Suc.prems(4) by auto
            note ap = answers_partition [OF w gd(1) dis LR(1-5) lb_def k(2) _ _ r1(2)]
            show ?thesis
            proof (cases r1)
              case None
              then show ?thesis using red' [OF ap(1)] lt below by (simp add: eq r1(1))
            next
              case (Some b1)
              let ?s = "fold (\<lambda>j select. solution_add select w j) (sol_row b1) s"
              have s': "asc (sol_row ?s)" "set (sol_row ?s) \<inter> snd ` entries R = {}"
                "\<And>r. answers heur w R ?s lb bound0 r \<Longrightarrow> answers heur w A s lb0 bound0 r"
                using ap(2) [OF _ _ Some refl] lt below by (simp_all add: not_le)
              obtain r where r: "sm_mincov n fo heur R ?s w lb bound0 = Inr r" "answers heur w R ?s lb bound0 r"
                using Suc.IH [OF LR(2) s'(1,2), of lb bound0] dR dims Suc.prems(4) by auto
              show ?thesis using red' [OF s'(3) [OF r(2)]] by (simp add: eq r1(1) Some r(1))
            qed
          next
            case None
            obtain p where p: "select_column fo A w (Some k) = Some p" "p \<in> snd ` entries A"
              using select_column_spec [OF fo w A(1) tidy k(3)] k(4) \<open>entries A \<noteq> {}\<close> by blast
            obtain s1 A1 where acc: "solution_accept s A w p = (s1, A1)" by (cases "solution_accept s A w p")
            have dup: "solution_dup s = s" by (simp add: solution_dup_def row_dup_eq gd(1))
            have lt': "lb < bound0" using lt by simp
            note ab = answers_branch [OF w A(1) tidy gd(1) dis p(2) acc lb_def k(2) lt']
            note eq = step3 [unfolded None option.case p(1) dup sm_dup_eq [OF A(1)] acc prod.case]
            obtain r1 where r1: "sm_mincov n fo heur A1 s1 w lb bound0 = Inr r1" "answers heur w A1 s1 lb bound0 r1"
              using Suc.IH [of A1 s1 lb bound0] ab(1) dims Suc.prems(4) by auto
            note eq1 = eq [unfolded r1(1) rbind.simps]
            show ?thesis
            proof (cases "heur \<or> (case r1 of Some b1 \<Rightarrow> sol_cost b1 = lb | None \<Rightarrow> False)")
              case True
              then have "answers heur w A s lb0 bound0 r1" using ab(2) [OF r1(2)] ab(3) r1(2) by (auto split: option.splits)
              then show ?thesis using red' True by (auto simp: eq1)
            next
              case False
              define bd where "bd = (case r1 of Some b1 \<Rightarrow> if bound0 > sol_cost b1 then sol_cost b1 else bound0 | None \<Rightarrow> bound0)"
              note eq2 = eq1 [folded bd_def]
              have d: "ncols (sm_delcol A p) < ncols A" "nrows (sm_delcol A p) \<le> nrows A" by (rule delcol_dims [OF A(1) p(2)])+
              have "set (sol_row s) \<inter> snd ` entries (sm_delcol A p) = {}"
                unfolding sm_delcol_spec(2) [OF A(1)] using dis by blast
              then obtain r2 where r2: "sm_mincov n fo heur (sm_delcol A p) s w lb bd = Inr r2" "answers heur w (sm_delcol A p) s lb bd r2"
                using Suc.IH [OF sm_delcol_spec(1) [OF A(1)] gd(1), of p lb bd] d dims Suc.prems(4) by auto
              have "sm_mincov (Suc n) fo heur A0 s0 w lb0 bound0 = Inr (solution_choose_best r1 r2)"
                unfolding eq2 solution_reject_def using False r2(1) by simp
              then show ?thesis using red' [OF ab(4) [OF r1(2) bd_def r2(2)]] by blast
            qed
          qed
        qed
      qed
    qed
  qed
qed (simp add: sm_mincov.simps)

section \<open>Minimum covers\<close>

lemma bound_fold:
  assumes "distinct (map fst hs)"
  shows "fold (\<lambda>pcol bound. bound + WEIGHT w (fst pcol)) hs b = b + cost w (fst ` set hs)"
  using assms by (induction hs arbitrary: b) (simp_all add: cost_insert)

lemma verify_cover_iff:
  assumes A: "wf_sm A" and X: "asc xs"
  shows "verify_cover A xs \<longleftrightarrow> hits (entries A) (set xs)"
proof -
  have "verify_cover A xs \<longleftrightarrow> (\<forall>i\<in>fst ` entries A. sm_row_intersects (row A i) xs)"
    unfolding verify_cover_def list_all_iff keys_entries(1) [OF A, symmetric] using header_row [OF A] by auto
  also have "\<dots> \<longleftrightarrow> (\<forall>i\<in>fst ` entries A. set (row A i) \<inter> set xs \<noteq> {})" by (simp add: row_intersects_iff row_facts(1) [OF A] X)
  also have "\<dots> \<longleftrightarrow> hits (entries A) (set xs)" unfolding row_facts(3) [OF A] hits_def by blast
  finally show ?thesis .
qed

lemma minimum_cover:
  assumes A: "wf_sm A" and fo: "positive_values fo" and w: "pos_weights w"
  shows "\<exists>xs. sm_minimum_cover fo A w heur = Inr xs \<and> asc xs \<and> set xs \<subseteq> snd ` entries A \<and> hits (entries A) (set xs)
    \<and> (\<not> heur \<longrightarrow> cost w (set xs) = opt w (entries A))"
proof (cases "nrows A = 0")
  case True
  then have "entries A = {}" using dimensions(1) [OF A] finite_entries [OF A] by simp
  moreover have "opt w {} = 0" by (simp add: opt_def hits_def)
  ultimately show ?thesis using True by (simp add: sm_minimum_cover_def hits_def)
next
  case False
  let ?bound = "fold (\<lambda>pcol bound. bound + WEIGHT w (fst pcol)) (sm_cols A) 1"
  have wf: "wf_headers (sm_cols A)" by (rule wf_smD(2) [OF A])
  have b: "?bound = 1 + cost w (snd ` entries A)" using bound_fold [OF wf_headersD(2) [OF wf]] keys_entries(2) [OF A] by simp
  have o: "0 \<le> opt w (entries A)" "opt w (entries A) \<le> cost w (snd ` entries A)"
    using opt_nonneg [OF finite_entries [OF A] w] opt_le_all [OF finite_entries [OF A] w] by auto
  have z: "sol_row solution_alloc = []" "sol_cost solution_alloc = 0" by (simp_all add: solution_alloc_def)
  obtain r where r: "sm_mincov (Suc (nrows A + ncols A)) fo heur A solution_alloc w 0 ?bound = Inr r"
    "answers heur w A solution_alloc 0 ?bound r"
    using sm_mincov_spec [OF fo w A, of solution_alloc "Suc (nrows A + ncols A)" heur 0 ?bound] z by auto
  then obtain s where s: "r = Some s" "found w A solution_alloc ?bound s" "\<not> heur \<longrightarrow> sol_cost s \<le> opt w (entries A)"
    using z o b by (auto simp: answers_def)
  obtain X where X: "X \<subseteq> snd ` entries A" "hits (entries A) X" "grows w solution_alloc X s" by (rule foundE [OF s(2)])
  note g = growsD [OF X(3), unfolded z, simplified]
  have fX: "finite X" by (rule finite_subset [OF X(1)]) (simp add: finite_entries [OF A])
  have "verify_cover A (sol_row s)" using verify_cover_iff [OF A g(1)] X(2) g(2) by simp
  then have "sm_minimum_cover fo A w heur = Inr (sol_row s)"
    using False r(1) s(1) by (simp add: sm_minimum_cover_def sm_dup_eq [OF A] row_dup_eq [OF g(1)])
  moreover have "\<not> heur \<longrightarrow> cost w X = opt w (entries A)"
    using s(3) g(3) opt_le [OF finite_entries [OF A] w fX X(2)] by simp
  ultimately show ?thesis using g X by simp
qed

text \<open>
  C15. Without the heuristic, the branch and bound of the covering package returns, for every matrix and positive weights,
  a set of columns that meets every row and weighs no more than any other such set.
\<close>

theorem minimum_cover_exact:
  assumes "wf_sm A" "positive_values fo" "pos_weights w"
  shows "\<exists>xs. sm_minimum_cover fo A w False = Inr xs \<and> asc xs \<and> set xs \<subseteq> snd ` entries A \<and> hits (entries A) (set xs)
    \<and> (\<forall>Y. finite Y \<longrightarrow> hits (entries A) Y \<longrightarrow> cost w (set xs) \<le> cost w Y)"
  using minimum_cover [OF assms, of False] opt_le [OF finite_entries [OF assms(1)] assms(3)] by auto

text \<open>
  C16. With positive column weights (or none, when each column weighs one), the heuristic search of the covering
  package comes to an end, for every matrix, with a set of columns that meets every row. (As for the exact search, the floating-point
  operations are those of any arithmetic in which the column values are positive.)
\<close>

theorem heuristic_covers:
  assumes "wf_sm A" "positive_values fo" "pos_weights w"
  shows "\<exists>xs. sm_minimum_cover fo A w True = Inr xs \<and> asc xs \<and> set xs \<subseteq> snd ` entries A \<and> (\<forall>i j. (i, j) \<in> entries A \<longrightarrow> (\<exists>k\<in>set xs. (i, k) \<in> entries A))"
  using minimum_cover [OF assms, of True] hitsD by blast

text \<open>The rational numbers as an instance of the arithmetic.\<close>

definition rat_ops :: "rat float_ops" where
  "rat_ops = \<lparr>f_of_int = of_int, f_add = (+), f_sub = (-), f_div = (/), f_greater = (>)\<rparr>"

lemma rat_ops_positive: "positive_values rat_ops"
proof -
  have "0 \<le> fold (\<lambda>l w. w + 1 / (of_int l - 1)) ls (x :: rat)" if "\<forall>l\<in>set ls. 2 \<le> l" "0 \<le> x" for ls x
    using that by (induction ls arbitrary: x) (auto simp: add_nonneg_nonneg)
  from this [of _ 0] have "- 1 < fold (\<lambda>l w. w + 1 / (of_int l - 1)) ls 0 / (of_int v :: rat)" if "\<forall>l\<in>set ls. 2 \<le> l" "0 < v" for ls v
    using that divide_nonneg_pos [of "fold (\<lambda>l w. w + 1 / (of_int l - 1)) ls 0" "of_int v :: rat"] by fastforce
  then show ?thesis by (simp add: positive_values_def rat_ops_def)
qed

text \<open>Five columns around a circle, each in two rows, which need three.\<close>

definition circle :: sm_matrix where
  "circle = fold (\<lambda>i A. sm_insert (sm_insert A i i) i (Suc i mod 5)) [0..<5] sm_alloc"

lemma circle_wf: "wf_sm circle"
proof -
  have "wf_sm (fold (\<lambda>i A. sm_insert (sm_insert A i i) i (Suc i mod 5)) xs A)" if "wf_sm A" for xs A
    using that by (induction xs arbitrary: A) (simp_all add: sm_insert_spec)
  then show ?thesis unfolding circle_def by simp
qed

lemma minimum_cover_exact_witness:
  "\<exists>xs. sm_minimum_cover rat_ops circle None False = Inr xs \<and> asc xs \<and> set xs \<subseteq> snd ` entries circle \<and> hits (entries circle) (set xs)
    \<and> (\<forall>Y. finite Y \<longrightarrow> hits (entries circle) Y \<longrightarrow> cost None (set xs) \<le> cost None Y)"
  by (rule minimum_cover_exact [OF circle_wf rat_ops_positive positive_None])

lemma heuristic_covers_witness:
  "\<exists>xs. sm_minimum_cover rat_ops circle (Some (\<lambda>j. int j + 1)) True = Inr xs \<and> asc xs \<and> set xs \<subseteq> snd ` entries circle
    \<and> (\<forall>i j. (i, j) \<in> entries circle \<longrightarrow> (\<exists>k\<in>set xs. (i, k) \<in> entries circle))"
  by (rule heuristic_covers [OF circle_wf rat_ops_positive]) (simp add: pos_weights_def WEIGHT_def add_pos_pos)

end
