(* ===== verification/Irred.thy ===== *)
theory Irred
  imports Reduce Branch
begin

text \<open>
  The irredundant cover (\<^verbatim>\<open>irred.c\<close>): the cubes are split into relatively essential, totally redundant and
  partially redundant ones; a table says which choices of partially redundant cubes cover what they cover together, and
  the covering package makes the choice.
\<close>

section \<open>The split\<close>

text \<open>
  The two loops of \<^verbatim>\<open>irred_split_cover\<close>: each cube, with its position when it is in the list itself, goes to the
  first family if the list covers it, to the second if not.
\<close>

fun split_loop :: "nat \<Rightarrow> cube_struct \<Rightarrow> memory \<Rightarrow> cubelist \<Rightarrow> (pset \<times> nat option) list \<Rightarrow>
    set_family \<times> set_family \<Rightarrow> (set_family \<times> set_family) res" where
  "split_loop k C mem T [] (Y, N) = Inr (Y, N)"
| "split_loop k C mem T ((p, self) # ps) (Y, N) =
     rbind (cube_is_covered k C T p self) (\<lambda>b.
       split_loop k C mem T ps (if b then (sf_addset mem Y p, N) else (Y, sf_addset mem N p)))"

text \<open>The result is the cover with its cubes numbered, and \<open>E\<close>, \<open>Rt\<close>, \<open>Rp\<close>.\<close>

definition irred_split_cover :: "nat \<Rightarrow> cube_struct \<Rightarrow> memory \<Rightarrow> set_family \<Rightarrow> set_family \<Rightarrow>
    (set_family \<times> set_family \<times> set_family \<times> set_family) res" where
  "irred_split_cover k C mem F D =
     (let F = F\<lparr>data := map2 PUTSIZE (data F) [0..<cnt F]\<rparr>
      in rbind (split_loop k C mem (cube2list C F D) (map2 (\<lambda>p i. (p, Some i)) (data F) [0..<cnt F]) (new_cover C 10, new_cover C 10))
           (\<lambda>(R, E). rbind (split_loop k C mem (cube2list C E D) (map (\<lambda>p. (p, None)) (data R)) (new_cover C 10, new_cover C 10))
              (\<lambda>(Rt, Rp). Inr (F, E, Rt, Rp))))"

section \<open>The table\<close>

definition next_row :: "sm_matrix \<Rightarrow> nat" where
  "next_row table = (if sm_rows table = [] then 0 else fst (last (sm_rows table)) + 1)"

text \<open>From the label \<^verbatim>\<open>start\<close> on; \<open>cur\<close> is \<^verbatim>\<open>Rp_current\<close>.\<close>

fun ftaut_start :: "nat \<Rightarrow> cube_struct \<Rightarrow> nat \<Rightarrow> cubelist \<Rightarrow> sm_matrix \<Rightarrow> sm_matrix verdict res" where
  "ftaut_start 0 C cur T table = Inl Nofuel"
| "ftaut_start (Suc n) C cur T table =
     (let cd = massive_count C T in
      if vars_unate cd = vars_active cd then
        (let rownum = next_row table; table = sm_insert table rownum cur
         in Inr (Answer (fold (\<lambda>p table.
              if TESTP p REDUND \<and> full_row C p (cof T) then sm_insert table rownum (SIZE p) else table) (cubes T) table)))
      else if vars_unate cd \<noteq> 0 then ftaut_start n C cur (unate_reduce C T (unate_ceil C cd (new_cube C))) table
      else Inr (Split T cd))"

definition ftaut_special_cases :: "cube_struct \<Rightarrow> nat \<Rightarrow> cubelist \<Rightarrow> sm_matrix \<Rightarrow> sm_matrix verdict res" where
  "ftaut_special_cases C cur T table =
     (if list_ex (\<lambda>p. \<not> TESTP p REDUND \<and> full_row C p (cof T)) (cubes T) then Inr (Answer table)
      else ftaut_start (Suc (CUBELISTSIZE T)) C cur T table)"

fun ftautology :: "nat \<Rightarrow> cube_struct \<Rightarrow> nat \<Rightarrow> cubelist \<Rightarrow> sm_matrix \<Rightarrow> sm_matrix res" where
  "ftautology 0 C cur T table = Inl Nofuel"
| "ftautology (Suc k) C cur T table =
     rbind (ftaut_special_cases C cur T table) (\<lambda>s.
       case s of
         Answer table \<Rightarrow> Inr table
       | Split T cd \<Rightarrow>
           (let (cl, cr, best) = binate_split_select C T cd (new_cube C) (new_cube C)
            in rbind (ftautology k C cur (scofactor C T cl best None) table)
                 (ftautology k C cur (scofactor C T cr best None))))"

definition fcube_is_covered :: "nat \<Rightarrow> cube_struct \<Rightarrow> nat \<Rightarrow> cubelist \<Rightarrow> pset \<Rightarrow> nat option \<Rightarrow> sm_matrix \<Rightarrow> sm_matrix res" where
  "fcube_is_covered k C cur T c self table = ftautology k C cur (cofactor C T c self) table"

text \<open>The loop over the partially redundant cubes; the list points to them, so that it sees their flags change.\<close>

fun derive_loop :: "nat \<Rightarrow> cube_struct \<Rightarrow> set_family \<Rightarrow> set_family \<Rightarrow> nat list \<Rightarrow> set_family \<times> sm_matrix \<times> nat \<Rightarrow> sm_matrix res" where
  "derive_loop k C D E [] (Rp, table, size_last) = Inr table"
| "derive_loop k C D E (i # is) (Rp, table, size_last) =
     (let p = data Rp ! i
      in rbind (fcube_is_covered k C (SIZE p) (cube3list C D E Rp) p (Some (cnt D + cnt E + i)) table) (\<lambda>table.
         let Rp = Rp\<lparr>data := (data Rp)[i := RESET p REDUND]\<rparr>
         in if int (nrows table) - int size_last > 1000
            then (let (_, table) = sm_row_dominance table in derive_loop k C D E is (Rp, table, nrows table))
            else derive_loop k C D E is (Rp, table, size_last)))"

text \<open>The table, and \<open>D\<close> with its flags.\<close>

definition irred_derive_table :: "nat \<Rightarrow> cube_struct \<Rightarrow> set_family \<Rightarrow> set_family \<Rightarrow> set_family \<Rightarrow> (sm_matrix \<times> set_family) res" where
  "irred_derive_table k C D E Rp =
     (let D = D\<lparr>data := map (\<lambda>p. RESET p REDUND) (data D)\<rparr>;
          E = E\<lparr>data := map (\<lambda>p. RESET p REDUND) (data E)\<rparr>;
          Rp = Rp\<lparr>data := map (\<lambda>p. SET p REDUND) (data Rp)\<rparr>
      in rmap (\<lambda>table. (table, D)) (derive_loop k C D E [0..<cnt Rp] (Rp, sm_alloc, 0)))"

section \<open>Marking the cubes to keep\<close>

fun mark_essen :: "set_family \<Rightarrow> pset list \<Rightarrow> set_family res" where
  "mark_essen F [] = Inr F"
| "mark_essen F (p # ps) =
     (let p1 = data F ! SIZE p
      in if \<not> setp_equal p1 p then Inl (Fatal ''assertion'')
         else mark_essen (F\<lparr>data := (data F)[SIZE p := SET (SET p1 ACTIVE) RELESSEN]\<rparr>) ps)"

definition mark_irredundant :: "nat \<Rightarrow> 'f float_ops \<Rightarrow> cube_struct \<Rightarrow> memory \<Rightarrow> set_family \<Rightarrow> set_family \<Rightarrow>
    (set_family \<times> set_family) res" where
  "mark_irredundant k fo C mem F D =
     rbind (irred_split_cover k C mem F D) (\<lambda>(F, E, Rt, Rp).
     rbind (irred_derive_table k C D E Rp) (\<lambda>(table, D).
     rbind (sm_minimum_cover fo table None True) (\<lambda>cover.
       let F = F\<lparr>data := map (\<lambda>p. RESET (RESET p ACTIVE) RELESSEN) (data F)\<rparr>
       in rbind (mark_essen F (data E)) (\<lambda>F.
          Inr (fold (\<lambda>j F. F\<lparr>data := (data F)[j := SET (data F ! j) ACTIVE]\<rparr>) cover F, D)))))"

definition irredundant :: "nat \<Rightarrow> 'f float_ops \<Rightarrow> cube_struct \<Rightarrow> memory \<Rightarrow> set_family \<Rightarrow> set_family \<Rightarrow>
    (set_family \<times> set_family) res" where
  "irredundant k fo C mem F D = rmap (\<lambda>(F, D). (sf_inactive F, D)) (mark_irredundant k fo C mem F D)"

section \<open>What the rows of the table mean\<close>

text \<open>
  For a choice \<open>X\<close> of numbers, the cubes of a list that are there in any case or chosen. The rows \<open>N\<close> that a list
  contributes are hit by \<open>X\<close> exactly if the current cube is chosen or the cubes in question cover the subspace of the list.
\<close>

definition chosen :: "nat set \<Rightarrow> cubelist \<Rightarrow> cubelist" where
  "chosen X T = T\<lparr>cubes := filter (\<lambda>p. \<not> TESTP p REDUND \<or> SIZE p \<in> X) (cubes T)\<rparr>"

definition rows_mean :: "cube_struct \<Rightarrow> nat \<Rightarrow> cubelist \<Rightarrow> sm_matrix \<Rightarrow> sm_matrix \<Rightarrow> bool" where
  "rows_mean C cur T table table' \<longleftrightarrow> wf_sm table' \<and> (\<exists>N. entries table' = entries table \<union> N \<and> fst ` entries table \<inter> fst ` N = {}
     \<and> snd ` N \<subseteq> insert cur (SIZE ` {p \<in> set (cubes T). TESTP p REDUND}) \<and> (\<forall>X. hits N X \<longleftrightarrow> cur \<in> X \<or> tauto C (chosen X T)))"

lemma chosen_simps [simp]: "cof (chosen X T) = cof T" "free C (chosen X T) x \<longleftrightarrow> free C T x" "wf_list C T \<Longrightarrow> wf_list C (chosen X T)"
  by (auto simp: chosen_def free_def wf_list_def)

lemma hits_Un: "fst ` E1 \<inter> fst ` E2 = {} \<Longrightarrow> hits (E1 \<union> E2) X \<longleftrightarrow> hits E1 X \<and> hits E2 X"
proof
  assume r: "fst ` E1 \<inter> fst ` E2 = {}"
  show "hits E1 X \<and> hits E2 X" if "hits (E1 \<union> E2) X" using split_hits [OF r that] by (auto intro: hits_mono)
  show "hits (E1 \<union> E2) X" if "hits E1 X \<and> hits E2 X" using that by (force simp: hits_def)
qed

lemma hits_empty [simp]: "hits {} X"
  by (simp add: hits_def)

lemma rows_mean_refl: "wf_sm table \<Longrightarrow> (\<And>X. cur \<in> X \<or> tauto C (chosen X T)) \<Longrightarrow> rows_mean C cur T table table"
  unfolding rows_mean_def by (intro conjI exI [of _ "{}"]) auto

lemma rows_meanE:
  assumes "rows_mean C cur T a b"
  obtains N where "wf_sm b" "entries b = entries a \<union> N" "fst ` entries a \<inter> fst ` N = {}"
    "snd ` N \<subseteq> insert cur (SIZE ` {p \<in> set (cubes T). TESTP p REDUND})" "\<forall>X. hits N X \<longleftrightarrow> cur \<in> X \<or> tauto C (chosen X T)"
  using assms unfolding rows_mean_def by (elim exE conjE) simp

lemma rows_mean_mono:
  assumes r: "rows_mean C cur T a b" and s: "set (cubes T) \<subseteq> set (cubes T')" and t: "\<And>X. tauto C (chosen X T) \<longleftrightarrow> tauto C (chosen X T')"
  shows "rows_mean C cur T' a b"
proof -
  obtain N where N: "wf_sm b" "entries b = entries a \<union> N" "fst ` entries a \<inter> fst ` N = {}"
    "snd ` N \<subseteq> insert cur (SIZE ` {p \<in> set (cubes T). TESTP p REDUND})" "\<forall>X. hits N X \<longleftrightarrow> cur \<in> X \<or> tauto C (chosen X T)"
    by (rule rows_meanE [OF r])
  have "insert cur (SIZE ` {p \<in> set (cubes T). TESTP p REDUND}) \<subseteq> insert cur (SIZE ` {p \<in> set (cubes T'). TESTP p REDUND})"
    using s by (intro insert_mono image_mono) auto
  with N(4) have "snd ` N \<subseteq> insert cur (SIZE ` {p \<in> set (cubes T'). TESTP p REDUND})" by (rule order_trans)
  then show ?thesis unfolding rows_mean_def using N(1-3,5) t by (intro conjI exI [of _ N] allI) simp_all
qed

lemma rows_mean_trans:
  assumes "rows_mean C cur T1 a b" "rows_mean C cur T2 b c"
    and t: "\<And>X. tauto C (chosen X T) \<longleftrightarrow> tauto C (chosen X T1) \<and> tauto C (chosen X T2)"
    and sub: "set (cubes T1) \<subseteq> set (cubes T)" "set (cubes T2) \<subseteq> set (cubes T)"
  shows "rows_mean C cur T a c"
proof -
  obtain N1 where N1: "entries b = entries a \<union> N1" "fst ` entries a \<inter> fst ` N1 = {}"
    "snd ` N1 \<subseteq> insert cur (SIZE ` {p \<in> set (cubes T1). TESTP p REDUND})" "\<And>X. hits N1 X \<longleftrightarrow> cur \<in> X \<or> tauto C (chosen X T1)"
    using assms(1) by (auto simp: rows_mean_def)
  obtain N2 where N2: "wf_sm c" "entries c = entries b \<union> N2" "fst ` entries b \<inter> fst ` N2 = {}"
    "snd ` N2 \<subseteq> insert cur (SIZE ` {p \<in> set (cubes T2). TESTP p REDUND})" "\<And>X. hits N2 X \<longleftrightarrow> cur \<in> X \<or> tauto C (chosen X T2)"
    using assms(2) by (auto simp: rows_mean_def)
  have d: "fst ` N1 \<inter> fst ` N2 = {}" "fst ` entries a \<inter> fst ` (N1 \<union> N2) = {}" using N1(2) N2(3) unfolding N1(1) by (auto simp: image_Un)
  show ?thesis unfolding rows_mean_def
  proof (intro conjI exI [of _ "N1 \<union> N2"] allI)
    show "hits (N1 \<union> N2) X \<longleftrightarrow> cur \<in> X \<or> tauto C (chosen X T)" for X
      unfolding hits_Un [OF d(1)] N1(4) N2(5) t by blast
    show "snd ` (N1 \<union> N2) \<subseteq> insert cur (SIZE ` {p \<in> set (cubes T). TESTP p REDUND})"
      using N1(3) N2(4) sub unfolding image_Un by blast
  qed (use N1(1) N2(1,2) d(2) in auto)
qed

lemma next_row_fresh:
  assumes A: "wf_sm table"
  shows "next_row table \<notin> fst ` entries table"
proof
  assume "next_row table \<in> fst ` entries table"
  then have "next_row table \<in> fst ` set (sm_rows table)" by (simp add: keys_entries(1) [OF A])
  then obtain h where h: "h \<in> set (sm_rows table)" "fst h = next_row table" by force
  then have "fst h \<le> fst (last (sm_rows table))" using asc_last [OF wf_headersD(1) [OF wf_smD(1) [OF A]] _ h(1)] h(1) by (cases "sm_rows table = []") auto
  then show False using h by (cases "sm_rows table = []") (auto simp: next_row_def)
qed

lemma chosen_upd: "chosen X (T\<lparr>cubes := filter P (cubes T)\<rparr>) = (chosen X T)\<lparr>cubes := filter P (cubes (chosen X T))\<rparr>"
  by (simp add: chosen_def conj_commute)

lemma tauto_full:
  assumes "wf_cube C" "wf_list C T" "p \<in> set (cubes T)" "full_row C p (cof T)"
  shows "tauto C T"
  using assms full_row_tauto [of C T] by (auto simp: list_ex_iff)

text \<open>A leaf: the list is unate, so that without a full cube some point is left over.\<close>

lemma leaf_rows:
  assumes C: "wf_cube C" and T: "wf_list C T" and u: "all_unate C T" and x: "free C T x" and t: "wf_sm table" and rn: "rownum = next_row table"
    and nf: "\<forall>p\<in>set (cubes T). full_row C p (cof T) \<longrightarrow> TESTP p REDUND"
  shows "rows_mean C cur T table (fold (\<lambda>p table.
    if TESTP p REDUND \<and> full_row C p (cof T) then sm_insert table rownum (SIZE p) else table) (cubes T)
    (sm_insert table rownum cur))"
proof -
  let ?r = "next_row table"
  let ?full = "{p \<in> set (cubes T). TESTP p REDUND \<and> full_row C p (cof T)}"
  have ins: "wf_sm (fold (\<lambda>p table. if P p then sm_insert table r (SIZE p) else table) ps A)
    \<and> entries (fold (\<lambda>p table. if P p then sm_insert table r (SIZE p) else table) ps A) = entries A \<union> {r} \<times> (SIZE ` {p \<in> set ps. P p})"
    if "wf_sm A" for ps A r and P :: "pset \<Rightarrow> bool"
    using that by (induction ps arbitrary: A) (auto simp: sm_insert_spec)
  let ?A = "fold (\<lambda>p table. if TESTP p REDUND \<and> full_row C p (cof T) then sm_insert table ?r (SIZE p) else table) (cubes T) (sm_insert table ?r cur)"
  have A: "wf_sm ?A" "entries ?A = entries table \<union> {?r} \<times> insert cur (SIZE ` ?full)"
    using ins [of "sm_insert table ?r cur" "\<lambda>p. TESTP p REDUND \<and> full_row C p (cof T)" ?r "cubes T"] sm_insert_spec [OF t, of ?r cur] by auto
  have "hits ({?r} \<times> insert cur (SIZE ` ?full)) X \<longleftrightarrow> cur \<in> X \<or> tauto C (chosen X T)" for X
  proof -
    have "tauto C (chosen X T) \<longleftrightarrow> (\<exists>p\<in>?full. SIZE p \<in> X)"
    proof
      assume "\<exists>p\<in>?full. SIZE p \<in> X"
      then obtain p where "p \<in> set (cubes (chosen X T))" "full_row C p (cof T)" by (auto simp: chosen_def)
      then show "tauto C (chosen X T)" using tauto_full [OF C, of "chosen X T" p] T by simp
    next
      assume ta: "tauto C (chosen X T)"
      obtain y where y: "free C T y" "\<forall>p\<in>set (cubes T). \<forall>v\<in>actives C (elems p \<union> elems (cof T)). y v \<notin> elems p \<union> elems (cof T)"
        by (rule apart_leaf [OF C T u x])
      then have "y \<in> lcov C (chosen X T)" using ta by (simp add: tauto_def)
      then obtain p where p: "p \<in> set (cubes (chosen X T))" "covers C (elems p \<union> elems (cof T)) y" by (auto simp: lcov_iff)
      then have m: "p \<in> set (cubes T)" "\<not> TESTP p REDUND \<or> SIZE p \<in> X" by (auto simp: chosen_def)
      have "actives C (elems p \<union> elems (cof T)) = {}" using y(2) m(1) p(2) by (auto simp: covers_def actives_def)
      then have "full_row C p (cof T)" using not_full_active [OF C T m(1)] by blast
      then show "\<exists>p\<in>?full. SIZE p \<in> X" using m nf by auto
    qed
    then show ?thesis by (auto simp: hits_def)
  qed
  moreover have "fst ` entries table \<inter> fst ` ({?r} \<times> insert cur (SIZE ` ?full)) = {}" using next_row_fresh [OF t] by auto
  moreover have "snd ` ({?r} \<times> insert cur (SIZE ` ?full)) \<subseteq> insert cur (SIZE ` {p \<in> set (cubes T). TESTP p REDUND})" by auto
  ultimately show ?thesis using A unfolding rows_mean_def rn by blast
qed

lemma unate_reduce_chosen:
  assumes "wf_cube C" "wf_list C T"
  shows "tauto C (chosen X (unate_reduce C T (unate_ceil C (massive_count C T) (new_cube C)))) \<longleftrightarrow> tauto C (chosen X T)"
  using unate_reduce_filter [OF assms, of "new_cube C" "\<lambda>p. \<not> TESTP p REDUND \<or> SIZE p \<in> X"]
  by (simp add: chosen_def new_cube_def)

lemma ftaut_start_ok:
  assumes C: "wf_cube C" and x: "free C T x" and t: "wf_sm table"
    and "wf_list C T" "\<forall>p\<in>set (cubes T). full_row C p (cof T) \<longrightarrow> TESTP p REDUND" "length (cubes T) < n"
  shows "(\<exists>t'. ftaut_start n C cur T table = Inr (Answer t') \<and> rows_mean C cur T table t') \<or>
    (\<exists>T'. ftaut_start n C cur T table = Inr (Split T' (massive_count C T')) \<and> wf_list C T' \<and> cof T' = cof T
       \<and> set (cubes T') \<subseteq> set (cubes T) \<and> (\<forall>X. tauto C (chosen X T') \<longleftrightarrow> tauto C (chosen X T)) \<and> \<not> all_unate C T')"
  using assms(4-6) x
proof (induction n arbitrary: T)
  case (Suc n)
  note T = Suc.prems(1)
  let ?cd = "massive_count C T"
  show ?case
  proof (cases "vars_unate ?cd = vars_active ?cd")
    case True
    then have u: "all_unate C T" using unate_counts_iff [OF C T] by simp
    show ?thesis using leaf_rows [OF C T u Suc.prems(4) t refl Suc.prems(2)] True by (simp add: Let_def)
  next
    case False
    then have nu: "\<not> all_unate C T" using unate_counts_iff [OF C T] by simp
    show ?thesis
    proof (cases "vars_unate ?cd = 0")
      case True
      then show ?thesis using False nu T by (intro disjI2 exI [of _ T]) (simp add: Let_def)
    next
      case nz: False
      have l: "length (new_cube C) = SET_SIZE (cube_size C)" by (simp add: new_cube_def)
      let ?R = "unate_reduce C T (unate_ceil C ?cd (new_cube C))"
      note R = unate_reduce_cubes [OF C T l]
      have "card {v. v < num_vars C \<and> card (active_parts C T v) = 1} \<noteq> 0" using nz massive_count_spec(7) [OF C T] by simp
      then obtain v where "v < num_vars C" "card (active_parts C T v) = 1" by (cases "{v. v < num_vars C \<and> card (active_parts C T v) = 1} = {}") auto
      then have less: "length (cubes ?R) < length (cubes T)" by (rule R(5))
      have x': "free C ?R x" using Suc.prems(4) by (simp add: free_def R(2))
      have nf: "\<forall>p\<in>set (cubes ?R). full_row C p (cof ?R) \<longrightarrow> TESTP p REDUND" using Suc.prems(2) unfolding R(2,3) by blast
      have sub: "set (cubes ?R) \<subseteq> set (cubes T)" unfolding R(3) by blast
      note m = rows_mean_mono [OF _ sub unate_reduce_chosen [OF C T]]
      have eq: "ftaut_start (Suc n) C cur T table = ftaut_start n C cur ?R table" using False nz by (simp add: Let_def)
      have "length (cubes ?R) < n" using less Suc.prems(3) by simp
      from Suc.IH [OF R(1) nf this x'] show ?thesis
      proof (elim disjE exE conjE)
        fix t' assume "ftaut_start n C cur ?R table = Inr (Answer t')" "rows_mean C cur ?R table t'"
        then show ?thesis using m unfolding eq by blast
      next
        fix T' assume "ftaut_start n C cur ?R table = Inr (Split T' (massive_count C T'))" "wf_list C T'" "cof T' = cof ?R"
          "set (cubes T') \<subseteq> set (cubes ?R)" "\<forall>X. tauto C (chosen X T') = tauto C (chosen X ?R)" "\<not> all_unate C T'"
        then show ?thesis unfolding eq using R(2) sub unate_reduce_chosen [OF C T] by (intro disjI2 exI [of _ T']) auto
      qed
    qed
  qed
qed simp

lemma chosen_scofactor: "chosen X (scofactor C T c v None) = scofactor C (chosen X T) c v None"
  by (simp add: chosen_def scofactor_def Let_def conj_commute)

lemma split_ok_cof: "cof T = cof T' \<Longrightarrow> split_ok C T cl cr v \<longleftrightarrow> split_ok C T' cl cr v"
  by (simp add: split_ok_def remaining_def scofactor_def Let_def)

lemma ftautology_ok:
  assumes C: "wf_cube C" and "wf_list C T" "free C T x" "wf_sm table" "remaining C T < k"
  shows "\<exists>t'. ftautology k C cur T table = Inr t' \<and> rows_mean C cur T table t'"
  using assms(2-)
proof (induction k arbitrary: T x table)
  case (Suc k)
  note T = Suc.prems(1) and x = Suc.prems(2) and t = Suc.prems(3) and k = Suc.prems(4)
  show ?case
  proof (cases "list_ex (\<lambda>p. \<not> TESTP p REDUND \<and> full_row C p (cof T)) (cubes T)")
    case True
    then obtain p where p: "p \<in> set (cubes T)" "\<not> TESTP p REDUND" "full_row C p (cof T)" by (auto simp: list_ex_iff)
    then have "tauto C (chosen X T)" for X using T by (intro tauto_full [OF C, of _ p]) (auto simp: chosen_def wf_list_def)
    then show ?thesis using True rows_mean_refl [OF t] by (simp add: ftaut_special_cases_def)
  next
    case False
    then have nf: "\<forall>p\<in>set (cubes T). full_row C p (cof T) \<longrightarrow> TESTP p REDUND" by (auto simp: list_ex_iff)
    have sp: "ftaut_special_cases C cur T table = ftaut_start (Suc (CUBELISTSIZE T)) C cur T table"
      using False by (simp add: ftaut_special_cases_def)
    have "length (cubes T) < Suc (CUBELISTSIZE T)" by (simp add: CUBELISTSIZE_def)
    from ftaut_start_ok [OF C x t T nf this, of cur] show ?thesis
    proof (elim disjE exE conjE)
      fix t' assume "ftaut_start (Suc (CUBELISTSIZE T)) C cur T table = Inr (Answer t')" "rows_mean C cur T table t'"
      then show ?thesis by (simp add: sp)
    next
      fix T' assume T': "ftaut_start (Suc (CUBELISTSIZE T)) C cur T table = Inr (Split T' (massive_count C T'))" "wf_list C T'" "cof T' = cof T"
        "\<forall>X. tauto C (chosen X T') \<longleftrightarrow> tauto C (chosen X T)" "\<not> all_unate C T'" "set (cubes T') \<subseteq> set (cubes T)"
      obtain cl cr v where s: "binate_split_select C T' (massive_count C T') (new_cube C) (new_cube C) = (cl, cr, v)"
        by (cases "binate_split_select C T' (massive_count C T') (new_cube C) (new_cube C)")
      have S: "split_ok C T' cl cr v" by (rule split_okI [OF C T'(2,5) s])
      have x': "free C T' x" using x T'(3) by (simp add: free_def)
      have r: "remaining C T' = remaining C T" using T'(3) by (simp add: remaining_def)
      have sub: "\<exists>t'. ftautology k C cur (scofactor C T' c v None) table = Inr t' \<and> rows_mean C cur (scofactor C T' c v None) table t'"
        if c: "c = cl \<and> d = cr \<or> c = cr \<and> d = cl" and t: "wf_sm table" for c d table
      proof -
        obtain y where y: "free C (scofactor C T' c v None) y" using split_point [OF C T'(2) S x' c] by blast
        have w: "wf_list C (scofactor C T' c v None)" using cofactor_wf(2) [OF C T'(2)] S c by (auto simp: split_ok_def)
        have "remaining C (scofactor C T' c v None) < remaining C T'" using S c by (auto simp: split_ok_def)
        then show ?thesis using Suc.IH [OF w y t] k r by simp
      qed
      obtain t1 where t1: "ftautology k C cur (scofactor C T' cl v None) table = Inr t1" "rows_mean C cur (scofactor C T' cl v None) table t1"
        using sub [of cl cr, OF _ t] by blast
      then have w1: "wf_sm t1" by (simp add: rows_mean_def)
      obtain t2 where t2: "ftautology k C cur (scofactor C T' cr v None) t1 = Inr t2" "rows_mean C cur (scofactor C T' cr v None) t1 t2"
        using sub [of cr cl, OF _ w1] by blast
      have "split_ok C (chosen X T') cl cr v" for X using S split_ok_cof [of T' "chosen X T'"] by simp
      then have "tauto C (chosen X T) \<longleftrightarrow> tauto C (chosen X (scofactor C T' cl v None)) \<and> tauto C (chosen X (scofactor C T' cr v None))" for X
        using split_tauto [OF C, of "chosen X T'"] T'(2,4) by (simp add: chosen_scofactor)
      then have "rows_mean C cur T table t2"
        by (rule rows_mean_trans [OF t1(2) t2(2)]) (use T'(6) in \<open>auto simp: scofactor_def Let_def\<close>)
      then show ?thesis using sp T'(1) s t1(1) t2(1) by simp
    qed
  qed
qed simp

lemma chosen_cofactor:
  "chosen X (cofactor C T c self) = cofactor C (T\<lparr>cubes := filter (\<lambda>p. \<not> TESTP p REDUND \<or> SIZE p \<in> X) (others self (cubes T))\<rparr>) c None"
  by (simp add: chosen_def cofactor_def Let_def conj_commute)

lemma fcube_is_covered_ok:
  fixes self :: "nat option"
  assumes C: "wf_cube C" and T: "wf_list C T" and c: "is_cube C c" and n: "\<not> null_cube C (elems c)"
    and cof: "elems (cof T) = {}" and k: "cube_size C < k" and t: "wf_sm table"
  defines "ps X \<equiv> filter (\<lambda>p. \<not> TESTP p REDUND \<or> SIZE p \<in> X) (others self (cubes T))"
  shows "\<exists>t' N. fcube_is_covered k C cur T c self table = Inr t' \<and> wf_sm t' \<and> entries t' = entries table \<union> N \<and> fst ` entries table \<inter> fst ` N = {}
     \<and> snd ` N \<subseteq> insert cur (SIZE ` {p \<in> set (cubes T). TESTP p REDUND})
     \<and> (\<forall>X. hits N X \<longleftrightarrow> cur \<in> X \<or> cov C {elems c} \<subseteq> cov C (elems ` set (ps X)))"
proof -
  note W = cofactor_wf(1,3) [OF C T c]
  obtain x where x: "point C x" "covers C (elems c) x" by (rule common_point [OF C n])
  have free: "free C (cofactor C T c self) y \<longleftrightarrow> point C y \<and> covers C (elems c) y" for y
    unfolding free_def W(2) cof using vparts_less [OF wf_cubeD(1) [OF C]] by (auto simp: covers_def point_def)
  have "remaining C (cofactor C T c self) \<le> card {..<cube_size C}" unfolding remaining_def by (rule card_mono) auto
  then obtain t' where t': "ftautology k C cur (cofactor C T c self) table = Inr t'" "rows_mean C cur (cofactor C T c self) table t'"
    using ftautology_ok [OF C W(1), where x = x and table = table and k = k and cur = cur] free x k t by fastforce
  obtain N where N: "wf_sm t'" "entries t' = entries table \<union> N" "fst ` entries table \<inter> fst ` N = {}"
    "snd ` N \<subseteq> insert cur (SIZE ` {p \<in> set (cubes (cofactor C T c self)). TESTP p REDUND})"
    "\<forall>X. hits N X \<longleftrightarrow> cur \<in> X \<or> tauto C (chosen X (cofactor C T c self))"
    by (rule rows_meanE [OF t'(2)])
  have ta: "tauto C (chosen X (cofactor C T c self)) \<longleftrightarrow> cov C {elems c} \<subseteq> cov C (elems ` set (ps X))" for X
  proof -
    let ?T = "T\<lparr>cubes := ps X\<rparr>"
    have "set (ps X) \<subseteq> set (cubes T)" using set_others(2) [of self "cubes T"] by (auto simp: ps_def)
    then have wT: "wf_list C ?T" using T by (auto simp: wf_list_def)
    have "y \<in> lcov C (cofactor C ?T c None) \<longleftrightarrow> y \<in> lcov C ?T" if "point C y" "covers C (elems c) y" for y
      using cofactor_cov(1,2) [OF C wT c that(2), of None] that(1) cof by (auto simp: free_def)
    moreover have "free C (cofactor C ?T c None) y \<longleftrightarrow> point C y \<and> covers C (elems c) y" for y
      using free [of y] by (simp add: free_def cofactor_def Let_def)
    moreover have "lcov C ?T = cov C (elems ` set (ps X))" by (rule lcov_plain [OF cof])
    ultimately show ?thesis unfolding chosen_cofactor ps_def [symmetric] tauto_def by (auto simp: cov_def)
  qed
  have "set (cubes (cofactor C T c self)) \<subseteq> set (cubes T)" using set_others(2) [of self "cubes T"] by (auto simp: cofactor_def Let_def)
  then have sub: "insert cur (SIZE ` {p \<in> set (cubes (cofactor C T c self)). TESTP p REDUND}) \<subseteq> insert cur (SIZE ` {p \<in> set (cubes T). TESTP p REDUND})"
    by (intro insert_mono image_mono) auto
  show ?thesis unfolding fcube_is_covered_def
    using t'(1) N(1-3,5) ta order_trans [OF N(4) sub] by (intro exI [of _ t'] exI [of _ N] conjI allI) simp_all
qed

section \<open>The table is the covering problem\<close>

definition keeps_rows :: "sm_matrix \<Rightarrow> sm_matrix \<Rightarrow> bool" where
  "keeps_rows A B \<longleftrightarrow> wf_sm B \<and> (\<exists>K. entries B = {e \<in> entries A. fst e \<notin> K})"

lemma keeps_refl: "wf_sm A \<Longrightarrow> keeps_rows A A"
  unfolding keeps_rows_def by (intro conjI exI [of _ "{}"]) auto

lemma keeps_delrow:
  assumes "keeps_rows A B"
  shows "keeps_rows A (sm_delrow B i)"
proof -
  obtain K where "wf_sm B" "entries B = {e \<in> entries A. fst e \<notin> K}" using assms by (auto simp: keeps_rows_def)
  then show ?thesis unfolding keeps_rows_def by (intro conjI exI [of _ "insert i K"]) (auto simp: sm_delrow_spec)
qed

lemma keeps_step: "keeps_rows A B \<Longrightarrow> keeps_rows A (row_dominance_step i B)"
proof -
  assume B: "keeps_rows A B"
  have f: "keeps_rows A (fold (\<lambda>r A. if P (the (sm_get_row A r)) r then sm_delrow A r else A) rs B)" for P rs
    using B by (induction rs arbitrary: B) (simp_all add: keeps_delrow)
  show ?thesis
  proof (cases "sm_get_row B i")
    case (Some l)
    then show ?thesis
      using f [of "\<lambda>p r. (length p > length l \<or> length p = length l \<and> r > i) \<and> sm_row_contains l p"]
      by (simp add: row_dominance_step_def Let_def)
  qed (simp add: row_dominance_step_def B)
qed

lemma row_dominance_hits:
  assumes A: "wf_sm A" and r: "sm_row_dominance A = (n, B)"
  shows "wf_sm B" "hits (entries B) X \<longleftrightarrow> hits (entries A) X" "snd ` entries B \<subseteq> snd ` entries A"
proof -
  note d = row_dominance_spec(1) [OF positive_None A r]
  then show "wf_sm B" by (simp add: shrunk_def)
  have "keeps_rows A (fold row_dominance_step is A)" for "is"
  proof -
    have "keeps_rows A (fold row_dominance_step is B)" if "keeps_rows A B" for B
      using that by (induction "is" arbitrary: B) (simp_all add: keeps_step)
    then show ?thesis using keeps_refl [OF A] by blast
  qed
  then have "keeps_rows A B" using r by (auto simp: sm_row_dominance_def Let_def)
  then obtain K where K: "entries B = {e \<in> entries A. fst e \<notin> K}" by (auto simp: keeps_rows_def)
  show "snd ` entries B \<subseteq> snd ` entries A" unfolding K by blast
  show "hits (entries B) X \<longleftrightarrow> hits (entries A) X"
  proof
    assume "hits (entries B) X"
    then have "hits (entries A) (X \<union> {})" using d reducesD(5) unfolding shrunk_def by blast
    then show "hits (entries A) X" by simp
  qed (auto simp: K hits_def)
qed

text \<open>The cubes \<open>i\<close> of a family that stand in for the cube \<open>j\<close> when the numbers \<open>X\<close> are chosen, and the condition for it.\<close>

definition stand_in :: "cube_struct \<Rightarrow> (nat \<Rightarrow> nat set) \<Rightarrow> (nat \<Rightarrow> nat) \<Rightarrow> nat \<Rightarrow> (nat \<Rightarrow> nat) set \<Rightarrow> nat set \<Rightarrow> nat \<Rightarrow> bool" where
  "stand_in C el num m base X i \<longleftrightarrow> num i \<in> X \<or> cov C {el i} \<subseteq> base \<union> cov C (el ` {j. j < m \<and> j \<noteq> i \<and> (j < i \<or> num j \<in> X)})"

lemma cov_Un: "cov C (A \<union> B) = cov C A \<union> cov C B"
  by (auto simp: cov_def)

lemma cov_image: "cov C (el ` J) = (\<Union>j\<in>J. cov C {el j})"
  by (auto simp: cov_def)

lemma stand_in_all:
  "(\<forall>i<m. stand_in C el num m base X i) \<longleftrightarrow> cov C (el ` {..<m}) \<subseteq> base \<union> cov C (el ` {j. j < m \<and> num j \<in> X})"
proof
  assume r: "cov C (el ` {..<m}) \<subseteq> base \<union> cov C (el ` {j. j < m \<and> num j \<in> X})"
  show "\<forall>i<m. stand_in C el num m base X i"
  proof (intro allI impI)
    fix i assume i: "i < m"
    show "stand_in C el num m base X i"
    proof (cases "num i \<in> X")
      case False
      have "cov C {el i} \<subseteq> cov C (el ` {..<m})" by (rule cov_mono) (use i in blast)
      also have "\<dots> \<subseteq> base \<union> cov C (el ` {j. j < m \<and> num j \<in> X})" by (rule r)
      also have "\<dots> \<subseteq> base \<union> cov C (el ` {j. j < m \<and> j \<noteq> i \<and> (j < i \<or> num j \<in> X)})"
        by (intro Un_mono cov_mono image_mono order_refl) (use False in auto)
      finally show ?thesis by (simp add: stand_in_def)
    qed (simp add: stand_in_def)
  qed
next
  assume s: "\<forall>i<m. stand_in C el num m base X i"
  have "cov C {el i} \<subseteq> base \<union> cov C (el ` {j. j < m \<and> num j \<in> X})" if "i < m" for i
    using that
  proof (induction i rule: less_induct)
    case (less i)
    show ?case
    proof (cases "num i \<in> X")
      case True
      have "cov C {el i} \<subseteq> cov C (el ` {j. j < m \<and> num j \<in> X})" by (rule cov_mono) (use True less.prems in blast)
      then show ?thesis by blast
    next
      case False
      then have "cov C {el i} \<subseteq> base \<union> cov C (el ` {j. j < m \<and> j \<noteq> i \<and> (j < i \<or> num j \<in> X)})"
        using s [rule_format, OF less.prems] unfolding stand_in_def by blast
      also have "\<dots> \<subseteq> base \<union> cov C (el ` {j. j < m \<and> num j \<in> X})"
      proof -
        have "cov C {el j} \<subseteq> base \<union> cov C (el ` {j. j < m \<and> num j \<in> X})" if "j < m" "j < i \<or> num j \<in> X" for j
        proof (cases "num j \<in> X")
          case True
          have "cov C {el j} \<subseteq> cov C (el ` {j. j < m \<and> num j \<in> X})" by (rule cov_mono) (use True that in blast)
          then show ?thesis by blast
        next
          case False
          then show ?thesis using less.IH that by blast
        qed
        then show ?thesis unfolding cov_image [of C el "{j. j < m \<and> j \<noteq> i \<and> (j < i \<or> num j \<in> X)}"] by blast
      qed
      finally show ?thesis .
    qed
  qed
  then show "cov C (el ` {..<m}) \<subseteq> base \<union> cov C (el ` {j. j < m \<and> num j \<in> X})" unfolding cov_image [of C el "{..<m}"] by blast
qed

lemma derive_loop_ok:
  assumes C: "wf_cube C" and D: "is_cover C D" "\<forall>p\<in>set (data D). \<not> TESTP p REDUND" and E: "is_cover C E" "\<forall>p\<in>set (data E). \<not> TESTP p REDUND"
    and el: "\<forall>j<m. \<not> null_cube C (el j)" and k: "cube_size C < k"
    and "is_cover C Rp" "cnt Rp = m" "\<forall>j<m. elems (data Rp ! j) = el j \<and> SIZE (data Rp ! j) = num j \<and> (TESTP (data Rp ! j) REDUND \<longleftrightarrow> i \<le> j)"
    and "wf_sm table" "\<forall>X. hits (entries table) X \<longleftrightarrow> (\<forall>j<i. stand_in C el num m (onset C D \<union> onset C E) X j)"
    and "snd ` entries table \<subseteq> num ` {..<m}" "i \<le> m"
  shows "\<exists>t. derive_loop k C D E [i..<m] (Rp, table, sl) = Inr t \<and> wf_sm t \<and> snd ` entries t \<subseteq> num ` {..<m}
    \<and> (\<forall>X. hits (entries t) X \<longleftrightarrow> (\<forall>j<m. stand_in C el num m (onset C D \<union> onset C E) X j))"
  using assms(8-)
proof (induction "m - i" arbitrary: i Rp table sl)
  case 0
  then have "i = m" by simp
  then show ?case using 0 by (intro exI [of _ table]) simp
next
  case (Suc q)
  note Rp = Suc.prems(1) and cR = Suc.prems(2) and fl = Suc.prems(3) and t = Suc.prems(4) and h = Suc.prems(5) and co = Suc.prems(6)
  let ?base = "onset C D \<union> onset C E"
  have i: "i < m" using Suc.hyps(2) by simp
  let ?p = "data Rp ! i" and ?T = "cube3list C D E Rp"
  have p: "is_cube C ?p" "elems ?p = el i" "SIZE ?p = num i" "\<not> null_cube C (elems ?p)"
    using wf_familyD(5) [OF Rp] cR i fl el by auto
  have T: "wf_list C ?T" by (rule cubelists_wf(3) [OF C D(1) E(1) Rp])
  have cf: "elems (cof ?T) = {}" using wf_layoutD(3) [OF wf_cubeD(1) [OF C]] by (simp add: cube3list_def new_cube_def)
  have cu: "cubes ?T = data D @ data E @ data Rp" by (simp add: cube3list_def)
  let ?ps = "\<lambda>X. filter (\<lambda>p. \<not> TESTP p REDUND \<or> SIZE p \<in> X) (others (Some (cnt D + cnt E + i)) (cubes ?T))"
  obtain t' N where t': "fcube_is_covered k C (SIZE ?p) ?T ?p (Some (cnt D + cnt E + i)) table = Inr t'" "wf_sm t'"
    "entries t' = entries table \<union> N" "fst ` entries table \<inter> fst ` N = {}"
    "snd ` N \<subseteq> insert (SIZE ?p) (SIZE ` {p \<in> set (cubes ?T). TESTP p REDUND})"
    "\<forall>X. hits N X \<longleftrightarrow> SIZE ?p \<in> X \<or> cov C {elems ?p} \<subseteq> cov C (elems ` set (?ps X))"
    using fcube_is_covered_ok [OF C T p(1,4) cf k t, of "SIZE ?p" "Some (cnt D + cnt E + i)"] by (elim exE conjE) (rule that)
  have "elems ` set (?ps X) = elems ` set (data D) \<union> elems ` set (data E) \<union> el ` {j. j < m \<and> j \<noteq> i \<and> (j < i \<or> num j \<in> X)}" for X
  proof -
    have "set (others (Some (cnt D + cnt E + i)) (data D @ data E @ data Rp))
      = set (data D) \<union> set (data E) \<union> {data Rp ! j |j. j < m \<and> j \<noteq> i}" (is "?l = ?r")
    proof (rule set_eqI)
      fix x
      have "x \<in> ?l \<longleftrightarrow> (\<exists>j. x = (data D @ data E @ data Rp) ! j \<and> j < cnt D + cnt E + m \<and> j \<noteq> cnt D + cnt E + i)"
        unfolding set_others(3) by (auto simp: cR)
      also have "\<dots> \<longleftrightarrow> x \<in> ?r"
      proof
        assume "\<exists>j. x = (data D @ data E @ data Rp) ! j \<and> j < cnt D + cnt E + m \<and> j \<noteq> cnt D + cnt E + i"
        then obtain j where j: "x = (data D @ data E @ data Rp) ! j" "j < cnt D + cnt E + m" "j \<noteq> cnt D + cnt E + i" by blast
        show "x \<in> ?r"
        proof (cases "j < cnt D + cnt E")
          case True
          then show ?thesis using j(1) by (auto simp: nth_append)
        next
          case False
          then have "x = data Rp ! (j - (cnt D + cnt E))" using j(1) by (auto simp: nth_append)
          then show ?thesis using j False by (intro UnI2 CollectI exI [of _ "j - (cnt D + cnt E)"]) auto
        qed
      next
        assume "x \<in> ?r"
        then consider a where "a < cnt D" "x = data D ! a" | a where "a < cnt E" "x = data E ! a" | a where "a < m" "a \<noteq> i" "x = data Rp ! a"
          by (auto simp: in_set_conv_nth)
        then show "\<exists>j. x = (data D @ data E @ data Rp) ! j \<and> j < cnt D + cnt E + m \<and> j \<noteq> cnt D + cnt E + i"
        proof cases
          case 1
          then show ?thesis by (intro exI [of _ a]) (simp add: nth_append)
        next
          case 2
          then show ?thesis by (intro exI [of _ "cnt D + a"]) (simp add: nth_append)
        next
          case 3
          then show ?thesis by (intro exI [of _ "cnt D + cnt E + a"]) (simp add: nth_append)
        qed
      qed
      finally show "x \<in> ?l \<longleftrightarrow> x \<in> ?r" .
    qed
    then have "set (?ps X) = set (data D) \<union> set (data E) \<union> {data Rp ! j |j. j < m \<and> j \<noteq> i \<and> (j < i \<or> num j \<in> X)}"
      unfolding cu set_filter using D(2) E(2) fl by (auto simp: not_le)
    moreover have "elems ` {data Rp ! j |j. j < m \<and> j \<noteq> i \<and> (j < i \<or> num j \<in> X)} = el ` {j. j < m \<and> j \<noteq> i \<and> (j < i \<or> num j \<in> X)}"
      using fl by (auto simp: image_iff)
    ultimately show ?thesis by (simp add: image_Un)
  qed
  then have N: "hits N X \<longleftrightarrow> stand_in C el num m ?base X i" for X
    using t'(6) p(2,3) by (simp add: stand_in_def cov_Un)
  have "hits (entries t') X \<longleftrightarrow> (\<forall>j<Suc i. stand_in C el num m ?base X j)" for X
    unfolding t'(3) hits_Un [OF t'(4)] N using h by (auto simp: less_Suc_eq)
  moreover have "snd ` entries t' \<subseteq> num ` {..<m}"
  proof -
    have "SIZE ` {p \<in> set (cubes ?T). TESTP p REDUND} \<subseteq> num ` {..<m}"
    proof -
      have "{p \<in> set (cubes ?T). TESTP p REDUND} \<subseteq> set (data Rp)" unfolding cu using D(2) E(2) by auto
      moreover have "SIZE ` set (data Rp) \<subseteq> num ` {..<m}" using fl cR by (auto simp: in_set_conv_nth)
      ultimately show ?thesis by blast
    qed
    moreover have "num i \<in> num ` {..<m}" using i by blast
    ultimately have "insert (SIZE ?p) (SIZE ` {p \<in> set (cubes ?T). TESTP p REDUND}) \<subseteq> num ` {..<m}" using p(3) by simp
    with t'(5) have "snd ` N \<subseteq> num ` {..<m}" by (rule order_trans)
    then show ?thesis unfolding t'(3) using co by (auto simp: image_Un)
  qed
  moreover define R' where "R' = Rp\<lparr>data := (data Rp)[i := RESET ?p REDUND]\<rparr>"
  have R': "is_cover C R'" "cnt R' = m" "\<forall>j<m. elems (data R' ! j) = el j \<and> SIZE (data R' ! j) = num j \<and> (TESTP (data R' ! j) REDUND \<longleftrightarrow> Suc i \<le> j)"
  proof -
    show "cnt R' = m" using cR by (simp add: R'_def)
    show "is_cover C R'" using Rp p(1) by (auto simp: R'_def wf_family_def dest!: set_update_subset_insert [THEN subsetD])
    show "\<forall>j<m. elems (data R' ! j) = el j \<and> SIZE (data R' ! j) = num j \<and> (TESTP (data R' ! j) REDUND \<longleftrightarrow> Suc i \<le> j)"
      using fl i cR wf_nonempty [OF p(1)] by (auto simp: R'_def nth_list_update)
  qed
  ultimately have inv: "\<forall>X. hits (entries t') X \<longleftrightarrow> (\<forall>j<Suc i. stand_in C el num m ?base X j)" "snd ` entries t' \<subseteq> num ` {..<m}" by blast+
  obtain n t2 where t2: "sm_row_dominance t' = (n, t2)" by fastforce
  note dom = row_dominance_hits [OF t'(2) t2]
  have eq: "derive_loop k C D E [i..<m] (Rp, table, sl) = (if int (nrows t') - int sl > 1000
     then derive_loop k C D E [Suc i..<m] (R', t2, nrows t2) else derive_loop k C D E [Suc i..<m] (R', t', sl))"
    using t'(1) t2 by (simp add: upt_rec [of i] i R'_def Let_def)
  have q: "q = m - Suc i" "Suc i \<le> m" using Suc.hyps(2) by auto
  have inv2: "\<forall>X. hits (entries t2) X \<longleftrightarrow> (\<forall>j<Suc i. stand_in C el num m ?base X j)" "snd ` entries t2 \<subseteq> num ` {..<m}"
    using inv dom(2) order_trans [OF dom(3) inv(2)] by simp_all
  show ?case
    using Suc.hyps(1) [OF q(1) R' t'(2) inv q(2), of sl] Suc.hyps(1) [OF q(1) R' dom(1) inv2 q(2), of "nrows t2"]
    unfolding eq by presburger
qed

section \<open>The classes of cubes\<close>

definition relatively_essential :: "cube_struct \<Rightarrow> set_family \<Rightarrow> set_family \<Rightarrow> nat \<Rightarrow> bool" where
  "relatively_essential C F D i \<longleftrightarrow> i < cnt F \<and>
     \<not> cov C {elems (data F ! i)} \<subseteq> cov C (elems ` {data F ! j |j. j < cnt F \<and> j \<noteq> i}) \<union> onset C D"

definition essential_onset :: "cube_struct \<Rightarrow> set_family \<Rightarrow> set_family \<Rightarrow> (nat \<Rightarrow> nat) set" where
  "essential_onset C F D = cov C ((\<lambda>i. elems (data F ! i)) ` {i. relatively_essential C F D i})"

definition partially_redundant :: "cube_struct \<Rightarrow> set_family \<Rightarrow> set_family \<Rightarrow> nat \<Rightarrow> bool" where
  "partially_redundant C F D i \<longleftrightarrow> i < cnt F \<and> \<not> relatively_essential C F D i
     \<and> \<not> cov C {elems (data F ! i)} \<subseteq> essential_onset C F D \<union> onset C D"

lemma split_loop_spec:
  assumes "\<forall>q\<in>set ps. is_cube C (fst q) \<and> cube_is_covered k C T (fst q) (snd q) = Inr (b q)" "is_cover C Y" "is_cover C N"
  shows "\<exists>Y' N'. split_loop k C mem T ps (Y, N) = Inr (Y', N') \<and> is_cover C Y' \<and> is_cover C N'
    \<and> data Y' = data Y @ map fst (filter b ps) \<and> data N' = data N @ map fst (filter (\<lambda>q. \<not> b q) ps)"
  using assms
proof (induction ps arbitrary: Y N)
  case (Cons q ps)
  obtain p self where q: "q = (p, self)" by (cases q)
  have p: "is_cube C p" "cube_is_covered k C T p self = Inr (b q)" using Cons.prems(1) q by auto
  note Y = sf_addset_spec [OF Cons.prems(2) p(1), of mem] and N = sf_addset_spec [OF Cons.prems(3) p(1), of mem]
  show ?case
  proof (cases "b q")
    case True
    then show ?thesis using Cons.IH [OF _ Y(2) Cons.prems(3)] Cons.prems(1) p(2) Y(1) by (simp add: q)
  next
    case False
    then show ?thesis using Cons.IH [OF _ Cons.prems(2) N(2)] Cons.prems(1) p(2) N(1) by (simp add: q)
  qed
qed simp

lemma map2_index: "map2 f xs [0..<length xs] = map (\<lambda>i. f (xs ! i) i) [0..<length xs]"
  by (rule nth_equalityI) auto

definition numbered :: "set_family \<Rightarrow> set_family" where
  "numbered F = F\<lparr>data := map2 PUTSIZE (data F) [0..<cnt F]\<rparr>"

lemma numbered_spec:
  assumes "is_cover C F"
  shows "is_cover C (numbered F)" "cnt (numbered F) = cnt F" "i < cnt F \<Longrightarrow> elems (data (numbered F) ! i) = elems (data F ! i)"
    "i < cnt F \<Longrightarrow> cnt F \<le> 65536 \<Longrightarrow> SIZE (data (numbered F) ! i) = i" "i < cnt F \<Longrightarrow> is_cube C (data (numbered F) ! i)"
    "elems ` set (data (numbered F)) = elems ` set (data F)"
proof -
  have d: "data (numbered F) = map (\<lambda>i. PUTSIZE (data F ! i) i) [0..<cnt F]" by (simp add: numbered_def map2_index)
  note w = wf_familyD(5) [OF assms]
  show "is_cover C (numbered F)" using assms w by (auto simp: wf_family_def numbered_def map2_index)
  show "cnt (numbered F) = cnt F" by (simp add: d)
  show "i < cnt F \<Longrightarrow> elems (data (numbered F) ! i) = elems (data F ! i)" "i < cnt F \<Longrightarrow> is_cube C (data (numbered F) ! i)"
    using w by (simp_all add: d)
  show "i < cnt F \<Longrightarrow> cnt F \<le> 65536 \<Longrightarrow> SIZE (data (numbered F) ! i) = i"
    using wf_nonempty [OF w] by (simp add: d SIZE_PUTSIZE)
  have "set (data F) = (\<lambda>i. data F ! i) ` {..<cnt F}" by (auto simp: in_set_conv_nth)
  then show "elems ` set (data (numbered F)) = elems ` set (data F)" unfolding d by (simp add: image_image atLeast0LessThan)
qed

lemma covered_self:
  assumes C: "wf_cube C" and A: "is_cover C A" and B: "is_cover C B" and i: "i < cnt A" and n: "\<not> null_cube C (elems (data A ! i))"
    and k: "cube_size C + cnt A + cnt B < k"
  shows "cube_is_covered k C (cube2list C A B) (data A ! i) (Some i)
    = Inr (cov C {elems (data A ! i)} \<subseteq> cov C (elems ` {data A ! j |j. j < cnt A \<and> j \<noteq> i}) \<union> onset C B)"
proof -
  have T: "wf_list C (cube2list C A B)" by (rule cubelists_wf(2) [OF C A B A])
  have "lcov C ((cube2list C A B)\<lparr>cubes := others (Some i) (data A @ data B)\<rparr>) = cov C (elems ` {data A ! j |j. j < cnt A \<and> j \<noteq> i}) \<union> onset C B"
    using others_onset [OF i, of C B] lcov_plain [OF cof_cube2list [OF C]] by simp
  then show ?thesis
    using cube_is_covered_ok [OF C T wf_familyD(5) [OF A i] n cof_cube2list [OF C], of k "Some i"] k by (auto simp: cov_def)
qed

lemma irred_split_cover_spec:
  assumes C: "wf_cube C" and F: "is_cover C F" and D: "is_cover C D" and n: "\<forall>p\<in>set (data F). \<not> null_cube C (elems p)"
    and k: "cube_size C + cnt F + cnt D < k"
  shows "\<exists>E Rt Rp. irred_split_cover k C mem F D = Inr (numbered F, E, Rt, Rp) \<and> is_cover C E \<and> is_cover C Rp \<and> is_cover C Rt
    \<and> data E = map ((!) (data (numbered F))) (filter (relatively_essential C F D) [0..<cnt F])
    \<and> data Rp = map ((!) (data (numbered F))) (filter (partially_redundant C F D) [0..<cnt F])
    \<and> data Rt = map ((!) (data (numbered F))) (filter (\<lambda>i. \<not> relatively_essential C F D i \<and> \<not> partially_redundant C F D i) [0..<cnt F])
    \<and> onset C E = essential_onset C F D"
proof -
  note N = numbered_spec [OF F]
  let ?N = "numbered F" and ?ess = "relatively_essential C F D" and ?part = "partially_redundant C F D"
  have nn: "i < cnt F \<Longrightarrow> \<not> null_cube C (elems (data ?N ! i))" for i using n N(3) by simp
  have ni: "is_cover C (new_cover C 10)" "data (new_cover C 10) = []" by (simp_all add: new_cover_def)
  have oth: "elems ` {data ?N ! j |j. j < cnt F \<and> j \<noteq> i} = elems ` {data F ! j |j. j < cnt F \<and> j \<noteq> i}" for i
  proof -
    have "elems ` {g j |j. P j} = (\<lambda>j. elems (g j)) ` {j. P j}" for g :: "nat \<Rightarrow> pset" and P by blast
    then show ?thesis using N(3) by (simp add: image_def) blast
  qed
  have c1: "cube_is_covered k C (cube2list C ?N D) (data ?N ! i) (Some i) = Inr (\<not> ?ess i)" if "i < cnt F" for i
    using covered_self [OF C N(1) D, of i k] that N(2,3) nn k by (simp add: oth relatively_essential_def)
  let ?ps = "map2 (\<lambda>p i. (p, Some i)) (data ?N) [0..<cnt ?N]"
  have ps: "?ps = map (\<lambda>i. (data ?N ! i, Some i)) [0..<cnt F]" by (subst map2_index) (simp add: N(2))
  obtain R E where RE: "split_loop k C mem (cube2list C ?N D) ?ps (new_cover C 10, new_cover C 10) = Inr (R, E)" "is_cover C R" "is_cover C E"
    "data R = map fst (filter (\<lambda>q. \<not> ?ess (the (snd q))) ?ps)" "data E = map fst (filter (\<lambda>q. ?ess (the (snd q))) ?ps)"
  proof -
    have "\<forall>q\<in>set ?ps. is_cube C (fst q) \<and> cube_is_covered k C (cube2list C ?N D) (fst q) (snd q) = Inr (\<not> ?ess (the (snd q)))"
      unfolding ps using c1 N(5) by auto
    from split_loop_spec [OF this ni(1) ni(1), of mem] show ?thesis using that ni(2) by auto
  qed
  have dE: "data E = map ((!) (data ?N)) (filter ?ess [0..<cnt F])" and dR: "data R = map ((!) (data ?N)) (filter (\<lambda>i. \<not> ?ess i) [0..<cnt F])"
    unfolding RE(4,5) ps by (simp_all add: filter_map o_def)
  have "elems ` set (data E) = (\<lambda>i. elems (data F ! i)) ` {i. ?ess i}"
  proof -
    have "elems ` set (data E) = (\<lambda>i. elems (data ?N ! i)) ` {i. i < cnt F \<and> ?ess i}" unfolding dE by (simp add: image_image atLeast0LessThan)
    also have "\<dots> = (\<lambda>i. elems (data F ! i)) ` {i. i < cnt F \<and> ?ess i}" by (rule image_cong) (use N(3) in auto)
    also have "{i. i < cnt F \<and> ?ess i} = {i. ?ess i}" by (auto simp: relatively_essential_def)
    finally show ?thesis .
  qed
  then have onE: "onset C E = essential_onset C F D" by (simp add: essential_onset_def)
  have cE: "cnt E \<le> cnt F" unfolding dE using length_filter_le [of ?ess "[0..<cnt F]"] by simp
  let ?qs = "map (\<lambda>p. (p, None :: nat option)) (data R)" and ?cov = "\<lambda>p. cov C {elems p} \<subseteq> onset C E \<union> onset C D"
  obtain Rt Rp where RR: "split_loop k C mem (cube2list C E D) ?qs (new_cover C 10, new_cover C 10) = Inr (Rt, Rp)" "is_cover C Rt" "is_cover C Rp"
    "data Rt = map fst (filter (\<lambda>q. ?cov (fst q)) ?qs)" "data Rp = map fst (filter (\<lambda>q. \<not> ?cov (fst q)) ?qs)"
  proof -
    have "cube_is_covered k C (cube2list C E D) p None = Inr (?cov p)" if p: "p \<in> set (data R)" for p
      by (rule covered_by [OF C RE(3) D]) (use p dR N(5) nn k cE in auto)
    then have "\<forall>q\<in>set ?qs. is_cube C (fst q) \<and> cube_is_covered k C (cube2list C E D) (fst q) (snd q) = Inr (?cov (fst q))"
      using wf_familyD(3) [OF RE(2)] by auto
    from split_loop_spec [OF this ni(1) ni(1), of mem] show ?thesis using that ni(2) by auto
  qed
  have "data Rt = filter ?cov (data R)" "data Rp = filter (\<lambda>p. \<not> ?cov p) (data R)" unfolding RR(4,5) by (simp_all add: filter_map o_def)
  then have "data Rp = map ((!) (data ?N)) (filter ?part [0..<cnt F])"
    "data Rt = map ((!) (data ?N)) (filter (\<lambda>i. \<not> ?ess i \<and> \<not> ?part i) [0..<cnt F])"
    unfolding dR using N(3) onE by (auto simp: filter_map o_def partially_redundant_def intro!: arg_cong [of _ _ "map _"] filter_cong)
  then show ?thesis
    using RE(1-3) RR(1-3) dE onE by (auto simp: irred_split_cover_def numbered_def [symmetric])
qed

section \<open>The table of a cover\<close>

abbreviation chosen_onset :: "cube_struct \<Rightarrow> set_family \<Rightarrow> nat set \<Rightarrow> (nat \<Rightarrow> nat) set" where
  "chosen_onset C F K \<equiv> cov C ((\<lambda>i. elems (data F ! i)) ` K)"

lemma redundant_classes:
  assumes "\<And>i. i < cnt F \<Longrightarrow> part i \<Longrightarrow> \<not> ess i" "{i. ess i} \<subseteq> {..<cnt F}"
    and t: "\<And>i. i < cnt F \<Longrightarrow> \<not> ess i \<Longrightarrow> \<not> part i \<Longrightarrow> chosen_onset C F {i} \<subseteq> chosen_onset C F {i. ess i} \<union> U"
  shows "chosen_onset C F {i. i < cnt F \<and> part i} \<subseteq> U \<union> chosen_onset C F {i. ess i} \<union> V
    \<longleftrightarrow> chosen_onset C F {..<cnt F} \<subseteq> chosen_onset C F {i. ess i} \<union> V \<union> U"
proof
  assume a: "chosen_onset C F {i. i < cnt F \<and> part i} \<subseteq> U \<union> chosen_onset C F {i. ess i} \<union> V"
  have "chosen_onset C F {i} \<subseteq> chosen_onset C F {i. ess i} \<union> V \<union> U" if i: "i < cnt F" for i
  proof -
    have "chosen_onset C F {i} \<subseteq> chosen_onset C F {i. ess i}" if "ess i" by (rule cov_mono) (use that in blast)
    moreover have "chosen_onset C F {i} \<subseteq> chosen_onset C F {i. i < cnt F \<and> part i}" if "part i" by (rule cov_mono) (use that i in blast)
    ultimately show ?thesis using a t [OF i] by blast
  qed
  then show "chosen_onset C F {..<cnt F} \<subseteq> chosen_onset C F {i. ess i} \<union> V \<union> U"
    unfolding cov_image [of C _ "{..<cnt F}"] by auto
next
  assume a: "chosen_onset C F {..<cnt F} \<subseteq> chosen_onset C F {i. ess i} \<union> V \<union> U"
  have "chosen_onset C F {i. i < cnt F \<and> part i} \<subseteq> chosen_onset C F {..<cnt F}" by (rule cov_mono) auto
  then show "chosen_onset C F {i. i < cnt F \<and> part i} \<subseteq> U \<union> chosen_onset C F {i. ess i} \<union> V" using a by blast
qed

lemma onset_nth: "onset C F = chosen_onset C F {..<cnt F}"
proof -
  have "elems ` set (data F) = (\<lambda>i. elems (data F ! i)) ` {..<cnt F}"
  proof -
    have "set (data F) = (\<lambda>i. data F ! i) ` {..<cnt F}" by (auto simp: in_set_conv_nth)
    then show ?thesis by (simp add: image_image)
  qed
  then show ?thesis by simp
qed

text \<open>What the split and the table of a cover are together.\<close>

definition table_of :: "cube_struct \<Rightarrow> set_family \<Rightarrow> set_family \<Rightarrow> sm_matrix \<Rightarrow> bool" where
  "table_of C F D table \<longleftrightarrow> wf_sm table \<and> snd ` entries table \<subseteq> {i. partially_redundant C F D i}
     \<and> (\<forall>X. hits (entries table) X \<longleftrightarrow>
          onset C F \<subseteq> essential_onset C F D \<union> chosen_onset C F {i. partially_redundant C F D i \<and> i \<in> X} \<union> onset C D)"

lemma derive_table_spec:
  assumes C: "wf_cube C" and F: "is_cover C F" and D: "is_cover C D" and n: "\<forall>p\<in>set (data F). \<not> null_cube C (elems p)"
    and m: "cnt F \<le> 65536" and k: "cube_size C < k"
    and E: "is_cover C E" "onset C E = essential_onset C F D"
    and Rp: "is_cover C Rp" "data Rp = map ((!) (data (numbered F))) (filter (partially_redundant C F D) [0..<cnt F])"
  shows "\<exists>table D'. irred_derive_table k C D E Rp = Inr (table, D') \<and> table_of C F D table
    \<and> is_cover C D' \<and> map elems (data D') = map elems (data D)"
proof -
  note N = numbered_spec [OF F]
  let ?part = "partially_redundant C F D" and ?ess = "relatively_essential C F D"
  let ?P = "filter ?part [0..<cnt F]" and ?reset = "\<lambda>A. A\<lparr>data := map (\<lambda>p. RESET p REDUND) (data A)\<rparr>"
  define el where "el j = elems (data F ! (?P ! j))" for j
  have reset: "is_cover C (?reset A)" "\<forall>p\<in>set (data (?reset A)). \<not> TESTP p REDUND" "onset C (?reset A) = onset C A"
    "map elems (data (?reset A)) = map elems (data A)" if A: "is_cover C A" for A
    using wf_familyD(3) [OF A] A wf_nonempty [OF wf_familyD(3) [OF A]] by (auto simp: wf_family_def image_image)
  let ?R = "Rp\<lparr>data := map (\<lambda>p. SET p REDUND) (data Rp)\<rparr>"
  have R: "is_cover C ?R" using wf_familyD(3) [OF Rp(1)] Rp(1) by (auto simp: wf_family_def)
  have P: "j < length ?P \<Longrightarrow> ?P ! j < cnt F \<and> ?part (?P ! j)" for j using nth_mem [of j ?P] by auto
  have cR: "cnt ?R = length ?P" by (simp add: Rp(2))
  have fl: "\<forall>j<length ?P. elems (data ?R ! j) = el j \<and> SIZE (data ?R ! j) = ?P ! j \<and> (TESTP (data ?R ! j) REDUND \<longleftrightarrow> 0 \<le> j)"
    using P N(3,4) m wf_nonempty [OF N(5)] by (simp add: Rp(2) el_def)
  have nn: "\<forall>j<length ?P. \<not> null_cube C (el j)" using P n by (simp add: el_def)
  obtain t where t: "derive_loop k C (?reset D) (?reset E) [0..<length ?P] (?R, sm_alloc, 0) = Inr t" "wf_sm t"
    "snd ` entries t \<subseteq> (!) ?P ` {..<length ?P}"
    "\<forall>X. hits (entries t) X \<longleftrightarrow> (\<forall>j<length ?P. stand_in C el ((!) ?P) (length ?P) (onset C (?reset D) \<union> onset C (?reset E)) X j)"
    using derive_loop_ok [OF C reset(1,2) [OF D] reset(1,2) [OF E(1)] nn k R cR fl sm_alloc_wf(1), of 0] by auto
  have els: "el ` {j. j < length ?P \<and> ?P ! j \<in> X} = (\<lambda>i. elems (data F ! i)) ` {i. ?part i \<and> i \<in> X}" for X
  proof -
    have "{i. ?part i \<and> i \<in> X} = (!) ?P ` {j. j < length ?P \<and> ?P ! j \<in> X}"
    proof (intro set_eqI iffI)
      fix i assume i: "i \<in> {i. ?part i \<and> i \<in> X}"
      then have "i \<in> set ?P" by (auto simp: partially_redundant_def)
      then obtain j where "j < length ?P" "?P ! j = i" by (metis in_set_conv_nth)
      then show "i \<in> (!) ?P ` {j. j < length ?P \<and> ?P ! j \<in> X}" using i by auto
    qed (use P in auto)
    then show ?thesis by (auto simp: el_def image_image)
  qed
  have "hits (entries t) X \<longleftrightarrow> onset C F \<subseteq> essential_onset C F D \<union> chosen_onset C F {i. ?part i \<and> i \<in> X} \<union> onset C D" for X
  proof -
    have "hits (entries t) X \<longleftrightarrow> cov C (el ` {..<length ?P}) \<subseteq> onset C D \<union> essential_onset C F D \<union> cov C (el ` {j. j < length ?P \<and> ?P ! j \<in> X})"
      using t(4) stand_in_all [of "length ?P" C el "(!) ?P"] reset(3) [OF D] reset(3) [OF E(1)] E(2) by simp
    also have "el ` {..<length ?P} = (\<lambda>i. elems (data F ! i)) ` {i. i < cnt F \<and> ?part i}"
      using els [of UNIV] by (simp add: lessThan_def partially_redundant_def cong: conj_cong)
    also have "cov C \<dots> \<subseteq> onset C D \<union> essential_onset C F D \<union> cov C (el ` {j. j < length ?P \<and> ?P ! j \<in> X})
      \<longleftrightarrow> onset C F \<subseteq> essential_onset C F D \<union> chosen_onset C F {i. ?part i \<and> i \<in> X} \<union> onset C D"
      unfolding els onset_nth [of C F] essential_onset_def
    proof (rule redundant_classes)
      show "{i. ?ess i} \<subseteq> {..<cnt F}" by (auto simp: relatively_essential_def)
      show "chosen_onset C F {i} \<subseteq> chosen_onset C F {i. ?ess i} \<union> onset C D" if "i < cnt F" "\<not> ?ess i" "\<not> ?part i" for i
        using that unfolding partially_redundant_def essential_onset_def by simp
    qed (simp add: partially_redundant_def)
    finally show ?thesis .
  qed
  moreover have "snd ` entries t \<subseteq> {i. ?part i}" by (rule order_trans [OF t(3)]) (use P in auto)
  ultimately have "table_of C F D t" using t(2) by (simp add: table_of_def)
  moreover have "irred_derive_table k C D E Rp = Inr (t, ?reset D)" using t(1) cR by (simp add: irred_derive_table_def Let_def)
  ultimately show ?thesis using reset [OF D] by blast
qed

section \<open>The result\<close>

lemma TESTP_RESET:
  assumes "a \<noteq> []" "TESTP (RESET a g) f"
  shows "TESTP a f"
proof -
  have "(a ! 0 AND NOT g) AND f = (a ! 0 AND f) AND NOT g" by (simp add: and.assoc and.commute and.left_commute)
  then show ?thesis using assms by (auto simp: TESTP_def RESET_def)
qed

text \<open>\<open>G\<close> is \<open>F\<close> up to the flags, and exactly the cubes of \<open>K\<close> are active.\<close>

definition flagged :: "cube_struct \<Rightarrow> set_family \<Rightarrow> set_family \<Rightarrow> nat set \<Rightarrow> bool" where
  "flagged C F G K \<longleftrightarrow> is_cover C G \<and> cnt G = cnt F \<and> (\<forall>i<cnt F. elems (data G ! i) = elems (data F ! i) \<and> (TESTP (data G ! i) ACTIVE \<longleftrightarrow> i \<in> K))"

lemma TESTP_SET_ACTIVE:
  assumes "a \<noteq> []"
  shows "TESTP (SET a ACTIVE) ACTIVE" "TESTP (SET (SET a ACTIVE) RELESSEN) ACTIVE"
proof -
  show a: "TESTP (SET a ACTIVE) ACTIVE" using assms by simp
  have "SET a ACTIVE \<noteq> []" using assms by (simp add: SET_def)
  then show "TESTP (SET (SET a ACTIVE) RELESSEN) ACTIVE" by (rule TESTP_SET_mono [OF _ a])
qed

lemma flagged_set:
  assumes G: "flagged C F G K" and j: "j < cnt F" and p: "is_cube C p" "elems p = elems (data F ! j)" "TESTP p ACTIVE"
  shows "flagged C F (G\<lparr>data := (data G)[j := p]\<rparr>) (insert j K)"
proof -
  have "is_cover C (G\<lparr>data := (data G)[j := p]\<rparr>)"
    using G p(1) by (auto simp: flagged_def wf_family_def dest!: set_update_subset_insert [THEN subsetD])
  then show ?thesis using G j p(2,3) by (auto simp: flagged_def nth_list_update)
qed

lemma mark_essen_spec:
  assumes F: "is_cover C F" and "flagged C F G K" "\<forall>p\<in>set ps. is_cube C p \<and> SIZE p < cnt F \<and> elems p = elems (data F ! SIZE p)"
  shows "\<exists>G'. mark_essen G ps = Inr G' \<and> flagged C F G' (K \<union> SIZE ` set ps)"
  using assms(2-)
proof (induction ps arbitrary: G K)
  case (Cons p ps)
  let ?j = "SIZE p" and ?q = "data G ! SIZE p"
  have p: "is_cube C p" "?j < cnt F" "elems p = elems (data F ! ?j)" using Cons.prems(2) by auto
  have G: "is_cover C G" "cnt G = cnt F" "elems ?q = elems (data F ! ?j)" using Cons.prems(1) p(2) by (auto simp: flagged_def)
  have q: "is_cube C ?q" using wf_familyD(5) [OF G(1)] G(2) p(2) by simp
  have e: "setp_equal ?q p" using setp_equal_iff [OF q p(1)] G(3) p(3) by simp
  have "flagged C F (G\<lparr>data := (data G)[?j := SET (SET ?q ACTIVE) RELESSEN]\<rparr>) (insert ?j K)"
    by (rule flagged_set [OF Cons.prems(1) p(2)]) (use q G(3) TESTP_SET_ACTIVE(2) [OF wf_nonempty [OF q]] in simp_all)
  from Cons.IH [OF this] Cons.prems(2) show ?case using e by simp
qed simp

lemma mark_cover_spec:
  assumes F: "is_cover C F" and "flagged C F G K" "set js \<subseteq> {..<cnt F}"
  shows "flagged C F (fold (\<lambda>j F. F\<lparr>data := (data F)[j := SET (data F ! j) ACTIVE]\<rparr>) js G) (K \<union> set js)"
  using assms(2-)
proof (induction js arbitrary: G K)
  case (Cons j js)
  have j: "j < cnt F" using Cons.prems(2) by simp
  have G: "is_cover C G" "cnt G = cnt F" "elems (data G ! j) = elems (data F ! j)" using Cons.prems(1) j by (auto simp: flagged_def)
  have q: "is_cube C (data G ! j)" using wf_familyD(5) [OF G(1)] G(2) j by simp
  have "flagged C F (G\<lparr>data := (data G)[j := SET (data G ! j) ACTIVE]\<rparr>) (insert j K)"
    by (rule flagged_set [OF Cons.prems(1) j]) (use q G(3) TESTP_SET_ACTIVE(1) [OF wf_nonempty [OF q]] in simp_all)
  from Cons.IH [OF this] Cons.prems(2) show ?case by simp
qed simp

lemma mark_irredundant_spec:
  assumes C: "wf_cube C" and F: "is_cover C F" and D: "is_cover C D" and n: "\<forall>p\<in>set (data F). \<not> null_cube C (elems p)"
    and m: "cnt F \<le> 65536" and k: "cube_size C + cnt F + cnt D < k" and fo: "positive_values fo"
  shows "\<exists>G D' K. mark_irredundant k fo C mem F D = Inr (G, D') \<and> flagged C F G K \<and> map elems (data D') = map elems (data D) \<and> is_cover C D'
    \<and> {i. relatively_essential C F D i} \<subseteq> K \<and> K \<subseteq> {i. relatively_essential C F D i \<or> partially_redundant C F D i}
    \<and> onset C F \<subseteq> chosen_onset C F K \<union> onset C D"
proof -
  note N = numbered_spec [OF F]
  let ?part = "partially_redundant C F D" and ?ess = "relatively_essential C F D"
  obtain E Rt Rp where S: "irred_split_cover k C mem F D = Inr (numbered F, E, Rt, Rp)" "is_cover C E" "is_cover C Rp"
    "data E = map ((!) (data (numbered F))) (filter ?ess [0..<cnt F])"
    "data Rp = map ((!) (data (numbered F))) (filter ?part [0..<cnt F])" "onset C E = essential_onset C F D"
    using irred_split_cover_spec [OF C F D n k, of mem] by (elim exE conjE) (rule that)
  have k': "cube_size C < k" using k by simp
  obtain t D' where T: "irred_derive_table k C D E Rp = Inr (t, D')" "table_of C F D t" "is_cover C D'" "map elems (data D') = map elems (data D)"
    using derive_table_spec [OF C F D n m k' S(2,6,3,5)] by (elim exE conjE) (rule that)
  have w: "wf_sm t" using T(2) by (simp add: table_of_def)
  obtain js where js: "sm_minimum_cover fo t None True = Inr js" "set js \<subseteq> snd ` entries t" "hits (entries t) (set js)"
    using minimum_cover [OF w fo positive_None, of True] by auto
  have jp: "set js \<subseteq> {i. ?part i}" using js(2) T(2) unfolding table_of_def by (elim conjE) (rule order_trans)
  let ?F0 = "(numbered F)\<lparr>data := map (\<lambda>p. RESET (RESET p ACTIVE) RELESSEN) (data (numbered F))\<rparr>"
  have fl: "flagged C F ?F0 {}"
  proof -
    have "\<not> TESTP (RESET (RESET p ACTIVE) RELESSEN) ACTIVE" if p: "is_cube C p" for p
    proof
      have ne: "p \<noteq> []" "RESET p ACTIVE \<noteq> []" using wf_nonempty [OF p] by (auto simp: RESET_def)
      assume "TESTP (RESET (RESET p ACTIVE) RELESSEN) ACTIVE"
      then have "TESTP (RESET p ACTIVE) ACTIVE" by (rule TESTP_RESET [OF ne(2)])
      then show False using RESET_spec(5) [OF flag_ok(3) ne(1)] by simp
    qed
    moreover have "is_cover C ?F0" using N(1) wf_familyD(3) [OF N(1)] by (auto simp: wf_family_def)
    ultimately show ?thesis using N(2,3,5) by (simp add: flagged_def)
  qed
  have E: "\<forall>p\<in>set (data E). is_cube C p \<and> SIZE p < cnt F \<and> elems p = elems (data F ! SIZE p)" and sE: "SIZE ` set (data E) = {i. ?ess i}"
  proof -
    have "set (data E) = (\<lambda>i. data (numbered F) ! i) ` {i. ?ess i}" unfolding S(4) by (auto simp: relatively_essential_def)
    moreover have "i < cnt F" if "?ess i" for i using that by (simp add: relatively_essential_def)
    ultimately show "\<forall>p\<in>set (data E). is_cube C p \<and> SIZE p < cnt F \<and> elems p = elems (data F ! SIZE p)" "SIZE ` set (data E) = {i. ?ess i}"
      using N(3,4,5) m by (auto simp: image_image)
  qed
  obtain G where G: "mark_essen ?F0 (data E) = Inr G" "flagged C F G {i. ?ess i}"
    using mark_essen_spec [OF F fl E] sE by auto
  let ?G = "fold (\<lambda>j F. F\<lparr>data := (data F)[j := SET (data F ! j) ACTIVE]\<rparr>) js G" and ?K = "{i. ?ess i} \<union> set js"
  have jr: "set js \<subseteq> {..<cnt F}" using jp by (auto simp: partially_redundant_def)
  have "mark_irredundant k fo C mem F D = Inr (?G, D')"
    using S(1) T(1) js(1) G(1) by (simp add: mark_irredundant_def Let_def)
  moreover have "flagged C F ?G ?K" by (rule mark_cover_spec [OF F G(2) jr])
  moreover have "onset C F \<subseteq> chosen_onset C F ?K \<union> onset C D"
  proof -
    have "{i. ?part i \<and> i \<in> set js} = set js" using jp by blast
    then have "onset C F \<subseteq> essential_onset C F D \<union> chosen_onset C F (set js) \<union> onset C D"
      using js(3) T(2) by (simp add: table_of_def)
    then show ?thesis by (simp add: essential_onset_def image_Un cov_Un)
  qed
  ultimately show ?thesis using T(3,4) jp by (intro exI [of _ ?G] exI [of _ D'] exI [of _ ?K]) auto
qed

text \<open>
  C17. For a cover of at most 65536 cubes, none of them null, and enough fuel: the split of a cover and the covering table express the choice of a redundant-free cover exactly: a set of
  partially redundant cubes meets every row of the table if and only if, with the relatively essential cubes and the
  don't-care set, it covers the whole cover.
\<close>

theorem irred_table_exact:
  assumes "wf_cube C" "is_cover C F" "is_cover C D" "\<forall>p\<in>set (data F). \<not> null_cube C (elems p)"
    "cnt F \<le> 65536" "cube_size C + cnt F + cnt D < k"
  shows "\<exists>E Rt Rp table D'. irred_split_cover k C mem F D = Inr (numbered F, E, Rt, Rp) \<and> irred_derive_table k C D E Rp = Inr (table, D')
    \<and> (\<forall>X. hits (entries table) X \<longleftrightarrow>
         onset C F \<subseteq> onset C E \<union> chosen_onset C F {i. partially_redundant C F D i \<and> i \<in> X} \<union> onset C D)"
proof -
  obtain E Rt Rp where S: "irred_split_cover k C mem F D = Inr (numbered F, E, Rt, Rp)" "is_cover C E" "is_cover C Rp"
    "data E = map ((!) (data (numbered F))) (filter (relatively_essential C F D) [0..<cnt F])"
    "data Rp = map ((!) (data (numbered F))) (filter (partially_redundant C F D) [0..<cnt F])" "onset C E = essential_onset C F D"
    using irred_split_cover_spec [OF assms(1-4,6), of mem] by (elim exE conjE) (rule that)
  have "cube_size C < k" using assms(6) by simp
  from derive_table_spec [OF assms(1-5) this S(2,6,3,5)] show ?thesis
    using S(1,6) by (elim exE conjE) (simp add: table_of_def)
qed

theorem irred_table_exact_witness:
  "\<exists>E Rt Rp table D'. irred_split_cover 13 demo_cube (\<lambda>_ _. 0) (cover_of 7 [[0, 2, 3, 4], [0, 1, 2, 4, 5], [1, 2, 5, 6]]) (cover_of 7 [[1, 2, 4]])
      = Inr (numbered (cover_of 7 [[0, 2, 3, 4], [0, 1, 2, 4, 5], [1, 2, 5, 6]]), E, Rt, Rp)
    \<and> irred_derive_table 13 demo_cube (cover_of 7 [[1, 2, 4]]) E Rp = Inr (table, D')"
  using irred_table_exact [of demo_cube "cover_of 7 [[0, 2, 3, 4], [0, 1, 2, 4, 5], [1, 2, 5, 6]]" "cover_of 7 [[1, 2, 4]]" 13 "\<lambda>_ _. 0"]
  by auto

text \<open>
  C18. For a cover of at most 65536 cubes (their numbers are kept in 16 bits), none of them null, and enough
  fuel: the irredundant cover consists of cubes of the given cover, all relatively essential ones among them
  and no totally redundant one, and covers the same together with the don't-care set.
  (As everywhere in the covering step, the floating-point operations are those of any arithmetic in which the column values
  are positive.)
\<close>

theorem irredundant_covers:
  assumes "wf_cube C" "is_cover C F" "is_cover C D" "\<forall>p\<in>set (data F). \<not> null_cube C (elems p)"
    "cnt F \<le> 65536" "cube_size C + cnt F + cnt D < k" "positive_values fo"
  shows "\<exists>G D' K. irredundant k fo C mem F D = Inr (G, D') \<and> is_cover C G \<and> is_cover C D' \<and> map elems (data D') = map elems (data D)
    \<and> map elems (data G) = map (\<lambda>i. elems (data F ! i)) (filter (\<lambda>i. i \<in> K) [0..<cnt F])
    \<and> {i. relatively_essential C F D i} \<subseteq> K \<and> K \<subseteq> {i. relatively_essential C F D i \<or> partially_redundant C F D i}
    \<and> onset C G \<union> onset C D = onset C F \<union> onset C D"
proof -
  obtain G D' K where G: "mark_irredundant k fo C mem F D = Inr (G, D')" "flagged C F G K" "map elems (data D') = map elems (data D)" "is_cover C D'"
    "{i. relatively_essential C F D i} \<subseteq> K" "K \<subseteq> {i. relatively_essential C F D i \<or> partially_redundant C F D i}"
    "onset C F \<subseteq> chosen_onset C F K \<union> onset C D"
    using mark_irredundant_spec [OF assms, of mem] by (elim exE conjE) (rule that)
  have c: "is_cover C G" "cnt G = cnt F" using G(2) by (simp_all add: flagged_def)
  note I = sf_inactive_spec [OF c(1)]
  have e: "map elems (data (sf_inactive G)) = map (\<lambda>i. elems (data F ! i)) (filter (\<lambda>i. i \<in> K) [0..<cnt F])"
  proof -
    have "data G = map ((!) (data G)) [0..<cnt F]" by (simp add: map_nth c(2) [symmetric])
    then have "filter (\<lambda>p. TESTP p ACTIVE) (data G) = map ((!) (data G)) (filter (\<lambda>i. TESTP (data G ! i) ACTIVE) [0..<cnt F])"
      by (metis (no_types, lifting) filter_map o_apply filter_cong)
    also have "filter (\<lambda>i. TESTP (data G ! i) ACTIVE) [0..<cnt F] = filter (\<lambda>i. i \<in> K) [0..<cnt F]"
      by (rule filter_cong) (use G(2) in \<open>auto simp: flagged_def\<close>)
    finally show ?thesis unfolding I(1) using G(2) by (auto simp: flagged_def)
  qed
  have KF: "K \<subseteq> {..<cnt F}" using G(6) by (auto simp: relatively_essential_def partially_redundant_def)
  have "elems ` set (data (sf_inactive G)) = (\<lambda>i. elems (data F ! i)) ` K"
    using arg_cong [OF e, of set] KF by (auto simp: image_iff)
  then have "onset C (sf_inactive G) = chosen_onset C F K" by simp
  moreover have "chosen_onset C F K \<subseteq> onset C F" unfolding onset_nth [of C F] by (rule cov_mono) (use KF in auto)
  ultimately show ?thesis using G I(2) e by (intro exI [of _ "sf_inactive G"] exI [of _ D'] exI [of _ K]) (auto simp: irredundant_def)
qed

theorem irredundant_covers_witness:
  "\<exists>G D'. irredundant 13 rat_ops demo_cube (\<lambda>_ _. 0) (cover_of 7 [[0, 2, 3, 4], [0, 1, 2, 4, 5], [1, 2, 5, 6]]) (cover_of 7 [[1, 2, 4]]) = Inr (G, D')
    \<and> is_cover demo_cube G"
  using irredundant_covers [of demo_cube "cover_of 7 [[0, 2, 3, 4], [0, 1, 2, 4, 5], [1, 2, 5, 6]]" "cover_of 7 [[1, 2, 4]]" 13 rat_ops "\<lambda>_ _. 0"]
    rat_ops_positive
  by auto

end
