(* ===== verification/Primes.thy ===== *)
theory Primes
  imports Essen
begin

text \<open>
  Prime implicants by consensus (\<^verbatim>\<open>primes.c\<close>): the primes of the two halves of a cubelist, cut to their halves, and the
  consensus of each pair at distance one.
\<close>

section \<open>The routines\<close>

definition and_with_cofactor :: "cube_struct \<Rightarrow> set_family \<Rightarrow> pset \<Rightarrow> set_family" where
  "and_with_cofactor C A c =
     sf_inactive (A\<lparr>data := map (\<lambda>p. let p = set_and p p c in if cdist C p (fullset C) > 0 then RESET p ACTIVE else SET p ACTIVE) (data A)\<rparr>)"

text \<open>The pair of the buffer \<^verbatim>\<open>T\<close> and of \<^verbatim>\<open>Tsave\<close> after the pair \<^verbatim>\<open>pl\<close>, \<^verbatim>\<open>pr\<close>.\<close>

definition consensus_step :: "cube_struct \<Rightarrow> memory \<Rightarrow> nat \<Rightarrow> pset \<times> pset \<Rightarrow> set_family \<times> set_family \<Rightarrow> set_family \<times> set_family" where
  "consensus_step C mem sz plr st =
     (let (pl, pr) = plr; (T, Tsave) = st in
      if cdist01 C pl pr = 1 then
        (let T = sf_push T (consensus C (sf_fresh mem T) pl pr)
         in if cnt T \<ge> capacity T then (sf_new 500 sz, sf_union Tsave (sf_contain T)) else (T, Tsave))
      else (T, Tsave))"

definition primes_consensus_merge :: "cube_struct \<Rightarrow> memory \<Rightarrow> set_family \<Rightarrow> set_family \<Rightarrow> pset \<Rightarrow> pset \<Rightarrow> set_family res" where
  "primes_consensus_merge C mem Tl Tr cl cr =
     (let Tl = and_with_cofactor C Tl cl; Tr = and_with_cofactor C Tr cr
      in rmap (\<lambda>J. let (T, Tsave) = fold (consensus_step C mem (sf_size Tl)) (List.product (data Tl) (data Tr))
                                      (sf_new 500 (sf_size Tl), sf_contain J)
                   in sf_union Tsave (sf_contain T)) (sf_join Tl Tr))"

definition primes_consensus_special_cases ::
  "(cubelist \<Rightarrow> set_family res) \<Rightarrow> cube_struct \<Rightarrow> memory \<Rightarrow> cubelist \<Rightarrow> set_family special res" where
  "primes_consensus_special_cases rec C mem T =
     (case cubes T of
        [] \<Rightarrow> Inr (Done (new_cover C 0))
      | [p] \<Rightarrow> Inr (Done (sf_addset mem (new_cover C 1) (set_or (cof T) (cof T) p)))
      | _ \<Rightarrow>
        (if list_ex (\<lambda>p. full_row C p (cof T)) (cubes T)
         then Inr (Done (sf_addset mem (new_cover C 1) (fullset C)))
         else
           (let ceil = fold (\<lambda>p ceil. set_or ceil ceil p) (cubes T) (set_save (cof T)) in
            if \<not> setp_equal ceil (fullset C) then
              (let p = set_diff (new_cube C) (fullset C) ceil
               in rmap (\<lambda>A. Done (A\<lparr>data := map (\<lambda>p. set_and p p ceil) (data A)\<rparr>))
                    (rec (T\<lparr>cof := set_or (cof T) (cof T) p\<rparr>)))
            else
              (let cd = massive_count C T in
               if vars_active cd = 1 then Inr (Done (sf_addset mem (new_cover C 1) (fullset C)))
               else if vars_unate cd = vars_active cd then Inr (Done (sf_contain (cubeunlist C mem T)))
               else Inr (Maybe cd)))))"

fun primes_consensus :: "nat \<Rightarrow> cube_struct \<Rightarrow> memory \<Rightarrow> cubelist \<Rightarrow> set_family res" where
  "primes_consensus 0 C mem T = Inl Nofuel"
| "primes_consensus (Suc k) C mem T =
     rbind (primes_consensus_special_cases (primes_consensus k C mem) C mem T) (\<lambda>s.
       case s of
         Done Tnew \<Rightarrow> Inr Tnew
       | Maybe cd \<Rightarrow>
           (let (cl, cr, best) = binate_split_select C T cd (new_cube C) (new_cube C)
            in rbind (primes_consensus k C mem (scofactor C T cl best None)) (\<lambda>Tl.
               rbind (primes_consensus k C mem (scofactor C T cr best None)) (\<lambda>Tr.
               primes_consensus_merge C mem Tl Tr cl cr))))"

section \<open>The special cases\<close>

lemma primes_special: "primes_consensus_special_cases rec C mem T = simplify_special_cases rec C mem T"
  by (simp add: primes_consensus_special_cases_def simplify_special_cases_def)

text \<open>A rule for the special cases of a list that the simplifier and the prime generator share.\<close>

lemma special_cases_rule:
  assumes C: "wf_cube C" and T: "wf_list C T"
    and none: "cubes T = [] \<Longrightarrow> Q (Inr (Done (new_cover C 0)))"
    and one: "\<And>p. cubes T = [p] \<Longrightarrow> Q (Inr (Done (sf_addset mem (new_cover C 1) (set_or (cof T) (cof T) p))))"
    and full: "lcov C T = {x. point C x} \<Longrightarrow> cubes T \<noteq> [] \<Longrightarrow> Q (Inr (Done (sf_addset mem (new_cover C 1) (fullset C))))"
    and zero: "elems (ceiling T) \<noteq> {..<cube_size C} \<Longrightarrow>
      Q (rmap (\<lambda>A. Done (A\<lparr>data := map (\<lambda>p. set_and p p (ceiling T)) (data A)\<rparr>)) (rec (raised C T (new_cube C))))"
    and unate: "all_unate C T \<Longrightarrow> Q (Inr (Done (sf_contain (cubeunlist C mem T))))"
    and split: "\<not> all_unate C T \<Longrightarrow> Q (Inr (Maybe (massive_count C T)))"
  shows "Q (simplify_special_cases rec C mem T)"
proof -
  consider (none) "cubes T = []" | (one) p where "cubes T = [p]" | (more) p q ps where "cubes T = p # q # ps"
    by (metis list.exhaust)
  then show ?thesis
  proof cases
    case none
    then show ?thesis using assms(3) by (simp add: simplify_special_cases_def)
  next
    case (one p)
    then show ?thesis using assms(4) [of p] by (simp add: simplify_special_cases_def)
  next
    case more
    note eq = simplify_special_cases_def [of rec C mem T, folded ceiling_def, unfolded more list.case, folded more]
    have ne: "cubes T \<noteq> []" by (simp add: more)
    show ?thesis
    proof (cases "list_ex (\<lambda>p. full_row C p (cof T)) (cubes T)")
      case True
      then show ?thesis using full [OF full_row_tautology [OF C T True] ne] unfolding eq by simp
    next
      case nf: False
      show ?thesis
      proof (cases "elems (ceiling T) = {..<cube_size C}")
        case False
        have "\<not> setp_equal (ceiling T) (fullset C)" using setp_full_cube [OF C ceiling_spec(1) [OF T]] False by simp
        then show ?thesis using zero [OF False] unfolding eq raised_def by (simp add: nf Let_def)
      next
        case True
        then have e: "setp_equal (ceiling T) (fullset C)" using setp_full_cube [OF C ceiling_spec(1) [OF T]] by simp
        show ?thesis
        proof (cases "vars_active (massive_count C T) = 1")
          case a: True
          show ?thesis using full [OF single_active_tautology [OF C T True a] ne] unfolding eq by (simp add: nf e a Let_def)
        next
          case a: False
          show ?thesis using a unate split unate_counts_iff [OF C T] unfolding eq by (cases "all_unate C T") (simp_all add: nf e Let_def)
        qed
      qed
    qed
  qed
qed

section \<open>The largest implicants are kept\<close>

text \<open>
  A cube that is an implicant of a list on the points that are free of cofactored parts, and contains such a point, is
  in a cube of the result, up to the cofactored parts.
\<close>

definition implicant :: "cube_struct \<Rightarrow> cubelist \<Rightarrow> nat set \<Rightarrow> bool" where
  "implicant C T c \<longleftrightarrow> c \<subseteq> {..<cube_size C} \<and> (\<exists>x. free C T x \<and> covers C c x) \<and> (\<forall>x. free C T x \<and> covers C c x \<longrightarrow> x \<in> lcov C T)"

definition keeps :: "cube_struct \<Rightarrow> cubelist \<Rightarrow> set_family \<Rightarrow> bool" where
  "keeps C T R \<longleftrightarrow> (\<forall>c. implicant C T c \<longrightarrow> (\<exists>r\<in>set (data R). c \<subseteq> elems r \<union> elems (cof T)))"

lemma implicantE:
  assumes "implicant C T c"
  obtains x where "c \<subseteq> {..<cube_size C}" "free C T x" "covers C c x" "x \<in> lcov C T" "\<And>x. free C T x \<Longrightarrow> covers C c x \<Longrightarrow> x \<in> lcov C T"
  using assms unfolding implicant_def by (elim conjE exE) (simp add: that)

lemma covers_part: "covers C c x \<Longrightarrow> v < num_vars C \<Longrightarrow> x v = e \<Longrightarrow> e \<in> c"
  by (auto simp: covers_def)

lemma covers_upd: "covers C c x \<Longrightarrow> e \<in> c \<Longrightarrow> covers C c (x(v := e))"
  by (simp add: covers_def)

text \<open>Each part of such a cube is in a free point of it.\<close>

lemma implicant_part:
  assumes C: "wf_cube C" and c: "implicant C T c" and e: "e \<in> c" "e \<notin> elems (cof T)"
  obtains x v where "v < num_vars C" "e \<in> vparts C v" "free C T x" "covers C c x" "x v = e" "x \<in> lcov C T"
proof -
  obtain x0 where x0: "c \<subseteq> {..<cube_size C}" "free C T x0" "covers C c x0" "\<And>x. free C T x \<Longrightarrow> covers C c x \<Longrightarrow> x \<in> lcov C T"
    using implicantE [OF c] by metis
  obtain v where v: "v < num_vars C" "e \<in> vparts C v" using vparts_cover [OF wf_cubeD(1) [OF C], of e] x0(1) e(1) by auto
  note F = free_upd [OF C x0(2) v e(2)] covers_upd [OF x0(3) e(1), of v]
  show ?thesis by (rule that [OF v F _ x0(4) [OF F]]) simp
qed

lemma keeps_full:
  assumes "wf_cube C"
  shows "keeps C T (sf_addset mem (new_cover C k) (fullset C))"
  using sf_addset_spec(1) [OF new_cover_simps(1) wf_cubeD(3) [OF assms]] wf_cubeD(4) [OF assms]
  by (auto simp: keeps_def implicant_def)

lemma keeps_one:
  assumes C: "wf_cube C" and T: "wf_list C T" and p: "cubes T = [p]"
  shows "keeps C T (sf_addset mem (new_cover C k) (set_or (cof T) (cof T) p))"
proof -
  note s = single_cube [OF C T p]
  have "c \<subseteq> elems (set_or (cof T) (cof T) p) \<union> elems (cof T)" if c: "implicant C T c" for c
  proof
    fix e assume e: "e \<in> c"
    show "e \<in> elems (set_or (cof T) (cof T) p) \<union> elems (cof T)"
    proof (cases "e \<in> elems (cof T)")
      case False
      obtain x v where x: "v < num_vars C" "x v = e" "x \<in> lcov C T" by (rule implicant_part [OF C c e False])
      have "covers C (elems (set_or (cof T) (cof T) p)) x" using x(3) unfolding s(2) by simp
      from covers_part [OF this x(1,2)] show ?thesis by simp
    qed simp
  qed
  then show ?thesis using sf_addset_spec(1) [OF new_cover_simps(1) s(1)] by (auto simp: keeps_def)
qed

lemma keeps_zero:
  assumes C: "wf_cube C" and T: "wf_list C T" and r: "length r = SET_SIZE (cube_size C)" and A: "is_cover C A" "keeps C (raised C T r) A"
  shows "keeps C T (A\<lparr>data := map (\<lambda>p. set_and p p (ceiling T)) (data A)\<rparr>)"
  unfolding keeps_def
proof (intro allI impI)
  note R = raised_spec [OF C T r]
  fix c assume c: "implicant C T c"
  obtain x0 where x0: "c \<subseteq> {..<cube_size C}" "free C T x0" "covers C c x0" "x0 \<in> lcov C T" "\<And>x. free C T x \<Longrightarrow> covers C c x \<Longrightarrow> x \<in> lcov C T"
    using implicantE [OF c] by metis
  have "free C T x" if "free C (raised C T r) x" for x using that R(3) by (simp add: free_def)
  then have "implicant C (raised C T r) c"
    using x0(1,3,5) R(5) [OF x0(2) lcov_ceiling [OF T x0(4)]] R(6) unfolding implicant_def by blast
  then obtain q where q: "q \<in> set (data A)" "c \<subseteq> elems q \<union> elems (cof (raised C T r))" using A(2) by (auto simp: keeps_def)
  have w: "is_cube C q" by (rule wf_familyD(3) [OF A(1) q(1)])
  have e: "elems (set_and q q (ceiling T)) = elems q \<inter> elems (ceiling T)"
    by (rule binops_elems(1) [OF w ceiling_spec(1) [OF T] wf_length [OF w]])
  have "c \<subseteq> elems (set_and q q (ceiling T)) \<union> elems (cof T)"
  proof
    fix e assume e': "e \<in> c"
    show "e \<in> elems (set_and q q (ceiling T)) \<union> elems (cof T)"
    proof (cases "e \<in> elems (cof T)")
      case False
      obtain x v where "v < num_vars C" "x v = e" "x \<in> lcov C T" by (rule implicant_part [OF C c e' False])
      then have "e \<in> elems (ceiling T)" using lcov_ceiling [OF T] by (auto simp: covers_def)
      then show ?thesis using q(2) e' False unfolding e R(3) by blast
    qed simp
  qed
  then show "\<exists>q\<in>set (data (A\<lparr>data := map (\<lambda>p. set_and p p (ceiling T)) (data A)\<rparr>)). c \<subseteq> elems q \<union> elems (cof T)"
    using q(1) by auto
qed

lemma keeps_unate:
  assumes C: "wf_cube C" and T: "wf_list C T" and u: "all_unate C T"
  shows "keeps C T (sf_contain (cubeunlist C mem T))"
  unfolding keeps_def
proof (intro allI impI)
  fix c assume c: "implicant C T c"
  obtain x0 where x0: "c \<subseteq> {..<cube_size C}" "free C T x0" "covers C c x0" "\<And>x. free C T x \<Longrightarrow> covers C c x \<Longrightarrow> x \<in> lcov C T"
    using implicantE [OF c] by metis
  define x where "x v = (if \<exists>a\<in>active_parts C T v. a \<in> c then SOME a. a \<in> active_parts C T v \<and> a \<in> c else x0 v)" for v
  have x: "x v \<in> active_parts C T v \<and> x v \<in> c" if a: "\<exists>a\<in>active_parts C T v. a \<in> c" for v
  proof -
    have "\<exists>a. a \<in> active_parts C T v \<and> a \<in> c" using a by blast
    from someI_ex [OF this] show ?thesis using a by (simp add: x_def)
  qed
  have xv: "x v \<in> c \<and> x v \<in> vparts C v \<and> x v \<notin> elems (cof T)" if v: "v < num_vars C" for v
  proof (cases "\<exists>a\<in>active_parts C T v. a \<in> c")
    case True
    then show ?thesis using x [OF True] by (auto simp: active_parts_def)
  next
    case False
    then have "x v = x0 v" unfolding x_def by (rule if_not_P)
    then show ?thesis using x0(2,3) v by (simp add: free_def point_def covers_def)
  qed
  have "free C T x" "covers C c x" using xv by (simp_all add: free_def point_def covers_def)
  then have "x \<in> lcov C T" by (rule x0(4))
  then obtain p where p: "p \<in> set (cubes T)" "covers C (elems p \<union> elems (cof T)) x" by (auto simp: lcov_iff)
  have "c \<subseteq> elems p \<union> elems (cof T)"
  proof
    fix e assume e: "e \<in> c"
    then obtain v where v: "v < num_vars C" "e \<in> vparts C v" using vparts_cover [OF wf_cubeD(1) [OF C], of e] x0(1) by auto
    show "e \<in> elems p \<union> elems (cof T)"
    proof (rule ccontr)
      assume n: "e \<notin> elems p \<union> elems (cof T)"
      then have a: "e \<in> active_parts C T v" using p(1) v(2) by (auto simp: active_parts_def)
      then have "x v \<in> active_parts C T v" using x e by blast
      moreover have "card (active_parts C T v) \<le> 1" using u v(1) by (simp add: all_unate_def)
      ultimately have "x v = e" using a card_le_Suc0_iff_eq [OF finite_active_parts, of C T v] by auto
      then show False using covers_part [OF p(2) v(1)] n by simp
    qed
  qed
  moreover obtain Y where "Y \<in> maximal_sets (elems ` set (data (cubeunlist C mem T)))" "elems p \<union> elems (cof T) \<subseteq> Y"
  proof -
    have "elems ` set (data (cubeunlist C mem T)) = (\<lambda>p. elems p \<union> elems (cof T)) ` set (cubes T)"
      using arg_cong [OF cubeunlist_spec(2) [OF C T, of mem], of set] by simp
    then have "elems p \<union> elems (cof T) \<in> elems ` set (data (cubeunlist C mem T))" using p(1) by simp
    then show ?thesis using maximal_above [of "elems ` set (data (cubeunlist C mem T))"] that by blast
  qed
  ultimately have "c \<subseteq> Y" "Y \<in> elems ` set (data (sf_contain (cubeunlist C mem T)))"
    using sf_contain_spec(2) [OF cubeunlist_spec(1) [OF C T, of mem]] by auto
  then show "\<exists>q\<in>set (data (sf_contain (cubeunlist C mem T))). c \<subseteq> elems q \<union> elems (cof T)" by blast
qed

section \<open>The merge\<close>

lemma and_with_cofactor_spec:
  assumes C: "wf_cube C" and A: "is_cover C A" and c: "is_cube C c"
  shows "is_cover C (and_with_cofactor C A c)"
    "elems ` set (data (and_with_cofactor C A c)) = {X \<inter> elems c |X. X \<in> elems ` set (data A) \<and> \<not> null_cube C (X \<inter> elems c)}"
proof -
  define f where "f p = (let p = set_and p p c in if cdist C p (fullset C) > 0 then RESET p ACTIVE else SET p ACTIVE)" for p
  have f: "is_cube C (f p) \<and> elems (f p) = elems p \<inter> elems c \<and> (TESTP (f p) ACTIVE \<longleftrightarrow> \<not> null_cube C (elems p \<inter> elems c))"
    if p: "p \<in> set (data A)" for p
  proof -
    have w: "is_cube C p" by (rule wf_familyD(3) [OF A p])
    note a = binops_wf(1) [OF w c wf_length [OF w]] binops_elems(1) [OF w c wf_length [OF w]]
    have "elems p \<inter> elems c \<inter> {..<cube_size C} = elems p \<inter> elems c" using wf_elem_less [OF w] by auto
    then have "cdist C (set_and p p c) (fullset C) = card (nulls C (elems p \<inter> elems c))"
      using cdist_spec [OF C a(1) wf_cubeD(3) [OF C]] a(2) wf_cubeD(4) [OF C] by simp
    moreover have "null_cube C (elems p \<inter> elems c) \<longleftrightarrow> card (nulls C (elems p \<inter> elems c)) > 0"
      by (simp add: null_cube_nulls card_gt_0_iff)
    moreover have "set_and p p c \<noteq> []" by (rule wf_nonempty [OF a(1)])
    ultimately show ?thesis using a by (cases "null_cube C (elems p \<inter> elems c)") (simp_all add: f_def Let_def)
  qed
  let ?B = "A\<lparr>data := map f (data A)\<rparr>"
  have B: "is_cover C ?B" using A f by (auto simp: wf_family_def)
  have eq: "and_with_cofactor C A c = sf_inactive ?B" unfolding and_with_cofactor_def f_def [abs_def] ..
  show "is_cover C (and_with_cofactor C A c)" unfolding eq by (rule sf_inactive_spec(2) [OF B])
  show "elems ` set (data (and_with_cofactor C A c)) = {X \<inter> elems c |X. X \<in> elems ` set (data A) \<and> \<not> null_cube C (X \<inter> elems c)}"
    unfolding eq sf_inactive_spec(1) [OF B]
  proof (intro set_eqI iffI)
    fix Y assume "Y \<in> elems ` set (filter (\<lambda>p. TESTP p ACTIVE) (data ?B))"
    then obtain p where "p \<in> set (data A)" "Y = elems (f p)" "TESTP (f p) ACTIVE" by auto
    then show "Y \<in> {X \<inter> elems c |X. X \<in> elems ` set (data A) \<and> \<not> null_cube C (X \<inter> elems c)}" using f by blast
  next
    fix Y assume "Y \<in> {X \<inter> elems c |X. X \<in> elems ` set (data A) \<and> \<not> null_cube C (X \<inter> elems c)}"
    then obtain p where p: "p \<in> set (data A)" "Y = elems p \<inter> elems c" "\<not> null_cube C (elems p \<inter> elems c)" by blast
    then have "f p \<in> set (filter (\<lambda>p. TESTP p ACTIVE) (data ?B))" "Y = elems (f p)" using f [OF p(1)] by simp_all
    then show "Y \<in> elems ` set (filter (\<lambda>p. TESTP p ACTIVE) (data ?B))" by blast
  qed
qed

lemma maximal_Un:
  assumes "finite A" "finite B"
  shows "maximal_sets (maximal_sets A \<union> B) = maximal_sets (A \<union> B)"
proof (rule antichain_maximal)
  have f: "finite (maximal_sets A \<union> B)" using assms maximal_subset [of A] finite_subset by blast
  show "maximal_sets (maximal_sets A \<union> B) \<subseteq> A \<union> B" using maximal_subset [of A] maximal_subset [of "maximal_sets A \<union> B"] by blast
  show "\<forall>X\<in>A \<union> B. \<exists>Y\<in>maximal_sets (maximal_sets A \<union> B). X \<subseteq> Y"
  proof
    fix X assume "X \<in> A \<union> B"
    then obtain Y where "Y \<in> maximal_sets A \<union> B" "X \<subseteq> Y" using maximal_above [OF assms(1), of X] by blast
    then show "\<exists>Y\<in>maximal_sets (maximal_sets A \<union> B). X \<subseteq> Y" using maximal_above [OF f, of Y] by blast
  qed
  show "\<forall>X\<in>maximal_sets (maximal_sets A \<union> B). \<forall>Y\<in>maximal_sets (maximal_sets A \<union> B). \<not> X \<subset> Y" by (auto simp: maximal_sets_def)
qed

text \<open>The consensus of two cubes at distance one, as a set of parts, and the sets that the merge collects.\<close>

definition joined :: "cube_struct \<Rightarrow> nat set \<Rightarrow> nat set \<Rightarrow> nat set" where
  "joined C a b = a \<inter> b \<union> (a \<union> b) \<inter> null_parts C (a \<inter> b)"

definition consensuses :: "cube_struct \<Rightarrow> (nat set \<times> nat set) set \<Rightarrow> nat set set" where
  "consensuses C P = {joined C a b |a b. (a, b) \<in> P \<and> card (nulls C (a \<inter> b)) = 1}"

lemma consensuses_insert: "consensuses C (insert (a, b) P) =
    (if card (nulls C (a \<inter> b)) = 1 then insert (joined C a b) (consensuses C P) else consensuses C P)"
  by (auto simp: consensuses_def)

definition merge_inv :: "cube_struct \<Rightarrow> nat set set \<Rightarrow> set_family \<times> set_family \<Rightarrow> bool" where
  "merge_inv C P st \<longleftrightarrow> (let (T, S) = st in is_cover C T \<and> cnt T < capacity T \<and> is_cover C S \<and> contain_form S
     \<and> maximal_sets (elems ` set (data T) \<union> elems ` set (data S)) = maximal_sets P)"

lemma union_contain:
  assumes "is_cover C T" "is_cover C S" "contain_form S"
  shows "is_cover C (sf_union S (sf_contain T))" "contain_form (sf_union S (sf_contain T))"
    "elems ` set (data (sf_union S (sf_contain T))) = maximal_sets (elems ` set (data T) \<union> elems ` set (data S))"
proof -
  note c = sf_contain_spec(1) [OF assms(1)] sf_contain_form [OF assms(1)]
  show "is_cover C (sf_union S (sf_contain T))" by (rule sf_union_general(1) [OF assms(2) c(1)])
  show "contain_form (sf_union S (sf_contain T))" by (rule sf_union_form [OF assms(2) c(1) assms(3) c(2)])
  have "elems ` set (data (sf_union S (sf_contain T))) = maximal_sets (maximal_sets (elems ` set (data T)) \<union> elems ` set (data S))"
    unfolding sf_union_maximal [OF assms(2) c(1) assms(3) c(2)] sf_contain_spec(2) [OF assms(1)] by (simp add: Un_commute)
  then show "elems ` set (data (sf_union S (sf_contain T))) = maximal_sets (elems ` set (data T) \<union> elems ` set (data S))"
    by (simp add: maximal_Un)
qed

lemma consensus_step_inv:
  assumes C: "wf_cube C" and p: "is_cube C pl" "is_cube C pr" and inv: "merge_inv C P st" and P: "finite P"
  shows "merge_inv C (if card (nulls C (elems pl \<inter> elems pr)) = 1 then insert (joined C (elems pl) (elems pr)) P else P)
    (consensus_step C mem (cube_size C) (pl, pr) st)"
proof -
  obtain T S where st: "st = (T, S)" by (cases st)
  have T: "is_cover C T" "cnt T < capacity T" "is_cover C S" "contain_form S"
    "maximal_sets (elems ` set (data T) \<union> elems ` set (data S)) = maximal_sets P" using inv by (auto simp: merge_inv_def st)
  have d: "cdist01 C pl pr = 1 \<longleftrightarrow> card (nulls C (elems pl \<inter> elems pr)) = 1"
    unfolding cdist01_spec [OF C p] by auto
  let ?k = "consensus C (sf_fresh mem T) pl pr" and ?T = "sf_push T (consensus C (sf_fresh mem T) pl pr)"
  have l: "length (sf_fresh mem T) = SET_SIZE (cube_size C)" using T(1) by (simp add: wf_family_def)
  have k: "is_cube C ?k" "elems ?k = joined C (elems pl) (elems pr)"
    using consensus_spec(1,2) [OF C p l] by (simp_all add: joined_def)
  have W: "is_cover C ?T" by (rule wf_sf_push [OF T(1) k(1) T(2)])
  have "maximal_sets ({elems ?k} \<union> (elems ` set (data T) \<union> elems ` set (data S))) = maximal_sets ({elems ?k} \<union> P)"
    using maximal_Un [of P "{elems ?k}"] maximal_Un [of "elems ` set (data T) \<union> elems ` set (data S)" "{elems ?k}"] P T(5)
    by (simp add: Un_commute)
  then have M: "maximal_sets (elems ` set (data ?T) \<union> elems ` set (data S)) = maximal_sets (insert (joined C (elems pl) (elems pr)) P)"
    using k(2) by (simp add: Un_commute Un_left_commute insert_commute)
  note U = union_contain [OF W T(3,4)]
  show ?thesis
  proof (cases "cdist01 C pl pr = 1")
    case True
    show ?thesis
    proof (cases "cnt ?T \<ge> capacity ?T")
      case f: True
      then have "consensus_step C mem (cube_size C) (pl, pr) st = (sf_new 500 (cube_size C), sf_union S (sf_contain ?T))"
        using True by (simp add: consensus_step_def st Let_def)
      then show ?thesis using True d U M by (simp add: merge_inv_def maximal_idem)
    next
      case f: False
      then have "consensus_step C mem (cube_size C) (pl, pr) st = (?T, S)" using True by (simp add: consensus_step_def st Let_def)
      then show ?thesis using True d W f T(3,4) M by (simp add: merge_inv_def)
    qed
  next
    case False
    then show ?thesis using d inv by (simp add: consensus_step_def st)
  qed
qed

definition cut :: "cube_struct \<Rightarrow> set_family \<Rightarrow> pset \<Rightarrow> nat set set" where
  "cut C A c = {X \<inter> elems c |X. X \<in> elems ` set (data A) \<and> \<not> null_cube C (X \<inter> elems c)}"

definition merged :: "cube_struct \<Rightarrow> nat set set \<Rightarrow> nat set set \<Rightarrow> nat set set" where
  "merged C L R = L \<union> R \<union> consensuses C (L \<times> R)"

lemma consensus_loop:
  assumes C: "wf_cube C" and ps: "\<forall>(pl, pr)\<in>set ps. is_cube C pl \<and> is_cube C pr" and "merge_inv C P st" "finite P"
  shows "merge_inv C (P \<union> consensuses C ((\<lambda>(pl, pr). (elems pl, elems pr)) ` set ps)) (fold (consensus_step C mem (cube_size C)) ps st)"
  using assms(2-)
proof (induction ps arbitrary: P st)
  case (Cons plr ps)
  obtain pl pr where plr: "plr = (pl, pr)" by (cases plr)
  have p: "is_cube C pl" "is_cube C pr" using Cons.prems(1) plr by auto
  let ?P = "if card (nulls C (elems pl \<inter> elems pr)) = 1 then insert (joined C (elems pl) (elems pr)) P else P"
  have "merge_inv C (?P \<union> consensuses C ((\<lambda>(pl, pr). (elems pl, elems pr)) ` set ps))
      (fold (consensus_step C mem (cube_size C)) ps (consensus_step C mem (cube_size C) plr st))"
    by (rule Cons.IH [OF _ consensus_step_inv [OF C p Cons.prems(2,3), of mem, folded plr]]) (use Cons.prems in auto)
  moreover have "?P \<union> consensuses C ((\<lambda>(pl, pr). (elems pl, elems pr)) ` set ps)
      = P \<union> consensuses C ((\<lambda>(pl, pr). (elems pl, elems pr)) ` set (plr # ps))"
    by (simp add: plr consensuses_insert)
  ultimately show ?case by simp
qed (simp add: consensuses_def)

lemma primes_merge_spec:
  assumes C: "wf_cube C" and L: "is_cover C Tl" and R: "is_cover C Tr" and c: "is_cube C cl" "is_cube C cr"
  shows "\<exists>U. primes_consensus_merge C mem Tl Tr cl cr = Inr U \<and> is_cover C U
    \<and> distinct (map elems (data U)) \<and> elems ` set (data U) = maximal_sets (merged C (cut C Tl cl) (cut C Tr cr))"
proof -
  let ?L = "and_with_cofactor C Tl cl" and ?R = "and_with_cofactor C Tr cr"
  note l = and_with_cofactor_spec [OF C L c(1), folded cut_def] and r = and_with_cofactor_spec [OF C R c(2), folded cut_def]
  obtain J where J: "sf_join ?L ?R = Inr J" "data J = data ?L @ data ?R" "is_cover C J" by (rule sf_join_spec [OF l(1) r(1)])
  have sz: "sf_size ?L = cube_size C" using l(1) by (simp add: wf_family_def)
  let ?ps = "List.product (data ?L) (data ?R)" and ?P = "cut C Tl cl \<union> cut C Tr cr"
  have eJ: "elems ` set (data J) = ?P" unfolding J(2) set_append image_Un l(2) r(2) ..
  have fin: "finite ?P" unfolding eJ [symmetric] by simp
  have inv0: "merge_inv C ?P (sf_new 500 (cube_size C), sf_contain J)"
    using sf_contain_spec(1,2) [OF J(3)] sf_contain_form [OF J(3)] eJ by (simp add: merge_inv_def maximal_idem)
  have ps: "\<forall>(pl, pr)\<in>set ?ps. is_cube C pl \<and> is_cube C pr" using wf_familyD(3) [OF l(1)] wf_familyD(3) [OF r(1)] by auto
  obtain T S where TS: "fold (consensus_step C mem (cube_size C)) ?ps (sf_new 500 (cube_size C), sf_contain J) = (T, S)" by fastforce
  have "(\<lambda>(pl, pr). (elems pl, elems pr)) ` set ?ps = cut C Tl cl \<times> cut C Tr cr"
    unfolding l(2) [symmetric] r(2) [symmetric] by (auto simp: image_iff)
  then have "merge_inv C (merged C (cut C Tl cl) (cut C Tr cr)) (T, S)"
    using consensus_loop [OF C ps inv0 fin, of mem] unfolding TS merged_def by simp
  then have M: "is_cover C T" "is_cover C S" "contain_form S"
    "maximal_sets (elems ` set (data T) \<union> elems ` set (data S)) = maximal_sets (merged C (cut C Tl cl) (cut C Tr cr))"
    by (simp_all add: merge_inv_def)
  have "primes_consensus_merge C mem Tl Tr cl cr = Inr (sf_union S (sf_contain T))"
    using J(1) TS sz by (simp add: primes_consensus_merge_def Let_def)
  then show ?thesis using union_contain [OF M(1-3)] M(4) contain_form_distinct by fastforce
qed

text \<open>The points of the merged sets.\<close>

lemma joined_cov:
  assumes C: "wf_cube C" and "card (nulls C (a \<inter> b)) = 1"
  shows "cov C {joined C a b} \<subseteq> cov C {a} \<union> cov C {b}"
proof
  obtain u where u: "nulls C (a \<inter> b) = {u}" using assms(2) by (auto simp: card_1_singleton_iff)
  fix x assume x: "x \<in> cov C {joined C a b}"
  then have p: "point C x" "covers C (joined C a b) x" by (simp_all add: cov_def)
  have un: "u < num_vars C" using u by (auto simp: nulls_def)
  have "x w \<in> a \<inter> b \<or> w = u \<and> x w \<in> a \<union> b" if w: "w < num_vars C" for w
  proof -
    have "x w \<in> joined C a b" using p(2) w by (simp add: covers_def)
    then consider "x w \<in> a \<inter> b" | "x w \<in> a \<union> b" "x w \<in> vparts C u" by (auto simp: joined_def null_parts_def u)
    then show ?thesis
    proof cases
      case 2
      then show ?thesis using vparts_disjoint [OF wf_cubeD(1) [OF C] w un _ 2(2)] p(1) w by (simp add: point_def)
    qed simp
  qed
  then have "covers C a x \<or> covers C b x" unfolding covers_def by blast
  then show "x \<in> cov C {a} \<union> cov C {b}" using p(1) by (simp add: cov_def)
qed

lemma cut_cov: "cov C (cut C A c) = {x \<in> onset C A. covers C (elems c) x}"
proof (intro set_eqI iffI)
  fix x assume "x \<in> cov C (cut C A c)"
  then show "x \<in> {x \<in> onset C A. covers C (elems c) x}" by (auto simp: cut_def cov_def covers_Int)
next
  fix x assume "x \<in> {x \<in> onset C A. covers C (elems c) x}"
  then obtain p where p: "p \<in> set (data A)" "point C x" "covers C (elems p \<inter> elems c) x" by (auto simp: cov_def covers_Int)
  then have "\<not> null_cube C (elems p \<inter> elems c)" using covers_not_null by blast
  then have "elems p \<inter> elems c \<in> cut C A c" using p(1) by (auto simp: cut_def)
  then show "x \<in> cov C (cut C A c)" using p(2,3) by (auto simp: cov_def)
qed

lemma merged_cov:
  assumes C: "wf_cube C"
  shows "cov C (merged C L R) = cov C L \<union> cov C R"
proof -
  have "cov C (consensuses C (L \<times> R)) \<subseteq> cov C L \<union> cov C R"
  proof
    fix x assume "x \<in> cov C (consensuses C (L \<times> R))"
    then obtain a b where ab: "a \<in> L" "b \<in> R" "card (nulls C (a \<inter> b)) = 1" "x \<in> cov C {joined C a b}"
      by (auto simp: cov_def consensuses_def)
    then have "x \<in> cov C {a} \<union> cov C {b}" using joined_cov [OF C ab(3)] by blast
    then show "x \<in> cov C L \<union> cov C R" using ab(1,2) by (auto simp: cov_def)
  qed
  then show ?thesis unfolding merged_def cov_simps by blast
qed

lemma finite_merged: "finite (merged C (cut C A c) (cut C B d))"
proof -
  have f: "finite (cut C A c)" for A c
    by (rule finite_subset [of _ "(\<lambda>X. X \<inter> elems c) ` elems ` set (data A)"]) (auto simp: cut_def)
  have "consensuses C (cut C A c \<times> cut C B d) \<subseteq> (\<lambda>(a, b). joined C a b) ` (cut C A c \<times> cut C B d)"
    by (auto simp: consensuses_def)
  then have "finite (consensuses C (cut C A c \<times> cut C B d))" by (rule finite_subset) (simp add: f)
  then show ?thesis by (simp add: merged_def f)
qed

lemma merge_gives_ok:
  assumes C: "wf_cube C" and T: "wf_list C T" and s: "split_ok C T cl cr v"
    and L: "ok C (scofactor C T cl v None) (lcov C (scofactor C T cl v None)) Tl"
    and R: "ok C (scofactor C T cr v None) (lcov C (scofactor C T cr v None)) Tr"
    and U: "is_cover C U" "elems ` set (data U) = maximal_sets (merged C (cut C Tl cl) (cut C Tr cr))"
  shows "ok C T (lcov C T) U"
proof -
  have o: "onset C U = {x \<in> onset C Tl. covers C (elems cl) x} \<union> {x \<in> onset C Tr. covers C (elems cr) x}"
    unfolding U(2) cov_maximal [OF finite_merged] merged_cov [OF C] cut_cov ..
  have side: "x \<in> lcov C T" if "c = cl \<or> c = cr" "x \<in> lcov C (scofactor C T c v None)" "covers C (elems c) x" for x c
    using split_cov [OF C T s that(1) _ that(3)] that(2) by (auto simp: lcov_iff)
  show ?thesis unfolding ok_def o
  proof (intro conjI ballI impI)
    show "is_cover C U" by (rule U(1))
    show "{x \<in> onset C Tl. covers C (elems cl) x} \<union> {x \<in> onset C Tr. covers C (elems cr) x} \<subseteq> lcov C T"
      using okD(2) [OF L] okD(2) [OF R] side by blast
    fix x assume x: "x \<in> lcov C T" "free C T x"
    have p: "point C x" by (rule free_point [OF x(2)])
    have in_half: "x \<in> lcov C (scofactor C T c v None) \<and> free C (scofactor C T c v None) x" if "c = cl \<or> c = cr" "covers C (elems c) x" for c
      using split_cov [OF C T s that(1) p that(2)] split_free [OF C T s that(1) x(2) that(2)] x(1) by simp
    show "x \<in> {x \<in> onset C Tl. covers C (elems cl) x} \<union> {x \<in> onset C Tr. covers C (elems cr) x}"
      using split_cases [OF C s x(2)] in_half okD(3) [OF L] okD(3) [OF R] by blast
  qed
qed

section \<open>The merge keeps the largest implicants\<close>

lemma covers_outside:
  assumes C: "wf_cube C" and v: "v < num_vars C" and x: "point C x" "x v \<in> c" and c: "{..<cube_size C} - vparts C v \<subseteq> c"
  shows "covers C c x"
  unfolding covers_def
proof (intro allI impI)
  fix u assume u: "u < num_vars C"
  have "x u \<in> vparts C u" using x(1) u by (simp add: point_def)
  then have "u = v \<or> x u \<in> {..<cube_size C} - vparts C v"
    using vparts_disjoint [OF wf_cubeD(1) [OF C] u v, of "x u"] vparts_less [OF wf_cubeD(1) [OF C] u] by blast
  then show "x u \<in> c" using x(2) c by blast
qed

lemma keeps_half:
  assumes C: "wf_cube C" and T: "wf_list C T" and s: "split_ok C T cl cr v" and h: "h = cl \<or> h = cr"
    and A: "is_cover C A" "keeps C (scofactor C T h v None) A"
    and c: "implicant C T c" and x: "free C T x" "covers C c x" "covers C (elems h) x"
  shows "\<exists>Y\<in>cut C A h. c \<inter> elems h \<subseteq> Y \<union> elems (cof T) \<and> covers C Y x"
proof -
  have hc: "is_cube C h" using s h by (auto simp: split_ok_def)
  have "implicant C (scofactor C T h v None) c"
    using c x unfolding implicant_def split_free_iff [OF C T s h]
    using split_cov [OF C T s h free_point] by blast
  then obtain r where r: "r \<in> set (data A)" "c \<subseteq> elems r \<union> elems (cof (scofactor C T h v None))" using A(2) unfolding keeps_def by blast
  then have c: "c \<subseteq> elems r \<union> elems (cof T) \<union> ({..<cube_size C} - elems h)" unfolding cofactor_wf(4) [OF C T hc] by blast
  have "x u \<in> elems r \<inter> elems h" if "u < num_vars C" for u
    using c x that by (auto simp: free_def covers_def)
  then have Y: "covers C (elems r \<inter> elems h) x" by (simp add: covers_def)
  then have "elems r \<inter> elems h \<in> cut C A h" using r(1) covers_not_null [OF Y free_point [OF x(1)]] unfolding cut_def by blast
  moreover have "c \<inter> elems h \<subseteq> (elems r \<inter> elems h) \<union> elems (cof T)" using c by blast
  ultimately show ?thesis using Y by blast
qed

lemma keeps_merge_one:
  assumes C: "wf_cube C" and T: "wf_list C T" and s: "split_ok C T cl cr v" and h: "(h, g) = (cl, cr) \<or> (h, g) = (cr, cl)"
    and A: "is_cover C A" "keeps C (scofactor C T h v None) A"
    and c: "implicant C T c" and x: "free C T x" "covers C c x" "covers C (elems h) x"
    and n: "\<forall>y. free C T y \<and> covers C c y \<longrightarrow> \<not> covers C (elems g) y"
  shows "\<exists>Y\<in>cut C A h. c \<subseteq> Y \<union> elems (cof T)"
proof -
  have h': "h = cl \<or> h = cr" using h by auto
  obtain Y where Y: "Y \<in> cut C A h" "c \<inter> elems h \<subseteq> Y \<union> elems (cof T)"
    using keeps_half [OF C T s h' A c x] by blast
  have S: "v < num_vars C" "{..<cube_size C} - vparts C v \<subseteq> elems h" "{..<cube_size C} - vparts C v \<subseteq> elems g"
    "(elems h \<union> elems g) \<inter> vparts C v = vparts C v - elems (cof T)" using s h by (auto simp: split_ok_def)
  have cs: "c \<subseteq> {..<cube_size C}" using c by (simp add: implicant_def)
  have "e \<in> elems h \<union> elems (cof T)" if e: "e \<in> c" for e
  proof (rule ccontr)
    assume ne: "e \<notin> elems h \<union> elems (cof T)"
    then have ev: "e \<in> vparts C v" using S(2) cs e by blast
    then have "e \<in> elems g" using S(4) ne by blast
    note F = free_upd [OF C x(1) S(1) ev] covers_upd [OF x(2) e, of v]
    have "covers C (elems g) (x(v := e))"
      by (rule covers_outside [OF C S(1) _ _ S(3)]) (use F(1) ne free_point \<open>e \<in> elems g\<close> in auto)
    then show False using n F ne by blast
  qed
  then show ?thesis using Y by blast
qed

lemma keeps_merge:
  assumes C: "wf_cube C" and T: "wf_list C T" and s: "split_ok C T cl cr v" and dis: "elems cl \<inter> elems cr \<inter> vparts C v = {}"
    and L: "is_cover C Tl" "keeps C (scofactor C T cl v None) Tl" and R: "is_cover C Tr" "keeps C (scofactor C T cr v None) Tr"
    and c: "implicant C T c"
  shows "\<exists>Y\<in>merged C (cut C Tl cl) (cut C Tr cr). c \<subseteq> Y \<union> elems (cof T)"
proof -
  obtain x0 where x0: "free C T x0" "covers C c x0" using implicantE [OF c] by metis
  have cs: "c \<subseteq> {..<cube_size C}" using c by (simp add: implicant_def)
  show ?thesis
  proof (cases "\<exists>x. free C T x \<and> covers C c x \<and> covers C (elems cl) x")
    case False
    then have "covers C (elems cr) x0" using split_cases [OF C s x0(1)] x0 by blast
    then show ?thesis using keeps_merge_one [OF C T s _ R c x0, of cl] False unfolding merged_def by blast
  next
    case l: True
    then obtain xl where xl: "free C T xl" "covers C c xl" "covers C (elems cl) xl" by blast
    show ?thesis
    proof (cases "\<exists>x. free C T x \<and> covers C c x \<and> covers C (elems cr) x")
      case False
      then show ?thesis using keeps_merge_one [OF C T s _ L c xl, of cr] unfolding merged_def by blast
    next
      case True
      then obtain xr where xr: "free C T xr" "covers C c xr" "covers C (elems cr) xr" by blast
      obtain a where a: "a \<in> cut C Tl cl" "c \<inter> elems cl \<subseteq> a \<union> elems (cof T)" "covers C a xl"
        using keeps_half [OF C T s _ L c xl] by blast
      obtain b where b: "b \<in> cut C Tr cr" "c \<inter> elems cr \<subseteq> b \<union> elems (cof T)" "covers C b xr"
        using keeps_half [OF C T s _ R c xr] by blast
      have S: "v < num_vars C" "{..<cube_size C} - vparts C v \<subseteq> elems cl" "{..<cube_size C} - vparts C v \<subseteq> elems cr"
        "(elems cl \<union> elems cr) \<inter> vparts C v = vparts C v - elems (cof T)" using s by (auto simp: split_ok_def)
      have ab: "a \<subseteq> elems cl" "b \<subseteq> elems cr" using a(1) b(1) by (auto simp: cut_def)
      have other: "e \<in> a \<inter> b" if "e \<in> c" "e \<notin> vparts C v" "e \<notin> elems (cof T)" for e
        using that cs S(2,3) a(2) b(2) by blast
      have "nulls C (a \<inter> b) = {v}"
      proof (intro set_eqI iffI)
        fix u assume u: "u \<in> nulls C (a \<inter> b)"
        then have un: "u < num_vars C" "a \<inter> b \<inter> vparts C u = {}" by (auto simp: nulls_def null_var_def)
        have xu: "xl u \<in> c" "xl u \<in> vparts C u" "xl u \<notin> elems (cof T)" using xl un(1) by (auto simp: covers_def free_def point_def)
        then have "xl u \<in> vparts C v" using other un(2) by blast
        then show "u \<in> {v}" using vparts_disjoint [OF wf_cubeD(1) [OF C] un(1) S(1) xu(2)] by simp
      next
        fix u assume "u \<in> {v}"
        then show "u \<in> nulls C (a \<inter> b)" using S(1) ab dis by (auto simp: nulls_def null_var_def)
      qed
      then have one: "card (nulls C (a \<inter> b)) = 1" "joined C a b = a \<inter> b \<union> (a \<union> b) \<inter> vparts C v"
        by (simp_all add: joined_def null_parts_def)
      have "c \<subseteq> joined C a b \<union> elems (cof T)" unfolding one(2) using other S(4) a(2) b(2) by blast
      moreover have "joined C a b \<in> merged C (cut C Tl cl) (cut C Tr cr)" using a(1) b(1) one(1) by (auto simp: merged_def consensuses_def)
      ultimately show ?thesis by blast
    qed
  qed
qed

lemma keeps_merged:
  assumes "wf_cube C" "wf_list C T" "split_ok C T cl cr v" "elems cl \<inter> elems cr \<inter> vparts C v = {}"
    "is_cover C Tl" "keeps C (scofactor C T cl v None) Tl" "is_cover C Tr" "keeps C (scofactor C T cr v None) Tr"
    and U: "elems ` set (data U) = maximal_sets (merged C (cut C Tl cl) (cut C Tr cr))"
  shows "keeps C T U"
  unfolding keeps_def
proof (intro allI impI)
  fix c assume "implicant C T c"
  from keeps_merge [OF assms(1-8) this]
  obtain Y where Y: "Y \<in> merged C (cut C Tl cl) (cut C Tr cr)" "c \<subseteq> Y \<union> elems (cof T)" by blast
  then obtain Z where "Z \<in> elems ` set (data U)" "Y \<subseteq> Z" using maximal_above [OF finite_merged Y(1)] unfolding U by blast
  then show "\<exists>q\<in>set (data U). c \<subseteq> elems q \<union> elems (cof T)" using Y(2) by blast
qed

lemma split_disjoint:
  assumes C: "wf_cube C" and T: "wf_list C T"
    and s: "binate_split_select C T (massive_count C T) (new_cube C) (new_cube C) = (cl, cr, v)"
  shows "elems cl \<inter> elems cr \<inter> vparts C v = {}"
proof -
  obtain b where b: "b < num_vars C" "best_var (massive_count C T) = int b" using massive_count_spec(8) [OF C T] by blast
  note S = binate_split_spec [OF C T b(2,1) new_cube_length new_cube_length s]
  show ?thesis using S(1,6) by simp
qed

definition primes_done :: "cube_struct \<Rightarrow> cubelist \<Rightarrow> set_family special res \<Rightarrow> bool" where
  "primes_done C T r \<longleftrightarrow> (\<exists>s. r = Inr s \<and> (case s of
      Done R \<Rightarrow> ok C T (lcov C T) R \<and> keeps C T R
    | Maybe cd \<Rightarrow> cd = massive_count C T \<and> \<not> all_unate C T))"

lemma primes_special_ok:
  assumes C: "wf_cube C" and T: "wf_list C T"
    and rec: "\<And>T'. wf_list C T' \<Longrightarrow> cubes T' = cubes T \<Longrightarrow> remaining C T' < remaining C T \<Longrightarrow>
       \<exists>R. rec T' = Inr R \<and> ok C T' (lcov C T') R \<and> keeps C T' R"
  shows "primes_done C T (primes_consensus_special_cases rec C mem T)"
  unfolding primes_special
proof (rule special_cases_rule [OF C T])
  assume "cubes T = []"
  then have "lcov C T = {}" by (auto simp: lcov_iff)
  then show "primes_done C T (Inr (Done (new_cover C 0)))" by (auto simp: primes_done_def ok_def keeps_def implicant_def)
next
  fix p assume p: "cubes T = [p]"
  note s = single_cube [OF C T p]
  show "primes_done C T (Inr (Done (sf_addset mem (new_cover C 1) (set_or (cof T) (cof T) p))))"
    using addset_single [OF s(1)] s(2) keeps_one [OF C T p] by (auto simp: primes_done_def ok_def)
next
  assume "lcov C T = {x. point C x}"
  then show "primes_done C T (Inr (Done (sf_addset mem (new_cover C 1) (fullset C))))"
    using full_cover [OF C] keeps_full [OF C] by (auto simp: primes_done_def ok_def)
next
  assume n: "elems (ceiling T) \<noteq> {..<cube_size C}"
  note R = raised_spec [OF C T new_cube_length]
  obtain A where A: "rec (raised C T (new_cube C)) = Inr A"
    "ok C (raised C T (new_cube C)) (lcov C (raised C T (new_cube C))) A" "keeps C (raised C T (new_cube C)) A"
    using rec [OF R(1,2) R(4) [OF n]] by blast
  show "primes_done C T (rmap (\<lambda>A. Done (A\<lparr>data := map (\<lambda>p. set_and p p (ceiling T)) (data A)\<rparr>)) (rec (raised C T (new_cube C))))"
    using A(1) cut_to_ceiling [OF C T new_cube_length A(2)] keeps_zero [OF C T new_cube_length okD(1) [OF A(2)] A(3)]
    by (simp add: primes_done_def)
next
  assume "all_unate C T"
  then show "primes_done C T (Inr (Done (sf_contain (cubeunlist C mem T))))"
    using contain_list [OF C T, of mem] keeps_unate [OF C T] by (auto simp: primes_done_def ok_def)
qed (simp add: primes_done_def)

text \<open>What a split gives: the result is correct and has the form of a merge.\<close>

definition is_merge :: "cube_struct \<Rightarrow> set_family \<Rightarrow> bool" where
  "is_merge C R \<longleftrightarrow> distinct (map elems (data R)) \<and> (\<exists>A c B d. elems ` set (data R) = maximal_sets (merged C (cut C A c) (cut C B d)))"

lemma primes_split:
  assumes C: "wf_cube C" and T: "wf_list C T" and u: "\<not> all_unate C T"
    and rec: "\<And>T'. wf_list C T' \<Longrightarrow> remaining C T' < remaining C T \<Longrightarrow>
       \<exists>R. primes_consensus k C mem T' = Inr R \<and> ok C T' (lcov C T') R \<and> keeps C T' R"
    and M: "primes_consensus_special_cases (primes_consensus k C mem) C mem T = Inr (Maybe (massive_count C T))"
  shows "\<exists>R. primes_consensus (Suc k) C mem T = Inr R \<and> ok C T (lcov C T) R \<and> keeps C T R \<and> is_merge C R"
proof -
  obtain cl cr v where s: "binate_split_select C T (massive_count C T) (new_cube C) (new_cube C) = (cl, cr, v)"
    by (cases "binate_split_select C T (massive_count C T) (new_cube C) (new_cube C)")
  have S: "split_ok C T cl cr v" by (rule split_okI [OF C T u s])
  have c: "is_cube C cl" "is_cube C cr" using S by (simp_all add: split_ok_def)
  have sub: "\<exists>R. primes_consensus k C mem (scofactor C T c v None) = Inr R
      \<and> ok C (scofactor C T c v None) (lcov C (scofactor C T c v None)) R \<and> keeps C (scofactor C T c v None) R"
    if "c = cl \<or> c = cr" for c
    by (rule rec) (use cofactor_wf(2) [OF C T] that c S in \<open>auto simp: split_ok_def\<close>)
  obtain Tl where Tl: "primes_consensus k C mem (scofactor C T cl v None) = Inr Tl"
    "ok C (scofactor C T cl v None) (lcov C (scofactor C T cl v None)) Tl" "keeps C (scofactor C T cl v None) Tl" using sub by blast
  obtain Tr where Tr: "primes_consensus k C mem (scofactor C T cr v None) = Inr Tr"
    "ok C (scofactor C T cr v None) (lcov C (scofactor C T cr v None)) Tr" "keeps C (scofactor C T cr v None) Tr" using sub by blast
  obtain U where U: "primes_consensus_merge C mem Tl Tr cl cr = Inr U" "is_cover C U" "distinct (map elems (data U))"
    "elems ` set (data U) = maximal_sets (merged C (cut C Tl cl) (cut C Tr cr))"
    using primes_merge_spec [OF C okD(1) [OF Tl(2)] okD(1) [OF Tr(2)] c, of mem] by blast
  have "primes_consensus (Suc k) C mem T = Inr U" using M s Tl(1) Tr(1) U(1) by (simp add: Let_def)
  moreover have "ok C T (lcov C T) U" by (rule merge_gives_ok [OF C T S Tl(2) Tr(2) U(2,4)])
  moreover have "keeps C T U"
    by (rule keeps_merged [OF C T S split_disjoint [OF C T s] okD(1) [OF Tl(2)] Tl(3) okD(1) [OF Tr(2)] Tr(3) U(4)])
  moreover have "is_merge C U" using U(3,4) unfolding is_merge_def by blast
  ultimately show ?thesis by blast
qed

lemma primes_ok:
  assumes C: "wf_cube C" and "wf_list C T" "remaining C T < k"
  shows "\<exists>R. primes_consensus k C mem T = Inr R \<and> ok C T (lcov C T) R \<and> keeps C T R"
  using assms(2-)
proof (induction k arbitrary: T)
  case (Suc k)
  note T = Suc.prems(1)
  have rec: "\<exists>R. primes_consensus k C mem T' = Inr R \<and> ok C T' (lcov C T') R \<and> keeps C T' R"
    if "wf_list C T'" "remaining C T' < remaining C T" for T'
    using Suc.IH [OF that(1)] Suc.prems(2) that(2) by simp
  obtain s where s: "primes_consensus_special_cases (primes_consensus k C mem) C mem T = Inr s"
    "case s of Done R \<Rightarrow> ok C T (lcov C T) R \<and> keeps C T R | Maybe cd \<Rightarrow> cd = massive_count C T \<and> \<not> all_unate C T"
    using primes_special_ok [OF C T rec, of mem] unfolding primes_done_def by blast
  show ?case
  proof (cases s)
    case (Done R)
    then show ?thesis using s by auto
  next
    case (Maybe cd)
    then have "primes_consensus_special_cases (primes_consensus k C mem) C mem T = Inr (Maybe (massive_count C T))" "\<not> all_unate C T"
      using s by simp_all
    from primes_split [OF C T this(2) rec this(1)] show ?thesis by blast
  qed
qed simp

section \<open>The prime implicants\<close>

text \<open>No cube in another, and none empty.\<close>

definition tidy :: "cube_struct \<Rightarrow> set_family \<Rightarrow> bool" where
  "tidy C R \<longleftrightarrow> distinct (map elems (data R)) \<and> (\<forall>X\<in>elems ` set (data R). \<not> null_cube C X \<and> (\<forall>Y\<in>elems ` set (data R). \<not> X \<subset> Y))"

lemma merge_tidy:
  assumes "is_merge C R"
  shows "tidy C R"
proof -
  obtain A c B d where e: "elems ` set (data R) = maximal_sets (merged C (cut C A c) (cut C B d))"
    using assms unfolding is_merge_def by blast
  have "\<not> null_cube C X" if X: "X \<in> merged C (cut C A c) (cut C B d)" for X
  proof (cases "X \<in> cut C A c \<union> cut C B d")
    case False
    then obtain a b where ab: "a \<in> cut C A c" "card (nulls C (a \<inter> b)) = 1" "X = joined C a b"
      using X by (auto simp: merged_def consensuses_def)
    have n: "nulls C a = {}" using ab(1) unfolding cut_def null_cube_nulls by blast
    have "\<not> null_var C X u" if u: "u < num_vars C" for u
    proof (cases "u \<in> nulls C (a \<inter> b)")
      case True
      moreover have "\<not> null_var C a u" using n u by (auto simp: nulls_def)
      ultimately show ?thesis unfolding ab(3) joined_def null_parts_def null_var_def by blast
    next
      case False
      then have "\<not> null_var C (a \<inter> b) u" using u by (simp add: nulls_def)
      then show ?thesis unfolding ab(3) joined_def null_var_def by blast
    qed
    then show ?thesis by (simp add: null_cube_def)
  qed (auto simp: cut_def)
  then show ?thesis using assms unfolding tidy_def is_merge_def e by (auto simp: maximal_sets_def)
qed

lemma tidy_single:
  assumes "is_cube C p" "\<not> null_cube C (elems p)"
  shows "tidy C (sf_addset mem (new_cover C k) p)"
  using sf_addset_spec(1) [OF new_cover_simps(1) assms(1)] assms(2) by (simp add: tidy_def)

lemma primes_tidy:
  assumes C: "wf_cube C" and T: "wf_list C T" and z: "elems (cof T) = {}" and k: "remaining C T < k"
    and n: "\<forall>p\<in>set (cubes T). \<not> null_cube C (elems p)" and full: "(\<Union>p\<in>set (cubes T). elems p) = {..<cube_size C}"
  shows "\<exists>R. primes_consensus k C mem T = Inr R \<and> ok C T (lcov C T) R \<and> keeps C T R \<and> tidy C R"
proof -
  obtain k' where k': "k = Suc k'" using k by (cases k) auto
  have c: "elems (ceiling T) = {..<cube_size C}" using ceiling_spec(2) [OF T] z full by simp
  have "\<not> null_cube C {..<cube_size C}"
    using vparts_nonempty [OF wf_cubeD(1) [OF C]] vparts_less [OF wf_cubeD(1) [OF C]] by (fastforce simp: null_cube_def null_var_def)
  then have fs: "tidy C (sf_addset mem (new_cover C 1) (fullset C))" by (intro tidy_single) (simp_all add: wf_cubeD [OF C])
  have t: "\<exists>s. primes_consensus_special_cases (primes_consensus k' C mem) C mem T = Inr s \<and> (\<forall>R. s = Done R \<longrightarrow> tidy C R)"
    unfolding primes_special
  proof (rule special_cases_rule [OF C T])
    show "\<exists>s. Inr (Done (new_cover C 0)) = Inr s \<and> (\<forall>R. s = Done R \<longrightarrow> tidy C R)" by (simp add: tidy_def)
    fix p assume p: "cubes T = [p]"
    have w: "is_cube C p" using wf_listD(2) [OF T] p by simp
    note k = wf_listD(1) [OF T]
    have "elems (set_or (cof T) (cof T) p) = elems p" using binops_elems(2) [OF k w wf_length [OF k]] z by simp
    then have "tidy C (sf_addset mem (new_cover C 1) (set_or (cof T) (cof T) p))"
      using single_cube(1) [OF C T p] n p by (intro tidy_single) simp_all
    then show "\<exists>s. Inr (Done (sf_addset mem (new_cover C 1) (set_or (cof T) (cof T) p))) = Inr s \<and> (\<forall>R. s = Done R \<longrightarrow> tidy C R)"
      by simp
  next
    have "elems ` set (data (cubeunlist C mem T)) = elems ` set (cubes T)"
      using arg_cong [OF cubeunlist_spec(2) [OF C T, of mem], of set] z by simp
    then have "elems ` set (data (sf_contain (cubeunlist C mem T))) = maximal_sets (elems ` set (cubes T))"
      using sf_contain_spec(2) [OF cubeunlist_spec(1) [OF C T, of mem]] by simp
    then have "tidy C (sf_contain (cubeunlist C mem T))"
      using n sf_contain_spec(3) [OF cubeunlist_spec(1) [OF C T, of mem]] by (auto simp: tidy_def maximal_sets_def)
    then show "\<exists>s. Inr (Done (sf_contain (cubeunlist C mem T))) = Inr s \<and> (\<forall>R. s = Done R \<longrightarrow> tidy C R)" by simp
  qed (use c fs in simp_all)
  have rec: "\<exists>R. primes_consensus k' C mem T' = Inr R \<and> ok C T' (lcov C T') R \<and> keeps C T' R"
    if "wf_list C T'" "remaining C T' < remaining C T" for T'
    using primes_ok [OF C that(1), of k'] that(2) k k' by simp
  obtain s where s: "primes_consensus_special_cases (primes_consensus k' C mem) C mem T = Inr s"
    "case s of Done R \<Rightarrow> ok C T (lcov C T) R \<and> keeps C T R | Maybe cd \<Rightarrow> cd = massive_count C T \<and> \<not> all_unate C T"
    using primes_special_ok [OF C T rec, of mem] unfolding primes_done_def by blast
  show ?thesis
  proof (cases s)
    case (Done R)
    then show ?thesis using s t k' by auto
  next
    case (Maybe cd)
    then have "primes_consensus_special_cases (primes_consensus k' C mem) C mem T = Inr (Maybe (massive_count C T))" "\<not> all_unate C T"
      using s by simp_all
    from primes_split [OF C T this(2) rec this(1)] show ?thesis using merge_tidy k' by blast
  qed
qed

definition prime_of :: "cube_struct \<Rightarrow> (nat \<Rightarrow> nat) set \<Rightarrow> nat set \<Rightarrow> bool" where
  "prime_of C S c \<longleftrightarrow> c \<subseteq> {..<cube_size C} \<and> \<not> null_cube C c \<and> cov C {c} \<subseteq> S
     \<and> (\<forall>d. c \<subset> d \<and> d \<subseteq> {..<cube_size C} \<longrightarrow> \<not> cov C {d} \<subseteq> S)"

lemma implicant_top:
  assumes C: "wf_cube C" and z: "elems (cof T) = {}"
  shows "implicant C T c \<longleftrightarrow> c \<subseteq> {..<cube_size C} \<and> \<not> null_cube C c \<and> cov C {c} \<subseteq> lcov C T"
proof -
  have f: "free C T x \<longleftrightarrow> point C x" for x using z by (simp add: free_def)
  have "(\<exists>x. point C x \<and> covers C c x) \<longleftrightarrow> \<not> null_cube C c" using common_point [OF C, of c] covers_not_null by metis
  then show ?thesis unfolding implicant_def f by (auto simp: cov_def)
qed

lemma implicant_cov: "r \<in> set (data R) \<Longrightarrow> cov C {elems r} \<subseteq> onset C R"
  by (rule cov_mono) simp

lemma primes_contained:
  assumes C: "wf_cube C" and z: "elems (cof T) = {}" and R: "ok C T (lcov C T) R" "keeps C T R" and c: "prime_of C (lcov C T) c"
  shows "c \<in> elems ` set (data R)"
proof -
  have "implicant C T c" using c unfolding implicant_top [OF C z] prime_of_def by blast
  then obtain r where r: "r \<in> set (data R)" "c \<subseteq> elems r" using R(2) z by (auto simp: keeps_def)
  have "cov C {elems r} \<subseteq> lcov C T" using implicant_cov [OF r(1), of C] okD(2) [OF R(1)] by blast
  moreover have "elems r \<subseteq> {..<cube_size C}" using wf_elem_less [OF wf_familyD(3) [OF okD(1) [OF R(1)] r(1)]] by auto
  ultimately have "\<not> c \<subset> elems r" using c unfolding prime_of_def by blast
  then have "c = elems r" using r(2) by blast
  then show ?thesis using r(1) by blast
qed

lemma tidy_prime:
  assumes C: "wf_cube C" and z: "elems (cof T) = {}" and R: "ok C T (lcov C T) R" "keeps C T R" "tidy C R" and r: "r \<in> set (data R)"
  shows "prime_of C (lcov C T) (elems r)"
  unfolding prime_of_def
proof (intro conjI allI impI)
  show "elems r \<subseteq> {..<cube_size C}" using wf_elem_less [OF wf_familyD(3) [OF okD(1) [OF R(1)] r]] by auto
  show n: "\<not> null_cube C (elems r)" using R(3) r by (auto simp: tidy_def)
  show "cov C {elems r} \<subseteq> lcov C T" using implicant_cov [OF r, of C] okD(2) [OF R(1)] by blast
  fix d assume d: "elems r \<subset> d \<and> d \<subseteq> {..<cube_size C}"
  show "\<not> cov C {d} \<subseteq> lcov C T"
  proof
    assume i: "cov C {d} \<subseteq> lcov C T"
    have "\<not> null_cube C d" using n d unfolding null_cube_def null_var_def by blast
    then have "implicant C T d" using d i unfolding implicant_top [OF C z] by blast
    then obtain q where q: "q \<in> set (data R)" "d \<subseteq> elems q" using R(2) z by (auto simp: keeps_def)
    then have "elems r \<subset> elems q" using d by blast
    then show False using R(3) r q(1) unfolding tidy_def by blast
  qed
qed

lemma cube2list_fields:
  assumes "wf_cube C"
  shows "elems (cof (cube2list C F D)) = {}" "cubes (cube2list C F D) = data F @ data D"
    "remaining C (cube2list C F D) = cube_size C" "free C (cube2list C F D) x \<longleftrightarrow> point C x"
  using wf_layoutD(3) [OF wf_cubeD(1) [OF assms]] by (simp_all add: cube2list_def new_cube_def remaining_def free_def)

lemma primes_top:
  assumes C: "wf_cube C" and F: "is_cover C F" and D: "is_cover C D" and k: "cube_size C < k"
  shows "\<exists>R. primes_consensus k C mem (cube2list C F D) = Inr R \<and> is_cover C R \<and> onset C R = onset C F \<union> onset C D
    \<and> {c. prime_of C (onset C F \<union> onset C D) c} \<subseteq> elems ` set (data R)"
proof -
  let ?T = "cube2list C F D"
  note W = cubelists_wf(2,5) [OF C F D D] and c = cube2list_fields [OF C, of F D]
  have k: "remaining C ?T < k" using k c(3) by simp
  obtain R where R: "primes_consensus k C mem ?T = Inr R" "ok C ?T (lcov C ?T) R" "keeps C ?T R" using primes_ok [OF C W(1) k] by blast
  have o: "onset C R = lcov C ?T"
  proof
    show "onset C R \<subseteq> lcov C ?T" by (rule okD(2) [OF R(2)])
    show "lcov C ?T \<subseteq> onset C R" using okD(3) [OF R(2)] c(4) by (auto simp: lcov_iff)
  qed
  have "{q. prime_of C (lcov C ?T) q} \<subseteq> elems ` set (data R)" using primes_contained [OF C c(1) R(2,3)] by blast
  then show ?thesis using R(1) okD(1) [OF R(2)] o unfolding W(2) by blast
qed

text \<open>Also: each implicant that is not empty is in a prime of the result.\<close>

lemma primes_all:
  assumes C: "wf_cube C" and F: "is_cover C F" and D: "is_cover C D" and k: "cube_size C < k"
    and n: "\<forall>p\<in>set (data F) \<union> set (data D). \<not> null_cube C (elems p)" and f: "(\<Union>p\<in>set (data F) \<union> set (data D). elems p) = {..<cube_size C}"
    and R: "primes_consensus k C mem (cube2list C F D) = Inr R"
  shows "elems ` set (data R) = {c. prime_of C (onset C F \<union> onset C D) c}" "distinct (map elems (data R))"
    "\<forall>c. c \<subseteq> {..<cube_size C} \<and> \<not> null_cube C c \<and> cov C {c} \<subseteq> onset C F \<union> onset C D \<longrightarrow> (\<exists>i<cnt R. c \<subseteq> elems (data R ! i))"
proof -
  let ?T = "cube2list C F D"
  note W = cubelists_wf(2,5) [OF C F D D] and c = cube2list_fields [OF C, of F D]
  have k: "remaining C ?T < k" using k c(3) by simp
  have P: "ok C ?T (lcov C ?T) R" "keeps C ?T R" "tidy C R"
    using primes_tidy [OF C W(1) c(1) k, of mem] n f R unfolding c(2) set_append by auto
  show "elems ` set (data R) = {c. prime_of C (onset C F \<union> onset C D) c}"
    using primes_contained [OF C c(1) P(1,2)] tidy_prime [OF C c(1) P] unfolding W(2) by blast
  show "distinct (map elems (data R))" using P(3) by (simp add: tidy_def)
  show "\<forall>c. c \<subseteq> {..<cube_size C} \<and> \<not> null_cube C c \<and> cov C {c} \<subseteq> onset C F \<union> onset C D \<longrightarrow> (\<exists>i<cnt R. c \<subseteq> elems (data R ! i))"
  proof (intro allI impI)
    fix d assume "d \<subseteq> {..<cube_size C} \<and> \<not> null_cube C d \<and> cov C {d} \<subseteq> onset C F \<union> onset C D"
    then have "implicant C ?T d" unfolding implicant_top [OF C c(1)] W(2) .
    then obtain r where "r \<in> set (data R)" "d \<subseteq> elems r" using P(2) c(1) by (auto simp: keeps_def)
    then show "\<exists>i<cnt R. d \<subseteq> elems (data R ! i)" by (auto simp: in_set_conv_nth)
  qed
qed

text \<open>
  C19. With fuel for every part, the generation of primes ends with a cover of the same points that contains every prime implicant of the
  function and its don't-care set.  When no cube is empty and every part occurs in some cube, it returns exactly the prime
  implicants, each once.
\<close>

theorem primes_exact:
  assumes "wf_cube C" "is_cover C F" "is_cover C D" "cube_size C < k"
  shows "\<exists>R. primes_consensus k C mem (cube2list C F D) = Inr R \<and> is_cover C R \<and> onset C R = onset C F \<union> onset C D
    \<and> {c. prime_of C (onset C F \<union> onset C D) c} \<subseteq> elems ` set (data R)
    \<and> ((\<forall>p\<in>set (data F) \<union> set (data D). \<not> null_cube C (elems p)) \<and> (\<Union>p\<in>set (data F) \<union> set (data D). elems p) = {..<cube_size C}
        \<longrightarrow> elems ` set (data R) = {c. prime_of C (onset C F \<union> onset C D) c} \<and> distinct (map elems (data R)))"
proof -
  obtain R where R: "primes_consensus k C mem (cube2list C F D) = Inr R" "is_cover C R" "onset C R = onset C F \<union> onset C D"
    "{c. prime_of C (onset C F \<union> onset C D) c} \<subseteq> elems ` set (data R)" using primes_top [OF assms, of mem] by blast
  then show ?thesis using primes_all(1,2) [OF assms _ _ R(1)] by auto
qed

theorem primes_exact_witness:
  "\<exists>R. primes_consensus 8 demo_cube (\<lambda>_ _. 0) (cube2list demo_cube (cover_of 7 [[0, 2, 3, 4], [1, 2, 5, 6]]) (cover_of 7 [[0, 3, 6]])) = Inr R
    \<and> elems ` set (data R) = {c. prime_of demo_cube (onset demo_cube (cover_of 7 [[0, 2, 3, 4], [1, 2, 5, 6]]) \<union> onset demo_cube (cover_of 7 [[0, 3, 6]])) c}"
proof -
  have n: "\<forall>p\<in>set (data (cover_of 7 [[0, 2, 3, 4], [1, 2, 5, 6]])) \<union> set (data (cover_of 7 [[0, 3, 6]])). \<not> null_cube demo_cube (elems p)"
    by simp
  have f: "(\<Union>p\<in>set (data (cover_of 7 [[0, 2, 3, 4], [1, 2, 5, 6]])) \<union> set (data (cover_of 7 [[0, 3, 6]])). elems p) = {..<cube_size demo_cube}"
    by (auto simp: lessThan_nat_numeral)
  show ?thesis
    using primes_exact [of demo_cube "cover_of 7 [[0, 2, 3, 4], [1, 2, 5, 6]]" "cover_of 7 [[0, 3, 6]]" 8 "\<lambda>_ _. 0"] n f by auto
qed

end
