(* ===== verification/Exact.thy ===== *)
theory Exact
  imports Irred Primes
begin

text \<open>
  Exact minimisation (\<^verbatim>\<open>exact.c\<close>): all primes, the table of the partially redundant ones, and a minimum cover of
  the table.
\<close>

section \<open>The routine\<close>

text \<open>The weight of a cube in the minimisation of literals, and the array of the weights, filled for the cubes of \<^verbatim>\<open>Rp\<close> only.\<close>

definition literal_weight :: "cube_struct \<Rightarrow> pset \<Rightarrow> int" where
  "literal_weight C p = fold (\<lambda>i w. if is_in_set p i then w + 1 else w - 1) (part_range C (nat (output_var C)))
     (int (cube_size C) - int (set_ord p))"

definition literal_weights :: "cube_struct \<Rightarrow> (nat \<Rightarrow> int) \<Rightarrow> set_family \<Rightarrow> nat \<Rightarrow> int" where
  "literal_weights C wmem Rp = fold (\<lambda>p w. w(SIZE p := literal_weight C p)) (data Rp) wmem"

text \<open>\<^verbatim>\<open>do_minimize\<close> up to the call of \<^verbatim>\<open>make_sparse\<close>; \<open>wmem\<close> is what the array of weights holds before it is filled.\<close>

definition minimize_dense :: "nat \<Rightarrow> 'f float_ops \<Rightarrow> cube_struct \<Rightarrow> memory \<Rightarrow> (nat \<Rightarrow> int) \<Rightarrow> set_family \<Rightarrow> set_family \<Rightarrow> bool \<Rightarrow> bool \<Rightarrow>
    (set_family \<times> set_family) res" where
  "minimize_dense k fo C mem wmem F D exact_cover weighted =
     rbind (primes_consensus k C mem (cube2list C F D)) (\<lambda>F.
     rbind (irred_split_cover k C mem F D) (\<lambda>(F, E, Rt, Rp).
     rbind (irred_derive_table k C D E Rp) (\<lambda>(table, D).
       let weights = (if weighted then Some (literal_weights C wmem Rp) else None)
       in rbind (sm_minimum_cover fo table weights (\<not> exact_cover)) (\<lambda>cover.
          let newF = fold (\<lambda>p newF. sf_addset mem newF p) (data E) (new_cover C 100);
              newF = fold (\<lambda>j newF. sf_addset mem newF (data F ! j)) cover newF
          in Inr (newF, D)))))"

section \<open>The result is a minimum cover\<close>

lemma addsets:
  assumes "is_cover C A" "\<forall>p\<in>set ps. is_cube C p"
  shows "is_cover C (fold (\<lambda>p A. sf_addset mem A p) ps A)" "data (fold (\<lambda>p A. sf_addset mem A p) ps A) = data A @ ps"
proof -
  have "is_cover C (fold (\<lambda>p A. sf_addset mem A p) ps A) \<and> data (fold (\<lambda>p A. sf_addset mem A p) ps A) = data A @ ps"
    using assms
  proof (induction ps arbitrary: A)
    case (Cons p ps)
    have p: "is_cube C p" using Cons.prems(2) by simp
    show ?case using Cons.IH [OF sf_addset_spec(2) [OF Cons.prems(1) p]] Cons.prems(2) sf_addset_spec(1) [OF Cons.prems(1) p] by simp
  qed simp
  then show "is_cover C (fold (\<lambda>p A. sf_addset mem A p) ps A)" "data (fold (\<lambda>p A. sf_addset mem A p) ps A) = data A @ ps" by blast+
qed

text \<open>What the choice of a minimum cover of the table means for the whole cover.\<close>

lemma least_choice:
  assumes C: "wf_cube C" and K: "K \<subseteq> {..<cnt F}" "onset C F \<subseteq> chosen_onset C F K \<union> onset C D"
  shows "{i. relatively_essential C F D i} \<subseteq> K"
    "onset C F \<subseteq> essential_onset C F D \<union> chosen_onset C F {i. partially_redundant C F D i \<and> i \<in> K} \<union> onset C D"
proof -
  show ess: "{i. relatively_essential C F D i} \<subseteq> K"
  proof
    fix i assume i: "i \<in> {i. relatively_essential C F D i}"
    show "i \<in> K"
    proof (rule ccontr)
      assume n: "i \<notin> K"
      have "(\<lambda>i. elems (data F ! i)) ` K \<subseteq> elems ` {data F ! j |j. j < cnt F \<and> j \<noteq> i}"
        using K(1) n by blast
      then have "chosen_onset C F K \<subseteq> cov C (elems ` {data F ! j |j. j < cnt F \<and> j \<noteq> i})" by (rule cov_mono)
      moreover have "cov C {elems (data F ! i)} \<subseteq> onset C F" using i by (intro cov_mono) (auto simp: relatively_essential_def)
      ultimately show False using K(2) i unfolding relatively_essential_def by blast
    qed
  qed
  have "chosen_onset C F K \<subseteq> essential_onset C F D \<union> chosen_onset C F {i. partially_redundant C F D i \<and> i \<in> K} \<union> onset C D"
  proof
    fix x assume "x \<in> chosen_onset C F K"
    then obtain i where i: "i \<in> K" "x \<in> cov C {elems (data F ! i)}" by (auto simp: cov_def)
    consider "relatively_essential C F D i" | "partially_redundant C F D i"
      | "\<not> relatively_essential C F D i" "\<not> partially_redundant C F D i" by blast
    then show "x \<in> essential_onset C F D \<union> chosen_onset C F {i. partially_redundant C F D i \<and> i \<in> K} \<union> onset C D"
    proof cases
      case 1
      then have "cov C {elems (data F ! i)} \<subseteq> essential_onset C F D" unfolding essential_onset_def by (intro cov_mono) auto
      then show ?thesis using i(2) by blast
    next
      case 2
      then have "cov C {elems (data F ! i)} \<subseteq> chosen_onset C F {i. partially_redundant C F D i \<and> i \<in> K}"
        using i(1) by (intro cov_mono) auto
      then show ?thesis using i(2) by blast
    next
      case 3
      then have "cov C {elems (data F ! i)} \<subseteq> essential_onset C F D \<union> onset C D"
        using K(1) i(1) unfolding partially_redundant_def by blast
      then show ?thesis using i(2) by blast
    qed
  qed
  then show "onset C F \<subseteq> essential_onset C F D \<union> chosen_onset C F {i. partially_redundant C F D i \<and> i \<in> K} \<union> onset C D"
    using K(2) by blast
qed

text \<open>A cover of the function picks, for each of its cubes that is not empty, a prime that contains it.\<close>

lemma cover_by_primes:
  assumes C: "wf_cube C" and P: "\<forall>c. c \<subseteq> {..<cube_size C} \<and> \<not> null_cube C c \<and> cov C {c} \<subseteq> S \<longrightarrow> (\<exists>i<cnt P. c \<subseteq> elems (data P ! i))"
    and H: "is_cover C H" "onset C H \<subseteq> S"
  shows "\<exists>K. K \<subseteq> {..<cnt P} \<and> card K \<le> cnt H \<and> onset C H \<subseteq> chosen_onset C P K"
proof -
  define f where "f h = (SOME i. i < cnt P \<and> h \<subseteq> elems (data P ! i))" for h
  let ?N = "{h \<in> elems ` set (data H). \<not> null_cube C h}"
  have f: "f h < cnt P \<and> h \<subseteq> elems (data P ! f h)" if h: "h \<in> ?N" for h
  proof -
    obtain p where p: "p \<in> set (data H)" "h = elems p" using h by blast
    have "h \<subseteq> {..<cube_size C}" using wf_elem_less [OF wf_familyD(3) [OF H(1) p(1)]] p(2) by auto
    moreover have "cov C {h} \<subseteq> S" using implicant_cov [OF p(1), of C] H(2) p(2) by blast
    ultimately have "\<exists>i. i < cnt P \<and> h \<subseteq> elems (data P ! i)" using P h by blast
    then show ?thesis unfolding f_def by (rule someI_ex)
  qed
  have "card (f ` ?N) \<le> card ?N" by (rule card_image_le) simp
  also have "card ?N \<le> card (elems ` set (data H))" by (rule card_mono) auto
  also have "\<dots> \<le> cnt H" using card_image_le [of "set (data H)" elems] card_length [of "data H"] by simp
  finally have "card (f ` ?N) \<le> cnt H" .
  moreover have "onset C H \<subseteq> chosen_onset C P (f ` ?N)"
  proof
    fix x assume "x \<in> onset C H"
    then obtain h where h: "h \<in> elems ` set (data H)" "point C x" "covers C h x" by (auto simp: cov_def)
    then have "h \<in> ?N" using covers_not_null by blast
    moreover from f [OF this] have "covers C (elems (data P ! f h)) x" using covers_mono h(3) by blast
    ultimately show "x \<in> chosen_onset C P (f ` ?N)" using h(2) unfolding cov_def by blast
  qed
  moreover have "f ` ?N \<subseteq> {..<cnt P}" using f by (auto simp del: mem_Collect_eq)
  ultimately show ?thesis by (intro exI [of _ "f ` ?N"] conjI)
qed

lemma minimize_dense_spec:
  assumes C: "wf_cube C" and P: "primes_consensus k C mem (cube2list C F D) = Inr P" "is_cover C P" "onset C P = onset C F \<union> onset C D"
    and D: "is_cover C D" and n: "\<forall>p\<in>set (data P). \<not> null_cube C (elems p)" and m: "cnt P \<le> 65536" and k: "cube_size C + cnt P + cnt D < k"
    and fo: "positive_values fo" and w: "\<not> weighted"
  shows "\<exists>G D' js. minimize_dense k fo C mem wmem F D exact weighted = Inr (G, D') \<and> is_cover C G \<and> map elems (data D') = map elems (data D)
    \<and> map elems (data G) = map (\<lambda>i. elems (data P ! i)) (filter (relatively_essential C P D) [0..<cnt P] @ js)
    \<and> onset C P \<subseteq> onset C G \<union> onset C D \<and> set js \<subseteq> {..<cnt P}
    \<and> (exact \<longrightarrow> (\<forall>K. K \<subseteq> {..<cnt P} \<and> onset C P \<subseteq> chosen_onset C P K \<union> onset C D \<longrightarrow> cnt G \<le> card K))"
proof -
  note N = numbered_spec [OF P(2)]
  let ?ess = "relatively_essential C P D" and ?part = "partially_redundant C P D"
  obtain E Rt Rp where S: "irred_split_cover k C mem P D = Inr (numbered P, E, Rt, Rp)" "is_cover C E" "is_cover C Rp"
    "data E = map ((!) (data (numbered P))) (filter ?ess [0..<cnt P])"
    "data Rp = map ((!) (data (numbered P))) (filter ?part [0..<cnt P])" "onset C E = essential_onset C P D"
    using irred_split_cover_spec [OF C P(2) D n k, of mem] by (elim exE conjE) (rule that)
  have k': "cube_size C < k" using k by simp
  obtain t D' where T: "irred_derive_table k C D E Rp = Inr (t, D')" "table_of C P D t" "is_cover C D'" "map elems (data D') = map elems (data D)"
    using derive_table_spec [OF C P(2) D n m k' S(2,6,3,5)] by (elim exE conjE) (rule that)
  have wt: "wf_sm t" using T(2) by (simp add: table_of_def)
  obtain js where js: "sm_minimum_cover fo t None (\<not> exact) = Inr js" "asc js" "set js \<subseteq> snd ` entries t" "hits (entries t) (set js)"
    "exact \<longrightarrow> cost None (set js) = opt None (entries t)"
    using minimum_cover [OF wt fo positive_None, of "\<not> exact"] by (elim exE conjE) (simp add: that)
  have jp: "set js \<subseteq> {i. ?part i}" using js(3) T(2) unfolding table_of_def by (elim conjE) (rule order_trans)
  have dj: "distinct js" by (rule asc_distinct [OF js(2)])
  have jl: "\<forall>p\<in>set (map ((!) (data (numbered P))) js). is_cube C p" using jp N(5) by (auto simp: partially_redundant_def)
  let ?E = "fold (\<lambda>p newF. sf_addset mem newF p) (data E) (new_cover C 100)"
  let ?G = "fold (\<lambda>j newF. sf_addset mem newF (data (numbered P) ! j)) js ?E"
  have E: "is_cover C ?E" "data ?E = data E"
    using addsets [OF new_cover_simps(1), of "data E" C mem 100] wf_familyD(3) [OF S(2)] by simp_all
  have "?G = fold (\<lambda>p newF. sf_addset mem newF p) (map ((!) (data (numbered P))) js) ?E" by (simp add: fold_map comp_def)
  then have G: "is_cover C ?G" "data ?G = data E @ map ((!) (data (numbered P))) js" using addsets [OF E(1) jl, of mem] E(2) by simp_all
  have el: "map elems (data ?G) = map (\<lambda>i. elems (data P ! i)) (filter ?ess [0..<cnt P] @ js)"
  proof -
    have g: "elems (data (numbered P) ! i) = elems (data P ! i)" if "i \<in> set (filter ?ess [0..<cnt P] @ js)" for i
      using that jp N(3) by (auto simp: partially_redundant_def)
    have "map elems (data ?G) = map elems (data E @ map ((!) (data (numbered P))) js)" by (simp only: G(2))
    also have "\<dots> = map (\<lambda>i. elems (data (numbered P) ! i)) (filter ?ess [0..<cnt P] @ js)" unfolding S(4) by simp
    also have "\<dots> = map (\<lambda>i. elems (data P ! i)) (filter ?ess [0..<cnt P] @ js)" using g by (rule map_cong [OF refl])
    finally show ?thesis .
  qed
  have "minimize_dense k fo C mem wmem F D exact weighted = Inr (?G, D')"
    using P(1) S(1) T(1) js(1) w by (simp add: minimize_dense_def Let_def)
  moreover have "onset C P \<subseteq> onset C ?G \<union> onset C D"
  proof -
    have "elems ` set (data ?G) = (\<lambda>i. elems (data P ! i)) ` ({i. ?ess i} \<union> set js)"
      using arg_cong [OF el, of set] by (simp add: image_Un relatively_essential_def)
    moreover have "{i. ?part i \<and> i \<in> set js} = set js" using jp by blast
    then have "onset C P \<subseteq> essential_onset C P D \<union> chosen_onset C P (set js) \<union> onset C D"
      using js(4) T(2) by (simp add: table_of_def)
    ultimately show ?thesis by (simp add: essential_onset_def image_Un)
  qed
  moreover have "cnt ?G \<le> card K" if e: exact and K: "K \<subseteq> {..<cnt P}" "onset C P \<subseteq> chosen_onset C P K \<union> onset C D" for K
  proof -
    note L = least_choice [OF C K]
    let ?X = "{i. ?part i \<and> i \<in> K}"
    have fin: "finite K" using K(1) finite_subset by blast
    have "{i. ?part i \<and> i \<in> ?X} = ?X" by blast
    then have h: "hits (entries t) ?X" using T(2) L(2) by (simp add: table_of_def)
    have "opt None (entries t) \<le> cost None ?X" by (rule opt_le [OF finite_entries [OF wt] positive_None _ h]) (simp add: fin)
    then have "length js \<le> card ?X" using js(5) e dj by (simp add: cost_def WEIGHT_def distinct_card)
    moreover have "length (filter ?ess [0..<cnt P]) = card {i. ?ess i}"
    proof -
      have "set (filter ?ess [0..<cnt P]) = {i. ?ess i}" by (auto simp: relatively_essential_def)
      then show ?thesis by (metis distinct_card distinct_filter distinct_upt)
    qed
    moreover have "card {i. ?ess i} + card ?X \<le> card K"
    proof -
      have "{i. ?ess i} \<inter> ?X = {}" by (auto simp: partially_redundant_def)
      moreover have "finite {i. ?ess i}" using L(1) fin finite_subset by blast
      ultimately have "card {i. ?ess i} + card ?X = card ({i. ?ess i} \<union> ?X)" using fin by (simp add: card_Un_disjoint)
      also have "\<dots> \<le> card K" by (rule card_mono [OF fin]) (use L(1) in blast)
      finally show ?thesis .
    qed
    moreover have "cnt ?G = length (filter ?ess [0..<cnt P]) + length js" using arg_cong [OF el, of length] by simp
    ultimately show ?thesis by simp
  qed
  moreover have "set js \<subseteq> {..<cnt P}" using jp by (auto simp: partially_redundant_def)
  ultimately show ?thesis using G(1) T(4) el by (intro exI [of _ ?G] exI [of _ D'] exI [of _ js]) blast
qed

text \<open>
  C20. Exact minimisation by the number of cubes (the unweighted case), up to the step that makes the result sparse:
  for an on-set and a don't-care set without null cubes in which every part occurs, and a function of at most 65536 primes, with
  enough fuel, it returns a cover of the function by prime implicants, and no cover of the function has fewer cubes; with the
  heuristic for the covering problem the result is still such a cover.
  (As everywhere in the covering step, the floating-point operations are those of any arithmetic in which the column values
  are positive.)
\<close>

theorem exact_minimum:
  assumes "wf_cube C" "is_cover C F" "is_cover C D" "\<forall>p\<in>set (data F) \<union> set (data D). \<not> null_cube C (elems p)"
    "(\<Union>p\<in>set (data F) \<union> set (data D). elems p) = {..<cube_size C}"
    "card {c. prime_of C (onset C F \<union> onset C D) c} \<le> 65536"
    "cube_size C + card {c. prime_of C (onset C F \<union> onset C D) c} + cnt D < k" "positive_values fo"
  shows "\<exists>G D'. minimize_dense k fo C mem wmem F D exact False = Inr (G, D') \<and> is_cover C G \<and> map elems (data D') = map elems (data D)
    \<and> onset C F \<subseteq> onset C G \<union> onset C D \<and> onset C G \<subseteq> onset C F \<union> onset C D
    \<and> (\<forall>p\<in>set (data G). prime_of C (onset C F \<union> onset C D) (elems p))
    \<and> (exact \<longrightarrow> (\<forall>H. is_cover C H \<and> onset C F \<subseteq> onset C H \<union> onset C D \<and> onset C H \<subseteq> onset C F \<union> onset C D \<longrightarrow> cnt G \<le> cnt H))"
proof -
  let ?S = "onset C F \<union> onset C D"
  have k: "cube_size C < k" using assms(7) by simp
  obtain P where P: "primes_consensus k C mem (cube2list C F D) = Inr P" "is_cover C P" "onset C P = ?S"
    using primes_top [OF assms(1-3) k, of mem] by blast
  note A = primes_all [OF assms(1-3) k assms(4,5) P(1)]
  have c: "card {c. prime_of C ?S c} = cnt P"
    using distinct_card [OF A(2)] unfolding A(1) [symmetric] set_map length_map .
  have n: "\<forall>p\<in>set (data P). \<not> null_cube C (elems p)"
  proof
    fix p assume "p \<in> set (data P)"
    then have "elems p \<in> {c. prime_of C ?S c}" unfolding A(1) [symmetric] by blast
    then show "\<not> null_cube C (elems p)" by (simp add: prime_of_def)
  qed
  obtain G D' js where G: "minimize_dense k fo C mem wmem F D exact False = Inr (G, D')" "is_cover C G" "map elems (data D') = map elems (data D)"
    "map elems (data G) = map (\<lambda>i. elems (data P ! i)) (filter (relatively_essential C P D) [0..<cnt P] @ js)"
    "onset C P \<subseteq> onset C G \<union> onset C D" "set js \<subseteq> {..<cnt P}"
    "exact \<longrightarrow> (\<forall>K. K \<subseteq> {..<cnt P} \<and> onset C P \<subseteq> chosen_onset C P K \<union> onset C D \<longrightarrow> cnt G \<le> card K)"
    using minimize_dense_spec [OF assms(1) P assms(3) n assms(6,7) [unfolded c] assms(8), where weighted = False and wmem = wmem and exact = exact] by blast
  have pr: "prime_of C ?S (elems p)" if p: "p \<in> set (data G)" for p
  proof -
    have "elems p \<in> set (map elems (data G))" using p by simp
    then have "elems p \<in> elems ` set (data P)" using G(6) unfolding G(4) by auto
    then show ?thesis unfolding A(1) by simp
  qed
  have sub: "onset C G \<subseteq> ?S" using pr by (auto simp: prime_of_def cov_def)
  have min: "cnt G \<le> cnt H" if e: exact and H: "is_cover C H" "onset C F \<subseteq> onset C H \<union> onset C D" "onset C H \<subseteq> ?S" for H
  proof -
    obtain K where K: "K \<subseteq> {..<cnt P}" "card K \<le> cnt H" "onset C H \<subseteq> chosen_onset C P K"
      using cover_by_primes [OF assms(1) A(3) H(1,3)] by blast
    have "onset C P \<subseteq> chosen_onset C P K \<union> onset C D" using K(3) H(2) P(3) by blast
    then have "cnt G \<le> card K" using G(7) e K(1) by blast
    then show ?thesis using K(2) by simp
  qed
  have "onset C F \<subseteq> onset C G \<union> onset C D" using G(5) P(3) by blast
  then show ?thesis using G(1-3) pr sub min by (intro exI [of _ G] exI [of _ D']) blast
qed

lemma card_primes: "card {c. prime_of C S c} \<le> 2 ^ cube_size C"
proof -
  have "card {c. prime_of C S c} \<le> card (Pow {..<cube_size C})" by (rule card_mono) (auto simp: prime_of_def)
  then show ?thesis by (simp add: card_Pow)
qed

theorem exact_minimum_witness:
  "\<exists>G D'. minimize_dense 200 rat_ops demo_cube (\<lambda>_ _. 0) (\<lambda>_. 0) (cover_of 7 [[0, 2, 3, 4], [0, 1, 2, 4, 5], [1, 2, 5, 6]]) (cover_of 7 [[0, 3, 6]]) True False
      = Inr (G, D')
    \<and> (\<forall>H. is_cover demo_cube H
         \<and> onset demo_cube (cover_of 7 [[0, 2, 3, 4], [0, 1, 2, 4, 5], [1, 2, 5, 6]]) \<subseteq> onset demo_cube H \<union> onset demo_cube (cover_of 7 [[0, 3, 6]])
         \<and> onset demo_cube H \<subseteq> onset demo_cube (cover_of 7 [[0, 2, 3, 4], [0, 1, 2, 4, 5], [1, 2, 5, 6]]) \<union> onset demo_cube (cover_of 7 [[0, 3, 6]])
         \<longrightarrow> cnt G \<le> cnt H)"
proof -
  let ?F = "cover_of 7 [[0, 2, 3, 4], [0, 1, 2, 4, 5], [1, 2, 5, 6]]" and ?D = "cover_of 7 [[0, 3, 6]]"
  have F: "is_cover demo_cube ?F" "is_cover demo_cube ?D" by simp_all
  have n: "\<forall>p\<in>set (data ?F) \<union> set (data ?D). \<not> null_cube demo_cube (elems p)" by simp
  have f: "(\<Union>p\<in>set (data ?F) \<union> set (data ?D). elems p) = {..<cube_size demo_cube}" by (auto simp: lessThan_nat_numeral)
  have c: "card {c. prime_of demo_cube (onset demo_cube ?F \<union> onset demo_cube ?D) c} \<le> 128"
    using card_primes [of demo_cube "onset demo_cube ?F \<union> onset demo_cube ?D"] by simp
  have c1: "card {c. prime_of demo_cube (onset demo_cube ?F \<union> onset demo_cube ?D) c} \<le> 65536"
    and c2: "cube_size demo_cube + card {c. prime_of demo_cube (onset demo_cube ?F \<union> onset demo_cube ?D) c} + cnt ?D < 200"
    using c by simp_all
  show ?thesis
    using exact_minimum [OF demo_cube(1) F n f c1 c2 rat_ops_positive, of "\<lambda>_ _. 0" "\<lambda>_. 0" True] by blast
qed

text \<open>The weight of a cube without empty variable counts its literals: it is positive.\<close>

lemma literal_weight_eq:
  assumes C: "wf_cube C" and v: "output_var C = int v" "v < num_vars C" and p: "is_cube C p"
  shows "literal_weight C p = int (card ({..<cube_size C} - vparts C v - elems p)) + int (card (vparts C v \<inter> elems p))"
proof -
  have f: "fold (\<lambda>i w. if is_in_set p i then w + 1 else w - 1) xs w
      = w + int (length (filter (is_in_set p) xs)) - int (length (filter (\<lambda>i. \<not> is_in_set p i) xs))" for xs :: "nat list" and w :: int
    by (induction xs arbitrary: w) auto
  note L = wf_cubeD(1) [OF C]
  have e: "is_in_set p i \<longleftrightarrow> i \<in> elems p" if "i \<in> vparts C v" for i using wf_in_elems [OF p vparts_less [OF L v(2) that]] by simp
  have r: "set (part_range C v) = vparts C v" "distinct (part_range C v)" using set_part_range [OF L v(2)] by simp_all
  have i: "length (filter (is_in_set p) (part_range C v)) = card (vparts C v \<inter> elems p)"
    "length (filter (\<lambda>i. \<not> is_in_set p i) (part_range C v)) = card (vparts C v - elems p)"
  proof -
    have "set (filter (is_in_set p) (part_range C v)) = vparts C v \<inter> elems p"
      "set (filter (\<lambda>i. \<not> is_in_set p i) (part_range C v)) = vparts C v - elems p" using e r(1) by auto
    then show "length (filter (is_in_set p) (part_range C v)) = card (vparts C v \<inter> elems p)"
      "length (filter (\<lambda>i. \<not> is_in_set p i) (part_range C v)) = card (vparts C v - elems p)"
      using r(2) by (metis distinct_card distinct_filter)+
  qed
  have ps: "elems p \<subseteq> {..<cube_size C}" "vparts C v \<subseteq> {..<cube_size C}" using wf_elem_less [OF p] vparts_less [OF L v(2)] by auto
  have "card ({..<cube_size C} - elems p) = cube_size C - card (elems p)" using card_Diff_subset [OF _ ps(1)] ps(1) finite_subset by fastforce
  moreover have "card (elems p) \<le> cube_size C" using card_mono [OF _ ps(1)] by simp
  moreover have "{..<cube_size C} - elems p = ({..<cube_size C} - vparts C v - elems p) \<union> (vparts C v - elems p)" using ps(2) by blast
  moreover have "card (({..<cube_size C} - vparts C v - elems p) \<union> (vparts C v - elems p))
      = card ({..<cube_size C} - vparts C v - elems p) + card (vparts C v - elems p)" by (rule card_Un_disjoint) auto
  ultimately have "int (cube_size C) - int (card (elems p)) = int (card ({..<cube_size C} - vparts C v - elems p)) + int (card (vparts C v - elems p))"
    by simp
  then show ?thesis unfolding literal_weight_def f by (simp add: v(1) i set_ord_card)
qed

end
