(* ===== verification/Unravel.thy ===== *)
theory Unravel
  imports Branch Compl Cvrm
begin

text \<open>
  Unravelling (\<^verbatim>\<open>cvrm.c\<close>): each cube is split into one cube for every choice of a single part in each of the given
  variables; and the minimum cover of a family of sets by the sparse matrix package (\<^verbatim>\<open>sminterf.c\<close>).
\<close>

section \<open>The routines\<close>

text \<open>The first loop of \<^verbatim>\<open>cb_unravel\<close>: the base and the number of the cubes.\<close>

definition unravel_base :: "cube_struct \<Rightarrow> pset \<Rightarrow> nat list \<Rightarrow> pset \<Rightarrow> pset \<times> nat" where
  "unravel_base C c vs startbase =
     fold (\<lambda>var (base, expansion).
       let size = set_dist c (var_mask C ! var)
       in if size < 2 then (set_or base base (var_mask C ! var), expansion) else (base, expansion * size)) vs
       (set_copy (new_cube C) startbase, 1)"

text \<open>The loops over \<^verbatim>\<open>j\<close> and \<^verbatim>\<open>k\<close>: part \<^verbatim>\<open>i\<close> is put into every row of its group.\<close>

definition unravel_part :: "nat \<Rightarrow> nat \<Rightarrow> nat \<Rightarrow> nat \<Rightarrow> nat \<Rightarrow> nat \<Rightarrow> pset list \<Rightarrow> pset list" where
  "unravel_part offset expansion skip place n i D =
     fold (\<lambda>j D. fold (\<lambda>k D. D[j + k + offset := set_insert (D ! (j + k + offset)) i]) [0..<place] D)
       (filter (\<lambda>j. n \<le> j \<and> (j - n) mod skip = 0) [0..<expansion]) D"

definition unravel_var :: "cube_struct \<Rightarrow> pset \<Rightarrow> nat \<Rightarrow> nat \<Rightarrow> nat \<Rightarrow> nat \<times> pset list \<Rightarrow> nat \<times> pset list" where
  "unravel_var C c offset expansion var st =
     (let (place, D) = st; size = set_dist c (var_mask C ! var)
      in if size > 1 then
           (let skip = place; place = place div size
            in (place, snd (fold (\<lambda>i (n, D).
                 if is_in_set c i then (n + place, unravel_part offset expansion skip place n i D) else (n, D))
                 (part_range C var) (0, D))))
         else (place, D))"

definition cb_unravel :: "cube_struct \<Rightarrow> memory \<Rightarrow> pset \<Rightarrow> nat list \<Rightarrow> pset \<Rightarrow> set_family \<Rightarrow> set_family" where
  "cb_unravel C mem c vs startbase B1 =
     (let (base, expansion) = unravel_base C c vs startbase;
          base = set_and base c base;
          offset = cnt B1;
          D = data B1 @ map (\<lambda>j. set_copy (map (mem j) [0..<wsize B1]) base) [offset..<offset + expansion]
      in B1\<lparr>data := snd (fold (unravel_var C c offset expansion) vs (expansion, D))\<rparr>)"

text \<open>The size of the result, an \<^verbatim>\<open>int\<close>; a cube that blows up too much ends the program.\<close>

fun unravel_size :: "cube_struct \<Rightarrow> pset \<Rightarrow> nat list \<Rightarrow> nat \<Rightarrow> nat res" where
  "unravel_size C p [] expansion = Inr expansion"
| "unravel_size C p (var # vs) expansion =
     (let size = set_dist p (var_mask C ! var)
      in if size \<ge> 2 then
           (if expansion * size > 2147483647 then Inl Overflow
            else if expansion * size > 1000000 then Inl (Fatal ''unreasonable expansion in unravel'')
            else unravel_size C p vs (expansion * size))
         else unravel_size C p vs expansion)"

fun unravel_sizes :: "cube_struct \<Rightarrow> nat list \<Rightarrow> pset list \<Rightarrow> nat \<Rightarrow> nat res" where
  "unravel_sizes C vs [] tsize = Inr tsize"
| "unravel_sizes C vs (p # ps) tsize = rbind (unravel_size C p vs 1) (\<lambda>expansion.
     if tsize + expansion > 2147483647 then Inl Overflow else unravel_sizes C vs ps (tsize + expansion))"

definition unravel_range :: "cube_struct \<Rightarrow> memory \<Rightarrow> set_family \<Rightarrow> nat \<Rightarrow> nat \<Rightarrow> set_family res" where
  "unravel_range C mem B start stop =
     (let startbase = set_copy (new_cube C) (emptyset C);
          startbase = fold (\<lambda>var s. set_or s s (var_mask C ! var)) [0..<start] startbase;
          startbase = fold (\<lambda>var s. set_or s s (var_mask C ! var)) [stop..<num_vars C] startbase
      in rmap (\<lambda>tsize. fold (\<lambda>p B1. cb_unravel C mem p [start..<stop] startbase B1) (data B) (new_cover C tsize))
           (unravel_sizes C [start..<stop] (data B) 0))"

text \<open>The upper end \<^verbatim>\<open>end\<close> of the range is one less than \<open>stop\<close>.\<close>

definition unravel :: "cube_struct \<Rightarrow> memory \<Rightarrow> set_family \<Rightarrow> nat \<Rightarrow> set_family res" where
  "unravel C mem B start = unravel_range C mem B start (num_vars C)"

text \<open>The elements of a set in the order of \<^verbatim>\<open>foreach_set_element\<close>; the rows of the matrix are numbered by \<open>rownum\<close>.\<close>

definition set_elements :: "pset \<Rightarrow> nat list" where
  "set_elements p = concat (map (\<lambda>i. map (\<lambda>k. 32 * (i - 1) + k) (filter (bit (p ! i)) [0..<32])) (rev [1..<LOOP p + 1]))"

definition do_sm_minimum_cover :: "'f float_ops \<Rightarrow> set_family \<Rightarrow> pset res" where
  "do_sm_minimum_cover fo A =
     (let (M, rownum) = fold (\<lambda>p (M, rownum). (fold (\<lambda>e M. sm_insert M rownum e) (set_elements p) M, rownum + 1)) (data A) (sm_alloc, 0)
      in rmap (\<lambda>sparse_cover. fold (\<lambda>j cover. set_insert cover j) sparse_cover (set_new (sf_size A)))
           (sm_minimum_cover fo M None True))"

section \<open>The groups of rows\<close>

lemma insert_positions:
  assumes "\<forall>p\<in>set D. wf_set n p" "i < n" "\<forall>x\<in>set xs. x < length D"
  shows "length (fold (\<lambda>x D. D[x := set_insert (D ! x) i]) xs D) = length D"
    "\<forall>p\<in>set (fold (\<lambda>x D. D[x := set_insert (D ! x) i]) xs D). wf_set n p"
    "y < length D \<Longrightarrow> elems (fold (\<lambda>x D. D[x := set_insert (D ! x) i]) xs D ! y) = (if y \<in> set xs then insert i (elems (D ! y)) else elems (D ! y))"
proof -
  let ?f = "\<lambda>xs D. fold (\<lambda>x D. D[x := set_insert (D ! x) i]) xs D"
  have "length (?f xs D) = length D \<and> (\<forall>p\<in>set (?f xs D). wf_set n p) \<and>
    (\<forall>y<length D. elems (?f xs D ! y) = (if y \<in> set xs then insert i (elems (D ! y)) else elems (D ! y)))"
    using assms(1,3)
  proof (induction xs arbitrary: D)
    case (Cons x xs)
    let ?D = "D[x := set_insert (D ! x) i]"
    have w: "wf_set n (D ! x)" using Cons.prems by simp
    note I = set_insert_spec [OF w assms(2)]
    have "\<forall>p\<in>set ?D. wf_set n p" using Cons.prems(1) I by (auto dest!: set_update_subset_insert [THEN subsetD])
    then have "length (?f xs ?D) = length ?D \<and> (\<forall>p\<in>set (?f xs ?D). wf_set n p) \<and>
      (\<forall>y<length ?D. elems (?f xs ?D ! y) = (if y \<in> set xs then insert i (elems (?D ! y)) else elems (?D ! y)))"
      using Cons.prems(2) by (intro Cons.IH) simp_all
    then show ?case using I Cons.prems(2) by (auto simp: nth_list_update)
  qed simp
  then show "length (?f xs D) = length D" "\<forall>p\<in>set (?f xs D). wf_set n p"
    "y < length D \<Longrightarrow> elems (?f xs D ! y) = (if y \<in> set xs then insert i (elems (D ! y)) else elems (D ! y))" by blast+
qed

lemma fold_positions: "fold (\<lambda>j D. fold (\<lambda>k D. f (j + k + offset :: nat) D) ks D) js D = fold f (concat (map (\<lambda>j. map (\<lambda>k. j + k + offset) ks) js)) D"
  by (induction js arbitrary: D) (simp_all add: fold_map comp_def)

text \<open>The rows that a part reaches.\<close>

lemma group_rows:
  fixes place :: nat
  assumes p: "0 < place" and s: "place * sz = skip" and t: "t < sz" and e: "skip dvd expansion" and m: "m < expansion"
  shows "(\<exists>j k. j < expansion \<and> place * t \<le> j \<and> (j - place * t) mod skip = 0 \<and> k < place \<and> m = j + k) \<longleftrightarrow> (m mod skip) div place = t" (is "?L \<longleftrightarrow> ?R")
proof
  assume "\<exists>j k. j < expansion \<and> place * t \<le> j \<and> (j - place * t) mod skip = 0 \<and> k < place \<and> m = j + k"
  then obtain j k where j: "place * t \<le> j" "(j - place * t) mod skip = 0" "k < place" "m = j + k" by (elim exE conjE) (rule that)
  have "skip dvd j - place * t" unfolding dvd_eq_mod_eq_0 by (rule j(2))
  then obtain q where "j - place * t = skip * q" by blast
  then have q: "j = place * t + skip * q" using j(1) by linarith
  have "place * t + k < skip"
  proof -
    have "place * t + k < place * Suc t" using j(3) by simp
    also have "\<dots> \<le> place * sz" using t by (intro mult_le_mono2) simp
    finally show ?thesis by (simp add: s)
  qed
  moreover have "m = (place * t + k) + skip * q" using j(4) q by simp
  ultimately have "m mod skip = place * t + k" by simp
  then show "(m mod skip) div place = t" using j(3) p by simp
next
  assume a: "(m mod skip) div place = t"
  have "m mod skip = place * t + m mod skip mod place" using a by (metis mult_div_mod_eq)
  moreover have "m = skip * (m div skip) + m mod skip" by simp
  ultimately have m': "m = place * t + skip * (m div skip) + m mod skip mod place" by linarith
  let ?j = "place * t + skip * (m div skip)" and ?k = "m mod skip mod place"
  have "?j < expansion" using m' m by linarith
  moreover have "(?j - place * t) mod skip = 0" by simp
  moreover have "?k < place" using p by simp
  ultimately show "\<exists>j k. j < expansion \<and> place * t \<le> j \<and> (j - place * t) mod skip = 0 \<and> k < place \<and> m = j + k"
    using m' by (intro exI [of _ ?j] exI [of _ ?k]) simp
qed

text \<open>The rows behind \<open>offset\<close>, as sets.\<close>

definition rows_are :: "cube_struct \<Rightarrow> nat \<Rightarrow> nat \<Rightarrow> pset list \<Rightarrow> pset list \<Rightarrow> (nat \<Rightarrow> nat set) \<Rightarrow> bool" where
  "rows_are C offset expansion D0 D el \<longleftrightarrow> length D = offset + expansion \<and> (\<forall>p\<in>set D. is_cube C p) \<and> length D0 = offset
     \<and> (\<forall>y<offset. elems (D ! y) = elems (D0 ! y)) \<and> (\<forall>m<expansion. elems (D ! (offset + m)) = el m)"

lemma unravel_part_rows:
  assumes R: "rows_are C offset expansion D0 D el" and i: "i < cube_size C"
    and p: "0 < place" "place * sz = skip" "t < sz" "skip dvd expansion"
  shows "rows_are C offset expansion D0 (unravel_part offset expansion skip place (place * t) i D)
    (\<lambda>m. if (m mod skip) div place = t then insert i (el m) else el m)"
proof -
  let ?js = "filter (\<lambda>j. place * t \<le> j \<and> (j - place * t) mod skip = 0) [0..<expansion]"
  define xs where "xs = concat (map (\<lambda>j. map (\<lambda>k. j + k + offset) [0..<place]) ?js)"
  have rows: "offset + m \<in> set xs \<longleftrightarrow> (m mod skip) div place = t" if m: "m < expansion" for m
    using group_rows [OF p m] by (auto simp: image_iff xs_def)
  have lt: "\<forall>x\<in>set xs. offset \<le> x \<and> x < length D"
  proof
    fix x assume "x \<in> set xs"
    then obtain j k where j: "j < expansion" "place * t \<le> j" "(j - place * t) mod skip = 0" "k < place" "x = j + k + offset" by (auto simp: xs_def)
    have "skip dvd j - place * t" using j(3) by (simp add: mod_eq_0_iff_dvd)
    then obtain q where "j - place * t = skip * q" by blast
    then have q: "j = place * t + skip * q" using j(2) by linarith
    obtain r where r: "expansion = skip * r" using p(4) by blast
    have "place * t + k < skip"
    proof -
      have "place * t + k < place * Suc t" using j(4) by simp
      also have "\<dots> \<le> place * sz" using p(3) by (intro mult_le_mono2) simp
      finally show ?thesis by (simp add: p(2))
    qed
    moreover have "q < r"
    proof (rule ccontr)
      assume "\<not> q < r"
      then have "skip * r \<le> skip * q" by simp
      then show False using j(1) q r by linarith
    qed
    then have "skip * q + skip \<le> skip * r" by (metis Suc_leI mult_Suc_right add.commute mult_le_mono2)
    ultimately have "j + k < expansion" using q r by linarith
    then show "offset \<le> x \<and> x < length D" using R j(5) by (simp add: rows_are_def)
  qed
  have eq: "unravel_part offset expansion skip place (place * t) i D = fold (\<lambda>x D. D[x := set_insert (D ! x) i]) xs D"
    unfolding unravel_part_def xs_def by (rule fold_positions)
  have D: "\<forall>p\<in>set D. is_cube C p" "length D = offset + expansion" using R by (simp_all add: rows_are_def)
  note I = insert_positions [OF D(1) i, of xs]
  have nx: "y \<notin> set xs" if "y < offset" for y using lt that by (meson not_le)
  have lt': "\<forall>x\<in>set xs. x < length D" using lt by blast
  show ?thesis unfolding eq rows_are_def
    using I(1) [OF lt'] I(2) [OF lt'] I(3) [OF lt'] R rows nx D(2) by (simp add: rows_are_def)
qed

text \<open>All parts of a variable.\<close>

lemma unravel_parts_rows:
  assumes R: "rows_are C offset expansion D0 D el" and ps: "\<forall>i\<in>set ps. i < cube_size C"
    and p: "0 < place" "place * sz = skip" "t0 + length ps \<le> sz" "skip dvd expansion"
  shows "rows_are C offset expansion D0 (snd (fold (\<lambda>i (n, D). (n + place, unravel_part offset expansion skip place n i D)) ps (place * t0, D)))
      (\<lambda>m. el m \<union> (if t0 \<le> (m mod skip) div place \<and> (m mod skip) div place < t0 + length ps then {ps ! ((m mod skip) div place - t0)} else {}))"
  using R ps p(3)
proof (induction ps arbitrary: D t0 el)
  case (Cons i ps)
  let ?D = "unravel_part offset expansion skip place (place * t0) i D"
  let ?q = "\<lambda>m. (m mod skip) div place"
  let ?el = "\<lambda>m. if ?q m = t0 then insert i (el m) else el m"
  have "rows_are C offset expansion D0 ?D ?el"
    by (rule unravel_part_rows [OF Cons.prems(1) _ p(1,2) _ p(4)]) (use Cons.prems in auto)
  from Cons.IH [OF this, of "Suc t0"] Cons.prems(2,3)
  have "rows_are C offset expansion D0 (snd (fold (\<lambda>i (n, D). (n + place, unravel_part offset expansion skip place n i D)) ps (place * Suc t0, ?D)))
      (\<lambda>m. ?el m \<union> (if Suc t0 \<le> ?q m \<and> ?q m < Suc t0 + length ps then {ps ! (?q m - Suc t0)} else {}))" by simp
  moreover have "(\<lambda>m. ?el m \<union> (if Suc t0 \<le> ?q m \<and> ?q m < Suc t0 + length ps then {ps ! (?q m - Suc t0)} else {}))
      = (\<lambda>m. el m \<union> (if t0 \<le> ?q m \<and> ?q m < t0 + length (i # ps) then {(i # ps) ! (?q m - t0)} else {}))"
  proof
    fix m
    consider "?q m < t0" | "?q m = t0" | "?q m > t0" by linarith
    then show "?el m \<union> (if Suc t0 \<le> ?q m \<and> ?q m < Suc t0 + length ps then {ps ! (?q m - Suc t0)} else {})
      = el m \<union> (if t0 \<le> ?q m \<and> ?q m < t0 + length (i # ps) then {(i # ps) ! (?q m - t0)} else {})"
    proof cases
      case 3
      then have "?q m - t0 = Suc (?q m - Suc t0)" by simp
      then show ?thesis using 3 by simp
    qed auto
  qed
  ultimately show ?case by (simp add: add.commute)
next
  case Nil
  have "(\<lambda>m. el m \<union> (if t0 \<le> (m mod skip) div place \<and> (m mod skip) div place < t0 + length [] then {[] ! ((m mod skip) div place - t0)} else {})) = el"
    by (intro ext) auto
  then show ?case using Nil.prems(1) by simp
qed

section \<open>The rows of a cube\<close>

text \<open>The parts of a cube in a variable, in order, and the choices of one of them for each of some variables.\<close>

definition parts_of :: "cube_struct \<Rightarrow> pset \<Rightarrow> nat \<Rightarrow> nat list" where
  "parts_of C c v = filter (is_in_set c) (part_range C v)"

definition choices :: "cube_struct \<Rightarrow> nat set \<Rightarrow> nat set \<Rightarrow> nat set \<Rightarrow> nat set set" where
  "choices C c base V = {base \<union> f ` V |f. \<forall>v\<in>V. f v \<in> c \<inter> vparts C v}"

lemma parts_of_spec:
  assumes "wf_cube C" "is_cube C c" "v < num_vars C"
  shows "set (parts_of C c v) = elems c \<inter> vparts C v" "length (parts_of C c v) = card (elems c \<inter> vparts C v)" "distinct (parts_of C c v)"
proof -
  note L = wf_cubeD(1) [OF assms(1)]
  show s: "set (parts_of C c v) = elems c \<inter> vparts C v"
    using wf_in_elems [OF assms(2)] vparts_less [OF L assms(3)] set_part_range [OF L assms(3)] by (auto simp: parts_of_def)
  show d: "distinct (parts_of C c v)" by (simp add: parts_of_def)
  show "length (parts_of C c v) = card (elems c \<inter> vparts C v)" using distinct_card [OF d] s by simp
qed

lemma choices_insert:
  assumes "v \<notin> V"
  shows "choices C c base (insert v V) = {X \<union> {e} |X e. X \<in> choices C c base V \<and> e \<in> c \<inter> vparts C v}"
proof (intro set_eqI iffI)
  fix Y assume "Y \<in> choices C c base (insert v V)"
  then obtain f where f: "\<forall>u\<in>insert v V. f u \<in> c \<inter> vparts C u" "Y = base \<union> f ` insert v V" by (auto simp: choices_def)
  then have "base \<union> f ` V \<in> choices C c base V" "f v \<in> c \<inter> vparts C v" "Y = base \<union> f ` V \<union> {f v}" by (auto simp: choices_def)
  then show "Y \<in> {X \<union> {e} |X e. X \<in> choices C c base V \<and> e \<in> c \<inter> vparts C v}" by blast
next
  fix Y assume "Y \<in> {X \<union> {e} |X e. X \<in> choices C c base V \<and> e \<in> c \<inter> vparts C v}"
  then obtain f e where f: "\<forall>u\<in>V. f u \<in> c \<inter> vparts C u" "e \<in> c \<inter> vparts C v" "Y = base \<union> f ` V \<union> {e}" by (auto simp: choices_def)
  have i: "(f(v := e)) ` V = f ` V" using assms by (auto simp: image_iff)
  have "Y = base \<union> (f(v := e)) ` insert v V" unfolding image_insert i using f(3) by simp
  moreover have "\<forall>u\<in>insert v V. (f(v := e)) u \<in> c \<inter> vparts C u" using f(1,2) by simp
  ultimately show "Y \<in> choices C c base (insert v V)" unfolding choices_def by blast
qed

text \<open>
  After some variables, each row depends on the number of its group only, and the groups are the choices of parts for
  these variables.
\<close>

definition grouped :: "cube_struct \<Rightarrow> pset \<Rightarrow> nat set \<Rightarrow> nat \<Rightarrow> nat \<Rightarrow> nat set \<Rightarrow> (nat \<Rightarrow> nat set) \<Rightarrow> bool" where
  "grouped C c base expansion place V el \<longleftrightarrow> 0 < place \<and> place dvd expansion
     \<and> (\<exists>g. (\<forall>m<expansion. el m = g (m div place)) \<and> g ` {..<expansion div place} = choices C (elems c) base V)"

lemma fold_in_cube:
  "snd (fold (\<lambda>i (n, D). if is_in_set c i then (n + place, f n i D) else (n, D)) xs st)
    = snd (fold (\<lambda>i (n, D). (n + place, f n i D)) (filter (is_in_set c) xs) st)"
proof -
  have "fold (\<lambda>i (n, D). if is_in_set c i then (n + place, f n i D) else (n, D)) xs st
      = fold (\<lambda>i (n, D). (n + place, f n i D)) (filter (is_in_set c) xs) st"
  proof (induction xs arbitrary: st)
    case (Cons x xs)
    show ?case by (cases st) (simp add: Cons.IH)
  qed simp
  then show ?thesis by simp
qed

lemma dist_mask:
  assumes "wf_cube C" "is_cube C c" "v < num_vars C"
  shows "set_dist c (var_mask C ! v) = card (elems c \<inter> vparts C v)"
  using set_dist_card [of c "var_mask C ! v"] wf_LOOP [OF assms(2)] wf_LOOP [OF wf_cubeD(9) [OF assms(1,3)]]
    wf_cubeD(10) [OF assms(1,3)] by simp

lemma unravel_var_rows:
  assumes C: "wf_cube C" and c: "is_cube C c" and v: "v < num_vars C" "v \<notin> V"
    and R: "rows_are C offset expansion D0 D el" and G: "grouped C c base expansion place V el"
    and s: "1 < card (elems c \<inter> vparts C v)" "card (elems c \<inter> vparts C v) dvd place"
  shows "\<exists>D' el'. unravel_var C c offset expansion v (place, D) = (place div card (elems c \<inter> vparts C v), D')
    \<and> rows_are C offset expansion D0 D' el' \<and> grouped C c base expansion (place div card (elems c \<inter> vparts C v)) (insert v V) el'"
proof -
  let ?s = "card (elems c \<inter> vparts C v)" and ?ps = "parts_of C c v"
  note P = parts_of_spec [OF C c v(1)]
  note d = dist_mask [OF C c v(1)]
  have pl: "0 < place" "place dvd expansion" using G by (simp_all add: grouped_def)
  obtain p where p: "0 < p" "p * ?s = place" "place div ?s = p"
  proof -
    obtain p where "place = ?s * p" using s(2) by blast
    then show ?thesis using that [of p] pl(1) s(1) by (simp add: mult.commute)
  qed
  have lt: "\<forall>i\<in>set ?ps. i < cube_size C" using P(1) wf_elem_less [OF c] by blast
  let ?q = "\<lambda>m. (m mod place) div p"
  let ?D = "snd (fold (\<lambda>i (n, D). (n + p, unravel_part offset expansion place p n i D)) ?ps (p * 0, D))"
  let ?el = "\<lambda>m. el m \<union> (if 0 \<le> ?q m \<and> ?q m < 0 + length ?ps then {?ps ! (?q m - 0)} else {})"
  have R': "rows_are C offset expansion D0 ?D ?el"
    by (rule unravel_parts_rows [OF R lt p(1,2) _ pl(2)]) (simp add: P(2))
  have q: "?q m < ?s" for m
  proof -
    have "m mod place < p * ?s" using pl(1) by (simp add: p(2))
    then show ?thesis using p(1) by (simp add: less_mult_imp_div_less mult.commute)
  qed
  then have el: "?el = (\<lambda>m. el m \<union> {?ps ! ?q m})" using P(2) by simp
  obtain g where g: "\<forall>m<expansion. el m = g (m div place)" "g ` {..<expansion div place} = choices C (elems c) base V"
    using G by (auto simp: grouped_def)
  obtain r where r: "expansion = place * r" using pl(2) by blast
  have ex: "expansion div p = r * ?s" "expansion div place = r"
  proof -
    have "expansion = p * (r * ?s)" using r p(2) by (metis mult.assoc mult.commute)
    then show "expansion div p = r * ?s" using p(1) by (metis nonzero_mult_div_cancel_left less_not_refl)
    show "expansion div place = r" using r pl(1) by simp
  qed
  define g' where "g' x = g (x div ?s) \<union> {?ps ! (x mod ?s)}" for x
  have md: "m div p div ?s = m div place" "(m div p) mod ?s = ?q m" for m
  proof -
    show "m div p div ?s = m div place" unfolding p(2) [symmetric] by (simp add: div_mult2_eq)
    have "m mod place = p * (m div p mod ?s) + m mod p" unfolding p(2) [symmetric] mod_mult2_eq ..
    then show "(m div p) mod ?s = ?q m" using p(1) by simp
  qed
  have "el m \<union> {?ps ! ?q m} = g' (m div p)" if "m < expansion" for m using that g(1) md by (simp add: g'_def)
  moreover have "g' ` {..<expansion div p} = choices C (elems c) base (insert v V)"
  proof -
    have "g' ` {..<r * ?s} = {X \<union> {e} |X e. X \<in> g ` {..<r} \<and> e \<in> set ?ps}"
    proof (intro set_eqI iffI)
      fix Y assume "Y \<in> g' ` {..<r * ?s}"
      then obtain x where x: "x < r * ?s" "Y = g' x" by blast
      have "x div ?s < r" "x mod ?s < ?s" using x(1) s(1) by (simp_all add: less_mult_imp_div_less)
      then show "Y \<in> {X \<union> {e} |X e. X \<in> g ` {..<r} \<and> e \<in> set ?ps}" unfolding x(2) g'_def using P(2) nth_mem by fastforce
    next
      fix Y assume "Y \<in> {X \<union> {e} |X e. X \<in> g ` {..<r} \<and> e \<in> set ?ps}"
      then obtain a e where a: "a < r" "e \<in> set ?ps" "Y = g a \<union> {e}" by blast
      then obtain t where t: "t < ?s" "e = ?ps ! t" using P(2) by (auto simp: in_set_conv_nth)
      have "a * ?s + t < r * ?s"
      proof -
        have "a * ?s + t < Suc a * ?s" using t(1) by simp
        also have "\<dots> \<le> r * ?s" using a(1) by (intro mult_le_mono1) simp
        finally show ?thesis .
      qed
      moreover have "(a * ?s + t) div ?s = a" by (rule div_nat_eqI) (use t(1) in \<open>simp_all add: mult.commute\<close>)
      then have "g' (a * ?s + t) = Y" using t a(3) by (simp add: g'_def)
      ultimately show "Y \<in> g' ` {..<r * ?s}" by (metis imageI lessThan_iff)
    qed
    then show ?thesis unfolding ex(1) choices_insert [OF v(2)] g(2) [symmetric] ex(2) P(1) by simp
  qed
  moreover have "p dvd expansion" using p(2) pl(2) by (metis dvd_trans dvd_triv_left)
  ultimately have G': "grouped C c base expansion p (insert v V) ?el" unfolding grouped_def el using p(1) by blast
  have "unravel_var C c offset expansion v (place, D) = (p, ?D)"
    using s(1) by (simp add: unravel_var_def d Let_def fold_in_cube parts_of_def p(3))
  then show ?thesis using R' G' unfolding p(3) by blast
qed

text \<open>How many cubes a cube becomes, and which.\<close>

definition blowup :: "cube_struct \<Rightarrow> pset \<Rightarrow> nat list \<Rightarrow> nat" where
  "blowup C c vs = prod_list (map (\<lambda>v. let s = card (elems c \<inter> vparts C v) in if s < 2 then 1 else s) vs)"

definition open_vars :: "cube_struct \<Rightarrow> nat set \<Rightarrow> nat list \<Rightarrow> nat set" where
  "open_vars C c vs = {v \<in> set vs. 2 \<le> card (c \<inter> vparts C v)}"

lemma unravel_base_spec:
  assumes C: "wf_cube C" and c: "is_cube C c" and vs: "\<forall>v\<in>set vs. v < num_vars C" and b: "is_cube C startbase"
  shows "\<exists>base. unravel_base C c vs startbase = (base, blowup C c vs) \<and> is_cube C base
    \<and> elems base = elems startbase \<union> (\<Union>v\<in>{v \<in> set vs. card (elems c \<inter> vparts C v) < 2}. vparts C v)"
proof -
  let ?step = "\<lambda>var (base, expansion). let size = set_dist c (var_mask C ! var)
       in if size < 2 then (set_or base base (var_mask C ! var), expansion) else (base, expansion * size)"
  have "\<exists>base. fold ?step vs (b0, e0) = (base, e0 * blowup C c vs) \<and> is_cube C base
    \<and> elems base = elems b0 \<union> (\<Union>v\<in>{v \<in> set vs. card (elems c \<inter> vparts C v) < 2}. vparts C v)"
    if "is_cube C b0" for b0 :: pset and e0 :: nat
    using that vs
  proof (induction vs arbitrary: b0 e0)
    case (Cons v vs)
    have v: "v < num_vars C" using Cons.prems(2) by simp
    note d = dist_mask [OF C c v] and m = wf_cubeD(9,10) [OF C v]
    show ?case
    proof (cases "card (elems c \<inter> vparts C v) < 2")
      case True
      note o = binops_wf(2) [OF Cons.prems(1) m(1) wf_length [OF Cons.prems(1)]] binops_elems(2) [OF Cons.prems(1) m(1) wf_length [OF Cons.prems(1)]]
      have "fold ?step (v # vs) (b0, e0) = fold ?step vs (set_or b0 b0 (var_mask C ! v), e0)" using True d by simp
      moreover have "{u \<in> set (v # vs). card (elems c \<inter> vparts C u) < 2} = insert v {u \<in> set vs. card (elems c \<inter> vparts C u) < 2}"
        using True by auto
      moreover have "blowup C c (v # vs) = blowup C c vs" using True by (simp add: blowup_def)
      ultimately show ?thesis using Cons.IH [OF o(1), of e0] Cons.prems(2) o(2) m(2) by auto
    next
      case False
      have "fold ?step (v # vs) (b0, e0) = fold ?step vs (b0, e0 * card (elems c \<inter> vparts C v))" using False d by simp
      moreover have "{u \<in> set (v # vs). card (elems c \<inter> vparts C u) < 2} = {u \<in> set vs. card (elems c \<inter> vparts C u) < 2}"
        using False by auto
      moreover have "blowup C c (v # vs) = card (elems c \<inter> vparts C v) * blowup C c vs" using False by (simp add: blowup_def Let_def)
      ultimately show ?thesis using Cons.IH [OF Cons.prems(1), of "e0 * card (elems c \<inter> vparts C v)"] Cons.prems(2) by (auto simp: mult.assoc)
    qed
  qed (simp add: blowup_def)
  from this [of "set_copy (new_cube C) startbase" 1] show ?thesis
    using b by (simp add: unravel_base_def set_copy_eq wf_length [OF b])
qed

lemma unravel_vars_rows:
  assumes C: "wf_cube C" and c: "is_cube C c" and vs: "\<forall>v\<in>set vs. v < num_vars C" "distinct vs" "set vs \<inter> V = {}"
    and R: "rows_are C offset expansion D0 D el" and G: "grouped C c base expansion (blowup C c vs) V el"
  shows "\<exists>D' el'. fold (unravel_var C c offset expansion) vs (blowup C c vs, D) = (1, D')
    \<and> rows_are C offset expansion D0 D' el' \<and> grouped C c base expansion 1 (V \<union> open_vars C (elems c) vs) el'"
  using vs R G
proof (induction vs arbitrary: D el V)
  case (Cons v vs)
  let ?s = "card (elems c \<inter> vparts C v)"
  have v: "v < num_vars C" "v \<notin> V" "v \<notin> set vs" using Cons.prems by auto
  show ?case
  proof (cases "?s < 2")
    case True
    then have b: "blowup C c (v # vs) = blowup C c vs" by (simp add: blowup_def)
    have "unravel_var C c offset expansion v (blowup C c vs, D) = (blowup C c vs, D)"
      using True dist_mask [OF C c v(1)] by (simp add: unravel_var_def)
    moreover have "open_vars C (elems c) (v # vs) = open_vars C (elems c) vs" using True by (auto simp: open_vars_def)
    ultimately show ?thesis unfolding b using Cons.IH [of V D el] Cons.prems unfolding b by simp
  next
    case False
    then have b: "blowup C c (v # vs) = ?s * blowup C c vs" by (simp add: blowup_def Let_def)
    have s: "1 < ?s" "?s dvd blowup C c (v # vs)" "blowup C c (v # vs) div ?s = blowup C c vs" using False unfolding b by simp_all
    obtain D' el' where D': "unravel_var C c offset expansion v (blowup C c (v # vs), D) = (blowup C c vs, D')"
      "rows_are C offset expansion D0 D' el'" "grouped C c base expansion (blowup C c vs) (insert v V) el'"
      using unravel_var_rows [OF C c v(1,2) Cons.prems(4,5) s(1,2)] unfolding s(3) by blast
    have "open_vars C (elems c) (v # vs) = insert v (open_vars C (elems c) vs)" using False by (auto simp: open_vars_def)
    then show ?thesis using Cons.IH [OF _ _ _ D'(2,3)] Cons.prems v(3) D'(1) by simp
  qed
next
  case Nil
  then show ?case by (auto simp: blowup_def open_vars_def)
qed

text \<open>The cubes that one cube becomes: all choices of single parts in the variables where it has more than one.\<close>

definition unravelled :: "cube_struct \<Rightarrow> nat set \<Rightarrow> nat list \<Rightarrow> nat set \<Rightarrow> nat set set" where
  "unravelled C c vs keep =
     choices C c (c \<inter> (keep \<union> (\<Union>v\<in>{v \<in> set vs. card (c \<inter> vparts C v) < 2}. vparts C v))) (open_vars C c vs)"

lemma grouped_start:
  assumes "0 < expansion"
  shows "grouped C c base expansion expansion {} (\<lambda>_. base)"
  unfolding grouped_def
proof (intro conjI exI [of _ "\<lambda>_. base"] allI impI)
  show "(\<lambda>_. base) ` {..<expansion div expansion} = choices C (elems c) base {}" using assms by (auto simp: choices_def)
qed (use assms in simp_all)

lemma blowup_pos: "0 < blowup C c vs"
  by (induction vs) (auto simp: blowup_def Let_def)

lemma below_sum: "{..<a + b} = {..<a} \<union> (\<lambda>m. a + m) ` {..<b}" for a b :: nat
proof (intro set_eqI iffI)
  fix x assume "x \<in> {..<a + b}"
  then have "x < a \<or> x = a + (x - a) \<and> x - a < b" by auto
  then show "x \<in> {..<a} \<union> (\<lambda>m. a + m) ` {..<b}" by blast
qed auto

lemma cb_unravel_spec:
  assumes C: "wf_cube C" and c: "is_cube C c" and vs: "\<forall>v\<in>set vs. v < num_vars C" "distinct vs"
    and b: "is_cube C startbase" and B: "is_cover C B1" and cap: "cnt B1 + blowup C c vs \<le> capacity B1"
  shows "is_cover C (cb_unravel C mem c vs startbase B1)" "cnt (cb_unravel C mem c vs startbase B1) = cnt B1 + blowup C c vs"
    "capacity (cb_unravel C mem c vs startbase B1) = capacity B1"
    "elems ` set (data (cb_unravel C mem c vs startbase B1)) = elems ` set (data B1) \<union> unravelled C (elems c) vs (elems startbase)"
proof -
  let ?e = "blowup C c vs" and ?o = "cnt B1"
  obtain base0 where U: "unravel_base C c vs startbase = (base0, ?e)" "is_cube C base0"
    "elems base0 = elems startbase \<union> (\<Union>v\<in>{v \<in> set vs. card (elems c \<inter> vparts C v) < 2}. vparts C v)"
    using unravel_base_spec [OF C c vs(1) b] by blast
  let ?base = "set_and base0 c base0"
  have w: "is_cube C ?base" "elems ?base = elems c \<inter> elems base0"
    using binops_wf(1) [OF c U(2) wf_length [OF U(2)]] binops_elems(1) [OF c U(2) wf_length [OF U(2)]] by simp_all
  let ?D = "data B1 @ map (\<lambda>j. set_copy (map (mem j) [0..<wsize B1]) ?base) [?o..<?o + ?e]"
  have ws: "wsize B1 = SET_SIZE (cube_size C)" using B by (simp add: wf_family_def)
  have cp: "set_copy (map (mem j) [0..<wsize B1]) ?base = ?base" for j
    by (rule set_copy_eq [OF w(1)]) (simp add: ws)
  have R: "rows_are C ?o ?e (data B1) ?D (\<lambda>_. elems ?base)"
    using wf_familyD(3) [OF B] w(1) unfolding cp by (auto simp: rows_are_def nth_append)
  obtain D' el where D': "fold (unravel_var C c ?o ?e) vs (?e, ?D) = (1, D')" "rows_are C ?o ?e (data B1) D' el"
    "grouped C c (elems ?base) ?e 1 (open_vars C (elems c) vs) el"
    using unravel_vars_rows [OF C c vs _ R grouped_start [OF blowup_pos]] by auto
  have eq: "cb_unravel C mem c vs startbase B1 = B1\<lparr>data := D'\<rparr>" using U(1) D'(1) by (simp add: cb_unravel_def)
  have l: "length D' = ?o + ?e" "\<forall>p\<in>set D'. is_cube C p" "\<forall>y<?o. elems (D' ! y) = elems (data B1 ! y)" "\<forall>m<?e. elems (D' ! (?o + m)) = el m"
    using D'(2) by (simp_all add: rows_are_def)
  show "is_cover C (cb_unravel C mem c vs startbase B1)" unfolding eq using B l(1,2) cap by (simp add: wf_family_def)
  show "cnt (cb_unravel C mem c vs startbase B1) = cnt B1 + ?e" "capacity (cb_unravel C mem c vs startbase B1) = capacity B1"
    unfolding eq using l(1) by simp_all
  obtain g where g: "\<forall>m<?e. el m = g (m div 1)" "g ` {..<?e div 1} = choices C (elems c) (elems ?base) (open_vars C (elems c) vs)"
    using D'(3) by (auto simp: grouped_def)
  then have ch: "el ` {..<?e} = unravelled C (elems c) vs (elems startbase)"
    using w(2) U(3) by (simp add: unravelled_def image_def)
  have "elems ` set D' = (\<lambda>i. elems (D' ! i)) ` {..<?o + ?e}" using l(1) by (auto simp: set_conv_nth image_iff)
  also have "{..<?o + ?e} = {..<?o} \<union> (\<lambda>m. ?o + m) ` {..<?e}" by (rule below_sum)
  finally have "elems ` set D' = (\<lambda>i. elems (data B1 ! i)) ` {..<?o} \<union> el ` {..<?e}"
    using l(3,4) by (simp add: image_Un image_image)
  then show "elems ` set (data (cb_unravel C mem c vs startbase B1)) = elems ` set (data B1) \<union> unravelled C (elems c) vs (elems startbase)"
    unfolding eq ch by (auto simp: set_conv_nth image_iff)
qed

section \<open>The whole family\<close>

lemma unravel_size_spec:
  assumes C: "wf_cube C" and p: "is_cube C p" and "\<forall>v\<in>set vs. v < num_vars C" "e \<le> 1000000"
  shows "if e * blowup C p vs \<le> 1000000 then unravel_size C p vs e = Inr (e * blowup C p vs)
    else unravel_size C p vs e = Inl (Fatal ''unreasonable expansion in unravel'')
      \<or> unravel_size C p vs e = Inl Overflow \<and> (\<exists>v<num_vars C. 2147 < psz C v)"
  using assms(3,4)
proof (induction vs arbitrary: e)
  case (Cons v vs)
  let ?s = "card (elems p \<inter> vparts C v)"
  have v: "v < num_vars C" "\<forall>v\<in>set vs. v < num_vars C" using Cons.prems(1) by simp_all
  note d = dist_mask [OF C p v(1)]
  have small: "2147 < psz C v" if "e * ?s > 2147483647"
  proof (rule ccontr)
    assume "\<not> 2147 < psz C v"
    moreover have "?s \<le> psz C v" using card_mono [of "vparts C v" "elems p \<inter> vparts C v"] card_vparts [of C v] by simp
    ultimately have "e * ?s \<le> 1000000 * 2147" using Cons.prems(2) by (intro mult_le_mono) simp_all
    then show False using that by simp
  qed
  show ?case
  proof (cases "?s < 2")
    case True
    then have "blowup C p (v # vs) = blowup C p vs" by (simp add: blowup_def)
    then show ?thesis using Cons.IH [OF v(2) Cons.prems(2)] True d by simp
  next
    case False
    then have b: "blowup C p (v # vs) = ?s * blowup C p vs" by (simp add: blowup_def Let_def)
    show ?thesis
    proof (cases "e * ?s > 1000000")
      case True
      have "1 \<le> blowup C p vs" using blowup_pos [of C p vs] by simp
      then have "e * ?s * 1 \<le> e * ?s * blowup C p vs" by (rule mult_le_mono2)
      then have "\<not> e * (?s * blowup C p vs) \<le> 1000000" using True by (simp only: mult.assoc)
      then show ?thesis using True False d small v(1) unfolding b by (cases "e * ?s > 2147483647") auto
    next
      case low: False
      then show ?thesis using Cons.IH [OF v(2), of "e * ?s"] False d unfolding b by (simp add: mult.assoc)
    qed
  qed
qed (simp add: blowup_def)

lemma unravel_sizes_spec:
  assumes C: "wf_cube C" and "\<forall>p\<in>set ps. is_cube C p" and vs: "\<forall>v\<in>set vs. v < num_vars C" and "t \<le> 2147483647"
  shows "if (\<forall>p\<in>set ps. blowup C p vs \<le> 1000000) \<and> t + (\<Sum>p\<leftarrow>ps. blowup C p vs) \<le> 2147483647
    then unravel_sizes C vs ps t = Inr (t + (\<Sum>p\<leftarrow>ps. blowup C p vs))
    else unravel_sizes C vs ps t = Inl (Fatal ''unreasonable expansion in unravel'')
      \<or> unravel_sizes C vs ps t = Inl Overflow \<and> ((\<exists>v<num_vars C. 2147 < psz C v) \<or> 2147483647 < t + 1000000 * length ps)"
  using assms(2,4)
proof (induction ps arbitrary: t)
  case (Cons p ps)
  have p: "is_cube C p" "\<forall>p\<in>set ps. is_cube C p" using Cons.prems(1) by simp_all
  note U = unravel_size_spec [OF C p(1) vs, of 1]
  show ?case
  proof (cases "blowup C p vs \<le> 1000000")
    case True
    then have u: "unravel_size C p vs 1 = Inr (blowup C p vs)" using U by simp
    show ?thesis
    proof (cases "t + blowup C p vs > 2147483647")
      case True
      then show ?thesis using u \<open>blowup C p vs \<le> 1000000\<close> by auto
    next
      case False
      then show ?thesis using u Cons.IH [OF p(2), of "t + blowup C p vs"] True by (auto simp: add.assoc split: if_splits)
    qed
  next
    case False
    then show ?thesis using U by auto
  qed
qed simp

lemma cb_unravel_fold:
  assumes C: "wf_cube C" and vs: "\<forall>v\<in>set vs. v < num_vars C" "distinct vs" and b: "is_cube C startbase"
    and "\<forall>p\<in>set ps. is_cube C p" "is_cover C B1" "cnt B1 + (\<Sum>p\<leftarrow>ps. blowup C p vs) \<le> capacity B1"
  shows "is_cover C (fold (\<lambda>p B1. cb_unravel C mem p vs startbase B1) ps B1)"
    "elems ` set (data (fold (\<lambda>p B1. cb_unravel C mem p vs startbase B1) ps B1))
      = elems ` set (data B1) \<union> (\<Union>p\<in>set ps. unravelled C (elems p) vs (elems startbase))"
proof -
  have "is_cover C (fold (\<lambda>p B1. cb_unravel C mem p vs startbase B1) ps B1)
    \<and> elems ` set (data (fold (\<lambda>p B1. cb_unravel C mem p vs startbase B1) ps B1))
      = elems ` set (data B1) \<union> (\<Union>p\<in>set ps. unravelled C (elems p) vs (elems startbase))"
    using assms(5-)
  proof (induction ps arbitrary: B1)
    case (Cons p ps)
    have p: "is_cube C p" "cnt B1 + blowup C p vs \<le> capacity B1" using Cons.prems(1,3) by simp_all
    note U = cb_unravel_spec [OF C p(1) vs b Cons.prems(2) p(2), of mem]
    show ?case using Cons.IH [OF _ U(1)] Cons.prems(1,3) U(2-4) by auto
  qed simp
  then show "is_cover C (fold (\<lambda>p B1. cb_unravel C mem p vs startbase B1) ps B1)"
    "elems ` set (data (fold (\<lambda>p B1. cb_unravel C mem p vs startbase B1) ps B1))
      = elems ` set (data B1) \<union> (\<Union>p\<in>set ps. unravelled C (elems p) vs (elems startbase))" by blast+
qed

lemma or_masks:
  assumes C: "wf_cube C" and "\<forall>v\<in>set vs. v < num_vars C" "is_cube C s"
  shows "is_cube C (fold (\<lambda>var s. set_or s s (var_mask C ! var)) vs s)"
    "elems (fold (\<lambda>var s. set_or s s (var_mask C ! var)) vs s) = elems s \<union> (\<Union>v\<in>set vs. vparts C v)"
proof -
  have "is_cube C (fold (\<lambda>var s. set_or s s (var_mask C ! var)) vs s)
    \<and> elems (fold (\<lambda>var s. set_or s s (var_mask C ! var)) vs s) = elems s \<union> (\<Union>v\<in>set vs. vparts C v)"
    using assms(2,3)
  proof (induction vs arbitrary: s)
    case (Cons v vs)
    have v: "v < num_vars C" using Cons.prems(1) by simp
    note m = wf_cubeD(9,10) [OF C v]
    note o = binops_wf(2) [OF Cons.prems(2) m(1) wf_length [OF Cons.prems(2)]] binops_elems(2) [OF Cons.prems(2) m(1) wf_length [OF Cons.prems(2)]]
    show ?case using Cons.IH [OF _ o(1)] Cons.prems(1) o(2) m(2) by auto
  qed simp
  then show "is_cube C (fold (\<lambda>var s. set_or s s (var_mask C ! var)) vs s)"
    "elems (fold (\<lambda>var s. set_or s s (var_mask C ! var)) vs s) = elems s \<union> (\<Union>v\<in>set vs. vparts C v)" by blast+
qed

definition single_parts :: "cube_struct \<Rightarrow> nat set \<Rightarrow> nat \<Rightarrow> nat \<Rightarrow> nat set set" where
  "single_parts C c start stop = choices C c (c \<inter> (\<Union>v\<in>{..<num_vars C} - open_vars C c [start..<stop]. vparts C v)) (open_vars C c [start..<stop])"

lemma unravel_range_spec:
  assumes C: "wf_cube C" and B: "is_cover C B" and r: "start \<le> stop" "stop \<le> num_vars C"
  shows "if (\<forall>p\<in>set (data B). blowup C p [start..<stop] \<le> 1000000) \<and> (\<Sum>p\<leftarrow>data B. blowup C p [start..<stop]) \<le> 2147483647
    then \<exists>B1. unravel_range C mem B start stop = Inr B1 \<and> is_cover C B1
      \<and> elems ` set (data B1) = (\<Union>p\<in>set (data B). single_parts C (elems p) start stop)
    else unravel_range C mem B start stop = Inl (Fatal ''unreasonable expansion in unravel'')
      \<or> unravel_range C mem B start stop = Inl Overflow \<and> ((\<exists>v<num_vars C. 2147 < psz C v) \<or> 2147 < cnt B)"
proof -
  let ?vs = "[start..<stop]"
  have vs: "\<forall>v\<in>set ?vs. v < num_vars C" "distinct ?vs" using r by auto
  have ps: "\<forall>p\<in>set (data B). is_cube C p" using wf_familyD(3) [OF B] by blast
  have e0: "set_copy (new_cube C) (emptyset C) = emptyset C" by (rule set_copy_eq [OF wf_cubeD(5) [OF C]]) simp
  let ?b1 = "fold (\<lambda>var s. set_or s s (var_mask C ! var)) [0..<start] (emptyset C)"
  let ?b = "fold (\<lambda>var s. set_or s s (var_mask C ! var)) [stop..<num_vars C] ?b1"
  have v1: "\<forall>v\<in>set [0..<start]. v < num_vars C" and v2: "\<forall>v\<in>set [stop..<num_vars C]. v < num_vars C" using r by auto
  note o1 = or_masks [OF C v1 wf_cubeD(5) [OF C]]
  note o2 = or_masks [OF C v2 o1(1)]
  have b: "is_cube C ?b" "elems ?b = (\<Union>v\<in>{..<start} \<union> {stop..<num_vars C}. vparts C v)"
    using o2 o1(2) wf_cubeD(6) [OF C] by (auto simp: atLeast0LessThan)
  note T = unravel_sizes_spec [OF C ps vs(1), of 0, simplified]
  have us: "unravelled C c ?vs (elems ?b) = single_parts C c start stop" for c
  proof -
    have "elems ?b \<union> (\<Union>v\<in>{v \<in> set ?vs. card (c \<inter> vparts C v) < 2}. vparts C v) = (\<Union>v\<in>{..<num_vars C} - open_vars C c ?vs. vparts C v)"
    proof -
      have "{..<start} \<union> {stop..<num_vars C} \<union> {v \<in> set ?vs. card (c \<inter> vparts C v) < 2} = {..<num_vars C} - open_vars C c ?vs"
        using r by (auto simp: open_vars_def)
      then show ?thesis unfolding b(2) by (metis UN_Un)
    qed
    then show ?thesis by (simp add: unravelled_def single_parts_def)
  qed
  show ?thesis
  proof (cases "(\<forall>p\<in>set (data B). blowup C p ?vs \<le> 1000000) \<and> (\<Sum>p\<leftarrow>data B. blowup C p ?vs) \<le> 2147483647")
    case True
    let ?t = "\<Sum>p\<leftarrow>data B. blowup C p ?vs"
    let ?R = "fold (\<lambda>p B1. cb_unravel C mem p ?vs ?b B1) (data B) (new_cover C ?t)"
    have t: "unravel_sizes C ?vs (data B) 0 = Inr ?t" using True T by simp
    then have "unravel_range C mem B start stop = Inr ?R" unfolding unravel_range_def e0 Let_def by simp
    moreover have "cnt (new_cover C ?t) + (\<Sum>p\<leftarrow>data B. blowup C p ?vs) \<le> capacity (new_cover C ?t)" by (simp add: new_cover_def)
    note U = cb_unravel_fold [OF C vs b(1) ps new_cover_simps(1) this, of mem]
    moreover have "elems ` set (data ?R) = (\<Union>p\<in>set (data B). single_parts C (elems p) start stop)"
      using U(2) by (simp add: us)
    ultimately show ?thesis using True U(1) by auto
  next
    case False
    then have "unravel_sizes C ?vs (data B) 0 = Inl (Fatal ''unreasonable expansion in unravel'')
      \<or> unravel_sizes C ?vs (data B) 0 = Inl Overflow \<and> ((\<exists>v<num_vars C. 2147 < psz C v) \<or> 2147 < cnt B)"
      using T by (auto split: if_splits)
    then show ?thesis unfolding if_not_P [OF False] unfolding unravel_range_def e0 Let_def by auto
  qed
qed

text \<open>The points stay.\<close>

lemma single_parts_cov:
  assumes C: "wf_cube C" and r: "stop \<le> num_vars C"
  shows "cov C (single_parts C c start stop) = cov C {c}"
proof (intro set_eqI iffI)
  let ?V = "open_vars C c [start..<stop]"
  let ?base = "c \<inter> (\<Union>v\<in>{..<num_vars C} - ?V. vparts C v)"
  fix x assume "x \<in> cov C (single_parts C c start stop)"
  then obtain f where f: "point C x" "\<forall>v\<in>?V. f v \<in> c \<inter> vparts C v" "covers C (?base \<union> f ` ?V) x"
    by (auto simp: cov_def single_parts_def choices_def)
  have "?base \<union> f ` ?V \<subseteq> c" using f(2) by blast
  from covers_mono [OF this f(3)] show "x \<in> cov C {c}" using f(1) by (simp add: cov_def)
next
  let ?V = "open_vars C c [start..<stop]"
  let ?base = "c \<inter> (\<Union>v\<in>{..<num_vars C} - ?V. vparts C v)"
  fix x assume "x \<in> cov C {c}"
  then have x: "point C x" "covers C c x" by (simp_all add: cov_def)
  have V: "?V \<subseteq> {..<num_vars C}" using r by (auto simp: open_vars_def)
  have "\<forall>v\<in>?V. x v \<in> c \<inter> vparts C v" using x V by (auto simp: point_def covers_def)
  then have "?base \<union> x ` ?V \<in> single_parts C c start stop" unfolding single_parts_def choices_def by blast
  moreover have "covers C (?base \<union> x ` ?V) x"
    using x by (auto simp: covers_def point_def)
  ultimately show "x \<in> cov C (single_parts C c start stop)" using x(1) unfolding cov_def by blast
qed

section \<open>The minimum cover of a family of sets\<close>

lemma set_elements_spec:
  assumes "wf_set n p"
  shows "set (set_elements p) = elems p"
proof (intro set_eqI iffI)
  fix e assume "e \<in> set (set_elements p)"
  then obtain i k where i: "1 \<le> i" "i \<le> LOOP p" "k < 32" "bit (p ! i) k" "e = 32 * (i - 1) + k" by (auto simp: set_elements_def)
  then have "e div 32 + 1 = i" "e mod 32 = k" "e < 32 * LOOP p" by simp_all
  then show "e \<in> elems p" using i(4) by (simp add: elems_iff)
next
  fix e assume "e \<in> elems p"
  then have e: "e < 32 * LOOP p" "bit (p ! (e div 32 + 1)) (e mod 32)" by (simp_all add: elems_iff)
  define i where "i = e div 32 + 1"
  have "e div 32 < LOOP p" using e(1) by (simp add: less_mult_imp_div_less mult.commute)
  then have i: "i \<in> set (rev [1..<LOOP p + 1])" by (auto simp: i_def)
  have k: "e mod 32 \<in> set (filter (bit (p ! i)) [0..<32])" using e(2) by (simp add: i_def)
  have "e = 32 * (i - 1) + e mod 32" by (simp add: i_def)
  then have "e \<in> set (map (\<lambda>k. 32 * (i - 1) + k) (filter (bit (p ! i)) [0..<32]))" unfolding set_map by (rule image_eqI [OF _ k])
  then have "\<exists>i\<in>set (rev [1..<LOOP p + 1]). e \<in> set (map (\<lambda>k. 32 * (i - 1) + k) (filter (bit (p ! i)) [0..<32]))" using i by blast
  then show "e \<in> set (set_elements p)" unfolding set_elements_def by (simp only: set_concat set_map [of _ "rev _"] UN_iff bex_simps)
qed

lemma rows_fold:
  assumes "\<forall>p\<in>set ps. wf_set n p" "wf_sm M"
  shows "wf_sm (fst (fold (\<lambda>p (M, rownum). (fold (\<lambda>e M. sm_insert M rownum e) (set_elements p) M, rownum + 1)) ps (M, r)))"
    "entries (fst (fold (\<lambda>p (M, rownum). (fold (\<lambda>e M. sm_insert M rownum e) (set_elements p) M, rownum + 1)) ps (M, r)))
      = entries M \<union> {(r + i, e) |i e. i < length ps \<and> e \<in> elems (ps ! i)}"
proof -
  let ?f = "\<lambda>ps st. fst (fold (\<lambda>p (M, rownum). (fold (\<lambda>e M. sm_insert M rownum e) (set_elements p) M, rownum + 1)) ps st)"
  have "wf_sm (?f ps (M, r)) \<and> entries (?f ps (M, r)) = entries M \<union> {(r + i, e) |i e. i < length ps \<and> e \<in> elems (ps ! i)}"
    using assms
  proof (induction ps arbitrary: M r)
    case (Cons p ps)
    let ?M = "fold (\<lambda>e M. sm_insert M r e) (set_elements p) M"
    have p: "wf_set n p" using Cons.prems(1) by simp
    note I = insert_fold [OF Cons.prems(2), of "\<lambda>_. r" "\<lambda>e. e" "set_elements p"]
    have "wf_sm (?f ps (?M, Suc r)) \<and> entries (?f ps (?M, Suc r)) = entries ?M \<union> {(Suc r + i, e) |i e. i < length ps \<and> e \<in> elems (ps ! i)}"
      by (rule Cons.IH) (use Cons.prems(1) I(1) in simp_all)
    moreover have "{(r + i, e) |i e. i < length (p # ps) \<and> e \<in> elems ((p # ps) ! i)}
        = (\<lambda>e. (r, e)) ` elems p \<union> {(Suc r + i, e) |i e. i < length ps \<and> e \<in> elems (ps ! i)}" (is "?A = ?B")
    proof (intro set_eqI iffI)
      fix x assume "x \<in> ?A"
      then obtain i e where x: "x = (r + i, e)" "i < length (p # ps)" "e \<in> elems ((p # ps) ! i)" by blast
      then show "x \<in> ?B" by (cases i) auto
    next
      fix x assume "x \<in> ?B"
      then consider e where "x = (r, e)" "e \<in> elems p" | i e where "x = (Suc r + i, e)" "i < length ps" "e \<in> elems (ps ! i)" by blast
      then show "x \<in> ?A"
      proof cases
        case 1
        then have "x = (r + 0, e) \<and> 0 < length (p # ps) \<and> e \<in> elems ((p # ps) ! 0)" by simp
          then show ?thesis by blast
      next
        case (2 i e)
        then have "x = (r + Suc i, e) \<and> Suc i < length (p # ps) \<and> e \<in> elems ((p # ps) ! Suc i)" by simp
          then show ?thesis by blast
      qed
    qed
    ultimately show ?case using I(2) set_elements_spec [OF p] by (simp add: Un_assoc)
  qed simp
  then show "wf_sm (?f ps (M, r))" "entries (?f ps (M, r)) = entries M \<union> {(r + i, e) |i e. i < length ps \<and> e \<in> elems (ps ! i)}" by blast+
qed

lemma insert_all:
  assumes "wf_set n s" "\<forall>j\<in>set js. j < n"
  shows "wf_set n (fold (\<lambda>j s. set_insert s j) js s)" "elems (fold (\<lambda>j s. set_insert s j) js s) = elems s \<union> set js"
proof -
  have "wf_set n (fold (\<lambda>j s. set_insert s j) js s) \<and> elems (fold (\<lambda>j s. set_insert s j) js s) = elems s \<union> set js" using assms
  proof (induction js arbitrary: s)
    case (Cons j js)
    have j: "j < n" using Cons.prems(2) by simp
    note I = set_insert_spec [OF Cons.prems(1) j]
    show ?case using Cons.IH [OF I(2)] Cons.prems(2) I(1) by auto
  qed simp
  then show "wf_set n (fold (\<lambda>j s. set_insert s j) js s)" "elems (fold (\<lambda>j s. set_insert s j) js s) = elems s \<union> set js" by blast+
qed

lemma do_sm_minimum_cover_spec:
  assumes A: "wf_family n A" and fo: "positive_values fo" and n: "n \<le> 32736"
  shows "\<exists>x. do_sm_minimum_cover fo A = Inr x \<and> wf_set n x \<and> elems x \<subseteq> (\<Union>p\<in>set (data A). elems p)
    \<and> (\<forall>p\<in>set (data A). elems p \<noteq> {} \<longrightarrow> elems p \<inter> elems x \<noteq> {})"
proof -
  have ps: "\<forall>p\<in>set (data A). wf_set n p" using wf_familyD(3) [OF A] by blast
  obtain M r where M: "fold (\<lambda>p (M, rownum). (fold (\<lambda>e M. sm_insert M rownum e) (set_elements p) M, rownum + 1)) (data A) (sm_alloc, 0) = (M, r)"
    by fastforce
  have m: "wf_sm M" "entries M = {(i, e) |i e. i < cnt A \<and> e \<in> elems (data A ! i)}"
    using rows_fold [OF ps sm_alloc_wf(1), of 0] unfolding M by simp_all
  obtain js where js: "sm_minimum_cover fo M None True = Inr js" "set js \<subseteq> snd ` entries M" "hits (entries M) (set js)"
    using minimum_cover [OF m(1) fo positive_None, of True] by auto
  have sub: "set js \<subseteq> (\<Union>p\<in>set (data A). elems p)"
  proof
    fix j assume "j \<in> set js"
    then have "j \<in> snd ` entries M" using js(2) by blast
    then obtain i where "i < cnt A" "j \<in> elems (data A ! i)" unfolding m(2) by auto
    then show "j \<in> (\<Union>p\<in>set (data A). elems p)" by (metis UN_I nth_mem)
  qed
  have lt: "\<forall>j\<in>set js. j < n" using sub ps wf_elem_less by blast
  have sz: "sf_size A = n" using A by (simp add: wf_family_def)
  note N = set_new_spec [OF n]
  let ?x = "fold (\<lambda>j s. set_insert s j) js (set_new n)"
  note X = insert_all [OF N(1) lt]
  have "do_sm_minimum_cover fo A = Inr ?x" using M js(1) sz by (simp add: do_sm_minimum_cover_def)
  moreover have "elems p \<inter> elems ?x \<noteq> {}" if p: "p \<in> set (data A)" "elems p \<noteq> {}" for p
  proof -
    obtain i where i: "i < cnt A" "data A ! i = p" using p(1) by (auto simp: in_set_conv_nth)
    then have "i \<in> fst ` entries M" using p(2) by (force simp: m(2) image_iff)
    then obtain j where "j \<in> set js" "(i, j) \<in> entries M" using js(3) by (auto simp: hits_def)
    then show ?thesis using i X(2) by (auto simp: m(2))
  qed
  ultimately show ?thesis using X N(2) sub by auto
qed

end
