(* ===== verification/Expand.thy ===== *)
theory Expand
  imports Unravel Taut
begin

text \<open>
  Expansion (\<^verbatim>\<open>expand.c\<close>): each cube of the on-set is raised as far as the off-set allows, first so as to cover other
  cubes of the on-set, then by a minimum cover of the parts that the rest of the off-set blocks.

  The record holds what \<^verbatim>\<open>expand1\<close> hands from routine to routine.  The cubes of \<^verbatim>\<open>CC\<close> are
  addressed by their position.
\<close>

record expansion =
  BB :: set_family
  CC :: set_family
  RAISE :: pset
  FREESET :: pset
  SUPER_CUBE :: pset
  num_covered :: nat

section \<open>The routines\<close>

text \<open>The sets that \<^verbatim>\<open>foreach_active_set\<close> visits; the loops that make the sets with \<open>Q\<close> inactive.\<close>

definition active_sets :: "set_family \<Rightarrow> pset list" where
  "active_sets A = filter (\<lambda>p. TESTP p ACTIVE) (data A)"

definition deactivate :: "(pset \<Rightarrow> bool) \<Rightarrow> set_family \<Rightarrow> set_family" where
  "deactivate Q A = A\<lparr>data := map (\<lambda>p. if TESTP p ACTIVE \<and> Q p then RESET p ACTIVE else p) (data A),
     active_count := active_count A - int (length (filter Q (active_sets A)))\<rparr>"

text \<open>Every routine below that takes \<open>cc\<close> is called with \<^verbatim>\<open>CC\<close> when \<open>cc\<close> holds and with a null pointer otherwise.\<close>

definition setup_BB_CC :: "bool \<Rightarrow> expansion \<Rightarrow> expansion" where
  "setup_BB_CC cc st =
     (let st = st\<lparr>BB := (BB st)\<lparr>active_count := int (cnt (BB st)), data := map (\<lambda>p. SET p ACTIVE) (data (BB st))\<rparr>\<rparr>
      in if cc then st\<lparr>CC := (CC st)\<lparr>
             active_count := int (cnt (CC st)) - int (length (filter (\<lambda>p. TESTP p COVERED \<or> TESTP p PRIME) (data (CC st)))),
             data := map (\<lambda>p. if TESTP p COVERED \<or> TESTP p PRIME then RESET p ACTIVE else SET p ACTIVE) (data (CC st))\<rparr>\<rparr>
         else st)"

definition elim_lowering :: "cube_struct \<Rightarrow> bool \<Rightarrow> expansion \<Rightarrow> expansion" where
  "elim_lowering C cc st =
     (let r = set_or (new_cube C) (RAISE st) (FREESET st);
          st = st\<lparr>BB := deactivate (\<lambda>p. \<not> cdist0 C p r) (BB st)\<rparr>
      in if cc then st\<lparr>CC := deactivate (\<lambda>p. \<not> setp_implies p r) (CC st)\<rparr> else st)"

definition essen_parts :: "cube_struct \<Rightarrow> bool \<Rightarrow> expansion \<Rightarrow> expansion res" where
  "essen_parts C cc st =
     (let r = RAISE st;
          near = filter (\<lambda>p. cdist01 C p r \<le> 1) (active_sets (BB st))
      in if list_ex (\<lambda>p. cdist01 C p r = 0) near then Inl (Fatal ''ON-set and OFF-set are not orthogonal'')
         else
           (let xlower = fold (\<lambda>p xlower. force_lower C xlower p r) near (set_copy (new_cube C) (emptyset C));
                st = st\<lparr>BB := deactivate (\<lambda>p. cdist01 C p r \<le> 1) (BB st)\<rparr>
            in Inr (if \<not> setp_empty xlower
                    then elim_lowering C cc (st\<lparr>FREESET := set_diff (FREESET st) (FREESET st) xlower\<rparr>)
                    else st)))"

definition essen_raising :: "cube_struct \<Rightarrow> expansion \<Rightarrow> expansion" where
  "essen_raising C st =
     (let xraise = fold (\<lambda>p xraise. set_or xraise xraise p) (active_sets (BB st)) (set_copy (new_cube C) (emptyset C));
          xraise = set_diff xraise (FREESET st) xraise
      in st\<lparr>RAISE := set_or (RAISE st) (RAISE st) xraise, FREESET := set_diff (FREESET st) (FREESET st) xraise\<rparr>)"

definition most_frequent :: "cube_struct \<Rightarrow> bool \<Rightarrow> expansion \<Rightarrow> int" where
  "most_frequent C cc st =
     (let count = replicate (cube_size C) 0;
          count = (if cc then fold (\<lambda>p count. set_adjcnt p count 1) (active_sets (CC st)) count else count)
      in fst (fold (\<lambda>i (best_part, best_count).
             if is_in_set (FREESET st) i \<and> count ! i > best_count then (int i, count ! i) else (best_part, best_count))
           [0..<cube_size C] (- 1, - 1)))"

text \<open>A cube at distance 0 ends the loop of \<^verbatim>\<open>feasibly_covered\<close>.\<close>

fun feasible_loop :: "cube_struct \<Rightarrow> pset \<Rightarrow> pset list \<Rightarrow> pset \<Rightarrow> bool \<times> pset" where
  "feasible_loop C r [] new_lower = (True, new_lower)"
| "feasible_loop C r (p # ps) new_lower =
     (case cdist01 C p r of
        0 \<Rightarrow> (False, new_lower)
      | Suc 0 \<Rightarrow> feasible_loop C r ps (force_lower C new_lower p r)
      | _ \<Rightarrow> feasible_loop C r ps new_lower)"

definition feasibly_covered :: "cube_struct \<Rightarrow> set_family \<Rightarrow> pset \<Rightarrow> pset \<Rightarrow> bool \<times> pset" where
  "feasibly_covered C B c raise =
     feasible_loop C (set_or (new_cube C) raise c) (active_sets B) (set_copy (new_cube C) (emptyset C))"

text \<open>
  The loop of \<^verbatim>\<open>select_feasible\<close> over \<^verbatim>\<open>feas\<close>; what stays of \<^verbatim>\<open>feas\<close> comes with its set of
  \<^verbatim>\<open>feas_new_lower\<close>.
\<close>

fun feas_pass :: "cube_struct \<Rightarrow> nat list \<Rightarrow> expansion \<Rightarrow> (nat \<times> pset) list \<times> expansion" where
  "feas_pass C [] st = ([], st)"
| "feas_pass C (i # feas) st =
     (let p = data (CC st) ! i
      in if TESTP p ACTIVE then
           if setp_implies p (RAISE st) then
             feas_pass C feas (st\<lparr>num_covered := num_covered st + 1, SUPER_CUBE := set_or (SUPER_CUBE st) (SUPER_CUBE st) p,
               CC := (CC st)\<lparr>active_count := active_count (CC st) - 1, data := (data (CC st))[i := SET (RESET p ACTIVE) COVERED]\<rparr>\<rparr>)
           else
             (let (feasible, new_lower) = feasibly_covered C (BB st) p (RAISE st)
              in if feasible then (let (rest, st) = feas_pass C feas st in ((i, new_lower) # rest, st))
                 else feas_pass C feas st)
         else feas_pass C feas st)"

definition best_feasible :: "expansion \<Rightarrow> (nat \<times> pset) list \<Rightarrow> nat option" where
  "best_feasible st feas =
     (let D = data (CC st)
      in fst (fold (\<lambda>(i, new_lower) (bestfeas, bestcount, bestsize).
             let sz = set_dist (D ! i) (FREESET st);
                 count = length (filter (\<lambda>(j, _). setp_disjoint new_lower (D ! j)) feas)
             in if count > bestcount then (Some i, count, sz)
                else if count = bestcount \<and> sz < bestsize then (Some i, bestcount, sz)
                else (bestfeas, bestcount, bestsize)) feas (None, 0, 9999)))"

text \<open>The body of \<^verbatim>\<open>loop\<close>; \<^verbatim>\<open>bestfeas\<close> is not set at the start.\<close>

fun select_loop :: "nat \<Rightarrow> cube_struct \<Rightarrow> nat list \<Rightarrow> expansion \<Rightarrow> expansion res" where
  "select_loop 0 C feas st = Inl Nofuel"
| "select_loop (Suc k) C feas st =
     (let (feas, st) = feas_pass C feas (essen_raising C st)
      in if feas = [] then Inr st
         else case best_feasible st feas of
           None \<Rightarrow> Inl NullPtr
         | Some i \<Rightarrow>
             (let st = st\<lparr>RAISE := set_or (RAISE st) (RAISE st) (data (CC st) ! i)\<rparr>;
                  st = st\<lparr>FREESET := set_diff (FREESET st) (FREESET st) (RAISE st)\<rparr>
              in rbind (essen_parts C True st) (select_loop k C (map fst feas))))"

definition select_feasible :: "nat \<Rightarrow> cube_struct \<Rightarrow> expansion \<Rightarrow> expansion res" where
  "select_feasible k C st =
     select_loop k C (filter (\<lambda>i. TESTP (data (CC st) ! i) ACTIVE) [0..<cnt (CC st)]) st"

text \<open>\<^verbatim>\<open>None\<close> is the jump to \<^verbatim>\<open>heuristic_mincov\<close>.\<close>

fun expansion_size :: "cube_struct \<Rightarrow> pset \<Rightarrow> nat list \<Rightarrow> nat \<Rightarrow> nat option" where
  "expansion_size C p [] expansion = Some expansion"
| "expansion_size C p (var # vs) expansion =
     (let dist = set_dist p (var_mask C ! var)
      in if dist > 1 then
           (if expansion * dist > 500 then None else expansion_size C p vs (expansion * dist))
         else expansion_size C p vs expansion)"

fun count_sets :: "cube_struct \<Rightarrow> pset list \<Rightarrow> nat \<Rightarrow> nat option" where
  "count_sets C [] nset = Some nset"
| "count_sets C (p # ps) nset =
     (case expansion_size C p (mv_vars C) 1 of
        None \<Rightarrow> None
      | Some expansion \<Rightarrow> if nset + expansion > 500 then None else count_sets C ps (nset + expansion))"

text \<open>The branch without the macro \<^verbatim>\<open>RANDOM_MINCOV\<close>; an insertion at \<^verbatim>\<open>-1\<close> would write before the array.\<close>

definition blocking_sets :: "cube_struct \<Rightarrow> memory \<Rightarrow> expansion \<Rightarrow> set_family" where
  "blocking_sets C mem st =
     fold (\<lambda>p B. sf_push B (force_lower C (set_copy (sf_fresh mem B) (emptyset C)) p (RAISE st)))
       (active_sets (BB st)) (new_cover C (nat (active_count (BB st))))"

definition mincov :: "'f float_ops \<Rightarrow> cube_struct \<Rightarrow> memory \<Rightarrow> expansion \<Rightarrow> expansion res" where
  "mincov fo C mem st =
     (let B = blocking_sets C mem st
      in case count_sets C (data B) 0 of
           Some nset \<Rightarrow>
             rbind (unravel C mem B (num_binary_vars C)) (\<lambda>B.
             rbind (do_sm_minimum_cover fo B) (\<lambda>xlower.
               Inr (st\<lparr>RAISE := set_or (RAISE st) (RAISE st) (set_diff (new_cube C) (FREESET st) xlower),
                 FREESET := set_copy (FREESET st) (emptyset C), BB := (BB st)\<lparr>active_count := 0\<rparr>\<rparr>)))
         | None \<Rightarrow>
             (let part = most_frequent C False st
              in if part < 0 then Inl Overflow
                 else
                   (let st = st\<lparr>RAISE := set_insert (RAISE st) (nat part)\<rparr>;
                        st = st\<lparr>FREESET := set_diff (FREESET st) (FREESET st) (RAISE st)\<rparr>
                    in essen_parts C False st)))"

fun cover_loop :: "nat \<Rightarrow> cube_struct \<Rightarrow> expansion \<Rightarrow> expansion res" where
  "cover_loop 0 C st = Inl Nofuel"
| "cover_loop (Suc k) C st =
     (if active_count (CC st) > 0 then
        (let bestindex = most_frequent C True st
         in if bestindex < 0 then Inl Overflow
            else rbind (essen_parts C True
                   (st\<lparr>RAISE := set_insert (RAISE st) (nat bestindex), FREESET := set_remove (FREESET st) (nat bestindex)\<rparr>))
                 (cover_loop k C))
      else Inr st)"

fun block_loop :: "nat \<Rightarrow> 'f float_ops \<Rightarrow> cube_struct \<Rightarrow> memory \<Rightarrow> expansion \<Rightarrow> expansion res" where
  "block_loop 0 fo C mem st = Inl Nofuel"
| "block_loop (Suc k) fo C mem st =
     (if active_count (BB st) > 0 then rbind (mincov fo C mem st) (block_loop k fo C mem) else Inr st)"

text \<open>
  \<^verbatim>\<open>expand1\<close> up to the call of \<^verbatim>\<open>essen_parts\<close>, then the rest.  The cube \<open>c\<close> is the set at position \<open>c\<close> of
  \<^verbatim>\<open>CC\<close>; the second result is the over-expanded cube.
\<close>

definition expand_start :: "cube_struct \<Rightarrow> set_family \<Rightarrow> set_family \<Rightarrow> pset \<Rightarrow> nat \<Rightarrow> expansion" where
  "expand_start C B F INIT_LOWER c =
     (let F = F\<lparr>data := (data F)[c := SET (data F ! c) PRIME]\<rparr>;
          st = \<lparr>BB = B, CC = F, RAISE = new_cube C, FREESET = new_cube C, SUPER_CUBE = new_cube C, num_covered = 0\<rparr>;
          st = setup_BB_CC True st;
          p = data (CC st) ! c;
          st = st\<lparr>SUPER_CUBE := set_copy (SUPER_CUBE st) p, RAISE := set_copy (RAISE st) p\<rparr>;
          st = st\<lparr>FREESET := set_diff (FREESET st) (fullset C) (RAISE st)\<rparr>
      in if \<not> setp_empty INIT_LOWER
         then elim_lowering C True (st\<lparr>FREESET := set_diff (FREESET st) (FREESET st) INIT_LOWER\<rparr>) else st)"

definition expand1 :: "nat \<Rightarrow> 'f float_ops \<Rightarrow> cube_struct \<Rightarrow> memory \<Rightarrow> set_family \<Rightarrow> set_family \<Rightarrow> pset \<Rightarrow> nat \<Rightarrow>
    (expansion \<times> pset) res" where
  "expand1 k fo C mem B F INIT_LOWER c =
     rbind (essen_parts C True (expand_start C B F INIT_LOWER c)) (\<lambda>st.
       let overexpanded = set_or (new_cube C) (RAISE st) (FREESET st)
       in rbind (if active_count (CC st) > 0 then select_feasible k C st else Inr st) (\<lambda>st.
          rbind (cover_loop k C st) (\<lambda>st.
          rbind (block_loop k fo C mem st) (\<lambda>st.
            Inr (st\<lparr>RAISE := set_or (RAISE st) (RAISE st) (FREESET st)\<rparr>, overexpanded)))))"

fun expand_loop :: "nat \<Rightarrow> 'f float_ops \<Rightarrow> cube_struct \<Rightarrow> memory \<Rightarrow> pset \<Rightarrow> nat list \<Rightarrow> set_family \<Rightarrow> set_family \<Rightarrow>
    (set_family \<times> set_family) res" where
  "expand_loop k fo C mem INIT_LOWER [] F R = Inr (F, R)"
| "expand_loop k fo C mem INIT_LOWER (i # is) F R =
     (if \<not> TESTP (data F ! i) PRIME \<and> \<not> TESTP (data F ! i) COVERED then
        rbind (expand1 k fo C mem R F INIT_LOWER i) (\<lambda>(st, overexpanded).
          let F = CC st;
              p = RESET (SET (set_copy (data F ! i) (RAISE st)) PRIME) COVERED;
              p = (if num_covered st = 0 \<and> \<not> setp_equal p overexpanded then SET p NONESSEN else p)
          in expand_loop k fo C mem INIT_LOWER is (F\<lparr>data := (data F)[i := p]\<rparr>) (BB st))
      else expand_loop k fo C mem INIT_LOWER is F R)"

text \<open>The new on-set, and the off-set, of which the flags have changed.\<close>

definition expand :: "nat \<Rightarrow> 'f float_ops \<Rightarrow> cube_struct \<Rightarrow> memory \<Rightarrow> bool \<Rightarrow> set_family \<Rightarrow> set_family \<Rightarrow> bool \<Rightarrow>
    (set_family \<times> set_family) res" where
  "expand k fo C mem use_random_order F R nonsparse =
     (let F = (if use_random_order then random_order F else mini_sort C F ascend);
          INIT_LOWER = (if nonsparse
            then fold (\<lambda>var s. if sparse C ! var then set_or s s (var_mask C ! var) else s) [0..<num_vars C] (new_cube C)
            else new_cube C);
          F = F\<lparr>data := map (\<lambda>p. RESET (RESET p COVERED) NONESSEN) (data F)\<rparr>
      in rbind (expand_loop k fo C mem INIT_LOWER [0..<cnt F] F R) (\<lambda>(F, R).
         let change = list_ex (\<lambda>p. TESTP p COVERED) (data F);
             F = F\<lparr>data := map (\<lambda>p. if TESTP p COVERED then RESET p ACTIVE else SET p ACTIVE) (data F),
               active_count := int (length (filter (\<lambda>p. \<not> TESTP p COVERED) (data F)))\<rparr>
         in Inr (if change then sf_inactive F else F, R)))"

section \<open>Flags\<close>

lemma flags_distinct [simp]:
  "PRIME \<noteq> ACTIVE" "ACTIVE \<noteq> PRIME" "PRIME \<noteq> COVERED" "COVERED \<noteq> PRIME" "COVERED \<noteq> ACTIVE" "ACTIVE \<noteq> COVERED"
  "PRIME \<noteq> NONESSEN" "COVERED \<noteq> NONESSEN" "ACTIVE \<noteq> NONESSEN"
  by (simp_all add: PRIME_def ACTIVE_def COVERED_def NONESSEN_def)

lemmas flag_tests = flag_test [OF flag_ok(1) flag_ok(1)] flag_test [OF flag_ok(1) flag_ok(2)] flag_test [OF flag_ok(1) flag_ok(3)]
  flag_test [OF flag_ok(1) flag_ok(5)] flag_test [OF flag_ok(3) flag_ok(1)] flag_test [OF flag_ok(3) flag_ok(2)]
  flag_test [OF flag_ok(3) flag_ok(3)] flag_test [OF flag_ok(3) flag_ok(5)] flag_test [OF flag_ok(5) flag_ok(1)]
  flag_test [OF flag_ok(5) flag_ok(2)] flag_test [OF flag_ok(5) flag_ok(3)] flag_test [OF flag_ok(5) flag_ok(5)]

section \<open>The families during an expansion\<close>

definition counted :: "set_family \<Rightarrow> bool" where
  "counted A \<longleftrightarrow> active_count A = int (length (active_sets A))"

lemma set_active: "p \<in> set (active_sets A) \<longleftrightarrow> p \<in> set (data A) \<and> TESTP p ACTIVE"
  by (simp add: active_sets_def)

lemma counted_none: "counted A \<Longrightarrow> \<not> active_count A > 0 \<longleftrightarrow> (\<forall>p\<in>set (data A). \<not> TESTP p ACTIVE)"
  by (auto simp: counted_def active_sets_def filter_empty_conv)

lemma wf_family_map:
  assumes "wf_family n A" "\<forall>p\<in>set (data A). wf_set n (f p)"
  shows "wf_family n (A\<lparr>data := map f (data A), active_count := k\<rparr>)"
  using assms by (auto simp: wf_family_def)

lemma filter_reset:
  assumes "\<forall>p\<in>set ps. p \<noteq> []"
  shows "filter (\<lambda>p. TESTP p ACTIVE) (map (\<lambda>p. if TESTP p ACTIVE \<and> Q p then RESET p ACTIVE else p) ps)
    = filter (\<lambda>p. \<not> Q p) (filter (\<lambda>p. TESTP p ACTIVE) ps)"
  using assms by (induction ps) (simp_all add: flag_tests)

lemma deactivate_spec:
  assumes A: "wf_family n A"
  shows "wf_family n (deactivate Q A)" "cnt (deactivate Q A) = cnt A" "counted A \<Longrightarrow> counted (deactivate Q A)"
    "active_sets (deactivate Q A) = filter (\<lambda>p. \<not> Q p) (active_sets A)"
    "i < cnt A \<Longrightarrow> elems (data (deactivate Q A) ! i) = elems (data A ! i)"
    "i < cnt A \<Longrightarrow> TESTP (data (deactivate Q A) ! i) ACTIVE \<longleftrightarrow> TESTP (data A ! i) ACTIVE \<and> \<not> Q (data A ! i)"
    "i < cnt A \<Longrightarrow> TESTP (data (deactivate Q A) ! i) PRIME \<longleftrightarrow> TESTP (data A ! i) PRIME"
    "i < cnt A \<Longrightarrow> TESTP (data (deactivate Q A) ! i) COVERED \<longleftrightarrow> TESTP (data A ! i) COVERED"
proof -
  have ne: "\<forall>p\<in>set (data A). p \<noteq> []" using wf_familyD(3) [OF A] wf_nonempty by blast
  show "wf_family n (deactivate Q A)" unfolding deactivate_def
    by (rule wf_family_map [OF A]) (use wf_familyD(3) [OF A] in auto)
  show "cnt (deactivate Q A) = cnt A" by (simp add: deactivate_def)
  show a: "active_sets (deactivate Q A) = filter (\<lambda>p. \<not> Q p) (active_sets A)"
    using filter_reset [OF ne] by (simp add: deactivate_def active_sets_def)
  show "counted (deactivate Q A)" if "counted A"
    using that sum_length_filter_compl [of Q "active_sets A"] unfolding counted_def a by (simp add: deactivate_def)
  show "elems (data (deactivate Q A) ! i) = elems (data A ! i)" if "i < cnt A"
    using that by (simp add: deactivate_def)
  have i: "data A ! i \<noteq> []" if "i < cnt A" using ne that by simp
  show "i < cnt A \<Longrightarrow> TESTP (data (deactivate Q A) ! i) ACTIVE \<longleftrightarrow> TESTP (data A ! i) ACTIVE \<and> \<not> Q (data A ! i)"
    "i < cnt A \<Longrightarrow> TESTP (data (deactivate Q A) ! i) PRIME \<longleftrightarrow> TESTP (data A ! i) PRIME"
    "i < cnt A \<Longrightarrow> TESTP (data (deactivate Q A) ! i) COVERED \<longleftrightarrow> TESTP (data A ! i) COVERED"
    using i by (auto simp: deactivate_def flag_tests)
qed

section \<open>The state of an expansion\<close>

definition over :: "expansion \<Rightarrow> nat set" where
  "over st = elems (RAISE st) \<union> elems (FREESET st)"

definition exp_wf :: "cube_struct \<Rightarrow> expansion \<Rightarrow> bool" where
  "exp_wf C st \<longleftrightarrow> is_cover C (BB st) \<and> is_cover C (CC st) \<and> is_cube C (RAISE st) \<and> is_cube C (FREESET st)
     \<and> is_cube C (SUPER_CUBE st) \<and> counted (BB st) \<and> counted (CC st) \<and> elems (RAISE st) \<inter> elems (FREESET st) = {}"

text \<open>Every set of the off-set is apart from what the cube may still become, or \<open>m\<close> variables apart from the cube.\<close>

definition blocked :: "cube_struct \<Rightarrow> nat \<Rightarrow> expansion \<Rightarrow> bool" where
  "blocked C m st \<longleftrightarrow> (\<forall>q\<in>set (data (BB st)). if TESTP q ACTIVE then m \<le> card (nulls C (elems q \<inter> elems (RAISE st)))
     else nulls C (elems q \<inter> over st) \<noteq> {})"

definition tight :: "cube_struct \<Rightarrow> expansion \<Rightarrow> bool" where
  "tight C st \<longleftrightarrow> (\<forall>q\<in>set (data (BB st)). TESTP q ACTIVE \<longrightarrow> nulls C (elems q \<inter> over st) = {})"

definition reach :: "expansion \<Rightarrow> bool" where
  "reach st \<longleftrightarrow> (\<forall>p\<in>set (data (CC st)). TESTP p ACTIVE \<longrightarrow> elems p \<subseteq> over st)"

text \<open>A later state of the same expansion.\<close>

definition evolves :: "expansion \<Rightarrow> expansion \<Rightarrow> bool" where
  "evolves st st' \<longleftrightarrow> elems (RAISE st) \<subseteq> elems (RAISE st') \<and> over st' \<subseteq> over st \<and> map elems (data (BB st')) = map elems (data (BB st))
     \<and> cnt (CC st') = cnt (CC st)
     \<and> (\<forall>i<cnt (CC st). elems (data (CC st') ! i) = elems (data (CC st) ! i)
          \<and> (TESTP (data (CC st') ! i) PRIME \<longleftrightarrow> TESTP (data (CC st) ! i) PRIME)
          \<and> (TESTP (data (CC st') ! i) COVERED \<longrightarrow> TESTP (data (CC st) ! i) COVERED
               \<or> TESTP (data (CC st) ! i) ACTIVE \<and> elems (data (CC st) ! i) \<subseteq> elems (RAISE st'))
          \<and> (TESTP (data (CC st) ! i) COVERED \<longrightarrow> TESTP (data (CC st') ! i) COVERED)
          \<and> (TESTP (data (CC st') ! i) ACTIVE \<longrightarrow> TESTP (data (CC st) ! i) ACTIVE))"

lemma evolves_refl [simp]: "evolves st st"
  by (simp add: evolves_def)

lemma evolves_trans:
  assumes "evolves st st'" "evolves st' st''"
  shows "evolves st st''"
proof -
  have n: "cnt (CC st') = cnt (CC st)" using assms(1) by (simp add: evolves_def)
  show ?thesis
    unfolding evolves_def
  proof (intro conjI allI impI)
    fix i assume i: "i < cnt (CC st)"
    note a = assms(1) [unfolded evolves_def, THEN conjunct2, THEN conjunct2, THEN conjunct2, THEN conjunct2, rule_format, OF i]
    note b = assms(2) [unfolded evolves_def, THEN conjunct2, THEN conjunct2, THEN conjunct2, THEN conjunct2, rule_format, OF i [folded n]]
    show "elems (data (CC st'') ! i) = elems (data (CC st) ! i)"
      "TESTP (data (CC st'') ! i) PRIME \<longleftrightarrow> TESTP (data (CC st) ! i) PRIME"
      "TESTP (data (CC st) ! i) COVERED \<Longrightarrow> TESTP (data (CC st'') ! i) COVERED"
      "TESTP (data (CC st'') ! i) ACTIVE \<Longrightarrow> TESTP (data (CC st) ! i) ACTIVE" using a b by auto
    have "elems (RAISE st') \<subseteq> elems (RAISE st'')" using assms(2) by (simp add: evolves_def)
    then show "TESTP (data (CC st'') ! i) COVERED \<Longrightarrow> TESTP (data (CC st) ! i) COVERED
      \<or> TESTP (data (CC st) ! i) ACTIVE \<and> elems (data (CC st) ! i) \<subseteq> elems (RAISE st'')" using a b by blast
  qed (use assms in \<open>auto simp: evolves_def\<close>)
qed

lemma deactivate_elems:
  assumes "wf_family n A"
  shows "map elems (data (deactivate Q A)) = map elems (data A)"
  using deactivate_spec(2,5) [OF assms] by (auto intro: nth_equalityI)

lemma elim_lowering_spec:
  fixes cc :: bool
  assumes C: "wf_cube C" and w: "exp_wf C st" and b: "blocked C m st"
  defines "st' \<equiv> elim_lowering C cc st"
  shows "exp_wf C st'" "blocked C m st'" "tight C st'" "evolves st st'" "cc \<Longrightarrow> reach st'"
    "RAISE st' = RAISE st" "FREESET st' = FREESET st" "\<not> cc \<Longrightarrow> CC st' = CC st"
proof -
  have f: "is_cover C (BB st)" "is_cover C (CC st)" "is_cube C (RAISE st)" "is_cube C (FREESET st)" using w by (simp_all add: exp_wf_def)
  define r where "r = set_or (new_cube C) (RAISE st) (FREESET st)"
  have r: "is_cube C r" "elems r = over st"
    using binops_wf(2) [OF f(3,4) new_cube_length] binops_elems(2) [OF f(3,4) new_cube_length] by (simp_all add: r_def over_def)
  note B = deactivate_spec [OF f(1), where Q = "\<lambda>p. \<not> cdist0 C p r"]
  note D = deactivate_spec [OF f(2), where Q = "\<lambda>p. \<not> setp_implies p r"]
  have st': "st' = st\<lparr>BB := deactivate (\<lambda>p. \<not> cdist0 C p r) (BB st),
      CC := (if cc then deactivate (\<lambda>p. \<not> setp_implies p r) (CC st) else CC st)\<rparr>"
    by (simp add: st'_def elim_lowering_def Let_def r_def)
  show R: "RAISE st' = RAISE st" "FREESET st' = FREESET st" "\<not> cc \<Longrightarrow> CC st' = CC st" by (simp_all add: st')
  have o: "over st' = over st" by (simp add: over_def R)
  show "exp_wf C st'" using w B(1,3) D(1,3) by (simp add: exp_wf_def st')
  have q: "cdist0 C (data (BB st) ! i) r \<longleftrightarrow> nulls C (elems (data (BB st) ! i) \<inter> over st) = {}" if "i < cnt (BB st)" for i
    using cdist0_spec [OF C wf_familyD(5) [OF f(1) that] r(1)] r(2) by simp
  have BB: "BB st' = deactivate (\<lambda>p. \<not> cdist0 C p r) (BB st)" by (simp add: st')
  show "blocked C m st'" "tight C st'"
    using b B(2) B(5,6) q by (auto simp: blocked_def tight_def o R BB all_set_conv_all_nth)
  show "reach st'" if cc
    unfolding reach_def all_set_conv_all_nth o
  proof (intro allI impI)
    have CC: "CC st' = deactivate (\<lambda>p. \<not> setp_implies p r) (CC st)" using that by (simp add: st')
    fix i assume i: "i < cnt (CC st')" and a: "TESTP (data (CC st') ! i) ACTIVE"
    have i': "i < cnt (CC st)" using i D(2) unfolding CC by simp
    have "setp_implies (data (CC st) ! i) r" using a D(6) [OF i'] unfolding CC by blast
    then show "elems (data (CC st') ! i) \<subseteq> over st"
      using setp_implies_iff [OF wf_familyD(5) [OF f(2) i'] r(1)] r(2) D(5) [OF i'] unfolding CC by simp
  qed
  show "evolves st st'"
    unfolding evolves_def R o
    using deactivate_elems [OF f(1)] D(2) D(5-8) by (simp add: st')
qed

lemma force_lower_fold:
  assumes C: "wf_cube C" and "\<forall>p\<in>set ps. is_cube C p" and r: "is_cube C r" and "is_cube C x"
  shows "is_cube C (fold (\<lambda>p x. force_lower C x p r) ps x)"
    "elems (fold (\<lambda>p x. force_lower C x p r) ps x) = elems x \<union> (\<Union>p\<in>set ps. elems p \<inter> null_parts C (elems p \<inter> elems r))"
proof -
  have "is_cube C (fold (\<lambda>p x. force_lower C x p r) ps x)
    \<and> elems (fold (\<lambda>p x. force_lower C x p r) ps x) = elems x \<union> (\<Union>p\<in>set ps. elems p \<inter> null_parts C (elems p \<inter> elems r))"
    using assms(2,4)
  proof (induction ps arbitrary: x)
    case (Cons p ps)
    have p: "is_cube C p" "\<forall>p\<in>set ps. is_cube C p" using Cons.prems(1) by simp_all
    note L = force_lower_spec [OF C p(1) r Cons.prems(2)]
    show ?case using Cons.IH [OF p(2) L(1)] L(3) by (simp add: Un_assoc)
  qed simp
  then show "is_cube C (fold (\<lambda>p x. force_lower C x p r) ps x)"
    "elems (fold (\<lambda>p x. force_lower C x p r) ps x) = elems x \<union> (\<Union>p\<in>set ps. elems p \<inter> null_parts C (elems p \<inter> elems r))" by blast+
qed

text \<open>A part that lies in a null variable is forced low.\<close>

lemma lowered_apart:
  assumes "v \<in> nulls C (q \<inter> r)" "q \<inter> null_parts C (q \<inter> r) \<inter> f = {}"
  shows "v \<in> nulls C (q \<inter> (r \<union> f))"
  using assms by (fastforce simp: nulls_def null_var_def null_parts_def)

lemma dist01_cases:
  assumes C: "wf_cube C" and "is_cube C p" "is_cube C r"
  shows "cdist01 C p r \<le> 1 \<longleftrightarrow> card (nulls C (elems p \<inter> elems r)) \<le> 1" "cdist01 C p r = 0 \<longleftrightarrow> nulls C (elems p \<inter> elems r) = {}"
proof -
  let ?n = "card (nulls C (elems p \<inter> elems r))"
  have m: "min 2 n \<le> 1 \<longleftrightarrow> n \<le> 1" "min 2 n = 0 \<longleftrightarrow> n = 0" for n :: nat by (auto simp: min_def)
  show "cdist01 C p r \<le> 1 \<longleftrightarrow> ?n \<le> 1" "cdist01 C p r = 0 \<longleftrightarrow> nulls C (elems p \<inter> elems r) = {}"
    unfolding cdist01_spec [OF assms] m by simp_all
qed

lemma essen_parts_spec:
  fixes cc :: bool
  assumes C: "wf_cube C" and w: "exp_wf C st" and b: "blocked C 1 st" and t: "tight C st" and a: "cc \<Longrightarrow> reach st"
  shows "\<exists>st'. essen_parts C cc st = Inr st' \<and> exp_wf C st' \<and> blocked C 2 st' \<and> tight C st' \<and> evolves st st' \<and> (cc \<longrightarrow> reach st')
    \<and> RAISE st' = RAISE st \<and> elems (FREESET st') \<subseteq> elems (FREESET st) \<and> (\<not> cc \<longrightarrow> CC st' = CC st)"
proof -
  define r where "r = RAISE st"
  define near where "near = filter (\<lambda>p. cdist01 C p r \<le> 1) (active_sets (BB st))"
  define xlower where "xlower = fold (\<lambda>p xlower. force_lower C xlower p r) near (set_copy (new_cube C) (emptyset C))"
  have f: "is_cover C (BB st)" "is_cover C (CC st)" "is_cube C r" "is_cube C (FREESET st)" using w by (simp_all add: exp_wf_def r_def)
  have ps: "\<forall>p\<in>set near. is_cube C p" using wf_familyD(3) [OF f(1)] by (auto simp: near_def set_active)
  have e0: "set_copy (new_cube C) (emptyset C) = emptyset C" by (rule set_copy_eq [OF wf_cubeD(5) [OF C]]) simp
  have x: "is_cube C xlower" "elems xlower = (\<Union>p\<in>set near. elems p \<inter> null_parts C (elems p \<inter> elems r))"
    using force_lower_fold [OF C ps f(3) wf_cubeD(5) [OF C]] wf_cubeD(6) [OF C] by (simp_all add: xlower_def e0)
  have ne: "\<not> list_ex (\<lambda>p. cdist01 C p r = 0) near"
    using b dist01_cases(2) [OF C _ f(3)] ps by (fastforce simp: list_ex_iff near_def set_active blocked_def r_def)
  define fr where "fr = (if setp_empty xlower then FREESET st else set_diff (FREESET st) (FREESET st) xlower)"
  have fr: "is_cube C fr" "elems fr = elems (FREESET st) - elems xlower"
    using binops_wf(3) [OF f(4) x(1) wf_length [OF f(4)]] binops_elems(3) [OF f(4) x(1) wf_length [OF f(4)]]
      f(4) setp_empty_iff [OF x(1)] by (auto simp: fr_def)
  define st2 where "st2 = st\<lparr>BB := deactivate (\<lambda>p. cdist01 C p r \<le> 1) (BB st), FREESET := fr\<rparr>"
  note B = deactivate_spec [OF f(1), where Q = "\<lambda>p. cdist01 C p r \<le> 1"]
  have w2: "exp_wf C st2" using w B(1,3) fr by (auto simp: exp_wf_def st2_def)
  have o: "over st2 \<subseteq> over st" using fr(2) by (auto simp: over_def st2_def)
  have b2: "blocked C 2 st2"
    unfolding blocked_def all_set_conv_all_nth
  proof (intro allI impI)
    fix i assume "i < cnt (BB st2)"
    then have i: "i < cnt (BB st)" using B(2) by (simp add: st2_def)
    let ?q = "data (BB st) ! i"
    have q: "is_cube C ?q" "?q \<in> set (data (BB st))" using wf_familyD(5) [OF f(1) i] i by simp_all
    have bq: "if TESTP ?q ACTIVE then 1 \<le> card (nulls C (elems ?q \<inter> elems r)) else nulls C (elems ?q \<inter> over st) \<noteq> {}"
      using b q(2) by (auto simp: blocked_def r_def)
    have act: "TESTP (data (BB st2) ! i) ACTIVE \<longleftrightarrow> TESTP ?q ACTIVE \<and> \<not> cdist01 C ?q r \<le> 1" using B(6) [OF i] by (simp add: st2_def)
    have el: "elems (data (BB st2) ! i) = elems ?q" using B(5) [OF i] by (simp add: st2_def)
    have over2: "over st2 = elems r \<union> elems fr" by (simp add: over_def st2_def r_def)
    show "if TESTP (data (BB st2) ! i) ACTIVE then 2 \<le> card (nulls C (elems (data (BB st2) ! i) \<inter> elems (RAISE st2)))
      else nulls C (elems (data (BB st2) ! i) \<inter> over st2) \<noteq> {}"
    proof (cases "TESTP ?q ACTIVE")
      case False
      then obtain v where "v \<in> nulls C (elems ?q \<inter> over st)" using bq by auto
      then have "v \<in> nulls C (elems ?q \<inter> over st2)" using o by (auto simp: nulls_def null_var_def)
      then show ?thesis using False act el by auto
    next
      case True
      note d = dist01_cases(1) [OF C q(1) f(3)]
      show ?thesis
      proof (cases "cdist01 C ?q r \<le> 1")
        case near: True
        obtain v where v: "v \<in> nulls C (elems ?q \<inter> elems r)" using bq True by (auto simp: Suc_le_eq card_gt_0_iff)
        have "?q \<in> set near" using True near q(2) by (simp add: near_def set_active)
        then have "elems ?q \<inter> null_parts C (elems ?q \<inter> elems r) \<subseteq> elems xlower" unfolding x(2) by blast
        then have "elems ?q \<inter> null_parts C (elems ?q \<inter> elems r) \<inter> elems fr = {}" using fr(2) by blast
        from lowered_apart [OF v this] have "v \<in> nulls C (elems ?q \<inter> over st2)" unfolding over2 .
        then show ?thesis using act near el by auto
      next
        case False
        then have "2 \<le> card (nulls C (elems ?q \<inter> elems r))" using d by linarith
        then show ?thesis using act True False el by (simp add: st2_def r_def)
      qed
    qed
  qed
  have ev: "evolves st st2" using o deactivate_elems [OF f(1)] by (auto simp: evolves_def st2_def)
  have res: "essen_parts C cc st = Inr (if setp_empty xlower then st2 else elim_lowering C cc st2)"
    using ne unfolding essen_parts_def Let_def r_def [symmetric] near_def [symmetric] xlower_def [symmetric]
    by (simp add: st2_def fr_def)
  show ?thesis
  proof (cases "setp_empty xlower")
    case True
    then have "fr = FREESET st" by (simp add: fr_def)
    then have o2: "over st2 = over st" by (simp add: over_def st2_def)
    have "tight C st2" using t B(2,5,6) unfolding tight_def all_set_conv_all_nth o2 by (simp add: st2_def)
    moreover have "cc \<longrightarrow> reach st2" using a by (simp add: reach_def o2) (simp add: st2_def)
    ultimately show ?thesis using res True w2 b2 ev fr(2) by (intro exI [of _ st2]) (simp add: st2_def)
  next
    case False
    note E = elim_lowering_spec [OF C w2 b2, of cc]
    have "evolves st (elim_lowering C cc st2)" by (rule evolves_trans [OF ev E(4)])
    then show ?thesis using res False E fr(2) by (intro exI [of _ "elim_lowering C cc st2"]) (auto simp: st2_def)
  qed
qed

lemma essen_parts_fatal:
  assumes C: "wf_cube C" and w: "exp_wf C st" and q: "q \<in> set (data (BB st))" "TESTP q ACTIVE" "nulls C (elems q \<inter> elems (RAISE st)) = {}"
  shows "essen_parts C cc st = Inl (Fatal ''ON-set and OFF-set are not orthogonal'')"
proof -
  have f: "is_cube C q" "is_cube C (RAISE st)" using w wf_familyD(3) q(1) by (auto simp: exp_wf_def)
  have "cdist01 C q (RAISE st) = 0" using dist01_cases(2) [OF C f] q(3) by simp
  then have "list_ex (\<lambda>p. cdist01 C p (RAISE st) = 0) (filter (\<lambda>p. cdist01 C p (RAISE st) \<le> 1) (active_sets (BB st)))"
    using q(1,2) by (auto simp: list_ex_iff set_active)
  then show ?thesis by (simp add: essen_parts_def Let_def)
qed

section \<open>Raising parts\<close>

lemma raised_state:
  assumes w: "exp_wf C st" and t: "tight C st" and r: "is_cube C r" "is_cube C f"
    and e: "elems r \<union> elems f = over st" "elems r \<inter> elems f = {}" "elems (RAISE st) \<subseteq> elems r"
    and b: "blocked C m st" "\<forall>q\<in>set (data (BB st)). TESTP q ACTIVE \<longrightarrow> k \<le> card (nulls C (elems q \<inter> elems r))"
  defines "st' \<equiv> st\<lparr>RAISE := r, FREESET := f\<rparr>"
  shows "exp_wf C st'" "tight C st'" "reach st \<Longrightarrow> reach st'" "evolves st st'" "blocked C k st'" "over st' = over st"
proof -
  show o: "over st' = over st" using e(1) by (simp add: over_def st'_def)
  show "exp_wf C st'" using w r e(2) by (simp add: exp_wf_def st'_def)
  show "tight C st'" using t unfolding tight_def o by (simp add: st'_def)
  show "reach st \<Longrightarrow> reach st'" unfolding reach_def o by (simp add: st'_def)
  show "evolves st st'" using e(3) unfolding evolves_def o by (simp add: st'_def)
  show "blocked C k st'" using b unfolding blocked_def o by (simp add: st'_def)
qed

lemma active_union:
  assumes A: "is_cover C A" and C: "wf_cube C"
  shows "is_cube C (fold (\<lambda>p x. set_or x x p) (active_sets A) (set_copy (new_cube C) (emptyset C)))"
    "elems (fold (\<lambda>p x. set_or x x p) (active_sets A) (set_copy (new_cube C) (emptyset C))) = (\<Union>p\<in>set (active_sets A). elems p)"
proof -
  have e0: "set_copy (new_cube C) (emptyset C) = emptyset C" by (rule set_copy_eq [OF wf_cubeD(5) [OF C]]) simp
  have ps: "\<forall>p\<in>set (active_sets A). is_cube C p" using wf_familyD(3) [OF A] by (auto simp: set_active)
  show "is_cube C (fold (\<lambda>p x. set_or x x p) (active_sets A) (set_copy (new_cube C) (emptyset C)))"
    "elems (fold (\<lambda>p x. set_or x x p) (active_sets A) (set_copy (new_cube C) (emptyset C))) = (\<Union>p\<in>set (active_sets A). elems p)"
    unfolding e0 using fold_set_or [OF ps wf_cubeD(5) [OF C]] wf_cubeD(6) [OF C] by simp_all
qed

lemma essen_raising_spec:
  assumes C: "wf_cube C" and w: "exp_wf C st" and b: "blocked C m st" and t: "tight C st"
  defines "st' \<equiv> essen_raising C st"
  shows "exp_wf C st'" "blocked C m st'" "tight C st'" "reach st \<Longrightarrow> reach st'" "evolves st st'" "CC st' = CC st" "over st' = over st"
    "elems (FREESET st') \<subseteq> elems (FREESET st)"
proof -
  have f: "is_cover C (BB st)" "is_cube C (RAISE st)" "is_cube C (FREESET st)" "elems (RAISE st) \<inter> elems (FREESET st) = {}"
    using w by (simp_all add: exp_wf_def)
  define u where "u = fold (\<lambda>p x. set_or x x p) (active_sets (BB st)) (set_copy (new_cube C) (emptyset C))"
  have u: "is_cube C u" "elems u = (\<Union>p\<in>set (active_sets (BB st)). elems p)"
    using active_union [OF f(1) C] by (simp_all add: u_def)
  define x where "x = set_diff u (FREESET st) u"
  have x: "is_cube C x" "elems x = elems (FREESET st) - elems u"
    using binops_wf(3) [OF f(3) u(1) wf_length [OF u(1)]] binops_elems(3) [OF f(3) u(1) wf_length [OF u(1)]] by (simp_all add: x_def)
  define r where "r = set_or (RAISE st) (RAISE st) x"
  have r: "is_cube C r" "elems r = elems (RAISE st) \<union> elems x"
    using binops_wf(2) [OF f(2) x(1) wf_length [OF f(2)]] binops_elems(2) [OF f(2) x(1) wf_length [OF f(2)]] by (simp_all add: r_def)
  define fr where "fr = set_diff (FREESET st) (FREESET st) x"
  have fr: "is_cube C fr" "elems fr = elems (FREESET st) - elems x"
    using binops_wf(3) [OF f(3) x(1) wf_length [OF f(3)]] binops_elems(3) [OF f(3) x(1) wf_length [OF f(3)]] by (simp_all add: fr_def)
  have st': "st' = st\<lparr>RAISE := r, FREESET := fr\<rparr>"
    by (simp add: st'_def essen_raising_def Let_def u_def x_def r_def fr_def)
  have e: "elems r \<union> elems fr = over st" "elems r \<inter> elems fr = {}" "elems (RAISE st) \<subseteq> elems r"
    using r(2) fr(2) x(2) f(4) by (auto simp: over_def)
  have q: "\<forall>q\<in>set (data (BB st)). TESTP q ACTIVE \<longrightarrow> m \<le> card (nulls C (elems q \<inter> elems r))"
  proof (intro ballI impI)
    fix q assume q: "q \<in> set (data (BB st))" "TESTP q ACTIVE"
    then have "q \<in> set (active_sets (BB st))" by (simp add: set_active)
    then have "elems q \<inter> elems x = {}" unfolding x(2) u(2) by blast
    then have "elems q \<inter> elems r = elems q \<inter> elems (RAISE st)" using r(2) by blast
    then show "m \<le> card (nulls C (elems q \<inter> elems r))" using b q by (simp add: blocked_def)
  qed
  note S = raised_state [OF w t r(1) fr(1) e b q, folded st']
  show "exp_wf C st'" "blocked C m st'" "tight C st'" "reach st \<Longrightarrow> reach st'" "evolves st st'" "over st' = over st" by (fact S)+
  show "CC st' = CC st" "elems (FREESET st') \<subseteq> elems (FREESET st)" using fr(2) by (auto simp: st')
qed

text \<open>One part more brings the cube at most one variable nearer.\<close>

lemma raise_part_near:
  assumes C: "wf_layout C" and "finite r" and e: "e < cube_size C"
  shows "card (nulls C (q \<inter> r)) \<le> Suc (card (nulls C (q \<inter> insert e r)))"
proof -
  obtain v where v: "v < num_vars C" "e \<in> vparts C v" using vparts_cover [OF C e] by blast
  have "nulls C (q \<inter> r) \<subseteq> insert v (nulls C (q \<inter> insert e r))"
  proof
    fix u assume u: "u \<in> nulls C (q \<inter> r)"
    show "u \<in> insert v (nulls C (q \<inter> insert e r))"
    proof (cases "u = v")
      case False
      then have "e \<notin> vparts C u" using vparts_disjoint [OF C _ v(1) _ v(2)] u by (auto simp: nulls_def)
      then show ?thesis using u by (auto simp: nulls_def null_var_def)
    qed simp
  qed
  then have "card (nulls C (q \<inter> r)) \<le> card (insert v (nulls C (q \<inter> insert e r)))" by (intro card_mono) simp_all
  also have "\<dots> \<le> Suc (card (nulls C (q \<inter> insert e r)))" by (simp add: card_insert_if)
  finally show ?thesis .
qed

lemma adjcnt_nonneg:
  assumes "\<forall>p\<in>set ps. elems p \<subseteq> {..<length counts}" "\<forall>e<length counts. 0 \<le> counts ! e"
  shows "\<forall>e<length counts. 0 \<le> fold (\<lambda>p counts. set_adjcnt p counts 1) ps counts ! e"
  using assms
proof (induction ps arbitrary: counts)
  case (Cons p ps)
  have "\<forall>e<length counts. 0 \<le> set_adjcnt p counts 1 ! e" using Cons.prems set_adjcnt_spec [of p counts _ 1] by simp
  then show ?case using Cons.IH [of "set_adjcnt p counts 1"] Cons.prems(1) by simp
qed simp

lemma best_part_fold:
  assumes "b = (- 1, - 1) \<or> (\<exists>j. b = (int j, counts ! j) \<and> P j \<and> 0 \<le> counts ! j)" "\<forall>i\<in>set is. 0 \<le> counts ! i"
  defines "r \<equiv> fold (\<lambda>i (best_part, best_count). if P i \<and> counts ! i > best_count then (int i, counts ! i) else (best_part, best_count :: int)) is b"
  shows "r = (- 1, - 1) \<and> b = (- 1, - 1) \<and> (\<forall>i\<in>set is. \<not> P i) \<or> (\<exists>j. r = (int j, counts ! j) \<and> P j \<and> (j \<in> set is \<or> b = (int j, counts ! j)))"
  using assms(1,2) unfolding r_def
proof (induction "is" arbitrary: b)
  case (Cons i "is")
  let ?b = "(\<lambda>(best_part, best_count). if P i \<and> counts ! i > best_count then (int i, counts ! i) else (best_part, best_count :: int)) b"
  have p: "0 \<le> counts ! i" "\<forall>i\<in>set is. 0 \<le> counts ! i" using Cons.prems(2) by simp_all
  have b: "?b = (- 1, - 1) \<and> b = (- 1, - 1) \<and> \<not> P i \<or> (\<exists>j. ?b = (int j, counts ! j) \<and> P j \<and> 0 \<le> counts ! j \<and> (j = i \<or> b = (int j, counts ! j)))"
  proof (cases "P i \<and> counts ! i > snd b")
    case True
    then have "?b = (int i, counts ! i)" by (cases b) simp
    then show ?thesis using True p(1) by auto
  next
    case False
    then have e: "?b = b" by (cases b) auto
    show ?thesis using Cons.prems(1) False p(1) unfolding e by auto
  qed
  then have "?b = (- 1, - 1) \<or> (\<exists>j. ?b = (int j, counts ! j) \<and> P j \<and> 0 \<le> counts ! j)" by blast
  from Cons.IH [OF this p(2)] b show ?case by auto
qed auto

lemma most_frequent_spec:
  fixes cc :: bool
  assumes C: "wf_cube C" and w: "exp_wf C st"
  shows "if elems (FREESET st) = {} then most_frequent C cc st = - 1
    else \<exists>i. most_frequent C cc st = int i \<and> i \<in> elems (FREESET st) \<and> i < cube_size C"
proof -
  have f: "is_cover C (CC st)" "is_cube C (FREESET st)" using w by (simp_all add: exp_wf_def)
  define counts where "counts = (if cc then fold (\<lambda>p counts. set_adjcnt p counts 1) (active_sets (CC st)) (replicate (cube_size C) 0) else replicate (cube_size C) (0 :: int))"
  have "\<forall>p\<in>set (active_sets (CC st)). elems p \<subseteq> {..<length (replicate (cube_size C) (0 :: int))}"
    using wf_familyD(3) [OF f(1)] wf_elem_less by (fastforce simp: set_active)
  from adjcnt_nonneg [OF this] have c: "\<forall>i\<in>set [0..<cube_size C]. 0 \<le> counts ! i" by (simp add: counts_def)
  have m: "most_frequent C cc st = fst (fold (\<lambda>i (best_part, best_count).
      if is_in_set (FREESET st) i \<and> counts ! i > best_count then (int i, counts ! i) else (best_part, best_count)) [0..<cube_size C] (- 1, - 1))"
    unfolding most_frequent_def Let_def counts_def [symmetric] ..
  have P: "is_in_set (FREESET st) i \<longleftrightarrow> i \<in> elems (FREESET st)" if "i < cube_size C" for i
    using wf_is_in_set_less [OF f(2) that] .
  note b = best_part_fold [of "(- 1, - 1)" counts "is_in_set (FREESET st)" "[0..<cube_size C]", OF _ c]
  show ?thesis
  proof (cases "elems (FREESET st) = {}")
    case True
    then show ?thesis using b P unfolding m by auto
  next
    case False
    then obtain e where "e \<in> elems (FREESET st)" by blast
    moreover from this have "e < cube_size C" by (rule wf_elem_less [OF f(2)])
    ultimately have "is_in_set (FREESET st) e" "e \<in> set [0..<cube_size C]" using P by auto
    then show ?thesis using b P False unfolding m by auto
  qed
qed

text \<open>No cube that is still active can be covered, but for those at the positions \<open>S\<close>.\<close>

definition stuck :: "cube_struct \<Rightarrow> nat set \<Rightarrow> expansion \<Rightarrow> bool" where
  "stuck C S st \<longleftrightarrow> (\<forall>i<cnt (CC st). TESTP (data (CC st) ! i) ACTIVE \<longrightarrow> i \<in> S \<or>
     (\<exists>q\<in>set (data (BB st)). nulls C (elems q \<inter> (elems (RAISE st) \<union> elems (data (CC st) ! i))) = {}))"

lemma nulls_antimono: "a \<subseteq> b \<Longrightarrow> nulls C b \<subseteq> nulls C a"
  by (auto simp: nulls_def null_var_def)

lemma evolves_stuck:
  assumes "evolves st st'" "stuck C S st"
  shows "stuck C S st'"
  unfolding stuck_def disj_imp
proof (intro allI impI)
  fix i assume i: "i < cnt (CC st')" and a: "TESTP (data (CC st') ! i) ACTIVE" and S: "i \<notin> S"
  have i': "i < cnt (CC st)" using i assms(1) by (simp add: evolves_def)
  let ?p = "data (CC st) ! i"
  have p: "elems (data (CC st') ! i) = elems ?p" "TESTP ?p ACTIVE" using assms(1) i' a by (simp_all add: evolves_def)
  then obtain q where q: "q \<in> set (data (BB st))" "nulls C (elems q \<inter> (elems (RAISE st) \<union> elems ?p)) = {}"
    using assms(2) i' S by (auto simp: stuck_def)
  have "elems q \<in> set (map elems (data (BB st')))" using assms(1) q(1) by (simp add: evolves_def)
  then obtain q' where q': "q' \<in> set (data (BB st'))" "elems q' = elems q" by auto
  have "elems q \<inter> (elems (RAISE st) \<union> elems ?p) \<subseteq> elems q' \<inter> (elems (RAISE st') \<union> elems (data (CC st') ! i))"
    using assms(1) q'(2) p(1) by (auto simp: evolves_def)
  then have "nulls C (elems q' \<inter> (elems (RAISE st') \<union> elems (data (CC st') ! i))) = {}" using nulls_antimono q(2) by blast
  then show "\<exists>q\<in>set (data (BB st')). nulls C (elems q \<inter> (elems (RAISE st') \<union> elems (data (CC st') ! i))) = {}" using q'(1) by blast
qed

lemma blocked_apart:
  assumes "blocked C m st" "0 < m" "q \<in> set (data (BB st))"
  shows "nulls C (elems q \<inter> elems (RAISE st)) \<noteq> {}"
proof (cases "TESTP q ACTIVE")
  case True
  then have "0 < card (nulls C (elems q \<inter> elems (RAISE st)))" using assms by (fastforce simp: blocked_def)
  then show ?thesis by auto
next
  case False
  then have "nulls C (elems q \<inter> over st) \<noteq> {}" using assms by (simp add: blocked_def)
  moreover have "elems q \<inter> elems (RAISE st) \<subseteq> elems q \<inter> over st" by (auto simp: over_def)
  ultimately show ?thesis using nulls_antimono by blast
qed

lemma raise_part_state:
  assumes C: "wf_cube C" and w: "exp_wf C st" and b: "blocked C 2 st" and t: "tight C st" and i: "i \<in> elems (FREESET st)"
    and f: "is_cube C f" "elems f = elems (FREESET st) - {i}"
  defines "st' \<equiv> st\<lparr>RAISE := set_insert (RAISE st) i, FREESET := f\<rparr>"
  shows "exp_wf C st'" "blocked C 1 st'" "tight C st'" "reach st \<Longrightarrow> reach st'" "evolves st st'"
proof -
  have s: "is_cube C (RAISE st)" "is_cube C (FREESET st)" "elems (RAISE st) \<inter> elems (FREESET st) = {}" using w by (simp_all add: exp_wf_def)
  have n: "i < cube_size C" by (rule wf_elem_less [OF s(2) i])
  note I = set_insert_spec [OF s(1) n]
  have e: "elems (set_insert (RAISE st) i) \<union> elems f = over st" "elems (set_insert (RAISE st) i) \<inter> elems f = {}"
    "elems (RAISE st) \<subseteq> elems (set_insert (RAISE st) i)" using I(1) f(2) s(3) i by (auto simp: over_def)
  have q: "\<forall>q\<in>set (data (BB st)). TESTP q ACTIVE \<longrightarrow> 1 \<le> card (nulls C (elems q \<inter> elems (set_insert (RAISE st) i)))"
  proof (intro ballI impI)
    fix q assume "q \<in> set (data (BB st))" "TESTP q ACTIVE"
    then have "2 \<le> card (nulls C (elems q \<inter> elems (RAISE st)))" using b by (simp add: blocked_def)
    then show "1 \<le> card (nulls C (elems q \<inter> elems (set_insert (RAISE st) i)))"
      using raise_part_near [OF wf_cubeD(1) [OF C] finite_elems n, of "elems q" "RAISE st"] I(1) by simp
  qed
  note S = raised_state [OF w t I(2) f(1) e b q, folded st'_def]
  show "exp_wf C st'" "blocked C 1 st'" "tight C st'" "reach st \<Longrightarrow> reach st'" "evolves st st'" by (fact S)+
qed

lemma cover_loop_spec:
  assumes C: "wf_cube C" and "exp_wf C st" "blocked C 2 st" "tight C st" "reach st" "stuck C {} st" "card (elems (FREESET st)) < k"
  shows "\<exists>st'. cover_loop k C st = Inr st' \<and> exp_wf C st' \<and> blocked C 2 st' \<and> tight C st' \<and> evolves st st'
    \<and> (\<forall>p\<in>set (data (CC st')). \<not> TESTP p ACTIVE)"
  using assms(2-)
proof (induction k arbitrary: st)
  case (Suc k)
  note w = Suc.prems(1)
  have cn: "counted (CC st)" using w by (simp add: exp_wf_def)
  show ?case
  proof (cases "active_count (CC st) > 0")
    case False
    then have "\<forall>p\<in>set (data (CC st)). \<not> TESTP p ACTIVE" using counted_none [OF cn] by blast
    then show ?thesis using False Suc.prems by (intro exI [of _ st]) simp
  next
    case True
    then obtain p where p: "p \<in> set (data (CC st))" "TESTP p ACTIVE" using counted_none [OF cn] by blast
    have "elems (FREESET st) \<noteq> {}"
    proof
      assume "elems (FREESET st) = {}"
      then have "elems p \<subseteq> elems (RAISE st)" using Suc.prems(4) p by (auto simp: reach_def over_def)
      moreover obtain q where "q \<in> set (data (BB st))" "nulls C (elems q \<inter> (elems (RAISE st) \<union> elems p)) = {}"
        using Suc.prems(5) p by (auto simp: stuck_def in_set_conv_nth)
      ultimately show False using blocked_apart [OF Suc.prems(2)] by (simp add: sup.absorb1)
    qed
    then obtain i where i: "most_frequent C True st = int i" "i \<in> elems (FREESET st)" "i < cube_size C"
      using most_frequent_spec [OF C w, of True] by auto
    have f: "is_cube C (FREESET st)" using w by (simp add: exp_wf_def)
    note R = set_remove_spec [OF f i(3)]
    note S = raise_part_state [OF C w Suc.prems(2,3) i(2) R(2,1)]
    let ?st = "st\<lparr>RAISE := set_insert (RAISE st) i, FREESET := set_remove (FREESET st) i\<rparr>"
    obtain st1 where E: "essen_parts C True ?st = Inr st1" "exp_wf C st1" "blocked C 2 st1" "tight C st1" "evolves ?st st1" "reach st1"
      "elems (FREESET st1) \<subseteq> elems (FREESET ?st)"
      using essen_parts_spec [OF C S(1-3), of True] S(4) [OF Suc.prems(4)] by auto
    have ev: "evolves st st1" by (rule evolves_trans [OF S(5) E(5)])
    have "elems (FREESET st1) \<subset> elems (FREESET st)" using E(7) R(1) i(2) by auto
    from psubset_card_mono [OF finite_elems this] have "card (elems (FREESET st1)) < k" using Suc.prems(6) by linarith
    from Suc.IH [OF E(2-4,6) evolves_stuck [OF ev Suc.prems(5)] this] obtain st' where
      T: "cover_loop k C st1 = Inr st'" "exp_wf C st'" "blocked C 2 st'" "tight C st'" "evolves st1 st'" "\<forall>p\<in>set (data (CC st')). \<not> TESTP p ACTIVE" by blast
    have "cover_loop (Suc k) C st = Inr st'" using True i(1) E(1) T(1) by simp
    then show ?thesis using T(2-4,6) evolves_trans [OF ev T(5)] by blast
  qed
qed simp

section \<open>The minimum cover of the blocking sets\<close>

lemma blocking_sets_spec:
  assumes C: "wf_cube C" and w: "exp_wf C st"
  shows "is_cover C (blocking_sets C mem st)"
    "map elems (data (blocking_sets C mem st)) = map (\<lambda>q. elems q \<inter> null_parts C (elems q \<inter> elems (RAISE st))) (active_sets (BB st))"
proof -
  have f: "is_cover C (BB st)" "is_cube C (RAISE st)" "counted (BB st)" using w by (simp_all add: exp_wf_def)
  let ?f = "fold (\<lambda>p B. sf_push B (force_lower C (set_copy (sf_fresh mem B) (emptyset C)) p (RAISE st)))"
  have "is_cover C (?f ps B) \<and> map elems (data (?f ps B)) = map elems (data B) @ map (\<lambda>q. elems q \<inter> null_parts C (elems q \<inter> elems (RAISE st))) ps"
    if "\<forall>p\<in>set ps. is_cube C p" "is_cover C B" "cnt B + length ps \<le> capacity B" for ps B
    using that
  proof (induction ps arbitrary: B)
    case (Cons p ps)
    have p: "is_cube C p" "\<forall>p\<in>set ps. is_cube C p" using Cons.prems(1) by simp_all
    have e: "set_copy (sf_fresh mem B) (emptyset C) = emptyset C"
      by (rule set_copy_eq [OF wf_cubeD(5) [OF C]]) (simp add: wf_familyD(2) [OF Cons.prems(2)])
    note L = force_lower_spec [OF C p(1) f(2) wf_cubeD(5) [OF C]]
    have B: "is_cover C (sf_push B (force_lower C (emptyset C) p (RAISE st)))"
      by (rule wf_sf_push [OF Cons.prems(2) L(1)]) (use Cons.prems(3) in simp)
    show ?case using Cons.IH [OF p(2) B] Cons.prems(3) L(3) wf_cubeD(6) [OF C] by (simp add: e)
  qed simp
  note F = this
  have ps: "\<forall>p\<in>set (active_sets (BB st)). is_cube C p" using wf_familyD(3) [OF f(1)] by (simp add: set_active)
  have "is_cover C (new_cover C (nat (active_count (BB st))))" by simp
  from F [OF ps this] show "is_cover C (blocking_sets C mem st)"
    "map elems (data (blocking_sets C mem st)) = map (\<lambda>q. elems q \<inter> null_parts C (elems q \<inter> elems (RAISE st))) (active_sets (BB st))"
    using f(3) by (simp_all add: blocking_sets_def counted_def new_cover_def)
qed

lemma expansion_size_spec:
  assumes C: "wf_cube C" and p: "is_cube C p" and "\<forall>v\<in>set vs. v < num_vars C" "0 < e" "e \<le> 500"
  shows "expansion_size C p vs e = (if e * blowup C p vs \<le> 500 then Some (e * blowup C p vs) else None)"
  using assms(3-5)
proof (induction vs arbitrary: e)
  case (Cons v vs)
  let ?s = "card (elems p \<inter> vparts C v)"
  have v: "v < num_vars C" "\<forall>v\<in>set vs. v < num_vars C" using Cons.prems(1) by simp_all
  note d = dist_mask [OF C p v(1)]
  show ?case
  proof (cases "?s < 2")
    case True
    then have "blowup C p (v # vs) = blowup C p vs" by (simp add: blowup_def)
    then show ?thesis using Cons.IH [OF v(2) Cons.prems(2,3)] True d by simp
  next
    case False
    then have b: "blowup C p (v # vs) = ?s * blowup C p vs" by (simp add: blowup_def Let_def)
    show ?thesis
    proof (cases "e * ?s > 500")
      case True
      have "1 \<le> blowup C p vs" using blowup_pos [of C p vs] by simp
      then have "e * ?s * 1 \<le> e * ?s * blowup C p vs" by (rule mult_le_mono2)
      then have "\<not> e * (?s * blowup C p vs) \<le> 500" using True by (simp only: mult.assoc)
      then show ?thesis using True False d unfolding b by simp
    next
      case low: False
      have "0 < e * ?s" using Cons.prems(2) False by simp
      then show ?thesis using Cons.IH [OF v(2), of "e * ?s"] low False d unfolding b by (simp add: mult.assoc)
    qed
  qed
qed (simp add: blowup_def)

lemma count_sets_spec:
  assumes C: "wf_cube C" and "\<forall>p\<in>set ps. is_cube C p" "count_sets C ps t = Some n" "t \<le> 500"
  shows "(\<forall>p\<in>set ps. blowup C p (mv_vars C) \<le> 500) \<and> t + (\<Sum>p\<leftarrow>ps. blowup C p (mv_vars C)) \<le> 500"
  using assms(2-)
proof (induction ps arbitrary: t)
  case (Cons p ps)
  have p: "is_cube C p" "\<forall>p\<in>set ps. is_cube C p" using Cons.prems(1) by simp_all
  have "\<forall>v\<in>set (mv_vars C). v < num_vars C" by (simp add: mv_vars_def)
  note E = expansion_size_spec [OF C p(1) this, of 1]
  have e: "blowup C p (mv_vars C) \<le> 500" "t + blowup C p (mv_vars C) \<le> 500" "count_sets C ps (t + blowup C p (mv_vars C)) = Some n"
    using Cons.prems(2) E by (auto split: if_splits)
  then show ?case using Cons.IH [OF p(2) e(3) e(2)] by simp
qed simp

text \<open>
  A set \<open>x\<close> that meets the single parts of what \<open>q\<close> blocks keeps \<open>q\<close> apart: the cube may take every other free part.
  The cube must not be null, for in a binary variable without a part both parts of \<open>q\<close> would be blocked together.
\<close>

lemma cover_blocks:
  assumes C: "wf_cube C" and r: "nulls C r = {}" and q: "nulls C (q \<inter> r) \<noteq> {}"
    and x: "\<forall>s\<in>single_parts C (q \<inter> null_parts C (q \<inter> r)) (num_binary_vars C) (num_vars C). s \<noteq> {} \<longrightarrow> s \<inter> x \<noteq> {}"
  shows "nulls C (q \<inter> (r \<union> (f - x))) \<noteq> {}"
proof
  assume n: "nulls C (q \<inter> (r \<union> (f - x))) = {}"
  let ?N = "nulls C (q \<inter> r)" and ?L = "q \<inter> null_parts C (q \<inter> r)"
  let ?V = "open_vars C ?L [num_binary_vars C..<num_vars C]"
  have wl: "wf_layout C" by (rule wf_cubeD(1) [OF C])
  have N: "v < num_vars C" if "v \<in> ?N" for v using that by (simp add: nulls_def)
  have Lin: "?L \<inter> vparts C v = q \<inter> vparts C v" if "v \<in> ?N" for v using that by (auto simp: null_parts_def)
  have Lout: "?L \<inter> vparts C v = {}" if "v < num_vars C" "v \<notin> ?N" for v
  proof -
    have "e \<notin> vparts C v" if "e \<in> null_parts C (q \<inter> r)" for e
      using that vparts_disjoint [OF wl N \<open>v < num_vars C\<close>] \<open>v \<notin> ?N\<close> by (auto simp: null_parts_def)
    then show ?thesis by blast
  qed
  have "\<exists>e. e \<in> q \<inter> (f - x) \<inter> vparts C v" if "v \<in> ?N" for v
  proof -
    have "q \<inter> r \<inter> vparts C v = {}" using that by (simp add: nulls_def null_var_def)
    moreover have "q \<inter> (r \<union> (f - x)) \<inter> vparts C v \<noteq> {}" using n N [OF that] by (auto simp: nulls_def null_var_def)
    ultimately show ?thesis by blast
  qed
  then have "\<exists>e. \<forall>v\<in>?N. e v \<in> q \<inter> (f - x) \<inter> vparts C v" by (intro bchoice ballI)
  then obtain e where e: "\<And>v. v \<in> ?N \<Longrightarrow> e v \<in> q \<inter> (f - x) \<inter> vparts C v" by (elim exE) (blast dest: bspec)
  have V: "?V \<subseteq> ?N"
  proof
    fix v assume "v \<in> ?V"
    then have "v < num_vars C" "?L \<inter> vparts C v \<noteq> {}" by (auto simp: open_vars_def)
    then show "v \<in> ?N" using Lout by blast
  qed
  let ?s = "?L \<inter> (\<Union>v\<in>{..<num_vars C} - ?V. vparts C v) \<union> e ` ?V"
  have "\<forall>v\<in>?V. e v \<in> ?L \<inter> vparts C v" using V e Lin by blast
  then have s: "?s \<in> single_parts C ?L (num_binary_vars C) (num_vars C)" unfolding single_parts_def choices_def by blast
  obtain v where v: "v \<in> ?N" using q by blast
  have "?s \<noteq> {}"
  proof (cases "v \<in> ?V")
    case False
    then have "e v \<in> ?s" using e [OF v] Lin [OF v] N [OF v] by blast
    then show ?thesis by blast
  qed blast
  then have "?s \<inter> x \<noteq> {}" using bspec [OF x s] by (rule rev_mp)
  then obtain y where y: "y \<in> ?s" "y \<in> x" unfolding ex_in_conv [symmetric] by (elim exE IntE)
  have "y \<notin> e ` ?V"
  proof
    assume "y \<in> e ` ?V"
    then obtain u where "u \<in> ?V" "y = e u" by (rule imageE)
    then show False using y(2) e [of u] V by blast
  qed
  then have "y \<in> ?L \<inter> (\<Union>v\<in>{..<num_vars C} - ?V. vparts C v)" using y(1) by (elim UnE) simp_all
  then obtain u where u: "u < num_vars C" "u \<notin> ?V" "y \<in> ?L \<inter> vparts C u" by (elim IntE UN_E DiffE) simp
  have uN: "u \<in> ?N" using Lout [OF u(1)] u(3) by blast
  have "card (?L \<inter> vparts C u) \<le> 1"
  proof (cases "u < num_binary_vars C")
    case True
    obtain a where a: "a \<in> r" "a \<in> vparts C u" using r u(1) by (auto simp: nulls_def null_var_def)
    then have "a \<notin> q" using uN by (auto simp: nulls_def null_var_def)
    then have "?L \<inter> vparts C u \<subseteq> vparts C u - {a}" by blast
    then have "card (?L \<inter> vparts C u) \<le> card (vparts C u - {a})" by (intro card_mono) auto
    also have "\<dots> = 1" using a(2) card_vparts [of C u] wf_layoutD(7) [OF wl True] by simp
    finally show ?thesis .
  next
    case False
    then show ?thesis using u(1,2) by (simp add: open_vars_def)
  qed
  moreover have "finite (?L \<inter> vparts C u)" "e u \<in> ?L \<inter> vparts C u" using e [OF uN] Lin [OF uN] by auto
  ultimately have "y = e u" using u(3) card_le_Suc0_iff_eq [of "?L \<inter> vparts C u"] unfolding One_nat_def by simp
  then show False using e [OF uN] y(2) by blast
qed

text \<open>The cube with all its free parts is apart from the whole off-set.\<close>

definition expanded :: "cube_struct \<Rightarrow> expansion \<Rightarrow> bool" where
  "expanded C st \<longleftrightarrow> is_cover C (BB st) \<and> is_cover C (CC st) \<and> is_cube C (RAISE st) \<and> is_cube C (FREESET st)
     \<and> (\<forall>q\<in>set (data (BB st)). nulls C (elems q \<inter> over st) \<noteq> {})"

lemma mincov_exact:
  assumes C: "wf_cube C" and fo: "positive_values fo" and w: "exp_wf C st" and b: "blocked C 2 st" and n: "nulls C (elems (RAISE st)) = {}"
    and c: "count_sets C (data (blocking_sets C mem st)) 0 = Some nset"
  shows "\<exists>st'. mincov fo C mem st = Inr st' \<and> expanded C st' \<and> evolves st st' \<and> CC st' = CC st \<and> active_count (BB st') = 0"
proof -
  have f: "is_cover C (BB st)" "is_cover C (CC st)" "is_cube C (RAISE st)" "is_cube C (FREESET st)" using w by (simp_all add: exp_wf_def)
  let ?B = "blocking_sets C mem st"
  note B = blocking_sets_spec [OF C w, of mem]
  have ps: "\<forall>p\<in>set (data ?B). is_cube C p" using wf_familyD(3) [OF B(1)] by blast
  note c' = count_sets_spec [OF C ps c]
  have nv: "num_binary_vars C \<le> num_vars C" by (rule wf_layoutD(2) [OF wf_cubeD(1) [OF C]])
  have "(\<forall>p\<in>set (data ?B). blowup C p [num_binary_vars C..<num_vars C] \<le> 1000000)
      \<and> (\<Sum>p\<leftarrow>data ?B. blowup C p [num_binary_vars C..<num_vars C]) \<le> 2147483647" using c' by (force simp: mv_vars_def)
  from unravel_range_spec [OF C B(1) nv order_refl, of mem, unfolded if_P [OF this]] obtain B1 where
    B1: "unravel C mem ?B (num_binary_vars C) = Inr B1" "is_cover C B1"
      "elems ` set (data B1) = (\<Union>p\<in>set (data ?B). single_parts C (elems p) (num_binary_vars C) (num_vars C))"
    by (auto simp: unravel_def)
  obtain x where x: "do_sm_minimum_cover fo B1 = Inr x" "is_cube C x" "\<forall>p\<in>set (data B1). elems p \<noteq> {} \<longrightarrow> elems p \<inter> elems x \<noteq> {}"
    using do_sm_minimum_cover_spec [OF B1(2) fo wf_layoutD(3) [OF wf_cubeD(1) [OF C]]] by blast
  define y where "y = set_diff (new_cube C) (FREESET st) x"
  have y: "is_cube C y" "elems y = elems (FREESET st) - elems x"
    using binops_wf(3) [OF f(4) x(2) new_cube_length] binops_elems(3) [OF f(4) x(2) new_cube_length] by (simp_all add: y_def)
  define r where "r = set_or (RAISE st) (RAISE st) y"
  have r: "is_cube C r" "elems r = elems (RAISE st) \<union> (elems (FREESET st) - elems x)"
    using binops_wf(2) [OF f(3) y(1) wf_length [OF f(3)]] binops_elems(2) [OF f(3) y(1) wf_length [OF f(3)]] y(2) by (simp_all add: r_def)
  have e: "set_copy (FREESET st) (emptyset C) = emptyset C" by (rule set_copy_eq [OF wf_cubeD(5) [OF C] wf_length [OF f(4)]])
  define st' where "st' = st\<lparr>RAISE := r, FREESET := emptyset C, BB := (BB st)\<lparr>active_count := 0\<rparr>\<rparr>"
  have m: "mincov fo C mem st = Inr st'" by (simp add: mincov_def Let_def c B1(1) x(1) e st'_def r_def y_def)
  have o: "over st' = elems r" "elems r \<subseteq> over st" using r(2) wf_cubeD(6) [OF C] by (auto simp: over_def st'_def)
  have ap: "nulls C (elems q \<inter> elems r) \<noteq> {}" if q: "q \<in> set (data (BB st))" for q
  proof (cases "TESTP q ACTIVE")
    case False
    then have "nulls C (elems q \<inter> over st) \<noteq> {}" using b q by (simp add: blocked_def)
    moreover have "elems q \<inter> elems r \<subseteq> elems q \<inter> over st" using o(2) by blast
    ultimately show ?thesis using nulls_antimono by blast
  next
    case True
    let ?L = "elems q \<inter> null_parts C (elems q \<inter> elems (RAISE st))"
    have "q \<in> set (active_sets (BB st))" using True q by (simp add: set_active)
    then have "?L \<in> set (map elems (data ?B))" unfolding B(2) by simp
    then obtain p where p: "p \<in> set (data ?B)" "elems p = ?L" by auto
    have "\<forall>s\<in>single_parts C ?L (num_binary_vars C) (num_vars C). s \<noteq> {} \<longrightarrow> s \<inter> elems x \<noteq> {}"
    proof
      fix s assume "s \<in> single_parts C ?L (num_binary_vars C) (num_vars C)"
      then have "s \<in> elems ` set (data B1)" unfolding B1(3) p(2) [symmetric] by (rule UN_I [OF p(1)])
      then obtain p where "p \<in> set (data B1)" "s = elems p" by (elim imageE)
      then show "s \<noteq> {} \<longrightarrow> s \<inter> elems x \<noteq> {}" using bspec [OF x(3)] by simp
    qed
    from cover_blocks [OF C n blocked_apart [OF b _ q] this] show ?thesis unfolding r(2) by simp
  qed
  have "expanded C st'" unfolding expanded_def o(1) using ap f(1,2) r(1) wf_cubeD(5) [OF C]
    by (simp add: st'_def wf_family_def)
  moreover have "evolves st st'" using o r(2) by (auto simp: evolves_def st'_def)
  ultimately show ?thesis using m by (intro exI [of _ st']) (simp add: st'_def)
qed

lemma mincov_heuristic:
  assumes C: "wf_cube C" and w: "exp_wf C st" and b: "blocked C 2 st" and t: "tight C st" and a: "active_count (BB st) > 0"
    and c: "count_sets C (data (blocking_sets C mem st)) 0 = None"
  shows "\<exists>st'. mincov fo C mem st = Inr st' \<and> exp_wf C st' \<and> blocked C 2 st' \<and> tight C st' \<and> evolves st st' \<and> CC st' = CC st
    \<and> card (elems (FREESET st')) < card (elems (FREESET st))"
proof -
  have f: "is_cube C (RAISE st)" "is_cube C (FREESET st)" "counted (BB st)" "elems (RAISE st) \<inter> elems (FREESET st) = {}"
    using w by (simp_all add: exp_wf_def)
  obtain q where q: "q \<in> set (data (BB st))" "TESTP q ACTIVE" using counted_none [OF f(3)] a by blast
  have "elems (FREESET st) \<noteq> {}"
  proof
    assume "elems (FREESET st) = {}"
    then have "nulls C (elems q \<inter> elems (RAISE st)) = {}" using t q by (auto simp: tight_def over_def)
    then show False using blocked_apart [OF b _ q(1)] by simp
  qed
  then obtain i where i: "most_frequent C False st = int i" "i \<in> elems (FREESET st)" "i < cube_size C"
    using most_frequent_spec [OF C w, of False] by auto
  note I = set_insert_spec [OF f(1) i(3)]
  define fr where "fr = set_diff (FREESET st) (FREESET st) (set_insert (RAISE st) i)"
  have fr: "is_cube C fr" "elems fr = elems (FREESET st) - {i}"
    using binops_wf(3) [OF f(2) I(2) wf_length [OF f(2)]] binops_elems(3) [OF f(2) I(2) wf_length [OF f(2)]] I(1) f(4)
    by (auto simp: fr_def)
  note S = raise_part_state [OF C w b t i(2) fr]
  let ?st = "st\<lparr>RAISE := set_insert (RAISE st) i, FREESET := fr\<rparr>"
  obtain st1 where E: "essen_parts C False ?st = Inr st1" "exp_wf C st1" "blocked C 2 st1" "tight C st1" "evolves ?st st1"
      "elems (FREESET st1) \<subseteq> elems (FREESET ?st)" "CC st1 = CC ?st"
    using essen_parts_spec [OF C S(1-3), of False] by auto
  have "elems (FREESET st1) \<subset> elems (FREESET st)" using E(6) fr(2) i(2) by auto
  from psubset_card_mono [OF finite_elems this] have "card (elems (FREESET st1)) < card (elems (FREESET st))" .
  moreover have "mincov fo C mem st = Inr st1" using E(1) by (simp add: mincov_def Let_def c i(1) fr_def)
  ultimately show ?thesis using E(2-4,7) evolves_trans [OF S(5) E(5)] by (intro exI [of _ st1]) simp
qed

lemma block_loop_spec:
  assumes C: "wf_cube C" and fo: "positive_values fo" and "exp_wf C st" "blocked C 2 st" "tight C st"
    "nulls C (elems (RAISE st)) = {}" "card (elems (FREESET st)) < k"
  shows "\<exists>st'. block_loop k fo C mem st = Inr st' \<and> expanded C st' \<and> evolves st st' \<and> CC st' = CC st"
  using assms(3-)
proof (induction k arbitrary: st)
  case (Suc k)
  note w = Suc.prems(1)
  have f: "is_cover C (BB st)" "is_cover C (CC st)" "is_cube C (RAISE st)" "is_cube C (FREESET st)" "counted (BB st)"
    using w by (simp_all add: exp_wf_def)
  show ?case
  proof (cases "active_count (BB st) > 0")
    case False
    then have "\<forall>q\<in>set (data (BB st)). \<not> TESTP q ACTIVE" using counted_none [OF f(5)] by blast
    then have "expanded C st" using Suc.prems(2) f by (simp add: expanded_def blocked_def)
    then show ?thesis using False by (intro exI [of _ st]) simp
  next
    case True
    show ?thesis
    proof (cases "count_sets C (data (blocking_sets C mem st)) 0")
      case (Some nset)
      obtain st1 where M: "mincov fo C mem st = Inr st1" "expanded C st1" "evolves st st1" "CC st1 = CC st" "active_count (BB st1) = 0"
        using mincov_exact [OF C fo w Suc.prems(2,4) Some] by blast
      have "0 < k"
      proof -
        obtain q where q: "q \<in> set (data (BB st))" "TESTP q ACTIVE" using counted_none [OF f(5)] True by blast
        have "elems (FREESET st) \<noteq> {}"
        proof
          assume "elems (FREESET st) = {}"
          then have "nulls C (elems q \<inter> elems (RAISE st)) = {}" using Suc.prems(3) q by (auto simp: tight_def over_def)
          then show False using blocked_apart [OF Suc.prems(2) _ q(1)] by simp
        qed
        then have "0 < card (elems (FREESET st))" by (simp add: card_gt_0_iff)
        then show ?thesis using Suc.prems(5) by linarith
      qed
      then obtain j where "k = Suc j" using gr0_implies_Suc by blast
      then have "block_loop (Suc k) fo C mem st = Inr st1" using True M(1,5) by simp
      then show ?thesis using M by blast
    next
      case None
      obtain st1 where M: "mincov fo C mem st = Inr st1" "exp_wf C st1" "blocked C 2 st1" "tight C st1" "evolves st st1" "CC st1 = CC st"
          "card (elems (FREESET st1)) < card (elems (FREESET st))"
        using mincov_heuristic [OF C w Suc.prems(2,3) True None] by blast
      have n: "nulls C (elems (RAISE st1)) = {}" using nulls_antimono [of "elems (RAISE st)" "elems (RAISE st1)"] M(5) Suc.prems(4)
        by (auto simp: evolves_def)
      have "card (elems (FREESET st1)) < k" using M(7) Suc.prems(5) by linarith
      from Suc.IH [OF M(2-4) n this] obtain st' where "block_loop k fo C mem st1 = Inr st'" "expanded C st'" "evolves st1 st'" "CC st' = CC st1"
        by blast
      then show ?thesis using True M(1,6) evolves_trans [OF M(5)] by (intro exI [of _ st']) simp
    qed
  qed
qed simp

section \<open>Covering other cubes\<close>

lemma feasible_loop_spec:
  assumes C: "wf_cube C" and "\<forall>q\<in>set ps. is_cube C q" and r: "is_cube C r" and "is_cube C x" "elems x \<inter> elems r = {}"
  shows "is_cube C (snd (feasible_loop C r ps x))" "elems (snd (feasible_loop C r ps x)) \<inter> elems r = {}"
    "fst (feasible_loop C r ps x) \<longleftrightarrow> (\<forall>q\<in>set ps. nulls C (elems q \<inter> elems r) \<noteq> {})"
proof -
  have "is_cube C (snd (feasible_loop C r ps x)) \<and> elems (snd (feasible_loop C r ps x)) \<inter> elems r = {}
    \<and> (fst (feasible_loop C r ps x) \<longleftrightarrow> (\<forall>q\<in>set ps. nulls C (elems q \<inter> elems r) \<noteq> {}))"
    using assms(2,4,5)
  proof (induction ps arbitrary: x)
    case (Cons q ps)
    have q: "is_cube C q" "\<forall>q\<in>set ps. is_cube C q" using Cons.prems(1) by simp_all
    note d = dist01_cases(2) [OF C q(1) r]
    note L = force_lower_spec [OF C q(1) r Cons.prems(2)]
    have "elems q \<inter> null_parts C (elems q \<inter> elems r) \<inter> elems r = {}" by (auto simp: null_parts_def nulls_def null_var_def)
    then have "elems (force_lower C x q r) \<inter> elems r = {}" using L(3) Cons.prems(3) by blast
    note IH = Cons.IH [OF q(2) L(1) this] Cons.IH [OF q(2) Cons.prems(2,3)]
    consider (z) "cdist01 C q r = 0" | (o) "cdist01 C q r = Suc 0" | (m) n where "cdist01 C q r = Suc (Suc n)" by (metis nat.exhaust)
    then show ?case
    proof cases
      case z
      then show ?thesis using d Cons.prems by simp
    next
      case o
      then have "nulls C (elems q \<inter> elems r) \<noteq> {}" using d by simp
      then show ?thesis using IH(1) o by simp
    next
      case m
      then have "nulls C (elems q \<inter> elems r) \<noteq> {}" using d by simp
      then show ?thesis using IH(2) m by simp
    qed
  qed simp
  then show "is_cube C (snd (feasible_loop C r ps x))" "elems (snd (feasible_loop C r ps x)) \<inter> elems r = {}"
    "fst (feasible_loop C r ps x) \<longleftrightarrow> (\<forall>q\<in>set ps. nulls C (elems q \<inter> elems r) \<noteq> {})" by blast+
qed

lemma feasibly_covered_spec:
  assumes C: "wf_cube C" and B: "is_cover C B" and c: "is_cube C c" and r: "is_cube C r"
  shows "is_cube C (snd (feasibly_covered C B c r))" "elems (snd (feasibly_covered C B c r)) \<inter> elems c = {}"
    "fst (feasibly_covered C B c r) \<longleftrightarrow> (\<forall>q\<in>set (active_sets B). nulls C (elems q \<inter> (elems r \<union> elems c)) \<noteq> {})"
proof -
  have e0: "set_copy (new_cube C) (emptyset C) = emptyset C" by (rule set_copy_eq [OF wf_cubeD(5) [OF C]]) simp
  note u = binops_wf(2) [OF r c new_cube_length] binops_elems(2) [OF r c new_cube_length]
  have ps: "\<forall>p\<in>set (active_sets B). is_cube C p" using wf_familyD(3) [OF B] by (simp add: set_active)
  have "elems (emptyset C) \<inter> elems (set_or (new_cube C) r c) = {}" using wf_cubeD(6) [OF C] by simp
  note L = feasible_loop_spec [OF C ps u(1) wf_cubeD(5) [OF C] this]
  show "is_cube C (snd (feasibly_covered C B c r))" "elems (snd (feasibly_covered C B c r)) \<inter> elems c = {}"
    "fst (feasibly_covered C B c r) \<longleftrightarrow> (\<forall>q\<in>set (active_sets B). nulls C (elems q \<inter> (elems r \<union> elems c)) \<noteq> {})"
    using L u(2) by (auto simp: feasibly_covered_def e0)
qed

text \<open>A cube found to be covered.\<close>

lemma cover_state:
  fixes k :: nat
  assumes w: "exp_wf C st" and i: "i < cnt (CC st)" and p: "TESTP (data (CC st) ! i) ACTIVE" "elems (data (CC st) ! i) \<subseteq> elems (RAISE st)"
  defines "st' \<equiv> st\<lparr>num_covered := k, SUPER_CUBE := set_or (SUPER_CUBE st) (SUPER_CUBE st) (data (CC st) ! i),
    CC := (CC st)\<lparr>active_count := active_count (CC st) - 1, data := (data (CC st))[i := SET (RESET (data (CC st) ! i) ACTIVE) COVERED]\<rparr>\<rparr>"
  shows "exp_wf C st'" "evolves st st'" "cnt (CC st') = cnt (CC st)"
    "j < cnt (CC st) \<Longrightarrow> TESTP (data (CC st') ! j) ACTIVE \<longleftrightarrow> TESTP (data (CC st) ! j) ACTIVE \<and> j \<noteq> i"
    "j < cnt (CC st) \<Longrightarrow> elems (data (CC st') ! j) = elems (data (CC st) ! j)"
proof -
  have f: "is_cover C (CC st)" "is_cube C (SUPER_CUBE st)" "counted (CC st)" using w by (simp_all add: exp_wf_def)
  let ?p = "data (CC st) ! i" and ?D = "data (CC st)"
  let ?p' = "SET (RESET ?p ACTIVE) COVERED"
  have p': "is_cube C ?p" "?p \<noteq> []" using wf_familyD(5) [OF f(1) i] wf_nonempty by blast+
  then have ne: "RESET ?p ACTIVE \<noteq> []" using length_RESET [of ?p ACTIVE] by (metis list.size(3) length_0_conv)
  have t: "\<not> TESTP ?p' ACTIVE" "TESTP ?p' PRIME \<longleftrightarrow> TESTP ?p PRIME" "TESTP ?p' COVERED" "elems ?p' = elems ?p" "is_cube C ?p'"
    using p' ne by (simp_all add: flag_tests)
  show C1: "cnt (CC st') = cnt (CC st)" by (simp add: st'_def)
  have nth: "data (CC st') ! j = (if i = j then ?p' else ?D ! j)" for j using i by (simp add: st'_def nth_list_update)
  show A: "TESTP (data (CC st') ! j) ACTIVE \<longleftrightarrow> TESTP (data (CC st) ! j) ACTIVE \<and> j \<noteq> i"
    "elems (data (CC st') ! j) = elems (data (CC st) ! j)" if "j < cnt (CC st)" for j
    using that t unfolding nth by auto
  have cov: "is_cover C (CC st')" using f(1) t(5) set_update_subset_insert [of ?D i ?p'] by (fastforce simp: wf_family_def st'_def)
  have "length (filter (\<lambda>p. TESTP p ACTIVE) (?D[i := ?p'])) = length (filter (\<lambda>p. TESTP p ACTIVE) ?D) - 1"
    and "0 < length (filter (\<lambda>p. TESTP p ACTIVE) ?D)"
  proof -
    have d: "?D = take i ?D @ ?p # drop (Suc i) ?D" by (rule id_take_nth_drop [OF i])
    have u: "?D[i := ?p'] = take i ?D @ ?p' # drop (Suc i) ?D" by (rule upd_conv_take_nth_drop [OF i])
    show "length (filter (\<lambda>p. TESTP p ACTIVE) (?D[i := ?p'])) = length (filter (\<lambda>p. TESTP p ACTIVE) ?D) - 1"
      unfolding u by (subst (3) d) (simp add: p(1) t(1))
    show "0 < length (filter (\<lambda>p. TESTP p ACTIVE) ?D)" by (subst d) (simp add: p(1))
  qed
  then have "counted (CC st')" using f(3) by (simp add: counted_def active_sets_def st'_def of_nat_diff Suc_le_eq)
  moreover have "is_cube C (set_or (SUPER_CUBE st) (SUPER_CUBE st) ?p)"
    using binops_wf(2) [OF f(2) p'(1) wf_length [OF f(2)]] .
  ultimately show "exp_wf C st'" using w cov by (simp add: exp_wf_def) (simp add: st'_def)
  have "TESTP (data (CC st') ! j) PRIME = TESTP (data (CC st) ! j) PRIME
    \<and> (TESTP (data (CC st') ! j) COVERED \<longrightarrow> TESTP (data (CC st) ! j) COVERED \<or> TESTP (data (CC st) ! j) ACTIVE \<and> elems (data (CC st) ! j) \<subseteq> elems (RAISE st))
    \<and> (TESTP (data (CC st) ! j) COVERED \<longrightarrow> TESTP (data (CC st') ! j) COVERED)"
    if "j < cnt (CC st)" for j using that t p unfolding nth by auto
  then show "evolves st st'" using A unfolding evolves_def C1 by (auto simp: st'_def over_def)
qed

text \<open>What one pass over the candidates leaves: the feasible ones, each with the parts that covering it would lower.\<close>

definition infeasible :: "cube_struct \<Rightarrow> expansion \<Rightarrow> nat \<Rightarrow> bool" where
  "infeasible C st i \<longleftrightarrow> (\<exists>q\<in>set (active_sets (BB st)). nulls C (elems q \<inter> (elems (RAISE st) \<union> elems (data (CC st) ! i))) = {})"

definition candidate :: "cube_struct \<Rightarrow> expansion \<Rightarrow> nat \<times> pset \<Rightarrow> bool" where
  "candidate C st c \<longleftrightarrow> \<not> elems (data (CC st) ! fst c) \<subseteq> elems (RAISE st) \<and> is_cube C (snd c)
     \<and> elems (snd c) \<inter> elems (data (CC st) ! fst c) = {} \<and> \<not> infeasible C st (fst c)"

definition passed :: "cube_struct \<Rightarrow> nat list \<Rightarrow> expansion \<Rightarrow> (nat \<times> pset) list \<Rightarrow> expansion \<Rightarrow> bool" where
  "passed C is st fs st' \<longleftrightarrow> exp_wf C st' \<and> evolves st st' \<and> BB st' = BB st \<and> RAISE st' = RAISE st \<and> FREESET st' = FREESET st
     \<and> (\<forall>c\<in>set fs. fst c \<in> set is \<and> TESTP (data (CC st') ! fst c) ACTIVE \<and> candidate C st c)
     \<and> (\<forall>i\<in>set is. TESTP (data (CC st') ! i) ACTIVE \<longrightarrow> i \<in> fst ` set fs \<or> infeasible C st i)
     \<and> (\<forall>i<cnt (CC st). TESTP (data (CC st) ! i) ACTIVE \<and> \<not> elems (data (CC st) ! i) \<subseteq> elems (RAISE st) \<longrightarrow> TESTP (data (CC st') ! i) ACTIVE)"

lemma evolves_active:
  assumes "evolves st st'" "i < cnt (CC st)" "TESTP (data (CC st') ! i) ACTIVE"
  shows "TESTP (data (CC st) ! i) ACTIVE"
  using assms unfolding evolves_def by blast

lemma passed_covered:
  assumes w: "exp_wf C st" and i: "i < cnt (CC st)" "\<forall>j\<in>set is. j < cnt (CC st)"
    and p: "TESTP (data (CC st) ! i) ACTIVE" "elems (data (CC st) ! i) \<subseteq> elems (RAISE st)"
  defines "st1 \<equiv> st\<lparr>num_covered := num_covered st + 1, SUPER_CUBE := set_or (SUPER_CUBE st) (SUPER_CUBE st) (data (CC st) ! i),
    CC := (CC st)\<lparr>active_count := active_count (CC st) - 1, data := (data (CC st))[i := SET (RESET (data (CC st) ! i) ACTIVE) COVERED]\<rparr>\<rparr>"
  assumes P: "passed C is st1 fs st'"
  shows "passed C (i # is) st fs st'"
proof -
  note S = cover_state [OF w i(1) p, where k = "num_covered st + 1", folded st1_def]
  have e: "BB st1 = BB st" "RAISE st1 = RAISE st" "FREESET st1 = FREESET st" by (simp_all add: st1_def)
  have inf: "infeasible C st1 j \<longleftrightarrow> infeasible C st j" "candidate C st1 (j, l) \<longleftrightarrow> candidate C st (j, l)" if "j < cnt (CC st)" for j l
    using S(5) [OF that] by (simp_all add: infeasible_def candidate_def e)
  have ev: "evolves st1 st'" using P by (simp add: passed_def)
  have "\<not> TESTP (data (CC st') ! i) ACTIVE" using evolves_active [OF ev, of i] S(3) S(4) [OF i(1)] i(1) by auto
  moreover have "TESTP (data (CC st') ! j) ACTIVE"
    if j: "j < cnt (CC st)" "TESTP (data (CC st) ! j) ACTIVE" "\<not> elems (data (CC st) ! j) \<subseteq> elems (RAISE st)" for j
  proof -
    have "TESTP (data (CC st1) ! j) ACTIVE" using S(4) [OF j(1)] j(2,3) p(2) by blast
    then show ?thesis using P j S(3) S(5) [OF j(1)] e(2) by (simp add: passed_def)
  qed
  moreover have "candidate C st c" if c: "c \<in> set fs" for c
    using P c inf(2) [of "fst c" "snd c"] i(2) by (auto simp: passed_def)
  ultimately show ?thesis using P evolves_trans [OF S(2) ev] inf(1) i(2) e unfolding passed_def by auto
qed

lemma feas_pass_spec:
  assumes C: "wf_cube C" and "exp_wf C st" "\<forall>i\<in>set is. i < cnt (CC st)"
  shows "\<exists>fs st'. feas_pass C is st = (fs, st') \<and> passed C is st fs st'"
  using assms(2,3)
proof (induction "is" arbitrary: st)
  case (Cons i "is")
  note w = Cons.prems(1)
  have f: "is_cover C (BB st)" "is_cover C (CC st)" "is_cube C (RAISE st)" using w by (simp_all add: exp_wf_def)
  have i: "i < cnt (CC st)" "\<forall>i\<in>set is. i < cnt (CC st)" using Cons.prems(2) by simp_all
  let ?p = "data (CC st) ! i"
  have p: "is_cube C ?p" by (rule wf_familyD(5) [OF f(2) i(1)])
  obtain fs st' where IH: "feas_pass C is st = (fs, st')" "passed C is st fs st'" using Cons.IH [OF w i(2)] by blast
  have ev: "evolves st st'" using IH(2) by (simp add: passed_def)
  note imp = setp_implies_iff [OF p f(3)]
  consider (off) "\<not> TESTP ?p ACTIVE" | (cov) "TESTP ?p ACTIVE" "elems ?p \<subseteq> elems (RAISE st)" | (test) "TESTP ?p ACTIVE" "\<not> elems ?p \<subseteq> elems (RAISE st)"
    by blast
  then show ?case
  proof cases
    case off
    then have "\<not> TESTP (data (CC st') ! i) ACTIVE" using evolves_active [OF ev i(1)] by blast
    then have "passed C (i # is) st fs st'" using IH(2) by (auto simp: passed_def)
    then show ?thesis using off IH(1) by (simp add: Let_def)
  next
    case cov
    let ?st = "st\<lparr>num_covered := num_covered st + 1, SUPER_CUBE := set_or (SUPER_CUBE st) (SUPER_CUBE st) ?p,
      CC := (CC st)\<lparr>active_count := active_count (CC st) - 1, data := (data (CC st))[i := SET (RESET ?p ACTIVE) COVERED]\<rparr>\<rparr>"
    note S = cover_state [OF w i(1) cov, where k = "num_covered st + 1"]
    have "\<forall>i\<in>set is. i < cnt (CC ?st)" using i(2) S(3) by simp
    from Cons.IH [OF S(1) this] obtain fs st' where "feas_pass C is ?st = (fs, st')" "passed C is ?st fs st'" by blast
    moreover from this passed_covered [OF w i cov] have "passed C (i # is) st fs st'" by blast
    ultimately show ?thesis using cov imp by (simp add: Let_def)
  next
    case test
    have ai: "TESTP (data (CC st') ! i) ACTIVE" using IH(2) i(1) test by (simp add: passed_def)
    note FC = feasibly_covered_spec [OF C f(1) p f(3)]
    obtain feasible low where fc: "feasibly_covered C (BB st) ?p (RAISE st) = (feasible, low)" by fastforce
    have inf: "infeasible C st i \<longleftrightarrow> \<not> feasible" using FC(3) fc by (simp add: infeasible_def)
    show ?thesis
    proof (cases feasible)
      case True
      have "candidate C st (i, low)" using test FC(1,2) fc inf True by (simp add: candidate_def)
      then have "passed C (i # is) st ((i, low) # fs) st'" using IH(2) ai by (auto simp: passed_def)
      then show ?thesis using test imp fc True IH(1) by (simp add: Let_def)
    next
      case False
      then have "passed C (i # is) st fs st'" using IH(2) inf by (auto simp: passed_def)
      then show ?thesis using test imp fc False IH(1) by (simp add: Let_def)
    qed
  qed
qed (simp add: passed_def)

text \<open>A candidate does not lower its own parts, so it counts itself and the best candidate is always set.\<close>

lemma best_feasible_spec:
  assumes "fs \<noteq> []" "\<forall>c\<in>set fs. setp_disjoint (snd c) (data (CC st) ! fst c)"
  shows "\<exists>i. best_feasible st fs = Some i \<and> i \<in> fst ` set fs"
proof -
  let ?D = "data (CC st)"
  define step where "step = (\<lambda>(i, new_lower) (bestfeas, bestcount, bestsize).
     let sz = set_dist (?D ! i) (FREESET st); count = length (filter (\<lambda>(j, _). setp_disjoint new_lower (?D ! j)) fs)
     in if count > bestcount then (Some i, count, sz)
        else if count = bestcount \<and> sz < bestsize then (Some i, bestcount, sz) else (bestfeas, bestcount, bestsize))"
  have b: "best_feasible st fs = fst (fold step fs (None, 0, 9999))" by (simp add: best_feasible_def Let_def step_def)
  have keep: "\<exists>i. fst (fold step cs (Some j, n, m)) = Some i \<and> i \<in> insert j (fst ` set cs)" for cs j n m
  proof (induction cs arbitrary: j n m)
    case (Cons c cs)
    have "\<exists>j' n' m'. step c (Some j, n, m) = (Some j', n', m') \<and> (j' = j \<or> j' = fst c)" by (cases c) (auto simp: step_def Let_def)
    then obtain j' n' m' where s: "step c (Some j, n, m) = (Some j', n', m')" "j' = j \<or> j' = fst c" by blast
    show ?case using Cons.IH [of j' n' m'] s by auto
  qed simp
  obtain c cs where fs: "fs = c # cs" using assms(1) by (cases fs) auto
  have "filter (\<lambda>(j, _). setp_disjoint (snd c) (?D ! j)) fs \<noteq> []" using assms(2) by (auto simp: fs filter_empty_conv)
  then have "\<exists>n m. step c (None, 0, 9999) = (Some (fst c), n, m)" by (cases c) (auto simp: step_def Let_def)
  then obtain n m where "step c (None, 0, 9999) = (Some (fst c), n, m)" by blast
  then show ?thesis using keep [of cs "fst c" n m] unfolding b by (simp add: fs)
qed

lemma stuck_passed:
  assumes s: "stuck C (set is) st" and P: "passed C is st fs st'" and "\<forall>i\<in>set is. i < cnt (CC st)"
  shows "stuck C (fst ` set fs) st'"
  unfolding stuck_def
proof (intro allI impI)
  fix i assume i: "i < cnt (CC st')" and a: "TESTP (data (CC st') ! i) ACTIVE"
  have ev: "evolves st st'" "BB st' = BB st" "RAISE st' = RAISE st" using P by (simp_all add: passed_def)
  have i': "i < cnt (CC st)" "elems (data (CC st') ! i) = elems (data (CC st) ! i)" using ev(1) i by (simp_all add: evolves_def)
  have "i \<in> set is \<or> (\<exists>q\<in>set (data (BB st)). nulls C (elems q \<inter> (elems (RAISE st) \<union> elems (data (CC st) ! i))) = {})"
    using s i'(1) evolves_active [OF ev(1) i'(1) a] by (simp add: stuck_def)
  moreover have "i \<in> set is \<Longrightarrow> i \<in> fst ` set fs \<or> infeasible C st i" using P a by (simp add: passed_def)
  ultimately show "i \<in> fst ` set fs \<or> (\<exists>q\<in>set (data (BB st')). nulls C (elems q \<inter> (elems (RAISE st') \<union> elems (data (CC st') ! i))) = {})"
    unfolding ev(2,3) i'(2) by (auto simp: infeasible_def set_active)
qed

lemma select_loop_spec:
  assumes C: "wf_cube C" and "exp_wf C st" "blocked C 2 st" "tight C st" "reach st" "\<forall>i\<in>set is. i < cnt (CC st)" "stuck C (set is) st"
    "card (elems (FREESET st)) < k"
  shows "\<exists>st'. select_loop k C is st = Inr st' \<and> exp_wf C st' \<and> blocked C 2 st' \<and> tight C st' \<and> reach st' \<and> stuck C {} st' \<and> evolves st st'
    \<and> elems (FREESET st') \<subseteq> elems (FREESET st)"
  using assms(2-)
proof (induction k arbitrary: st "is")
  case (Suc k)
  define st1 where "st1 = essen_raising C st"
  note R = essen_raising_spec [OF C Suc.prems(1-3), folded st1_def]
  have is1: "\<forall>i\<in>set is. i < cnt (CC st1)" using Suc.prems(5) R(6) by simp
  have s1: "stuck C (set is) st1" by (rule evolves_stuck [OF R(5) Suc.prems(6)])
  obtain fs st2 where F: "feas_pass C is st1 = (fs, st2)" "passed C is st1 fs st2" using feas_pass_spec [OF C R(1) is1] by blast
  have ev: "exp_wf C st2" "evolves st1 st2" "BB st2 = BB st1" "RAISE st2 = RAISE st1" "FREESET st2 = FREESET st1" using F(2) by (simp_all add: passed_def)
  have o: "over st2 = over st1" by (simp add: over_def ev)
  have b2: "blocked C 2 st2" "tight C st2" using R(2,3) by (simp_all add: blocked_def tight_def o ev(3,4))
  have s2: "stuck C (fst ` set fs) st2" by (rule stuck_passed [OF s1 F(2) is1])
  have n2: "cnt (CC st2) = cnt (CC st1)" using ev(2) by (simp add: evolves_def)
  have r2: "reach st2"
    unfolding reach_def all_set_conv_all_nth o
  proof (intro allI impI)
    fix i assume "i < cnt (CC st2)" "TESTP (data (CC st2) ! i) ACTIVE"
    then show "elems (data (CC st2) ! i) \<subseteq> over st1"
      using R(4) [OF Suc.prems(4)] evolves_active [OF ev(2)] ev(2) n2 by (simp add: reach_def evolves_def)
  qed
  have ev2: "evolves st st2" by (rule evolves_trans [OF R(5) ev(2)])
  show ?case
  proof (cases "fs = []")
    case True
    then have "select_loop (Suc k) C is st = Inr st2" using F(1) by (simp add: st1_def)
    then show ?thesis using ev b2 r2 s2 ev2 R(8) True by (intro exI [of _ st2]) simp
  next
    case False
    have f: "is_cube C (RAISE st2)" "is_cube C (FREESET st2)" "elems (RAISE st2) \<inter> elems (FREESET st2) = {}" "is_cover C (CC st2)" "is_cover C (BB st2)"
      using ev(1) by (simp_all add: exp_wf_def)
    have cand: "fst c \<in> set is" "fst c < cnt (CC st2)" "TESTP (data (CC st2) ! fst c) ACTIVE" "candidate C st1 c"
      "elems (data (CC st2) ! fst c) = elems (data (CC st1) ! fst c)" if "c \<in> set fs" for c
    proof -
      show c: "fst c \<in> set is" "TESTP (data (CC st2) ! fst c) ACTIVE" "candidate C st1 c" using F(2) that by (simp_all add: passed_def)
      show "fst c < cnt (CC st2)" using c(1) is1 n2 by simp
      then show "elems (data (CC st2) ! fst c) = elems (data (CC st1) ! fst c)" using ev(2) n2 by (simp add: evolves_def)
    qed
    have "\<forall>c\<in>set fs. setp_disjoint (snd c) (data (CC st2) ! fst c)"
    proof
      fix c assume c: "c \<in> set fs"
      have "is_cube C (snd c)" "elems (snd c) \<inter> elems (data (CC st2) ! fst c) = {}" using cand(4,5) [OF c] by (simp_all add: candidate_def)
      then show "setp_disjoint (snd c) (data (CC st2) ! fst c)"
        using setp_disjoint_iff [OF _ wf_familyD(5) [OF f(4) cand(2) [OF c]]] by blast
    qed
    from best_feasible_spec [OF False this] obtain c where c: "best_feasible st2 fs = Some (fst c)" "c \<in> set fs" by auto
    note i = cand [OF c(2)]
    let ?p = "data (CC st2) ! fst c"
    have p: "is_cube C ?p" by (rule wf_familyD(5) [OF f(4) i(2)])
    define r where "r = set_or (RAISE st2) (RAISE st2) ?p"
    have r: "is_cube C r" "elems r = elems (RAISE st2) \<union> elems ?p"
      using binops_wf(2) [OF f(1) p wf_length [OF f(1)]] binops_elems(2) [OF f(1) p wf_length [OF f(1)]] by (simp_all add: r_def)
    define fr where "fr = set_diff (FREESET st2) (FREESET st2) r"
    have fr: "is_cube C fr" "elems fr = elems (FREESET st2) - elems r"
      using binops_wf(3) [OF f(2) r(1) wf_length [OF f(2)]] binops_elems(3) [OF f(2) r(1) wf_length [OF f(2)]] by (simp_all add: fr_def)
    have po: "elems ?p \<subseteq> over st2" using r2 i(2,3) by (simp add: reach_def)
    then have e: "elems r \<union> elems fr = over st2" "elems r \<inter> elems fr = {}" "elems (RAISE st2) \<subseteq> elems r"
      using r(2) fr(2) by (auto simp: over_def)
    have q: "\<forall>q\<in>set (data (BB st2)). TESTP q ACTIVE \<longrightarrow> 1 \<le> card (nulls C (elems q \<inter> elems r))"
    proof (intro ballI impI)
      fix q assume "q \<in> set (data (BB st2))" "TESTP q ACTIVE"
      then have "nulls C (elems q \<inter> elems r) \<noteq> {}"
        using i(4,5) by (auto simp: candidate_def infeasible_def set_active ev(3,4) r(2))
      then show "1 \<le> card (nulls C (elems q \<inter> elems r))" by (simp add: Suc_le_eq card_gt_0_iff)
    qed
    let ?st = "st2\<lparr>RAISE := r, FREESET := fr\<rparr>"
    note S = raised_state [OF ev(1) b2(2) r(1) fr(1) e b2(1) q]
    obtain st3 where E: "essen_parts C True ?st = Inr st3" "exp_wf C st3" "blocked C 2 st3" "tight C st3" "evolves ?st st3" "reach st3"
        "elems (FREESET st3) \<subseteq> elems (FREESET ?st)"
      using essen_parts_spec [OF C S(1,5,2), of True] S(3) [OF r2] by auto
    have ev3: "evolves st2 st3" by (rule evolves_trans [OF S(4) E(5)])
    have "\<exists>x\<in>elems (FREESET st2). x \<in> elems ?p" using i(4,5) po by (auto simp: candidate_def over_def ev(4))
    then have "elems fr \<subset> elems (FREESET st2)" using fr(2) r(2) by auto
    then have sub: "elems (FREESET st3) \<subset> elems (FREESET st)" using E(7) R(8) ev(5) by auto
    from psubset_card_mono [OF finite_elems this] have "card (elems (FREESET st3)) < k" using Suc.prems(7) by linarith
    moreover have "\<forall>i\<in>set (map fst fs). i < cnt (CC st3)" using cand(2) ev3 by (auto simp: evolves_def)
    moreover have "stuck C (set (map fst fs)) st3" using evolves_stuck [OF ev3 s2] by simp
    ultimately obtain st' where T: "select_loop k C (map fst fs) st3 = Inr st'" "exp_wf C st'" "blocked C 2 st'" "tight C st'" "reach st'"
        "stuck C {} st'" "evolves st3 st'" "elems (FREESET st') \<subseteq> elems (FREESET st3)"
      using Suc.IH [OF E(2-4,6)] by blast
    have "select_loop (Suc k) C is st = Inr st'"
      using F(1) False c(1) E(1) T(1) by (simp add: st1_def [symmetric] r_def fr_def)
    then show ?thesis using T(2-6) evolves_trans [OF evolves_trans [OF ev2 ev3] T(7)] T(8) sub by (intro exI [of _ st']) auto
  qed
qed simp

lemma select_feasible_spec:
  assumes C: "wf_cube C" and "exp_wf C st" "blocked C 2 st" "tight C st" "reach st" "card (elems (FREESET st)) < k"
  shows "\<exists>st'. select_feasible k C st = Inr st' \<and> exp_wf C st' \<and> blocked C 2 st' \<and> tight C st' \<and> reach st' \<and> stuck C {} st' \<and> evolves st st'
    \<and> elems (FREESET st') \<subseteq> elems (FREESET st)"
  unfolding select_feasible_def
  by (rule select_loop_spec [OF assms(1-5) _ _ assms(6)]) (auto simp: stuck_def)

section \<open>One cube\<close>

text \<open>The state that \<^verbatim>\<open>setup_BB_CC\<close> leaves, and what \<^verbatim>\<open>expand1\<close> makes of it.\<close>

lemma counted_all:
  assumes "\<forall>p\<in>set (data A). p \<noteq> []"
  shows "counted (A\<lparr>active_count := int (cnt A), data := map (\<lambda>p. SET p ACTIVE) (data A)\<rparr>)"
    "counted (A\<lparr>active_count := int (cnt A) - int (length (filter Q (data A))),
        data := map (\<lambda>p. if Q p then RESET p ACTIVE else SET p ACTIVE) (data A)\<rparr>)"
proof -
  have "filter (\<lambda>p. TESTP p ACTIVE) (map (\<lambda>p. SET p ACTIVE) ps) = map (\<lambda>p. SET p ACTIVE) ps" if "\<forall>p\<in>set ps. p \<noteq> []" for ps
    using that by (induction ps) auto
  then show "counted (A\<lparr>active_count := int (cnt A), data := map (\<lambda>p. SET p ACTIVE) (data A)\<rparr>)"
    using assms by (simp add: counted_def active_sets_def)
  have "length (filter (\<lambda>p. TESTP p ACTIVE) (map (\<lambda>p. if Q p then RESET p ACTIVE else SET p ACTIVE) ps)) = length (filter (\<lambda>p. \<not> Q p) ps)"
    if "\<forall>p\<in>set ps. p \<noteq> []" for ps using that by (induction ps) auto
  then show "counted (A\<lparr>active_count := int (cnt A) - int (length (filter Q (data A))),
        data := map (\<lambda>p. if Q p then RESET p ACTIVE else SET p ACTIVE) (data A)\<rparr>)"
    using assms sum_length_filter_compl [of Q "data A"] by (simp add: counted_def active_sets_def)
qed

definition starts :: "cube_struct \<Rightarrow> set_family \<Rightarrow> set_family \<Rightarrow> nat \<Rightarrow> expansion \<Rightarrow> bool" where
  "starts C B F c st \<longleftrightarrow> map elems (data (BB st)) = map elems (data B) \<and> cnt (CC st) = cnt F
     \<and> (\<forall>i<cnt F. elems (data (CC st) ! i) = elems (data F ! i)
          \<and> (TESTP (data (CC st) ! i) PRIME \<longleftrightarrow> TESTP (data F ! i) PRIME \<or> i = c)
          \<and> (TESTP (data (CC st) ! i) COVERED \<longrightarrow> TESTP (data F ! i) COVERED
               \<or> \<not> TESTP (data F ! i) PRIME \<and> i \<noteq> c \<and> elems (data F ! i) \<subseteq> elems (RAISE st))
          \<and> (TESTP (data F ! i) COVERED \<longrightarrow> TESTP (data (CC st) ! i) COVERED)
          \<and> (TESTP (data (CC st) ! i) ACTIVE \<longrightarrow> \<not> TESTP (data F ! i) PRIME \<and> i \<noteq> c))"

lemma starts_evolves:
  assumes "starts C B F c st" "evolves st st'"
  shows "starts C B F c st'"
proof -
  have n: "cnt (CC st) = cnt F" using assms(1) by (simp add: starts_def)
  have r: "elems (RAISE st) \<subseteq> elems (RAISE st')" using assms(2) by (simp add: evolves_def)
  show ?thesis
    unfolding starts_def
  proof (intro conjI allI)
    show "map elems (data (BB st')) = map elems (data B)" "cnt (CC st') = cnt F" using assms by (simp_all add: evolves_def starts_def)
  next
    fix i
    show "i < cnt F \<longrightarrow> elems (data (CC st') ! i) = elems (data F ! i)
          \<and> (TESTP (data (CC st') ! i) PRIME \<longleftrightarrow> TESTP (data F ! i) PRIME \<or> i = c)
          \<and> (TESTP (data (CC st') ! i) COVERED \<longrightarrow> TESTP (data F ! i) COVERED
               \<or> \<not> TESTP (data F ! i) PRIME \<and> i \<noteq> c \<and> elems (data F ! i) \<subseteq> elems (RAISE st'))
          \<and> (TESTP (data F ! i) COVERED \<longrightarrow> TESTP (data (CC st') ! i) COVERED)
          \<and> (TESTP (data (CC st') ! i) ACTIVE \<longrightarrow> \<not> TESTP (data F ! i) PRIME \<and> i \<noteq> c)"
    proof
      assume i: "i < cnt F"
      note a = assms(1) [unfolded starts_def, THEN conjunct2, THEN conjunct2, rule_format, OF i]
      note b = assms(2) [unfolded evolves_def, THEN conjunct2, THEN conjunct2, THEN conjunct2, THEN conjunct2, rule_format, OF i [folded n]]
      show "elems (data (CC st') ! i) = elems (data F ! i)
          \<and> (TESTP (data (CC st') ! i) PRIME \<longleftrightarrow> TESTP (data F ! i) PRIME \<or> i = c)
          \<and> (TESTP (data (CC st') ! i) COVERED \<longrightarrow> TESTP (data F ! i) COVERED
               \<or> \<not> TESTP (data F ! i) PRIME \<and> i \<noteq> c \<and> elems (data F ! i) \<subseteq> elems (RAISE st'))
          \<and> (TESTP (data F ! i) COVERED \<longrightarrow> TESTP (data (CC st') ! i) COVERED)
          \<and> (TESTP (data (CC st') ! i) ACTIVE \<longrightarrow> \<not> TESTP (data F ! i) PRIME \<and> i \<noteq> c)"
        using a b r by auto
    qed
  qed
qed

lemma setup_state:
  assumes C: "wf_cube C" and B: "is_cover C B" and F: "is_cover C F" and c: "c < cnt F" and i: "is_cube C f" "elems f = {..<cube_size C} - elems (data F ! c) - low"
  defines "F1 \<equiv> F\<lparr>data := (data F)[c := SET (data F ! c) PRIME]\<rparr>"
  defines "st0 \<equiv> setup_BB_CC True \<lparr>BB = B, CC = F1, RAISE = new_cube C, FREESET = new_cube C, SUPER_CUBE = new_cube C, num_covered = 0\<rparr>"
  defines "st \<equiv> st0\<lparr>SUPER_CUBE := data (CC st0) ! c, RAISE := data (CC st0) ! c, FREESET := f\<rparr>"
  shows "exp_wf C st" "starts C B F c st" "\<forall>q\<in>set (data (BB st)). TESTP q ACTIVE" "elems (RAISE st) = elems (data F ! c)"
    "is_cube C (data (CC st0) ! c)"
proof -
  have p: "is_cube C (data F ! c)" by (rule wf_familyD(5) [OF F c])
  have F1: "is_cover C F1" "cnt F1 = cnt F"
    using F p set_update_subset_insert [of "data F" c "SET (data F ! c) PRIME"] by (fastforce simp: wf_family_def F1_def)+
  have neB: "\<forall>p\<in>set (data B). p \<noteq> []" and neF: "\<forall>p\<in>set (data F1). p \<noteq> []"
    using wf_familyD(3) [OF B] wf_familyD(3) [OF F1(1)] wf_nonempty by blast+
  let ?g = "\<lambda>p. if TESTP p COVERED \<or> TESTP p PRIME then RESET p ACTIVE else SET p ACTIVE"
  have BB: "BB st = B\<lparr>active_count := int (cnt B), data := map (\<lambda>p. SET p ACTIVE) (data B)\<rparr>"
    by (simp add: st_def st0_def setup_BB_CC_def)
  have CC: "CC st = F1\<lparr>active_count := int (cnt F1) - int (length (filter (\<lambda>p. TESTP p COVERED \<or> TESTP p PRIME) (data F1))), data := map ?g (data F1)\<rparr>"
    by (simp add: st_def st0_def setup_BB_CC_def)
  have CC0: "data (CC st0) = map ?g (data F1)" by (simp add: st0_def setup_BB_CC_def)
  have wB: "is_cover C (BB st)" using B unfolding BB by (auto simp: wf_family_def)
  have wF: "is_cover C (CC st)" using F1 unfolding CC by (auto simp: wf_family_def)
  have nth: "data (CC st) ! i = ?g (data F1 ! i)" "data F1 ! i = (if i = c then SET (data F ! i) PRIME else data F ! i)" "data F1 ! i \<noteq> []" "data F ! i \<noteq> []" if "i < cnt F" for i
    using that F1(2) neF wf_nonempty [OF wf_familyD(5) [OF F that]] by (auto simp: CC F1_def)
  have el: "elems (data (CC st) ! i) = elems (data F ! i)" if "i < cnt F" for i unfolding nth(1) [OF that] by (simp add: nth(2) [OF that])
  show sc: "is_cube C (data (CC st0) ! c)" using wf_familyD(5) [OF wF, of c] c F1(2) unfolding CC CC0 by simp
  show R: "elems (RAISE st) = elems (data F ! c)" using el [OF c] unfolding CC by (simp add: st_def CC0)
  show "\<forall>q\<in>set (data (BB st)). TESTP q ACTIVE" using neB unfolding BB by auto
  have cb: "counted (BB st)" "counted (CC st)" unfolding BB CC by (rule counted_all; fact)+
  have "elems (RAISE st) \<inter> elems (FREESET st) = {}" using R i(2) by (auto simp: st_def)
  then show "exp_wf C st" using wB wF cb i(1) sc by (simp add: exp_wf_def) (simp add: st_def)
  have "(TESTP (data (CC st) ! i) PRIME \<longleftrightarrow> TESTP (data F ! i) PRIME \<or> i = c) \<and> (TESTP (data (CC st) ! i) COVERED \<longleftrightarrow> TESTP (data F ! i) COVERED)
    \<and> (TESTP (data (CC st) ! i) ACTIVE \<longrightarrow> \<not> TESTP (data F ! i) PRIME \<and> i \<noteq> c)" if "i < cnt F" for i
    unfolding nth(1) [OF that] using nth(2-4) [OF that] by (auto simp: flag_tests)
  then show "starts C B F c st" using el F1(2) unfolding starts_def by (simp add: BB) (simp add: CC)
qed

lemma expand_start_spec:
  assumes C: "wf_cube C" and B: "is_cover C B" and F: "is_cover C F" and c: "c < cnt F" and I: "is_cube C INIT_LOWER"
    and q: "\<forall>q\<in>set (data B). nulls C (elems q) = {}" "\<forall>q\<in>set (data B). m \<le> card (nulls C (elems q \<inter> elems (data F ! c)))"
  shows "exp_wf C (expand_start C B F INIT_LOWER c)" "blocked C m (expand_start C B F INIT_LOWER c)"
    "tight C (expand_start C B F INIT_LOWER c)" "reach (expand_start C B F INIT_LOWER c)" "starts C B F c (expand_start C B F INIT_LOWER c)"
    "elems (RAISE (expand_start C B F INIT_LOWER c)) = elems (data F ! c)"
    "over (expand_start C B F INIT_LOWER c) \<inter> elems INIT_LOWER \<subseteq> elems (data F ! c)"
proof -
  define st0 where "st0 = setup_BB_CC True \<lparr>BB = B, CC = F\<lparr>data := (data F)[c := SET (data F ! c) PRIME]\<rparr>,
    RAISE = new_cube C, FREESET = new_cube C, SUPER_CUBE = new_cube C, num_covered = 0\<rparr>"
  let ?p = "data (CC st0) ! c"
  have n: "RAISE st0 = new_cube C" "FREESET st0 = new_cube C" "SUPER_CUBE st0 = new_cube C" by (simp_all add: st0_def setup_BB_CC_def)
  define f0 where "f0 = set_diff (new_cube C) (fullset C) ?p"
  define f where "f = (if setp_empty INIT_LOWER then f0 else set_diff f0 f0 INIT_LOWER)"
  define st where "st = st0\<lparr>SUPER_CUBE := ?p, RAISE := ?p, FREESET := f\<rparr>"
  have nc: "is_cube C (new_cube C)" using set_new_spec(1) [OF wf_layoutD(3) [OF wf_cubeD(1) [OF C]]] by (simp add: new_cube_def)
  have "elems (new_cube C) = {..<cube_size C} - elems (data F ! c) - {..<cube_size C}"
    using set_new_spec(2) [OF wf_layoutD(3) [OF wf_cubeD(1) [OF C]]] by (auto simp: new_cube_def)
  note P = setup_state(4,5) [OF C B F c nc this, folded st0_def]
  have p: "is_cube C ?p" "elems ?p = elems (data F ! c)" using P by simp_all
  have cp: "set_copy (new_cube C) ?p = ?p" by (rule set_copy_eq [OF p(1)]) simp
  have f0: "is_cube C f0" "elems f0 = {..<cube_size C} - elems (data F ! c)"
    using binops_wf(3) [OF wf_cubeD(3) [OF C] p(1) new_cube_length] binops_elems(3) [OF wf_cubeD(3) [OF C] p(1) new_cube_length]
      wf_cubeD(4) [OF C] p(2) by (simp_all add: f0_def)
  have f: "is_cube C f" "elems f = {..<cube_size C} - elems (data F ! c) - elems INIT_LOWER"
    using binops_wf(3) [OF f0(1) I wf_length [OF f0(1)]] binops_elems(3) [OF f0(1) I wf_length [OF f0(1)]] setp_empty_iff [OF I] f0
    by (auto simp: f_def)
  note S = setup_state [OF C B F c f, folded st0_def, folded st_def]
  have o: "over st = {..<cube_size C} - (elems INIT_LOWER - elems (data F ! c))"
    using S(4) f(2) wf_elem_less [OF wf_familyD(5) [OF F c]] by (auto simp: over_def st_def)
  have b: "blocked C m st"
    unfolding blocked_def
  proof (intro ballI)
    fix s assume s: "s \<in> set (data (BB st))"
    then have "elems s \<in> set (map elems (data B))" using S(2) unfolding starts_def by (metis imageI set_map)
    then obtain t where "t \<in> set (data B)" "elems s = elems t" by auto
    then show "if TESTP s ACTIVE then m \<le> card (nulls C (elems s \<inter> elems (RAISE st))) else nulls C (elems s \<inter> over st) \<noteq> {}"
      using q(2) S(3,4) s by simp
  qed
  have eq: "expand_start C B F INIT_LOWER c = (if setp_empty INIT_LOWER then st else elim_lowering C True st)"
    by (simp add: expand_start_def Let_def st0_def [symmetric] n cp f_def f0_def st_def)
  have g: "exp_wf C (expand_start C B F INIT_LOWER c) \<and> blocked C m (expand_start C B F INIT_LOWER c)
    \<and> tight C (expand_start C B F INIT_LOWER c) \<and> reach (expand_start C B F INIT_LOWER c) \<and> starts C B F c (expand_start C B F INIT_LOWER c)
    \<and> RAISE (expand_start C B F INIT_LOWER c) = RAISE st \<and> over (expand_start C B F INIT_LOWER c) = over st"
  proof (cases "setp_empty INIT_LOWER")
    case True
    then have o1: "over st = {..<cube_size C}" using o setp_empty_iff [OF I] by auto
    have "tight C st"
      unfolding tight_def
    proof (intro ballI impI)
      fix s assume s: "s \<in> set (data (BB st))"
      then have "elems s \<in> set (map elems (data B))" using S(2) unfolding starts_def by (metis imageI set_map)
      then obtain t where t: "t \<in> set (data B)" "elems s = elems t" by auto
      moreover have "elems t \<subseteq> {..<cube_size C}" using wf_elems [OF wf_familyD(3) [OF B t(1)]] .
      ultimately show "nulls C (elems s \<inter> over st) = {}" using q(1) unfolding o1 by (simp add: inf.absorb1)
    qed
    moreover have "reach st"
      unfolding reach_def o1 using S(1) wf_elems [OF wf_familyD(3)] by (auto simp: exp_wf_def)
    ultimately show ?thesis using True S(1,2) b unfolding eq by simp
  next
    case False
    note E = elim_lowering_spec [OF C S(1) b, of True]
    have "starts C B F c (elim_lowering C True st)" by (rule starts_evolves [OF S(2) E(4)])
    then show ?thesis using False E S(1,2) b unfolding eq by (simp add: over_def)
  qed
  then show "exp_wf C (expand_start C B F INIT_LOWER c)" "blocked C m (expand_start C B F INIT_LOWER c)"
    "tight C (expand_start C B F INIT_LOWER c)" "reach (expand_start C B F INIT_LOWER c)" "starts C B F c (expand_start C B F INIT_LOWER c)"
    by blast+
  show "elems (RAISE (expand_start C B F INIT_LOWER c)) = elems (data F ! c)" using g S(4) by simp
  show "over (expand_start C B F INIT_LOWER c) \<inter> elems INIT_LOWER \<subseteq> elems (data F ! c)" using g o by auto
qed

lemma expand1_spec:
  assumes C: "wf_cube C" and fo: "positive_values fo" and k: "cube_size C < k" and B: "is_cover C B" and F: "is_cover C F" and c: "c < cnt F"
    and I: "is_cube C INIT_LOWER" and n: "\<forall>q\<in>set (data B). nulls C (elems q) = {}" "nulls C (elems (data F ! c)) = {}"
    and a: "\<forall>q\<in>set (data B). nulls C (elems q \<inter> elems (data F ! c)) \<noteq> {}"
  shows "\<exists>st over. expand1 k fo C mem B F INIT_LOWER c = Inr (st, over) \<and> is_cover C (BB st) \<and> is_cover C (CC st) \<and> starts C B F c st
    \<and> is_cube C (RAISE st) \<and> is_cube C over \<and> elems (data F ! c) \<subseteq> elems (RAISE st) \<and> elems (RAISE st) \<inter> elems INIT_LOWER \<subseteq> elems (data F ! c)
    \<and> (\<forall>q\<in>set (data B). nulls C (elems q \<inter> elems (RAISE st)) \<noteq> {})"
proof -
  have "\<forall>q\<in>set (data B). 1 \<le> card (nulls C (elems q \<inter> elems (data F ! c)))" using a by (simp add: Suc_le_eq card_gt_0_iff)
  note S = expand_start_spec [OF C B F c I n(1) this]
  let ?st = "expand_start C B F INIT_LOWER c"
  obtain st1 where E: "essen_parts C True ?st = Inr st1" "exp_wf C st1" "blocked C 2 st1" "tight C st1" "evolves ?st st1" "reach st1"
    using essen_parts_spec [OF C S(1-3), of True] S(4) by auto
  have small: "card (elems (FREESET st)) < k" if "exp_wf C st" for st
  proof -
    have "elems (FREESET st) \<subseteq> {..<cube_size C}" using that wf_elems by (simp add: exp_wf_def)
    from card_mono [OF _ this] show ?thesis using k by simp
  qed
  define sel where "sel = (if active_count (CC st1) > 0 then select_feasible k C st1 else Inr st1)"
  have "\<exists>st2. sel = Inr st2 \<and> exp_wf C st2 \<and> blocked C 2 st2 \<and> tight C st2 \<and> reach st2 \<and> stuck C {} st2 \<and> evolves st1 st2"
  proof (cases "active_count (CC st1) > 0")
    case True
    then show ?thesis using select_feasible_spec [OF C E(2-4,6) small [OF E(2)]] by (auto simp: sel_def)
  next
    case False
    have "counted (CC st1)" using E(2) by (simp add: exp_wf_def)
    then have "stuck C {} st1" using False counted_none by (auto simp: stuck_def)
    then show ?thesis using False E by (simp add: sel_def)
  qed
  then obtain st2 where L: "sel = Inr st2" "exp_wf C st2" "blocked C 2 st2" "tight C st2" "reach st2" "stuck C {} st2" "evolves st1 st2" by blast
  obtain st3 where M: "cover_loop k C st2 = Inr st3" "exp_wf C st3" "blocked C 2 st3" "tight C st3" "evolves st2 st3"
    using cover_loop_spec [OF C L(2-6) small [OF L(2)]] by blast
  have ev3: "evolves ?st st3" by (rule evolves_trans [OF evolves_trans [OF E(5) L(7)] M(5)])
  have "elems (data F ! c) \<subseteq> elems (RAISE st3)" using ev3 S(6) by (simp add: evolves_def)
  then have n3: "nulls C (elems (RAISE st3)) = {}" using nulls_antimono n(2) by blast
  obtain st4 where N: "block_loop k fo C mem st3 = Inr st4" "expanded C st4" "evolves st3 st4"
    using block_loop_spec [OF C fo M(2-4) n3 small [OF M(2)]] by blast
  have ev: "evolves ?st st4" by (rule evolves_trans [OF ev3 N(3)])
  have w4: "is_cover C (BB st4)" "is_cover C (CC st4)" "is_cube C (RAISE st4)" "is_cube C (FREESET st4)" using N(2) by (simp_all add: expanded_def)
  define r where "r = set_or (RAISE st4) (RAISE st4) (FREESET st4)"
  have r: "is_cube C r" "elems r = over st4"
    using binops_wf(2) [OF w4(3,4) wf_length [OF w4(3)]] binops_elems(2) [OF w4(3,4) wf_length [OF w4(3)]] by (simp_all add: r_def over_def)
  define ov where "ov = set_or (new_cube C) (RAISE st1) (FREESET st1)"
  have ov: "is_cube C ov" using E(2) binops_wf(2) [of "cube_size C" "RAISE st1" "FREESET st1" "new_cube C"] by (simp add: ov_def exp_wf_def)
  let ?st' = "st4\<lparr>RAISE := r\<rparr>"
  have res: "expand1 k fo C mem B F INIT_LOWER c = Inr (?st', ov)"
    using L(1) by (simp add: expand1_def E(1) sel_def [symmetric] M(1) N(1) r_def ov_def)
  have s4: "starts C B F c st4" by (rule starts_evolves [OF S(5) ev])
  have sub: "elems (RAISE st4) \<subseteq> elems r" using r(2) by (auto simp: over_def)
  have s': "starts C B F c ?st'" using s4 sub by (fastforce simp: starts_def)
  have o: "over st4 \<subseteq> over ?st" using ev by (simp add: evolves_def)
  have "\<forall>q\<in>set (data B). nulls C (elems q \<inter> elems r) \<noteq> {}"
  proof
    fix q assume "q \<in> set (data B)"
    then have "elems q \<in> set (map elems (data (BB st4)))" using s4 by (simp add: starts_def)
    then show "nulls C (elems q \<inter> elems r) \<noteq> {}" using N(2) r(2) by (auto simp: expanded_def)
  qed
  moreover have "elems (data F ! c) \<subseteq> elems r" using sub ev S(6) by (auto simp: evolves_def)
  moreover have "elems r \<inter> elems INIT_LOWER \<subseteq> elems (data F ! c)" using S(7) o r(2) by blast
  ultimately show ?thesis using res w4(1,2) r(1) ov s' by (intro exI [of _ ?st'] exI [of _ ov]) simp
qed

lemma expand1_fatal:
  assumes C: "wf_cube C" and B: "is_cover C B" and F: "is_cover C F" and c: "c < cnt F" and I: "is_cube C INIT_LOWER"
    and n: "\<forall>q\<in>set (data B). nulls C (elems q) = {}" and q: "q \<in> set (data B)" "nulls C (elems q \<inter> elems (data F ! c)) = {}"
  shows "expand1 k fo C mem B F INIT_LOWER c = Inl (Fatal ''ON-set and OFF-set are not orthogonal'')"
proof -
  note S = expand_start_spec [OF C B F c I n, of 0, simplified]
  let ?st = "expand_start C B F INIT_LOWER c"
  have "elems q \<in> set (map elems (data (BB ?st)))" using S(5) q(1) by (simp add: starts_def)
  then obtain s where s: "s \<in> set (data (BB ?st))" "elems s = elems q" by auto
  have "elems s \<inter> elems (data F ! c) \<subseteq> elems s \<inter> over ?st" using S(6) by (auto simp: over_def)
  then have "nulls C (elems s \<inter> over ?st) = {}" using nulls_antimono q(2) unfolding s(2) by blast
  then have "TESTP s ACTIVE" using bspec [OF S(2) [unfolded blocked_def] s(1)] by (simp split: if_splits)
  from essen_parts_fatal [OF C S(1) s(1) this, of True] show ?thesis using q(2) s(2) S(6) by (simp add: expand1_def)
qed

section \<open>The cover\<close>

text \<open>\<open>G\<close> is reached from \<open>F0\<close>: every cube was kept, raised against the sets \<open>RS\<close>, or is inside one that was raised.\<close>

definition raised_ok :: "cube_struct \<Rightarrow> nat set list \<Rightarrow> nat set \<Rightarrow> nat set \<Rightarrow> nat set \<Rightarrow> bool" where
  "raised_ok C RS low p g \<longleftrightarrow> p \<subseteq> g \<and> g \<inter> low \<subseteq> p \<and> (\<forall>q\<in>set RS. nulls C (q \<inter> g) \<noteq> {})"

definition partly_expanded :: "cube_struct \<Rightarrow> nat set list \<Rightarrow> nat set \<Rightarrow> set_family \<Rightarrow> nat list \<Rightarrow> set_family \<Rightarrow> bool" where
  "partly_expanded C RS low F0 is F \<longleftrightarrow> is_cover C F \<and> cnt F = cnt F0 \<and> (\<forall>i<cnt F0. let p = data F0 ! i; g = data F ! i in
     (TESTP p PRIME \<longrightarrow> TESTP g PRIME \<and> elems g = elems p)
     \<and> (\<not> TESTP g PRIME \<longrightarrow> \<not> TESTP p PRIME \<and> elems g = elems p)
     \<and> (TESTP g PRIME \<and> \<not> TESTP p PRIME \<longrightarrow> raised_ok C RS low (elems p) (elems g))
     \<and> (TESTP g COVERED \<longrightarrow> \<not> TESTP g PRIME
          \<and> (\<exists>j<cnt F0. TESTP (data F ! j) PRIME \<and> \<not> TESTP (data F0 ! j) PRIME \<and> elems p \<subseteq> elems (data F ! j))))
     \<and> (\<forall>i<cnt F0. i \<in> set is \<or> TESTP (data F ! i) PRIME \<or> TESTP (data F ! i) COVERED)"

lemma partlyD:
  assumes "partly_expanded C RS low F0 is F"
  shows "is_cover C F" "cnt F = cnt F0"
    "i < cnt F0 \<Longrightarrow> TESTP (data F0 ! i) PRIME \<Longrightarrow> TESTP (data F ! i) PRIME \<and> elems (data F ! i) = elems (data F0 ! i)"
    "i < cnt F0 \<Longrightarrow> \<not> TESTP (data F ! i) PRIME \<Longrightarrow> elems (data F ! i) = elems (data F0 ! i)"
    "i < cnt F0 \<Longrightarrow> TESTP (data F ! i) PRIME \<Longrightarrow> \<not> TESTP (data F0 ! i) PRIME \<Longrightarrow> raised_ok C RS low (elems (data F0 ! i)) (elems (data F ! i))"
    "i < cnt F0 \<Longrightarrow> TESTP (data F ! i) COVERED \<Longrightarrow> \<not> TESTP (data F ! i) PRIME
       \<and> (\<exists>j<cnt F0. TESTP (data F ! j) PRIME \<and> \<not> TESTP (data F0 ! j) PRIME \<and> elems (data F0 ! i) \<subseteq> elems (data F ! j))"
    "i < cnt F0 \<Longrightarrow> i \<in> set is \<or> TESTP (data F ! i) PRIME \<or> TESTP (data F ! i) COVERED"
  using assms unfolding partly_expanded_def Let_def by blast+

lemma partly_skip:
  assumes "partly_expanded C RS low F0 (i # is) F" "TESTP (data F ! i) PRIME \<or> TESTP (data F ! i) COVERED"
  shows "partly_expanded C RS low F0 is F"
proof -
  have "i' \<in> set is \<or> TESTP (data F ! i') PRIME \<or> TESTP (data F ! i') COVERED" if "i' < cnt F0" for i'
    using partlyD(7) [OF assms(1) that] assms(2) by auto
  then show ?thesis using assms(1) unfolding partly_expanded_def by blast
qed

lemma partly_step:
  assumes P: "partly_expanded C RS low F0 (i # is) F" and i: "i < cnt F0" "\<not> TESTP (data F ! i) PRIME" "\<not> TESTP (data F ! i) COVERED"
    and S: "starts C R F i st" "is_cover C (CC st)" and p: "is_cube C p" "TESTP p PRIME" "\<not> TESTP p COVERED" "elems p = elems (RAISE st)"
    and r: "raised_ok C RS low (elems (data F0 ! i)) (elems (RAISE st))"
  defines "F' \<equiv> (CC st)\<lparr>data := (data (CC st))[i := p]\<rparr>"
  shows "partly_expanded C RS low F0 is F'"
proof -
  note D = partlyD [OF P]
  have n: "cnt F' = cnt F0" "cnt (CC st) = cnt F0" using S(1) D(2) by (simp_all add: F'_def starts_def)
  have w: "is_cover C F'" using S(2) p(1) set_update_subset_insert [of "data (CC st)" i p] by (fastforce simp: wf_family_def F'_def)
  have at_i: "data F' ! i = p" using i(1) n by (simp add: F'_def)
  have not_i: "\<not> TESTP (data F0 ! i) PRIME" using D(3) [OF i(1)] i(2) by blast
  have other: "elems (data F' ! j) = elems (data F ! j)" "TESTP (data F' ! j) PRIME \<longleftrightarrow> TESTP (data F ! j) PRIME"
    "TESTP (data F ! j) COVERED \<Longrightarrow> TESTP (data F' ! j) COVERED"
    "TESTP (data F' ! j) COVERED \<Longrightarrow> TESTP (data F ! j) COVERED \<or> \<not> TESTP (data F ! j) PRIME \<and> elems (data F ! j) \<subseteq> elems (RAISE st)"
    if "j < cnt F0" "j \<noteq> i" for j
    using S(1) that D(2) by (auto simp: starts_def F'_def)
  have all: "(TESTP (data F0 ! j) PRIME \<longrightarrow> TESTP (data F' ! j) PRIME \<and> elems (data F' ! j) = elems (data F0 ! j))
     \<and> (\<not> TESTP (data F' ! j) PRIME \<longrightarrow> \<not> TESTP (data F0 ! j) PRIME \<and> elems (data F' ! j) = elems (data F0 ! j))
     \<and> (TESTP (data F' ! j) PRIME \<and> \<not> TESTP (data F0 ! j) PRIME \<longrightarrow> raised_ok C RS low (elems (data F0 ! j)) (elems (data F' ! j)))
     \<and> (TESTP (data F' ! j) COVERED \<longrightarrow> \<not> TESTP (data F' ! j) PRIME
          \<and> (\<exists>m<cnt F0. TESTP (data F' ! m) PRIME \<and> \<not> TESTP (data F0 ! m) PRIME \<and> elems (data F0 ! j) \<subseteq> elems (data F' ! m)))
     \<and> (j \<in> set is \<or> TESTP (data F' ! j) PRIME \<or> TESTP (data F' ! j) COVERED)" if j: "j < cnt F0" for j
  proof (cases "j = i")
    case True
    then show ?thesis using at_i p not_i r by simp
  next
    case False
    note o = other [OF j False]
    have cov: "\<not> TESTP (data F' ! j) PRIME
        \<and> (\<exists>m<cnt F0. TESTP (data F' ! m) PRIME \<and> \<not> TESTP (data F0 ! m) PRIME \<and> elems (data F0 ! j) \<subseteq> elems (data F' ! m))"
      if c: "TESTP (data F' ! j) COVERED"
    proof (cases "TESTP (data F ! j) COVERED")
      case True
      then obtain m where m: "m < cnt F0" "TESTP (data F ! m) PRIME" "\<not> TESTP (data F0 ! m) PRIME" "elems (data F0 ! j) \<subseteq> elems (data F ! m)"
        and np: "\<not> TESTP (data F ! j) PRIME" using D(6) [OF j] by blast
      have "m \<noteq> i" using m(2) i(2) by blast
      then show ?thesis using other(1,2) [OF m(1)] m np o(2) by (intro conjI exI [of _ m]) simp_all
    next
      case False
      then have np: "\<not> TESTP (data F ! j) PRIME" "elems (data F ! j) \<subseteq> elems (RAISE st)" using o(4) c by blast+
      then show ?thesis using D(4) [OF j np(1)] i(1) at_i p not_i o(2) by (intro conjI exI [of _ i]) simp_all
    qed
    show ?thesis using D(3-5,7) [OF j] o(1-3) cov False by auto
  qed
  show ?thesis unfolding partly_expanded_def Let_def using w n(1) all by blast
qed

lemma expand_loop_spec:
  assumes C: "wf_cube C" and fo: "positive_values fo" and k: "cube_size C < k" and I: "is_cube C INIT_LOWER"
    and nR: "\<forall>q\<in>set RS. nulls C q = {}" and nF: "\<forall>i<cnt F0. nulls C (elems (data F0 ! i)) = {}"
    and "partly_expanded C RS (elems INIT_LOWER) F0 is F" "is_cover C R" "map elems (data R) = RS" "\<forall>i\<in>set is. i < cnt F0"
  shows "if \<exists>i\<in>set is. \<not> TESTP (data F0 ! i) PRIME \<and> (\<exists>q\<in>set RS. nulls C (q \<inter> elems (data F0 ! i)) = {})
    then expand_loop k fo C mem INIT_LOWER is F R = Inl (Fatal ''ON-set and OFF-set are not orthogonal'')
    else \<exists>F' R'. expand_loop k fo C mem INIT_LOWER is F R = Inr (F', R') \<and> partly_expanded C RS (elems INIT_LOWER) F0 [] F'
      \<and> is_cover C R' \<and> map elems (data R') = RS"
  using assms(7-)
proof (induction "is" arbitrary: F R)
  case (Cons i "is")
  note D = partlyD [OF Cons.prems(1)]
  have i: "i < cnt F0" "\<forall>i\<in>set is. i < cnt F0" using Cons.prems(4) by simp_all
  let ?bad = "\<lambda>i. \<exists>q\<in>set RS. nulls C (q \<inter> elems (data F0 ! i)) = {}"
  show ?case
  proof (cases "TESTP (data F ! i) PRIME \<or> TESTP (data F ! i) COVERED")
    case True
    have "TESTP (data F0 ! i) PRIME \<or> \<not> ?bad i"
    proof (rule disjCI)
      assume "\<not> \<not> ?bad i"
      then obtain q where q: "q \<in> set RS" "nulls C (q \<inter> elems (data F0 ! i)) = {}" by blast
      show "TESTP (data F0 ! i) PRIME"
      proof (rule ccontr)
        assume np: "\<not> TESTP (data F0 ! i) PRIME"
        have "\<exists>g. elems (data F0 ! i) \<subseteq> g \<and> (\<forall>q\<in>set RS. nulls C (q \<inter> g) \<noteq> {})"
        proof (cases "TESTP (data F ! i) PRIME")
          case True
          then show ?thesis using D(5) [OF i(1) True np] unfolding raised_ok_def by blast
        next
          case False
          then obtain j where j: "j < cnt F0" "TESTP (data F ! j) PRIME" "\<not> TESTP (data F0 ! j) PRIME" "elems (data F0 ! i) \<subseteq> elems (data F ! j)"
            using D(6) [OF i(1)] True by blast
          then show ?thesis using D(5) [OF j(1-3)] unfolding raised_ok_def by blast
        qed
        then obtain g where g: "elems (data F0 ! i) \<subseteq> g" "\<forall>q\<in>set RS. nulls C (q \<inter> g) \<noteq> {}" by blast
        have "q \<inter> elems (data F0 ! i) \<subseteq> q \<inter> g" using g(1) by blast
        from nulls_antimono [OF this, of C] show False using bspec [OF g(2) q(1)] q(2) by simp
      qed
    qed
    then show ?thesis using Cons.IH [OF partly_skip [OF Cons.prems(1) True] Cons.prems(2,3) i(2)] True by auto
  next
    case False
    then have np: "\<not> TESTP (data F ! i) PRIME" "\<not> TESTP (data F ! i) COVERED" by blast+
    have el: "elems (data F ! i) = elems (data F0 ! i)" by (rule D(4) [OF i(1) np(1)])
    have np0: "\<not> TESTP (data F0 ! i) PRIME" using D(3) [OF i(1)] np(1) by blast
    have iF: "i < cnt F" using i(1) D(2) by simp
    have qR: "\<forall>q\<in>set (data R). nulls C (elems q) = {}" using nR unfolding Cons.prems(3) [symmetric] by simp
    show ?thesis
    proof (cases "?bad i")
      case True
      then obtain q where "q \<in> set (data R)" "nulls C (elems q \<inter> elems (data F ! i)) = {}" unfolding Cons.prems(3) [symmetric] el by auto
      from expand1_fatal [OF C Cons.prems(2) D(1) iF I qR this, of k fo mem]
      have "expand_loop k fo C mem INIT_LOWER (i # is) F R = Inl (Fatal ''ON-set and OFF-set are not orthogonal'')" using np by simp
      then show ?thesis using True np0 by auto
    next
      case ok: False
      have a: "\<forall>q\<in>set (data R). nulls C (elems q \<inter> elems (data F ! i)) \<noteq> {}" using ok unfolding Cons.prems(3) [symmetric] el by simp
      have n: "nulls C (elems (data F ! i)) = {}" using nF i(1) unfolding el by blast
      obtain st ov where E: "expand1 k fo C mem R F INIT_LOWER i = Inr (st, ov)" "is_cover C (BB st)" "is_cover C (CC st)" "starts C R F i st"
          "is_cube C (RAISE st)" "elems (data F ! i) \<subseteq> elems (RAISE st)" "elems (RAISE st) \<inter> elems INIT_LOWER \<subseteq> elems (data F ! i)"
          "\<forall>q\<in>set (data R). nulls C (elems q \<inter> elems (RAISE st)) \<noteq> {}"
        using expand1_spec [OF C fo k Cons.prems(2) D(1) iF I qR n a] by blast
      have w: "is_cube C (data (CC st) ! i)" using wf_familyD(5) [OF E(3), of i] E(4) iF by (simp add: starts_def)
      have ne: "RAISE st \<noteq> []" by (rule wf_nonempty [OF E(5)])
      have ne2: "SET (RAISE st) PRIME \<noteq> []" "RESET (SET (RAISE st) PRIME) COVERED \<noteq> []"
        using ne length_SET [of "RAISE st" PRIME] length_RESET [of "SET (RAISE st) PRIME" COVERED] by (metis list.size(3) length_0_conv)+
      define p where "p = (if num_covered st = 0 \<and> \<not> setp_equal (RESET (SET (RAISE st) PRIME) COVERED) ov
        then SET (RESET (SET (RAISE st) PRIME) COVERED) NONESSEN else RESET (SET (RAISE st) PRIME) COVERED)"
      have p: "is_cube C p" "TESTP p PRIME" "\<not> TESTP p COVERED" "elems p = elems (RAISE st)"
        using E(5) ne ne2 by (auto simp: p_def flag_tests)
      have r: "raised_ok C RS (elems INIT_LOWER) (elems (data F0 ! i)) (elems (RAISE st))"
        using E(6-8) unfolding raised_ok_def el Cons.prems(3) [symmetric] by auto
      let ?F = "(CC st)\<lparr>data := (data (CC st))[i := p]\<rparr>"
      have P: "partly_expanded C RS (elems INIT_LOWER) F0 is ?F"
        by (rule partly_step [OF Cons.prems(1) i(1) np E(4,3) p r])
      have "map elems (data (BB st)) = RS" using E(4) Cons.prems(3) by (simp add: starts_def)
      note IH = Cons.IH [OF P E(2) this i(2)]
      have "expand_loop k fo C mem INIT_LOWER (i # is) F R = expand_loop k fo C mem INIT_LOWER is ?F (BB st)"
        using np E(1) set_copy_eq [OF E(5) wf_length [OF w]] by (simp add: Let_def p_def)
      then show ?thesis using IH ok by auto
    qed
  qed
qed simp

text \<open>The sorts keep the flag \<^verbatim>\<open>PRIME\<close> with its cube.\<close>

definition tagged :: "set_family \<Rightarrow> (nat set \<times> bool) set" where
  "tagged A = (\<lambda>p. (elems p, TESTP p PRIME)) ` set (data A)"

lemma tagged_sorts:
  assumes A: "is_cover C A"
  shows "tagged (mini_sort C A cmp) = tagged A" "tagged (random_order A) = tagged A"
proof -
  define key where "key p = nat (column_weight C (sf_count A) p)" for p
  define A' where "A' = A\<lparr>data := map (\<lambda>p. PUTSIZE p (key p)) (data A)\<rparr>"
  have A': "is_cover C A'" unfolding A'_def by (rule with_keys(1) [OF A])
  let ?xs = "qsort (ptr_cmp cmp) (sf_list A')"
  have w: "wf_ptrs (cube_size C) ?xs" by (rule wf_ptrs_subset [OF wf_sf_list [OF A']]) simp
  have "mini_sort C A cmp = sf_unlist ?xs (cube_size C)"
    using wf_familyD(1) [OF A] by (simp add: mini_sort_def Let_def A'_def key_def)
  moreover have "data (sf_unlist ?xs (cube_size C)) = map snd ?xs"
    using w by (auto simp: sf_unlist_def wf_ptrs_def intro!: set_copy_eq)
  moreover have "set (map snd ?xs) = set (data A')"
  proof -
    have "mset (map snd ?xs) = mset (map snd (sf_list A'))" unfolding mset_map mset_qsort ..
    from arg_cong [OF this, of set_mset] show ?thesis unfolding set_mset_mset by (simp only: sf_list_def map_snd_enumerate)
  qed
  ultimately have "tagged (mini_sort C A cmp) = tagged A'" by (simp add: tagged_def)
  also have "\<dots> = tagged A"
  proof -
    have "(elems (PUTSIZE p (key p)), TESTP (PUTSIZE p (key p)) PRIME) = (elems p, TESTP p PRIME)" if "p \<in> set (data A)" for p
      using field_flags(1) [OF flag_ok(1) wf_nonempty [OF wf_familyD(3) [OF A that]]] by simp
    then show ?thesis unfolding tagged_def A'_def by (auto simp: image_image)
  qed
  finally show "tagged (mini_sort C A cmp) = tagged A" .
  show "tagged (random_order A) = tagged A" using arg_cong [OF random_order_mset [OF A], of set_mset] by (simp add: tagged_def)
qed

lemma sparse_parts:
  assumes C: "wf_cube C"
  shows "is_cube C (fold (\<lambda>var s. if sparse C ! var then set_or s s (var_mask C ! var) else s) [0..<num_vars C] (new_cube C))"
    "elems (fold (\<lambda>var s. if sparse C ! var then set_or s s (var_mask C ! var) else s) [0..<num_vars C] (new_cube C)) = elems (mv_mask C)"
proof -
  let ?f = "fold (\<lambda>var s. if sparse C ! var then set_or s s (var_mask C ! var) else s)"
  have n: "is_cube C (new_cube C)" "elems (new_cube C) = {}"
    using set_new_spec(1,2) [OF wf_layoutD(3) [OF wf_cubeD(1) [OF C]]] by (simp_all add: new_cube_def)
  have "is_cube C (?f vs s) \<and> elems (?f vs s) = elems s \<union> (\<Union>v\<in>{v \<in> set vs. num_binary_vars C \<le> v}. vparts C v)"
    if "\<forall>v\<in>set vs. v < num_vars C" "is_cube C s" for vs s
    using that
  proof (induction vs arbitrary: s)
    case (Cons v vs)
    have v: "v < num_vars C" "\<forall>v\<in>set vs. v < num_vars C" using Cons.prems(1) by simp_all
    note m = wf_cubeD(9,10) [OF C v(1)]
    note o = binops_wf(2) [OF Cons.prems(2) m(1) wf_length [OF Cons.prems(2)]] binops_elems(2) [OF Cons.prems(2) m(1) wf_length [OF Cons.prems(2)]]
    have sp: "sparse C ! v \<longleftrightarrow> num_binary_vars C \<le> v" using wf_cube_words(3) [OF C v(1)] by simp
    show ?case
    proof (cases "num_binary_vars C \<le> v")
      case True
      then show ?thesis using Cons.IH [OF v(2) o(1)] o(2) m(2) sp by auto
    next
      case False
      then have "{u \<in> set (v # vs). num_binary_vars C \<le> u} = {u \<in> set vs. num_binary_vars C \<le> u}" by auto
      then show ?thesis using Cons.IH [OF v(2) Cons.prems(2)] False sp by simp
    qed
  qed simp
  note F = this [of "[0..<num_vars C]" "new_cube C", OF _ n(1)]
  show "is_cube C (?f [0..<num_vars C] (new_cube C))" using F by simp
  have "{v \<in> set [0..<num_vars C]. num_binary_vars C \<le> v} = {num_binary_vars C..<num_vars C}" by auto
  then show "elems (?f [0..<num_vars C] (new_cube C)) = elems (mv_mask C)" using F n(2) wf_cubeD(12) [OF C] by simp
qed

lemma partly_start:
  assumes "is_cover C F"
  shows "partly_expanded C RS low F [0..<cnt F] (F\<lparr>data := map (\<lambda>p. RESET (RESET p COVERED) NONESSEN) (data F)\<rparr>)"
proof -
  have t: "(TESTP (RESET (RESET p COVERED) NONESSEN) PRIME \<longleftrightarrow> TESTP p PRIME) \<and> \<not> TESTP (RESET (RESET p COVERED) NONESSEN) COVERED"
    if "p \<in> set (data F)" for p
  proof -
    have ne: "p \<noteq> []" using wf_nonempty [OF wf_familyD(3) [OF assms that]] .
    then have "RESET p COVERED \<noteq> []" using length_RESET [of p COVERED] by (metis list.size(3) length_0_conv)
    then show ?thesis using ne by (simp add: flag_tests)
  qed
  have "is_cover C (F\<lparr>data := map (\<lambda>p. RESET (RESET p COVERED) NONESSEN) (data F)\<rparr>)" using assms by (auto simp: wf_family_def)
  then show ?thesis using t unfolding partly_expanded_def by simp
qed

text \<open>What an expanded cover is.\<close>

definition expansion_of :: "cube_struct \<Rightarrow> bool \<Rightarrow> set_family \<Rightarrow> set_family \<Rightarrow> pset \<Rightarrow> bool" where
  "expansion_of C nonsparse F R g \<longleftrightarrow> TESTP g PRIME \<and>
     ((\<exists>p\<in>set (data F). TESTP p PRIME \<and> elems g = elems p)
      \<or> (\<exists>p\<in>set (data F). \<not> TESTP p PRIME \<and> elems p \<subseteq> elems g \<and> (nonsparse \<longrightarrow> elems g \<inter> elems (mv_mask C) \<subseteq> elems p)
           \<and> (\<forall>q\<in>set (data R). nulls C (elems q \<inter> elems g) \<noteq> {})))"

lemma expand_final:
  assumes P: "partly_expanded C (map elems (data R)) (if nonsparse then elems (mv_mask C) else {}) F0 [] F"
  defines "F' \<equiv> F\<lparr>data := map (\<lambda>p. if TESTP p COVERED then RESET p ACTIVE else SET p ACTIVE) (data F),
               active_count := int (length (filter (\<lambda>p. \<not> TESTP p COVERED) (data F)))\<rparr>"
  defines "G \<equiv> (if list_ex (\<lambda>p. TESTP p COVERED) (data F) then sf_inactive F' else F')"
  shows "is_cover C G" "cnt G \<le> cnt F0" "\<forall>p\<in>set (data F0). \<exists>g\<in>set (data G). elems p \<subseteq> elems g"
    "\<forall>g\<in>set (data G). expansion_of C nonsparse F0 R g"
proof -
  note D = partlyD [OF P]
  let ?g = "\<lambda>p. if TESTP p COVERED then RESET p ACTIVE else SET p ACTIVE"
  have wF': "is_cover C F'" using D(1) by (auto simp: wf_family_def F'_def)
  have ne: "p \<noteq> []" if "p \<in> set (data F)" for p using wf_nonempty [OF wf_familyD(3) [OF D(1) that]] .
  have g: "data G = map ?g (filter (\<lambda>p. \<not> TESTP p COVERED) (data F)) \<and> is_cover C G"
  proof (cases "list_ex (\<lambda>p. TESTP p COVERED) (data F)")
    case True
    have "filter (\<lambda>p. TESTP p ACTIVE) (map ?g ps) = map ?g (filter (\<lambda>p. \<not> TESTP p COVERED) ps)" if "\<forall>p\<in>set ps. p \<noteq> []" for ps
      using that by (induction ps) auto
    then show ?thesis using True sf_inactive_spec [OF wF'] ne by (simp add: G_def) (simp add: F'_def)
  next
    case False
    then have "filter (\<lambda>p. \<not> TESTP p COVERED) (data F) = data F" by (auto simp: list_ex_iff filter_id_conv)
    then show ?thesis using False wF' by (simp add: G_def F'_def)
  qed
  then show "is_cover C G" by blast
  show "cnt G \<le> cnt F0" using g D(2) length_filter_le [of "\<lambda>p. \<not> TESTP p COVERED" "data F"] by simp
  have setG: "set (data G) = (\<lambda>p. SET p ACTIVE) ` {p \<in> set (data F). \<not> TESTP p COVERED}" using g by (auto simp: image_iff)
  have prime: "TESTP (data F ! i) PRIME" if "i < cnt F0" "\<not> TESTP (data F ! i) COVERED" for i using D(7) [OF that(1)] that(2) by simp
  have in_G: "SET (data F ! i) ACTIVE \<in> set (data G)" if "i < cnt F0" "\<not> TESTP (data F ! i) COVERED" for i
    unfolding setG using that D(2) by auto
  show "\<forall>p\<in>set (data F0). \<exists>g\<in>set (data G). elems p \<subseteq> elems g"
  proof
    fix p assume "p \<in> set (data F0)"
    then obtain i where i: "i < cnt F0" "p = data F0 ! i" by (auto simp: in_set_conv_nth)
    show "\<exists>g\<in>set (data G). elems p \<subseteq> elems g"
    proof (cases "TESTP (data F ! i) COVERED")
      case True
      then obtain j where j: "j < cnt F0" "TESTP (data F ! j) PRIME" "elems p \<subseteq> elems (data F ! j)" using D(6) [OF i(1)] i(2) by blast
      then have "\<not> TESTP (data F ! j) COVERED" using D(6) [OF j(1)] by blast
      then show ?thesis using in_G [OF j(1)] j(3) by (intro bexI [of _ "SET (data F ! j) ACTIVE"]) simp_all
    next
      case False
      note pr = prime [OF i(1) False]
      have "elems p \<subseteq> elems (data F ! i)"
        using D(3) [OF i(1)] D(5) [OF i(1) pr] i(2) by (auto simp: raised_ok_def)
      then show ?thesis using in_G [OF i(1) False] by (intro bexI [of _ "SET (data F ! i) ACTIVE"]) simp_all
    qed
  qed
  show "\<forall>g\<in>set (data G). expansion_of C nonsparse F0 R g"
  proof
    fix g assume "g \<in> set (data G)"
    then obtain i where i: "i < cnt F0" "g = SET (data F ! i) ACTIVE" "\<not> TESTP (data F ! i) COVERED"
      unfolding setG using D(2) by (auto simp: in_set_conv_nth)
    note pr = prime [OF i(1,3)]
    have n: "data F ! i \<noteq> []" using ne i(1) D(2) by simp
    have p: "data F0 ! i \<in> set (data F0)" using i(1) by simp
    have g: "TESTP g PRIME" "elems g = elems (data F ! i)" using pr n i(2) by (simp_all add: flag_tests)
    show "expansion_of C nonsparse F0 R g"
    proof (cases "TESTP (data F0 ! i) PRIME")
      case True
      then show ?thesis using D(3) [OF i(1) True] p g unfolding expansion_of_def by auto
    next
      case False
      then have "raised_ok C (map elems (data R)) (if nonsparse then elems (mv_mask C) else {}) (elems (data F0 ! i)) (elems g)"
        using D(5) [OF i(1) pr] g(2) by simp
      then have "elems (data F0 ! i) \<subseteq> elems g \<and> (nonsparse \<longrightarrow> elems g \<inter> elems (mv_mask C) \<subseteq> elems (data F0 ! i))
        \<and> (\<forall>q\<in>set (data R). nulls C (elems q \<inter> elems g) \<noteq> {})" by (auto simp: raised_ok_def split: if_splits)
      then show ?thesis using False p g(1) unfolding expansion_of_def by blast
    qed
  qed
qed

lemma expansion_of_tagged:
  assumes "tagged F' = tagged F"
  shows "expansion_of C nonsparse F' R g = expansion_of C nonsparse F R g"
proof -
  have t: "(\<exists>p\<in>set (data A). P (elems p) (TESTP p PRIME)) \<longleftrightarrow> (\<exists>(e, b)\<in>tagged A. P e b)" for A P by (auto simp: tagged_def)
  show ?thesis
    unfolding expansion_of_def
      t [of _ "\<lambda>e b. b \<and> elems g = e"]
      t [of _ "\<lambda>e b. \<not> b \<and> e \<subseteq> elems g \<and> (nonsparse \<longrightarrow> elems g \<inter> elems (mv_mask C) \<subseteq> e) \<and> (\<forall>q\<in>set (data R). nulls C (elems q \<inter> elems g) \<noteq> {})"]
      assms ..
qed

lemma tagged_elems:
  assumes "tagged F' = tagged F"
  shows "elems ` set (data F') = elems ` set (data F)"
  using arg_cong [OF assms, of "image fst"] by (simp add: tagged_def image_image)

lemma apart_iff:
  assumes "wf_cube C"
  shows "nulls C (q \<inter> g) \<noteq> {} \<longleftrightarrow> cov C {q} \<inter> cov C {g} = {}"
proof -
  have "nulls C (q \<inter> g) = {} \<longleftrightarrow> (\<exists>x. point C x \<and> covers C q x \<and> covers C g x)"
    unfolding nulls_point [OF assms] covers_Int by blast
  then show ?thesis unfolding cov_def by blast
qed

lemma cov_by_cubes: "cov C S = (\<Union>c\<in>S. cov C {c})"
  by (auto simp: cov_def)

lemma onset_apart:
  assumes "wf_cube C" "\<forall>p\<in>set (data G). \<forall>q\<in>set (data R). nulls C (elems q \<inter> elems p) \<noteq> {}"
  shows "onset C G \<inter> onset C R = {}"
  using assms(2) unfolding apart_iff [OF assms(1)] cov_by_cubes [of C "elems ` set (data G)"] cov_by_cubes [of C "elems ` set (data R)"] by blast

lemma expansion_disjoint:
  assumes C: "wf_cube C" and ex: "\<forall>g\<in>set (data G). expansion_of C nonsparse F R g" and d: "onset C F \<inter> onset C R = {}"
  shows "onset C G \<inter> onset C R = {}"
proof -
  have "cov C {elems q} \<inter> cov C {elems g} = {}" if g: "g \<in> set (data G)" and q: "q \<in> set (data R)" for g q
  proof -
    consider p where "p \<in> set (data F)" "elems g = elems p" | "nulls C (elems q \<inter> elems g) \<noteq> {}"
      using ex g q unfolding expansion_of_def by blast
    then show ?thesis
    proof cases
      case 1
      have "cov C {elems p} \<subseteq> onset C F" by (rule cov_mono) (use 1(1) in simp)
      moreover have "cov C {elems q} \<subseteq> onset C R" by (rule cov_mono) (use q in simp)
      ultimately show ?thesis using d unfolding 1(2) by blast
    next
      case 2
      then show ?thesis unfolding apart_iff [OF C] .
    qed
  qed
  then show ?thesis unfolding cov_by_cubes [of C "elems ` set (data G)"] cov_by_cubes [of C "elems ` set (data R)"] by blast
qed

lemma not_orthogonal:
  assumes C: "wf_cube C" and F: "is_cover C F" and R: "is_cover C R" and t: "tagged F1 = tagged F"
  shows "(\<exists>i\<in>set [0..<cnt F1]. \<not> TESTP (data F1 ! i) PRIME \<and> (\<exists>q\<in>set (map elems (data R)). nulls C (q \<inter> elems (data F1 ! i)) = {}))
    \<longleftrightarrow> (\<exists>p\<in>set (data F). \<not> TESTP p PRIME \<and> (\<exists>q\<in>set (data R). cdist0 C p q))" (is "?L \<longleftrightarrow> ?B")
proof -
  let ?RS = "map elems (data R)"
  have "(\<exists>i\<in>set [0..<cnt F1]. P (data F1 ! i)) \<longleftrightarrow> (\<exists>p\<in>set (data F1). P p)" for P
    unfolding set_conv_nth by auto
  then have "?L \<longleftrightarrow> (\<exists>p\<in>set (data F1). \<not> TESTP p PRIME \<and> (\<exists>q\<in>set ?RS. nulls C (q \<inter> elems p) = {}))" .
  also have "\<dots> \<longleftrightarrow> (\<exists>(e, b)\<in>tagged F. \<not> b \<and> (\<exists>q\<in>set ?RS. nulls C (q \<inter> e) = {}))" unfolding t [symmetric] by (auto simp: tagged_def)
  also have "\<dots> \<longleftrightarrow> (\<exists>p\<in>set (data F). \<not> TESTP p PRIME \<and> (\<exists>q\<in>set ?RS. nulls C (q \<inter> elems p) = {}))" by (auto simp: tagged_def)
  also have "\<dots> \<longleftrightarrow> ?B"
    using cdist0_spec [OF C wf_familyD(3) [OF F] wf_familyD(3) [OF R]] by (auto simp: Int_commute)
  finally show ?thesis .
qed

text \<open>
  C40. Expansion against the off-set. When a cube of the on-set that is not marked prime meets a cube of the
  off-set, \<^verbatim>\<open>expand\<close> ends with its fatal error. Otherwise it ends normally and every cube of the result is marked prime and is
  either one of the given primes or a given cube raised to a cube that is disjoint from the whole off-set (and, when only the
  non-sparse variables are expanded, not raised in a multiple-valued variable); every given cube lies in a cube of the result, there
  are no more cubes than before and the sets of the off-set keep their elements. So the cover only grows, and when the on-set and
  the off-set were disjoint they still are. No cube may be null, and the fuel is more than the number of parts. (As everywhere
  in the covering step, the floating-point operations are those of any arithmetic in which the column values are positive.)
\<close>

theorem expand_raises:
  assumes "wf_cube C" "positive_values fo" "cube_size C < k" "is_cover C F" "is_cover C R"
    "\<forall>p\<in>set (data F) \<union> set (data R). \<not> null_cube C (elems p)"
  shows "if \<exists>p\<in>set (data F). \<not> TESTP p PRIME \<and> (\<exists>q\<in>set (data R). cdist0 C p q)
    then expand k fo C mem rand F R nonsparse = Inl (Fatal ''ON-set and OFF-set are not orthogonal'')
    else \<exists>G R'. expand k fo C mem rand F R nonsparse = Inr (G, R') \<and> is_cover C G \<and> cnt G \<le> cnt F
      \<and> map elems (data R') = map elems (data R)
      \<and> (\<forall>p\<in>set (data F). \<exists>g\<in>set (data G). elems p \<subseteq> elems g) \<and> (\<forall>g\<in>set (data G). expansion_of C nonsparse F R g)
      \<and> onset C F \<subseteq> onset C G \<and> (onset C F \<inter> onset C R = {} \<longrightarrow> onset C G \<inter> onset C R = {})"
proof -
  note C = assms(1) and F = assms(4) and R = assms(5)
  let ?msg = "Inl (Fatal ''ON-set and OFF-set are not orthogonal'') :: (set_family \<times> set_family) res"
  define F1 where "F1 = (if rand then random_order F else mini_sort C F ascend)"
  have F1: "is_cover C F1" "cnt F1 = cnt F" "tagged F1 = tagged F"
    using same_cubesD(1,3) [OF random_order_same [OF F]] same_cubesD(1,3) [OF sorts_same(3) [OF F, of ascend]] tagged_sorts [OF F]
    by (simp_all add: F1_def)
  define IL where "IL = (if nonsparse
      then fold (\<lambda>var s. if sparse C ! var then set_or s s (var_mask C ! var) else s) [0..<num_vars C] (new_cube C) else new_cube C)"
  have IL: "is_cube C IL" "elems IL = (if nonsparse then elems (mv_mask C) else {})"
    using sparse_parts [OF C] set_new_spec(1,2) [OF wf_layoutD(3) [OF wf_cubeD(1) [OF C]]] by (simp_all add: IL_def new_cube_def)
  let ?F2 = "F1\<lparr>data := map (\<lambda>p. RESET (RESET p COVERED) NONESSEN) (data F1)\<rparr>"
  let ?RS = "map elems (data R)"
  have nR: "\<forall>q\<in>set ?RS. nulls C q = {}" using assms(6) by (simp add: null_cube_nulls)
  have "elems ` set (data F1) = elems ` set (data F)" by (rule tagged_elems [OF F1(3)])
  moreover have "\<forall>e\<in>elems ` set (data F). nulls C e = {}" using assms(6) by (auto simp: null_cube_nulls)
  ultimately have nF: "\<forall>i<cnt F1. nulls C (elems (data F1 ! i)) = {}" by (metis image_eqI nth_mem)
  have is1: "\<forall>i\<in>set [0..<cnt F1]. i < cnt F1" by simp
  note L = expand_loop_spec [OF C assms(2,3) IL(1) nR nF partly_start [OF F1(1)] R refl is1, where mem = mem]
  have res: "expand k fo C mem rand F R nonsparse = rbind (expand_loop k fo C mem IL [0..<cnt F1] ?F2 R) (\<lambda>(F, R).
      let change = list_ex (\<lambda>p. TESTP p COVERED) (data F);
          F = F\<lparr>data := map (\<lambda>p. if TESTP p COVERED then RESET p ACTIVE else SET p ACTIVE) (data F),
            active_count := int (length (filter (\<lambda>p. \<not> TESTP p COVERED) (data F)))\<rparr>
      in Inr (if change then sf_inactive F else F, R))"
    unfolding expand_def Let_def F1_def IL_def by simp
  note bad = not_orthogonal [OF C F R F1(3)]
  show ?thesis
  proof (cases "\<exists>p\<in>set (data F). \<not> TESTP p PRIME \<and> (\<exists>q\<in>set (data R). cdist0 C p q)")
    case True
    then show ?thesis using L unfolding res bad by simp
  next
    case False
    then obtain F3 R' where E: "expand_loop k fo C mem IL [0..<cnt F1] ?F2 R = Inr (F3, R')" "partly_expanded C ?RS (elems IL) F1 [] F3"
        "map elems (data R') = ?RS"
      using L [unfolded bad if_not_P [OF False]] by blast
    let ?F4 = "F3\<lparr>data := map (\<lambda>p. if TESTP p COVERED then RESET p ACTIVE else SET p ACTIVE) (data F3),
            active_count := int (length (filter (\<lambda>p. \<not> TESTP p COVERED) (data F3)))\<rparr>"
    define G where "G = (if list_ex (\<lambda>p. TESTP p COVERED) (data F3) then sf_inactive ?F4 else ?F4)"
    note G = expand_final [OF E(2) [unfolded IL(2)], folded G_def]
    have r: "expand k fo C mem rand F R nonsparse = Inr (G, R')" unfolding res E(1) by (simp add: G_def Let_def)
    have "\<forall>e\<in>elems ` set (data F). \<exists>g\<in>set (data G). e \<subseteq> elems g"
      unfolding tagged_elems [OF F1(3), symmetric] using G(3) by simp
    then have dom: "\<forall>p\<in>set (data F). \<exists>g\<in>set (data G). elems p \<subseteq> elems g" by simp
    have ex: "\<forall>g\<in>set (data G). expansion_of C nonsparse F R g" using G(4) expansion_of_tagged [OF F1(3)] by blast
    have on: "onset C F \<subseteq> onset C G" by (rule cov_dominated) (use dom in auto)
    show ?thesis unfolding if_not_P [OF False] using expansion_disjoint [OF C ex] r G(1,2) F1(2) E(3) dom ex on by (intro exI [of _ G] exI [of _ R']) simp
  qed
qed

theorem expand_raises_witness:
  "(\<exists>G R'. expand 8 rat_ops demo_cube (\<lambda>_ _. 0) False (cover_of 7 [[0, 2, 4], [0, 3, 4]]) (cover_of 7 [[1, 2, 3, 4], [0, 1, 2, 3, 6]]) False = Inr (G, R')
     \<and> cnt G \<le> 2 \<and> onset demo_cube G \<inter> onset demo_cube (cover_of 7 [[1, 2, 3, 4], [0, 1, 2, 3, 6]]) = {})
   \<and> expand 8 rat_ops demo_cube (\<lambda>_ _. 0) False (cover_of 7 [[0, 2, 4], [0, 3, 4]]) (cover_of 7 [[0, 1, 2, 4, 5]]) False
     = Inl (Fatal ''ON-set and OFF-set are not orthogonal'')"
proof -
  let ?F = "cover_of 7 [[0, 2, 4], [0, 3, 4]]" and ?R = "cover_of 7 [[1, 2, 3, 4], [0, 1, 2, 3, 6]]" and ?S = "cover_of 7 [[0, 1, 2, 4, 5]]"
  have w: "is_cover demo_cube ?F" "is_cover demo_cube ?R" "is_cover demo_cube ?S" by simp_all
  have n: "\<forall>p\<in>set (data ?F) \<union> set (data ?R). \<not> null_cube demo_cube (elems p)" "\<forall>p\<in>set (data ?F) \<union> set (data ?S). \<not> null_cube demo_cube (elems p)"
    by simp_all
  have k: "cube_size demo_cube < 8" by simp
  have ok: "\<not> (\<exists>p\<in>set (data ?F). \<not> TESTP p PRIME \<and> (\<exists>q\<in>set (data ?R). cdist0 demo_cube p q))" by code_simp
  have bad: "\<exists>p\<in>set (data ?F). \<not> TESTP p PRIME \<and> (\<exists>q\<in>set (data ?S). cdist0 demo_cube p q)" by code_simp
  have d: "onset demo_cube ?F \<inter> onset demo_cube ?R = {}"
    by (rule onset_apart [OF demo_cube(1)]) (simp add: null_cube_nulls [symmetric])
  note X = expand_raises [OF demo_cube(1) rat_ops_positive k w(1,2) n(1), where mem = "\<lambda>_ _. 0" and rand = False and nonsparse = False, unfolded if_not_P [OF ok]]
  note Y = expand_raises [OF demo_cube(1) rat_ops_positive k w(1,3) n(2), where mem = "\<lambda>_ _. 0" and rand = False and nonsparse = False, unfolded if_P [OF bad]]
  show ?thesis using X Y d by auto
qed

end
