(* ===== verification/Spec2Isabelle.thy ===== *)
theory Spec2Isabelle
  imports Prelude Sets SetFamily CubeStr SetC Contain Cofactor Unate Compl Taut Sharp Cvrm Reduce Essen Sparse Mincov Branch Irred Primes Exact Unravel Expand
begin

text \<open>
  The two-level logic minimiser Espresso-MV (\<^verbatim>\<open>src/espresso\<close>): a verification library.

  The program minimises a sum-of-products description of a Boolean function with multiple-valued
  variables.  A product term, a cube, is a packed bit set with one bit for each part (value) of
  each variable; a cover is a family of cubes; a point is a choice of one part for every variable,
  and a cover covers the points all of whose parts are in one of its cubes.

  The theories, from the bottom up.

  \<^item> \<open>Prelude\<close>: machine words, error values, the loop shapes of the set routines, the sorting
    routine of the C library and the interface \<open>comparison\<close> of its callers.
  \<^item> \<open>Sets\<close>: single sets: the macros of \<^verbatim>\<open>espresso.h\<close> and the set routines of \<^verbatim>\<open>set.c\<close>,
    word by word, with the header word (loop count, flags, size) at its field widths.  A C set
    pointer is a list of 32-bit words; \<open>elems\<close> is the set it stands for, \<open>wf_set n\<close> says that it
    is a set over \<open>n\<close> elements as \<^verbatim>\<open>set_new\<close> makes it.
  \<^item> \<open>SetFamily\<close>: families of sets, the \<^verbatim>\<open>sf_...\<close> routines of \<^verbatim>\<open>set.c\<close>. The field \<open>data\<close> is the list of the sets in use.
  \<^item> \<open>CubeStr\<close>: the global record \<^verbatim>\<open>cube\<close> (\<^verbatim>\<open>cubestr.c\<close>) as an argument \<open>C\<close>, its set-up,
    the invariant \<open>wf_cube\<close>, and the meaning of cubes: \<open>point\<close>, \<open>covers\<close>, \<open>cov\<close>, \<open>onset\<close>.
  \<^item> \<open>SetC\<close>: \<^verbatim>\<open>setc.c\<close>: distances, consensus, forced lowering, active variables, and the
    comparison functions, each an instance of the interface \<open>comparison\<close>.
  \<^item> \<open>Contain\<close>: \<^verbatim>\<open>contain.c\<close>: removal of contained and repeated cubes, union, distance-1 merge.
  \<^item> \<open>Cofactor\<close>: \<^verbatim>\<open>cofactor.c\<close>: cubelists (an array of pointers whose first entry is the set of
    cofactored parts; the record \<open>cubelist\<close>), cofactors, column counts and the choice of the splitting variable.
  \<^item> \<open>Unate\<close>: \<^verbatim>\<open>unate.c\<close>: the complement of a unate cover through its matrix.
  \<^item> \<open>Compl\<close>: \<^verbatim>\<open>compl.c\<close>: complement, simplification, and both at once, by recursive splitting.

  \<^item> \<open>Taut\<close>: the tautology test of \<^verbatim>\<open>irred.c\<close> with the component search of \<^verbatim>\<open>cvrm.c\<close>, and
    \<^verbatim>\<open>verify\<close> of \<^verbatim>\<open>verify.c\<close>.
  \<^item> \<open>Sharp\<close>: \<^verbatim>\<open>sharp.c\<close>: sharp, disjoint sharp and intersection of covers; the consistency check of \<^verbatim>\<open>verify.c\<close>.

  \<^item> \<open>Cvrm\<close>: the orders of \<^verbatim>\<open>cvrm.c\<close> in which reduction and expansion take the cubes, and the cofactor by an output.
  \<^item> \<open>Reduce\<close>: \<^verbatim>\<open>reduce.c\<close>: the smallest cube containing the complement, and the reduction of a cover.
  \<^item> \<open>Essen\<close>: \<^verbatim>\<open>essen.c\<close>: the test for essential cubes by consensus, and their extraction.

  \<^item> \<open>Sparse\<close>: the sparse matrix package (\<^verbatim>\<open>matrix.c\<close>, \<^verbatim>\<open>rows.c\<close>, \<^verbatim>\<open>cols.c\<close>); \<open>entries\<close> is the relation a matrix stands for.
  \<^item> \<open>Mincov\<close>: the covering package: dominance, independent rows, components, Gimpel's reduction, branch and bound; what
    each reduction does to the least cost \<open>opt\<close> of a cover.
  \<^item> \<open>Branch\<close>: the branch and bound returns a least cover, or with the heuristic some cover.

  \<^item> \<open>Irred\<close>: \<^verbatim>\<open>irred.c\<close>: the split of a cover, the covering table whose rows say which cubes may be dropped
    together, and the irredundant cover. The table is a tautology test that records the leaves where only
    redundant cubes are left.
  \<^item> \<open>Primes\<close>: \<^verbatim>\<open>primes.c\<close>: all prime implicants, by splitting and consensus.
  \<^item> \<open>Exact\<close>: \<^verbatim>\<open>exact.c\<close>: exact minimisation: primes, covering table and minimum cover.

  \<^item> \<open>Unravel\<close>: the unravelling of a cover into cubes with single parts (\<^verbatim>\<open>cvrm.c\<close>) and the minimum cover of a
    family of sets (\<^verbatim>\<open>sminterf.c\<close>).
  \<^item> \<open>Expand\<close>: \<^verbatim>\<open>expand.c\<close>: the record \<open>expansion\<close> is the state of the expansion of one cube (off-set, on-set, the cube as
    raised so far, the free parts); the cubes of the on-set are addressed by position and carry the flags of the C words.
    The invariant: the inactive cubes of the off-set are disjoint from all the cube may still become (\<open>blocked\<close>), the active
    ones can still meet it (\<open>tight\<close>), and the on-set cubes that are still active can be reached (\<open>reach\<close>).

  Conventions.

  The model is functional: what a routine writes through a pointer is part of its result.
  Uninitialised memory is a parameter \<open>mem\<close>, and the theorems hold for every value of it.  Fatal errors, division by
  zero, use of freed memory and want of fuel are values of the type \<open>error\<close>.  Counts, indices and
  weights are naturals: the theorems say where a width matters (the fields of the header word, the
  32736 parts that the set-up lemma allows) and the products of cube counts in \<^verbatim>\<open>complement\<close> are
  not bounded to the range of \<^verbatim>\<open>int\<close>.

  The recursive routines take fuel.  Each recursive call of \<^verbatim>\<open>complement\<close>, \<^verbatim>\<open>simplify\<close> and \<^verbatim>\<open>simp_comp\<close>
  marks at least one more part as cofactored, so one more than the number of parts is enough
  (hypothesis \<open>cube_size C < k\<close>); each call of \<^verbatim>\<open>sm_mincov\<close>
  removes a row or a column; each round of the loops of \<^verbatim>\<open>expand1\<close> takes a part from the free
  parts (fuel for all of them: \<open>cube_size C < k\<close>); each call of
  \<^verbatim>\<open>unate_complement\<close> removes a row or an element, so one more than their total number is enough.  The
  termination theorems show that the calls return with this fuel.

  Not modelled.

  Input and output, timing and debug output.  \<^verbatim>\<open>setdown_cube\<close> and the saving of
  the cube record free and copy memory only.  The main loop of \<^verbatim>\<open>espresso.c\<close> and its last-gasp heuristics, \<^verbatim>\<open>make_sparse\<close>,
  and the routines for all primes of a cube (\<^verbatim>\<open>all_primes\<close>, which needs \<^verbatim>\<open>exact_minimum_cover\<close> of \<^verbatim>\<open>unate.c\<close>).  The rest of the repository (the SIS system, the state assignment programs, format
  converters) are other programs around this minimiser.
\<close>

end
